(* ===== verification/Machine_Base.thy ===== *)
theory Machine_Base
  imports Main "HOL-Library.Word" "HOL-Library.Monad_Syntax"
begin

text \<open>
  Shared vocabulary of the development: the machine integers of the C code, reads and
  writes of arrays that are stuck when they are out of range, debug assertions, and linked
  paths through "next" pointers.

  A C function is a HOL function whose result is an \<open>option\<close> whenever the code can go
  wrong: \<^term>\<open>None\<close> stands for an execution that the C standard or the code itself does
  not continue (a null or out-of-range access, a failed \<open>assert\<close> or \<open>UPB_ASSERT\<close>, a loop
  that does not end). A theorem that such a function returns \<open>Some\<close> therefore says that
  none of these happens.
\<close>

unbundle bit_operations_syntax

section \<open>Machine integers\<close>

type_synonym u8 = "8 word"
type_synonym u16 = "16 word"
type_synonym u32 = "32 word"
type_synonym u64 = "64 word"

lemma unat_of_nat_id: "n < 2 ^ LENGTH('a) \<Longrightarrow> unat (of_nat n :: 'a::len word) = n"
  by (simp add: unat_of_nat take_bit_nat_eq_self)

lemma unat_of_nat_Suc:
  assumes "Suc n < 2 ^ LENGTH('a)"
  shows "unat (of_nat n + 1 :: 'a::len word) = Suc n"
proof -
  have "of_nat n + 1 = (of_nat (Suc n) :: 'a word)" by simp
  then show ?thesis using unat_of_nat_id [OF assms] by metis
qed

lemma unat_add_below:
  fixes v w :: "'a::len word"
  assumes "unat v + unat w < 2 ^ LENGTH('a)"
  shows "unat (v + w) = unat v + unat w"
  using unat_of_nat_id [OF assms] by simp

lemma unat_lt_exp: "unat (w :: 'a::len word) < 2 ^ LENGTH('a)"
  by (rule unsigned_less)

lemma unat_inj_iff [simp]: "unat v = unat w \<longleftrightarrow> v = w"
  by (simp add: word_unat_eq_iff)

lemma unat_add_one:
  fixes w :: "'a::len word"
  assumes "w \<noteq> - 1"
  shows "unat (w + 1) = Suc (unat w)"
proof -
  have "w + 1 \<noteq> 0" using assms by (simp add: eq_neg_iff_add_eq_0)
  then show ?thesis using unatSuc by (metis add.commute)
qed

lemma unat_eq_imp: "unat v = n \<Longrightarrow> v = of_nat n"
  by auto

lemma bit_top:
  fixes v :: "'a::len word"
  assumes "2 ^ k \<le> unat v" "unat v < 2 ^ Suc k"
  shows "bit v k"
proof -
  have "unat v div 2 ^ k = 1"
    using assms by (simp add: div_nat_eqI)
  then have "bit (unat v) k" by (simp add: bit_iff_odd)
  then show ?thesis by (simp add: bit_unsigned_iff)
qed

lemma take_bit_below:
  fixes d :: "'a::len word"
  assumes "unat d < 2 ^ k"
  shows "take_bit k d = d"
  using assms by (simp add: word_unat_eq_iff unsigned_take_bit_eq take_bit_nat_eq_self)

lemma unat_exp_below: "k < 32 \<Longrightarrow> unat (2 ^ k :: u32) = 2 ^ k"
proof -
  assume "k < 32"
  then have "(2::nat) ^ k < 2 ^ LENGTH(32)" by (intro power_strict_increasing) simp_all
  from unat_of_nat_id [OF this] show ?thesis by simp
qed

lemma bit_below: "unat (v :: 'a::len word) < 2 ^ n \<Longrightarrow> bit v i \<Longrightarrow> i < n"
  by (metis bit_take_bit_iff take_bit_below)

lemma push_bit_or:
  fixes m d :: "'a::len word"
  assumes "unat d < 2 ^ k"
  shows "push_bit k m OR d = m * 2 ^ k + d"
proof -
  have "push_bit k m AND d = push_bit k m AND take_bit k d" using assms by (simp add: take_bit_below)
  also have "\<dots> = 0" by (rule bit_word_eqI) (auto simp: bit_simps)
  finally have "push_bit k m + d = push_bit k m OR d" by (rule disjunctive_add_eq_or)
  then show ?thesis by (simp add: push_bit_eq_mult)
qed

section \<open>Array accesses and assertions\<close>

definition fetch :: "'a list \<Rightarrow> nat \<Rightarrow> 'a option" where
  "fetch xs i = (if i < length xs then Some (xs ! i) else None)"

definition store :: "'a list \<Rightarrow> nat \<Rightarrow> 'a \<Rightarrow> 'a list option" where
  "store xs i v = (if i < length xs then Some (xs[i := v]) else None)"

definition assert_c :: "bool \<Rightarrow> unit option" where
  "assert_c b = (if b then Some () else None)"

lemma fetch_in [simp]: "i < length xs \<Longrightarrow> fetch xs i = Some (xs ! i)"
  by (simp add: fetch_def)

lemma fetch_out [simp]: "\<not> i < length xs \<Longrightarrow> fetch xs i = None"
  by (simp add: fetch_def)

lemma fetch_eq_Some: "fetch xs i = Some x \<longleftrightarrow> i < length xs \<and> x = xs ! i"
  by (auto simp: fetch_def)

lemma store_in [simp]: "i < length xs \<Longrightarrow> store xs i v = Some (xs[i := v])"
  by (simp add: store_def)

lemma store_out [simp]: "\<not> i < length xs \<Longrightarrow> store xs i v = None"
  by (simp add: store_def)

lemma store_eq_Some: "store xs i v = Some ys \<longleftrightarrow> i < length xs \<and> ys = xs[i := v]"
  by (auto simp: store_def)

lemma assert_c_simps [simp]: "assert_c True = Some ()" "assert_c False = None"
  by (simp_all add: assert_c_def)

lemma assert_c_eq_Some [simp]: "assert_c b = Some u \<longleftrightarrow> b"
  by (simp add: assert_c_def)

section \<open>Scanning index ranges\<close>

lemma find_upt_Some:
  "find P [a..<b] = Some j \<longleftrightarrow> a \<le> j \<and> j < b \<and> P j \<and> (\<forall>k. a \<le> k \<and> k < j \<longrightarrow> \<not> P k)"
proof
  assume "find P [a..<b] = Some j"
  then obtain i where i: "i < length [a..<b]" "P ([a..<b] ! i)" "j = [a..<b] ! i"
    "\<And>m. m < i \<Longrightarrow> \<not> P ([a..<b] ! m)"
    by (auto simp: find_Some_iff)
  then have j: "j = a + i" "a + i < b" by auto
  have "\<not> P k" if "a \<le> k" "k < j" for k
    using i(4)[of "k - a"] that j by auto
  with i j show "a \<le> j \<and> j < b \<and> P j \<and> (\<forall>k. a \<le> k \<and> k < j \<longrightarrow> \<not> P k)" by auto
next
  assume r: "a \<le> j \<and> j < b \<and> P j \<and> (\<forall>k. a \<le> k \<and> k < j \<longrightarrow> \<not> P k)"
  then show "find P [a..<b] = Some j"
    unfolding find_Some_iff by (intro exI [of _ "j - a"]) auto
qed

lemma find_upt_None: "find P [a..<b] = None \<longleftrightarrow> (\<forall>k. a \<le> k \<and> k < b \<longrightarrow> \<not> P k)"
  by (auto simp: find_None_iff)

section \<open>Folding a body that can be stuck\<close>

primrec foldM :: "('a \<Rightarrow> 's \<Rightarrow> 's option) \<Rightarrow> 'a list \<Rightarrow> 's \<Rightarrow> 's option" where
  "foldM f [] s = Some s"
| "foldM f (x # xs) s = do { s' \<leftarrow> f x s; foldM f xs s' }"

lemma foldM_append: "foldM f (xs @ ys) s = do { s' \<leftarrow> foldM f xs s; foldM f ys s' }"
  by (induction xs arbitrary: s) auto

lemma foldM_map: "foldM f (map g xs) s = foldM (\<lambda>x. f (g x)) xs s"
  by (induction xs arbitrary: s) auto

lemma foldM_cong: "(\<And>x s. x \<in> set xs \<Longrightarrow> f x s = g x s) \<Longrightarrow> foldM f xs s = foldM g xs s"
  by (induction xs arbitrary: s) (auto cong: Option.bind_cong)

section \<open>Linked paths\<close>

text \<open>
  \<open>linked nx p xs\<close>: from pointer \<open>p\<close>, following \<open>nx\<close>, the nodes visited before the
  null pointer are \<open>xs\<close>, in this order.
\<close>

primrec linked :: "('a \<Rightarrow> 'a option) \<Rightarrow> 'a option \<Rightarrow> 'a list \<Rightarrow> bool" where
  "linked nx p [] \<longleftrightarrow> p = None"
| "linked nx p (a # as) \<longleftrightarrow> p = Some a \<and> linked nx (nx a) as"

lemma linked_None [simp]: "linked nx None xs \<longleftrightarrow> xs = []"
  by (cases xs) auto

lemma linked_Some: "linked nx (Some a) xs \<longleftrightarrow> (\<exists>ys. xs = a # ys \<and> linked nx (nx a) ys)"
  by (cases xs) auto

lemma linked_cong: "(\<And>a. a \<in> set xs \<Longrightarrow> nx a = nx' a) \<Longrightarrow> linked nx p xs = linked nx' p xs"
  by (induction xs arbitrary: p) auto

lemma linked_unique: "linked nx p xs \<Longrightarrow> linked nx p ys \<Longrightarrow> xs = ys"
proof (induction xs arbitrary: p ys)
  case Nil
  then show ?case by simp
next
  case (Cons a xs)
  then show ?case by (cases ys) auto
qed

lemma linked_append:
  "linked nx p (xs @ a # ys) \<Longrightarrow> linked nx (Some a) (a # ys)"
  by (induction xs arbitrary: p) auto

lemma linked_tail: "linked nx p (xs @ a # ys) \<Longrightarrow> linked nx (nx a) ys"
  using linked_append by fastforce

lemma linked_mid: "linked nx p (xs @ a # b # ys) \<Longrightarrow> nx a = Some b"
  by (induction xs arbitrary: p) auto

lemma linked_distinct: "linked nx p xs \<Longrightarrow> distinct xs"
proof (induction xs arbitrary: p)
  case Nil
  then show ?case by simp
next
  case (Cons a xs)
  then have dist: "distinct xs" and tl: "linked nx (nx a) xs" by auto
  have "a \<notin> set xs"
  proof
    assume "a \<in> set xs"
    then obtain us vs where "xs = us @ a # vs" by (meson split_list)
    with tl have "linked nx (nx a) vs" using linked_tail by fastforce
    with tl \<open>xs = us @ a # vs\<close> show False
      using linked_unique by fastforce
  qed
  with dist show ?case by simp
qed

text \<open>Splicing a path at a node whose successor changes.\<close>

lemma linked_splice:
  assumes "linked nx p (xs @ a # ys)"
    and "\<And>b. b \<in> set xs \<Longrightarrow> nx' b = nx b"
    and "linked nx' (nx' a) zs"
  shows "linked nx' p (xs @ a # zs)"
  using assms by (induction xs arbitrary: p) auto

end
