(* ===== verification/Upb_Table.thy ===== *)
theory Upb_Table
  imports Machine_Base
begin

text \<open>
  The base hash table of upb (\<open>upb/table.c\<close>, \<open>upb/table_internal.h\<close>): chained scatter
  with Brent's variation. The entries live in one array of \<open>2 ^ size_lg2\<close> slots; an
  entry whose key is 0 is empty; collisions are chained through \<open>next\<close> pointers into the
  same array, which the model keeps as indices. The theory defines the operations of
  \<open>table.c\<close> one by one, states the invariant of the chains, and proves that lookup,
  insertion and removal implement a finite map.

  The key type is a parameter with a zero (the key of an empty slot). Hash function and
  key comparison are arguments, as the C code passes them. A load factor
  \<open>size * MAX_LOAD\<close> computed in \<open>double\<close> is \<open>size * 17 div 20\<close>: for a power of two the
  product is exact up to the representation error of 0.85, which cannot reach an integer.
\<close>

section \<open>Data\<close>

record 'k tabent =
  te_key :: 'k
  te_val :: u64
  te_next :: "nat option"

record 'k upb_table =
  t_count :: nat
  t_mask :: u32
  t_max_count :: nat
  t_size_lg2 :: nat
  t_entries :: "'k tabent list"

definition UPB_MAXARRSIZE :: nat where
  "UPB_MAXARRSIZE = 16"

definition SIZE_MAX :: u64 where
  "SIZE_MAX = - 1"

definition upb_table_size :: "'k upb_table \<Rightarrow> nat" where
  "upb_table_size t = (if t_size_lg2 t = 0 then 0 else 2 ^ t_size_lg2 t)"

definition upb_tabent_isempty :: "'k::zero tabent \<Rightarrow> bool" where
  "upb_tabent_isempty e \<longleftrightarrow> te_key e = 0"

definition empty_tabent :: "'k::zero tabent" where
  "empty_tabent = \<lparr>te_key = 0, te_val = 0, te_next = None\<rparr>"

section \<open>Operations\<close>

definition upb_getentry :: "'k upb_table \<Rightarrow> u32 \<Rightarrow> nat" where
  "upb_getentry t hash = unat (hash AND t_mask t)"

definition isfull :: "'k upb_table \<Rightarrow> bool" where
  "isfull t \<longleftrightarrow> t_count t = t_max_count t"

text \<open>
  \<open>init\<close>: the arena allocation is the argument \<open>ok\<close> (whether \<open>upb_arena_malloc\<close> returned
  memory); a failed allocation leaves the table unusable, which is the result \<open>None\<close>. With
  \<open>size_lg2 = 0\<close> nothing is allocated and the entries pointer is null: an empty array.
\<close>

definition table_bytes :: "nat \<Rightarrow> nat" where
  "table_bytes size_lg2 = (if size_lg2 = 0 then 0 else 2 ^ size_lg2) * 24"

definition init_table :: "nat \<Rightarrow> bool \<Rightarrow> 'k::zero upb_table option" where
  "init_table size_lg2 ok =
     (let size = (if size_lg2 = 0 then 0 else 2 ^ size_lg2) in
      if size > 0 \<and> \<not> ok then None
      else Some \<lparr>t_count = 0,
                 t_mask = (if size > 0 then of_nat (size - 1) else 0),
                 t_max_count = size * 17 div 20,
                 t_size_lg2 = size_lg2,
                 t_entries = replicate size empty_tabent\<rparr>)"

definition emptyent :: "'k::zero upb_table \<Rightarrow> nat \<Rightarrow> nat option" where
  "emptyent t e =
     (case find (\<lambda>i. upb_tabent_isempty (t_entries t ! i)) [Suc e..<upb_table_size t] of
        Some i \<Rightarrow> Some i
      | None \<Rightarrow> find (\<lambda>i. upb_tabent_isempty (t_entries t ! i)) [0..<upb_table_size t])"

partial_function (option) chase ::
  "'k tabent list \<Rightarrow> ('k \<Rightarrow> 'l \<Rightarrow> bool) \<Rightarrow> 'l \<Rightarrow> nat \<Rightarrow> nat option option" where
  "chase es eql key e =
     do { ent \<leftarrow> fetch es e;
          if eql (te_key ent) key then Some (Some e)
          else (case te_next ent of
                  None \<Rightarrow> Some None
                | Some e' \<Rightarrow> chase es eql key e') }"

definition findentry ::
  "'k::zero upb_table \<Rightarrow> 'l \<Rightarrow> u32 \<Rightarrow> ('k \<Rightarrow> 'l \<Rightarrow> bool) \<Rightarrow> nat option option" where
  "findentry t key hash eql =
     (if t_size_lg2 t = 0 then Some None
      else do { e \<leftarrow> fetch (t_entries t) (upb_getentry t hash);
                if upb_tabent_isempty e then Some None
                else chase (t_entries t) eql key (upb_getentry t hash) })"

definition tab_lookup ::
  "'k::zero upb_table \<Rightarrow> 'l \<Rightarrow> u32 \<Rightarrow> ('k \<Rightarrow> 'l \<Rightarrow> bool) \<Rightarrow> u64 option option" where
  "tab_lookup t key hash eql =
     do { r \<leftarrow> findentry t key hash eql;
          case r of
            None \<Rightarrow> Some None
          | Some i \<Rightarrow> do { e \<leftarrow> fetch (t_entries t) i; Some (Some (te_val e)) } }"

text \<open>The walk to the predecessor of an evicted entry; a null \<open>next\<close> fails the assertion.\<close>

partial_function (option) find_pred :: "'k tabent list \<Rightarrow> nat \<Rightarrow> nat \<Rightarrow> nat option" where
  "find_pred es target chain =
     do { ent \<leftarrow> fetch es chain;
          if te_next ent = Some target then Some chain
          else (case te_next ent of
                  None \<Rightarrow> None
                | Some chain' \<Rightarrow> find_pred es target chain') }"

text \<open>
  \<open>place\<close> is the part of \<open>insert\<close> that picks the slot of the new entry and links it:
  it returns the entries with the links changed and the slot \<open>our_e\<close>.
\<close>

definition place ::
  "'k::zero upb_table \<Rightarrow> u32 \<Rightarrow> ('k \<Rightarrow> u32) \<Rightarrow> ('k tabent list \<times> nat) option" where
  "place t hash hashfunc =
     do { let es = t_entries t;
          let mainpos_e = upb_getentry t hash;
          main_ent \<leftarrow> fetch es mainpos_e;
          if upb_tabent_isempty main_ent
          then do { es1 \<leftarrow> store es mainpos_e (main_ent\<lparr>te_next := None\<rparr>);
                    Some (es1, mainpos_e) }
          else do { new_e \<leftarrow> emptyent t mainpos_e;
                    let chain = upb_getentry t (hashfunc (te_key main_ent));
                    if chain = mainpos_e
                    then do { new_ent \<leftarrow> fetch es new_e;
                              es1 \<leftarrow> store es new_e (new_ent\<lparr>te_next := te_next main_ent\<rparr>);
                              es2 \<leftarrow> store es1 mainpos_e (main_ent\<lparr>te_next := Some new_e\<rparr>);
                              Some (es2, new_e) }
                    else do { es1 \<leftarrow> store es new_e main_ent;
                              p \<leftarrow> find_pred es1 mainpos_e chain;
                              pred_ent \<leftarrow> fetch es1 p;
                              es2 \<leftarrow> store es1 p (pred_ent\<lparr>te_next := Some new_e\<rparr>);
                              main_ent' \<leftarrow> fetch es2 mainpos_e;
                              es3 \<leftarrow> store es2 mainpos_e (main_ent'\<lparr>te_next := None\<rparr>);
                              Some (es3, mainpos_e) } } }"

definition tab_insert ::
  "'k::zero upb_table \<Rightarrow> 'l \<Rightarrow> 'k \<Rightarrow> u64 \<Rightarrow> u32 \<Rightarrow> ('k \<Rightarrow> u32) \<Rightarrow> ('k \<Rightarrow> 'l \<Rightarrow> bool) \<Rightarrow>
   'k upb_table option" where
  "tab_insert t key tabkey val hash hashfunc eql =
     do { r \<leftarrow> findentry t key hash eql;
          assert_c (r = None);
          let t1 = t\<lparr>t_count := t_count t + 1\<rparr>;
          (es, our_e) \<leftarrow> place t1 hash hashfunc;
          our_ent \<leftarrow> fetch es our_e;
          es' \<leftarrow> store es our_e (our_ent\<lparr>te_key := tabkey, te_val := val\<rparr>);
          let t2 = t1\<lparr>t_entries := es'\<rparr>;
          r' \<leftarrow> findentry t2 key hash eql;
          assert_c (r' = Some our_e);
          Some t2 }"

partial_function (option) rm_walk ::
  "'k tabent list \<Rightarrow> ('k \<Rightarrow> 'l \<Rightarrow> bool) \<Rightarrow> 'l \<Rightarrow> nat \<Rightarrow> nat option" where
  "rm_walk es eql key chain =
     do { ent \<leftarrow> fetch es chain;
          case te_next ent of
            None \<Rightarrow> Some chain
          | Some n \<Rightarrow> do { nent \<leftarrow> fetch es n;
                            if eql (te_key nent) key then Some chain
                            else rm_walk es eql key n } }"

text \<open>
  \<open>rm\<close> returns the table and, when the key was there, the removed key and value (the
  results stored through \<open>removed\<close> and \<open>val\<close>). As in the code there is no test of
  \<open>size_lg2\<close>: on a table without entries the first read is through a null pointer.
\<close>

definition tab_rm ::
  "'k::zero upb_table \<Rightarrow> 'l \<Rightarrow> u32 \<Rightarrow> ('k \<Rightarrow> 'l \<Rightarrow> bool) \<Rightarrow>
   ('k upb_table \<times> ('k \<times> u64) option) option" where
  "tab_rm t key hash eql =
     do { let es = t_entries t;
          let chain = upb_getentry t hash;
          ent \<leftarrow> fetch es chain;
          if upb_tabent_isempty ent then Some (t, None)
          else if eql (te_key ent) key
          then (case te_next ent of
                  Some mv \<Rightarrow>
                    do { move \<leftarrow> fetch es mv;
                         es1 \<leftarrow> store es chain move;
                         move' \<leftarrow> fetch es1 mv;
                         es2 \<leftarrow> store es1 mv (move'\<lparr>te_key := 0\<rparr>);
                         Some (t\<lparr>t_count := t_count t - 1, t_entries := es2\<rparr>,
                               Some (te_key ent, te_val ent)) }
                | None \<Rightarrow>
                    do { es1 \<leftarrow> store es chain (ent\<lparr>te_key := 0\<rparr>);
                         Some (t\<lparr>t_count := t_count t - 1, t_entries := es1\<rparr>,
                               Some (te_key ent, te_val ent)) })
          else do { c \<leftarrow> rm_walk es eql key chain;
                    cent \<leftarrow> fetch es c;
                    case te_next cent of
                      None \<Rightarrow> Some (t, None)
                    | Some r \<Rightarrow>
                        do { rent \<leftarrow> fetch es r;
                             es1 \<leftarrow> store es r (rent\<lparr>te_key := 0\<rparr>);
                             cent' \<leftarrow> fetch es1 c;
                             es2 \<leftarrow> store es1 c (cent'\<lparr>te_next := te_next rent\<rparr>);
                             Some (t\<lparr>t_count := t_count t - 1, t_entries := es2\<rparr>,
                                   Some (te_key rent, te_val rent)) } } }"

text \<open>
  Iteration by index. \<open>tab_next\<close> takes the index as a \<open>size_t\<close>: \<open>begin\<close> calls it with
  \<open>-1\<close>, which the increment wraps to 0.
\<close>

definition tab_next :: "'k::zero upb_table \<Rightarrow> u64 \<Rightarrow> u64" where
  "tab_next t i =
     (case find (\<lambda>j. \<not> upb_tabent_isempty (t_entries t ! j))
            [unat (i + 1)..<upb_table_size t] of
        None \<Rightarrow> SIZE_MAX - 1
      | Some j \<Rightarrow> of_nat j)"

definition tab_begin :: "'k::zero upb_table \<Rightarrow> u64" where
  "tab_begin t = tab_next t (- 1)"

text \<open>The loop \<open>for (i = begin(t); i < upb_table_size(t); i = next(t, i))\<close>.\<close>

partial_function (option) tab_iter ::
  "'k::zero upb_table \<Rightarrow> ('k tabent \<Rightarrow> 's \<Rightarrow> 's option) \<Rightarrow> u64 \<Rightarrow> 's \<Rightarrow> 's option" where
  "tab_iter t body i s =
     (if unat i < upb_table_size t
      then do { e \<leftarrow> fetch (t_entries t) (unat i);
                s' \<leftarrow> body e s;
                tab_iter t body (tab_next t i) s' }
      else Some s)"

section \<open>Chains\<close>

text \<open>
  The chains of a table, seen through the functions \<open>key\<close> and \<open>nx\<close> of its slots:
  \<open>C b\<close> lists the slots of the chain whose main position is \<open>b\<close>. A chain starts in its
  own main position, holds exactly the occupied slots whose key hashes there, and follows
  the \<open>next\<close> pointers. The \<open>next\<close> field of an empty slot is arbitrary.
\<close>

definition chains ::
  "nat \<Rightarrow> (nat \<Rightarrow> 'k::zero) \<Rightarrow> (nat \<Rightarrow> nat option) \<Rightarrow> ('k \<Rightarrow> nat) \<Rightarrow> (nat \<Rightarrow> nat list) \<Rightarrow> bool" where
  "chains n key nx home C \<longleftrightarrow>
     (\<forall>b<n. C b \<noteq> [] \<longrightarrow> linked nx (Some b) (C b)) \<and>
     (\<forall>b<n. \<forall>i\<in>set (C b). i < n \<and> key i \<noteq> 0 \<and> home (key i) = b) \<and>
     (\<forall>i<n. key i \<noteq> 0 \<longrightarrow> i \<in> set (C (home (key i))))"

lemma chainsI:
  assumes "\<And>b. b < n \<Longrightarrow> C b \<noteq> [] \<Longrightarrow> linked nx (Some b) (C b)"
    and "\<And>b i. b < n \<Longrightarrow> i \<in> set (C b) \<Longrightarrow> i < n \<and> key i \<noteq> 0 \<and> home (key i) = b"
    and "\<And>i. i < n \<Longrightarrow> key i \<noteq> 0 \<Longrightarrow> i \<in> set (C (home (key i)))"
  shows "chains n key nx home C"
  using assms by (auto simp: chains_def)

lemma chains_linked: "chains n key nx home C \<Longrightarrow> b < n \<Longrightarrow> C b \<noteq> [] \<Longrightarrow> linked nx (Some b) (C b)"
  by (auto simp: chains_def)

lemma chains_member:
  "chains n key nx home C \<Longrightarrow> b < n \<Longrightarrow> i \<in> set (C b) \<Longrightarrow> i < n \<and> key i \<noteq> 0 \<and> home (key i) = b"
  by (auto simp: chains_def)

lemma chains_cover: "chains n key nx home C \<Longrightarrow> i < n \<Longrightarrow> key i \<noteq> 0 \<Longrightarrow> i \<in> set (C (home (key i)))"
  by (auto simp: chains_def)

lemma chains_head:
  assumes "chains n key nx home C" "b < n" "C b \<noteq> []"
  shows "\<exists>xs. C b = b # xs"
  using chains_linked [OF assms] by (cases "C b") auto

lemma chains_empty_main:
  assumes ch: "chains n key nx home C" and "m < n" "key m = 0"
  shows "C m = []"
proof (rule ccontr)
  assume "C m \<noteq> []"
  then obtain xs where "C m = m # xs" using chains_head [OF ch \<open>m < n\<close>] by auto
  then show False using chains_member [OF ch \<open>m < n\<close>, of m] \<open>key m = 0\<close> by simp
qed

lemma chains_foreign_main:
  assumes ch: "chains n key nx home C" and m: "m < n" "home (key m) \<noteq> m"
  shows "C m = []"
proof (rule ccontr)
  assume "C m \<noteq> []"
  then obtain xs where "C m = m # xs" using chains_head [OF ch \<open>m < n\<close>] by auto
  then show False using chains_member [OF ch \<open>m < n\<close>, of m] m by simp
qed

lemma chains_own_main:
  assumes ch: "chains n key nx home C" and m: "m < n" "key m \<noteq> 0" "home (key m) = m"
  obtains xs where "C m = m # xs" "linked nx (nx m) xs" "m \<notin> set xs"
proof -
  have "m \<in> set (C m)" using chains_cover [OF ch m(1,2)] m(3) by simp
  then have ne: "C m \<noteq> []" by auto
  obtain xs where xs: "C m = m # xs" using chains_head [OF ch m(1) ne] by auto
  have l: "linked nx (Some m) (m # xs)" using chains_linked [OF ch m(1) ne] xs by simp
  then have "linked nx (nx m) xs" by simp
  moreover have "m \<notin> set xs" using linked_distinct [OF l] by simp
  ultimately show thesis using that xs by blast
qed

lemma linked_upd_out: "u \<notin> set xs \<Longrightarrow> linked (nx(u := w)) p xs = linked nx p xs"
  by (rule linked_cong) auto

lemma chain_not_in:
  assumes "chains n key nx home C" "b < n" "key e = 0"
  shows "e \<notin> set (C b)"
  using chains_member [OF assms(1,2)] assms(3) by auto

lemma chain_disjoint:
  assumes "chains n key nx home C" "b < n" "home (key m) \<noteq> b"
  shows "m \<notin> set (C b)"
  using chains_member [OF assms(1,2)] assms(3) by auto

subsection \<open>The six ways a chain changes\<close>

lemma chains_fill:
  assumes ch: "chains n key nx home C" and m: "m < n" "key m = 0" and k: "home k = m" "k \<noteq> 0"
  shows "chains n (key(m := k)) (nx(m := None)) home (C(m := [m]))"
proof (rule chainsI)
  fix b assume b: "b < n" "(C(m := [m])) b \<noteq> []"
  have "m \<notin> set (C b)" using chain_not_in [OF ch b(1) m(2)] .
  with b show "linked (nx(m := None)) (Some b) ((C(m := [m])) b)"
    using chains_linked [OF ch b(1)] by (auto simp: linked_upd_out)
next
  fix b i assume b: "b < n" "i \<in> set ((C(m := [m])) b)"
  show "i < n \<and> (key(m := k)) i \<noteq> 0 \<and> home ((key(m := k)) i) = b"
  proof (cases "b = m")
    case True
    with b m k show ?thesis by simp
  next
    case False
    with b have i: "i \<in> set (C b)" by simp
    then have "i \<noteq> m" using chain_not_in [OF ch b(1) m(2)] by auto
    then show ?thesis using chains_member [OF ch b(1) i] by simp
  qed
next
  fix i assume i: "i < n" "(key(m := k)) i \<noteq> 0"
  show "i \<in> set ((C(m := [m])) (home ((key(m := k)) i)))"
  proof (cases "i = m")
    case True
    with k show ?thesis by simp
  next
    case False
    with i have c: "i \<in> set (C (home (key i)))" using chains_cover [OF ch] by simp
    have "C m = []" using chains_empty_main [OF ch m] .
    with c have "home (key i) \<noteq> m" by auto
    with c False show ?thesis by simp
  qed
qed

lemma chains_append:
  assumes ch: "chains n key nx home C" and m: "m < n" "key m \<noteq> 0" "home (key m) = m"
    and e: "e < n" "key e = 0" and k: "home k = m" "k \<noteq> 0" and xs: "C m = m # xs"
  shows "chains n (key(e := k)) (nx(e := nx m, m := Some e)) home (C(m := m # e # xs))"
proof (rule chainsI)
  have em: "e \<noteq> m" using m e by auto
  fix b assume b: "b < n" "(C(m := m # e # xs)) b \<noteq> []"
  have eb: "e \<notin> set (C b)" using chain_not_in [OF ch b(1) e(2)] .
  show "linked (nx(e := nx m, m := Some e)) (Some b) ((C(m := m # e # xs)) b)"
  proof (cases "b = m")
    case True
    have l: "linked nx (Some m) (m # xs)" using chains_linked [OF ch m(1)] xs by simp
    have "m \<notin> set xs" using linked_distinct [OF l] by simp
    moreover have "e \<notin> set xs" using eb True xs by auto
    ultimately have "linked (nx(e := nx m, m := Some e)) (nx m) xs"
      using l by (simp add: linked_upd_out)
    with True em show ?thesis by simp
  next
    case False
    have "m \<notin> set (C b)" using chain_disjoint [OF ch b(1)] m(3) False by auto
    then show ?thesis using False b eb chains_linked [OF ch b(1)] by (auto simp: linked_upd_out)
  qed
next
  fix b i assume b: "b < n" "i \<in> set ((C(m := m # e # xs)) b)"
  have "i = e \<and> b = m \<or> i \<in> set (C b)" using b xs by (auto split: if_splits)
  then show "i < n \<and> (key(e := k)) i \<noteq> 0 \<and> home ((key(e := k)) i) = b"
    using e k chains_member [OF ch b(1)] chain_not_in [OF ch b(1) e(2)] by auto
next
  fix i assume i: "i < n" "(key(e := k)) i \<noteq> 0"
  show "i \<in> set ((C(m := m # e # xs)) (home ((key(e := k)) i)))"
    using i k xs chains_cover [OF ch i(1)] by (auto split: if_splits)
qed

lemma chains_evict:
  assumes ch: "chains n key nx home C" and m: "m < n" "key m \<noteq> 0" "home (key m) = h" "h \<noteq> m"
    and h: "h < n" and e: "e < n" "key e = 0" and k: "home k = m" "k \<noteq> 0"
    and path: "C h = us @ p # m # vs"
  shows "chains n (key(e := key m, m := k)) (nx(e := nx m, p := Some e, m := None)) home
           (C(h := us @ p # e # vs, m := [m]))"
    (is "chains n ?key ?nx home ?C")
proof (rule chainsI)
  have em: "e \<noteq> m" using m e by auto
  have lh: "linked nx (Some h) (us @ p # m # vs)" using chains_linked [OF ch h] path by simp
  have dh: "distinct (us @ p # m # vs)" using linked_distinct [OF lh] .
  have eh: "e \<notin> set (us @ p # m # vs)" using chain_not_in [OF ch h e(2)] path by simp
  have homep: "home (key p) = h" using chains_member [OF ch h, of p] path by simp
  have Cm: "C m = []" using chains_foreign_main [OF ch m(1)] m by simp
  fix b assume b: "b < n" "?C b \<noteq> []"
  show "linked ?nx (Some b) (?C b)"
  proof (cases "b = m \<or> b = h")
    case True
    have "linked nx (nx m) vs" using linked_tail [of nx "Some h" "us @ [p]" m vs] lh by simp
    then have v: "linked ?nx (nx m) vs"
      by (rule linked_cong [THEN iffD1, rotated]) (use dh eh in auto)
    have "linked ?nx (Some h) (us @ p # (e # vs))"
      by (rule linked_splice [OF lh]) (use dh eh em v in auto)
    with True m(4) show ?thesis by auto
  next
    case False
    have "set (C b) \<inter> {e, p, m} = {}"
      using chain_not_in [OF ch b(1) e(2)] chain_disjoint [OF ch b(1), of p]
        chain_disjoint [OF ch b(1), of m] homep m(3) False by auto
    then show ?thesis
      using False b chains_linked [OF ch b(1)] by (auto simp: linked_upd_out)
  qed
next
  have hk: "\<And>i. i \<in> set (C h) \<Longrightarrow> i < n \<and> key i \<noteq> 0 \<and> home (key i) = h"
    using chains_member [OF ch h] .
  have lh: "linked nx (Some h) (us @ p # m # vs)" using chains_linked [OF ch h] path by simp
  have dh: "distinct (us @ p # m # vs)" using linked_distinct [OF lh] .
  fix b i assume b: "b < n" "i \<in> set (?C b)"
  show "i < n \<and> ?key i \<noteq> 0 \<and> home (?key i) = b"
  proof (cases "b = m")
    case True
    with b k m show ?thesis by simp
  next
    case False
    have "i = e \<and> b = h \<or> i \<in> set (C b) \<and> i \<noteq> m"
      using b False path dh chain_disjoint [OF ch b(1), of m] m(3) by (auto split: if_splits)
    then show ?thesis
      using e m chains_member [OF ch b(1)] chain_not_in [OF ch b(1) e(2)] by auto
  qed
next
  have Cm: "C m = []" using chains_foreign_main [OF ch m(1)] m by simp
  fix i assume i: "i < n" "?key i \<noteq> 0"
  show "i \<in> set (?C (home (?key i)))"
  proof (cases "i = m \<or> i = e")
    case True
    with m k e show ?thesis by auto
  next
    case False
    then have c: "i \<in> set (C (home (key i)))" using chains_cover [OF ch i(1)] i(2) by auto
    with Cm have "home (key i) \<noteq> m" by auto
    with c False path show ?thesis by auto
  qed
qed

lemma chains_drop_head:
  assumes ch: "chains n key nx home C" and m: "m < n" "key m \<noteq> 0" "home (key m) = m"
    and xs: "C m = m # mv # xs"
  shows "chains n (key(m := key mv, mv := 0)) (nx(m := nx mv)) home (C(m := m # xs))"
proof (rule chainsI)
  have l: "linked nx (Some m) (m # mv # xs)" using chains_linked [OF ch m(1)] xs by simp
  have d: "distinct (m # mv # xs)" using linked_distinct [OF l] .
  fix b assume b: "b < n" "(C(m := m # xs)) b \<noteq> []"
  show "linked (nx(m := nx mv)) (Some b) ((C(m := m # xs)) b)"
  proof (cases "b = m")
    case True
    with l d show ?thesis by (auto simp: linked_upd_out)
  next
    case False
    then have "m \<notin> set (C b)" using chain_disjoint [OF ch b(1)] m(3) by simp
    with False b show ?thesis using chains_linked [OF ch b(1)] by (simp add: linked_upd_out)
  qed
next
  have l: "linked nx (Some m) (m # mv # xs)" using chains_linked [OF ch m(1)] xs by simp
  have d: "distinct (m # mv # xs)" using linked_distinct [OF l] .
  have mv: "mv < n" "key mv \<noteq> 0" "home (key mv) = m"
    using chains_member [OF ch m(1), of mv] xs by auto
  fix b i assume b: "b < n" "i \<in> set ((C(m := m # xs)) b)"
  show "i < n \<and> (key(m := key mv, mv := 0)) i \<noteq> 0 \<and> home ((key(m := key mv, mv := 0)) i) = b"
  proof (cases "b = m")
    case True
    with b d mv m chains_member [OF ch m(1), of i] xs show ?thesis by auto
  next
    case False
    with b have i: "i \<in> set (C b)" by simp
    have "i \<noteq> m" "i \<noteq> mv"
      using i chain_disjoint [OF ch b(1), of m] chain_disjoint [OF ch b(1), of mv] m mv False by auto
    then show ?thesis using chains_member [OF ch b(1) i] by simp
  qed
next
  have mv: "mv < n" "key mv \<noteq> 0" "home (key mv) = m"
    using chains_member [OF ch m(1), of mv] xs by auto
  fix i assume i: "i < n" "(key(m := key mv, mv := 0)) i \<noteq> 0"
  show "i \<in> set ((C(m := m # xs)) (home ((key(m := key mv, mv := 0)) i)))"
    using i mv xs chains_cover [OF ch i(1)] by (auto split: if_splits)
qed

lemma chains_drop_single:
  assumes ch: "chains n key nx home C" and m: "m < n" "key m \<noteq> 0" "home (key m) = m"
    and xs: "C m = [m]"
  shows "chains n (key(m := 0)) nx home (C(m := []))"
proof (rule chainsI)
  fix b assume b: "b < n" "(C(m := [])) b \<noteq> []"
  then show "linked nx (Some b) ((C(m := [])) b)"
    using chains_linked [OF ch b(1)] by (auto split: if_splits)
next
  fix b i assume b: "b < n" "i \<in> set ((C(m := [])) b)"
  then have i: "i \<in> set (C b)" "b \<noteq> m" by (auto split: if_splits)
  then have "i \<noteq> m" using chain_disjoint [OF ch b(1), of m] m(3) by auto
  then show "i < n \<and> (key(m := 0)) i \<noteq> 0 \<and> home ((key(m := 0)) i) = b"
    using chains_member [OF ch b(1) i(1)] by simp
next
  fix i assume i: "i < n" "(key(m := 0)) i \<noteq> 0"
  then show "i \<in> set ((C(m := [])) (home ((key(m := 0)) i)))"
    using xs chains_cover [OF ch i(1)] by (auto split: if_splits)
qed

lemma chains_drop_inner:
  assumes ch: "chains n key nx home C" and b0: "b0 < n" and path: "C b0 = us @ c # r # vs"
  shows "chains n (key(r := 0)) (nx(c := nx r)) home (C(b0 := us @ c # vs))"
proof (rule chainsI)
  have l: "linked nx (Some b0) (us @ c # r # vs)" using chains_linked [OF ch b0] path by simp
  have d: "distinct (us @ c # r # vs)" using linked_distinct [OF l] .
  have c: "home (key c) = b0" using chains_member [OF ch b0, of c] path by simp
  fix b assume b: "b < n" "(C(b0 := us @ c # vs)) b \<noteq> []"
  show "linked (nx(c := nx r)) (Some b) ((C(b0 := us @ c # vs)) b)"
  proof (cases "b = b0")
    case True
    have "linked nx (nx r) vs" using linked_tail [of nx "Some b0" "us @ [c]" r vs] l by simp
    then have v: "linked (nx(c := nx r)) (nx r) vs" using d by (simp add: linked_upd_out)
    have "linked (nx(c := nx r)) (Some b0) (us @ c # vs)"
      by (rule linked_splice [OF l]) (use d v in auto)
    with True show ?thesis by simp
  next
    case False
    then have "c \<notin> set (C b)" using chain_disjoint [OF ch b(1)] c by simp
    with False b show ?thesis using chains_linked [OF ch b(1)] by (simp add: linked_upd_out)
  qed
next
  have l: "linked nx (Some b0) (us @ c # r # vs)" using chains_linked [OF ch b0] path by simp
  have d: "distinct (us @ c # r # vs)" using linked_distinct [OF l] .
  have r: "home (key r) = b0" using chains_member [OF ch b0, of r] path by simp
  fix b i assume b: "b < n" "i \<in> set ((C(b0 := us @ c # vs)) b)"
  have i: "i \<in> set (C b)" "i \<noteq> r"
    using b path d r chain_disjoint [OF ch b(1), of r] by (auto split: if_splits)
  then show "i < n \<and> (key(r := 0)) i \<noteq> 0 \<and> home ((key(r := 0)) i) = b"
    using chains_member [OF ch b(1) i(1)] by simp
next
  fix i assume i: "i < n" "(key(r := 0)) i \<noteq> 0"
  then show "i \<in> set ((C(b0 := us @ c # vs)) (home ((key(r := 0)) i)))"
    using path chains_cover [OF ch i(1)] by (auto split: if_splits)
qed

section \<open>Occupied slots and the map of a table\<close>

definition slot_key :: "'k tabent list \<Rightarrow> nat \<Rightarrow> 'k" where
  "slot_key es i = te_key (es ! i)"

definition slot_val :: "'k tabent list \<Rightarrow> nat \<Rightarrow> u64" where
  "slot_val es i = te_val (es ! i)"

definition slot_next :: "'k tabent list \<Rightarrow> nat \<Rightarrow> nat option" where
  "slot_next es i = te_next (es ! i)"

lemma slot_fold [simp]:
  "te_key (es ! i) = slot_key es i" "te_val (es ! i) = slot_val es i"
  "te_next (es ! i) = slot_next es i"
  by (simp_all add: slot_key_def slot_val_def slot_next_def)

lemma slot_update [simp]:
  assumes "i < length es"
  shows "slot_key (es[i := x]) = (slot_key es)(i := te_key x)"
    and "slot_val (es[i := x]) = (slot_val es)(i := te_val x)"
    and "slot_next (es[i := x]) = (slot_next es)(i := te_next x)"
  using assms
  by (rule_tac ext, simp add: slot_key_def slot_val_def slot_next_def nth_list_update
      del: slot_fold)+

lemma isempty_slot [simp]: "upb_tabent_isempty (es ! i) \<longleftrightarrow> slot_key es i = 0"
  by (simp add: upb_tabent_isempty_def)

definition occupied :: "nat \<Rightarrow> (nat \<Rightarrow> 'k::zero) \<Rightarrow> nat set" where
  "occupied n key = {i. i < n \<and> key i \<noteq> 0}"

definition kvs :: "nat \<Rightarrow> (nat \<Rightarrow> 'k::zero) \<Rightarrow> (nat \<Rightarrow> 'v) \<Rightarrow> ('k \<times> 'v) set" where
  "kvs n key val = (\<lambda>i. (key i, val i)) ` occupied n key"

lemma kvs_iff: "(a, b) \<in> kvs n key val \<longleftrightarrow> (\<exists>i\<in>occupied n key. key i = a \<and> val i = b)"
  by (auto simp: kvs_def)

lemma finite_occupied [simp]: "finite (occupied n key)"
  by (simp add: occupied_def)

lemma occupied_iff [simp]: "i \<in> occupied n key \<longleftrightarrow> i < n \<and> key i \<noteq> 0"
  by (simp add: occupied_def)

lemma occupied_add:
  "e < n \<Longrightarrow> key e = 0 \<Longrightarrow> k \<noteq> 0 \<Longrightarrow> occupied n (key(e := k)) = Set.insert e (occupied n key)"
  by (auto simp: occupied_def)

lemma occupied_move:
  "e < n \<Longrightarrow> key e = 0 \<Longrightarrow> m < n \<Longrightarrow> key m \<noteq> 0 \<Longrightarrow> k \<noteq> 0 \<Longrightarrow>
   occupied n (key(e := key m, m := k)) = Set.insert e (occupied n key)"
  by (auto simp: occupied_def)

lemma occupied_drop: "occupied n (key(r := 0)) = occupied n key - {r}"
  by (auto simp: occupied_def)

lemma occupied_shift:
  "m < n \<Longrightarrow> key m \<noteq> 0 \<Longrightarrow> mv < n \<Longrightarrow> key mv \<noteq> 0 \<Longrightarrow> m \<noteq> mv \<Longrightarrow>
   occupied n (key(m := key mv, mv := 0)) = occupied n key - {mv}"
  by (auto simp: occupied_def)

text \<open>How the key-value pairs change when a slot is filled, moved or emptied.\<close>

definition slots_add where
  "slots_add n key val key' val' k v \<longleftrightarrow>
     inj_on key' (occupied n key') \<and>
     card (occupied n key') = Suc (card (occupied n key)) \<and>
     kvs n key' val' = Set.insert (k, v) (kvs n key val)"

definition slots_del where
  "slots_del n key val key' val' k \<longleftrightarrow>
     inj_on key' (occupied n key') \<and>
     card (occupied n key) = Suc (card (occupied n key')) \<and>
     kvs n key' val' = {p \<in> kvs n key val. fst p \<noteq> k}"

lemma slots_add_fill:
  assumes inj: "inj_on key (occupied n key)" and e: "e < n" "key e = 0" and k: "k \<noteq> 0"
    and new: "k \<notin> key ` occupied n key"
  shows "slots_add n key val (key(e := k)) (val(e := v)) k v"
proof -
  have e': "e \<notin> occupied n key" using e by simp
  have "inj_on (key(e := k)) (Set.insert e (occupied n key))"
    using inj e' new by (auto simp: inj_on_def)
  moreover have "kvs n (key(e := k)) (val(e := v)) = Set.insert (k, v) (kvs n key val)"
    using e' by (auto simp: kvs_def occupied_add [where key = key, OF e k])
  ultimately show ?thesis
    using e' by (simp add: slots_add_def occupied_add [where key = key, OF e k] del: inj_on_insert)
qed

lemma slots_add_move:
  assumes inj: "inj_on key (occupied n key)" and e: "e < n" "key e = 0"
    and m: "m < n" "key m \<noteq> 0" and k: "k \<noteq> 0" and new: "k \<notin> key ` occupied n key"
  shows "slots_add n key val (key(e := key m, m := k)) (val(e := val m, m := v)) k v"
proof -
  have em: "e \<noteq> m" using e m by auto
  have e': "e \<notin> occupied n key" using e by simp
  note oc = occupied_move [where key = key, OF e m k]
  have keys: "\<forall>j\<in>occupied n key. key j \<noteq> k"
    using new by auto
  have "inj_on (key(e := key m, m := k)) (Set.insert e (occupied n key))"
    using inj e em m keys unfolding inj_on_def Ball_def by auto (metis+)?
  moreover have "kvs n (key(e := key m, m := k)) (val(e := val m, m := v))
      = Set.insert (k, v) (kvs n key val)" (is "?L = ?R")
  proof (rule set_eqI, clarify)
    fix a b
    show "(a, b) \<in> ?L \<longleftrightarrow> (a, b) \<in> ?R"
    proof
      assume "(a, b) \<in> ?L"
      then obtain i where "i = e \<or> i \<in> occupied n key"
        "(key(e := key m, m := k)) i = a" "(val(e := val m, m := v)) i = b"
        unfolding kvs_iff oc by blast
      then show "(a, b) \<in> ?R" using m em by (auto simp: kvs_def split: if_splits)
    next
      assume "(a, b) \<in> ?R"
      then consider "a = k" "b = v" | i where "i \<in> occupied n key" "a = key i" "b = val i"
        by (auto simp: kvs_def)
      then show "(a, b) \<in> ?L"
      proof cases
        case 1
        then show ?thesis using m unfolding kvs_def oc by (intro image_eqI [of _ _ m]) auto
      next
        case (2 i)
        then show ?thesis using m em e unfolding kvs_def oc
          by (intro image_eqI [of _ _ "if i = m then e else i"]) auto
      qed
    qed
  qed
  ultimately show ?thesis
    using e' by (simp add: slots_add_def oc del: inj_on_insert)
qed

lemma slots_del_drop:
  assumes inj: "inj_on key (occupied n key)" and r: "r < n" "key r \<noteq> 0"
  shows "slots_del n key val (key(r := 0)) val (key r)"
proof -
  have r': "r \<in> occupied n key" using r by simp
  have other: "j \<noteq> r \<longleftrightarrow> key j \<noteq> key r" if "j \<in> occupied n key" for j
    using inj r' that by (auto simp: inj_on_def)
  have "kvs n (key(r := 0)) val = {p \<in> kvs n key val. fst p \<noteq> key r}"
    unfolding kvs_def occupied_drop using other by (auto simp: image_iff)
  moreover have "inj_on (key(r := 0)) (occupied n key - {r})"
    using inj by (auto simp: inj_on_def)
  moreover have "card (occupied n key) = Suc (card (occupied n key - {r}))"
    by (rule card_Suc_Diff1 [symmetric]) (use r' in simp_all)
  ultimately show ?thesis by (simp add: slots_del_def occupied_drop)
qed

lemma slots_del_shift:
  assumes inj: "inj_on key (occupied n key)" and m: "m < n" "key m \<noteq> 0"
    and mv: "mv < n" "key mv \<noteq> 0" "m \<noteq> mv"
  shows "slots_del n key val (key(m := key mv, mv := 0)) (val(m := val mv)) (key m)"
proof -
  have in': "m \<in> occupied n key" "mv \<in> occupied n key" using m mv by auto
  note oc = occupied_shift [where key = key, OF m mv]
  have other: "j \<noteq> m \<longleftrightarrow> key j \<noteq> key m" if "j \<in> occupied n key" for j
    using inj in' that by (auto simp: inj_on_def)
  have "kvs n (key(m := key mv, mv := 0)) (val(m := val mv)) = {p \<in> kvs n key val. fst p \<noteq> key m}"
    (is "?L = ?R")
  proof (rule set_eqI, clarify)
    fix a b
    show "(a, b) \<in> ?L \<longleftrightarrow> (a, b) \<in> ?R"
    proof
      assume "(a, b) \<in> ?L"
      then obtain i where i: "i \<in> occupied n key" "i \<noteq> mv"
        "(key(m := key mv, mv := 0)) i = a" "(val(m := val mv)) i = b"
        unfolding kvs_iff oc by blast
      then show "(a, b) \<in> ?R"
        using in' mv(3) other [OF i(1)] other [OF in'(2)] by (auto simp: kvs_def split: if_splits)
    next
      assume "(a, b) \<in> ?R"
      then obtain i where i: "i \<in> occupied n key" "a = key i" "b = val i" "key i \<noteq> key m"
        by (auto simp: kvs_def)
      then show "(a, b) \<in> ?L" using other [OF i(1)] in' mv(3) unfolding kvs_def oc
        by (intro image_eqI [of _ _ "if i = mv then m else i"]) auto
    qed
  qed
  moreover have "inj_on (key(m := key mv, mv := 0)) (occupied n key - {mv})"
    using inj in' unfolding inj_on_def by auto
  moreover have "card (occupied n key) = Suc (card (occupied n key - {mv}))"
    by (rule card_Suc_Diff1 [symmetric]) (use in' in simp_all)
  ultimately show ?thesis by (simp add: slots_del_def oc)
qed

section \<open>The table invariant\<close>

definition table_wf :: "'k upb_table \<Rightarrow> bool" where
  "table_wf t \<longleftrightarrow>
     t_size_lg2 t \<le> 30 \<and>
     length (t_entries t) = upb_table_size t \<and>
     t_mask t = (if upb_table_size t > 0 then of_nat (upb_table_size t - 1) else 0) \<and>
     t_max_count t = upb_table_size t * 17 div 20"

definition home_of :: "('k \<Rightarrow> u32) \<Rightarrow> 'k upb_table \<Rightarrow> 'k \<Rightarrow> nat" where
  "home_of hf t k = upb_getentry t (hf k)"

definition tab_inv :: "('k::zero \<Rightarrow> u32) \<Rightarrow> 'k upb_table \<Rightarrow> bool" where
  "tab_inv hf t \<longleftrightarrow>
     table_wf t \<and>
     inj_on (slot_key (t_entries t)) (occupied (upb_table_size t) (slot_key (t_entries t))) \<and>
     t_count t = card (occupied (upb_table_size t) (slot_key (t_entries t))) \<and>
     t_count t \<le> t_max_count t \<and>
     (\<exists>C. chains (upb_table_size t) (slot_key (t_entries t)) (slot_next (t_entries t))
            (home_of hf t) C)"

text \<open>The map a table stands for.\<close>

definition tab_map :: "'k::zero upb_table \<Rightarrow> 'k \<Rightarrow> u64 option" where
  "tab_map t k =
     (if k = 0 then None else map_option te_val (find (\<lambda>e. te_key e = k) (t_entries t)))"

lemma getentry_lt:
  assumes wf: "table_wf t" and pos: "upb_table_size t > 0"
  shows "upb_getentry t h < upb_table_size t"
proof -
  have lg: "t_size_lg2 t \<le> 30" "upb_table_size t = 2 ^ t_size_lg2 t"
    using wf pos by (auto simp: table_wf_def upb_table_size_def split: if_splits)
  have "t_mask t = of_nat (2 ^ t_size_lg2 t - 1)"
    using wf pos lg by (simp add: table_wf_def)
  also have "\<dots> = mask (t_size_lg2 t)"
    by (simp add: mask_eq_exp_minus_1 of_nat_diff)
  finally have "h AND t_mask t = take_bit (t_size_lg2 t) h"
    by (simp add: take_bit_eq_mask)
  then have "upb_getentry t h = take_bit (t_size_lg2 t) (unat h)"
    by (simp add: upb_getentry_def unsigned_take_bit_eq)
  then show ?thesis by (simp add: lg take_bit_nat_less_exp)
qed

lemma size_pos: "table_wf t \<Longrightarrow> upb_table_size t > 0 \<longleftrightarrow> t_size_lg2 t \<noteq> 0"
  by (simp add: upb_table_size_def)

lemma size_bound: "table_wf t \<Longrightarrow> upb_table_size t \<le> 2 ^ 30"
  using power_increasing [of "t_size_lg2 t" 30 "2::nat"]
  by (simp add: upb_table_size_def table_wf_def)

lemma tab_map_eq:
  assumes inv: "tab_inv hf t"
  shows "tab_map t k = Some v \<longleftrightarrow>
     k \<noteq> 0 \<and> (k, v) \<in> kvs (upb_table_size t) (slot_key (t_entries t)) (slot_val (t_entries t))"
proof -
  let ?es = "t_entries t" and ?n = "upb_table_size t"
  have len: "length ?es = ?n" using inv by (simp add: tab_inv_def table_wf_def)
  have inj: "inj_on (slot_key ?es) (occupied ?n (slot_key ?es))"
    using inv by (simp add: tab_inv_def)
  show ?thesis
  proof (cases "k = 0")
    case True
    then show ?thesis by (simp add: tab_map_def)
  next
    case k: False
    have "(\<exists>e. find (\<lambda>e. te_key e = k) ?es = Some e \<and> te_val e = v) \<longleftrightarrow>
          (\<exists>i\<in>occupied ?n (slot_key ?es). slot_key ?es i = k \<and> slot_val ?es i = v)" (is "?L \<longleftrightarrow> ?R")
    proof
      assume ?L
      then show ?R using k len by (auto simp: find_Some_iff)
    next
      assume ?R
      then obtain i where i: "i < ?n" "slot_key ?es i = k" "slot_val ?es i = v" by auto
      have first: "slot_key ?es j \<noteq> k" if "j < i" for j
        using inj_onD [OF inj, of j i] i that k by auto
      have "find (\<lambda>e. te_key e = k) ?es = Some (?es ! i)"
        using i first len unfolding find_Some_iff by (intro exI [of _ i]) auto
      with i(3) show ?L by simp
    qed
    with k show ?thesis by (simp add: tab_map_def kvs_iff)
  qed
qed

lemma tab_map_cong:
  assumes "tab_inv hf t" "tab_inv hf' t'"
    and "\<And>k v. k \<noteq> 0 \<Longrightarrow>
      (k, v) \<in> kvs (upb_table_size t') (slot_key (t_entries t')) (slot_val (t_entries t')) \<longleftrightarrow> m k = Some v"
    and "m 0 = None"
  shows "tab_map t' = m"
proof
  fix k
  show "tab_map t' k = m k"
  proof (cases "k = 0")
    case True
    then show ?thesis using assms(4) by (simp add: tab_map_def)
  next
    case False
    have "tab_map t' k = Some v \<longleftrightarrow> m k = Some v" for v
      using tab_map_eq [OF assms(2)] assms(3) [OF False] False by simp
    then show ?thesis by (metis option.exhaust)
  qed
qed

lemma tab_count_dom:
  assumes inv: "tab_inv hf t"
  shows "t_count t = card (dom (tab_map t))" and "finite (dom (tab_map t))"
proof -
  let ?oc = "occupied (upb_table_size t) (slot_key (t_entries t))"
  have "dom (tab_map t) = slot_key (t_entries t) ` ?oc"
    by (auto simp: dom_def tab_map_eq [OF inv] kvs_def image_iff)
  then show "t_count t = card (dom (tab_map t))" "finite (dom (tab_map t))"
    using inv by (simp_all add: tab_inv_def card_image)
qed

subsection \<open>A fresh table\<close>

lemma init_table_Some:
  fixes hf :: "'k::zero \<Rightarrow> u32"
  assumes "lg \<le> 30" "lg = 0 \<or> ok"
  obtains t where "init_table lg ok = Some t" "tab_inv hf t" "tab_map t = Map.empty"
    "t_size_lg2 t = lg" "t_count t = 0"
proof -
  define size :: nat where "size = (if lg = 0 then 0 else 2 ^ lg)"
  define t :: "'k upb_table" where
    "t = \<lparr>t_count = 0, t_mask = (if size > 0 then of_nat (size - 1) else 0),
          t_max_count = size * 17 div 20, t_size_lg2 = lg,
          t_entries = replicate size empty_tabent\<rparr>"
  have t: "init_table lg ok = Some t"
    using assms by (auto simp: init_table_def Let_def t_def size_def)
  have sel: "t_count t = 0" "t_mask t = (if size > 0 then of_nat (size - 1) else 0)"
    "t_max_count t = size * 17 div 20" "t_size_lg2 t = lg"
    "t_entries t = replicate size empty_tabent"
    by (simp_all add: t_def)
  have size: "upb_table_size t = size" by (simp add: upb_table_size_def size_def sel)
  have key: "slot_key (t_entries t) i = 0" if "i < size" for i
    using that by (simp add: slot_key_def empty_tabent_def sel del: slot_fold)
  have oc: "occupied size (slot_key (t_entries t)) = {}"
    using key by (auto simp: occupied_def)
  have "chains size (slot_key (t_entries t)) (slot_next (t_entries t)) (home_of hf t) (\<lambda>_. [])"
    using key by (auto simp: chains_def)
  then have inv: "tab_inv hf t"
    unfolding tab_inv_def table_wf_def size oc using assms(1) sel by auto
  have "tab_map t = Map.empty"
    by (rule ext) (auto simp: tab_map_def find_None_iff empty_tabent_def sel set_replicate_conv_if)
  with t inv sel show thesis using that by auto
qed

lemma tab_invD:
  assumes "tab_inv hf t"
  shows "table_wf t" "t_count t \<le> t_max_count t"
    "t_max_count t = upb_table_size t * 17 div 20" "length (t_entries t) = upb_table_size t"
  using assms by (simp_all add: tab_inv_def table_wf_def)

text \<open>A table of double the size has room for one more entry than the old one holds.\<close>

lemma double_capacity:
  assumes "tab_inv hf t" "tab_inv hf new" "t_size_lg2 new = t_size_lg2 t + 1"
  shows "t_count t < t_max_count new"
proof (cases "t_size_lg2 t")
  case 0
  then show ?thesis
    using tab_invD(2,3) [OF assms(1)] tab_invD(3) [OF assms(2)] assms(3)
    by (simp add: upb_table_size_def)
next
  case (Suc n)
  then have "upb_table_size t = 2 * 2 ^ n" "upb_table_size new = 4 * 2 ^ n"
    using assms(3) by (simp_all add: upb_table_size_def)
  moreover have "1 \<le> (2::nat) ^ n" by simp
  ultimately show ?thesis using tab_invD(2,3) [OF assms(1)] tab_invD(3) [OF assms(2)] by linarith
qed

subsection \<open>Lookup\<close>

lemma chase_linked:
  "linked (slot_next es) (Some i) xs \<Longrightarrow> \<forall>j\<in>set xs. j < length es \<Longrightarrow>
   chase es eql key i = Some (find (\<lambda>j. eql (slot_key es j) key) xs)"
proof (induction xs arbitrary: i)
  case Nil
  then show ?case by simp
next
  case (Cons j xs)
  then have i: "j = i" "i < length es" "linked (slot_next es) (slot_next es i) xs" by auto
  show ?case
  proof (cases "slot_next es i")
    case None
    with i show ?thesis by (subst chase.simps) simp
  next
    case (Some i')
    with Cons.IH [of i'] Cons.prems i show ?thesis by (subst chase.simps) simp
  qed
qed

subsection \<open>Choosing the slot of a new entry\<close>

lemma find_pred_linked:
  "linked (slot_next es) (Some h) (us @ p # m # vs) \<Longrightarrow> \<forall>j\<in>set (us @ [p]). j < length es \<Longrightarrow>
   find_pred es m h = Some p"
proof (induction us arbitrary: h)
  case Nil
  then show ?case by (subst find_pred.simps) simp
next
  case (Cons u us)
  then have u: "u = h" "h < length es" and l: "linked (slot_next es) (slot_next es h) (us @ p # m # vs)"
    by auto
  obtain h' where h': "slot_next es h = Some h'" using l by (cases us) auto
  have "distinct (us @ p # m # vs)" using linked_distinct [OF l] .
  moreover have "hd (us @ p # m # vs) = h'" using l h' by (cases us) auto
  ultimately have "h' \<noteq> m" by (cases us) auto
  moreover have "find_pred es m h' = Some p" using Cons.IH [of h'] l h' Cons.prems by simp
  ultimately show ?case using u h' by (subst find_pred.simps) simp
qed

lemma emptyent_correct:
  assumes "card (occupied (upb_table_size t) (slot_key (t_entries t))) < upb_table_size t"
  obtains e where "emptyent t m = Some e" "e < upb_table_size t" "slot_key (t_entries t) e = 0"
proof -
  let ?n = "upb_table_size t" and ?key = "slot_key (t_entries t)"
  have "\<exists>j<?n. ?key j = 0"
  proof (rule ccontr)
    assume "\<not> ?thesis"
    then have "occupied ?n ?key = {0..<?n}" by (auto simp: occupied_def)
    with assms show False by simp
  qed
  then have some: "find (\<lambda>i. upb_tabent_isempty (t_entries t ! i)) [0..<?n] \<noteq> None"
    by (auto simp: find_upt_None)
  show thesis
  proof (cases "find (\<lambda>i. upb_tabent_isempty (t_entries t ! i)) [Suc m..<?n]")
    case None
    with some obtain e where "find (\<lambda>i. upb_tabent_isempty (t_entries t ! i)) [0..<?n] = Some e"
      by auto
    moreover from this have "emptyent t m = Some e" unfolding emptyent_def None by simp
    ultimately show ?thesis using that [of e] by (simp add: find_upt_Some)
  next
    case (Some e)
    moreover from this have "emptyent t m = Some e" unfolding emptyent_def Some by simp
    ultimately show ?thesis using that [of e] by (simp add: find_upt_Some)
  qed
qed

lemma place_correct:
  fixes hf :: "'k::zero \<Rightarrow> u32"
  assumes inv: "tab_inv hf t" and room: "t_count t < upb_table_size t" and k: "k \<noteq> 0"
    and new: "k \<notin> slot_key (t_entries t) ` occupied (upb_table_size t) (slot_key (t_entries t))"
  obtains es e C where
    "place (t\<lparr>t_count := c\<rparr>) (hf k) hf = Some (es, e)" "length es = upb_table_size t"
    "e < upb_table_size t"
    "chains (upb_table_size t) ((slot_key es)(e := k)) (slot_next es) (home_of hf t) C"
    "slots_add (upb_table_size t) (slot_key (t_entries t)) (slot_val (t_entries t))
       ((slot_key es)(e := k)) ((slot_val es)(e := v)) k v"
proof -
  let ?es = "t_entries t" and ?n = "upb_table_size t" and ?t = "t\<lparr>t_count := c\<rparr>"
  let ?key = "slot_key ?es" and ?nx = "slot_next ?es"
  define m where "m = home_of hf t k"
  have wf: "table_wf t" and len: "length ?es = ?n" and inj: "inj_on ?key (occupied ?n ?key)"
    using inv by (simp_all add: tab_inv_def table_wf_def)
  obtain C where ch: "chains ?n ?key ?nx (home_of hf t) C" using inv by (auto simp: tab_inv_def)
  have size: "upb_table_size ?t = ?n" by (simp add: upb_table_size_def)
  have get: "upb_getentry ?t h = upb_getentry t h" "t_entries ?t = ?es" "emptyent ?t i = emptyent t i"
    for h i unfolding emptyent_def size by (simp_all add: upb_getentry_def cong: option.case_cong)
  have m: "m < ?n" using getentry_lt [OF wf] room by (simp add: m_def home_of_def)
  have ml: "m < length ?es" using m len by simp
  have main: "upb_getentry t (hf k) = m" by (simp add: m_def home_of_def)
  have hk: "home_of hf t k = m" by (simp add: m_def)
  show thesis
  proof (cases "?key m = 0")
    case empty: True
    let ?es' = "?es[m := (?es ! m)\<lparr>te_next := None\<rparr>]"
    have "place ?t (hf k) hf = Some (?es', m)"
      by (simp add: place_def Let_def get main ml empty)
    moreover have "chains ?n ((slot_key ?es')(m := k)) (slot_next ?es') (home_of hf t) (C(m := [m]))"
      using chains_fill [OF ch m empty hk k] ml by simp
    moreover have "slots_add ?n ?key (slot_val ?es) ((slot_key ?es')(m := k)) ((slot_val ?es')(m := v)) k v"
      using slots_add_fill [OF inj m empty k new] ml by simp
    ultimately show thesis using that [of ?es' m "C(m := [m])"] m len by simp
  next
    case ne: False
    have card: "card (occupied ?n ?key) < ?n" using inv room by (simp add: tab_inv_def)
    obtain e where em: "emptyent t m = Some e" and e: "e < ?n" "?key e = 0"
      by (rule emptyent_correct [OF card, where m = m])
    have el: "e < length ?es" and neq: "e \<noteq> m" using e len ne by auto
    show thesis
    proof (cases "home_of hf t (?key m) = m")
      case own: True
      obtain xs where xs: "C m = m # xs" using chains_own_main [OF ch m ne own] by blast
      let ?es' = "(?es[e := (?es ! e)\<lparr>te_next := ?nx m\<rparr>])[m := (?es ! m)\<lparr>te_next := Some e\<rparr>]"
      have "place ?t (hf k) hf = Some (?es', e)"
        using own by (simp add: place_def Let_def get main ml el ne em home_of_def)
      moreover have key': "(slot_key ?es')(e := k) = ?key(e := k)" "slot_next ?es' = ?nx(e := ?nx m, m := Some e)"
        "(slot_val ?es')(e := v) = (slot_val ?es)(e := v)"
        using ml el by (auto simp: fun_eq_iff)
      moreover have "chains ?n (?key(e := k)) (?nx(e := ?nx m, m := Some e)) (home_of hf t) (C(m := m # e # xs))"
        by (rule chains_append [OF ch m ne own e hk k xs])
      moreover have "slots_add ?n ?key (slot_val ?es) (?key(e := k)) ((slot_val ?es)(e := v)) k v"
        by (rule slots_add_fill [OF inj e k new])
      ultimately show thesis using that [of ?es' e "C(m := m # e # xs)"] e len by simp
    next
      case foreign: False
      define h where "h = home_of hf t (?key m)"
      have h: "h < ?n" "h \<noteq> m" using getentry_lt [OF wf] m foreign by (simp_all add: h_def home_of_def)
      have "m \<in> set (C h)" using chains_cover [OF ch m ne] by (simp add: h_def)
      then obtain ws vs where ws: "C h = ws @ m # vs" by (meson split_list)
      have lh: "linked ?nx (Some h) (C h)" using chains_linked [OF ch h(1)] ws by simp
      have "ws \<noteq> []" using lh ws h(2) by auto
      then obtain us p where path: "C h = us @ p # m # vs"
        using ws by (metis append.assoc append_Cons append_Nil rev_exhaust)
      have mem: "j < ?n \<and> ?key j \<noteq> 0" if "j \<in> set (C h)" for j
        using chains_member [OF ch h(1) that] by simp
      have dist: "distinct (C h)" using linked_distinct [OF lh] .
      have p: "p < length ?es" "p \<noteq> e" "p \<noteq> m" using mem [of p] path len e dist by auto
      let ?es1 = "?es[e := ?es ! m]"
      have "linked (slot_next ?es1) (Some h) (us @ p # m # vs)"
        using lh path mem e el by (simp add: linked_upd_out) (metis mem in_set_conv_decomp path linked_upd_out)
      then have fp: "find_pred ?es1 m h = Some p"
        by (rule find_pred_linked) (use mem path len in auto)
      let ?es' = "(?es1[p := (?es1 ! p)\<lparr>te_next := Some e\<rparr>])
                     [m := (?es1[p := (?es1 ! p)\<lparr>te_next := Some e\<rparr>] ! m)\<lparr>te_next := None\<rparr>]"
      have "place ?t (hf k) hf = Some (?es', m)"
        using foreign fp p by (simp add: place_def Let_def get main ml el ne em h_def home_of_def)
      moreover have key': "(slot_key ?es')(m := k) = ?key(e := ?key m, m := k)"
        "slot_next ?es' = ?nx(e := ?nx m, p := Some e, m := None)"
        "(slot_val ?es')(m := v) = (slot_val ?es)(e := slot_val ?es m, m := v)"
        using ml el p neq by (auto simp: fun_eq_iff)
      moreover have "chains ?n (?key(e := ?key m, m := k)) (?nx(e := ?nx m, p := Some e, m := None))
          (home_of hf t) (C(h := us @ p # e # vs, m := [m]))"
        by (rule chains_evict [OF ch m ne h_def [symmetric] h(2,1) e hk k path])
      moreover have "slots_add ?n ?key (slot_val ?es) (?key(e := ?key m, m := k))
          ((slot_val ?es)(e := slot_val ?es m, m := v)) k v"
        by (rule slots_add_move [OF inj e m ne k new])
      ultimately show thesis using that [of ?es' m "C(h := us @ p # e # vs, m := [m])"] m len by simp
    qed
  qed
qed

subsection \<open>Walking to the predecessor of a removed entry\<close>

lemma rm_walk_linked:
  "linked (slot_next es) (Some c) (c # us @ ws) \<Longrightarrow> \<forall>j\<in>set (c # us @ ws). j < length es \<Longrightarrow>
   \<forall>u\<in>set us. \<not> eql (slot_key es u) key \<Longrightarrow> ws = [] \<or> eql (slot_key es (hd ws)) key \<Longrightarrow>
   rm_walk es eql key c = Some (last (c # us))"
proof (induction us arbitrary: c)
  case Nil
  show ?case
  proof (cases ws)
    case Nil
    with Nil.prems show ?thesis by (subst rm_walk.simps) simp
  next
    case (Cons w ws')
    with Nil.prems show ?thesis by (subst rm_walk.simps) simp
  qed
next
  case (Cons u us)
  have "rm_walk es eql key u = Some (last (u # us))"
    by (rule Cons.IH) (use Cons.prems in auto)
  with Cons.prems show ?case by (subst rm_walk.simps) simp
qed

lemma home_of_entries [simp]:
  "home_of hf (t\<lparr>t_count := c, t_entries := es\<rparr>) = home_of hf t"
  "upb_table_size (t\<lparr>t_count := c, t_entries := es\<rparr>) = upb_table_size t"
  "upb_getentry (t\<lparr>t_count := c, t_entries := es\<rparr>) = upb_getentry t"
  by (simp_all add: home_of_def upb_getentry_def upb_table_size_def fun_eq_iff)

lemma table_wf_entries:
  "table_wf t \<Longrightarrow> length es = upb_table_size t \<Longrightarrow> table_wf (t\<lparr>t_count := c, t_entries := es\<rparr>)"
  by (simp add: table_wf_def)

lemma max_count_less_size: "table_wf t \<Longrightarrow> n < t_max_count t \<Longrightarrow> n < upb_table_size t"
  by (simp add: table_wf_def)

text \<open>From slot updates to the invariant and the map.\<close>

lemma tab_inv_add:
  fixes hf :: "'k::zero \<Rightarrow> u32"
  assumes inv: "tab_inv hf t" and room: "t_count t < t_max_count t" and k: "k \<noteq> 0"
    and len: "length es = upb_table_size t"
    and ch: "chains (upb_table_size t) (slot_key es) (slot_next es) (home_of hf t) C"
    and add: "slots_add (upb_table_size t) (slot_key (t_entries t)) (slot_val (t_entries t))
       (slot_key es) (slot_val es) k v"
    and new: "tab_map t k = None"
  shows "tab_inv hf (t\<lparr>t_count := t_count t + 1, t_entries := es\<rparr>)"
    and "tab_map (t\<lparr>t_count := t_count t + 1, t_entries := es\<rparr>) = (tab_map t)(k \<mapsto> v)"
proof -
  let ?t = "t\<lparr>t_count := t_count t + 1, t_entries := es\<rparr>"
  show inv': "tab_inv hf ?t"
    unfolding tab_inv_def home_of_entries
    using inv room len ch add by (auto simp: tab_inv_def table_wf_entries slots_add_def)
  have "(a, b) \<in> kvs (upb_table_size ?t) (slot_key (t_entries ?t)) (slot_val (t_entries ?t)) \<longleftrightarrow>
        ((tab_map t)(k \<mapsto> v)) a = Some b" if "a \<noteq> 0" for a b
    using add that tab_map_eq [OF inv, of a b] tab_map_eq [OF inv, of k] new
    by (auto simp: slots_add_def)
  then show "tab_map ?t = (tab_map t)(k \<mapsto> v)"
    by (rule tab_map_cong [OF inv inv']) (use k in \<open>auto simp: tab_map_def\<close>)
qed

lemma tab_inv_del:
  fixes hf :: "'k::zero \<Rightarrow> u32"
  assumes inv: "tab_inv hf t" and len: "length es = upb_table_size t"
    and ch: "chains (upb_table_size t) (slot_key es) (slot_next es) (home_of hf t) C"
    and del: "slots_del (upb_table_size t) (slot_key (t_entries t)) (slot_val (t_entries t))
       (slot_key es) (slot_val es) k"
  shows "tab_inv hf (t\<lparr>t_count := t_count t - 1, t_entries := es\<rparr>)"
    and "tab_map (t\<lparr>t_count := t_count t - 1, t_entries := es\<rparr>) = (tab_map t)(k := None)"
proof -
  let ?t = "t\<lparr>t_count := t_count t - 1, t_entries := es\<rparr>"
  show inv': "tab_inv hf ?t"
    unfolding tab_inv_def home_of_entries
    using inv len ch del by (auto simp: tab_inv_def table_wf_entries slots_del_def)
  have "(a, b) \<in> kvs (upb_table_size ?t) (slot_key (t_entries ?t)) (slot_val (t_entries ?t)) \<longleftrightarrow>
        ((tab_map t)(k := None)) a = Some b" if "a \<noteq> 0" for a b
    using del that tab_map_eq [OF inv, of a b] by (auto simp: slots_del_def)
  then show "tab_map ?t = (tab_map t)(k := None)"
    by (rule tab_map_cong [OF inv inv']) (auto simp: tab_map_def)
qed

text \<open>
  The interface between the base table and its two users: the hash of a lookup key is the
  hash of the table key it denotes, and the comparison function decides equality with it.
\<close>

locale tab_hash =
  fixes hf :: "'k::zero \<Rightarrow> u32" and eql :: "'k \<Rightarrow> 'l \<Rightarrow> bool"
    and tk :: "'l \<Rightarrow> 'k" and valid :: "'l \<Rightarrow> bool"
  assumes eql_iff: "valid l \<Longrightarrow> k \<noteq> 0 \<Longrightarrow> eql k l \<longleftrightarrow> k = tk l"
    and tk_nonzero: "valid l \<Longrightarrow> tk l \<noteq> 0"
begin

lemma findentry_correct:
  assumes inv: "tab_inv hf t" and l: "valid l"
  shows "(\<exists>i\<in>occupied (upb_table_size t) (slot_key (t_entries t)).
            slot_key (t_entries t) i = tk l \<and> findentry t l (hf (tk l)) eql = Some (Some i)) \<or>
         tk l \<notin> slot_key (t_entries t) ` occupied (upb_table_size t) (slot_key (t_entries t)) \<and>
            findentry t l (hf (tk l)) eql = Some None"
proof -
  let ?es = "t_entries t" and ?n = "upb_table_size t"
  let ?m = "home_of hf t (tk l)"
  have wf: "table_wf t" and len: "length ?es = ?n"
    using inv by (simp_all add: tab_inv_def table_wf_def)
  obtain C where ch: "chains ?n (slot_key ?es) (slot_next ?es) (home_of hf t) C"
    using inv by (auto simp: tab_inv_def)
  show ?thesis
  proof (cases "t_size_lg2 t = 0")
    case True
    then show ?thesis by (auto simp: findentry_def upb_table_size_def)
  next
    case False
    then have m: "?m < ?n" using getentry_lt [OF wf] size_pos [OF wf] by (simp add: home_of_def)
    have keys: "i \<in> set (C ?m)" if "i < ?n" "slot_key ?es i = tk l" for i
      using chains_cover [OF ch that(1)] that(2) tk_nonzero [OF l] by simp
    show ?thesis
    proof (cases "slot_key ?es ?m = 0")
      case True
      then have "C ?m = []" using chains_empty_main [OF ch m] by simp
      then have "tk l \<notin> slot_key ?es ` occupied ?n (slot_key ?es)"
        using keys by auto blast
      moreover have "findentry t l (hf (tk l)) eql = Some None"
        using False True m len by (simp add: findentry_def home_of_def)
      ultimately show ?thesis by simp
    next
      case ne: False
      show ?thesis
      proof (cases "home_of hf t (slot_key ?es ?m) = ?m")
        case own: True
        obtain xs where xs: "C ?m = ?m # xs" using chains_own_main [OF ch m ne own] by blast
        have l1: "linked (slot_next ?es) (Some ?m) (C ?m)" using chains_linked [OF ch m] xs by simp
        have mem: "i < ?n \<and> slot_key ?es i \<noteq> 0" if "i \<in> set (C ?m)" for i
          using chains_member [OF ch m that] by simp
        have fe: "findentry t l (hf (tk l)) eql =
            Some (find (\<lambda>j. eql (slot_key ?es j) l) (C ?m))"
          using False m len ne mem chase_linked [OF l1, of eql l]
          by (simp add: findentry_def home_of_def)
        show ?thesis
        proof (cases "find (\<lambda>j. eql (slot_key ?es j) l) (C ?m)")
          case None
          then have "\<forall>j\<in>set (C ?m). slot_key ?es j \<noteq> tk l"
            using mem eql_iff [OF l] by (auto simp: find_None_iff)
          then show ?thesis using fe None keys by auto
        next
          case (Some i)
          then have "i \<in> set (C ?m)" "eql (slot_key ?es i) l" by (auto simp: find_Some_iff)
          then show ?thesis using fe Some mem eql_iff [OF l] by auto
        qed
      next
        case foreign: False
        define h where "h = home_of hf t (slot_key ?es ?m)"
        have hn: "h < ?n" using getentry_lt [OF wf] m by (simp add: h_def home_of_def)
        have "?m \<in> set (C h)" using chains_cover [OF ch m ne] by (simp add: h_def)
        then obtain us vs where path: "C h = us @ ?m # vs" by (meson split_list)
        have l1: "linked (slot_next ?es) (Some ?m) (?m # vs)"
          using chains_linked [OF ch hn] path linked_append by fastforce
        have mem: "j < ?n \<and> slot_key ?es j \<noteq> 0 \<and> slot_key ?es j \<noteq> tk l" if "j \<in> set (?m # vs)" for j
        proof -
          have "j \<in> set (C h)" using that path by auto
          then have "j < ?n" "slot_key ?es j \<noteq> 0" "home_of hf t (slot_key ?es j) = h"
            using chains_member [OF ch hn] by auto
          then show ?thesis using foreign h_def by auto
        qed
        have "find (\<lambda>j. eql (slot_key ?es j) l) (?m # vs) = None"
          using mem eql_iff [OF l] by (auto simp: find_None_iff)
        then have "findentry t l (hf (tk l)) eql = Some None"
          using False m len ne mem chase_linked [OF l1, of eql l]
          by (simp add: findentry_def home_of_def)
        moreover have "C ?m = []" using chains_foreign_main [OF ch m foreign] .
        ultimately show ?thesis using keys by auto blast
      qed
    qed
  qed
qed

lemma findentry_Some:
  assumes inv: "tab_inv hf t" and l: "valid l"
    and i: "i < upb_table_size t" "slot_key (t_entries t) i = tk l"
  shows "findentry t l (hf (tk l)) eql = Some (Some i)"
proof -
  let ?es = "t_entries t" and ?n = "upb_table_size t"
  have oc: "i \<in> occupied ?n (slot_key ?es)" using i tk_nonzero [OF l] by simp
  have inj: "inj_on (slot_key ?es) (occupied ?n (slot_key ?es))"
    using inv by (simp add: tab_inv_def)
  have "tk l \<in> slot_key ?es ` occupied ?n (slot_key ?es)" using oc i(2) by (metis image_eqI)
  with findentry_correct [OF inv l] obtain j where
    j: "j \<in> occupied ?n (slot_key ?es)" "slot_key ?es j = tk l"
       "findentry t l (hf (tk l)) eql = Some (Some j)" by blast
  have "j = i" using inj_onD [OF inj _ j(1) oc] j(2) i(2) by simp
  with j(3) show ?thesis by simp
qed

lemma findentry_None:
  assumes inv: "tab_inv hf t" and l: "valid l" and new: "tab_map t (tk l) = None"
  shows "findentry t l (hf (tk l)) eql = Some None"
proof -
  have "(tk l, v) \<notin> kvs (upb_table_size t) (slot_key (t_entries t)) (slot_val (t_entries t))" for v
    using tab_map_eq [OF inv, of "tk l" v] new tk_nonzero [OF l] by simp
  then show ?thesis using findentry_correct [OF inv l] by (auto simp: kvs_iff)
qed

lemma lookup_correct:
  assumes inv: "tab_inv hf t" and l: "valid l"
  shows "tab_lookup t l (hf (tk l)) eql = Some (tab_map t (tk l))"
proof (cases "tab_map t (tk l)")
  case None
  then show ?thesis using findentry_None [OF inv l None] by (simp add: tab_lookup_def)
next
  case (Some v)
  then obtain i where i: "i < upb_table_size t" "slot_key (t_entries t) i = tk l"
    "slot_val (t_entries t) i = v"
    using tab_map_eq [OF inv] by (auto simp: kvs_iff)
  have "i < length (t_entries t)" using i inv by (simp add: tab_inv_def table_wf_def)
  then show ?thesis using findentry_Some [OF inv l i(1,2)] i(3) Some by (simp add: tab_lookup_def)
qed

lemma insert_correct:
  assumes inv: "tab_inv hf t" and room: "t_count t < t_max_count t" and l: "valid l"
    and new: "tab_map t (tk l) = None"
  obtains t' where "tab_insert t l (tk l) v (hf (tk l)) hf eql = Some t'" "tab_inv hf t'"
    "tab_map t' = (tab_map t)(tk l \<mapsto> v)" "t_size_lg2 t' = t_size_lg2 t"
    "t_count t' = Suc (t_count t)"
proof -
  let ?n = "upb_table_size t" and ?key = "slot_key (t_entries t)"
  have wf: "table_wf t" using inv by (simp add: tab_inv_def)
  have room': "t_count t < ?n" using max_count_less_size [OF wf room] .
  have k: "tk l \<noteq> 0" using tk_nonzero [OF l] .
  have absent: "tk l \<notin> ?key ` occupied ?n ?key"
  proof
    assume "tk l \<in> ?key ` occupied ?n ?key"
    then obtain i where "i \<in> occupied ?n ?key" "?key i = tk l" by auto
    then have "(tk l, slot_val (t_entries t) i) \<in> kvs ?n ?key (slot_val (t_entries t))"
      by (auto simp: kvs_iff)
    then show False
      using tab_map_eq [OF inv, of "tk l" "slot_val (t_entries t) i"] k new by simp
  qed
  obtain es e C where pl: "place (t\<lparr>t_count := t_count t + 1\<rparr>) (hf (tk l)) hf = Some (es, e)"
    and len: "length es = ?n" and e: "e < ?n"
    and ch: "chains ?n ((slot_key es)(e := tk l)) (slot_next es) (home_of hf t) C"
    and add: "slots_add ?n ?key (slot_val (t_entries t))
       ((slot_key es)(e := tk l)) ((slot_val es)(e := v)) (tk l) v"
    by (rule place_correct [OF inv room' k absent])
  let ?es' = "es[e := (es ! e)\<lparr>te_key := tk l, te_val := v\<rparr>]"
  let ?t' = "t\<lparr>t_count := t_count t + 1, t_entries := ?es'\<rparr>"
  have el: "e < length es" using e len by simp
  have up: "slot_key ?es' = (slot_key es)(e := tk l)" "slot_val ?es' = (slot_val es)(e := v)"
    "slot_next ?es' = slot_next es"
    using el by (auto simp: fun_eq_iff)
  have ch': "chains ?n (slot_key ?es') (slot_next ?es') (home_of hf t) C" using ch up by simp
  have add': "slots_add ?n ?key (slot_val (t_entries t)) (slot_key ?es') (slot_val ?es') (tk l) v"
    using add up by simp
  have len': "length ?es' = ?n" using len by simp
  note res = tab_inv_add [OF inv room k len' ch' add' new]
  have f1: "findentry t l (hf (tk l)) eql = Some None" by (rule findentry_None [OF inv l new])
  have f2: "findentry ?t' l (hf (tk l)) eql = Some (Some e)"
    by (rule findentry_Some [OF res(1) l]) (use e up in simp_all)
  have "tab_insert t l (tk l) v (hf (tk l)) hf eql = Some ?t'"
    using f1 f2 pl el by (simp add: tab_insert_def Let_def)
  then show thesis using that [of ?t'] res by simp
qed

text \<open>Removal, by the case of the main position of the key.\<close>

lemma rm_hit:
  assumes inv: "tab_inv hf t" and l: "valid l" and m: "m < upb_table_size t"
    and main: "upb_getentry t (hf (tk l)) = m" and hit: "slot_key (t_entries t) m = tk l"
  obtains t' where
    "tab_rm t l (hf (tk l)) eql = Some (t', Some (tk l, slot_val (t_entries t) m))"
    "tab_inv hf t'" "tab_map t' = (tab_map t)(tk l := None)" "t_size_lg2 t' = t_size_lg2 t"
proof -
  let ?es = "t_entries t" and ?n = "upb_table_size t"
  let ?key = "slot_key ?es" and ?nx = "slot_next ?es" and ?val = "slot_val ?es"
  have len: "length ?es = ?n" and inj: "inj_on ?key (occupied ?n ?key)"
    using inv by (simp_all add: tab_inv_def table_wf_def)
  obtain C where ch: "chains ?n ?key ?nx (home_of hf t) C" using inv by (auto simp: tab_inv_def)
  have ne: "?key m \<noteq> 0" using hit tk_nonzero [OF l] by simp
  have eq: "eql (?key m) l" using hit ne eql_iff [OF l] by simp
  have own: "home_of hf t (?key m) = m" using hit main by (simp add: home_of_def)
  obtain xs where xs: "C m = m # xs" "linked ?nx (?nx m) xs" "m \<notin> set xs"
    using chains_own_main [OF ch m ne own] by blast
  show thesis
  proof (cases "?nx m")
    case None
    with xs have single: "C m = [m]" by simp
    let ?es' = "?es[m := (?es ! m)\<lparr>te_key := 0\<rparr>]"
    have up: "slot_key ?es' = ?key(m := 0)" "slot_val ?es' = ?val" "slot_next ?es' = ?nx"
      using m len by (auto simp: fun_eq_iff)
    have "tab_rm t l (hf (tk l)) eql
        = Some (t\<lparr>t_count := t_count t - 1, t_entries := ?es'\<rparr>, Some (tk l, ?val m))"
      using ne eq None m len hit by (simp add: tab_rm_def Let_def main)
    moreover have "chains ?n (slot_key ?es') (slot_next ?es') (home_of hf t) (C(m := []))"
      using chains_drop_single [OF ch m ne own single] up by simp
    moreover have "slots_del ?n ?key ?val (slot_key ?es') (slot_val ?es') (tk l)"
      using slots_del_drop [OF inj m ne] up hit by simp
    ultimately show thesis
      using that [of "t\<lparr>t_count := t_count t - 1, t_entries := ?es'\<rparr>"] tab_inv_del [OF inv] len by simp
  next
    case (Some mv)
    with xs obtain ys where ys: "C m = m # mv # ys" by (cases xs) auto
    have mv: "mv < ?n" "?key mv \<noteq> 0" "m \<noteq> mv"
      using chains_member [OF ch m, of mv] ys xs by auto
    let ?es' = "(?es[m := ?es ! mv])[mv := (?es ! mv)\<lparr>te_key := 0\<rparr>]"
    have up: "slot_key ?es' = ?key(m := ?key mv, mv := 0)"
      "slot_val ?es' = ?val(m := ?val mv)" "slot_next ?es' = ?nx(m := ?nx mv)"
      using m mv len by (auto simp: fun_eq_iff)
    have "tab_rm t l (hf (tk l)) eql
        = Some (t\<lparr>t_count := t_count t - 1, t_entries := ?es'\<rparr>, Some (tk l, ?val m))"
      using ne eq Some m mv len hit by (simp add: tab_rm_def Let_def main)
    moreover have "chains ?n (slot_key ?es') (slot_next ?es') (home_of hf t) (C(m := m # ys))"
      using chains_drop_head [OF ch m ne own ys] up by simp
    moreover have "slots_del ?n ?key ?val (slot_key ?es') (slot_val ?es') (tk l)"
      using slots_del_shift [OF inj m ne mv] up hit by simp
    ultimately show thesis
      using that [of "t\<lparr>t_count := t_count t - 1, t_entries := ?es'\<rparr>"] tab_inv_del [OF inv] len by simp
  qed
qed

lemma rm_walk_absent:
  assumes inv: "tab_inv hf t" and l: "valid l" and main: "upb_getentry t (hf (tk l)) = m"
    and ne: "slot_key (t_entries t) m \<noteq> 0" "slot_key (t_entries t) m \<noteq> tk l"
    and lm: "linked (slot_next (t_entries t)) (Some m) (m # ys)"
    and mem: "\<And>j. j \<in> set (m # ys) \<Longrightarrow> j < upb_table_size t \<and> slot_key (t_entries t) j \<noteq> 0"
    and none: "\<forall>r\<in>set ys. slot_key (t_entries t) r \<noteq> tk l"
  shows "tab_rm t l (hf (tk l)) eql = Some (t, None)"
proof -
  let ?es = "t_entries t"
  have len: "length ?es = upb_table_size t" using inv by (simp add: tab_inv_def table_wf_def)
  have neq: "\<not> eql (slot_key ?es j) l" if "j \<in> set (m # ys)" for j
    using eql_iff [OF l] mem [OF that] none ne that by auto
  have "rm_walk ?es eql l m = Some (last (m # ys))"
    using rm_walk_linked [of ?es m ys "[]" eql l] lm mem len neq by auto
  moreover have "slot_next ?es (last (m # ys)) = None"
    using lm by (induction ys arbitrary: m) auto
  moreover have "last (m # ys) < length ?es" using mem [of "last (m # ys)"] len by simp
  ultimately show ?thesis
    using ne neq mem [of m] len by (simp add: tab_rm_def Let_def main)
qed

lemma rm_walk_found:
  assumes inv: "tab_inv hf t" and l: "valid l" and main: "upb_getentry t (hf (tk l)) = m"
    and ch: "chains (upb_table_size t) (slot_key (t_entries t)) (slot_next (t_entries t))
               (home_of hf t) C"
    and b: "b < upb_table_size t" "C b = ws @ m # us @ r # vs"
    and ne: "slot_key (t_entries t) m \<noteq> tk l" "\<forall>u\<in>set us. slot_key (t_entries t) u \<noteq> tk l"
    and r: "slot_key (t_entries t) r = tk l"
  obtains t' where
    "tab_rm t l (hf (tk l)) eql = Some (t', Some (tk l, slot_val (t_entries t) r))"
    "tab_inv hf t'" "tab_map t' = (tab_map t)(tk l := None)" "t_size_lg2 t' = t_size_lg2 t"
proof -
  let ?es = "t_entries t" and ?n = "upb_table_size t"
  let ?key = "slot_key ?es" and ?nx = "slot_next ?es" and ?val = "slot_val ?es"
  have len: "length ?es = ?n" and inj: "inj_on ?key (occupied ?n ?key)"
    using inv by (simp_all add: tab_inv_def table_wf_def)
  have lb: "linked ?nx (Some b) (C b)" using chains_linked [OF ch b(1)] b(2) by simp
  have mem: "j < ?n \<and> ?key j \<noteq> 0" if "j \<in> set (C b)" for j
    using chains_member [OF ch b(1) that] by simp
  have eqk: "eql (?key j) l \<longleftrightarrow> ?key j = tk l" if "j \<in> set (C b)" for j
    using mem [OF that] eql_iff [OF l] by simp
  define c where "c = last (m # us)"
  have eqr: "eql (?key r) l" using eqk [of r] b(2) r by simp
  have walk: "rm_walk ?es eql l m = Some c"
    unfolding c_def
  proof (rule rm_walk_linked [of ?es m us "r # vs"])
    show "linked ?nx (Some m) (m # us @ r # vs)"
      using linked_append [of ?nx "Some b" ws m] lb b(2) by simp
    show "\<forall>j\<in>set (m # us @ r # vs). j < length ?es" using mem b(2) len by auto
    show "\<forall>u\<in>set us. \<not> eql (?key u) l" using eqk ne b(2) by auto
  qed (use eqr in simp)
  have "m # us @ r # vs = butlast (m # us) @ c # r # vs"
    unfolding c_def by (metis append.assoc append_Cons append_Nil append_butlast_last_id list.distinct(1))
  then have full: "C b = (ws @ butlast (m # us)) @ c # r # vs" using b(2) by simp
  have nxc: "?nx c = Some r" using linked_mid [of ?nx "Some b"] lb full by metis
  have m: "m < ?n" "?key m \<noteq> 0" using mem [of m] b(2) by simp_all
  have c: "c < ?n" and r': "r < ?n" "?key r \<noteq> 0" and cnr: "c \<noteq> r"
    using mem [of c] mem [of r] linked_distinct [OF lb] unfolding full by simp_all
  let ?es1 = "?es[r := (?es ! r)\<lparr>te_key := 0\<rparr>]"
  let ?es' = "?es1[c := (?es1 ! c)\<lparr>te_next := ?nx r\<rparr>]"
  have up: "slot_key ?es' = ?key(r := 0)" "slot_val ?es' = ?val" "slot_next ?es' = ?nx(c := ?nx r)"
    using r' c cnr len by (auto simp: fun_eq_iff)
  have "tab_rm t l (hf (tk l)) eql
      = Some (t\<lparr>t_count := t_count t - 1, t_entries := ?es'\<rparr>, Some (tk l, ?val r))"
    using eqk [of m] b(2) ne m len walk c nxc r' r by (simp add: tab_rm_def Let_def main)
  moreover have "chains ?n (slot_key ?es') (slot_next ?es') (home_of hf t)
      (C(b := (ws @ butlast (m # us)) @ c # vs))"
    using chains_drop_inner [OF ch b(1) full] up by simp
  moreover have "slots_del ?n ?key ?val (slot_key ?es') (slot_val ?es') (tk l)"
    using slots_del_drop [OF inj r'] up r by simp
  ultimately show thesis
    using that [of "t\<lparr>t_count := t_count t - 1, t_entries := ?es'\<rparr>"] tab_inv_del [OF inv] len by simp
qed

lemma tab_map_slot:
  assumes inv: "tab_inv hf t" and l: "valid l"
    and i: "i < upb_table_size t" "slot_key (t_entries t) i = tk l"
  shows "tab_map t (tk l) = Some (slot_val (t_entries t) i)"
  using tab_map_eq [OF inv, of "tk l" "slot_val (t_entries t) i"] i tk_nonzero [OF l]
  by (auto simp: kvs_iff)

lemma tab_map_no_slot:
  assumes inv: "tab_inv hf t"
    and none: "\<And>i. i < upb_table_size t \<Longrightarrow> slot_key (t_entries t) i \<noteq> tk l"
  shows "tab_map t (tk l) = None"
  using tab_map_eq [OF inv, of "tk l"] none by (cases "tab_map t (tk l)") (auto simp: kvs_iff)

lemma rm_correct:
  assumes inv: "tab_inv hf t" and lg: "t_size_lg2 t \<noteq> 0" and l: "valid l"
  obtains t' where
    "tab_rm t l (hf (tk l)) eql = Some (t', map_option (Pair (tk l)) (tab_map t (tk l)))"
    "tab_inv hf t'" "tab_map t' = (tab_map t)(tk l := None)" "t_size_lg2 t' = t_size_lg2 t"
proof -
  let ?es = "t_entries t" and ?n = "upb_table_size t"
  let ?key = "slot_key ?es" and ?nx = "slot_next ?es"
  define m where "m = upb_getentry t (hf (tk l))"
  note goal = that
  have wf: "table_wf t" and len: "length ?es = ?n" using inv by (simp_all add: tab_inv_def table_wf_def)
  obtain C where ch: "chains ?n ?key ?nx (home_of hf t) C" using inv by (auto simp: tab_inv_def)
  have m: "m < ?n" using getentry_lt [OF wf] size_pos [OF wf] lg by (simp add: m_def)
  have keys: "i \<in> set (C m)" if "i < ?n" "?key i = tk l" for i
    using chains_cover [OF ch that(1)] that(2) tk_nonzero [OF l] by (simp add: m_def home_of_def)
  have idle: thesis if "tab_rm t l (hf (tk l)) eql = Some (t, None)"
    and "\<And>i. i < ?n \<Longrightarrow> ?key i \<noteq> tk l"
    using goal [of t] that inv tab_map_no_slot [OF inv that(2)] by (simp add: fun_upd_idem)
  show thesis
  proof (cases "?key m = 0 \<or> ?key m = tk l")
    case True
    then consider "?key m = 0" | "?key m = tk l" by blast
    then show thesis
    proof cases
      case 1
      then have "C m = []" using chains_empty_main [OF ch m] by simp
      then show thesis using idle keys 1 m len by (auto simp: tab_rm_def Let_def m_def)
    next
      case 2
      obtain t' where "tab_rm t l (hf (tk l)) eql = Some (t', Some (tk l, slot_val ?es m))"
        "tab_inv hf t'" "tab_map t' = (tab_map t)(tk l := None)" "t_size_lg2 t' = t_size_lg2 t"
        by (rule rm_hit [OF inv l m m_def [symmetric] 2])
      then show thesis using goal [of t'] tab_map_slot [OF inv l m 2] by simp
    qed
  next
    case False
    define b where "b = home_of hf t (?key m)"
    have b: "b < ?n" using getentry_lt [OF wf] m by (simp add: b_def home_of_def)
    have "m \<in> set (C b)" using chains_cover [OF ch m] False by (simp add: b_def)
    then obtain ws ys where path: "C b = ws @ m # ys" by (meson split_list)
    have lb: "linked ?nx (Some b) (C b)" using chains_linked [OF ch b] path by simp
    show thesis
    proof (cases "\<exists>r\<in>set ys. ?key r = tk l")
      case True
      then obtain us r vs where split: "ys = us @ r # vs" "?key r = tk l"
        "\<forall>u\<in>set us. ?key u \<noteq> tk l"
        using split_list_first_prop [of ys "\<lambda>r. ?key r = tk l"] by auto
      have r: "r < ?n" using chains_member [OF ch b, of r] path split(1) by simp
      have path': "C b = ws @ m # us @ r # vs" using path split(1) by simp
      have mk: "?key m \<noteq> tk l" using False by blast
      obtain t' where "tab_rm t l (hf (tk l)) eql = Some (t', Some (tk l, slot_val ?es r))"
        "tab_inv hf t'" "tab_map t' = (tab_map t)(tk l := None)" "t_size_lg2 t' = t_size_lg2 t"
        by (rule rm_walk_found [OF inv l m_def [symmetric] ch b path' mk split(3,2)])
      then show thesis using goal [of t'] tab_map_slot [OF inv l r split(2)] by simp
    next
      case none: False
      have "tab_rm t l (hf (tk l)) eql = Some (t, None)"
      proof (rule rm_walk_absent [OF inv l m_def [symmetric]])
        show "linked ?nx (Some m) (m # ys)" using lb path linked_append by fastforce
        show "j < ?n \<and> ?key j \<noteq> 0" if "j \<in> set (m # ys)" for j
          using chains_member [OF ch b, of j] that path by auto
      qed (use False none in auto)
      moreover have "?key i \<noteq> tk l" if i: "i < ?n" for i
      proof
        assume ki: "?key i = tk l"
        have im: "i \<in> set (C m)" using keys [OF i ki] .
        then have "b = m" using chains_foreign_main [OF ch m] b_def by fastforce
        then have "ws = []" using lb path linked_distinct [OF lb] by (cases ws) auto
        then show False using im path \<open>b = m\<close> none False ki by auto
      qed
      ultimately show thesis by (rule idle)
    qed
  qed
qed

end

subsection \<open>Iteration\<close>

definition live_from :: "'k::zero upb_table \<Rightarrow> nat \<Rightarrow> nat list" where
  "live_from t i = filter (\<lambda>j. slot_key (t_entries t) j \<noteq> 0) [i..<upb_table_size t]"

lemma live_from_Nil:
  "live_from t i = [] \<longleftrightarrow> find (\<lambda>j. \<not> upb_tabent_isempty (t_entries t ! j)) [i..<upb_table_size t] = None"
  by (auto simp: live_from_def find_None_iff filter_empty_conv)

lemma live_from_Cons:
  assumes "find (\<lambda>j. \<not> upb_tabent_isempty (t_entries t ! j)) [i..<upb_table_size t] = Some j"
  shows "live_from t i = j # live_from t (Suc j)"
proof -
  have j: "i \<le> j" "j < upb_table_size t" "slot_key (t_entries t) j \<noteq> 0"
    "\<And>k. i \<le> k \<Longrightarrow> k < j \<Longrightarrow> slot_key (t_entries t) k = 0"
    using assms by (auto simp: find_upt_Some)
  have "[i..<upb_table_size t] = [i..<j] @ j # [Suc j..<upb_table_size t]"
    using j(1,2) by (metis le_add_diff_inverse less_imp_le upt_add_eq_append upt_conv_Cons)
  then show ?thesis using j by (simp add: live_from_def filter_empty_conv)
qed

lemma tab_next_word:
  assumes wf: "table_wf t" and i: "unat (i + 1) \<le> upb_table_size t"
  shows "live_from t (unat (i + 1)) = [] \<and> \<not> unat (tab_next t i) < upb_table_size t \<or>
         (\<exists>j. live_from t (unat (i + 1)) = j # live_from t (Suc j) \<and> unat (tab_next t i) = j \<and>
              j < upb_table_size t \<and> unat (tab_next t i + 1) = Suc j)"
proof (cases "find (\<lambda>j. \<not> upb_tabent_isempty (t_entries t ! j)) [unat (i + 1)..<upb_table_size t]")
  case None
  have "tab_next t i = - 2" by (simp only: tab_next_def None) (simp add: SIZE_MAX_def)
  then have "\<not> unat (tab_next t i) < upb_table_size t" using size_bound [OF wf] by simp
  then show ?thesis using None live_from_Nil by blast
next
  case (Some j)
  have eq: "tab_next t i = of_nat j" by (simp only: tab_next_def Some option.case)
  have j: "j < upb_table_size t" using Some by (auto simp: find_upt_Some)
  then have "Suc j < 2 ^ 64" using size_bound [OF wf] by simp
  then have "unat (of_nat j :: u64) = j" "unat (of_nat (Suc j) :: u64) = Suc j"
    by (simp_all add: unat_of_nat take_bit_nat_eq_self del: of_nat_Suc)
  then show ?thesis using live_from_Cons [OF Some] eq j by (auto simp: add.commute)
qed

lemma tab_iter_live:
  "table_wf t \<Longrightarrow> unat (i + 1) \<le> upb_table_size t \<Longrightarrow>
   tab_iter t body (tab_next t i) s =
     foldM body (map ((!) (t_entries t)) (live_from t (unat (i + 1)))) s"
proof (induction "length (live_from t (unat (i + 1)))" arbitrary: i s rule: less_induct)
  case less
  consider "live_from t (unat (i + 1)) = []" "\<not> unat (tab_next t i) < upb_table_size t"
    | j where "live_from t (unat (i + 1)) = j # live_from t (Suc j)" "unat (tab_next t i) = j"
      "j < upb_table_size t" "unat (tab_next t i + 1) = Suc j"
    using tab_next_word [OF less.prems] by blast
  then show ?case
  proof cases
    case 1
    then show ?thesis by (subst tab_iter.simps) simp
  next
    case (2 j)
    have "j < length (t_entries t)" using 2(3) less.prems(1) by (simp add: table_wf_def)
    moreover have "tab_iter t body (tab_next t (tab_next t i)) =
        foldM body (map ((!) (t_entries t)) (live_from t (Suc j)))"
      by (rule ext) (use less.hyps [of "tab_next t i"] less.prems 2 in simp)
    ultimately show ?thesis using 2 by (subst tab_iter.simps) simp
  qed
qed

lemma filter_map_nth: "map ((!) xs) (filter (\<lambda>j. P (xs ! j)) [0..<length xs]) = filter P xs"
proof -
  have "filter P xs = filter P (map ((!) xs) [0..<length xs])" by (simp add: map_nth)
  also have "\<dots> = map ((!) xs) (filter (\<lambda>j. P (xs ! j)) [0..<length xs])"
    by (simp add: filter_map comp_def)
  finally show ?thesis ..
qed

lemma tab_iter_fold:
  assumes "table_wf t"
  shows "tab_iter t body (tab_begin t) s =
    foldM body (filter (\<lambda>e. te_key e \<noteq> 0) (t_entries t)) s"
proof -
  have "map ((!) (t_entries t)) (live_from t 0) = filter (\<lambda>e. te_key e \<noteq> 0) (t_entries t)"
    using filter_map_nth [of "t_entries t" "\<lambda>e. te_key e \<noteq> 0"] assms
    by (simp add: live_from_def table_wf_def)
  then show ?thesis
    using tab_iter_live [OF assms, of "- 1" body s] by (simp add: tab_begin_def)
qed

lemma tab_map_alist:
  fixes t :: "'k::zero upb_table"
  shows "tab_map t = map_of (map (\<lambda>e. (te_key e, te_val e)) (filter (\<lambda>e. te_key e \<noteq> 0) (t_entries t)))"
proof
  fix k :: 'k
  have "k \<noteq> 0 \<Longrightarrow> map_option te_val (find (\<lambda>e. te_key e = k) es) =
    map_of (map (\<lambda>e. (te_key e, te_val e)) (filter (\<lambda>e. te_key e \<noteq> 0) es)) k"
    for es :: "'k tabent list"
    by (induction es) auto
  moreover have "map_of (map (\<lambda>e. (te_key e, te_val e)) (filter (\<lambda>e. te_key e \<noteq> 0) es)) 0 = None"
    for es :: "'k tabent list" by (induction es) auto
  ultimately show "tab_map t k = map_of (map (\<lambda>e. (te_key e, te_val e))
      (filter (\<lambda>e. te_key e \<noteq> 0) (t_entries t))) k"
    by (simp add: tab_map_def)
qed

lemma live_entries:
  assumes inv: "tab_inv hf t"
  shows "distinct (map te_key (filter (\<lambda>e. te_key e \<noteq> 0) (t_entries t)))"
    and "length (filter (\<lambda>e. te_key e \<noteq> 0) (t_entries t)) = t_count t"
proof -
  let ?es = "t_entries t" and ?n = "upb_table_size t"
  have len: "length ?es = ?n" and inj: "inj_on (slot_key ?es) (occupied ?n (slot_key ?es))"
    using inv by (simp_all add: tab_inv_def table_wf_def)
  have fil: "filter (\<lambda>e. te_key e \<noteq> 0) ?es = map ((!) ?es) (live_from t 0)"
    using filter_map_nth [of ?es "\<lambda>e. te_key e \<noteq> 0"] len by (simp add: live_from_def)
  have set: "set (live_from t 0) = occupied ?n (slot_key ?es)" "distinct (live_from t 0)"
    by (auto simp: live_from_def)
  show "distinct (map te_key (filter (\<lambda>e. te_key e \<noteq> 0) ?es))"
    unfolding fil using inj set by (simp add: distinct_map comp_def)
  show "length (filter (\<lambda>e. te_key e \<noteq> 0) ?es) = t_count t"
    unfolding fil using distinct_card [OF set(2)] set(1) inv by (simp add: tab_inv_def)
qed

text \<open>
  Copying entries into another table, as the two resize loops do: \<open>lk\<close> is the lookup key
  under which an entry is inserted again.
\<close>

context tab_hash
begin

lemma reinsert_correct:
  assumes "tab_inv hf new" "distinct (map te_key es)"
    and "\<And>e. e \<in> set es \<Longrightarrow> valid (lk e) \<and> tk (lk e) = te_key e \<and> tab_map new (te_key e) = None"
    and "t_count new + length es \<le> t_max_count new"
  obtains new' where
    "foldM (\<lambda>e new. tab_insert new (lk e) (te_key e) (te_val e) (hf (te_key e)) hf eql) es new = Some new'"
    "tab_inv hf new'" "tab_map new' = tab_map new ++ map_of (map (\<lambda>e. (te_key e, te_val e)) es)"
    "t_size_lg2 new' = t_size_lg2 new" "t_count new' = t_count new + length es"
  using assms
proof (induction es arbitrary: new thesis)
  case Nil
  then show ?case by simp
next
  case (Cons e es)
  have e: "valid (lk e)" "tk (lk e) = te_key e" "tab_map new (tk (lk e)) = None"
    using Cons.prems(4) [of e] by auto
  have room: "t_count new < t_max_count new" using Cons.prems(5) by simp
  obtain new1 where new1:
    "tab_insert new (lk e) (te_key e) (te_val e) (hf (te_key e)) hf eql = Some new1"
    "tab_inv hf new1" "tab_map new1 = (tab_map new)(te_key e \<mapsto> te_val e)"
    "t_size_lg2 new1 = t_size_lg2 new" "t_count new1 = Suc (t_count new)"
    using insert_correct [OF Cons.prems(2) room e(1,3), of "te_val e"] e(2) by metis
  have mc: "t_max_count new1 = t_max_count new"
    using new1(2,4) Cons.prems(2) by (simp add: tab_inv_def table_wf_def upb_table_size_def)
  have fresh: "valid (lk x) \<and> tk (lk x) = te_key x \<and> tab_map new1 (te_key x) = None"
    if "x \<in> set es" for x
  proof -
    have "te_key x \<noteq> te_key e" using Cons.prems(3) that by (auto dest: sym)
    then show ?thesis using Cons.prems(4) [of x] that new1(3) by simp
  qed
  obtain new' where new':
    "foldM (\<lambda>e new. tab_insert new (lk e) (te_key e) (te_val e) (hf (te_key e)) hf eql) es new1 = Some new'"
    "tab_inv hf new'" "tab_map new' = tab_map new1 ++ map_of (map (\<lambda>e. (te_key e, te_val e)) es)"
    "t_size_lg2 new' = t_size_lg2 new1" "t_count new' = t_count new1 + length es"
  proof (rule Cons.IH [OF _ new1(2) _ fresh])
    show "distinct (map te_key es)" using Cons.prems(3) by simp
    show "t_count new1 + length es \<le> t_max_count new1" using Cons.prems(5) new1(5) mc by simp
  qed auto
  have "te_key e \<notin> dom (map_of (map (\<lambda>e. (te_key e, te_val e)) es))"
    using Cons.prems(3) by (auto simp: dom_map_of_conv_image_fst image_image)
  then have "(tab_map new)(te_key e \<mapsto> te_val e) ++ map_of (map (\<lambda>e. (te_key e, te_val e)) es)
      = tab_map new ++ map_of (map (\<lambda>e. (te_key e, te_val e)) (e # es))"
    by (auto simp: map_add_def fun_eq_iff split: option.splits)
  then have map_eq: "tab_map new' = tab_map new ++ map_of (map (\<lambda>e. (te_key e, te_val e)) (e # es))"
    by (simp only: new'(3) new1(3))
  show ?case
    by (rule Cons.prems(1) [OF _ new'(2) map_eq]) (use new1 new' in simp_all)
qed

lemma rehash_correct:
  assumes inv: "tab_inv hf t" and new: "tab_inv hf new" "tab_map new = Map.empty" "t_count new = 0"
    and room: "t_count t \<le> t_max_count new"
    and lk: "\<And>e. te_key e \<noteq> 0 \<Longrightarrow> e \<in> set (t_entries t) \<Longrightarrow> valid (lk e) \<and> tk (lk e) = te_key e"
  obtains new' where
    "tab_iter t (\<lambda>e new. tab_insert new (lk e) (te_key e) (te_val e) (hf (te_key e)) hf eql)
       (tab_begin t) new = Some new'"
    "tab_inv hf new'" "tab_map new' = tab_map t" "t_size_lg2 new' = t_size_lg2 new"
    "t_count new' = t_count t"
proof -
  let ?es = "filter (\<lambda>e. te_key e \<noteq> 0) (t_entries t)"
  have wf: "table_wf t" using inv by (simp add: tab_inv_def)
  obtain new' where
    "foldM (\<lambda>e new. tab_insert new (lk e) (te_key e) (te_val e) (hf (te_key e)) hf eql) ?es new = Some new'"
    "tab_inv hf new'" "tab_map new' = tab_map new ++ map_of (map (\<lambda>e. (te_key e, te_val e)) ?es)"
    "t_size_lg2 new' = t_size_lg2 new" "t_count new' = t_count new + length ?es"
    by (rule reinsert_correct [OF new(1), of ?es lk]) (use live_entries [OF inv] lk new room in auto)
  then show thesis
    using that [of new'] live_entries(2) [OF inv] new tab_map_alist [of t]
    by (simp add: tab_iter_fold [OF wf])
qed

end

end
