(* ===== verification/Upb_Strtable.thy ===== *)
theory Upb_Strtable
  imports Upb_Table
begin

text \<open>
  The string table of upb (\<open>upb_strtable\<close> in \<open>upb/table.c\<close>) and the hash function it uses
  (\<open>Wyhash\<close>). A stored key is a pointer to a 32-bit length followed by the bytes; the model
  keeps the bytes that the stored length selects. A lookup key is the byte list that
  \<open>(str, len)\<close> denotes. The theory proves that hashing never reads outside the key, and
  that the table implements a map from byte strings shorter than \<open>2 ^ 32\<close> to values.

  The allocations of an operation are numbered: \<open>ok i\<close> says whether the \<open>i\<close>-th call of
  \<open>upb_arena_malloc\<close> succeeds, and the operations pass the number of the next call.
\<close>

section \<open>Hashing\<close>

definition load_le :: "u8 list \<Rightarrow> u64" where
  "load_le bs = foldr (\<lambda>b acc. (push_bit 8 acc) OR ucast b) bs 0"

definition UnalignedLoad64 :: "u8 list \<Rightarrow> nat \<Rightarrow> u64 option" where
  "UnalignedLoad64 mem p =
     (if p + 8 \<le> length mem then Some (load_le (take 8 (drop p mem))) else None)"

definition UnalignedLoad32 :: "u8 list \<Rightarrow> nat \<Rightarrow> u64 option" where
  "UnalignedLoad32 mem p =
     (if p + 4 \<le> length mem then Some (load_le (take 4 (drop p mem))) else None)"

text \<open>The 128-bit product; the result is the low and the high half.\<close>

definition upb_umul128 :: "u64 \<Rightarrow> u64 \<Rightarrow> u64 \<times> u64" where
  "upb_umul128 v0 v1 =
     (let p = (ucast v0 :: 128 word) * ucast v1
      in (ucast p, ucast (drop_bit 64 p)))"

definition WyhashMix :: "u64 \<Rightarrow> u64 \<Rightarrow> u64" where
  "WyhashMix v0 v1 = (let (low, high) = upb_umul128 v0 v1 in low XOR high)"

definition kWyhashSalt :: "u64 list" where
  "kWyhashSalt = [0x243F6A8885A308D3, 0x13198A2E03707344, 0xA4093822299F31D0,
                  0x082EFA98EC4E6C89, 0x452821E638D01377]"

text \<open>The loop over blocks of 64 bytes (\<open>do ... while (len > 64)\<close>).\<close>

function wyhash_blocks ::
  "u8 list \<Rightarrow> u64 list \<Rightarrow> nat \<Rightarrow> nat \<Rightarrow> u64 \<Rightarrow> u64 \<Rightarrow> (nat \<times> nat \<times> u64 \<times> u64) option" where
  "wyhash_blocks mem salt ptr len current_state duplicated_state =
     do { a \<leftarrow> UnalignedLoad64 mem ptr;
          b \<leftarrow> UnalignedLoad64 mem (ptr + 8);
          c \<leftarrow> UnalignedLoad64 mem (ptr + 16);
          d \<leftarrow> UnalignedLoad64 mem (ptr + 24);
          e \<leftarrow> UnalignedLoad64 mem (ptr + 32);
          f \<leftarrow> UnalignedLoad64 mem (ptr + 40);
          g \<leftarrow> UnalignedLoad64 mem (ptr + 48);
          h \<leftarrow> UnalignedLoad64 mem (ptr + 56);
          let cs0 = WyhashMix (a XOR salt ! 1) (b XOR current_state);
          let cs1 = WyhashMix (c XOR salt ! 2) (d XOR current_state);
          let ds0 = WyhashMix (e XOR salt ! 3) (f XOR duplicated_state);
          let ds1 = WyhashMix (g XOR salt ! 4) (h XOR duplicated_state);
          if len - 64 > 64
          then wyhash_blocks mem salt (ptr + 64) (len - 64) (cs0 XOR cs1) (ds0 XOR ds1)
          else Some (ptr + 64, len - 64, cs0 XOR cs1, ds0 XOR ds1) }"
  by pat_completeness auto
termination
  by (relation "measure (\<lambda>(mem, salt, ptr, len, cs, ds). len)") auto

function wyhash_pairs ::
  "u8 list \<Rightarrow> u64 list \<Rightarrow> nat \<Rightarrow> nat \<Rightarrow> u64 \<Rightarrow> (nat \<times> nat \<times> u64) option" where
  "wyhash_pairs mem salt ptr len current_state =
     (if len > 16
      then do { a \<leftarrow> UnalignedLoad64 mem ptr;
                b \<leftarrow> UnalignedLoad64 mem (ptr + 8);
                wyhash_pairs mem salt (ptr + 16) (len - 16)
                  (WyhashMix (a XOR salt ! 1) (b XOR current_state)) }
      else Some (ptr, len, current_state))"
  by pat_completeness auto
termination
  by (relation "measure (\<lambda>(mem, salt, ptr, len, cs). len)") auto

declare wyhash_blocks.simps [simp del] wyhash_pairs.simps [simp del]

definition wyhash_tail :: "u8 list \<Rightarrow> nat \<Rightarrow> nat \<Rightarrow> (u64 \<times> u64) option" where
  "wyhash_tail mem ptr len =
     (if len > 8
      then do { a \<leftarrow> UnalignedLoad64 mem ptr;
                b \<leftarrow> UnalignedLoad64 mem (ptr + len - 8);
                Some (a, b) }
      else if len > 3
      then do { a \<leftarrow> UnalignedLoad32 mem ptr;
                b \<leftarrow> UnalignedLoad32 mem (ptr + len - 4);
                Some (a, b) }
      else if len > 0
      then do { x \<leftarrow> fetch mem ptr;
                y \<leftarrow> fetch mem (ptr + len div 2);
                z \<leftarrow> fetch mem (ptr + len - 1);
                Some (push_bit 16 (ucast x) OR push_bit 8 (ucast y) OR ucast z, 0) }
      else Some (0, 0))"

definition Wyhash :: "u8 list \<Rightarrow> nat \<Rightarrow> u64 \<Rightarrow> u64 list \<Rightarrow> u64 option" where
  "Wyhash mem len seed salt =
     do { let current_state = seed XOR salt ! 0;
          (ptr, len', state) \<leftarrow>
            (if len > 64
             then do { (ptr, len', cs, ds) \<leftarrow> wyhash_blocks mem salt 0 len current_state current_state;
                       Some (ptr, len', cs XOR ds) }
             else Some (0, len, current_state));
          (ptr, len', state) \<leftarrow> wyhash_pairs mem salt ptr len' state;
          (a, b) \<leftarrow> wyhash_tail mem ptr len';
          let w = WyhashMix (a XOR salt ! 1) (b XOR state);
          let z = salt ! 1 XOR of_nat len;
          Some (WyhashMix w z) }"

text \<open>
  \<open>Wyhash\<close> is total on a whole key, so the branch without a value
  is never taken.
\<close>

definition table_hash :: "u8 list \<Rightarrow> u32" where
  "table_hash p = (case Wyhash p (length p) 0 kWyhashSalt of Some h \<Rightarrow> ucast h | None \<Rightarrow> 0)"

lemma wyhash_pairs_ok:
  "ptr + len = length mem \<Longrightarrow>
   \<exists>ptr' len' s'. wyhash_pairs mem salt ptr len s = Some (ptr', len', s') \<and>
     ptr' + len' = length mem \<and> len' \<le> 16"
proof (induction mem salt ptr len s rule: wyhash_pairs.induct)
  case (1 mem salt ptr len s)
  show ?case
  proof (cases "len > 16")
    case True
    then have "ptr + 8 \<le> length mem" "ptr + 8 + 8 \<le> length mem" "ptr + 16 + (len - 16) = length mem"
      using "1.prems" by auto
    then show ?thesis using "1.IH" [OF True] True
      by (subst wyhash_pairs.simps) (simp add: UnalignedLoad64_def)
  next
    case False
    then show ?thesis using "1.prems" by (subst wyhash_pairs.simps) simp
  qed
qed

lemma wyhash_blocks_ok:
  "ptr + len = length mem \<Longrightarrow> len > 64 \<Longrightarrow>
   \<exists>ptr' len' s' d'. wyhash_blocks mem salt ptr len s d = Some (ptr', len', s', d') \<and>
     ptr' + len' = length mem \<and> len' \<le> 64"
proof (induction mem salt ptr len s d rule: wyhash_blocks.induct)
  case (1 mem salt ptr len s d)
  have loads: "UnalignedLoad64 mem (ptr + i) = Some (load_le (take 8 (drop (ptr + i) mem)))"
    if "i + 8 \<le> 64" for i
    using "1.prems" that by (simp add: UnalignedLoad64_def)
  have load0: "UnalignedLoad64 mem ptr = Some (load_le (take 8 (drop ptr mem)))"
    using loads [of 0] by simp
  have step: "ptr + 64 + (len - 64) = length mem" using "1.prems" by simp
  show ?case
  proof (cases "len - 64 > 64")
    case True
    show ?thesis
      using "1.IH" [OF load0 loads loads loads loads loads loads loads refl refl refl refl True step True]
        True
      by (subst wyhash_blocks.simps) (simp add: load0 loads Let_def)
  next
    case False
    then show ?thesis using step "1.prems"
      by (subst wyhash_blocks.simps) (simp add: load0 loads Let_def)
  qed
qed

lemma wyhash_tail_ok: "ptr + len = length mem \<Longrightarrow> len \<le> 16 \<Longrightarrow> \<exists>a b. wyhash_tail mem ptr len = Some (a, b)"
  by (auto simp: wyhash_tail_def UnalignedLoad64_def UnalignedLoad32_def)

lemma Wyhash_defined: "\<exists>h. Wyhash mem (length mem) seed salt = Some h"
proof -
  define cs where "cs = seed XOR salt ! 0"
  have "\<exists>ptr len s. (if length mem > 64
      then do { (ptr, len', cs, ds) \<leftarrow> wyhash_blocks mem salt 0 (length mem) cs cs;
                Some (ptr, len', cs XOR ds) }
      else Some (0, length mem, cs)) = Some (ptr, len, s) \<and> ptr + len = length mem"
    using wyhash_blocks_ok [of 0 "length mem" mem salt cs cs] by auto
  then obtain ptr len s where first: "(if length mem > 64
      then do { (ptr, len', cs, ds) \<leftarrow> wyhash_blocks mem salt 0 (length mem) cs cs;
                Some (ptr, len', cs XOR ds) }
      else Some (0, length mem, cs)) = Some (ptr, len, s)" "ptr + len = length mem"
    by blast
  obtain ptr' len' s' where pairs: "wyhash_pairs mem salt ptr len s = Some (ptr', len', s')"
    "ptr' + len' = length mem" "len' \<le> 16"
    using wyhash_pairs_ok [OF first(2)] by blast
  obtain a b where "wyhash_tail mem ptr' len' = Some (a, b)"
    using wyhash_tail_ok [OF pairs(2,3)] by blast
  then show ?thesis
    unfolding Wyhash_def Let_def cs_def [symmetric] first(1) by (simp add: pairs)
qed

section \<open>Keys\<close>

datatype strkey = NullStr | Str "u8 list"

instantiation strkey :: zero
begin

definition zero_strkey :: strkey where
  "zero_strkey = NullStr"

instance ..

end

text \<open>
  \<open>strcopy\<close> stores the length as a \<open>uint32_t\<close>: reading the key back yields the bytes that
  the truncated length selects.
\<close>

definition strcopy :: "u8 list \<Rightarrow> bool \<Rightarrow> strkey" where
  "strcopy k2 ok = (if ok then Str (take (length k2 mod 2 ^ 32) k2) else NullStr)"

definition upb_strdup2 :: "u8 list \<Rightarrow> bool \<Rightarrow> u8 list option" where
  "upb_strdup2 s ok =
     (if length s = unat SIZE_MAX then None else if ok then Some (s @ [0]) else None)"

fun upb_tabstr :: "strkey \<Rightarrow> u8 list option" where
  "upb_tabstr NullStr = None"
| "upb_tabstr (Str bs) = Some bs"

text \<open>
  The two functions passed to the base table. They read through the stored key, and the
  base table calls them on occupied slots only, so the null key has no meaning for them.
\<close>

definition strhash :: "strkey \<Rightarrow> u32" where
  "strhash key = (case upb_tabstr key of Some str \<Rightarrow> table_hash str | None \<Rightarrow> 0)"

definition streql :: "strkey \<Rightarrow> u8 list \<Rightarrow> bool" where
  "streql k1 k2 =
     (case upb_tabstr k1 of
        Some str \<Rightarrow> length str = length k2 \<and> (length str = 0 \<or> str = k2)
      | None \<Rightarrow> False)"

section \<open>Operations\<close>

type_synonym upb_strtable = "strkey upb_table"

text \<open>\<open>bit_length\<close> is \<open>32 - __builtin_clz(n)\<close>.\<close>

fun bit_length :: "nat \<Rightarrow> nat" where
  "bit_length n = (if n = 0 then 0 else Suc (bit_length (n div 2)))"

declare bit_length.simps [simp del]

definition upb_lg2ceil :: "int \<Rightarrow> nat" where
  "upb_lg2ceil x = (if x \<le> 1 then 0 else bit_length (nat (x - 1)))"

definition upb_lg2ceilsize :: "int \<Rightarrow> nat" where
  "upb_lg2ceilsize x = 2 ^ upb_lg2ceil x"

text \<open>
  \<open>expected_size\<close> is a \<open>size_t\<close>; the assertion compares in \<open>double\<close>, and the conversion to
  the \<open>int\<close> argument of \<open>_upb_lg2ceil\<close> keeps the low 32 bits.
\<close>

definition need_entries :: "u64 \<Rightarrow> u64" where
  "need_entries expected_size = (expected_size + 1) * 1204 div 1024"

definition upb_strtable_init :: "u64 \<Rightarrow> bool \<Rightarrow> upb_strtable option option" where
  "upb_strtable_init expected_size ok =
     do { assert_c (17 * unat expected_size \<le> 20 * unat (need_entries expected_size));
          let size_lg2 = upb_lg2ceil (sint (ucast (need_entries expected_size) :: u32));
          Some (init_table size_lg2 ok) }"

definition upb_strtable_clear :: "upb_strtable \<Rightarrow> upb_strtable" where
  "upb_strtable_clear t =
     t\<lparr>t_count := 0, t_entries := map (\<lambda>_. empty_tabent) (t_entries t)\<rparr>"

definition upb_strtable_begin :: "upb_strtable \<Rightarrow> u64" where
  "upb_strtable_begin t = tab_begin t"

definition upb_strtable_next :: "upb_strtable \<Rightarrow> u64 \<Rightarrow> u64" where
  "upb_strtable_next t i = tab_next t i"

definition upb_strtable_done :: "upb_strtable \<Rightarrow> u64 \<Rightarrow> bool option" where
  "upb_strtable_done t i =
     (if upb_table_size t \<le> unat i then Some True
      else do { e \<leftarrow> fetch (t_entries t) (unat i); Some (upb_tabent_isempty e) })"

definition upb_strtable_iter_key :: "upb_strtable \<Rightarrow> u64 \<Rightarrow> u8 list option" where
  "upb_strtable_iter_key t i =
     do { d \<leftarrow> upb_strtable_done t i;
          assert_c (\<not> d);
          e \<leftarrow> fetch (t_entries t) (unat i);
          upb_tabstr (te_key e) }"

definition upb_strtable_iter_value :: "upb_strtable \<Rightarrow> u64 \<Rightarrow> u64 option" where
  "upb_strtable_iter_value t i =
     do { d \<leftarrow> upb_strtable_done t i;
          assert_c (\<not> d);
          e \<leftarrow> fetch (t_entries t) (unat i);
          Some (te_val e) }"

text \<open>The loop \<open>for (begin; !done; next) body(key, value)\<close>.\<close>

partial_function (option) str_iter_loop ::
  "upb_strtable \<Rightarrow> (u8 list \<Rightarrow> u64 \<Rightarrow> 's \<Rightarrow> 's option) \<Rightarrow> u64 \<Rightarrow> 's \<Rightarrow> 's option" where
  "str_iter_loop t body i s =
     do { d \<leftarrow> upb_strtable_done t i;
          if d then Some s
          else do { k \<leftarrow> upb_strtable_iter_key t i;
                    v \<leftarrow> upb_strtable_iter_value t i;
                    s' \<leftarrow> body k v s;
                    str_iter_loop t body (upb_strtable_next t i) s' } }"

text \<open>
  Insertion and resizing call each other. \<open>upb_strtable_resize\<close> takes the insertion it
  uses as an argument, and \<open>upb_strtable_insert d\<close> allows \<open>d\<close> nested insertions; a nested
  insertion never resizes again, so two are enough. The
  result is the returned flag, the table and the number of the next allocation. As in the
  code the resize ignores the flag of the nested insertions.
\<close>

type_synonym str_insert =
  "upb_strtable \<Rightarrow> u8 list \<Rightarrow> u64 \<Rightarrow> (nat \<Rightarrow> bool) \<Rightarrow> nat \<Rightarrow> (bool \<times> upb_strtable \<times> nat) option"

definition str_reinsert ::
  "str_insert \<Rightarrow> (nat \<Rightarrow> bool) \<Rightarrow> u8 list \<Rightarrow> u64 \<Rightarrow> upb_strtable \<times> nat \<Rightarrow> (upb_strtable \<times> nat) option" where
  "str_reinsert insert_f ok k v s =
     do { (r, new', m') \<leftarrow> insert_f (fst s) k v ok (snd s); Some (new', m') }"

definition upb_strtable_resize ::
  "str_insert \<Rightarrow> upb_strtable \<Rightarrow> nat \<Rightarrow> (nat \<Rightarrow> bool) \<Rightarrow> nat \<Rightarrow> (bool \<times> upb_strtable \<times> nat) option" where
  "upb_strtable_resize insert_f t size_lg2 ok n =
     (case init_table size_lg2 (ok n) of
        None \<Rightarrow> Some (False, t, n + 1)
      | Some new_table \<Rightarrow>
          do { (new_table', n') \<leftarrow> str_iter_loop t (str_reinsert insert_f ok)
                 (upb_strtable_begin t) (new_table, n + 1);
               Some (True, new_table', n') })"

primrec upb_strtable_insert :: "nat \<Rightarrow> str_insert" where
  "upb_strtable_insert 0 = (\<lambda>t k v ok n. None)"
| "upb_strtable_insert (Suc d) = (\<lambda>t k v ok n.
     do { (r, t1, n1) \<leftarrow> (if isfull t
                          then upb_strtable_resize (upb_strtable_insert d) t (t_size_lg2 t + 1) ok n
                          else Some (True, t, n));
          if \<not> r then Some (False, t1, n1)
          else do { let tabkey = strcopy k (ok n1);
                    if tabkey = 0 then Some (False, t1, n1 + 1)
                    else do { t2 \<leftarrow> tab_insert t1 k tabkey v (table_hash k) strhash streql;
                              Some (True, t2, n1 + 1) } } })"

declare upb_strtable_insert.simps [simp del]

definition upb_strtable_lookup2 :: "upb_strtable \<Rightarrow> u8 list \<Rightarrow> u64 option option" where
  "upb_strtable_lookup2 t key = tab_lookup t key (table_hash key) streql"

definition upb_strtable_remove ::
  "upb_strtable \<Rightarrow> u8 list \<Rightarrow> (upb_strtable \<times> u64 option) option" where
  "upb_strtable_remove t key =
     do { (t', r) \<leftarrow> tab_rm t key (table_hash key) streql; Some (t', map_option snd r) }"

section \<open>Correctness\<close>

interpretation st: tab_hash strhash streql Str "\<lambda>k. length k < 2 ^ 32"
proof
  show "streql k l \<longleftrightarrow> k = Str l" if "k \<noteq> 0" for k l
    using that by (cases k) (auto simp: streql_def zero_strkey_def)
qed (simp add: zero_strkey_def)

lemma strhash_Str [simp]: "strhash (Str k) = table_hash k"
  by (simp add: strhash_def)

lemma strcopy_ok [simp]: "length k < 2 ^ 32 \<Longrightarrow> strcopy k True = Str k"
  by (simp add: strcopy_def)

lemma strcopy_fail [simp]: "strcopy k False = 0"
  by (simp add: strcopy_def zero_strkey_def)

lemma strcopy_nonzero [simp]: "strcopy k ok = 0 \<longleftrightarrow> \<not> ok"
  by (simp add: strcopy_def zero_strkey_def)

text \<open>The map of a string table: every stored key is shorter than \<open>2 ^ 32\<close> bytes.\<close>

definition st_inv :: "upb_strtable \<Rightarrow> bool" where
  "st_inv t \<longleftrightarrow> tab_inv strhash t \<and>
     (\<forall>k v. tab_map t k = Some v \<longrightarrow> (\<exists>bs. k = Str bs \<and> length bs < 2 ^ 32))"

definition st_map :: "upb_strtable \<Rightarrow> u8 list \<Rightarrow> u64 option" where
  "st_map t k = tab_map t (Str k)"

lemma st_map_ext: "st_inv t \<Longrightarrow> tab_map t' = tab_map t \<Longrightarrow> st_map t' = st_map t"
  by (simp add: st_map_def fun_eq_iff)

lemma st_init_correct:
  assumes "lg \<le> 30" "lg = 0 \<or> ok"
  obtains t where "init_table lg ok = Some t" "st_inv t" "st_map t = Map.empty"
    "tab_map t = Map.empty" "t_size_lg2 t = lg" "t_count t = 0"
  using init_table_Some [OF assms, of strhash] by (metis st_inv_def st_map_def option.distinct(1))

lemma st_lookup_correct:
  assumes "st_inv t" "length k < 2 ^ 32"
  shows "upb_strtable_lookup2 t k = Some (st_map t k)"
  using st.lookup_correct [of t k] assms by (simp add: upb_strtable_lookup2_def st_inv_def st_map_def)

lemma st_remove_correct:
  assumes inv: "st_inv t" and k: "length k < 2 ^ 32" and lg: "t_size_lg2 t \<noteq> 0"
  obtains t' where "upb_strtable_remove t k = Some (t', st_map t k)" "st_inv t'"
    "st_map t' = (st_map t)(k := None)"
proof -
  have ti: "tab_inv strhash t" using inv by (simp add: st_inv_def)
  obtain t' where t': "tab_rm t k (table_hash k) streql = Some (t', map_option (Pair (Str k)) (tab_map t (Str k)))"
    "tab_inv strhash t'" "tab_map t' = (tab_map t)(Str k := None)"
    using st.rm_correct [OF ti lg k] by auto
  have "st_inv t'" using inv t'(2,3) by (simp add: st_inv_def)
  moreover have "st_map t' = (st_map t)(k := None)"
    using t'(3) by (auto simp: st_map_def fun_eq_iff)
  ultimately show thesis
    using that [of t'] t'(1) by (cases "tab_map t (Str k)") (simp_all add: upb_strtable_remove_def st_map_def)
qed

lemma st_clear_correct:
  assumes "st_inv t"
  shows "st_inv (upb_strtable_clear t)" "st_map (upb_strtable_clear t) = Map.empty"
proof -
  let ?t = "upb_strtable_clear t"
  have wf: "table_wf t" and len: "length (t_entries t) = upb_table_size t"
    using assms tab_invD by (auto simp: st_inv_def)
  have size: "upb_table_size ?t = upb_table_size t"
    by (simp add: upb_table_size_def upb_strtable_clear_def)
  have entries: "t_entries ?t = replicate (upb_table_size t) empty_tabent" "t_count ?t = 0"
    using len by (simp_all add: upb_strtable_clear_def map_replicate_const)
  have oc: "occupied n (slot_key (replicate n empty_tabent)) = {}" for n
    by (auto simp: occupied_def slot_key_def empty_tabent_def simp del: slot_fold)
  have "chains (upb_table_size t) (slot_key (t_entries ?t)) (slot_next (t_entries ?t))
      (home_of strhash ?t) (\<lambda>_. [])"
    using oc [of "upb_table_size t"] unfolding entries(1) by (auto simp: chains_def occupied_def)
  then have "tab_inv strhash ?t"
    unfolding tab_inv_def size entries oc
    using wf len by (auto simp: table_wf_def upb_strtable_clear_def upb_table_size_def)
  moreover have "tab_map ?t = Map.empty"
    unfolding tab_map_def entries
    by (rule ext) (auto simp: find_None_iff empty_tabent_def set_replicate_conv_if)
  ultimately show "st_inv ?t" "st_map ?t = Map.empty"
    by (auto simp: st_inv_def st_map_def)
qed

text \<open>The iterator visits the occupied slots in order.\<close>

lemma str_iter_live:
  "st_inv t \<Longrightarrow> unat (i + 1) \<le> upb_table_size t \<Longrightarrow>
   str_iter_loop t body (tab_next t i) s =
     foldM (\<lambda>e. body (the (upb_tabstr (te_key e))) (te_val e))
       (map ((!) (t_entries t)) (live_from t (unat (i + 1)))) s"
proof (induction "length (live_from t (unat (i + 1)))" arbitrary: i s rule: less_induct)
  case less
  have wf: "table_wf t" and len: "length (t_entries t) = upb_table_size t"
    using less.prems(1) tab_invD by (auto simp: st_inv_def)
  consider "live_from t (unat (i + 1)) = []" "\<not> unat (tab_next t i) < upb_table_size t"
    | j where "live_from t (unat (i + 1)) = j # live_from t (Suc j)" "unat (tab_next t i) = j"
      "j < upb_table_size t" "unat (tab_next t i + 1) = Suc j"
    using tab_next_word [OF wf less.prems(2)] by blast
  then show ?case
  proof cases
    case 1
    then show ?thesis by (subst str_iter_loop.simps) (simp add: upb_strtable_done_def)
  next
    case (2 j)
    have j: "j < length (t_entries t)" using 2(3) len by simp
    have "j \<in> set (live_from t (unat (i + 1)))" using 2(1) by simp
    then have live: "slot_key (t_entries t) j \<noteq> 0" by (simp add: live_from_def)
    then obtain bs where bs: "te_key (t_entries t ! j) = Str bs"
      by (cases "te_key (t_entries t ! j)") (simp_all add: slot_key_def zero_strkey_def del: slot_fold)
    have rest: "str_iter_loop t body (tab_next t (tab_next t i)) =
        foldM (\<lambda>e. body (the (upb_tabstr (te_key e))) (te_val e)) (map ((!) (t_entries t)) (live_from t (Suc j)))"
      by (rule ext) (use less.hyps [of "tab_next t i"] less.prems 2 in simp)
    show ?thesis
      using 2 j live bs rest
      by (subst str_iter_loop.simps)
        (simp add: upb_strtable_done_def upb_strtable_iter_key_def upb_strtable_iter_value_def
          upb_strtable_next_def)
  qed
qed

lemma str_iter_fold:
  assumes "st_inv t"
  shows "str_iter_loop t body (upb_strtable_begin t) s =
    foldM (\<lambda>e. body (the (upb_tabstr (te_key e))) (te_val e)) (filter (\<lambda>e. te_key e \<noteq> 0) (t_entries t)) s"
proof -
  have "map ((!) (t_entries t)) (live_from t 0) = filter (\<lambda>e. te_key e \<noteq> 0) (t_entries t)"
    using filter_map_nth [of "t_entries t" "\<lambda>e. te_key e \<noteq> 0"] assms tab_invD(4) [of strhash t]
    by (simp add: live_from_def st_inv_def)
  then show ?thesis
    using str_iter_live [OF assms, of "- 1" body s] by (simp add: tab_begin_def upb_strtable_begin_def)
qed

lemma st_insert_room:
  assumes inv: "st_inv t" and room: "t_count t < t_max_count t"
    and k: "length k < 2 ^ 32" "st_map t k = None" and ok: "ok n"
  obtains t' where "upb_strtable_insert (Suc d) t k v ok n = Some (True, t', n + 1)" "st_inv t'"
    "tab_map t' = (tab_map t)(Str k \<mapsto> v)" "t_size_lg2 t' = t_size_lg2 t"
    "t_count t' = Suc (t_count t)"
proof -
  have ti: "tab_inv strhash t" using inv by (simp add: st_inv_def)
  obtain t' where t': "tab_insert t k (Str k) v (table_hash k) strhash streql = Some t'"
    "tab_inv strhash t'" "tab_map t' = (tab_map t)(Str k \<mapsto> v)" "t_size_lg2 t' = t_size_lg2 t"
    "t_count t' = Suc (t_count t)"
    using st.insert_correct [OF ti room k(1), of v] k(2) unfolding st_map_def strhash_Str by metis
  have "st_inv t'" using inv t'(2,3) k(1) by (auto simp: st_inv_def)
  then show thesis
    using that [of t'] t' room ok k
    by (simp add: isfull_def zero_strkey_def upb_strtable_insert.simps(2))
qed

text \<open>The loop of the resize, when every allocation succeeds.\<close>

lemma st_refill:
  fixes es :: "strkey tabent list"
  assumes "\<And>i. ok i" "st_inv new" "distinct (map te_key es)"
    and "\<And>e. e \<in> set es \<Longrightarrow> (\<exists>bs. te_key e = Str bs \<and> length bs < 2 ^ 32) \<and> tab_map new (te_key e) = None"
    and "t_count new + length es \<le> t_max_count new"
  obtains new' m' where
    "foldM (\<lambda>e. str_reinsert (upb_strtable_insert (Suc d)) ok (the (upb_tabstr (te_key e))) (te_val e)) es (new, m) = Some (new', m')"
    "st_inv new'" "tab_map new' = tab_map new ++ map_of (map (\<lambda>e. (te_key e, te_val e)) es)"
    "t_size_lg2 new' = t_size_lg2 new" "t_count new' = t_count new + length es"
  using assms
proof (induction es arbitrary: new m thesis)
  case Nil
  then show ?case by simp
next
  case (Cons e es)
  obtain bs where bs: "te_key e = Str bs" "length bs < 2 ^ 32" "st_map new bs = None"
    using Cons.prems(5) [of e] by (auto simp: st_map_def)
  have room: "t_count new < t_max_count new" using Cons.prems(6) by simp
  obtain new1 where new1: "upb_strtable_insert (Suc d) new bs (te_val e) ok m = Some (True, new1, m + 1)"
    "st_inv new1" "tab_map new1 = (tab_map new)(Str bs \<mapsto> te_val e)" "t_size_lg2 new1 = t_size_lg2 new"
    "t_count new1 = Suc (t_count new)"
    by (rule st_insert_room [where ok = ok and n = m and d = d and v = "te_val e",
          OF Cons.prems(3) room bs(2,3) Cons.prems(2)]) blast
  have mc: "t_max_count new1 = t_max_count new"
    using new1(2,4) Cons.prems(3) by (simp add: st_inv_def tab_inv_def table_wf_def upb_table_size_def)
  have fresh: "(\<exists>bs. te_key x = Str bs \<and> length bs < 2 ^ 32) \<and> tab_map new1 (te_key x) = None"
    if "x \<in> set es" for x
  proof -
    have "te_key x \<noteq> te_key e" using Cons.prems(4) that by (auto dest: sym)
    then show ?thesis using Cons.prems(5) [of x] that new1(3) bs(1) by simp
  qed
  obtain new' m' where new':
    "foldM (\<lambda>e. str_reinsert (upb_strtable_insert (Suc d)) ok (the (upb_tabstr (te_key e))) (te_val e)) es (new1, m + 1) = Some (new', m')"
    "st_inv new'" "tab_map new' = tab_map new1 ++ map_of (map (\<lambda>e. (te_key e, te_val e)) es)"
    "t_size_lg2 new' = t_size_lg2 new1" "t_count new' = t_count new1 + length es"
  proof (rule Cons.IH [OF _ Cons.prems(2) new1(2) _ fresh])
    show "distinct (map te_key es)" using Cons.prems(4) by simp
    show "t_count new1 + length es \<le> t_max_count new1" using Cons.prems(6) new1(5) mc by simp
  qed auto
  have "Str bs \<notin> dom (map_of (map (\<lambda>e. (te_key e, te_val e)) es))"
    using Cons.prems(4) bs(1) by (auto simp: dom_map_of_conv_image_fst image_image)
  then have map_eq: "tab_map new' = tab_map new ++ map_of (map (\<lambda>e. (te_key e, te_val e)) (e # es))"
    unfolding new'(3) new1(3) by (auto simp: bs(1) map_add_def fun_eq_iff split: option.splits)
  show ?case
    by (rule Cons.prems(1) [of new' m', OF _ new'(2) map_eq])
      (use new1 new' bs(1) in \<open>simp_all add: str_reinsert_def [of _ _ bs]\<close>)
qed

lemma live_entry_key:
  assumes inv: "st_inv t" and e: "e \<in> set (t_entries t)" "te_key e \<noteq> 0"
  shows "\<exists>bs. te_key e = Str bs \<and> length bs < 2 ^ 32"
proof -
  have "tab_map t (te_key e) \<noteq> None"
    using e by (auto simp: tab_map_def find_None_iff)
  then show ?thesis using inv by (auto simp: st_inv_def)
qed

lemma st_resize_correct:
  assumes ok: "\<And>i. ok i" and inv: "st_inv t" and lg: "t_size_lg2 t < 30"
  obtains t' n' where
    "upb_strtable_resize (upb_strtable_insert (Suc d)) t (t_size_lg2 t + 1) ok n = Some (True, t', n')"
    "st_inv t'" "st_map t' = st_map t" "t_count t' < t_max_count t'"
proof -
  obtain new where new: "init_table (t_size_lg2 t + 1) (ok n) = Some new" "st_inv new"
    "st_map new = Map.empty" "tab_map new = Map.empty" "t_size_lg2 new = t_size_lg2 t + 1" "t_count new = 0"
    using st_init_correct [of "t_size_lg2 t + 1" "ok n"] lg ok by auto
  have ti: "tab_inv strhash t" "tab_inv strhash new" using inv new(2) by (simp_all add: st_inv_def)
  have lt: "t_count t < t_max_count new" by (rule double_capacity [OF ti new(5)])
  let ?es = "filter (\<lambda>e. te_key e \<noteq> 0) (t_entries t)"
  obtain new' m' where new':
    "foldM (\<lambda>e. str_reinsert (upb_strtable_insert (Suc d)) ok (the (upb_tabstr (te_key e))) (te_val e)) ?es (new, n + 1) = Some (new', m')"
    "st_inv new'" "tab_map new' = tab_map new ++ map_of (map (\<lambda>e. (te_key e, te_val e)) ?es)"
    "t_size_lg2 new' = t_size_lg2 new" "t_count new' = t_count new + length ?es"
    by (rule st_refill [where d = d and m = "n + 1", OF ok new(2) live_entries(1) [OF ti(1)]])
      (use live_entry_key [OF inv] live_entries(2) [OF ti(1)] new lt in auto)
  have "t_max_count new' = t_max_count new"
    using new'(2,4) new(2) by (simp add: st_inv_def tab_inv_def table_wf_def upb_table_size_def)
  moreover have "tab_map new' = tab_map t" using new'(3) new(4) tab_map_alist [of t] by simp
  ultimately have "st_map new' = st_map t" "t_count new' < t_max_count new'"
    using new'(5) new(6) lt live_entries(2) [OF ti(1)] by (simp_all add: st_map_def fun_eq_iff)
  moreover have "upb_strtable_resize (upb_strtable_insert (Suc d)) t (t_size_lg2 t + 1) ok n = Some (True, new', m')"
    using new(1) new'(1)
    by (simp add: upb_strtable_resize_def str_iter_fold [OF inv])
  ultimately show thesis using that new'(2) by blast
qed

lemma st_insert_correct:
  assumes ok: "\<And>i. ok i" and inv: "st_inv t" and k: "length k < 2 ^ 32" "st_map t k = None"
    and lg: "t_size_lg2 t < 30"
  obtains t' n' where "upb_strtable_insert (Suc (Suc d)) t k v ok n = Some (True, t', n')" "st_inv t'"
    "st_map t' = (st_map t)(k \<mapsto> v)"
proof (cases "isfull t")
  case False
  then have room: "t_count t < t_max_count t"
    using inv tab_invD(2) [of strhash t] by (simp add: isfull_def st_inv_def)
  obtain t' where t': "upb_strtable_insert (Suc (Suc d)) t k v ok n = Some (True, t', n + 1)" "st_inv t'"
    "tab_map t' = (tab_map t)(Str k \<mapsto> v)"
    by (rule st_insert_room [where d = "Suc d" and v = v and n = n, OF inv room k ok])
  show thesis by (rule that [OF t'(1,2)]) (use t'(3) in \<open>auto simp: st_map_def fun_eq_iff\<close>)
next
  case True
  obtain t1 n1 where t1:
    "upb_strtable_resize (upb_strtable_insert (Suc d)) t (t_size_lg2 t + 1) ok n = Some (True, t1, n1)"
    "st_inv t1" "st_map t1 = st_map t" "t_count t1 < t_max_count t1"
    by (rule st_resize_correct [OF ok inv lg])
  obtain t' where t': "upb_strtable_insert (Suc (Suc d)) t1 k v ok n1 = Some (True, t', n1 + 1)" "st_inv t'"
    "tab_map t' = (tab_map t1)(Str k \<mapsto> v)"
    by (rule st_insert_room [where d = "Suc d" and v = v and n = n1, OF t1(2,4) k(1) _ ok])
      (use k(2) t1(3) in simp)
  have "\<not> isfull t1" using t1(4) by (simp add: isfull_def)
  then have "upb_strtable_insert (Suc (Suc d)) t k v ok n = Some (True, t', n1 + 1)"
    using t1(1) t'(1) True by (simp add: upb_strtable_insert.simps(2))
  then show thesis
    by (rule that [OF _ t'(2)]) (use t'(3) t1(3) in \<open>auto simp: st_map_def fun_eq_iff\<close>)
qed

text \<open>
  When the copies of the keys fail, the resize drops the entries: the result of the nested
  insertion is ignored.
\<close>

lemma st_insert_full_alloc_failure:
  assumes inv: "st_inv t" and full: "isfull t" and lg: "t_size_lg2 t < 30"
    and ok: "ok n" "\<And>m. n < m \<Longrightarrow> \<not> ok m"
  obtains t' n' where "upb_strtable_insert (Suc (Suc d)) t k v ok n = Some (False, t', n')"
    "st_inv t'" "st_map t' = Map.empty"
proof -
  obtain new where new: "init_table (t_size_lg2 t + 1) (ok n) = Some new" "st_inv new"
    "st_map new = Map.empty" "tab_map new = Map.empty" "t_size_lg2 new = t_size_lg2 t + 1" "t_count new = 0"
    using st_init_correct [of "t_size_lg2 t + 1" "ok n"] lg ok by auto
  have ti: "tab_inv strhash t" "tab_inv strhash new" using inv new(2) by (simp_all add: st_inv_def)
  have "\<not> isfull new" using double_capacity [OF ti new(5)] new(6) by (simp add: isfull_def)
  then have "foldM (\<lambda>e. str_reinsert (upb_strtable_insert (Suc d)) ok (the (upb_tabstr (te_key e))) (te_val e)) es (new, m) = Some (new, m + length es)" if "n < m" for es :: "strkey tabent list" and m
    using that ok(2) by (induction es arbitrary: m) (simp_all add: str_reinsert_def upb_strtable_insert.simps(2))
  from this [of "n + 1"]
  have "upb_strtable_resize (upb_strtable_insert (Suc d)) t (t_size_lg2 t + 1) ok n =
      Some (True, new, n + 1 + length (filter (\<lambda>e. te_key e \<noteq> 0) (t_entries t)))"
    using new(1) by (simp add: upb_strtable_resize_def str_iter_fold [OF inv])
  then have "\<exists>n'. upb_strtable_insert (Suc (Suc d)) t k v ok n = Some (False, new, n')"
    using full ok(2) by (simp add: upb_strtable_insert.simps(2))
  then show thesis using that new(2,3) by blast
qed

text \<open>Sizing: up to 1740 expected entries fit into the table that is allocated for them.\<close>

lemma bit_length_bound: "n < 2 ^ bit_length n"
proof (induction n rule: bit_length.induct)
  case (1 n)
  show ?case
  proof (cases "n = 0")
    case True
    then show ?thesis by simp
  next
    case False
    then show ?thesis using "1.IH" by (subst bit_length.simps) simp
  qed
qed

lemma bit_length_le: "n < 2 ^ k \<Longrightarrow> bit_length n \<le> k"
proof (induction n arbitrary: k rule: bit_length.induct)
  case (1 n)
  show ?case
  proof (cases "n = 0")
    case True
    then show ?thesis by (subst bit_length.simps) simp
  next
    case False
    then obtain k' where "k = Suc k'" using "1.prems" by (cases k) auto
    then show ?thesis using "1.IH" [OF False, of k'] "1.prems" False by (subst bit_length.simps) auto
  qed
qed

text \<open>\<open>_upb_lg2ceil\<close> is the least exponent whose power of two is not below its argument.\<close>

lemma lg2ceil_spec: "x \<le> 2 ^ upb_lg2ceil x \<and> (\<forall>k. x \<le> 2 ^ k \<longrightarrow> upb_lg2ceil x \<le> k)"
proof (cases "x \<le> 1")
  case True
  then show ?thesis by (simp add: upb_lg2ceil_def)
next
  case False
  then have x: "x = int (nat (x - 1)) + 1" by simp
  have "int (nat (x - 1)) < 2 ^ bit_length (nat (x - 1))"
    using bit_length_bound [of "nat (x - 1)"] by (metis of_nat_less_iff of_nat_numeral of_nat_power)
  moreover have "bit_length (nat (x - 1)) \<le> k" if "x \<le> 2 ^ k" for k
  proof (rule bit_length_le)
    have "int (nat (x - 1)) < int (2 ^ k)" using that x by simp
    then show "nat (x - 1) < 2 ^ k" by (simp only: of_nat_less_iff)
  qed
  ultimately show ?thesis using False x by (auto simp: upb_lg2ceil_def)
qed

lemma unat_numeral_1024: "unat (1024 :: u64) = 1024"
  by simp

lemma st_init_capacity:
  assumes "unat e \<le> 1740"
  obtains t where "upb_strtable_init e True = Some (Some t)" "st_inv t" "st_map t = Map.empty"
    "t_count t = 0" "unat e \<le> t_max_count t"
proof -
  define n where "n = unat e"
  define lg where "lg = upb_lg2ceil (int ((n + 1) * 1204 div 1024))"
  have n: "n \<le> 1740" using assms by (simp add: n_def)
  have e: "e = of_nat n" by (simp add: n_def)
  have u: "unat (need_entries e) = (n + 1) * 1204 div 1024"
  proof -
    have "(e + 1) * 1204 = of_nat ((n + 1) * 1204)" by (simp add: e algebra_simps)
    moreover have "unat (of_nat ((n + 1) * 1204) :: u64) = (n + 1) * 1204"
      using n by (intro unat_of_nat_id) simp
    ultimately have "unat ((e + 1) * 1204) = (n + 1) * 1204" by (simp only:)
    then show ?thesis unfolding need_entries_def unat_div by (simp only: unat_numeral_1024)
  qed
  have s: "sint (ucast (need_entries e) :: u32) = int ((n + 1) * 1204 div 1024)"
  proof -
    have "need_entries e = of_nat ((n + 1) * 1204 div 1024)" using u by (rule unat_eq_imp)
    then have "(ucast (need_entries e) :: u32) = of_nat ((n + 1) * 1204 div 1024)"
      using n by (simp add: unsigned_of_nat take_bit_nat_eq_self)
    then show ?thesis using n by (simp add: signed_of_nat signed_take_bit_int_eq_self)
  qed
  have spec: "int ((n + 1) * 1204 div 1024) \<le> 2 ^ lg"
    "\<And>k. int ((n + 1) * 1204 div 1024) \<le> 2 ^ k \<Longrightarrow> lg \<le> k"
    using lg2ceil_spec [of "int ((n + 1) * 1204 div 1024)"] by (simp_all add: lg_def)
  have need: "(n + 1) * 1204 div 1024 \<le> 2 ^ lg"
    using spec(1) by (metis of_nat_le_iff of_nat_numeral of_nat_power)
  have lg11: "lg \<le> 11" using spec(2) [of 11] n by simp
  have cap: "n \<le> (if lg = 0 then 0 else 2 ^ lg) * 17 div 20"
  proof -
    have "lg \<in> {0,1,2,3,4,5,6,7,8,9,10,11}" using lg11 by (simp, arith)
    then show ?thesis using need n by auto
  qed
  have "lg \<le> 30" using lg11 by simp
  then obtain t where t: "init_table lg True = Some t" "st_inv t" "st_map t = Map.empty"
    "tab_map t = Map.empty" "t_size_lg2 t = lg" "t_count t = 0"
    by (rule st_init_correct [of lg True]) simp_all
  have "t_max_count t = upb_table_size t * 17 div 20"
    using t(2) by (simp add: st_inv_def tab_invD(3) [of strhash])
  then have "unat e \<le> t_max_count t"
    using cap unfolding upb_table_size_def t(5) n_def by (simp only:)
  moreover have "17 * unat e \<le> 20 * unat (need_entries e)"
  proof -
    define q r where "q = (n + 1) * 1204 div 1024" and "r = (n + 1) * 1204 mod 1024"
    have "(n + 1) * 1204 = 1024 * q + r" "r < 1024"
      by (simp_all only: q_def r_def mult_div_mod_eq mod_less_divisor zero_less_numeral)
    then have "17 * n \<le> 20 * q" by simp
    then show ?thesis unfolding u n_def [symmetric] q_def .
  qed
  ultimately show thesis
    using that [of t] t(1,2,3,6) by (simp add: upb_strtable_init_def s lg_def)
qed

section \<open>Properties\<close>

text \<open>
  The hash of a string key is computed without reading a byte outside the key, for keys
  of every length: the block loop, the 16-byte loop and the overlapping tail loads stay in
  bounds and end.
\<close>

theorem Wyhash_total: "\<exists>h. Wyhash key (length key) seed salt = Some h"
  by (rule Wyhash_defined)

text \<open>
  When the allocations succeed, inserting a new key shorter than \<open>2 ^ 32\<close> into a string
  table (with at most \<open>2 ^ 30\<close> slots after the resize) succeeds, with or without a resize,
  and adds exactly this entry. Two levels of the mutual recursion with the resize suffice.
\<close>

theorem strtable_insert_adds_entry:
  assumes "\<forall>i. ok i" and "st_inv t" and "length k < 2 ^ 32" and "st_map t k = None"
    and "t_size_lg2 t < 30"
  shows "\<exists>t' n'. upb_strtable_insert 2 t k v ok n = Some (True, t', n') \<and> st_inv t' \<and>
    st_map t' = (st_map t)(k \<mapsto> v)"
proof -
  obtain t' n' where "upb_strtable_insert (Suc (Suc 0)) t k v ok n = Some (True, t', n')" "st_inv t'"
    "st_map t' = (st_map t)(k \<mapsto> v)"
    by (rule st_insert_correct [where d = 0 and v = v and n = n, OF _ assms(2-5), of ok])
      (use assms(1) in blast)+
  then show ?thesis unfolding numeral_2_eq_2 by blast
qed

theorem strtable_insert_adds_entry_witness:
  "\<exists>t t' n'. init_table 0 True = Some t \<and> isfull t \<and>
    upb_strtable_insert 2 t [104, 105] 7 (\<lambda>_. True) 0 = Some (True, t', n') \<and>
    st_map t' = [[104, 105] \<mapsto> 7]"
proof -
  obtain t where t: "init_table 0 True = Some t" "st_inv t" "st_map t = Map.empty"
    "t_size_lg2 t = 0" "t_count t = 0"
    by (rule st_init_correct [of 0 True]) simp_all
  have "isfull t" using t(2,4,5) tab_invD(3) [of strhash t] by (simp add: st_inv_def isfull_def upb_table_size_def)
  then show ?thesis
    using strtable_insert_adds_entry [of "\<lambda>_. True" t "[104, 105]" 7 0] t by auto
qed

text \<open>
  Removing a key from a string table whose entries are allocated returns the value
  stored under it, if any, and removes exactly this entry; lookups agree with the map.
\<close>

theorem strtable_remove_lookup:
  assumes "st_inv t" and "length k < 2 ^ 32" and "t_size_lg2 t \<noteq> 0"
  shows "\<exists>t'. upb_strtable_remove t k = Some (t', st_map t k) \<and> st_inv t' \<and>
    st_map t' = (st_map t)(k := None) \<and> upb_strtable_lookup2 t k = Some (st_map t k) \<and>
    upb_strtable_lookup2 t' k = Some None"
proof -
  obtain t' where t': "upb_strtable_remove t k = Some (t', st_map t k)" "st_inv t'"
    "st_map t' = (st_map t)(k := None)"
    by (rule st_remove_correct [OF assms])
  then show ?thesis using st_lookup_correct [OF assms(1,2)] st_lookup_correct [OF t'(2) assms(2)] by simp
qed

theorem strtable_remove_lookup_witness:
  "\<exists>t t' t''. st_map t' = [[104, 105] \<mapsto> 7] \<and> upb_strtable_insert 2 t [104, 105] 7 (\<lambda>_. True) 0 = Some (True, t', 1) \<and>
    upb_strtable_remove t' [104, 105] = Some (t'', Some 7) \<and> upb_strtable_lookup2 t'' [104, 105] = Some None"
proof -
  obtain t where t: "init_table 4 True = Some t" "st_inv t" "st_map t = Map.empty"
    "tab_map t = Map.empty" "t_size_lg2 t = 4" "t_count t = 0"
    by (rule st_init_correct [of 4 True]) simp_all
  have room: "t_count t < t_max_count t"
    using t tab_invD(3) [of strhash t] by (simp add: st_inv_def upb_table_size_def)
  obtain t' where t': "upb_strtable_insert (Suc (Suc 0)) t [104, 105] 7 (\<lambda>_. True) 0 = Some (True, t', 0 + 1)"
    "st_inv t'" "tab_map t' = (tab_map t)(Str [104, 105] \<mapsto> 7)" "t_size_lg2 t' = t_size_lg2 t"
    by (rule st_insert_room [where d = "Suc 0" and ok = "\<lambda>_. True" and k = "[104, 105]" and v = 7 and n = 0,
          OF t(2) room]) (use t(3) in simp_all)
  have m: "st_map t' = [[104, 105] \<mapsto> 7]" using t'(3) t(4) by (auto simp: st_map_def fun_eq_iff)
  then show ?thesis
    using strtable_remove_lookup [OF t'(2), of "[104, 105]"] t'(1,4) t(5)
    unfolding numeral_2_eq_2 [symmetric] add_0 by fastforce
qed

text \<open>
  An insertion into a full string table that fails because the copies of the keys cannot
  be allocated has lost every entry: the resize ignores the results of its insertions and
  installs the new table. The comment on \<open>upb_strtable_insert\<close> promises that a failed
  insertion leaves the table unchanged.
\<close>

theorem strtable_failed_insert_loses_entries:
  assumes "st_inv t" and "isfull t" and "t_size_lg2 t < 30" and "ok n" and "\<forall>m>n. \<not> ok m"
  shows "\<exists>t' n'. upb_strtable_insert 2 t k v ok n = Some (False, t', n') \<and> st_map t' = Map.empty"
proof -
  obtain t' n' where "upb_strtable_insert (Suc (Suc 0)) t k v ok n = Some (False, t', n')"
    "st_map t' = Map.empty"
    by (rule st_insert_full_alloc_failure [where d = 0 and k = k and v = v and ok = ok and n = n])
      (use assms in blast)+
  then show ?thesis unfolding numeral_2_eq_2 by blast
qed

theorem strtable_failed_insert_loses_entries_witness:
  "\<exists>t t' n'. st_map t = [[104, 105] \<mapsto> 7] \<and>
    upb_strtable_insert 2 t [106] 8 (\<lambda>i. i = 0) 0 = Some (False, t', n') \<and> st_map t' = Map.empty"
proof -
  obtain t0 where t0: "init_table 1 True = Some t0" "st_inv t0" "st_map t0 = Map.empty"
    "tab_map t0 = Map.empty" "t_size_lg2 t0 = 1" "t_count t0 = 0"
    by (rule st_init_correct [of 1 True]) simp_all
  have mc: "t_max_count t0 = 1"
    using t0 tab_invD(3) [of strhash t0] by (simp add: st_inv_def upb_table_size_def)
  obtain t where t: "st_inv t" "tab_map t = (tab_map t0)(Str [104, 105] \<mapsto> 7)"
    "t_size_lg2 t = t_size_lg2 t0" "t_count t = Suc (t_count t0)"
    by (rule st_insert_room [where d = 0 and ok = "\<lambda>_. True" and k = "[104, 105]" and v = 7 and n = 0,
          OF t0(2)]) (use t0 mc in simp_all)
  have "t_max_count t = 1"
    using t t0(5) tab_invD(3) [of strhash t] by (simp add: st_inv_def upb_table_size_def)
  then have "isfull t" using t(4) t0(6) by (simp add: isfull_def)
  moreover have "st_map t = [[104, 105] \<mapsto> 7]" using t(2) t0(4) by (auto simp: st_map_def fun_eq_iff)
  ultimately show ?thesis
    using strtable_failed_insert_loses_entries [OF t(1), of "\<lambda>i. i = 0" 0 "[106]" 8] t(3) t0(5) by auto
qed

text \<open>
  A string table that is initialised for up to 1740 expected entries has room for that
  many entries before its first resize, although the factor \<open>1204 / 1024\<close> is below the
  reciprocal of the load factor.
\<close>

theorem strtable_init_capacity:
  assumes "unat expected \<le> 1740"
  shows "\<exists>t. upb_strtable_init expected True = Some (Some t) \<and> st_inv t \<and> st_map t = Map.empty \<and>
    t_count t = 0 \<and> unat expected \<le> t_max_count t"
  by (rule st_init_capacity [OF assms]) blast

theorem strtable_init_capacity_witness:
  "\<exists>t. upb_strtable_init 1740 True = Some (Some t) \<and> st_map t = Map.empty \<and> 1740 \<le> t_max_count t"
  using strtable_init_capacity [of 1740] by auto

end
