(* ===== verification/Upb_Inttable.thy ===== *)
theory Upb_Inttable
  imports Upb_Table
begin

text \<open>
  The integer table of upb (\<open>upb_inttable\<close> in \<open>upb/table.c\<close>): small keys live in an array
  part, the others in a base table. The theory models every operation (lookup, replace,
  insert with the resize of the hash part, remove, compaction, iteration) and proves that
  the table implements a map from 64-bit keys to values, as long as the value
  \<open>UINT64_MAX\<close>, which marks an empty array slot, is never stored.

  Whether an allocation succeeds is the argument \<open>ok\<close>.
\<close>

section \<open>Data and operations\<close>

record upb_inttable =
  it_t :: "u64 upb_table"
  it_array :: "u64 list"
  it_array_size :: nat
  it_array_count :: nat

definition upb_inthash :: "u64 \<Rightarrow> u32" where
  "upb_inthash key = ucast key"

definition inthash :: "u64 \<Rightarrow> u32" where
  "inthash key = upb_inthash key"

definition intkey :: "u64 \<Rightarrow> u64" where
  "intkey key = key"

definition inteql :: "u64 \<Rightarrow> u64 \<Rightarrow> bool" where
  "inteql k1 k2 \<longleftrightarrow> k1 = k2"

definition upb_arrhas :: "u64 \<Rightarrow> bool" where
  "upb_arrhas v \<longleftrightarrow> v \<noteq> - 1"

definition UPB_TABVALUE_EMPTY :: u64 where
  "UPB_TABVALUE_EMPTY = - 1"

definition is_pow2 :: "u64 \<Rightarrow> bool" where
  "is_pow2 v \<longleftrightarrow> v = 0 \<or> v AND (v - 1) = 0"

function log2_loop :: "u64 \<Rightarrow> nat \<Rightarrow> nat" where
  "log2_loop v ret = (let v' = drop_bit 1 v in if v' \<noteq> 0 then log2_loop v' (Suc ret) else ret)"
  by pat_completeness auto
termination
  by (relation "measure (\<lambda>(v, ret). unat v)")
    (auto simp: unat_drop_bit_eq drop_bit_Suc word_unat_eq_iff unat_div)

declare log2_loop.simps [simp del]

definition log2ceil :: "u64 \<Rightarrow> nat" where
  "log2ceil v =
     (let ret = log2_loop v 0;
          ret' = (if is_pow2 v then ret else Suc ret)
      in min UPB_MAXARRSIZE ret')"

text \<open>The address \<open>inttable_val\<close> returns: a slot of the array part or of the hash part.\<close>

datatype valref = Array_Slot nat | Hash_Slot nat

definition inttable_val :: "upb_inttable \<Rightarrow> u64 \<Rightarrow> valref option option" where
  "inttable_val t key =
     (if unat key < it_array_size t
      then do { v \<leftarrow> fetch (it_array t) (unat key);
                Some (if upb_arrhas v then Some (Array_Slot (unat key)) else None) }
      else do { e \<leftarrow> findentry (it_t t) (intkey key) (upb_inthash key) inteql;
                Some (map_option Hash_Slot e) })"

definition upb_inttable_count :: "upb_inttable \<Rightarrow> nat" where
  "upb_inttable_count t = t_count (it_t t) + it_array_count t"

text \<open>\<open>None\<close> is the result \<open>false\<close>: the table is then not initialised.\<close>

definition upb_inttable_sizedinit :: "nat \<Rightarrow> nat \<Rightarrow> bool \<Rightarrow> upb_inttable option" where
  "upb_inttable_sizedinit asize hsize_lg2 ok =
     do { t \<leftarrow> init_table hsize_lg2 ok;
          let array_size = max 1 asize;
          if \<not> ok then None
          else Some \<lparr>it_t = t, it_array = replicate array_size UPB_TABVALUE_EMPTY,
                     it_array_size = array_size, it_array_count = 0\<rparr> }"

definition upb_inttable_init :: "bool \<Rightarrow> upb_inttable option" where
  "upb_inttable_init ok = upb_inttable_sizedinit 0 4 ok"

text \<open>
  The resize of the hash part inside \<open>upb_inttable_insert\<close>: a table of double the size,
  filled from the old one. The inner \<open>None\<close> is the failed allocation.
\<close>

definition grow_hash :: "u64 upb_table \<Rightarrow> bool \<Rightarrow> u64 upb_table option option" where
  "grow_hash t ok =
     (case init_table (t_size_lg2 t + 1) ok of
        None \<Rightarrow> Some None
      | Some new_table \<Rightarrow>
          do { new_table' \<leftarrow> tab_iter t
                 (\<lambda>e new. tab_insert new (intkey (te_key e)) (te_key e) (te_val e)
                            (inthash (te_key e)) inthash inteql)
                 (tab_begin t) new_table;
               assert_c (t_count t = t_count new_table');
               Some (Some new_table') })"

definition upb_inttable_insert ::
  "upb_inttable \<Rightarrow> u64 \<Rightarrow> u64 \<Rightarrow> bool \<Rightarrow> (bool \<times> upb_inttable) option" where
  "upb_inttable_insert t key val ok =
     do { assert_c (upb_arrhas val);
          if unat key < it_array_size t
          then do { old \<leftarrow> fetch (it_array t) (unat key);
                    assert_c (\<not> upb_arrhas old);
                    arr \<leftarrow> store (it_array t) (unat key) val;
                    Some (True, t\<lparr>it_array_count := it_array_count t + 1, it_array := arr\<rparr>) }
          else do { grown \<leftarrow> (if isfull (it_t t) then grow_hash (it_t t) ok
                              else Some (Some (it_t t)));
                    case grown of
                      None \<Rightarrow> Some (False, t)
                    | Some tab \<Rightarrow>
                        do { tab' \<leftarrow> tab_insert tab (intkey key) key val (inthash key) inthash inteql;
                             Some (True, t\<lparr>it_t := tab'\<rparr>) } } }"

definition upb_inttable_lookup :: "upb_inttable \<Rightarrow> u64 \<Rightarrow> u64 option option" where
  "upb_inttable_lookup t key =
     do { r \<leftarrow> inttable_val t key;
          case r of
            None \<Rightarrow> Some None
          | Some (Array_Slot i) \<Rightarrow> do { v \<leftarrow> fetch (it_array t) i; Some (Some v) }
          | Some (Hash_Slot i) \<Rightarrow> do { e \<leftarrow> fetch (t_entries (it_t t)) i; Some (Some (te_val e)) } }"

definition upb_inttable_replace ::
  "upb_inttable \<Rightarrow> u64 \<Rightarrow> u64 \<Rightarrow> (bool \<times> upb_inttable) option" where
  "upb_inttable_replace t key val =
     do { r \<leftarrow> inttable_val t key;
          case r of
            None \<Rightarrow> Some (False, t)
          | Some (Array_Slot i) \<Rightarrow>
              do { arr \<leftarrow> store (it_array t) i val; Some (True, t\<lparr>it_array := arr\<rparr>) }
          | Some (Hash_Slot i) \<Rightarrow>
              do { e \<leftarrow> fetch (t_entries (it_t t)) i;
                   es \<leftarrow> store (t_entries (it_t t)) i (e\<lparr>te_val := val\<rparr>);
                   Some (True, t\<lparr>it_t := (it_t t)\<lparr>t_entries := es\<rparr>\<rparr>) } }"

definition upb_inttable_remove ::
  "upb_inttable \<Rightarrow> u64 \<Rightarrow> (upb_inttable \<times> u64 option) option" where
  "upb_inttable_remove t key =
     (if unat key < it_array_size t
      then do { v \<leftarrow> fetch (it_array t) (unat key);
                if upb_arrhas v
                then do { arr \<leftarrow> store (it_array t) (unat key) UPB_TABVALUE_EMPTY;
                          Some (t\<lparr>it_array_count := it_array_count t - 1, it_array := arr\<rparr>, Some v) }
                else Some (t, None) }
      else do { (tab, r) \<leftarrow> tab_rm (it_t t) (intkey key) (inthash key) inteql;
                Some (t\<lparr>it_t := tab\<rparr>, map_option snd r) })"

section \<open>Iterators\<close>

record int_iter =
  ii_index :: u64
  ii_array_part :: bool

definition upb_inttable_next :: "upb_inttable \<Rightarrow> int_iter \<Rightarrow> int_iter" where
  "upb_inttable_next t i =
     (if ii_array_part i
      then (case find (\<lambda>j. upb_arrhas (it_array t ! j)) [unat (ii_index i + 1)..<it_array_size t] of
              Some j \<Rightarrow> i\<lparr>ii_index := of_nat j\<rparr>
            | None \<Rightarrow> \<lparr>ii_index = tab_begin (it_t t), ii_array_part = False\<rparr>)
      else i\<lparr>ii_index := tab_next (it_t t) (ii_index i)\<rparr>)"

definition upb_inttable_begin :: "upb_inttable \<Rightarrow> int_iter" where
  "upb_inttable_begin t = upb_inttable_next t \<lparr>ii_index = - 1, ii_array_part = True\<rparr>"

definition upb_inttable_done :: "upb_inttable \<Rightarrow> int_iter \<Rightarrow> bool option" where
  "upb_inttable_done t i =
     (if ii_array_part i
      then (if it_array_size t \<le> unat (ii_index i) then Some True
            else do { v \<leftarrow> fetch (it_array t) (unat (ii_index i)); Some (\<not> upb_arrhas v) })
      else (if upb_table_size (it_t t) \<le> unat (ii_index i) then Some True
            else do { e \<leftarrow> fetch (t_entries (it_t t)) (unat (ii_index i));
                      Some (upb_tabent_isempty e) }))"

definition upb_inttable_iter_key :: "upb_inttable \<Rightarrow> int_iter \<Rightarrow> u64 option" where
  "upb_inttable_iter_key t i =
     do { d \<leftarrow> upb_inttable_done t i;
          assert_c (\<not> d);
          if ii_array_part i then Some (ii_index i)
          else do { e \<leftarrow> fetch (t_entries (it_t t)) (unat (ii_index i)); Some (te_key e) } }"

definition upb_inttable_iter_value :: "upb_inttable \<Rightarrow> int_iter \<Rightarrow> u64 option" where
  "upb_inttable_iter_value t i =
     do { d \<leftarrow> upb_inttable_done t i;
          assert_c (\<not> d);
          if ii_array_part i then fetch (it_array t) (unat (ii_index i))
          else do { e \<leftarrow> fetch (t_entries (it_t t)) (unat (ii_index i)); Some (te_val e) } }"

text \<open>The loop \<open>for (begin; !done; next) body(key, value)\<close>.\<close>

partial_function (option) int_iter_loop ::
  "upb_inttable \<Rightarrow> (u64 \<times> u64 \<Rightarrow> 's \<Rightarrow> 's option) \<Rightarrow> int_iter \<Rightarrow> 's \<Rightarrow> 's option" where
  "int_iter_loop t body i s =
     do { d \<leftarrow> upb_inttable_done t i;
          if d then Some s
          else do { k \<leftarrow> upb_inttable_iter_key t i;
                    v \<leftarrow> upb_inttable_iter_value t i;
                    s' \<leftarrow> body (k, v) s;
                    int_iter_loop t body (upb_inttable_next t i) s' } }"

section \<open>Compaction\<close>

text \<open>
  The histogram of the keys: \<open>counts\<close> and \<open>max\<close> have \<open>UPB_MAXARRSIZE + 1\<close> buckets.
\<close>

definition hist_step :: "u64 \<times> u64 \<Rightarrow> nat list \<times> u64 list \<Rightarrow> (nat list \<times> u64 list) option" where
  "hist_step kv cm =
     do { let key = fst kv;
          let bucket = log2ceil key;
          m \<leftarrow> fetch (snd cm) bucket;
          maxs \<leftarrow> store (snd cm) bucket (max m key);
          c \<leftarrow> fetch (fst cm) bucket;
          counts \<leftarrow> store (fst cm) bucket (c + 1);
          Some (counts, maxs) }"

text \<open>
  The search for the largest power of two that satisfies \<open>MIN_DENSITY\<close>:
  \<open>arr_count >= (1 << size_lg2) * 0.1\<close> is \<open>10 * arr_count \<ge> 2 ^ size_lg2\<close>, since the
  right-hand side in \<open>double\<close> is never an integer.
\<close>

fun density_loop :: "nat list \<Rightarrow> nat \<Rightarrow> nat \<Rightarrow> nat \<times> nat" where
  "density_loop counts 0 arr_count = (0, arr_count)"
| "density_loop counts (Suc lg) arr_count =
     (if counts ! Suc lg = 0 then density_loop counts lg arr_count
      else if 2 ^ Suc lg \<le> 10 * arr_count then (Suc lg, arr_count)
      else density_loop counts lg (arr_count - counts ! Suc lg))"

definition hash_size_for :: "nat \<Rightarrow> nat" where
  "hash_size_for hash_count = (if hash_count \<noteq> 0 then hash_count * 20 div 17 + 1 else 0)"

text \<open>The sizes compaction decides on: \<open>arr_count\<close>, \<open>arr_size\<close> and \<open>hashsize_lg2\<close>.\<close>

definition compact_plan :: "upb_inttable \<Rightarrow> (nat \<times> nat \<times> nat) option" where
  "compact_plan t =
     do { (counts, maxs) \<leftarrow> int_iter_loop t hist_step (upb_inttable_begin t)
            (replicate (UPB_MAXARRSIZE + 1) 0, replicate (UPB_MAXARRSIZE + 1) 0);
          let (size_lg2, arr_count) = density_loop counts UPB_MAXARRSIZE (upb_inttable_count t);
          assert_c (arr_count \<le> upb_inttable_count t);
          m \<leftarrow> fetch maxs size_lg2;
          let arr_size = unat (m + 1);
          let hash_count = upb_inttable_count t - arr_count;
          Some (arr_count, arr_size, log2ceil (of_nat (hash_size_for hash_count))) }"

definition upb_inttable_compact :: "upb_inttable \<Rightarrow> bool \<Rightarrow> upb_inttable option" where
  "upb_inttable_compact t ok =
     do { (arr_count, arr_size, hashsize_lg2) \<leftarrow> compact_plan t;
          new_t \<leftarrow> upb_inttable_sizedinit arr_size hashsize_lg2 ok;
          new_t' \<leftarrow> int_iter_loop t
             (\<lambda>kv new. do { (r, new') \<leftarrow> upb_inttable_insert new (fst kv) (snd kv) ok; Some new' })
             (upb_inttable_begin t) new_t;
          assert_c (it_array_size new_t' = arr_size);
          assert_c (t_size_lg2 (it_t new_t') = hashsize_lg2);
          Some new_t' }"

section \<open>The ceiling of the binary logarithm\<close>

lemma log2_loop_eq: "v \<noteq> 0 \<Longrightarrow> 2 ^ (log2_loop v r - r) \<le> unat v \<and> unat v < 2 ^ Suc (log2_loop v r - r) \<and> r \<le> log2_loop v r"
proof (induction v r rule: log2_loop.induct)
  case (1 v r)
  let ?w = "drop_bit 1 v"
  have w: "unat ?w = unat v div 2" by (simp add: unat_drop_bit_eq drop_bit_Suc unat_div)
  have v: "unat v > 0" using 1(2) by (simp add: unat_gt_0)
  show ?case
  proof (cases "?w = 0")
    case True
    then have "unat v div 2 = 0" using w by simp
    then have "unat v = 1" using v by linarith
    moreover have "log2_loop v r = r" by (subst log2_loop.simps) (simp only: Let_def True simp_thms if_False)
    ultimately show ?thesis by simp
  next
    case False
    have step: "log2_loop v r = log2_loop ?w (Suc r)"
      by (subst log2_loop.simps) (simp only: Let_def False simp_thms if_True)
    have ih: "2 ^ (log2_loop ?w (Suc r) - Suc r) \<le> unat ?w" "unat ?w < 2 ^ Suc (log2_loop ?w (Suc r) - Suc r)"
      "Suc r \<le> log2_loop ?w (Suc r)"
      using 1(1) [OF refl False False] by auto
    define d where "d = log2_loop ?w (Suc r) - Suc r"
    have "log2_loop v r - r = Suc d" using ih(3) step d_def by simp
    moreover have "2 ^ d \<le> unat v div 2" "unat v div 2 < 2 ^ Suc d" using ih w d_def by simp_all
    then have "2 ^ Suc d \<le> unat v" "unat v < 2 ^ Suc (Suc d)"
      unfolding power_Suc by linarith+
    ultimately show ?thesis using ih(3) step by simp
  qed
qed

lemma log2_floor: "v \<noteq> 0 \<Longrightarrow> 2 ^ log2_loop v 0 \<le> unat v \<and> unat v < 2 ^ Suc (log2_loop v 0)"
  using log2_loop_eq [of v 0] by simp

lemma log2_loop_0: "log2_loop 0 r = r"
  by (subst log2_loop.simps) simp

lemma is_pow2_iff: "v \<noteq> 0 \<Longrightarrow> is_pow2 v \<longleftrightarrow> unat v = 2 ^ log2_loop v 0"
proof -
  assume v: "v \<noteq> 0"
  define k where "k = log2_loop v 0"
  have k: "2 ^ k \<le> unat v" "unat v < 2 ^ Suc k" using log2_floor [OF v] by (simp_all add: k_def)
  have pred: "unat (v - 1) = unat v - 1" using v by (metis unat_minus_one)
  show ?thesis
  proof (cases "unat v = 2 ^ k")
    case True
    have k64: "k < 64"
    proof (rule ccontr)
      assume "\<not> k < 64"
      then have "(2::nat) ^ 64 \<le> 2 ^ k" by (intro power_increasing) auto
      then show False using True unat_lt_exp [of v] by simp
    qed
    have "v = 2 ^ k" using unat_eq_imp [OF True] by simp
    then have "v AND (v - 1) = take_bit k (2 ^ k)" by (simp add: take_bit_eq_mask mask_eq_exp_minus_1)
    also have "\<dots> = 0" by (simp add: take_bit_eq_0_iff)
    finally show ?thesis using True by (simp add: is_pow2_def k_def)
  next
    case False
    then have "2 ^ k \<le> unat (v - 1)" "unat (v - 1) < 2 ^ Suc k" using k pred by auto
    then have "bit (v - 1) k" by (rule bit_top)
    moreover have "bit v k" using k by (rule bit_top)
    ultimately have "bit (v AND (v - 1)) k" by (simp add: bit_and_iff)
    then have "v AND (v - 1) \<noteq> 0" by (metis bit_0_eq bot_apply bot_bool_def)
    then show ?thesis using False v by (simp add: is_pow2_def k_def)
  qed
qed

lemma log2ceil_0: "log2ceil 0 = 0"
  by (simp add: log2ceil_def is_pow2_def log2_loop_0)

text \<open>The least exponent whose power of two is not below \<open>v\<close>, capped at 16.\<close>

lemma log2ceil_le_iff:
  assumes "m < UPB_MAXARRSIZE"
  shows "log2ceil v \<le> m \<longleftrightarrow> unat v \<le> 2 ^ m"
proof (cases "v = 0")
  case True
  then show ?thesis by (simp add: log2ceil_0)
next
  case False
  define k where "k = log2_loop v 0"
  have k: "2 ^ k \<le> unat v" "unat v < 2 ^ Suc k" using log2_floor [OF False] by (simp_all add: k_def)
  have le: "unat v \<le> 2 ^ m \<longleftrightarrow> (if unat v = 2 ^ k then k else Suc k) \<le> m"
  proof (cases "unat v = 2 ^ k")
    case True
    then show ?thesis by simp
  next
    case neq: False
    have "unat v \<le> 2 ^ m \<longleftrightarrow> Suc k \<le> m"
    proof
      assume "unat v \<le> 2 ^ m"
      then have "2 ^ k < (2::nat) ^ m" using k(1) neq by linarith
      then show "Suc k \<le> m" by (simp add: Suc_le_eq)
    next
      assume "Suc k \<le> m"
      then have "(2::nat) ^ Suc k \<le> 2 ^ m" by (intro power_increasing) auto
      with k(2) show "unat v \<le> 2 ^ m" by linarith
    qed
    then show ?thesis using neq by simp
  qed
  have "log2ceil v = min UPB_MAXARRSIZE (if unat v = 2 ^ k then k else Suc k)"
    using is_pow2_iff [OF False] by (simp add: log2ceil_def k_def)
  then show ?thesis using le assms by auto
qed

lemma log2ceil_le_16: "log2ceil v \<le> 16"
  by (simp add: log2ceil_def UPB_MAXARRSIZE_def Let_def)

lemma log2ceil_mono: "unat v \<le> unat w \<Longrightarrow> log2ceil v \<le> log2ceil w"
proof (cases "log2ceil w < 16")
  case True
  assume le: "unat v \<le> unat w"
  have "unat w \<le> 2 ^ log2ceil w" using log2ceil_le_iff [of "log2ceil w" w] True
    by (simp add: UPB_MAXARRSIZE_def)
  then show ?thesis using log2ceil_le_iff [of "log2ceil w" v] True le
    by (simp add: UPB_MAXARRSIZE_def)
next
  case False
  then show ?thesis using log2ceil_le_16 [of v] by simp
qed

section \<open>Invariant and map\<close>

interpretation it: tab_hash inthash inteql intkey "\<lambda>k. k \<noteq> 0"
  by unfold_locales (auto simp: inteql_def intkey_def)

definition array_slots :: "u64 list \<Rightarrow> nat set" where
  "array_slots a = {i. i < length a \<and> upb_arrhas (a ! i)}"

definition it_inv :: "upb_inttable \<Rightarrow> bool" where
  "it_inv t \<longleftrightarrow>
     tab_inv inthash (it_t t) \<and>
     length (it_array t) = it_array_size t \<and> 1 \<le> it_array_size t \<and> it_array_size t < 2 ^ 64 \<and>
     it_array_count t = card (array_slots (it_array t)) \<and>
     (\<forall>k v. tab_map (it_t t) k = Some v \<longrightarrow> it_array_size t \<le> unat k \<and> v \<noteq> - 1)"

definition it_map :: "upb_inttable \<Rightarrow> u64 \<Rightarrow> u64 option" where
  "it_map t key =
     (if unat key < it_array_size t
      then (if upb_arrhas (it_array t ! unat key) then Some (it_array t ! unat key) else None)
      else tab_map (it_t t) key)"

lemma it_invD:
  assumes "it_inv t"
  shows "tab_inv inthash (it_t t)" "length (it_array t) = it_array_size t" "1 \<le> it_array_size t"
    "it_array_size t < 2 ^ 64" "it_array_count t = card (array_slots (it_array t))"
    "tab_map (it_t t) k = Some v \<Longrightarrow> it_array_size t \<le> unat k \<and> v \<noteq> - 1"
  using assms by (auto simp: it_inv_def)

lemma array_slots_fill:
  "i < length a \<Longrightarrow> \<not> upb_arrhas (a ! i) \<Longrightarrow> upb_arrhas v \<Longrightarrow>
   array_slots (a[i := v]) = Set.insert i (array_slots a) \<and> i \<notin> array_slots a"
  by (auto simp: array_slots_def nth_list_update)

lemma array_slots_empty:
  "i < length a \<Longrightarrow> upb_arrhas (a ! i) \<Longrightarrow> \<not> upb_arrhas v \<Longrightarrow>
   array_slots (a[i := v]) = array_slots a - {i} \<and> i \<in> array_slots a"
  by (auto simp: array_slots_def nth_list_update)

lemma array_slots_keep:
  "i < length a \<Longrightarrow> upb_arrhas (a ! i) \<Longrightarrow> upb_arrhas v \<Longrightarrow> array_slots (a[i := v]) = array_slots a"
  by (auto simp: array_slots_def nth_list_update)

lemma finite_array_slots [simp]: "finite (array_slots a)"
  by (simp add: array_slots_def)

lemma it_map_no_marker: "it_inv t \<Longrightarrow> it_map t k = Some v \<Longrightarrow> v \<noteq> - 1"
  by (auto simp: it_map_def upb_arrhas_def it_inv_def split: if_splits)

lemma hash_key_nonzero: "it_inv t \<Longrightarrow> it_array_size t \<le> unat key \<Longrightarrow> key \<noteq> 0"
  by (auto simp: it_inv_def)

lemma sizedinit_correct:
  assumes "lg \<le> 30" "asize < 2 ^ 64"
  obtains t where "upb_inttable_sizedinit asize lg True = Some t" "it_inv t" "it_map t = Map.empty"
    "it_array_size t = max 1 asize" "t_size_lg2 (it_t t) = lg" "t_count (it_t t) = 0"
proof -
  obtain tab where tab: "init_table lg True = Some tab" "tab_inv inthash tab"
    "tab_map tab = Map.empty" "t_size_lg2 tab = lg" "t_count tab = 0"
    using init_table_Some [of lg True inthash] assms(1) by blast
  let ?t = "\<lparr>it_t = tab, it_array = replicate (max 1 asize) UPB_TABVALUE_EMPTY,
             it_array_size = max 1 asize, it_array_count = 0\<rparr>"
  have none: "array_slots (replicate n UPB_TABVALUE_EMPTY) = {}" for n
    by (auto simp: array_slots_def upb_arrhas_def UPB_TABVALUE_EMPTY_def)
  have "upb_inttable_sizedinit asize lg True = Some ?t"
    using tab(1) by (simp add: upb_inttable_sizedinit_def Let_def)
  moreover have "it_inv ?t" using tab none assms(2) by (simp add: it_inv_def)
  moreover have "it_map ?t = Map.empty"
    using tab(3) by (auto simp: it_map_def upb_arrhas_def UPB_TABVALUE_EMPTY_def)
  ultimately show thesis using that tab(4,5) by fastforce
qed

section \<open>Operations on the map\<close>

lemma it_lookup_correct:
  assumes inv: "it_inv t"
  shows "upb_inttable_lookup t key = Some (it_map t key)"
proof (cases "unat key < it_array_size t")
  case True
  then show ?thesis using it_invD(2) [OF inv]
    by (simp add: upb_inttable_lookup_def inttable_val_def it_map_def)
next
  case False
  then have k: "key \<noteq> 0" using False hash_key_nonzero [OF inv, of key] by simp
  have "tab_lookup (it_t t) key (inthash key) inteql = Some (tab_map (it_t t) key)"
    using it.lookup_correct [OF it_invD(1) [OF inv], of key] k by (simp add: intkey_def)
  then have "do { r \<leftarrow> findentry (it_t t) key (inthash key) inteql;
          case r of None \<Rightarrow> Some None
          | Some i \<Rightarrow> do { e \<leftarrow> fetch (t_entries (it_t t)) i; Some (Some (te_val e)) } }
      = Some (tab_map (it_t t) key)" by (simp add: tab_lookup_def)
  then show ?thesis using False
    by (cases "findentry (it_t t) key (inthash key) inteql")
      (auto simp: upb_inttable_lookup_def inttable_val_def it_map_def intkey_def inthash_def
        split: option.splits)
qed

lemma grow_hash_correct:
  assumes inv: "tab_inv inthash t" and ok: "ok" and lg: "t_size_lg2 t < 30"
  obtains t' where "grow_hash t ok = Some (Some t')" "tab_inv inthash t'" "tab_map t' = tab_map t"
    "t_size_lg2 t' = Suc (t_size_lg2 t)" "t_count t' = t_count t" "t_count t' < t_max_count t'"
proof -
  obtain new where new: "init_table (t_size_lg2 t + 1) ok = Some new" "tab_inv inthash new"
    "tab_map new = Map.empty" "t_size_lg2 new = t_size_lg2 t + 1" "t_count new = 0"
    using init_table_Some [of "t_size_lg2 t + 1" ok inthash] lg ok by auto
  have lt: "t_count t < t_max_count new" by (rule double_capacity [OF inv new(2,4)])
  obtain new' where new': "tab_iter t (\<lambda>e new. tab_insert new (intkey (te_key e)) (te_key e) (te_val e)
        (inthash (te_key e)) inthash inteql) (tab_begin t) new = Some new'"
    "tab_inv inthash new'" "tab_map new' = tab_map t" "t_size_lg2 new' = t_size_lg2 new"
    "t_count new' = t_count t"
    by (rule it.rehash_correct [OF inv new(2,3,5), where lk = "\<lambda>e. intkey (te_key e)"])
      (use lt in \<open>auto simp: intkey_def\<close>)
  have "t_max_count new' = t_max_count new"
    using new'(2,4) new(2) by (simp add: tab_inv_def table_wf_def upb_table_size_def)
  then show thesis using that [of new'] new new' lt by (simp add: grow_hash_def)
qed

lemma it_insert_array:
  assumes inv: "it_inv t" and key: "unat key < it_array_size t" and val: "val \<noteq> - 1"
    and new: "it_map t key = None"
  obtains t' where "upb_inttable_insert t key val ok = Some (True, t')" "it_inv t'"
    "it_map t' = (it_map t)(key \<mapsto> val)" "it_array_size t' = it_array_size t" "it_t t' = it_t t"
proof -
  note D = it_invD [OF inv]
  have old: "\<not> upb_arrhas (it_array t ! unat key)"
    using new key by (auto simp: it_map_def split: if_splits)
  have has: "upb_arrhas val" using val by (simp add: upb_arrhas_def)
  let ?t = "t\<lparr>it_array_count := it_array_count t + 1, it_array := (it_array t)[unat key := val]\<rparr>"
  have "upb_inttable_insert t key val ok = Some (True, ?t)"
    using key old has D(2) by (simp add: upb_inttable_insert_def)
  moreover have "it_inv ?t"
    using array_slots_fill [of "unat key" "it_array t" val] key old has D inv
    by (auto simp: it_inv_def)
  moreover have "it_map ?t = (it_map t)(key \<mapsto> val)"
    using key has D(2) by (auto simp: it_map_def fun_eq_iff nth_list_update)
  ultimately show thesis using that by fastforce
qed

lemma it_insert_hash:
  assumes inv: "it_inv t" and key: "it_array_size t \<le> unat key" and val: "val \<noteq> - 1"
    and new: "it_map t key = None"
    and room: "t_count (it_t t) < t_max_count (it_t t) \<or> ok \<and> t_size_lg2 (it_t t) < 30"
  obtains t' where "upb_inttable_insert t key val ok = Some (True, t')" "it_inv t'"
    "it_map t' = (it_map t)(key \<mapsto> val)" "it_array_size t' = it_array_size t"
    "t_count (it_t t) < t_max_count (it_t t) \<Longrightarrow> t_size_lg2 (it_t t') = t_size_lg2 (it_t t)"
    "t_count (it_t t') = Suc (t_count (it_t t))"
    "t_size_lg2 (it_t t') = (if isfull (it_t t) then Suc (t_size_lg2 (it_t t)) else t_size_lg2 (it_t t))"
proof -
  note D = it_invD [OF inv]
  have has: "upb_arrhas val" using val by (simp add: upb_arrhas_def)
  have k: "key \<noteq> 0" using hash_key_nonzero [OF inv key] .
  let ?full = "isfull (it_t t)"
  have full: "?full \<longleftrightarrow> \<not> t_count (it_t t) < t_max_count (it_t t)"
    using D(1) by (auto simp: isfull_def tab_inv_def)
  obtain tab where tab: "(if ?full then grow_hash (it_t t) ok else Some (Some (it_t t))) = Some (Some tab)"
    "tab_inv inthash tab" "tab_map tab = tab_map (it_t t)" "t_count tab = t_count (it_t t)"
    "t_count tab < t_max_count tab" "\<not> ?full \<Longrightarrow> tab = it_t t"
    "t_size_lg2 tab = (if ?full then Suc (t_size_lg2 (it_t t)) else t_size_lg2 (it_t t))"
  proof (cases ?full)
    case True
    then have "ok" "t_size_lg2 (it_t t) < 30" using room full by auto
    then show ?thesis using grow_hash_correct [OF D(1), of ok] that True by metis
  next
    case False
    then show ?thesis using that [of "it_t t"] D(1) full by simp
  qed
  have "tab_map tab (intkey key) = None"
    using new key tab(3) by (simp add: it_map_def intkey_def)
  then obtain tab' where tab': "tab_insert tab key key val (inthash key) inthash inteql = Some tab'"
    "tab_inv inthash tab'" "tab_map tab' = (tab_map tab)(key \<mapsto> val)" "t_size_lg2 tab' = t_size_lg2 tab"
    "t_count tab' = Suc (t_count tab)"
    using it.insert_correct [OF tab(2,5), of key val] k by (metis intkey_def)
  let ?t = "t\<lparr>it_t := tab'\<rparr>"
  have "upb_inttable_insert t key val ok = Some (True, ?t)"
    using key has tab(1) tab'(1) by (simp add: upb_inttable_insert_def intkey_def)
  moreover have "it_inv ?t"
    using D inv tab'(2,3) tab(3) key val by (auto simp: it_inv_def split: if_splits)
  moreover have "it_map ?t = (it_map t)(key \<mapsto> val)"
    using key tab'(3) tab(3) by (auto simp: it_map_def fun_eq_iff)
  moreover have "t_size_lg2 tab' = t_size_lg2 (it_t t)" if "t_count (it_t t) < t_max_count (it_t t)"
    using that full tab(6) tab'(4) by simp
  ultimately show thesis using that [of ?t] tab(4,7) tab'(4,5) by simp
qed

lemma it_insert_correct:
  assumes inv: "it_inv t" and val: "val \<noteq> - 1" and new: "it_map t key = None"
    and lg: "t_size_lg2 (it_t t) < 30"
  obtains t' where "upb_inttable_insert t key val True = Some (True, t')" "it_inv t'"
    "it_map t' = (it_map t)(key \<mapsto> val)"
    "t_size_lg2 (it_t t') = t_size_lg2 (it_t t) \<or>
     isfull (it_t t) \<and> t_size_lg2 (it_t t') = Suc (t_size_lg2 (it_t t))"
proof (cases "unat key < it_array_size t")
  case True
  then show ?thesis using it_insert_array [OF inv True val new] that by metis
next
  case False
  then have key: "it_array_size t \<le> unat key" by simp
  show ?thesis
    by (rule it_insert_hash [OF inv key val new, of True]) (use lg that in \<open>auto split: if_splits\<close>)
qed

lemma it_insert_failed:
  assumes inv: "it_inv t" and val: "val \<noteq> - 1" and new: "it_map t key = None"
    and r: "upb_inttable_insert t key val ok = Some (False, t')"
  shows "t' = t \<and> \<not> ok"
proof (cases "unat key < it_array_size t")
  case True
  then show ?thesis using it_insert_array [OF inv True val new, of ok] r
    by (metis Pair_inject option.inject)
next
  case False
  then show ?thesis using r
    by (auto simp: upb_inttable_insert_def grow_hash_def init_table_def Let_def bind_eq_Some_conv
        split: if_splits option.splits)
qed

lemma it_remove_correct:
  assumes inv: "it_inv t" and safe: "unat key < it_array_size t \<or> t_size_lg2 (it_t t) \<noteq> 0"
  obtains t' where "upb_inttable_remove t key = Some (t', it_map t key)" "it_inv t'"
    "it_map t' = (it_map t)(key := None)" "it_array_size t' = it_array_size t"
proof (cases "unat key < it_array_size t")
  case True
  note D = it_invD [OF inv]
  show ?thesis
  proof (cases "upb_arrhas (it_array t ! unat key)")
    case has: True
    let ?t = "t\<lparr>it_array_count := it_array_count t - 1,
                it_array := (it_array t)[unat key := UPB_TABVALUE_EMPTY]\<rparr>"
    have no: "\<not> upb_arrhas UPB_TABVALUE_EMPTY" by (simp add: upb_arrhas_def UPB_TABVALUE_EMPTY_def)
    have "upb_inttable_remove t key = Some (?t, it_map t key)"
      using True has D(2) by (simp add: upb_inttable_remove_def it_map_def)
    moreover have "it_inv ?t"
      using array_slots_empty [of "unat key" "it_array t" UPB_TABVALUE_EMPTY] True has no D inv
      by (auto simp: it_inv_def)
    moreover have "it_map ?t = (it_map t)(key := None)"
      using True no D(2) by (auto simp: it_map_def fun_eq_iff nth_list_update)
    ultimately show thesis using that by fastforce
  next
    case False
    then show thesis using that [of t] True D(2) inv
      by (simp add: upb_inttable_remove_def it_map_def fun_upd_idem)
  qed
next
  case False
  note D = it_invD [OF inv]
  have k: "key \<noteq> 0" using False hash_key_nonzero [OF inv, of key] by simp
  obtain tab where tab:
    "tab_rm (it_t t) key (inthash key) inteql = Some (tab, map_option (Pair key) (tab_map (it_t t) key))"
    "tab_inv inthash tab" "tab_map tab = (tab_map (it_t t))(key := None)"
    using it.rm_correct [OF D(1), of key] safe False k by (metis intkey_def)
  let ?t = "t\<lparr>it_t := tab\<rparr>"
  have "upb_inttable_remove t key = Some (?t, it_map t key)"
    using False tab(1) by (cases "tab_map (it_t t) key")
      (simp_all add: upb_inttable_remove_def it_map_def intkey_def)
  moreover have "it_inv ?t" using D inv tab(2,3) by (auto simp: it_inv_def split: if_splits)
  moreover have "it_map ?t = (it_map t)(key := None)"
    using False tab(3) by (auto simp: it_map_def fun_eq_iff)
  ultimately show thesis using that by fastforce
qed

lemma tab_set_value:
  fixes v :: u64
  assumes inv: "tab_inv hf t" and i: "i < upb_table_size t" "slot_key (t_entries t) i = k" "k \<noteq> 0"
  defines "t' \<equiv> t\<lparr>t_entries := (t_entries t)[i := (t_entries t ! i)\<lparr>te_val := v\<rparr>]\<rparr>"
  shows "tab_inv hf t' \<and> tab_map t' = (tab_map t)(k \<mapsto> v)"
proof -
  let ?es = "t_entries t" and ?n = "upb_table_size t"
  have il: "i < length ?es" using inv i by (simp add: tab_inv_def table_wf_def)
  have sel: "t_entries t' = ?es[i := (?es ! i)\<lparr>te_val := v\<rparr>]" "t_count t' = t_count t"
    "t_mask t' = t_mask t" "t_size_lg2 t' = t_size_lg2 t" "t_max_count t' = t_max_count t"
    by (simp_all add: t'_def)
  have size: "upb_table_size t' = ?n" by (simp add: upb_table_size_def sel)
  have up: "slot_key (t_entries t') = slot_key ?es" "slot_next (t_entries t') = slot_next ?es"
    "slot_val (t_entries t') = (slot_val ?es)(i := v)"
    using il by (auto simp: sel fun_eq_iff)
  have home: "home_of hf t' = home_of hf t"
    by (simp add: home_of_def upb_getentry_def sel fun_eq_iff)
  have wf': "table_wf t'" using inv by (simp add: tab_inv_def table_wf_def size sel)
  have inv': "tab_inv hf t'"
    using inv wf' unfolding tab_inv_def size up home sel(2,5) by blast
  have inj: "inj_on (slot_key ?es) (occupied ?n (slot_key ?es))" using inv by (simp add: tab_inv_def)
  have same: "j = i" if "j < ?n" "slot_key ?es j = k" for j
    using inj_onD [OF inj, of j i] that i by simp
  have "(a, b) \<in> kvs (upb_table_size t') (slot_key (t_entries t')) (slot_val (t_entries t')) \<longleftrightarrow>
        ((tab_map t)(k \<mapsto> v)) a = Some b" if "a \<noteq> 0" for a b
  proof (cases "a = k")
    case True
    then show ?thesis unfolding size up kvs_iff using i same by fastforce
  next
    case False
    have "(\<exists>j\<in>occupied ?n (slot_key ?es). slot_key ?es j = a \<and> ((slot_val ?es)(i := v)) j = b) \<longleftrightarrow>
          (\<exists>j\<in>occupied ?n (slot_key ?es). slot_key ?es j = a \<and> slot_val ?es j = b)"
      using i(2) False by (intro bex_cong) auto
    then show ?thesis unfolding size up kvs_iff
      using that False tab_map_eq [OF inv, of a b] by (simp add: kvs_iff)
  qed
  then have "tab_map t' = (tab_map t)(k \<mapsto> v)"
    by (rule tab_map_cong [OF inv inv']) (use i in \<open>auto simp: tab_map_def\<close>)
  with inv' show ?thesis by simp
qed

lemma it_replace_correct:
  assumes inv: "it_inv t" and val: "val \<noteq> - 1"
  obtains t' where "upb_inttable_replace t key val = Some (it_map t key \<noteq> None, t')" "it_inv t'"
    "it_map t' = (if it_map t key = None then it_map t else (it_map t)(key \<mapsto> val))"
proof (cases "unat key < it_array_size t")
  case True
  note D = it_invD [OF inv]
  have has: "upb_arrhas val" using val by (simp add: upb_arrhas_def)
  show ?thesis
  proof (cases "upb_arrhas (it_array t ! unat key)")
    case occ: True
    let ?t = "t\<lparr>it_array := (it_array t)[unat key := val]\<rparr>"
    have "upb_inttable_replace t key val = Some (it_map t key \<noteq> None, ?t)"
      using True occ D(2) by (simp add: upb_inttable_replace_def inttable_val_def it_map_def)
    moreover have "it_inv ?t"
      using array_slots_keep [of "unat key" "it_array t" val] True occ has D inv
      by (auto simp: it_inv_def)
    moreover have "it_map ?t = (it_map t)(key \<mapsto> val)"
      using True occ has D(2) by (auto simp: it_map_def fun_eq_iff nth_list_update)
    moreover have "it_map t key \<noteq> None" using True occ by (simp add: it_map_def)
    ultimately show thesis by (intro that [of ?t]) auto
  next
    case False
    then show thesis using that [of t] True D(2) inv
      by (simp add: upb_inttable_replace_def inttable_val_def it_map_def)
  qed
next
  case False
  note D = it_invD [OF inv]
  have k: "key \<noteq> 0" using False hash_key_nonzero [OF inv, of key] by simp
  have m: "it_map t key = tab_map (it_t t) key" using False by (simp add: it_map_def)
  show ?thesis
  proof (cases "tab_map (it_t t) key")
    case None
    then have "findentry (it_t t) key (inthash key) inteql = Some None"
      using it.findentry_None [OF D(1), of key] k by (simp add: intkey_def)
    then show thesis using that [of t] False inv m None
      by (simp add: upb_inttable_replace_def inttable_val_def intkey_def inthash_def)
  next
    case (Some v)
    then obtain i where i: "i < upb_table_size (it_t t)" "slot_key (t_entries (it_t t)) i = key"
      using tab_map_eq [OF D(1)] by (auto simp: kvs_iff)
    have il: "i < length (t_entries (it_t t))" using i D(1) by (simp add: tab_inv_def table_wf_def)
    have "findentry (it_t t) key (inthash key) inteql = Some (Some i)"
      using it.findentry_Some [OF D(1), of key] i k by (simp add: intkey_def)
    moreover note sv = tab_set_value [OF D(1) i k, of val]
    ultimately show thesis
      using that [of "t\<lparr>it_t := (it_t t)\<lparr>t_entries := (t_entries (it_t t))
          [i := (t_entries (it_t t) ! i)\<lparr>te_val := val\<rparr>]\<rparr>\<rparr>"] False il inv val m Some D(6)
      by (auto simp: upb_inttable_replace_def inttable_val_def intkey_def inthash_def it_inv_def
          it_map_def fun_eq_iff)
  qed
qed

section \<open>What an iteration visits\<close>

definition array_pairs_from :: "upb_inttable \<Rightarrow> nat \<Rightarrow> (u64 \<times> u64) list" where
  "array_pairs_from t i =
     map (\<lambda>j. (of_nat j, it_array t ! j))
       (filter (\<lambda>j. upb_arrhas (it_array t ! j)) [i..<it_array_size t])"

definition hash_pairs :: "u64 upb_table \<Rightarrow> (u64 \<times> u64) list" where
  "hash_pairs t = map (\<lambda>e. (te_key e, te_val e)) (filter (\<lambda>e. te_key e \<noteq> 0) (t_entries t))"

definition it_pairs :: "upb_inttable \<Rightarrow> (u64 \<times> u64) list" where
  "it_pairs t = array_pairs_from t 0 @ hash_pairs (it_t t)"

lemma iter_loop_hash:
  assumes "it_inv t"
  shows "unat (i + 1) \<le> upb_table_size (it_t t) \<Longrightarrow>
    int_iter_loop t body \<lparr>ii_index = tab_next (it_t t) i, ii_array_part = False\<rparr> s =
    foldM body (map (\<lambda>j. (slot_key (t_entries (it_t t)) j, slot_val (t_entries (it_t t)) j))
      (live_from (it_t t) (unat (i + 1)))) s"
proof (induction "length (live_from (it_t t) (unat (i + 1)))" arbitrary: i s rule: less_induct)
  case less
  have wf: "table_wf (it_t t)" using assms by (simp add: it_inv_def tab_inv_def)
  consider "live_from (it_t t) (unat (i + 1)) = []" "\<not> unat (tab_next (it_t t) i) < upb_table_size (it_t t)"
    | j where "live_from (it_t t) (unat (i + 1)) = j # live_from (it_t t) (Suc j)"
      "unat (tab_next (it_t t) i) = j" "j < upb_table_size (it_t t)"
      "unat (tab_next (it_t t) i + 1) = Suc j"
    using tab_next_word [OF wf less.prems] by blast
  then show ?case
  proof cases
    case 1
    then show ?thesis by (subst int_iter_loop.simps) (simp add: upb_inttable_done_def)
  next
    case (2 j)
    have jl: "j < length (t_entries (it_t t))" using 2(3) wf by (simp add: table_wf_def)
    have "j \<in> set (live_from (it_t t) (unat (i + 1)))" using 2(1) by simp
    then have key: "slot_key (t_entries (it_t t)) j \<noteq> 0" by (simp add: live_from_def)
    have "int_iter_loop t body \<lparr>ii_index = tab_next (it_t t) (tab_next (it_t t) i), ii_array_part = False\<rparr> =
        foldM body (map (\<lambda>j. (slot_key (t_entries (it_t t)) j, slot_val (t_entries (it_t t)) j))
          (live_from (it_t t) (Suc j)))"
      by (rule ext) (use less.hyps [of "tab_next (it_t t) i"] 2 in simp)
    then show ?thesis using 2 jl key
      by (subst int_iter_loop.simps)
        (simp add: upb_inttable_done_def upb_inttable_iter_key_def upb_inttable_iter_value_def
          upb_inttable_next_def)
  qed
qed

lemma hash_pairs_slots:
  assumes "table_wf t"
  shows "map (\<lambda>j. (slot_key (t_entries t) j, slot_val (t_entries t) j)) (live_from t 0) = hash_pairs t"
proof -
  have "hash_pairs t = map (\<lambda>e. (te_key e, te_val e)) (map ((!) (t_entries t)) (live_from t 0))"
    using filter_map_nth [of "t_entries t" "\<lambda>e. te_key e \<noteq> 0"] assms
    by (simp add: hash_pairs_def live_from_def table_wf_def)
  then show ?thesis by simp
qed

lemma iter_loop_array:
  assumes inv: "it_inv t"
  shows "unat (i + 1) \<le> it_array_size t \<Longrightarrow>
    int_iter_loop t body (upb_inttable_next t \<lparr>ii_index = i, ii_array_part = True\<rparr>) s =
    foldM body (array_pairs_from t (unat (i + 1)) @ hash_pairs (it_t t)) s"
proof (induction "it_array_size t - unat (i + 1)" arbitrary: i s rule: less_induct)
  case less
  note D = it_invD [OF inv]
  let ?P = "\<lambda>j. upb_arrhas (it_array t ! j)"
  have wf: "table_wf (it_t t)" using D(1) by (simp add: tab_inv_def)
  show ?case
  proof (cases "find ?P [unat (i + 1)..<it_array_size t]")
    case None
    then have "array_pairs_from t (unat (i + 1)) = []"
      by (auto simp: array_pairs_from_def find_None_iff filter_empty_conv)
    moreover have "upb_inttable_next t \<lparr>ii_index = i, ii_array_part = True\<rparr> =
        \<lparr>ii_index = tab_next (it_t t) (- 1), ii_array_part = False\<rparr>"
      using None by (simp add: upb_inttable_next_def tab_begin_def)
    ultimately show ?thesis
      using iter_loop_hash [OF inv, of "- 1" body s] hash_pairs_slots [OF wf] by simp
  next
    case (Some j)
    then have j: "unat (i + 1) \<le> j" "j < it_array_size t" "?P j"
      "\<And>k. unat (i + 1) \<le> k \<Longrightarrow> k < j \<Longrightarrow> \<not> ?P k"
      by (auto simp: find_upt_Some)
    have "[unat (i + 1)..<it_array_size t] = [unat (i + 1)..<j] @ j # [Suc j..<it_array_size t]"
      using j(1,2) by (metis le_add_diff_inverse less_imp_le upt_add_eq_append upt_conv_Cons)
    then have ap: "array_pairs_from t (unat (i + 1)) = (of_nat j, it_array t ! j) # array_pairs_from t (Suc j)"
      using j(3,4) by (simp add: array_pairs_from_def filter_empty_conv)
    have nx: "upb_inttable_next t \<lparr>ii_index = i, ii_array_part = True\<rparr> =
        \<lparr>ii_index = of_nat j, ii_array_part = True\<rparr>"
      using Some by (simp add: upb_inttable_next_def)
    have "Suc j \<le> it_array_size t" "Suc j < 2 ^ 64" "j < 2 ^ 64" using j(2) D(4) by simp_all
    then have u: "unat (of_nat j :: u64) = j" "unat (of_nat j + 1 :: u64) = Suc j"
      by (rule_tac unat_of_nat_id, simp, rule_tac unat_of_nat_Suc, simp)
    have less': "it_array_size t - unat (of_nat j + 1 :: u64) < it_array_size t - unat (i + 1)"
      "unat (of_nat j + 1 :: u64) \<le> it_array_size t"
      unfolding u using j(1,2) by linarith+
    have rest: "int_iter_loop t body (upb_inttable_next t \<lparr>ii_index = of_nat j, ii_array_part = True\<rparr>) =
        foldM body (array_pairs_from t (Suc j) @ hash_pairs (it_t t))"
      by (rule ext) (rule less.hyps [OF less', unfolded u])
    have isdone: "upb_inttable_done t \<lparr>ii_index = of_nat j, ii_array_part = True\<rparr> = Some False"
      using j u D(2) by (simp add: upb_inttable_done_def)
    have kv: "upb_inttable_iter_key t \<lparr>ii_index = of_nat j, ii_array_part = True\<rparr> = Some (of_nat j)"
      "upb_inttable_iter_value t \<lparr>ii_index = of_nat j, ii_array_part = True\<rparr> = Some (it_array t ! j)"
      using j u D(2) by (simp_all add: upb_inttable_iter_key_def upb_inttable_iter_value_def isdone)
    show ?thesis unfolding nx ap
      by (subst int_iter_loop.simps) (simp only: isdone kv rest append_Cons foldM.simps bind.bind_lunit if_False)
  qed
qed

lemma iter_loop_fold:
  assumes "it_inv t"
  shows "int_iter_loop t body (upb_inttable_begin t) s = foldM body (it_pairs t) s"
  using iter_loop_array [OF assms, of "- 1" body s] by (simp add: upb_inttable_begin_def it_pairs_def)

text \<open>The pairs visited are the map, each key once.\<close>

lemma it_pairs_map:
  assumes inv: "it_inv t"
  shows "map_of (it_pairs t) = it_map t" "distinct (map fst (it_pairs t))"
    "length (it_pairs t) = upb_inttable_count t"
proof -
  note D = it_invD [OF inv]
  let ?js = "filter (\<lambda>j. upb_arrhas (it_array t ! j)) [0..<it_array_size t]"
  have small: "unat (of_nat j :: u64) = j" if "j < it_array_size t" for j
    using that D(4) by (intro unat_of_nat_id) simp
  have inj: "inj_on (of_nat :: nat \<Rightarrow> u64) (set ?js)"
    using small by (intro inj_on_inverseI [of _ unat]) auto
  have hash: "map_of (hash_pairs (it_t t)) = tab_map (it_t t)"
    by (simp add: hash_pairs_def tab_map_alist)
  have arr: "map_of (array_pairs_from t 0) k =
      (if unat k < it_array_size t \<and> upb_arrhas (it_array t ! unat k)
       then Some (it_array t ! unat k) else None)" for k
  proof (cases "unat k < it_array_size t \<and> upb_arrhas (it_array t ! unat k)")
    case True
    then have mem: "(k, it_array t ! unat k) \<in> set (array_pairs_from t 0)"
      by (auto simp: array_pairs_from_def image_iff intro: exI [of _ "unat k"])
    have "distinct (map fst (array_pairs_from t 0))"
      using inj by (simp add: array_pairs_from_def comp_def distinct_map)
    then show ?thesis using True map_of_is_SomeI [OF _ mem] by simp
  next
    case False
    then have "k \<notin> fst ` set (array_pairs_from t 0)"
      using small by (auto simp: array_pairs_from_def)
    then show ?thesis using False by (simp add: map_of_eq_None_iff del: map_of_eq_None_iff) (metis map_of_eq_None_iff)
  qed
  have none: "tab_map (it_t t) k = None" if "unat k < it_array_size t" for k
    using D(6) [of k] that by (cases "tab_map (it_t t) k") auto
  show "map_of (it_pairs t) = it_map t"
    by (rule ext) (use none in \<open>auto simp: it_pairs_def map_add_def arr hash it_map_def
      upb_arrhas_def split: option.splits\<close>)
  have keys: "set (map fst (hash_pairs (it_t t))) = dom (tab_map (it_t t))"
    using hash dom_map_of_conv_image_fst [of "hash_pairs (it_t t)"] by simp
  have "set (map fst (array_pairs_from t 0)) \<inter> set (map fst (hash_pairs (it_t t))) = {}"
  proof (rule ccontr)
    assume "\<not> ?thesis"
    then obtain k where k: "k \<in> fst ` set (array_pairs_from t 0)" "k \<in> dom (tab_map (it_t t))"
      using keys by auto
    then have "unat k < it_array_size t" using small by (auto simp: array_pairs_from_def)
    moreover have "it_array_size t \<le> unat k" using k(2) D(6) by auto
    ultimately show False by simp
  qed
  moreover have "distinct (map fst (hash_pairs (it_t t)))"
    using live_entries(1) [OF D(1)] by (simp add: hash_pairs_def comp_def)
  moreover have "distinct (map fst (array_pairs_from t 0))"
    using inj by (simp add: array_pairs_from_def comp_def distinct_map)
  ultimately show "distinct (map fst (it_pairs t))" by (simp add: it_pairs_def)
  have "length ?js = card (array_slots (it_array t))"
  proof -
    have "set ?js = array_slots (it_array t)" using D(2) by (auto simp: array_slots_def)
    then show ?thesis using distinct_card [of ?js] by simp
  qed
  then show "length (it_pairs t) = upb_inttable_count t"
    using live_entries(2) [OF D(1)] D(5)
    by (simp add: it_pairs_def array_pairs_from_def hash_pairs_def upb_inttable_count_def)
qed

section \<open>Compaction keeps the map\<close>

abbreviation bucket :: "u64 \<times> u64 \<Rightarrow> nat" where
  "bucket kv \<equiv> log2ceil (fst kv)"

lemma hist_fold:
  assumes "length cs = 17" "length ms = 17"
  shows "\<exists>cs' ms'. foldM hist_step ps (cs, ms) = Some (cs', ms') \<and> length cs' = 17 \<and> length ms' = 17 \<and>
    (\<forall>b<17. cs' ! b = cs ! b + length (filter (\<lambda>kv. bucket kv = b) ps) \<and> ms ! b \<le> ms' ! b \<and>
       (\<forall>kv\<in>set ps. bucket kv = b \<longrightarrow> fst kv \<le> ms' ! b) \<and>
       (ms' ! b = ms ! b \<or> (\<exists>kv\<in>set ps. bucket kv = b \<and> ms' ! b = fst kv)))"
  using assms
proof (induction ps arbitrary: cs ms)
  case Nil
  then show ?case by simp
next
  case (Cons kv ps)
  have b: "bucket kv < 17" using log2ceil_le_16 [of "fst kv"] by simp
  let ?cs = "cs[bucket kv := cs ! bucket kv + 1]"
  let ?ms = "ms[bucket kv := max (ms ! bucket kv) (fst kv)]"
  have step: "hist_step kv (cs, ms) = Some (?cs, ?ms)"
    using b Cons.prems by (simp add: hist_step_def Let_def)
  obtain cs' ms' where r: "foldM hist_step ps (?cs, ?ms) = Some (cs', ms')" "length cs' = 17" "length ms' = 17"
    and all: "\<And>b. b < 17 \<Longrightarrow> cs' ! b = ?cs ! b + length (filter (\<lambda>kv. bucket kv = b) ps) \<and> ?ms ! b \<le> ms' ! b \<and>
       (\<forall>kv\<in>set ps. bucket kv = b \<longrightarrow> fst kv \<le> ms' ! b) \<and>
       (ms' ! b = ?ms ! b \<or> (\<exists>kv\<in>set ps. bucket kv = b \<and> ms' ! b = fst kv))"
    using Cons.IH [of ?cs ?ms] Cons.prems by auto
  have "cs' ! c = cs ! c + length (filter (\<lambda>kv. bucket kv = c) (kv # ps)) \<and> ms ! c \<le> ms' ! c \<and>
       (\<forall>x\<in>set (kv # ps). bucket x = c \<longrightarrow> fst x \<le> ms' ! c) \<and>
       (ms' ! c = ms ! c \<or> (\<exists>x\<in>set (kv # ps). bucket x = c \<and> ms' ! c = fst x))" if "c < 17" for c
    using all [OF that] Cons.prems b by (cases "c = bucket kv") (auto simp: max_def split: if_splits)
  then show ?case using step r by auto
qed

lemma density_loop_spec:
  assumes "density_loop counts lg arr = (lg', arr')" "arr = (\<Sum>b\<le>lg. counts ! b)"
  shows "lg' \<le> lg \<and> arr' = (\<Sum>b\<le>lg'. counts ! b) \<and> (0 < lg' \<longrightarrow> counts ! lg' \<noteq> 0 \<and> 2 ^ lg' \<le> 10 * arr')"
  using assms
proof (induction counts lg arr rule: density_loop.induct)
  case (1 counts arr)
  then show ?case by simp
next
  case (2 counts lg arr)
  then show ?case by (auto split: if_splits)
qed

lemma filter_le_sum:
  "length (filter (\<lambda>x. f x \<le> (n::nat)) xs) = (\<Sum>b\<le>n. length (filter (\<lambda>x. f x = b) xs))"
proof (induction n)
  case 0
  then show ?case by simp
next
  case (Suc n)
  have "length (filter (\<lambda>x. f x \<le> Suc n) xs) =
      length (filter (\<lambda>x. f x \<le> n) xs) + length (filter (\<lambda>x. f x = Suc n) xs)"
    by (induction xs) (auto simp: le_Suc_eq)
  with Suc show ?case by simp
qed

lemma bucket_max_split:
  assumes m: "m = 0 \<and> lg = 0 \<or> log2ceil m = lg" and top: "log2ceil k = lg \<Longrightarrow> k \<le> m"
  shows "log2ceil k \<le> lg \<longleftrightarrow> k \<le> m"
proof
  assume le: "log2ceil k \<le> lg"
  show "k \<le> m"
  proof (cases "log2ceil k = lg")
    case True
    then show ?thesis by (rule top)
  next
    case False
    then have "log2ceil k < log2ceil m" using le m by (auto simp: log2ceil_0)
    then have "\<not> unat m \<le> unat k" using log2ceil_mono [of m k] by linarith
    then show ?thesis by (simp add: word_le_nat_alt)
  qed
next
  assume "k \<le> m"
  then have "log2ceil k \<le> log2ceil m" by (intro log2ceil_mono) (simp add: word_le_nat_alt)
  then show "log2ceil k \<le> lg" using m by (auto simp: log2ceil_0)
qed

text \<open>What the plan of a compaction guarantees.\<close>

lemma compact_plan_spec:
  assumes inv: "it_inv t"
  obtains lg arr m where
    "compact_plan t = Some (arr, unat (m + 1),
       log2ceil (of_nat (hash_size_for (upb_inttable_count t - arr))))"
    "lg \<le> 16" "arr = length (filter (\<lambda>kv. bucket kv \<le> lg) (it_pairs t))"
    "\<And>kv. kv \<in> set (it_pairs t) \<Longrightarrow> bucket kv \<le> lg \<longleftrightarrow> fst kv \<le> m"
    "0 < lg \<Longrightarrow> 2 ^ lg \<le> 10 * arr" "m = 0 \<or> m \<in> dom (it_map t)" "log2ceil m = lg"
proof -
  let ?ps = "it_pairs t"
  obtain cs ms where h: "foldM hist_step ?ps (replicate 17 0, replicate 17 0) = Some (cs, ms)"
    "length cs = 17" "length ms = 17"
    and all: "\<And>b. b < 17 \<Longrightarrow> cs ! b = length (filter (\<lambda>kv. bucket kv = b) ?ps) \<and>
       (\<forall>kv\<in>set ?ps. bucket kv = b \<longrightarrow> fst kv \<le> ms ! b) \<and>
       (ms ! b = 0 \<or> (\<exists>kv\<in>set ?ps. bucket kv = b \<and> ms ! b = fst kv))"
    using hist_fold [of "replicate 17 0" "replicate 17 0" ?ps] by auto
  have sum: "(\<Sum>b\<le>n. cs ! b) = length (filter (\<lambda>kv. bucket kv \<le> n) ?ps)" if "n \<le> 16" for n
    unfolding filter_le_sum using all that by (intro sum.cong) auto
  have "filter (\<lambda>kv. bucket kv \<le> 16) ?ps = ?ps" using log2ceil_le_16 by simp
  then have total: "upb_inttable_count t = (\<Sum>b\<le>16. cs ! b)"
    using sum [of 16] it_pairs_map(3) [OF inv] by simp
  obtain lg arr where dl: "density_loop cs 16 (upb_inttable_count t) = (lg, arr)" by fastforce
  note spec = density_loop_spec [OF dl total]
  have lg: "lg < 17" "lg \<le> 16" using spec by simp_all
  have arr: "arr = length (filter (\<lambda>kv. bucket kv \<le> lg) ?ps)" using spec sum lg by simp
  define m where "m = ms ! lg"
  have m: "log2ceil m = lg"
  proof (cases "m = 0")
    case False
    then show ?thesis using all [OF lg(1)] by (auto simp: m_def)
  next
    case True
    show ?thesis
    proof (cases "lg = 0")
      case True
      then show ?thesis using \<open>m = 0\<close> by (simp add: log2ceil_0)
    next
      case False
      then have "cs ! lg \<noteq> 0" using spec by simp
      then obtain kv where "kv \<in> set ?ps" "bucket kv = lg"
        using all [OF lg(1)] by (auto simp: filter_empty_conv)
      then have "fst kv \<le> 0" using all [OF lg(1)] True by (auto simp: m_def)
      then show ?thesis using \<open>bucket kv = lg\<close> True by simp
    qed
  qed
  have "length (filter P ?ps) \<le> length ?ps" for P by simp
  then have le: "arr \<le> upb_inttable_count t" using arr it_pairs_map(3) [OF inv] by simp
  have "compact_plan t = Some (arr, unat (m + 1),
       log2ceil (of_nat (hash_size_for (upb_inttable_count t - arr))))"
    using h dl le lg
    by (simp add: compact_plan_def iter_loop_fold [OF inv] UPB_MAXARRSIZE_def m_def)
  moreover have "m = 0 \<or> m \<in> dom (it_map t)"
  proof (cases "m = 0")
    case False
    then obtain kv where "kv \<in> set ?ps" "m = fst kv" using all [OF lg(1)] by (auto simp: m_def)
    then have "m \<in> fst ` set ?ps" by simp
    then show ?thesis
      using dom_map_of_conv_image_fst [of ?ps] it_pairs_map(1) [OF inv] by simp
  qed simp
  moreover have "bucket kv \<le> lg \<longleftrightarrow> fst kv \<le> m" if "kv \<in> set ?ps" for kv
    by (rule bucket_max_split) (use m all [OF lg(1)] that in \<open>auto simp: m_def\<close>)
  ultimately show thesis using that [OF _ lg(2) arr] spec m by auto
qed

lemma compact_fold:
  assumes "it_inv new" "distinct (map fst ps)"
    and "\<And>kv. kv \<in> set ps \<Longrightarrow> snd kv \<noteq> - 1 \<and> it_map new (fst kv) = None"
    and "t_count (it_t new) + length (filter (\<lambda>kv. it_array_size new \<le> unat (fst kv)) ps)
           \<le> t_max_count (it_t new)"
  obtains new' where
    "foldM (\<lambda>kv new. do { (r, new') \<leftarrow> upb_inttable_insert new (fst kv) (snd kv) ok; Some new' }) ps new = Some new'"
    "it_inv new'" "it_map new' = it_map new ++ map_of ps" "it_array_size new' = it_array_size new"
    "t_size_lg2 (it_t new') = t_size_lg2 (it_t new)"
  using assms
proof (induction ps arbitrary: new thesis)
  case Nil
  then show ?case by simp
next
  case (Cons kv ps)
  obtain k v where kv: "kv = (k, v)" by fastforce
  have new: "v \<noteq> - 1" "it_map new k = None" using Cons.prems(4) [of kv] kv by auto
  obtain new1 where new1: "upb_inttable_insert new k v ok = Some (True, new1)" "it_inv new1"
    "it_map new1 = (it_map new)(k \<mapsto> v)" "it_array_size new1 = it_array_size new"
    "t_size_lg2 (it_t new1) = t_size_lg2 (it_t new)"
    "t_count (it_t new1) = t_count (it_t new) + (if it_array_size new \<le> unat k then 1 else 0)"
  proof (cases "it_array_size new \<le> unat k")
    case True
    then have room: "t_count (it_t new) < t_max_count (it_t new)" using Cons.prems(5) kv by simp
    show ?thesis
      by (rule it_insert_hash [OF Cons.prems(2) True new, of ok]) (use room that True in auto)
  next
    case False
    then have lt: "unat k < it_array_size new" by simp
    show ?thesis
      by (rule it_insert_array [OF Cons.prems(2) lt new, of ok]) (use that False in auto)
  qed
  have mc: "t_max_count (it_t new1) = t_max_count (it_t new)"
    using new1(2,5) Cons.prems(2) by (simp add: it_inv_def tab_inv_def table_wf_def upb_table_size_def)
  have fresh: "snd x \<noteq> - 1 \<and> it_map new1 (fst x) = None" if "x \<in> set ps" for x
  proof -
    have "fst x \<noteq> k" using Cons.prems(3) that kv by (auto dest: sym)
    then show ?thesis using Cons.prems(4) [of x] that new1(3) by simp
  qed
  obtain new' where new':
    "foldM (\<lambda>kv new. do { (r, new') \<leftarrow> upb_inttable_insert new (fst kv) (snd kv) ok; Some new' }) ps new1 = Some new'"
    "it_inv new'" "it_map new' = it_map new1 ++ map_of ps" "it_array_size new' = it_array_size new1"
    "t_size_lg2 (it_t new') = t_size_lg2 (it_t new1)"
  proof (rule Cons.IH [OF _ new1(2) _ fresh])
    show "distinct (map fst ps)" using Cons.prems(3) by simp
    show "t_count (it_t new1) + length (filter (\<lambda>kv. it_array_size new1 \<le> unat (fst kv)) ps)
        \<le> t_max_count (it_t new1)"
      using Cons.prems(5) new1(4,6) mc kv by (simp split: if_splits)
  qed auto
  have "k \<notin> dom (map_of ps)"
    using Cons.prems(3) kv by (auto simp: dom_map_of_conv_image_fst)
  then have map_eq: "it_map new' = it_map new ++ map_of (kv # ps)"
    unfolding new'(3) new1(3) kv by (auto simp: map_add_def fun_eq_iff split: option.splits)
  show ?case
    by (rule Cons.prems(1) [OF _ new'(2) map_eq]) (use new1 new' kv in simp_all)
qed

lemma hash_capacity:
  assumes "n \<le> 55704"
  shows "n \<le> (if log2ceil (of_nat (hash_size_for n)) = 0 then 0
              else 2 ^ log2ceil (of_nat (hash_size_for n))) * 17 div 20"
proof (cases "n = 0")
  case True
  then show ?thesis by simp
next
  case False
  define s where "s = n * 20 div 17 + 1"
  have s: "hash_size_for n = s" "s \<le> 2 ^ 16" "2 \<le> s" "n * 20 < s * 17"
    using False assms by (simp_all add: hash_size_for_def s_def)
  have u: "unat (of_nat s :: u64) = s" using s(2) by (intro unat_of_nat_id) simp
  define lg where "lg = log2ceil (of_nat s :: u64)"
  have "\<not> lg \<le> 0" using log2ceil_le_iff [of 0 "of_nat s"] u s(3)
    by (simp add: lg_def UPB_MAXARRSIZE_def)
  have "s \<le> 2 ^ lg"
  proof (cases "lg < 16")
    case True
    then show ?thesis using log2ceil_le_iff [of lg "of_nat s"] u by (simp add: lg_def UPB_MAXARRSIZE_def)
  next
    case False
    then have "lg = 16" using log2ceil_le_16 [of "of_nat s"] by (simp add: lg_def)
    then show ?thesis using s(2) by simp
  qed
  then have "n * 20 < 2 ^ lg * 17" using s(4) by linarith
  then have "n \<le> 2 ^ lg * 17 div 20" by linarith
  then show ?thesis using \<open>\<not> lg \<le> 0\<close> s(1) by (simp add: lg_def)
qed

lemma it_compact_correct:
  assumes inv: "it_inv t" and small: "upb_inttable_count t \<le> 55704" and nomax: "it_map t (- 1) = None"
  obtains t' where "upb_inttable_compact t True = Some t'" "it_inv t'" "it_map t' = it_map t"
    "(\<And>k. k \<in> dom (it_map t) \<Longrightarrow> unat k < it_array_size t') \<Longrightarrow> t_size_lg2 (it_t t') = 0"
proof -
  let ?ps = "it_pairs t"
  obtain lg arr m where plan: "compact_plan t = Some (arr, unat (m + 1),
       log2ceil (of_nat (hash_size_for (upb_inttable_count t - arr))))"
    and arr: "arr = length (filter (\<lambda>kv. bucket kv \<le> lg) ?ps)"
    and split: "\<And>kv. kv \<in> set ?ps \<Longrightarrow> bucket kv \<le> lg \<longleftrightarrow> fst kv \<le> m"
    and m: "m = 0 \<or> m \<in> dom (it_map t)"
    by (rule compact_plan_spec [OF inv]) blast
  have "m \<noteq> - 1" using m nomax by auto
  then have size: "unat (m + 1) = Suc (unat m)" by (rule unat_add_one)
  have size_lt: "unat (m + 1) < 2 ^ 64" using unat_lt_exp [of "m + 1"] by simp
  define hc where "hc = upb_inttable_count t - arr"
  define hl where "hl = log2ceil (of_nat (hash_size_for hc))"
  have hl: "hl \<le> 30" using log2ceil_le_16 [of "of_nat (hash_size_for hc)"] by (simp add: hl_def)
  obtain new where new: "upb_inttable_sizedinit (unat (m + 1)) hl True = Some new" "it_inv new"
    "it_map new = Map.empty" "it_array_size new = max 1 (unat (m + 1))" "t_size_lg2 (it_t new) = hl"
    "t_count (it_t new) = 0"
    by (rule sizedinit_correct [OF hl size_lt])
  have asz: "it_array_size new = unat (m + 1)" using new(4) size by simp
  have "filter (\<lambda>kv. it_array_size new \<le> unat (fst kv)) ?ps = filter (\<lambda>kv. \<not> bucket kv \<le> lg) ?ps"
    using split asz size by (intro filter_cong) (auto simp: word_le_nat_alt Suc_le_eq not_le)
  then have hc: "length (filter (\<lambda>kv. it_array_size new \<le> unat (fst kv)) ?ps) = hc"
    using sum_length_filter_compl [of "\<lambda>kv. bucket kv \<le> lg" ?ps] arr it_pairs_map(3) [OF inv]
    by (simp add: hc_def)
  have no_hash: "hl = 0" if "\<And>k. k \<in> dom (it_map t) \<Longrightarrow> unat k < it_array_size new"
  proof -
    have "unat (fst kv) < it_array_size new" if "kv \<in> set ?ps" for kv
      using that \<open>\<And>k. k \<in> dom (it_map t) \<Longrightarrow> unat k < it_array_size new\<close>
        it_pairs_map(1) [OF inv] dom_map_of_conv_image_fst [of ?ps] by auto
    then have "hc = 0" using hc by (auto simp: filter_empty_conv not_le)
    then show ?thesis by (simp add: hl_def hash_size_for_def log2ceil_0)
  qed
  have "hc \<le> t_max_count (it_t new)"
  proof -
    have "hc \<le> (if hl = 0 then 0 else 2 ^ hl) * 17 div 20"
      unfolding hl_def by (rule hash_capacity) (use small in \<open>simp add: hc_def\<close>)
    moreover have "t_max_count (it_t new) = upb_table_size (it_t new) * 17 div 20"
      using new(2) by (simp add: it_inv_def tab_inv_def table_wf_def)
    ultimately show ?thesis by (simp only: upb_table_size_def new(5))
  qed
  then have room: "t_count (it_t new) +
      length (filter (\<lambda>kv. it_array_size new \<le> unat (fst kv)) ?ps) \<le> t_max_count (it_t new)"
    using new(6) hc by simp
  have fresh: "snd kv \<noteq> - 1 \<and> it_map new (fst kv) = None" if "kv \<in> set ?ps" for kv
  proof -
    have "it_map t (fst kv) = Some (snd kv)"
      using map_of_is_SomeI [OF it_pairs_map(2) [OF inv], of "fst kv" "snd kv"] that
        it_pairs_map(1) [OF inv] by simp
    then show ?thesis using it_map_no_marker [OF inv] new(3) by auto
  qed
  obtain new' where new': "foldM (\<lambda>kv new. do { (r, new') \<leftarrow> upb_inttable_insert new (fst kv) (snd kv) True;
        Some new' }) ?ps new = Some new'"
    "it_inv new'" "it_map new' = it_map new ++ map_of ?ps" "it_array_size new' = it_array_size new"
    "t_size_lg2 (it_t new') = t_size_lg2 (it_t new)"
    by (rule compact_fold [OF new(2) it_pairs_map(2) [OF inv] fresh room])
  have "upb_inttable_compact t True = Some new'"
    using plan new(1,5) new'(1,4,5) asz
    by (simp add: upb_inttable_compact_def iter_loop_fold [OF inv] hc_def hl_def)
  then show thesis
    using that [of new'] new'(2-5) new(3,5) it_pairs_map(1) [OF inv] no_hash by simp
qed

section \<open>Sequences of operations\<close>

text \<open>
  The operations as one step function on the model, next to the same steps on a map. The
  step on the map is undefined where the code asserts: an inserted key must be new, and
  the value \<open>UINT64_MAX\<close> must not be stored.
\<close>

datatype it_op = Op_insert u64 u64 | Op_replace u64 u64 | Op_remove u64 | Op_lookup u64

fun it_step :: "it_op \<Rightarrow> u64 option list \<times> upb_inttable \<Rightarrow> (u64 option list \<times> upb_inttable) option" where
  "it_step (Op_insert k v) (out, t) =
     do { (r, t') \<leftarrow> upb_inttable_insert t k v True; Some (out, t') }"
| "it_step (Op_replace k v) (out, t) =
     do { (r, t') \<leftarrow> upb_inttable_replace t k v; Some (out, t') }"
| "it_step (Op_remove k) (out, t) =
     do { (t', r) \<leftarrow> upb_inttable_remove t k; Some (out @ [r], t') }"
| "it_step (Op_lookup k) (out, t) =
     do { r \<leftarrow> upb_inttable_lookup t k; Some (out @ [r], t) }"

fun map_step :: "it_op \<Rightarrow> u64 option list \<times> (u64 \<Rightarrow> u64 option) \<Rightarrow>
    (u64 option list \<times> (u64 \<Rightarrow> u64 option)) option" where
  "map_step (Op_insert k v) (out, m) =
     (if m k = None \<and> v \<noteq> - 1 then Some (out, m(k \<mapsto> v)) else None)"
| "map_step (Op_replace k v) (out, m) =
     (if v = - 1 then None else Some (out, if m k = None then m else m(k \<mapsto> v)))"
| "map_step (Op_remove k) (out, m) = Some (out @ [m k], m(k := None))"
| "map_step (Op_lookup k) (out, m) = Some (out @ [m k], m)"

lemma tab_rm_lg2: "tab_rm t key hash eql = Some (t', r) \<Longrightarrow> t_size_lg2 t' = t_size_lg2 t"
  by (auto simp: tab_rm_def Let_def bind_eq_Some_conv split: if_splits option.splits)

lemma remove_lg2: "upb_inttable_remove t k = Some (t', r) \<Longrightarrow> t_size_lg2 (it_t t') = t_size_lg2 (it_t t)"
  by (auto simp: upb_inttable_remove_def bind_eq_Some_conv dest: tab_rm_lg2 split: if_splits)

lemma replace_lg2: "upb_inttable_replace t k v = Some (r, t') \<Longrightarrow> t_size_lg2 (it_t t') = t_size_lg2 (it_t t)"
  unfolding upb_inttable_replace_def
  by (cases "the (inttable_val t k)"; cases "the (the (inttable_val t k))")
    (auto simp: bind_eq_Some_conv)

lemma count_card: "it_inv t \<Longrightarrow> upb_inttable_count t = card (dom (it_map t))"
  using it_pairs_map [of t] distinct_card [of "map fst (it_pairs t)"]
  by (metis dom_map_of_conv_image_fst length_map list.set_map)

text \<open>
  After \<open>n\<close> operations on a fresh table the map has at most \<open>n\<close> keys, and the hash part has
  grown only when it was full.
\<close>

definition grown :: "nat \<Rightarrow> upb_inttable \<Rightarrow> bool" where
  "grown n t \<longleftrightarrow> it_inv t \<and> card (dom (it_map t)) \<le> n \<and> finite (dom (it_map t)) \<and>
     0 < t_size_lg2 (it_t t) \<and>
     (t_size_lg2 (it_t t) = 4 \<or> 2 ^ t_size_lg2 (it_t t) * 17 \<le> 40 * n + 40)"

lemma grown_lg2: "grown n t \<Longrightarrow> n < 2 ^ 28 \<Longrightarrow> t_size_lg2 (it_t t) < 30"
proof (rule ccontr)
  assume g: "grown n t" and n: "n < 2 ^ 28" and "\<not> t_size_lg2 (it_t t) < 30"
  then have "(2::nat) ^ 30 \<le> 2 ^ t_size_lg2 (it_t t)" by (intro power_increasing) auto
  moreover have "2 ^ t_size_lg2 (it_t t) * 17 \<le> 40 * n + 40"
    using g \<open>\<not> t_size_lg2 (it_t t) < 30\<close> by (auto simp: grown_def)
  ultimately show False using n by simp
qed

lemma card_dom_upd: "finite (dom m) \<Longrightarrow> card (dom (m(k := v))) \<le> Suc (card (dom m))"
  using card_Diff1_le [of "dom m" k] by (cases v) (auto simp: card_insert_if)

lemma grown_insert:
  assumes g: "grown n t" and t': "it_inv t'" "it_map t' = (it_map t)(k \<mapsto> v)"
    and lg: "t_size_lg2 (it_t t') = t_size_lg2 (it_t t) \<or>
      isfull (it_t t) \<and> t_size_lg2 (it_t t') = Suc (t_size_lg2 (it_t t))"
  shows "grown (Suc n) t'"
proof -
  have G: "it_inv t" "card (dom (it_map t)) \<le> n" "finite (dom (it_map t))" "0 < t_size_lg2 (it_t t)"
    "t_size_lg2 (it_t t) = 4 \<or> 2 ^ t_size_lg2 (it_t t) * 17 \<le> 40 * n + 40"
    using g by (auto simp: grown_def)
  have "2 ^ Suc (t_size_lg2 (it_t t)) * 17 \<le> 40 * n + 40" if "isfull (it_t t)"
  proof -
    have "t_max_count (it_t t) = 2 ^ t_size_lg2 (it_t t) * 17 div 20"
      using tab_invD(3) [of inthash "it_t t"] it_invD(1) [OF G(1)] G(4) by (simp add: upb_table_size_def)
    moreover have "t_count (it_t t) \<le> n"
      using count_card [OF G(1)] G(2) by (simp add: upb_inttable_count_def)
    ultimately have "2 ^ t_size_lg2 (it_t t) * 17 div 20 \<le> n" using that by (simp add: isfull_def)
    then show ?thesis unfolding power_Suc by linarith
  qed
  then show ?thesis
    using G t' lg card_dom_upd [OF G(3), of k "Some v"] by (auto simp: grown_def)
qed

lemma grown_keep:
  assumes g: "grown n t" and t': "it_inv t'" "it_map t' = (it_map t)(k := v) \<or> it_map t' = it_map t"
    and lg: "t_size_lg2 (it_t t') = t_size_lg2 (it_t t)"
  shows "grown (Suc n) t'"
  using g t' lg card_dom_upd [of "it_map t" k v] unfolding grown_def
  by (auto simp del: dom_fun_upd)

lemma grown_step:
  assumes g: "grown n t" and n: "n < 2 ^ 28" and m: "map_step op (out, it_map t) = Some (out', m')"
  obtains t' where "it_step op (out, t) = Some (out', t')" "it_map t' = m'" "grown (Suc n) t'"
proof (cases op)
  case (Op_insert k v)
  then have pre: "v \<noteq> - 1" "it_map t k = None" "out' = out" "m' = (it_map t)(k \<mapsto> v)"
    using m by (auto split: if_splits)
  obtain t' where t': "upb_inttable_insert t k v True = Some (True, t')" "it_inv t'"
    "it_map t' = (it_map t)(k \<mapsto> v)" "t_size_lg2 (it_t t') = t_size_lg2 (it_t t) \<or>
     isfull (it_t t) \<and> t_size_lg2 (it_t t') = Suc (t_size_lg2 (it_t t))"
    using it_insert_correct [OF _ pre(1,2) grown_lg2 [OF g n]] g by (auto simp: grown_def)
  then show thesis using that [of t'] Op_insert pre(3,4) grown_insert [OF g t'(2,3,4)] by simp
next
  case (Op_replace k v)
  then have pre: "v \<noteq> - 1" "out' = out" "m' = (if it_map t k = None then it_map t else (it_map t)(k \<mapsto> v))"
    using m by (auto split: if_splits)
  obtain t' where t': "upb_inttable_replace t k v = Some (it_map t k \<noteq> None, t')" "it_inv t'" "it_map t' = m'"
    using it_replace_correct [OF _ pre(1)] g pre(3) by (metis grown_def)
  have "grown (Suc n) t'"
    by (rule grown_keep [OF g t'(2) _ replace_lg2 [OF t'(1)], of k "Some v"]) (use t'(3) pre(3) in auto)
  then show thesis using that [of t'] Op_replace pre t' by simp
next
  case (Op_remove k)
  obtain t' where t': "upb_inttable_remove t k = Some (t', it_map t k)" "it_inv t'"
    "it_map t' = (it_map t)(k := None)"
    using it_remove_correct [of t k] g by (auto simp: grown_def)
  have "grown (Suc n) t'"
    by (rule grown_keep [OF g t'(2) _ remove_lg2 [OF t'(1)], of k None]) (use t'(3) in auto)
  then show thesis using that [of t'] Op_remove m t' by simp
next
  case (Op_lookup k)
  have "grown (Suc n) t" using grown_keep [OF g, of t] g by (simp add: grown_def)
  moreover have "upb_inttable_lookup t k = Some (it_map t k)"
    using it_lookup_correct g by (simp add: grown_def)
  moreover have "out' = out @ [it_map t k]" "m' = it_map t" using m Op_lookup by auto
  ultimately have "it_step op (out, t) = Some (out', t)" "it_map t = m'" "grown (Suc n) t"
    by (simp_all only: Op_lookup it_step.simps bind.bind_lunit)
  then show thesis by (rule that)
qed

lemma grown_run:
  "grown n t \<Longrightarrow> n + length ops \<le> 2 ^ 28 \<Longrightarrow> foldM map_step ops (out, it_map t) = Some (out', m') \<Longrightarrow>
   \<exists>t'. foldM it_step ops (out, t) = Some (out', t') \<and> it_map t' = m' \<and> it_inv t'"
proof (induction ops arbitrary: n t out)
  case Nil
  then show ?case by (simp add: grown_def)
next
  case (Cons op ops)
  obtain out1 m1 where 1: "map_step op (out, it_map t) = Some (out1, m1)"
    "foldM map_step ops (out1, m1) = Some (out', m')"
    using Cons.prems(3) by (auto simp: bind_eq_Some_conv)
  have n: "n < 2 ^ 28" using Cons.prems(2) by simp
  obtain t1 where t1: "it_step op (out, t) = Some (out1, t1)" "it_map t1 = m1" "grown (Suc n) t1"
    by (rule grown_step [OF Cons.prems(1) n 1(1)]) blast
  show ?case using Cons.IH [OF t1(3), of out1] Cons.prems(2) t1(1,2) 1(2) by simp
qed

lemma grown_init:
  obtains t where "upb_inttable_init True = Some t" "it_map t = Map.empty" "grown 0 t"
proof -
  obtain t where "upb_inttable_sizedinit 0 4 True = Some t" "it_inv t" "it_map t = Map.empty"
    "t_size_lg2 (it_t t) = 4"
    by (rule sizedinit_correct [of 4 0]) simp_all
  then show thesis using that [of t] by (simp add: upb_inttable_init_def grown_def)
qed

text \<open>A table without a hash part has no entry to look at.\<close>

lemma remove_without_hash_part:
  assumes "tab_inv inthash (it_t t)" and "t_size_lg2 (it_t t) = 0" and "it_array_size t \<le> unat key"
  shows "upb_inttable_remove t key = None"
proof -
  have "t_entries (it_t t) = []"
    using tab_invD(4) [OF assms(1)] assms(2) by (simp add: upb_table_size_def)
  then show ?thesis using assms(3) by (simp add: upb_inttable_remove_def tab_rm_def Let_def)
qed

text \<open>Compaction of an empty table: one array slot, no hash part.\<close>

lemma compact_empty:
  assumes inv: "it_inv t" and empty: "it_map t = Map.empty"
  obtains t' where "upb_inttable_compact t True = Some t'" "it_inv t'" "it_array_size t' = 1"
    "t_size_lg2 (it_t t') = 0"
proof -
  have count: "upb_inttable_count t = 0" using count_card [OF inv] empty by simp
  then have pairs: "it_pairs t = []" using it_pairs_map(3) [OF inv] by simp
  have "density_loop (replicate 17 0) 16 0 = (0, 0)"
    by (simp add: numeral_eq_Suc)
  then have plan: "compact_plan t = Some (0, 1, 0)"
    by (simp add: compact_plan_def iter_loop_fold [OF inv] pairs count UPB_MAXARRSIZE_def
        hash_size_for_def log2ceil_0)
  obtain new where new: "upb_inttable_sizedinit 1 0 True = Some new" "it_inv new"
    "it_array_size new = max 1 1" "t_size_lg2 (it_t new) = 0"
    by (rule sizedinit_correct [of 0 1]) simp_all
  then show thesis
    using that [of new] by (simp add: upb_inttable_compact_def plan iter_loop_fold [OF inv] pairs)
qed

section \<open>Properties\<close>

text \<open>
  C22: On a fresh integer table every sequence of at most \<open>2 ^ 28\<close> inserts, replaces,
  removes and lookups that respects the assertions of the code (inserted keys are new and
  \<open>UINT64_MAX\<close> is not stored) runs to its end, returns exactly what the same operations
  return on a finite map, and leaves a table that stands for the resulting map.
\<close>

theorem inttable_refines_map:
  assumes "foldM map_step ops ([], Map.empty) = Some (out, m)" and "length ops \<le> 2 ^ 28"
  shows "\<exists>t0 t. upb_inttable_init True = Some t0 \<and>
    foldM it_step ops ([], t0) = Some (out, t) \<and> it_map t = m \<and> it_inv t"
proof -
  obtain t0 where t0: "upb_inttable_init True = Some t0" "it_map t0 = Map.empty" "grown 0 t0"
    by (rule grown_init)
  show ?thesis using grown_run [OF t0(3), of ops "[]" out m] assms t0(1,2) by simp
qed

theorem inttable_refines_map_witness:
  "\<exists>t0 t. upb_inttable_init True = Some t0 \<and>
    foldM it_step [Op_insert 5 7, Op_insert 100 8, Op_replace 5 9, Op_lookup 100, Op_remove 5, Op_lookup 5]
      ([], t0) = Some ([Some 8, Some 9, None], t) \<and> it_map t = [100 \<mapsto> 8] \<and> it_inv t"
proof -
  have "foldM map_step [Op_insert 5 7, Op_insert 100 8, Op_replace 5 9, Op_lookup 100, Op_remove 5, Op_lookup 5]
      ([], Map.empty) = Some ([Some 8, Some 9, None], [100 \<mapsto> 8])"
    by (simp add: fun_upd_twist fun_upd_idem)
  then show ?thesis by (rule inttable_refines_map) simp
qed

text \<open>
  Compaction of an integer table with at most 55704 entries and no entry for the key
  \<open>UINT64_MAX\<close> passes all assertions of the code and leaves the map unchanged.
\<close>

theorem inttable_compact_keeps_map:
  assumes "it_inv t" and "upb_inttable_count t \<le> 55704" and "it_map t (- 1) = None"
  shows "\<exists>t'. upb_inttable_compact t True = Some t' \<and> it_inv t' \<and> it_map t' = it_map t"
  by (rule it_compact_correct [OF assms]) blast

theorem inttable_compact_keeps_map_witness:
  "\<exists>t t'. it_map t = [5 \<mapsto> 7, 100000 \<mapsto> 8] \<and> upb_inttable_compact t True = Some t' \<and>
     it_inv t' \<and> it_map t' = [5 \<mapsto> 7, 100000 \<mapsto> 8]"
proof -
  obtain t0 where t0: "it_map t0 = Map.empty" "grown 0 t0" by (rule grown_init)
  obtain t where t: "it_map t = [5 \<mapsto> 7, 100000 \<mapsto> 8]" "it_inv t"
    using grown_run [OF t0(2), of "[Op_insert 5 7, Op_insert 100000 8]" "[]"] t0(1) by auto
  have "upb_inttable_count t = 2" using count_card [OF t(2)] t(1) by simp
  then show ?thesis using inttable_compact_keeps_map [OF t(2)] t(1) by auto
qed

text \<open>
  The iteration loop over an integer table visits a list of pairs that is the map of
  the table, with each key once and as many pairs as \<open>upb_inttable_count\<close> says, whatever
  the body of the loop does.
\<close>

theorem inttable_iteration_complete:
  assumes "it_inv t"
  shows "\<exists>ps. (\<forall>body s. int_iter_loop t body (upb_inttable_begin t) (s :: 's) = foldM body ps s) \<and>
    map_of ps = it_map t \<and> distinct (map fst ps) \<and> length ps = upb_inttable_count t"
  using iter_loop_fold [OF assms] it_pairs_map [OF assms] by blast

theorem inttable_iteration_complete_witness:
  "\<exists>t ps. it_map t = [5 \<mapsto> 7] \<and>
    int_iter_loop t (\<lambda>kv s. Some (s + snd kv)) (upb_inttable_begin t) 0 = foldM (\<lambda>kv s. Some (s + snd kv)) ps 0 \<and>
    map_of ps = it_map t \<and> length ps = 1"
proof -
  obtain t0 where t0: "it_map t0 = Map.empty" "grown 0 t0" by (rule grown_init)
  obtain t where t: "it_map t = [5 \<mapsto> 7]" "it_inv t"
    using grown_run [OF t0(2), of "[Op_insert 5 7]" "[]"] t0(1) by auto
  have "upb_inttable_count t = 1" using count_card [OF t(2)] t(1) by simp
  then show ?thesis using inttable_iteration_complete [OF t(2)] t(1) by metis
qed

text \<open>
  C23: When \<open>upb_inttable_compact\<close> has put all keys of a table into the array part (also when
  the table was empty), a lookup of any other key answers that it is absent, but
  \<open>upb_inttable_remove\<close> of any key beyond the array dereferences a null pointer (the model is
  stuck): compaction leaves no hash part, and \<open>rm\<close>, unlike \<open>findentry\<close>, does not test for that.
  For tables of up to 55704 entries, which do not hold the key \<open>UINT64_MAX\<close>.
\<close>

theorem inttable_remove_after_compact:
  assumes "it_inv t" and "upb_inttable_count t \<le> 55704" and "it_map t (- 1) = None"
    and "upb_inttable_compact t True = Some t'" and "\<forall>k\<in>dom (it_map t). unat k < it_array_size t'"
    and "it_array_size t' \<le> unat key"
  shows "upb_inttable_lookup t' key = Some None \<and> upb_inttable_remove t' key = None"
proof -
  have t': "it_inv t'" "it_map t' = it_map t" "t_size_lg2 (it_t t') = 0"
    using it_compact_correct [OF assms(1-3)] assms(4,5) by auto
  have "it_map t' key = None" using t'(2) assms(5,6) by (auto simp: not_le [symmetric])
  then have "upb_inttable_lookup t' key = Some None" using it_lookup_correct [OF t'(1)] by simp
  moreover have "upb_inttable_remove t' key = None"
    by (rule remove_without_hash_part [OF it_invD(1) [OF t'(1)] t'(3) assms(6)])
  ultimately show ?thesis by simp
qed

theorem inttable_remove_after_compact_witness:
  "\<exists>t0 t1. upb_inttable_init True = Some t0 \<and> upb_inttable_compact t0 True = Some t1 \<and>
     upb_inttable_lookup t1 5 = Some None \<and> upb_inttable_remove t1 5 = None"
proof -
  obtain t0 where t0: "upb_inttable_init True = Some t0" "it_map t0 = Map.empty" "grown 0 t0"
    by (rule grown_init)
  have inv: "it_inv t0" using t0(3) by (simp add: grown_def)
  obtain t1 where t1: "upb_inttable_compact t0 True = Some t1" "it_array_size t1 = 1"
    by (rule compact_empty [OF inv t0(2)])
  have "upb_inttable_count t0 \<le> 55704" using count_card [OF inv] t0(2) by simp
  from inttable_remove_after_compact [OF inv this _ t1(1), of 5] show ?thesis
    using t0(1,2) t1 by auto
qed

text \<open>
  \<open>upb_inttable_replace\<close> accepts the value \<open>UINT64_MAX\<close>, which \<open>upb_inttable_insert\<close>
  rejects by an assertion: for a key of the array part the entry disappears from lookups
  while \<open>upb_inttable_count\<close> still counts it.
\<close>

theorem inttable_replace_with_empty_marker:
  "do { t0 \<leftarrow> upb_inttable_init True;
        (r, t1) \<leftarrow> upb_inttable_insert t0 0 7 True;
        (r', t2) \<leftarrow> upb_inttable_replace t1 0 (- 1);
        v \<leftarrow> upb_inttable_lookup t2 0;
        Some (r', upb_inttable_count t2, v) } = Some (True, 1, None)"
  by code_simp

end
