(* ===== verification/Uv_Heap.thy ===== *)
theory Uv_Heap
  imports Machine_Base
begin

text \<open>
  The intrusive binary heap of libuv (\<open>heap-inl.h\<close>). Nodes live at addresses and are linked
  by \<open>left\<close>, \<open>right\<close> and \<open>parent\<close> pointers; there is no array. The model keeps the memory
  of the nodes and performs the writes of the code in their order. The invariant says that
  the nodes are the positions \<open>1..n\<close> of a complete tree, and the theory proves that
  insertion and removal of an arbitrary node keep it, keep the heap order, and never
  dereference a null pointer.
\<close>

section \<open>Data\<close>

record 'a heap_node =
  hn_left :: "'a option"
  hn_right :: "'a option"
  hn_parent :: "'a option"

record 'a uv_heap =
  h_min :: "'a option"
  h_nelts :: u32
  h_mem :: "'a \<Rightarrow> 'a heap_node"

text \<open>A location that holds a node pointer: \<open>&heap->min\<close>, \<open>&p->left\<close> or \<open>&p->right\<close>.\<close>

datatype 'a slot = Min_slot | Left_slot 'a | Right_slot 'a

primrec slot_get :: "'a uv_heap \<Rightarrow> 'a slot \<Rightarrow> 'a option" where
  "slot_get h Min_slot = h_min h"
| "slot_get h (Left_slot a) = hn_left (h_mem h a)"
| "slot_get h (Right_slot a) = hn_right (h_mem h a)"

definition node_set :: "'a \<Rightarrow> ('a heap_node \<Rightarrow> 'a heap_node) \<Rightarrow> 'a uv_heap \<Rightarrow> 'a uv_heap" where
  "node_set a f h = h\<lparr>h_mem := (h_mem h)(a := f (h_mem h a))\<rparr>"

primrec slot_put :: "'a slot \<Rightarrow> 'a option \<Rightarrow> 'a uv_heap \<Rightarrow> 'a uv_heap" where
  "slot_put Min_slot v h = h\<lparr>h_min := v\<rparr>"
| "slot_put (Left_slot a) v h = node_set a (hn_left_update (\<lambda>_. v)) h"
| "slot_put (Right_slot a) v h = node_set a (hn_right_update (\<lambda>_. v)) h"

text \<open>\<open>if (p != NULL) p->parent = q;\<close>\<close>

definition set_parent :: "'a option \<Rightarrow> 'a \<Rightarrow> 'a uv_heap \<Rightarrow> 'a uv_heap" where
  "set_parent p q h =
     (case p of None \<Rightarrow> h | Some a \<Rightarrow> node_set a (hn_parent_update (\<lambda>_. Some q)) h)"

text \<open>
  The pointer that led to \<open>old\<close>, which is the root pointer when the parent \<open>p\<close> is null, is
  redirected to \<open>new\<close>.
\<close>

definition relink :: "'a option \<Rightarrow> 'a \<Rightarrow> 'a \<Rightarrow> 'a uv_heap \<Rightarrow> 'a uv_heap" where
  "relink p old new h =
     (case p of
        None \<Rightarrow> h\<lparr>h_min := Some new\<rparr>
      | Some g \<Rightarrow>
          if hn_left (h_mem h g) = Some old
          then node_set g (hn_left_update (\<lambda>_. Some new)) h
          else node_set g (hn_right_update (\<lambda>_. Some new)) h)"

section \<open>Operations\<close>

definition heap_init :: "('a \<Rightarrow> 'a heap_node) \<Rightarrow> 'a uv_heap" where
  "heap_init mem = \<lparr>h_min = None, h_nelts = 0, h_mem = mem\<rparr>"

definition heap_min :: "'a uv_heap \<Rightarrow> 'a option" where
  "heap_min h = h_min h"

definition heap_node_swap :: "'a uv_heap \<Rightarrow> 'a \<Rightarrow> 'a \<Rightarrow> 'a uv_heap" where
  "heap_node_swap h0 parent child =
     (let t = h_mem h0 parent;
          h1 = node_set parent (\<lambda>_. h_mem h0 child) h0;
          h2 = node_set child (\<lambda>_. t) h1;
          h3 = node_set parent (hn_parent_update (\<lambda>_. Some child)) h2;
          is_left = (hn_left (h_mem h3 child) = Some child);
          h4 = (if is_left then node_set child (hn_left_update (\<lambda>_. Some parent)) h3
                else node_set child (hn_right_update (\<lambda>_. Some parent)) h3);
          sibling = (if is_left then hn_right (h_mem h4 child) else hn_left (h_mem h4 child));
          h5 = set_parent sibling child h4;
          h6 = set_parent (hn_left (h_mem h5 parent)) parent h5;
          h7 = set_parent (hn_right (h_mem h6 parent)) parent h6
      in relink (hn_parent (h_mem h7 child)) parent child h7)"

text \<open>The path from the root to position \<open>n\<close>: its bits below the leading one, reversed.\<close>

function path_loop :: "nat \<Rightarrow> u32 \<Rightarrow> u32 \<Rightarrow> u32 \<times> nat" where
  "path_loop k path n =
     (if n \<ge> 2 then path_loop (k + 1) (push_bit 1 path OR (n AND 1)) (n div 2) else (path, k))"
  by pat_completeness auto
termination
  by (relation "measure (\<lambda>(k, path, n). unat n)")
    (auto simp: unat_div word_le_nat_alt intro!: div_less_dividend)

declare path_loop.simps [simp del]

text \<open>The walk along a path; the result is the last location and the one before it.\<close>

fun walk_loop :: "'a uv_heap \<Rightarrow> nat \<Rightarrow> u32 \<Rightarrow> 'a slot \<Rightarrow> 'a slot \<Rightarrow> ('a slot \<times> 'a slot) option" where
  "walk_loop h 0 path parent child = Some (parent, child)"
| "walk_loop h (Suc k) path parent child =
     do { c \<leftarrow> slot_get h child;
          walk_loop h k (drop_bit 1 path) child
            (if path AND 1 \<noteq> 0 then Right_slot c else Left_slot c) }"

partial_function (option) sift_up ::
  "('a \<Rightarrow> 'a \<Rightarrow> bool) \<Rightarrow> 'a \<Rightarrow> 'a uv_heap \<Rightarrow> 'a uv_heap option" where
  "sift_up lessf x h =
     (case hn_parent (h_mem h x) of
        None \<Rightarrow> Some h
      | Some p \<Rightarrow> if lessf x p then sift_up lessf x (heap_node_swap h p x) else Some h)"

definition heap_insert :: "('a \<Rightarrow> 'a \<Rightarrow> bool) \<Rightarrow> 'a uv_heap \<Rightarrow> 'a \<Rightarrow> 'a uv_heap option" where
  "heap_insert lessf h newnode =
     do { let h1 = node_set newnode (\<lambda>_. \<lparr>hn_left = None, hn_right = None, hn_parent = None\<rparr>) h;
          let (path, k) = path_loop 0 0 (1 + h_nelts h1);
          (parent, child) \<leftarrow> walk_loop h1 k path Min_slot Min_slot;
          let h2 = node_set newnode (hn_parent_update (\<lambda>_. slot_get h1 parent)) h1;
          let h3 = slot_put child (Some newnode) h2;
          let h4 = h3\<lparr>h_nelts := h_nelts h3 + 1\<rparr>;
          sift_up lessf newnode h4 }"

definition smallest_of :: "('a \<Rightarrow> 'a \<Rightarrow> bool) \<Rightarrow> 'a uv_heap \<Rightarrow> 'a \<Rightarrow> 'a" where
  "smallest_of lessf h child =
     (let s1 = (case hn_left (h_mem h child) of
                  Some l \<Rightarrow> if lessf l child then l else child
                | None \<Rightarrow> child)
      in (case hn_right (h_mem h child) of
            Some r \<Rightarrow> if lessf r s1 then r else s1
          | None \<Rightarrow> s1))"

partial_function (option) sift_down ::
  "('a \<Rightarrow> 'a \<Rightarrow> bool) \<Rightarrow> 'a \<Rightarrow> 'a uv_heap \<Rightarrow> 'a uv_heap option" where
  "sift_down lessf child h =
     (let smallest = smallest_of lessf h child
      in if smallest = child then Some h
         else sift_down lessf child (heap_node_swap h child smallest))"

text \<open>The replacement of the removed node by the last one.\<close>

definition replace_node :: "'a uv_heap \<Rightarrow> 'a \<Rightarrow> 'a \<Rightarrow> 'a uv_heap" where
  "replace_node h node child =
     (let h1 = node_set child (\<lambda>_. h_mem h node) h;
          h2 = set_parent (hn_left (h_mem h1 child)) child h1;
          h3 = set_parent (hn_right (h_mem h2 child)) child h2
      in relink (hn_parent (h_mem h3 node)) node child h3)"

definition heap_remove :: "('a \<Rightarrow> 'a \<Rightarrow> bool) \<Rightarrow> 'a uv_heap \<Rightarrow> 'a \<Rightarrow> 'a uv_heap option" where
  "heap_remove lessf h node =
     (if h_nelts h = 0 then Some h
      else do { let (path, k) = path_loop 0 0 (h_nelts h);
                (_, max) \<leftarrow> walk_loop h k path Min_slot Min_slot;
                let h1 = h\<lparr>h_nelts := h_nelts h - 1\<rparr>;
                child \<leftarrow> slot_get h1 max;
                let h2 = slot_put max None h1;
                if child = node
                then Some (if h_min h2 = Some child then h2\<lparr>h_min := None\<rparr> else h2)
                else do { h3 \<leftarrow> sift_down lessf child (replace_node h2 node child);
                          sift_up lessf child h3 } })"

definition heap_dequeue :: "('a \<Rightarrow> 'a \<Rightarrow> bool) \<Rightarrow> 'a uv_heap \<Rightarrow> 'a uv_heap option" where
  "heap_dequeue lessf h =
     (if h_nelts h = 0 then Some h
      else do { m \<leftarrow> h_min h; heap_remove lessf h m })"

section \<open>The shape of the tree\<close>

text \<open>
  \<open>shape h arr n\<close>: the nodes of the heap are \<open>arr 1, ..., arr n\<close>, and the pointers are those
  of the complete binary tree whose position \<open>i\<close> has the children \<open>2 i\<close> and \<open>2 i + 1\<close>.
\<close>

definition ptr :: "(nat \<Rightarrow> 'a) \<Rightarrow> nat \<Rightarrow> nat \<Rightarrow> 'a option" where
  "ptr arr n i = (if 1 \<le> i \<and> i \<le> n then Some (arr i) else None)"

definition node_of :: "(nat \<Rightarrow> 'a) \<Rightarrow> nat \<Rightarrow> nat \<Rightarrow> 'a heap_node" where
  "node_of arr n i =
     \<lparr>hn_left = ptr arr n (2 * i), hn_right = ptr arr n (2 * i + 1), hn_parent = ptr arr n (i div 2)\<rparr>"

definition shape :: "'a uv_heap \<Rightarrow> (nat \<Rightarrow> 'a) \<Rightarrow> nat \<Rightarrow> bool" where
  "shape h arr n \<longleftrightarrow>
     inj_on arr {1..n} \<and> h_min h = ptr arr n 1 \<and>
     (\<forall>i. 1 \<le> i \<and> i \<le> n \<longrightarrow> h_mem h (arr i) = node_of arr n i)"

lemma shapeD:
  assumes "shape h arr n"
  shows "h_min h = ptr arr n 1"
    and "\<And>i. 1 \<le> i \<Longrightarrow> i \<le> n \<Longrightarrow> h_mem h (arr i) = node_of arr n i"
    and "\<And>i j. 1 \<le> i \<Longrightarrow> i \<le> n \<Longrightarrow> 1 \<le> j \<Longrightarrow> j \<le> n \<Longrightarrow> arr i = arr j \<longleftrightarrow> i = j"
proof -
  show "h_min h = ptr arr n 1" using assms by (simp only: shape_def)
  show "h_mem h (arr i) = node_of arr n i" if "1 \<le> i" "i \<le> n" for i
    using assms that by (simp only: shape_def)
  show "arr i = arr j \<longleftrightarrow> i = j" if "1 \<le> i" "i \<le> n" "1 \<le> j" "j \<le> n" for i j
  proof (rule inj_on_eq_iff)
    show "inj_on arr {1..n}" using assms by (simp only: shape_def)
  qed (use that in simp_all)
qed

lemma mem_node_set [simp]: "h_mem (node_set a f h) = (h_mem h)(a := f (h_mem h a))"
  by (simp add: node_set_def)

lemma min_node_set [simp]: "h_min (node_set a f h) = h_min h" "h_nelts (node_set a f h) = h_nelts h"
  by (simp_all add: node_set_def)

lemma min_set_parent [simp]: "h_min (set_parent p q h) = h_min h" "h_nelts (set_parent p q h) = h_nelts h"
  by (simp_all add: set_parent_def split: option.splits)

lemma mem_set_parent:
  "h_mem (set_parent p q h) =
     (\<lambda>a. if p = Some a then (h_mem h a)\<lparr>hn_parent := Some q\<rparr> else h_mem h a)"
  by (auto simp: set_parent_def split: option.splits)

lemma node_of_sel [simp]:
  "hn_left (node_of arr n i) = ptr arr n (2 * i)"
  "hn_right (node_of arr n i) = ptr arr n (2 * i + 1)"
  "hn_parent (node_of arr n i) = ptr arr n (i div 2)"
  by (simp_all add: node_of_def)

lemma ptr_in [simp]: "1 \<le> i \<Longrightarrow> i \<le> n \<Longrightarrow> ptr arr n i = Some (arr i)"
  by (simp add: ptr_def)

lemma ptr_out [simp]: "\<not> i \<le> n \<Longrightarrow> ptr arr n i = None" "ptr arr n 0 = None"
  by (simp_all add: ptr_def)

text \<open>The path computed by the loop leads from the root to the position it was computed for.\<close>

fun walk_index :: "nat \<Rightarrow> nat \<Rightarrow> u32 \<Rightarrow> nat" where
  "walk_index i 0 path = i"
| "walk_index i (Suc k) path =
     walk_index (2 * i + (if path AND 1 \<noteq> 0 then 1 else 0)) k (drop_bit 1 path)"

lemma walk_index_le: "i \<le> walk_index i k path"
  by (induction i k path rule: walk_index.induct) auto

lemma word_and_one: "(w :: 'a::len word) AND 1 = (if bit w 0 then 1 else 0)"
  by (simp add: and_one_eq mod_2_eq_odd bit_0)

lemma and_one_odd: "(w :: 'a::len word) AND 1 \<noteq> 0 \<longleftrightarrow> odd (unat w)"
proof -
  have "bit (unat w) 0 \<longleftrightarrow> bit w 0" by (simp add: bit_unsigned_iff)
  then show ?thesis by (simp add: word_and_one bit_0)
qed

text \<open>Shifting a bit in at the low end, and reading it back.\<close>

lemma shift_in:
  fixes path n :: u32
  assumes "unat path < 2 ^ k" "k < 32 - 1"
  defines "path' \<equiv> push_bit 1 path OR (n AND 1)"
  shows "drop_bit 1 path' = path" "path' AND 1 \<noteq> 0 \<longleftrightarrow> odd (unat n)" "unat path' < 2 ^ Suc k"
proof -
  have "(2::nat) ^ k \<le> 2 ^ 30" using assms(2) by (intro power_increasing) auto
  then have small: "unat path * 2 < 2 ^ 32" using assms(1) by simp
  then have "unat (path * 2) = unat path * 2"
    using unat_mult_lem [of path 2] by simp
  then have "drop_bit 1 (push_bit 1 path) = path"
    by (simp add: word_unat_eq_iff push_bit_eq_mult drop_bit_eq_div unat_div)
  moreover have "drop_bit 1 (n AND 1) = 0" by (simp add: word_and_one)
  ultimately show d: "drop_bit 1 path' = path" by (simp add: path'_def drop_bit_or)
  have "bit path' 0 \<longleftrightarrow> bit n 0"
    unfolding path'_def bit_or_iff bit_and_iff bit_push_bit_iff by (simp add: bit_0)
  then show "path' AND 1 \<noteq> 0 \<longleftrightarrow> odd (unat n)"
    using and_one_odd [of n] by (simp add: word_and_one)
  have "unat path' div 2 = unat path"
    unfolding d [symmetric] by (simp add: drop_bit_eq_div unat_div)
  then show "unat path' < 2 ^ Suc k" using assms(1) by simp
qed

lemma path_loop_correct:
  "path_loop k0 path0 n = (path, k) \<Longrightarrow> unat path0 < 2 ^ k0 \<Longrightarrow> unat n * 2 ^ k0 < 2 ^ 32 \<Longrightarrow>
   1 \<le> unat n \<Longrightarrow> walk_index 1 k path = walk_index (unat n) k0 path0"
proof (induction k0 path0 n arbitrary: path k rule: path_loop.induct)
  case (1 k0 path0 n)
  show ?case
  proof (cases "n \<ge> 2")
    case False
    then have "unat n = 1" using "1.prems"(4) by (simp add: word_le_nat_alt)
    then show ?thesis using "1.prems"(1) False by (simp add: path_loop.simps)
  next
    case True
    then have n2: "2 \<le> unat n" by (simp add: word_le_nat_alt)
    then have "2 * 2 ^ k0 < (2::nat) ^ 32"
      using "1.prems"(3) by (meson le_less_trans mult_le_mono1)
    then have "(2::nat) ^ Suc k0 < 2 ^ 32" by simp
    then have "Suc k0 < 32" by (rule power_less_imp_less_exp [rotated]) simp
    then have k0: "k0 < 32 - 1" by simp
    note sh = shift_in [OF "1.prems"(2) k0, of n]
    have half: "unat (n div 2) = unat n div 2" by (simp add: unat_div)
    have "path_loop (k0 + 1) (push_bit 1 path0 OR (n AND 1)) (n div 2) = (path, k)"
      using "1.prems"(1) True by (subst (asm) path_loop.simps) simp
    then have "walk_index 1 k path = walk_index (unat (n div 2)) (k0 + 1) (push_bit 1 path0 OR (n AND 1))"
    proof (rule "1.IH" [OF True])
      show "unat (push_bit 1 path0 OR (n AND 1)) < 2 ^ (k0 + 1)" using sh(3) by simp
      show "unat (n div 2) * 2 ^ (k0 + 1) < 2 ^ 32"
      proof -
        have "unat n div 2 * 2 * 2 ^ k0 \<le> unat n * 2 ^ k0" by (intro mult_le_mono1) simp
        then show ?thesis using "1.prems"(3) half
          by (simp only: power_add power_one_right mult.assoc)
      qed
      show "1 \<le> unat (n div 2)" using n2 half by simp
    qed
    moreover have "2 * (unat n div 2) + (if odd (unat n) then 1 else 0) = unat n"
      by (simp add: odd_two_times_div_two_succ)
    ultimately show ?thesis using sh(1,2) half by simp
  qed
qed

section \<open>The walk to a position\<close>

text \<open>The location that holds the pointer to position \<open>i\<close>, and the one of its parent.\<close>

definition slot_of :: "(nat \<Rightarrow> 'a) \<Rightarrow> nat \<Rightarrow> 'a slot" where
  "slot_of arr i =
     (if i \<le> 1 then Min_slot
      else if even i then Left_slot (arr (i div 2)) else Right_slot (arr (i div 2)))"

lemma slot_get_of: "shape h arr n \<Longrightarrow> 1 \<le> i \<Longrightarrow> i div 2 \<le> n \<Longrightarrow> slot_get h (slot_of arr i) = ptr arr n i"
proof (cases "i = 1")
  case False
  assume sh: "shape h arr n" and i: "1 \<le> i" "i div 2 \<le> n"
  then have "h_mem h (arr (i div 2)) = node_of arr n (i div 2)"
    using False by (intro shapeD(2) [OF sh]) auto
  then show ?thesis using False i by (auto simp: slot_of_def)
qed (auto simp: slot_of_def shapeD(1))

lemma walk_loop_correct:
  assumes sh: "shape h arr n"
  shows "1 \<le> i \<Longrightarrow> walk_index i k path div 2 \<le> n \<Longrightarrow> i \<le> n \<or> k = 0 \<Longrightarrow> i div 2 \<le> n \<Longrightarrow>
    (k = 0 \<longrightarrow> parent = slot_of arr (i div 2)) \<Longrightarrow>
    walk_loop h k path parent (slot_of arr i) =
      Some (slot_of arr (walk_index i k path div 2), slot_of arr (walk_index i k path))"
proof (induction i k path arbitrary: parent rule: walk_index.induct)
  case (1 i path)
  then show ?case by simp
next
  case (2 i k path)
  let ?i = "2 * i + (if path AND 1 \<noteq> 0 then 1 else 0)"
  have i: "i \<le> n" using "2.prems"(3) by simp
  have get: "slot_get h (slot_of arr i) = Some (arr i)"
    using slot_get_of [OF sh "2.prems"(1,4)] i "2.prems"(1) by simp
  have slot: "slot_of arr ?i = (if path AND 1 \<noteq> 0 then Right_slot (arr i) else Left_slot (arr i))"
    using "2.prems"(1) by (simp add: slot_of_def)
  have le: "?i \<le> walk_index ?i k (drop_bit 1 path)" by (rule walk_index_le)
  have half: "?i div 2 = i" by simp
  have "?i \<le> n \<or> k = 0"
  proof (cases k)
    case (Suc k')
    have "2 * ?i \<le> walk_index ?i k (drop_bit 1 path)"
      unfolding Suc walk_index.simps(2) by (rule order_trans [OF _ walk_index_le]) simp
    then have "2 * ?i div 2 \<le> walk_index ?i k (drop_bit 1 path) div 2" by (rule div_le_mono)
    then show ?thesis using "2.prems"(2) by simp
  qed simp
  then show ?case
    using "2.IH" [of "slot_of arr i"] "2.prems" get slot half i by simp
qed

lemma walk_to:
  assumes sh: "shape h arr n" and N: "path_loop 0 0 N = (path, k)" "1 \<le> unat N" "unat N \<le> n + 1" "1 \<le> n \<or> unat N = 1"
  shows "walk_loop h k path Min_slot Min_slot =
    Some (slot_of arr (unat N div 2), slot_of arr (unat N))"
proof -
  have w: "walk_index 1 k path = unat N"
    using path_loop_correct [OF N(1)] N(2) unat_lt_exp [of N] by simp
  have "walk_loop h k path Min_slot (slot_of arr 1) =
      Some (slot_of arr (walk_index 1 k path div 2), slot_of arr (walk_index 1 k path))"
  proof (rule walk_loop_correct [OF sh])
    show "walk_index 1 k path div 2 \<le> n" using w N(3,4) by auto
    show "1 \<le> n \<or> k = 0"
    proof (cases k)
      case (Suc k')
      have "2 \<le> walk_index 1 k path"
        unfolding Suc walk_index.simps(2) by (rule order_trans [OF _ walk_index_le]) simp
      then show ?thesis using N(4) w by simp
    qed simp
  qed (auto simp: slot_of_def)
  moreover have "slot_of arr 1 = Min_slot" by (simp add: slot_of_def)
  ultimately show ?thesis by (simp only: w)
qed

section \<open>Exchanging a node with its parent\<close>

lemma ptr_swap:
  "1 \<le> j \<Longrightarrow> j \<le> n \<Longrightarrow> 1 \<le> i \<Longrightarrow> i \<le> n \<Longrightarrow>
   ptr (arr(j := arr i, i := arr j)) n k =
     (if k = j then Some (arr i) else if k = i then Some (arr j) else ptr arr n k)"
  by (auto simp: ptr_def)

lemma div2_eq: "(k::nat) div 2 = x \<longleftrightarrow> k = 2 * x \<or> k = 2 * x + 1"
  by presburger

lemma ptr_eq:
  "shape h arr n \<Longrightarrow> 1 \<le> k \<Longrightarrow> k \<le> n \<Longrightarrow> ptr arr n x = Some (arr k) \<longleftrightarrow> x = k"
  using shapeD(3) [of h arr n x k] by (auto simp: ptr_def)

lemma inj_swap:
  fixes i j :: nat
  assumes "inj_on arr A" "i \<in> A" "j \<in> A"
  shows "inj_on (arr(j := arr i, i := arr j)) A"
proof (rule inj_onI)
  fix x y
  assume xy: "x \<in> A" "y \<in> A" "(arr(j := arr i, i := arr j)) x = (arr(j := arr i, i := arr j)) y"
  let ?g = "\<lambda>k. if k = i then j else if k = j then i else k"
  have "arr (?g x) = arr (?g y)" using xy(3) by (auto split: if_splits)
  then have "?g x = ?g y" by (rule inj_onD [OF assms(1)]) (use xy assms in auto)
  then show "x = y" by (auto split: if_splits)
qed

text \<open>
  The memory after the exchange, at every node of the heap: \<open>j\<close> is the position of the
  parent and \<open>i\<close> the position of the child.
\<close>

lemma swap_mem:
  assumes sh: "shape h arr n" and i: "2 \<le> i" "i \<le> n" and j: "j = i div 2" and k: "1 \<le> k" "k \<le> n"
  shows "h_mem (heap_node_swap h (arr j) (arr i)) (arr k) =
    (if k = j then (node_of arr n i)\<lparr>hn_parent := Some (arr i)\<rparr>
     else if k = i
     then (if even i then (node_of arr n j)\<lparr>hn_left := Some (arr j)\<rparr>
           else (node_of arr n j)\<lparr>hn_right := Some (arr j)\<rparr>)
     else \<lparr>hn_left = (if j = 2 * k then Some (arr i) else ptr arr n (2 * k)),
           hn_right = (if j = 2 * k + 1 then Some (arr i) else ptr arr n (2 * k + 1)),
           hn_parent = (if k div 2 = i then Some (arr j)
                        else if k div 2 = j then Some (arr i) else ptr arr n (k div 2))\<rparr>)"
proof -
  have jb: "1 \<le> j" "j < i" "j \<le> n" "2 * j = i \<or> 2 * j + 1 = i" using i j by auto
  note eqs = shapeD(3) [OF sh] ptr_eq [OF sh] shapeD(2) [OF sh]
  have odd_i: "i = 2 * j \<longleftrightarrow> even i" "2 * j = i \<longleftrightarrow> even i" using j by presburger+
  define t where "t = h_mem h (arr j)"
  define h3 where "h3 = node_set (arr j) (hn_parent_update (\<lambda>_. Some (arr i)))
    (node_set (arr i) (\<lambda>_. t) (node_set (arr j) (\<lambda>_. h_mem h (arr i)) h))"
  have m3: "h_mem h3 (arr l) = (if l = j then (node_of arr n i)\<lparr>hn_parent := Some (arr i)\<rparr>
      else if l = i then node_of arr n j else node_of arr n l)" if "1 \<le> l" "l \<le> n" for l
    using that i jb by (simp add: h3_def t_def eqs)
  define h4 where "h4 = (if even i then node_set (arr i) (hn_left_update (\<lambda>_. Some (arr j))) h3
                         else node_set (arr i) (hn_right_update (\<lambda>_. Some (arr j))) h3)"
  define sib where "sib = (if even i then 2 * j + 1 else 2 * j)"
  have m4: "h_mem h4 (arr l) = (if l = i then (if even i then (node_of arr n j)\<lparr>hn_left := Some (arr j)\<rparr>
      else (node_of arr n j)\<lparr>hn_right := Some (arr j)\<rparr>) else h_mem h3 (arr l))"
    if "1 \<le> l" "l \<le> n" for l
    using that i jb m3 by (simp add: h4_def eqs)
  define h5 where "h5 = set_parent (ptr arr n sib) (arr i) h4"
  have m5: "h_mem h5 (arr l) = (if l = sib then (h_mem h4 (arr l))\<lparr>hn_parent := Some (arr i)\<rparr>
      else h_mem h4 (arr l))" if "1 \<le> l" "l \<le> n" for l
    using that by (auto simp: h5_def mem_set_parent eqs)
  have sib: "sib \<noteq> j" "sib \<noteq> i" "2 * i + 1 \<noteq> sib" "2 * i \<noteq> sib" using jb i by (auto simp: sib_def)
  have m5j: "h_mem h5 (arr j) = (node_of arr n i)\<lparr>hn_parent := Some (arr i)\<rparr>"
    using m5 [of j] m4 [of j] m3 [of j] jb sib by simp
  define h6 where "h6 = set_parent (ptr arr n (2 * i)) (arr j) h5"
  have m6: "h_mem h6 (arr l) = (if l = 2 * i then (h_mem h5 (arr l))\<lparr>hn_parent := Some (arr j)\<rparr>
      else h_mem h5 (arr l))" if "1 \<le> l" "l \<le> n" for l
    using that by (auto simp: h6_def mem_set_parent eqs)
  define h7 where "h7 = set_parent (ptr arr n (2 * i + 1)) (arr j) h6"
  have m7: "h_mem h7 (arr l) = (if l = 2 * i + 1 then (h_mem h6 (arr l))\<lparr>hn_parent := Some (arr j)\<rparr>
      else h_mem h6 (arr l))" if "1 \<le> l" "l \<le> n" for l
    using that by (auto simp: h7_def mem_set_parent eqs)
  have left: "hn_left (h_mem h3 (arr i)) = Some (arr i) \<longleftrightarrow> even i"
    using m3 [of i] i jb odd_i by (simp add: eqs)
  have sibling: "(if even i then hn_right (h_mem h4 (arr i)) else hn_left (h_mem h4 (arr i))) = ptr arr n sib"
    using m4 [of i] i by (simp add: sib_def)
  have m6j: "hn_left (h_mem h5 (arr j)) = ptr arr n (2 * i)" "hn_right (h_mem h6 (arr j)) = ptr arr n (2 * i + 1)"
    using m5j m6 [of j] jb by simp_all
  have m7i4: "h_mem h7 (arr i) = h_mem h4 (arr i)"
    using m7 [of i] m6 [of i] m5 [of i] i sib by simp
  then have m7i: "hn_parent (h_mem h7 (arr i)) = ptr arr n (j div 2)"
    using m4 [of i] i by simp
  have h: "heap_node_swap h (arr j) (arr i) = relink (ptr arr n (j div 2)) (arr j) (arr i) h7"
    unfolding heap_node_swap_def Let_def t_def [symmetric] h3_def [symmetric] left
      h4_def [symmetric] sibling h5_def [symmetric] m6j h6_def [symmetric] h7_def [symmetric] m7i ..
  have g: "h_mem (heap_node_swap h (arr j) (arr i)) (arr k) =
      (let nd = h_mem h7 (arr k) in
       if 1 \<le> j div 2 \<and> k = j div 2
       then if even j then nd\<lparr>hn_left := Some (arr i)\<rparr> else nd\<lparr>hn_right := Some (arr i)\<rparr>
       else nd)"
  proof (cases "1 \<le> j div 2")
    case True
    have "j div 2 < sib" "sib < 2 * i" using jb i by (auto simp: sib_def)
    then have b: "j div 2 \<le> n" "j div 2 \<noteq> i" "j div 2 \<noteq> j" "j div 2 \<noteq> sib" "2 * i \<noteq> sib"
      using jb True by auto
    then have "hn_left (h_mem h7 (arr (j div 2))) = ptr arr n (2 * (j div 2))"
      using True by (simp add: m7 m6 m5 m4 m3)
    moreover have "2 * (j div 2) = j \<longleftrightarrow> even j" by presburger
    ultimately have "hn_left (h_mem h7 (arr (j div 2))) = Some (arr j) \<longleftrightarrow> even j"
      using jb by (simp add: eqs)
    then show ?thesis
      unfolding h ptr_in [OF True b(1)] using True b k by (auto simp: relink_def eqs Let_def)
  next
    case False
    then show ?thesis unfolding h by (simp add: relink_def ptr_def Let_def)
  qed
  have kd: "k div 2 = i \<longleftrightarrow> k = 2 * i \<or> k = 2 * i + 1"
    "j = 2 * k \<longleftrightarrow> k = j div 2 \<and> even j" "j = 2 * k + 1 \<longleftrightarrow> k = j div 2 \<and> odd j"
    by presburger+
  have ks: "k div 2 = j \<and> k \<noteq> i \<longleftrightarrow> k = sib"
    unfolding div2_eq using jb(4) by (cases "even i") (auto simp: sib_def)
  have pos: "j \<noteq> 2 * i" "j \<noteq> 2 * i + 1" "j div 2 \<noteq> j" "j div 2 \<noteq> i" "i \<noteq> 2 * i" "i \<noteq> 2 * i + 1" "i \<noteq> j"
    using jb by auto
  consider "k = j" | "k = i" | "k \<noteq> j" "k \<noteq> i" by blast
  then show ?thesis
  proof cases
    case 1
    then show ?thesis unfolding g using m5j jb(1,3) pos by (simp add: m7 m6)
  next
    case 2
    then show ?thesis unfolding g using m7i4 m4 [of i] i pos(4,7) by simp
  next
    case 3
    have up: "k div 2 = j \<longleftrightarrow> k = sib" using ks 3 by blast
    have m: "h_mem h7 (arr k) = (node_of arr n k)\<lparr>hn_parent :=
        (if k = 2 * i + 1 \<or> k = 2 * i then Some (arr j) else if k = sib then Some (arr i)
         else ptr arr n (k div 2))\<rparr>"
      unfolding m7 [OF k] m6 [OF k] m5 [OF k] m4 [OF k] m3 [OF k] using 3 sib(3,4) by simp
    show ?thesis
    proof (cases "k = j div 2")
      case True
      then show ?thesis
        unfolding g kd up m Let_def using 3 k by (cases "even j") (simp_all add: node_of_def)
    next
      case False
      then show ?thesis
        unfolding g kd up m Let_def using 3 by (simp add: node_of_def disj_commute)
    qed
  qed
qed

lemma relink_min: "h_min (relink p old new h) = (if p = None then Some new else h_min h)"
  by (auto simp: relink_def split: option.splits)

lemma relink_sel [simp]: "hn_parent (h_mem (relink p old new h) a) = hn_parent (h_mem h a)"
  "h_nelts (relink p old new h) = h_nelts h"
  by (auto simp: relink_def split: option.splits)

lemma swap_min:
  "h_min (heap_node_swap h p c) = (if hn_parent (h_mem (heap_node_swap h p c) c) = None
     then Some c else h_min h)"
  unfolding heap_node_swap_def Let_def relink_min relink_sel by simp

lemma swap_nelts [simp]: "h_nelts (heap_node_swap h p c) = h_nelts h"
  unfolding heap_node_swap_def Let_def relink_sel by simp

lemma swap_shape:
  assumes sh: "shape h arr n" and i: "2 \<le> i" "i \<le> n" and j: "j = i div 2"
  shows "shape (heap_node_swap h (arr j) (arr i)) (arr(j := arr i, i := arr j)) n"
proof -
  have jb: "1 \<le> j" "j < i" "j \<le> n" "2 * j = i \<or> 2 * j + 1 = i" using i j by auto
  let ?arr = "arr(j := arr i, i := arr j)" and ?h = "heap_node_swap h (arr j) (arr i)"
  have arr': "ptr ?arr n x = (if x = j then Some (arr i) else if x = i then Some (arr j) else ptr arr n x)" for x
    using jb i by (intro ptr_swap) auto
  note mem = swap_mem [OF sh i j]
  have "inj_on ?arr {1..n}" using sh i jb by (intro inj_swap) (auto simp: shape_def)
  moreover have "h_mem ?h (?arr k) = node_of ?arr n k" if k: "1 \<le> k" "k \<le> n" for k
  proof -
    consider "k = j" | "k = i" | "k \<noteq> i" "k \<noteq> j" by blast
    then show ?thesis
    proof cases
      case 1
      have "2 * j = i \<longleftrightarrow> even i" "Suc (2 * j) = i \<longleftrightarrow> odd i" "i \<noteq> j" "2 * j \<noteq> j" "Suc (2 * j) \<noteq> j"
        "j div 2 \<noteq> j" "j div 2 \<noteq> i"
        using jb by auto
      then show ?thesis
        using 1 mem [of i] i(1,2) unfolding node_of_def arr' by simp
    next
      case 2
      then show ?thesis
        using mem [of j] i jb j unfolding node_of_def arr' by auto
    next
      case 3
      have "2 * k = i \<longleftrightarrow> False" "2 * k + 1 = i \<longleftrightarrow> False" using 3 j by auto
      then show ?thesis
        using 3 mem [of k] k unfolding node_of_def arr' by auto
    qed
  qed
  moreover have "h_min ?h = ptr ?arr n 1"
  proof -
    have "hn_parent (h_mem ?h (arr i)) = ptr arr n (j div 2)"
      using mem [of i] i jb by auto
    then show ?thesis
      using swap_min [of h "arr j" "arr i"] shapeD(1) [OF sh] jb i by (auto simp: ptr_def)
  qed
  ultimately show ?thesis unfolding shape_def by blast
qed

lemma swap_image:
  fixes i j :: nat
  shows "i \<in> A \<Longrightarrow> j \<in> A \<Longrightarrow> (arr(j := arr i, i := arr j)) ` A = arr ` A"
  by (auto simp: image_iff)

section \<open>Adding and removing the last position\<close>

lemma shape_append:
  assumes sh: "shape h arr n" and x: "x \<notin> arr ` {1..n}"
    and mem: "h_mem h x = \<lparr>hn_left = None, hn_right = None, hn_parent = ptr arr n ((n + 1) div 2)\<rparr>"
  shows "shape (slot_put (slot_of arr (n + 1)) (Some x) h) (arr(n + 1 := x)) (n + 1)"
proof -
  let ?arr = "arr(n + 1 := x)" and ?h = "slot_put (slot_of arr (n + 1)) (Some x) h"
  have xk: "arr k \<noteq> x" if "1 \<le> k" "k \<le> n" for k using x that by auto
  have ptr': "ptr ?arr (n + 1) k = (if k = n + 1 then Some x else ptr arr n k)" for k
    by (auto simp: ptr_def)
  have "inj_on ?arr {1..n}" using sh x unfolding shape_def by (intro inj_on_fun_updI) auto
  moreover have "?arr ` {1..n} = arr ` {1..n}" by (intro image_cong) auto
  moreover have "{1..n + 1} = insert (n + 1) {1..n}" by auto
  ultimately have "inj_on ?arr {1..n + 1}" using x by (simp add: inj_on_insert)
  moreover have "h_min ?h = ptr ?arr (n + 1) 1"
    unfolding ptr' using shapeD(1) [OF sh] by (auto simp: slot_of_def)
  moreover have "h_mem ?h (?arr k) = node_of ?arr (n + 1) k" if k: "1 \<le> k" "k \<le> n + 1" for k
  proof (cases "k = n + 1")
    case True
    have "x \<noteq> arr ((n + 1) div 2)" if "1 \<le> n"
    proof -
      have "1 \<le> (n + 1) div 2" "(n + 1) div 2 \<le> n" using that by auto
      then show ?thesis using xk by metis
    qed
    then have "h_mem ?h x = h_mem h x" by (auto simp: slot_of_def)
    then show ?thesis using True mem unfolding node_of_def ptr' by auto
  next
    case False
    then have kn: "k \<le> n" using k by simp
    have eq: "arr k = arr ((n + 1) div 2) \<longleftrightarrow> k = (n + 1) div 2" if "1 \<le> n"
      using shapeD(3) [OF sh k(1) kn, of "(n + 1) div 2"] that by simp
    have arith: "2 * k = n + 1 \<longleftrightarrow> k = (n + 1) div 2 \<and> even (n + 1)"
      "2 * k + 1 = n + 1 \<longleftrightarrow> k = (n + 1) div 2 \<and> odd (n + 1)" "k div 2 \<noteq> n + 1"
      using kn by presburger+
    have slot: "slot_of arr (n + 1) = (if even (n + 1) then Left_slot (arr ((n + 1) div 2))
        else Right_slot (arr ((n + 1) div 2)))"
      using kn k(1) by (simp add: slot_of_def)
    have ka: "?arr k = arr k" "h_mem h (arr k) = node_of arr n k" "1 \<le> n"
      using False shapeD(2) [OF sh k(1) kn] kn k(1) by auto
    show ?thesis
      using ka eq arith(3) unfolding node_of_def ptr' arith(1,2) slot by (cases "even (n + 1)") auto
  qed
  ultimately show ?thesis unfolding shape_def by blast
qed

lemma shape_unlink:
  assumes sh: "shape h arr n" and n: "1 \<le> n"
  shows "shape (slot_put (slot_of arr n) None h) arr (n - 1)"
proof -
  let ?h = "slot_put (slot_of arr n) None h"
  have ptr': "ptr arr (n - 1) k = (if k = n then None else ptr arr n k)" for k
    by (auto simp: ptr_def)
  have "inj_on arr {1..n - 1}" using sh unfolding shape_def by (rule inj_on_subset [OF conjunct1]) auto
  moreover have "h_min ?h = ptr arr (n - 1) 1"
    unfolding ptr' using shapeD(1) [OF sh] n by (auto simp: slot_of_def)
  moreover have "h_mem ?h (arr k) = node_of arr (n - 1) k" if k: "1 \<le> k" "k \<le> n - 1" for k
  proof -
    have kn: "k \<le> n" "k < n" "2 \<le> n" using k n by auto
    have eq: "arr k = arr (n div 2) \<longleftrightarrow> k = n div 2"
      using shapeD(3) [OF sh k(1) kn(1), of "n div 2"] kn by simp
    have arith: "2 * k = n \<longleftrightarrow> k = n div 2 \<and> even n"
      "2 * k + 1 = n \<longleftrightarrow> k = n div 2 \<and> odd n" "k div 2 \<noteq> n"
      using kn by presburger+
    show ?thesis
      using kn eq shapeD(2) [OF sh k(1) kn(1)]
      unfolding node_of_def ptr' arith by (auto simp: slot_of_def)
  qed
  ultimately show ?thesis unfolding shape_def by blast
qed

lemma shape_replace:
  assumes sh: "shape h arr n" and i: "1 \<le> i" "i \<le> n" and c: "c \<notin> arr ` {1..n}"
  shows "shape (replace_node h (arr i) c) (arr(i := c)) n"
proof -
  let ?arr = "arr(i := c)" and ?h = "replace_node h (arr i) c"
  have ck: "arr k \<noteq> c" if "1 \<le> k" "k \<le> n" for k using c that by auto
  have ptr': "ptr ?arr n k = (if k = i then Some c else ptr arr n k)" for k
    using i by (auto simp: ptr_def)
  note eqs = shapeD(3) [OF sh] ptr_eq [OF sh] shapeD(2) [OF sh]
  have pc: "ptr arr n k \<noteq> Some c" for k using ck by (auto simp: ptr_def)
  define h1 where "h1 = node_set c (\<lambda>_. h_mem h (arr i)) h"
  define h2 where "h2 = set_parent (ptr arr n (2 * i)) c h1"
  define h3 where "h3 = set_parent (ptr arr n (2 * i + 1)) c h2"
  have mc: "h_mem h1 c = node_of arr n i" "h_mem h2 c = node_of arr n i" "h_mem h3 c = node_of arr n i"
    using i pc by (simp_all add: h1_def h2_def h3_def mem_set_parent eqs)
  have mk: "h_mem h3 (arr k) = (node_of arr n k)\<lparr>hn_parent := (if k div 2 = i then Some c else ptr arr n (k div 2))\<rparr>"
    if k: "1 \<le> k" "k \<le> n" for k
    using ck [OF k] k unfolding div2_eq h3_def h2_def h1_def by (auto simp: mem_set_parent eqs node_of_def)
  have idiv: "i div 2 \<noteq> i" using i by simp
  then have par: "hn_parent (h_mem h3 (arr i)) = ptr arr n (i div 2)" using mk [OF i] by simp
  have h: "?h = relink (ptr arr n (i div 2)) (arr i) c h3"
    unfolding replace_node_def Let_def h1_def [symmetric] mc node_of_sel h2_def [symmetric]
      h3_def [symmetric] par ..
  have up: "h_mem ?h (arr k) = (if k = i div 2
      then if even i then (h_mem h3 (arr k))\<lparr>hn_left := Some c\<rparr> else (h_mem h3 (arr k))\<lparr>hn_right := Some c\<rparr>
      else h_mem h3 (arr k))" if k: "1 \<le> k" "k \<le> n" for k
  proof (cases "1 \<le> i div 2")
    case True
    have b: "i div 2 \<le> n" using i by simp
    have "hn_left (h_mem h3 (arr (i div 2))) = Some (arr i) \<longleftrightarrow> 2 * (i div 2) = i"
      using mk [OF True b] i by (simp add: eqs)
    also have "\<dots> \<longleftrightarrow> even i" by presburger
    finally show ?thesis
      using True b k unfolding h by (auto simp: relink_def eqs)
  next
    case False
    then show ?thesis using k unfolding h by (simp add: relink_def)
  qed
  have mci: "h_mem ?h c = node_of arr n i"
    using ck mc(3) unfolding h by (auto simp: relink_def ptr_def)
  have "inj_on ?arr {1..n}" using sh c unfolding shape_def by (intro inj_on_fun_updI) auto
  moreover have "h_min ?h = ptr ?arr n 1"
    unfolding h relink_min ptr' using shapeD(1) [OF sh] i
    by (auto simp: h1_def h2_def h3_def ptr_def)
  moreover have "h_mem ?h (?arr k) = node_of ?arr n k" if k: "1 \<le> k" "k \<le> n" for k
  proof (cases "k = i")
    case True
    then show ?thesis using mci i idiv unfolding node_of_def ptr' by simp
  next
    case False
    have arith: "2 * k = i \<longleftrightarrow> k = i div 2 \<and> even i" "2 * k + 1 = i \<longleftrightarrow> k = i div 2 \<and> odd i"
      by presburger+
    show ?thesis
      using False up [OF k] mk [OF k] unfolding node_of_def ptr' arith by auto
  qed
  ultimately show ?thesis unfolding shape_def by blast
qed

section \<open>The heap order\<close>

definition heap_ordered :: "('a \<Rightarrow> 'a \<Rightarrow> bool) \<Rightarrow> (nat \<Rightarrow> 'a) \<Rightarrow> nat \<Rightarrow> bool" where
  "heap_ordered lessf arr n \<longleftrightarrow> (\<forall>k. 2 \<le> k \<and> k \<le> n \<longrightarrow> \<not> lessf (arr k) (arr (k div 2)))"

text \<open>Only position \<open>i\<close> may be smaller than its parent.\<close>

definition up_ordered :: "('a \<Rightarrow> 'a \<Rightarrow> bool) \<Rightarrow> (nat \<Rightarrow> 'a) \<Rightarrow> nat \<Rightarrow> nat \<Rightarrow> bool" where
  "up_ordered lessf arr n i \<longleftrightarrow>
     (\<forall>k. 2 \<le> k \<and> k \<le> n \<and> k \<noteq> i \<longrightarrow> \<not> lessf (arr k) (arr (k div 2))) \<and>
     (\<forall>k. 2 \<le> i \<and> k \<le> n \<and> k div 2 = i \<longrightarrow> \<not> lessf (arr k) (arr (i div 2)))"

text \<open>Only position \<open>i\<close> may be out of order with its parent and its children.\<close>

definition down_ordered :: "('a \<Rightarrow> 'a \<Rightarrow> bool) \<Rightarrow> (nat \<Rightarrow> 'a) \<Rightarrow> nat \<Rightarrow> nat \<Rightarrow> bool" where
  "down_ordered lessf arr n i \<longleftrightarrow>
     (\<forall>k. 2 \<le> k \<and> k \<le> n \<and> k \<noteq> i \<and> k div 2 \<noteq> i \<longrightarrow> \<not> lessf (arr k) (arr (k div 2))) \<and>
     (\<forall>k. 2 \<le> i \<and> k \<le> n \<and> k div 2 = i \<longrightarrow> \<not> lessf (arr k) (arr (i div 2)))"

text \<open>The contract of the comparison function: a strict weak order.\<close>

locale heap_order =
  fixes lessf :: "'a \<Rightarrow> 'a \<Rightarrow> bool"
  assumes asym: "lessf a b \<Longrightarrow> \<not> lessf b a"
    and not_less_trans: "\<not> lessf b a \<Longrightarrow> \<not> lessf c b \<Longrightarrow> \<not> lessf c a"
begin

lemma sift_up_correct:
  assumes "shape h arr n" "1 \<le> i" "i \<le> n" "up_ordered lessf arr n i"
  obtains h' arr' where "sift_up lessf (arr i) h = Some h'" "shape h' arr' n"
    "heap_ordered lessf arr' n" "arr' ` {1..n} = arr ` {1..n}" "h_nelts h' = h_nelts h"
  using assms
proof (induction i arbitrary: h arr thesis rule: less_induct)
  case (less i)
  note sh = less.prems(2) and i = less.prems(3,4) and up = less.prems(5)
  have par: "hn_parent (h_mem h (arr i)) = ptr arr n (i div 2)"
    using shapeD(2) [OF sh i] by simp
  show ?case
  proof (cases "2 \<le> i \<and> lessf (arr i) (arr (i div 2))")
    case False
    have "heap_ordered lessf arr n"
      using up False unfolding heap_ordered_def up_ordered_def by metis
    moreover have "sift_up lessf (arr i) h = Some h"
      using False i par by (subst sift_up.simps) (auto simp: ptr_def)
    ultimately show thesis using less.prems(1) sh by blast
  next
    case True
    define j where "j = i div 2"
    have j: "1 \<le> j" "j < i" "j \<le> n" using True i by (auto simp: j_def)
    let ?arr = "arr(j := arr i, i := arr j)" and ?h = "heap_node_swap h (arr j) (arr i)"
    have sh': "shape ?h ?arr n" using swap_shape [OF sh _ i(2) j_def] True by simp
    have ji: "\<not> lessf (arr j) (arr i)" using asym True by (simp add: j_def)
    have "up_ordered lessf ?arr n j"
      unfolding up_ordered_def
    proof (intro conjI allI impI)
      fix k assume k: "2 \<le> k \<and> k \<le> n \<and> k \<noteq> j"
      consider "k = i" | "k \<noteq> i" "k div 2 = i" | "k \<noteq> i" "k div 2 \<noteq> i" "k div 2 = j"
        | "k \<noteq> i" "k div 2 \<noteq> i" "k div 2 \<noteq> j" by blast
      then show "\<not> lessf (?arr k) (?arr (k div 2))"
      proof cases
        case 1
        then show ?thesis using ji j by (simp add: j_def [symmetric])
      next
        case 2
        then show ?thesis using up k True j by (simp add: up_ordered_def j_def)
      next
        case 3
        have "\<not> lessf (arr k) (arr j)" using up k 3 by (simp add: up_ordered_def) metis
        then show ?thesis using not_less_trans [of "arr j" "arr i" "arr k"] ji 3 k j by simp
      next
        case 4
        then show ?thesis using up k by (simp add: up_ordered_def)
      qed
    next
      fix k assume k: "2 \<le> j \<and> k \<le> n \<and> k div 2 = j"
      have jj: "\<not> lessf (arr j) (arr (j div 2))" using up k j by (simp add: up_ordered_def)
      have neq: "j div 2 \<noteq> i" "j div 2 \<noteq> j" "k \<noteq> j" using k j by auto
      show "\<not> lessf (?arr k) (?arr (j div 2))"
      proof (cases "k = i")
        case True
        then show ?thesis using jj neq by simp
      next
        case False
        have "\<not> lessf (arr k) (arr j)" using up k False by (auto simp: up_ordered_def)
        then show ?thesis using not_less_trans [OF jj] neq False by simp
      qed
    qed
    then obtain h' arr' where h': "sift_up lessf (?arr j) ?h = Some h'" "shape h' arr' n"
      "heap_ordered lessf arr' n" "arr' ` {1..n} = ?arr ` {1..n}" "h_nelts h' = h_nelts ?h"
      using less.IH [OF j(2) _ sh' j(1,3)] by blast
    have "sift_up lessf (arr i) h = Some h'"
      using True par j h'(1) by (subst sift_up.simps) (simp add: j_def [symmetric])
    moreover have "?arr ` {1..n} = arr ` {1..n}" by (rule swap_image) (use i j in auto)
    ultimately show thesis using less.prems(1) [of h' arr'] h' by simp
  qed
qed

text \<open>The index of the smallest among a position and its children.\<close>

lemma less_trans_sib: "lessf l x \<Longrightarrow> \<not> lessf r x \<Longrightarrow> \<not> lessf r l"
  using not_less_trans asym by blast

lemma smallest_of_shape:
  assumes sh: "shape h arr n" and i: "1 \<le> i" "i \<le> n"
  obtains m where "smallest_of lessf h (arr i) = arr m" "m = i \<or> m div 2 = i" "1 \<le> m" "m \<le> n"
    "m \<noteq> i \<Longrightarrow> lessf (arr m) (arr i)"
    "\<And>k. k div 2 = i \<Longrightarrow> k \<le> n \<Longrightarrow> \<not> lessf (arr k) (arr m)"
proof -
  let ?l = "2 * i" and ?r = "2 * i + 1"
  have ch: "hn_left (h_mem h (arr i)) = ptr arr n ?l" "hn_right (h_mem h (arr i)) = ptr arr n ?r"
    using shapeD(2) [OF sh i] by simp_all
  define a where "a = (if ?l \<le> n \<and> lessf (arr ?l) (arr i) then ?l else i)"
  define m where "m = (if ?r \<le> n \<and> lessf (arr ?r) (arr a) then ?r else a)"
  have "smallest_of lessf h (arr i) = arr m"
    using i by (auto simp: smallest_of_def ch ptr_def a_def m_def Let_def)
  moreover have "m = i \<or> m div 2 = i" "1 \<le> m" "m \<le> n" using i by (auto simp: m_def a_def)
  moreover have "lessf (arr m) (arr i)" if "m \<noteq> i"
    using that less_trans_sib [of "arr ?l" "arr i" "arr ?r"] by (auto simp: m_def a_def split: if_splits)
  moreover have "\<not> lessf (arr k) (arr m)" if k: "k div 2 = i" "k \<le> n" for k
  proof -
    have refl: "\<not> lessf x x" for x using asym by blast
    from k(1) consider "k = ?l" | "k = ?r" unfolding div2_eq by blast
    then show ?thesis
    proof cases
      case 1
      have la: "\<not> lessf (arr ?l) (arr a)" using refl k(2) 1 by (simp add: a_def)
      show ?thesis
      proof (cases "m = a")
        case False
        then have "lessf (arr ?r) (arr a)" "m = ?r" unfolding m_def by presburger+
        then show ?thesis using less_trans_sib [OF _ la] 1 by simp
      qed (use la 1 in simp)
    next
      case 2
      then show ?thesis using refl k(2) by (auto simp: m_def)
    qed
  qed
  ultimately show thesis using that by blast
qed

lemma down_step:
  assumes down: "down_ordered lessf arr n i" and i: "1 \<le> i" and m: "m div 2 = i" "m \<le> n"
    and small: "lessf (arr m) (arr i)" "\<And>k. k div 2 = i \<Longrightarrow> k \<le> n \<Longrightarrow> \<not> lessf (arr k) (arr m)"
  shows "down_ordered lessf (arr(i := arr m, m := arr i)) n m"
  unfolding down_ordered_def
proof (intro conjI allI impI)
  have im: "i < m" "i \<noteq> m" using m i by auto
  let ?arr = "arr(i := arr m, m := arr i)"
  {
    fix k assume k: "2 \<le> k \<and> k \<le> n \<and> k \<noteq> m \<and> k div 2 \<noteq> m"
    show "\<not> lessf (?arr k) (?arr (k div 2))"
    proof (cases "k = i")
      case True
      have "\<not> lessf (arr m) (arr (i div 2))"
        using down m k True unfolding down_ordered_def by blast
      moreover have "i div 2 \<noteq> i" "i div 2 \<noteq> m" using im i by auto
      ultimately show ?thesis using True im by simp
    next
      case False
      show ?thesis
      proof (cases "k div 2 = i")
        case True
        then show ?thesis using small(2) k im False by simp
      next
        case False': False
        then show ?thesis using down k False by (simp add: down_ordered_def)
      qed
    qed
  next
    fix k assume k: "2 \<le> m \<and> k \<le> n \<and> k div 2 = m"
    have km: "k \<noteq> m" "k \<noteq> i" "2 \<le> k" "k div 2 \<noteq> i" using k im by auto
    then have "\<not> lessf (arr k) (arr m)"
      using down k unfolding down_ordered_def by metis
    then show "\<not> lessf (?arr k) (?arr (m div 2))" using km im m by simp
  }
qed

lemma sift_down_correct:
  assumes "shape h arr n" "1 \<le> i" "i \<le> n" "down_ordered lessf arr n i"
  obtains h' arr' i' where "sift_down lessf (arr i) h = Some h'" "shape h' arr' n"
    "up_ordered lessf arr' n i'" "arr' i' = arr i" "1 \<le> i'" "i' \<le> n"
    "arr' ` {1..n} = arr ` {1..n}" "h_nelts h' = h_nelts h"
  using assms
proof (induction "n - i" arbitrary: i h arr thesis rule: less_induct)
  case less
  note sh = less.prems(2) and i = less.prems(3,4) and down = less.prems(5)
  obtain m where m: "smallest_of lessf h (arr i) = arr m" "m = i \<or> m div 2 = i" "1 \<le> m" "m \<le> n"
    "m \<noteq> i \<Longrightarrow> lessf (arr m) (arr i)"
    "\<And>k. k div 2 = i \<Longrightarrow> k \<le> n \<Longrightarrow> \<not> lessf (arr k) (arr m)"
    by (rule smallest_of_shape [OF sh i]) blast
  show ?case
  proof (cases "m = i")
    case True
    have "up_ordered lessf arr n i"
      using down m(6) True unfolding up_ordered_def down_ordered_def by metis
    moreover have "sift_down lessf (arr i) h = Some h"
      using m(1) True by (subst sift_down.simps) simp
    ultimately show thesis using less.prems(1) sh i by blast
  next
    case False
    then have mi: "m div 2 = i" "lessf (arr m) (arr i)" using m(2,5) by auto
    then have m2: "2 \<le> m" using i by auto
    let ?arr = "arr(i := arr m, m := arr i)" and ?h = "heap_node_swap h (arr i) (arr m)"
    have sh': "shape ?h ?arr n" using swap_shape [OF sh m2 m(4) mi(1) [symmetric]] .
    have down': "down_ordered lessf ?arr n m" by (rule down_step [OF down i(1) mi(1) m(4) mi(2) m(6)])
    have lt: "n - m < n - i" using mi m(4) i by auto
    obtain h' arr' i' where h': "sift_down lessf (?arr m) ?h = Some h'" "shape h' arr' n"
      "up_ordered lessf arr' n i'" "arr' i' = ?arr m" "1 \<le> i'" "i' \<le> n"
      "arr' ` {1..n} = ?arr ` {1..n}" "h_nelts h' = h_nelts ?h"
      by (rule less.hyps [OF lt _ sh' m(3,4) down']) blast
    have "arr m \<noteq> arr i" using shapeD(3) [OF sh m(3,4) i] False by simp
    then have "sift_down lessf (arr i) h = Some h'"
      using m(1) h'(1) by (subst sift_down.simps) simp
    moreover have "?arr ` {1..n} = arr ` {1..n}" by (rule swap_image) (use i m in auto)
    ultimately show thesis using less.prems(1) [of h' arr' i'] h' by simp
  qed
qed

end

section \<open>The abstract contract: a heap stands for a set of nodes\<close>

definition heap_rep :: "('a \<Rightarrow> 'a \<Rightarrow> bool) \<Rightarrow> 'a uv_heap \<Rightarrow> 'a set \<Rightarrow> bool" where
  "heap_rep lessf h S \<longleftrightarrow>
     (\<exists>arr n. shape h arr n \<and> heap_ordered lessf arr n \<and> arr ` {1..n} = S \<and> unat (h_nelts h) = n)"

lemma shape_nelts [simp]: "shape (h\<lparr>h_nelts := v\<rparr>) arr n = shape h arr n"
  by (simp add: shape_def)

lemma shape_node_set:
  "shape h arr n \<Longrightarrow> x \<notin> arr ` {1..n} \<Longrightarrow> shape (node_set x f h) arr n"
  unfolding shape_def by auto

lemma slot_put_nelts [simp]: "h_nelts (slot_put s v h) = h_nelts h"
  by (cases s) simp_all

lemma shape_card: "shape h arr n \<Longrightarrow> card (arr ` {1..n}) = n"
  by (simp add: shape_def card_image)

lemma heap_rep_finite: "heap_rep lessf h S \<Longrightarrow> finite S"
  by (auto simp: heap_rep_def)

lemma heap_rep_card: "heap_rep lessf h S \<Longrightarrow> card S = unat (h_nelts h)"
  unfolding heap_rep_def using shape_card by blast

lemma heap_init_rep: "heap_rep lessf (heap_init mem) {}"
  unfolding heap_rep_def
  by (intro exI [of _ undefined] exI [of _ 0]) (simp add: shape_def heap_init_def heap_ordered_def)

lemma insert_remove: "S - {a} = A \<Longrightarrow> a \<in> S \<Longrightarrow> a \<noteq> x \<Longrightarrow> insert a (A - {x}) = S - {x}"
  by blast

context heap_order
begin

lemma insert_correct:
  assumes rep: "heap_rep lessf h S" and x: "x \<notin> S" and room: "card S < 2 ^ 32 - 1"
  obtains h' where "heap_insert lessf h x = Some h'" "heap_rep lessf h' (insert x S)"
proof -
  obtain arr n where sh: "shape h arr n" and ord: "heap_ordered lessf arr n"
    and S: "arr ` {1..n} = S" and n: "unat (h_nelts h) = n"
    using rep by (auto simp: heap_rep_def)
  have nlt: "n < 2 ^ 32 - 1" using room heap_rep_card [OF rep] n by simp
  have xS: "x \<notin> arr ` {1..n}" using x S by simp
  define h1 where "h1 = node_set x (\<lambda>_. \<lparr>hn_left = None, hn_right = None, hn_parent = None\<rparr>) h"
  have sh1: "shape h1 arr n" unfolding h1_def by (rule shape_node_set [OF sh xS])
  have N: "unat (1 + h_nelts h1) = n + 1"
  proof -
    have "unat (- 1 :: u32) = 2 ^ 32 - 1" by (simp add: unsigned_minus_1_eq_mask mask_eq_exp_minus_1)
    then have "h_nelts h \<noteq> - 1" using n nlt by auto
    then show ?thesis using n unat_add_one [of "h_nelts h"] by (simp add: h1_def add.commute)
  qed
  obtain path k where pl: "path_loop 0 0 (1 + h_nelts h1) = (path, k)" by fastforce
  have walk: "walk_loop h1 k path Min_slot Min_slot = Some (slot_of arr ((n + 1) div 2), slot_of arr (n + 1))"
    using walk_to [OF sh1 pl] N by (cases "n = 0") simp_all
  have par: "slot_get h1 (slot_of arr ((n + 1) div 2)) = ptr arr n ((n + 1) div 2)"
  proof (cases "n = 0")
    case True
    then show ?thesis using shapeD(1) [OF sh1] by (simp add: slot_of_def ptr_def)
  next
    case False
    then show ?thesis by (intro slot_get_of [OF sh1]) auto
  qed
  define h2 where "h2 = node_set x (hn_parent_update (\<lambda>_. ptr arr n ((n + 1) div 2))) h1"
  define h3 where "h3 = slot_put (slot_of arr (n + 1)) (Some x) h2"
  define h4 where "h4 = h3\<lparr>h_nelts := h_nelts h3 + 1\<rparr>"
  let ?arr = "arr(n + 1 := x)"
  have sh2: "shape h2 arr n" unfolding h2_def by (rule shape_node_set [OF sh1 xS])
  have "shape h3 ?arr (n + 1)" unfolding h3_def
    by (rule shape_append [OF sh2 xS]) (simp add: h2_def h1_def)
  then have sh4: "shape h4 ?arr (n + 1)" by (simp add: h4_def)
  have up: "up_ordered lessf ?arr (n + 1) (n + 1)"
    using ord by (auto simp: up_ordered_def heap_ordered_def)
  obtain h' arr' where h': "sift_up lessf (?arr (n + 1)) h4 = Some h'" "shape h' arr' (n + 1)"
    "heap_ordered lessf arr' (n + 1)" "arr' ` {1..n + 1} = ?arr ` {1..n + 1}" "h_nelts h' = h_nelts h4"
    by (rule sift_up_correct [OF sh4 _ _ up]) auto
  have "heap_insert lessf h x = Some h'"
    unfolding heap_insert_def h1_def [symmetric] Let_def pl
    using walk par h'(1) by (simp add: h2_def h3_def h4_def)
  moreover have "?arr ` {1..n + 1} = insert x S"
  proof -
    have "{1..n + 1} = insert (n + 1) {1..n}" by auto
    moreover have "?arr ` {1..n} = arr ` {1..n}" by (intro image_cong) auto
    ultimately show ?thesis using S by (simp only: image_insert fun_upd_same)
  qed
  moreover have "unat (h_nelts h') = n + 1"
    using h'(5) N by (simp add: h4_def h3_def h2_def h1_def add.commute)
  ultimately show thesis using that h'(2,3,4) unfolding heap_rep_def by metis
qed

lemma down_ordered_replace:
  assumes ord: "heap_ordered lessf arr n" and i: "1 \<le> i"
  shows "down_ordered lessf (arr(i := c)) (n - 1) i"
  unfolding down_ordered_def
proof (intro conjI allI impI)
  fix k assume "2 \<le> k \<and> k \<le> n - 1 \<and> k \<noteq> i \<and> k div 2 \<noteq> i"
  then show "\<not> lessf ((arr(i := c)) k) ((arr(i := c)) (k div 2))"
    using ord by (auto simp: heap_ordered_def)
next
  fix k assume k: "2 \<le> i \<and> k \<le> n - 1 \<and> k div 2 = i"
  then have b: "2 \<le> k" "k \<le> n" "i \<le> n" "k \<noteq> i" "i div 2 \<noteq> i" by auto
  then have "\<not> lessf (arr k) (arr i)" "\<not> lessf (arr i) (arr (i div 2))"
    using ord k unfolding heap_ordered_def by auto
  then have "\<not> lessf (arr k) (arr (i div 2))" using not_less_trans by blast
  then show "\<not> lessf ((arr(i := c)) k) ((arr(i := c)) (i div 2))" using b by simp
qed

lemma remove_correct:
  assumes rep: "heap_rep lessf h S" and x: "x \<in> S"
  obtains h' where "heap_remove lessf h x = Some h'" "heap_rep lessf h' (S - {x})"
proof -
  obtain arr n where sh: "shape h arr n" and ord: "heap_ordered lessf arr n"
    and S: "arr ` {1..n} = S" and n: "unat (h_nelts h) = n"
    using rep by (auto simp: heap_rep_def)
  obtain i where i: "1 \<le> i" "i \<le> n" "arr i = x" using x S by auto
  have n1: "1 \<le> n" and nz: "h_nelts h \<noteq> 0" using i n by auto
  obtain path k where pl: "path_loop 0 0 (h_nelts h) = (path, k)" by fastforce
  have walk: "walk_loop h k path Min_slot Min_slot = Some (slot_of arr (n div 2), slot_of arr n)"
    using walk_to [OF sh pl] n n1 by simp
  define h1 where "h1 = h\<lparr>h_nelts := h_nelts h - 1\<rparr>"
  have sh1: "shape h1 arr n" using sh by (simp add: h1_def)
  have last: "slot_get h1 (slot_of arr n) = Some (arr n)"
    using slot_get_of [OF sh1 n1] n1 by simp
  define h2 where "h2 = slot_put (slot_of arr n) None h1"
  have sh2: "shape h2 arr (n - 1)" unfolding h2_def by (rule shape_unlink [OF sh1 n1])
  have nelts: "unat (h_nelts h2) = n - 1"
    using n nz by (simp add: h2_def h1_def unat_minus_one)
  have notin: "arr n \<notin> arr ` {1..n - 1}"
    using shapeD(3) [OF sh _ _ n1 order_refl] by force
  have eqn: "heap_remove lessf h x = (if arr n = x
      then Some (if h_min h2 = Some (arr n) then h2\<lparr>h_min := None\<rparr> else h2)
      else do { h3 \<leftarrow> sift_down lessf (arr n) (replace_node h2 x (arr n)); sift_up lessf (arr n) h3 })"
    using nz walk last unfolding heap_remove_def pl h1_def [symmetric] by (simp add: h2_def Let_def)
  have Sn: "S - {arr n} = arr ` {1..n - 1}"
  proof -
    have "{1..n} = insert n {1..n - 1}" using n1 by auto
    then have "S = insert (arr n) (arr ` {1..n - 1})" using S by auto
    then show ?thesis using notin by auto
  qed
  show thesis
  proof (cases "arr n = x")
    case True
    have "h_min h2 \<noteq> Some (arr n)"
      using notin shapeD(1) [OF sh2] by (cases "1 \<le> n - 1") (auto simp: ptr_def intro: image_eqI [of _ _ 1])
    then have "heap_remove lessf h x = Some h2" using eqn True by simp
    moreover have "heap_ordered lessf arr (n - 1)" using ord by (auto simp: heap_ordered_def)
    then have "heap_rep lessf h2 (S - {x})"
      using sh2 nelts Sn True unfolding heap_rep_def by blast
    ultimately show thesis by (rule that)
  next
    case False
    have im: "i \<le> n - 1" using i False by (cases "i = n") auto
    let ?arr = "arr(i := arr n)" and ?h = "replace_node h2 x (arr n)"
    have sh3: "shape ?h ?arr (n - 1)" using shape_replace [OF sh2 i(1) im notin] i(3) by simp
    obtain h3 arr3 i3 where h3: "sift_down lessf (?arr i) ?h = Some h3" "shape h3 arr3 (n - 1)"
      "up_ordered lessf arr3 (n - 1) i3" "arr3 i3 = ?arr i" "1 \<le> i3" "i3 \<le> n - 1"
      "arr3 ` {1..n - 1} = ?arr ` {1..n - 1}" "h_nelts h3 = h_nelts ?h"
      by (rule sift_down_correct [OF sh3 i(1) im down_ordered_replace [OF ord i(1)]]) blast
    obtain h' arr' where h': "sift_up lessf (arr3 i3) h3 = Some h'" "shape h' arr' (n - 1)"
      "heap_ordered lessf arr' (n - 1)" "arr' ` {1..n - 1} = arr3 ` {1..n - 1}" "h_nelts h' = h_nelts h3"
      by (rule sift_up_correct [OF h3(2,5,6,3)]) blast
    have "heap_remove lessf h x = Some h'" using eqn False h3(1,4) h'(1) by simp
    moreover have "?arr ` {1..n - 1} = S - {x}"
    proof -
      have "?arr ` {1..n - 1} = insert (arr n) (arr ` ({1..n - 1} - {i}))"
        using i(1) im by (auto simp: image_iff)
      moreover have "arr ` ({1..n - 1} - {i}) = arr ` {1..n - 1} - {x}"
      proof -
        have "inj_on arr {1..n - 1}" using sh2 by (simp add: shape_def)
        then show ?thesis using i im by (subst inj_on_image_set_diff [of arr "{1..n - 1}"]) auto
      qed
      moreover have "arr n \<in> S" unfolding S [symmetric] using n1 by simp
      ultimately show ?thesis using insert_remove [OF Sn _ False] by (simp only:)
    qed
    moreover have "h_nelts ?h = h_nelts h2"
      by (simp add: replace_node_def Let_def)
    ultimately have "arr' ` {1..n - 1} = S - {x}" "unat (h_nelts h') = n - 1"
      using h'(4,5) h3(7,8) nelts by simp_all
    then have "heap_rep lessf h' (S - {x})" using h'(2,3) unfolding heap_rep_def by blast
    with \<open>heap_remove lessf h x = Some h'\<close> show thesis by (rule that)
  qed
qed

lemma min_correct:
  assumes rep: "heap_rep lessf h S"
  shows "heap_min h = None \<longleftrightarrow> S = {}"
    and "heap_min h = Some m \<Longrightarrow> m \<in> S \<and> (\<forall>y\<in>S. \<not> lessf y m)"
proof -
  obtain arr n where sh: "shape h arr n" and ord: "heap_ordered lessf arr n"
    and S: "arr ` {1..n} = S"
    using rep by (auto simp: heap_rep_def)
  have min: "heap_min h = (if 1 \<le> n then Some (arr 1) else None)"
    using shapeD(1) [OF sh] by (simp add: heap_min_def ptr_def)
  have least: "1 \<le> k \<Longrightarrow> k \<le> n \<Longrightarrow> \<not> lessf (arr k) (arr 1)" for k
  proof (induction k rule: less_induct)
    case (less k)
    show ?case
    proof (cases "k = 1")
      case True
      then show ?thesis using asym by blast
    next
      case False
      then have "\<not> lessf (arr k) (arr (k div 2))" using ord less.prems by (simp add: heap_ordered_def)
      moreover have "\<not> lessf (arr (k div 2)) (arr 1)" using less.IH [of "k div 2"] less.prems False by simp
      ultimately show ?thesis using not_less_trans by blast
    qed
  qed
  show "heap_min h = None \<longleftrightarrow> S = {}" using min S by auto
  show "m \<in> S \<and> (\<forall>y\<in>S. \<not> lessf y m)" if "heap_min h = Some m"
    using that min least S by (auto split: if_splits)
qed

end

section \<open>Taking the minimum repeatedly\<close>

primrec heap_pops :: "('a \<Rightarrow> 'a \<Rightarrow> bool) \<Rightarrow> nat \<Rightarrow> 'a uv_heap \<Rightarrow> 'a list option" where
  "heap_pops lessf 0 h = Some []"
| "heap_pops lessf (Suc n) h =
     do { m \<leftarrow> heap_min h;
          h' \<leftarrow> heap_dequeue lessf h;
          ms \<leftarrow> heap_pops lessf n h';
          Some (m # ms) }"

lemma linorder_heap_order: "heap_order ((<) :: 'a::linorder \<Rightarrow> 'a \<Rightarrow> bool)"
  by unfold_locales auto

lemma foldM_heap_insert:
  fixes xs :: "'a::linorder list"
  assumes "distinct xs" "length xs < 2 ^ 32"
  shows "\<exists>h. foldM (\<lambda>x h. heap_insert (<) h x) xs (heap_init mem) = Some h \<and> heap_rep (<) h (set xs)"
  using assms
proof (induction xs rule: rev_induct)
  case Nil
  then show ?case using heap_init_rep by auto
next
  case (snoc x xs)
  then obtain h where h: "foldM (\<lambda>x h. heap_insert (<) h x) xs (heap_init mem) = Some h"
    "heap_rep (<) h (set xs)" by auto
  have "card (set xs) < 2 ^ 32 - 1" using snoc.prems by (simp add: distinct_card)
  then obtain h' where "heap_insert (<) h x = Some h'" "heap_rep (<) h' (insert x (set xs))"
    using heap_order.insert_correct [OF linorder_heap_order h(2), of x] snoc.prems by auto
  then show ?case using h(1) by (simp add: foldM_append)
qed

lemma heap_pops_rep:
  fixes h :: "'a::linorder uv_heap"
  shows "heap_rep (<) h S \<Longrightarrow> card S = n \<Longrightarrow> heap_pops (<) n h = Some (sorted_list_of_set S)"
proof (induction n arbitrary: h S)
  case 0
  then show ?case using heap_rep_finite [OF 0(1)] by simp
next
  case (Suc n)
  have fin: "finite S" using heap_rep_finite [OF Suc.prems(1)] .
  have "S \<noteq> {}" using Suc.prems(2) by auto
  then obtain m where m: "heap_min h = Some m"
    using heap_order.min_correct(1) [OF linorder_heap_order Suc.prems(1)] by (cases "heap_min h") auto
  then have least: "m \<in> S" "\<forall>y\<in>S. \<not> y < m"
    using heap_order.min_correct(2) [OF linorder_heap_order Suc.prems(1)] by auto
  obtain h' where h': "heap_remove (<) h m = Some h'" "heap_rep (<) h' (S - {m})"
    by (rule heap_order.remove_correct [OF linorder_heap_order Suc.prems(1) least(1)])
  have "h_nelts h \<noteq> 0" using heap_rep_card [OF Suc.prems(1)] Suc.prems(2) by auto
  then have "heap_dequeue (<) h = Some h'" using m h'(1) by (simp add: heap_dequeue_def heap_min_def)
  moreover have "heap_pops (<) n h' = Some (sorted_list_of_set (S - {m}))"
    using Suc.IH [OF h'(2)] Suc.prems(2) least(1) fin by simp
  moreover have "Min S = m" using least fin by (intro Min_eqI) auto
  then have "sorted_list_of_set S = m # sorted_list_of_set (S - {m})"
    using sorted_list_of_set_nonempty [OF fin \<open>S \<noteq> {}\<close>] by simp
  ultimately show ?case using m by simp
qed

section \<open>Properties\<close>

text \<open>
  C28: For every strict weak order, \<open>heap_insert\<close> of a node that is not in the heap (of at
  most \<open>2 ^ 32 - 2\<close> nodes) dereferences no null pointer, ends, and yields a well-linked,
  ordered heap of exactly the old nodes and the new one.
\<close>

theorem heap_insert_ok:
  assumes "heap_order lessf" and "heap_rep lessf h S" and "x \<notin> S" and "card S < 2 ^ 32 - 1"
  shows "\<exists>h'. heap_insert lessf h x = Some h' \<and> heap_rep lessf h' (insert x S)"
  by (rule heap_order.insert_correct [OF assms]) blast

lemma nat_heap_order: "heap_order ((<) :: nat \<Rightarrow> nat \<Rightarrow> bool)"
  by unfold_locales auto

theorem heap_insert_ok_witness:
  "\<exists>h'. heap_insert (<) (heap_init (\<lambda>_. \<lparr>hn_left = None, hn_right = None, hn_parent = None\<rparr>)) (5 :: nat) = Some h' \<and>
     heap_rep (<) h' {5}"
  using heap_insert_ok [OF nat_heap_order heap_init_rep, of 5] by simp

text \<open>
  C29: \<open>heap_remove\<close> of any node of the heap, wherever it sits, dereferences no null pointer,
  ends, and yields a well-linked, ordered heap of exactly the other nodes.
\<close>

theorem heap_remove_ok:
  assumes "heap_order lessf" and "heap_rep lessf h S" and "x \<in> S"
  shows "\<exists>h'. heap_remove lessf h x = Some h' \<and> heap_rep lessf h' (S - {x})"
  by (rule heap_order.remove_correct [OF assms]) blast

theorem heap_remove_ok_witness:
  "\<exists>h h'. heap_rep (<) h {5, 3 :: nat} \<and> heap_remove (<) h 5 = Some h' \<and> heap_rep (<) h' {3}"
proof -
  obtain h1 where h1: "heap_rep (<) h1 {5 :: nat}"
    using heap_order.insert_correct [OF nat_heap_order heap_init_rep, of 5] by auto
  obtain h where h: "heap_rep (<) h {3, 5 :: nat}"
    using heap_order.insert_correct [OF nat_heap_order h1, of 3] by auto
  have "{3, 5 :: nat} - {5} = {3}" by auto
  then show ?thesis using heap_remove_ok [OF nat_heap_order h, of 5] h by (auto simp: insert_commute)
qed

text \<open>
  Inserting distinct keys one by one and then taking the minimum until the heap is empty
  yields the keys in ascending order: the pointer heap is a priority queue.
\<close>

theorem heap_pops_sorted:
  fixes xs :: "'a::linorder list"
  assumes "distinct xs" and "length xs < 2 ^ 32"
  shows "\<exists>h. foldM (\<lambda>x h. heap_insert (<) h x) xs (heap_init mem) = Some h \<and>
    heap_pops (<) (length xs) h = Some (sort xs)"
proof -
  have "\<exists>h. foldM (\<lambda>x h. heap_insert (<) h x) xs (heap_init mem) = Some h \<and> heap_rep (<) h (set xs)"
    using foldM_heap_insert [OF assms] by blast
  then show ?thesis using heap_pops_rep [of _ "set xs" "length xs"] assms(1)
    by (metis distinct_card sorted_list_of_set_sort_remdups distinct_remdups_id)
qed

theorem heap_pops_sorted_witness:
  "\<exists>h. foldM (\<lambda>x h. heap_insert (<) h x) [5, 3, 9, 1 :: nat]
      (heap_init (\<lambda>_. \<lparr>hn_left = None, hn_right = None, hn_parent = None\<rparr>)) = Some h \<and>
    heap_pops (<) 4 h = Some [1, 3, 5, 9]"
proof -
  have "length [5, 3, 9, 1 :: nat] = 4" "sort [5, 3, 9, 1 :: nat] = [1, 3, 5, 9]" by simp_all
  moreover have "\<exists>h. foldM (\<lambda>x h. heap_insert (<) h x) [5, 3, 9, 1 :: nat]
      (heap_init (\<lambda>_. \<lparr>hn_left = None, hn_right = None, hn_parent = None\<rparr>)) = Some h \<and>
      heap_pops (<) (length [5, 3, 9, 1 :: nat]) h = Some (sort [5, 3, 9, 1 :: nat])"
    by (rule heap_pops_sorted) simp_all
  ultimately show ?thesis by (simp only:)
qed

end
