(* ===== verification/Uv_Errno.thy ===== *)
theory Uv_Errno
  imports Main
begin

text \<open>
  The error codes of libuv that the modelled functions return, with the values of the Apple
  platforms: \<open>include/uv/errno.h\<close> defines each of them as the negated \<open>errno\<close> number.
\<close>

definition UV_EINVAL :: int where "UV_EINVAL = - 22"
definition UV_E2BIG :: int where "UV_E2BIG = - 7"
definition UV_ENOSPC :: int where "UV_ENOSPC = - 28"
definition UV_EBUSY :: int where "UV_EBUSY = - 16"
definition UV_EAFNOSUPPORT :: int where "UV_EAFNOSUPPORT = - 47"
definition UV_ECANCELED :: int where "UV_ECANCELED = - 89"
definition UV_ENOSYS :: int where "UV_ENOSYS = - 78"
definition UV_ENOMEM :: int where "UV_ENOMEM = - 12"

end
