(* ===== verification/Uv_Io.thy ===== *)
theory Uv_Io
  imports Machine_Base
begin

text \<open>
  I/O watchers (\<open>uv__io_t\<close>, \<open>unix/core.c\<close>): the table of watchers by file descriptor, the queue
  of watchers whose kernel registration has to be updated, and the queue of watchers with a
  pending callback.

  A watcher is identified by the object it is embedded in. The queues are lists;
  \<open>QUEUE_EMPTY(&w->watcher_queue)\<close> is that the watcher is not in the list, because a
  \<open>QUEUE_REMOVE\<close> of the code is followed by \<open>QUEUE_INIT\<close>. The exception is \<open>uv__io_close\<close>,
  which leaves the pointers of \<open>pending_queue\<close> as they were: the model holds for a watcher that
  is not fed after it was closed until \<open>uv__io_init\<close> sets it up again. Queues are justified
  in \<open>Uv_Queue\<close>.
\<close>

section \<open>Data\<close>

datatype io_addr = Handle_io nat | Async_io | Signal_io

datatype io_cb = Uv_poll_io | Uv_async_io | Uv_signal_event | Uv_stream_io | Uv_udp_io | Other_io nat

record uv_io =
  io_cb :: io_cb
  io_fd :: int
  io_events :: u32
  io_pevents :: u32

text \<open>
  An element of \<open>loop->watchers\<close>: null, a watcher, or one of the two pointers that
  \<open>uv__io_poll\<close> keeps behind the table.
\<close>

datatype wslot = Null_slot | Watch io_addr | Fake nat

record io_loop =
  il_io :: "io_addr \<Rightarrow> uv_io"
  il_watchers :: "wslot list"
  il_nwatchers :: u32
  il_nfds :: u32
  il_watcher_queue :: "io_addr list"
  il_pending :: "io_addr list"
  il_pending_local :: "io_addr list"

definition POLLIN :: u32 where "POLLIN = 0x1"
definition POLLOUT :: u32 where "POLLOUT = 0x4"
definition POLLERR :: u32 where "POLLERR = 0x8"
definition UV_POLLPRI :: u32 where "UV_POLLPRI = 0x2"
definition UV_POLLRDHUP :: u32 where "UV_POLLRDHUP = 0x2000"

definition ALL_EVENTS :: u32 where
  "ALL_EVENTS = POLLIN OR POLLOUT OR UV_POLLRDHUP OR UV_POLLPRI"

definition set_io :: "io_addr \<Rightarrow> (uv_io \<Rightarrow> uv_io) \<Rightarrow> io_loop \<Rightarrow> io_loop" where
  "set_io w f l = l\<lparr>il_io := (il_io l)(w := f (il_io l w))\<rparr>"

section \<open>Operations\<close>

definition next_power_of_two :: "u32 \<Rightarrow> u32" where
  "next_power_of_two val =
     (let v0 = val - 1;
          v1 = v0 OR drop_bit 1 v0;
          v2 = v1 OR drop_bit 2 v1;
          v3 = v2 OR drop_bit 4 v2;
          v4 = v3 OR drop_bit 8 v3;
          v5 = v4 OR drop_bit 16 v4
      in v5 + 1)"

text \<open>\<open>ok\<close> tells whether \<open>realloc\<close> succeeds; the code aborts otherwise.\<close>

definition maybe_resize :: "u32 \<Rightarrow> bool \<Rightarrow> io_loop \<Rightarrow> io_loop option" where
  "maybe_resize len ok l =
     (if len \<le> il_nwatchers l then Some l
      else do { (fake_list, fake_count) \<leftarrow>
                  (if il_watchers l \<noteq> []
                   then do { a \<leftarrow> fetch (il_watchers l) (unat (il_nwatchers l));
                             b \<leftarrow> fetch (il_watchers l) (unat (il_nwatchers l) + 1);
                             Some (a, b) }
                   else Some (Null_slot, Null_slot));
                let nwatchers = next_power_of_two (len + 2) - 2;
                assert_c ok;
                Some (l\<lparr>il_watchers := take (unat (il_nwatchers l)) (il_watchers l) @
                          replicate (unat nwatchers - unat (il_nwatchers l)) Null_slot @ [fake_list, fake_count],
                        il_nwatchers := nwatchers\<rparr>) })"

definition uv_io_init :: "io_addr \<Rightarrow> io_cb \<Rightarrow> int \<Rightarrow> io_loop \<Rightarrow> io_loop option" where
  "uv_io_init w cb fd l =
     do { assert_c (fd \<ge> - 1);
          Some (set_io w (\<lambda>_. \<lparr>io_cb = cb, io_fd = fd, io_events = 0, io_pevents = 0\<rparr>) l) }"

definition valid_events :: "u32 \<Rightarrow> bool" where
  "valid_events events \<longleftrightarrow> events AND NOT ALL_EVENTS = 0 \<and> events \<noteq> 0"

text \<open>\<open>if (QUEUE_EMPTY(&w->watcher_queue)) QUEUE_INSERT_TAIL(&loop->watcher_queue, ..)\<close>\<close>

definition queue_watcher :: "io_addr \<Rightarrow> io_loop \<Rightarrow> io_loop" where
  "queue_watcher w l =
     (if w \<in> set (il_watcher_queue l) then l else l\<lparr>il_watcher_queue := il_watcher_queue l @ [w]\<rparr>)"

definition uv_io_start :: "io_addr \<Rightarrow> u32 \<Rightarrow> bool \<Rightarrow> io_loop \<Rightarrow> io_loop option" where
  "uv_io_start w events ok l =
     do { assert_c (valid_events events);
          assert_c (io_fd (il_io l w) \<ge> 0);
          assert_c (io_fd (il_io l w) < 0x7fffffff);
          let l1 = set_io w (io_pevents_update (\<lambda>p. p OR events)) l;
          l2 \<leftarrow> maybe_resize (of_int (io_fd (il_io l1 w) + 1)) ok l1;
          let io = il_io l2 w;
          if io_events io = io_pevents io then Some l2
          else do { let l3 = queue_watcher w l2;
                    slot \<leftarrow> fetch (il_watchers l3) (nat (io_fd io));
                    if slot = Null_slot
                    then do { ws \<leftarrow> store (il_watchers l3) (nat (io_fd io)) (Watch w);
                              Some (l3\<lparr>il_watchers := ws, il_nfds := il_nfds l3 + 1\<rparr>) }
                    else Some l3 } }"

definition uv_io_stop :: "io_addr \<Rightarrow> u32 \<Rightarrow> io_loop \<Rightarrow> io_loop option" where
  "uv_io_stop w events l =
     do { assert_c (valid_events events);
          if io_fd (il_io l w) = - 1 then Some l
          else do {
            assert_c (io_fd (il_io l w) \<ge> 0);
            if (of_int (io_fd (il_io l w)) :: u32) \<ge> il_nwatchers l then Some l
            else do {
              let l1 = set_io w (io_pevents_update (\<lambda>p. p AND NOT events)) l;
              if io_pevents (il_io l1 w) = 0
              then do {
                let l2 = l1\<lparr>il_watcher_queue := removeAll w (il_watcher_queue l1)\<rparr>;
                slot \<leftarrow> fetch (il_watchers l2) (nat (io_fd (il_io l2 w)));
                if slot \<noteq> Null_slot
                then do { assert_c (slot = Watch w);
                          assert_c (il_nfds l2 > 0);
                          ws \<leftarrow> store (il_watchers l2) (nat (io_fd (il_io l2 w))) Null_slot;
                          Some (set_io w (io_events_update (\<lambda>_. 0))
                                 (l2\<lparr>il_watchers := ws, il_nfds := il_nfds l2 - 1\<rparr>)) }
                else Some l2 }
              else Some (queue_watcher w l1) } } }"

text \<open>
  \<open>invalidate\<close> is \<open>uv__platform_invalidate_fd\<close> of the kernel event backend, which drops
  the events of a descriptor that have been received but not handled yet.
\<close>

definition uv_io_close :: "(int \<Rightarrow> io_loop \<Rightarrow> io_loop) \<Rightarrow> io_addr \<Rightarrow> io_loop \<Rightarrow> io_loop option" where
  "uv_io_close invalidate w l =
     do { l1 \<leftarrow> uv_io_stop w ALL_EVENTS l;
          let l2 = l1\<lparr>il_pending := removeAll w (il_pending l1),
                      il_pending_local := removeAll w (il_pending_local l1)\<rparr>;
          Some (if io_fd (il_io l2 w) \<noteq> - 1 then invalidate (io_fd (il_io l2 w)) l2 else l2) }"

definition uv_io_feed :: "io_addr \<Rightarrow> io_loop \<Rightarrow> io_loop" where
  "uv_io_feed w l =
     (if w \<notin> set (il_pending l) \<and> w \<notin> set (il_pending_local l)
      then l\<lparr>il_pending := il_pending l @ [w]\<rparr> else l)"

definition uv_io_active :: "io_addr \<Rightarrow> u32 \<Rightarrow> io_loop \<Rightarrow> bool option" where
  "uv_io_active w events l =
     do { assert_c (valid_events events); Some (io_pevents (il_io l w) AND events \<noteq> 0) }"

definition uv_fd_exists :: "int \<Rightarrow> io_loop \<Rightarrow> bool" where
  "uv_fd_exists fd l \<longleftrightarrow>
     (of_int fd :: u32) < il_nwatchers l \<and> il_watchers l ! unat (of_int fd :: u32) \<noteq> Null_slot"

section \<open>Powers of two\<close>

definition smeared :: "u32 \<Rightarrow> nat \<Rightarrow> u32 \<Rightarrow> bool" where
  "smeared v n v' \<longleftrightarrow> (\<forall>i. bit v' i \<longleftrightarrow> (\<exists>j < n. bit v (i + j)))"

lemma smear_step: "smeared v n v' \<Longrightarrow> smeared v (2 * n) (v' OR drop_bit n v')"
proof -
  assume s: "smeared v n v'"
  have "(\<exists>j < 2 * n. bit v (i + j)) \<longleftrightarrow> (\<exists>j < n. bit v (i + j)) \<or> (\<exists>j < n. bit v (i + n + j))" for i
  proof
    assume "\<exists>j < 2 * n. bit v (i + j)"
    then obtain j where j: "j < 2 * n" "bit v (i + j)" by blast
    show "(\<exists>j < n. bit v (i + j)) \<or> (\<exists>j < n. bit v (i + n + j))"
    proof (cases "j < n")
      case False
      then show ?thesis using j by (intro disjI2 exI [of _ "j - n"]) auto
    qed (use j in blast)
  next
    assume "(\<exists>j < n. bit v (i + j)) \<or> (\<exists>j < n. bit v (i + n + j))"
    then obtain j where "j < n" "bit v (i + j) \<or> bit v (i + (n + j))" by (auto simp: add.assoc)
    then have "j < 2 * n" "n + j < 2 * n" "bit v (i + j) \<or> bit v (i + (n + j))" by auto
    then show "\<exists>j < 2 * n. bit v (i + j)" by blast
  qed
  then show ?thesis using s by (simp add: smeared_def bit_simps add.commute add.left_commute)
qed

lemma next_power_of_two_smeared: "smeared (val - 1) 32 (next_power_of_two val - 1)"
proof -
  have s1: "smeared v 1 v" for v by (simp add: smeared_def)
  have s2: "smeared v 2 v1" if "v1 = v OR drop_bit 1 v" for v v1
    using smear_step [OF s1 [of v]] that by simp
  have s4: "smeared v 4 v2" if "smeared v 2 v1" "v2 = v1 OR drop_bit 2 v1" for v v1 v2
    using smear_step [OF that(1)] that(2) by simp
  have s8: "smeared v 8 v2" if "smeared v 4 v1" "v2 = v1 OR drop_bit 4 v1" for v v1 v2
    using smear_step [OF that(1)] that(2) by simp
  have s16: "smeared v 16 v2" if "smeared v 8 v1" "v2 = v1 OR drop_bit 8 v1" for v v1 v2
    using smear_step [OF that(1)] that(2) by simp
  have s32: "smeared v 32 v2" if "smeared v 16 v1" "v2 = v1 OR drop_bit 16 v1" for v v1 v2
    using smear_step [OF that(1)] that(2) by simp
  show ?thesis
    unfolding next_power_of_two_def Let_def add_diff_cancel_right'
    by (rule s32 [OF s16 [OF s8 [OF s4 [OF s2]]]]) (rule refl)+
qed

lemma next_power_of_two_spec:
  assumes "0 < unat val" "unat val \<le> 2 ^ 31"
  obtains k where "k \<le> 31" "unat (next_power_of_two val) = 2 ^ k" "unat val \<le> 2 ^ k"
    "\<And>j. unat val \<le> 2 ^ j \<Longrightarrow> k \<le> j"
proof (cases "unat val = 1")
  case True
  then have "val = 1" by (metis unat_1 unat_inj_iff)
  then have "next_power_of_two val = 1" by (simp add: next_power_of_two_def)
  then show thesis using that [of 0] True by simp
next
  case False
  define v where "v = val - 1"
  have "val \<noteq> 0" using assms(1) by auto
  then have uv: "unat v = unat val - 1" by (simp add: v_def unat_minus_one)
  then have v: "0 < unat v" "unat v < 2 ^ 31" using False assms by auto
  obtain k where k: "2 ^ k \<le> unat v" "unat v < 2 ^ Suc k"
    using ex_power_ivl1 [of 2 "unat v"] v(1) by auto
  have "(2::nat) ^ k < 2 ^ 31" using k(1) v(2) by (rule order_le_less_trans)
  then have k31: "k < 31" by (metis one_less_numeral_iff power_strict_increasing_iff semiring_norm(76))
  have bits: "bit (next_power_of_two val - 1) i \<longleftrightarrow> i \<le> k" for i
  proof -
    have "bit (next_power_of_two val - 1) i \<longleftrightarrow> (\<exists>j < 32. bit v (i + j))"
      using next_power_of_two_smeared [of val] by (simp add: smeared_def v_def)
    also have "\<dots> \<longleftrightarrow> i \<le> k"
    proof
      assume "i \<le> k"
      then show "\<exists>j < 32. bit v (i + j)" using bit_top [OF k] k31 by (intro exI [of _ "k - i"]) auto
    next
      assume "\<exists>j < 32. bit v (i + j)"
      then show "i \<le> k" using bit_below [OF k(2)] by fastforce
    qed
    finally show ?thesis .
  qed
  have "next_power_of_two val - 1 = mask (Suc k)"
    using k31 by (intro bit_word_eqI) (auto simp: bits bit_mask_iff)
  then have "next_power_of_two val = 2 ^ Suc k" by (simp add: mask_eq_exp_minus_1 algebra_simps)
  then have n: "unat (next_power_of_two val) = 2 ^ Suc k"
    using k31 by (simp add: unat_exp_below del: power_Suc)
  have "Suc k \<le> j" if "unat val \<le> 2 ^ j" for j
  proof -
    have "2 ^ k < (2::nat) ^ j" using k(1) uv v(1) that by linarith
    then have "k < j" by (metis one_less_numeral_iff power_strict_increasing_iff semiring_norm(76))
    then show ?thesis by simp
  qed
  then show thesis using that [of "Suc k"] k31 n k(2) uv by simp
qed

section \<open>The table of watchers\<close>

text \<open>The watcher that the table holds for a descriptor; descriptors behind the table have none.\<close>

definition slot_at :: "io_loop \<Rightarrow> nat \<Rightarrow> wslot" where
  "slot_at l i = (if i < unat (il_nwatchers l) then il_watchers l ! i else Null_slot)"

definition registered :: "io_loop \<Rightarrow> io_addr \<Rightarrow> bool" where
  "registered l w \<longleftrightarrow> io_fd (il_io l w) \<ge> 0 \<and> slot_at l (nat (io_fd (il_io l w))) = Watch w"

definition unused :: "io_loop \<Rightarrow> io_addr \<Rightarrow> bool" where
  "unused l w \<longleftrightarrow> io_pevents (il_io l w) = 0 \<and> io_events (il_io l w) = 0 \<and>
     w \<notin> set (il_watcher_queue l) \<and> slot_at l (nat (io_fd (il_io l w))) = Null_slot"

definition good_slot :: "io_loop \<Rightarrow> nat \<Rightarrow> bool" where
  "good_slot l i \<longleftrightarrow> (case slot_at l i of
       Null_slot \<Rightarrow> True
     | Watch w \<Rightarrow> io_fd (il_io l w) = int i \<and> io_pevents (il_io l w) \<noteq> 0 \<and>
         (io_events (il_io l w) = io_pevents (il_io l w) \<or> w \<in> set (il_watcher_queue l))
     | Fake _ \<Rightarrow> False)"

definition table_sized :: "io_loop \<Rightarrow> bool" where
  "table_sized l \<longleftrightarrow> unat (il_nwatchers l) \<le> 2 ^ 31 - 2 \<and>
     (if il_watchers l = [] then il_nwatchers l = 0
      else length (il_watchers l) = unat (il_nwatchers l) + 2)"

definition io_inv :: "io_loop \<Rightarrow> bool" where
  "io_inv l \<longleftrightarrow> table_sized l \<and> (\<forall>i. good_slot l i) \<and>
     unat (il_nfds l) = card {i. slot_at l i \<noteq> Null_slot} \<and>
     distinct (il_watcher_queue l) \<and> (\<forall>w\<in>set (il_watcher_queue l). registered l w)"

lemma slots_finite: "finite {i. slot_at l i \<noteq> Null_slot}"
  by (rule finite_subset [of _ "{..<unat (il_nwatchers l)}"]) (auto simp: slot_at_def)

lemma slots_card: "card {i. slot_at l i \<noteq> Null_slot} \<le> unat (il_nwatchers l)"
proof -
  have "{i. slot_at l i \<noteq> Null_slot} \<subseteq> {..<unat (il_nwatchers l)}" by (auto simp: slot_at_def)
  then have "card {i. slot_at l i \<noteq> Null_slot} \<le> card {..<unat (il_nwatchers l)}"
    by (intro card_mono) simp_all
  then show ?thesis by simp
qed

lemma maybe_resize_correct:
  assumes sized: "table_sized l" and len: "unat len \<le> 2 ^ 31 - 2"
  obtains l' where "maybe_resize len True l = Some l'" "table_sized l'" "unat len \<le> unat (il_nwatchers l')"
    "slot_at l' = slot_at l"
    "il_io l' = il_io l" "il_nfds l' = il_nfds l" "il_watcher_queue l' = il_watcher_queue l"
    "il_pending l' = il_pending l" "il_pending_local l' = il_pending_local l"
proof (cases "len \<le> il_nwatchers l")
  case True
  then show thesis using that [of l] sized by (simp add: maybe_resize_def word_le_nat_alt)
next
  case False
  then have lt: "unat (il_nwatchers l) < unat len" by (simp add: word_le_nat_alt not_le)
  have len2: "unat (len + 2) = unat len + 2"
    by (subst unat_add_below) (use len in simp_all)
  have "0 < unat (len + 2)" "unat (len + 2) \<le> 2 ^ 31" unfolding len2 using len by simp_all
  then obtain k where k: "k \<le> 31" "unat (next_power_of_two (len + 2)) = 2 ^ k" "unat len + 2 \<le> 2 ^ k"
    unfolding len2 [symmetric] by (rule next_power_of_two_spec)
  define n where "n = next_power_of_two (len + 2) - 2"
  have "(2 :: u32) \<le> next_power_of_two (len + 2)" using k by (simp add: word_le_nat_alt)
  then have n: "unat n = 2 ^ k - 2" using k(2) by (simp add: n_def unat_sub)
  have "(2::nat) ^ k \<le> 2 ^ 31" using k(1) by (intro power_increasing) simp_all
  then have nk: "unat n \<le> 2 ^ 31 - 2" unfolding n by (rule diff_le_mono)
  define old where "old = unat (il_nwatchers l)"
  have len_n: "unat len \<le> unat n" and old_n: "old < unat n" using k(3) n lt old_def by auto
  obtain a b where fakes: "il_watchers l \<noteq> [] \<Longrightarrow> fetch (il_watchers l) old = Some a"
      "il_watchers l \<noteq> [] \<Longrightarrow> fetch (il_watchers l) (Suc old) = Some b"
      "il_watchers l = [] \<Longrightarrow> a = Null_slot \<and> b = Null_slot"
    using sized by (cases "il_watchers l = []") (auto simp: table_sized_def old_def)
  define ws where "ws = take old (il_watchers l) @ replicate (unat n - old) Null_slot @ [a, b]"
  let ?l = "l\<lparr>il_watchers := ws, il_nwatchers := n\<rparr>"
  have old_len: "length (take old (il_watchers l)) = old"
    using sized by (auto simp: table_sized_def old_def split: if_splits)
  have "maybe_resize len True l = Some ?l"
    using False fakes
    by (cases "il_watchers l = []") (simp_all add: maybe_resize_def old_def n_def ws_def Let_def)
  moreover have "table_sized ?l" using nk old_len old_n by (auto simp: table_sized_def ws_def)
  moreover have "slot_at ?l i = slot_at l i" for i
    using old_len old_n by (auto simp: slot_at_def ws_def nth_append old_def)
  ultimately show thesis using that [of ?l] len_n by auto
qed

lemma io_inv_requeue:
  assumes inv: "io_inv l" and reg: "registered l w" and sized: "table_sized l'"
    and slots: "slot_at l' = slot_at l" and nfds: "il_nfds l' = il_nfds l"
    and io: "il_io l' = (il_io l)(w := x)" "io_fd x = io_fd (il_io l w)" "io_pevents x \<noteq> 0"
    and q: "distinct (il_watcher_queue l')" "set (il_watcher_queue l') \<subseteq> insert w (set (il_watcher_queue l))"
      "set (il_watcher_queue l) \<subseteq> set (il_watcher_queue l')"
    and ev: "io_events x = io_pevents x \<or> w \<in> set (il_watcher_queue l')"
  shows "io_inv l'" "registered l' v = registered l v"
proof -
  have reg': "registered l' v = registered l v" for v by (simp add: registered_def slots io)
  then show "registered l' v = registered l v" .
  have "good_slot l' i" for i
  proof (cases "slot_at l i")
    case (Watch v)
    have "good_slot l i" using inv by (simp add: io_inv_def)
    then show ?thesis using Watch q(3) ev io by (auto simp: good_slot_def slots)
  qed (use inv in \<open>auto simp: io_inv_def good_slot_def slots split: wslot.splits\<close>)
  then show "io_inv l'" using inv q reg sized by (auto simp: io_inv_def nfds slots reg')
qed

lemma io_inv_register:
  assumes inv: "io_inv l" and un: "unused l w" and fd: "io_fd (il_io l w) \<ge> 0" and sized: "table_sized l'"
    and slots: "slot_at l' = (slot_at l)(nat (io_fd (il_io l w)) := Watch w)" and nfds: "il_nfds l' = il_nfds l + 1"
    and io: "il_io l' = (il_io l)(w := x)" "io_fd x = io_fd (il_io l w)" "io_pevents x \<noteq> 0"
    and q: "il_watcher_queue l' = il_watcher_queue l @ [w]"
  shows "io_inv l'" "registered l' v \<longleftrightarrow> v = w \<or> registered l v"
proof -
  let ?f = "nat (io_fd (il_io l w))"
  have free: "slot_at l ?f = Null_slot" and notq: "w \<notin> set (il_watcher_queue l)"
    using un by (auto simp: unused_def)
  have reg': "registered l' v \<longleftrightarrow> v = w \<or> registered l v" for v
    using free fd by (auto simp: registered_def slots io)
  then show "registered l' v \<longleftrightarrow> v = w \<or> registered l v" .
  have "good_slot l' i" for i
  proof (cases "i = ?f")
    case False
    have "good_slot l i" using inv by (simp add: io_inv_def)
    moreover have "slot_at l i \<noteq> Watch w"
      using \<open>good_slot l i\<close> False by (auto simp: good_slot_def)
    ultimately show ?thesis using False by (auto simp: good_slot_def slots io q split: wslot.splits)
  qed (use fd io q in \<open>auto simp: good_slot_def slots\<close>)
  moreover have "{i. slot_at l' i \<noteq> Null_slot} = insert ?f {i. slot_at l i \<noteq> Null_slot}"
    by (auto simp: slots)
  then have "card {i. slot_at l' i \<noteq> Null_slot} = card {i. slot_at l i \<noteq> Null_slot} + 1"
    using slots_finite free by simp
  moreover have "unat (il_nfds l + 1) = unat (il_nfds l) + 1"
    using inv slots_card [of l] by (subst unat_add_below) (auto simp: io_inv_def table_sized_def)
  ultimately show "io_inv l'" using inv notq sized by (auto simp: io_inv_def nfds q reg')
qed

lemma io_inv_unregister:
  assumes inv: "io_inv l" and reg: "registered l w" and sized: "table_sized l'"
    and slots: "slot_at l' = (slot_at l)(nat (io_fd (il_io l w)) := Null_slot)" and nfds: "il_nfds l' = il_nfds l - 1"
    and io: "il_io l' = (il_io l)(w := x)" "io_fd x = io_fd (il_io l w)"
    and q: "il_watcher_queue l' = removeAll w (il_watcher_queue l)"
  shows "io_inv l'" "registered l' v \<longleftrightarrow> v \<noteq> w \<and> registered l v"
proof -
  let ?f = "nat (io_fd (il_io l w))"
  have here: "slot_at l ?f = Watch w" "io_fd (il_io l w) \<ge> 0" using reg by (auto simp: registered_def)
  have reg': "registered l' v \<longleftrightarrow> v \<noteq> w \<and> registered l v" for v
    using here by (auto simp: registered_def slots io)
  then show "registered l' v \<longleftrightarrow> v \<noteq> w \<and> registered l v" .
  have "good_slot l' i" for i
  proof (cases "i = ?f")
    case False
    have "good_slot l i" using inv by (simp add: io_inv_def)
    moreover have "slot_at l i \<noteq> Watch w"
      using \<open>good_slot l i\<close> False by (auto simp: good_slot_def)
    ultimately show ?thesis using False by (auto simp: good_slot_def slots io q split: wslot.splits)
  qed (simp add: good_slot_def slots)
  moreover have eq: "{i. slot_at l i \<noteq> Null_slot} = insert ?f {i. slot_at l' i \<noteq> Null_slot}"
    using here by (auto simp: slots)
  then have card: "card {i. slot_at l i \<noteq> Null_slot} = card {i. slot_at l' i \<noteq> Null_slot} + 1"
    using slots_finite [of l'] by (simp add: slots)
  moreover have "unat (il_nfds l - 1) = unat (il_nfds l) - 1"
    using inv card by (intro unat_minus_one) (auto simp: io_inv_def)
  ultimately show "io_inv l'" using inv sized by (auto simp: io_inv_def nfds q reg' distinct_removeAll)
qed

section \<open>Starting and stopping a watcher\<close>

lemma set_io_simps [simp]:
  "il_io (set_io w f l) = (il_io l)(w := f (il_io l w))" "il_watchers (set_io w f l) = il_watchers l"
  "il_nwatchers (set_io w f l) = il_nwatchers l" "il_nfds (set_io w f l) = il_nfds l"
  "il_watcher_queue (set_io w f l) = il_watcher_queue l" "il_pending (set_io w f l) = il_pending l"
  "il_pending_local (set_io w f l) = il_pending_local l" "table_sized (set_io w f l) = table_sized l"
  "slot_at (set_io w f l) = slot_at l"
  by (simp_all add: set_io_def table_sized_def slot_at_def fun_eq_iff)

lemma queue_slots [simp]:
  "slot_at (l\<lparr>il_watcher_queue := q\<rparr>) = slot_at l" "table_sized (l\<lparr>il_watcher_queue := q\<rparr>) = table_sized l"
  by (simp_all add: slot_at_def table_sized_def fun_eq_iff)

lemma fetch_slot:
  assumes "table_sized l" "i < unat (il_nwatchers l)"
  shows "fetch (il_watchers l) i = Some (slot_at l i)" "i < length (il_watchers l)"
  using assms by (auto simp: table_sized_def slot_at_def split: if_splits)

lemma slot_at_store:
  assumes "table_sized l" "i < unat (il_nwatchers l)"
  shows "slot_at (l\<lparr>il_watchers := (il_watchers l)[i := x], il_nfds := n\<rparr>) = (slot_at l)(i := x)"
    "table_sized (l\<lparr>il_watchers := (il_watchers l)[i := x], il_nfds := n\<rparr>)"
  using assms fetch_slot(2) [OF assms] by (auto simp: slot_at_def table_sized_def fun_eq_iff)

lemma io_inv_queue: "io_inv l \<Longrightarrow> distinct (il_watcher_queue l)"
  by (simp add: io_inv_def)

lemma or_zero_right: "v \<noteq> 0 \<Longrightarrow> p OR (v :: 'a::len word) \<noteq> 0"
  by (metis or.right_neutral or_eq_0_iff)

text \<open>
  C15: Starting a watcher that is unused or already registered, on a descriptor below the
  limit of the table, succeeds and keeps the invariant of the table: the slot of the descriptor
  holds the watcher, its interest set is the old one joined with the events, an update of the
  kernel is queued if the interest differs from what the kernel knows, and no other watcher changes.
\<close>

theorem io_start_registers:
  assumes inv: "io_inv l" and w: "unused l w \<or> registered l w"
    and fd: "0 \<le> io_fd (il_io l w)" "io_fd (il_io l w) \<le> 2 ^ 31 - 3" and ev: "valid_events events"
  shows "\<exists>l'. uv_io_start w events True l = Some l' \<and> io_inv l' \<and> registered l' w \<and>
    io_pevents (il_io l' w) = io_pevents (il_io l w) OR events \<and>
    (io_events (il_io l' w) \<noteq> io_pevents (il_io l' w) \<longrightarrow> w \<in> set (il_watcher_queue l')) \<and>
    (\<forall>v. v \<noteq> w \<longrightarrow> il_io l' v = il_io l v \<and> registered l' v = registered l v)"
proof -
  define f where "f = nat (io_fd (il_io l w))"
  define x where "x = (il_io l w)\<lparr>io_pevents := io_pevents (il_io l w) OR events\<rparr>"
  define l1 where "l1 = set_io w (io_pevents_update (\<lambda>p. p OR events)) l"
  have px: "io_pevents x \<noteq> 0" using ev by (simp add: x_def valid_events_def or_zero_right)
  have sized: "table_sized l1" using inv by (simp add: l1_def io_inv_def)
  have fn: "int f = io_fd (il_io l w)" using fd by (simp add: f_def)
  have len: "unat (of_int (io_fd (il_io l w) + 1) :: u32) = f + 1"
  proof -
    have "of_int (io_fd (il_io l w) + 1) = (of_nat (f + 1) :: u32)" unfolding fn [symmetric] by simp
    moreover have "unat (of_nat (f + 1) :: u32) = f + 1"
      by (rule unat_of_nat_id) (use fd fn in simp)
    ultimately show ?thesis by metis
  qed
  obtain l2 where l2: "maybe_resize (of_int (io_fd (il_io l w) + 1)) True l1 = Some l2" "table_sized l2"
      "f < unat (il_nwatchers l2)" "slot_at l2 = slot_at l1" "il_io l2 = il_io l1" "il_nfds l2 = il_nfds l1"
      "il_watcher_queue l2 = il_watcher_queue l1"
    by (rule maybe_resize_correct [OF sized, of "of_int (io_fd (il_io l w) + 1)"]) (use len fd fn in auto)
  have "io_pevents_update (\<lambda>p. p OR events) (il_io l w) = x" by (cases "il_io l w") (simp add: x_def)
  then have io: "il_io l2 = (il_io l)(w := x)" by (simp add: l2 l1_def)
  have x: "io_fd x = io_fd (il_io l w)" "io_events x = io_events (il_io l w)" by (simp_all add: x_def)
  define q where "q = (if w \<in> set (il_watcher_queue l) then il_watcher_queue l else il_watcher_queue l @ [w])"
  define l3 where "l3 = l2\<lparr>il_watcher_queue := q\<rparr>"
  have l3: "table_sized l3" "slot_at l3 = slot_at l" "il_nwatchers l3 = il_nwatchers l2" "il_io l3 = il_io l2"
      "il_nfds l3 = il_nfds l" "il_watcher_queue l3 = q"
    using l2 by (simp_all add: l3_def l1_def)
  have run: "uv_io_start w events True l = (if io_events x = io_pevents x then Some l2
      else if slot_at l f = Null_slot
      then Some (l3\<lparr>il_watchers := (il_watchers l3)[f := Watch w], il_nfds := il_nfds l3 + 1\<rparr>) else Some l3)"
  proof -
    have "maybe_resize (word_of_int (io_fd (il_io l w)) + 1) True l1 = Some l2" using l2(1) by simp
    moreover have "queue_watcher w l2 = l3" by (simp add: queue_watcher_def l3_def q_def l2(7) l1_def)
    moreover have "io_fd (il_io l1 w) = io_fd (il_io l w)" by (simp add: l1_def)
    moreover have "nat (io_fd x) = f" by (simp add: x f_def)
    ultimately show ?thesis
      using fetch_slot [OF l3(1), of f] l2(3) ev fd
      by (simp add: uv_io_start_def l1_def [symmetric] io Let_def l3)
  qed
  have q: "distinct q" "set q \<subseteq> insert w (set (il_watcher_queue l))" "set (il_watcher_queue l) \<subseteq> set q"
    "w \<in> set q" using inv by (auto simp: q_def io_inv_def)
  have pe: "io_pevents x = io_pevents (il_io l w) OR events" by (simp add: x_def)
  show ?thesis
  proof (cases "registered l w")
    case True
    then have "slot_at l f \<noteq> Null_slot" by (simp add: registered_def f_def)
    have "io_inv l2" "registered l2 v = registered l v" if "io_events x = io_pevents x" for v
      using io_inv_requeue [OF inv True l2(2) _ _ io x(1) px] that io_inv_queue [OF inv] l2
      by (simp_all add: l1_def subset_insertI)
    moreover have "io_inv l3" "registered l3 v = registered l v" for v
      using io_inv_requeue [OF inv True l3(1,2,5) _ x(1) px, unfolded l3(4,6), OF io q(1-3)] q(4) by simp_all
    ultimately show ?thesis
      using \<open>slot_at l f \<noteq> Null_slot\<close> True l3 by (simp add: run io pe q(4))
  next
    case False
    then have un: "unused l w" using w by simp
    then have free: "slot_at l f = Null_slot" "io_events x \<noteq> io_pevents x" "q = il_watcher_queue l @ [w]"
      using px by (auto simp: unused_def f_def x_def q_def)
    let ?l = "l3\<lparr>il_watchers := (il_watchers l3)[f := Watch w], il_nfds := il_nfds l3 + 1\<rparr>"
    have l: "table_sized ?l" "slot_at ?l = (slot_at l)(nat (io_fd (il_io l w)) := Watch w)" "il_nfds ?l = il_nfds l + 1"
        "il_io ?l = (il_io l)(w := x)" "il_watcher_queue ?l = il_watcher_queue l @ [w]"
      using l3 l2(3) slot_at_store [OF l3(1), of f] free(3) by (simp_all add: io f_def)
    have "io_inv ?l" "registered ?l v \<longleftrightarrow> v = w \<or> registered l v" for v
      by (rule io_inv_register [OF inv un fd(1) l(1-4) x(1) px l(5)])+
    then show ?thesis using free by (simp add: run io pe l3 q(4))
  qed
qed

definition idle_loop :: "io_loop" where
  "idle_loop = \<lparr>il_io = (\<lambda>_. \<lparr>io_cb = Uv_poll_io, io_fd = 5, io_events = 0, io_pevents = 0\<rparr>),
     il_watchers = [], il_nwatchers = 0, il_nfds = 0, il_watcher_queue = [], il_pending = [],
     il_pending_local = []\<rparr>"

lemma idle_loop_inv: "io_inv idle_loop" "unused idle_loop w"
  by (simp_all add: io_inv_def idle_loop_def table_sized_def good_slot_def slot_at_def unused_def)

theorem io_start_registers_witness:
  "io_inv idle_loop \<and> (\<exists>l'. uv_io_start (Handle_io 0) POLLIN True idle_loop = Some l' \<and> io_inv l' \<and>
    registered l' (Handle_io 0))"
proof -
  have "valid_events POLLIN" by code_simp
  moreover have "0 \<le> io_fd (il_io idle_loop (Handle_io 0))" "io_fd (il_io idle_loop (Handle_io 0)) \<le> 2 ^ 31 - 3"
    by (simp_all add: idle_loop_def)
  ultimately show ?thesis using idle_loop_inv io_start_registers [of idle_loop "Handle_io 0" POLLIN] by blast
qed

lemma queue_watcher_simps [simp]:
  "slot_at (queue_watcher w l) = slot_at l" "table_sized (queue_watcher w l) = table_sized l"
  "il_io (queue_watcher w l) = il_io l" "il_nfds (queue_watcher w l) = il_nfds l"
  "set (il_watcher_queue (queue_watcher w l)) = insert w (set (il_watcher_queue l))"
  "distinct (il_watcher_queue (queue_watcher w l)) = distinct (il_watcher_queue l)"
  by (auto simp: queue_watcher_def)

lemma and_zero_left: "(0 :: 'a::len word) AND v = 0" by simp

text \<open>
  C14: Stopping events of a watcher succeeds and keeps the invariant of the table: the events
  leave its interest set; with no interest left the watcher gives up its slot, leaves the queue of
  updates and is unused, otherwise it keeps the slot and an update of the kernel is queued.
  No other watcher changes.
\<close>

theorem io_stop_unregisters:
  assumes inv: "io_inv l" and w: "unused l w \<or> registered l w"
    and fd: "0 \<le> io_fd (il_io l w)" "io_fd (il_io l w) \<le> 2 ^ 31 - 3" and ev: "valid_events events"
  shows "\<exists>l'. uv_io_stop w events l = Some l' \<and> io_inv l' \<and>
    io_pevents (il_io l' w) = io_pevents (il_io l w) AND NOT events \<and>
    (if io_pevents (il_io l' w) = 0 then unused l' w else registered l' w \<and> w \<in> set (il_watcher_queue l')) \<and>
    (\<forall>v. v \<noteq> w \<longrightarrow> il_io l' v = il_io l v \<and> registered l' v = registered l v)"
proof -
  define f where "f = nat (io_fd (il_io l w))"
  define x where "x = (il_io l w)\<lparr>io_pevents := io_pevents (il_io l w) AND NOT events\<rparr>"
  define l1 where "l1 = set_io w (io_pevents_update (\<lambda>p. p AND NOT events)) l"
  define l2 where "l2 = l1\<lparr>il_watcher_queue := removeAll w (il_watcher_queue l1)\<rparr>"
  have fn: "of_int (io_fd (il_io l w)) = (of_nat f :: u32)" using fd by (simp add: f_def)
  have uf: "unat (of_nat f :: u32) = f" by (rule unat_of_nat_id) (use fd in \<open>simp add: f_def\<close>)
  have sized: "table_sized l" "table_sized l2" using inv by (simp_all add: io_inv_def l1_def l2_def)
  have x: "io_fd x = io_fd (il_io l w)" "io_events x = io_events (il_io l w)" by (simp_all add: x_def)
  have "io_pevents_update (\<lambda>p. p AND NOT events) (il_io l w) = x" by (cases "il_io l w") (simp add: x_def)
  then have io: "il_io l1 = (il_io l)(w := x)" by (simp add: l1_def)
  have l2: "slot_at l2 = slot_at l" "il_nfds l2 = il_nfds l" "il_nwatchers l2 = il_nwatchers l"
        "il_io l2 = (il_io l)(w := x)" "il_watcher_queue l2 = removeAll w (il_watcher_queue l)"
      using io by (simp_all add: l2_def l1_def)
  have out: "uv_io_stop w events l = Some l" if "\<not> f < unat (il_nwatchers l)"
    using that ev fd by (simp add: uv_io_stop_def fn [simplified] word_le_nat_alt uf)
  have run: "uv_io_stop w events l = (if io_pevents x = 0
      then if slot_at l f = Null_slot then Some l2
        else do { assert_c (slot_at l f = Watch w); assert_c (il_nfds l > 0);
          Some (set_io w (io_events_update (\<lambda>_. 0))
            (l2\<lparr>il_watchers := (il_watchers l2)[f := Null_slot], il_nfds := il_nfds l2 - 1\<rparr>)) }
      else Some (queue_watcher w l1))" if "f < unat (il_nwatchers l)"
    using that ev fd fetch_slot [OF sized(2), of f]
    by (simp add: uv_io_stop_def fn [simplified] word_le_nat_alt uf l1_def [symmetric] l2_def [symmetric] io l2 x
        f_def [symmetric] Let_def)
  show ?thesis
  proof (cases "registered l w")
    case True
    then have here: "f < unat (il_nwatchers l)" "slot_at l f = Watch w"
      by (auto simp: registered_def f_def slot_at_def split: if_splits)
    show ?thesis
    proof (cases "io_pevents x = 0")
      case False
      have "io_inv (queue_watcher w l1)" "registered (queue_watcher w l1) v = registered l v" for v
        using io_inv_requeue [OF inv True, of "queue_watcher w l1" x] io x(1) False io_inv_queue [OF inv] sized
        by (auto simp: l1_def)
      then show ?thesis using run here False True io by (simp add: x_def)
    next
      case zero: True
      let ?l = "set_io w (io_events_update (\<lambda>_. 0))
        (l2\<lparr>il_watchers := (il_watchers l2)[f := Null_slot], il_nfds := il_nfds l2 - 1\<rparr>)"
      let ?y = "x\<lparr>io_events := 0\<rparr>"
      have l: "table_sized ?l" "slot_at ?l = (slot_at l)(nat (io_fd (il_io l w)) := Null_slot)"
          "il_nfds ?l = il_nfds l - 1" "il_io ?l = (il_io l)(w := ?y)"
          "il_watcher_queue ?l = removeAll w (il_watcher_queue l)"
        using slot_at_store [OF sized(2), of f] here by (simp_all add: l2 f_def)
      have "il_nfds l \<noteq> 0" using inv here slots_finite [of l] by (auto simp: io_inv_def)
      then have "uv_io_stop w events l = Some ?l" using run here zero l2 by (simp add: word_gt_0)
      moreover have "io_inv ?l" "registered ?l v \<longleftrightarrow> v \<noteq> w \<and> registered l v" for v
        by (rule io_inv_unregister [OF inv True l(1-4) _ l(5)]; simp add: x)+
      moreover have "unused ?l w" unfolding unused_def l by (simp add: zero x)
      moreover have "io_pevents x = io_pevents (il_io l w) AND NOT events" by (simp add: x_def)
      ultimately show ?thesis using l(4) zero by (simp del: set_io_simps)
    qed
  next
    case False
    then have un: "unused l w" using w by simp
    then have "slot_at l f = Null_slot" "io_pevents x = 0" "io_pevents (il_io l w) = 0" "x = il_io l w"
      by (simp_all add: unused_def f_def x_def)
    moreover have "w \<notin> set (il_watcher_queue l)" using un by (simp add: unused_def)
    then have "l2 = l" using io \<open>x = il_io l w\<close> by (simp add: l2_def l1_def set_io_def)
    ultimately have "uv_io_stop w events l = Some l" using run out by (cases "f < unat (il_nwatchers l)") simp_all
    then show ?thesis using inv un by (simp add: unused_def)
  qed
qed

theorem io_stop_unregisters_witness:
  "io_inv idle_loop \<and> (\<exists>l'. uv_io_stop (Handle_io 0) POLLIN idle_loop = Some l' \<and> io_inv l')"
proof -
  have "valid_events POLLIN" by code_simp
  moreover have "0 \<le> io_fd (il_io idle_loop (Handle_io 0))" "io_fd (il_io idle_loop (Handle_io 0)) \<le> 2 ^ 31 - 3"
    by (simp_all add: idle_loop_def)
  ultimately show ?thesis using idle_loop_inv io_stop_unregisters [of idle_loop "Handle_io 0" POLLIN] by blast
qed

end
