(* ===== verification/Uv_Handle.thy ===== *)
theory Uv_Handle
  imports Uv_Heap Uv_Errno Uv_Io
begin

text \<open>
  Handles and the loop of libuv: the flags and the reference counting macros of
  \<open>uv-common.h\<close>.

  One loop is modelled. Handles are addresses; a record of type \<open>uv_sys\<close> holds the handles
  and the loop. The queues of the loop are lists of handles, which the theory \<open>Uv_Queue\<close>
  justifies; the timer heap is the pointer heap of \<open>Uv_Heap\<close>, whose nodes carry the address
  of their timer. Callbacks are identified by numbers; what a callback does to the system is
  the argument \<open>cbs\<close> of the functions that run callbacks, and every call is recorded in
  \<open>us_trace\<close>.
\<close>

section \<open>Data\<close>

datatype handle_type =
  UV_ASYNC | UV_CHECK | UV_FS_EVENT | UV_FS_POLL | UV_IDLE | UV_NAMED_PIPE | UV_POLL
  | UV_PREPARE | UV_PROCESS | UV_TCP | UV_TIMER | UV_TTY | UV_UDP | UV_SIGNAL | UV_UNKNOWN_HANDLE

record uv_handle =
  uh_type :: handle_type
  uh_flags :: u32
  uh_next_closing :: "nat option"
  uh_close_cb :: "nat option"
  uh_timer_cb :: "nat option"
  uh_timeout :: u64
  uh_repeat :: u64
  uh_start_id :: u64
  uh_watch_cb :: "nat option"
  uh_caught_signals :: u32
  uh_dispatched_signals :: u32

record uv_sys =
  us_handles :: "nat \<Rightarrow> uv_handle"
  us_timer_heap :: "nat uv_heap"
  us_time :: u64
  us_timer_counter :: u64
  us_active_handles :: u32
  us_active_reqs :: u32
  us_closing_handles :: "nat option"
  us_stop_flag :: bool
  us_handle_queue :: "nat list"
  us_idle :: "nat list"
  us_prepare :: "nat list"
  us_check :: "nat list"
  us_running :: "nat list"
  us_io :: io_loop
  us_async_handles :: "nat list"
  us_poll_trace :: "(nat \<times> int \<times> u32) list"
  us_trace :: "(nat \<times> nat) list"

type_synonym cb_sem = "nat \<Rightarrow> nat \<Rightarrow> uv_sys \<Rightarrow> uv_sys option"

definition UV_HANDLE_CLOSING :: u32 where "UV_HANDLE_CLOSING = 0x1"
definition UV_HANDLE_CLOSED :: u32 where "UV_HANDLE_CLOSED = 0x2"
definition UV_HANDLE_ACTIVE :: u32 where "UV_HANDLE_ACTIVE = 0x4"
definition UV_HANDLE_REF :: u32 where "UV_HANDLE_REF = 0x8"

definition INT_MAX :: u64 where
  "INT_MAX = 0x7fffffff"

section \<open>Handles\<close>

definition set_handle :: "nat \<Rightarrow> (uv_handle \<Rightarrow> uv_handle) \<Rightarrow> uv_sys \<Rightarrow> uv_sys" where
  "set_handle h f s = s\<lparr>us_handles := (us_handles s)(h := f (us_handles s h))\<rparr>"

definition has_flag :: "uv_sys \<Rightarrow> nat \<Rightarrow> u32 \<Rightarrow> bool" where
  "has_flag s h fl \<longleftrightarrow> uh_flags (us_handles s h) AND fl \<noteq> 0"

definition flag_on :: "nat \<Rightarrow> u32 \<Rightarrow> uv_sys \<Rightarrow> uv_sys" where
  "flag_on h fl = set_handle h (uh_flags_update (\<lambda>x. x OR fl))"

definition flag_off :: "nat \<Rightarrow> u32 \<Rightarrow> uv_sys \<Rightarrow> uv_sys" where
  "flag_off h fl = set_handle h (uh_flags_update (\<lambda>x. x AND NOT fl))"

definition uv_is_active :: "uv_sys \<Rightarrow> nat \<Rightarrow> bool" where
  "uv_is_active s h \<longleftrightarrow> has_flag s h UV_HANDLE_ACTIVE"

definition uv_is_closing :: "uv_sys \<Rightarrow> nat \<Rightarrow> bool" where
  "uv_is_closing s h \<longleftrightarrow> has_flag s h (UV_HANDLE_CLOSING OR UV_HANDLE_CLOSED)"

definition active_handle_add :: "uv_sys \<Rightarrow> uv_sys" where
  "active_handle_add s = s\<lparr>us_active_handles := us_active_handles s + 1\<rparr>"

definition active_handle_rm :: "uv_sys \<Rightarrow> uv_sys" where
  "active_handle_rm s = s\<lparr>us_active_handles := us_active_handles s - 1\<rparr>"

definition handle_start :: "nat \<Rightarrow> uv_sys \<Rightarrow> uv_sys" where
  "handle_start h s =
     (if has_flag s h UV_HANDLE_ACTIVE then s
      else let s1 = flag_on h UV_HANDLE_ACTIVE s
           in if has_flag s1 h UV_HANDLE_REF then active_handle_add s1 else s1)"

definition handle_stop :: "nat \<Rightarrow> uv_sys \<Rightarrow> uv_sys" where
  "handle_stop h s =
     (if \<not> has_flag s h UV_HANDLE_ACTIVE then s
      else let s1 = flag_off h UV_HANDLE_ACTIVE s
           in if has_flag s1 h UV_HANDLE_REF then active_handle_rm s1 else s1)"

definition handle_ref :: "nat \<Rightarrow> uv_sys \<Rightarrow> uv_sys" where
  "handle_ref h s =
     (if has_flag s h UV_HANDLE_REF then s
      else let s1 = flag_on h UV_HANDLE_REF s
           in if has_flag s1 h UV_HANDLE_CLOSING then s1
              else if has_flag s1 h UV_HANDLE_ACTIVE then active_handle_add s1 else s1)"

definition handle_unref :: "nat \<Rightarrow> uv_sys \<Rightarrow> uv_sys" where
  "handle_unref h s =
     (if \<not> has_flag s h UV_HANDLE_REF then s
      else let s1 = flag_off h UV_HANDLE_REF s
           in if has_flag s1 h UV_HANDLE_CLOSING then s1
              else if has_flag s1 h UV_HANDLE_ACTIVE then active_handle_rm s1 else s1)"

definition handle_init :: "nat \<Rightarrow> handle_type \<Rightarrow> uv_sys \<Rightarrow> uv_sys" where
  "handle_init h ty s =
     (let s1 = set_handle h (\<lambda>x. x\<lparr>uh_type := ty, uh_flags := UV_HANDLE_REF\<rparr>) s;
          s2 = s1\<lparr>us_handle_queue := us_handle_queue s1 @ [h]\<rparr>
      in set_handle h (uh_next_closing_update (\<lambda>_. None)) s2)"

definition has_active_handles :: "uv_sys \<Rightarrow> bool" where
  "has_active_handles s \<longleftrightarrow> us_active_handles s > 0"

definition has_active_reqs :: "uv_sys \<Rightarrow> bool" where
  "has_active_reqs s \<longleftrightarrow> us_active_reqs s > 0"

text \<open>A callback runs; it sees the state with its call recorded.\<close>

definition run_cb :: "cb_sem \<Rightarrow> nat \<Rightarrow> nat \<Rightarrow> uv_sys \<Rightarrow> uv_sys option" where
  "run_cb cbs cb h s = cbs cb h (s\<lparr>us_trace := us_trace s @ [(cb, h)]\<rparr>)"

section \<open>Flags and reference counting\<close>

lemma and_exp_nonzero:
  assumes "k < 32"
  shows "(w :: u32) AND 2 ^ k \<noteq> 0 \<longleftrightarrow> bit w k"
proof -
  have "bit (w AND 2 ^ k) i \<longleftrightarrow> i = k \<and> bit w k" for i
    using assms by (auto simp: bit_and_iff bit_exp_iff)
  then show ?thesis by (metis bit_0_eq bot_apply bot_bool_def bit_eqI)
qed

lemma flag_exps:
  "UV_HANDLE_CLOSING = 2 ^ 0" "UV_HANDLE_CLOSED = 2 ^ 1" "UV_HANDLE_ACTIVE = 2 ^ 2" "UV_HANDLE_REF = 2 ^ 3"
  by (simp_all add: UV_HANDLE_CLOSING_def UV_HANDLE_CLOSED_def UV_HANDLE_ACTIVE_def UV_HANDLE_REF_def)

lemma has_flag_exp: "k < 32 \<Longrightarrow> has_flag s h (2 ^ k) \<longleftrightarrow> bit (uh_flags (us_handles s h)) k"
  by (simp add: has_flag_def and_exp_nonzero)

lemma flag_on_exp:
  "k < 32 \<Longrightarrow> l < 32 \<Longrightarrow> has_flag (flag_on h (2 ^ l) s) g (2 ^ k) \<longleftrightarrow> g = h \<and> k = l \<or> has_flag s g (2 ^ k)"
  by (auto simp: has_flag_exp flag_on_def set_handle_def bit_or_iff bit_exp_iff)

lemma flag_off_exp:
  "k < 32 \<Longrightarrow> l < 32 \<Longrightarrow> has_flag (flag_off h (2 ^ l) s) g (2 ^ k) \<longleftrightarrow> \<not> (g = h \<and> k = l) \<and> has_flag s g (2 ^ k)"
  by (auto simp: has_flag_exp flag_off_def set_handle_def bit_and_iff bit_not_iff bit_exp_iff)

named_theorems flags "the flags of a handle after an update"

lemma flag_updates [flags]:
  "has_flag (flag_on h UV_HANDLE_ACTIVE s) g UV_HANDLE_ACTIVE \<longleftrightarrow> g = h \<or> has_flag s g UV_HANDLE_ACTIVE"
  "has_flag (flag_on h UV_HANDLE_ACTIVE s) g UV_HANDLE_REF \<longleftrightarrow> has_flag s g UV_HANDLE_REF"
  "has_flag (flag_on h UV_HANDLE_ACTIVE s) g UV_HANDLE_CLOSING \<longleftrightarrow> has_flag s g UV_HANDLE_CLOSING"
  "has_flag (flag_on h UV_HANDLE_ACTIVE s) g UV_HANDLE_CLOSED \<longleftrightarrow> has_flag s g UV_HANDLE_CLOSED"
  "has_flag (flag_on h UV_HANDLE_REF s) g UV_HANDLE_REF \<longleftrightarrow> g = h \<or> has_flag s g UV_HANDLE_REF"
  "has_flag (flag_on h UV_HANDLE_REF s) g UV_HANDLE_ACTIVE \<longleftrightarrow> has_flag s g UV_HANDLE_ACTIVE"
  "has_flag (flag_on h UV_HANDLE_REF s) g UV_HANDLE_CLOSING \<longleftrightarrow> has_flag s g UV_HANDLE_CLOSING"
  "has_flag (flag_on h UV_HANDLE_CLOSING s) g UV_HANDLE_CLOSING \<longleftrightarrow> g = h \<or> has_flag s g UV_HANDLE_CLOSING"
  "has_flag (flag_on h UV_HANDLE_CLOSING s) g UV_HANDLE_CLOSED \<longleftrightarrow> has_flag s g UV_HANDLE_CLOSED"
  "has_flag (flag_on h UV_HANDLE_CLOSING s) g UV_HANDLE_ACTIVE \<longleftrightarrow> has_flag s g UV_HANDLE_ACTIVE"
  "has_flag (flag_on h UV_HANDLE_CLOSING s) g UV_HANDLE_REF \<longleftrightarrow> has_flag s g UV_HANDLE_REF"
  "has_flag (flag_on h UV_HANDLE_CLOSED s) g UV_HANDLE_CLOSED \<longleftrightarrow> g = h \<or> has_flag s g UV_HANDLE_CLOSED"
  "has_flag (flag_on h UV_HANDLE_CLOSED s) g UV_HANDLE_CLOSING \<longleftrightarrow> has_flag s g UV_HANDLE_CLOSING"
  "has_flag (flag_on h UV_HANDLE_CLOSED s) g UV_HANDLE_ACTIVE \<longleftrightarrow> has_flag s g UV_HANDLE_ACTIVE"
  "has_flag (flag_on h UV_HANDLE_CLOSED s) g UV_HANDLE_REF \<longleftrightarrow> has_flag s g UV_HANDLE_REF"
  "has_flag (flag_off h UV_HANDLE_ACTIVE s) g UV_HANDLE_ACTIVE \<longleftrightarrow> g \<noteq> h \<and> has_flag s g UV_HANDLE_ACTIVE"
  "has_flag (flag_off h UV_HANDLE_ACTIVE s) g UV_HANDLE_REF \<longleftrightarrow> has_flag s g UV_HANDLE_REF"
  "has_flag (flag_off h UV_HANDLE_ACTIVE s) g UV_HANDLE_CLOSING \<longleftrightarrow> has_flag s g UV_HANDLE_CLOSING"
  "has_flag (flag_off h UV_HANDLE_ACTIVE s) g UV_HANDLE_CLOSED \<longleftrightarrow> has_flag s g UV_HANDLE_CLOSED"
  "has_flag (flag_off h UV_HANDLE_REF s) g UV_HANDLE_REF \<longleftrightarrow> g \<noteq> h \<and> has_flag s g UV_HANDLE_REF"
  "has_flag (flag_off h UV_HANDLE_REF s) g UV_HANDLE_ACTIVE \<longleftrightarrow> has_flag s g UV_HANDLE_ACTIVE"
  "has_flag (flag_off h UV_HANDLE_REF s) g UV_HANDLE_CLOSING \<longleftrightarrow> has_flag s g UV_HANDLE_CLOSING"
  "has_flag (flag_off h UV_HANDLE_REF s) g UV_HANDLE_CLOSED \<longleftrightarrow> has_flag s g UV_HANDLE_CLOSED"
  unfolding flag_exps by (simp_all only: flag_on_exp flag_off_exp numeral_eq_iff num.simps simp_thms
      one_less_numeral_iff numeral_less_iff less_num_simps zero_less_numeral zero_neq_numeral
      numeral_neq_zero one_eq_numeral_iff numeral_eq_one_iff zero_neq_one one_neq_zero)

lemma set_handle_sel [simp]:
  "us_handles (set_handle h f s) = (us_handles s)(h := f (us_handles s h))"
  "us_timer_heap (set_handle h f s) = us_timer_heap s"
  "us_time (set_handle h f s) = us_time s"
  "us_timer_counter (set_handle h f s) = us_timer_counter s"
  "us_active_handles (set_handle h f s) = us_active_handles s"
  "us_active_reqs (set_handle h f s) = us_active_reqs s"
  "us_closing_handles (set_handle h f s) = us_closing_handles s"
  "us_handle_queue (set_handle h f s) = us_handle_queue s"
  "us_idle (set_handle h f s) = us_idle s" "us_prepare (set_handle h f s) = us_prepare s"
  "us_check (set_handle h f s) = us_check s" "us_running (set_handle h f s) = us_running s"
  "us_trace (set_handle h f s) = us_trace s"
  by (simp_all add: set_handle_def)

lemma flag_count [simp]:
  "us_active_handles (flag_on h fl s) = us_active_handles s"
  "us_active_handles (flag_off h fl s) = us_active_handles s"
  by (simp_all add: flag_on_def flag_off_def)

text \<open>\<open>only_flags h s s'\<close>: the step changed the flags of \<open>h\<close> and the count of active handles.\<close>

definition only_flags :: "nat \<Rightarrow> uv_sys \<Rightarrow> uv_sys \<Rightarrow> bool" where
  "only_flags h s s' \<longleftrightarrow>
     (\<exists>fl n. s' = s\<lparr>us_handles := (us_handles s)(h := (us_handles s h)\<lparr>uh_flags := fl\<rparr>),
                   us_active_handles := n\<rparr>)"

lemma only_flagsI:
  "s' = s\<lparr>us_handles := (us_handles s)(h := (us_handles s h)\<lparr>uh_flags := fl\<rparr>), us_active_handles := n\<rparr> \<Longrightarrow>
   only_flags h s s'"
  unfolding only_flags_def by blast

lemma flags_update_const: "uh_flags_update f r = r\<lparr>uh_flags := f (uh_flags r)\<rparr>"
  by (cases r) simp

lemma active_update_same: "s\<lparr>us_handles := hs\<rparr> = s\<lparr>us_handles := hs, us_active_handles := us_active_handles s\<rparr>"
  by (cases s) simp

lemma only_flags_on: "only_flags h s (flag_on h fl s)" "only_flags h s (flag_off h fl s)"
  unfolding flag_on_def flag_off_def set_handle_def
  by (rule only_flagsI, subst flags_update_const, rule active_update_same)+

lemma only_flags_refl: "only_flags h s s"
  unfolding only_flags_def
  by (rule exI [of _ "uh_flags (us_handles s h)"], rule exI [of _ "us_active_handles s"]) simp

lemma only_flags_count:
  "only_flags h s s' \<Longrightarrow> only_flags h s (active_handle_add s')"
  "only_flags h s s' \<Longrightarrow> only_flags h s (active_handle_rm s')"
  unfolding only_flags_def active_handle_add_def active_handle_rm_def
  by (elim exE; rule exI, rule exI, simp)+

lemma only_flags_start: "only_flags h s (handle_start h s)" "only_flags h s (handle_stop h s)"
  by (simp_all add: handle_start_def handle_stop_def Let_def only_flags_refl only_flags_on only_flags_count)

lemma only_flags_ref: "only_flags h s (handle_ref h s)" "only_flags h s (handle_unref h s)"
  by (simp_all add: handle_ref_def handle_unref_def Let_def only_flags_refl only_flags_on only_flags_count)

lemma only_flagsD:
  assumes "only_flags h s s'"
  shows "us_timer_heap s' = us_timer_heap s" "us_time s' = us_time s" "us_timer_counter s' = us_timer_counter s"
    "us_trace s' = us_trace s" "us_closing_handles s' = us_closing_handles s"
    "us_handle_queue s' = us_handle_queue s"
    "us_idle s' = us_idle s" "us_prepare s' = us_prepare s" "us_check s' = us_check s"
    "us_running s' = us_running s" "us_active_reqs s' = us_active_reqs s"
    "g \<noteq> h \<Longrightarrow> us_handles s' g = us_handles s g"
    "uh_type (us_handles s' g) = uh_type (us_handles s g)"
    "uh_timer_cb (us_handles s' g) = uh_timer_cb (us_handles s g)"
    "uh_timeout (us_handles s' g) = uh_timeout (us_handles s g)"
    "uh_repeat (us_handles s' g) = uh_repeat (us_handles s g)"
    "uh_start_id (us_handles s' g) = uh_start_id (us_handles s g)"
    "uh_next_closing (us_handles s' g) = uh_next_closing (us_handles s g)"
    "uh_close_cb (us_handles s' g) = uh_close_cb (us_handles s g)"
    "uh_watch_cb (us_handles s' g) = uh_watch_cb (us_handles s g)"
    "uh_caught_signals (us_handles s' g) = uh_caught_signals (us_handles s g)"
    "uh_dispatched_signals (us_handles s' g) = uh_dispatched_signals (us_handles s g)"
  using assms by (auto simp: only_flags_def)

lemmas start_frame = only_flags_start [THEN only_flagsD(1)] only_flags_start [THEN only_flagsD(2)]
  only_flags_start [THEN only_flagsD(3)] only_flags_start [THEN only_flagsD(4)]
  only_flags_start [THEN only_flagsD(13)] only_flags_start [THEN only_flagsD(14)]
  only_flags_start [THEN only_flagsD(15)] only_flags_start [THEN only_flagsD(16)]
  only_flags_start [THEN only_flagsD(17)]

lemma has_flag_count [simp]:
  "has_flag (active_handle_add s) h fl = has_flag s h fl" "has_flag (active_handle_rm s) h fl = has_flag s h fl"
  by (simp_all add: has_flag_def active_handle_add_def active_handle_rm_def)

lemma start_flags [flags]:
  "has_flag (handle_start h s) g UV_HANDLE_ACTIVE \<longleftrightarrow> g = h \<or> has_flag s g UV_HANDLE_ACTIVE"
  "has_flag (handle_start h s) g UV_HANDLE_REF \<longleftrightarrow> has_flag s g UV_HANDLE_REF"
  "has_flag (handle_start h s) g UV_HANDLE_CLOSING \<longleftrightarrow> has_flag s g UV_HANDLE_CLOSING"
  "has_flag (handle_start h s) g UV_HANDLE_CLOSED \<longleftrightarrow> has_flag s g UV_HANDLE_CLOSED"
  "has_flag (handle_stop h s) g UV_HANDLE_ACTIVE \<longleftrightarrow> g \<noteq> h \<and> has_flag s g UV_HANDLE_ACTIVE"
  "has_flag (handle_stop h s) g UV_HANDLE_REF \<longleftrightarrow> has_flag s g UV_HANDLE_REF"
  "has_flag (handle_stop h s) g UV_HANDLE_CLOSING \<longleftrightarrow> has_flag s g UV_HANDLE_CLOSING"
  "has_flag (handle_stop h s) g UV_HANDLE_CLOSED \<longleftrightarrow> has_flag s g UV_HANDLE_CLOSED"
  by (auto simp: handle_start_def handle_stop_def Let_def flags)

lemma is_closing_iff:
  "uv_is_closing s h \<longleftrightarrow> has_flag s h UV_HANDLE_CLOSING \<or> has_flag s h UV_HANDLE_CLOSED"
  by (simp add: uv_is_closing_def has_flag_def bit.conj_disj_distrib or_eq_0_iff)

text \<open>
  The reference count: the loop counts the handles that are active and referenced. The
  exception the code makes is visible here: \<open>uv_ref\<close> and \<open>uv_unref\<close> on a closing handle do
  not count.
\<close>

definition counted :: "uv_sys \<Rightarrow> nat set" where
  "counted s = {h. has_flag s h UV_HANDLE_ACTIVE \<and> has_flag s h UV_HANDLE_REF}"

definition count_inv :: "uv_sys \<Rightarrow> bool" where
  "count_inv s \<longleftrightarrow> finite (counted s) \<and> unat (us_active_handles s) = card (counted s)"

lemma count_inv_add:
  assumes "count_inv s" "counted s' = insert h (counted s)" "h \<notin> counted s"
    "us_active_handles s' = us_active_handles s + 1" "card (counted s) < 2 ^ 32 - 1"
  shows "count_inv s'"
proof -
  have "us_active_handles s \<noteq> - 1"
    using assms(1,5) by (auto simp: count_inv_def unsigned_minus_1_eq_mask mask_eq_exp_minus_1)
  then show ?thesis using assms unat_add_one [of "us_active_handles s"] by (simp add: count_inv_def)
qed

lemma count_inv_rm:
  assumes "count_inv s" "counted s' = counted s - {h}" "h \<in> counted s"
    "us_active_handles s' = us_active_handles s - 1"
  shows "count_inv s'"
proof -
  have "card (counted s) > 0" using assms(1,3) by (auto simp: count_inv_def card_gt_0_iff)
  then have "us_active_handles s \<noteq> 0" using assms(1) by (auto simp: count_inv_def)
  then show ?thesis using assms by (simp add: count_inv_def unat_minus_one)
qed

lemma count_inv_same:
  "count_inv s \<Longrightarrow> counted s' = counted s \<Longrightarrow> us_active_handles s' = us_active_handles s \<Longrightarrow> count_inv s'"
  by (simp add: count_inv_def)

lemma handle_start_count:
  assumes inv: "count_inv s" and room: "card (counted s) < 2 ^ 32 - 1"
  shows "count_inv (handle_start h s)"
proof (cases "has_flag s h UV_HANDLE_ACTIVE")
  case True
  then show ?thesis using inv by (simp add: handle_start_def)
next
  case False
  have c: "counted (handle_start h s) = (if has_flag s h UV_HANDLE_REF then insert h (counted s) else counted s)"
    by (auto simp: counted_def flags)
  show ?thesis
  proof (cases "has_flag s h UV_HANDLE_REF")
    case True
    show ?thesis
      by (rule count_inv_add [OF inv _ _ _ room, of _ h])
        (use True False c in \<open>simp_all add: counted_def handle_start_def Let_def flags active_handle_add_def\<close>)
  next
    case ref: False
    show ?thesis
      by (rule count_inv_same [OF inv])
        (use ref False c in \<open>simp_all add: handle_start_def Let_def flags\<close>)
  qed
qed

lemma handle_stop_count:
  assumes inv: "count_inv s"
  shows "count_inv (handle_stop h s)"
proof (cases "has_flag s h UV_HANDLE_ACTIVE")
  case False
  then show ?thesis using inv by (simp add: handle_stop_def)
next
  case True
  have c: "counted (handle_stop h s) = counted s - {h}" by (auto simp: counted_def flags)
  show ?thesis
  proof (cases "has_flag s h UV_HANDLE_REF")
    case ref: True
    show ?thesis
      by (rule count_inv_rm [OF inv c])
        (use ref True in \<open>simp_all add: counted_def handle_stop_def Let_def flags active_handle_rm_def\<close>)
  next
    case False
    then have "h \<notin> counted s" by (simp add: counted_def)
    then show ?thesis
      by (intro count_inv_same [OF inv])
        (use False True c in \<open>simp_all add: handle_stop_def Let_def flags\<close>)
  qed
qed

end
