(* ===== verification/Uv_Timer.thy ===== *)
theory Uv_Timer
  imports Uv_Handle
begin

text \<open>
  The timers of libuv (\<open>timer.c\<close>): starting, stopping and repeating a timer, the timeout of
  the next poll, and the loop that runs the timers that are due. The invariant ties the
  pointer heap of the loop to the set of active timers.
\<close>

section \<open>Timers\<close>

definition timer_less_than :: "(nat \<Rightarrow> uv_handle) \<Rightarrow> nat \<Rightarrow> nat \<Rightarrow> bool" where
  "timer_less_than hs ha hb =
     (let a = hs ha; b = hs hb in
      if uh_timeout a < uh_timeout b then True
      else if uh_timeout b < uh_timeout a then False
      else uh_start_id a < uh_start_id b)"

definition uv_timer_init :: "nat \<Rightarrow> uv_sys \<Rightarrow> int \<times> uv_sys" where
  "uv_timer_init h s =
     (0, set_handle h (\<lambda>x. x\<lparr>uh_timer_cb := None, uh_repeat := 0\<rparr>) (handle_init h UV_TIMER s))"

definition uv_timer_stop :: "nat \<Rightarrow> uv_sys \<Rightarrow> (int \<times> uv_sys) option" where
  "uv_timer_stop h s =
     (if \<not> uv_is_active s h then Some (0, s)
      else do { heap \<leftarrow> heap_remove (timer_less_than (us_handles s)) (us_timer_heap s) h;
                Some (0, handle_stop h (s\<lparr>us_timer_heap := heap\<rparr>)) })"

definition clamped_timeout :: "u64 \<Rightarrow> u64 \<Rightarrow> u64" where
  "clamped_timeout time timeout =
     (let t = time + timeout in if t < timeout then - 1 else t)"

definition uv_timer_start ::
  "nat \<Rightarrow> nat option \<Rightarrow> u64 \<Rightarrow> u64 \<Rightarrow> uv_sys \<Rightarrow> (int \<times> uv_sys) option" where
  "uv_timer_start h cb timeout repeat s =
     (if uv_is_closing s h \<or> cb = None then Some (UV_EINVAL, s)
      else do { (_, s1) \<leftarrow> (if uv_is_active s h then uv_timer_stop h s else Some (0, s));
                let clamped = clamped_timeout (us_time s1) timeout;
                let s2 = set_handle h (\<lambda>x. x\<lparr>uh_timer_cb := cb, uh_timeout := clamped,
                                              uh_repeat := repeat, uh_start_id := us_timer_counter s1\<rparr>)
                           (s1\<lparr>us_timer_counter := us_timer_counter s1 + 1\<rparr>);
                heap \<leftarrow> heap_insert (timer_less_than (us_handles s2)) (us_timer_heap s2) h;
                Some (0, handle_start h (s2\<lparr>us_timer_heap := heap\<rparr>)) })"

definition uv_timer_again :: "nat \<Rightarrow> uv_sys \<Rightarrow> (int \<times> uv_sys) option" where
  "uv_timer_again h s =
     (let t = us_handles s h in
      if uh_timer_cb t = None then Some (UV_EINVAL, s)
      else if uh_repeat t \<noteq> 0
      then do { (_, s1) \<leftarrow> uv_timer_stop h s;
                let t1 = us_handles s1 h;
                (_, s2) \<leftarrow> uv_timer_start h (uh_timer_cb t1) (uh_repeat t1) (uh_repeat t1) s1;
                Some (0, s2) }
      else Some (0, s))"

definition uv_timer_set_repeat :: "nat \<Rightarrow> u64 \<Rightarrow> uv_sys \<Rightarrow> uv_sys" where
  "uv_timer_set_repeat h repeat = set_handle h (uh_repeat_update (\<lambda>_. repeat))"

definition uv_timer_get_repeat :: "uv_sys \<Rightarrow> nat \<Rightarrow> u64" where
  "uv_timer_get_repeat s h = uh_repeat (us_handles s h)"

definition uv_next_timeout :: "uv_sys \<Rightarrow> int" where
  "uv_next_timeout s =
     (case heap_min (us_timer_heap s) of
        None \<Rightarrow> - 1
      | Some h \<Rightarrow>
          let t = us_handles s h in
          if uh_timeout t \<le> us_time s then 0
          else let diff = uh_timeout t - us_time s;
                   diff' = (if diff > INT_MAX then INT_MAX else diff)
               in int (unat diff'))"

partial_function (option) uv_run_timers :: "cb_sem \<Rightarrow> uv_sys \<Rightarrow> uv_sys option" where
  "uv_run_timers cbs s =
     (case heap_min (us_timer_heap s) of
        None \<Rightarrow> Some s
      | Some h \<Rightarrow>
          if uh_timeout (us_handles s h) > us_time s then Some s
          else do { (_, s1) \<leftarrow> uv_timer_stop h s;
                    (_, s2) \<leftarrow> uv_timer_again h s1;
                    cb \<leftarrow> uh_timer_cb (us_handles s2 h);
                    s3 \<leftarrow> run_cb cbs cb h s2;
                    uv_run_timers cbs s3 })"

definition uv_timer_close :: "nat \<Rightarrow> uv_sys \<Rightarrow> uv_sys option" where
  "uv_timer_close h s = do { (_, s1) \<leftarrow> uv_timer_stop h s; Some s1 }"

section \<open>The timers of a loop\<close>

interpretation th: heap_order "timer_less_than hs" for hs
  by unfold_locales (auto simp: timer_less_than_def Let_def not_less split: if_splits)

lemma heap_rep_cong:
  assumes "heap_rep lessf h S" and "\<And>a b. a \<in> S \<Longrightarrow> b \<in> S \<Longrightarrow> lessf' a b = lessf a b"
  shows "heap_rep lessf' h S"
proof -
  obtain arr n where r: "shape h arr n" "heap_ordered lessf arr n" "arr ` {1..n} = S" "unat (h_nelts h) = n"
    using assms(1) by (auto simp: heap_rep_def)
  have "arr k \<in> S" if "1 \<le> k" "k \<le> n" for k using r(3) that by auto
  then have "heap_ordered lessf' arr n"
    using r(2) assms(2) by (auto simp: heap_ordered_def)
  then show ?thesis using r unfolding heap_rep_def by blast
qed

definition active_timers :: "uv_sys \<Rightarrow> nat set" where
  "active_timers s = {h. uh_type (us_handles s h) = UV_TIMER \<and> has_flag s h UV_HANDLE_ACTIVE}"

definition timer_inv :: "uv_sys \<Rightarrow> bool" where
  "timer_inv s \<longleftrightarrow>
     heap_rep (timer_less_than (us_handles s)) (us_timer_heap s) (active_timers s) \<and>
     (\<forall>h\<in>active_timers s. uh_timer_cb (us_handles s h) \<noteq> None)"

text \<open>The order of two timers depends on their deadlines and start numbers only.\<close>

lemma timer_less_cong:
  assumes "uh_timeout (hs' a) = uh_timeout (hs a)" "uh_start_id (hs' a) = uh_start_id (hs a)"
    and "uh_timeout (hs' b) = uh_timeout (hs b)" "uh_start_id (hs' b) = uh_start_id (hs b)"
  shows "timer_less_than hs' a b = timer_less_than hs a b"
  using assms by (simp add: timer_less_than_def Let_def)

text \<open>What stopping a timer leaves unchanged.\<close>

definition timers_frame :: "uv_sys \<Rightarrow> uv_sys \<Rightarrow> bool" where
  "timers_frame s s' \<longleftrightarrow>
     us_time s' = us_time s \<and> us_trace s' = us_trace s \<and>
     (\<forall>g. uh_type (us_handles s' g) = uh_type (us_handles s g) \<and>
          uh_timer_cb (us_handles s' g) = uh_timer_cb (us_handles s g) \<and>
          uh_repeat (us_handles s' g) = uh_repeat (us_handles s g))"

lemma timers_frame_refl: "timers_frame s s"
  by (simp add: timers_frame_def)

lemma timers_frame_trans: "timers_frame s t \<Longrightarrow> timers_frame t u \<Longrightarrow> timers_frame s u"
  by (simp add: timers_frame_def)

lemma timer_stop_correct:
  assumes inv: "timer_inv s" and ty: "uh_type (us_handles s h) = UV_TIMER"
  obtains s' where "uv_timer_stop h s = Some (0, s')" "timer_inv s'"
    "active_timers s' = active_timers s - {h}" "timers_frame s s'"
    "\<And>g. uh_timeout (us_handles s' g) = uh_timeout (us_handles s g) \<and>
      uh_start_id (us_handles s' g) = uh_start_id (us_handles s g)"
    "us_timer_counter s' = us_timer_counter s"
    "\<And>g. uv_is_closing s' g = uv_is_closing s g"
proof (cases "uv_is_active s h")
  case False
  then show ?thesis
    using that [of s] inv timers_frame_refl
    by (auto simp: uv_timer_stop_def active_timers_def uv_is_active_def)
next
  case True
  have rep: "heap_rep (timer_less_than (us_handles s)) (us_timer_heap s) (active_timers s)"
    using inv by (simp add: timer_inv_def)
  have "h \<in> active_timers s" using True ty by (simp add: active_timers_def uv_is_active_def)
  then obtain heap where heap: "heap_remove (timer_less_than (us_handles s)) (us_timer_heap s) h = Some heap"
    "heap_rep (timer_less_than (us_handles s)) heap (active_timers s - {h})"
    using th.remove_correct [OF rep] by blast
  let ?t = "s\<lparr>us_timer_heap := heap\<rparr>" and ?s = "handle_stop h (s\<lparr>us_timer_heap := heap\<rparr>)"
  have flg: "has_flag ?t g fl = has_flag s g fl" for g fl by (simp add: has_flag_def)
  have cl: "uv_is_closing ?s g = uv_is_closing s g" for g
    by (simp add: is_closing_iff flags flg)
  have act: "active_timers ?s = active_timers s - {h}"
    by (auto simp: active_timers_def flags flg start_frame)
  have "heap_rep (timer_less_than (us_handles ?s)) (us_timer_heap ?s) (active_timers ?s)"
  proof -
    have "heap_rep (timer_less_than (us_handles ?s)) heap (active_timers s - {h})"
      by (rule heap_rep_cong [OF heap(2)], rule timer_less_cong) (simp_all add: start_frame)
    then show ?thesis by (simp add: act start_frame)
  qed
  then have "timer_inv ?s"
    using inv by (simp add: timer_inv_def act start_frame)
  moreover have "timers_frame s ?s" by (simp add: timers_frame_def start_frame)
  ultimately show ?thesis
    using that [of ?s] True heap(1) act cl by (simp add: uv_timer_stop_def start_frame)
qed

lemma timer_start_correct:
  assumes inv: "timer_inv s" and ty: "uh_type (us_handles s h) = UV_TIMER"
    and cl: "\<not> uv_is_closing s h" and cb: "cb \<noteq> None"
    and room: "card (active_timers s - {h}) < 2 ^ 32 - 1"
  obtains s' where "uv_timer_start h cb timeout repeat s = Some (0, s')" "timer_inv s'"
    "active_timers s' = insert h (active_timers s)"
    "us_time s' = us_time s" "us_trace s' = us_trace s"
    "\<And>g. g \<noteq> h \<Longrightarrow> uh_timeout (us_handles s' g) = uh_timeout (us_handles s g) \<and>
       uh_start_id (us_handles s' g) = uh_start_id (us_handles s g) \<and>
       uh_timer_cb (us_handles s' g) = uh_timer_cb (us_handles s g) \<and>
       uh_repeat (us_handles s' g) = uh_repeat (us_handles s g)"
    "\<And>g. uh_type (us_handles s' g) = uh_type (us_handles s g)"
    "uh_timeout (us_handles s' h) = clamped_timeout (us_time s) timeout"
    "uh_timer_cb (us_handles s' h) = cb" "uh_repeat (us_handles s' h) = repeat"
    "uh_start_id (us_handles s' h) = us_timer_counter s"
    "us_timer_counter s' = us_timer_counter s + 1"
    "\<And>g. uv_is_closing s' g = uv_is_closing s g"
proof -
  obtain s1 where s1: "(if uv_is_active s h then uv_timer_stop h s else Some (0, s)) = Some (0, s1)"
    "timer_inv s1" "active_timers s1 = active_timers s - {h}" "timers_frame s s1"
    "\<And>g. uh_timeout (us_handles s1 g) = uh_timeout (us_handles s g) \<and>
      uh_start_id (us_handles s1 g) = uh_start_id (us_handles s g)"
    "us_timer_counter s1 = us_timer_counter s"
    "\<And>g. uv_is_closing s1 g = uv_is_closing s g"
  proof (cases "uv_is_active s h")
    case True
    then show ?thesis using timer_stop_correct [OF inv ty] that by metis
  next
    case False
    then have "active_timers s = active_timers s - {h}" by (auto simp: active_timers_def uv_is_active_def)
    then show ?thesis using False that [of s] inv timers_frame_refl by simp
  qed
  let ?set = "\<lambda>x. x\<lparr>uh_timer_cb := cb, uh_timeout := clamped_timeout (us_time s1) timeout,
                   uh_repeat := repeat, uh_start_id := us_timer_counter s1\<rparr>"
  define s2 where "s2 = set_handle h ?set (s1\<lparr>us_timer_counter := us_timer_counter s1 + 1\<rparr>)"
  have flg: "has_flag s2 g fl = has_flag s1 g fl" for g fl
    by (simp add: s2_def has_flag_def)
  have sel2: "us_handles s2 = (us_handles s1)(h := ?set (us_handles s1 h))" "us_timer_heap s2 = us_timer_heap s1"
    "us_time s2 = us_time s1" "us_trace s2 = us_trace s1" "us_timer_counter s2 = us_timer_counter s1 + 1"
    by (simp_all add: s2_def)
  have h1: "h \<notin> active_timers s1" using s1(3) by simp
  have "heap_rep (timer_less_than (us_handles s1)) (us_timer_heap s1) (active_timers s1)"
    using s1(2) by (simp add: timer_inv_def)
  then have rep2: "heap_rep (timer_less_than (us_handles s2)) (us_timer_heap s2) (active_timers s1)"
    unfolding sel2(2) by (rule heap_rep_cong, intro timer_less_cong) (use h1 sel2(1) in auto)
  obtain heap where heap: "heap_insert (timer_less_than (us_handles s2)) (us_timer_heap s2) h = Some heap"
    "heap_rep (timer_less_than (us_handles s2)) heap (insert h (active_timers s1))"
    by (rule th.insert_correct [OF rep2 h1]) (use room s1(3) in simp_all)
  let ?t = "s2\<lparr>us_timer_heap := heap\<rparr>"
  let ?s = "handle_start h ?t"
  have flg': "has_flag ?t g fl = has_flag s1 g fl" for g fl using flg by (simp add: has_flag_def)
  have ty1: "uh_type (us_handles s1 g) = uh_type (us_handles s g)" for g
    using s1(4) by (simp add: timers_frame_def)
  have act: "active_timers ?s = insert h (active_timers s)"
  proof -
    have "active_timers ?s = insert h (active_timers s1)"
      using ty ty1 by (auto simp: active_timers_def flags flg' start_frame sel2)
    then show ?thesis using s1(3) by auto
  qed
  have "heap_rep (timer_less_than (us_handles ?s)) (us_timer_heap ?s) (active_timers ?s)"
  proof -
    have "heap_rep (timer_less_than (us_handles ?s)) heap (insert h (active_timers s1))"
      by (rule heap_rep_cong [OF heap(2)], rule timer_less_cong) (simp_all add: start_frame)
    then show ?thesis using act s1(3) by (simp add: start_frame)
  qed
  moreover have "\<forall>g\<in>active_timers ?s. uh_timer_cb (us_handles ?s g) \<noteq> None"
    using s1(2,3) act cb by (auto simp: timer_inv_def start_frame sel2)
  ultimately have tinv: "timer_inv ?s" by (simp add: timer_inv_def)
  have run: "uv_timer_start h cb timeout repeat s = Some (0, ?s)"
  proof -
    obtain c where "cb = Some c" using cb by blast
    then show ?thesis
      unfolding uv_timer_start_def using cl s1(1) heap(1) by (simp add: Let_def s2_def)
  qed
  have "uv_is_closing ?s g = uv_is_closing s g" for g
    using s1(7) [of g] by (simp add: is_closing_iff flags flg')
  then show thesis
    by (intro that [OF run tinv act])
      (use s1(4,5,6) in \<open>simp_all add: start_frame sel2 timers_frame_def\<close>)
qed

text \<open>The deadline saturates.\<close>

lemma clamped_saturates:
  "unat (clamped_timeout time timeout) = min (2 ^ 64 - 1) (unat time + unat timeout)"
proof (cases "unat time + unat timeout < 2 ^ 64")
  case True
  then have u: "unat (time + timeout) = unat time + unat timeout" using unat_add_lem [of time timeout] by simp
  then have "\<not> time + timeout < timeout" by (simp add: word_less_nat_alt)
  then show ?thesis using u True by (simp add: clamped_timeout_def min_def)
next
  case False
  then have u: "unat (time + timeout) = unat time + unat timeout - 2 ^ 64"
    using unat_plus_if' [of time timeout] by simp
  then have "time + timeout < timeout"
    using False unat_lt_exp [of time] by (simp add: word_less_nat_alt)
  moreover have "unat (- 1 :: u64) = 2 ^ 64 - 1" by (simp add: unsigned_minus_1_eq_mask mask_eq_exp_minus_1)
  ultimately show ?thesis using False by (simp add: clamped_timeout_def)
qed

text \<open>A restarted timer is due later than now.\<close>

lemma clamped_later:
  assumes "repeat \<noteq> 0" "time \<noteq> - 1"
  shows "time < clamped_timeout time repeat"
proof (cases "time + repeat < repeat")
  case True
  have "time < - 1" using assms(2) word_n1_ge [of time] by (rule order.not_eq_order_implies_strict)
  then show ?thesis using True by (simp add: clamped_timeout_def)
next
  case False
  have "unat (time + repeat) = unat time + unat repeat"
  proof (rule ccontr)
    assume n: "unat (time + repeat) \<noteq> unat time + unat repeat"
    then have "\<not> unat time + unat repeat < 2 ^ 64" using unat_add_lem [of time repeat] by auto
    then have "unat (time + repeat) < unat repeat"
      using unat_plus_if' [of time repeat] unat_lt_exp [of time] by (simp split: if_splits)
    then show False using False by (simp add: word_less_nat_alt)
  qed
  then show ?thesis using False assms(1) unat_gt_0 [of repeat]
    by (simp add: clamped_timeout_def word_less_nat_alt)
qed

text \<open>Whether \<open>uv_timer_again\<close> starts a timer that has stopped.\<close>

definition rearmed :: "uv_sys \<Rightarrow> nat \<Rightarrow> bool" where
  "rearmed s h \<longleftrightarrow> uh_repeat (us_handles s h) \<noteq> 0 \<and> \<not> uv_is_closing s h"

lemma timer_again_correct:
  assumes inv: "timer_inv s" and ty: "uh_type (us_handles s h) = UV_TIMER" and idle: "h \<notin> active_timers s"
    and cb: "uh_timer_cb (us_handles s h) \<noteq> None"
    and room: "card (active_timers s) < 2 ^ 32 - 1"
  obtains s' where "uv_timer_again h s = Some (0, s')" "timer_inv s'"
    "us_time s' = us_time s" "us_trace s' = us_trace s"
    "\<And>g. g \<noteq> h \<Longrightarrow> uh_timeout (us_handles s' g) = uh_timeout (us_handles s g) \<and>
       uh_start_id (us_handles s' g) = uh_start_id (us_handles s g)"
    "\<And>g. uh_timer_cb (us_handles s' g) = uh_timer_cb (us_handles s g) \<and>
       uh_repeat (us_handles s' g) = uh_repeat (us_handles s g) \<and>
       uh_type (us_handles s' g) = uh_type (us_handles s g) \<and> uv_is_closing s' g = uv_is_closing s g"
    "rearmed s h \<Longrightarrow> active_timers s' = insert h (active_timers s) \<and>
       uh_timeout (us_handles s' h) = clamped_timeout (us_time s) (uh_repeat (us_handles s h))"
    "\<not> rearmed s h \<Longrightarrow> active_timers s' = active_timers s \<and>
       uh_timeout (us_handles s' h) = uh_timeout (us_handles s h)"
proof (cases "rearmed s h")
  case False
  have na: "\<not> uv_is_active s h" using idle ty by (auto simp: active_timers_def uv_is_active_def)
  have "uv_timer_again h s = Some (0, s)"
    using False cb na
    by (auto simp: rearmed_def uv_timer_again_def uv_timer_stop_def uv_timer_start_def Let_def)
  then show thesis using that [of s] inv False by simp
next
  case True
  have na: "\<not> uv_is_active s h" using idle ty by (auto simp: active_timers_def uv_is_active_def)
  let ?r = "uh_repeat (us_handles s h)" and ?cb = "uh_timer_cb (us_handles s h)"
  have cl: "\<not> uv_is_closing s h" "?r \<noteq> 0" using True by (simp_all add: rearmed_def)
  have room': "card (active_timers s - {h}) < 2 ^ 32 - 1" using room idle by simp
  obtain s' where s': "uv_timer_start h ?cb ?r ?r s = Some (0, s')" "timer_inv s'"
    "active_timers s' = insert h (active_timers s)"
    "us_time s' = us_time s" "us_trace s' = us_trace s"
    "\<And>g. g \<noteq> h \<Longrightarrow> uh_timeout (us_handles s' g) = uh_timeout (us_handles s g) \<and>
       uh_start_id (us_handles s' g) = uh_start_id (us_handles s g) \<and>
       uh_timer_cb (us_handles s' g) = uh_timer_cb (us_handles s g) \<and>
       uh_repeat (us_handles s' g) = uh_repeat (us_handles s g)"
    "\<And>g. uh_type (us_handles s' g) = uh_type (us_handles s g)"
    "uh_timeout (us_handles s' h) = clamped_timeout (us_time s) ?r"
    "uh_timer_cb (us_handles s' h) = ?cb" "uh_repeat (us_handles s' h) = ?r"
    "\<And>g. uv_is_closing s' g = uv_is_closing s g"
    by (rule timer_start_correct [OF inv ty cl(1) cb room', of ?r ?r]) blast
  have "uv_timer_again h s = Some (0, s')"
  proof -
    obtain c where "?cb = Some c" using cb by blast
    then show ?thesis
      using cl(2) na s'(1) by (simp add: uv_timer_again_def uv_timer_stop_def Let_def)
  qed
  moreover have "uh_timer_cb (us_handles s' g) = uh_timer_cb (us_handles s g) \<and>
       uh_repeat (us_handles s' g) = uh_repeat (us_handles s g)" for g
    using s'(6) [of g] s'(9,10) by (cases "g = h") auto
  ultimately show thesis using that [of s'] s' True by simp
qed

definition due :: "uv_sys \<Rightarrow> nat set" where
  "due s = {h \<in> active_timers s. uh_timeout (us_handles s h) \<le> us_time s}"

text \<open>A callback that does nothing but being called.\<close>

definition quiet :: cb_sem where
  "quiet cb h s = Some s"

lemma timer_inv_finite: "timer_inv s \<Longrightarrow> finite (active_timers s)"
  using heap_rep_finite by (auto simp: timer_inv_def)

lemma timer_inv_room: "timer_inv s \<Longrightarrow> h \<in> active_timers s \<Longrightarrow> card (active_timers s - {h}) < 2 ^ 32 - 1"
proof -
  assume inv: "timer_inv s" and h: "h \<in> active_timers s"
  have "card (active_timers s) < 2 ^ 32"
  proof -
    have "card (active_timers s) = unat (h_nelts (us_timer_heap s))"
      by (rule heap_rep_card [of "timer_less_than (us_handles s)"]) (use inv in \<open>simp add: timer_inv_def\<close>)
    then show ?thesis using unat_lt_exp [of "h_nelts (us_timer_heap s)"] by simp
  qed
  then show ?thesis using timer_inv_finite [OF inv] h by (simp add: card_Diff_singleton)
qed

lemma inv_trace [simp]:
  "timer_inv (s\<lparr>us_trace := tr\<rparr>) = timer_inv s" "due (s\<lparr>us_trace := tr\<rparr>) = due s"
  "active_timers (s\<lparr>us_trace := tr\<rparr>) = active_timers s"
proof -
  show a: "active_timers (s\<lparr>us_trace := tr\<rparr>) = active_timers s" by (simp add: active_timers_def has_flag_def)
  show "timer_inv (s\<lparr>us_trace := tr\<rparr>) = timer_inv s" by (simp add: timer_inv_def a)
  show "due (s\<lparr>us_trace := tr\<rparr>) = due s" by (simp add: due_def a)
qed

text \<open>
  What a callback does is a list of calls to the timer functions, which may depend on the
  callback and on its handle.
\<close>

datatype timer_call = Start_timer nat nat u64 u64 | Stop_timer nat

primrec do_timer_call :: "timer_call \<Rightarrow> uv_sys \<Rightarrow> uv_sys option" where
  "do_timer_call (Start_timer g c timeout repeat) s =
     do { (_, s1) \<leftarrow> uv_timer_start g (Some c) timeout repeat s; Some s1 }"
| "do_timer_call (Stop_timer g) s = do { (_, s1) \<leftarrow> uv_timer_stop g s; Some s1 }"

primrec do_timer_calls :: "timer_call list \<Rightarrow> uv_sys \<Rightarrow> uv_sys option" where
  "do_timer_calls [] s = Some s"
| "do_timer_calls (c # cs) s = do { s1 \<leftarrow> do_timer_call c s; do_timer_calls cs s1 }"

definition timer_cbs :: "(nat \<Rightarrow> nat \<Rightarrow> timer_call list) \<Rightarrow> cb_sem" where
  "timer_cbs calls cb h = do_timer_calls (calls cb h)"

primrec call_timer :: "timer_call \<Rightarrow> nat" where
  "call_timer (Start_timer g c timeout repeat) = g"
| "call_timer (Stop_timer g) = g"

primrec call_delays :: "timer_call \<Rightarrow> bool" where
  "call_delays (Start_timer g c timeout repeat) \<longleftrightarrow> timeout \<noteq> 0"
| "call_delays (Stop_timer g) \<longleftrightarrow> True"

text \<open>
  The calls that are considered: they name open timers of the set \<open>ts\<close>, and start them with
  a timeout that is not zero.
\<close>

definition timer_call_ok :: "nat set \<Rightarrow> uv_sys \<Rightarrow> timer_call \<Rightarrow> bool" where
  "timer_call_ok ts s c \<longleftrightarrow>
     uh_type (us_handles s (call_timer c)) = UV_TIMER \<and> \<not> uv_is_closing s (call_timer c) \<and>
     call_timer c \<in> ts \<and> call_delays c"

text \<open>The timers that the callback of a timer starts or stops.\<close>

definition touched :: "(nat \<Rightarrow> nat \<Rightarrow> timer_call list) \<Rightarrow> uv_sys \<Rightarrow> nat \<Rightarrow> nat set" where
  "touched calls s h = call_timer ` set (calls (the (uh_timer_cb (us_handles s h))) h)"

text \<open>
  \<open>timers_moved ms s s'\<close>: the timers of \<open>ms\<close> were stopped or started for later; nothing else
  about the timers has changed.
\<close>

definition timers_moved :: "nat set \<Rightarrow> uv_sys \<Rightarrow> uv_sys \<Rightarrow> bool" where
  "timers_moved ms s s' \<longleftrightarrow>
     us_time s' = us_time s \<and> us_trace s' = us_trace s \<and> due s' = due s - ms \<and>
     (\<forall>g. uh_type (us_handles s' g) = uh_type (us_handles s g) \<and> uv_is_closing s' g = uv_is_closing s g) \<and>
     (\<forall>g. g \<notin> ms \<longrightarrow>
        uh_timeout (us_handles s' g) = uh_timeout (us_handles s g) \<and>
        uh_start_id (us_handles s' g) = uh_start_id (us_handles s g) \<and>
        uh_timer_cb (us_handles s' g) = uh_timer_cb (us_handles s g) \<and>
        uh_repeat (us_handles s' g) = uh_repeat (us_handles s g) \<and>
        (g \<in> active_timers s' \<longleftrightarrow> g \<in> active_timers s))"

lemma timers_moved_refl: "timers_moved {} s s"
  by (simp add: timers_moved_def)

lemma timers_moved_trans: "timers_moved a s t \<Longrightarrow> timers_moved b t u \<Longrightarrow> timers_moved (a \<union> b) s u"
  by (auto simp: timers_moved_def)

lemma timers_moved_trace: "timers_moved ms s s' \<Longrightarrow> timers_moved ms (s\<lparr>us_trace := tr\<rparr>) (s'\<lparr>us_trace := tr\<rparr>)"
  by (simp add: timers_moved_def is_closing_iff has_flag_def)

lemma due_moved:
  assumes "\<And>g. g \<noteq> h \<Longrightarrow> uh_timeout (us_handles s' g) = uh_timeout (us_handles s g) \<and>
      (g \<in> active_timers s' \<longleftrightarrow> g \<in> active_timers s)"
    and "us_time s' = us_time s" and "h \<notin> due s'"
  shows "due s' = due s - {h}"
proof (intro set_eqI)
  fix g show "g \<in> due s' \<longleftrightarrow> g \<in> due s - {h}"
    using assms(1) [of g] assms(2,3) by (cases "g = h") (auto simp: due_def)
qed

lemma timer_call_correct:
  assumes inv: "timer_inv s" and time: "us_time s \<noteq> - 1" and ts: "finite ts" "card ts < 2 ^ 32" "active_timers s \<subseteq> ts"
    and c: "timer_call_ok ts s c"
  obtains s' where "do_timer_call c s = Some s'" "timer_inv s'" "active_timers s' \<subseteq> ts"
    "timers_moved {call_timer c} s s'"
proof (cases c)
  case (Stop_timer g)
  have ty: "uh_type (us_handles s g) = UV_TIMER" using c Stop_timer by (simp add: timer_call_ok_def)
  obtain s' where s': "uv_timer_stop g s = Some (0, s')" "timer_inv s'"
    "active_timers s' = active_timers s - {g}" "timers_frame s s'"
    "\<And>x. uh_timeout (us_handles s' x) = uh_timeout (us_handles s x) \<and>
      uh_start_id (us_handles s' x) = uh_start_id (us_handles s x)"
    "\<And>x. uv_is_closing s' x = uv_is_closing s x"
    by (rule timer_stop_correct [OF inv ty]) blast
  note fr = s'(4) [unfolded timers_frame_def]
  have "due s' = due s - {g}" by (rule due_moved) (use s'(3,5) fr in \<open>auto simp: due_def\<close>)
  then have "timers_moved {g} s s'" using s'(3,5,6) fr by (simp add: timers_moved_def)
  then show thesis using that [of s'] s'(1-3) ts(3) Stop_timer by auto
next
  case (Start_timer g cb timeout repeat)
  have ty: "uh_type (us_handles s g) = UV_TIMER" "\<not> uv_is_closing s g" "g \<in> ts" "timeout \<noteq> 0"
    using c Start_timer by (simp_all add: timer_call_ok_def)
  have "card (active_timers s - {g}) \<le> card (ts - {g})" by (rule card_mono) (use ts in auto)
  then have room: "card (active_timers s - {g}) < 2 ^ 32 - 1" using ts(1,2) ty(3) by (simp add: card_Diff_singleton)
  obtain s' where s': "uv_timer_start g (Some cb) timeout repeat s = Some (0, s')" "timer_inv s'"
    "active_timers s' = insert g (active_timers s)" "us_time s' = us_time s" "us_trace s' = us_trace s"
    "\<And>x. x \<noteq> g \<Longrightarrow> uh_timeout (us_handles s' x) = uh_timeout (us_handles s x) \<and>
       uh_start_id (us_handles s' x) = uh_start_id (us_handles s x) \<and>
       uh_timer_cb (us_handles s' x) = uh_timer_cb (us_handles s x) \<and>
       uh_repeat (us_handles s' x) = uh_repeat (us_handles s x)"
    "\<And>x. uh_type (us_handles s' x) = uh_type (us_handles s x)"
    "uh_timeout (us_handles s' g) = clamped_timeout (us_time s) timeout"
    "\<And>x. uv_is_closing s' x = uv_is_closing s x"
    by (rule timer_start_correct [OF inv ty(1,2) _ room, of "Some cb" timeout repeat]) blast+
  have "us_time s < uh_timeout (us_handles s' g)" using s'(8) clamped_later [OF ty(4) time] by simp
  then have "due s' = due s - {g}" by (intro due_moved) (use s'(3,4,6) in \<open>auto simp: due_def\<close>)
  then have "timers_moved {g} s s'" using s'(3-7,9) by (simp add: timers_moved_def)
  then show thesis using that [of s'] s'(1-3) ts(3) ty(3) Start_timer by auto
qed

lemma timer_calls_correct:
  assumes inv: "timer_inv s" and time: "us_time s \<noteq> - 1" and ts: "finite ts" "card ts < 2 ^ 32" "active_timers s \<subseteq> ts"
    and cs: "\<forall>c\<in>set cs. timer_call_ok ts s c"
  shows "\<exists>s'. do_timer_calls cs s = Some s' \<and> timer_inv s' \<and> active_timers s' \<subseteq> ts \<and>
    timers_moved (call_timer ` set cs) s s'"
  using inv time ts(3) cs
proof (induction cs arbitrary: s)
  case Nil
  then show ?case by (simp add: timers_moved_refl)
next
  case (Cons c cs)
  obtain s1 where s1: "do_timer_call c s = Some s1" "timer_inv s1" "active_timers s1 \<subseteq> ts"
    "timers_moved {call_timer c} s s1"
    by (rule timer_call_correct [OF Cons.prems(1,2) ts(1,2) Cons.prems(3)]) (use Cons.prems(4) in auto)
  have "us_time s1 \<noteq> - 1" "\<forall>c\<in>set cs. timer_call_ok ts s1 c"
    using s1(4) Cons.prems(2,4) by (auto simp: timers_moved_def timer_call_ok_def)
  from Cons.IH [OF s1(2) this(1) s1(3) this(2)] show ?case
    using s1(1) timers_moved_trans [OF s1(4)] by fastforce
qed

text \<open>One round of the timer loop, up to the callback.\<close>

lemma run_timers_step:
  assumes inv: "timer_inv s" and time: "us_time s \<noteq> - 1"
    and min: "heap_min (us_timer_heap s) = Some h" and d: "uh_timeout (us_handles s h) \<le> us_time s"
  obtains s2 c where "uh_timer_cb (us_handles s h) = Some c"
    "uv_run_timers cbs s = do { s3 \<leftarrow> run_cb cbs c h s2; uv_run_timers cbs s3 }"
    "timer_inv s2" "timers_moved {h} s s2" "h \<in> due s"
    "uh_timer_cb (us_handles s2 h) = Some c" "uh_repeat (us_handles s2 h) = uh_repeat (us_handles s h)"
    "h \<in> active_timers s2 \<longleftrightarrow> rearmed s h"
    "uh_timeout (us_handles s2 h) =
       (if rearmed s h then clamped_timeout (us_time s) (uh_repeat (us_handles s h)) else uh_timeout (us_handles s h))"
proof -
  have rep: "heap_rep (timer_less_than (us_handles s)) (us_timer_heap s) (active_timers s)"
    using inv by (simp add: timer_inv_def)
  have h: "h \<in> active_timers s" using th.min_correct(2) [OF rep min] by simp
  have ty: "uh_type (us_handles s h) = UV_TIMER" using h by (simp add: active_timers_def)
  obtain c where c: "uh_timer_cb (us_handles s h) = Some c" using inv h by (auto simp: timer_inv_def)
  obtain s1 where s1: "uv_timer_stop h s = Some (0, s1)" "timer_inv s1"
    "active_timers s1 = active_timers s - {h}" "timers_frame s s1"
    "\<And>g. uh_timeout (us_handles s1 g) = uh_timeout (us_handles s g) \<and>
      uh_start_id (us_handles s1 g) = uh_start_id (us_handles s g)"
    "\<And>g. uv_is_closing s1 g = uv_is_closing s g"
    by (rule timer_stop_correct [OF inv ty]) blast
  note fr = s1(4) [unfolded timers_frame_def]
  have re: "rearmed s1 h \<longleftrightarrow> rearmed s h" using fr s1(6) by (simp add: rearmed_def)
  have pre: "uh_type (us_handles s1 h) = UV_TIMER" "h \<notin> active_timers s1"
    "uh_timer_cb (us_handles s1 h) \<noteq> None" "card (active_timers s1) < 2 ^ 32 - 1"
    using fr ty c s1(3) timer_inv_room [OF inv h] by simp_all
  obtain s2 where s2: "uv_timer_again h s1 = Some (0, s2)" "timer_inv s2"
    "us_time s2 = us_time s1" "us_trace s2 = us_trace s1"
    "\<And>g. g \<noteq> h \<Longrightarrow> uh_timeout (us_handles s2 g) = uh_timeout (us_handles s1 g) \<and>
       uh_start_id (us_handles s2 g) = uh_start_id (us_handles s1 g)"
    "\<And>g. uh_timer_cb (us_handles s2 g) = uh_timer_cb (us_handles s1 g) \<and>
       uh_repeat (us_handles s2 g) = uh_repeat (us_handles s1 g) \<and>
       uh_type (us_handles s2 g) = uh_type (us_handles s1 g) \<and> uv_is_closing s2 g = uv_is_closing s1 g"
    "rearmed s1 h \<Longrightarrow> active_timers s2 = insert h (active_timers s1) \<and>
       uh_timeout (us_handles s2 h) = clamped_timeout (us_time s1) (uh_repeat (us_handles s1 h))"
    "\<not> rearmed s1 h \<Longrightarrow> active_timers s2 = active_timers s1 \<and>
       uh_timeout (us_handles s2 h) = uh_timeout (us_handles s1 h)"
    by (rule timer_again_correct [OF s1(2) pre]) blast
  have cb2: "uh_timer_cb (us_handles s2 h) = Some c" using s2(6) [of h] fr c by simp
  have run: "uv_run_timers cbs s = do { s3 \<leftarrow> run_cb cbs c h s2; uv_run_timers cbs s3 }"
    using min d s1(1) s2(1) cb2 by (subst uv_run_timers.simps) (simp add: not_less [symmetric])
  have act: "g \<noteq> h \<Longrightarrow> g \<in> active_timers s2 \<longleftrightarrow> g \<in> active_timers s" "h \<in> active_timers s2 \<longleftrightarrow> rearmed s h" for g
    using s2(7,8) s1(3) re by auto
  have to: "uh_timeout (us_handles s2 h) =
      (if rearmed s h then clamped_timeout (us_time s) (uh_repeat (us_handles s h)) else uh_timeout (us_handles s h))"
    using s2(7,8) re fr s1(5) by auto
  have t2: "us_time s2 = us_time s" using s2(3) fr by simp
  have "h \<notin> due s2"
    using act(2) to t2 clamped_later [OF _ time] by (auto simp: due_def rearmed_def not_le [symmetric])
  then have "due s2 = due s - {h}" by (intro due_moved) (use act(1) s2(5) s1(5) t2 in simp_all)
  then have "timers_moved {h} s s2"
    using t2 s2(4,5,6) s1(5,6) fr act(1) by (simp add: timers_moved_def)
  moreover have "h \<in> due s" using h d by (simp add: due_def)
  moreover have "uh_repeat (us_handles s2 h) = uh_repeat (us_handles s h)" using s2(6) [of h] fr by simp
  ultimately show thesis using that [OF c run s2(2)] cb2 act(2) to by blast
qed

lemma due_least:
  assumes inv: "timer_inv s" and g: "due s \<noteq> {}"
  obtains h where "heap_min (us_timer_heap s) = Some h" "uh_timeout (us_handles s h) \<le> us_time s"
    "\<And>g. g \<in> active_timers s \<Longrightarrow> \<not> timer_less_than (us_handles s) g h"
proof -
  have rep: "heap_rep (timer_less_than (us_handles s)) (us_timer_heap s) (active_timers s)"
    using inv by (simp add: timer_inv_def)
  obtain g where g: "g \<in> due s" using g by blast
  then have ga: "g \<in> active_timers s" by (simp add: due_def)
  obtain h where min: "heap_min (us_timer_heap s) = Some h"
    using th.min_correct(1) [OF rep] ga by (cases "heap_min (us_timer_heap s)") auto
  have least: "\<not> timer_less_than (us_handles s) y h" if "y \<in> active_timers s" for y
    using th.min_correct(2) [OF rep min] that by blast
  have "uh_timeout (us_handles s h) \<le> us_time s"
    using least [OF ga] g by (auto simp: timer_less_than_def Let_def due_def split: if_splits)
  then show thesis using that min least by blast
qed

lemma run_timers_none_due:
  assumes inv: "timer_inv s" and d: "due s = {}"
  shows "uv_run_timers cbs s = Some s"
proof (cases "heap_min (us_timer_heap s)")
  case None
  then show ?thesis by (subst uv_run_timers.simps) simp
next
  case (Some h)
  have "heap_rep (timer_less_than (us_handles s)) (us_timer_heap s) (active_timers s)"
    using inv by (simp add: timer_inv_def)
  then have "h \<in> active_timers s" using th.min_correct(2) [OF _ Some] by simp
  then have "\<not> uh_timeout (us_handles s h) \<le> us_time s" using d by (auto simp: due_def)
  then show ?thesis using Some by (subst uv_run_timers.simps) (simp add: not_le)
qed

text \<open>
  What a run of the timers is to do. The timers of \<open>fs\<close> are called, in this order: they are
  due, no timer comes twice, an earlier one is not later in the order of the heap, no timer
  is called after a callback has stopped or restarted it, and a due timer is only left out
  when the callback of an earlier one has stopped or restarted it.
\<close>

definition fires :: "(nat \<Rightarrow> nat \<Rightarrow> timer_call list) \<Rightarrow> uv_sys \<Rightarrow> nat list \<Rightarrow> bool" where
  "fires calls s fs \<longleftrightarrow>
     distinct fs \<and> set fs \<subseteq> due s \<and>
     sorted_wrt (\<lambda>a b. \<not> timer_less_than (us_handles s) b a) fs \<and>
     sorted_wrt (\<lambda>a b. b \<notin> touched calls s a) fs \<and>
     (\<forall>g\<in>due s - set fs. \<exists>f\<in>set fs. g \<in> touched calls s f \<and> \<not> timer_less_than (us_handles s) g f)"

text \<open>
  The timers that no callback has touched: those that were due are active exactly if they
  repeat, with a deadline one period from now; the others are as before.
\<close>

definition untouched_after ::
  "(nat \<Rightarrow> nat \<Rightarrow> timer_call list) \<Rightarrow> uv_sys \<Rightarrow> nat list \<Rightarrow> uv_sys \<Rightarrow> bool" where
  "untouched_after calls s fs s' \<longleftrightarrow>
     (\<forall>g. (\<forall>f\<in>set fs. g \<notin> touched calls s f) \<longrightarrow>
        uh_timer_cb (us_handles s' g) = uh_timer_cb (us_handles s g) \<and>
        uh_repeat (us_handles s' g) = uh_repeat (us_handles s g) \<and>
        (g \<in> active_timers s' \<longleftrightarrow> (if g \<in> due s then rearmed s g else g \<in> active_timers s)) \<and>
        uh_timeout (us_handles s' g) =
          (if g \<in> due s \<and> rearmed s g then clamped_timeout (us_time s) (uh_repeat (us_handles s g))
           else uh_timeout (us_handles s g)))"

lemma moved_touched:
  "timers_moved ms s t \<Longrightarrow> f \<notin> ms \<Longrightarrow> touched calls t f = touched calls s f"
  by (simp add: timers_moved_def touched_def)

lemma moved_less:
  "timers_moved ms s t \<Longrightarrow> a \<notin> ms \<Longrightarrow> b \<notin> ms \<Longrightarrow>
   timer_less_than (us_handles t) a b = timer_less_than (us_handles s) a b"
  by (intro timer_less_cong) (simp_all add: timers_moved_def)

lemma fires_step:
  assumes mv: "timers_moved ({h} \<union> touched calls s h) s t" and h: "h \<in> due s"
    and least: "\<And>g. g \<in> active_timers s \<Longrightarrow> \<not> timer_less_than (us_handles s) g h"
    and fs: "fires calls t fs"
  shows "fires calls s (h # fs)"
proof -
  let ?ms = "{h} \<union> touched calls s h"
  have due: "due t = due s - ?ms" using mv by (simp add: timers_moved_def)
  have sub: "set fs \<subseteq> due s - ?ms" using fs by (simp add: fires_def due)
  then have out: "f \<notin> ?ms" if "f \<in> set fs" for f using that by blast
  have "sorted_wrt (\<lambda>a b. \<not> timer_less_than (us_handles s) b a) fs"
    by (rule sorted_wrt_mono_rel [of fs "\<lambda>a b. \<not> timer_less_than (us_handles t) b a"])
      (use fs moved_less [OF mv] out in \<open>auto simp: fires_def\<close>)
  moreover have "sorted_wrt (\<lambda>a b. b \<notin> touched calls s a) fs"
    by (rule sorted_wrt_mono_rel [of fs "\<lambda>a b. b \<notin> touched calls t a"])
      (use fs moved_touched [OF mv] out in \<open>auto simp: fires_def\<close>)
  moreover have "\<exists>f\<in>set (h # fs). g \<in> touched calls s f \<and> \<not> timer_less_than (us_handles s) g f"
    if g: "g \<in> due s - set (h # fs)" for g
  proof (cases "g \<in> touched calls s h")
    case True
    then show ?thesis using least g by (auto simp: due_def)
  next
    case False
    then have "g \<notin> ?ms" "g \<in> due t - set fs" using g due by auto
    then obtain f where "f \<in> set fs" "g \<in> touched calls t f" "\<not> timer_less_than (us_handles t) g f"
      using fs by (auto simp: fires_def)
    then show ?thesis using moved_touched [OF mv out] moved_less [OF mv _ out] \<open>g \<notin> ?ms\<close> by auto
  qed
  moreover have "distinct (h # fs)" "set (h # fs) \<subseteq> due s" using fs sub h by (auto simp: fires_def)
  moreover have "\<forall>f\<in>set fs. \<not> timer_less_than (us_handles s) f h \<and> f \<notin> touched calls s h"
    using sub least by (auto simp: due_def)
  ultimately show ?thesis by (simp add: fires_def)
qed

lemma untouched_step:
  assumes mv: "timers_moved ({h} \<union> touched calls s h) s t" and h: "h \<in> due s" and fs: "set fs \<subseteq> due t"
    and un: "untouched_after calls t fs s'"
    and self: "h \<notin> touched calls s h \<Longrightarrow>
       uh_timer_cb (us_handles t h) = uh_timer_cb (us_handles s h) \<and> uh_repeat (us_handles t h) = uh_repeat (us_handles s h) \<and>
       (h \<in> active_timers t \<longleftrightarrow> rearmed s h) \<and> uh_timeout (us_handles t h) =
         (if rearmed s h then clamped_timeout (us_time s) (uh_repeat (us_handles s h)) else uh_timeout (us_handles s h))"
  shows "untouched_after calls s (h # fs) s'"
  unfolding untouched_after_def
proof (intro allI impI)
  fix g assume g: "\<forall>f\<in>set (h # fs). g \<notin> touched calls s f"
  let ?ms = "{h} \<union> touched calls s h"
  have due: "due t = due s - ?ms" using mv by (simp add: timers_moved_def)
  then have "f \<notin> ?ms" if "f \<in> set fs" for f using fs that by blast
  then have "\<forall>f\<in>set fs. g \<notin> touched calls t f" using g moved_touched [OF mv] by auto
  note after = un [unfolded untouched_after_def, rule_format, OF this [rule_format]]
  show "uh_timer_cb (us_handles s' g) = uh_timer_cb (us_handles s g) \<and>
        uh_repeat (us_handles s' g) = uh_repeat (us_handles s g) \<and>
        (g \<in> active_timers s' \<longleftrightarrow> (if g \<in> due s then rearmed s g else g \<in> active_timers s)) \<and>
        uh_timeout (us_handles s' g) =
          (if g \<in> due s \<and> rearmed s g then clamped_timeout (us_time s) (uh_repeat (us_handles s g))
           else uh_timeout (us_handles s g))"
  proof (cases "g = h")
    case True
    then show ?thesis using after self g h due by auto
  next
    case False
    then have out: "g \<notin> ?ms" using g by auto
    have same: "uh_timer_cb (us_handles t g) = uh_timer_cb (us_handles s g)"
      "uh_repeat (us_handles t g) = uh_repeat (us_handles s g)" "g \<in> active_timers t \<longleftrightarrow> g \<in> active_timers s"
      "uh_timeout (us_handles t g) = uh_timeout (us_handles s g)" "us_time t = us_time s"
      "g \<in> due t \<longleftrightarrow> g \<in> due s" "rearmed t g \<longleftrightarrow> rearmed s g"
      using mv out by (auto simp: timers_moved_def rearmed_def)
    show ?thesis using after unfolding same by blast
  qed
qed

lemma run_timers_round:
  assumes inv: "timer_inv s" and time: "us_time s \<noteq> - 1"
    and ts: "finite ts" "card ts < 2 ^ 32" "active_timers s \<subseteq> ts"
    and cs: "\<And>cb h. \<forall>c\<in>set (calls cb h). timer_call_ok ts s c" and due: "due s \<noteq> {}"
  obtains h t where "uv_run_timers (timer_cbs calls) s = uv_run_timers (timer_cbs calls) t"
    "timer_inv t" "active_timers t \<subseteq> ts" "h \<in> due s"
    "\<And>g. g \<in> active_timers s \<Longrightarrow> \<not> timer_less_than (us_handles s) g h"
    "timers_moved ({h} \<union> touched calls s h) (s\<lparr>us_trace := us_trace t\<rparr>) t"
    "us_trace t = us_trace s @ [(the (uh_timer_cb (us_handles s h)), h)]"
    "h \<notin> touched calls s h \<Longrightarrow>
       uh_timer_cb (us_handles t h) = uh_timer_cb (us_handles s h) \<and> uh_repeat (us_handles t h) = uh_repeat (us_handles s h) \<and>
       (h \<in> active_timers t \<longleftrightarrow> rearmed s h) \<and> uh_timeout (us_handles t h) =
         (if rearmed s h then clamped_timeout (us_time s) (uh_repeat (us_handles s h)) else uh_timeout (us_handles s h))"
proof -
  obtain h where min: "heap_min (us_timer_heap s) = Some h" "uh_timeout (us_handles s h) \<le> us_time s"
    and least: "\<And>g. g \<in> active_timers s \<Longrightarrow> \<not> timer_less_than (us_handles s) g h"
    by (rule due_least [OF inv due]) blast
  obtain s2 c where c: "uh_timer_cb (us_handles s h) = Some c"
    and run: "uv_run_timers (timer_cbs calls) s =
      do { s3 \<leftarrow> run_cb (timer_cbs calls) c h s2; uv_run_timers (timer_cbs calls) s3 }"
    and s2: "timer_inv s2" "timers_moved {h} s s2" "h \<in> due s" "uh_timer_cb (us_handles s2 h) = Some c"
    "uh_repeat (us_handles s2 h) = uh_repeat (us_handles s h)" "h \<in> active_timers s2 \<longleftrightarrow> rearmed s h"
    "uh_timeout (us_handles s2 h) =
       (if rearmed s h then clamped_timeout (us_time s) (uh_repeat (us_handles s h)) else uh_timeout (us_handles s h))"
    by (rule run_timers_step [OF inv time min]) blast
  have tr: "us_trace s2 = us_trace s" using s2(2) by (simp add: timers_moved_def)
  let ?tr = "us_trace s @ [(c, h)]"
  let ?s = "s2\<lparr>us_trace := ?tr\<rparr>"
  have sub: "active_timers s2 \<subseteq> ts"
  proof
    fix g assume "g \<in> active_timers s2"
    then have "g \<in> active_timers s" using s2(2,3) by (cases "g = h") (auto simp: timers_moved_def due_def)
    then show "g \<in> ts" using ts(3) by blast
  qed
  have "\<exists>t. do_timer_calls (calls c h) ?s = Some t \<and> timer_inv t \<and> active_timers t \<subseteq> ts \<and>
      timers_moved (call_timer ` set (calls c h)) ?s t"
  proof (rule timer_calls_correct [OF _ _ ts(1,2)])
    show "us_time ?s \<noteq> - 1" using s2(2) time by (simp add: timers_moved_def)
    show "\<forall>c\<in>set (calls c h). timer_call_ok ts ?s c"
      using cs [of c h] timers_moved_trace [OF s2(2), of ?tr]
      by (simp add: timers_moved_def timer_call_ok_def is_closing_iff has_flag_def)
  qed (use s2(1) sub in simp_all)
  then obtain t where t: "do_timer_calls (calls c h) ?s = Some t" "timer_inv t" "active_timers t \<subseteq> ts"
    "timers_moved (touched calls s h) ?s t" using c by (auto simp: touched_def)
  have trt: "us_trace t = ?tr" using t(4) by (simp add: timers_moved_def)
  have mv: "timers_moved ({h} \<union> touched calls s h) (s\<lparr>us_trace := us_trace t\<rparr>) t"
    using timers_moved_trans [OF timers_moved_trace [OF s2(2)] t(4)] trt by simp
  have run': "uv_run_timers (timer_cbs calls) s = uv_run_timers (timer_cbs calls) t"
    using run t(1) tr by (simp add: run_cb_def timer_cbs_def)
  show thesis
    by (rule that [OF run' t(2,3) s2(3) least mv]) (use trt c t(4) s2(4-7) in \<open>auto simp: timers_moved_def\<close>)
qed

lemma fires_trace [simp]:
  "touched calls (s\<lparr>us_trace := tr\<rparr>) = touched calls s" "rearmed (s\<lparr>us_trace := tr\<rparr>) = rearmed s"
  "fires calls (s\<lparr>us_trace := tr\<rparr>) = fires calls s"
  "untouched_after calls (s\<lparr>us_trace := tr\<rparr>) = untouched_after calls s"
  by (auto simp: fun_eq_iff touched_def rearmed_def is_closing_iff has_flag_def fires_def untouched_after_def)

lemma run_timers_correct:
  assumes "timer_inv s" "us_time s \<noteq> - 1" and ts: "finite ts" "card ts < 2 ^ 32" and "active_timers s \<subseteq> ts"
    and "\<And>cb h. \<forall>c\<in>set (calls cb h). timer_call_ok ts s c"
  shows "\<exists>s' fs. uv_run_timers (timer_cbs calls) s = Some s' \<and> timer_inv s' \<and> us_time s' = us_time s \<and>
    due s' = {} \<and> fires calls s fs \<and> untouched_after calls s fs s' \<and>
    us_trace s' = us_trace s @ map (\<lambda>h. (the (uh_timer_cb (us_handles s h)), h)) fs"
  using assms
proof (induction "card (due s)" arbitrary: s rule: less_induct)
  case less
  show ?case
  proof (cases "due s = {}")
    case True
    then show ?thesis using run_timers_none_due [OF less.prems(1) True, of "timer_cbs calls"] less.prems(1)
      by (intro exI [of _ s] exI [of _ "[]"]) (simp add: fires_def untouched_after_def)
  next
    case False
    let ?r = "uv_run_timers (timer_cbs calls)" and ?c = "\<lambda>h. (the (uh_timer_cb (us_handles s h)), h)"
    obtain h t where t: "?r s = ?r t" "timer_inv t" "active_timers t \<subseteq> ts" and h: "h \<in> due s"
      and least: "\<And>g. g \<in> active_timers s \<Longrightarrow> \<not> timer_less_than (us_handles s) g h"
      and mv: "timers_moved ({h} \<union> touched calls s h) (s\<lparr>us_trace := us_trace t\<rparr>) t"
      and tr: "us_trace t = us_trace s @ [?c h]"
      and self: "h \<notin> touched calls s h \<Longrightarrow>
       uh_timer_cb (us_handles t h) = uh_timer_cb (us_handles s h) \<and> uh_repeat (us_handles t h) = uh_repeat (us_handles s h) \<and>
       (h \<in> active_timers t \<longleftrightarrow> rearmed s h) \<and> uh_timeout (us_handles t h) =
         (if rearmed s h then clamped_timeout (us_time s) (uh_repeat (us_handles s h)) else uh_timeout (us_handles s h))"
      by (rule run_timers_round [where calls = calls, OF less.prems(1,2) ts less.prems(5,6) False]) blast
    have mv': "due t = due s - ({h} \<union> touched calls s h)" "us_time t = us_time s"
      "\<And>c. timer_call_ok ts t c = timer_call_ok ts s c"
      using mv by (auto simp: timers_moved_def timer_call_ok_def is_closing_iff has_flag_def)
    have "finite (due s)" using timer_inv_finite [OF less.prems(1)] by (simp add: due_def)
    then have "card (due t) < card (due s)" by (rule psubset_card_mono) (use mv'(1) h in auto)
    then obtain s' fs where ih: "?r t = Some s'" "timer_inv s'" "us_time s' = us_time t" "due s' = {}"
      "fires calls t fs" "untouched_after calls t fs s'"
      "us_trace s' = us_trace t @ map (\<lambda>h. (the (uh_timer_cb (us_handles t h)), h)) fs"
      using less.hyps [of t] t(2,3) less.prems(2,6) ts mv'(2,3) by auto
    have sub: "set fs \<subseteq> due t" using ih(5) by (simp add: fires_def)
    have "uh_timer_cb (us_handles t f) = uh_timer_cb (us_handles s f)" if "f \<in> set fs" for f
      using mv sub that mv'(1) by (auto simp: timers_moved_def)
    then have tr': "us_trace s' = us_trace s @ map ?c (h # fs)" using ih(7) tr by simp
    have "fires calls s (h # fs)"
      using fires_step [of h calls "s\<lparr>us_trace := us_trace t\<rparr>" t fs] mv h least ih(5) by simp
    moreover have "untouched_after calls s (h # fs) s'"
      using untouched_step [of h calls "s\<lparr>us_trace := us_trace t\<rparr>" t fs s'] mv h sub ih(6) self by simp
    ultimately show ?thesis using t(1) ih(1-4) mv'(2) tr' by (intro exI [of _ s'] exI [of _ "h # fs"]) simp
  qed
qed

lemma next_timeout_correct:
  assumes inv: "timer_inv s"
  shows "if active_timers s = {} then uv_next_timeout s = - 1
    else \<exists>h\<in>active_timers s. (\<forall>g\<in>active_timers s. uh_timeout (us_handles s h) \<le> uh_timeout (us_handles s g)) \<and>
      uv_next_timeout s = min (2 ^ 31 - 1) (int (unat (uh_timeout (us_handles s h)) - unat (us_time s)))"
proof -
  have rep: "heap_rep (timer_less_than (us_handles s)) (us_timer_heap s) (active_timers s)"
    using inv by (simp add: timer_inv_def)
  show ?thesis
  proof (cases "heap_min (us_timer_heap s)")
    case None
    then have "active_timers s = {}" using th.min_correct(1) [OF rep] by simp
    then show ?thesis using None by (simp add: uv_next_timeout_def)
  next
    case (Some h)
    then have h: "h \<in> active_timers s" "\<forall>g\<in>active_timers s. \<not> timer_less_than (us_handles s) g h"
      using th.min_correct(2) [OF rep Some] by blast+
    have least: "uh_timeout (us_handles s h) \<le> uh_timeout (us_handles s g)" if "g \<in> active_timers s" for g
      using h(2) that by (auto simp: timer_less_than_def Let_def not_less split: if_splits)
    have val: "uv_next_timeout s =
        min (2 ^ 31 - 1) (int (unat (uh_timeout (us_handles s h)) - unat (us_time s)))"
    proof (cases "uh_timeout (us_handles s h) \<le> us_time s")
      case True
      then show ?thesis using Some by (simp add: uv_next_timeout_def word_le_nat_alt)
    next
      case False
      then have "unat (uh_timeout (us_handles s h) - us_time s) =
          unat (uh_timeout (us_handles s h)) - unat (us_time s)"
        by (intro unat_sub) simp
      moreover have "uint (uh_timeout (us_handles s h) - us_time s) =
          int (unat (uh_timeout (us_handles s h) - us_time s))" by (rule uint_nat)
      ultimately show ?thesis using Some False
        by (simp add: uv_next_timeout_def Let_def INT_MAX_def word_less_nat_alt min_def)
    qed
    have "active_timers s \<noteq> {}" using h(1) by blast
    then show ?thesis using h(1) least val by (auto intro!: bexI [of _ h])
  qed
qed

section \<open>Properties\<close>

text \<open>
  C26: \<open>uv_timer_start\<close> on an open timer handle with a callback succeeds whenever fewer than
  \<open>2 ^ 32 - 1\<close> other timers run: the timer is active with the callback, repeat value and
  start number it was given, its deadline is the current time plus the timeout, saturated at
  \<open>UINT64_MAX\<close> instead of wrapping, and the heap again holds exactly the active timers in
  order. The clock is as before, no callback runs, and the deadline, start number, callback
  and repeat value of every other timer are untouched. This includes restarting a running timer.
\<close>

theorem timer_start_ok:
  assumes "timer_inv s" and "uh_type (us_handles s h) = UV_TIMER" and "\<not> uv_is_closing s h"
    and "card (active_timers s - {h}) < 2 ^ 32 - 1"
  shows "\<exists>s'. uv_timer_start h (Some cb) timeout repeat s = Some (0, s') \<and> timer_inv s' \<and>
    active_timers s' = insert h (active_timers s) \<and>
    unat (uh_timeout (us_handles s' h)) = min (2 ^ 64 - 1) (unat (us_time s) + unat timeout) \<and>
    uh_timer_cb (us_handles s' h) = Some cb \<and> uh_repeat (us_handles s' h) = repeat \<and>
    uh_start_id (us_handles s' h) = us_timer_counter s \<and> us_timer_counter s' = us_timer_counter s + 1 \<and>
    us_time s' = us_time s \<and> us_trace s' = us_trace s \<and>
    (\<forall>g. g \<noteq> h \<longrightarrow> uh_timeout (us_handles s' g) = uh_timeout (us_handles s g) \<and>
       uh_start_id (us_handles s' g) = uh_start_id (us_handles s g) \<and>
       uh_timer_cb (us_handles s' g) = uh_timer_cb (us_handles s g) \<and>
       uh_repeat (us_handles s' g) = uh_repeat (us_handles s g))"
proof -
  have sat: "unat (clamped_timeout (us_time s) timeout) = min (2 ^ 64 - 1) (unat (us_time s) + unat timeout)"
    by (rule clamped_saturates)
  show ?thesis
    by (rule timer_start_correct [OF assms(1-3) _ assms(4), of "Some cb" timeout repeat])
      (simp, rule exI, auto simp: sat)
qed

text \<open>A loop with handles of type \<open>UV_TIMER\<close> that are not started, used in the examples.\<close>

definition idle_timers :: uv_sys where
  "idle_timers =
     \<lparr>us_handles = (\<lambda>_. \<lparr>uh_type = UV_TIMER, uh_flags = UV_HANDLE_REF, uh_next_closing = None,
        uh_close_cb = None, uh_timer_cb = None, uh_timeout = 0, uh_repeat = 0, uh_start_id = 0,
        uh_watch_cb = None, uh_caught_signals = 0, uh_dispatched_signals = 0\<rparr>),
      us_timer_heap = heap_init (\<lambda>_. \<lparr>hn_left = None, hn_right = None, hn_parent = None\<rparr>),
      us_time = 100, us_timer_counter = 0, us_active_handles = 0, us_active_reqs = 0,
      us_closing_handles = None, us_stop_flag = False, us_handle_queue = [], us_idle = [],
      us_prepare = [], us_check = [], us_running = [],
      us_io = \<lparr>il_io = (\<lambda>_. \<lparr>io_cb = Other_io 0, io_fd = - 1, io_events = 0, io_pevents = 0\<rparr>),
        il_watchers = [], il_nwatchers = 0, il_nfds = 0, il_watcher_queue = [], il_pending = [],
        il_pending_local = []\<rparr>,
      us_async_handles = [], us_poll_trace = [], us_trace = []\<rparr>"

lemma idle_timers_inv: "timer_inv idle_timers" "active_timers idle_timers = {}"
  "\<not> uv_is_closing idle_timers h" "uh_type (us_handles idle_timers h) = UV_TIMER"
proof -
  show a: "active_timers idle_timers = {}"
    by (simp add: active_timers_def idle_timers_def has_flag_def UV_HANDLE_REF_def UV_HANDLE_ACTIVE_def)
  have "heap_rep (timer_less_than (us_handles idle_timers)) (us_timer_heap idle_timers) {}"
    by (simp add: idle_timers_def heap_init_rep)
  then show "timer_inv idle_timers" using a by (simp add: timer_inv_def)
  show "\<not> uv_is_closing idle_timers h"
    by (simp add: is_closing_iff has_flag_def idle_timers_def UV_HANDLE_REF_def UV_HANDLE_CLOSING_def
        UV_HANDLE_CLOSED_def)
  show "uh_type (us_handles idle_timers h) = UV_TIMER" by (simp add: idle_timers_def)
qed

lemma two_timers:
  obtains s where "timer_inv s" "active_timers s = {7, 8}" "\<And>g. uh_type (us_handles s g) = UV_TIMER"
    "uh_timeout (us_handles s 7) = 105" "uh_timeout (us_handles s 8) = 103" "us_time s = 100"
    "uh_timer_cb (us_handles s 7) = Some 1" "uh_timer_cb (us_handles s 8) = Some 2" "us_trace s = []"
    "\<And>g. \<not> uv_is_closing s g"
proof -
  have c: "clamped_timeout 100 5 = 105" "clamped_timeout 100 3 = 103" by (simp_all add: clamped_timeout_def)
  have i: "us_time idle_timers = 100" "us_trace idle_timers = []" by (simp_all add: idle_timers_def)
  obtain s1 where s1: "timer_inv s1" "active_timers s1 = {7}" "us_time s1 = 100" "us_trace s1 = []"
    "\<And>g. uh_type (us_handles s1 g) = UV_TIMER" "uh_timeout (us_handles s1 7) = 105"
    "uh_timer_cb (us_handles s1 7) = Some 1" "\<And>g. \<not> uv_is_closing s1 g"
    by (rule timer_start_correct [of idle_timers 7 "Some 1" 5 0]) (simp_all add: idle_timers_inv i c)
  obtain s where "timer_inv s" "active_timers s = {8, 7}" "us_time s = 100" "us_trace s = []"
    "\<And>g. uh_type (us_handles s g) = UV_TIMER" "uh_timeout (us_handles s 8) = 103"
    "uh_timer_cb (us_handles s 8) = Some 2" "uh_timeout (us_handles s 7) = 105"
    "uh_timer_cb (us_handles s 7) = Some 1" "\<And>g. \<not> uv_is_closing s g"
    by (rule timer_start_correct [of s1 8 "Some 2" 3 0]) (simp_all add: s1 c)
  then show thesis using that [of s] by (simp add: insert_commute)
qed

lemma three_timers:
  obtains s where "timer_inv s" "active_timers s = {7, 8, 9}" "us_time s = 110" "us_trace s = []"
    "uh_timeout (us_handles s 7) = 105" "uh_timeout (us_handles s 8) = 103" "uh_timeout (us_handles s 9) = 107"
    "uh_timer_cb (us_handles s 8) = Some 2" "uh_timer_cb (us_handles s 9) = Some 3"
    "uh_type (us_handles s 7) = UV_TIMER" "uh_type (us_handles s 8) = UV_TIMER"
    "\<not> uv_is_closing s 7" "\<not> uv_is_closing s 8"
proof -
  have c: "clamped_timeout 100 7 = 107" by (simp add: clamped_timeout_def)
  obtain s1 where s1: "timer_inv s1" "active_timers s1 = {7, 8}" "\<And>g. uh_type (us_handles s1 g) = UV_TIMER"
    "uh_timeout (us_handles s1 7) = 105" "uh_timeout (us_handles s1 8) = 103" "us_time s1 = 100"
    "uh_timer_cb (us_handles s1 7) = Some 1" "uh_timer_cb (us_handles s1 8) = Some 2" "us_trace s1 = []"
    "\<And>g. \<not> uv_is_closing s1 g"
    by (rule two_timers) blast
  obtain s where s: "timer_inv s" "active_timers s = {9, 7, 8}" "us_trace s = []"
    "\<And>g. uh_type (us_handles s g) = UV_TIMER" "uh_timeout (us_handles s 9) = 107"
    "uh_timer_cb (us_handles s 9) = Some 3" "uh_timeout (us_handles s 7) = 105" "uh_timeout (us_handles s 8) = 103"
    "uh_timer_cb (us_handles s 8) = Some 2" "\<And>g. \<not> uv_is_closing s g"
    by (rule timer_start_correct [of s1 9 "Some 3" 7 0]) (simp_all add: s1 c)
  let ?s = "s\<lparr>us_time := 110\<rparr>"
  have act: "active_timers ?s = {7, 8, 9}" using s(2) by (auto simp: active_timers_def has_flag_def)
  have "timer_inv ?s" using s(1,2) act by (simp add: timer_inv_def insert_commute)
  moreover have "\<not> uv_is_closing ?s g" for g using s(10) [of g] by (simp add: is_closing_iff has_flag_def)
  ultimately show thesis using that [of ?s] act s by simp
qed

theorem timer_start_ok_witness:
  "\<exists>s'. uv_timer_start 7 (Some 1) (- 1) 0 idle_timers = Some (0, s') \<and> timer_inv s' \<and>
    active_timers s' = {7} \<and> unat (uh_timeout (us_handles s' 7)) = 2 ^ 64 - 1"
proof -
  have "unat (- 1 :: u64) = 2 ^ 64 - 1" by (simp add: unsigned_minus_1_eq_mask mask_eq_exp_minus_1)
  then show ?thesis
    using timer_start_ok [of idle_timers 7 1 "- 1" 0] idle_timers_inv by auto
qed

text \<open>
  \<open>uv_timer_stop\<close> on any timer handle succeeds, leaves exactly the other active timers in
  the heap, and keeps deadlines, callbacks and repeat values.
\<close>

theorem timer_stop_ok:
  assumes "timer_inv s" and "uh_type (us_handles s h) = UV_TIMER"
  shows "\<exists>s'. uv_timer_stop h s = Some (0, s') \<and> timer_inv s' \<and> active_timers s' = active_timers s - {h} \<and>
    timers_frame s s' \<and> (\<forall>g. uh_timeout (us_handles s' g) = uh_timeout (us_handles s g))"
  by (rule timer_stop_correct [OF assms]) blast

theorem timer_stop_ok_witness:
  "\<exists>s s'. active_timers s = {7, 8} \<and> uv_timer_stop 7 s = Some (0, s') \<and> active_timers s' = {8}"
proof -
  obtain s where s: "timer_inv s" "active_timers s = {7, 8}" "uh_type (us_handles s 7) = UV_TIMER"
    by (rule two_timers) blast
  then show ?thesis using timer_stop_ok [OF s(1,3)] by fastforce
qed

text \<open>
  C16: \<open>uv__run_timers\<close> ends for every clock value below \<open>UINT64_MAX\<close>, with callbacks that
  start (with a timeout that is not zero) and stop open timers, any number of them and in any
  order, fewer than \<open>2 ^ 32\<close> timers in all. It calls the due timers, one-shot or repeating,
  each at most once with the callback it was started with, in the order of deadlines, ties
  broken by the order of the starts; no timer is called after a callback has stopped or
  restarted it, and a due timer is only left out when the callback of a timer before it has
  stopped or restarted it. Timers that no callback touched are as they were, except that the
  due ones are inactive or, when they repeat, re-armed one period from now. Afterwards no
  timer is due.
\<close>

theorem run_timers_fires_due_in_order:
  assumes "timer_inv s" and "us_time s \<noteq> - 1" and "finite ts" and "card ts < 2 ^ 32" and "active_timers s \<subseteq> ts"
    and "\<And>cb h. \<forall>c\<in>set (calls cb h). timer_call_ok ts s c"
  shows "\<exists>s' fs. uv_run_timers (timer_cbs calls) s = Some s' \<and> timer_inv s' \<and> us_time s' = us_time s \<and>
    due s' = {} \<and> fires calls s fs \<and> untouched_after calls s fs s' \<and>
    us_trace s' = us_trace s @ map (\<lambda>h. (the (uh_timer_cb (us_handles s h)), h)) fs"
  by (rule run_timers_correct [OF assms])

text \<open>
  Three due timers; the callback of the first one stops the second and starts the first again.
\<close>

definition sample_calls :: "nat \<Rightarrow> nat \<Rightarrow> timer_call list" where
  "sample_calls cb h = (if h = 8 then [Stop_timer 7, Start_timer 8 4 20 0] else [])"

theorem run_timers_fires_due_in_order_witness:
  "\<exists>s s'. active_timers s = {7, 8, 9} \<and> due s = {7, 8, 9} \<and> uv_run_timers (timer_cbs sample_calls) s = Some s' \<and>
     us_trace s' = [(2, 8), (3, 9)] \<and> due s' = {}"
proof -
  obtain s where s: "timer_inv s" "active_timers s = {7, 8, 9}" "us_time s = 110" "us_trace s = []"
    "uh_timeout (us_handles s 7) = 105" "uh_timeout (us_handles s 8) = 103" "uh_timeout (us_handles s 9) = 107"
    "uh_timer_cb (us_handles s 8) = Some 2" "uh_timer_cb (us_handles s 9) = Some 3"
    "uh_type (us_handles s 7) = UV_TIMER" "uh_type (us_handles s 8) = UV_TIMER"
    "\<not> uv_is_closing s 7" "\<not> uv_is_closing s 8"
    by (rule three_timers)
  have "\<forall>h\<in>active_timers s. uh_timeout (us_handles s h) \<le> us_time s" using s(3,5-7) unfolding s(2) by simp
  then have due: "due s = {7, 8, 9}" using s(2) unfolding due_def by blast
  have touched: "g \<in> touched sample_calls s f \<longleftrightarrow> f = 8 \<and> (g = 7 \<or> g = 8)" for f g
    by (cases "f = 8") (auto simp: touched_def sample_calls_def)
  have ok: "\<forall>c\<in>set (sample_calls cb h). timer_call_ok {7, 8, 9} s c" for cb h
    using s(10-13) by (auto simp: sample_calls_def timer_call_ok_def)
  have time: "us_time s \<noteq> - 1" using s(3) by simp
  obtain s' fs where r: "uv_run_timers (timer_cbs sample_calls) s = Some s'" "due s' = {}"
    "fires sample_calls s fs" "us_trace s' = us_trace s @ map (\<lambda>h. (the (uh_timer_cb (us_handles s h)), h)) fs"
    using run_timers_fires_due_in_order [where calls = sample_calls, OF s(1) time _ _ _ ok] s(2) by auto
  have fs: "fs = [8, 9]"
  proof -
    have less: "timer_less_than (us_handles s) 8 7" "timer_less_than (us_handles s) 8 9"
      using s(5-7) by (simp_all add: timer_less_than_def)
    have left: "\<exists>f\<in>set fs. g \<in> touched sample_calls s f" if "g \<in> {7, 8, 9}" "g \<notin> set fs" for g
      using r(3) due that unfolding fires_def by blast
    have nine: "9 \<in> set fs" and eight: "8 \<in> set fs" using left [of 9] left [of 8] unfolding touched by auto
    obtain a as where fs: "fs = a # as" using nine by (cases fs) simp_all
    have "a \<in> {7, 8, 9}" "8 \<in> set as \<Longrightarrow> \<not> timer_less_than (us_handles s) 8 a"
      using r(3) fs due by (simp_all add: fires_def)
    then have "a = 8" using eight fs less by auto
    moreover have "7 \<notin> set as" "8 \<notin> set as" using r(3) fs \<open>a = 8\<close> by (auto simp: fires_def touched)
    moreover have "set as \<subseteq> {7, 8, 9}" "distinct as" using r(3) fs due by (simp_all add: fires_def)
    ultimately have as: "set as = {9}" "distinct as" using nine fs by auto
    have "length as = 1" using distinct_card [OF as(2)] as(1) by simp
    then have "as = [9]" using as(1) by (cases as) auto
    then show ?thesis using fs \<open>a = 8\<close> by simp
  qed
  then have "us_trace s' = [(2, 8), (3, 9)]" using r(4) s(4,8,9) by simp
  then show ?thesis using s(2) due r(1,2) by blast
qed

text \<open>
  C27: \<open>uv__next_timeout\<close> is \<open>-1\<close> exactly when no timer is active; otherwise it is the time
  until the earliest deadline, 0 if that has passed, capped at \<open>INT_MAX\<close>.
\<close>

theorem next_timeout_is_earliest_deadline:
  assumes "timer_inv s"
  shows "if active_timers s = {} then uv_next_timeout s = - 1
    else \<exists>h\<in>active_timers s. (\<forall>g\<in>active_timers s. uh_timeout (us_handles s h) \<le> uh_timeout (us_handles s g)) \<and>
      uv_next_timeout s = min (2 ^ 31 - 1) (int (unat (uh_timeout (us_handles s h)) - unat (us_time s)))"
  by (rule next_timeout_correct [OF assms])

theorem next_timeout_is_earliest_deadline_witness:
  "\<exists>s. active_timers s = {7, 8} \<and> uh_timeout (us_handles s 7) = 105 \<and> uh_timeout (us_handles s 8) = 103 \<and>
     us_time s = 100 \<and> uv_next_timeout s = 3"
proof -
  obtain s where s: "timer_inv s" "active_timers s = {7, 8}"
    "uh_timeout (us_handles s 7) = 105" "uh_timeout (us_handles s 8) = 103" "us_time s = 100"
    by (rule two_timers) blast
  have "\<exists>h\<in>active_timers s. (\<forall>g\<in>active_timers s. uh_timeout (us_handles s h) \<le> uh_timeout (us_handles s g)) \<and>
      uv_next_timeout s = min (2 ^ 31 - 1) (int (unat (uh_timeout (us_handles s h)) - unat (us_time s)))"
    using next_timeout_is_earliest_deadline [OF s(1)] s(2) by simp
  then have "uv_next_timeout s = 3" using s(2-5) by auto
  then show ?thesis using s by blast
qed

end
