(* ===== verification/Uv_Queue.thy ===== *)
theory Uv_Queue
  imports Machine_Base
begin

text \<open>
  The intrusive circular queue of libuv (\<open>queue.h\<close>): every node, the head included, has a
  \<open>next\<close> and a \<open>prev\<close> pointer. The macros are modelled as the writes they expand to, in
  their order, and each is proved to implement an operation on lists. The other theories
  therefore keep queues as lists.
\<close>

section \<open>The macros\<close>

record 'a qnode =
  q_next :: 'a
  q_prev :: 'a

type_synonym 'a qmem = "'a \<Rightarrow> 'a qnode"

definition set_next :: "'a \<Rightarrow> 'a \<Rightarrow> 'a qmem \<Rightarrow> 'a qmem" where
  "set_next a v m = m(a := (m a)\<lparr>q_next := v\<rparr>)"

definition set_prev :: "'a \<Rightarrow> 'a \<Rightarrow> 'a qmem \<Rightarrow> 'a qmem" where
  "set_prev a v m = m(a := (m a)\<lparr>q_prev := v\<rparr>)"

definition QUEUE_EMPTY :: "'a \<Rightarrow> 'a qmem \<Rightarrow> bool" where
  "QUEUE_EMPTY q m \<longleftrightarrow> q = q_next (m q)"

definition QUEUE_HEAD :: "'a \<Rightarrow> 'a qmem \<Rightarrow> 'a" where
  "QUEUE_HEAD q m = q_next (m q)"

definition QUEUE_INIT :: "'a \<Rightarrow> 'a qmem \<Rightarrow> 'a qmem" where
  "QUEUE_INIT q m = set_prev q q (set_next q q m)"

definition QUEUE_ADD :: "'a \<Rightarrow> 'a \<Rightarrow> 'a qmem \<Rightarrow> 'a qmem" where
  "QUEUE_ADD h n m =
     (let m1 = set_next (q_prev (m h)) (q_next (m n)) m;
          m2 = set_prev (q_next (m1 n)) (q_prev (m1 h)) m1;
          m3 = set_prev h (q_prev (m2 n)) m2
      in set_next (q_prev (m3 h)) h m3)"

definition QUEUE_SPLIT :: "'a \<Rightarrow> 'a \<Rightarrow> 'a \<Rightarrow> 'a qmem \<Rightarrow> 'a qmem" where
  "QUEUE_SPLIT h q n m =
     (let m1 = set_prev n (q_prev (m h)) m;
          m2 = set_next (q_prev (m1 n)) n m1;
          m3 = set_next n q m2;
          m4 = set_prev h (q_prev (m3 q)) m3;
          m5 = set_next (q_prev (m4 h)) h m4
      in set_prev q n m5)"

definition QUEUE_MOVE :: "'a \<Rightarrow> 'a \<Rightarrow> 'a qmem \<Rightarrow> 'a qmem" where
  "QUEUE_MOVE h n m = (if QUEUE_EMPTY h m then QUEUE_INIT n m else QUEUE_SPLIT h (QUEUE_HEAD h m) n m)"

definition QUEUE_INSERT_HEAD :: "'a \<Rightarrow> 'a \<Rightarrow> 'a qmem \<Rightarrow> 'a qmem" where
  "QUEUE_INSERT_HEAD h q m =
     (let m1 = set_next q (q_next (m h)) m;
          m2 = set_prev q h m1;
          m3 = set_prev (q_next (m2 q)) q m2
      in set_next h q m3)"

definition QUEUE_INSERT_TAIL :: "'a \<Rightarrow> 'a \<Rightarrow> 'a qmem \<Rightarrow> 'a qmem" where
  "QUEUE_INSERT_TAIL h q m =
     (let m1 = set_next q h m;
          m2 = set_prev q (q_prev (m1 h)) m1;
          m3 = set_next (q_prev (m2 q)) q m2
      in set_prev h q m3)"

definition QUEUE_REMOVE :: "'a \<Rightarrow> 'a qmem \<Rightarrow> 'a qmem" where
  "QUEUE_REMOVE q m =
     (let m1 = set_next (q_prev (m q)) (q_next (m q)) m
      in set_prev (q_next (m1 q)) (q_prev (m1 q)) m1)"

lemma set_next_sel [simp]:
  "q_next (set_next a v m b) = (if b = a then v else q_next (m b))"
  "q_prev (set_next a v m b) = q_prev (m b)"
  by (simp_all add: set_next_def)

lemma set_prev_sel [simp]:
  "q_prev (set_prev a v m b) = (if b = a then v else q_prev (m b))"
  "q_next (set_prev a v m b) = q_next (m b)"
  by (simp_all add: set_prev_def)

section \<open>Segments and rings\<close>

text \<open>\<open>seg m a xs b\<close>: from \<open>a\<close> the links lead through \<open>xs\<close> to \<open>b\<close>, and back.\<close>

fun seg :: "'a qmem \<Rightarrow> 'a \<Rightarrow> 'a list \<Rightarrow> 'a \<Rightarrow> bool" where
  "seg m a [] b \<longleftrightarrow> q_next (m a) = b \<and> q_prev (m b) = a"
| "seg m a (x # xs) b \<longleftrightarrow> q_next (m a) = x \<and> q_prev (m x) = a \<and> seg m x xs b"

text \<open>The queue with head \<open>h\<close> holds \<open>xs\<close>.\<close>

definition qrep :: "'a qmem \<Rightarrow> 'a \<Rightarrow> 'a list \<Rightarrow> bool" where
  "qrep m h xs \<longleftrightarrow> distinct (h # xs) \<and> seg m h xs h"

lemma seg_append: "seg m a (xs @ y # ys) b \<longleftrightarrow> seg m a xs y \<and> seg m y ys b"
  by (induction xs arbitrary: a) auto

lemma seg_cong:
  assumes "\<And>x. x \<in> set (a # xs) \<Longrightarrow> q_next (m' x) = q_next (m x)"
    and "\<And>x. x \<in> set (xs @ [b]) \<Longrightarrow> q_prev (m' x) = q_prev (m x)"
  shows "seg m' a xs b = seg m a xs b"
  using assms by (induction xs arbitrary: a) auto

lemma seg_first: "seg m a xs b \<Longrightarrow> q_next (m a) = hd (xs @ [b])"
  by (cases xs) auto

lemma seg_last: "seg m a xs b \<Longrightarrow> q_prev (m b) = last (a # xs)"
  by (induction xs arbitrary: a) auto

lemma qrep_empty: "qrep m h xs \<Longrightarrow> QUEUE_EMPTY h m \<longleftrightarrow> xs = []"
  by (cases xs) (auto simp: qrep_def QUEUE_EMPTY_def)

lemma qrep_head: "qrep m h (x # xs) \<Longrightarrow> QUEUE_HEAD h m = x"
  by (simp add: qrep_def QUEUE_HEAD_def)

lemma qrep_init: "qrep (QUEUE_INIT q m) q []"
  by (simp add: qrep_def QUEUE_INIT_def)

text \<open>Operations on one queue leave the others alone.\<close>

lemma qrep_frame:
  "qrep m h xs \<Longrightarrow> (\<And>x. x \<in> set (h # xs) \<Longrightarrow> m' x = m x) \<Longrightarrow> qrep m' h xs"
  unfolding qrep_def by (subst seg_cong [of h xs m' m]) auto

lemma insert_head_correct:
  assumes r: "qrep m h xs" and q: "q \<notin> set (h # xs)"
  shows "qrep (QUEUE_INSERT_HEAD h q m) h (q # xs)"
proof -
  let ?m = "QUEUE_INSERT_HEAD h q m"
  have d: "distinct (h # xs)" "seg m h xs h" using r by (simp_all add: qrep_def)
  have "seg ?m q xs h"
  proof (cases xs)
    case Nil
    then show ?thesis using d q by (simp add: QUEUE_INSERT_HEAD_def Let_def)
  next
    case (Cons x ys)
    then have "seg ?m x ys h = seg m x ys h"
      using d q by (intro seg_cong) (auto simp: QUEUE_INSERT_HEAD_def Let_def)
    then show ?thesis using d q Cons by (simp add: QUEUE_INSERT_HEAD_def Let_def)
  qed
  moreover have "q_next (m h) \<noteq> q" using seg_first [OF d(2)] q by (cases xs) auto
  ultimately show ?thesis using d q by (auto simp: qrep_def QUEUE_INSERT_HEAD_def Let_def)
qed

lemma insert_tail_correct:
  assumes r: "qrep m h xs" and q: "q \<notin> set (h # xs)"
  shows "qrep (QUEUE_INSERT_TAIL h q m) h (xs @ [q])"
proof -
  let ?m = "QUEUE_INSERT_TAIL h q m"
  have d: "distinct (h # xs)" "seg m h xs h" using r by (simp_all add: qrep_def)
  have "seg ?m h xs q"
  proof (cases xs rule: rev_cases)
    case Nil
    then show ?thesis using d q by (simp add: QUEUE_INSERT_TAIL_def Let_def)
  next
    case (snoc ys x)
    then have s: "seg m h ys x" "q_prev (m h) = x" using d by (auto simp: seg_append)
    then have "seg ?m h ys x = seg m h ys x"
      using d q snoc by (intro seg_cong) (auto simp: QUEUE_INSERT_TAIL_def Let_def)
    then show ?thesis using s d q snoc by (auto simp: seg_append QUEUE_INSERT_TAIL_def Let_def)
  qed
  moreover have "q_prev (m h) \<noteq> q" using seg_last [OF d(2)] q by (cases xs rule: rev_cases) auto
  ultimately show ?thesis using d q by (auto simp: qrep_def seg_append QUEUE_INSERT_TAIL_def Let_def)
qed

lemma unlink_correct:
  assumes r: "qrep m h (us @ q # vs)"
  shows "qrep (QUEUE_REMOVE q m) h (us @ vs)"
proof -
  let ?m = "QUEUE_REMOVE q m"
  have d: "distinct (h # us @ q # vs)" and s: "seg m h us q" "seg m q vs h"
    using r by (simp_all add: qrep_def seg_append)
  have links: "q_prev (m q) = last (h # us)" "q_next (m q) = hd (vs @ [h])"
    using seg_last [OF s(1)] seg_first [OF s(2)] by simp_all
  have ne: "last (h # us) \<noteq> q" "hd (vs @ [h]) \<noteq> q"
    using d by (cases us rule: rev_cases; cases vs; auto)+
  have m: "q_next (?m a) = (if a = last (h # us) then hd (vs @ [h]) else q_next (m a))"
    "q_prev (?m a) = (if a = hd (vs @ [h]) then last (h # us) else q_prev (m a))" for a
    unfolding QUEUE_REMOVE_def Let_def using links ne by auto
  have tail: "seg ?m (last (h # us)) vs h"
  proof (cases vs)
    case Nil
    then show ?thesis using m by simp
  next
    case (Cons v vs')
    have "last (h # us) \<in> set (h # us)" by (rule last_in_set) simp
    then have "v \<noteq> last (h # us)" "last (h # us) \<notin> set vs'"
      using d Cons by (auto simp del: last.simps)
    then have "seg ?m v vs' h = seg m v vs' h"
      using d Cons by (intro seg_cong) (auto simp: m)
    then show ?thesis using s(2) Cons m \<open>v \<noteq> last (h # us)\<close> by simp
  qed
  show ?thesis
  proof (cases us rule: rev_cases)
    case Nil
    then show ?thesis using d tail by (simp add: qrep_def)
  next
    case (snoc us' u)
    have "hd (vs @ [h]) \<noteq> u" "hd (vs @ [h]) \<notin> set us'" using d snoc by (cases vs; auto)+
    then have "seg ?m h us' u = seg m h us' u"
      using d snoc by (intro seg_cong) (auto simp: m)
    then show ?thesis using s(1) tail d snoc by (simp add: qrep_def seg_append)
  qed
qed

text \<open>Splitting at \<open>q\<close>: the new head \<open>n\<close> gets the nodes from \<open>q\<close> on.\<close>

lemma split_correct:
  assumes r: "qrep m h (us @ q # vs)" and n: "n \<notin> set (h # us @ q # vs)"
  shows "qrep (QUEUE_SPLIT h q n m) n (q # vs)" "qrep (QUEUE_SPLIT h q n m) h us"
proof -
  let ?m = "QUEUE_SPLIT h q n m"
  define p where "p = last (h # us)"
  define l where "l = last (q # vs)"
  have d: "distinct (h # us @ q # vs)" and s: "seg m h us q" "seg m q vs h"
    using r by (simp_all add: qrep_def seg_append)
  have links: "q_prev (m q) = p" "q_prev (m h) = l"
    using seg_last [OF s(1)] seg_last [OF s(2)] by (simp_all add: p_def l_def)
  have lp: "l \<in> set (q # vs)" "p \<in> set (h # us)" unfolding l_def p_def by (rule last_in_set; simp)+
  then have ne: "l \<noteq> n" "p \<noteq> n" "l \<noteq> p" "l \<noteq> h" "p \<noteq> q" "q \<noteq> h" "q \<noteq> n" "h \<noteq> n" using d n by auto
  have m: "q_next (?m a) = (if a = p then h else if a = n then q else if a = l then n else q_next (m a))"
    "q_prev (?m a) = (if a = q then n else if a = h then p else if a = n then l else q_prev (m a))" for a
    unfolding QUEUE_SPLIT_def Let_def using links ne by auto
  have "seg ?m q vs n"
  proof (cases vs rule: rev_cases)
    case Nil
    then show ?thesis using ne by (simp add: m l_def)
  next
    case (snoc vs' v)
    then have v: "l = v" "seg m q vs' v" using s(2) by (simp_all add: l_def seg_append)
    have "seg ?m q vs' v = seg m q vs' v"
      using d n snoc ne lp v(1) by (intro seg_cong) (auto simp: m)
    then show ?thesis using v snoc ne by (simp add: m seg_append)
  qed
  then show "qrep ?m n (q # vs)" using d n ne by (simp add: qrep_def m)
  show "qrep ?m h us"
  proof (cases us rule: rev_cases)
    case Nil
    then show ?thesis using ne by (simp add: qrep_def m p_def)
  next
    case (snoc us' u)
    then have u: "p = u" "seg m h us' u" using s(1) by (simp_all add: p_def seg_append)
    have "seg ?m h us' u = seg m h us' u"
      using d n snoc ne lp u(1) by (intro seg_cong) (auto simp: m)
    then show ?thesis using u d snoc ne by (simp add: m qrep_def seg_append)
  qed
qed

text \<open>Appending the queue of \<open>n\<close> to the one of \<open>h\<close> leaves the nodes between \<open>h\<close> and \<open>h\<close>.\<close>

lemma add_correct:
  assumes rh: "qrep m h us" and rn: "qrep m n (q # vs)" and disj: "set (h # us) \<inter> set (n # q # vs) = {}"
  shows "qrep (QUEUE_ADD h n m) h (us @ q # vs)"
proof -
  let ?m = "QUEUE_ADD h n m"
  define p where "p = last (h # us)"
  define l where "l = last (q # vs)"
  have d: "distinct (h # us @ q # vs)" "n \<notin> set (h # us @ q # vs)"
    using rh rn disj by (auto simp: qrep_def)
  have s: "seg m h us h" "q_next (m n) = q" "seg m q vs n" using rh rn by (simp_all add: qrep_def)
  have links: "q_prev (m h) = p" "q_prev (m n) = l"
    using seg_last [OF s(1)] seg_last [OF s(3)] by (simp_all add: p_def l_def)
  have lp: "l \<in> set (q # vs)" "p \<in> set (h # us)" unfolding l_def p_def by (rule last_in_set; simp)+
  then have ne: "l \<noteq> n" "p \<noteq> n" "l \<noteq> p" "l \<noteq> h" "p \<noteq> q" "q \<noteq> h" "q \<noteq> n" "h \<noteq> n" using d by auto
  have m: "q_next (?m a) = (if a = l then h else if a = p then q else q_next (m a))"
    "q_prev (?m a) = (if a = h then l else if a = q then p else q_prev (m a))" for a
    unfolding QUEUE_ADD_def Let_def using links s(2) ne by auto
  have "seg ?m h us q"
  proof (cases us rule: rev_cases)
    case Nil
    then show ?thesis using ne by (simp add: m p_def)
  next
    case (snoc us' u)
    then have u: "p = u" "seg m h us' u" using s(1) by (simp_all add: p_def seg_append)
    have "seg ?m h us' u = seg m h us' u"
      using d snoc ne lp u(1) by (intro seg_cong) (auto simp: m)
    then show ?thesis using u snoc ne by (simp add: m seg_append)
  qed
  moreover have "seg ?m q vs h"
  proof (cases vs rule: rev_cases)
    case Nil
    then show ?thesis using ne by (simp add: m l_def)
  next
    case (snoc vs' v)
    then have v: "l = v" "seg m q vs' v" using s(3) by (simp_all add: l_def seg_append)
    have "seg ?m q vs' v = seg m q vs' v"
      using d snoc ne lp v(1) by (intro seg_cong) (auto simp: m)
    then show ?thesis using v snoc ne by (simp add: m seg_append)
  qed
  ultimately show ?thesis using d by (simp add: qrep_def seg_append)
qed

lemma move_correct:
  assumes r: "qrep m h xs" and n: "n \<notin> set (h # xs)"
  shows "qrep (QUEUE_MOVE h n m) n xs" "qrep (QUEUE_MOVE h n m) h []"
proof -
  have "qrep (QUEUE_MOVE h n m) n xs \<and> qrep (QUEUE_MOVE h n m) h []"
  proof (cases xs)
    case Nil
    then have "QUEUE_MOVE h n m = QUEUE_INIT n m" using qrep_empty [OF r] by (simp add: QUEUE_MOVE_def)
    then show ?thesis using qrep_init [of n m] r n Nil
      by (auto simp: qrep_def QUEUE_INIT_def)
  next
    case (Cons x ys)
    then have "QUEUE_MOVE h n m = QUEUE_SPLIT h x n m"
      using qrep_empty [OF r] r by (simp add: QUEUE_MOVE_def qrep_head)
    then show ?thesis using split_correct [of m h "[]" x ys n] r n Cons by simp
  qed
  then show "qrep (QUEUE_MOVE h n m) n xs" "qrep (QUEUE_MOVE h n m) h []" by simp_all
qed

section \<open>The contract of a queue\<close>

text \<open>What the loops of libuv rely on: a queue is a list under these operations.\<close>

locale queue_ops =
  fixes rep :: "'m \<Rightarrow> 'a \<Rightarrow> 'a list \<Rightarrow> bool"
    and empty :: "'a \<Rightarrow> 'm \<Rightarrow> bool" and head :: "'a \<Rightarrow> 'm \<Rightarrow> 'a"
    and remove :: "'a \<Rightarrow> 'm \<Rightarrow> 'm" and insert_tail :: "'a \<Rightarrow> 'a \<Rightarrow> 'm \<Rightarrow> 'm"
  assumes rep_distinct: "rep m h xs \<Longrightarrow> distinct (h # xs)"
    and empty_iff: "rep m h xs \<Longrightarrow> empty h m \<longleftrightarrow> xs = []"
    and head_eq: "rep m h (x # xs) \<Longrightarrow> head h m = x"
    and remove_rep: "rep m h (us @ q # vs) \<Longrightarrow> rep (remove q m) h (us @ vs)"
    and tail_rep: "rep m h xs \<Longrightarrow> q \<notin> set (h # xs) \<Longrightarrow> rep (insert_tail h q m) h (xs @ [q])"
begin

text \<open>Rotating a queue: the head moves to the end.\<close>

lemma rotate_rep: "rep m h (x # xs) \<Longrightarrow> rep (insert_tail h (head h m) (remove (head h m) m)) h (xs @ [x])"
  using remove_rep [of m h "[]" x xs] rep_distinct [of m h "x # xs"] by (auto simp: head_eq intro!: tail_rep)

text \<open>A loop that removes the head until the queue is empty sees the nodes in order.\<close>

primrec drain :: "nat \<Rightarrow> 'a \<Rightarrow> 'm \<Rightarrow> 'a list" where
  "drain 0 h m = []"
| "drain (Suc n) h m = (if empty h m then [] else head h m # drain n h (remove (head h m) m))"

lemma drain_rep: "rep m h xs \<Longrightarrow> length xs \<le> n \<Longrightarrow> drain n h m = xs"
proof (induction n arbitrary: m xs)
  case (Suc n)
  then show ?case
    using remove_rep [of m h "[]"] by (cases xs) (auto simp: empty_iff head_eq)
qed simp

end

interpretation uvq: queue_ops qrep QUEUE_EMPTY QUEUE_HEAD QUEUE_REMOVE QUEUE_INSERT_TAIL
  by unfold_locales
    (auto simp: qrep_empty qrep_head intro: unlink_correct insert_tail_correct, auto simp: qrep_def)

section \<open>Properties\<close>

text \<open>
  \<open>QUEUE_MOVE\<close> to an unused head followed by the usual drain loop (take the head, remove
  it, until empty) visits exactly the nodes of the moved queue, in order and once each, and
  the original head is left empty.
\<close>

theorem queue_move_then_drain:
  assumes "qrep m h xs" and "n \<notin> set (h # xs)"
  shows "qrep (QUEUE_MOVE h n m) h [] \<and> uvq.drain (length xs) n (QUEUE_MOVE h n m) = xs"
  using move_correct [OF assms] uvq.drain_rep [OF move_correct(1) [OF assms] order_refl] by simp

theorem queue_move_then_drain_witness:
  "uvq.drain 2 9 (QUEUE_MOVE 0 9 (QUEUE_INSERT_TAIL 0 2 (QUEUE_INSERT_TAIL 0 1 (QUEUE_INIT 0
     (\<lambda>_. \<lparr>q_next = 0, q_prev = 0 :: nat\<rparr>))))) = [1, 2]"
proof -
  let ?m = "QUEUE_INSERT_TAIL 0 2 (QUEUE_INSERT_TAIL 0 1 (QUEUE_INIT 0 (\<lambda>_. \<lparr>q_next = 0, q_prev = 0 :: nat\<rparr>)))"
  have "qrep ?m 0 [1, 2]" by code_simp
  moreover have "9 \<notin> set (0 # [1, 2 :: nat])" by simp
  ultimately have "uvq.drain (length [1, 2 :: nat]) 9 (QUEUE_MOVE 0 9 ?m) = [1, 2]"
    by (rule queue_move_then_drain [THEN conjunct2])
  moreover have "length [1, 2 :: nat] = 2" by simp
  ultimately show ?thesis by (simp only:)
qed

text \<open>
  \<open>QUEUE_REMOVE\<close> unlinks a node from wherever it is in its queue and keeps the order of
  the others; a queue it is not part of is untouched.
\<close>

theorem queue_remove_ok:
  assumes "qrep m h (us @ q # vs)" and "qrep m g ws" and "q \<notin> set (g # ws)"
    and "set (h # us @ vs) \<inter> set (g # ws) = {}"
  shows "qrep (QUEUE_REMOVE q m) h (us @ vs) \<and> qrep (QUEUE_REMOVE q m) g ws"
proof -
  have s: "seg m h us q" "seg m q vs h" using assms(1) by (simp_all add: qrep_def seg_append)
  have "q_prev (m q) \<in> set (h # us)" "q_next (m q) \<in> set (vs @ [h])"
    unfolding seg_last [OF s(1)] seg_first [OF s(2)] by (rule last_in_set, simp, rule hd_in_set, simp)
  then have "QUEUE_REMOVE q m x = m x" if "x \<in> set (g # ws)" for x
    using assms(3,4) that by (auto simp: QUEUE_REMOVE_def Let_def set_next_def set_prev_def)
  then have "qrep (QUEUE_REMOVE q m) g ws" by (rule qrep_frame [OF assms(2)])
  then show ?thesis using unlink_correct [OF assms(1)] by simp
qed

theorem queue_remove_ok_witness:
  "\<exists>m. qrep m 0 [1, 2, 3 :: nat] \<and> qrep (QUEUE_REMOVE 2 m) 0 [1, 3] \<and> qrep (QUEUE_REMOVE 2 m) 9 []"
proof -
  let ?m0 = "QUEUE_INIT 9 (QUEUE_INIT 0 (\<lambda>_. \<lparr>q_next = 0, q_prev = 0 :: nat\<rparr>))"
  let ?m = "QUEUE_INSERT_TAIL 0 3 (QUEUE_INSERT_TAIL 0 2 (QUEUE_INSERT_TAIL 0 1 ?m0))"
  have "qrep ?m 0 [1, 2, 3]" "qrep ?m 9 []" by code_simp+
  then show ?thesis using queue_remove_ok [of ?m 0 "[1]" 2 "[3]" 9 "[]"] by auto
qed

end
