(* ===== verification/Uv_Watcher.thy ===== *)
theory Uv_Watcher
  imports Uv_Timer Uv_Queue
begin

text \<open>
  The prepare, check and idle watchers of libuv (\<open>unix/loop-watcher.c\<close>). The queues of the
  watchers are lists; the theory \<open>Uv_Queue\<close> proves that the queue macros implement the list
  operations used here.
\<close>

section \<open>Prepare, check and idle watchers\<close>

text \<open>
  The macro \<open>UV_LOOP_WATCHER_DEFINE\<close> is instantiated three times; the model passes the kind
  of watcher. While \<open>uv__run_idle\<close> and its siblings run, the handles not yet visited are in
  the local queue \<open>us_running\<close>. Removing a handle removes it from the queue it is in.
\<close>

datatype watcher = Prepare | Check | Idle

primrec watchers_of :: "watcher \<Rightarrow> uv_sys \<Rightarrow> nat list" where
  "watchers_of Prepare s = us_prepare s"
| "watchers_of Check s = us_check s"
| "watchers_of Idle s = us_idle s"

primrec set_watchers :: "watcher \<Rightarrow> nat list \<Rightarrow> uv_sys \<Rightarrow> uv_sys" where
  "set_watchers Prepare xs s = s\<lparr>us_prepare := xs\<rparr>"
| "set_watchers Check xs s = s\<lparr>us_check := xs\<rparr>"
| "set_watchers Idle xs s = s\<lparr>us_idle := xs\<rparr>"

primrec watcher_type :: "watcher \<Rightarrow> handle_type" where
  "watcher_type Prepare = UV_PREPARE"
| "watcher_type Check = UV_CHECK"
| "watcher_type Idle = UV_IDLE"

definition uv_watcher_init :: "watcher \<Rightarrow> nat \<Rightarrow> uv_sys \<Rightarrow> int \<times> uv_sys" where
  "uv_watcher_init k h s =
     (0, set_handle h (uh_watch_cb_update (\<lambda>_. None)) (handle_init h (watcher_type k) s))"

definition uv_watcher_start :: "watcher \<Rightarrow> nat \<Rightarrow> nat option \<Rightarrow> uv_sys \<Rightarrow> int \<times> uv_sys" where
  "uv_watcher_start k h cb s =
     (if uv_is_active s h then (0, s)
      else if cb = None then (UV_EINVAL, s)
      else let s1 = set_watchers k (h # watchers_of k s) s;
               s2 = set_handle h (uh_watch_cb_update (\<lambda>_. cb)) s1
           in (0, handle_start h s2))"

definition unqueue :: "watcher \<Rightarrow> nat \<Rightarrow> uv_sys \<Rightarrow> uv_sys" where
  "unqueue k h s =
     (let s1 = set_watchers k (removeAll h (watchers_of k s)) s
      in s1\<lparr>us_running := removeAll h (us_running s1)\<rparr>)"

definition uv_watcher_stop :: "watcher \<Rightarrow> nat \<Rightarrow> uv_sys \<Rightarrow> int \<times> uv_sys" where
  "uv_watcher_stop k h s =
     (if \<not> uv_is_active s h then (0, s) else (0, handle_stop h (unqueue k h s)))"

partial_function (option) run_watcher_loop :: "watcher \<Rightarrow> cb_sem \<Rightarrow> uv_sys \<Rightarrow> uv_sys option" where
  "run_watcher_loop k cbs s =
     (case us_running s of
        [] \<Rightarrow> Some s
      | h # hs \<Rightarrow>
          do { let s1 = s\<lparr>us_running := hs\<rparr>;
               let s2 = set_watchers k (watchers_of k s1 @ [h]) s1;
               cb \<leftarrow> uh_watch_cb (us_handles s2 h);
               s3 \<leftarrow> run_cb cbs cb h s2;
               run_watcher_loop k cbs s3 })"

definition uv_run_watcher :: "watcher \<Rightarrow> cb_sem \<Rightarrow> uv_sys \<Rightarrow> uv_sys option" where
  "uv_run_watcher k cbs s =
     run_watcher_loop k cbs (set_watchers k [] (s\<lparr>us_running := watchers_of k s\<rparr>))"

definition uv_watcher_close :: "watcher \<Rightarrow> nat \<Rightarrow> uv_sys \<Rightarrow> uv_sys" where
  "uv_watcher_close k h s = snd (uv_watcher_stop k h s)"

section \<open>Starting and stopping\<close>

lemma watchers_set [simp]:
  "watchers_of k (set_watchers k xs s) = xs"
  "us_running (set_watchers k xs s) = us_running s" "us_handles (set_watchers k xs s) = us_handles s"
  "us_trace (set_watchers k xs s) = us_trace s"
  "us_active_handles (set_watchers k xs s) = us_active_handles s"
  by (cases k; simp)+

lemma watchers_running [simp]: "watchers_of k (s\<lparr>us_running := xs\<rparr>) = watchers_of k s"
  by (cases k) simp_all

lemma watchers_trace [simp]: "watchers_of k (s\<lparr>us_trace := xs\<rparr>) = watchers_of k s"
  by (cases k) simp_all

lemma watchers_set_handle [simp]: "watchers_of k (set_handle h f s) = watchers_of k s"
  by (cases k) simp_all

lemma watchers_flags: "only_flags h s s' \<Longrightarrow> watchers_of k s' = watchers_of k s"
  by (cases k) (simp_all add: only_flagsD)

text \<open>
  The invariant of one kind of watcher: its queue, with the part of it that a running
  iteration still has to visit, holds the active handles of its type, each once, and each
  has a callback.
\<close>

definition watcher_inv :: "watcher \<Rightarrow> uv_sys \<Rightarrow> bool" where
  "watcher_inv k s \<longleftrightarrow>
     distinct (watchers_of k s @ us_running s) \<and>
     set (watchers_of k s @ us_running s) =
       {h. uh_type (us_handles s h) = watcher_type k \<and> has_flag s h UV_HANDLE_ACTIVE} \<and>
     (\<forall>h\<in>set (watchers_of k s @ us_running s). uh_watch_cb (us_handles s h) \<noteq> None)"

lemma watcher_start_inv:
  assumes inv: "watcher_inv k s" and ty: "uh_type (us_handles s h) = watcher_type k"
  shows "watcher_inv k (snd (uv_watcher_start k h (Some cb) s))"
    and "uv_is_active (snd (uv_watcher_start k h (Some cb) s)) h"
proof -
  let ?s2 = "set_handle h (uh_watch_cb_update (\<lambda>_. Some cb)) (set_watchers k (h # watchers_of k s) s)"
  let ?s = "handle_start h ?s2"
  note fr = only_flags_start(1) [of h ?s2]
  have flg: "has_flag ?s2 g fl = has_flag s g fl" for g fl by (simp add: has_flag_def)
  have "watcher_inv k ?s" if na: "\<not> uv_is_active s h"
  proof -
    have new: "h \<notin> set (watchers_of k s @ us_running s)"
      using inv na by (auto simp: watcher_inv_def uv_is_active_def)
    have lists: "watchers_of k ?s = h # watchers_of k s" "us_running ?s = us_running s"
      by (simp_all add: watchers_flags [OF fr] only_flagsD(10) [OF fr])
    have types: "uh_type (us_handles ?s g) = uh_type (us_handles s g)"
      "uh_watch_cb (us_handles ?s g) = (if g = h then Some cb else uh_watch_cb (us_handles s g))" for g
      by (simp_all add: only_flagsD(13,20) [OF fr])
    show ?thesis
      using inv new ty unfolding watcher_inv_def lists types by (auto simp: flags flg)
  qed
  then show "watcher_inv k (snd (uv_watcher_start k h (Some cb) s))"
    using inv by (auto simp: uv_watcher_start_def Let_def)
  show "uv_is_active (snd (uv_watcher_start k h (Some cb) s)) h"
    by (auto simp: uv_watcher_start_def Let_def uv_is_active_def flags)
qed

lemma watcher_stop_inv:
  assumes inv: "watcher_inv k s" and ty: "uh_type (us_handles s h) = watcher_type k"
  shows "watcher_inv k (snd (uv_watcher_stop k h s))"
    and "\<not> uv_is_active (snd (uv_watcher_stop k h s)) h"
    and "h \<notin> set (us_running (snd (uv_watcher_stop k h s)))"
proof -
  let ?s1 = "unqueue k h s" and ?s = "handle_stop h (unqueue k h s)"
  note fr = only_flags_start(2) [of h ?s1]
  have flg: "has_flag ?s1 g fl = has_flag s g fl" for g fl by (simp add: has_flag_def unqueue_def Let_def)
  have lists: "watchers_of k ?s = removeAll h (watchers_of k s)" "us_running ?s = removeAll h (us_running s)"
    unfolding watchers_flags [OF fr] only_flagsD(10) [OF fr] by (simp_all add: unqueue_def Let_def)
  have types: "uh_type (us_handles ?s g) = uh_type (us_handles s g)"
    "uh_watch_cb (us_handles ?s g) = uh_watch_cb (us_handles s g)" for g
    unfolding only_flagsD(13,20) [OF fr] by (simp_all add: unqueue_def Let_def)
  have "watcher_inv k ?s"
    using inv unfolding watcher_inv_def lists types by (auto simp: flags flg distinct_removeAll)
  then show "watcher_inv k (snd (uv_watcher_stop k h s))" using inv by (simp add: uv_watcher_stop_def)
  show "\<not> uv_is_active (snd (uv_watcher_stop k h s)) h"
    by (simp add: uv_watcher_stop_def uv_is_active_def flags)
  show "h \<notin> set (us_running (snd (uv_watcher_stop k h s)))"
    using inv ty lists(2) by (auto simp: uv_watcher_stop_def watcher_inv_def uv_is_active_def)
qed

section \<open>Callbacks that start and stop watchers\<close>

text \<open>
  What a callback does is a list of calls that start and stop watchers of any kind; it may
  depend on the callback and on its handle.
\<close>

datatype watcher_call = Start_watcher watcher nat nat | Stop_watcher watcher nat

primrec do_watcher_call :: "watcher_call \<Rightarrow> uv_sys \<Rightarrow> uv_sys" where
  "do_watcher_call (Start_watcher k g c) s = snd (uv_watcher_start k g (Some c) s)"
| "do_watcher_call (Stop_watcher k g) s = snd (uv_watcher_stop k g s)"

definition watcher_cbs :: "(nat \<Rightarrow> nat \<Rightarrow> watcher_call list) \<Rightarrow> cb_sem" where
  "watcher_cbs calls cb h s = Some (fold do_watcher_call (calls cb h) s)"

primrec call_handle :: "watcher_call \<Rightarrow> nat" where
  "call_handle (Start_watcher k g c) = g"
| "call_handle (Stop_watcher k g) = g"

primrec call_stops :: "watcher_call \<Rightarrow> nat set" where
  "call_stops (Start_watcher k g c) = {}"
| "call_stops (Stop_watcher k g) = {g}"

primrec call_kind :: "watcher_call \<Rightarrow> watcher" where
  "call_kind (Start_watcher k g c) = k"
| "call_kind (Stop_watcher k g) = k"

text \<open>A call names a handle of the kind of its function.\<close>

definition watcher_call_ok :: "uv_sys \<Rightarrow> watcher_call \<Rightarrow> bool" where
  "watcher_call_ok s c \<longleftrightarrow> uh_type (us_handles s (call_handle c)) = watcher_type (call_kind c)"

text \<open>Whether a handle is active after some calls.\<close>

fun active_after :: "watcher_call list \<Rightarrow> nat \<Rightarrow> bool \<Rightarrow> bool" where
  "active_after [] g b = b"
| "active_after (Start_watcher k h c # cs) g b = active_after cs g (b \<or> g = h)"
| "active_after (Stop_watcher k h # cs) g b = active_after cs g (b \<and> g \<noteq> h)"

lemma active_after_append: "active_after (xs @ ys) g b = active_after ys g (active_after xs g b)"
  by (induction xs g b rule: active_after.induct) simp_all

lemma watcher_type_inj [simp]: "watcher_type k = watcher_type k' \<longleftrightarrow> k = k'"
  by (cases k; cases k') simp_all

lemma watchers_set_other: "watchers_of k (set_watchers k' xs s) = (if k = k' then xs else watchers_of k s)"
  by (cases k; cases k') simp_all

lemma watcher_start_frame:
  fixes s :: uv_sys and h c :: nat and k' :: watcher
  defines "t \<equiv> snd (uv_watcher_start k' h (Some c) s)"
  shows "us_running t = us_running s" "us_trace t = us_trace s"
    "watchers_of k t = (if k = k' \<and> \<not> uv_is_active s h then h # watchers_of k s else watchers_of k s)"
    "uh_type (us_handles t g) = uh_type (us_handles s g)"
    "uh_watch_cb (us_handles t g) = (if g = h \<and> \<not> uv_is_active s h then Some c else uh_watch_cb (us_handles s g))"
    "has_flag t g UV_HANDLE_ACTIVE \<longleftrightarrow> g = h \<or> has_flag s g UV_HANDLE_ACTIVE"
proof -
  let ?s2 = "set_handle h (uh_watch_cb_update (\<lambda>_. Some c)) (set_watchers k' (h # watchers_of k' s) s)"
  note fr = only_flags_start(1) [of h ?s2]
  have flg: "has_flag ?s2 g fl = has_flag s g fl" for g fl by (simp add: has_flag_def)
  have t: "t = (if uv_is_active s h then s else handle_start h ?s2)"
    by (simp add: t_def uv_watcher_start_def Let_def)
  show "us_running t = us_running s" "us_trace t = us_trace s"
    by (simp_all add: t only_flagsD(4,10) [OF fr])
  show "watchers_of k t = (if k = k' \<and> \<not> uv_is_active s h then h # watchers_of k s else watchers_of k s)"
    by (simp add: t watchers_flags [OF fr] watchers_set_other)
  show "uh_type (us_handles t g) = uh_type (us_handles s g)"
    "uh_watch_cb (us_handles t g) = (if g = h \<and> \<not> uv_is_active s h then Some c else uh_watch_cb (us_handles s g))"
    by (simp_all add: t only_flagsD(13,20) [OF fr])
  show "has_flag t g UV_HANDLE_ACTIVE \<longleftrightarrow> g = h \<or> has_flag s g UV_HANDLE_ACTIVE"
    by (auto simp: t flags flg uv_is_active_def)
qed

lemma watcher_stop_frame:
  fixes s :: uv_sys and h :: nat and k' :: watcher
  defines "t \<equiv> snd (uv_watcher_stop k' h s)"
  shows "us_trace t = us_trace s"
    "us_running t = (if uv_is_active s h then removeAll h (us_running s) else us_running s)"
    "watchers_of k t = (if k = k' \<and> uv_is_active s h then removeAll h (watchers_of k s) else watchers_of k s)"
    "uh_type (us_handles t g) = uh_type (us_handles s g)"
    "uh_watch_cb (us_handles t g) = uh_watch_cb (us_handles s g)"
    "has_flag t g UV_HANDLE_ACTIVE \<longleftrightarrow> g \<noteq> h \<and> has_flag s g UV_HANDLE_ACTIVE"
proof -
  let ?s1 = "unqueue k' h s"
  note fr = only_flags_start(2) [of h ?s1]
  have flg: "has_flag ?s1 g fl = has_flag s g fl" for g fl by (simp add: has_flag_def unqueue_def Let_def)
  have t: "t = (if uv_is_active s h then handle_stop h ?s1 else s)" by (simp add: t_def uv_watcher_stop_def)
  show "us_trace t = us_trace s"
    "us_running t = (if uv_is_active s h then removeAll h (us_running s) else us_running s)"
    "uh_type (us_handles t g) = uh_type (us_handles s g)"
    "uh_watch_cb (us_handles t g) = uh_watch_cb (us_handles s g)"
    unfolding t by (simp_all add: only_flagsD(4,10,13,20) [OF fr]) (simp_all add: unqueue_def Let_def)
  show "watchers_of k t = (if k = k' \<and> uv_is_active s h then removeAll h (watchers_of k s) else watchers_of k s)"
    unfolding t by (simp add: watchers_flags [OF fr]) (simp add: unqueue_def Let_def watchers_set_other)
  show "has_flag t g UV_HANDLE_ACTIVE \<longleftrightarrow> g \<noteq> h \<and> has_flag s g UV_HANDLE_ACTIVE"
    by (auto simp: t flags flg uv_is_active_def)
qed

text \<open>
  \<open>called k cs s t\<close>: what the calls \<open>cs\<close> may have changed, seen from a round of kind \<open>k\<close>.
\<close>

definition called :: "watcher \<Rightarrow> watcher_call list \<Rightarrow> uv_sys \<Rightarrow> uv_sys \<Rightarrow> bool" where
  "called k cs s t \<longleftrightarrow>
     watcher_inv k t \<and> us_trace t = us_trace s \<and>
     us_running t = filter (\<lambda>g. g \<notin> (\<Union>c\<in>set cs. call_stops c)) (us_running s) \<and>
     filter (\<lambda>g. g \<notin> call_handle ` set cs) (watchers_of k t) = filter (\<lambda>g. g \<notin> call_handle ` set cs) (watchers_of k s) \<and>
     (\<forall>g. uh_type (us_handles t g) = uh_type (us_handles s g)) \<and>
     (\<forall>g. uv_is_active t g \<longleftrightarrow> active_after cs g (uv_is_active s g)) \<and>
     (\<forall>g\<in>set (us_running t). uh_watch_cb (us_handles t g) = uh_watch_cb (us_handles s g))"

lemma called_refl: "watcher_inv k s \<Longrightarrow> called k [] s s"
  by (simp add: called_def)

lemma called_trans:
  assumes "called k xs s t" "called k ys t u"
  shows "called k (xs @ ys) s u"
proof -
  let ?f = "\<lambda>cs. filter (\<lambda>g. g \<notin> call_handle ` set cs)"
  have f: "?f (xs @ ys) zs = ?f ys (?f xs zs)" "?f (xs @ ys) zs = ?f xs (?f ys zs)" for zs
    by (auto intro: filter_cong)
  have "?f (xs @ ys) (watchers_of k u) = ?f (xs @ ys) (watchers_of k s)"
    using assms unfolding called_def f(2) by (metis f)
  moreover have "us_running u = filter (\<lambda>g. g \<notin> (\<Union>c\<in>set (xs @ ys). call_stops c)) (us_running s)"
    using assms by (auto simp: called_def intro: filter_cong)
  ultimately show ?thesis using assms by (auto simp: called_def active_after_append)
qed

lemma watcher_call_correct:
  assumes inv: "watcher_inv k s" and ok: "watcher_call_ok s c"
  shows "called k [c] s (do_watcher_call c s)"
proof (cases c)
  case (Start_watcher k' h cb)
  note fr = watcher_start_frame [where k' = k' and h = h and c = cb and s = s]
  have ty: "uh_type (us_handles s h) = watcher_type k'" using ok Start_watcher by (simp add: watcher_call_ok_def)
  have new: "h \<notin> set (watchers_of k s @ us_running s)" if "k \<noteq> k' \<or> \<not> uv_is_active s h"
    using inv ty that by (auto simp: watcher_inv_def uv_is_active_def)
  have "watcher_inv k (snd (uv_watcher_start k' h (Some cb) s))"
  proof (cases "k = k'")
    case True
    then show ?thesis using watcher_start_inv(1) [OF inv] ty by simp
  next
    case False
    then show ?thesis
      using inv ty new unfolding watcher_inv_def fr by (auto simp: uv_is_active_def)
  qed
  then show ?thesis
    using Start_watcher new fr by (auto simp: called_def uv_is_active_def)
next
  case (Stop_watcher k' h)
  note fr = watcher_stop_frame [where k' = k' and h = h and s = s]
  have ty: "uh_type (us_handles s h) = watcher_type k'" using ok Stop_watcher by (simp add: watcher_call_ok_def)
  have new: "h \<notin> set (watchers_of k s @ us_running s)" if "k \<noteq> k' \<or> \<not> uv_is_active s h"
    using inv ty that by (auto simp: watcher_inv_def uv_is_active_def)
  have run: "us_running (snd (uv_watcher_stop k' h s)) = removeAll h (us_running s)"
    using new fr(2) by auto
  have "watcher_inv k (snd (uv_watcher_stop k' h s))"
  proof (cases "k = k'")
    case True
    then show ?thesis using watcher_stop_inv(1) [OF inv] ty by simp
  next
    case False
    then have "h \<notin> set (watchers_of k s @ us_running s)" using new by blast
    then show ?thesis using False
      using inv ty unfolding watcher_inv_def fr by auto
  qed
  then show ?thesis
    using Stop_watcher run fr(1,3-6) by (auto simp: called_def uv_is_active_def removeAll_filter_not_eq intro: filter_cong)
qed

lemma watcher_calls_correct:
  "watcher_inv k s \<Longrightarrow> \<forall>c\<in>set cs. watcher_call_ok s c \<Longrightarrow> called k cs s (fold do_watcher_call cs s)"
proof (induction cs arbitrary: s)
  case Nil
  then show ?case by (simp add: called_refl)
next
  case (Cons c cs)
  have c: "called k [c] s (do_watcher_call c s)" using Cons.prems by (intro watcher_call_correct) simp_all
  then have "called k cs (do_watcher_call c s) (fold do_watcher_call cs (do_watcher_call c s))"
    using Cons.prems by (intro Cons.IH) (auto simp: called_def watcher_call_ok_def)
  then show ?case using called_trans [OF c] by simp
qed

section \<open>One round of callbacks\<close>

text \<open>
  The handles a round calls: each handle of the queue, in order, unless a callback before it
  has stopped it. \<open>off h\<close> are the handles that the callback of \<open>h\<close> stops.
\<close>

function visit :: "(nat \<Rightarrow> nat set) \<Rightarrow> nat list \<Rightarrow> nat list" where
  "visit off [] = []"
| "visit off (h # hs) = h # visit off (filter (\<lambda>g. g \<notin> off h) hs)"
  by pat_completeness auto
termination
  by (relation "measure (\<lambda>(off, hs). length hs)") (auto simp: less_Suc_eq_le)

lemma visit_cong: "(\<And>h. h \<in> set hs \<Longrightarrow> off h = off' h) \<Longrightarrow> visit off hs = visit off' hs"
proof (induction off hs rule: visit.induct)
  case (2 off h hs)
  have "visit off (filter (\<lambda>g. g \<notin> off h) hs) = visit off' (filter (\<lambda>g. g \<notin> off h) hs)"
    by (rule "2.IH") (use "2.prems" in auto)
  then show ?case using "2.prems" [of h] by simp
qed simp

lemma set_visit: "set (visit off hs) \<subseteq> set hs"
  by (induction off hs rule: visit.induct) auto

text \<open>The calls that the callback of a handle makes, and the handles they stop.\<close>

definition calls_of :: "(nat \<Rightarrow> nat \<Rightarrow> watcher_call list) \<Rightarrow> uv_sys \<Rightarrow> nat \<Rightarrow> watcher_call list" where
  "calls_of calls s h = calls (the (uh_watch_cb (us_handles s h))) h"

lemma stops_named: "g \<in> call_stops c \<Longrightarrow> g = call_handle c"
  by (cases c) simp_all

definition stopped_by :: "(nat \<Rightarrow> nat \<Rightarrow> watcher_call list) \<Rightarrow> uv_sys \<Rightarrow> nat \<Rightarrow> nat set" where
  "stopped_by calls s h = (\<Union>c\<in>set (calls_of calls s h). call_stops c)"

text \<open>
  \<open>round_done k calls s hs t\<close>: the state \<open>t\<close> after a round that has called the handles \<open>hs\<close>.
\<close>

definition round_done ::
  "watcher \<Rightarrow> (nat \<Rightarrow> nat \<Rightarrow> watcher_call list) \<Rightarrow> uv_sys \<Rightarrow> nat list \<Rightarrow> uv_sys \<Rightarrow> bool" where
  "round_done k calls s hs t \<longleftrightarrow>
     watcher_inv k t \<and> us_running t = [] \<and>
     us_trace t = us_trace s @ map (\<lambda>h. (the (uh_watch_cb (us_handles s h)), h)) hs \<and>
     (\<forall>g. uv_is_active t g \<longleftrightarrow> active_after (concat (map (calls_of calls s) hs)) g (uv_is_active s g)) \<and>
     (let same = filter (\<lambda>g. g \<notin> (\<Union>h\<in>set hs. call_handle ` set (calls_of calls s h)))
      in same (watchers_of k t) = same (watchers_of k s @ us_running s))"

lemma run_watcher_step:
  assumes inv: "watcher_inv k s" and ok: "\<And>cb h. \<forall>c\<in>set (calls cb h). watcher_call_ok s c"
    and run: "us_running s = h # hs"
  obtains t where "run_watcher_loop k (watcher_cbs calls) s = run_watcher_loop k (watcher_cbs calls) t"
    "watcher_inv k t" "us_running t = filter (\<lambda>g. g \<notin> stopped_by calls s h) hs"
    "us_trace t = us_trace s @ [(the (uh_watch_cb (us_handles s h)), h)]"
    "\<And>g. uh_type (us_handles t g) = uh_type (us_handles s g)"
    "\<And>g. uv_is_active t g \<longleftrightarrow> active_after (calls_of calls s h) g (uv_is_active s g)"
    "\<And>g. g \<in> set (us_running t) \<Longrightarrow> uh_watch_cb (us_handles t g) = uh_watch_cb (us_handles s g)"
    "filter (\<lambda>g. g \<notin> call_handle ` set (calls_of calls s h)) (watchers_of k t) =
     filter (\<lambda>g. g \<notin> call_handle ` set (calls_of calls s h)) (watchers_of k s @ [h])"
proof -
  obtain c where c: "uh_watch_cb (us_handles s h) = Some c" using inv run by (auto simp: watcher_inv_def)
  let ?s1 = "s\<lparr>us_running := hs\<rparr>"
  let ?s2 = "set_watchers k (watchers_of k s @ [h]) ?s1"
  let ?s = "?s2\<lparr>us_trace := us_trace s @ [(c, h)]\<rparr>"
  let ?t = "fold do_watcher_call (calls c h) ?s"
  have step: "run_watcher_loop k (watcher_cbs calls) s = run_watcher_loop k (watcher_cbs calls) ?t"
    using c run by (subst run_watcher_loop.simps) (simp add: run_cb_def watcher_cbs_def)
  have fl: "has_flag ?s g fl = has_flag s g fl" for g fl by (simp add: has_flag_def)
  have "watcher_inv k ?s" using inv run by (auto simp: watcher_inv_def fl)
  moreover have "\<forall>c\<in>set (calls c h). watcher_call_ok ?s c" using ok [of c h] by (simp add: watcher_call_ok_def)
  ultimately have "called k (calls c h) ?s ?t" by (rule watcher_calls_correct)
  then show thesis
    using that [OF step] c by (simp add: called_def calls_of_def stopped_by_def uv_is_active_def fl)
qed

lemma round_done_Cons:
  fixes k :: watcher and s t u :: uv_sys and h :: nat
  assumes run: "us_running t = filter (\<lambda>g. g \<notin> stopped_by calls s h) hs"
    and tr: "us_trace t = us_trace s @ [(the (uh_watch_cb (us_handles s h)), h)]"
    and act: "\<And>g. uv_is_active t g \<longleftrightarrow> active_after (calls_of calls s h) g (uv_is_active s g)"
    and cb: "\<And>g. g \<in> set (us_running t) \<Longrightarrow> uh_watch_cb (us_handles t g) = uh_watch_cb (us_handles s g)"
    and q: "filter (\<lambda>g. g \<notin> call_handle ` set (calls_of calls s h)) (watchers_of k t) =
       filter (\<lambda>g. g \<notin> call_handle ` set (calls_of calls s h)) (watchers_of k s @ [h])"
    and s: "us_running s = h # hs" and rd: "round_done k calls t fs u" and fs: "set fs \<subseteq> set (us_running t)"
  shows "round_done k calls s (h # fs) u"
proof -
  have same: "calls_of calls t g = calls_of calls s g" if "g \<in> set fs" for g
    using cb [of g] fs that by (auto simp: calls_of_def)
  have calls: "map (calls_of calls t) fs = map (calls_of calls s) fs" by (rule map_cong) (simp_all add: same)
  have "map (\<lambda>h. (the (uh_watch_cb (us_handles t h)), h)) fs = map (\<lambda>h. (the (uh_watch_cb (us_handles s h)), h)) fs"
    by (rule map_cong) (use cb fs in auto)
  then have "us_trace u = us_trace s @ map (\<lambda>h. (the (uh_watch_cb (us_handles s h)), h)) (h # fs)"
    using rd tr by (simp add: round_done_def)
  moreover have "uv_is_active u g \<longleftrightarrow> active_after (concat (map (calls_of calls s) (h # fs))) g (uv_is_active s g)" for g
    using rd act by (simp add: round_done_def calls active_after_append)
  moreover have "(let same = filter (\<lambda>g. g \<notin> (\<Union>h\<in>set (h # fs). call_handle ` set (calls_of calls s h)))
      in same (watchers_of k u) = same (watchers_of k s @ us_running s))"
  proof -
    let ?a = "filter (\<lambda>g. g \<notin> call_handle ` set (calls_of calls s h))"
    let ?b = "filter (\<lambda>g. g \<notin> (\<Union>h\<in>set fs. call_handle ` set (calls_of calls s h)))"
    let ?c = "filter (\<lambda>g. g \<notin> (\<Union>h\<in>set (h # fs). call_handle ` set (calls_of calls s h)))"
    have ab: "?c xs = ?a (?b xs)" "?c xs = ?b (?a xs)" for xs by (auto intro: filter_cong)
    have "?b (watchers_of k u) = ?b (watchers_of k t @ us_running t)"
      using rd same by (simp add: round_done_def Let_def)
    then have "?c (watchers_of k u) = ?c (watchers_of k t) @ ?c (us_running t)" unfolding ab(1) by simp
    also have "?c (watchers_of k t) = ?c (watchers_of k s @ [h])" unfolding ab(2) q ..
    also have "?c (us_running t) = ?c hs"
      unfolding run filter_filter
      by (rule filter_cong) (auto simp: stopped_by_def dest!: stops_named)
    finally show ?thesis using s by simp
  qed
  ultimately show ?thesis using rd by (simp add: round_done_def)
qed

lemma run_watcher_loop_correct:
  assumes "watcher_inv k s" and "\<And>cb h. \<forall>c\<in>set (calls cb h). watcher_call_ok s c"
  shows "\<exists>t. run_watcher_loop k (watcher_cbs calls) s = Some t \<and>
    round_done k calls s (visit (stopped_by calls s) (us_running s)) t"
  using assms
proof (induction "length (us_running s)" arbitrary: s rule: less_induct)
  case less
  show ?case
  proof (cases "us_running s")
    case Nil
    then show ?thesis using less.prems(1)
      by (subst run_watcher_loop.simps) (simp add: round_done_def)
  next
    case (Cons h hs)
    obtain t where t: "run_watcher_loop k (watcher_cbs calls) s = run_watcher_loop k (watcher_cbs calls) t"
      "watcher_inv k t" "us_running t = filter (\<lambda>g. g \<notin> stopped_by calls s h) hs"
      "us_trace t = us_trace s @ [(the (uh_watch_cb (us_handles s h)), h)]"
      "\<And>g. uh_type (us_handles t g) = uh_type (us_handles s g)"
      "\<And>g. uv_is_active t g \<longleftrightarrow> active_after (calls_of calls s h) g (uv_is_active s g)"
      "\<And>g. g \<in> set (us_running t) \<Longrightarrow> uh_watch_cb (us_handles t g) = uh_watch_cb (us_handles s g)"
      "filter (\<lambda>g. g \<notin> call_handle ` set (calls_of calls s h)) (watchers_of k t) =
       filter (\<lambda>g. g \<notin> call_handle ` set (calls_of calls s h)) (watchers_of k s @ [h])"
      by (rule run_watcher_step [where calls = calls, OF less.prems Cons]) blast
    let ?fs = "visit (stopped_by calls t) (us_running t)"
    have same: "calls_of calls t g = calls_of calls s g" "stopped_by calls t g = stopped_by calls s g"
      if "g \<in> set (us_running t)" for g using t(7) [OF that] by (simp_all add: calls_of_def stopped_by_def)
    have vis: "visit (stopped_by calls s) (us_running s) = h # ?fs"
      using Cons t(3) visit_cong [of "us_running t" "stopped_by calls t" "stopped_by calls s"] same(2) by simp
    have sub: "set ?fs \<subseteq> set (us_running t)" by (rule set_visit)
    have "length (us_running t) < length (us_running s)" using t(3) Cons by (simp add: less_Suc_eq_le)
    moreover have "\<And>cb h. \<forall>c\<in>set (calls cb h). watcher_call_ok t c"
      using less.prems(2) t(5) by (simp add: watcher_call_ok_def)
    ultimately obtain u where u: "run_watcher_loop k (watcher_cbs calls) t = Some u" "round_done k calls t ?fs u"
      using less.hyps t(2) by blast
    have "round_done k calls s (h # ?fs) u"
      by (rule round_done_Cons [OF t(3,4,6-8) Cons u(2) sub]) 
    then show ?thesis using t(1) u(1) vis by auto
  qed
qed

section \<open>Properties\<close>

text \<open>
  Stopping a prepare, check or idle watcher, also in the middle of the round that runs
  its kind, keeps the queues exact (every active watcher once, with a callback), makes the
  handle inactive and takes it out of the part of the round that is still to run: it is
  not called any more.
\<close>

theorem watcher_stop_unqueues:
  assumes "watcher_inv k s" and "uh_type (us_handles s h) = watcher_type k"
  shows "watcher_inv k (snd (uv_watcher_stop k h s)) \<and>
    \<not> uv_is_active (snd (uv_watcher_stop k h s)) h \<and>
    h \<notin> set (us_running (snd (uv_watcher_stop k h s)))"
  using watcher_stop_inv [OF assms] by blast

lemma idle_watchers:
  obtains s where "watcher_inv Idle s" "us_idle s = [8, 7]" "\<And>g. uh_type (us_handles s g) = UV_IDLE"
    "uh_watch_cb (us_handles s 7) = Some 1" "uh_watch_cb (us_handles s 8) = Some 2" "us_trace s = []"
    "us_running s = []"
proof -
  let ?s0 = "idle_timers\<lparr>us_handles := (\<lambda>h. (us_handles idle_timers h)\<lparr>uh_type := UV_IDLE\<rparr>)\<rparr>"
  let ?s1 = "snd (uv_watcher_start Idle 7 (Some 1) ?s0)"
  let ?s2 = "snd (uv_watcher_start Idle 8 (Some 2) ?s1)"
  note defs = idle_timers_def uv_watcher_start_def uv_is_active_def has_flag_def handle_start_def flag_on_def
    set_handle_def active_handle_add_def UV_HANDLE_ACTIVE_def UV_HANDLE_REF_def Let_def
  have "watcher_inv Idle ?s0"
    by (simp add: watcher_inv_def idle_timers_def has_flag_def UV_HANDLE_ACTIVE_def UV_HANDLE_REF_def)
  then have "watcher_inv Idle ?s1" by (rule watcher_start_inv) simp
  moreover have ty: "uh_type (us_handles ?s1 8) = watcher_type Idle" by (simp add: defs)
  ultimately have "watcher_inv Idle ?s2" by (rule watcher_start_inv)
  moreover have "us_idle ?s2 = [8, 7]" "\<And>g. uh_type (us_handles ?s2 g) = UV_IDLE"
    "uh_watch_cb (us_handles ?s2 7) = Some 1" "uh_watch_cb (us_handles ?s2 8) = Some 2" "us_trace ?s2 = []"
    "us_running ?s2 = []"
    by (simp_all add: defs)
  ultimately show thesis using that by blast
qed

theorem watcher_stop_unqueues_witness:
  "\<exists>s. us_idle s = [8, 7] \<and> \<not> uv_is_active (snd (uv_watcher_stop Idle 7 s)) 7 \<and>
     watcher_inv Idle (snd (uv_watcher_stop Idle 7 s))"
proof -
  obtain s where s: "watcher_inv Idle s" "us_idle s = [8, 7]" "uh_type (us_handles s 7) = UV_IDLE"
    by (rule idle_watchers) blast
  then show ?thesis using watcher_stop_unqueues [OF s(1), of 7] by auto
qed

text \<open>
  C36: \<open>uv__run_idle\<close> and its siblings return for every queue, with callbacks that start and
  stop watchers, any number of them, of any kind and in any order. The round calls the handles
  that were queued when it began, in queue order and each once, with the callback each was
  started with, except those that the callback of a handle before them has stopped (also when
  they were started again): a handle started during the round waits for the next one.
  Afterwards no handle is left in the queue of the round, every handle is active exactly as
  the calls have left it, the queue holds the active handles once each, and the handles no
  callback has named are in the order they were in.
\<close>

theorem run_watcher_calls_each_once:
  assumes "watcher_inv k s" and "us_running s = []" and "\<And>cb h. \<forall>c\<in>set (calls cb h). watcher_call_ok s c"
  shows "\<exists>s'. uv_run_watcher k (watcher_cbs calls) s = Some s' \<and>
    round_done k calls s (visit (stopped_by calls s) (watchers_of k s)) s'"
proof -
  let ?s = "set_watchers k [] (s\<lparr>us_running := watchers_of k s\<rparr>)"
  have fl: "has_flag ?s g fl = has_flag s g fl" for g fl by (simp add: has_flag_def)
  have eq: "calls_of calls ?s = calls_of calls s" "stopped_by calls ?s = stopped_by calls s"
    by (simp_all add: fun_eq_iff calls_of_def stopped_by_def)
  have "watcher_inv k ?s" using assms(1,2) by (simp add: watcher_inv_def fl)
  moreover have "\<And>cb h. \<forall>c\<in>set (calls cb h). watcher_call_ok ?s c"
    using assms(3) by (simp add: watcher_call_ok_def)
  ultimately obtain t where "run_watcher_loop k (watcher_cbs calls) ?s = Some t"
    "round_done k calls ?s (visit (stopped_by calls ?s) (us_running ?s)) t"
    using run_watcher_loop_correct by blast
  then show ?thesis
    using assms(2) by (simp add: uv_run_watcher_def round_done_def eq uv_is_active_def fl)
qed

text \<open>The callback of the first handle stops the second one and starts a third.\<close>

definition sample_watcher_calls :: "nat \<Rightarrow> nat \<Rightarrow> watcher_call list" where
  "sample_watcher_calls cb h = (if h = 8 then [Stop_watcher Idle 7, Start_watcher Idle 9 3] else [])"

theorem run_watcher_calls_each_once_witness:
  "\<exists>s s'. us_idle s = [8, 7] \<and> uv_run_watcher Idle (watcher_cbs sample_watcher_calls) s = Some s' \<and>
     us_trace s' = [(2, 8)] \<and> \<not> uv_is_active s' 7 \<and> uv_is_active s' 9"
proof -
  obtain s where s: "watcher_inv Idle s" "us_idle s = [8, 7]" "\<And>g. uh_type (us_handles s g) = UV_IDLE"
    "uh_watch_cb (us_handles s 7) = Some 1" "uh_watch_cb (us_handles s 8) = Some 2" "us_trace s = []"
    "us_running s = []"
    by (rule idle_watchers) blast
  have ok: "\<forall>c\<in>set (sample_watcher_calls cb h). watcher_call_ok s c" for cb h
    by (auto simp: sample_watcher_calls_def watcher_call_ok_def s(3))
  have "visit (stopped_by sample_watcher_calls s) (watchers_of Idle s) = [8]"
    using s(2) by (simp add: stopped_by_def calls_of_def sample_watcher_calls_def)
  then obtain s' where "uv_run_watcher Idle (watcher_cbs sample_watcher_calls) s = Some s'"
    "round_done Idle sample_watcher_calls s [8] s'"
    using run_watcher_calls_each_once [where calls = sample_watcher_calls, OF s(1,7) ok] by auto
  then show ?thesis
    using s(2,5,6) by (auto simp: round_done_def calls_of_def sample_watcher_calls_def)
qed

end
