(* ===== verification/Uv_Core.thy ===== *)
theory Uv_Core
  imports Uv_Watcher
begin

text \<open>
  Closing handles and the main loop of libuv (\<open>unix/core.c\<close>).
\<close>

section \<open>Closing\<close>

definition uv_make_close_pending :: "nat \<Rightarrow> uv_sys \<Rightarrow> uv_sys option" where
  "uv_make_close_pending h s =
     do { assert_c (has_flag s h UV_HANDLE_CLOSING);
          assert_c (\<not> has_flag s h UV_HANDLE_CLOSED);
          let s1 = set_handle h (uh_next_closing_update (\<lambda>_. us_closing_handles s)) s;
          Some (s1\<lparr>us_closing_handles := Some h\<rparr>) }"

text \<open>
  \<open>close_other\<close> and \<open>destroy_other\<close> stand for the type-specific functions of the handle
  types that this theory does not model (streams, UDP, polling, processes, signals, async
  and file system handles).
\<close>

definition uv_close ::
  "(nat \<Rightarrow> uv_sys \<Rightarrow> uv_sys option) \<Rightarrow> nat \<Rightarrow> nat option \<Rightarrow> uv_sys \<Rightarrow> uv_sys option" where
  "uv_close close_other h close_cb s =
     do { assert_c (\<not> uv_is_closing s h);
          let s1 = flag_on h UV_HANDLE_CLOSING s;
          let s2 = set_handle h (uh_close_cb_update (\<lambda>_. close_cb)) s1;
          case uh_type (us_handles s2 h) of
            UV_PREPARE \<Rightarrow> uv_make_close_pending h (uv_watcher_close Prepare h s2)
          | UV_CHECK \<Rightarrow> uv_make_close_pending h (uv_watcher_close Check h s2)
          | UV_IDLE \<Rightarrow> uv_make_close_pending h (uv_watcher_close Idle h s2)
          | UV_TIMER \<Rightarrow> do { s3 \<leftarrow> uv_timer_close h s2; uv_make_close_pending h s3 }
          | UV_FS_POLL \<Rightarrow> close_other h s2
          | UV_UNKNOWN_HANDLE \<Rightarrow> None
          | _ \<Rightarrow> do { s3 \<leftarrow> close_other h s2; uv_make_close_pending h s3 } }"

definition uv_finish_close ::
  "(nat \<Rightarrow> uv_sys \<Rightarrow> uv_sys option) \<Rightarrow> cb_sem \<Rightarrow> nat \<Rightarrow> uv_sys \<Rightarrow> uv_sys option" where
  "uv_finish_close destroy_other cbs h s =
     do { assert_c (has_flag s h UV_HANDLE_CLOSING);
          assert_c (\<not> has_flag s h UV_HANDLE_CLOSED);
          let s1 = flag_on h UV_HANDLE_CLOSED s;
          let hd = us_handles s1 h;
          if uh_type hd = UV_SIGNAL \<and> uh_caught_signals hd > uh_dispatched_signals hd
          then uv_make_close_pending h (set_handle h (uh_flags_update (\<lambda>x. x XOR UV_HANDLE_CLOSED)) s1)
          else do { s2 \<leftarrow> (if uh_type hd \<in> {UV_NAMED_PIPE, UV_TCP, UV_TTY, UV_UDP}
                           then destroy_other h s1
                           else if uh_type hd = UV_UNKNOWN_HANDLE then None else Some s1);
                    let s3 = handle_unref h s2;
                    let s4 = s3\<lparr>us_handle_queue := removeAll h (us_handle_queue s3)\<rparr>;
                    case uh_close_cb (us_handles s4 h) of
                      None \<Rightarrow> Some s4
                    | Some cb \<Rightarrow> run_cb cbs cb h s4 } }"

partial_function (option) closing_loop ::
  "(nat \<Rightarrow> uv_sys \<Rightarrow> uv_sys option) \<Rightarrow> cb_sem \<Rightarrow> nat option \<Rightarrow> uv_sys \<Rightarrow> uv_sys option" where
  "closing_loop destroy_other cbs p s =
     (case p of
        None \<Rightarrow> Some s
      | Some h \<Rightarrow>
          do { let q = uh_next_closing (us_handles s h);
               s1 \<leftarrow> uv_finish_close destroy_other cbs h s;
               closing_loop destroy_other cbs q s1 })"

definition uv_run_closing_handles ::
  "(nat \<Rightarrow> uv_sys \<Rightarrow> uv_sys option) \<Rightarrow> cb_sem \<Rightarrow> uv_sys \<Rightarrow> uv_sys option" where
  "uv_run_closing_handles destroy_other cbs s =
     closing_loop destroy_other cbs (us_closing_handles s) (s\<lparr>us_closing_handles := None\<rparr>)"

section \<open>The main loop\<close>

definition uv_backend_timeout :: "uv_sys \<Rightarrow> int" where
  "uv_backend_timeout s =
     (if us_stop_flag s then 0
      else if \<not> has_active_handles s \<and> \<not> has_active_reqs s then 0
      else if us_idle s \<noteq> [] then 0
      else if il_pending (us_io s) \<noteq> [] then 0
      else if us_closing_handles s \<noteq> None then 0
      else uv_next_timeout s)"

definition uv_loop_alive :: "uv_sys \<Rightarrow> bool" where
  "uv_loop_alive s \<longleftrightarrow> has_active_handles s \<or> has_active_reqs s \<or> us_closing_handles s \<noteq> None"

datatype uv_run_mode = UV_RUN_DEFAULT | UV_RUN_ONCE | UV_RUN_NOWAIT

text \<open>
  The parts of an iteration that belong to other components are arguments: the clock
  (\<open>upd_time\<close>), the queue of pending I/O callbacks (\<open>run_pending\<close>, with its flag), and the
  kernel poll (\<open>io_poll\<close>, called with the timeout).
\<close>

record uv_env =
  env_upd_time :: "uv_sys \<Rightarrow> uv_sys"
  env_run_pending :: "uv_sys \<Rightarrow> (bool \<times> uv_sys) option"
  env_io_poll :: "int \<Rightarrow> uv_sys \<Rightarrow> uv_sys option"
  env_destroy :: "nat \<Rightarrow> uv_sys \<Rightarrow> uv_sys option"
  env_cbs :: cb_sem

definition uv_iteration :: "uv_env \<Rightarrow> uv_run_mode \<Rightarrow> uv_sys \<Rightarrow> uv_sys option" where
  "uv_iteration env mode s =
     do { let s1 = env_upd_time env s;
          s2 \<leftarrow> uv_run_timers (env_cbs env) s1;
          (ran_pending, s3) \<leftarrow> env_run_pending env s2;
          s4 \<leftarrow> uv_run_watcher Idle (env_cbs env) s3;
          s5 \<leftarrow> uv_run_watcher Prepare (env_cbs env) s4;
          let timeout = (if mode = UV_RUN_ONCE \<and> \<not> ran_pending \<or> mode = UV_RUN_DEFAULT
                         then uv_backend_timeout s5 else 0);
          s6 \<leftarrow> env_io_poll env timeout s5;
          s7 \<leftarrow> uv_run_watcher Check (env_cbs env) s6;
          s8 \<leftarrow> uv_run_closing_handles (env_destroy env) (env_cbs env) s7;
          if mode = UV_RUN_ONCE then uv_run_timers (env_cbs env) (env_upd_time env s8)
          else Some s8 }"

partial_function (option) uv_run_loop ::
  "uv_env \<Rightarrow> uv_run_mode \<Rightarrow> bool \<Rightarrow> uv_sys \<Rightarrow> (bool \<times> uv_sys) option" where
  "uv_run_loop env mode r s =
     (if r \<and> \<not> us_stop_flag s
      then do { s1 \<leftarrow> uv_iteration env mode s;
                let r1 = uv_loop_alive s1;
                if mode = UV_RUN_ONCE \<or> mode = UV_RUN_NOWAIT then Some (r1, s1)
                else uv_run_loop env mode r1 s1 }
      else Some (r, s))"

definition uv_run :: "uv_env \<Rightarrow> uv_run_mode \<Rightarrow> uv_sys \<Rightarrow> (bool \<times> uv_sys) option" where
  "uv_run env mode s =
     do { let r = uv_loop_alive s;
          let s0 = (if \<not> r then env_upd_time env s else s);
          (r', s1) \<leftarrow> uv_run_loop env mode r s0;
          Some (r', s1\<lparr>us_stop_flag := False\<rparr>) }"

section \<open>The list of closing handles\<close>

text \<open>
  \<open>closing s hs\<close>: the chain that starts at \<open>us_closing_handles\<close> is \<open>hs\<close>, and its handles are
  closing and not closed.
\<close>

definition closing :: "uv_sys \<Rightarrow> nat list \<Rightarrow> bool" where
  "closing s hs \<longleftrightarrow>
     linked (\<lambda>h. uh_next_closing (us_handles s h)) (us_closing_handles s) hs \<and>
     (\<forall>h\<in>set hs. has_flag s h UV_HANDLE_CLOSING \<and> \<not> has_flag s h UV_HANDLE_CLOSED)"

lemma closing_distinct: "closing s hs \<Longrightarrow> distinct hs"
  using linked_distinct by (auto simp: closing_def)

lemma has_flag_set_handle:
  "(\<And>x. uh_flags (f x) = uh_flags x) \<Longrightarrow> has_flag (set_handle g f s) h fl = has_flag s h fl"
  by (simp add: has_flag_def)

lemma make_close_pending_correct:
  assumes cl: "closing s hs" and h: "has_flag s h UV_HANDLE_CLOSING" "\<not> has_flag s h UV_HANDLE_CLOSED"
    and new: "h \<notin> set hs"
  obtains s' where "uv_make_close_pending h s = Some s'" "closing s' (h # hs)"
    "\<And>g fl. has_flag s' g fl = has_flag s g fl" "us_active_handles s' = us_active_handles s"
    "us_timer_heap s' = us_timer_heap s"
    "us_handles s' = (us_handles s)(h := (us_handles s h)\<lparr>uh_next_closing := us_closing_handles s\<rparr>)"
proof -
  let ?s = "(set_handle h (uh_next_closing_update (\<lambda>_. us_closing_handles s)) s)\<lparr>us_closing_handles := Some h\<rparr>"
  have fl: "has_flag ?s g fl = has_flag s g fl" for g fl by (simp add: has_flag_def)
  have "linked (\<lambda>g. uh_next_closing (us_handles ?s g)) (us_closing_handles s) hs =
      linked (\<lambda>g. uh_next_closing (us_handles s g)) (us_closing_handles s) hs"
    by (rule linked_cong) (use new in auto)
  then have "closing ?s (h # hs)" using cl h by (simp add: closing_def fl)
  moreover have "uv_make_close_pending h s = Some ?s" using h by (simp add: uv_make_close_pending_def)
  ultimately show thesis using fl by (intro that [of ?s]) simp_all
qed

section \<open>Closing a timer or a watcher\<close>

lemma timer_stop_frame:
  assumes "uv_timer_stop h s = Some (r, s')"
  shows "us_closing_handles s' = us_closing_handles s"
    "uh_next_closing (us_handles s' g) = uh_next_closing (us_handles s g)"
    "uh_close_cb (us_handles s' g) = uh_close_cb (us_handles s g)"
    "has_flag s' g UV_HANDLE_CLOSING = has_flag s g UV_HANDLE_CLOSING"
    "has_flag s' g UV_HANDLE_CLOSED = has_flag s g UV_HANDLE_CLOSED"
proof -
  have heap: "has_flag (s\<lparr>us_timer_heap := x\<rparr>) g fl = has_flag s g fl" for x fl
    by (simp add: has_flag_def)
  obtain x where "s' = s \<or> s' = handle_stop h (s\<lparr>us_timer_heap := x\<rparr>)"
    using assms by (auto simp: uv_timer_stop_def bind_eq_Some_conv split: if_splits)
  then show "us_closing_handles s' = us_closing_handles s"
    "uh_next_closing (us_handles s' g) = uh_next_closing (us_handles s g)"
    "uh_close_cb (us_handles s' g) = uh_close_cb (us_handles s g)"
    "has_flag s' g UV_HANDLE_CLOSING = has_flag s g UV_HANDLE_CLOSING"
    "has_flag s' g UV_HANDLE_CLOSED = has_flag s g UV_HANDLE_CLOSED"
    using only_flagsD(5,18,19) [OF only_flags_start(2)] by (auto simp: flags heap)
qed

lemma close_timer_correct:
  assumes inv: "timer_inv s" and cl: "closing s hs" and open_h: "\<not> uv_is_closing s h"
    and ty: "uh_type (us_handles s h) = UV_TIMER"
  obtains s' where "uv_close close_other h cb s = Some s'" "timer_inv s'" "closing s' (h # hs)"
    "active_timers s' = active_timers s - {h}" "uv_is_closing s' h"
    "uh_close_cb (us_handles s' h) = cb"
proof -
  let ?s1 = "flag_on h UV_HANDLE_CLOSING s"
  define s2 where "s2 = set_handle h (uh_close_cb_update (\<lambda>_. cb)) ?s1"
  have nc: "\<not> has_flag s h UV_HANDLE_CLOSING" "\<not> has_flag s h UV_HANDLE_CLOSED"
    using open_h by (auto simp: is_closing_iff)
  have fl2: "has_flag s2 g fl = has_flag ?s1 g fl" for g fl
    unfolding s2_def by (rule has_flag_set_handle) simp
  have sel2: "us_timer_heap s2 = us_timer_heap s" "us_closing_handles s2 = us_closing_handles s"
    "uh_type (us_handles s2 g) = uh_type (us_handles s g)"
    "uh_timer_cb (us_handles s2 g) = uh_timer_cb (us_handles s g)"
    "uh_next_closing (us_handles s2 g) = uh_next_closing (us_handles s g)"
    "timer_less_than (us_handles s2) = timer_less_than (us_handles s)" for g
    by (auto simp: s2_def flag_on_def timer_less_than_def fun_eq_iff Let_def)
  have act2: "active_timers s2 = active_timers s"
    by (simp add: active_timers_def fl2 sel2 flags)
  have inv2: "timer_inv s2" using inv by (simp add: timer_inv_def act2 sel2)
  have h_new: "h \<notin> set hs" using cl nc by (auto simp: closing_def)
  have cl2: "closing s2 hs" using cl h_new by (auto simp: closing_def sel2 fl2 flags)
  obtain s3 where s3: "uv_timer_stop h s2 = Some (0, s3)" "timer_inv s3"
    "active_timers s3 = active_timers s2 - {h}" "timers_frame s2 s3"
    by (rule timer_stop_correct [OF inv2]) (use ty sel2 in auto)
  note sel3 = timer_stop_frame [OF s3(1)]
  have cl3: "closing s3 hs" using cl2 by (simp add: closing_def sel3)
  obtain s' where s': "uv_make_close_pending h s3 = Some s'" "closing s' (h # hs)"
    "\<And>g fl. has_flag s' g fl = has_flag s3 g fl" "us_timer_heap s' = us_timer_heap s3"
    "us_handles s' = (us_handles s3)(h := (us_handles s3 h)\<lparr>uh_next_closing := us_closing_handles s3\<rparr>)"
    by (rule make_close_pending_correct [OF cl3 _ _ h_new]) (use sel3 fl2 nc in \<open>auto simp: flags\<close>)
  have "uv_close close_other h cb s = Some s'"
    using open_h ty sel2(3) [of h] s3(1) s'(1)
    by (simp add: uv_close_def s2_def [symmetric] uv_timer_close_def only_flagsD(13) [OF only_flags_on(1)])
  moreover have act': "active_timers s' = active_timers s - {h}"
    using s3(3) act2 by (auto simp: active_timers_def s'(3,5))
  moreover have "timer_inv s'"
  proof -
    have "timer_less_than (us_handles s') = timer_less_than (us_handles s3)"
      by (auto simp: s'(5) timer_less_than_def fun_eq_iff Let_def)
    then show ?thesis using s3(2,3) act' act2 by (simp add: timer_inv_def s'(4,5))
  qed
  moreover have "uv_is_closing s' h" using s'(2) by (simp add: closing_def is_closing_iff)
  moreover have "uh_close_cb (us_handles s' h) = cb" by (simp add: s'(5) sel3 s2_def)
  ultimately show thesis using that [of s'] s'(2) by simp
qed

section \<open>Running the close callbacks\<close>

text \<open>Handle types that \<open>uv__finish_close\<close> does not have to tear down.\<close>

definition plain_type :: "handle_type \<Rightarrow> bool" where
  "plain_type ty \<longleftrightarrow> ty \<notin> {UV_SIGNAL, UV_NAMED_PIPE, UV_TCP, UV_TTY, UV_UDP, UV_UNKNOWN_HANDLE}"

definition close_calls :: "uv_sys \<Rightarrow> nat \<Rightarrow> (nat \<times> nat) list" where
  "close_calls s h = (case uh_close_cb (us_handles s h) of None \<Rightarrow> [] | Some c \<Rightarrow> [(c, h)])"

lemma finish_close_step:
  assumes h: "has_flag s h UV_HANDLE_CLOSING" "\<not> has_flag s h UV_HANDLE_CLOSED"
    and ty: "plain_type (uh_type (us_handles s h))"
  obtains s' where "uv_finish_close d quiet h s = Some s'"
    "has_flag s' h UV_HANDLE_CLOSED"
    "\<And>g. g \<noteq> h \<Longrightarrow> us_handles s' g = us_handles s g"
    "us_closing_handles s' = us_closing_handles s"
    "us_handle_queue s' = removeAll h (us_handle_queue s)"
    "us_trace s' = us_trace s @ close_calls s h"
proof -
  let ?s1 = "flag_on h UV_HANDLE_CLOSED s"
  let ?s3 = "handle_unref h ?s1"
  let ?s4 = "?s3\<lparr>us_handle_queue := removeAll h (us_handle_queue ?s3)\<rparr>"
  note fr1 = only_flags_on(1) [of h s UV_HANDLE_CLOSED] and fr3 = only_flags_ref(2) [of h ?s1]
  have cb: "uh_close_cb (us_handles ?s4 h) = uh_close_cb (us_handles s h)"
    by (simp add: only_flagsD(19) [OF fr3] only_flagsD(19) [OF fr1])
  have ty1: "plain_type (uh_type (us_handles ?s1 h))" using ty by (simp add: only_flagsD(13) [OF fr1])
  have run: "uv_finish_close d quiet h s = (case uh_close_cb (us_handles s h) of
      None \<Rightarrow> Some ?s4 | Some c \<Rightarrow> Some (?s4\<lparr>us_trace := us_trace ?s4 @ [(c, h)]\<rparr>))"
    using h ty1 unfolding uv_finish_close_def plain_type_def
    by (simp add: Let_def run_cb_def quiet_def cb [simplified] split: option.split)
  have closed: "has_flag ?s3 h UV_HANDLE_CLOSED"
    by (simp add: handle_unref_def Let_def flags)
  have sel: "g \<noteq> h \<Longrightarrow> us_handles ?s4 g = us_handles s g" "us_closing_handles ?s4 = us_closing_handles s"
    "us_handle_queue ?s4 = removeAll h (us_handle_queue s)" "us_trace ?s4 = us_trace s" for g
    by (simp_all add: only_flagsD(4,5,6,12) [OF fr3] only_flagsD(4,5,6,12) [OF fr1])
  show thesis
  proof (cases "uh_close_cb (us_handles s h)")
    case None
    show thesis
      by (rule that [of ?s4]) (use run None closed sel in \<open>simp_all add: has_flag_def close_calls_def\<close>)
  next
    case (Some c)
    show thesis
      by (rule that [of "?s4\<lparr>us_trace := us_trace ?s4 @ [(c, h)]\<rparr>"])
        (use run Some closed sel in \<open>simp_all add: has_flag_def close_calls_def\<close>)
  qed
qed

lemma closing_loop_correct:
  "linked (\<lambda>h. uh_next_closing (us_handles s h)) p hs \<Longrightarrow> us_closing_handles s = None \<Longrightarrow>
   (\<And>h. h \<in> set hs \<Longrightarrow> has_flag s h UV_HANDLE_CLOSING \<and> \<not> has_flag s h UV_HANDLE_CLOSED \<and>
      plain_type (uh_type (us_handles s h))) \<Longrightarrow>
   \<exists>s'. closing_loop d quiet p s = Some s' \<and> us_closing_handles s' = None \<and>
     (\<forall>h\<in>set hs. has_flag s' h UV_HANDLE_CLOSED) \<and> (\<forall>g. g \<notin> set hs \<longrightarrow> us_handles s' g = us_handles s g) \<and>
     us_handle_queue s' = filter (\<lambda>g. g \<notin> set hs) (us_handle_queue s) \<and>
     us_trace s' = us_trace s @ concat (map (close_calls s) hs)"
proof (induction hs arbitrary: p s)
  case Nil
  then show ?case by (subst closing_loop.simps) simp
next
  case (Cons h hs)
  have p: "p = Some h" and tl: "linked (\<lambda>h. uh_next_closing (us_handles s h)) (uh_next_closing (us_handles s h)) hs"
    using Cons.prems(1) by auto
  have dist: "distinct (h # hs)" using linked_distinct [OF Cons.prems(1)] .
  have h: "has_flag s h UV_HANDLE_CLOSING" "\<not> has_flag s h UV_HANDLE_CLOSED"
    "plain_type (uh_type (us_handles s h))" using Cons.prems(3) [of h] by auto
  obtain s1 where s1: "uv_finish_close d quiet h s = Some s1" "has_flag s1 h UV_HANDLE_CLOSED"
    "\<And>g. g \<noteq> h \<Longrightarrow> us_handles s1 g = us_handles s g" "us_closing_handles s1 = us_closing_handles s"
    "us_handle_queue s1 = removeAll h (us_handle_queue s)"
    "us_trace s1 = us_trace s @ close_calls s h"
    by (rule finish_close_step [OF h]) blast
  have same: "us_handles s1 g = us_handles s g" if "g \<in> set hs" for g
    using s1(3) [of g] dist that by auto
  have "linked (\<lambda>h. uh_next_closing (us_handles s1 h)) (uh_next_closing (us_handles s h)) hs"
    using tl same linked_cong [of hs "\<lambda>h. uh_next_closing (us_handles s1 h)"] by simp
  moreover have "has_flag s1 g UV_HANDLE_CLOSING \<and> \<not> has_flag s1 g UV_HANDLE_CLOSED \<and>
      plain_type (uh_type (us_handles s1 g))" if "g \<in> set hs" for g
    using Cons.prems(3) [of g] that same [OF that] by (simp add: has_flag_def)
  ultimately obtain s' where s': "closing_loop d quiet (uh_next_closing (us_handles s h)) s1 = Some s'"
    "us_closing_handles s' = None" "\<forall>h\<in>set hs. has_flag s' h UV_HANDLE_CLOSED"
    "\<forall>g. g \<notin> set hs \<longrightarrow> us_handles s' g = us_handles s1 g"
    "us_handle_queue s' = filter (\<lambda>g. g \<notin> set hs) (us_handle_queue s1)"
    "us_trace s' = us_trace s1 @ concat (map (close_calls s1) hs)"
    using Cons.IH [of s1 "uh_next_closing (us_handles s h)"] s1(4) Cons.prems(2) by auto
  have "closing_loop d quiet p s = Some s'"
    using p s1(1) s'(1) by (subst closing_loop.simps) simp
  moreover have "map (close_calls s1) hs = map (close_calls s) hs"
    by (rule map_cong) (simp_all add: same close_calls_def)
  then have "us_trace s' = us_trace s1 @ concat (map (close_calls s) hs)" using s'(6) by (simp only:)
  moreover have "has_flag s' h UV_HANDLE_CLOSED"
    using s'(4) s1(2) dist by (simp add: has_flag_def)
  moreover have "us_handle_queue s' = filter (\<lambda>g. g \<notin> set (h # hs)) (us_handle_queue s)"
    unfolding s'(5) s1(5) removeAll_filter_not_eq filter_filter by (rule filter_cong) auto
  ultimately show ?case
    using s'(1-5) s1(3,6) by (intro exI [of _ s']) auto
qed

section \<open>Properties\<close>

text \<open>
  \<open>uv_close\<close> on an open timer passes its assertion, takes the timer out of the heap,
  marks it closing, and puts it in front of the list of closing handles.
\<close>

theorem close_timer_ok:
  assumes "timer_inv s" and "closing s hs" and "\<not> uv_is_closing s h" and "uh_type (us_handles s h) = UV_TIMER"
  shows "\<exists>s'. uv_close close_other h cb s = Some s' \<and> timer_inv s' \<and> closing s' (h # hs) \<and>
    active_timers s' = active_timers s - {h} \<and> uv_is_closing s' h"
  by (rule close_timer_correct [OF assms, of close_other cb]) blast

lemma idle_timers_closing: "closing idle_timers []"
  by (simp add: closing_def idle_timers_def)

theorem close_timer_ok_witness:
  "\<exists>s'. uv_close (\<lambda>h s. None) 7 (Some 1) idle_timers = Some s' \<and> closing s' [7] \<and> active_timers s' = {}"
  using close_timer_ok [OF idle_timers_inv(1) idle_timers_closing idle_timers_inv(3,4)] idle_timers_inv(2)
  by fastforce

text \<open>
  \<open>uv__run_closing_handles\<close>, with callbacks that do not touch the loop and handles of
  the plain types, ends with every handle of the closing list closed and out of the handle
  queue; each close callback that was given ran exactly once, last closed first, and the
  list is empty.
\<close>

theorem run_closing_handles_ok:
  assumes "closing s hs" and "\<forall>h\<in>set hs. plain_type (uh_type (us_handles s h))"
  shows "\<exists>s'. uv_run_closing_handles d quiet s = Some s' \<and> us_closing_handles s' = None \<and>
    (\<forall>h\<in>set hs. has_flag s' h UV_HANDLE_CLOSED) \<and> (\<forall>g. g \<notin> set hs \<longrightarrow> us_handles s' g = us_handles s g) \<and>
    us_handle_queue s' = filter (\<lambda>g. g \<notin> set hs) (us_handle_queue s) \<and>
    us_trace s' = us_trace s @ concat (map (close_calls s) hs)"
proof -
  let ?s = "s\<lparr>us_closing_handles := None\<rparr>"
  have "\<exists>s'. closing_loop d quiet (us_closing_handles s) ?s = Some s' \<and> us_closing_handles s' = None \<and>
     (\<forall>h\<in>set hs. has_flag s' h UV_HANDLE_CLOSED) \<and> (\<forall>g. g \<notin> set hs \<longrightarrow> us_handles s' g = us_handles ?s g) \<and>
     us_handle_queue s' = filter (\<lambda>g. g \<notin> set hs) (us_handle_queue ?s) \<and>
     us_trace s' = us_trace ?s @ concat (map (close_calls ?s) hs)"
    by (rule closing_loop_correct) (use assms in \<open>auto simp: closing_def has_flag_def\<close>)
  moreover have "close_calls ?s = close_calls s" by (simp add: close_calls_def fun_eq_iff)
  ultimately show ?thesis by (simp add: uv_run_closing_handles_def)
qed

definition closing_pair :: uv_sys where
  "closing_pair = idle_timers\<lparr>us_closing_handles := Some 8,
     us_handles := (us_handles idle_timers)
       (7 := (us_handles idle_timers 7)\<lparr>uh_flags := UV_HANDLE_CLOSING, uh_close_cb := Some 1\<rparr>,
        8 := (us_handles idle_timers 8)\<lparr>uh_flags := UV_HANDLE_CLOSING, uh_close_cb := Some 2,
                                        uh_next_closing := Some 7\<rparr>)\<rparr>"

lemma closing_pair: "closing closing_pair [8, 7]" "uh_type (us_handles closing_pair h) = UV_TIMER"
  "us_trace closing_pair = []" "close_calls closing_pair 7 = [(1, 7)]" "close_calls closing_pair 8 = [(2, 8)]"
  by (simp_all add: closing_def closing_pair_def idle_timers_def has_flag_def UV_HANDLE_CLOSING_def
      UV_HANDLE_CLOSED_def close_calls_def)

theorem run_closing_handles_ok_witness:
  "\<exists>s'. uv_run_closing_handles (\<lambda>h s. None) quiet closing_pair = Some s' \<and>
     us_trace s' = [(2, 8), (1, 7)] \<and> has_flag s' 7 UV_HANDLE_CLOSED"
proof -
  have "\<forall>h\<in>set [8, 7]. plain_type (uh_type (us_handles closing_pair h))"
    by (simp add: closing_pair plain_type_def)
  from run_closing_handles_ok [OF closing_pair(1) this, of "\<lambda>h s. None"] show ?thesis
    by (auto simp: closing_pair)
qed

end
