(* ===== verification/Uv_Inet.thy ===== *)
theory Uv_Inet
  imports Machine_Base Uv_Errno
begin

text \<open>
  Internet addresses and their texts (\<open>inet.c\<close>), and the bounded string copy of
  \<open>strscpy.c\<close> they use.

  A C string is the list of its characters before the terminating NUL; a buffer is a list of
  characters that is written in place. A result of type \<open>int + 'a\<close> is an error code or what
  the function delivers when it returns 0.
\<close>

section \<open>Bounded string copy\<close>

abbreviation NUL :: char where "NUL \<equiv> CHR 0x00"

definition SSIZE_MAX :: nat where
  "SSIZE_MAX = 2 ^ 63 - 1"

function strscpy_loop ::
  "char list \<Rightarrow> string \<Rightarrow> nat \<Rightarrow> nat \<Rightarrow> (int \<times> char list) option" where
  "strscpy_loop d s n i =
     (if i < n
      then do { let c = (if i < length s then s ! i else NUL);
                d' \<leftarrow> store d i c;
                if c = NUL then Some (if i > SSIZE_MAX then UV_E2BIG else int i, d')
                else strscpy_loop d' s n (i + 1) }
      else if i = 0 then Some (0, d)
      else do { d' \<leftarrow> store d (i - 1) NUL; Some (UV_E2BIG, d') })"
  by pat_completeness auto
termination by (relation "measure (\<lambda>(d, s, n, i). n - i)") auto

declare strscpy_loop.simps [simp del]

definition uv_strscpy :: "char list \<Rightarrow> string \<Rightarrow> nat \<Rightarrow> (int \<times> char list) option" where
  "uv_strscpy d s n = strscpy_loop d s n 0"

section \<open>Printing addresses\<close>

text \<open>\<open>radix 10\<close> and \<open>radix 16\<close> are the conversions \<open>%u\<close> and \<open>%x\<close> of \<open>printf\<close>.\<close>

definition digit :: "nat \<Rightarrow> char" where
  "digit d = ''0123456789abcdef'' ! d"

fun radix :: "nat \<Rightarrow> nat \<Rightarrow> string" where
  "radix b n =
     (if n < b \<or> b < 2 then [digit n] else radix b (n div b) @ [digit (n mod b)])"

declare radix.simps [simp del]

definition UV_INET_ADDRSTRLEN :: nat where "UV_INET_ADDRSTRLEN = 16"
definition UV_INET6_ADDRSTRLEN :: nat where "UV_INET6_ADDRSTRLEN = 46"

definition dotted :: "u8 list \<Rightarrow> string" where
  "dotted src = radix 10 (unat (src ! 0)) @ ''.'' @ radix 10 (unat (src ! 1)) @ ''.'' @
     radix 10 (unat (src ! 2)) @ ''.'' @ radix 10 (unat (src ! 3))"

text \<open>The text that \<open>inet_ntop4\<close> leaves in a buffer of \<open>size\<close> characters.\<close>

definition ntop4_text :: "u8 list \<Rightarrow> nat \<Rightarrow> int + string" where
  "ntop4_text src sz =
     (let tmp = dotted src; l = length tmp
      in if l \<le> 0 \<or> l \<ge> sz then Inl UV_ENOSPC else Inr (take (UV_INET_ADDRSTRLEN - 1) tmp))"

definition inet_ntop4 :: "u8 list \<Rightarrow> char list \<Rightarrow> nat \<Rightarrow> (int \<times> char list) option" where
  "inet_ntop4 src dst sz =
     (case ntop4_text src sz of
        Inl e \<Rightarrow> Some (e, dst)
      | Inr tmp \<Rightarrow> do { (_, dst') \<leftarrow> uv_strscpy dst tmp sz; Some (0, dst') })"

definition ipv6_words :: "u8 list \<Rightarrow> u32 list" where
  "ipv6_words src =
     fold (\<lambda>i ws. ws[i div 2 := ws ! (i div 2) OR push_bit (8 * (1 - i mod 2)) (ucast (src ! i))])
       [0..<16] (replicate 8 0)"

text \<open>A run of zero words is its first index, or \<open>-1\<close>, and its length.\<close>

type_synonym zrun = "int \<times> nat"

definition run_step :: "u32 list \<Rightarrow> nat \<Rightarrow> zrun \<times> zrun \<Rightarrow> zrun \<times> zrun" where
  "run_step ws i = (\<lambda>(best, cur).
     if ws ! i = 0
     then (best, if fst cur = - 1 then (int i, 1) else (fst cur, snd cur + 1))
     else if fst cur \<noteq> - 1
     then (if fst best = - 1 \<or> snd cur > snd best then cur else best, (- 1, snd cur))
     else (best, cur))"

definition best_run :: "u32 list \<Rightarrow> zrun" where
  "best_run ws =
     (let (best, cur) = fold (run_step ws) [0..<8] ((- 1, 0), (- 1, 0));
          best1 = (if fst cur \<noteq> - 1 \<and> (fst best = - 1 \<or> snd cur > snd best) then cur else best)
      in if fst best1 \<noteq> - 1 \<and> snd best1 < 2 then (- 1, snd best1) else best1)"

definition in_run :: "zrun \<Rightarrow> nat \<Rightarrow> bool" where
  "in_run best i \<longleftrightarrow> fst best \<noteq> - 1 \<and> fst best \<le> int i \<and> int i < fst best + int (snd best)"

definition encapsulated :: "u32 list \<Rightarrow> zrun \<Rightarrow> nat \<Rightarrow> bool" where
  "encapsulated ws best i \<longleftrightarrow> i = 6 \<and> fst best = 0 \<and>
     (snd best = 6 \<or> snd best = 7 \<and> ws ! 7 \<noteq> 0x0001 \<or> snd best = 5 \<and> ws ! 5 = 0xffff)"

primrec ntop6_loop :: "u8 list \<Rightarrow> u32 list \<Rightarrow> zrun \<Rightarrow> nat list \<Rightarrow> string \<Rightarrow> int + string" where
  "ntop6_loop src ws best [] tp = Inr tp"
| "ntop6_loop src ws best (i # is) tp =
     (if in_run best i
      then ntop6_loop src ws best is (if int i = fst best then tp @ '':'' else tp)
      else let tp1 = (if i \<noteq> 0 then tp @ '':'' else tp)
           in if encapsulated ws best i
              then (case ntop4_text (drop 12 src) (UV_INET6_ADDRSTRLEN - length tp1) of
                      Inl e \<Rightarrow> Inl e
                    | Inr t \<Rightarrow> Inr (tp1 @ t))
              else ntop6_loop src ws best is (tp1 @ radix 16 (unat (ws ! i))))"

definition ntop6_text :: "u8 list \<Rightarrow> int + string" where
  "ntop6_text src =
     (let ws = ipv6_words src; best = best_run ws
      in case ntop6_loop src ws best [0..<8] [] of
           Inl e \<Rightarrow> Inl e
         | Inr tp \<Rightarrow> Inr (if fst best \<noteq> - 1 \<and> fst best + int (snd best) = 8 then tp @ '':'' else tp))"

definition inet_ntop6 :: "u8 list \<Rightarrow> char list \<Rightarrow> nat \<Rightarrow> (int \<times> char list) option" where
  "inet_ntop6 src dst sz =
     (case ntop6_text src of
        Inl e \<Rightarrow> Some (e, dst)
      | Inr tmp \<Rightarrow> do { assert_c (length tmp < UV_INET6_ADDRSTRLEN);
                        (r, dst') \<leftarrow> uv_strscpy dst tmp sz;
                        Some (if r = UV_E2BIG then UV_ENOSPC else 0, dst') })"

datatype af = AF_INET | AF_INET6 | AF_OTHER int

primrec uv_inet_ntop :: "af \<Rightarrow> u8 list \<Rightarrow> char list \<Rightarrow> nat \<Rightarrow> (int \<times> char list) option" where
  "uv_inet_ntop AF_INET src dst sz = inet_ntop4 src dst sz"
| "uv_inet_ntop AF_INET6 src dst sz = inet_ntop6 src dst sz"
| "uv_inet_ntop (AF_OTHER a) src dst sz = Some (UV_EAFNOSUPPORT, dst)"

section \<open>Parsing addresses\<close>

definition strchr :: "string \<Rightarrow> char \<Rightarrow> nat option" where
  "strchr s c = find (\<lambda>i. s ! i = c) [0..<length s]"

fun pton4_loop :: "string \<Rightarrow> bool \<Rightarrow> nat \<Rightarrow> u8 list \<Rightarrow> nat \<Rightarrow> (int + u8 list) option" where
  "pton4_loop [] saw_digit octets tmp tp =
     Some (if octets < 4 then Inl UV_EINVAL else Inr tmp)"
| "pton4_loop (ch # src) saw_digit octets tmp tp =
     (case strchr ''0123456789'' ch of
        Some d \<Rightarrow>
          do { cur \<leftarrow> fetch tmp tp;
               let nw = unat cur * 10 + d;
               if saw_digit \<and> cur = 0 then Some (Inl UV_EINVAL)
               else if nw > 255 then Some (Inl UV_EINVAL)
               else do { tmp' \<leftarrow> store tmp tp (of_nat nw);
                         if \<not> saw_digit
                         then if octets + 1 > 4 then Some (Inl UV_EINVAL)
                              else pton4_loop src True (octets + 1) tmp' tp
                         else pton4_loop src saw_digit octets tmp' tp } }
      | None \<Rightarrow>
          if ch = CHR ''.'' \<and> saw_digit
          then if octets = 4 then Some (Inl UV_EINVAL)
               else do { tmp' \<leftarrow> store tmp (tp + 1) 0;
                         pton4_loop src False octets tmp' (tp + 1) }
          else Some (Inl UV_EINVAL))"

definition inet_pton4 :: "string \<Rightarrow> (int + u8 list) option" where
  "inet_pton4 src = pton4_loop src False 0 (replicate 4 0) 0"

definition xdigit :: "char \<Rightarrow> nat option" where
  "xdigit ch = (case strchr ''0123456789abcdef'' ch of
                  Some d \<Rightarrow> Some d
                | None \<Rightarrow> strchr ''0123456789ABCDEF'' ch)"

record pton6_st =
  p6_tmp :: "u8 list"
  p6_tp :: nat
  p6_colonp :: "nat option"
  p6_seen :: nat
  p6_val :: u32

text \<open>\<open>*tp++ = (val >> 8) & 0xff; *tp++ = val & 0xff\<close>\<close>

definition put_word :: "pton6_st \<Rightarrow> pton6_st option" where
  "put_word st =
     do { tmp1 \<leftarrow> store (p6_tmp st) (p6_tp st) (ucast (drop_bit 8 (p6_val st)));
          tmp2 \<leftarrow> store tmp1 (p6_tp st + 1) (ucast (p6_val st));
          Some (st\<lparr>p6_tmp := tmp2, p6_tp := p6_tp st + 2\<rparr>) }"

fun put_bytes :: "u8 list \<Rightarrow> nat \<Rightarrow> u8 list \<Rightarrow> u8 list option" where
  "put_bytes tmp i [] = Some tmp"
| "put_bytes tmp i (b # bs) = do { tmp' \<leftarrow> store tmp i b; put_bytes tmp' (i + 1) bs }"

primrec pton6_loop :: "string \<Rightarrow> string \<Rightarrow> pton6_st \<Rightarrow> (int + pton6_st) option" where
  "pton6_loop [] curtok st = Some (Inr st)"
| "pton6_loop (ch # src) curtok st =
     (case xdigit ch of
        Some d \<Rightarrow>
          let st1 = st\<lparr>p6_val := push_bit 4 (p6_val st) OR of_nat d, p6_seen := p6_seen st + 1\<rparr>
          in if p6_seen st1 > 4 then Some (Inl UV_EINVAL) else pton6_loop src curtok st1
      | None \<Rightarrow>
          if ch = CHR '':''
          then if p6_seen st = 0
               then if p6_colonp st \<noteq> None then Some (Inl UV_EINVAL)
                    else pton6_loop src src (st\<lparr>p6_colonp := Some (p6_tp st)\<rparr>)
               else if src = [] then Some (Inl UV_EINVAL)
               else if p6_tp st + 2 > 16 then Some (Inl UV_EINVAL)
               else do { st1 \<leftarrow> put_word st;
                         pton6_loop src src (st1\<lparr>p6_seen := 0, p6_val := 0\<rparr>) }
          else if ch = CHR ''.'' \<and> p6_tp st + 4 \<le> 16
          then do { r \<leftarrow> inet_pton4 curtok;
                    case r of
                      Inr bs \<Rightarrow>
                        do { tmp \<leftarrow> put_bytes (p6_tmp st) (p6_tp st) bs;
                             Some (Inr (st\<lparr>p6_tmp := tmp, p6_tp := p6_tp st + 4, p6_seen := 0\<rparr>)) }
                    | Inl _ \<Rightarrow> Some (Inl UV_EINVAL) }
          else Some (Inl UV_EINVAL))"

text \<open>The bytes after \<open>colonp\<close> move to the end of the address.\<close>

definition shift_step :: "nat \<Rightarrow> nat \<Rightarrow> nat \<Rightarrow> u8 list \<Rightarrow> u8 list option" where
  "shift_step colonp n i tmp =
     do { b \<leftarrow> fetch tmp (colonp + (n - i));
          tmp1 \<leftarrow> store tmp (16 - i) b;
          store tmp1 (colonp + (n - i)) 0 }"

definition pton6_finish :: "pton6_st \<Rightarrow> (int + u8 list) option" where
  "pton6_finish st =
     (if p6_seen st > 0 \<and> p6_tp st + 2 > 16 then Some (Inl UV_EINVAL)
      else do { st1 \<leftarrow> (if p6_seen st > 0 then put_word st else Some st);
                case p6_colonp st1 of
                  None \<Rightarrow> Some (if p6_tp st1 \<noteq> 16 then Inl UV_EINVAL else Inr (p6_tmp st1))
                | Some colonp \<Rightarrow>
                    if p6_tp st1 = 16 then Some (Inl UV_EINVAL)
                    else do { let n = p6_tp st1 - colonp;
                              tmp \<leftarrow> foldM (shift_step colonp n) [1..<n + 1] (p6_tmp st1);
                              Some (Inr tmp) } })"

definition inet_pton6 :: "string \<Rightarrow> (int + u8 list) option" where
  "inet_pton6 src =
     (if src \<noteq> [] \<and> hd src = CHR '':'' \<and> (tl src = [] \<or> hd (tl src) \<noteq> CHR '':'')
      then Some (Inl UV_EINVAL)
      else do { let s = (if src \<noteq> [] \<and> hd src = CHR '':'' then tl src else src);
                r \<leftarrow> pton6_loop s s
                      \<lparr>p6_tmp = replicate 16 0, p6_tp = 0, p6_colonp = None, p6_seen = 0, p6_val = 0\<rparr>;
                case r of Inl e \<Rightarrow> Some (Inl e) | Inr st \<Rightarrow> pton6_finish st })"

definition uv_inet_pton :: "af \<Rightarrow> string option \<Rightarrow> (int + u8 list) option" where
  "uv_inet_pton a srcp =
     (case srcp of
        None \<Rightarrow> Some (Inl UV_EINVAL)
      | Some src \<Rightarrow>
          (case a of
             AF_INET \<Rightarrow> inet_pton4 src
           | AF_INET6 \<Rightarrow>
               (case strchr src (CHR ''%'') of
                  None \<Rightarrow> inet_pton6 src
                | Some len \<Rightarrow> if len > UV_INET6_ADDRSTRLEN - 1 then Some (Inl UV_EINVAL)
                              else inet_pton6 (take len src))
           | AF_OTHER _ \<Rightarrow> Some (Inl UV_EAFNOSUPPORT)))"

section \<open>The string copy\<close>

lemma strscpy_loop_fits:
  assumes "NUL \<notin> set s" "i \<le> length s" "length s < n" "n \<le> length d" "length s \<le> SSIZE_MAX"
  shows "strscpy_loop d s n i =
    Some (int (length s), take i d @ drop i s @ NUL # drop (Suc (length s)) d)"
  using assms
proof (induction d s n i rule: strscpy_loop.induct)
  case (1 d s n i)
  show ?case
  proof (cases "i < length s")
    case True
    then have c: "s ! i \<noteq> NUL" using "1.prems"(1) by (metis nth_mem)
    have "take (i + 1) (d[i := s ! i]) @ drop (i + 1) s = take i d @ drop i s"
      using True "1.prems" by (simp add: take_Suc_conv_app_nth Cons_nth_drop_Suc)
    then show ?thesis
      using "1.IH" [of "s ! i" "d[i := s ! i]"] True c "1.prems"
      by (subst strscpy_loop.simps) (simp add: Let_def del: take_update_swap)
  next
    case False
    then have i: "i = length s" using "1.prems"(2) by simp
    have "d[i := NUL] = take i d @ NUL # drop (Suc i) d"
      using "1.prems" i by (simp add: upd_conv_take_nth_drop)
    then show ?thesis
      using i "1.prems" by (subst strscpy_loop.simps) (simp add: Let_def)
  qed
qed

lemma strscpy_loop_cut:
  assumes "NUL \<notin> set s" "i \<le> n" "0 < n" "n \<le> length s" "n \<le> length d"
  shows "strscpy_loop d s n i =
    Some (UV_E2BIG, take (n - 1) (take i d @ drop i s) @ NUL # drop n d)"
  using assms
proof (induction d s n i rule: strscpy_loop.induct)
  case (1 d s n i)
  show ?case
  proof (cases "i < n")
    case True
    then have c: "s ! i \<noteq> NUL" using "1.prems" by (metis nth_mem order_less_le_trans)
    have "take (i + 1) (d[i := s ! i]) @ drop (i + 1) s = take i d @ drop i s"
      using True "1.prems" by (simp add: take_Suc_conv_app_nth Cons_nth_drop_Suc)
    then show ?thesis
      using "1.IH" [of "s ! i" "d[i := s ! i]"] True c "1.prems"
      by (subst strscpy_loop.simps) (simp add: Let_def del: take_update_swap)
  next
    case False
    then have i: "i = n" using "1.prems"(2) by simp
    have "d[n - 1 := NUL] = take (n - 1) d @ NUL # drop n d"
      using "1.prems" i by (simp add: upd_conv_take_nth_drop)
    then show ?thesis
      using i "1.prems" by (subst strscpy_loop.simps) (simp add: min_def)
  qed
qed

section \<open>Decimal and hexadecimal texts\<close>

lemma radix_digit: "n < b \<Longrightarrow> radix b n = [digit n]"
  by (simp add: radix.simps)

lemma radix_snoc: "\<not> n < b \<Longrightarrow> 2 \<le> b \<Longrightarrow> radix b n = radix b (n div b) @ [digit (n mod b)]"
  by (simp add: radix.simps [of b n])

lemma radix_nonempty [simp]: "radix b n \<noteq> []"
  by (subst radix.simps) simp

lemma radix_length: "2 \<le> b \<Longrightarrow> n < b ^ Suc k \<Longrightarrow> length (radix b n) \<le> Suc k"
proof (induction k arbitrary: n)
  case 0
  then show ?case by (simp add: radix_digit)
next
  case (Suc k)
  show ?case
  proof (cases "n < b")
    case True
    then show ?thesis by (simp add: radix_digit)
  next
    case False
    have "n div b < b ^ Suc k" using Suc.prems by (simp add: less_mult_imp_div_less mult.commute)
    then show ?thesis using Suc.IH [of "n div b"] Suc.prems False by (simp add: radix_snoc)
  qed
qed

lemma strchr_Some: "distinct s \<Longrightarrow> strchr s c = Some d \<longleftrightarrow> d < length s \<and> s ! d = c"
  by (auto simp: strchr_def find_upt_Some nth_eq_iff_index_eq)

lemma strchr_None: "strchr s c = None \<longleftrightarrow> c \<notin> set s"
  by (auto simp: strchr_def find_upt_None in_set_conv_nth)

lemma strchr_decimal: "strchr ''0123456789'' c = Some d \<longleftrightarrow> d < 10 \<and> c = digit d"
proof -
  have "''0123456789abcdef'' ! d = ''0123456789'' ! d" if "d < 10"
    using nth_append [of "''0123456789''" "''abcdef''" d] that by simp
  then show ?thesis by (auto simp: strchr_Some digit_def)
qed

lemma xdigit_digit: "d < 16 \<Longrightarrow> xdigit (digit d) = Some d"
proof -
  assume "d < 16"
  then have "strchr ''0123456789abcdef'' (digit d) = Some d" by (simp add: strchr_Some digit_def)
  then show ?thesis by (simp add: xdigit_def)
qed

lemma separators [simp]:
  "strchr ''0123456789'' CHR ''.'' = None" "xdigit CHR ''.'' = None" "xdigit CHR '':'' = None"
proof -
  have "strchr ''0123456789abcdef'' c = None \<and> strchr ''0123456789ABCDEF'' c = None"
    if "c \<in> {CHR ''.'', CHR '':''}" for c
    unfolding strchr_None using that by auto
  then show "xdigit CHR ''.'' = None" "xdigit CHR '':'' = None" by (simp_all add: xdigit_def)
qed (simp add: strchr_None)

section \<open>Parsing IPv4\<close>

text \<open>What \<open>pton4_loop\<close> has read when it is in a state.\<close>

definition pton4_inv :: "string \<Rightarrow> bool \<Rightarrow> nat \<Rightarrow> u8 list \<Rightarrow> nat \<Rightarrow> bool" where
  "pton4_inv pre saw octets tmp tp \<longleftrightarrow>
     length tmp = 4 \<and> tp < 4 \<and> octets = tp + (if saw then 1 else 0) \<and> (\<not> saw \<longrightarrow> tmp ! tp = 0) \<and>
     pre = concat (map (\<lambda>b. radix 10 (unat b) @ ''.'') (take tp tmp)) @
           (if saw then radix 10 (unat (tmp ! tp)) else [])"

lemma length4: "length xs = 4 \<longleftrightarrow> (\<exists>a b c d. xs = [a, b, c, d])"
  by (auto simp: numeral_eq_Suc length_Suc_conv)

lemma pton4_inv_digit:
  assumes inv: "pton4_inv pre saw octets tmp tp" and d: "d < 10"
    and cur: "\<not> (saw \<and> tmp ! tp = 0)" and nw: "unat (tmp ! tp) * 10 + d \<le> 255"
  shows "pton4_inv (pre @ [digit d]) True (if saw then octets else octets + 1)
    (tmp[tp := of_nat (unat (tmp ! tp) * 10 + d)]) tp"
proof -
  let ?n = "unat (tmp ! tp) * 10 + d"
  have n: "unat (of_nat ?n :: u8) = ?n" by (rule unat_of_nat_id) (use nw in simp)
  have "radix 10 ?n = (if saw then radix 10 (unat (tmp ! tp)) else []) @ [digit d]"
  proof (cases saw)
    case True
    then have "tmp ! tp \<noteq> 0" using cur by simp
    then have "unat (tmp ! tp) \<noteq> 0" by (metis unat_0 unat_inj_iff)
    then have "\<not> ?n < 10" "?n div 10 = unat (tmp ! tp)" "?n mod 10 = d" using d by auto
    then show ?thesis using True radix_snoc [of ?n 10] by simp
  next
    case False
    then have "tmp ! tp = 0" using inv by (simp add: pton4_inv_def)
    then show ?thesis using False d by (simp add: radix_digit)
  qed
  then show ?thesis using inv n by (auto simp: pton4_inv_def simp del: of_nat_add of_nat_mult)
qed

lemma pton4_inv_dot:
  assumes inv: "pton4_inv pre True octets tmp tp" and "octets \<noteq> 4"
  shows "pton4_inv (pre @ ''.'') False octets (tmp[tp + 1 := 0]) (tp + 1)"
  using assms by (auto simp: pton4_inv_def take_Suc_conv_app_nth)

lemma pton4_inv_end:
  "pton4_inv pre saw octets tmp tp \<Longrightarrow> \<not> octets < 4 \<Longrightarrow> length tmp = 4 \<and> pre = dotted tmp"
proof -
  assume i: "pton4_inv pre saw octets tmp tp" "\<not> octets < 4"
  then have st: "saw" "tp = 3" by (auto simp: pton4_inv_def split: if_splits)
  have "length tmp = 4" using i(1) by (simp add: pton4_inv_def)
  then obtain a b c d where "tmp = [a, b, c, d]" by (auto simp: length4)
  then show ?thesis using i(1) st by (simp add: pton4_inv_def dotted_def)
qed

lemma pton4_sound:
  "pton4_inv pre saw octets tmp tp \<Longrightarrow>
   \<exists>r. pton4_loop src saw octets tmp tp = Some r \<and>
       (\<forall>bs. r = Inr bs \<longrightarrow> length bs = 4 \<and> pre @ src = dotted bs)"
proof (induction src arbitrary: pre saw octets tmp tp)
  case Nil
  then show ?case using pton4_inv_end [OF Nil] by auto
next
  case (Cons ch src)
  have tp: "tp < length tmp" "tp < 4" and o: "octets = tp + (if saw then 1 else 0)"
    using Cons.prems by (auto simp: pton4_inv_def)
  show ?case
  proof (cases "strchr ''0123456789'' ch")
    case (Some d)
    then have d: "d < 10" "ch = digit d" by (simp_all add: strchr_decimal)
    show ?thesis
    proof (cases "saw \<and> tmp ! tp = 0 \<or> 255 < unat (tmp ! tp) * 10 + d")
      case True
      then show ?thesis using Some tp by (auto simp: Let_def)
    next
      case False
      from Cons.IH [OF pton4_inv_digit [OF Cons.prems d(1)]] False
      show ?thesis using Some tp d o by (cases saw) (auto simp: Let_def)
    qed
  next
    case None
    show ?thesis
    proof (cases "ch = CHR ''.'' \<and> saw \<and> octets \<noteq> 4")
      case True
      then have "tp + 1 < length tmp" using Cons.prems by (auto simp: pton4_inv_def)
      moreover have "pton4_inv (pre @ ''.'') False octets (tmp[tp + 1 := 0]) (tp + 1)"
        using True Cons.prems pton4_inv_dot by simp
      ultimately show ?thesis using Cons.IH None True by fastforce
    next
      case False
      then show ?thesis using None by auto
    qed
  qed
qed

lemma pton4_octet:
  assumes "tp < length tmp" "tmp ! tp = 0" "octets < 4" "n \<le> 255"
  shows "pton4_loop (radix 10 n @ rest) False octets tmp tp =
    pton4_loop rest True (octets + 1) (tmp[tp := of_nat n]) tp"
  using assms(4)
proof (induction n arbitrary: rest rule: less_induct)
  case (less n)
  show ?case
  proof (cases "n < 10")
    case True
    then have "strchr ''0123456789'' (digit n) = Some n" by (simp add: strchr_decimal)
    then show ?thesis using True assms by (simp add: radix_digit Let_def)
  next
    case False
    let ?m = "n div 10"
    have m: "?m < n" "?m \<le> 255" "?m \<noteq> 0" "?m * 10 + n mod 10 = n" using False less.prems by auto
    have um: "unat (of_nat ?m :: u8) = ?m" using m by (simp add: unat_of_nat_id)
    then have nz: "(of_nat ?m :: u8) \<noteq> 0" using m(3) by (metis unat_0)
    have ch: "strchr ''0123456789'' (digit (n mod 10)) = Some (n mod 10)" by (simp add: strchr_decimal)
    have "pton4_loop (radix 10 n @ rest) False octets tmp tp =
        pton4_loop (digit (n mod 10) # rest) True (octets + 1) (tmp[tp := of_nat ?m]) tp"
      using less.IH [OF m(1, 2)] False by (simp add: radix_snoc)
    also have "\<dots> = pton4_loop rest True (octets + 1) (tmp[tp := of_nat n]) tp"
      using ch assms(1) um nz less.prems m(4) by (simp add: Let_def)
    finally show ?thesis .
  qed
qed

lemma pton4_dotted:
  assumes "length bs = 4"
  shows "inet_pton4 (dotted bs) = Some (Inr bs)"
proof -
  obtain a b c d where bs: "bs = [a, b, c, d]" using assms by (auto simp: length4)
  have le: "unat (w :: u8) \<le> 255" for w using unat_lt_exp [of w] by simp
  have r: "replicate 4 (0 :: u8) = [0, 0, 0, 0]" by (simp add: numeral_eq_Suc)
  show ?thesis
    unfolding bs inet_pton4_def dotted_def r
    using pton4_octet [of "Suc (Suc (Suc 0))" _ "Suc (Suc (Suc 0))" "unat d" "[]"]
    by (simp add: pton4_octet le)
qed

lemma pton4_correct:
  "\<exists>r. inet_pton4 s = Some r \<and> (\<forall>bs. r = Inr bs \<longleftrightarrow> length bs = 4 \<and> s = dotted bs)"
proof -
  have "pton4_inv [] False 0 (replicate 4 0) 0" by (simp add: pton4_inv_def)
  from pton4_sound [OF this, of s] show ?thesis
    using pton4_dotted by (fastforce simp: inet_pton4_def)
qed

section \<open>The words of an IPv6 address\<close>

lemma ipv6_words_prefix:
  "k \<le> 8 \<Longrightarrow>
   fold (\<lambda>i ws. ws[i div 2 := ws ! (i div 2) OR push_bit (8 * (1 - i mod 2)) (ucast (src ! i))])
     [0..<2 * k] (replicate 8 0) =
   map (\<lambda>i. push_bit 8 (ucast (src ! (2 * i))) OR ucast (src ! (2 * i + 1)) :: u32) [0..<k] @ replicate (8 - k) 0"
proof (induction k)
  case 0
  then show ?case by simp
next
  case (Suc k)
  have "replicate (8 - k) (0 :: u32) = 0 # replicate (8 - Suc k) 0"
    using Suc.prems by (metis Suc_diff_le diff_Suc_Suc replicate_Suc)
  with Suc show ?case by (simp add: nth_append list_update_append)
qed

lemma ipv6_words_eq:
  "ipv6_words src =
    map (\<lambda>i. push_bit 8 (ucast (src ! (2 * i))) OR ucast (src ! (2 * i + 1))) [0..<8]"
  using ipv6_words_prefix [of 8 src] by (simp add: ipv6_words_def)

definition word_bytes :: "u32 \<Rightarrow> u8 list" where
  "word_bytes w = [ucast (drop_bit 8 w), ucast w]"

lemma word_bytes_pair: "word_bytes (push_bit 8 (ucast a) OR ucast b) = [a, b]"
  unfolding word_bytes_def
  by (simp, intro conjI; rule bit_word_eqI) (auto simp: bit_simps dest: bit_imp_le_length)

lemma pairs_concat:
  "length xs = 2 * k \<Longrightarrow> concat (map (\<lambda>i. [xs ! (2 * i), xs ! (2 * i + 1)]) [0..<k]) = xs"
proof (induction k arbitrary: xs)
  case 0
  then show ?case by simp
next
  case (Suc k)
  obtain a b ys where xs: "xs = a # b # ys" "length ys = 2 * k"
    using Suc.prems by (auto simp: length_Suc_conv)
  have "concat (map (\<lambda>i. [xs ! (2 * i), xs ! (2 * i + 1)]) [0..<Suc k]) =
      a # b # concat (map (\<lambda>i. [ys ! (2 * i), ys ! (2 * i + 1)]) [0..<k])"
    by (simp add: upt_conv_Cons map_Suc_upt [symmetric] xs(1) o_def del: upt_Suc)
  then show ?case using Suc.IH [OF xs(2)] xs(1) by simp
qed

lemma ipv6_words_bytes: "length src = 16 \<Longrightarrow> concat (map word_bytes (ipv6_words src)) = src"
  using pairs_concat [of src 8] by (simp add: ipv6_words_eq o_def word_bytes_pair)

lemma ipv6_words_length [simp]: "length (ipv6_words src) = 8"
  by (simp add: ipv6_words_eq)

lemma ipv6_words_16: "w \<in> set (ipv6_words src) \<Longrightarrow> unat w < 65536"
proof -
  assume "w \<in> set (ipv6_words src)"
  then obtain a b :: u8 where w: "w = push_bit 8 (ucast a) OR ucast b" by (auto simp: ipv6_words_eq)
  have "take_bit 16 w = w" unfolding w
    by (rule bit_word_eqI) (auto simp: bit_simps dest: bit_imp_le_length)
  then have "unat w = take_bit 16 (unat w)" by (metis unsigned_take_bit_eq)
  then show ?thesis using take_bit_nat_less_exp [of 16 "unat w"] by simp
qed
section \<open>The longest run of zero words\<close>

definition zero_run :: "u32 list \<Rightarrow> nat \<Rightarrow> zrun \<Rightarrow> bool" where
  "zero_run ws i r \<longleftrightarrow> fst r = - 1 \<or>
     (\<exists>b. fst r = int b \<and> b + snd r \<le> i \<and> (\<forall>k. b \<le> k \<and> k < b + snd r \<longrightarrow> ws ! k = 0))"

definition cur_run :: "u32 list \<Rightarrow> nat \<Rightarrow> zrun \<Rightarrow> bool" where
  "cur_run ws i r \<longleftrightarrow> fst r = - 1 \<or>
     (\<exists>b. fst r = int b \<and> b + snd r = i \<and> (\<forall>k. b \<le> k \<and> k < i \<longrightarrow> ws ! k = 0))"

lemma zero_run_Suc: "zero_run ws i r \<Longrightarrow> zero_run ws (Suc i) r"
  by (auto simp: zero_run_def)

lemma cur_zero_run: "cur_run ws i r \<Longrightarrow> zero_run ws i r"
  by (auto simp: zero_run_def cur_run_def)

lemma cur_run_next:
  assumes "cur_run ws i r" "ws ! i = 0"
  shows "cur_run ws (Suc i) (if fst r = - 1 then (int i, 1) else (fst r, snd r + 1))"
proof (cases "fst r = - 1")
  case True
  then show ?thesis using assms(2) by (auto simp: cur_run_def less_Suc_eq_le)
next
  case False
  then obtain b where b: "fst r = int b" "b + snd r = i" "\<forall>k. b \<le> k \<and> k < i \<longrightarrow> ws ! k = 0"
    using assms(1) by (auto simp: cur_run_def)
  then have "\<forall>k. b \<le> k \<and> k < Suc i \<longrightarrow> ws ! k = 0" using assms(2) by (auto simp: less_Suc_eq)
  then show ?thesis using b False by (auto simp: cur_run_def)
qed

lemma run_step_zero:
  assumes "zero_run ws i best" "cur_run ws i cur" "run_step ws i (best, cur) = (best', cur')"
  shows "zero_run ws (Suc i) best' \<and> cur_run ws (Suc i) cur'"
proof (cases "ws ! i = 0")
  case True
  then show ?thesis
    using cur_run_next [OF assms(2) True] zero_run_Suc [OF assms(1)] assms(3)
    by (simp add: run_step_def)
next
  case False
  then show ?thesis
    using zero_run_Suc [OF assms(1)] zero_run_Suc [OF cur_zero_run [OF assms(2)]] assms(3)
    by (auto simp: run_step_def cur_run_def split: if_splits)
qed

lemma runs_zero:
  "fold (run_step ws) [0..<i] ((- 1, 0), (- 1, 0)) = (best, cur) \<Longrightarrow>
   zero_run ws i best \<and> cur_run ws i cur"
proof (induction i arbitrary: best cur)
  case 0
  then show ?case by (auto simp: zero_run_def cur_run_def)
next
  case (Suc i)
  obtain b c where f: "fold (run_step ws) [0..<i] ((- 1, 0), (- 1, 0)) = (b, c)" by (meson prod.exhaust)
  then have "run_step ws i (b, c) = (best, cur)" using Suc.prems by simp
  then show ?case using run_step_zero Suc.IH [OF f] by blast
qed

lemma best_run_cases:
  obtains (none) "fst (best_run ws) = - 1"
    | (run) b l where "best_run ws = (int b, l)" "2 \<le> l" "b + l \<le> 8" "\<forall>k. b \<le> k \<and> k < b + l \<longrightarrow> ws ! k = 0"
proof -
  obtain best cur where f: "fold (run_step ws) [0..<8] ((- 1, 0), (- 1, 0)) = (best, cur)"
    by (meson prod.exhaust)
  have z: "zero_run ws 8 best" "zero_run ws 8 cur"
    using runs_zero [OF f] by (auto intro: cur_zero_run)
  then have "zero_run ws 8 (best_run ws)"
    unfolding best_run_def f by (auto simp: Let_def) (auto simp: zero_run_def)
  moreover have "fst (best_run ws) = - 1 \<or> 2 \<le> snd (best_run ws)"
    unfolding best_run_def f by (auto simp: Let_def)
  ultimately show thesis using none run [of _ "snd (best_run ws)"]
    by (cases "best_run ws") (auto simp: zero_run_def)
qed

section \<open>The text of an IPv6 address\<close>

abbreviation hex :: "u32 \<Rightarrow> string" where
  "hex w \<equiv> radix 16 (unat w)"

text \<open>Groups separated by colons, and groups each with a colon after it.\<close>

fun groups :: "u32 list \<Rightarrow> string" where
  "groups [] = []"
| "groups [w] = hex w"
| "groups (w # v # ws) = hex w @ '':'' @ groups (v # ws)"

definition heads :: "u32 list \<Rightarrow> string" where
  "heads ws = concat (map (\<lambda>w. hex w @ '':'') ws)"

definition piece :: "u32 list \<Rightarrow> nat \<Rightarrow> string" where
  "piece ws k = (if k \<noteq> 0 then '':'' else []) @ hex (ws ! k)"

lemma pieces_heads: "i < j \<Longrightarrow> j \<le> length ws \<Longrightarrow>
  concat (map (piece ws) [i..<j]) @ '':'' = (if i \<noteq> 0 then '':'' else []) @ heads (take (j - i) (drop i ws))"
proof (induction "j - i" arbitrary: i)
  case 0
  then show ?case by simp
next
  case (Suc n)
  have t: "take (j - i) (drop i ws) = ws ! i # take (j - Suc i) (drop (Suc i) ws)"
    using Suc.prems by (simp add: Cons_nth_drop_Suc [symmetric] take_Cons')
  show ?case
  proof (cases "Suc i < j")
    case True
    then have "concat (map (piece ws) [Suc i..<j]) @ '':'' = '':'' @ heads (take (j - Suc i) (drop (Suc i) ws))"
      using Suc.hyps(1) [of "Suc i"] Suc.hyps(2) Suc.prems by simp
    then show ?thesis using Suc.prems(1) t by (simp add: upt_conv_Cons heads_def piece_def)
  next
    case False
    then have "j = Suc i" using Suc.prems by simp
    then show ?thesis using t by (simp add: heads_def piece_def)
  qed
qed

lemma pieces_groups: "i < length ws \<Longrightarrow>
  concat (map (piece ws) [i..<length ws]) = (if i \<noteq> 0 then '':'' else []) @ groups (drop i ws)"
proof (induction "length ws - i" arbitrary: i)
  case 0
  then show ?case by simp
next
  case (Suc n)
  show ?case
  proof (cases "Suc i < length ws")
    case True
    have d: "drop i ws = ws ! i # ws ! Suc i # drop (Suc (Suc i)) ws"
      "drop (Suc i) ws = ws ! Suc i # drop (Suc (Suc i)) ws"
      using True by (simp_all add: Cons_nth_drop_Suc)
    then have "concat (map (piece ws) [Suc i..<length ws]) = '':'' @ groups (drop (Suc i) ws)"
      using Suc.hyps(1) [of "Suc i"] Suc.hyps(2) True by simp
    then show ?thesis using True by (simp add: upt_conv_Cons piece_def d)
  next
    case False
    then have "length ws = Suc i" using Suc.prems by simp
    then show ?thesis by (simp add: piece_def Cons_nth_drop_Suc [symmetric])
  qed
qed

lemma ntop6_pieces:
  assumes "\<And>k. i \<le> k \<Longrightarrow> k < j \<Longrightarrow> \<not> in_run best k \<and> \<not> encapsulated ws best k" "i \<le> j"
  shows "ntop6_loop src ws best ([i..<j] @ is) tp =
    ntop6_loop src ws best is (tp @ concat (map (piece ws) [i..<j]))"
  using assms
proof (induction "j - i" arbitrary: i tp)
  case 0
  then show ?case by simp
next
  case (Suc n)
  have ij: "i < j" using Suc.hyps(2) by simp
  then have "ntop6_loop src ws best ([i..<j] @ is) tp =
      ntop6_loop src ws best ([Suc i..<j] @ is) (tp @ piece ws i)"
    using Suc.prems(1) [of i] by (simp add: upt_conv_Cons piece_def Let_def)
  then show ?case
    using Suc.hyps(1) [of "Suc i" "tp @ piece ws i"] Suc.hyps(2) Suc.prems ij
    by (simp add: upt_conv_Cons)
qed

lemma ntop6_run:
  assumes "best = (int b, l)"
  shows "b \<le> i \<Longrightarrow> i \<le> b + l \<Longrightarrow>
    ntop6_loop src ws best ([i..<b + l] @ is) tp =
    ntop6_loop src ws best is (tp @ (if i = b \<and> 0 < l then '':'' else []))"
proof (induction "b + l - i" arbitrary: i tp)
  case 0
  then show ?case by auto
next
  case (Suc n)
  then have i: "i < b + l" by simp
  then have "in_run best i" using assms Suc.prems by (simp add: in_run_def)
  then show ?case
    using Suc.hyps(1) [of "Suc i" "if int i = fst best then tp @ '':'' else tp"] Suc.hyps(2) Suc.prems i assms
    by (simp add: upt_conv_Cons)
qed

lemma octet_length: "length (radix 10 (unat (w :: u8))) \<le> 3"
  using radix_length [of 10 "unat w" 2] unat_lt_exp [of w] by simp

lemma hex_length: "unat w < 65536 \<Longrightarrow> length (hex w) \<le> 4"
  using radix_length [of 16 "unat w" 3] by simp

lemma dotted_length: "length (dotted src) \<le> 15" "0 < length (dotted src)"
  using octet_length [of "src ! 0"] octet_length [of "src ! 1"] octet_length [of "src ! 2"]
    octet_length [of "src ! 3"]
  by (simp_all add: dotted_def)

lemma ntop4_text_fits: "15 < sz \<Longrightarrow> ntop4_text src sz = Inr (dotted src)"
  using dotted_length [of src] by (auto simp: ntop4_text_def Let_def UV_INET_ADDRSTRLEN_def)

lemma upt_join: "a \<le> b \<Longrightarrow> b \<le> c \<Longrightarrow> [a..<c] = [a..<b] @ [b..<c]"
  by (metis le_add_diff_inverse upt_add_eq_append)

lemma upt_split: "b \<le> c \<Longrightarrow> c \<le> 8 \<Longrightarrow> [0..<8] = [0..<b] @ [b..<c] @ [c..<8]"
  using upt_join [of 0 b 8] upt_join [of b c 8] by simp

text \<open>The three forms of the text: no gap, a gap for zero words, and an IPv4 address at the end.\<close>

lemma ntop6_text_plain:
  assumes "fst (best_run (ipv6_words src)) = - 1"
  shows "ntop6_text src = Inr (groups (ipv6_words src))"
proof -
  let ?ws = "ipv6_words src"
  have "ntop6_loop src ?ws (best_run ?ws) ([0..<8] @ []) [] = Inr (concat (map (piece ?ws) [0..<8]))"
    using assms by (subst ntop6_pieces) (auto simp: in_run_def encapsulated_def)
  moreover have "concat (map (piece ?ws) [0..<8]) = groups ?ws"
    using pieces_groups [of 0 ?ws] by simp
  ultimately show ?thesis using assms by (simp add: ntop6_text_def Let_def)
qed

lemma ntop6_text_ipv4:
  assumes "best_run (ipv6_words src) = (0, l)" and "l = 6 \<or> l = 5 \<and> ipv6_words src ! 5 = 0xffff"
  shows "ntop6_text src = Inr (''::'' @ heads (drop l (take 6 (ipv6_words src))) @ dotted (drop 12 src))"
proof -
  let ?ws = "ipv6_words src"
  have s: "[0..<8] = [0..<0 + l] @ [l..<6] @ [6, 7]" using assms(2) by (auto simp: upt_rec)
  have h: "concat (map (piece ?ws) [l..<6]) @ '':'' = '':'' @ heads (drop l (take 6 ?ws))"
    using assms(2) pieces_heads [of 5 6 ?ws] by (auto simp: heads_def drop_take)
  have "ntop6_loop src ?ws (best_run ?ws) [0..<8] [] =
      ntop6_loop src ?ws (0, l) ([l..<6] @ [6, 7]) '':''"
    unfolding s assms(1) using ntop6_run [of "(0, l)" 0 l 0 src ?ws "[l..<6] @ [6, 7]" "[]"] assms(2)
    by auto
  also have "\<dots> = ntop6_loop src ?ws (0, l) [6, 7] ('':'' @ concat (map (piece ?ws) [l..<6]))"
    using assms(2) by (subst ntop6_pieces) (auto simp: in_run_def encapsulated_def)
  also have "\<dots> = Inr ('':'' @ concat (map (piece ?ws) [l..<6]) @ '':'' @ dotted (drop 12 src))"
  proof -
    have "length (piece ?ws 5) \<le> 5" using hex_length [OF ipv6_words_16, of "?ws ! 5" src] by (simp add: piece_def)
    then have "length (concat (map (piece ?ws) [l..<6])) \<le> 5" using assms(2) by (auto simp: upt_rec)
    then show ?thesis using assms(2)
      by (auto simp: in_run_def encapsulated_def Let_def ntop4_text_fits UV_INET6_ADDRSTRLEN_def)
  qed
  also have "\<dots> = Inr (''::'' @ heads (drop l (take 6 ?ws)) @ dotted (drop 12 src))"
    using h by simp
  finally show ?thesis using assms by (auto simp: ntop6_text_def Let_def)
qed

lemma ntop6_text_gap:
  assumes best: "best_run (ipv6_words src) = (int b, l)" and l: "2 \<le> l" "b + l \<le> 8"
    and plain: "\<not> (b = 0 \<and> (l = 6 \<or> l = 5 \<and> ipv6_words src ! 5 = 0xffff))"
  shows "ntop6_text src = Inr ((if b = 0 then '':'' else heads (take b (ipv6_words src))) @ '':'' @
    groups (drop (b + l) (ipv6_words src)))"
proof -
  let ?ws = "ipv6_words src"
  let ?best = "(int b, l)"
  have out: "\<not> in_run ?best k \<and> \<not> encapsulated ?ws ?best k" if "k < b \<or> b + l \<le> k" for k
    using that plain l by (auto simp: in_run_def encapsulated_def)
  have "ntop6_loop src ?ws ?best [0..<8] [] =
      ntop6_loop src ?ws ?best ([b..<b + l] @ [b + l..<8] @ []) (concat (map (piece ?ws) [0..<b]))"
    using upt_split [of b "b + l"] l out by (simp add: ntop6_pieces)
  also have "\<dots> = ntop6_loop src ?ws ?best ([b + l..<8] @ []) (concat (map (piece ?ws) [0..<b]) @ '':'')"
    using l by (subst ntop6_run) auto
  also have "\<dots> = Inr (concat (map (piece ?ws) [0..<b]) @ '':'' @ concat (map (piece ?ws) [b + l..<8]))"
    using l out by (subst ntop6_pieces) auto
  finally have loop: "ntop6_loop src ?ws ?best [0..<8] [] = \<dots>" .
  have h: "concat (map (piece ?ws) [0..<b]) @ '':'' = (if b = 0 then '':'' else heads (take b ?ws))"
    using pieces_heads [of 0 b ?ws] l by simp
  have t: "concat (map (piece ?ws) [b + l..<8]) @ (if b + l = 8 then '':'' else []) =
      '':'' @ groups (drop (b + l) ?ws)"
    using pieces_groups [of "b + l" ?ws] l by simp
  have "ntop6_text src = Inr ((concat (map (piece ?ws) [0..<b]) @ '':'') @
      (concat (map (piece ?ws) [b + l..<8]) @ (if b + l = 8 then '':'' else [])))"
    using loop best by (auto simp: ntop6_text_def Let_def)
  then show ?thesis unfolding h t by simp
qed

section \<open>Parsing IPv6\<close>

text \<open>\<open>splice tmp i bs\<close>: the buffer with \<open>bs\<close> written at \<open>i\<close>.\<close>

definition splice :: "u8 list \<Rightarrow> nat \<Rightarrow> u8 list \<Rightarrow> u8 list" where
  "splice tmp i bs = take i tmp @ bs @ drop (i + length bs) tmp"

lemma splice_length: "i + length bs \<le> length tmp \<Longrightarrow> length (splice tmp i bs) = length tmp"
  by (simp add: splice_def)

lemma splice_splice:
  "i + length as + length bs \<le> length tmp \<Longrightarrow>
   splice (splice tmp i as) (i + length as) bs = splice tmp i (as @ bs)"
  by (simp add: splice_def ac_simps)

lemma splice_Nil [simp]: "splice tmp i [] = tmp"
  by (simp add: splice_def)

lemma put_bytes_splice:
  "i + length bs \<le> length tmp \<Longrightarrow> put_bytes tmp i bs = Some (splice tmp i bs)"
proof (induction bs arbitrary: tmp i)
  case Nil
  then show ?case by simp
next
  case (Cons b bs)
  have "tmp[i := b] = splice tmp i [b]" using Cons.prems by (simp add: splice_def upd_conv_take_nth_drop)
  then show ?case
    using Cons.IH [of "i + 1" "tmp[i := b]"] Cons.prems splice_splice [of i "[b]" bs tmp] by (simp add: splice_length)
qed

lemma put_word_splice:
  assumes "p6_tp st + 2 \<le> length (p6_tmp st)"
  shows "put_word st =
    Some (st\<lparr>p6_tmp := splice (p6_tmp st) (p6_tp st) (word_bytes (p6_val st)), p6_tp := p6_tp st + 2\<rparr>)"
  using put_bytes_splice [of "p6_tp st" "word_bytes (p6_val st)" "p6_tmp st"] assms
  by (simp add: put_word_def word_bytes_def)

text \<open>The state after some bytes have been written.\<close>

definition wrote :: "pton6_st \<Rightarrow> u8 list \<Rightarrow> pton6_st" where
  "wrote st bs = st\<lparr>p6_tmp := splice (p6_tmp st) (p6_tp st) bs, p6_tp := p6_tp st + length bs,
                   p6_seen := 0, p6_val := 0\<rparr>"

definition fresh_token :: "pton6_st \<Rightarrow> nat \<Rightarrow> bool" where
  "fresh_token st n \<longleftrightarrow> p6_seen st = 0 \<and> p6_val st = 0 \<and> length (p6_tmp st) = 16 \<and> p6_tp st + n \<le> 16"

lemma wrote_wrote:
  "fresh_token st (length as + length bs) \<Longrightarrow> wrote (wrote st as) bs = wrote st (as @ bs)"
  using splice_splice [of "p6_tp st" as bs "p6_tmp st"]
  by (simp add: wrote_def fresh_token_def add.assoc)

lemma wrote_Nil: "fresh_token st n \<Longrightarrow> wrote st [] = st"
  by (cases st) (simp add: wrote_def fresh_token_def)

lemma wrote_fresh: "fresh_token st (length as + n) \<Longrightarrow> fresh_token (wrote st as) n"
  by (simp add: wrote_def fresh_token_def splice_length)

lemma pton6_hex:
  assumes "p6_seen st = 0" "p6_val st = 0" "n < 65536"
  shows "pton6_loop (radix 16 n @ rest) cur st =
    pton6_loop rest cur (st\<lparr>p6_val := of_nat n, p6_seen := length (radix 16 n)\<rparr>)"
  using assms(3)
proof (induction n arbitrary: rest rule: less_induct)
  case (less n)
  have len: "length (radix 16 n) \<le> 4" using radix_length [of 16 n 3] less.prems by simp
  show ?case
  proof (cases "n < 16")
    case True
    then show ?thesis using assms(1, 2) by (simp add: radix_digit xdigit_digit Let_def)
  next
    case False
    let ?m = "n div 16"
    let ?d = "n mod 16"
    have m: "?m < n" "?m < 65536" using False less.prems by auto
    have d: "?d < 16" by simp
    have "unat (of_nat ?d :: u32) = ?d" by (rule unat_of_nat_id) (rule order_less_trans [OF d], simp)
    then have "push_bit 4 (of_nat ?m) OR of_nat ?d = (of_nat ?m * 2 ^ 4 + of_nat ?d :: u32)"
      by (intro push_bit_or) simp
    also have "\<dots> = of_nat (?m * 16 + ?d)" unfolding of_nat_add of_nat_mult by simp
    finally have v: "push_bit 4 (of_nat ?m) OR of_nat ?d = (of_nat n :: u32)" by simp
    have "radix 16 n = radix 16 ?m @ [digit ?d]" using False by (intro radix_snoc) auto
    then show ?thesis
      using less.IH [OF m, of "digit ?d # rest"] len v by (simp add: xdigit_digit Let_def)
  qed
qed

lemma pton6_group:
  assumes "fresh_token st 2" "unat w < 65536" "rest \<noteq> []"
  shows "pton6_loop (hex w @ '':'' @ rest) cur st = pton6_loop rest rest (wrote st (word_bytes w))"
proof -
  have "pton6_loop (hex w @ '':'' @ rest) cur st =
      pton6_loop ('':'' @ rest) cur (st\<lparr>p6_val := w, p6_seen := length (hex w)\<rparr>)"
    using assms pton6_hex [of st "unat w"] by (simp add: fresh_token_def)
  then show ?thesis
    using assms by (simp add: put_word_splice fresh_token_def wrote_def word_bytes_def)
qed

lemma word_bytes_length [simp]: "length (word_bytes w) = 2"
  by (simp add: word_bytes_def)

lemma words_bytes_length [simp]: "length (concat (map word_bytes ws)) = 2 * length ws"
  by (induction ws) auto

lemma pton6_heads:
  assumes "fresh_token st (2 * length ws)" "\<forall>w \<in> set ws. unat w < 65536" "rest \<noteq> []" "ws \<noteq> [] \<or> cur = rest"
  shows "pton6_loop (heads ws @ rest) cur st = pton6_loop rest rest (wrote st (concat (map word_bytes ws)))"
  using assms
proof (induction ws arbitrary: st cur)
  case Nil
  then show ?case by (simp add: heads_def wrote_Nil)
next
  case (Cons w ws)
  have fr: "fresh_token st (length (word_bytes w) + 2 * length ws)" using Cons.prems(1) by (simp add: add.commute)
  have f2: "fresh_token st 2" using fr by (simp add: fresh_token_def)
  have "pton6_loop (heads (w # ws) @ rest) cur st =
      pton6_loop (heads ws @ rest) (heads ws @ rest) (wrote st (word_bytes w))"
    using pton6_group [OF f2, of w "heads ws @ rest" cur] Cons.prems by (simp add: heads_def)
  also have "\<dots> = pton6_loop rest rest (wrote (wrote st (word_bytes w)) (concat (map word_bytes ws)))"
  proof (cases "ws = []")
    case True
    then show ?thesis using wrote_fresh [OF fr] by (simp add: heads_def wrote_Nil)
  next
    case False
    then show ?thesis using Cons.IH [OF wrote_fresh [OF fr]] Cons.prems by simp
  qed
  finally show ?case using wrote_wrote [of st "word_bytes w" "concat (map word_bytes ws)"] fr by simp
qed

lemma radix_chars: "2 \<le> b \<Longrightarrow> c \<in> set (radix b n) \<Longrightarrow> \<exists>d < b. c = digit d"
proof (induction n rule: less_induct)
  case (less n)
  show ?case
  proof (cases "n < b")
    case True
    then show ?thesis using less.prems by (auto simp: radix_digit)
  next
    case False
    then have "n div b < n" using less.prems(1) by (intro div_less_dividend) auto
    moreover have "n mod b < b" using less.prems(1) by simp
    moreover have "c \<in> set (radix b (n div b)) \<or> c = digit (n mod b)"
      using less.prems False by (auto simp: radix_snoc)
    ultimately show ?thesis using less.IH [of "n div b"] less.prems(1) by blast
  qed
qed

lemma radix_xdigits: "2 \<le> b \<Longrightarrow> b \<le> 16 \<Longrightarrow> c \<in> set (radix b n) \<Longrightarrow> xdigit c \<noteq> None"
  using radix_chars [of b c n] by (auto simp: xdigit_digit)

lemma pton6_xdigits:
  assumes "\<forall>c \<in> set cs. xdigit c \<noteq> None" "p6_seen st + length cs \<le> 4"
  shows "\<exists>v. pton6_loop (cs @ rest) cur st =
    pton6_loop rest cur (st\<lparr>p6_val := v, p6_seen := p6_seen st + length cs\<rparr>)"
  using assms
proof (induction cs arbitrary: st)
  case Nil
  then show ?case by (intro exI [of _ "p6_val st"]) simp
next
  case (Cons c cs)
  then obtain d where d: "xdigit c = Some d" by auto
  let ?st = "st\<lparr>p6_val := push_bit 4 (p6_val st) OR of_nat d, p6_seen := p6_seen st + 1\<rparr>"
  obtain v where "pton6_loop (cs @ rest) cur ?st =
      pton6_loop rest cur (?st\<lparr>p6_val := v, p6_seen := p6_seen ?st + length cs\<rparr>)"
    using Cons.IH [of ?st] Cons.prems by auto
  then show ?case using d Cons.prems by (intro exI [of _ v]) (simp add: Let_def)
qed

definition parse6 :: "string \<Rightarrow> string \<Rightarrow> pton6_st \<Rightarrow> (int + u8 list) option" where
  "parse6 s cur st =
     do { r \<leftarrow> pton6_loop s cur st;
          case r of Inl e \<Rightarrow> Some (Inl e) | Inr st' \<Rightarrow> pton6_finish st' }"

lemma parse6_cong: "pton6_loop s cur st = pton6_loop s' cur' st' \<Longrightarrow> parse6 s cur st = parse6 s' cur' st'"
  by (simp add: parse6_def)

lemma groups_nonempty [simp]: "groups (w # ws) \<noteq> []"
  by (cases ws) auto

lemma parse6_groups:
  "fresh_token st (2 * length ws) \<Longrightarrow> \<forall>w \<in> set ws. unat w < 65536 \<Longrightarrow>
   parse6 (groups ws) cur st = pton6_finish (wrote st (concat (map word_bytes ws)))"
proof (induction ws arbitrary: st cur rule: groups.induct)
  case 1
  then show ?case by (simp add: parse6_def wrote_Nil)
next
  case (2 w)
  have "pton6_loop (hex w) cur st = Some (Inr (st\<lparr>p6_val := w, p6_seen := length (hex w)\<rparr>))"
    using pton6_hex [of st "unat w" "[]"] 2 by (simp add: fresh_token_def)
  then show ?case
    using 2 put_word_splice [of "st\<lparr>p6_val := w, p6_seen := length (hex w)\<rparr>"]
    by (cases "p6_colonp st") (simp_all add: parse6_def pton6_finish_def fresh_token_def wrote_def)
next
  case (3 w v ws)
  have fr: "fresh_token st (length (word_bytes w) + 2 * length (v # ws))"
    using "3.prems"(1) by (simp add: add.commute)
  have f2: "fresh_token st 2" using fr by (simp add: fresh_token_def)
  have "parse6 (groups (w # v # ws)) cur st =
      parse6 (groups (v # ws)) (groups (v # ws)) (wrote st (word_bytes w))"
    by (intro parse6_cong) (use pton6_group [OF f2, of w "groups (v # ws)" cur] "3.prems"(2) in simp)
  also have "\<dots> = pton6_finish (wrote (wrote st (word_bytes w)) (concat (map word_bytes (v # ws))))"
    using "3.IH" [OF wrote_fresh [OF fr]] "3.prems"(2) by simp
  finally show ?case
    using wrote_wrote [of st "word_bytes w" "concat (map word_bytes (v # ws))"] fr by simp
qed

lemma parse6_dotted:
  assumes "fresh_token st 4" "length bs = 4"
  shows "parse6 (dotted bs) (dotted bs) st = pton6_finish (wrote st bs)"
proof -
  define rest where "rest = radix 10 (unat (bs ! 1)) @ ''.'' @ radix 10 (unat (bs ! 2)) @ ''.'' @
     radix 10 (unat (bs ! 3))"
  have d: "dotted bs = radix 10 (unat (bs ! 0)) @ ''.'' @ rest" by (simp add: dotted_def rest_def)
  obtain v where "pton6_loop (dotted bs) (dotted bs) st = pton6_loop (''.'' @ rest) (dotted bs)
      (st\<lparr>p6_val := v, p6_seen := length (radix 10 (unat (bs ! 0)))\<rparr>)"
    using pton6_xdigits [of "radix 10 (unat (bs ! 0))" st "''.'' @ rest" "dotted bs"]
      octet_length [of "bs ! 0"] assms(1) radix_xdigits [of 10] d
    by (auto simp: fresh_token_def)
  then have "pton6_loop (dotted bs) (dotted bs) st = Some (Inr (wrote st bs\<lparr>p6_val := v\<rparr>))"
    using assms put_bytes_splice [of "p6_tp st" bs "p6_tmp st"] pton4_dotted [OF assms(2)]
    by (simp add: fresh_token_def wrote_def)
  then show ?thesis by (cases "p6_colonp st") (simp_all add: parse6_def pton6_finish_def wrote_def)
qed

lemma parse6_colon:
  "p6_seen st = 0 \<Longrightarrow> p6_colonp st = None \<Longrightarrow>
   parse6 ('':'' @ rest) cur st = parse6 rest rest (st\<lparr>p6_colonp := Some (p6_tp st)\<rparr>)"
  by (simp add: parse6_def)

section \<open>Moving the bytes after the gap\<close>

lemma shift_step_move:
  assumes "length A = c" "length P = n - i" "c + (n - i) + 1 + length Z = 16 - i"
  shows "shift_step c n i (A @ P @ b # Z @ 0 # D) = Some (A @ P @ 0 # Z @ b # D)"
proof -
  have i: "c + (n - i) = length (A @ P)" "16 - i = length (A @ P @ b # Z)" using assms by simp_all
  have "fetch (A @ P @ b # Z @ 0 # D) (length (A @ P)) = Some b"
    using nth_append_length [of "A @ P" b "Z @ 0 # D"] by (simp add: fetch_def)
  moreover have "store (A @ P @ b # Z @ 0 # D) (length (A @ P @ b # Z)) b = Some (A @ P @ b # Z @ b # D)"
    using list_update_length [of "A @ P @ b # Z" 0 D b] by (simp add: store_def)
  moreover have "store (A @ P @ b # Z @ b # D) (length (A @ P)) 0 = Some (A @ P @ 0 # Z @ b # D)"
    using list_update_length [of "A @ P" b "Z @ b # D" 0] by (simp add: store_def)
  ultimately show ?thesis unfolding shift_step_def i by simp
qed

lemma shift_loop:
  assumes "length A = c" "length B = n" "c + n + Suc z = 16" "k \<le> n"
  shows "foldM (shift_step c n) [1..<k + 1] (A @ B @ replicate (Suc z) 0) =
    Some (A @ take (n - k) B @ replicate (Suc z) 0 @ drop (n - k) B)"
  using assms(4)
proof (induction k)
  case 0
  then show ?case using assms(2) by simp
next
  case (Suc k)
  let ?m = "n - Suc k"
  have m: "n - k = Suc ?m" "?m < length B" using Suc.prems assms(2) by auto
  have "A @ take (n - k) B @ replicate (Suc z) 0 @ drop (n - k) B =
      A @ take ?m B @ B ! ?m # replicate z 0 @ 0 # drop (n - k) B"
    using m by (simp add: take_Suc_conv_app_nth replicate_append_same [symmetric] del: replicate_append_same)
  moreover have "shift_step c n (Suc k) (A @ take ?m B @ B ! ?m # replicate z 0 @ 0 # drop (n - k) B) =
      Some (A @ take ?m B @ 0 # replicate z 0 @ B ! ?m # drop (n - k) B)"
    using assms(1, 2, 3) Suc.prems by (intro shift_step_move) auto
  moreover have "B ! ?m # drop (n - k) B = drop ?m B" using m by (simp add: Cons_nth_drop_Suc)
  moreover have "foldM (shift_step c n) [1..<Suc k + 1] (A @ B @ replicate (Suc z) 0) =
      shift_step c n (Suc k) (A @ take (n - k) B @ replicate (Suc z) 0 @ drop (n - k) B)"
    using Suc.IH Suc.prems by (auto simp: foldM_append)
  ultimately show ?case by (simp only:) simp
qed

lemma finish_gap:
  assumes "p6_tmp st = A @ B @ replicate z 0" "length A + length B + z = 16" "0 < z"
    and "p6_tp st = length A + length B" "p6_colonp st = Some (length A)" "p6_seen st = 0"
  shows "pton6_finish st = Some (Inr (A @ replicate z 0 @ B))"
proof -
  obtain z' where z: "z = Suc z'" using assms(3) by (cases z) auto
  have "foldM (shift_step (length A) (length B)) [1..<length B + 1] (p6_tmp st) =
      Some (A @ replicate z 0 @ B)"
    using shift_loop [of A "length A" B "length B" z' "length B"] assms(1, 2) z by simp
  then show ?thesis using assms by (simp add: pton6_finish_def Let_def)
qed

section \<open>Printing and parsing IPv6\<close>

abbreviation bytes :: "u32 list \<Rightarrow> u8 list" where
  "bytes ws \<equiv> concat (map word_bytes ws)"

definition pton6_start :: pton6_st where
  "pton6_start = \<lparr>p6_tmp = replicate 16 0, p6_tp = 0, p6_colonp = None, p6_seen = 0, p6_val = 0\<rparr>"

lemma start_fresh: "n \<le> 16 \<Longrightarrow> fresh_token pton6_start n"
  by (simp add: fresh_token_def pton6_start_def)

lemma pton6_no_colon: "xdigit c \<noteq> None \<Longrightarrow> inet_pton6 (c # cs) = parse6 (c # cs) (c # cs) pton6_start"
  by (auto simp: inet_pton6_def parse6_def pton6_start_def Let_def)

lemma pton6_two_colons: "inet_pton6 (CHR '':'' # CHR '':'' # s) = parse6 (CHR '':'' # s) (CHR '':'' # s) pton6_start"
  by (simp add: inet_pton6_def parse6_def pton6_start_def)

lemma bytes_zero: "\<forall>w \<in> set ws. w = 0 \<Longrightarrow> bytes ws = replicate (2 * length ws) 0"
  by (induction ws) (auto simp: word_bytes_def)

lemma bytes_gap:
  assumes "\<forall>k. b \<le> k \<and> k < b + l \<longrightarrow> ws ! k = 0" "b + l \<le> length ws"
  shows "bytes ws = bytes (take b ws) @ replicate (2 * l) 0 @ bytes (drop (b + l) ws)"
proof -
  have "\<forall>w \<in> set (take l (drop b ws)). w = 0" using assms by (auto simp: in_set_conv_nth)
  from bytes_zero [OF this] have "bytes (take l (drop b ws)) = replicate (2 * l) 0" using assms(2) by simp
  moreover have "ws = take b ws @ take l (drop b ws) @ drop (b + l) ws"
    by (metis append_take_drop_id drop_drop add.commute)
  ultimately show ?thesis by (metis concat_append map_append)
qed

lemma finish_after_gap:
  assumes "length A + length B + z = 16" "0 < z"
  shows "pton6_finish (wrote (wrote pton6_start A\<lparr>p6_colonp := Some (length A)\<rparr>) B) =
    Some (Inr (A @ replicate z 0 @ B))"
proof (rule finish_gap)
  show "p6_tmp (wrote (wrote pton6_start A\<lparr>p6_colonp := Some (length A)\<rparr>) B) = A @ B @ replicate z 0"
    using assms by (simp add: wrote_def pton6_start_def splice_def)
qed (use assms in \<open>simp_all add: wrote_def pton6_start_def\<close>)

lemma parse6_after_heads:
  assumes "2 * length H \<le> 16" "\<forall>w \<in> set H. unat w < 65536"
  shows "parse6 (heads H @ '':'' @ s) (heads H @ '':'' @ s) pton6_start =
    parse6 s s (wrote pton6_start (bytes H)\<lparr>p6_colonp := Some (length (bytes H))\<rparr>)"
proof -
  have "parse6 (heads H @ '':'' @ s) (heads H @ '':'' @ s) pton6_start =
      parse6 ('':'' @ s) ('':'' @ s) (wrote pton6_start (bytes H))"
    using assms start_fresh [of "2 * length H"]
    by (intro parse6_cong pton6_heads) (auto simp: heads_def)
  also have "\<dots> = parse6 s s (wrote pton6_start (bytes H)\<lparr>p6_colonp := Some (length (bytes H))\<rparr>)"
    by (subst parse6_colon) (simp_all add: wrote_def pton6_start_def)
  finally show ?thesis .
qed

lemma ws16: "\<forall>w \<in> set ws'. unat w < 65536" if "set ws' \<subseteq> set (ipv6_words src)"
  using that ipv6_words_16 by blast

lemma fresh_after_gap:
  "length A + n \<le> 16 \<Longrightarrow> fresh_token (wrote pton6_start A\<lparr>p6_colonp := c\<rparr>) n"
  by (simp add: fresh_token_def wrote_def pton6_start_def splice_def)

lemma parse6_gap:
  assumes z: "\<forall>k. b \<le> k \<and> k < b + l \<longrightarrow> ipv6_words src ! k = 0" and l: "2 \<le> l" "b + l \<le> 8"
    and src: "length src = 16"
  defines "s \<equiv> heads (take b (ipv6_words src)) @ '':'' @ groups (drop (b + l) (ipv6_words src))"
  shows "parse6 s s pton6_start = Some (Inr src)"
proof -
  let ?ws = "ipv6_words src"
  let ?H = "take b ?ws"
  let ?T = "drop (b + l) ?ws"
  have sub: "set ?H \<subseteq> set ?ws" "set ?T \<subseteq> set ?ws" by (auto dest: in_set_takeD in_set_dropD)
  have "parse6 s s pton6_start = pton6_finish
      (wrote (wrote pton6_start (bytes ?H)\<lparr>p6_colonp := Some (length (bytes ?H))\<rparr>) (bytes ?T))"
    unfolding s_def using l ws16 [OF sub(1)] ws16 [OF sub(2)]
    by (subst parse6_after_heads, simp, simp, intro parse6_groups fresh_after_gap) auto
  also have "\<dots> = Some (Inr (bytes ?H @ replicate (2 * l) 0 @ bytes ?T))"
    using l by (intro finish_after_gap) auto
  finally show ?thesis using bytes_gap [OF z] l ipv6_words_bytes [OF src] by simp
qed

lemma parse6_ipv4:
  assumes z: "\<forall>k. k < l \<longrightarrow> ipv6_words src ! k = 0" and l: "2 \<le> l" "l \<le> 6"
    and src: "length src = 16"
  defines "s \<equiv> '':'' @ heads (drop l (take 6 (ipv6_words src))) @ dotted (drop 12 src)"
  shows "parse6 s s pton6_start = Some (Inr src)"
proof -
  let ?ws = "ipv6_words src"
  let ?G = "drop l (take 6 ?ws)"
  let ?st = "wrote pton6_start (bytes [])\<lparr>p6_colonp := Some (length (bytes []))\<rparr>"
  have sub: "set ?G \<subseteq> set ?ws" by (auto dest: in_set_takeD in_set_dropD)
  have d: "dotted (drop 12 src) \<noteq> []" by (simp add: dotted_def)
  have fr: "fresh_token ?st (length (bytes ?G) + 4)" using l by (intro fresh_after_gap) simp
  have "parse6 s s pton6_start = parse6 (heads ?G @ dotted (drop 12 src)) (heads ?G @ dotted (drop 12 src)) ?st"
    unfolding s_def using parse6_after_heads [of "[]"] by (simp add: heads_def)
  also have "\<dots> = parse6 (dotted (drop 12 src)) (dotted (drop 12 src)) (wrote ?st (bytes ?G))"
    using fr ws16 [OF sub] d by (intro parse6_cong pton6_heads) (auto simp: heads_def fresh_token_def)
  also have "\<dots> = pton6_finish (wrote (wrote ?st (bytes ?G)) (drop 12 src))"
    using src by (intro parse6_dotted wrote_fresh [OF fr]) simp
  also have "\<dots> = pton6_finish (wrote ?st (bytes ?G @ drop 12 src))"
    using fr src by (subst wrote_wrote) simp_all
  also have "\<dots> = Some (Inr (bytes [] @ replicate (2 * l) 0 @ bytes ?G @ drop 12 src))"
    using l src by (intro finish_after_gap) auto
  finally have "parse6 s s pton6_start = Some (Inr (replicate (2 * l) 0 @ bytes ?G @ drop 12 src))"
    by simp
  moreover have "bytes ?G @ drop 12 src = bytes (drop l ?ws)"
  proof -
    have "drop 12 (bytes (take 6 ?ws) @ bytes (drop 6 ?ws)) = bytes (drop 6 ?ws)" by simp
    then have "bytes (drop 6 ?ws) = drop 12 src"
      by (metis ipv6_words_bytes [OF src] append_take_drop_id concat_append map_append)
    moreover have "drop l (take 6 ?ws @ drop 6 ?ws) = ?G @ drop 6 ?ws"
      using l by (simp del: append_take_drop_id)
    ultimately show ?thesis by simp
  qed
  ultimately show ?thesis using bytes_gap [of 0 l ?ws] z l ipv6_words_bytes [OF src] by simp
qed

definition address_char :: "char \<Rightarrow> bool" where
  "address_char c \<longleftrightarrow> xdigit c \<noteq> None \<or> c = CHR '':'' \<or> c = CHR ''.''"

lemma address_chars:
  "c \<in> set (groups ws) \<Longrightarrow> address_char c"
  "c \<in> set (heads ws) \<Longrightarrow> address_char c"
  "c \<in> set (dotted bs) \<Longrightarrow> address_char c"
proof -
  have r: "address_char c" if "c \<in> set (radix 10 n) \<union> set (radix 16 n)" for n c
    using that radix_xdigits [of 10 c n] radix_xdigits [of 16 c n] by (auto simp: address_char_def)
  have p: "address_char CHR '':''" "address_char CHR ''.''" by (simp_all add: address_char_def)
  have h: "c \<in> set (hex w) \<Longrightarrow> address_char c" for w c using r [of c "unat w"] by simp
  have d: "c \<in> set (radix 10 n) \<Longrightarrow> address_char c" for n c using r [of c n] by simp
  show "c \<in> set (groups ws) \<Longrightarrow> address_char c"
    by (induction ws rule: groups.induct) (auto simp: h p)
  show "c \<in> set (heads ws) \<Longrightarrow> address_char c"
    by (auto simp: heads_def h p split: if_splits)
  show "c \<in> set (dotted bs) \<Longrightarrow> address_char c"
    using d by (auto simp: dotted_def p)
qed

lemma address_char_special: "\<not> address_char NUL" "\<not> address_char CHR ''%''"
proof -
  have "strchr ''0123456789abcdef'' c = None \<and> strchr ''0123456789ABCDEF'' c = None"
    if "c \<in> {NUL, CHR ''%''}" for c
    unfolding strchr_None using that by auto
  then show "\<not> address_char NUL" "\<not> address_char CHR ''%''"
    by (simp_all add: address_char_def xdigit_def)
qed

lemma group_lengths:
  "\<forall>w \<in> set ws. unat w < 65536 \<Longrightarrow> length (groups ws) \<le> 5 * length ws"
  "\<forall>w \<in> set ws. unat w < 65536 \<Longrightarrow> length (heads ws) \<le> 5 * length ws"
proof -
  show "\<forall>w \<in> set ws. unat w < 65536 \<Longrightarrow> length (groups ws) \<le> 5 * length ws"
  proof (induction ws rule: groups.induct)
    case (2 w)
    then show ?case using hex_length [of w] by simp
  next
    case (3 w v ws)
    then show ?case using hex_length [of w] by simp
  qed simp
  show "\<forall>w \<in> set ws. unat w < 65536 \<Longrightarrow> length (heads ws) \<le> 5 * length ws"
  proof (induction ws)
    case (Cons w ws)
    then show ?case using hex_length [of w] by (simp add: heads_def)
  qed (simp add: heads_def)
qed

lemma hd_xdigit: "\<exists>c cs. hex w @ s = c # cs \<and> xdigit c \<noteq> None"
  using radix_xdigits [of 16 "hd (hex w)" "unat w"] by (cases "hex w") auto

text \<open>What is proved of the text: it fits its buffer, has only the characters of an address, and parses.\<close>

definition text_ok :: "u8 list \<Rightarrow> string \<Rightarrow> bool" where
  "text_ok src tx \<longleftrightarrow> length tx < UV_INET6_ADDRSTRLEN \<and> (\<forall>c \<in> set tx. address_char c) \<and>
     inet_pton6 tx = Some (Inr src)"

lemma text_plain:
  assumes src: "length src = 16"
  shows "text_ok src (groups (ipv6_words src))"
proof -
  let ?ws = "ipv6_words src"
  have all: "\<forall>w \<in> set ?ws. unat w < 65536" using ipv6_words_16 by blast
  obtain w v vs where ws: "?ws = w # v # vs"
    using ipv6_words_length [of src] by (auto simp: numeral_eq_Suc length_Suc_conv simp del: ipv6_words_length)
  then obtain c cs where c: "groups ?ws = c # cs" "xdigit c \<noteq> None"
    using hd_xdigit [of w "'':'' @ groups (v # vs)"] by auto
  have "parse6 (groups ?ws) (groups ?ws) pton6_start = pton6_finish (wrote pton6_start src)"
    using parse6_groups [OF _ all] start_fresh ipv6_words_bytes [OF src] by simp
  also have "\<dots> = Some (Inr src)"
    using src by (simp add: pton6_finish_def wrote_def pton6_start_def splice_def)
  finally have "inet_pton6 (groups ?ws) = Some (Inr src)" using pton6_no_colon [OF c(2), of cs] c(1) by simp
  moreover have "length (groups ?ws) \<le> 40" using group_lengths(1) [OF all] by simp
  ultimately show ?thesis by (auto simp: text_ok_def UV_INET6_ADDRSTRLEN_def address_chars)
qed

lemma text_gap:
  assumes z: "\<forall>k. b \<le> k \<and> k < b + l \<longrightarrow> ipv6_words src ! k = 0" and l: "2 \<le> l" "b + l \<le> 8"
    and src: "length src = 16"
  shows "text_ok src ((if b = 0 then '':'' else heads (take b (ipv6_words src))) @ '':'' @
    groups (drop (b + l) (ipv6_words src)))"
proof -
  let ?ws = "ipv6_words src"
  let ?H = "take b ?ws"
  let ?T = "drop (b + l) ?ws"
  have sub: "set ?H \<subseteq> set ?ws" "set ?T \<subseteq> set ?ws" by (auto dest: in_set_takeD in_set_dropD)
  have p: "parse6 (heads ?H @ '':'' @ groups ?T) (heads ?H @ '':'' @ groups ?T) pton6_start = Some (Inr src)"
    by (rule parse6_gap [OF z l src])
  have len: "length (heads ?H) \<le> 5 * b" "length (groups ?T) \<le> 5 * (8 - (b + l))"
    using group_lengths(2) [OF ws16 [OF sub(1)]] group_lengths(1) [OF ws16 [OF sub(2)]] l by auto
  show ?thesis
  proof (cases "b = 0")
    case True
    then have "inet_pton6 (''::'' @ groups ?T) = Some (Inr src)"
      using p by (simp add: pton6_two_colons heads_def)
    then show ?thesis using True len l
      by (auto simp: text_ok_def UV_INET6_ADDRSTRLEN_def address_chars) (simp add: address_char_def)
  next
    case False
    moreover have "?ws \<noteq> []" by (simp add: ipv6_words_eq)
    ultimately have "?H \<noteq> []" by simp
    then obtain w ws' where H: "?H = w # ws'" by (cases ?H) auto
    then obtain c cs where c: "heads ?H @ '':'' @ groups ?T = c # cs" "xdigit c \<noteq> None"
      using hd_xdigit [of w "'':'' @ heads ws' @ '':'' @ groups ?T"] by (auto simp: heads_def)
    then have "inet_pton6 (heads ?H @ '':'' @ groups ?T) = Some (Inr src)"
      using p pton6_no_colon [OF c(2), of cs] by simp
    then show ?thesis using False len l
      by (auto simp: text_ok_def UV_INET6_ADDRSTRLEN_def address_chars) (simp add: address_char_def)
  qed
qed

lemma text_ipv4:
  assumes z: "\<forall>k. k < l \<longrightarrow> ipv6_words src ! k = 0" and l: "l = 5 \<or> l = 6" and src: "length src = 16"
  shows "text_ok src (''::'' @ heads (drop l (take 6 (ipv6_words src))) @ dotted (drop 12 src))"
proof -
  let ?G = "drop l (take 6 (ipv6_words src))"
  have "inet_pton6 (''::'' @ heads ?G @ dotted (drop 12 src)) = Some (Inr src)"
    using parse6_ipv4 [OF z _ _ src] l by (auto simp: pton6_two_colons)
  moreover have "length (heads ?G) \<le> 5 * length ?G"
    by (intro group_lengths ws16) (auto dest: in_set_takeD in_set_dropD)
  moreover have "length ?G \<le> 1" using l by auto
  ultimately show ?thesis using dotted_length [of "drop 12 src"]
    by (auto simp: text_ok_def UV_INET6_ADDRSTRLEN_def address_chars) (simp_all add: address_char_def)
qed

lemma ntop6_text_ok:
  assumes "length src = 16"
  shows "\<exists>tx. ntop6_text src = Inr tx \<and> text_ok src tx"
proof (cases rule: best_run_cases [of "ipv6_words src"])
  case none
  then show ?thesis using ntop6_text_plain text_plain assms by blast
next
  case (run b l)
  show ?thesis
  proof (cases "b = 0 \<and> (l = 6 \<or> l = 5 \<and> ipv6_words src ! 5 = 0xffff)")
    case True
    then have "best_run (ipv6_words src) = (0, l)" using run by simp
    then show ?thesis
      using ntop6_text_ipv4 [of src l] text_ipv4 [of l src] run True assms by auto
  next
    case False
    show ?thesis using ntop6_text_gap [OF run(1, 2, 3) False] text_gap [OF run(4, 2, 3) assms] by blast
  qed
qed

section \<open>Properties\<close>

text \<open>
  \<open>uv__strscpy\<close> copies a string that fits with its terminator and returns its length;
  a longer one is cut, terminated, and reported as \<open>UV_E2BIG\<close>; a buffer of size 0 is left
  alone and reported as success. It never writes outside the first \<open>n\<close> characters.
\<close>

theorem strscpy_ok:
  assumes "NUL \<notin> set s" and "n \<le> length d" and "length s \<le> SSIZE_MAX"
  shows "uv_strscpy d s n = Some
    (if length s < n then (int (length s), s @ NUL # drop (Suc (length s)) d)
     else if n = 0 then (0, d)
     else (UV_E2BIG, take (n - 1) s @ NUL # drop n d))"
  using strscpy_loop_fits [OF assms(1), of 0 n d] strscpy_loop_cut [OF assms(1), of 0 n d] assms
  by (auto simp: uv_strscpy_def strscpy_loop.simps [of d s 0 0])

theorem strscpy_ok_witness:
  "uv_strscpy ''......'' ''abc'' 3 = Some (UV_E2BIG, ''ab'' @ NUL # ''...'') \<and>
   uv_strscpy ''......'' ''abc'' 6 = Some (3, ''abc'' @ NUL # ''..'')"
  using strscpy_ok [of "''abc''" 3 "''......''"] strscpy_ok [of "''abc''" 6 "''......''"]
  by (simp add: SSIZE_MAX_def)

text \<open>
  C30: \<open>uv_inet_pton\<close> for IPv4 returns for every string, without writing outside its four
  bytes, and accepts exactly the texts that \<open>inet_ntop4\<close> prints: four decimal numbers up to 255
  without leading zeros, separated by single dots. What it returns are these numbers.
\<close>

theorem inet_pton4_accepts_canonical:
  "\<exists>r. uv_inet_pton AF_INET (Some s) = Some r \<and>
       (\<forall>bs. r = Inr bs \<longleftrightarrow> length bs = 4 \<and> s = dotted bs)"
  using pton4_correct by (simp add: uv_inet_pton_def)

text \<open>
  C10: \<open>uv_inet_ntop\<close> prints every IPv6 address into a buffer of at least 46 characters, with a
  terminator, and \<open>uv_inet_pton\<close> reads that text back to the same address: with groups of hex
  digits, a gap for the longest run of zero words at any position, or an encapsulated IPv4
  address at the end.
\<close>

theorem inet6_round_trip:
  assumes "length src = 16" and "46 \<le> sz" and "sz \<le> length dst"
  shows "\<exists>tx rest. uv_inet_ntop AF_INET6 src dst sz = Some (0, tx @ NUL # rest) \<and>
    NUL \<notin> set tx \<and> uv_inet_pton AF_INET6 (Some tx) = Some (Inr src)"
proof -
  obtain tx where t: "ntop6_text src = Inr tx" "text_ok src tx"
    using ntop6_text_ok [OF assms(1)] by blast
  have c: "NUL \<notin> set tx" "CHR ''%'' \<notin> set tx" "length tx < 46"
    using t(2) address_char_special by (auto simp: text_ok_def UV_INET6_ADDRSTRLEN_def)
  have "uv_strscpy dst tx sz = Some (int (length tx), tx @ NUL # drop (Suc (length tx)) dst)"
    using strscpy_loop_fits [OF c(1), of 0 sz dst] c(3) assms by (simp add: uv_strscpy_def SSIZE_MAX_def)
  then have "uv_inet_ntop AF_INET6 src dst sz = Some (0, tx @ NUL # drop (Suc (length tx)) dst)"
    using t(1) c(3) by (simp add: inet_ntop6_def UV_INET6_ADDRSTRLEN_def UV_E2BIG_def)
  moreover have "uv_inet_pton AF_INET6 (Some tx) = Some (Inr src)"
    using t(2) iffD2 [OF strchr_None c(2)] by (simp add: uv_inet_pton_def text_ok_def)
  ultimately show ?thesis using c(1) by blast
qed

theorem inet6_round_trip_witness:
  "\<exists>tx rest. uv_inet_ntop AF_INET6 [0x20, 1, 0xd, 0xb8, 0, 0, 0, 0, 0, 0, 0, 0, 0, 0, 0, 1]
     (replicate 46 NUL) 46 = Some (0, tx @ NUL # rest) \<and> NUL \<notin> set tx \<and>
   uv_inet_pton AF_INET6 (Some tx) = Some (Inr [0x20, 1, 0xd, 0xb8, 0, 0, 0, 0, 0, 0, 0, 0, 0, 0, 0, 1])"
  by (rule inet6_round_trip) simp_all

end
