(* ===== verification/Uv_Threadpool.thy ===== *)
theory Uv_Threadpool
  imports Machine_Base Uv_Errno "HOL-Library.Multiset"
begin

text \<open>
  The thread pool of libuv (\<open>threadpool.c\<close>) as a step relation over all interleavings of its
  worker threads with the loop thread.

  A critical section of the global mutex is one step. The queues are lists; a work request is
  a number. The field \<open>w_linked\<close> of a request is \<open>!QUEUE_EMPTY(&w->wq)\<close>, which the code uses
  as a flag. Condition variables follow POSIX: a signal wakes one waiting thread if there is
  one, and a waiting thread may also wake up without a signal. \<open>p_submitted\<close>, \<open>p_ran\<close> and
  \<open>p_done\<close> record the requests that were submitted, executed, and finished with their status.
\<close>

section \<open>Data\<close>

datatype uv_work_kind = UV_WORK_CPU | UV_WORK_FAST_IO | UV_WORK_SLOW_IO

datatype wq_item = Work_item nat | Run_slow_work_message | Exit_message

text \<open>\<open>w->work\<close> is null, the function of the request, or \<open>uv__cancelled\<close>.\<close>

datatype work_fn = Null_work | Work_cb | Uv_cancelled

record work_req =
  w_work :: work_fn
  w_linked :: bool

text \<open>
  Where a worker is: before \<open>uv_mutex_lock(&mutex)\<close> at the end of an iteration (with
  \<open>is_slow_work\<close>), in \<open>uv_cond_wait\<close>, woken up there, executing a request (with
  \<open>is_slow_work\<close>), or returned.
\<close>

datatype worker = At_lock bool | Waiting | Signalled | Running nat bool | Exited

record pool =
  p_nthreads :: nat
  p_threads :: "worker list"
  p_idle :: nat
  p_slow_running :: nat
  p_wq :: "wq_item list"
  p_slow :: "nat list"
  p_works :: "nat \<Rightarrow> work_req"
  p_loop_wq :: "nat list"
  p_local_wq :: "nat list"
  p_active_reqs :: nat
  p_submitted :: "nat list"
  p_ran :: "nat list"
  p_done :: "(nat \<times> int) list"

definition set_work :: "nat \<Rightarrow> work_fn \<Rightarrow> bool \<Rightarrow> pool \<Rightarrow> pool" where
  "set_work w f l p = p\<lparr>p_works := (p_works p)(w := \<lparr>w_work = f, w_linked = l\<rparr>)\<rparr>"

definition unlink :: "nat \<Rightarrow> pool \<Rightarrow> pool" where
  "unlink w p = p\<lparr>p_works := (p_works p)(w := (p_works p w)\<lparr>w_linked := False\<rparr>)\<rparr>"

definition link_work :: "nat \<Rightarrow> pool \<Rightarrow> pool" where
  "link_work w p = p\<lparr>p_works := (p_works p)(w := (p_works p w)\<lparr>w_linked := True\<rparr>)\<rparr>"

section \<open>Starting the pool\<close>

definition MAX_THREADPOOL_SIZE :: nat where "MAX_THREADPOOL_SIZE = 1024"

text \<open>\<open>val\<close> is the number in \<open>UV_THREADPOOL_SIZE\<close> if it is set, \<open>ok\<close> whether the array of
  threads can be allocated.\<close>

definition init_nthreads :: "int option \<Rightarrow> bool \<Rightarrow> nat" where
  "init_nthreads val ok =
     (let n1 = (case val of None \<Rightarrow> 4 | Some v \<Rightarrow> unat (of_int v :: u32));
          n2 = (if n1 = 0 then 1 else n1);
          n3 = (if n2 > MAX_THREADPOOL_SIZE then MAX_THREADPOOL_SIZE else n2)
      in if n3 > 4 then if ok then n3 else 4 else n3)"

definition init_threads :: "int option \<Rightarrow> bool \<Rightarrow> pool" where
  "init_threads val ok =
     (let n = init_nthreads val ok in
      \<lparr>p_nthreads = n, p_threads = replicate n (At_lock False), p_idle = 0, p_slow_running = 0,
       p_wq = [], p_slow = [], p_works = (\<lambda>_. \<lparr>w_work = Null_work, w_linked = False\<rparr>),
       p_loop_wq = [], p_local_wq = [], p_active_reqs = 0,
       p_submitted = [], p_ran = [], p_done = []\<rparr>)"

definition slow_work_thread_threshold :: "pool \<Rightarrow> nat" where
  "slow_work_thread_threshold p = (p_nthreads p + 1) div 2"

section \<open>Critical sections\<close>

text \<open>
  Each returns whether it calls \<open>uv_cond_signal\<close>; the step relation then wakes a thread.
\<close>

definition post_item :: "wq_item \<Rightarrow> pool \<Rightarrow> bool \<times> pool" where
  "post_item q p = (p_idle p > 0, p\<lparr>p_wq := p_wq p @ [q]\<rparr>)"

definition post :: "nat \<Rightarrow> uv_work_kind \<Rightarrow> pool \<Rightarrow> bool \<times> pool" where
  "post w kind p =
     (if kind = UV_WORK_SLOW_IO
      then let p1 = (link_work w p)\<lparr>p_slow := p_slow p @ [w]\<rparr>
           in if Run_slow_work_message \<in> set (p_wq p1) then (False, p1)
              else post_item Run_slow_work_message p1
      else post_item (Work_item w) (link_work w p))"

text \<open>\<open>uv__work_submit\<close>, with the registration of the request that precedes each call.\<close>

definition uv_work_submit :: "nat \<Rightarrow> uv_work_kind \<Rightarrow> pool \<Rightarrow> bool \<times> pool" where
  "uv_work_submit w kind p =
     post w kind (set_work w Work_cb (w_linked (p_works p w))
                   (p\<lparr>p_active_reqs := p_active_reqs p + 1, p_submitted := p_submitted p @ [w]\<rparr>))"

definition uv_queue_work :: "nat \<Rightarrow> nat option \<Rightarrow> pool \<Rightarrow> int \<times> bool \<times> pool" where
  "uv_queue_work w work_cb p =
     (if work_cb = None then (UV_EINVAL, False, p) else (0, uv_work_submit w UV_WORK_CPU p))"

datatype outcome = Wait | Stop | Run nat bool

definition must_wait :: "pool \<Rightarrow> bool" where
  "must_wait p \<longleftrightarrow> p_wq p = [] \<or>
     hd (p_wq p) = Run_slow_work_message \<and> tl (p_wq p) = [] \<and>
     p_slow_running p \<ge> slow_work_thread_threshold p"

text \<open>The iterations of \<open>worker\<close> from the test of the queue until it waits or lets go of the mutex.\<close>

partial_function (option) worker_scan :: "pool \<Rightarrow> (outcome \<times> bool \<times> pool) option" where
  "worker_scan p =
     (if must_wait p then Some (Wait, False, p\<lparr>p_idle := p_idle p + 1\<rparr>)
      else case hd (p_wq p) of
        Exit_message \<Rightarrow> Some (Stop, True, p)
      | Work_item w \<Rightarrow> Some (Run w False, False, unlink w (p\<lparr>p_wq := tl (p_wq p)\<rparr>))
      | Run_slow_work_message \<Rightarrow>
          let p1 = p\<lparr>p_wq := tl (p_wq p)\<rparr> in
          if p_slow_running p1 \<ge> slow_work_thread_threshold p1
          then worker_scan (p1\<lparr>p_wq := p_wq p1 @ [Run_slow_work_message]\<rparr>)
          else if p_slow p1 = [] then worker_scan p1
          else let w = hd (p_slow p1);
                   p2 = unlink w (p1\<lparr>p_slow_running := p_slow_running p1 + 1, p_slow := tl (p_slow p1)\<rparr>)
               in if p_slow p2 \<noteq> []
                  then Some (Run w True, p_idle p2 > 0, p2\<lparr>p_wq := p_wq p2 @ [Run_slow_work_message]\<rparr>)
                  else Some (Run w True, False, p2))"

primrec after_scan :: "outcome \<Rightarrow> worker" where
  "after_scan Wait = Waiting"
| "after_scan Stop = Exited"
| "after_scan (Run w slow) = Running w slow"

text \<open>The end of an iteration under the mutex of the loop.\<close>

definition finish_work :: "nat \<Rightarrow> pool \<Rightarrow> pool" where
  "finish_work w p = set_work w Null_work True (p\<lparr>p_loop_wq := p_loop_wq p @ [w], p_ran := p_ran p @ [w]\<rparr>)"

definition end_slow :: "bool \<Rightarrow> pool \<Rightarrow> pool" where
  "end_slow slow p = (if slow then p\<lparr>p_slow_running := p_slow_running p - 1\<rparr> else p)"

text \<open>\<open>QUEUE_REMOVE(&w->wq)\<close>, whichever queue the request is in.\<close>

definition queue_remove_work :: "nat \<Rightarrow> pool \<Rightarrow> pool" where
  "queue_remove_work w p =
     p\<lparr>p_wq := removeAll (Work_item w) (p_wq p), p_slow := removeAll w (p_slow p),
       p_loop_wq := removeAll w (p_loop_wq p), p_local_wq := removeAll w (p_local_wq p)\<rparr>"

definition uv_work_cancel :: "nat \<Rightarrow> pool \<Rightarrow> int \<times> pool" where
  "uv_work_cancel w p =
     (if w_linked (p_works p w) \<and> w_work (p_works p w) \<noteq> Null_work
      then let p1 = set_work w Uv_cancelled True (queue_remove_work w p)
           in (0, p1\<lparr>p_loop_wq := p_loop_wq p1 @ [w]\<rparr>)
      else (UV_EBUSY, p))"

datatype req_type = UV_FS | UV_GETADDRINFO | UV_GETNAMEINFO | UV_RANDOM | UV_WORK | UV_OTHER_REQ

definition uv_cancel :: "req_type \<Rightarrow> nat \<Rightarrow> pool \<Rightarrow> int \<times> pool" where
  "uv_cancel ty w p =
     (case ty of UV_OTHER_REQ \<Rightarrow> (UV_EINVAL, p) | _ \<Rightarrow> uv_work_cancel w p)"

text \<open>
  \<open>uv__work_done\<close>: the queue of the loop moves to a local one, then each request in it is
  reported to its \<open>done\<close> function, \<open>uv__queue_done\<close> for \<open>uv_queue_work\<close>. \<open>QUEUE_REMOVE\<close> leaves
  the links of the request as they are.
\<close>

definition work_done_move :: "pool \<Rightarrow> pool" where
  "work_done_move p = p\<lparr>p_local_wq := p_loop_wq p, p_loop_wq := []\<rparr>"

definition uv_queue_done :: "nat \<Rightarrow> int \<Rightarrow> pool \<Rightarrow> pool option" where
  "uv_queue_done w err p =
     do { assert_c (p_active_reqs p > 0);
          Some (p\<lparr>p_active_reqs := p_active_reqs p - 1, p_done := p_done p @ [(w, err)]\<rparr>) }"

definition work_done_one :: "pool \<Rightarrow> pool option" where
  "work_done_one p =
     (case p_local_wq p of
        [] \<Rightarrow> Some p
      | w # rest \<Rightarrow>
          uv_queue_done w (if w_work (p_works p w) = Uv_cancelled then UV_ECANCELED else 0)
            (p\<lparr>p_local_wq := rest\<rparr>))"

section \<open>Steps\<close>

text \<open>\<open>signals b p p'\<close>: if \<open>b\<close>, one waiting thread is woken, when there is one.\<close>

definition wake :: "nat \<Rightarrow> pool \<Rightarrow> pool" where
  "wake i p = p\<lparr>p_threads := (p_threads p)[i := Signalled]\<rparr>"

inductive signals :: "bool \<Rightarrow> pool \<Rightarrow> pool \<Rightarrow> bool" where
  no_signal: "signals False p p"
| signal_one: "i < length (p_threads p) \<Longrightarrow> p_threads p ! i = Waiting \<Longrightarrow> signals True p (wake i p)"
| signal_none: "Waiting \<notin> set (p_threads p) \<Longrightarrow> signals True p p"

definition set_thread :: "nat \<Rightarrow> worker \<Rightarrow> pool \<Rightarrow> pool" where
  "set_thread i t p = p\<lparr>p_threads := (p_threads p)[i := t]\<rparr>"

text \<open>
  A thread that has the mutex stands at \<open>At_lock False\<close> while it scans. The loop thread submits a request that is not in use and cancels one whose \<open>done\<close> function
  has not been called; the destructor posts the exit message.
\<close>

inductive pool_step :: "pool \<Rightarrow> pool \<Rightarrow> bool" where
  submit: "w \<notin> set (p_submitted p) \<Longrightarrow> uv_work_submit w kind p = (b, p1) \<Longrightarrow> signals b p1 p2 \<Longrightarrow>
    pool_step p p2"
| cancel: "w \<in> set (p_submitted p) \<Longrightarrow> w \<notin> fst ` set (p_done p) \<Longrightarrow> uv_work_cancel w p = (r, p1) \<Longrightarrow>
    pool_step p p1"
| cleanup: "post_item Exit_message p = (b, p1) \<Longrightarrow> Exit_message \<notin> set (p_wq p) \<Longrightarrow> signals b p1 p2 \<Longrightarrow>
    pool_step p p2"
| lock: "i < length (p_threads p) \<Longrightarrow> p_threads p ! i = At_lock slow \<Longrightarrow>
    worker_scan (set_thread i (At_lock False) (end_slow slow p)) = Some (r, b, p1) \<Longrightarrow>
    signals b (set_thread i (after_scan r) p1) p2 \<Longrightarrow>
    pool_step p p2"
| resume: "i < length (p_threads p) \<Longrightarrow> p_threads p ! i = Signalled \<Longrightarrow>
    worker_scan (set_thread i (At_lock False) (p\<lparr>p_idle := p_idle p - 1\<rparr>)) = Some (r, b, p1) \<Longrightarrow>
    signals b (set_thread i (after_scan r) p1) p2 \<Longrightarrow> pool_step p p2"
| spurious: "i < length (p_threads p) \<Longrightarrow> p_threads p ! i = Waiting \<Longrightarrow> pool_step p (wake i p)"
| finish: "i < length (p_threads p) \<Longrightarrow> p_threads p ! i = Running w slow \<Longrightarrow>
    pool_step p (set_thread i (At_lock slow) (finish_work w p))"
| done_move: "p_local_wq p = [] \<Longrightarrow> pool_step p (work_done_move p)"
| done_one: "p_local_wq p \<noteq> [] \<Longrightarrow> work_done_one p = Some p1 \<Longrightarrow> pool_step p p1"

inductive pool_reachable :: "pool \<Rightarrow> bool" where
  init: "pool_reachable (init_threads val ok)"
| step: "pool_reachable p \<Longrightarrow> pool_step p p' \<Longrightarrow> pool_reachable p'"

section \<open>The scan of a worker\<close>

declare worker_scan.simps [code]

abbreviation msg :: wq_item where "msg \<equiv> Run_slow_work_message"

text \<open>
  The scan first drops or moves back a message at the head of the queue, then waits, stops, or
  takes a request.
\<close>

inductive tidied :: "pool \<Rightarrow> wq_item list \<Rightarrow> bool" for p :: pool where
  keep: "tidied p (p_wq p)"
| rotate: "p_wq p = msg # q \<Longrightarrow> tidied p (q @ [msg])"
| discard: "p_wq p = msg # q \<Longrightarrow> p_slow p = [] \<Longrightarrow> tidied p q"

lemma scan_plain:
  "must_wait p \<Longrightarrow> worker_scan p = Some (Wait, False, p\<lparr>p_idle := p_idle p + 1\<rparr>)"
  "p_wq p = Exit_message # q \<Longrightarrow> worker_scan p = Some (Stop, True, p)"
  "p_wq p = Work_item w # q \<Longrightarrow> worker_scan p = Some (Run w False, False, unlink w (p\<lparr>p_wq := q\<rparr>))"
  by (subst worker_scan.simps; simp add: must_wait_def)+

lemma worker_scan_cases:
  assumes "count_list (p_wq p) msg \<le> 1"
  obtains
    (wait) q where "tidied p q" "must_wait (p\<lparr>p_wq := q\<rparr>)"
      "worker_scan p = Some (Wait, False, p\<lparr>p_wq := q, p_idle := p_idle p + 1\<rparr>)"
  | (stop) q where "tidied p (Exit_message # q)" "worker_scan p = Some (Stop, True, p\<lparr>p_wq := Exit_message # q\<rparr>)"
  | (work) w q where "tidied p (Work_item w # q)"
      "worker_scan p = Some (Run w False, False, unlink w (p\<lparr>p_wq := q\<rparr>))"
  | (slow) w ws q where "p_wq p = msg # q" "p_slow p = w # ws" "p_slow_running p < slow_work_thread_threshold p"
      "worker_scan p = Some (Run w True, ws \<noteq> [] \<and> p_idle p > 0,
         unlink w (p\<lparr>p_wq := q @ (if ws = [] then [] else [msg]), p_slow := ws,
                     p_slow_running := p_slow_running p + 1\<rparr>))"
proof -
  have plain: thesis if t: "tidied p q" and e: "worker_scan p = worker_scan (p\<lparr>p_wq := q\<rparr>)"
    and "q = [] \<or> hd q \<noteq> msg" for q
  proof (cases q)
    case Nil
    have m: "must_wait (p\<lparr>p_wq := q\<rparr>)" using Nil by (simp add: must_wait_def)
    then show thesis using wait [OF t m] e scan_plain(1) [OF m] by simp
  next
    case (Cons x xs)
    then show thesis
      using t e that(3) stop [of xs] work [of _ xs] scan_plain(2, 3) [of "p\<lparr>p_wq := q\<rparr>"]
      by (cases x) auto
  qed
  have hd: "q = [] \<or> hd q \<noteq> msg" if "p_wq p = msg # q" for q
    using assms that by (cases q) (auto simp: count_list_0_iff)
  show thesis
  proof (cases "must_wait p")
    case True
    then show thesis using wait [of "p_wq p"] scan_plain(1) [OF True] tidied.keep [of p] by simp
  next
    case nw: False
    show thesis
    proof (cases "p_wq p")
      case Nil
      then show thesis using nw by (simp add: must_wait_def)
    next
      case (Cons x q)
      show thesis
      proof (cases "x = msg")
        case False
        have "worker_scan p = worker_scan (p\<lparr>p_wq := p_wq p\<rparr>)" by simp
        from plain [OF tidied.keep this] show thesis using Cons False by simp
      next
        case True
        note q = Cons [unfolded True]
        consider "p_slow_running p \<ge> slow_work_thread_threshold p"
          | "p_slow_running p < slow_work_thread_threshold p" "p_slow p = []"
          | w ws where "p_slow_running p < slow_work_thread_threshold p" "p_slow p = w # ws"
          by (meson list.exhaust not_le)
        then show thesis
        proof cases
          case 1
          then have "q \<noteq> []" using nw q by (auto simp: must_wait_def)
          moreover have "worker_scan p = worker_scan (p\<lparr>p_wq := q @ [msg]\<rparr>)"
            using nw q 1 by (subst worker_scan.simps) (simp add: slow_work_thread_threshold_def)
          ultimately show thesis using plain [OF tidied.rotate [OF q]] hd [OF q] by (cases q) auto
        next
          case 2
          have "worker_scan p = worker_scan (p\<lparr>p_wq := q\<rparr>)"
            using nw q 2 by (subst worker_scan.simps) (simp add: slow_work_thread_threshold_def)
          then show thesis using plain [OF tidied.discard [OF q 2(2)]] hd [OF q] by simp
        next
          case (3 w ws)
          have "worker_scan p = Some (Run w True, ws \<noteq> [] \<and> p_idle p > 0,
              unlink w (p\<lparr>p_wq := q @ (if ws = [] then [] else [msg]), p_slow := ws,
                          p_slow_running := p_slow_running p + 1\<rparr>))"
            using nw q 3 by (subst worker_scan.simps) (simp add: slow_work_thread_threshold_def unlink_def Let_def)
          then show thesis using slow [OF q 3(2, 1)] by simp
        qed
      qed
    qed
  qed
qed

section \<open>Counting threads\<close>

definition tsum :: "(worker \<Rightarrow> nat) \<Rightarrow> pool \<Rightarrow> nat" where
  "tsum f p = sum_list (map f (p_threads p))"

primrec idle_of :: "worker \<Rightarrow> nat" where
  "idle_of (At_lock s) = 0"
| "idle_of Waiting = 1"
| "idle_of Signalled = 1"
| "idle_of (Running w s) = 0"
| "idle_of Exited = 0"

primrec slow_of :: "worker \<Rightarrow> nat" where
  "slow_of (At_lock s) = (if s then 1 else 0)"
| "slow_of Waiting = 0"
| "slow_of Signalled = 0"
| "slow_of (Running w s) = (if s then 1 else 0)"
| "slow_of Exited = 0"

definition runs :: "nat \<Rightarrow> worker \<Rightarrow> nat" where
  "runs w t = (case t of Running v s \<Rightarrow> if v = w then 1 else 0 | _ \<Rightarrow> 0)"

lemma runs_simps [simp]:
  "runs w (At_lock s) = 0" "runs w Waiting = 0" "runs w Signalled = 0" "runs w Exited = 0"
  "runs w (Running v s) = (if v = w then 1 else 0)"
  by (simp_all add: runs_def)

lemma sum_list_update_nat:
  fixes f :: "'a \<Rightarrow> nat"
  shows "i < length xs \<Longrightarrow> sum_list (map f (xs[i := x])) + f (xs ! i) = sum_list (map f xs) + f x"
  by (induction xs arbitrary: i) (auto split: nat.splits simp: less_Suc_eq_0_disj)

lemma tsum_set_thread:
  "i < length (p_threads p) \<Longrightarrow> tsum f (set_thread i t p) + f (p_threads p ! i) = tsum f p + f t"
  using sum_list_update_nat by (simp add: tsum_def set_thread_def)

lemma tsum_wake:
  "i < length (p_threads p) \<Longrightarrow> p_threads p ! i = Waiting \<Longrightarrow> f Waiting = f Signalled \<Longrightarrow>
   tsum f (wake i p) = tsum f p"
  using tsum_set_thread [of i p f Signalled] by (simp add: set_thread_def wake_def)

lemma tsum_ge: "t \<in> set (p_threads p) \<Longrightarrow> f t \<le> tsum f p"
  by (auto simp: tsum_def intro: member_le_sum_list)

lemma tsum_zero: "tsum f p = 0 \<longleftrightarrow> (\<forall>t \<in> set (p_threads p). f t = 0)"
  by (simp add: tsum_def)

section \<open>Invariants\<close>

definition threads_inv :: "pool \<Rightarrow> bool" where
  "threads_inv p \<longleftrightarrow> length (p_threads p) = p_nthreads p \<and> 0 < p_nthreads p \<and>
     p_idle p = tsum idle_of p \<and> p_slow_running p = tsum slow_of p \<and>
     p_slow_running p \<le> slow_work_thread_threshold p"

definition queue_inv :: "pool \<Rightarrow> bool" where
  "queue_inv p \<longleftrightarrow> count_list (p_wq p) msg \<le> 1 \<and> (p_slow p \<noteq> [] \<longrightarrow> msg \<in> set (p_wq p))"

text \<open>Where a request is: the numbers of its occurrences.\<close>

definition queued :: "pool \<Rightarrow> nat \<Rightarrow> nat" where
  "queued p w = count_list (p_wq p) (Work_item w) + count_list (p_slow p) w"

definition running :: "pool \<Rightarrow> nat \<Rightarrow> nat" where
  "running p w = tsum (runs w) p"

definition ended :: "pool \<Rightarrow> nat \<Rightarrow> nat" where
  "ended p w = count_list (p_loop_wq p) w + count_list (p_local_wq p) w"

definition reported :: "pool \<Rightarrow> nat \<Rightarrow> nat" where
  "reported p w = count_list (map fst (p_done p)) w"

definition req_inv :: "pool \<Rightarrow> nat \<Rightarrow> bool" where
  "req_inv p w \<longleftrightarrow>
     queued p w + running p w + ended p w + reported p w = (if w \<in> set (p_submitted p) then 1 else 0) \<and>
     count_list (p_ran p) w \<le> 1 \<and>
     (queued p w > 0 \<longrightarrow> p_works p w = \<lparr>w_work = Work_cb, w_linked = True\<rparr> \<and> w \<notin> set (p_ran p)) \<and>
     (running p w > 0 \<longrightarrow> p_works p w = \<lparr>w_work = Work_cb, w_linked = False\<rparr> \<and> w \<notin> set (p_ran p)) \<and>
     (ended p w > 0 \<longrightarrow> w_linked (p_works p w) \<and>
        (if w \<in> set (p_ran p) then w_work (p_works p w) = Null_work else w_work (p_works p w) = Uv_cancelled)) \<and>
     (\<forall>e. (w, e) \<in> set (p_done p) \<longrightarrow> e = (if w \<in> set (p_ran p) then 0 else UV_ECANCELED)) \<and>
     (w \<in> set (p_ran p) \<longrightarrow> w \<in> set (p_submitted p))"

definition regs_inv :: "pool \<Rightarrow> bool" where
  "regs_inv p \<longleftrightarrow> p_active_reqs p + length (p_done p) = length (p_submitted p)"

text \<open>When no worker is awake, there is nothing that one of them would do.\<close>

definition alert :: "pool \<Rightarrow> bool" where
  "alert p \<longleftrightarrow> (Waiting \<in> set (p_threads p) \<and> set (p_threads p) \<subseteq> {Waiting, Exited} \<longrightarrow> must_wait p)"

definition pool_inv :: "pool \<Rightarrow> bool" where
  "pool_inv p \<longleftrightarrow> threads_inv p \<and> queue_inv p \<and> (\<forall>w. req_inv p w) \<and> regs_inv p"

lemmas place_defs = queued_def running_def ended_def reported_def

section \<open>Signals\<close>

lemma wake_sel [simp]:
  "p_nthreads (wake i p) = p_nthreads p" "p_idle (wake i p) = p_idle p"
  "p_slow_running (wake i p) = p_slow_running p" "p_wq (wake i p) = p_wq p" "p_slow (wake i p) = p_slow p"
  "p_works (wake i p) = p_works p" "p_loop_wq (wake i p) = p_loop_wq p"
  "p_local_wq (wake i p) = p_local_wq p" "p_active_reqs (wake i p) = p_active_reqs p"
  "p_submitted (wake i p) = p_submitted p" "p_ran (wake i p) = p_ran p" "p_done (wake i p) = p_done p"
  "p_threads (wake i p) = (p_threads p)[i := Signalled]"
  by (simp_all add: wake_def)

lemma wake_inv:
  assumes "i < length (p_threads p)" "p_threads p ! i = Waiting"
  shows "pool_inv (wake i p) = pool_inv p"
  using tsum_wake [OF assms]
  by (simp add: pool_inv_def threads_inv_def queue_inv_def req_inv_def regs_inv_def place_defs
      slow_work_thread_threshold_def)

lemma wake_alert: "i < length (p_threads p) \<Longrightarrow> alert (wake i p)"
  using set_update_memI [of i "p_threads p" Signalled] by (auto simp: alert_def)

lemma signals_inv: "signals b p p' \<Longrightarrow> pool_inv p' = pool_inv p"
  by (induction rule: signals.induct) (simp_all add: wake_inv)

lemma signals_alert: "signals b p p' \<Longrightarrow> alert p \<or> b \<Longrightarrow> alert p'"
  by (induction rule: signals.induct) (auto intro: wake_alert, auto simp: alert_def)

section \<open>The loop thread\<close>

text \<open>A step that touches one request keeps what is known of the others.\<close>

lemma req_inv_frame:
  assumes "req_inv p v"
    and "queued p' v = queued p v" "running p' v = running p v" "ended p' v = ended p v"
    and "reported p' v = reported p v" "p_works p' v = p_works p v"
    and "v \<in> set (p_submitted p') \<longleftrightarrow> v \<in> set (p_submitted p)"
    and "count_list (p_ran p') v = count_list (p_ran p) v"
    and "\<And>e. (v, e) \<in> set (p_done p') \<longleftrightarrow> (v, e) \<in> set (p_done p)"
  shows "req_inv p' v"
proof -
  have "v \<in> set (p_ran p') \<longleftrightarrow> v \<in> set (p_ran p)" using assms(8) by (metis count_list_0_iff)
  then show ?thesis using assms by (simp add: req_inv_def)
qed

lemma reported_0: "reported p w = 0 \<longleftrightarrow> w \<notin> fst ` set (p_done p)"
  by (simp add: reported_def count_list_0_iff)

lemma not_reported: "reported p w = 0 \<Longrightarrow> (w, e) \<notin> set (p_done p)"
  by (auto simp: reported_0 intro: rev_image_eqI)

text \<open>A request in each of its four places.\<close>

lemma req_inv_queued:
  "queued p w = 1 \<Longrightarrow> running p w = 0 \<Longrightarrow> ended p w = 0 \<Longrightarrow> reported p w = 0 \<Longrightarrow>
   w \<in> set (p_submitted p) \<Longrightarrow> w \<notin> set (p_ran p) \<Longrightarrow>
   p_works p w = \<lparr>w_work = Work_cb, w_linked = True\<rparr> \<Longrightarrow> req_inv p w"
  using not_reported [of p w] by (simp add: req_inv_def)

lemma req_inv_running:
  "queued p w = 0 \<Longrightarrow> running p w = 1 \<Longrightarrow> ended p w = 0 \<Longrightarrow> reported p w = 0 \<Longrightarrow>
   w \<in> set (p_submitted p) \<Longrightarrow> w \<notin> set (p_ran p) \<Longrightarrow>
   p_works p w = \<lparr>w_work = Work_cb, w_linked = False\<rparr> \<Longrightarrow> req_inv p w"
  using not_reported [of p w] by (simp add: req_inv_def)

lemma req_inv_ended:
  "queued p w = 0 \<Longrightarrow> running p w = 0 \<Longrightarrow> ended p w = 1 \<Longrightarrow> reported p w = 0 \<Longrightarrow>
   w \<in> set (p_submitted p) \<Longrightarrow> count_list (p_ran p) w \<le> 1 \<Longrightarrow> w_linked (p_works p w) \<Longrightarrow>
   w_work (p_works p w) = (if w \<in> set (p_ran p) then Null_work else Uv_cancelled) \<Longrightarrow> req_inv p w"
  using not_reported [of p w] by (simp add: req_inv_def)

lemma req_inv_reported:
  "queued p w = 0 \<Longrightarrow> running p w = 0 \<Longrightarrow> ended p w = 0 \<Longrightarrow> reported p w = 1 \<Longrightarrow>
   w \<in> set (p_submitted p) \<Longrightarrow> count_list (p_ran p) w \<le> 1 \<Longrightarrow>
   (\<And>e. (w, e) \<in> set (p_done p) \<Longrightarrow> e = (if w \<in> set (p_ran p) then 0 else UV_ECANCELED)) \<Longrightarrow> req_inv p w"
  by (simp add: req_inv_def)

lemma req_inv_fresh:
  "req_inv p w \<Longrightarrow> w \<notin> set (p_submitted p) \<Longrightarrow>
   queued p w = 0 \<and> running p w = 0 \<and> ended p w = 0 \<and> reported p w = 0 \<and> w \<notin> set (p_ran p)"
  by (auto simp: req_inv_def)

lemma submit_inv:
  assumes inv: "pool_inv p" and al: "alert p" and fresh: "w \<notin> set (p_submitted p)"
    and sub: "uv_work_submit w kind p = (b, p')"
  shows "pool_inv p' \<and> (alert p' \<or> b)"
proof -
  define p1 where "p1 = set_work w Work_cb True
      (p\<lparr>p_active_reqs := p_active_reqs p + 1, p_submitted := p_submitted p @ [w]\<rparr>)"
  have z: "queued p w = 0" "running p w = 0" "ended p w = 0" "reported p w = 0" "w \<notin> set (p_ran p)"
    using inv fresh req_inv_fresh by (auto simp: pool_inv_def)
  have sel: "p_threads p1 = p_threads p" "p_wq p1 = p_wq p" "p_slow p1 = p_slow p"
    "p_idle p1 = p_idle p" "p_slow_running p1 = p_slow_running p" "p_nthreads p1 = p_nthreads p"
    "p_loop_wq p1 = p_loop_wq p" "p_local_wq p1 = p_local_wq p" "p_done p1 = p_done p" "p_ran p1 = p_ran p"
    "p_submitted p1 = p_submitted p @ [w]" "p_active_reqs p1 = p_active_reqs p + 1"
    "p_works p1 = (p_works p)(w := \<lparr>w_work = Work_cb, w_linked = True\<rparr>)"
    by (simp_all add: p1_def set_work_def)
  have th: "threads_inv p1" "alert p1"
    using inv al by (simp_all add: pool_inv_def threads_inv_def alert_def must_wait_def tsum_def
        slow_work_thread_threshold_def sel)
  define sl where "sl = (if kind = UV_WORK_SLOW_IO then [w] else [])"
  define q where "q = (if kind \<noteq> UV_WORK_SLOW_IO then [Work_item w]
                       else if msg \<in> set (p_wq p) then [] else [msg])"
  have p': "p' = p1\<lparr>p_wq := p_wq p @ q, p_slow := p_slow p @ sl\<rparr>"
    using sub unfolding p1_def q_def sl_def
    by (intro pool.equality)
      (auto simp: uv_work_submit_def post_def post_item_def link_work_def set_work_def Let_def split: if_splits)
  have b: "q = [] \<or> b = (p_idle p > 0)"
    using sub unfolding q_def
    by (auto simp: uv_work_submit_def post_def post_item_def link_work_def set_work_def Let_def split: if_splits)
  have q: "q = [] \<and> sl = [w] \<and> msg \<in> set (p_wq p) \<or> q = [msg] \<and> sl = [w] \<and> msg \<notin> set (p_wq p) \<or>
      q = [Work_item w] \<and> sl = []" by (simp add: q_def sl_def)
  have "req_inv p' v" for v
  proof (cases "v = w")
    case True
    have "queued p' w = 1" using z(1) q by (auto simp: p' sel place_defs)
    moreover have "running p' w = 0" "ended p' w = 0" "reported p' w = 0" "w \<notin> set (p_ran p')"
      using z by (simp_all add: p' sel place_defs tsum_def)
    ultimately show ?thesis unfolding True by (intro req_inv_queued) (simp_all add: p' sel)
  next
    case False
    have "req_inv p v" using inv by (simp add: pool_inv_def)
    from this False show ?thesis using q by (elim req_inv_frame) (auto simp: place_defs tsum_def p' sel)
  qed
  moreover have "queue_inv p'"
    using inv q by (auto simp: pool_inv_def queue_inv_def p' sel count_list_0_iff)
  moreover have "alert p' \<or> b"
  proof (cases "q = []")
    case True
    then show ?thesis using al by (simp add: alert_def must_wait_def slow_work_thread_threshold_def p' sel)
  next
    case False
    then have "b = (p_idle p > 0)" using b by simp
    moreover have "p_idle p > 0" if "Waiting \<in> set (p_threads p)"
      using inv tsum_ge [OF that, of idle_of] by (simp add: pool_inv_def threads_inv_def)
    ultimately show ?thesis by (auto simp: alert_def p' sel)
  qed
  ultimately show ?thesis
    using inv th(1) by (simp add: pool_inv_def threads_inv_def regs_inv_def tsum_def p' sel
        slow_work_thread_threshold_def)
qed

lemma count_removeAll: "count_list (removeAll x xs) y = (if y = x then 0 else count_list xs y)"
  by (induction xs) auto

lemma removeAll_must_wait:
  "must_wait p \<Longrightarrow> must_wait (p\<lparr>p_wq := removeAll (Work_item w) (p_wq p)\<rparr>)"
  by (cases "p_wq p") (auto simp: must_wait_def slow_work_thread_threshold_def)

lemma cancel_inv:
  assumes inv: "pool_inv p" and al: "alert p" and w: "w \<in> set (p_submitted p)" "w \<notin> fst ` set (p_done p)"
    and c: "uv_work_cancel w p = (r, p')"
  shows "pool_inv p' \<and> alert p'"
proof (cases "w_linked (p_works p w) \<and> w_work (p_works p w) \<noteq> Null_work")
  case False
  then show ?thesis using c inv al by (auto simp: uv_work_cancel_def split: if_splits)
next
  case True
  have ri: "req_inv p w" using inv by (simp add: pool_inv_def)
  have rep: "reported p w = 0" using w(2) by (simp add: reported_0)
  have run: "running p w = 0" using ri True by (auto simp: req_inv_def)
  have ran: "w \<notin> set (p_ran p)"
  proof -
    have "queued p w > 0 \<or> ended p w > 0" using ri w(1) rep run by (auto simp: req_inv_def split: if_splits)
    then show ?thesis using ri True by (auto simp: req_inv_def)
  qed
  have p': "p' = p\<lparr>p_wq := removeAll (Work_item w) (p_wq p), p_slow := removeAll w (p_slow p),
      p_loop_wq := removeAll w (p_loop_wq p) @ [w], p_local_wq := removeAll w (p_local_wq p),
      p_works := (p_works p)(w := \<lparr>w_work = Uv_cancelled, w_linked = True\<rparr>)\<rparr>"
    using c True unfolding uv_work_cancel_def set_work_def queue_remove_work_def
    by (intro pool.equality) (auto simp: Let_def)
  have "req_inv p' v" for v
  proof (cases "v = w")
    case True
    have "queued p' w = 0" "running p' w = 0" "ended p' w = 1" "reported p' w = 0"
      using run rep by (simp_all add: p' place_defs tsum_def count_removeAll)
    then show ?thesis unfolding True using ran w(1) by (intro req_inv_ended) (simp_all add: p')
  next
    case False
    have "req_inv p v" using inv by (simp add: pool_inv_def)
    from this False show ?thesis
      by (elim req_inv_frame) (simp_all add: place_defs tsum_def p' count_removeAll)
  qed
  moreover have "queue_inv p'"
    using inv by (auto simp: pool_inv_def queue_inv_def p' count_removeAll)
  moreover have "alert p'"
    using al removeAll_must_wait [of p w]
    by (auto simp: alert_def p' must_wait_def slow_work_thread_threshold_def)
  ultimately show ?thesis
    using inv by (simp add: pool_inv_def threads_inv_def regs_inv_def tsum_def p' slow_work_thread_threshold_def)
qed

lemma move_inv: "pool_inv p \<Longrightarrow> alert p \<Longrightarrow> p_local_wq p = [] \<Longrightarrow> pool_inv (work_done_move p) \<and> alert (work_done_move p)"
  by (simp add: pool_inv_def threads_inv_def queue_inv_def req_inv_def regs_inv_def alert_def must_wait_def
      place_defs tsum_def slow_work_thread_threshold_def work_done_move_def)

lemma size_le_submitted:
  assumes "\<forall>w. req_inv p w"
  shows "length (p_done p) + length (p_local_wq p) \<le> length (p_submitted p)"
proof -
  have "mset (map fst (p_done p)) + mset (p_local_wq p) \<subseteq># mset (p_submitted p)"
  proof (rule mset_subset_eqI)
    fix w
    have "reported p w + count_list (p_local_wq p) w \<le> (if w \<in> set (p_submitted p) then 1 else 0)"
      using spec [OF assms, of w] by (simp add: req_inv_def ended_def split: if_splits)
    also have "\<dots> \<le> count_list (p_submitted p) w"
      using count_list_0_iff [of "p_submitted p" w] by (auto simp: Suc_le_eq)
    finally show "count (mset (map fst (p_done p)) + mset (p_local_wq p)) w \<le> count (mset (p_submitted p)) w"
      by (simp add: reported_def count_mset flip: mset_map)
  qed
  from size_mset_mono [OF this] show ?thesis by simp
qed

lemma done_inv:
  assumes inv: "pool_inv p" and al: "alert p" and l: "p_local_wq p = w # rest"
  shows "\<exists>p'. work_done_one p = Some p' \<and> pool_inv p' \<and> alert p'"
proof -
  define e where "e = (if w_work (p_works p w) = Uv_cancelled then UV_ECANCELED else 0)"
  have "length (p_done p) < length (p_submitted p)"
    using size_le_submitted [of p] inv l by (simp add: pool_inv_def)
  then have a: "0 < p_active_reqs p" using inv by (simp add: pool_inv_def regs_inv_def)
  define p' where "p' = p\<lparr>p_local_wq := rest, p_active_reqs := p_active_reqs p - 1, p_done := p_done p @ [(w, e)]\<rparr>"
  have d: "work_done_one p = Some p'" using a l by (simp add: work_done_one_def uv_queue_done_def p'_def e_def)
  have "req_inv p' v" for v
  proof (cases "v = w")
    case True
    have ri: "req_inv p w" using inv by (simp add: pool_inv_def)
    have "ended p w > 0" using l by (simp add: ended_def)
    then have st: "queued p w = 0" "running p w = 0" "ended p w = 1" "reported p w = 0" "w \<in> set (p_submitted p)"
      using ri by (auto simp: req_inv_def split: if_splits)
    have "queued p' w = 0" "running p' w = 0" "ended p' w = 0" "reported p' w = 1"
      using st l by (simp_all add: p'_def place_defs tsum_def)
    moreover have "e = (if w \<in> set (p_ran p) then 0 else UV_ECANCELED)" "count_list (p_ran p) w \<le> 1"
      using ri st by (auto simp: req_inv_def e_def)
    ultimately show ?thesis unfolding True
      using not_reported [OF st(4)] st(5) by (intro req_inv_reported) (auto simp: p'_def)
  next
    case False
    have "req_inv p v" using inv by (simp add: pool_inv_def)
    from this False show ?thesis using l by (elim req_inv_frame) (auto simp: place_defs tsum_def p'_def)
  qed
  then have "\<forall>v. req_inv p' v" by blast
  moreover have "regs_inv p'" using inv a by (auto simp: pool_inv_def regs_inv_def p'_def)
  ultimately show ?thesis
    using inv al d by (simp add: pool_inv_def threads_inv_def queue_inv_def alert_def must_wait_def tsum_def p'_def
        slow_work_thread_threshold_def)
qed

section \<open>The workers\<close>

lemma set_thread_sel [simp]:
  "p_nthreads (set_thread i t p) = p_nthreads p" "p_idle (set_thread i t p) = p_idle p"
  "p_slow_running (set_thread i t p) = p_slow_running p" "p_wq (set_thread i t p) = p_wq p"
  "p_slow (set_thread i t p) = p_slow p" "p_works (set_thread i t p) = p_works p"
  "p_loop_wq (set_thread i t p) = p_loop_wq p" "p_local_wq (set_thread i t p) = p_local_wq p"
  "p_active_reqs (set_thread i t p) = p_active_reqs p" "p_submitted (set_thread i t p) = p_submitted p"
  "p_ran (set_thread i t p) = p_ran p" "p_done (set_thread i t p) = p_done p"
  "p_threads (set_thread i t p) = (p_threads p)[i := t]"
  by (simp_all add: set_thread_def)

lemma tsum_cong: "p_threads p' = p_threads p \<Longrightarrow> tsum f p' = tsum f p"
  by (simp add: tsum_def)

lemma threshold_cong: "p_nthreads p' = p_nthreads p \<Longrightarrow> slow_work_thread_threshold p' = slow_work_thread_threshold p"
  by (simp add: slow_work_thread_threshold_def)

lemma awake_alert: "i < length (p_threads p) \<Longrightarrow> t \<notin> {Waiting, Exited} \<Longrightarrow> alert (set_thread i t p)"
  using set_update_memI [of i "p_threads p" t] by (auto simp: alert_def)

lemma tidied_inv:
  assumes inv: "pool_inv p" and t: "tidied p q"
  shows "pool_inv (p\<lparr>p_wq := q\<rparr>)"
proof -
  have c: "count_list q (Work_item w) = count_list (p_wq p) (Work_item w)" for w
    using t by cases auto
  have "queue_inv (p\<lparr>p_wq := q\<rparr>)"
    using t inv by cases (auto simp: pool_inv_def queue_inv_def count_list_0_iff)
  moreover have "req_inv (p\<lparr>p_wq := q\<rparr>) w" for w
  proof -
    have "req_inv p w" using inv by (simp add: pool_inv_def)
    then show ?thesis by (elim req_inv_frame) (simp_all add: place_defs tsum_def c)
  qed
  ultimately show ?thesis
    using inv by (simp add: pool_inv_def threads_inv_def regs_inv_def tsum_def slow_work_thread_threshold_def)
qed

text \<open>A thread changes and the numbers of idle and of slow threads follow.\<close>

lemma threads_inv_set:
  assumes inv: "threads_inv p" and i: "i < length (p_threads p)" and same: "p_threads p' = p_threads p" "p_nthreads p' = p_nthreads p"
    and idle: "p_idle p' + idle_of (p_threads p ! i) = p_idle p + idle_of t"
    and slow: "p_slow_running p' + slow_of (p_threads p ! i) = p_slow_running p + slow_of t"
    and le: "p_slow_running p' \<le> slow_work_thread_threshold p"
  shows "threads_inv (set_thread i t p')"
proof -
  have "tsum f (set_thread i t p') + f (p_threads p ! i) = tsum f p + f t" for f
    using tsum_set_thread [of i p' f t] i same tsum_cong [OF same(1)] by simp
  from this [of idle_of] this [of slow_of] show ?thesis
    using inv idle slow le same threshold_cong [OF same(2)]
    by (simp add: threads_inv_def threshold_cong [of "set_thread i t p'" p'])
qed

lemma running_set:
  "i < length (p_threads p) \<Longrightarrow> p_threads p' = p_threads p \<Longrightarrow>
   running (set_thread i t p') w + runs w (p_threads p ! i) = running p w + runs w t"
  using tsum_set_thread [of i p' "runs w" t] tsum_cong [of p' p "runs w"] by (simp add: running_def)

lemma enter_inv:
  assumes inv: "pool_inv p" and i: "i < length (p_threads p)"
    and t: "p_threads p ! i = At_lock slow \<and> p' = end_slow slow p \<or>
      p_threads p ! i = Signalled \<and> p' = p\<lparr>p_idle := p_idle p - 1\<rparr>"
  shows "pool_inv (set_thread i (At_lock False) p')"
proof -
  have same: "p_threads p' = p_threads p" "p_nthreads p' = p_nthreads p" "p_wq p' = p_wq p" "p_slow p' = p_slow p"
    "p_works p' = p_works p" "p_loop_wq p' = p_loop_wq p" "p_local_wq p' = p_local_wq p" "p_done p' = p_done p"
    "p_ran p' = p_ran p" "p_submitted p' = p_submitted p" "p_active_reqs p' = p_active_reqs p"
    using t by (auto simp: end_slow_def)
  have ti: "threads_inv p" using inv by (simp add: pool_inv_def)
  have ge: "idle_of (p_threads p ! i) \<le> p_idle p" "slow_of (p_threads p ! i) \<le> p_slow_running p"
    using ti tsum_ge [of "p_threads p ! i" p] i by (auto simp: threads_inv_def)
  have "threads_inv (set_thread i (At_lock False) p')"
    using ti ge t by (intro threads_inv_set [OF ti i same(1, 2)]) (auto simp: end_slow_def threads_inv_def)
  moreover have "req_inv (set_thread i (At_lock False) p') w" for w
  proof -
    have "running (set_thread i (At_lock False) p') w = running p w"
      using running_set [OF i same(1), of "At_lock False" w] t by auto
    moreover have "req_inv p w" using inv by (simp add: pool_inv_def)
    ultimately show ?thesis by (elim req_inv_frame) (simp_all add: queued_def ended_def reported_def same)
  qed
  ultimately show ?thesis using inv by (simp add: pool_inv_def queue_inv_def regs_inv_def same)
qed

text \<open>A request leaves the queues for the thread that has the mutex.\<close>

lemma take_inv:
  assumes inv: "pool_inv p" and i: "i < length (p_threads p)" "p_threads p ! i = At_lock False"
    and q: "\<And>v. queued p v = queued p' v + (if v = w then 1 else 0)" and qi: "queue_inv p'"
    and same: "p_threads p' = p_threads p" "p_nthreads p' = p_nthreads p" "p_loop_wq p' = p_loop_wq p"
      "p_local_wq p' = p_local_wq p" "p_done p' = p_done p" "p_ran p' = p_ran p" "p_submitted p' = p_submitted p"
      "p_active_reqs p' = p_active_reqs p" "p_idle p' = p_idle p"
    and works: "p_works p' = (p_works p)(w := (p_works p w)\<lparr>w_linked := False\<rparr>)"
    and sl: "p_slow_running p' = p_slow_running p + (if slow then 1 else 0)"
      "p_slow_running p' \<le> slow_work_thread_threshold p"
  shows "pool_inv (set_thread i (Running w slow) p')"
proof -
  have ti: "threads_inv p" using inv by (simp add: pool_inv_def)
  have "threads_inv (set_thread i (Running w slow) p')"
    using i sl same by (intro threads_inv_set [OF ti i(1) same(1, 2)]) auto
  moreover have "req_inv (set_thread i (Running w slow) p') v" for v
  proof -
    have r: "running (set_thread i (Running w slow) p') v = running p v + (if v = w then 1 else 0)"
      using running_set [OF i(1) same(1), of "Running w slow" v] i(2) by simp
    have ri: "req_inv p v" using inv by (simp add: pool_inv_def)
    show ?thesis
    proof (cases "v = w")
      case True
      have "queued p w = Suc (queued p' w)" using q by simp
      then have "queued p' w = 0 \<and> running p w = 0 \<and> ended p w = 0 \<and> reported p w = 0 \<and>
          w \<in> set (p_submitted p) \<and> w \<notin> set (p_ran p) \<and> p_works p w = \<lparr>w_work = Work_cb, w_linked = True\<rparr>"
        using ri True by (auto simp: req_inv_def split: if_splits)
      then show ?thesis unfolding True using r True
        by (intro req_inv_running) (simp_all add: queued_def ended_def reported_def same works)
    next
      case False
      then show ?thesis using ri r q [of v]
        by (elim req_inv_frame) (simp_all add: queued_def ended_def reported_def same works)
    qed
  qed
  ultimately show ?thesis using inv qi by (simp add: pool_inv_def queue_inv_def regs_inv_def same)
qed

lemma scan_inv:
  assumes inv: "pool_inv p" and i: "i < length (p_threads p)" "p_threads p ! i = At_lock False"
    and scan: "worker_scan p = Some (r, b, p1)"
  shows "pool_inv (set_thread i (after_scan r) p1) \<and> (alert (set_thread i (after_scan r) p1) \<or> b)"
proof -
  have qi: "queue_inv p" and ti: "threads_inv p" using inv by (simp_all add: pool_inv_def)
  have c: "count_list (p_wq p) msg \<le> 1" using qi by (simp add: queue_inv_def)
  from c show ?thesis
  proof (cases rule: worker_scan_cases)
    case (wait q)
    let ?p = "p\<lparr>p_wq := q\<rparr>"
    have p1: "r = Wait" "p1 = ?p\<lparr>p_idle := p_idle ?p + 1\<rparr>" using scan wait(3) by auto
    have ti': "threads_inv ?p" using tidied_inv [OF inv wait(1)] by (simp add: pool_inv_def)
    have "threads_inv (set_thread i Waiting p1)"
      using i ti' p1 by (intro threads_inv_set [of ?p]) (auto simp: threads_inv_def)
    moreover have "req_inv (set_thread i Waiting p1) w" for w
    proof -
      have "running (set_thread i Waiting p1) w = running ?p w"
        using running_set [of i ?p p1 Waiting w] i p1 by simp
      moreover have "req_inv ?p w" using tidied_inv [OF inv wait(1)] by (simp add: pool_inv_def)
      ultimately show ?thesis by (elim req_inv_frame) (simp_all add: queued_def ended_def reported_def p1)
    qed
    moreover have "alert (set_thread i Waiting p1)"
      using wait(2) by (simp add: alert_def must_wait_def p1 slow_work_thread_threshold_def)
    ultimately show ?thesis
      using tidied_inv [OF inv wait(1)] by (simp add: pool_inv_def queue_inv_def regs_inv_def p1)
  next
    case (stop q)
    let ?p = "p\<lparr>p_wq := Exit_message # q\<rparr>"
    have p1: "r = Stop" "b" "p1 = ?p" using scan stop(2) by auto
    have inv': "pool_inv ?p" by (rule tidied_inv [OF inv stop(1)])
    have "threads_inv (set_thread i Exited ?p)"
      using i inv' by (intro threads_inv_set [of ?p]) (auto simp: pool_inv_def threads_inv_def)
    moreover have "req_inv (set_thread i Exited ?p) w" for w
    proof -
      have "running (set_thread i Exited ?p) w = running ?p w"
        using running_set [of i ?p ?p Exited w] i by simp
      moreover have "req_inv ?p w" using inv' by (simp add: pool_inv_def)
      ultimately show ?thesis by (elim req_inv_frame) (simp_all add: queued_def ended_def reported_def)
    qed
    ultimately show ?thesis using inv' p1 by (simp add: pool_inv_def queue_inv_def regs_inv_def)
  next
    case (work w q)
    let ?p = "p\<lparr>p_wq := Work_item w # q\<rparr>"
    have p1: "r = Run w False" "p1 = unlink w (p\<lparr>p_wq := q\<rparr>)" using scan work(2) by auto
    have inv': "pool_inv ?p" by (rule tidied_inv [OF inv work(1)])
    have "queue_inv p1" using inv' by (auto simp: pool_inv_def queue_inv_def p1 unlink_def)
    then have "pool_inv (set_thread i (Running w False) p1)"
      using i inv' by (intro take_inv [OF inv'])
        (auto simp: p1 unlink_def queued_def pool_inv_def threads_inv_def slow_work_thread_threshold_def)
    moreover have "alert (set_thread i (Running w False) p1)"
      using i p1 by (intro awake_alert) (auto simp: unlink_def)
    ultimately show ?thesis using p1 by simp
  next
    case (slow w ws q)
    have p1: "r = Run w True" "p1 = unlink w (p\<lparr>p_wq := q @ (if ws = [] then [] else [msg]), p_slow := ws,
                     p_slow_running := p_slow_running p + 1\<rparr>)" using scan slow(4) by auto
    have "queue_inv p1" using c slow(1) by (auto simp: queue_inv_def p1 unlink_def count_list_0_iff)
    then have "pool_inv (set_thread i (Running w True) p1)"
      using i slow by (intro take_inv [OF inv]) (auto simp: p1 unlink_def queued_def)
    moreover have "alert (set_thread i (Running w True) p1)"
      using i p1 by (intro awake_alert) (auto simp: unlink_def)
    ultimately show ?thesis using p1 by simp
  qed
qed

lemma finish_inv:
  assumes inv: "pool_inv p" and i: "i < length (p_threads p)" "p_threads p ! i = Running w slow"
  shows "pool_inv (set_thread i (At_lock slow) (finish_work w p))"
proof -
  let ?p = "finish_work w p"
  have same: "p_threads ?p = p_threads p" "p_nthreads ?p = p_nthreads p" "p_wq ?p = p_wq p" "p_slow ?p = p_slow p"
    "p_local_wq ?p = p_local_wq p" "p_done ?p = p_done p" "p_submitted ?p = p_submitted p"
    "p_active_reqs ?p = p_active_reqs p" "p_idle ?p = p_idle p" "p_slow_running ?p = p_slow_running p"
    "p_loop_wq ?p = p_loop_wq p @ [w]" "p_ran ?p = p_ran p @ [w]"
    "p_works ?p = (p_works p)(w := \<lparr>w_work = Null_work, w_linked = True\<rparr>)"
    by (simp_all add: finish_work_def set_work_def)
  have ti: "threads_inv p" using inv by (simp add: pool_inv_def)
  then have "threads_inv (set_thread i (At_lock slow) ?p)"
    using i by (intro threads_inv_set [OF ti i(1) same(1, 2)]) (auto simp: same threads_inv_def)
  moreover have "req_inv (set_thread i (At_lock slow) ?p) v" for v
  proof -
    have r: "running (set_thread i (At_lock slow) ?p) v + (if v = w then 1 else 0) = running p v"
      using running_set [OF i(1) same(1), of "At_lock slow" v] i(2) by (auto split: if_splits)
    have ri: "req_inv p v" using inv by (simp add: pool_inv_def)
    show ?thesis
    proof (cases "v = w")
      case True
      then have "running (set_thread i (At_lock slow) ?p) w = 0 \<and> queued p w = 0 \<and> ended p w = 0 \<and>
          reported p w = 0 \<and> w \<in> set (p_submitted p) \<and> w \<notin> set (p_ran p)"
        using ri r by (auto simp: req_inv_def split: if_splits)
      then show ?thesis unfolding True
        using count_list_0_iff [of "p_ran p" w]
        by (intro req_inv_ended) (simp_all add: queued_def ended_def reported_def same)
    next
      case False
      with ri r show ?thesis
        by (elim req_inv_frame) (simp_all add: queued_def ended_def reported_def same)
    qed
  qed
  ultimately show ?thesis using inv by (simp add: pool_inv_def queue_inv_def regs_inv_def same)
qed

section \<open>Reachable pools\<close>

lemma init_nthreads_bounds: "1 \<le> init_nthreads val ok \<and> init_nthreads val ok \<le> 1024"
  by (auto simp: init_nthreads_def Let_def MAX_THREADPOOL_SIZE_def)

lemma tsum_replicate: "p_threads p = replicate n t \<Longrightarrow> f t = 0 \<Longrightarrow> tsum f p = 0"
  by (simp add: tsum_def)

lemma init_inv: "pool_inv (init_threads val ok) \<and> alert (init_threads val ok)"
proof -
  let ?p = "init_threads val ok"
  let ?n = "init_nthreads val ok"
  have th: "p_threads ?p = replicate ?n (At_lock False)" by (simp add: init_threads_def Let_def)
  have "threads_inv ?p"
    using init_nthreads_bounds [of val ok] tsum_replicate [OF th]
    by (simp add: threads_inv_def) (simp add: init_threads_def Let_def)
  moreover have "req_inv ?p w" for w
    using tsum_replicate [OF th, of "runs w"]
    by (simp add: req_inv_def place_defs) (simp add: init_threads_def Let_def)
  ultimately show ?thesis
    by (simp add: pool_inv_def) (simp add: queue_inv_def regs_inv_def alert_def must_wait_def init_threads_def Let_def)
qed

lemma enter_scan_inv:
  assumes "pool_inv p" "i < length (p_threads p)"
    and "p_threads p ! i = At_lock slow \<and> p' = end_slow slow p \<or>
      p_threads p ! i = Signalled \<and> p' = p\<lparr>p_idle := p_idle p - 1\<rparr>"
    and "worker_scan (set_thread i (At_lock False) p') = Some (r, b, p1)"
  shows "pool_inv (set_thread i (after_scan r) p1) \<and> (alert (set_thread i (after_scan r) p1) \<or> b)"
proof (rule scan_inv [OF enter_inv [OF assms(1, 2, 3)] _ _ assms(4)])
  have "p_threads p' = p_threads p" using assms(3) by (auto simp: end_slow_def)
  then show "i < length (p_threads (set_thread i (At_lock False) p'))"
    "p_threads (set_thread i (At_lock False) p') ! i = At_lock False" using assms(2) by simp_all
qed

lemma cleanup_inv:
  assumes "pool_inv p" "alert p" "post_item Exit_message p = (b, p')"
  shows "pool_inv p' \<and> (alert p' \<or> b)"
proof -
  have p': "p' = p\<lparr>p_wq := p_wq p @ [Exit_message]\<rparr>" "b = (0 < p_idle p)"
    using assms(3) by (auto simp: post_item_def)
  have "req_inv p' w" for w
  proof -
    have "req_inv p w" using assms(1) by (simp add: pool_inv_def)
    then show ?thesis by (elim req_inv_frame) (simp_all add: place_defs tsum_def p')
  qed
  moreover have "alert p' \<or> b"
  proof (cases "Waiting \<in> set (p_threads p)")
    case True
    then show ?thesis using assms(1) tsum_ge [OF True, of idle_of] by (simp add: pool_inv_def threads_inv_def p'(2))
  qed (simp add: alert_def p'(1))
  ultimately show ?thesis
    using assms(1) by (simp add: pool_inv_def threads_inv_def queue_inv_def regs_inv_def tsum_def p'(1)
        slow_work_thread_threshold_def)
qed

lemma pool_step_inv: "pool_step p p' \<Longrightarrow> pool_inv p \<Longrightarrow> alert p \<Longrightarrow> pool_inv p' \<and> alert p'"
proof (induction rule: pool_step.induct)
  case (submit w p kind b p1 p2)
  then show ?case using submit_inv [OF submit(4, 5, 1, 2)] signals_inv signals_alert by blast
next
  case (cancel w p r p1)
  then show ?case using cancel_inv by blast
next
  case (cleanup p b p1 p2)
  then show ?case using cleanup_inv [OF cleanup(4, 5, 1)] signals_inv signals_alert by blast
next
  case (lock i p slow r b p1 p2)
  then show ?case using enter_scan_inv [OF lock(5, 1) _ lock(3)] signals_inv signals_alert by blast
next
  case (resume i p r b p1 p2)
  then show ?case using enter_scan_inv [OF resume(5, 1) _ resume(3)] signals_inv signals_alert by blast
next
  case (spurious i p)
  then show ?case using wake_inv wake_alert by simp
next
  case (finish i p w slow)
  then show ?case using finish_inv awake_alert [of i "finish_work w p" "At_lock slow"]
    by (simp add: finish_work_def set_work_def)
next
  case (done_move p)
  then show ?case using move_inv by simp
next
  case (done_one p p1)
  then obtain w rest where "p_local_wq p = w # rest" by (cases "p_local_wq p") auto
  then show ?case using done_inv [of p w rest] done_one by auto
qed

lemma pool_reachable_inv: "pool_reachable p \<Longrightarrow> pool_inv p \<and> alert p"
  by (induction rule: pool_reachable.induct) (use init_inv pool_step_inv in blast)+

lemma reachable_req: "pool_reachable p \<Longrightarrow> req_inv p w"
  using pool_reachable_inv by (auto simp: pool_inv_def)

section \<open>Properties\<close>

text \<open>
  C6: The thread pool never stalls: in no reachable state are all workers asleep (waiting
  without a signal, or gone) while a request is queued, whatever the order of submissions,
  cancellations, wake-ups and completions.
\<close>

theorem pool_never_stalls:
  assumes "pool_reachable p" and "Waiting \<in> set (p_threads p)" and "set (p_threads p) \<subseteq> {Waiting, Exited}"
  shows "p_wq p = [] \<and> p_slow p = []"
proof -
  have inv: "pool_inv p" and m: "must_wait p"
    using pool_reachable_inv [OF assms(1)] assms(2, 3) by (auto simp: alert_def)
  have "tsum slow_of p = 0" using assms(3) by (auto simp: tsum_zero)
  then have "p_slow_running p < slow_work_thread_threshold p"
    using inv by (simp add: pool_inv_def threads_inv_def slow_work_thread_threshold_def)
  then have "p_wq p = []" using m by (auto simp: must_wait_def)
  then show ?thesis using inv by (auto simp: pool_inv_def queue_inv_def)
qed

definition one_worker :: pool where
  "one_worker = (init_threads (Some 1) True)\<lparr>p_threads := [Waiting], p_idle := 1\<rparr>"

lemma one_worker_reachable: "pool_reachable one_worker"
proof -
  let ?p = "init_threads (Some 1) True"
  have "must_wait (set_thread 0 (At_lock False) (end_slow False ?p))"
    by (simp add: must_wait_def end_slow_def init_threads_def Let_def)
  from scan_plain(1) [OF this] have "pool_step ?p (set_thread 0 Waiting
      ((set_thread 0 (At_lock False) (end_slow False ?p))\<lparr>p_idle := 1\<rparr>))"
    by (intro pool_step.lock [of 0 ?p False Wait False _ _])
      (auto simp: init_threads_def init_nthreads_def MAX_THREADPOOL_SIZE_def Let_def end_slow_def set_thread_def
        intro: signals.no_signal)
  moreover have "set_thread 0 Waiting ((set_thread 0 (At_lock False) (end_slow False ?p))\<lparr>p_idle := 1\<rparr>) = one_worker"
    by (simp add: one_worker_def end_slow_def set_thread_def init_threads_def init_nthreads_def
        MAX_THREADPOOL_SIZE_def Let_def)
  ultimately show ?thesis using pool_reachable.step [OF pool_reachable.init] by metis
qed

theorem pool_never_stalls_witness: "p_wq one_worker = [] \<and> p_slow one_worker = []"
  by (rule pool_never_stalls [OF one_worker_reachable]) (simp_all add: one_worker_def)

text \<open>
  C31: At most half of the threads, rounded up, execute slow I/O requests at any time.
\<close>

theorem pool_slow_limit:
  assumes "pool_reachable p"
  shows "length (filter (\<lambda>t. \<exists>w. t = Running w True) (p_threads p)) \<le> (p_nthreads p + 1) div 2"
proof -
  have "length (filter (\<lambda>t. \<exists>w. t = Running w True) ts) \<le> sum_list (map slow_of ts)" for ts
    by (induction ts) auto
  then show ?thesis
    using pool_reachable_inv [OF assms]
    by (fastforce simp: pool_inv_def threads_inv_def tsum_def slow_work_thread_threshold_def intro: order_trans)
qed

theorem pool_slow_limit_witness:
  "length (filter (\<lambda>t. \<exists>w. t = Running w True) (p_threads one_worker)) \<le> (p_nthreads one_worker + 1) div 2"
  by (rule pool_slow_limit [OF one_worker_reachable])

text \<open>
  C13: No request is lost, duplicated or run twice: in every reachable state a submitted request
  is in exactly one place (queued, executing, ended but not reported, reported), it has been
  executed at most once, and when it is reported its status is 0 if it was executed and
  \<open>UV_ECANCELED\<close> if it was not.
\<close>

theorem pool_requests_conserved:
  assumes "pool_reachable p" and "w \<in> set (p_submitted p)"
  shows "queued p w + running p w + ended p w + reported p w = 1 \<and> count_list (p_ran p) w \<le> 1 \<and>
    (\<forall>e. (w, e) \<in> set (p_done p) \<longrightarrow> e = (if w \<in> set (p_ran p) then 0 else UV_ECANCELED))"
  using reachable_req [OF assms(1), of w] assms(2) by (simp add: req_inv_def)

definition one_request :: pool where
  "one_request = snd (uv_work_submit 7 UV_WORK_SLOW_IO (init_threads (Some 1) True))"

lemma one_request_reachable: "pool_reachable one_request"
proof -
  let ?p = "init_threads (Some 1) True"
  have "fst (uv_work_submit 7 UV_WORK_SLOW_IO ?p) = False"
    by (simp add: uv_work_submit_def post_def post_item_def set_work_def link_work_def init_threads_def Let_def)
  then have "uv_work_submit 7 UV_WORK_SLOW_IO ?p = (False, one_request)"
    by (metis one_request_def prod.collapse)
  moreover have "7 \<notin> set (p_submitted ?p)" by (simp add: init_threads_def Let_def)
  ultimately show ?thesis
    using pool_step.submit signals.no_signal pool_reachable.step [OF pool_reachable.init] by blast
qed

lemma one_request_submitted: "7 \<in> set (p_submitted one_request)" "p_done one_request = []"
  by (simp_all add: one_request_def uv_work_submit_def post_def post_item_def set_work_def link_work_def
      init_threads_def Let_def)

theorem pool_requests_conserved_witness:
  "queued one_request 7 + running one_request 7 + ended one_request 7 + reported one_request 7 = 1 \<and>
   count_list (p_ran one_request) 7 \<le> 1"
  using pool_requests_conserved [OF one_request_reachable one_request_submitted(1)] by blast

text \<open>
  C32: \<open>uv_cancel\<close> of a request that is not reported yet succeeds exactly when no worker has
  taken it; then it is reported as cancelled without being executed, and otherwise nothing
  changes.
\<close>

theorem pool_cancel_iff_not_started:
  assumes "pool_reachable p" and "w \<in> set (p_submitted p)" and "w \<notin> fst ` set (p_done p)"
  shows "fst (uv_cancel UV_WORK w p) = (if running p w = 0 \<and> w \<notin> set (p_ran p) then 0 else UV_EBUSY) \<and>
    (let p' = snd (uv_cancel UV_WORK w p)
     in if running p w = 0 \<and> w \<notin> set (p_ran p)
        then queued p' w = 0 \<and> ended p' w = 1 \<and> w_work (p_works p' w) = Uv_cancelled
        else p' = p)"
proof -
  have ri: "req_inv p w" by (rule reachable_req [OF assms(1)])
  have rep: "reported p w = 0" using assms(3) by (simp add: reported_0)
  have "w_linked (p_works p w) \<and> w_work (p_works p w) \<noteq> Null_work \<longleftrightarrow> running p w = 0 \<and> w \<notin> set (p_ran p)"
    using ri rep assms(2) by (auto simp: req_inv_def split: if_splits)
  then show ?thesis
    by (simp add: uv_cancel_def uv_work_cancel_def set_work_def queue_remove_work_def Let_def
        queued_def ended_def count_removeAll)
qed

theorem pool_cancel_iff_not_started_witness:
  "fst (uv_cancel UV_WORK 7 one_request) = (if running one_request 7 = 0 \<and> 7 \<notin> set (p_ran one_request) then 0 else UV_EBUSY)"
  using pool_cancel_iff_not_started [OF one_request_reachable one_request_submitted(1)] one_request_submitted(2)
  by simp

text \<open>
  \<open>uv__work_done\<close> leaves a reported request linked and marked as cancelled, so a second
  \<open>uv_cancel\<close> of it, say from its own callback, succeeds and queues it again: the next
  \<open>uv__work_done\<close> reports it once more, which fails the assertion on the number of requests.
\<close>

theorem pool_cancel_after_done:
  "(let p0 = snd (snd (uv_queue_work 7 (Some 1) (init_threads None True)));
        p1 = work_done_move (snd (uv_cancel UV_WORK 7 p0))
    in case work_done_one p1 of
         None \<Rightarrow> False
       | Some p2 \<Rightarrow>
           p_done p2 = [(7, UV_ECANCELED)] \<and> fst (uv_cancel UV_WORK 7 p2) = 0 \<and>
           p_loop_wq (snd (uv_cancel UV_WORK 7 p2)) = [7] \<and>
           work_done_one (work_done_move (snd (uv_cancel UV_WORK 7 p2))) = None)"
  by code_simp

text \<open>
  C33: A worker that gets the mutex always comes to the end of its critical section: the loop
  that skips or reschedules the message for slow I/O work does not spin, from every reachable
  state, after an execution as well as after a wake-up.
\<close>

theorem pool_worker_scan_returns:
  assumes "pool_reachable p" and "i < length (p_threads p)"
    and "p_threads p ! i = At_lock slow \<and> p' = end_slow slow p \<or>
      p_threads p ! i = Signalled \<and> p' = p\<lparr>p_idle := p_idle p - 1\<rparr>"
  shows "\<exists>r b p1. worker_scan (set_thread i (At_lock False) p') = Some (r, b, p1)"
proof -
  have "pool_inv p" using pool_reachable_inv [OF assms(1)] by simp
  from enter_inv [OF this assms(2, 3)]
  have "count_list (p_wq (set_thread i (At_lock False) p')) msg \<le> 1"
    by (simp add: pool_inv_def queue_inv_def)
  then show ?thesis by (rule worker_scan_cases) auto
qed

theorem pool_worker_scan_returns_witness:
  "\<exists>r b p1. worker_scan (set_thread 0 (At_lock False) (end_slow False one_request)) = Some (r, b, p1)"
  by (rule pool_worker_scan_returns [OF one_request_reachable, of 0 False])
    (simp_all add: one_request_def uv_work_submit_def post_def post_item_def set_work_def link_work_def
      init_threads_def init_nthreads_def MAX_THREADPOOL_SIZE_def Let_def)

end
