(* ===== verification/Grpc_Base.thy ===== *)
theory Grpc_Base
  imports Machine_Base "HOL-Library.Signed_Division"
begin

text \<open>
  Shared vocabulary of the models of the C++ code of gRPC: octet strings, and signed 64-bit integers
  whose overflow, undefined in C++, is \<open>None\<close>. Division of signed integers truncates:
  \<open>sdiv\<close> and \<open>smod\<close>.
\<close>

type_synonym octets = "u8 list"

definition INT64_MAX :: int where "INT64_MAX = 0x7fffffffffffffff"
definition INT64_MIN :: int where "INT64_MIN = - 0x8000000000000000"

text \<open>The result of an operation on \<open>int64_t\<close>.\<close>

definition i64 :: "int \<Rightarrow> int option" where
  "i64 x = (if INT64_MIN \<le> x \<and> x \<le> INT64_MAX then Some x else None)"

lemma i64_in: "INT64_MIN \<le> x \<Longrightarrow> x \<le> INT64_MAX \<Longrightarrow> i64 x = Some x"
  by (simp add: i64_def)

lemma i64_small [simp]: "\<bar>x\<bar> < 0x7000000000000000 \<Longrightarrow> i64 x = Some x"
  by (simp add: i64_def INT64_MAX_def INT64_MIN_def abs_less_iff)

lemma i64_eq_Some: "i64 x = Some y \<longleftrightarrow> y = x \<and> INT64_MIN \<le> x \<and> x \<le> INT64_MAX"
  by (auto simp: i64_def)

lemma sdiv_nonneg: "0 \<le> a \<Longrightarrow> 0 < b \<Longrightarrow> (a::int) sdiv b = a div b"
  by (simp add: signed_divide_int_def sgn_if)

lemma smod_nonneg: "0 \<le> a \<Longrightarrow> 0 < b \<Longrightarrow> (a::int) smod b = a mod b"
  by (simp add: signed_modulo_int_def sgn_if)

end
