(* ===== verification/Grpc_Json.thy ===== *)
theory Grpc_Json
  imports Grpc_Base
begin

text \<open>
  JSON values of gRPC (\<open>core/lib/json/json.h\<close>) and pointers into them.

  A \<open>std::string\<close> is its list of octets, and a \<open>std::map\<close> the list of its entries in the order
  of their keys. The reader of \<open>json_reader.cc\<close> keeps pointers into the value it builds: a
  pointer is the path from the root to the value it points to. A vector that grows moves its
  elements, but the reader then holds no pointer to or below them, since the pointers it
  keeps are those of the containers that are still open.
\<close>

section \<open>Values\<close>

datatype json =
    JSON_NULL | JSON_TRUE | JSON_FALSE
  | NUMBER octets | STRING octets
  | OBJECT "(octets \<times> json) list" | ARRAY "json list"

datatype json_kind = T_NULL | T_TRUE | T_FALSE | T_NUMBER | T_STRING | T_OBJECT | T_ARRAY

fun json_type :: "json \<Rightarrow> json_kind" where
  "json_type JSON_NULL = T_NULL"
| "json_type JSON_TRUE = T_TRUE"
| "json_type JSON_FALSE = T_FALSE"
| "json_type (NUMBER _) = T_NUMBER"
| "json_type (STRING _) = T_STRING"
| "json_type (OBJECT _) = T_OBJECT"
| "json_type (ARRAY _) = T_ARRAY"

text \<open>The order of keys: \<open>std::string\<close> compares octets as unsigned numbers.\<close>

fun byte_less :: "octets \<Rightarrow> octets \<Rightarrow> bool" where
  "byte_less _ [] = False"
| "byte_less [] (_ # _) = True"
| "byte_less (a # as) (b # bs) = (a < b \<or> a = b \<and> byte_less as bs)"

text \<open>\<open>object[key]\<close> as the target of an assignment: a new key gets a null value.\<close>

fun object_slot :: "octets \<Rightarrow> (octets \<times> json) list \<Rightarrow> (octets \<times> json) list" where
  "object_slot k [] = [(k, JSON_NULL)]"
| "object_slot k ((k', v) # m) =
     (if k = k' then (k', v) # m
      else if byte_less k k' then (k, JSON_NULL) # (k', v) # m
      else (k', v) # object_slot k m)"

section \<open>Pointers\<close>

datatype json_step_to = Member octets | Element nat

type_synonym json_ptr = "json_step_to list"

fun json_at :: "json_ptr \<Rightarrow> json \<Rightarrow> json option" where
  "json_at [] j = Some j"
| "json_at (Member k # p) (OBJECT m) = (case map_of m k of None \<Rightarrow> None | Some v \<Rightarrow> json_at p v)"
| "json_at (Element i # p) (ARRAY xs) = (if i < length xs then json_at p (xs ! i) else None)"
| "json_at _ _ = None"

fun json_upd :: "json_ptr \<Rightarrow> (json \<Rightarrow> json) \<Rightarrow> json \<Rightarrow> json" where
  "json_upd [] f j = f j"
| "json_upd (Member k # p) f (OBJECT m) =
     OBJECT (map (\<lambda>(k', v). (k', if k' = k then json_upd p f v else v)) m)"
| "json_upd (Element i # p) f (ARRAY xs) =
     (if i < length xs then ARRAY (xs[i := json_upd p f (xs ! i)]) else ARRAY xs)"
| "json_upd _ f j = j"

section \<open>Laws of pointers\<close>

lemma json_upd_append: "json_upd (p @ q) f j = json_upd p (json_upd q f) j"
  by (induction p f j rule: json_upd.induct) auto

lemma json_upd_twice: "json_upd p f (json_upd p g j) = json_upd p (\<lambda>x. f (g x)) j"
  by (induction p g j rule: json_upd.induct) auto

lemma map_of_map_value:
  "map_of (map (\<lambda>(k', v). (k', if k' = k then f v else v)) m) k = map_option f (map_of m k)"
  by (induction m) auto

lemma json_at_upd: "json_at p (json_upd p f j) = map_option f (json_at p j)"
  by (induction p f j rule: json_upd.induct) (auto simp: map_of_map_value split: option.splits dest: map_of_SomeD)

lemma json_at_append: "json_at (p @ q) j = Option.bind (json_at p j) (json_at q)"
  by (induction p j rule: json_at.induct) (auto split: option.splits)

lemma json_at_upd_prefix: "json_at p (json_upd (p @ q) f j) = map_option (json_upd q f) (json_at p j)"
  by (simp add: json_upd_append json_at_upd)

end
