(* ===== verification/Grpc_Json_Reader.thy ===== *)
theory Grpc_Json_Reader
  imports Grpc_Json
begin

text \<open>
  The JSON parser of gRPC (\<open>core/lib/json/json_reader.cc\<close>): a state machine over the octets of
  the input that builds the value in place.

  The octets of the input are an argument of \<open>Run\<close>; \<open>jr_index\<close> is
  \<open>input_ - original_input_\<close>. A member function that returns a bool gives
  \<open>Continue\<close> for true and \<open>Parse_error\<close> for false; \<open>Abort\<close> stands for a failed
  assertion and for \<open>abort()\<close>. Characters are their codes:
  0x22 is the quote, 0x2c the comma, 0x5b and 0x5d the brackets, 0x7b and 0x7d the braces,
  0x5c the backslash, 0x2f the slash, 0x3a the colon, 0x2b and 0x2d the signs, 0x2e the dot, 0x30
  to 0x39 the digits, and the letters have their ASCII codes.
\<close>

section \<open>Data\<close>

datatype json_state =
    OBJECT_KEY_BEGIN | OBJECT_KEY_STRING | OBJECT_KEY_END
  | VALUE_BEGIN | VALUE_STRING
  | STRING_ESCAPE | STRING_ESCAPE_U1 | STRING_ESCAPE_U2 | STRING_ESCAPE_U3 | STRING_ESCAPE_U4
  | VALUE_NUMBER | VALUE_NUMBER_WITH_DECIMAL | VALUE_NUMBER_ZERO | VALUE_NUMBER_DOT
  | VALUE_NUMBER_E | VALUE_NUMBER_EPM
  | VALUE_TRUE_R | VALUE_TRUE_U | VALUE_TRUE_E
  | VALUE_FALSE_A | VALUE_FALSE_L | VALUE_FALSE_S | VALUE_FALSE_E
  | VALUE_NULL_U | VALUE_NULL_L1 | VALUE_NULL_L2
  | VALUE_END | STATE_END

datatype json_error =
    Duplicate_key octets u64 | Exceeded_max_depth u64 | Too_many_errors
  | Internal_error_at u64 | Parse_error_at u64

record json_reader =
  jr_index :: nat
  jr_state :: json_state
  jr_escaped_string_was_key :: bool
  jr_container_just_begun :: bool
  jr_unicode_char :: u16
  jr_unicode_high_surrogate :: u16
  jr_errors :: "json_error list"
  jr_truncated_errors :: bool
  jr_utf8_bytes_remaining :: u8
  jr_root_value :: json
  jr_stack :: "json_ptr list"
  jr_key :: octets
  jr_string :: octets

text \<open>The head of \<open>jr_stack\<close> is \<open>stack_.back()\<close>.\<close>

datatype json_out =
    Continue json_reader | Done json_reader
  | Parse_error json_reader | Internal_error json_reader | Abort

definition json_reader_init :: json_reader where
  "json_reader_init = \<lparr>jr_index = 0, jr_state = VALUE_BEGIN, jr_escaped_string_was_key = False,
     jr_container_just_begun = False, jr_unicode_char = 0, jr_unicode_high_surrogate = 0,
     jr_errors = [], jr_truncated_errors = False, jr_utf8_bytes_remaining = 0,
     jr_root_value = JSON_NULL, jr_stack = [], jr_key = [], jr_string = []\<rparr>"

definition GRPC_JSON_READ_CHAR_EOF :: u32 where "GRPC_JSON_READ_CHAR_EOF = 0x7ffffff0"
definition GRPC_JSON_MAX_DEPTH :: nat where "GRPC_JSON_MAX_DEPTH = 255"
definition GRPC_JSON_MAX_ERRORS :: nat where "GRPC_JSON_MAX_ERRORS = 16"

text \<open>\<open>if (!f()) return GRPC_JSON_PARSE_ERROR;\<close> and the code that follows.\<close>

fun proceed :: "json_out \<Rightarrow> (json_reader \<Rightarrow> json_out) \<Rightarrow> json_out" where
  "proceed (Continue r) k = k r"
| "proceed out _ = out"

definition CurrentIndex :: "json_reader \<Rightarrow> u64" where
  "CurrentIndex r = of_nat (jr_index r) - 1"

section \<open>Building strings and values\<close>

definition utf8_lead :: "u32 \<Rightarrow> u8 option" where
  "utf8_lead c =
     (if c AND 0x80 = 0 then Some 0
      else if c AND 0xe0 = 0xc0 then Some 1
      else if c AND 0xf0 = 0xe0 then Some 2
      else if c AND 0xf8 = 0xf0 then Some 3
      else None)"

definition StringAddChar :: "u32 \<Rightarrow> json_reader \<Rightarrow> json_out" where
  "StringAddChar c r =
     (if jr_utf8_bytes_remaining r = 0
      then (case utf8_lead c of
              None \<Rightarrow> Parse_error r
            | Some n \<Rightarrow> Continue (r\<lparr>jr_utf8_bytes_remaining := n, jr_string := jr_string r @ [ucast c]\<rparr>))
      else if jr_utf8_bytes_remaining r \<in> {1, 2, 3}
      then if c AND 0xc0 \<noteq> 0x80 then Parse_error r
           else Continue (r\<lparr>jr_utf8_bytes_remaining := jr_utf8_bytes_remaining r - 1,
                            jr_string := jr_string r @ [ucast c]\<rparr>)
      else Abort)"

definition StringAddUtf32 :: "u32 \<Rightarrow> json_reader \<Rightarrow> json_out" where
  "StringAddUtf32 c r =
     (if c \<le> 0x7f then StringAddChar c r
      else if c \<le> 0x7ff
      then let b1 = 0xc0 OR (drop_bit 6 c AND 0x1f);
               b2 = 0x80 OR (c AND 0x3f)
           in proceed (StringAddChar b1 r) (StringAddChar b2)
      else if c \<le> 0xffff
      then let b1 = 0xe0 OR (drop_bit 12 c AND 0x0f);
               b2 = 0x80 OR (drop_bit 6 c AND 0x3f);
               b3 = 0x80 OR (c AND 0x3f)
           in proceed (StringAddChar b1 r) (\<lambda>r1. proceed (StringAddChar b2 r1) (StringAddChar b3))
      else if c \<le> 0x1fffff
      then let b1 = 0xf0 OR (drop_bit 18 c AND 0x07);
               b2 = 0x80 OR (drop_bit 12 c AND 0x3f);
               b3 = 0x80 OR (drop_bit 6 c AND 0x3f);
               b4 = 0x80 OR (c AND 0x3f)
           in proceed (StringAddChar b1 r) (\<lambda>r1. proceed (StringAddChar b2 r1)
                (\<lambda>r2. proceed (StringAddChar b3 r2) (StringAddChar b4)))
      else Parse_error r)"

text \<open>The next character, the rest of the input, and the reader.\<close>

fun ReadChar :: "octets \<Rightarrow> json_reader \<Rightarrow> u32 \<times> octets \<times> json_reader" where
  "ReadChar [] r = (GRPC_JSON_READ_CHAR_EOF, [], r)"
| "ReadChar (b # bs) r =
     (let r1 = r\<lparr>jr_index := jr_index r + 1\<rparr>
      in if b = 0 then (GRPC_JSON_READ_CHAR_EOF, [], r1) else (ucast b, bs, r1))"

definition add_error :: "json_error \<Rightarrow> json_reader \<Rightarrow> json_reader" where
  "add_error e r =
     (if length (jr_errors r) = GRPC_JSON_MAX_ERRORS then r\<lparr>jr_truncated_errors := True\<rparr>
      else r\<lparr>jr_errors := jr_errors r @ [e]\<rparr>)"

text \<open>
  The pointer to the new value and the reader. \<open>None\<close>: the parent is not a container. The
  code moves the key out of \<open>key_\<close>, which is set again before the next use.
\<close>

definition CreateAndLinkValue :: "json_reader \<Rightarrow> (json_ptr \<times> json_reader) option" where
  "CreateAndLinkValue r =
     (case jr_stack r of
        [] \<Rightarrow> Some ([], r)
      | p # _ \<Rightarrow>
          (case json_at p (jr_root_value r) of
             Some (OBJECT m) \<Rightarrow>
               (let r1 = (if map_of m (jr_key r) \<noteq> None
                          then add_error (Duplicate_key (jr_key r) (CurrentIndex r)) r else r)
                in Some (p @ [Member (jr_key r)],
                     r1\<lparr>jr_root_value := json_upd p (\<lambda>_. OBJECT (object_slot (jr_key r) m)) (jr_root_value r1)\<rparr>))
           | Some (ARRAY xs) \<Rightarrow>
               Some (p @ [Element (length xs)],
                 r\<lparr>jr_root_value := json_upd p (\<lambda>_. ARRAY (xs @ [JSON_NULL])) (jr_root_value r)\<rparr>)
           | _ \<Rightarrow> None))"

text \<open>\<open>*value = v\<close>\<close>

definition assign_value :: "json_ptr \<Rightarrow> json \<Rightarrow> json_reader \<Rightarrow> json_reader" where
  "assign_value p v r = r\<lparr>jr_root_value := json_upd p (\<lambda>_. v) (jr_root_value r)\<rparr>"

definition StartContainer :: "json \<Rightarrow> json_reader \<Rightarrow> json_out" where
  "StartContainer empty_value r =
     (if length (jr_stack r) = GRPC_JSON_MAX_DEPTH
      then Parse_error (add_error (Exceeded_max_depth (CurrentIndex r)) r)
      else case CreateAndLinkValue r of
             None \<Rightarrow> Abort
           | Some (p, r1) \<Rightarrow>
               let r2 = assign_value p empty_value r1
               in Continue (r2\<lparr>jr_stack := p # jr_stack r2\<rparr>))"

definition EndContainer :: "json_reader \<Rightarrow> json_out" where
  "EndContainer r = (case jr_stack r of [] \<Rightarrow> Abort | _ # stack \<Rightarrow> Continue (r\<lparr>jr_stack := stack\<rparr>))"

definition SetKey :: "json_reader \<Rightarrow> json_reader" where
  "SetKey r = r\<lparr>jr_key := jr_string r, jr_string := []\<rparr>"

definition SetString :: "json_reader \<Rightarrow> json_out" where
  "SetString r =
     (case CreateAndLinkValue r of
        None \<Rightarrow> Abort
      | Some (p, r1) \<Rightarrow> Continue ((assign_value p (STRING (jr_string r1)) r1)\<lparr>jr_string := []\<rparr>))"

definition SetNumber :: "json_reader \<Rightarrow> json_out" where
  "SetNumber r =
     (case CreateAndLinkValue r of
        None \<Rightarrow> Abort
      | Some (p, r1) \<Rightarrow> Continue ((assign_value p (NUMBER (jr_string r1)) r1)\<lparr>jr_string := []\<rparr>))"

definition SetTrue :: "json_reader \<Rightarrow> json_out" where
  "SetTrue r =
     (case CreateAndLinkValue r of
        None \<Rightarrow> Abort
      | Some (p, r1) \<Rightarrow> Continue ((assign_value p JSON_TRUE r1)\<lparr>jr_string := []\<rparr>))"

definition SetFalse :: "json_reader \<Rightarrow> json_out" where
  "SetFalse r =
     (case CreateAndLinkValue r of
        None \<Rightarrow> Abort
      | Some (p, r1) \<Rightarrow> Continue ((assign_value p JSON_FALSE r1)\<lparr>jr_string := []\<rparr>))"

definition SetNull :: "json_reader \<Rightarrow> json_out" where
  "SetNull r = (case CreateAndLinkValue r of None \<Rightarrow> Abort | Some (p, r1) \<Rightarrow> Continue r1)"

definition IsComplete :: "json_reader \<Rightarrow> bool" where
  "IsComplete r \<longleftrightarrow> jr_stack r = [] \<and> (jr_state r = STATE_END \<or> jr_state r = VALUE_END)"

section \<open>The state machine\<close>

text \<open>The states in which a number may end.\<close>

definition number_end_states :: "json_state set" where
  "number_end_states = {VALUE_NUMBER, VALUE_NUMBER_WITH_DECIMAL, VALUE_NUMBER_ZERO, VALUE_NUMBER_EPM}"

definition goto :: "json_state \<Rightarrow> json_reader \<Rightarrow> json_out" where
  "goto st r = Continue (r\<lparr>jr_state := st\<rparr>)"

text \<open>\<open>stack_.back()->type()\<close>, for a stack that is not empty\<close>

definition back_type :: "json_reader \<Rightarrow> json_kind option" where
  "back_type r = (case jr_stack r of [] \<Rightarrow> None | p # _ \<Rightarrow> map_option json_type (json_at p (jr_root_value r)))"

definition step_eof :: "json_reader \<Rightarrow> json_out" where
  "step_eof r =
     proceed (if jr_state r \<in> number_end_states then proceed (SetNumber r) (goto VALUE_END) else Continue r)
       (\<lambda>r1. if IsComplete r1 then Done r1 else Parse_error r1)"

definition step_whitespace :: "u32 \<Rightarrow> json_reader \<Rightarrow> json_out" where
  "step_whitespace c r =
     (let st = jr_state r
      in if st \<in> {OBJECT_KEY_BEGIN, OBJECT_KEY_END, VALUE_BEGIN, VALUE_END, STATE_END} then Continue r
         else if st \<in> {OBJECT_KEY_STRING, VALUE_STRING}
         then if c \<noteq> 0x20 then Parse_error r
              else if jr_unicode_high_surrogate r \<noteq> 0 then Parse_error r
              else StringAddChar c r
         else if st \<in> number_end_states then proceed (SetNumber r) (goto VALUE_END)
         else Parse_error r)"

definition end_or_next :: "u32 \<Rightarrow> json_reader \<Rightarrow> json_out" where
  "end_or_next c r =
     (if c = 0x2c
      then if jr_state r \<noteq> VALUE_END then Parse_error r
           else if jr_stack r \<noteq> [] \<and> back_type r = Some T_OBJECT then goto OBJECT_KEY_BEGIN r
           else if jr_stack r \<noteq> [] \<and> back_type r = Some T_ARRAY then goto VALUE_BEGIN r
           else Parse_error r
      else if jr_stack r = [] then Parse_error r
      else if c = 0x7d \<and> back_type r \<noteq> Some T_OBJECT then Parse_error r
      else if c = 0x7d \<and> jr_state r = OBJECT_KEY_BEGIN \<and> \<not> jr_container_just_begun r then Parse_error r
      else if c = 0x5d \<and> back_type r \<noteq> Some T_ARRAY then Parse_error r
      else if c = 0x5d \<and> jr_state r = VALUE_BEGIN \<and> \<not> jr_container_just_begun r then Parse_error r
      else proceed (EndContainer (r\<lparr>jr_state := VALUE_END\<rparr>))
             (\<lambda>r1. if jr_stack r1 = [] then goto STATE_END r1 else Continue r1))"

definition step_delimiter :: "u32 \<Rightarrow> json_reader \<Rightarrow> json_out" where
  "step_delimiter c r =
     (let st = jr_state r
      in if st \<in> {OBJECT_KEY_STRING, VALUE_STRING}
         then if jr_unicode_high_surrogate r \<noteq> 0 then Parse_error r else StringAddChar c r
         else if st \<in> number_end_states
         then if jr_stack r = [] then Parse_error r
              else if c = 0x7d \<and> back_type r \<noteq> Some T_OBJECT then Parse_error r
              else if c = 0x5d \<and> back_type r \<noteq> Some T_ARRAY then Parse_error r
              else proceed (SetNumber r) (\<lambda>r1. end_or_next c (r1\<lparr>jr_state := VALUE_END\<rparr>))
         else if st \<in> {VALUE_END, OBJECT_KEY_BEGIN, VALUE_BEGIN} then end_or_next c r
         else Parse_error r)"

text \<open>The state after an escape sequence.\<close>

definition string_state :: "json_reader \<Rightarrow> json_state" where
  "string_state r = (if jr_escaped_string_was_key r then OBJECT_KEY_STRING else VALUE_STRING)"

definition step_backslash :: "json_reader \<Rightarrow> json_out" where
  "step_backslash r =
     (case jr_state r of
        OBJECT_KEY_STRING \<Rightarrow> goto STRING_ESCAPE (r\<lparr>jr_escaped_string_was_key := True\<rparr>)
      | VALUE_STRING \<Rightarrow> goto STRING_ESCAPE (r\<lparr>jr_escaped_string_was_key := False\<rparr>)
      | STRING_ESCAPE \<Rightarrow>
          if jr_unicode_high_surrogate r \<noteq> 0 then Parse_error r
          else proceed (StringAddChar 0x5c r) (\<lambda>r1. goto (string_state r1) r1)
      | _ \<Rightarrow> Parse_error r)"

definition key_string :: "u32 \<Rightarrow> json_reader \<Rightarrow> json_out" where
  "key_string c r =
     (if jr_unicode_high_surrogate r \<noteq> 0 then Parse_error r
      else if c = 0x22
      then let r1 = r\<lparr>jr_state := OBJECT_KEY_END\<rparr>
           in if jr_utf8_bytes_remaining r1 \<noteq> 0 then Parse_error r1 else Continue (SetKey r1)
      else if c < 32 then Parse_error r
      else StringAddChar c r)"

definition value_string :: "u32 \<Rightarrow> json_reader \<Rightarrow> json_out" where
  "value_string c r =
     (if jr_unicode_high_surrogate r \<noteq> 0 then Parse_error r
      else if c = 0x22
      then let r1 = r\<lparr>jr_state := VALUE_END\<rparr>
           in if jr_utf8_bytes_remaining r1 \<noteq> 0 then Parse_error r1 else SetString r1
      else if c < 32 then Parse_error r
      else StringAddChar c r)"

definition number_digit :: "u32 \<Rightarrow> bool" where
  "number_digit c \<longleftrightarrow> 0x30 \<le> c \<and> c \<le> 0x39"

definition value_begin :: "u32 \<Rightarrow> json_reader \<Rightarrow> json_out" where
  "value_begin c r =
     (if c = 0x74 then goto VALUE_TRUE_R r
      else if c = 0x66 then goto VALUE_FALSE_A r
      else if c = 0x6e then goto VALUE_NULL_U r
      else if c = 0x22 then goto VALUE_STRING r
      else if c = 0x30 then proceed (StringAddChar c r) (goto VALUE_NUMBER_ZERO)
      else if 0x31 \<le> c \<and> c \<le> 0x39 \<or> c = 0x2d
      then proceed (StringAddChar c r) (goto VALUE_NUMBER)
      else if c = 0x7b
      then proceed (StartContainer (OBJECT []) (r\<lparr>jr_container_just_begun := True\<rparr>)) (goto OBJECT_KEY_BEGIN)
      else if c = 0x5b
      then StartContainer (ARRAY []) (r\<lparr>jr_container_just_begun := True\<rparr>)
      else Parse_error r)"

definition string_escape :: "u32 \<Rightarrow> json_reader \<Rightarrow> json_out" where
  "string_escape c r0 =
     (let r = r0\<lparr>jr_state := string_state r0\<rparr>
      in if jr_unicode_high_surrogate r \<noteq> 0 \<and> c \<noteq> 0x75 then Parse_error r
         else if c = 0x22 \<or> c = 0x2f then StringAddChar c r
         else if c = 0x62 then StringAddChar 8 r
         else if c = 0x66 then StringAddChar 12 r
         else if c = 0x6e then StringAddChar 10 r
         else if c = 0x72 then StringAddChar 13 r
         else if c = 0x74 then StringAddChar 9 r
         else if c = 0x75 then goto STRING_ESCAPE_U1 (r\<lparr>jr_unicode_char := 0\<rparr>)
         else Parse_error r)"

text \<open>The fourth digit of an escape: a surrogate is kept, any other unit is appended.\<close>

definition escape_end :: "json_reader \<Rightarrow> json_out" where
  "escape_end r =
     proceed
       (if jr_unicode_char r AND 0xfc00 = 0xd800
        then if jr_unicode_high_surrogate r \<noteq> 0 then Parse_error r
             else Continue (r\<lparr>jr_unicode_high_surrogate := jr_unicode_char r\<rparr>)
        else if jr_unicode_char r AND 0xfc00 = 0xdc00
        then if jr_unicode_high_surrogate r = 0 then Parse_error r
             else let utf32 = 0x10000 + (ucast (jr_unicode_high_surrogate r) - 0xd800) * 0x400 +
                              (ucast (jr_unicode_char r) - 0xdc00)
                  in proceed (StringAddUtf32 utf32 r) (\<lambda>r1. Continue (r1\<lparr>jr_unicode_high_surrogate := 0\<rparr>))
        else if jr_unicode_high_surrogate r \<noteq> 0 then Parse_error r
        else StringAddUtf32 (ucast (jr_unicode_char r)) r)
       (\<lambda>r1. goto (string_state r1) r1)"

definition hex_value :: "u32 \<Rightarrow> u32 option" where
  "hex_value c =
     (if 0x30 \<le> c \<and> c \<le> 0x39 then Some (c - 0x30)
      else if 0x41 \<le> c \<and> c \<le> 0x46 then Some (c - (0x41 - 10))
      else if 0x61 \<le> c \<and> c \<le> 0x66 then Some (c - (0x61 - 10))
      else None)"

definition escape_digit :: "u32 \<Rightarrow> json_reader \<Rightarrow> json_out" where
  "escape_digit c r =
     (case hex_value c of
        None \<Rightarrow> Parse_error r
      | Some d \<Rightarrow>
          let r1 = r\<lparr>jr_unicode_char := push_bit 4 (jr_unicode_char r)\<rparr>;
              r2 = r1\<lparr>jr_unicode_char := ucast (ucast (jr_unicode_char r1) OR d)\<rparr>
          in (case jr_state r2 of
                STRING_ESCAPE_U1 \<Rightarrow> goto STRING_ESCAPE_U2 r2
              | STRING_ESCAPE_U2 \<Rightarrow> goto STRING_ESCAPE_U3 r2
              | STRING_ESCAPE_U3 \<Rightarrow> goto STRING_ESCAPE_U4 r2
              | STRING_ESCAPE_U4 \<Rightarrow> escape_end r2
              | _ \<Rightarrow> Internal_error r2))"

definition value_number :: "u32 \<Rightarrow> json_reader \<Rightarrow> json_out" where
  "value_number c r =
     proceed (StringAddChar c r) (\<lambda>r1.
       if number_digit c then Continue r1
       else if c = 0x65 \<or> c = 0x45 then goto VALUE_NUMBER_E r1
       else if c = 0x2e then goto VALUE_NUMBER_DOT r1
       else Parse_error r1)"

definition value_number_with_decimal :: "u32 \<Rightarrow> json_reader \<Rightarrow> json_out" where
  "value_number_with_decimal c r =
     proceed (StringAddChar c r) (\<lambda>r1.
       if number_digit c then Continue r1
       else if c = 0x65 \<or> c = 0x45 then goto VALUE_NUMBER_E r1
       else Parse_error r1)"

definition value_number_zero :: "u32 \<Rightarrow> json_reader \<Rightarrow> json_out" where
  "value_number_zero c r =
     (if c \<noteq> 0x2e then Parse_error r
      else proceed (StringAddChar c r) (goto VALUE_NUMBER_DOT))"

definition value_number_dot :: "u32 \<Rightarrow> json_reader \<Rightarrow> json_out" where
  "value_number_dot c r =
     proceed (StringAddChar c r) (\<lambda>r1. if number_digit c then goto VALUE_NUMBER_WITH_DECIMAL r1 else Parse_error r1)"

definition value_number_e :: "u32 \<Rightarrow> json_reader \<Rightarrow> json_out" where
  "value_number_e c r =
     proceed (StringAddChar c r) (\<lambda>r1.
       if number_digit c \<or> c = 0x2b \<or> c = 0x2d then goto VALUE_NUMBER_EPM r1 else Parse_error r1)"

definition value_number_epm :: "u32 \<Rightarrow> json_reader \<Rightarrow> json_out" where
  "value_number_epm c r =
     proceed (StringAddChar c r) (\<lambda>r1. if number_digit c then Continue r1 else Parse_error r1)"

text \<open>A letter of a literal: the next state is \<open>st\<close>.\<close>

definition letter :: "u32 \<Rightarrow> json_state \<Rightarrow> u32 \<Rightarrow> json_reader \<Rightarrow> json_out" where
  "letter l st c r = (if c \<noteq> l then Parse_error r else goto st r)"

definition value_literal :: "u32 \<Rightarrow> json_reader \<Rightarrow> json_out" where
  "value_literal c r =
     (case jr_state r of
        VALUE_TRUE_R \<Rightarrow> letter 0x72 VALUE_TRUE_U c r
      | VALUE_TRUE_U \<Rightarrow> letter 0x75 VALUE_TRUE_E c r
      | VALUE_TRUE_E \<Rightarrow> if c \<noteq> 0x65 then Parse_error r else proceed (SetTrue r) (goto VALUE_END)
      | VALUE_FALSE_A \<Rightarrow> letter 0x61 VALUE_FALSE_L c r
      | VALUE_FALSE_L \<Rightarrow> letter 0x6c VALUE_FALSE_S c r
      | VALUE_FALSE_S \<Rightarrow> letter 0x73 VALUE_FALSE_E c r
      | VALUE_FALSE_E \<Rightarrow> if c \<noteq> 0x65 then Parse_error r else proceed (SetFalse r) (goto VALUE_END)
      | VALUE_NULL_U \<Rightarrow> letter 0x75 VALUE_NULL_L1 c r
      | VALUE_NULL_L1 \<Rightarrow> letter 0x6c VALUE_NULL_L2 c r
      | VALUE_NULL_L2 \<Rightarrow> if c \<noteq> 0x6c then Parse_error r else proceed (SetNull r) (goto VALUE_END)
      | _ \<Rightarrow> Internal_error r)"

definition step_default :: "u32 \<Rightarrow> json_reader \<Rightarrow> json_out" where
  "step_default c r0 =
     (let r = r0\<lparr>jr_container_just_begun := False\<rparr>
      in case jr_state r of
           OBJECT_KEY_BEGIN \<Rightarrow> letter 0x22 OBJECT_KEY_STRING c r
         | OBJECT_KEY_STRING \<Rightarrow> key_string c r
         | VALUE_STRING \<Rightarrow> value_string c r
         | OBJECT_KEY_END \<Rightarrow> letter 0x3a VALUE_BEGIN c r
         | VALUE_BEGIN \<Rightarrow> value_begin c r
         | STRING_ESCAPE \<Rightarrow> string_escape c r
         | STRING_ESCAPE_U1 \<Rightarrow> escape_digit c r
         | STRING_ESCAPE_U2 \<Rightarrow> escape_digit c r
         | STRING_ESCAPE_U3 \<Rightarrow> escape_digit c r
         | STRING_ESCAPE_U4 \<Rightarrow> escape_digit c r
         | VALUE_NUMBER \<Rightarrow> value_number c r
         | VALUE_NUMBER_WITH_DECIMAL \<Rightarrow> value_number_with_decimal c r
         | VALUE_NUMBER_ZERO \<Rightarrow> value_number_zero c r
         | VALUE_NUMBER_DOT \<Rightarrow> value_number_dot c r
         | VALUE_NUMBER_E \<Rightarrow> value_number_e c r
         | VALUE_NUMBER_EPM \<Rightarrow> value_number_epm c r
         | VALUE_TRUE_R \<Rightarrow> value_literal c r
         | VALUE_TRUE_U \<Rightarrow> value_literal c r
         | VALUE_TRUE_E \<Rightarrow> value_literal c r
         | VALUE_FALSE_A \<Rightarrow> value_literal c r
         | VALUE_FALSE_L \<Rightarrow> value_literal c r
         | VALUE_FALSE_S \<Rightarrow> value_literal c r
         | VALUE_FALSE_E \<Rightarrow> value_literal c r
         | VALUE_NULL_U \<Rightarrow> value_literal c r
         | VALUE_NULL_L1 \<Rightarrow> value_literal c r
         | VALUE_NULL_L2 \<Rightarrow> value_literal c r
         | VALUE_END \<Rightarrow> if c \<in> {0x2c, 0x7d, 0x5d} then Internal_error r else Parse_error r
         | STATE_END \<Rightarrow> Parse_error r)"

definition json_step :: "u32 \<Rightarrow> json_reader \<Rightarrow> json_out" where
  "json_step c r =
     (if c = GRPC_JSON_READ_CHAR_EOF then step_eof r
      else if c \<in> {0x20, 9, 10, 13} then step_whitespace c r
      else if c \<in> {0x2c, 0x7d, 0x5d} then step_delimiter c r
      else if c = 0x5c then step_backslash r
      else step_default c r)"

lemma ReadChar_cases:
  "ReadChar input r = (c, rest, r1) \<Longrightarrow> c \<noteq> GRPC_JSON_READ_CHAR_EOF \<Longrightarrow> length rest < length input"
  by (cases input) (auto simp: Let_def split: if_splits)

function Run :: "octets \<Rightarrow> json_reader \<Rightarrow> json_out" where
  "Run input r =
     (let (c, rest, r1) = ReadChar input r
      in if c = GRPC_JSON_READ_CHAR_EOF then step_eof r1
         else proceed (json_step c r1) (Run rest))"
  by pat_completeness auto

termination
  by (relation "measure (\<lambda>(input, r). length input)") (auto dest!: ReadChar_cases [OF sym])

text \<open>
  The result of a parse: the errors, or the value. \<open>None\<close>: the code aborts.
\<close>

definition Parse :: "octets \<Rightarrow> (json_error list + json) option" where
  "Parse input =
     (let out = Run input json_reader_init;
          truncated = (\<lambda>r. if jr_truncated_errors r then r\<lparr>jr_errors := jr_errors r @ [Too_many_errors]\<rparr> else r);
          finish = (\<lambda>r. if jr_errors r \<noteq> [] then Inl (jr_errors r) else Inr (jr_root_value r))
      in case out of
           Done r \<Rightarrow> Some (finish (truncated r))
         | Internal_error r \<Rightarrow>
             let r1 = truncated r
             in Some (finish (r1\<lparr>jr_errors := jr_errors r1 @ [Internal_error_at (CurrentIndex r1)]\<rparr>))
         | Parse_error r \<Rightarrow>
             let r1 = truncated r
             in Some (finish (r1\<lparr>jr_errors := jr_errors r1 @ [Parse_error_at (CurrentIndex r1)]\<rparr>))
         | Continue r \<Rightarrow> None
         | Abort \<Rightarrow> None)"

end
