(* ===== verification/Grpc_Json_Grammar.thy ===== *)
theory Grpc_Json_Grammar
  imports Grpc_Json
begin

text \<open>
  The language of JSON texts (RFC 8259) with their values: the specification of the reader and the
  writer. A text is a list of octets, and a string of a value a list of octets too, so that
  the encoding of characters in UTF-8 is part of the relation.

  The relation has two bounds, because the reader has them: a number does not continue a leading zero
  with an exponent, and the depth of containers is limited. \<open>json_text d t j\<close> says that \<open>t\<close> is a
  text of \<open>j\<close> with at most \<open>d\<close> containers inside each other. Keys of an object are distinct.
\<close>

section \<open>Strings\<close>

text \<open>The encoding of a code point below 0x200000.\<close>

definition utf8_encode :: "u32 \<Rightarrow> octets" where
  "utf8_encode c =
     (if c \<le> 0x7f then [ucast c]
      else if c \<le> 0x7ff then [ucast (0xc0 OR (drop_bit 6 c AND 0x1f)), ucast (0x80 OR (c AND 0x3f))]
      else if c \<le> 0xffff
      then [ucast (0xe0 OR (drop_bit 12 c AND 0x0f)), ucast (0x80 OR (drop_bit 6 c AND 0x3f)),
            ucast (0x80 OR (c AND 0x3f))]
      else [ucast (0xf0 OR (drop_bit 18 c AND 0x07)), ucast (0x80 OR (drop_bit 12 c AND 0x3f)),
            ucast (0x80 OR (drop_bit 6 c AND 0x3f)), ucast (0x80 OR (c AND 0x3f))])"

definition continuation :: "u8 \<Rightarrow> bool" where
  "continuation b \<longleftrightarrow> b AND 0xc0 = 0x80"

text \<open>A byte sequence of the form of a UTF-8 character of two to four octets.\<close>

definition multibyte :: "octets \<Rightarrow> bool" where
  "multibyte u \<longleftrightarrow> u \<noteq> [] \<and> list_all continuation (tl u) \<and>
     (hd u AND 0xe0 = 0xc0 \<and> length u = 2 \<or> hd u AND 0xf0 = 0xe0 \<and> length u = 3 \<or>
      hd u AND 0xf8 = 0xf0 \<and> length u = 4)"

definition escape_of :: "u8 \<Rightarrow> u8 option" where
  "escape_of e =
     (if e \<in> {0x22, 0x2f, 0x5c} then Some e
      else if e = 0x62 then Some 8
      else if e = 0x66 then Some 12
      else if e = 0x6e then Some 10
      else if e = 0x72 then Some 13
      else if e = 0x74 then Some 9
      else None)"

definition hex_digit :: "u8 \<Rightarrow> u16 option" where
  "hex_digit c =
     (if 0x30 \<le> c \<and> c \<le> 0x39 then Some (ucast c - 0x30)
      else if 0x41 \<le> c \<and> c \<le> 0x46 then Some (ucast c - 0x37)
      else if 0x61 \<le> c \<and> c \<le> 0x66 then Some (ucast c - 0x57)
      else None)"

text \<open>The value of four hexadecimal digits.\<close>

fun hex4 :: "octets \<Rightarrow> u16 option" where
  "hex4 [a, b, c, d] =
     (case (hex_digit a, hex_digit b, hex_digit c, hex_digit d) of
        (Some x, Some y, Some z, Some w) \<Rightarrow> Some (push_bit 12 x OR push_bit 8 y OR push_bit 4 z OR w)
      | _ \<Rightarrow> None)"
| "hex4 _ = None"

definition high_surrogate :: "u16 \<Rightarrow> bool" where "high_surrogate u \<longleftrightarrow> u AND 0xfc00 = 0xd800"
definition low_surrogate :: "u16 \<Rightarrow> bool" where "low_surrogate u \<longleftrightarrow> u AND 0xfc00 = 0xdc00"

definition surrogate_pair :: "u16 \<Rightarrow> u16 \<Rightarrow> u32" where
  "surrogate_pair u v = 0x10000 + (ucast u - 0xd800) * 0x400 + (ucast v - 0xdc00)"

inductive str_text :: "octets \<Rightarrow> octets \<Rightarrow> bool" where
  str_nil: "str_text [] []"
| str_plain: "str_text s bs \<Longrightarrow> 0x20 \<le> c \<Longrightarrow> c < 0x80 \<Longrightarrow> c \<noteq> 0x22 \<Longrightarrow> c \<noteq> 0x5c \<Longrightarrow> str_text (c # s) (c # bs)"
| str_multibyte: "str_text s bs \<Longrightarrow> multibyte u \<Longrightarrow> str_text (u @ s) (u @ bs)"
| str_escape: "str_text s bs \<Longrightarrow> escape_of e = Some b \<Longrightarrow> str_text (0x5c # e # s) (b # bs)"
| str_unicode: "str_text s bs \<Longrightarrow> hex4 h = Some u \<Longrightarrow> \<not> high_surrogate u \<Longrightarrow> \<not> low_surrogate u \<Longrightarrow>
    str_text (0x5c # 0x75 # h @ s) (utf8_encode (ucast u) @ bs)"
| str_pair: "str_text s bs \<Longrightarrow> hex4 h = Some u \<Longrightarrow> hex4 l = Some v \<Longrightarrow> high_surrogate u \<Longrightarrow> low_surrogate v \<Longrightarrow>
    str_text (0x5c # 0x75 # h @ 0x5c # 0x75 # l @ s) (utf8_encode (surrogate_pair u v) @ bs)"

section \<open>Numbers\<close>

definition is_digit :: "u8 \<Rightarrow> bool" where
  "is_digit c \<longleftrightarrow> 0x30 \<le> c \<and> c \<le> 0x39"

definition digits :: "octets \<Rightarrow> bool" where
  "digits s \<longleftrightarrow> s \<noteq> [] \<and> list_all is_digit s"

definition int_part :: "octets \<Rightarrow> bool" where
  "int_part s \<longleftrightarrow> s = [0x30] \<or> digits s \<and> hd s \<noteq> 0x30"

definition frac_part :: "octets \<Rightarrow> bool" where
  "frac_part s \<longleftrightarrow> s = [] \<or> s \<noteq> [] \<and> hd s = 0x2e \<and> digits (tl s)"

definition exp_part :: "octets \<Rightarrow> bool" where
  "exp_part s \<longleftrightarrow> s = [] \<or>
     s \<noteq> [] \<and> hd s \<in> {0x65, 0x45} \<and>
       (digits (tl s) \<or> tl s \<noteq> [] \<and> hd (tl s) \<in> {0x2b, 0x2d} \<and> digits (tl (tl s)))"

definition json_number :: "octets \<Rightarrow> bool" where
  "json_number s \<longleftrightarrow> (\<exists>sign i f e. s = sign @ i @ f @ e \<and> sign \<in> {[], [0x2d]} \<and>
     int_part i \<and> frac_part f \<and> exp_part e)"

text \<open>A number of the form 0e.. or 0E..\<close>

definition zero_exponent :: "octets \<Rightarrow> bool" where
  "zero_exponent s \<longleftrightarrow> take 2 s \<in> {[0x30, 0x65], [0x30, 0x45]}"

section \<open>Values\<close>

definition blank :: "octets \<Rightarrow> bool" where
  "blank w \<longleftrightarrow> set w \<subseteq> {0x20, 9, 10, 13}"

text \<open>An object after an assignment to a key.\<close>

fun object_put :: "octets \<Rightarrow> json \<Rightarrow> (octets \<times> json) list \<Rightarrow> (octets \<times> json) list" where
  "object_put k v [] = [(k, v)]"
| "object_put k v ((k', v') # m) =
     (if k = k' then (k', v) # m
      else if byte_less k k' then (k, v) # (k', v') # m
      else (k', v') # object_put k v m)"

definition object_of :: "(octets \<times> json) list \<Rightarrow> (octets \<times> json) list \<Rightarrow> (octets \<times> json) list" where
  "object_of m kvs = foldl (\<lambda>m (k, v). object_put k v m) m kvs"

inductive json_text :: "nat \<Rightarrow> octets \<Rightarrow> json \<Rightarrow> bool"
  and elements_text :: "nat \<Rightarrow> octets \<Rightarrow> json list \<Rightarrow> bool"
  and members_text :: "nat \<Rightarrow> octets \<Rightarrow> (octets \<times> json) list \<Rightarrow> bool" where
  text_null: "json_text d [0x6e, 0x75, 0x6c, 0x6c] JSON_NULL"
| text_true: "json_text d [0x74, 0x72, 0x75, 0x65] JSON_TRUE"
| text_false: "json_text d [0x66, 0x61, 0x6c, 0x73, 0x65] JSON_FALSE"
| text_number: "json_number s \<Longrightarrow> \<not> zero_exponent s \<Longrightarrow> json_text d s (NUMBER s)"
| text_string: "str_text s bs \<Longrightarrow> json_text d (0x22 # s @ [0x22]) (STRING bs)"
| text_empty_array: "blank w \<Longrightarrow> json_text (Suc d) (0x5b # w @ [0x5d]) (ARRAY [])"
| text_array: "elements_text d t js \<Longrightarrow> json_text (Suc d) (0x5b # t @ [0x5d]) (ARRAY js)"
| text_empty_object: "blank w \<Longrightarrow> json_text (Suc d) (0x7b # w @ [0x7d]) (OBJECT [])"
| text_object: "members_text d t kvs \<Longrightarrow> distinct (map fst kvs) \<Longrightarrow>
    json_text (Suc d) (0x7b # t @ [0x7d]) (OBJECT (object_of [] kvs))"
| text_element: "blank w1 \<Longrightarrow> json_text d t j \<Longrightarrow> blank w2 \<Longrightarrow> elements_text d (w1 @ t @ w2) [j]"
| text_elements: "blank w1 \<Longrightarrow> json_text d t j \<Longrightarrow> blank w2 \<Longrightarrow> elements_text d ts js \<Longrightarrow>
    elements_text d (w1 @ t @ w2 @ 0x2c # ts) (j # js)"
| text_member: "blank w1 \<Longrightarrow> str_text s k \<Longrightarrow> blank w2 \<Longrightarrow> blank w3 \<Longrightarrow> json_text d t j \<Longrightarrow> blank w4 \<Longrightarrow>
    members_text d (w1 @ 0x22 # s @ 0x22 # w2 @ 0x3a # w3 @ t @ w4) [(k, j)]"
| text_members: "blank w1 \<Longrightarrow> str_text s k \<Longrightarrow> blank w2 \<Longrightarrow> blank w3 \<Longrightarrow> json_text d t j \<Longrightarrow> blank w4 \<Longrightarrow>
    members_text d ts kvs \<Longrightarrow>
    members_text d (w1 @ 0x22 # s @ 0x22 # w2 @ 0x3a # w3 @ t @ w4 @ 0x2c # ts) ((k, j) # kvs)"

text \<open>A document: a value between blanks.\<close>

definition json_document :: "nat \<Rightarrow> octets \<Rightarrow> json \<Rightarrow> bool" where
  "json_document d t j \<longleftrightarrow> (\<exists>w1 s w2. t = w1 @ s @ w2 \<and> blank w1 \<and> blank w2 \<and> json_text d s j)"

end
