(* ===== verification/Grpc_Json_Strings.thy ===== *)
theory Grpc_Json_Strings
  imports Grpc_Json_Reader Grpc_Json_Grammar
begin

text \<open>
  How the reader of \<open>Grpc_Json_Reader\<close> reads the strings of \<open>Grpc_Json_Grammar\<close>.
\<close>

section \<open>Feeding text\<close>

fun feed :: "octets \<Rightarrow> json_reader \<Rightarrow> json_out" where
  "feed [] r = Continue r"
| "feed (b # bs) r = proceed (json_step (ucast b) (r\<lparr>jr_index := jr_index r + 1\<rparr>)) (feed bs)"

lemma proceed_assoc: "proceed (proceed out k) h = proceed out (\<lambda>r. proceed (k r) h)"
  by (cases out) simp_all

lemma proceed_Continue: "proceed out Continue = out"
  by (cases out) simp_all

lemma feed_append: "feed (s @ t) r = proceed (feed s r) (feed t)"
proof (induction s arbitrary: r)
  case (Cons b s)
  show ?case by (simp add: proceed_assoc flip: Cons.IH)
qed simp

lemma feed_trans: "feed s r = Continue r1 \<Longrightarrow> feed t r1 = out \<Longrightarrow> feed (s @ t) r = out"
  by (simp add: feed_append)

lemma feed_step:
  "json_step (ucast b) (r\<lparr>jr_index := jr_index r + 1\<rparr>) = Continue r1 \<Longrightarrow> feed t r1 = out \<Longrightarrow> feed (b # t) r = out"
  by simp

text \<open>Bytes as characters.\<close>

lemma unat_byte: "unat (ucast (b :: u8) :: u32) = unat b"
proof -
  have "unat b < 2 ^ LENGTH(32)" using unat_lt_exp [of b] by simp
  then show ?thesis using unat_of_nat_id [of "unat b", where 'a = 32] by (simp add: unsigned_ucast_eq take_bit_nat_eq_self)
qed

lemma byte_less: "unat (b :: u8) < 256"
  using unat_lt_exp [of b] by simp

lemma unat_numeral_small:
  "(numeral n :: nat) < 2 ^ LENGTH('a) \<Longrightarrow> unat (numeral n :: 'a::len word) = numeral n"
  using unat_of_nat_id [of "numeral n", where 'a = 'a] by (simp only: of_nat_numeral)

lemma byte_numeral:
  assumes "(numeral n :: nat) < 256"
  shows "(ucast (b :: u8) :: u32) = numeral n \<longleftrightarrow> b = numeral n"
    "(ucast b :: u32) \<le> numeral n \<longleftrightarrow> b \<le> numeral n" "numeral n \<le> (ucast b :: u32) \<longleftrightarrow> numeral n \<le> b"
    "(ucast b :: u32) < numeral n \<longleftrightarrow> b < numeral n"
proof -
  have "unat (numeral n :: u8) = numeral n" "unat (numeral n :: u32) = numeral n"
    by (rule unat_numeral_small; rule order_less_le_trans [OF assms]; simp)+
  then show "(ucast b :: u32) = numeral n \<longleftrightarrow> b = numeral n"
    "(ucast b :: u32) \<le> numeral n \<longleftrightarrow> b \<le> numeral n" "numeral n \<le> (ucast b :: u32) \<longleftrightarrow> numeral n \<le> b"
    "(ucast b :: u32) < numeral n \<longleftrightarrow> b < numeral n"
    by (simp_all only: word_unat_eq_iff word_le_nat_alt word_less_nat_alt unat_byte)
qed

lemma byte_not_eof [simp]: "(ucast (b :: u8) :: u32) \<noteq> GRPC_JSON_READ_CHAR_EOF"
proof
  assume "(ucast b :: u32) = GRPC_JSON_READ_CHAR_EOF"
  then have "unat b = unat GRPC_JSON_READ_CHAR_EOF" unfolding unat_byte [symmetric] by (simp only:)
  then show False using byte_less [of b] by (simp add: GRPC_JSON_READ_CHAR_EOF_def)
qed

declare Run.simps [simp del]

lemma Run_feed:
  assumes "0 \<notin> set s"
  shows "Run (s @ t) r = proceed (feed s r) (Run t)"
  using assms
proof (induction s arbitrary: r)
  case (Cons b s)
  have "Run ((b # s) @ t) r = proceed (json_step (ucast b) (r\<lparr>jr_index := jr_index r + 1\<rparr>)) (Run (s @ t))"
    using Cons.prems by (subst Run.simps) (simp add: Let_def)
  also have "Run (s @ t) = (\<lambda>r. proceed (feed s r) (Run t))" using Cons by auto
  finally show ?case by (simp add: proceed_assoc)
qed simp

section \<open>The observable part of the reader\<close>

text \<open>
  \<open>at st v stack s r\<close>: the reader is in state \<open>st\<close> outside of any multi-byte character or pair of
  surrogates, has built \<open>v\<close> and the string \<open>s\<close>, and has found no error.
\<close>

definition at :: "json_state \<Rightarrow> json \<Rightarrow> json_ptr list \<Rightarrow> octets \<Rightarrow> json_reader \<Rightarrow> bool" where
  "at st v stack s r \<longleftrightarrow> jr_state r = st \<and> jr_root_value r = v \<and> jr_stack r = stack \<and> jr_string r = s \<and>
     jr_unicode_high_surrogate r = 0 \<and> jr_utf8_bytes_remaining r = 0 \<and>
     jr_errors r = [] \<and> \<not> jr_truncated_errors r"

lemma at_junk [simp]:
  "at st v stack s (r\<lparr>jr_index := i\<rparr>) = at st v stack s r"
  "at st v stack s (r\<lparr>jr_container_just_begun := b\<rparr>) = at st v stack s r"
  "at st v stack s (r\<lparr>jr_unicode_char := u\<rparr>) = at st v stack s r"
  "at st v stack s (r\<lparr>jr_escaped_string_was_key := b\<rparr>) = at st v stack s r"
  "at st v stack s (r\<lparr>jr_key := k\<rparr>) = at st v stack s r"
  by (simp_all add: at_def)


section \<open>Characters of a string\<close>

text \<open>A whole character of several octets.\<close>

fun add_chars :: "u32 list \<Rightarrow> json_reader \<Rightarrow> json_out" where
  "add_chars [] r = Continue r"
| "add_chars (c # cs) r = proceed (StringAddChar c r) (add_chars cs)"

definition utf8_char :: "u32 list \<Rightarrow> bool" where
  "utf8_char cs \<longleftrightarrow> cs \<noteq> [] \<and> (\<exists>n. utf8_lead (hd cs) = Some n \<and> length (tl cs) = unat n) \<and>
     (\<forall>c\<in>set (tl cs). c AND 0xc0 = 0x80)"

lemma add_tail:
  assumes "length cs \<le> 3" "\<forall>c\<in>set cs. c AND 0xc0 = 0x80" "jr_utf8_bytes_remaining r = of_nat (length cs)"
  shows "add_chars cs r = Continue (r\<lparr>jr_utf8_bytes_remaining := 0, jr_string := jr_string r @ map ucast cs\<rparr>)"
  using assms
proof (induction cs arbitrary: r)
  case (Cons c cs)
  have "length cs \<le> 2" using Cons.prems(1) by simp
  then have "length cs = 0 \<or> length cs = 1 \<or> length cs = 2" by linarith
  then have n: "jr_utf8_bytes_remaining r \<noteq> 0" "jr_utf8_bytes_remaining r \<in> {1, 2, 3}"
    using Cons.prems(3) by auto
  have "jr_utf8_bytes_remaining r - 1 = of_nat (length cs)" using Cons.prems(3) by simp
  then show ?case using Cons.prems n Cons.IH by (simp add: StringAddChar_def)
qed simp

lemma add_char_whole:
  assumes "utf8_char cs" "jr_utf8_bytes_remaining r = 0"
  shows "add_chars cs r = Continue (r\<lparr>jr_string := jr_string r @ map ucast cs\<rparr>)"
proof -
  obtain c ds where cs: "cs = c # ds" using assms(1) by (cases cs) (auto simp: utf8_char_def)
  obtain n where n: "utf8_lead c = Some n" "length ds = unat n" "\<forall>c\<in>set ds. c AND 0xc0 = 0x80"
    using assms(1) by (auto simp: utf8_char_def cs)
  have "length ds \<le> 3" using n(1,2) by (auto simp: utf8_lead_def split: if_splits)
  then have "add_chars ds (r\<lparr>jr_utf8_bytes_remaining := n, jr_string := jr_string r @ [ucast c]\<rparr>) =
      Continue (r\<lparr>jr_utf8_bytes_remaining := 0, jr_string := jr_string r @ ucast c # map ucast ds\<rparr>)"
    using add_tail [of ds "r\<lparr>jr_utf8_bytes_remaining := n, jr_string := jr_string r @ [ucast c]\<rparr>"] n by simp
  then show ?thesis using assms(2) n(1) by (simp add: cs StringAddChar_def)
qed

lemma and_or_masks:
  "(a OR (x AND b)) AND (m :: 'a::len word) = (a AND m) OR (x AND (b AND m))"
  by (simp add: bit.conj_disj_distrib2 and.assoc)

lemma ascii_bit:
  assumes "unat (c :: u32) < 128"
  shows "c AND 0x80 = 0"
proof -
  have "take_bit 7 c = c" by (rule take_bit_below) (use assms in simp)
  then have "c AND 0x80 = take_bit 7 c AND 0x80" by simp
  also have "\<dots> = c AND (mask 7 AND 0x80)" by (simp only: take_bit_eq_mask and.assoc)
  also have "mask 7 AND (0x80 :: u32) = 0" by code_simp
  finally show ?thesis by simp
qed

lemma add_chars_fun: "add_chars [] = Continue"
  "add_chars (c # cs) = (\<lambda>r. proceed (StringAddChar c r) (add_chars cs))"
  by (simp_all add: fun_eq_iff)

lemma StringAddUtf32_encode:
  assumes "c \<le> 0x1fffff" "jr_utf8_bytes_remaining r = 0"
  shows "StringAddUtf32 c r = Continue (r\<lparr>jr_string := jr_string r @ utf8_encode c\<rparr>)"
proof -
  define cs where "cs =
     (if c \<le> 0x7f then [c]
      else if c \<le> 0x7ff then [0xc0 OR (drop_bit 6 c AND 0x1f), 0x80 OR (c AND 0x3f)]
      else if c \<le> 0xffff
      then [0xe0 OR (drop_bit 12 c AND 0x0f), 0x80 OR (drop_bit 6 c AND 0x3f), 0x80 OR (c AND 0x3f)]
      else [0xf0 OR (drop_bit 18 c AND 0x07), 0x80 OR (drop_bit 12 c AND 0x3f),
            0x80 OR (drop_bit 6 c AND 0x3f), 0x80 OR (c AND 0x3f)])"
  have "c AND 0x80 = 0" if "c \<le> 0x7f" using that by (intro ascii_bit) (simp add: word_le_nat_alt)
  then have "utf8_char cs" by (auto simp: cs_def utf8_char_def utf8_lead_def and_or_masks)
  moreover have "map ucast cs = utf8_encode c" by (simp add: cs_def utf8_encode_def)
  moreover have "StringAddUtf32 c r = add_chars cs r"
    using assms(1) by (simp add: StringAddUtf32_def cs_def Let_def proceed_Continue add_chars_fun)
  ultimately show ?thesis using add_char_whole [of cs r] assms(2) by simp
qed
text \<open>\<open>junk r r'\<close>: the readers differ only in what the value read so far does not depend on.\<close>

definition junk :: "json_reader \<Rightarrow> json_reader \<Rightarrow> bool" where
  "junk r r' \<longleftrightarrow> (\<exists>i b u e. r' = r\<lparr>jr_index := i, jr_container_just_begun := b, jr_unicode_char := u,
     jr_escaped_string_was_key := e\<rparr>)"

lemma junkI [intro]: "junk r (r\<lparr>jr_index := i, jr_container_just_begun := b, jr_unicode_char := u,
     jr_escaped_string_was_key := e\<rparr>)"
  unfolding junk_def by blast

lemma junk_refl: "junk r r"
proof -
  have "r = r\<lparr>jr_index := jr_index r, jr_container_just_begun := jr_container_just_begun r,
      jr_unicode_char := jr_unicode_char r, jr_escaped_string_was_key := jr_escaped_string_was_key r\<rparr>" by simp
  then show ?thesis unfolding junk_def by blast
qed

lemma junk_trans: "junk r1 r2 \<Longrightarrow> junk r2 r3 \<Longrightarrow> junk r1 r3"
proof -
  assume "junk r1 r2" "junk r2 r3"
  then obtain i b u e i' b' u' e' where
    "r3 = r1\<lparr>jr_index := i, jr_container_just_begun := b, jr_unicode_char := u, jr_escaped_string_was_key := e,
       jr_index := i', jr_container_just_begun := b', jr_unicode_char := u', jr_escaped_string_was_key := e'\<rparr>"
    unfolding junk_def by blast
  then have "r3 = r1\<lparr>jr_index := i', jr_container_just_begun := b', jr_unicode_char := u', jr_escaped_string_was_key := e'\<rparr>"
    by simp
  then show ?thesis unfolding junk_def by blast
qed

lemma junkD:
  assumes "junk r r'"
  shows "jr_state r' = jr_state r" "jr_root_value r' = jr_root_value r" "jr_stack r' = jr_stack r"
    "jr_string r' = jr_string r" "jr_key r' = jr_key r" "jr_errors r' = jr_errors r"
    "jr_unicode_high_surrogate r' = jr_unicode_high_surrogate r"
    "jr_utf8_bytes_remaining r' = jr_utf8_bytes_remaining r"
    "jr_truncated_errors r' = jr_truncated_errors r"
  using assms by (auto simp: junk_def)

lemma junk_iff: "junk r r' \<longleftrightarrow> jr_state r' = jr_state r \<and> jr_root_value r' = jr_root_value r \<and>
  jr_stack r' = jr_stack r \<and> jr_string r' = jr_string r \<and> jr_key r' = jr_key r \<and> jr_errors r' = jr_errors r \<and>
  jr_unicode_high_surrogate r' = jr_unicode_high_surrogate r \<and>
  jr_utf8_bytes_remaining r' = jr_utf8_bytes_remaining r \<and> jr_truncated_errors r' = jr_truncated_errors r"
  (is "_ \<longleftrightarrow> ?same")
proof
  assume ?same
  then have "r' = r\<lparr>jr_index := jr_index r', jr_container_just_begun := jr_container_just_begun r',
      jr_unicode_char := jr_unicode_char r', jr_escaped_string_was_key := jr_escaped_string_was_key r'\<rparr>"
    by (intro json_reader.equality) simp_all
  then show "junk r r'" unfolding junk_def by blast
qed (simp add: junkD)

text \<open>\<open>feeds s r r'\<close>: the text \<open>s\<close> takes \<open>r\<close> to \<open>r'\<close>, up to junk.\<close>

definition feeds :: "octets \<Rightarrow> json_reader \<Rightarrow> json_reader \<Rightarrow> bool" where
  "feeds s r r' \<longleftrightarrow> (\<forall>r1. junk r r1 \<longrightarrow> (\<exists>r2. feed s r1 = Continue r2 \<and> junk r' r2))"

lemma feed_nil: "feed [] = Continue"
  by (simp add: fun_eq_iff)

lemma feeds_nil: "feeds [] r r"
  by (simp add: feeds_def)

lemma feeds_append: "feeds s r r' \<Longrightarrow> feeds t r' r'' \<Longrightarrow> feeds (s @ t) r r''"
  unfolding feeds_def feed_append by fastforce

lemma feeds_one:
  assumes "\<And>i b u e. \<exists>r2. json_step (ucast c)
    (r\<lparr>jr_index := i, jr_container_just_begun := b, jr_unicode_char := u, jr_escaped_string_was_key := e\<rparr>) =
      Continue r2 \<and> junk r' r2"
  shows "feeds [c] r r'"
  unfolding feeds_def
proof (intro allI impI)
  fix r1 assume "junk r r1"
  then obtain i b u e where r1: "r1 = r\<lparr>jr_index := i, jr_container_just_begun := b, jr_unicode_char := u,
      jr_escaped_string_was_key := e\<rparr>" unfolding junk_def by blast
  have "r1\<lparr>jr_index := jr_index r1 + 1\<rparr> = r\<lparr>jr_index := i + 1, jr_container_just_begun := b, jr_unicode_char := u,
      jr_escaped_string_was_key := e\<rparr>" unfolding r1 by (rule json_reader.equality) simp_all
  then have "feed [c] r1 = json_step (ucast c) (r\<lparr>jr_index := i + 1, jr_container_just_begun := b,
      jr_unicode_char := u, jr_escaped_string_was_key := e\<rparr>)"
    by (simp only: feed.simps feed_nil proceed_Continue)
  then show "\<exists>r2. feed [c] r1 = Continue r2 \<and> junk r' r2"
    using assms [where i = "i + 1" and b = b and u = u and e = e] by simp
qed

lemma feeds_cons: "feeds [c] r r' \<Longrightarrow> feeds t r' r'' \<Longrightarrow> feeds (c # t) r r''"
  using feeds_append [of "[c]" r r' t r''] by simp

definition in_string :: "json_reader \<Rightarrow> bool" where
  "in_string r \<longleftrightarrow> jr_state r \<in> {OBJECT_KEY_STRING, VALUE_STRING} \<and> jr_unicode_high_surrogate r = 0"

lemma step_special_in_string:
  assumes "in_string r" "c \<in> {0x20, 0x2c, 0x7d, 0x5d}"
  shows "json_step c r = StringAddChar c r"
proof -
  have st: "jr_state r = OBJECT_KEY_STRING \<or> jr_state r = VALUE_STRING" "jr_unicode_high_surrogate r = 0"
    using assms(1) by (auto simp: in_string_def)
  have "step_whitespace 0x20 r = StringAddChar 0x20 r" "step_delimiter c r = StringAddChar c r"
    using st by (auto simp: step_whitespace_def step_delimiter_def)
  moreover have "c = 0x20 \<or> c = 0x2c \<or> c = 0x7d \<or> c = 0x5d" using assms(2) by simp
  ultimately show ?thesis by (elim disjE) (simp_all add: json_step_def GRPC_JSON_READ_CHAR_EOF_def)
qed

lemma step_in_string:
  assumes "in_string r" "0x20 \<le> c" "c \<noteq> 0x22" "c \<noteq> 0x5c"
  shows "\<exists>b. json_step (ucast (c :: u8)) r = StringAddChar (ucast c) (r\<lparr>jr_container_just_begun := b\<rparr>)"
proof -
  have "c \<noteq> 9" "c \<noteq> 10" "c \<noteq> 13" using assms(2) by auto
  note c = this assms(2-4) byte_numeral
  have st: "jr_state r = OBJECT_KEY_STRING \<or> jr_state r = VALUE_STRING" "jr_unicode_high_surrogate r = 0"
    using assms(1) by (auto simp: in_string_def)
  show ?thesis
  proof (cases "c \<in> {0x20, 0x2c, 0x7d, 0x5d}")
    case True
    then have "(ucast c :: u32) \<in> {0x20, 0x2c, 0x7d, 0x5d}" by auto
    then have "json_step (ucast c) r = StringAddChar (ucast c) r" by (rule step_special_in_string [OF assms(1)])
    then show ?thesis by (intro exI [of _ "jr_container_just_begun r"]) simp
  next
    case False
    then have "json_step (ucast c) r = step_default (ucast c) r" using c by (simp add: json_step_def)
    then show ?thesis using st c
      by (intro exI [of _ False]) (auto simp: step_default_def value_literal_def key_string_def value_string_def not_less Let_def)
  qed
qed

lemma in_string_junk: "junk r r' \<Longrightarrow> in_string r' = in_string r"
  by (simp add: in_string_def junkD)

lemma byte_back [simp]: "ucast (ucast (c :: u8) :: u32) = c"
  by (rule bit_word_eqI) (simp add: bit_simps)

lemma feeds_plain:
  assumes "in_string r" "jr_utf8_bytes_remaining r = 0" "0x20 \<le> c" "c < 0x80" "c \<noteq> 0x22" "c \<noteq> 0x5c"
  shows "feeds [c] r (r\<lparr>jr_string := jr_string r @ [c]\<rparr>)"
proof (rule feeds_one)
  fix i b u e
  let ?r = "r\<lparr>jr_index := i, jr_container_just_begun := b, jr_unicode_char := u, jr_escaped_string_was_key := e\<rparr>"
  have "in_string ?r" using assms(1) by (simp add: in_string_def)
  then obtain b' where "json_step (ucast c) ?r = StringAddChar (ucast c) (?r\<lparr>jr_container_just_begun := b'\<rparr>)"
    using step_in_string assms(3,5,6) by blast
  moreover have "(ucast c :: u32) AND 0x80 = 0" using assms(4) by (intro ascii_bit) (simp add: unat_byte word_less_nat_alt)
  ultimately show "\<exists>r2. json_step (ucast c) ?r = Continue r2 \<and> junk (r\<lparr>jr_string := jr_string r @ [c]\<rparr>) r2"
    using assms(2) by (auto simp: StringAddChar_def utf8_lead_def junk_iff)
qed

lemma byte_and_u32: "(ucast (c :: u8) :: u32) AND ucast (m :: u8) = ucast (c AND m)"
  by (rule bit_word_eqI) (auto simp: bit_simps)

lemma continuation_u32: "c AND 0xc0 = (0x80 :: u8) \<Longrightarrow> (ucast c :: u32) AND 0xc0 = 0x80"
  using byte_and_u32 [of c "0xc0"] by simp

lemma continuation_range:
  assumes "c AND 0xc0 = (0x80 :: u8)"
  shows "0x20 \<le> c" "c \<noteq> 0x22" "c \<noteq> 0x5c"
proof -
  have "bit (c AND 0xc0) 7" unfolding assms by simp
  then have "bit c 7" by (simp add: bit_and_iff)
  then have "128 \<le> unat c" using bit_below [of c 7 7] by (cases "unat c < 2 ^ 7") auto
  then show "0x20 \<le> c" by (simp add: word_le_nat_alt)
  show "c \<noteq> 0x22" "c \<noteq> 0x5c" using assms by auto
qed

lemma feeds_continuation:
  assumes "length u = n" "n \<le> 3" "list_all continuation u" "in_string r" "jr_utf8_bytes_remaining r = of_nat n"
  shows "feeds u r (r\<lparr>jr_utf8_bytes_remaining := 0, jr_string := jr_string r @ u\<rparr>)"
  using assms
proof (induction u arbitrary: n r)
  case Nil
  then have "r\<lparr>jr_utf8_bytes_remaining := 0, jr_string := jr_string r @ []\<rparr> = r" by simp
  then show ?case using feeds_nil [of r] by (simp only:)
next
  case (Cons c u)
  let ?r1 = "r\<lparr>jr_utf8_bytes_remaining := of_nat (length u), jr_string := jr_string r @ [c]\<rparr>"
  have c: "c AND 0xc0 = 0x80" using Cons.prems(3) by (simp add: continuation_def)
  have "length u \<le> 2" using Cons.prems(1,2) by simp
  then have "length u = 0 \<or> length u = 1 \<or> length u = 2" by linarith
  then have rem: "jr_utf8_bytes_remaining r \<noteq> 0" "jr_utf8_bytes_remaining r \<in> {1, 2, 3}"
      "jr_utf8_bytes_remaining r - 1 = of_nat (length u)"
    using Cons.prems(1,5) by auto
  have "feeds [c] r ?r1"
  proof (rule feeds_one)
    fix i b u' e
    let ?r = "r\<lparr>jr_index := i, jr_container_just_begun := b, jr_unicode_char := u', jr_escaped_string_was_key := e\<rparr>"
    have "in_string ?r" using Cons.prems(4) by (simp add: in_string_def)
    then obtain b' where "json_step (ucast c) ?r = StringAddChar (ucast c) (?r\<lparr>jr_container_just_begun := b'\<rparr>)"
      using step_in_string continuation_range [OF c] by blast
    then show "\<exists>r2. json_step (ucast c) ?r = Continue r2 \<and> junk ?r1 r2"
      using rem continuation_u32 [OF c] by (auto simp: StringAddChar_def junk_iff)
  qed
  moreover have "feeds u ?r1 (?r1\<lparr>jr_utf8_bytes_remaining := 0, jr_string := jr_string ?r1 @ u\<rparr>)"
    by (rule Cons.IH [of "length u"]) (use Cons.prems in \<open>auto simp: in_string_def\<close>)
  ultimately show ?case using feeds_cons [of c r ?r1 u] by simp
qed

lemma and_submask: "c AND m = (v :: 'a::len word) \<Longrightarrow> m AND k = k \<Longrightarrow> c AND k = v AND k"
  by (metis and.assoc)

lemma multibyte_lead:
  assumes "multibyte u"
  shows "\<exists>n. utf8_lead (ucast (hd u)) = Some (of_nat n) \<and> length (tl u) = n \<and> n \<le> 3"
    "bit (hd u) 7"
proof -
  have cases: "hd u AND 0xe0 = 0xc0 \<and> length u = 2 \<or> hd u AND 0xf0 = 0xe0 \<and> length u = 3 \<or>
      hd u AND 0xf8 = 0xf0 \<and> length u = 4" using assms by (simp add: multibyte_def)
  then have top: "hd u AND 0x80 = 0x80"
    using and_submask [of "hd u" "0xe0" "0xc0" "0x80"] and_submask [of "hd u" "0xf0" "0xe0" "0x80"]
      and_submask [of "hd u" "0xf8" "0xf0" "0x80"] by auto
  have "bit (hd u AND 0x80) 7" unfolding top by simp
  then show "bit (hd u) 7" by (simp add: bit_and_iff)
  have u32: "(ucast (hd u) :: u32) AND 0x80 = ucast (hd u AND 0x80)" "(ucast (hd u) :: u32) AND 0xe0 = ucast (hd u AND 0xe0)"
      "(ucast (hd u) :: u32) AND 0xf0 = ucast (hd u AND 0xf0)" "(ucast (hd u) :: u32) AND 0xf8 = ucast (hd u AND 0xf8)"
    by (simp_all flip: byte_and_u32)
  show "\<exists>n. utf8_lead (ucast (hd u)) = Some (of_nat n) \<and> length (tl u) = n \<and> n \<le> 3"
    using cases
  proof (elim disjE conjE)
    assume "hd u AND 0xe0 = 0xc0" "length u = 2"
    then show ?thesis using top by (simp add: utf8_lead_def u32)
  next
    assume a: "hd u AND 0xf0 = 0xe0" "length u = 3"
    then have "hd u AND 0xe0 = 0xe0" using and_submask [OF a(1), of "0xe0"] by simp
    then show ?thesis using a top by (simp add: utf8_lead_def u32)
  next
    assume a: "hd u AND 0xf8 = 0xf0" "length u = 4"
    then have "hd u AND 0xf0 = 0xf0" "hd u AND 0xe0 = 0xe0"
      using and_submask [OF a(1), of "0xf0"] and_submask [OF a(1), of "0xe0"] by simp_all
    then show ?thesis using a top by (simp add: utf8_lead_def u32)
  qed
qed

lemma high_byte_range: "bit (c :: u8) 7 \<Longrightarrow> 0x20 \<le> c \<and> c \<noteq> 0x22 \<and> c \<noteq> 0x5c"
proof -
  assume "bit c 7"
  then have "128 \<le> unat c" using bit_below [of c 7 7] by (cases "unat c < 2 ^ 7") auto
  then show ?thesis by (auto simp: word_le_nat_alt)
qed

lemma feeds_multibyte:
  assumes "in_string r" "jr_utf8_bytes_remaining r = 0" "multibyte u"
  shows "feeds u r (r\<lparr>jr_string := jr_string r @ u\<rparr>)"
proof -
  obtain n where n: "utf8_lead (ucast (hd u)) = Some (of_nat n)" "length (tl u) = n" "n \<le> 3"
    using multibyte_lead(1) [OF assms(3)] by blast
  have u: "u = hd u # tl u" "list_all continuation (tl u)" using assms(3) by (auto simp: multibyte_def)
  let ?r1 = "r\<lparr>jr_utf8_bytes_remaining := of_nat n, jr_string := jr_string r @ [hd u]\<rparr>"
  have "feeds [hd u] r ?r1"
  proof (rule feeds_one)
    fix i b u' e
    let ?r = "r\<lparr>jr_index := i, jr_container_just_begun := b, jr_unicode_char := u', jr_escaped_string_was_key := e\<rparr>"
    have "in_string ?r" using assms(1) by (simp add: in_string_def)
    then obtain b' where "json_step (ucast (hd u)) ?r = StringAddChar (ucast (hd u)) (?r\<lparr>jr_container_just_begun := b'\<rparr>)"
      using step_in_string high_byte_range [OF multibyte_lead(2) [OF assms(3)]] by blast
    then show "\<exists>r2. json_step (ucast (hd u)) ?r = Continue r2 \<and> junk ?r1 r2"
      using n(1) assms(2) by (auto simp: StringAddChar_def junk_iff)
  qed
  moreover have "feeds (tl u) ?r1 (?r1\<lparr>jr_utf8_bytes_remaining := 0, jr_string := jr_string ?r1 @ tl u\<rparr>)"
    by (rule feeds_continuation [OF n(2,3) u(2)]) (use assms(1) in \<open>simp_all add: in_string_def\<close>)
  moreover have "?r1\<lparr>jr_utf8_bytes_remaining := 0, jr_string := jr_string ?r1 @ tl u\<rparr> = r\<lparr>jr_string := jr_string r @ u\<rparr>"
    by (subst (2) u(1), rule json_reader.equality) (simp_all add: assms(2))
  ultimately show ?thesis using feeds_cons [of "hd u" r ?r1 "tl u"] u(1) by simp
qed

section \<open>Escape sequences\<close>

lemma step_escape_start:
  assumes "jr_state r \<in> {OBJECT_KEY_STRING, VALUE_STRING}"
  shows "json_step 0x5c r = Continue (r\<lparr>jr_escaped_string_was_key := (jr_state r = OBJECT_KEY_STRING),
    jr_state := STRING_ESCAPE\<rparr>)"
  using assms by (auto simp: json_step_def GRPC_JSON_READ_CHAR_EOF_def step_backslash_def goto_def)

lemma step_default_other:
  assumes "c \<notin> {0x20, 9, 10, 13, 0x2c, 0x7d, 0x5d, 0x5c}"
  shows "json_step (ucast (c :: u8)) r = step_default (ucast c) r"
  using assms by (simp add: json_step_def byte_numeral)

text \<open>The reader after the backslash, when the sequence started in \<open>r\<close>.\<close>

definition escaping :: "json_reader \<Rightarrow> json_reader \<Rightarrow> bool" where
  "escaping r r' \<longleftrightarrow> jr_state r' = STRING_ESCAPE \<and> junk r (r'\<lparr>jr_state := jr_state r\<rparr>) \<and>
     string_state r' = jr_state r"

lemma feed_backslash:
  assumes "jr_state r \<in> {OBJECT_KEY_STRING, VALUE_STRING}" "junk r r1"
  obtains r2 where "feed (0x5c # s) r1 = feed s r2" "escaping r r2"
proof -
  let ?r2 = "r1\<lparr>jr_index := jr_index r1 + 1, jr_escaped_string_was_key := (jr_state r1 = OBJECT_KEY_STRING),
    jr_state := STRING_ESCAPE\<rparr>"
  have "jr_state (r1\<lparr>jr_index := jr_index r1 + 1\<rparr>) \<in> {OBJECT_KEY_STRING, VALUE_STRING}"
    using assms by (simp add: junkD)
  then have "feed (0x5c # s) r1 = feed s ?r2" by (simp add: step_escape_start)
  moreover have "escaping r ?r2"
    using assms by (auto simp: escaping_def junk_iff string_state_def)
  ultimately show thesis by (rule that)
qed

lemma add_ascii:
  "jr_utf8_bytes_remaining r = 0 \<Longrightarrow> unat c < 128 \<Longrightarrow>
    StringAddChar c r = Continue (r\<lparr>jr_utf8_bytes_remaining := 0, jr_string := jr_string r @ [ucast c]\<rparr>)"
  by (simp add: StringAddChar_def utf8_lead_def ascii_bit)

lemma escape_ascii: "escape_of e = Some b \<Longrightarrow> unat b < 128"
  by (auto simp: escape_of_def split: if_splits)

lemma feeds_escape:
  assumes "in_string r" "jr_utf8_bytes_remaining r = 0" "escape_of e = Some b"
  shows "feeds [0x5c, e] r (r\<lparr>jr_string := jr_string r @ [b]\<rparr>)"
  unfolding feeds_def
proof (intro allI impI)
  fix r1 assume "junk r r1"
  then obtain r2 where r2: "feed [0x5c, e] r1 = feed [e] r2" "escaping r r2"
    using feed_backslash [of r r1 "[e]"] assms(1) in_string_def by metis
  let ?r = "r2\<lparr>jr_index := jr_index r2 + 1\<rparr>"
  have e: "e = 0x5c \<or> e \<in> {0x22, 0x2f, 0x62, 0x66, 0x6e, 0x72, 0x74}"
    using assms(3) by (auto simp: escape_of_def split: if_splits)
  have f: "jr_state ?r = STRING_ESCAPE" "jr_unicode_high_surrogate ?r = 0" "jr_utf8_bytes_remaining ?r = 0"
      "string_state ?r = jr_state r" "jr_string ?r = jr_string r"
    using r2(2) assms(1,2) by (auto simp: escaping_def junk_iff in_string_def string_state_def)
  have "\<exists>r3. json_step (ucast e) ?r = Continue r3 \<and> junk (r\<lparr>jr_string := jr_string r @ [b]\<rparr>) r3"
  proof (cases "e = 0x5c")
    case True
    have "json_step (ucast e) ?r = step_backslash ?r"
      by (simp add: True json_step_def GRPC_JSON_READ_CHAR_EOF_def)
    also have "\<dots> = proceed (StringAddChar 0x5c ?r) (\<lambda>r1. goto (string_state r1) r1)"
      using f(1,2) by (simp add: step_backslash_def)
    finally show ?thesis
      using f r2(2) assms(3) by (auto simp: add_ascii goto_def escaping_def junk_iff True escape_of_def string_state_def)
  next
    case False
    then have e: "e \<in> {0x22, 0x2f, 0x62, 0x66, 0x6e, 0x72, 0x74}" using e by simp
    then have "json_step (ucast e) ?r = step_default (ucast e) ?r" by (intro step_default_other) auto
    also have "\<dots> = string_escape (ucast e) (?r\<lparr>jr_container_just_begun := False\<rparr>)"
      using f(1) by (simp add: step_default_def value_literal_def)
    also have "\<dots> = StringAddChar (ucast b) (?r\<lparr>jr_container_just_begun := False,
        jr_state := string_state (?r\<lparr>jr_container_just_begun := False\<rparr>)\<rparr>)"
      using e assms(3) f(2) by (auto simp: string_escape_def escape_of_def Let_def byte_numeral)
    finally show ?thesis
      using f r2(2) escape_ascii [OF assms(3)] by (auto simp: add_ascii unat_byte escaping_def junk_iff string_state_def)
  qed
  then show "\<exists>r3. feed [0x5c, e] r1 = Continue r3 \<and> junk (r\<lparr>jr_string := jr_string r @ [b]\<rparr>) r3"
    unfolding r2(1) by (simp add: feed_nil proceed_Continue)
qed

text \<open>The four digits of an escaped unit.\<close>

lemma unat_byte_up: "LENGTH('a) \<ge> 8 \<Longrightarrow> unat (ucast (c :: u8) :: 'a::len word) = unat c"
proof -
  assume "LENGTH('a) \<ge> 8"
  then have "(2::nat) ^ 8 \<le> 2 ^ LENGTH('a)" by (intro power_increasing) simp_all
  then have "unat c < 2 ^ LENGTH('a)" using byte_less [of c] by simp
  then show ?thesis by (simp add: unsigned_ucast_eq take_bit_nat_eq_self)
qed

lemma byte_minus:
  assumes "numeral n \<le> unat (c :: u8)" "LENGTH('a) \<ge> 8"
  shows "unat ((ucast c :: 'a::len word) - numeral n) = unat c - numeral n"
proof -
  have "(2::nat) ^ 8 \<le> 2 ^ LENGTH('a)" using assms(2) by (intro power_increasing) simp_all
  then have "(numeral n :: nat) < 2 ^ LENGTH('a)" using assms(1) byte_less [of c] by simp
  then have n: "unat (numeral n :: 'a word) = numeral n" by (rule unat_numeral_small)
  then have "(numeral n :: 'a word) \<le> ucast c" using assms by (simp add: word_le_nat_alt unat_byte_up)
  then show ?thesis using n by (simp add: unat_sub unat_byte_up assms(2))
qed

lemma unat_u16_up: "unat (ucast (u :: u16) :: u32) = unat u"
proof -
  have "unat u < 2 ^ LENGTH(32)" using unat_lt_exp [of u] by simp
  then show ?thesis by (simp add: unsigned_ucast_eq take_bit_nat_eq_self)
qed

lemma hex_digit_byte:
  assumes "hex_digit c = Some d"
  shows "hex_value (ucast c) = Some (ucast d)" "c \<notin> {0x20, 9, 10, 13, 0x2c, 0x7d, 0x5d, 0x5c}" "unat d < 16"
proof -
  note up = unat_u16_up [of d]
  consider "48 \<le> unat c" "unat c \<le> 57" "d = ucast c - 0x30"
    | "65 \<le> unat c" "unat c \<le> 70" "d = ucast c - 0x37" | "97 \<le> unat c" "unat c \<le> 102" "d = ucast c - 0x57"
    using assms by (auto simp: hex_digit_def word_le_nat_alt split: if_splits)
  then have "hex_value (ucast c) = Some (ucast d) \<and> c \<notin> {0x20, 9, 10, 13, 0x2c, 0x7d, 0x5d, 0x5c} \<and> unat d < 16"
  proof cases
    case 1
    then have d: "unat d = unat c - 48" "unat ((ucast c :: u32) - 0x30) = unat c - 48" by (simp_all add: byte_minus)
    then have "(ucast c :: u32) - 0x30 = ucast d" by (simp only: word_unat_eq_iff up)
    moreover have "c \<notin> {0x20, 9, 10, 13, 0x2c, 0x7d, 0x5d, 0x5c}" "unat d < 16" using 1 d by auto
    ultimately show ?thesis using 1 by (simp add: hex_value_def word_le_nat_alt unat_byte)
  next
    case 2
    then have d: "unat d = unat c - 55" "unat ((ucast c :: u32) - 0x37) = unat c - 55" by (simp_all add: byte_minus)
    then have "(ucast c :: u32) - 0x37 = ucast d" by (simp only: word_unat_eq_iff up)
    moreover have "c \<notin> {0x20, 9, 10, 13, 0x2c, 0x7d, 0x5d, 0x5c}" "unat d < 16" using 2 d by auto
    ultimately show ?thesis using 2 by (simp add: hex_value_def word_le_nat_alt unat_byte)
  next
    case 3
    then have d: "unat d = unat c - 87" "unat ((ucast c :: u32) - 0x57) = unat c - 87" by (simp_all add: byte_minus)
    then have "(ucast c :: u32) - 0x57 = ucast d" by (simp only: word_unat_eq_iff up)
    moreover have "c \<notin> {0x20, 9, 10, 13, 0x2c, 0x7d, 0x5d, 0x5c}" "unat d < 16" using 3 d by auto
    ultimately show ?thesis using 3 by (simp add: hex_value_def word_le_nat_alt unat_byte)
  qed
  then show "hex_value (ucast c) = Some (ucast d)" "c \<notin> {0x20, 9, 10, 13, 0x2c, 0x7d, 0x5d, 0x5c}" "unat d < 16"
    by blast+
qed

definition next_unit_state :: "json_state \<Rightarrow> json_state" where
  "next_unit_state st = (case st of STRING_ESCAPE_U1 \<Rightarrow> STRING_ESCAPE_U2 | STRING_ESCAPE_U2 \<Rightarrow> STRING_ESCAPE_U3
     | STRING_ESCAPE_U3 \<Rightarrow> STRING_ESCAPE_U4 | _ \<Rightarrow> st)"

lemma step_hex:
  assumes "hex_digit c = Some d"
    "jr_state r \<in> {STRING_ESCAPE_U1, STRING_ESCAPE_U2, STRING_ESCAPE_U3, STRING_ESCAPE_U4}"
  shows "json_step (ucast c) r =
    (let r1 = r\<lparr>jr_container_just_begun := False, jr_unicode_char := push_bit 4 (jr_unicode_char r) OR d\<rparr>
     in if jr_state r = STRING_ESCAPE_U4 then escape_end r1 else goto (next_unit_state (jr_state r)) r1)"
proof -
  have "json_step (ucast c) r = step_default (ucast c) r"
    using hex_digit_byte(2) [OF assms(1)] by (rule step_default_other)
  also have "\<dots> = escape_digit (ucast c) (r\<lparr>jr_container_just_begun := False\<rparr>)"
    using assms(2) by (auto simp: step_default_def value_literal_def)
  finally have 1: "json_step (ucast c) r = escape_digit (ucast c) (r\<lparr>jr_container_just_begun := False\<rparr>)" .
  have "ucast ((ucast u :: u32) OR ucast d) = u OR d" for u :: u16
    by (rule bit_word_eqI) (simp add: bit_simps)
  then show ?thesis using assms(2) unfolding 1
    by (auto simp: escape_digit_def hex_digit_byte(1) [OF assms(1)] next_unit_state_def)
qed

lemma feed_hex4:
  assumes "hex4 h = Some v" "jr_state r = STRING_ESCAPE_U1" "jr_unicode_char r = 0"
  shows "\<exists>i. feed h r = escape_end (r\<lparr>jr_index := i, jr_container_just_begun := False, jr_unicode_char := v,
    jr_state := STRING_ESCAPE_U4\<rparr>)"
proof -
  obtain a b c d x y z w where h: "h = [a, b, c, d]" "hex_digit a = Some x" "hex_digit b = Some y"
      "hex_digit c = Some z" "hex_digit d = Some w" "v = push_bit 12 x OR push_bit 8 y OR push_bit 4 z OR w"
    using assms(1) by (cases h rule: hex4.cases) (auto split: option.splits)
  have "push_bit 4 (push_bit 4 (push_bit 4 (push_bit 4 0 OR x) OR y) OR z) OR w = v"
    by (simp add: h(6) push_bit_or or.assoc)
  then show ?thesis using assms(2,3)
    by (simp add: h step_hex next_unit_state_def goto_def Let_def feed_nil proceed_Continue)
      (rule exI [of _ "Suc (Suc (Suc (Suc (jr_index r))))"], rule arg_cong [where f = escape_end],
        rule json_reader.equality; simp)
qed

lemma feed_unit:
  assumes "jr_state r \<in> {OBJECT_KEY_STRING, VALUE_STRING}" "junk r r1" "hex4 h = Some v"
  obtains r2 where "feed (0x5c # 0x75 # h) r1 = escape_end r2" "jr_unicode_char r2 = v"
    "string_state r2 = jr_state r" "junk r (r2\<lparr>jr_state := jr_state r\<rparr>)"
proof -
  obtain r3 where r3: "feed (0x5c # 0x75 # h) r1 = feed (0x75 # h) r3" "escaping r r3"
    using feed_backslash [OF assms(1,2)] by metis
  let ?r = "r3\<lparr>jr_index := jr_index r3 + 1, jr_container_just_begun := False, jr_unicode_char := 0,
    jr_state := STRING_ESCAPE_U1\<rparr>"
  have "json_step 0x75 (r3\<lparr>jr_index := jr_index r3 + 1\<rparr>) = step_default 0x75 (r3\<lparr>jr_index := jr_index r3 + 1\<rparr>)"
    by (simp add: json_step_def GRPC_JSON_READ_CHAR_EOF_def)
  also have "\<dots> = string_escape 0x75 (r3\<lparr>jr_index := jr_index r3 + 1, jr_container_just_begun := False\<rparr>)"
    using r3(2) by (simp add: escaping_def step_default_def value_literal_def)
  also have "\<dots> = Continue ?r" by (simp add: string_escape_def goto_def)
  finally have "feed (0x75 # h) r3 = feed h ?r" by simp
  moreover obtain i where "feed h ?r = escape_end (?r\<lparr>jr_index := i, jr_container_just_begun := False,
      jr_unicode_char := v, jr_state := STRING_ESCAPE_U4\<rparr>)" using feed_hex4 [OF assms(3), of ?r] by auto
  ultimately have "feed (0x5c # 0x75 # h) r1 = escape_end (?r\<lparr>jr_index := i, jr_container_just_begun := False,
      jr_unicode_char := v, jr_state := STRING_ESCAPE_U4\<rparr>)" using r3(1) by (simp only:)
  then show thesis
    by (rule that) (use r3(2) in \<open>simp_all add: escaping_def junk_iff string_state_def\<close>)
qed

lemma ucast_u16_le: "(ucast (u :: u16) :: u32) \<le> 0x1fffff"
  using unat_lt_exp [of u] by (simp add: word_le_nat_alt unat_u16_up)

lemma feeds_unicode:
  assumes "in_string r" "jr_utf8_bytes_remaining r = 0" "hex4 h = Some u" "\<not> high_surrogate u" "\<not> low_surrogate u"
  shows "feeds (0x5c # 0x75 # h) r (r\<lparr>jr_string := jr_string r @ utf8_encode (ucast u)\<rparr>)"
  unfolding feeds_def
proof (intro allI impI)
  fix r1 assume "junk r r1"
  then obtain r2 where r2: "feed (0x5c # 0x75 # h) r1 = escape_end r2" "jr_unicode_char r2 = u"
      "string_state r2 = jr_state r" "junk r (r2\<lparr>jr_state := jr_state r\<rparr>)"
    using feed_unit [of r r1 h u] assms by (auto simp: in_string_def)
  moreover have "escape_end r2 = goto (string_state r2) (r2\<lparr>jr_string := jr_string r2 @ utf8_encode (ucast u)\<rparr>)"
    using r2(2,4) assms StringAddUtf32_encode [OF ucast_u16_le, of r2 u]
    by (auto simp: escape_end_def high_surrogate_def low_surrogate_def junk_iff in_string_def string_state_def)
  ultimately show "\<exists>r3. feed (0x5c # 0x75 # h) r1 = Continue r3 \<and>
      junk (r\<lparr>jr_string := jr_string r @ utf8_encode (ucast u)\<rparr>) r3"
    by (auto simp: goto_def junk_iff)
qed

lemma high_low_split: "(u :: u16) = (u AND 0xfc00) + (u AND 0x3ff)"
proof -
  have "(0xfc00 AND 0x3ff :: u16) = 0" "(0xfc00 OR 0x3ff :: u16) = - 1" by code_simp+
  then have "(u AND 0xfc00) AND (u AND 0x3ff) = 0" "(u AND 0xfc00) OR (u AND 0x3ff) = u"
    by (metis and.assoc and.left_commute and_zero_eq and.idem, metis bit.conj_disj_distrib and.right_neutral)
  then show ?thesis using disjunctive_add_eq_or by metis
qed

lemma surrogate_offset:
  assumes "u AND 0xfc00 = (k :: u16)" "unat k + 1024 \<le> 2 ^ 16"
  obtains x where "(ucast u :: u32) = ucast k + x" "unat x < 1024"
proof -
  have "(u AND 0x3ff) = take_bit 10 u" unfolding take_bit_eq_mask by (simp add: mask_eq_exp_minus_1)
  then have lt: "unat (u AND 0x3ff) < 1024" using take_bit_nat_less_exp [of 10 "unat u"] by (simp add: unsigned_take_bit_eq)
  have "u = k + (u AND 0x3ff)" using high_low_split [of u] assms(1) by simp
  moreover have "unat (k + (u AND 0x3ff)) = unat k + unat (u AND 0x3ff)"
    by (rule unat_add_below) (use assms(2) lt in simp)
  ultimately have sum: "unat u = unat k + unat (u AND 0x3ff)" by metis
  have "unat (ucast k + ucast (u AND 0x3ff) :: u32) = unat (ucast k :: u32) + unat (ucast (u AND 0x3ff) :: u32)"
    by (rule unat_add_below) (use assms(2) lt in \<open>simp add: unat_u16_up\<close>)
  then have "(ucast u :: u32) = ucast k + ucast (u AND 0x3ff)" by (simp only: word_unat_eq_iff unat_u16_up sum)
  then show thesis using lt by (intro that [of "ucast (u AND 0x3ff)"]) (simp_all add: unat_u16_up)
qed

lemma surrogate_pair_range:
  assumes "high_surrogate u" "low_surrogate v"
  shows "0x10000 \<le> surrogate_pair u v" "surrogate_pair u v \<le> 0x10ffff"
proof -
  obtain x where x: "(ucast u :: u32) = ucast (0xd800 :: u16) + x" "unat x < 1024"
    using surrogate_offset [of u "0xd800"] assms(1) by (auto simp: high_surrogate_def)
  obtain y where y: "(ucast v :: u32) = ucast (0xdc00 :: u16) + y" "unat y < 1024"
    using surrogate_offset [of v "0xdc00"] assms(2) by (auto simp: low_surrogate_def)
  have p: "surrogate_pair u v = 0x10000 + x * 0x400 + y" by (simp add: surrogate_pair_def x y)
  have "x * 0x400 = of_nat (unat x * 1024)" by simp
  then have m: "unat (x * 0x400) = unat x * 1024"
    by (simp only:) (rule unat_of_nat_id, use x(2) in simp)
  have "unat (0x10000 + x * 0x400) = 65536 + unat x * 1024"
    by (subst unat_add_below) (use x(2) m in simp_all)
  then have "unat (surrogate_pair u v) = 65536 + unat x * 1024 + unat y"
    unfolding p by (subst unat_add_below) (use x(2) y(2) in simp_all)
  then show "0x10000 \<le> surrogate_pair u v" "surrogate_pair u v \<le> 0x10ffff"
    using x(2) y(2) by (simp_all add: word_le_nat_alt)
qed

lemma feeds_pair:
  assumes "in_string r" "jr_utf8_bytes_remaining r = 0" "hex4 h = Some u" "hex4 l = Some v"
    "high_surrogate u" "low_surrogate v"
  shows "feeds (0x5c # 0x75 # h @ 0x5c # 0x75 # l) r (r\<lparr>jr_string := jr_string r @ utf8_encode (surrogate_pair u v)\<rparr>)"
  unfolding feeds_def
proof (intro allI impI)
  fix r1 assume "junk r r1"
  then obtain r2 where r2: "feed (0x5c # 0x75 # h) r1 = escape_end r2" "jr_unicode_char r2 = u"
      "string_state r2 = jr_state r" "junk r (r2\<lparr>jr_state := jr_state r\<rparr>)"
    using feed_unit [of r r1 h u] assms by (auto simp: in_string_def)
  have u: "u AND 0xfc00 = 0xd800" "u AND 0xfc00 \<noteq> 0xdc00" "u \<noteq> 0" using assms(5) by (auto simp: high_surrogate_def)
  have v: "v AND 0xfc00 = 0xdc00" "v AND 0xfc00 \<noteq> 0xd800" using assms(6) by (auto simp: low_surrogate_def)
  let ?r = "r\<lparr>jr_unicode_high_surrogate := u\<rparr>"
  let ?r2 = "r2\<lparr>jr_unicode_high_surrogate := u, jr_state := jr_state r\<rparr>"
  have "jr_unicode_high_surrogate r2 = 0" using r2(4) assms(1) by (simp add: junk_iff in_string_def)
  then have "feed (0x5c # 0x75 # h) r1 = Continue ?r2"
    unfolding r2(1) using r2(2,3) u by (simp add: escape_end_def goto_def string_state_def)
  moreover have "junk ?r ?r2" using r2(4) by (simp add: junk_iff)
  then obtain r3 where r3: "feed (0x5c # 0x75 # l) ?r2 = escape_end r3" "jr_unicode_char r3 = v"
      "string_state r3 = jr_state r" "junk ?r (r3\<lparr>jr_state := jr_state r\<rparr>)"
    using feed_unit [of ?r ?r2 l v] assms by (auto simp: in_string_def)
  have "surrogate_pair u v \<le> 0x1fffff" using surrogate_pair_range(2) [OF assms(5,6)] by (rule order_trans) simp
  then have "escape_end r3 = goto (string_state r3) (r3\<lparr>jr_string := jr_string r3 @ utf8_encode (surrogate_pair u v),
      jr_unicode_high_surrogate := 0\<rparr>)"
    using r3(2,4) assms(2) u v StringAddUtf32_encode [of "surrogate_pair u v" r3]
    by (simp add: escape_end_def junk_iff string_state_def surrogate_pair_def)
  ultimately show "\<exists>r4. feed (0x5c # 0x75 # h @ 0x5c # 0x75 # l) r1 = Continue r4 \<and>
      junk (r\<lparr>jr_string := jr_string r @ utf8_encode (surrogate_pair u v)\<rparr>) r4"
    using r3 assms(1) feed_append [of "0x5c # 0x75 # h" "0x5c # 0x75 # l" r1]
    by (auto simp: goto_def junk_iff in_string_def simp del: feed.simps)
qed

text \<open>The reader reads the text of a string.\<close>

lemma feeds_str:
  "str_text s bs \<Longrightarrow> in_string r \<Longrightarrow> jr_utf8_bytes_remaining r = 0 \<Longrightarrow>
    feeds s r (r\<lparr>jr_string := jr_string r @ bs\<rparr>)"
proof (induction s bs arbitrary: r rule: str_text.induct)
  case str_nil
  then show ?case using feeds_nil [of r] by simp
next
  case (str_plain s bs c)
  have rest: "feeds s (r\<lparr>jr_string := jr_string r @ [c]\<rparr>) (r\<lparr>jr_string := jr_string r @ c # bs\<rparr>)"
    using str_plain.IH [of "r\<lparr>jr_string := jr_string r @ [c]\<rparr>"] str_plain.prems by (simp add: in_string_def)
  show ?case by (rule feeds_cons [OF feeds_plain [OF str_plain.prems str_plain.hyps(2-5)] rest])
next
  case (str_multibyte s bs u)
  have rest: "feeds s (r\<lparr>jr_string := jr_string r @ u\<rparr>) (r\<lparr>jr_string := jr_string r @ u @ bs\<rparr>)"
    using str_multibyte.IH [of "r\<lparr>jr_string := jr_string r @ u\<rparr>"] str_multibyte.prems by (simp add: in_string_def)
  show ?case by (rule feeds_append [OF feeds_multibyte [OF str_multibyte.prems str_multibyte.hyps(2)] rest])
next
  case (str_escape s bs e b)
  have "feeds s (r\<lparr>jr_string := jr_string r @ [b]\<rparr>) (r\<lparr>jr_string := jr_string r @ b # bs\<rparr>)"
    using str_escape.IH [of "r\<lparr>jr_string := jr_string r @ [b]\<rparr>"] str_escape.prems by (simp add: in_string_def)
  then show ?case using feeds_append [OF feeds_escape [OF str_escape.prems str_escape.hyps(2)]] by simp
next
  case (str_unicode s bs h u)
  let ?r = "r\<lparr>jr_string := jr_string r @ utf8_encode (ucast u)\<rparr>"
  have "feeds s ?r (r\<lparr>jr_string := jr_string r @ utf8_encode (ucast u) @ bs\<rparr>)"
    using str_unicode.IH [of ?r] str_unicode.prems by (simp add: in_string_def)
  then show ?case using feeds_append [OF feeds_unicode [OF str_unicode.prems str_unicode.hyps(2-4)]] by simp
next
  case (str_pair s bs h u l v)
  let ?r = "r\<lparr>jr_string := jr_string r @ utf8_encode (surrogate_pair u v)\<rparr>"
  have "feeds s ?r (r\<lparr>jr_string := jr_string r @ utf8_encode (surrogate_pair u v) @ bs\<rparr>)"
    using str_pair.IH [of ?r] str_pair.prems by (simp add: in_string_def)
  then show ?case using feeds_append [OF feeds_pair [OF str_pair.prems str_pair.hyps(2-5)]] by simp
qed

end
