(* ===== verification/Grpc_Json_Complete.thy ===== *)
theory Grpc_Json_Complete
  imports Grpc_Json_Strings
begin

text \<open>
  The reader of \<open>Grpc_Json_Reader\<close> accepts every JSON document of \<open>Grpc_Json_Grammar\<close> and builds
  its value.
\<close>

section \<open>Numbers\<close>

text \<open>The states that the characters of a number lead to.\<close>

definition num_next :: "json_state \<Rightarrow> u8 \<Rightarrow> json_state option" where
  "num_next st c =
     (case st of
        VALUE_BEGIN \<Rightarrow> if c = 0x30 then Some VALUE_NUMBER_ZERO
          else if is_digit c \<or> c = 0x2d then Some VALUE_NUMBER else None
      | VALUE_NUMBER \<Rightarrow> if is_digit c then Some VALUE_NUMBER
          else if c = 0x65 \<or> c = 0x45 then Some VALUE_NUMBER_E else if c = 0x2e then Some VALUE_NUMBER_DOT else None
      | VALUE_NUMBER_WITH_DECIMAL \<Rightarrow> if is_digit c then Some VALUE_NUMBER_WITH_DECIMAL
          else if c = 0x65 \<or> c = 0x45 then Some VALUE_NUMBER_E else None
      | VALUE_NUMBER_ZERO \<Rightarrow> if c = 0x2e then Some VALUE_NUMBER_DOT else None
      | VALUE_NUMBER_DOT \<Rightarrow> if is_digit c then Some VALUE_NUMBER_WITH_DECIMAL else None
      | VALUE_NUMBER_E \<Rightarrow> if is_digit c \<or> c = 0x2b \<or> c = 0x2d then Some VALUE_NUMBER_EPM else None
      | VALUE_NUMBER_EPM \<Rightarrow> if is_digit c then Some VALUE_NUMBER_EPM else None
      | _ \<Rightarrow> None)"

fun num_run :: "json_state \<Rightarrow> octets \<Rightarrow> json_state option" where
  "num_run st [] = Some st"
| "num_run st (c # cs) = (case num_next st c of None \<Rightarrow> None | Some st' \<Rightarrow> num_run st' cs)"

lemma number_digit_byte: "number_digit (ucast c) = is_digit c"
  by (simp add: number_digit_def is_digit_def byte_numeral)

lemma is_digit_zero: "is_digit 0x30"
  by (simp add: is_digit_def)

lemma is_digit_first: "is_digit c \<Longrightarrow> c = 0x30 \<or> 0x31 \<le> c \<and> c \<le> 0x39"
proof -
  assume "is_digit c"
  then have "48 \<le> unat c" "unat c \<le> 57" by (simp_all add: is_digit_def word_le_nat_alt)
  moreover have "c = 0x30" if "unat c = 48" by (rule word_unat_eq_iff [THEN iffD2]) (simp add: that)
  ultimately show ?thesis by (cases "unat c = 48") (auto simp: word_le_nat_alt)
qed

lemma num_next_char:
  assumes "num_next st c = Some st'"
  shows "unat c < 128" "c \<notin> {0x20, 9, 10, 13, 0x2c, 0x7d, 0x5d, 0x5c}"
proof -
  have "is_digit c \<or> c \<in> {0x2d, 0x65, 0x45, 0x2e, 0x2b}"
    using assms by (auto simp: num_next_def is_digit_zero split: json_state.splits if_splits)
  then have "48 \<le> unat c \<and> unat c \<le> 57 \<or> c \<in> {0x2d, 0x65, 0x45, 0x2e, 0x2b}"
    by (auto simp: is_digit_def word_le_nat_alt)
  then show "unat c < 128" "c \<notin> {0x20, 9, 10, 13, 0x2c, 0x7d, 0x5d, 0x5c}" by auto
qed

lemma value_begin_number:
  fixes c :: u8
  assumes "c = 0x30 \<or> 0x31 \<le> c \<and> c \<le> 0x39 \<or> c = 0x2d"
  shows "value_begin (ucast c) r =
    proceed (StringAddChar (ucast c) r) (goto (if c = 0x30 then VALUE_NUMBER_ZERO else VALUE_NUMBER))"
proof -
  have "c \<notin> {0x74, 0x66, 0x6e, 0x22}" using assms by auto
  then show ?thesis using assms by (auto simp: value_begin_def byte_numeral)
qed

lemma step_number:
  assumes "num_next (jr_state r) c = Some st'" "jr_utf8_bytes_remaining r = 0"
  shows "json_step (ucast c) r =
    Continue (r\<lparr>jr_container_just_begun := False, jr_string := jr_string r @ [c], jr_state := st'\<rparr>)"
proof -
  note c = num_next_char [OF assms(1)]
  have "StringAddChar (ucast c) q = Continue (q\<lparr>jr_utf8_bytes_remaining := 0, jr_string := jr_string q @ [c]\<rparr>)"
    if "jr_utf8_bytes_remaining q = 0" for q using add_ascii [OF that, of "ucast c"] c(1) by (simp add: unat_byte)
  note defs = this step_default_def value_literal_def num_next_def value_number_def value_number_with_decimal_def value_number_zero_def
    value_number_dot_def value_number_e_def value_number_epm_def goto_def number_digit_byte byte_numeral
  have "json_step (ucast c) r = step_default (ucast c) r" using c(2) by (rule step_default_other)
  also have "\<dots> = Continue (r\<lparr>jr_container_just_begun := False, jr_string := jr_string r @ [c], jr_state := st'\<rparr>)"
  proof (cases "jr_state r = VALUE_BEGIN")
    case True
    then have c: "c = 0x30 \<or> 0x31 \<le> c \<and> c \<le> 0x39 \<or> c = 0x2d"
        "st' = (if c = 0x30 then VALUE_NUMBER_ZERO else VALUE_NUMBER)"
      using assms(1) is_digit_first [of c] by (auto simp: num_next_def split: if_splits)
    have "step_default (ucast c) r = value_begin (ucast c) (r\<lparr>jr_container_just_begun := False\<rparr>)"
      by (simp add: step_default_def value_literal_def True)
    also have "\<dots> = proceed (StringAddChar (ucast c) (r\<lparr>jr_container_just_begun := False\<rparr>)) (goto st')"
      unfolding c(2) by (rule value_begin_number [OF c(1)])
    finally show ?thesis using assms(2) by (simp add: defs)
  next
    case False
    have "StringAddChar 0x2e q = Continue (q\<lparr>jr_utf8_bytes_remaining := 0, jr_string := jr_string q @ [0x2e]\<rparr>)"
      if "jr_utf8_bytes_remaining q = 0" for q using add_ascii [OF that, of "0x2e"] by simp
    then show ?thesis using assms False by (cases "jr_state r") (auto simp: defs split: if_splits)
  qed
  finally show ?thesis .
qed

lemma feeds_number:
  "num_run (jr_state r) s = Some st \<Longrightarrow> jr_utf8_bytes_remaining r = 0 \<Longrightarrow>
    feeds s r (r\<lparr>jr_string := jr_string r @ s, jr_state := st\<rparr>)"
proof (induction s arbitrary: r)
  case Nil
  then have "r\<lparr>jr_string := jr_string r @ [], jr_state := st\<rparr> = r" by simp
  then show ?case using feeds_nil [of r] by (simp only:)
next
  case (Cons c s)
  then obtain st1 where st1: "num_next (jr_state r) c = Some st1" "num_run st1 s = Some st"
    by (auto split: option.splits)
  let ?r1 = "r\<lparr>jr_string := jr_string r @ [c], jr_state := st1\<rparr>"
  have "feeds [c] r ?r1"
    by (rule feeds_one) (use st1(1) Cons.prems in \<open>simp add: step_number junk_iff\<close>)
  moreover have "feeds s ?r1 (?r1\<lparr>jr_string := jr_string ?r1 @ s, jr_state := st\<rparr>)"
    by (rule Cons.IH) (use st1(2) Cons.prems in simp_all)
  ultimately show ?case using feeds_cons [of c r ?r1 s] by simp
qed

lemma num_run_append: "num_run st (s @ t) = Option.bind (num_run st s) (\<lambda>st'. num_run st' t)"
  by (induction s arbitrary: st) (auto split: option.splits)

lemma num_run_digits:
  "list_all is_digit s \<Longrightarrow> st \<in> {VALUE_NUMBER, VALUE_NUMBER_WITH_DECIMAL, VALUE_NUMBER_EPM} \<Longrightarrow> num_run st s = Some st"
  by (induction s) (auto simp: num_next_def)

lemma num_next_E: "is_digit c \<or> c \<in> {0x2b, 0x2d} \<Longrightarrow> num_next VALUE_NUMBER_E c = Some VALUE_NUMBER_EPM"
  by (auto simp: num_next_def)

lemma num_run_exp:
  assumes "exp_part s" "st \<in> {VALUE_NUMBER, VALUE_NUMBER_WITH_DECIMAL}"
  shows "\<exists>st'\<in>number_end_states. num_run st s = Some st'"
proof (cases "s = []")
  case True
  then show ?thesis using assms(2) by (auto simp: number_end_states_def)
next
  case False
  then have e: "s = hd s # tl s" "hd s = 0x65 \<or> hd s = 0x45" using assms(1) by (auto simp: exp_part_def)
  have "\<not> is_digit 0x65" "\<not> is_digit 0x45" by (simp_all add: is_digit_def)
  then have "num_run st s = num_run VALUE_NUMBER_E (tl s)"
    using assms(2) e(2) by (subst e(1)) (auto simp: num_next_def)
  moreover have "num_run VALUE_NUMBER_E (tl s) = Some VALUE_NUMBER_EPM"
  proof (cases "digits (tl s)")
    case True
    then have "tl s = hd (tl s) # tl (tl s)" "is_digit (hd (tl s))" "list_all is_digit (tl (tl s))"
      by (auto simp: digits_def list_all_iff dest: list.set_sel(2))
    then show ?thesis using num_run_digits by (metis (no_types) num_run.simps(2) num_next_E insertCI option.case(2))
  next
    case False
    then have "tl s \<noteq> []" "hd (tl s) \<in> {0x2b, 0x2d}" "list_all is_digit (tl (tl s))"
      using assms(1) \<open>s \<noteq> []\<close> by (auto simp: exp_part_def digits_def)
    then have "tl s = hd (tl s) # tl (tl s)" "hd (tl s) \<in> {0x2b, 0x2d}" "list_all is_digit (tl (tl s))"
      by simp_all
    then show ?thesis using num_run_digits by (metis (no_types) num_run.simps(2) num_next_E insertCI option.case(2))
  qed
  ultimately show ?thesis by (simp add: number_end_states_def)
qed

lemma num_run_frac:
  assumes "frac_part s" "st \<in> {VALUE_NUMBER, VALUE_NUMBER_ZERO}" "s \<noteq> []"
  shows "num_run st s = Some VALUE_NUMBER_WITH_DECIMAL"
proof -
  have s: "s = 0x2e # tl s" "tl s \<noteq> []" "list_all is_digit (tl s)"
    using assms(1,3) by (cases s; auto simp: frac_part_def digits_def)+
  have "\<not> is_digit 0x2e" by (simp add: is_digit_def)
  then have "num_run st s = num_run VALUE_NUMBER_DOT (tl s)"
    using assms(2) by (subst s(1)) (auto simp: num_next_def)
  also have "\<dots> = num_run VALUE_NUMBER_WITH_DECIMAL (tl (tl s))"
    using s(2,3) by (cases "tl s") (auto simp: num_next_def)
  also have "\<dots> = Some VALUE_NUMBER_WITH_DECIMAL"
    by (rule num_run_digits) (use s(2,3) in \<open>auto simp: list_all_iff dest: list.set_sel(2)\<close>)
  finally show ?thesis .
qed

text \<open>The end of a number after its integer part.\<close>

lemma num_run_tail:
  assumes "frac_part f" "exp_part e" "st = VALUE_NUMBER \<or> st = VALUE_NUMBER_ZERO \<and> (f = [] \<longrightarrow> e = [])"
  shows "\<exists>st'\<in>number_end_states. num_run st (f @ e) = Some st'"
proof (cases "f = []")
  case True
  then show ?thesis using assms num_run_exp [of e st] by (auto simp: number_end_states_def)
next
  case False
  then have "num_run st f = Some VALUE_NUMBER_WITH_DECIMAL" using assms by (intro num_run_frac) auto
  then show ?thesis using num_run_exp [OF assms(2), of VALUE_NUMBER_WITH_DECIMAL] by (auto simp: num_run_append)
qed

lemma num_run_number:
  assumes "json_number s" "\<not> zero_exponent s"
  shows "\<exists>st\<in>number_end_states. num_run VALUE_BEGIN s = Some st"
proof -
  obtain sign i f e where s: "s = sign @ i @ f @ e" "sign \<in> {[], [0x2d]}" and i: "int_part i"
    and fe: "frac_part f" "exp_part e" using assms(1) by (auto simp: json_number_def)
  obtain c cs where i0: "i = c # cs" "is_digit c" "list_all is_digit cs"
    using i by (cases i) (auto simp: int_part_def digits_def is_digit_zero)
  then have tl: "num_run VALUE_NUMBER cs = Some VALUE_NUMBER" by (intro num_run_digits) auto
  show ?thesis
  proof (cases "sign = []")
    case minus: False
    then have "sign = [0x2d]" using s(2) by simp
    moreover have "num_run VALUE_NUMBER i = Some VALUE_NUMBER"
      using i0 tl by (simp add: num_next_def)
    ultimately have "num_run VALUE_BEGIN (sign @ i) = Some VALUE_NUMBER" by (simp add: num_next_def is_digit_def)
    then show ?thesis using num_run_tail [OF fe, of VALUE_NUMBER] s(1) by (simp flip: append_assoc add: num_run_append)
  next
    case True
    show ?thesis
    proof (cases "c = 0x30")
      case zero: True
      then have i: "i = [0x30]" using i i0(1) by (auto simp: int_part_def)
      have "e = []" if "f = []"
        using that assms(2) fe(2) s(1) True i by (cases e) (auto simp: exp_part_def zero_exponent_def)
      then show ?thesis using num_run_tail [OF fe, of VALUE_NUMBER_ZERO] s(1) True i by (simp add: num_next_def)
    next
      case False
      then have "num_run VALUE_BEGIN i = Some VALUE_NUMBER" using i0 tl by (simp add: num_next_def)
      then show ?thesis using num_run_tail [OF fe, of VALUE_NUMBER] s(1) True by (simp add: num_run_append)
    qed
  qed
qed

section \<open>Values\<close>

text \<open>
  The place of a value: \<open>placed v stack k j\<close> is the root after the value \<open>j\<close> has been read
  in the container on top of the stack, with \<open>k\<close> the last key.
\<close>

definition has_place :: "json \<Rightarrow> json_ptr list \<Rightarrow> octets \<Rightarrow> bool" where
  "has_place v stack k \<longleftrightarrow>
     (case stack of
        [] \<Rightarrow> v = JSON_NULL
      | q # _ \<Rightarrow> (case json_at q v of Some (OBJECT m) \<Rightarrow> map_of m k = None | Some (ARRAY xs) \<Rightarrow> True | _ \<Rightarrow> False))"

definition placed :: "json \<Rightarrow> json_ptr list \<Rightarrow> octets \<Rightarrow> json \<Rightarrow> json" where
  "placed v stack k j =
     (case stack of
        [] \<Rightarrow> j
      | q # _ \<Rightarrow> json_upd q (\<lambda>_. case json_at q v of
            Some (OBJECT m) \<Rightarrow> OBJECT (object_put k j m)
          | Some (ARRAY xs) \<Rightarrow> ARRAY (xs @ [j])
          | _ \<Rightarrow> JSON_NULL) v)"

lemma object_slot_put:
  "map_of m k = None \<Longrightarrow>
    map (\<lambda>(k', v). (k', if k' = k then f v else v)) (object_slot k m) = object_put k (f JSON_NULL) m"
proof (induction m)
  case (Cons a m)
  obtain k' v where a: "a = (k', v)" by (cases a)
  have same: "map (\<lambda>(k', v). (k', if k' = k then f v else v)) m = m" if "k \<notin> fst ` set m"
    using that by (intro map_idI) (auto simp: image_iff)
  have "k \<notin> fst ` set m" "k \<noteq> k'" using Cons.prems by (auto simp: a map_of_eq_None_iff split: if_splits)
  then show ?case using Cons same by (auto simp: a)
qed simp

lemma map_of_object_slot: "map_of m k = None \<Longrightarrow> map_of (object_slot k m) k = Some JSON_NULL"
  by (induction m) (auto split: if_splits)

lemma object_slot_null: "map_of m k = None \<Longrightarrow> object_slot k m = object_put k JSON_NULL m"
proof (induction m)
  case (Cons a m)
  obtain k' v where "a = (k', v)" by (cases a)
  moreover from this have "k \<noteq> k'" "map_of m k = None" using Cons.prems by (auto split: if_splits)
  ultimately show ?case using Cons.IH by simp
qed simp

lemma link_value:
  assumes "at st v stack s r" "has_place v stack (jr_key r)"
  obtains p v1 where "CreateAndLinkValue r = Some (p, r\<lparr>jr_root_value := v1\<rparr>)"
    "\<And>j. json_upd p (\<lambda>_. j) v1 = placed v stack (jr_key r) j" "json_at p v1 = Some JSON_NULL"
    "v1 = placed v stack (jr_key r) JSON_NULL"
proof (cases stack)
  case Nil
  then show thesis using assms
    by (intro that [of "[]" v]) (simp_all add: CreateAndLinkValue_def at_def has_place_def placed_def)
next
  case (Cons q stk)
  then consider m where "json_at q v = Some (OBJECT m)" "map_of m (jr_key r) = None"
    | xs where "json_at q v = Some (ARRAY xs)"
    using assms(2) by (auto simp: has_place_def split: option.splits json.splits)
  then show thesis
  proof cases
    case 1
    let ?k = "jr_key r"
    let ?v = "json_upd q (\<lambda>_. OBJECT (object_slot ?k m)) v"
    have "json_upd (q @ [Member ?k]) f ?v = json_upd q (\<lambda>_. OBJECT (object_put ?k (f JSON_NULL) m)) v" for f
      by (simp add: json_upd_append json_upd_twice object_slot_put 1)
    moreover have "json_at (q @ [Member ?k]) ?v = Some JSON_NULL"
      by (simp add: json_at_append json_at_upd 1 map_of_object_slot)
    ultimately show thesis
      using assms(1) 1 Cons
      by (intro that [of "q @ [Member ?k]" ?v]) (simp_all add: CreateAndLinkValue_def at_def placed_def object_slot_null)
  next
    case 2
    let ?v = "json_upd q (\<lambda>_. ARRAY (xs @ [JSON_NULL])) v"
    have "json_upd (q @ [Element (length xs)]) f ?v = json_upd q (\<lambda>_. ARRAY (xs @ [f JSON_NULL])) v" for f
      by (simp add: json_upd_append json_upd_twice)
    moreover have "json_at (q @ [Element (length xs)]) ?v = Some JSON_NULL"
      by (simp add: json_at_append json_at_upd 2)
    ultimately show thesis
      using assms(1) 2 Cons
      by (intro that [of "q @ [Element (length xs)]" ?v]) (simp_all add: CreateAndLinkValue_def at_def placed_def)
  qed
qed

lemma set_scalar:
  assumes "at st v stack s r" "has_place v stack (jr_key r)"
  shows "\<exists>r'. SetString r = Continue r' \<and> at st (placed v stack (jr_key r) (STRING s)) stack [] r'"
    "\<exists>r'. SetNumber r = Continue r' \<and> at st (placed v stack (jr_key r) (NUMBER s)) stack [] r'"
    "\<exists>r'. SetTrue r = Continue r' \<and> at st (placed v stack (jr_key r) JSON_TRUE) stack [] r'"
    "\<exists>r'. SetFalse r = Continue r' \<and> at st (placed v stack (jr_key r) JSON_FALSE) stack [] r'"
proof -
  obtain p v1 where p: "CreateAndLinkValue r = Some (p, r\<lparr>jr_root_value := v1\<rparr>)"
      "\<And>j. json_upd p (\<lambda>_. j) v1 = placed v stack (jr_key r) j" using link_value [OF assms] by metis
  show "\<exists>r'. SetString r = Continue r' \<and> at st (placed v stack (jr_key r) (STRING s)) stack [] r'"
    "\<exists>r'. SetNumber r = Continue r' \<and> at st (placed v stack (jr_key r) (NUMBER s)) stack [] r'"
    "\<exists>r'. SetTrue r = Continue r' \<and> at st (placed v stack (jr_key r) JSON_TRUE) stack [] r'"
    "\<exists>r'. SetFalse r = Continue r' \<and> at st (placed v stack (jr_key r) JSON_FALSE) stack [] r'"
    using assms(1)
    by (simp_all add: SetString_def SetNumber_def SetTrue_def SetFalse_def p assign_value_def at_def)
qed


lemma set_null:
  assumes "at st v stack [] r" "has_place v stack (jr_key r)"
  shows "\<exists>r'. SetNull r = Continue r' \<and> at st (placed v stack (jr_key r) JSON_NULL) stack [] r'"
proof -
  obtain p v1 where "CreateAndLinkValue r = Some (p, r\<lparr>jr_root_value := v1\<rparr>)"
      "v1 = placed v stack (jr_key r) JSON_NULL" using link_value [OF assms] by metis
  then show ?thesis using assms(1) by (simp add: SetNull_def at_def)
qed

text \<open>
  \<open>has_read j v stack k r\<close>: the text of \<open>j\<close> has been read in the place for the key \<open>k\<close>; a number is
  only set when its end is seen.
\<close>

definition closed_state :: "json_ptr list \<Rightarrow> json_state" where
  "closed_state stack = (if stack = [] then STATE_END else VALUE_END)"

definition has_read :: "json \<Rightarrow> json \<Rightarrow> json_ptr list \<Rightarrow> octets \<Rightarrow> json_reader \<Rightarrow> bool" where
  "has_read j v stack k r \<longleftrightarrow>
     (\<exists>st. (st = VALUE_END \<or> stack = [] \<and> st = STATE_END) \<and> at st (placed v stack k j) stack [] r) \<or>
     (\<exists>n st. j = NUMBER n \<and> st \<in> number_end_states \<and> at st v stack n r \<and> jr_key r = k \<and> has_place v stack k)"

lemma set_number:
  assumes "at st v stack n r" "has_place v stack (jr_key r)"
  shows "\<exists>r'. SetNumber r = Continue r' \<and> at st (placed v stack (jr_key r) (NUMBER n)) stack [] r'"
proof -
  obtain p v1 where p: "CreateAndLinkValue r = Some (p, r\<lparr>jr_root_value := v1\<rparr>)"
      "\<And>j. json_upd p (\<lambda>_. j) v1 = placed v stack (jr_key r) j" using link_value [OF assms] by metis
  then show ?thesis using assms(1) by (simp add: SetNumber_def p assign_value_def at_def)
qed

lemma step_blank:
  assumes "b \<in> {0x20, 9, 10, 13}"
  shows "json_step (ucast (b :: u8)) r = step_whitespace (ucast b) r"
  using assms by (auto simp: json_step_def GRPC_JSON_READ_CHAR_EOF_def)

lemma feed_blank:
  "blank w \<Longrightarrow> jr_state r \<in> {OBJECT_KEY_BEGIN, OBJECT_KEY_END, VALUE_BEGIN, VALUE_END, STATE_END} \<Longrightarrow>
    feed w r = Continue (r\<lparr>jr_index := jr_index r + length w\<rparr>)"
proof (induction w arbitrary: r)
  case (Cons b w)
  have b: "b \<in> {0x20, 9, 10, 13}" "blank w" using Cons.prems(1) by (auto simp: blank_def)
  have "json_step (ucast b) (r\<lparr>jr_index := jr_index r + 1\<rparr>) = Continue (r\<lparr>jr_index := jr_index r + 1\<rparr>)"
    unfolding step_blank [OF b(1)] using Cons.prems(2) by (auto simp: step_whitespace_def)
  then show ?case using Cons.IH [OF b(2), of "r\<lparr>jr_index := jr_index r + 1\<rparr>"] Cons.prems(2) by simp
qed simp

lemma at_blank:
  assumes "blank w" "at st v stack s r" "st \<in> {OBJECT_KEY_BEGIN, OBJECT_KEY_END, VALUE_BEGIN, VALUE_END, STATE_END}"
  shows "\<exists>r'. feed w r = Continue r' \<and> at st v stack s r' \<and> jr_key r' = jr_key r \<and>
    jr_container_just_begun r' = jr_container_just_begun r"
  using feed_blank [OF assms(1), of r] assms(2,3) by (auto simp: at_def)

lemma has_read_blank:
  assumes "blank w" "has_read j v stack k r"
  shows "\<exists>r'. feed w r = Continue r' \<and> has_read j v stack k r'"
proof (cases w)
  case (Cons b w')
  have b: "b \<in> {0x20, 9, 10, 13}" "blank w'" using assms(1) Cons by (auto simp: blank_def)
  show ?thesis
  proof (cases "\<exists>st. (st = VALUE_END \<or> stack = [] \<and> st = STATE_END) \<and> at st (placed v stack k j) stack [] r")
    case True
    then show ?thesis using at_blank [OF assms(1)] unfolding has_read_def by blast
  next
    case False
    then obtain n st where n: "j = NUMBER n" "st \<in> number_end_states" "at st v stack n r" "jr_key r = k" "has_place v stack k"
      using assms(2) unfolding has_read_def by blast
    let ?r = "r\<lparr>jr_index := jr_index r + 1\<rparr>"
    obtain r1 where r1: "SetNumber ?r = Continue r1" "at st (placed v stack k j) stack [] r1"
      using set_number [of st v stack n ?r] n by auto
    have "json_step (ucast b) ?r = goto VALUE_END r1"
      unfolding step_blank [OF b(1)] using n(2,3) r1(1)
      by (auto simp: step_whitespace_def at_def number_end_states_def)
    moreover have "at VALUE_END (placed v stack k j) stack [] (r1\<lparr>jr_state := VALUE_END\<rparr>)"
      using r1(2) by (simp add: at_def)
    ultimately show ?thesis using at_blank [OF b(2)] unfolding has_read_def Cons
      by (auto simp: goto_def) blast
  qed
qed (use assms in simp)

text \<open>The delimiter after a value in a container.\<close>

definition fits :: "u8 \<Rightarrow> json_kind \<Rightarrow> bool" where
  "fits c t \<longleftrightarrow> c = 0x2c \<or> c = 0x5d \<and> t = T_ARRAY \<or> c = 0x7d \<and> t = T_OBJECT"

lemma has_read_delimiter:
  assumes "has_read j v (q # stk) k r" "json_at q v = Some w" "fits c (json_type w)"
  shows "\<exists>r'. feed [c] r = end_or_next (ucast c) r' \<and> at VALUE_END (placed v (q # stk) k j) (q # stk) [] r'"
proof -
  have c: "(ucast c :: u32) \<in> {0x2c, 0x5d, 0x7d}" using assms(3) by (auto simp: fits_def)
  then have step: "json_step (ucast c) x = step_delimiter (ucast c) x" for x
    by (auto simp: json_step_def GRPC_JSON_READ_CHAR_EOF_def)
  let ?r = "r\<lparr>jr_index := jr_index r + 1\<rparr>"
  have f: "feed [c] r = json_step (ucast c) ?r" by (simp add: feed_nil proceed_Continue)
  show ?thesis
  proof (cases "at VALUE_END (placed v (q # stk) k j) (q # stk) [] r")
    case True
    then have "feed [c] r = end_or_next (ucast c) ?r" unfolding f step
      by (simp add: step_delimiter_def at_def number_end_states_def)
    then show ?thesis using True by auto
  next
    case False
    then obtain n st where n: "j = NUMBER n" "st \<in> number_end_states" "at st v (q # stk) n r" "jr_key r = k"
        "has_place v (q # stk) k" using assms(1) unfolding has_read_def by blast
    obtain r1 where r1: "SetNumber ?r = Continue r1" "at st (placed v (q # stk) k j) (q # stk) [] r1"
      using set_number [of st v "q # stk" n ?r] n by auto
    have "back_type ?r = Some (json_type w)" using n(3) assms(2) by (simp add: at_def back_type_def)
    then have "step_delimiter (ucast c) ?r = end_or_next (ucast c) (r1\<lparr>jr_state := VALUE_END\<rparr>)"
      using n(2,3) r1(1) assms(3)
      by (auto simp: step_delimiter_def at_def number_end_states_def fits_def byte_numeral)
    then show ?thesis using r1(2) unfolding f step by (intro exI conjI) (auto simp: at_def)
  qed
qed

lemma json_step_other:
  "c \<notin> {0x20, 9, 10, 13, 0x2c, 0x7d, 0x5d, 0x5c, 0x7ffffff0} \<Longrightarrow> json_step c r = step_default c r"
  by (simp add: json_step_def GRPC_JSON_READ_CHAR_EOF_def)

lemma at_state: "at st v stack s (r\<lparr>jr_state := st'\<rparr>) \<longleftrightarrow> st = st' \<and> at (jr_state r) v stack s r"
  by (auto simp: at_def)

lemma at_of_junk: "junk r r' \<Longrightarrow> at st v stack s r' = at st v stack s r"
  by (simp add: at_def junkD)

lemma feeds_one_state:
  assumes "\<And>r'. jr_state r' = jr_state r \<Longrightarrow>
    json_step (ucast c) r' = Continue (r'\<lparr>jr_container_just_begun := False, jr_state := st\<rparr>)"
  shows "feeds [c] r (r\<lparr>jr_state := st\<rparr>)"
  by (rule feeds_one) (simp add: assms junk_iff)

lemma feeds_letters:
  assumes "jr_state r = VALUE_BEGIN"
  shows "feeds [0x74, 0x72, 0x75] r (r\<lparr>jr_state := VALUE_TRUE_E\<rparr>)"
    "feeds [0x66, 0x61, 0x6c, 0x73] r (r\<lparr>jr_state := VALUE_FALSE_E\<rparr>)"
    "feeds [0x6e, 0x75, 0x6c] r (r\<lparr>jr_state := VALUE_NULL_L2\<rparr>)"
proof -
  note walk = json_step_other step_default_def value_literal_def value_begin_def letter_def goto_def
  have 1: "feeds [c] (r\<lparr>jr_state := st\<rparr>) (r\<lparr>jr_state := st'\<rparr>)"
    if "(st, c, st') \<in> {(VALUE_BEGIN, 0x74, VALUE_TRUE_R), (VALUE_TRUE_R, 0x72, VALUE_TRUE_U),
      (VALUE_TRUE_U, 0x75, VALUE_TRUE_E), (VALUE_BEGIN, 0x66, VALUE_FALSE_A), (VALUE_FALSE_A, 0x61, VALUE_FALSE_L),
      (VALUE_FALSE_L, 0x6c, VALUE_FALSE_S), (VALUE_FALSE_S, 0x73, VALUE_FALSE_E), (VALUE_BEGIN, 0x6e, VALUE_NULL_U),
      (VALUE_NULL_U, 0x75, VALUE_NULL_L1), (VALUE_NULL_L1, 0x6c, VALUE_NULL_L2)}" for st c st'
    using feeds_one_state [of "r\<lparr>jr_state := st\<rparr>" c st'] that by (auto simp: walk)
  have r: "r\<lparr>jr_state := VALUE_BEGIN\<rparr> = r" using assms by simp
  let ?at = "\<lambda>st. r\<lparr>jr_state := st\<rparr>"
  have t: "feeds [0x74] (?at VALUE_BEGIN) (?at VALUE_TRUE_R)" "feeds [0x72] (?at VALUE_TRUE_R) (?at VALUE_TRUE_U)"
    "feeds [0x75] (?at VALUE_TRUE_U) (?at VALUE_TRUE_E)" by (rule 1, simp)+
  show "feeds [0x74, 0x72, 0x75] r (?at VALUE_TRUE_E)"
    by (rule feeds_cons [OF t(1) [unfolded r] feeds_cons [OF t(2,3)]])
  have f: "feeds [0x66] (?at VALUE_BEGIN) (?at VALUE_FALSE_A)" "feeds [0x61] (?at VALUE_FALSE_A) (?at VALUE_FALSE_L)"
    "feeds [0x6c] (?at VALUE_FALSE_L) (?at VALUE_FALSE_S)" "feeds [0x73] (?at VALUE_FALSE_S) (?at VALUE_FALSE_E)"
    by (rule 1, simp)+
  show "feeds [0x66, 0x61, 0x6c, 0x73] r (?at VALUE_FALSE_E)"
    by (rule feeds_cons [OF f(1) [unfolded r] feeds_cons [OF f(2) feeds_cons [OF f(3,4)]]])
  have n: "feeds [0x6e] (?at VALUE_BEGIN) (?at VALUE_NULL_U)" "feeds [0x75] (?at VALUE_NULL_U) (?at VALUE_NULL_L1)"
    "feeds [0x6c] (?at VALUE_NULL_L1) (?at VALUE_NULL_L2)" by (rule 1, simp)+
  show "feeds [0x6e, 0x75, 0x6c] r (?at VALUE_NULL_L2)"
    by (rule feeds_cons [OF n(1) [unfolded r] feeds_cons [OF n(2,3)]])
qed

lemma feedsD:
  assumes "feeds s r r'"
  obtains r2 where "feed s r = Continue r2" "junk r' r2"
  using assms junk_refl [of r] unfolding feeds_def by blast

lemma read_literal:
  assumes "at VALUE_BEGIN v stack [] r" "has_place v stack (jr_key r)"
  shows "\<exists>r'. feed [0x74, 0x72, 0x75, 0x65] r = Continue r' \<and> has_read JSON_TRUE v stack (jr_key r) r'"
    "\<exists>r'. feed [0x66, 0x61, 0x6c, 0x73, 0x65] r = Continue r' \<and> has_read JSON_FALSE v stack (jr_key r) r'"
    "\<exists>r'. feed [0x6e, 0x75, 0x6c, 0x6c] r = Continue r' \<and> has_read JSON_NULL v stack (jr_key r) r'"
proof -
  have st: "jr_state r = VALUE_BEGIN" using assms(1) by (simp add: at_def)
  have final: "\<exists>r'. feed (s @ [c]) r = Continue r' \<and> has_read j v stack (jr_key r) r'"
    if fs: "feeds s r (r\<lparr>jr_state := st\<rparr>)" and
      step: "\<And>x. jr_state x = st \<Longrightarrow> json_step (ucast c) x = proceed (f (x\<lparr>jr_container_just_begun := False\<rparr>)) (goto VALUE_END)" and
      f: "\<And>x. at st v stack [] x \<Longrightarrow> jr_key x = jr_key r \<Longrightarrow>
        \<exists>r'. f x = Continue r' \<and> at st (placed v stack (jr_key r) j) stack [] r'" for s c st f j
  proof -
    obtain r2 where r2: "feed s r = Continue r2" "junk (r\<lparr>jr_state := st\<rparr>) r2" using feedsD [OF fs] by metis
    let ?x = "r2\<lparr>jr_index := jr_index r2 + 1, jr_container_just_begun := False\<rparr>"
    have "at st v stack [] ?x" "jr_key ?x = jr_key r" "jr_state r2 = st"
      using r2(2) assms(1) by (simp_all add: at_of_junk at_state junkD st)
    then obtain r3 where r3: "f ?x = Continue r3" "at st (placed v stack (jr_key r) j) stack [] r3" using f by blast
    have "feed (s @ [c]) r = goto VALUE_END r3"
      using r3(1) \<open>jr_state r2 = st\<close> by (simp add: feed_append r2(1) feed_nil proceed_Continue step)
    moreover have "at VALUE_END (placed v stack (jr_key r) j) stack [] (r3\<lparr>jr_state := VALUE_END\<rparr>)"
      using r3(2) by (simp add: at_def)
    ultimately show ?thesis by (auto simp: goto_def has_read_def)
  qed
  have step: "jr_state x = VALUE_TRUE_E \<Longrightarrow> json_step 0x65 x = proceed (SetTrue (x\<lparr>jr_container_just_begun := False\<rparr>)) (goto VALUE_END)"
    "jr_state x = VALUE_FALSE_E \<Longrightarrow> json_step 0x65 x = proceed (SetFalse (x\<lparr>jr_container_just_begun := False\<rparr>)) (goto VALUE_END)"
    "jr_state x = VALUE_NULL_L2 \<Longrightarrow> json_step 0x6c x = proceed (SetNull (x\<lparr>jr_container_just_begun := False\<rparr>)) (goto VALUE_END)"
    for x by (simp_all add: json_step_other step_default_def value_literal_def)
  show "\<exists>r'. feed [0x74, 0x72, 0x75, 0x65] r = Continue r' \<and> has_read JSON_TRUE v stack (jr_key r) r'"
    using final [OF feeds_letters(1) [OF st], where c = "0x65" and f = SetTrue and j = JSON_TRUE] step(1) set_scalar(3) assms(2) by fastforce
  show "\<exists>r'. feed [0x66, 0x61, 0x6c, 0x73, 0x65] r = Continue r' \<and> has_read JSON_FALSE v stack (jr_key r) r'"
    using final [OF feeds_letters(2) [OF st], where c = "0x65" and f = SetFalse and j = JSON_FALSE] step(2) set_scalar(4) assms(2) by fastforce
  show "\<exists>r'. feed [0x6e, 0x75, 0x6c, 0x6c] r = Continue r' \<and> has_read JSON_NULL v stack (jr_key r) r'"
    using final [OF feeds_letters(3) [OF st], where c = "0x6c" and f = SetNull and j = JSON_NULL] step(3) set_null assms(2) by fastforce
qed

lemma read_number:
  assumes "at VALUE_BEGIN v stack [] r" "has_place v stack (jr_key r)" "json_number s" "\<not> zero_exponent s"
  shows "\<exists>r'. feed s r = Continue r' \<and> has_read (NUMBER s) v stack (jr_key r) r'"
proof -
  obtain st where st: "st \<in> number_end_states" "num_run VALUE_BEGIN s = Some st"
    using num_run_number [OF assms(3,4)] by blast
  have "jr_state r = VALUE_BEGIN" "jr_utf8_bytes_remaining r = 0" using assms(1) by (simp_all add: at_def)
  then have "feeds s r (r\<lparr>jr_string := jr_string r @ s, jr_state := st\<rparr>)" using st(2) by (intro feeds_number) simp_all
  then obtain r2 where r2: "feed s r = Continue r2" "junk (r\<lparr>jr_string := jr_string r @ s, jr_state := st\<rparr>) r2"
    by (rule feedsD)
  then have "at st v stack s r2" "jr_key r2 = jr_key r" using assms(1) by (simp_all add: at_def junk_iff)
  then have "has_read (NUMBER s) v stack (jr_key r) r2" using st(1) assms(2) unfolding has_read_def by metis
  then show ?thesis using r2(1) by blast
qed

text \<open>A quoted string from the opening quote to just before the closing one.\<close>

lemma feed_quoted:
  assumes "jr_state r = VALUE_BEGIN \<and> st = VALUE_STRING \<or> jr_state r = OBJECT_KEY_BEGIN \<and> st = OBJECT_KEY_STRING"
    "at (jr_state r) v stack [] r" "str_text s bs"
  shows "\<exists>r2. feed (0x22 # s) r = Continue r2 \<and> at st v stack bs r2 \<and> jr_key r2 = jr_key r"
proof -
  have "feeds [0x22] r (r\<lparr>jr_state := st\<rparr>)"
    by (rule feeds_one_state) (use assms(1) in \<open>auto simp: json_step_other step_default_def value_literal_def value_begin_def letter_def goto_def\<close>)
  moreover have "feeds s (r\<lparr>jr_state := st\<rparr>) (r\<lparr>jr_state := st, jr_string := [] @ bs\<rparr>)"
    using feeds_str [OF assms(3), of "r\<lparr>jr_state := st\<rparr>"] assms(1,2) by (auto simp: in_string_def at_def)
  ultimately obtain r2 where "feed (0x22 # s) r = Continue r2" "junk (r\<lparr>jr_state := st, jr_string := bs\<rparr>) r2"
    using feedsD [OF feeds_cons] by (metis append_Nil)
  then show ?thesis using assms(2) by (auto simp: at_def junk_iff)
qed

lemma read_string:
  assumes "at VALUE_BEGIN v stack [] r" "has_place v stack (jr_key r)" "str_text s bs"
  shows "\<exists>r'. feed (0x22 # s @ [0x22]) r = Continue r' \<and> has_read (STRING bs) v stack (jr_key r) r'"
proof -
  have st: "jr_state r = VALUE_BEGIN" using assms(1) by (simp add: at_def)
  obtain r2 where r2: "feed (0x22 # s) r = Continue r2" "at VALUE_STRING v stack bs r2" "jr_key r2 = jr_key r"
    using feed_quoted [of r VALUE_STRING v stack s bs] assms st by auto
  let ?x = "r2\<lparr>jr_index := Suc (jr_index r2), jr_container_just_begun := False, jr_state := VALUE_END\<rparr>"
  have x: "at VALUE_END v stack bs ?x" using r2(2) by (simp add: at_def)
  then obtain p v1 where p: "CreateAndLinkValue ?x = Some (p, ?x\<lparr>jr_root_value := v1\<rparr>)"
      "\<And>j. json_upd p (\<lambda>_. j) v1 = placed v stack (jr_key r) j"
    using link_value [OF x] assms(2) r2(3) by (simp, metis)
  have "json_step 0x22 (r2\<lparr>jr_index := jr_index r2 + 1\<rparr>) = SetString ?x"
    using r2(2) by (simp add: json_step_other step_default_def value_literal_def value_string_def at_def)
  moreover have "SetString ?x = Continue ((?x\<lparr>jr_root_value := placed v stack (jr_key r) (STRING bs)\<rparr>)\<lparr>jr_string := []\<rparr>)"
    using x by (simp add: SetString_def p assign_value_def at_def)
  ultimately have "feed (0x22 # s @ [0x22]) r =
      Continue ((?x\<lparr>jr_root_value := placed v stack (jr_key r) (STRING bs)\<rparr>)\<lparr>jr_string := []\<rparr>)"
    using feed_trans [OF r2(1), of "[0x22]"] by (simp add: feed_nil proceed_Continue)
  then show ?thesis using x by (auto simp: has_read_def at_def)
qed

lemma read_key:
  assumes "at OBJECT_KEY_BEGIN v stack [] r" "str_text s bs"
  shows "\<exists>r'. feed (0x22 # s @ [0x22]) r = Continue r' \<and> at OBJECT_KEY_END v stack [] r' \<and> jr_key r' = bs"
proof -
  have st: "jr_state r = OBJECT_KEY_BEGIN" using assms(1) by (simp add: at_def)
  obtain r2 where r2: "feed (0x22 # s) r = Continue r2" "at OBJECT_KEY_STRING v stack bs r2"
    using feed_quoted [of r OBJECT_KEY_STRING v stack s bs] assms st by auto
  let ?x = "r2\<lparr>jr_index := Suc (jr_index r2), jr_container_just_begun := False, jr_state := OBJECT_KEY_END\<rparr>"
  have "json_step 0x22 (r2\<lparr>jr_index := jr_index r2 + 1\<rparr>) = Continue (SetKey ?x)"
    using r2(2) by (simp add: json_step_other step_default_def value_literal_def key_string_def at_def)
  then have "feed (0x22 # s @ [0x22]) r = Continue (SetKey ?x)"
    using feed_trans [OF r2(1), of "[0x22]"] by (simp add: feed_nil proceed_Continue)
  then show ?thesis using r2(2) by (auto simp: SetKey_def at_def)
qed

lemma feed_open:
  assumes "at VALUE_BEGIN v stack [] r" "has_place v stack (jr_key r)" "length stack < 255"
    "c = 0x5b \<and> st = VALUE_BEGIN \<and> e = ARRAY [] \<or> c = 0x7b \<and> st = OBJECT_KEY_BEGIN \<and> e = OBJECT []"
  shows "\<exists>r' p v'. feed [c] r = Continue r' \<and> at st v' (p # stack) [] r' \<and> jr_container_just_begun r' \<and>
    json_at p v' = Some e \<and> (\<forall>j. json_upd p (\<lambda>_. j) v' = placed v stack (jr_key r) j) \<and>
    v' = placed v stack (jr_key r) e"
proof -
  let ?x = "r\<lparr>jr_index := Suc (jr_index r), jr_container_just_begun := True\<rparr>"
  have x: "at VALUE_BEGIN v stack [] ?x" using assms(1) by (simp add: at_def)
  then obtain p v1 where p: "CreateAndLinkValue ?x = Some (p, ?x\<lparr>jr_root_value := v1\<rparr>)"
      "\<And>j. json_upd p (\<lambda>_. j) v1 = placed v stack (jr_key r) j" "json_at p v1 = Some JSON_NULL"
    using link_value [OF x] assms(2) by (simp, metis)
  let ?v = "json_upd p (\<lambda>_. e) v1"
  let ?r = "?x\<lparr>jr_root_value := ?v, jr_stack := p # stack\<rparr>"
  have "StartContainer e ?x = Continue ?r"
    using x assms(3) by (simp add: StartContainer_def p(1) GRPC_JSON_MAX_DEPTH_def assign_value_def at_def)
  then have "feed [c] r = Continue (?r\<lparr>jr_state := st\<rparr>)"
    using assms(4) x
    by (auto simp: feed_nil proceed_Continue json_step_other step_default_def value_literal_def value_begin_def goto_def at_def)
  moreover have "at st ?v (p # stack) [] (?r\<lparr>jr_state := st\<rparr>)" using x by (simp add: at_def)
  moreover have "json_at p ?v = Some e" by (simp add: json_at_upd p(3))
  moreover have "json_upd p (\<lambda>_. j) ?v = placed v stack (jr_key r) j" for j
    unfolding json_upd_twice by (rule p(2))
  moreover have "?v = placed v stack (jr_key r) e" by (rule p(2))
  ultimately show ?thesis by (intro exI [of _ "?r\<lparr>jr_state := st\<rparr>"] exI [of _ p] exI [of _ ?v]) simp
qed

lemma close_container:
  assumes "at st v (p # stack) [] r" "json_at p v = Some w"
    "c = 0x5d \<and> json_type w = T_ARRAY \<and> (st = VALUE_END \<or> st = VALUE_BEGIN \<and> jr_container_just_begun r) \<or>
     c = 0x7d \<and> json_type w = T_OBJECT \<and> (st = VALUE_END \<or> st = OBJECT_KEY_BEGIN \<and> jr_container_just_begun r)"
  shows "\<exists>r'. end_or_next c r = Continue r' \<and> at (closed_state stack) v stack [] r'"
  using assms by (auto simp: end_or_next_def at_def back_type_def EndContainer_def goto_def closed_state_def)

lemma next_in_container:
  assumes "at VALUE_END v (p # stack) [] r" "json_at p v = Some w"
    "json_type w = T_ARRAY \<and> st = VALUE_BEGIN \<or> json_type w = T_OBJECT \<and> st = OBJECT_KEY_BEGIN"
  shows "\<exists>r'. end_or_next 0x2c r = Continue r' \<and> at st v (p # stack) [] r'"
  using assms by (auto simp: end_or_next_def at_def back_type_def goto_def)

section \<open>Documents\<close>

definition reads_value :: "nat \<Rightarrow> octets \<Rightarrow> json \<Rightarrow> bool" where
  "reads_value d t j \<longleftrightarrow> (\<forall>v stack r. at VALUE_BEGIN v stack [] r \<longrightarrow> has_place v stack (jr_key r) \<longrightarrow>
     length stack + d \<le> 255 \<longrightarrow> (\<exists>r'. feed t r = Continue r' \<and> has_read j v stack (jr_key r) r'))"

definition reads_elements :: "nat \<Rightarrow> octets \<Rightarrow> json list \<Rightarrow> bool" where
  "reads_elements d t js \<longleftrightarrow> (\<forall>v p stack xs r. at VALUE_BEGIN v (p # stack) [] r \<longrightarrow>
     json_at p v = Some (ARRAY xs) \<longrightarrow> Suc (length stack) + d \<le> 255 \<longrightarrow>
     (\<exists>r'. feed (t @ [0x5d]) r = Continue r' \<and>
       at (closed_state stack) (json_upd p (\<lambda>_. ARRAY (xs @ js)) v) stack [] r'))"

definition reads_members :: "nat \<Rightarrow> octets \<Rightarrow> (octets \<times> json) list \<Rightarrow> bool" where
  "reads_members d t kvs \<longleftrightarrow> (\<forall>v p stack m r. at OBJECT_KEY_BEGIN v (p # stack) [] r \<longrightarrow>
     json_at p v = Some (OBJECT m) \<longrightarrow> distinct (map fst kvs) \<longrightarrow> (\<forall>k\<in>fst ` set kvs. map_of m k = None) \<longrightarrow>
     Suc (length stack) + d \<le> 255 \<longrightarrow>
     (\<exists>r'. feed (t @ [0x7d]) r = Continue r' \<and>
       at (closed_state stack) (json_upd p (\<lambda>_. OBJECT (object_of m kvs)) v) stack [] r'))"

lemma reads_valueD:
  assumes "reads_value d t j" "at VALUE_BEGIN v stack [] r" "has_place v stack (jr_key r)" "length stack + d \<le> 255"
  obtains r' where "feed t r = Continue r'" "has_read j v stack (jr_key r) r'"
  using assms unfolding reads_value_def by blast

text \<open>A value in a container with the blanks around it.\<close>

lemma read_padded:
  assumes "reads_value d t j" "blank w1" "blank w2" "at VALUE_BEGIN v stack [] r"
    "has_place v stack (jr_key r)" "length stack + d \<le> 255"
  shows "\<exists>r'. feed (w1 @ t @ w2) r = Continue r' \<and> has_read j v stack (jr_key r) r'"
proof -
  obtain r1 where r1: "feed w1 r = Continue r1" "at VALUE_BEGIN v stack [] r1" "jr_key r1 = jr_key r"
    using at_blank [OF assms(2,4)] by auto
  obtain r2 where r2: "feed t r1 = Continue r2" "has_read j v stack (jr_key r) r2"
    using reads_valueD [OF assms(1) r1(2)] assms(5,6) r1(3) by metis
  obtain r3 where "feed w2 r2 = Continue r3" "has_read j v stack (jr_key r) r3"
    using has_read_blank [OF assms(3) r2(2)] by blast
  then show ?thesis using r1(1) r2(1) by (simp add: feed_append)
qed

lemma reads_element:
  assumes "reads_value d t j" "blank w1" "blank w2" "at VALUE_BEGIN v (p # stack) [] r"
    "json_at p v = Some (ARRAY xs)" "Suc (length stack) + d \<le> 255" "c = 0x5d \<or> c = 0x2c"
  shows "\<exists>r'. feed (w1 @ t @ w2 @ [c]) r = end_or_next (ucast c) r' \<and>
    at VALUE_END (json_upd p (\<lambda>_. ARRAY (xs @ [j])) v) (p # stack) [] r'"
proof -
  have place: "has_place v (p # stack) (jr_key r)" using assms(5) by (simp add: has_place_def)
  obtain r1 where r1: "feed (w1 @ t @ w2) r = Continue r1" "has_read j v (p # stack) (jr_key r) r1"
    using read_padded [OF assms(1-4) place] assms(6) by auto
  have "fits c (json_type (ARRAY xs))" using assms(7) by (auto simp: fits_def)
  then obtain r2 where "feed [c] r1 = end_or_next (ucast c) r2"
      "at VALUE_END (placed v (p # stack) (jr_key r) j) (p # stack) [] r2"
    using has_read_delimiter [OF r1(2) assms(5)] by blast
  then show ?thesis using feed_trans [OF r1(1), of "[c]"] assms(5) by (auto simp: placed_def)
qed

lemma reads_elements_one:
  assumes "reads_value d t j" "blank w1" "blank w2"
  shows "reads_elements d (w1 @ t @ w2) [j]"
  unfolding reads_elements_def
proof (intro allI impI)
  fix v p stack xs r
  assume a: "at VALUE_BEGIN v (p # stack) [] r" "json_at p v = Some (ARRAY xs)" "Suc (length stack) + d \<le> 255"
  let ?v = "json_upd p (\<lambda>_. ARRAY (xs @ [j])) v"
  obtain r1 where r1: "feed (w1 @ t @ w2 @ [0x5d]) r = end_or_next (ucast (0x5d :: u8)) r1"
      "at VALUE_END ?v (p # stack) [] r1" using reads_element [OF assms a, of "0x5d"] by auto
  have "json_at p ?v = Some (ARRAY (xs @ [j]))" by (simp add: json_at_upd a(2))
  then show "\<exists>r'. feed ((w1 @ t @ w2) @ [0x5d]) r = Continue r' \<and>
      at (closed_state stack) (json_upd p (\<lambda>_. ARRAY (xs @ [j])) v) stack [] r'"
    using close_container [OF r1(2), of "ARRAY (xs @ [j])" "0x5d"] r1(1) by simp
qed

lemma reads_elements_more:
  assumes "reads_value d t j" "blank w1" "blank w2" "reads_elements d ts js"
  shows "reads_elements d (w1 @ t @ w2 @ 0x2c # ts) (j # js)"
  unfolding reads_elements_def
proof (intro allI impI)
  fix v p stack xs r
  assume a: "at VALUE_BEGIN v (p # stack) [] r" "json_at p v = Some (ARRAY xs)" "Suc (length stack) + d \<le> 255"
  let ?v = "json_upd p (\<lambda>_. ARRAY (xs @ [j])) v"
  obtain r1 where r1: "feed (w1 @ t @ w2 @ [0x2c]) r = end_or_next (ucast (0x2c :: u8)) r1"
      "at VALUE_END ?v (p # stack) [] r1" using reads_element [OF assms(1-3) a, of "0x2c"] by auto
  have v: "json_at p ?v = Some (ARRAY (xs @ [j]))" by (simp add: json_at_upd a(2))
  then obtain r2 where r2: "feed (w1 @ t @ w2 @ [0x2c]) r = Continue r2" "at VALUE_BEGIN ?v (p # stack) [] r2"
    using next_in_container [OF r1(2), of "ARRAY (xs @ [j])" VALUE_BEGIN] r1(1) by auto
  obtain r3 where "feed (ts @ [0x5d]) r2 = Continue r3"
      "at (closed_state stack) (json_upd p (\<lambda>_. ARRAY ((xs @ [j]) @ js)) ?v) stack [] r3"
    using assms(4) r2(2) v a(3) unfolding reads_elements_def by blast
  then show "\<exists>r'. feed ((w1 @ t @ w2 @ 0x2c # ts) @ [0x5d]) r = Continue r' \<and>
      at (closed_state stack) (json_upd p (\<lambda>_. ARRAY (xs @ j # js)) v) stack [] r'"
    using feed_trans [OF r2(1), of "ts @ [0x5d]"] by (simp add: json_upd_twice)
qed

lemma map_of_object_put: "map_of (object_put k j m) k' = (if k' = k then Some j else map_of m k')"
  by (induction m) auto

lemma read_colon:
  assumes "at OBJECT_KEY_END v stack [] r"
  shows "\<exists>r'. feed [0x3a] r = Continue r' \<and> at VALUE_BEGIN v stack [] r' \<and> jr_key r' = jr_key r"
  using assms by (simp add: feed_nil proceed_Continue json_step_other step_default_def value_literal_def letter_def goto_def at_def)

lemma reads_member:
  assumes t: "reads_value d t j" and w: "blank w1" "blank w2" "blank w3" "blank w4" and s: "str_text s k"
    and a: "at OBJECT_KEY_BEGIN v (p # stack) [] r" "json_at p v = Some (OBJECT m)" "map_of m k = None"
      "Suc (length stack) + d \<le> 255" and c: "c = 0x7d \<or> c = 0x2c"
  shows "\<exists>r'. feed (w1 @ 0x22 # s @ 0x22 # w2 @ 0x3a # w3 @ t @ w4 @ [c]) r = end_or_next (ucast c) r' \<and>
    at VALUE_END (json_upd p (\<lambda>_. OBJECT (object_put k j m)) v) (p # stack) [] r'"
proof -
  obtain r1 where r1: "feed w1 r = Continue r1" "at OBJECT_KEY_BEGIN v (p # stack) [] r1"
    using at_blank [OF w(1) a(1)] by auto
  obtain r2 where r2: "feed (0x22 # s @ [0x22]) r1 = Continue r2" "at OBJECT_KEY_END v (p # stack) [] r2" "jr_key r2 = k"
    using read_key [OF r1(2) s] by blast
  obtain r3 where r3: "feed w2 r2 = Continue r3" "at OBJECT_KEY_END v (p # stack) [] r3" "jr_key r3 = k"
    using at_blank [OF w(2) r2(2)] r2(3) by auto
  obtain r4 where r4: "feed [0x3a] r3 = Continue r4" "at VALUE_BEGIN v (p # stack) [] r4" "jr_key r4 = k"
    using read_colon [OF r3(2)] r3(3) by auto
  have place: "has_place v (p # stack) (jr_key r4)" using a(2,3) r4(3) by (simp add: has_place_def)
  obtain r5 where r5: "feed (w3 @ t @ w4) r4 = Continue r5" "has_read j v (p # stack) k r5"
    using read_padded [OF t w(3,4) r4(2) place] a(4) r4(3) by auto
  have "fits c (json_type (OBJECT m))" using c by (auto simp: fits_def)
  then obtain r6 where r6: "feed [c] r5 = end_or_next (ucast c) r6"
      "at VALUE_END (placed v (p # stack) k j) (p # stack) [] r6"
    using has_read_delimiter [OF r5(2) a(2)] by blast
  have "feed (w1 @ (0x22 # s @ [0x22]) @ w2 @ [0x3a] @ (w3 @ t @ w4) @ [c]) r = end_or_next (ucast c) r6"
    by (rule feed_trans [OF r1(1)], rule feed_trans [OF r2(1)], rule feed_trans [OF r3(1)],
        rule feed_trans [OF r4(1)], rule feed_trans [OF r5(1)], rule r6(1))
  then show ?thesis using r6(2) a(2) by (auto simp: placed_def)
qed

lemma reads_members_one:
  assumes "reads_value d t j" "blank w1" "blank w2" "blank w3" "blank w4" "str_text s k"
  shows "reads_members d (w1 @ 0x22 # s @ 0x22 # w2 @ 0x3a # w3 @ t @ w4) [(k, j)]"
  unfolding reads_members_def
proof (intro allI impI)
  fix v p stack m r
  assume a: "at OBJECT_KEY_BEGIN v (p # stack) [] r" "json_at p v = Some (OBJECT m)"
    "\<forall>k\<in>fst ` set [(k, j)]. map_of m k = None" "Suc (length stack) + d \<le> 255"
  let ?v = "json_upd p (\<lambda>_. OBJECT (object_put k j m)) v"
  have "map_of m k = None" using a(3) by simp
  then obtain r1 where r1: "feed (w1 @ 0x22 # s @ 0x22 # w2 @ 0x3a # w3 @ t @ w4 @ [0x7d]) r = end_or_next (ucast (0x7d :: u8)) r1"
      "at VALUE_END ?v (p # stack) [] r1" using reads_member [OF assms a(1,2) _ a(4), of "0x7d"] by auto
  have "json_at p ?v = Some (OBJECT (object_put k j m))" by (simp add: json_at_upd a(2))
  then show "\<exists>r'. feed ((w1 @ 0x22 # s @ 0x22 # w2 @ 0x3a # w3 @ t @ w4) @ [0x7d]) r = Continue r' \<and>
      at (closed_state stack) (json_upd p (\<lambda>_. OBJECT (object_of m [(k, j)])) v) stack [] r'"
    using close_container [OF r1(2), of "OBJECT (object_put k j m)" "0x7d"] r1(1) by (simp add: object_of_def)
qed

lemma reads_members_more:
  assumes "reads_value d t j" "blank w1" "blank w2" "blank w3" "blank w4" "str_text s k" "reads_members d ts kvs"
  shows "reads_members d (w1 @ 0x22 # s @ 0x22 # w2 @ 0x3a # w3 @ t @ w4 @ 0x2c # ts) ((k, j) # kvs)"
  unfolding reads_members_def
proof (intro allI impI)
  fix v p stack m r
  assume a: "at OBJECT_KEY_BEGIN v (p # stack) [] r" "json_at p v = Some (OBJECT m)"
    "distinct (map fst ((k, j) # kvs))" "\<forall>k\<in>fst ` set ((k, j) # kvs). map_of m k = None" "Suc (length stack) + d \<le> 255"
  let ?v = "json_upd p (\<lambda>_. OBJECT (object_put k j m)) v"
  let ?t = "w1 @ 0x22 # s @ 0x22 # w2 @ 0x3a # w3 @ t @ w4 @ [0x2c]"
  have "map_of m k = None" using a(4) by simp
  then obtain r1 where r1: "feed ?t r = end_or_next (ucast (0x2c :: u8)) r1" "at VALUE_END ?v (p # stack) [] r1"
    using reads_member [OF assms(1-6) a(1,2) _ a(5), of "0x2c"] by auto
  have v: "json_at p ?v = Some (OBJECT (object_put k j m))" by (simp add: json_at_upd a(2))
  then obtain r2 where r2: "feed ?t r = Continue r2" "at OBJECT_KEY_BEGIN ?v (p # stack) [] r2"
    using next_in_container [OF r1(2), of "OBJECT (object_put k j m)" OBJECT_KEY_BEGIN] r1(1) by auto
  have "distinct (map fst kvs)" "\<forall>k'\<in>fst ` set kvs. map_of (object_put k j m) k' = None"
    using a(3,4) by (auto simp: map_of_object_put)
  then obtain r3 where "feed (ts @ [0x7d]) r2 = Continue r3"
      "at (closed_state stack) (json_upd p (\<lambda>_. OBJECT (object_of (object_put k j m) kvs)) ?v) stack [] r3"
    using assms(7) r2(2) v a(5) unfolding reads_members_def by blast
  then show "\<exists>r'. feed ((w1 @ 0x22 # s @ 0x22 # w2 @ 0x3a # w3 @ t @ w4 @ 0x2c # ts) @ [0x7d]) r = Continue r' \<and>
      at (closed_state stack) (json_upd p (\<lambda>_. OBJECT (object_of m ((k, j) # kvs))) v) stack [] r'"
    using feed_trans [OF r2(1), of "ts @ [0x7d]"] by (simp add: json_upd_twice object_of_def)
qed

text \<open>A container, from the text between its brackets.\<close>

lemma reads_container:
  assumes "c = 0x5b \<and> st = VALUE_BEGIN \<and> e = ARRAY [] \<or> c = 0x7b \<and> st = OBJECT_KEY_BEGIN \<and> e = OBJECT []"
    and inner: "\<And>v p stack r. at st v (p # stack) [] r \<Longrightarrow> jr_container_just_begun r \<Longrightarrow> json_at p v = Some e \<Longrightarrow>
      Suc (length stack) + d \<le> 255 \<Longrightarrow>
      \<exists>r' v'. feed s r = Continue r' \<and> at (closed_state stack) v' stack [] r' \<and>
        (v' = json_upd p (\<lambda>_. j) v \<or> v' = v \<and> j = e)"
  shows "reads_value (Suc d) (c # s) j"
  unfolding reads_value_def
proof (intro allI impI)
  fix v stack r
  assume a: "at VALUE_BEGIN v stack [] r" "has_place v stack (jr_key r)" "length stack + Suc d \<le> 255"
  obtain r1 p v' where r1: "feed [c] r = Continue r1" "at st v' (p # stack) [] r1" "jr_container_just_begun r1"
      "json_at p v' = Some e" "json_upd p (\<lambda>_. j) v' = placed v stack (jr_key r) j" "v' = placed v stack (jr_key r) e"
    using feed_open [OF a(1,2) _ assms(1)] a(3) by auto
  obtain r2 where "feed s r1 = Continue r2" "at (closed_state stack) (placed v stack (jr_key r) j) stack [] r2"
    using inner [OF r1(2-4)] a(3) r1(5,6) by auto
  then show "\<exists>r'. feed (c # s) r = Continue r' \<and> has_read j v stack (jr_key r) r'"
    using feed_trans [OF r1(1), of s] by (auto simp: has_read_def closed_state_def split: if_splits)
qed

lemma reads_empty:
  assumes "blank w" "json_at p v = Some e" "at st v (p # stack) [] r" "jr_container_just_begun r"
    "c = 0x5d \<and> st = VALUE_BEGIN \<and> e = ARRAY [] \<or> c = 0x7d \<and> st = OBJECT_KEY_BEGIN \<and> e = OBJECT []"
  shows "\<exists>r'. feed (w @ [c]) r = Continue r' \<and> at (closed_state stack) v stack [] r'"
proof -
  obtain r1 where r1: "feed w r = Continue r1" "at st v (p # stack) [] r1" "jr_container_just_begun r1"
    using at_blank [OF assms(1,3)] assms(4,5) by auto
  let ?r = "r1\<lparr>jr_index := Suc (jr_index r1)\<rparr>"
  have "feed [c] r1 = step_delimiter (ucast c) ?r"
    using assms(5) by (auto simp: feed_nil proceed_Continue json_step_def GRPC_JSON_READ_CHAR_EOF_def)
  also have "\<dots> = end_or_next (ucast c) ?r"
    using assms(5) r1(2) by (auto simp: step_delimiter_def at_def number_end_states_def)
  finally have "feed (w @ [c]) r = end_or_next (ucast c) ?r" using r1(1) by (simp add: feed_append)
  moreover have "\<exists>r'. end_or_next (ucast c) ?r = Continue r' \<and> at (closed_state stack) v stack [] r'"
    by (rule close_container [of st v p stack ?r e]) (use r1 assms(2,5) in auto)
  ultimately show ?thesis by simp
qed

lemma reads_text:
  "json_text d t j \<Longrightarrow> reads_value d t j" "elements_text d t js \<Longrightarrow> reads_elements d t js"
  "members_text d t kvs \<Longrightarrow> reads_members d t kvs"
proof (induction d t j and d t js and d t kvs rule: json_text_elements_text_members_text.inducts)
  case (text_null d)
  then show ?case using read_literal(3) by (simp add: reads_value_def)
next
  case (text_true d)
  then show ?case using read_literal(1) by (simp add: reads_value_def)
next
  case (text_false d)
  then show ?case using read_literal(2) by (simp add: reads_value_def)
next
  case (text_number s d)
  then show ?case using read_number by (simp add: reads_value_def)
next
  case (text_string s bs d)
  then show ?case using read_string by (simp add: reads_value_def)
next
  case (text_empty_array w d)
  show ?case
    by (rule reads_container [where st = VALUE_BEGIN and e = "ARRAY []"])
      (use reads_empty [OF text_empty_array] in \<open>blast+\<close>)
next
  case (text_array d t js)
  show ?case
    by (rule reads_container [where st = VALUE_BEGIN and e = "ARRAY []"])
      (use text_array.IH in \<open>fastforce simp: reads_elements_def\<close>)+
next
  case (text_empty_object w d)
  show ?case
    by (rule reads_container [where st = OBJECT_KEY_BEGIN and e = "OBJECT []"])
      (use reads_empty [OF text_empty_object] in \<open>blast+\<close>)
next
  case (text_object d t kvs)
  show ?case
    by (rule reads_container [where st = OBJECT_KEY_BEGIN and e = "OBJECT []"])
      (use text_object.IH text_object.hyps in \<open>fastforce simp: reads_members_def\<close>)+
next
  case (text_element w1 d t j w2)
  then show ?case by (intro reads_elements_one)
next
  case (text_elements w1 d t j w2 ts js)
  then show ?case by (intro reads_elements_more)
next
  case (text_member w1 s k w2 w3 d t j w4)
  then show ?case by (intro reads_members_one)
next
  case (text_members w1 s k w2 w3 d t j w4 ts kvs)
  then show ?case by (intro reads_members_more)
qed

lemma proceed_fails: "(\<And>r1. k r1 \<noteq> Continue r') \<Longrightarrow> proceed out k \<noteq> Continue r'"
  by (cases out) simp_all

lemma json_step_nul: "json_step 0 r \<noteq> Continue r'"
proof -
  have c: "\<not> number_digit 0" "hex_value 0 = None" by (simp_all add: number_digit_def hex_value_def)
  have "step_default 0 r \<noteq> Continue r'"
    by (cases "jr_state r")
      (simp_all add: step_default_def value_literal_def letter_def key_string_def value_string_def value_begin_def string_escape_def
        escape_digit_def value_number_def value_number_with_decimal_def value_number_zero_def value_number_dot_def
        value_number_e_def value_number_epm_def c proceed_fails Let_def)
  then show ?thesis by (simp add: json_step_other)
qed

lemma feed_Continue_Run: "feed s r = Continue r' \<Longrightarrow> 0 \<notin> set s"
proof (induction s arbitrary: r)
  case (Cons b s)
  obtain r1 where r1: "json_step (ucast b) (r\<lparr>jr_index := jr_index r + 1\<rparr>) = Continue r1" "feed s r1 = Continue r'"
    using Cons.prems by (cases "json_step (ucast b) (r\<lparr>jr_index := jr_index r + 1\<rparr>)") auto
  have "b \<noteq> 0" using r1(1) json_step_nul by (metis unsigned_0)
  then show ?case using Cons.IH [OF r1(2)] by simp
qed simp

lemma step_eof_read:
  assumes "has_read j JSON_NULL [] k r"
  shows "\<exists>r'. step_eof r = Done r' \<and> jr_root_value r' = j \<and> jr_errors r' = [] \<and> \<not> jr_truncated_errors r'"
proof (cases "\<exists>st. (st = VALUE_END \<or> st = STATE_END) \<and> at st (placed JSON_NULL [] k j) [] [] r")
  case True
  then show ?thesis by (auto simp: step_eof_def number_end_states_def at_def placed_def IsComplete_def)
next
  case False
  then obtain n st where n: "j = NUMBER n" "st \<in> number_end_states" "at st JSON_NULL [] n r" "jr_key r = k"
    using assms unfolding has_read_def by auto
  have "has_place JSON_NULL [] (jr_key r)" by (simp add: has_place_def)
  from set_number [OF n(3) this] obtain r1 where "SetNumber r = Continue r1" "at st (placed JSON_NULL [] k j) [] [] r1"
    using n by auto
  then show ?thesis using n(2,3) by (simp add: step_eof_def at_def goto_def placed_def IsComplete_def)
qed

lemma reads_document:
  assumes "json_document d t j" and "d \<le> 255"
  shows "Parse t = Some (Inr j)"
proof -
  obtain w1 s w2 where t: "t = w1 @ s @ w2" "blank w1" "blank w2" "json_text d s j"
    using assms(1) by (auto simp: json_document_def)
  have "at VALUE_BEGIN JSON_NULL [] [] json_reader_init" "has_place JSON_NULL [] (jr_key json_reader_init)"
    by (simp_all add: at_def json_reader_init_def has_place_def)
  then obtain r where r: "feed t json_reader_init = Continue r" "has_read j JSON_NULL [] [] r"
    using read_padded [OF reads_text(1) [OF t(4)] t(2,3)] assms(2) t(1) by (fastforce simp: json_reader_init_def)
  obtain r' where r': "step_eof r = Done r'" "jr_root_value r' = j" "jr_errors r' = []" "\<not> jr_truncated_errors r'"
    using step_eof_read [OF r(2)] by blast
  have "Run (t @ []) json_reader_init = Run [] r"
    unfolding Run_feed [OF feed_Continue_Run [OF r(1)]] r(1) by simp
  also have "Run [] r = step_eof r" by (subst Run.simps) simp
  finally show ?thesis using r' by (simp add: Parse_def)
qed

section \<open>Properties\<close>

text \<open>
  C11: The parser accepts every JSON document whose containers are at most 255 deep, whose objects
  have distinct keys and whose numbers do not start with 0e, and returns its value.
\<close>

theorem json_reads_documents:
  assumes "json_document d t j" and "d \<le> 255"
  shows "Parse t = Some (Inr j)"
  using assms by (rule reads_document)

text \<open>The text of an object with the key k and the array of -1 and true.\<close>

definition sample_text :: octets where
  "sample_text = [0x7b, 0x22, 0x6b, 0x22, 0x3a, 0x20, 0x5b, 0x2d, 0x31, 0x2c, 0x20, 0x74, 0x72, 0x75, 0x65, 0x5d, 0x7d]"

definition sample_value :: json where
  "sample_value = OBJECT [([0x6b], ARRAY [NUMBER [0x2d, 0x31], JSON_TRUE])]"

lemma sample_document: "json_document 2 sample_text sample_value"
proof -
  have "json_number [0x2d, 0x31]"
    unfolding json_number_def
    by (intro exI [of _ "[0x2d]"] exI [of _ "[0x31]"] exI [of _ "[]"])
      (simp add: int_part_def digits_def is_digit_def frac_part_def exp_part_def)
  then have n: "json_text 0 [0x2d, 0x31] (NUMBER [0x2d, 0x31])"
    by (rule text_number) (simp add: zero_exponent_def)
  have "elements_text 0 [0x20, 0x74, 0x72, 0x75, 0x65] [JSON_TRUE]"
    using text_element [of "[0x20]" 0 _ _ "[]", OF _ text_true] by (simp add: blank_def)
  then have "elements_text 0 [0x2d, 0x31, 0x2c, 0x20, 0x74, 0x72, 0x75, 0x65] [NUMBER [0x2d, 0x31], JSON_TRUE]"
    using text_elements [of "[]" 0 _ _ "[]", OF _ n] by (simp add: blank_def)
  from text_array [OF this]
  have a: "json_text 1 [0x5b, 0x2d, 0x31, 0x2c, 0x20, 0x74, 0x72, 0x75, 0x65, 0x5d] (ARRAY [NUMBER [0x2d, 0x31], JSON_TRUE])"
    by simp
  have "str_text [0x6b] [0x6b]" by (rule str_plain [OF str_nil]) simp_all
  from text_member [of "[]", OF _ this, of "[]" "[0x20]", OF _ _ _ a, of "[]"]
  have "members_text 1 (tl (butlast sample_text)) [([0x6b], ARRAY [NUMBER [0x2d, 0x31], JSON_TRUE])]"
    by (simp add: blank_def sample_text_def)
  from text_object [OF this] have "json_text 2 sample_text sample_value"
    by (simp add: sample_text_def sample_value_def object_of_def numeral_2_eq_2)
  then show ?thesis unfolding json_document_def
    by (intro exI [of _ "[]"] exI [of _ sample_text]) (simp add: blank_def)
qed

theorem json_reads_documents_witness: "Parse sample_text = Some (Inr sample_value)"
  by (rule json_reads_documents [OF sample_document]) simp

text \<open>
  Two texts that are not JSON and are accepted: a comma before the end of an array or object that
  follows an empty container, and a member without a value.
\<close>

lemma json_containers_liberal:
  "Parse [0x5b, 0x5b, 0x5d, 0x2c, 0x5d] = Some (Inr (ARRAY [ARRAY []]))"
  "Parse [0x7b, 0x22, 0x61, 0x22, 0x3a, 0x7d] = Some (Inr (OBJECT []))"
  by code_simp+

end
