(* ===== verification/Grpc_Json_Writer.thy ===== *)
theory Grpc_Json_Writer
  imports Grpc_Json_Complete
begin

text \<open>
  The JSON writer of gRPC (\<open>core/lib/json/json_writer.cc\<close>): its text denotes the value it is given,
  so that the reader reads it back.

  \<open>OutputCheck\<close> only reserves memory and has no effect on the output, so that it has no counterpart.
  The product of depth and indentation is exact; the code computes it with ints.
\<close>

section \<open>Data\<close>

record json_writer =
  jw_indent :: int
  jw_depth :: int
  jw_container_empty :: bool
  jw_got_key :: bool
  jw_output :: octets

definition json_writer_init :: "int \<Rightarrow> json_writer" where
  "json_writer_init indent = \<lparr>jw_indent = indent, jw_depth = 0, jw_container_empty = True,
     jw_got_key = False, jw_output = []\<rparr>"

section \<open>Output\<close>

definition OutputChar :: "u8 \<Rightarrow> json_writer \<Rightarrow> json_writer" where
  "OutputChar c w = w\<lparr>jw_output := jw_output w @ [c]\<rparr>"

definition OutputString :: "octets \<Rightarrow> json_writer \<Rightarrow> json_writer" where
  "OutputString s w = w\<lparr>jw_output := jw_output w @ s\<rparr>"

text \<open>The loop over a line of 64 spaces and the rest of the spaces.\<close>

fun output_spaces :: "nat \<Rightarrow> json_writer \<Rightarrow> json_writer" where
  "output_spaces spaces w =
     (if spaces \<ge> 64 then output_spaces (spaces - 64) (OutputString (replicate 64 0x20) w)
      else if spaces = 0 then w
      else OutputString (replicate spaces 0x20) w)"

declare output_spaces.simps [simp del]

definition OutputIndent :: "json_writer \<Rightarrow> json_writer" where
  "OutputIndent w =
     (let spaces = (of_int (jw_depth w * jw_indent w) :: u32)
      in if jw_indent w = 0 then w
         else if jw_got_key w then OutputChar 0x20 w
         else output_spaces (unat spaces) w)"

definition ValueEnd :: "json_writer \<Rightarrow> json_writer" where
  "ValueEnd w =
     (if jw_container_empty w
      then let w1 = w\<lparr>jw_container_empty := False\<rparr>
           in if jw_indent w1 = 0 \<or> jw_depth w1 = 0 then w1 else OutputChar 10 w1
      else let w1 = OutputChar 0x2c w
           in if jw_indent w1 = 0 then w1 else OutputChar 10 w1)"

definition hex_char :: "nat \<Rightarrow> u8" where
  "hex_char n = of_char (''0123456789abcdef'' ! n)"

definition EscapeUtf16 :: "u16 \<Rightarrow> json_writer \<Rightarrow> json_writer" where
  "EscapeUtf16 utf16 w =
     (let w1 = OutputString [0x5c, 0x75] w;
          w2 = OutputChar (hex_char (unat (drop_bit 12 utf16 AND 0x0f))) w1;
          w3 = OutputChar (hex_char (unat (drop_bit 8 utf16 AND 0x0f))) w2;
          w4 = OutputChar (hex_char (unat (drop_bit 4 utf16 AND 0x0f))) w3
      in OutputChar (hex_char (unat (utf16 AND 0x0f))) w4)"

text \<open>The octets that follow the first one of a character; \<open>None\<close> when they are not valid.\<close>

fun utf8_tail :: "nat \<Rightarrow> u32 \<Rightarrow> octets \<Rightarrow> (u32 \<times> octets) option" where
  "utf8_tail 0 utf32 s = Some (utf32, s)"
| "utf8_tail (Suc n) utf32 [] = None"
| "utf8_tail (Suc n) utf32 (c # s) =
     (if c AND 0xc0 \<noteq> 0x80 then None
      else utf8_tail n (push_bit 6 utf32 OR ucast (c AND 0x3f)) s)"

definition utf8_first :: "u8 \<Rightarrow> (u32 \<times> nat) option" where
  "utf8_first c =
     (if c AND 0xe0 = 0xc0 then Some (ucast (c AND 0x1f), 1)
      else if c AND 0xf0 = 0xe0 then Some (ucast (c AND 0x0f), 2)
      else if c AND 0xf8 = 0xf0 then Some (ucast (c AND 0x07), 3)
      else None)"

definition escape_ascii_control :: "u8 \<Rightarrow> json_writer \<Rightarrow> json_writer" where
  "escape_ascii_control c w =
     (if c = 8 then OutputString [0x5c, 0x62] w
      else if c = 12 then OutputString [0x5c, 0x66] w
      else if c = 10 then OutputString [0x5c, 0x6e] w
      else if c = 13 then OutputString [0x5c, 0x72] w
      else if c = 9 then OutputString [0x5c, 0x74] w
      else EscapeUtf16 (ucast c) w)"

definition escape_utf32 :: "u32 \<Rightarrow> json_writer \<Rightarrow> json_writer" where
  "escape_utf32 utf32 w =
     (if utf32 \<ge> 0x10000
      then let u = utf32 - 0x10000
           in EscapeUtf16 (ucast (0xdc00 OR (u AND 0x3ff))) (EscapeUtf16 (ucast (0xd800 OR drop_bit 10 u)) w)
      else EscapeUtf16 (ucast utf32) w)"

lemma utf8_tail_length: "utf8_tail n u s = Some (v, s') \<Longrightarrow> length s' \<le> length s"
  by (induction n u s rule: utf8_tail.induct) (auto split: if_splits)

text \<open>The loop of \<open>EscapeString\<close> over the octets from an index on.\<close>

function escape_loop :: "octets \<Rightarrow> json_writer \<Rightarrow> json_writer" where
  "escape_loop [] w = w"
| "escape_loop (c # s) w =
     (if c = 0 then w
      else if 32 \<le> c \<and> c \<le> 126
      then escape_loop s (OutputChar c (if c = 0x5c \<or> c = 0x22 then OutputChar 0x5c w else w))
      else if c < 32 \<or> c = 127 then escape_loop s (escape_ascii_control c w)
      else case utf8_first c of
             None \<Rightarrow> w
           | Some (utf32, extra) \<Rightarrow>
               (case utf8_tail extra utf32 s of
                  None \<Rightarrow> w
                | Some (u, s') \<Rightarrow>
                    if 0xd800 \<le> u \<and> u \<le> 0xdfff \<or> u \<ge> 0x110000 then w
                    else escape_loop s' (escape_utf32 u w)))"
  by pat_completeness auto

termination
  by (relation "measure (\<lambda>(s, w). length s)") (auto dest: utf8_tail_length simp: le_imp_less_Suc)

definition EscapeString :: "octets \<Rightarrow> json_writer \<Rightarrow> json_writer" where
  "EscapeString s w = OutputChar 0x22 (escape_loop s (OutputChar 0x22 w))"

section \<open>Values\<close>

definition ContainerBegins :: "bool \<Rightarrow> json_writer \<Rightarrow> json_writer" where
  "ContainerBegins object w =
     (let w1 = (if \<not> jw_got_key w then ValueEnd w else w);
          w2 = OutputChar (if object then 0x7b else 0x5b) (OutputIndent w1)
      in w2\<lparr>jw_container_empty := True, jw_got_key := False, jw_depth := jw_depth w2 + 1\<rparr>)"

definition ContainerEnds :: "bool \<Rightarrow> json_writer \<Rightarrow> json_writer" where
  "ContainerEnds object w =
     (let w1 = (if jw_indent w \<noteq> 0 \<and> \<not> jw_container_empty w then OutputChar 10 w else w);
          w2 = w1\<lparr>jw_depth := jw_depth w1 - 1\<rparr>;
          w3 = (if \<not> jw_container_empty w2 then OutputIndent w2 else w2);
          w4 = OutputChar (if object then 0x7d else 0x5d) w3
      in w4\<lparr>jw_container_empty := False, jw_got_key := False\<rparr>)"

text \<open>\<open>s\<close> is a C string here: it ends at its first null.\<close>

definition ObjectKey :: "octets \<Rightarrow> json_writer \<Rightarrow> json_writer" where
  "ObjectKey s w =
     (let w1 = OutputIndent (ValueEnd w);
          w2 = OutputChar 0x3a (EscapeString (takeWhile (\<lambda>c. c \<noteq> 0) s) w1)
      in w2\<lparr>jw_got_key := True\<rparr>)"

definition ValueRaw :: "octets \<Rightarrow> json_writer \<Rightarrow> json_writer" where
  "ValueRaw s w =
     (let w1 = (if \<not> jw_got_key w then ValueEnd w else w)
      in (OutputString s (OutputIndent w1))\<lparr>jw_got_key := False\<rparr>)"

definition ValueString :: "octets \<Rightarrow> json_writer \<Rightarrow> json_writer" where
  "ValueString s w =
     (let w1 = (if \<not> jw_got_key w then ValueEnd w else w)
      in (EscapeString s (OutputIndent w1))\<lparr>jw_got_key := False\<rparr>)"

fun DumpValue :: "json \<Rightarrow> json_writer \<Rightarrow> json_writer"
  and DumpMembers :: "(octets \<times> json) list \<Rightarrow> json_writer \<Rightarrow> json_writer"
  and DumpElements :: "json list \<Rightarrow> json_writer \<Rightarrow> json_writer" where
  "DumpValue (OBJECT m) w = ContainerEnds True (DumpMembers m (ContainerBegins True w))"
| "DumpValue (ARRAY xs) w = ContainerEnds False (DumpElements xs (ContainerBegins False w))"
| "DumpValue (STRING s) w = ValueString s w"
| "DumpValue (NUMBER s) w = ValueRaw s w"
| "DumpValue JSON_TRUE w = ValueRaw [0x74, 0x72, 0x75, 0x65] w"
| "DumpValue JSON_FALSE w = ValueRaw [0x66, 0x61, 0x6c, 0x73, 0x65] w"
| "DumpValue JSON_NULL w = ValueRaw [0x6e, 0x75, 0x6c, 0x6c] w"
| "DumpMembers [] w = w"
| "DumpMembers ((k, v) # m) w = DumpMembers m (DumpValue v (ObjectKey k w))"
| "DumpElements [] w = w"
| "DumpElements (v # vs) w = DumpElements vs (DumpValue v w)"

definition Dump :: "int \<Rightarrow> json \<Rightarrow> octets" where
  "Dump indent v = jw_output (DumpValue v (json_writer_init indent))"

section \<open>The output of a string\<close>

text \<open>\<open>written s w w'\<close>: \<open>w'\<close> is \<open>w\<close> with \<open>s\<close> appended to the output.\<close>

definition written :: "octets \<Rightarrow> json_writer \<Rightarrow> json_writer" where
  "written s w = w\<lparr>jw_output := jw_output w @ s\<rparr>"

lemma written_simps [simp]:
  "written t (written s w) = written (s @ t) w" "written [] w = w" "OutputChar c w = written [c] w" "OutputString s w = written s w"
  "jw_indent (written s w) = jw_indent w" "jw_depth (written s w) = jw_depth w" "jw_output (written s w) = jw_output w @ s"
  "jw_container_empty (written s w) = jw_container_empty w" "jw_got_key (written s w) = jw_got_key w"
  by (simp_all add: written_def OutputChar_def OutputString_def)

lemma hex_char_digit: "n < 16 \<Longrightarrow> hex_digit (hex_char n) = Some (of_nat n)"
proof -
  have "list_all (\<lambda>n. hex_digit (hex_char n) = Some (of_nat n)) [0..<16]" by code_simp
  then show "n < 16 \<Longrightarrow> hex_digit (hex_char n) = Some (of_nat n)" by (simp add: list_all_iff)
qed

lemma join_bits:
  fixes u :: "'a::len word"
  shows "push_bit k (take_bit m (drop_bit k u)) OR take_bit k u = take_bit (k + m) u"
proof (rule bit_word_eqI)
  fix i assume "i < LENGTH('a)"
  then show "bit (push_bit k (take_bit m (drop_bit k u)) OR take_bit k u) i = bit (take_bit (k + m) u) i"
    by (cases "i < k") (auto simp: bit_simps)
qed

definition hex_text :: "u16 \<Rightarrow> octets" where
  "hex_text u = map (\<lambda>k. hex_char (unat (take_bit 4 (drop_bit k u)))) [12, 8, 4, 0]"

lemma and_0x0f: "(x :: 'a::len word) AND 0x0f = take_bit 4 x"
  by (simp add: take_bit_eq_mask mask_eq_exp_minus_1)

lemma EscapeUtf16_text: "EscapeUtf16 u w = written (0x5c # 0x75 # hex_text u) w"
  by (simp add: EscapeUtf16_def Let_def hex_text_def and_0x0f)

lemma hex_text_value: "hex4 (hex_text u) = Some u"
proof -
  have "unat (take_bit 4 (drop_bit k u)) < 16" for k
    using take_bit_nat_less_exp [of 4 "unat (drop_bit k u)"] by (simp add: unsigned_take_bit_eq)
  then have d: "hex_digit (hex_char (unat (take_bit 4 (drop_bit k u)))) = Some (take_bit 4 (drop_bit k u))" for k
    by (simp add: hex_char_digit)
  moreover have "push_bit 12 (take_bit 4 (drop_bit 12 u)) OR push_bit 8 (take_bit 4 (drop_bit 8 u)) OR
      push_bit 4 (take_bit 4 (drop_bit 4 u)) OR take_bit 4 (drop_bit 0 u) = u"
    using join_bits [of 4 4 u] join_bits [of 8 4 u] join_bits [of 12 4 u] take_bit_length_eq [of u] by simp
  ultimately show ?thesis using d d [of 0] by (simp add: hex_text_def)
qed

text \<open>A code point above 0x7f is decoded from its encoding.\<close>

lemma ucast_masked:
  "(ucast (a OR (x AND b) :: u32) :: u8) AND m = (ucast a AND m) OR (ucast x AND (ucast b AND m))"
  by (simp add: unsigned_or_eq unsigned_and_eq bit.conj_disj_distrib2 and.assoc)

lemma byte_masks: "(y :: 'a::len word) AND 0x3f = take_bit 6 y" "y AND 0x1f = take_bit 5 y"
  "y AND 0x0f = take_bit 4 y" "y AND 0x07 = take_bit 3 y"
  by (simp_all add: take_bit_eq_mask mask_eq_exp_minus_1)

lemma ucast_take: "k \<le> 8 \<Longrightarrow> (ucast (take_bit k (ucast x :: u8)) :: u32) = take_bit k x"
  by (rule bit_word_eqI) (auto simp: bit_simps)

lemma tail_byte:
  "(ucast (0x80 OR (x AND 0x3f :: u32)) :: u8) AND 0xc0 = 0x80"
  "(ucast ((ucast (0x80 OR (x AND 0x3f :: u32)) :: u8) AND 0x3f) :: u32) = take_bit 6 x"
  unfolding ucast_masked by (simp_all add: byte_masks ucast_take)

lemma lead_byte:
  "utf8_first (ucast (0xc0 OR (x AND 0x1f :: u32))) = Some (take_bit 5 x, Suc 0)"
  "utf8_first (ucast (0xe0 OR (x AND 0x0f :: u32))) = Some (take_bit 4 x, Suc (Suc 0))"
  "utf8_first (ucast (0xf0 OR (x AND 0x07 :: u32))) = Some (take_bit 3 x, Suc (Suc (Suc 0)))"
  unfolding utf8_first_def ucast_masked by (simp_all add: byte_masks ucast_take)

lemma lead_byte_top: "bit a 7 \<Longrightarrow> bit (ucast (a OR (x AND m) :: u32) :: u8) 7"
  by (simp add: bit_simps)

lemma decode_encode:
  assumes "0x80 \<le> c" "c \<le> 0x1fffff"
  shows "\<exists>b bs u n. utf8_encode c = b # bs \<and> utf8_first b = Some (u, n) \<and>
    (\<forall>s. utf8_tail n u (bs @ s) = Some (c, s)) \<and> bit b 7"
proof -
  have below: "take_bit k c = c" if "unat c < 2 ^ k" for k using that by (rule take_bit_below)
  have n1: "\<not> c \<le> 0x7f" using assms(1) by (auto simp: word_le_nat_alt)
  consider "c \<le> 0x7ff" | "\<not> c \<le> 0x7ff" "c \<le> 0xffff" | "\<not> c \<le> 0x7ff" "\<not> c \<le> 0xffff" by blast
  then show ?thesis
  proof cases
    case 1
    have "push_bit 6 (take_bit 5 (drop_bit 6 c)) OR take_bit 6 c = take_bit 11 c" using join_bits [of 6 5 c] by simp
    also have "\<dots> = c" by (rule below) (use 1 in \<open>simp add: word_le_nat_alt\<close>)
    finally show ?thesis using 1 n1 by (simp add: utf8_encode_def lead_byte tail_byte lead_byte_top)
  next
    case 2
    have "push_bit 6 (push_bit 6 (take_bit 4 (drop_bit 12 c)) OR take_bit 6 (drop_bit 6 c)) OR take_bit 6 c = take_bit 16 c"
      using join_bits [of 6 4 "drop_bit 6 c"] join_bits [of 6 10 c] by (simp add: drop_bit_drop_bit)
    also have "\<dots> = c" by (rule below) (use 2 in \<open>simp add: word_le_nat_alt\<close>)
    finally show ?thesis using 2 n1 by (simp add: utf8_encode_def lead_byte tail_byte lead_byte_top)
  next
    case 3
    have "push_bit 6 (push_bit 6 (push_bit 6 (take_bit 3 (drop_bit 18 c)) OR take_bit 6 (drop_bit 12 c)) OR
        take_bit 6 (drop_bit 6 c)) OR take_bit 6 c = take_bit 21 c"
      using join_bits [of 6 3 "drop_bit 12 c"] join_bits [of 6 9 "drop_bit 6 c"] join_bits [of 6 15 c]
      by (simp add: drop_bit_drop_bit)
    also have "\<dots> = c" by (rule below) (use assms(2) in \<open>simp add: word_le_nat_alt\<close>)
    finally show ?thesis using 3 n1 by (simp add: utf8_encode_def lead_byte tail_byte lead_byte_top)
  qed
qed

lemma push_take_disjoint: "push_bit k a AND take_bit k x = (0 :: 'a::len word)"
  by (rule bit_word_eqI) (auto simp: bit_simps)

lemma surrogate_words:
  "(0xd800 :: u32) = push_bit 10 0x36" "(0xdc00 :: u32) = push_bit 10 0x37" "(0xfc00 :: u16) = push_bit 10 0x3f"
  by simp_all

lemma unit_of_u32:
  "(ucast (0xd800 OR take_bit 10 x :: u32) :: u16) = 0xd800 OR take_bit 10 (ucast x)"
  "(ucast (0xdc00 OR take_bit 10 x :: u32) :: u16) = 0xdc00 OR take_bit 10 (ucast x)"
proof -
  have "(ucast (take_bit 10 x) :: u16) = take_bit 10 (ucast x)" by (rule bit_word_eqI) (auto simp: bit_simps)
  then show "(ucast (0xd800 OR take_bit 10 x :: u32) :: u16) = 0xd800 OR take_bit 10 (ucast x)"
    "(ucast (0xdc00 OR take_bit 10 x :: u32) :: u16) = 0xdc00 OR take_bit 10 (ucast x)"
    by (simp_all add: unsigned_or_eq)
qed

lemma unit_up:
  "(ucast (ucast (0xd800 OR take_bit 10 x :: u32) :: u16) :: u32) = 0xd800 + take_bit 10 x"
  "(ucast (ucast (0xdc00 OR take_bit 10 x :: u32) :: u16) :: u32) = 0xdc00 + take_bit 10 x"
proof -
  have t: "(ucast (take_bit 10 (ucast x :: u16)) :: u32) = take_bit 10 x"
    by (rule bit_word_eqI) (auto simp: bit_simps)
  have "0xd800 AND take_bit 10 x = 0" "0xdc00 AND take_bit 10 x = 0"
    unfolding surrogate_words by (rule push_take_disjoint)+
  then have "0xd800 + take_bit 10 x = 0xd800 OR take_bit 10 x" "0xdc00 + take_bit 10 x = 0xdc00 OR take_bit 10 x"
    by (simp_all add: disjunctive_add_eq_or)
  then show "(ucast (ucast (0xd800 OR take_bit 10 x :: u32) :: u16) :: u32) = 0xd800 + take_bit 10 x"
    "(ucast (ucast (0xdc00 OR take_bit 10 x :: u32) :: u16) :: u32) = 0xdc00 + take_bit 10 x"
    unfolding unit_of_u32 by (simp_all add: unsigned_or_eq t)
qed

lemma unit_surrogate:
  "high_surrogate (ucast (0xd800 OR take_bit 10 x :: u32))" "low_surrogate (ucast (0xdc00 OR take_bit 10 x :: u32))"
proof -
  have "take_bit 10 y AND (0xfc00 :: u16) = 0" for y
    unfolding surrogate_words by (subst and.commute) (rule push_take_disjoint)
  then show "high_surrogate (ucast (0xd800 OR take_bit 10 x :: u32))" "low_surrogate (ucast (0xdc00 OR take_bit 10 x :: u32))"
    unfolding high_surrogate_def low_surrogate_def unit_of_u32 by (simp_all add: bit.conj_disj_distrib2)
qed

lemma surrogates_of:
  assumes "0x10000 \<le> c" "c \<le> 0x10ffff"
  defines "u \<equiv> c - 0x10000"
  shows "high_surrogate (ucast (0xd800 OR drop_bit 10 u))" "low_surrogate (ucast (0xdc00 OR (u AND 0x3ff)))"
    "surrogate_pair (ucast (0xd800 OR drop_bit 10 u)) (ucast (0xdc00 OR (u AND 0x3ff))) = c"
proof -
  have m: "u AND 0x3ff = take_bit 10 u" by (simp add: take_bit_eq_mask mask_eq_exp_minus_1)
  have "unat u < 2 ^ 20" using assms by (simp add: unat_sub word_le_nat_alt u_def)
  then have u20: "take_bit 20 u = u" by (rule take_bit_below)
  then have h: "drop_bit 10 u = take_bit 10 (drop_bit 10 u)" using drop_bit_take_bit [of 10 20 u] by simp
  show "high_surrogate (ucast (0xd800 OR drop_bit 10 u))" by (subst h) (rule unit_surrogate)
  show "low_surrogate (ucast (0xdc00 OR (u AND 0x3ff)))" unfolding m by (rule unit_surrogate)
  have "push_bit 10 (drop_bit 10 u) + take_bit 10 u = push_bit 10 (drop_bit 10 u) OR take_bit 10 u"
    by (rule disjunctive_add_eq_or) (rule push_take_disjoint)
  also have "\<dots> = u" using join_bits [of 10 10 u] u20 h by simp
  finally have u: "drop_bit 10 u * 0x400 + take_bit 10 u = u" by (simp add: push_bit_eq_mult mult.commute)
  have "surrogate_pair (ucast (0xd800 OR take_bit 10 (drop_bit 10 u))) (ucast (0xdc00 OR take_bit 10 u)) =
      0x10000 + (take_bit 10 (drop_bit 10 u) * 0x400 + take_bit 10 u)"
    unfolding surrogate_pair_def unit_up by (simp add: algebra_simps)
  also have "\<dots> = c" unfolding h [symmetric] u by (simp add: u_def)
  finally show "surrogate_pair (ucast (0xd800 OR drop_bit 10 u)) (ucast (0xdc00 OR (u AND 0x3ff))) = c"
    unfolding m h [symmetric] .
qed

text \<open>Strings that the writer does not cut short: characters in UTF-8, without null.\<close>

definition char_ok :: "u32 \<Rightarrow> bool" where
  "char_ok c \<longleftrightarrow> 0 < c \<and> c \<le> 0x10ffff \<and> \<not> (0xd800 \<le> c \<and> c \<le> 0xdfff)"

definition utf8_string :: "octets \<Rightarrow> bool" where
  "utf8_string s \<longleftrightarrow> (\<exists>cs. s = concat (map utf8_encode cs) \<and> list_all char_ok cs)"

lemma ucast_u16_back: "c \<le> 0xffff \<Longrightarrow> (ucast (ucast (c :: u32) :: u16) :: u32) = c"
proof -
  assume "c \<le> 0xffff"
  then have "take_bit 16 c = c" by (intro take_bit_below) (simp add: word_le_nat_alt)
  moreover have "(ucast (ucast c :: u16) :: u32) = take_bit 16 c" by (rule bit_word_eqI) (auto simp: bit_simps)
  ultimately show ?thesis by simp
qed

lemma not_surrogate:
  assumes "char_ok c" "c \<le> 0xffff"
  shows "\<not> high_surrogate (ucast c)" "\<not> low_surrogate (ucast c)"
proof -
  have range: "0xd800 \<le> c \<and> c \<le> 0xdfff" if k: "ucast c AND 0xfc00 = k" "k = 0xd800 \<or> k = 0xdc00" for k :: u16
  proof -
    have "unat k + 1024 \<le> 2 ^ 16" using k(2) by auto
    then obtain x where x: "(ucast (ucast c :: u16) :: u32) = ucast k + x" "unat x < 1024"
      by (rule surrogate_offset [OF k(1)])
    have "unat (ucast k + x :: u32) = unat (ucast k :: u32) + unat x"
      by (rule unat_add_below) (use x(2) k(2) in auto)
    then show ?thesis using x k(2) by (auto simp: ucast_u16_back [OF assms(2)] word_le_nat_alt)
  qed
  show "\<not> high_surrogate (ucast c)" "\<not> low_surrogate (ucast c)"
    using range [OF refl] assms(1) by (auto simp: high_surrogate_def low_surrogate_def char_ok_def)
qed

text \<open>\<open>u\<close> is a text for the octets \<open>e\<close> in front of any string.\<close>

definition escape_piece :: "octets \<Rightarrow> octets \<Rightarrow> bool" where
  "escape_piece u e \<longleftrightarrow> (\<forall>t bs. str_text t bs \<longrightarrow> str_text (u @ t) (e @ bs))"

lemma escape_utf32_text:
  assumes "char_ok c"
  shows "\<exists>u. (\<forall>w. escape_utf32 c w = written u w) \<and> escape_piece u (utf8_encode c)"
proof (cases "c \<le> 0xffff")
  case True
  then have "escape_utf32 c w = written (0x5c # 0x75 # hex_text (ucast c)) w" for w
    by (auto simp: escape_utf32_def EscapeUtf16_text word_le_nat_alt)
  moreover have "escape_piece (0x5c # 0x75 # hex_text (ucast c)) (utf8_encode (ucast (ucast c :: u16)))"
    using str_unicode [OF _ hex_text_value not_surrogate [OF assms True]] by (simp add: escape_piece_def)
  ultimately show ?thesis by (auto simp: ucast_u16_back [OF True])
next
  case False
  then have c: "0x10000 \<le> c" "c \<le> 0x10ffff" using assms by (auto simp: char_ok_def word_le_nat_alt)
  note s = surrogates_of [OF c]
  have "escape_utf32 c w = written (0x5c # 0x75 # hex_text (ucast (0xd800 OR drop_bit 10 (c - 0x10000))) @
      0x5c # 0x75 # hex_text (ucast (0xdc00 OR (c - 0x10000 AND 0x3ff)))) w" for w
    using c by (simp add: escape_utf32_def EscapeUtf16_text Let_def)
  moreover have "escape_piece (0x5c # 0x75 # hex_text (ucast (0xd800 OR drop_bit 10 (c - 0x10000))) @
      0x5c # 0x75 # hex_text (ucast (0xdc00 OR (c - 0x10000 AND 0x3ff)))) (utf8_encode c)"
    using str_pair [OF _ hex_text_value hex_text_value s(1,2)] by (simp add: escape_piece_def s(3))
  ultimately show ?thesis by blast
qed

lemma ascii_byte:
  assumes "c < 0x80"
  shows "unat (ucast (c :: u32) :: u8) = unat c" "utf8_encode c = [ucast c]"
  using assms take_bit_nat_eq_self [of "unat c" 8]
  by (simp_all add: unsigned_ucast_eq word_less_nat_alt utf8_encode_def word_le_nat_alt)

lemma escape_control_text:
  assumes "b < 32 \<or> b = 127"
  shows "\<exists>u. (\<forall>w. escape_ascii_control b w = written u w) \<and> escape_piece u [b]"
proof (cases "b \<in> {8, 12, 10, 13, 9}")
  case True
  define e :: u8 where "e = (if b = 8 then 0x62 else if b = 12 then 0x66 else if b = 10 then 0x6e
    else if b = 13 then 0x72 else 0x74)"
  have "escape_ascii_control b w = written [0x5c, e] w" for w using True by (auto simp: escape_ascii_control_def e_def)
  moreover have "escape_of e = Some b" using True by (auto simp: escape_of_def e_def)
  then have "escape_piece [0x5c, e] [b]" using str_escape by (simp add: escape_piece_def)
  ultimately show ?thesis by blast
next
  case False
  have b: "unat b < 128" using assms by (auto simp: word_less_nat_alt)
  let ?u = "ucast b :: u16"
  have u: "unat ?u = unat b" by (rule unat_byte_up) simp
  have "(ucast ?u :: u32) = ucast b" by (rule word_unat_eq_iff [THEN iffD2]) (simp add: unat_u16_up u unat_byte)
  then have e: "utf8_encode (ucast ?u) = [b]" using b by (simp add: utf8_encode_def word_le_nat_alt unat_byte)
  have "take_bit 7 ?u = ?u" by (rule take_bit_below) (use b u in simp)
  then have "?u AND 0xfc00 = ?u AND (mask 7 AND 0xfc00)" by (metis take_bit_eq_mask and.assoc)
  also have "mask 7 AND (0xfc00 :: u16) = 0" by code_simp
  finally have "\<not> high_surrogate ?u" "\<not> low_surrogate ?u" by (simp_all add: high_surrogate_def low_surrogate_def)
  then have "escape_piece (0x5c # 0x75 # hex_text ?u) [b]"
    using str_unicode [OF _ hex_text_value] by (fastforce simp: escape_piece_def e)
  moreover have "escape_ascii_control b w = written (0x5c # 0x75 # hex_text ?u) w" for w
    using False by (simp add: escape_ascii_control_def EscapeUtf16_text)
  ultimately show ?thesis by blast
qed

lemma escape_first:
  assumes "char_ok c"
  shows "\<exists>u. (\<forall>s w. escape_loop (utf8_encode c @ s) w = escape_loop s (written u w)) \<and> escape_piece u (utf8_encode c)"
proof (cases "c < 0x80")
  case True
  let ?b = "ucast c :: u8"
  note b = ascii_byte [OF True]
  have b0: "?b \<noteq> 0" "unat ?b < 128"
    using b(1) assms True by (auto simp: char_ok_def word_less_nat_alt)
  consider "?b = 0x5c \<or> ?b = 0x22" | "32 \<le> ?b" "?b \<le> 126" "?b \<noteq> 0x5c" "?b \<noteq> 0x22" | "?b < 32 \<or> ?b = 127"
  proof -
    have "?b = 127" if "unat ?b = 127" using that by (intro word_unat_eq_iff [THEN iffD2]) simp
    then show ?thesis using that b0(2) by (fastforce simp: word_le_nat_alt word_less_nat_alt)
  qed
  then show ?thesis
  proof cases
    case 1
    then have "escape_loop (?b # s) w = escape_loop s (written [0x5c, ?b] w)" for s w by auto
    moreover have "escape_piece [0x5c, ?b] [?b]" using 1 str_escape [of _ _ ?b ?b] by (auto simp: escape_piece_def escape_of_def)
    ultimately show ?thesis unfolding b(2) by (metis append_Cons append_Nil)
  next
    case 2
    then have "escape_loop (?b # s) w = escape_loop s (written [?b] w)" for s w using b0 by simp
    moreover have "escape_piece [?b] [?b]" using 2 str_plain b0(2) by (auto simp: escape_piece_def word_less_nat_alt)
    ultimately show ?thesis unfolding b(2) by (metis append_Cons append_Nil)
  next
    case 3
    obtain u where u: "\<And>w. escape_ascii_control ?b w = written u w" "escape_piece u [?b]"
      using escape_control_text [OF 3] by blast
    have "\<not> (32 \<le> ?b \<and> ?b \<le> 126)" "?b \<noteq> 0x5c" "?b \<noteq> 0x22" using 3 by auto
    then have "escape_loop (?b # s) w = escape_loop s (written u w)" for s w using b0(1) 3 by (auto simp: u(1))
    then show ?thesis using u(2) unfolding b(2) by (metis append_Cons append_Nil)
  qed
next
  case False
  then have c: "0x80 \<le> c" "c \<le> 0x1fffff" using assms by (auto simp: char_ok_def word_le_nat_alt word_less_nat_alt)
  obtain b bs u n where d: "utf8_encode c = b # bs" "utf8_first b = Some (u, n)" "\<And>s. utf8_tail n u (bs @ s) = Some (c, s)"
    "bit b 7" using decode_encode [OF c] by blast
  have "128 \<le> unat b" using bit_below [of b 7 7] d(4) by (cases "unat b < 2 ^ 7") auto
  then have "\<not> b \<le> 126" "\<not> b < 32" "b \<noteq> 127" "b \<noteq> 0" by (auto simp: word_le_nat_alt word_less_nat_alt)
  moreover have "\<not> (0xd800 \<le> c \<and> c \<le> 0xdfff \<or> 0x110000 \<le> c)" using assms by (auto simp: char_ok_def word_le_nat_alt)
  moreover obtain t where "\<And>w. escape_utf32 c w = written t w" "escape_piece t (utf8_encode c)"
    using escape_utf32_text [OF assms] by blast
  ultimately show ?thesis using d(2,3) by (intro exI [of _ t]) (auto simp: d(1))
qed

lemma escape_loop_text:
  "list_all char_ok cs \<Longrightarrow>
    \<exists>t. (\<forall>w. escape_loop (concat (map utf8_encode cs)) w = written t w) \<and> str_text t (concat (map utf8_encode cs))"
proof (induction cs)
  case Nil
  then show ?case using str_nil by (intro exI [of _ "[]"]) simp
next
  case (Cons c cs)
  obtain u where "\<And>s w. escape_loop (utf8_encode c @ s) w = escape_loop s (written u w)" "escape_piece u (utf8_encode c)"
    using escape_first [of c] Cons.prems by auto
  moreover obtain t where "\<And>w. escape_loop (concat (map utf8_encode cs)) w = written t w"
      "str_text t (concat (map utf8_encode cs))" using Cons by auto
  ultimately show ?case by (intro exI [of _ "u @ t"]) (simp add: escape_piece_def)
qed

lemma EscapeString_text:
  assumes "utf8_string s"
  shows "\<exists>t. (\<forall>w. EscapeString s w = written (0x22 # t @ [0x22]) w) \<and> str_text t s"
proof -
  obtain t where "\<And>w. escape_loop s w = written t w" "str_text t s"
    using assms escape_loop_text unfolding utf8_string_def by blast
  then show ?thesis by (intro exI [of _ t]) (simp add: EscapeString_def)
qed

section \<open>The output of a value\<close>

text \<open>
  Values that are written without loss: strings in UTF-8, numbers of JSON, and the keys of an object in
  their order.
\<close>

fun writable :: "json \<Rightarrow> bool" where
  "writable (STRING s) = utf8_string s"
| "writable (NUMBER s) = (json_number s \<and> \<not> zero_exponent s)"
| "writable (ARRAY xs) = list_all writable xs"
| "writable (OBJECT m) = (sorted_wrt byte_less (map fst m) \<and> list_all (\<lambda>(k, v). utf8_string k \<and> writable v) m)"
| "writable _ = True"

fun json_depth :: "json \<Rightarrow> nat" where
  "json_depth (ARRAY xs) = Suc (foldr max (map json_depth xs) 0)"
| "json_depth (OBJECT m) = Suc (foldr max (map (\<lambda>(k, v). json_depth v) m) 0)"
| "json_depth _ = 0"

lemma blank_simps [simp]: "blank []" "blank (c # w) \<longleftrightarrow> c \<in> {0x20, 9, 10, 13} \<and> blank w"
  "blank (v @ w) \<longleftrightarrow> blank v \<and> blank w" "blank (replicate n 0x20)"
  by (auto simp: blank_def)

lemma output_spaces_blank: "\<exists>s. output_spaces n w = written s w \<and> blank s"
proof (induction n w rule: output_spaces.induct)
  case (1 n w)
  show ?case
  proof (cases "64 \<le> n")
    case True
    then obtain s where "output_spaces (n - 64) (written (replicate 64 0x20) w) = written s (written (replicate 64 0x20) w)" "blank s"
      using 1 by auto
    then show ?thesis using True
      by (intro exI [of _ "replicate 64 0x20 @ s"]) (subst output_spaces.simps, simp)
  next
    case False
    then show ?thesis by (intro exI [of _ "replicate n 0x20"]) (subst output_spaces.simps, simp)
  qed
qed

text \<open>What comes before a value: blanks, after a comma if it is not the first of its container.\<close>

definition lead :: "bool \<Rightarrow> octets \<Rightarrow> octets" where
  "lead first b = (if first then b else 0x2c # b)"

lemma OutputIndent_blank: "\<exists>b. OutputIndent w = written b w \<and> blank b"
  using output_spaces_blank [of "unat (of_int (jw_depth w * jw_indent w) :: u32)" w]
  by (cases "jw_indent w = 0"; cases "jw_got_key w")
    (auto simp: OutputIndent_def Let_def intro: exI [of _ "[]"] exI [of _ "[0x20]"])

lemma value_start:
  "\<exists>b. OutputIndent (ValueEnd w) = written (lead (jw_container_empty w) b) (w\<lparr>jw_container_empty := False\<rparr>) \<and> blank b"
proof -
  let ?w = "w\<lparr>jw_container_empty := False\<rparr>"
  obtain b1 where b1: "ValueEnd w = written (lead (jw_container_empty w) b1) ?w" "blank b1"
  proof (cases "jw_container_empty w")
    case True
    then show thesis using that [of "if jw_indent w = 0 \<or> jw_depth w = 0 then [] else [10]"]
      by (simp add: ValueEnd_def lead_def Let_def)
  next
    case False
    then have "?w = w" by simp
    then show thesis using False that [of "if jw_indent w = 0 then [] else [10]"]
      by (simp add: ValueEnd_def lead_def Let_def del: written_simps(5,6)) (auto simp: ValueEnd_def)
  qed
  obtain b2 where "OutputIndent (ValueEnd w) = written b2 (ValueEnd w)" "blank b2" using OutputIndent_blank by blast
  then show ?thesis using b1 by (intro exI [of _ "b1 @ b2"]) (simp add: lead_def)
qed

lemma elements_trailing:
  "json_text d t j \<Longrightarrow> True" "elements_text d t js \<Longrightarrow> blank w \<Longrightarrow> elements_text d (t @ w) js"
  "members_text d t kvs \<Longrightarrow> blank w \<Longrightarrow> members_text d (t @ w) kvs"
proof (induction d t j and d t js and d t kvs rule: json_text_elements_text_members_text.inducts)
  case (text_element w1 d t j w2)
  then show ?case using json_text_elements_text_members_text.text_element [of w1 d t j "w2 @ w"] by simp
next
  case (text_elements w1 d t j w2 ts js)
  then show ?case using json_text_elements_text_members_text.text_elements [of w1 d t j w2 "ts @ w" js] by simp
next
  case (text_member w1 s k w2 w3 d t j w4)
  then show ?case using json_text_elements_text_members_text.text_member [of w1 s k w2 w3 d t j "w4 @ w"] by simp
next
  case (text_members w1 s k w2 w3 d t j w4 ts kvs)
  then show ?case
    using json_text_elements_text_members_text.text_members [of w1 s k w2 w3 d t j w4 "ts @ w" kvs] by simp
qed simp_all

text \<open>Entries in the order of their keys are put at the end.\<close>

lemma byte_less_irrefl: "\<not> byte_less k k"
  by (induction k) auto

lemma byte_less_asym: "byte_less a b \<Longrightarrow> \<not> byte_less b a"
  by (induction a b rule: byte_less.induct) auto

lemma object_put_last: "\<forall>k'\<in>fst ` set m. byte_less k' k \<Longrightarrow> object_put k v m = m @ [(k, v)]"
  by (induction m) (auto dest: byte_less_asym simp: byte_less_irrefl)

lemma object_of_sorted:
  "sorted_wrt byte_less (map fst (m0 @ m)) \<Longrightarrow> object_of m0 m = m0 @ m"
proof (induction m arbitrary: m0)
  case (Cons a m)
  have "object_put (fst a) (snd a) m0 = m0 @ [a]"
    using object_put_last [of m0 "fst a" "snd a"] Cons.prems by (auto simp: sorted_wrt_append)
  then show ?case using Cons.IH [of "m0 @ [a]"] Cons.prems by (simp add: object_of_def case_prod_beta)
qed (simp add: object_of_def)

lemma sorted_keys_distinct: "sorted_wrt byte_less ks \<Longrightarrow> distinct ks"
  by (induction ks) (auto simp: byte_less_irrefl)

lemma encode_nonzero:
  assumes "char_ok c"
  shows "0 \<notin> set (utf8_encode c)"
proof (cases "c < 0x80")
  case True
  then have "unat (ucast c :: u8) \<noteq> 0" using ascii_byte(1) [OF True] assms by (auto simp: char_ok_def word_less_nat_alt)
  then show ?thesis using ascii_byte(2) [OF True] by auto
next
  case False
  have "ucast (a OR (x AND m) :: u32) \<noteq> (0 :: u8)" if "bit a 7" for a x m
    using lead_byte_top [OF that, of x m] by (metis bit_0_eq bot_apply bot_bool_def)
  from this [of "0xc0"] this [of "0xe0"] this [of "0xf0"] this [of "0x80"]
  show ?thesis using False by (auto simp: utf8_encode_def word_le_nat_alt word_less_nat_alt)
qed

lemma utf8_string_nonzero: "utf8_string s \<Longrightarrow> takeWhile (\<lambda>c. c \<noteq> 0) s = s"
proof -
  assume "utf8_string s"
  then have "0 \<notin> set s" using encode_nonzero by (fastforce simp: utf8_string_def list_all_iff)
  then show ?thesis by (simp add: takeWhile_eq_all_conv) metis
qed

section \<open>The writer follows the grammar\<close>

text \<open>A value is the first of its container, or follows its key.\<close>

definition first_or_keyed :: "json_writer \<Rightarrow> bool" where
  "first_or_keyed w \<longleftrightarrow> jw_container_empty w \<or> jw_got_key w"

definition after_value :: "json_writer \<Rightarrow> json_writer" where
  "after_value w = w\<lparr>jw_container_empty := False, jw_got_key := False\<rparr>"

definition wok :: "json_writer \<Rightarrow> bool" where
  "wok w \<longleftrightarrow> (jw_got_key w \<longrightarrow> \<not> jw_container_empty w)"

lemma begin_value:
  assumes "wok w"
  shows "\<exists>b. OutputIndent (if \<not> jw_got_key w then ValueEnd w else w) =
    written (lead (first_or_keyed w) b) (w\<lparr>jw_container_empty := False\<rparr>) \<and> blank b"
proof (cases "jw_got_key w")
  case True
  then have "w\<lparr>jw_container_empty := False\<rparr> = w" using assms by (simp add: wok_def)
  then show ?thesis using True OutputIndent_blank [of w] by (simp add: lead_def first_or_keyed_def)
next
  case False
  then show ?thesis using value_start [of w] by (simp add: first_or_keyed_def)
qed

definition writes :: "json \<Rightarrow> json_writer \<Rightarrow> bool" where
  "writes v w \<longleftrightarrow> (\<exists>b t. DumpValue v w = written (lead (first_or_keyed w) b @ t) (after_value w) \<and> blank b \<and>
     (\<forall>d \<ge> json_depth v. json_text d t v))"

lemma writes_raw:
  assumes "wok w" "\<And>d. json_text d s v" "DumpValue v w = ValueRaw s w"
  shows "writes v w"
proof -
  obtain b where b: "OutputIndent (if \<not> jw_got_key w then ValueEnd w else w) =
      written (lead (first_or_keyed w) b) (w\<lparr>jw_container_empty := False\<rparr>)" "blank b" using begin_value [OF assms(1)] by blast
  have "ValueRaw s w = written (lead (first_or_keyed w) b @ s) (after_value w)"
    unfolding ValueRaw_def Let_def b(1) by (simp add: written_def after_value_def OutputString_def)
  then show ?thesis using assms(2,3) b(2) unfolding writes_def by (intro exI [of _ b] exI [of _ s]) simp
qed

lemma writes_string:
  assumes "wok w" "utf8_string s"
  shows "writes (STRING s) w"
proof -
  obtain b where b: "OutputIndent (if \<not> jw_got_key w then ValueEnd w else w) =
      written (lead (first_or_keyed w) b) (w\<lparr>jw_container_empty := False\<rparr>)" "blank b" using begin_value [OF assms(1)] by blast
  obtain t where t: "\<And>w. EscapeString s w = written (0x22 # t @ [0x22]) w" "str_text t s"
    using EscapeString_text [OF assms(2)] by blast
  have "DumpValue (STRING s) w = written (lead (first_or_keyed w) b @ 0x22 # t @ [0x22]) (after_value w)"
    unfolding DumpValue.simps ValueString_def Let_def b(1) t(1) by (simp add: written_def after_value_def)
  then show ?thesis using b(2) text_string [OF t(2)] unfolding writes_def by blast
qed

definition writes_elements :: "json list \<Rightarrow> json_writer \<Rightarrow> bool" where
  "writes_elements xs w \<longleftrightarrow> (if xs = [] then DumpElements xs w = w else
     (\<exists>u. DumpElements xs w = written (lead (jw_container_empty w) u) (after_value w) \<and>
       (\<forall>d. (\<forall>x\<in>set xs. json_depth x \<le> d) \<longrightarrow> elements_text d u xs)))"

definition writes_members :: "(octets \<times> json) list \<Rightarrow> json_writer \<Rightarrow> bool" where
  "writes_members m w \<longleftrightarrow> (if m = [] then DumpMembers m w = w else
     (\<exists>u. DumpMembers m w = written (lead (jw_container_empty w) u) (after_value w) \<and>
       (\<forall>d. (\<forall>(k, x)\<in>set m. json_depth x \<le> d) \<longrightarrow> members_text d u m)))"

lemma lead_append: "lead f b @ s = lead f (b @ s)"
  by (simp add: lead_def)

lemma after_value_simps [simp]:
  "wok (after_value w)" "\<not> jw_got_key (after_value w)" "\<not> jw_container_empty (after_value w)"
  "after_value (after_value w) = after_value w" "after_value (written s w) = written s (after_value w)"
  "wok (written s w) = wok w" "jw_indent (after_value w) = jw_indent w" "jw_depth (after_value w) = jw_depth w"
  by (simp_all add: after_value_def wok_def written_def)

lemma writes_elements_cons:
  assumes "writes v w" "writes_elements vs (DumpValue v w)" "\<not> jw_got_key w"
  shows "writes_elements (v # vs) w"
proof -
  obtain b t where v: "DumpValue v w = written (lead (jw_container_empty w) b @ t) (after_value w)" "blank b"
      "\<And>d. json_depth v \<le> d \<Longrightarrow> json_text d t v"
    using assms(1,3) by (auto simp: writes_def first_or_keyed_def)
  show ?thesis
  proof (cases "vs = []")
    case True
    have "elements_text d (b @ t @ []) [v]" if "json_depth v \<le> d" for d by (rule text_element) (use v that in simp_all)
    then show ?thesis using v(1) True by (auto simp: writes_elements_def lead_append)
  next
    case False
    then obtain u where u: "DumpElements vs (DumpValue v w) = written (0x2c # u) (DumpValue v w)"
        "\<And>d. \<forall>x\<in>set vs. json_depth x \<le> d \<Longrightarrow> elements_text d u vs"
      using assms(2) v(1) by (auto simp: writes_elements_def lead_def)
    have "elements_text d (b @ t @ [] @ 0x2c # u) (v # vs)" if "\<forall>x\<in>set (v # vs). json_depth x \<le> d" for d
      by (rule text_elements) (use v u that in simp_all)
    then show ?thesis using u(1) v(1) by (auto simp: writes_elements_def lead_append)
  qed
qed

lemma ObjectKey_text:
  assumes "\<not> jw_got_key w" "utf8_string k"
  shows "\<exists>b s. ObjectKey k w = written (lead (jw_container_empty w) (b @ 0x22 # s @ [0x22, 0x3a]))
    (w\<lparr>jw_container_empty := False, jw_got_key := True\<rparr>) \<and> blank b \<and> str_text s k"
proof -
  obtain b where b: "OutputIndent (ValueEnd w) = written (lead (jw_container_empty w) b) (w\<lparr>jw_container_empty := False\<rparr>)"
      "blank b" using value_start by blast
  obtain s where s: "\<And>w. EscapeString k w = written (0x22 # s @ [0x22]) w" "str_text s k"
    using EscapeString_text [OF assms(2)] by blast
  have "ObjectKey k w = written (lead (jw_container_empty w) (b @ 0x22 # s @ [0x22, 0x3a]))
    (w\<lparr>jw_container_empty := False, jw_got_key := True\<rparr>)"
    unfolding ObjectKey_def utf8_string_nonzero [OF assms(2)] Let_def b(1) s(1)
    by (simp add: written_def OutputChar_def lead_def)
  then show ?thesis using b(2) s(2) by blast
qed

lemma writes_members_cons:
  assumes "writes v (ObjectKey k w)" "writes_members m (DumpValue v (ObjectKey k w))" "\<not> jw_got_key w" "utf8_string k"
  shows "writes_members ((k, v) # m) w"
proof -
  obtain b s where k: "ObjectKey k w = written (lead (jw_container_empty w) (b @ 0x22 # s @ [0x22, 0x3a]))
    (w\<lparr>jw_container_empty := False, jw_got_key := True\<rparr>)" "blank b" "str_text s k"
    using ObjectKey_text [OF assms(3,4)] by blast
  obtain b' t where v: "DumpValue v (ObjectKey k w) = written (b' @ t) (after_value (ObjectKey k w))" "blank b'"
      "\<And>d. json_depth v \<le> d \<Longrightarrow> json_text d t v"
    using assms(1) by (auto simp: writes_def first_or_keyed_def k(1) lead_def)
  have w: "after_value (w\<lparr>jw_container_empty := False, jw_got_key := True\<rparr>) = after_value w" by (simp add: after_value_def)
  let ?kv = "b @ 0x22 # s @ 0x22 # [] @ 0x3a # b' @ t @ []"
  have dump: "DumpValue v (ObjectKey k w) = written (lead (jw_container_empty w) ?kv) (after_value w)"
    by (subst v(1)) (simp add: k(1) w lead_def)
  show ?thesis
  proof (cases "m = []")
    case True
    have "members_text d ?kv [(k, v)]" if "json_depth v \<le> d" for d by (rule text_member) (use k v that in simp_all)
    then show ?thesis using dump True by (auto simp: writes_members_def)
  next
    case False
    then obtain u where u: "DumpMembers m (DumpValue v (ObjectKey k w)) = written (0x2c # u) (DumpValue v (ObjectKey k w))"
        "\<And>d. \<forall>(k, x)\<in>set m. json_depth x \<le> d \<Longrightarrow> members_text d u m"
      using assms(2) dump by (auto simp: writes_members_def lead_def)
    have "members_text d (b @ 0x22 # s @ 0x22 # [] @ 0x3a # b' @ t @ [] @ 0x2c # u) ((k, v) # m)"
      if "\<forall>(k, x)\<in>set ((k, v) # m). json_depth x \<le> d" for d
      by (rule text_members) (use k v u that in simp_all)
    then show ?thesis using u(1) dump by (auto simp: writes_members_def lead_append)
  qed
qed

text \<open>The brackets of a container around what is written inside.\<close>

lemma container_begin:
  assumes "wok w"
  shows "\<exists>b. ContainerBegins object w = written (lead (first_or_keyed w) b @ [if object then 0x7b else 0x5b])
      (w\<lparr>jw_container_empty := True, jw_got_key := False, jw_depth := jw_depth w + 1\<rparr>) \<and> blank b"
proof -
  obtain b where b: "OutputIndent (if \<not> jw_got_key w then ValueEnd w else w) =
      written (lead (first_or_keyed w) b) (w\<lparr>jw_container_empty := False\<rparr>)" "blank b" using begin_value [OF assms] by blast
  then show ?thesis by (intro exI [of _ b]) (simp add: ContainerBegins_def Let_def b(1) written_def OutputChar_def)
qed

lemma container_end:
  shows "\<exists>b. ContainerEnds object (written s (w\<lparr>jw_container_empty := e, jw_got_key := False, jw_depth := jw_depth w + 1\<rparr>)) =
      written (s @ b @ [if object then 0x7d else 0x5d]) (after_value w) \<and> blank b"
proof -
  let ?b0 = "if jw_indent w \<noteq> 0 \<and> \<not> e then [10] else [] :: octets"
  let ?w = "written (s @ ?b0) (w\<lparr>jw_container_empty := e, jw_got_key := False\<rparr>)"
  obtain b where b: "(if \<not> e then OutputIndent ?w else ?w) = written b ?w" "blank b"
  proof (cases e)
    case True
    then show thesis by (intro that [of "[]"]) simp_all
  next
    case False
    then show thesis using OutputIndent_blank [of ?w] that by auto
  qed
  have "ContainerEnds object (written s (w\<lparr>jw_container_empty := e, jw_got_key := False, jw_depth := jw_depth w + 1\<rparr>)) =
      (OutputChar (if object then 0x7d else 0x5d) (if \<not> e then OutputIndent ?w else ?w))
        \<lparr>jw_container_empty := False, jw_got_key := False\<rparr>"
    by (cases e) (simp_all add: ContainerEnds_def Let_def written_def OutputChar_def)
  also have "\<dots> = written (s @ (?b0 @ b) @ [if object then 0x7d else 0x5d]) (after_value w)"
    unfolding b(1) by (simp add: written_def after_value_def OutputChar_def)
  finally show ?thesis using b(2) by (intro exI [of _ "?b0 @ b"]) simp
qed

lemma foldr_max_le: "(\<forall>x\<in>set xs. f x \<le> d) \<longleftrightarrow> foldr max (map f xs) 0 \<le> (d :: nat)"
  by (induction xs) auto

lemma writes_array:
  assumes "wok w" "writes_elements xs (ContainerBegins False w)"
  shows "writes (ARRAY xs) w"
proof -
  let ?in = "w\<lparr>jw_container_empty := True, jw_got_key := False, jw_depth := jw_depth w + 1\<rparr>"
  obtain b where b: "ContainerBegins False w = written (lead (first_or_keyed w) b @ [0x5b]) ?in" "blank b"
    using container_begin [OF assms(1), of False] by auto
  obtain u e where u: "DumpElements xs (ContainerBegins False w) =
      written (lead (first_or_keyed w) b @ 0x5b # u) (w\<lparr>jw_container_empty := e, jw_got_key := False, jw_depth := jw_depth w + 1\<rparr>)"
      "xs = [] \<longrightarrow> u = []" "\<And>d. xs \<noteq> [] \<Longrightarrow> \<forall>x\<in>set xs. json_depth x \<le> d \<Longrightarrow> elements_text d u xs"
  proof (cases "xs = []")
    case True
    then show thesis using that [of "[]" True] b(1) assms(2) by (simp add: writes_elements_def)
  next
    case False
    then obtain u where "DumpElements xs (ContainerBegins False w) = written u (after_value (ContainerBegins False w))"
        "\<And>d. \<forall>x\<in>set xs. json_depth x \<le> d \<Longrightarrow> elements_text d u xs"
      using assms(2) b(1) by (auto simp: writes_elements_def lead_def)
    then show thesis using that [of u False] b(1) False by (simp add: after_value_def written_def)
  qed
  obtain c where c: "DumpValue (ARRAY xs) w = written (lead (first_or_keyed w) b @ 0x5b # u @ c @ [0x5d]) (after_value w)" "blank c"
    using container_end [of False "lead (first_or_keyed w) b @ 0x5b # u" w e] u(1) by auto
  have "json_text d (0x5b # u @ c @ [0x5d]) (ARRAY xs)" if d: "json_depth (ARRAY xs) \<le> d" for d
  proof -
    obtain d' where d': "d = Suc d'" using d by (cases d) auto
    show ?thesis
    proof (cases "xs = []")
      case True
      then show ?thesis using u(2) text_empty_array [OF c(2)] by (simp add: d')
    next
      case False
      then have "elements_text d' u xs" using u(3) d foldr_max_le [of xs json_depth d'] by (simp add: d')
      then show ?thesis using text_array [OF elements_trailing(2) [OF _ c(2)]] by (simp add: d')
    qed
  qed
  then show ?thesis using c(1) b(2) unfolding writes_def by (intro exI [of _ b] exI [of _ "0x5b # u @ c @ [0x5d]"]) simp
qed

lemma writes_object:
  assumes "wok w" "writes_members m (ContainerBegins True w)" "sorted_wrt byte_less (map fst m)"
  shows "writes (OBJECT m) w"
proof -
  let ?in = "w\<lparr>jw_container_empty := True, jw_got_key := False, jw_depth := jw_depth w + 1\<rparr>"
  obtain b where b: "ContainerBegins True w = written (lead (first_or_keyed w) b @ [0x7b]) ?in" "blank b"
    using container_begin [OF assms(1), of True] by auto
  obtain u e where u: "DumpMembers m (ContainerBegins True w) =
      written (lead (first_or_keyed w) b @ 0x7b # u) (w\<lparr>jw_container_empty := e, jw_got_key := False, jw_depth := jw_depth w + 1\<rparr>)"
      "m = [] \<longrightarrow> u = []" "\<And>d. m \<noteq> [] \<Longrightarrow> \<forall>(k, x)\<in>set m. json_depth x \<le> d \<Longrightarrow> members_text d u m"
  proof (cases "m = []")
    case True
    then show thesis using that [of "[]" True] b(1) assms(2) by (simp add: writes_members_def)
  next
    case False
    then obtain u where "DumpMembers m (ContainerBegins True w) = written u (after_value (ContainerBegins True w))"
        "\<And>d. \<forall>(k, x)\<in>set m. json_depth x \<le> d \<Longrightarrow> members_text d u m"
      using assms(2) b(1) by (auto simp: writes_members_def lead_def)
    then show thesis using that [of u False] b(1) False by (simp add: after_value_def written_def)
  qed
  obtain c where c: "DumpValue (OBJECT m) w = written (lead (first_or_keyed w) b @ 0x7b # u @ c @ [0x7d]) (after_value w)" "blank c"
    using container_end [of True "lead (first_or_keyed w) b @ 0x7b # u" w e] u(1) by auto
  have "json_text d (0x7b # u @ c @ [0x7d]) (OBJECT m)" if d: "json_depth (OBJECT m) \<le> d" for d
  proof -
    obtain d' where d': "d = Suc d'" using d by (cases d) auto
    show ?thesis
    proof (cases "m = []")
      case True
      then show ?thesis using u(2) text_empty_object [OF c(2)] by (simp add: d')
    next
      case False
      have "\<forall>(k, x)\<in>set m. json_depth x \<le> d'"
        using d foldr_max_le [of m "\<lambda>(k, v). json_depth v" d'] by (auto simp: d')
      then have "members_text d' u m" using u(3) False by blast
      then have "json_text (Suc d') (0x7b # (u @ c) @ [0x7d]) (OBJECT (object_of [] m))"
        by (intro text_object elements_trailing(3) [OF _ c(2)] sorted_keys_distinct [OF assms(3)])
      then show ?thesis using object_of_sorted [of "[]" m] assms(3) by (simp add: d')
    qed
  qed
  then show ?thesis using c(1) b(2) unfolding writes_def by (intro exI [of _ b] exI [of _ "0x7b # u @ c @ [0x7d]"]) simp
qed

lemma after_DumpValue: "writes v w \<Longrightarrow> \<exists>s. DumpValue v w = written s (after_value w)"
  unfolding writes_def by blast

lemma ContainerBegins_wok: "wok w \<Longrightarrow> \<not> jw_got_key (ContainerBegins b w)"
  by (simp add: ContainerBegins_def Let_def)

lemma dump_writes:
  "writable v \<Longrightarrow> wok w \<Longrightarrow> writes v w"
  "list_all (\<lambda>(k, v). utf8_string k \<and> writable v) m \<Longrightarrow> \<not> jw_got_key w \<Longrightarrow> writes_members m w"
  "list_all writable xs \<Longrightarrow> \<not> jw_got_key w \<Longrightarrow> writes_elements xs w"
proof (induction v w and m w and xs w rule: DumpValue_DumpMembers_DumpElements.induct)
  case (1 m w)
  then show ?case by (intro writes_object) (simp_all add: ContainerBegins_wok)
next
  case (2 xs w)
  then show ?case by (intro writes_array) (simp_all add: ContainerBegins_wok)
next
  case (3 s w)
  then show ?case by (intro writes_string) simp_all
next
  case (4 s w)
  then show ?case by (intro writes_raw [where s = s] text_number) simp_all
next
  case (5 w)
  then show ?case by (intro writes_raw [OF _ text_true]) simp_all
next
  case (6 w)
  then show ?case by (intro writes_raw [OF _ text_false]) simp_all
next
  case (7 w)
  then show ?case by (intro writes_raw [OF _ text_null]) simp_all
next
  case (8 w)
  then show ?case by (simp add: writes_members_def)
next
  case (9 k v m w)
  then have k: "utf8_string k" "writable v" "list_all (\<lambda>(k, v). utf8_string k \<and> writable v) m" by auto
  have "wok (ObjectKey k w)" using ObjectKey_text [OF 9(4) k(1)] by (auto simp: wok_def)
  then have v: "writes v (ObjectKey k w)" using 9(1) k(2) by blast
  then have "\<not> jw_got_key (DumpValue v (ObjectKey k w))" using after_DumpValue by fastforce
  then show ?case using writes_members_cons [OF v _ 9(4) k(1)] 9(2) k(3) by blast
next
  case (10 w)
  then show ?case by (simp add: writes_elements_def)
next
  case (11 v vs w)
  then have v: "writes v w" by (simp add: wok_def)
  then have "\<not> jw_got_key (DumpValue v w)" using after_DumpValue by fastforce
  then show ?case using writes_elements_cons [OF v] 11 by simp
qed

lemma dump_document:
  assumes "writable v"
  shows "json_document (json_depth v) (Dump indent v) v"
proof -
  have "wok (json_writer_init indent)" by (simp add: wok_def json_writer_init_def)
  from dump_writes(1) [OF assms this] obtain b t where "jw_output (DumpValue v (json_writer_init indent)) = b @ t" "blank b"
    "json_text (json_depth v) t v"
    by (auto simp: writes_def first_or_keyed_def json_writer_init_def lead_def after_value_def)
  then show ?thesis unfolding json_document_def Dump_def
    by (intro exI [of _ b] exI [of _ t] exI [of _ "[]"]) simp
qed

section \<open>Properties\<close>

text \<open>
  The writer's text, with any indentation, is a JSON document of the value, for a value whose
  strings are UTF-8 without null, whose numbers are JSON numbers and whose keys are in their order.
\<close>

theorem json_dump_document:
  assumes "writable v"
  shows "json_document (json_depth v) (Dump indent v) v"
  using assms by (rule dump_document)

definition unicode_value :: json where
  "unicode_value = OBJECT [([0x61], ARRAY [STRING (utf8_encode 0xe9 @ utf8_encode 0x1f600 @ [0x0a, 0x22]), NUMBER [0x30]]),
     ([0x62], JSON_NULL)]"

lemma unicode_value_writable: "writable unicode_value" "json_depth unicode_value = 2"
proof -
  have k: "utf8_string [c]" if "0 < c" "c < 0x80" for c :: u8
  proof -
    have "char_ok (ucast c)" using that by (auto simp: char_ok_def word_less_nat_alt word_le_nat_alt unat_byte)
    moreover have "utf8_encode (ucast c) = [c]" using that by (simp add: utf8_encode_def word_less_nat_alt word_le_nat_alt unat_byte)
    ultimately show ?thesis unfolding utf8_string_def by (intro exI [of _ "[ucast c]"]) simp
  qed
  have "utf8_string (utf8_encode 0xe9 @ utf8_encode 0x1f600 @ [0x0a, 0x22])"
    unfolding utf8_string_def
    by (intro exI [of _ "[0xe9, 0x1f600, 0x0a, 0x22]"]) (simp add: char_ok_def utf8_encode_def)
  moreover have "json_number [0x30]"
    unfolding json_number_def
    by (intro exI [of _ "[]"] exI [of _ "[0x30]"]) (simp add: int_part_def frac_part_def exp_part_def)
  ultimately show "writable unicode_value" by (simp add: unicode_value_def zero_exponent_def k)
  show "json_depth unicode_value = 2" by (simp add: unicode_value_def)
qed

theorem json_dump_document_witness: "json_document 2 (Dump 4 unicode_value) unicode_value"
  using json_dump_document [OF unicode_value_writable(1), of 4] by (simp add: unicode_value_writable(2))

text \<open>
  C2: What the writer writes, the parser reads back: for every indentation, parsing the dump of such a
  value with at most 255 containers inside each other gives the value.
\<close>

theorem json_round_trip:
  assumes "writable v" and "json_depth v \<le> 255"
  shows "Parse (Dump indent v) = Some (Inr v)"
  using reads_document [OF dump_document [OF assms(1)] assms(2)] .

theorem json_round_trip_witness: "Parse (Dump 2 unicode_value) = Some (Inr unicode_value)"
  by (rule json_round_trip [OF unicode_value_writable(1)]) (simp add: unicode_value_writable(2))

end
