(* ===== verification/Grpc_Json_Safe.thy ===== *)
theory Grpc_Json_Safe
  imports Grpc_Json_Reader
begin

text \<open>
  The JSON parser on every input: no assertion of it fails, it reports no internal error, and the value
  is never deeper than the limit.
\<close>

section \<open>The invariant of the reader\<close>

definition container_at :: "json \<Rightarrow> json_ptr \<Rightarrow> bool" where
  "container_at v p \<longleftrightarrow> (\<exists>w. json_at p v = Some w \<and> json_type w \<in> {T_OBJECT, T_ARRAY})"

text \<open>The stack is a chain of pointers from the innermost open container to the root.\<close>

fun stack_ok :: "json \<Rightarrow> json_ptr list \<Rightarrow> bool" where
  "stack_ok v [] = True"
| "stack_ok v [p] = (p = [] \<and> container_at v p)"
| "stack_ok v (p # q # s) = (container_at v p \<and> (\<exists>e. p = q @ [e]) \<and> stack_ok v (q # s))"

definition reader_inv :: "json_reader \<Rightarrow> bool" where
  "reader_inv r \<longleftrightarrow> jr_utf8_bytes_remaining r \<in> {0, 1, 2, 3} \<and> stack_ok (jr_root_value r) (jr_stack r) \<and>
     length (jr_stack r) \<le> GRPC_JSON_MAX_DEPTH"

definition ok_out :: "json_out \<Rightarrow> bool" where
  "ok_out out = (case out of Continue r \<Rightarrow> reader_inv r | Done _ \<Rightarrow> True | Parse_error _ \<Rightarrow> True
     | Internal_error _ \<Rightarrow> False | Abort \<Rightarrow> False)"

lemma ok_out_simps [simp]:
  "ok_out (Continue r) = reader_inv r" "ok_out (Done r)" "ok_out (Parse_error r)"
  "\<not> ok_out (Internal_error r)" "\<not> ok_out Abort"
  by (simp_all add: ok_out_def)

lemma reader_inv_simps [simp]:
  "reader_inv (r\<lparr>jr_index := i\<rparr>) = reader_inv r" "reader_inv (r\<lparr>jr_state := st\<rparr>) = reader_inv r"
  "reader_inv (r\<lparr>jr_escaped_string_was_key := b\<rparr>) = reader_inv r"
  "reader_inv (r\<lparr>jr_container_just_begun := b\<rparr>) = reader_inv r"
  "reader_inv (r\<lparr>jr_unicode_char := u\<rparr>) = reader_inv r"
  "reader_inv (r\<lparr>jr_unicode_high_surrogate := u\<rparr>) = reader_inv r"
  "reader_inv (r\<lparr>jr_errors := es\<rparr>) = reader_inv r" "reader_inv (r\<lparr>jr_truncated_errors := b\<rparr>) = reader_inv r"
  "reader_inv (r\<lparr>jr_key := s\<rparr>) = reader_inv r" "reader_inv (r\<lparr>jr_string := s\<rparr>) = reader_inv r"
  by (simp_all add: reader_inv_def)

lemma ok_proceed: "ok_out out \<Longrightarrow> (\<And>r. reader_inv r \<Longrightarrow> ok_out (k r)) \<Longrightarrow> ok_out (proceed out k)"
  by (cases out) simp_all

lemma ok_goto [simp]: "ok_out (goto st r) = reader_inv r"
  by (simp add: goto_def)

lemma ok_StringAddChar: "reader_inv r \<Longrightarrow> ok_out (StringAddChar c r)"
  by (auto simp: StringAddChar_def reader_inv_def utf8_lead_def split: option.splits if_splits)

lemma ok_StringAddUtf32: "reader_inv r \<Longrightarrow> ok_out (StringAddUtf32 c r)"
  by (auto simp: StringAddUtf32_def Let_def intro!: ok_proceed ok_StringAddChar)

section \<open>Updates below the stack\<close>

lemma json_type_upd: "p \<noteq> [] \<Longrightarrow> json_type (json_upd p f v) = json_type v"
  by (cases p; cases "hd p"; cases v) auto

lemma container_upd_below:
  assumes "container_at v p" "s \<noteq> []"
  shows "container_at (json_upd (p @ s) f v) p"
  using assms by (auto simp: container_at_def json_at_upd_prefix json_type_upd)

lemma stack_ok_upd_below:
  assumes "stack_ok v (p # stk)" "s \<noteq> []"
  shows "stack_ok (json_upd (p @ s) f v) (p # stk)"
  using assms
proof (induction stk arbitrary: p s)
  case Nil
  then show ?case using container_upd_below [of v p s f] by auto
next
  case (Cons q stk)
  then obtain e where e: "p = q @ [e]" by auto
  then have "stack_ok (json_upd (q @ (e # s)) f v) (q # stk)" using Cons.prems by (intro Cons.IH) simp_all
  then show ?case using Cons.prems e container_upd_below [of v p s f] by simp
qed

lemma stack_ok_upd_top:
  assumes "stack_ok v (p # stk)" "\<And>w. json_type (f w) \<in> {T_OBJECT, T_ARRAY}"
  shows "stack_ok (json_upd p f v) (p # stk)"
proof -
  have top: "container_at (json_upd p f v) p"
    using assms by (cases stk) (auto simp: container_at_def json_at_upd)
  show ?thesis
  proof (cases stk)
    case (Cons q s)
    then obtain e where e: "p = q @ [e]" "stack_ok v (q # s)" using assms(1) by auto
    then show ?thesis using top stack_ok_upd_below [OF e(2), of "[e]" f] Cons by simp
  qed (use top assms(1) in simp)
qed

lemma stack_okD: "stack_ok v (p # stk) \<Longrightarrow> container_at v p \<and> stack_ok v stk"
  by (cases stk) auto

lemma map_of_object_slot_Some: "\<exists>v. map_of (object_slot k m) k = Some v"
  by (induction m) auto

text \<open>The pointer that \<open>CreateAndLinkValue\<close> returns is one step below the top of the stack.\<close>

lemma link_inv:
  assumes "reader_inv r"
  obtains p r1 where "CreateAndLinkValue r = Some (p, r1)" "reader_inv r1" "jr_stack r1 = jr_stack r"
    "\<forall>w. container_at (json_upd p (\<lambda>_. w) (jr_root_value r1)) p \<longleftrightarrow> json_type w \<in> {T_OBJECT, T_ARRAY}"
    "case jr_stack r of [] \<Rightarrow> p = [] | q # _ \<Rightarrow> \<exists>e. p = q @ [e]"
proof (cases "jr_stack r")
  case Nil
  then show thesis using assms by (intro that [of "[]" r]) (simp_all add: CreateAndLinkValue_def container_at_def)
next
  case (Cons q s)
  have ok: "stack_ok (jr_root_value r) (q # s)" using assms Cons by (simp add: reader_inv_def)
  have at_new: "container_at (json_upd p (\<lambda>_. w) v) p \<longleftrightarrow> json_type w \<in> {T_OBJECT, T_ARRAY}"
    if "\<exists>x. json_at p v = Some x" for p v w using that by (auto simp: container_at_def json_at_upd)
  consider m where "json_at q (jr_root_value r) = Some (OBJECT m)" | xs where "json_at q (jr_root_value r) = Some (ARRAY xs)"
    using stack_okD [OF ok] by (auto simp: container_at_def elim!: json_type.elims)
  then show thesis
  proof cases
    case 1
    define r0 where "r0 = (if map_of m (jr_key r) \<noteq> None
      then add_error (Duplicate_key (jr_key r) (CurrentIndex r)) r else r)"
    have r0: "reader_inv r0" "jr_root_value r0 = jr_root_value r" "jr_stack r0 = jr_stack r"
        "jr_utf8_bytes_remaining r0 = jr_utf8_bytes_remaining r"
      using assms by (simp_all add: r0_def add_error_def)
    let ?v = "json_upd q (\<lambda>_. OBJECT (object_slot (jr_key r) m)) (jr_root_value r)"
    have "\<exists>x. json_at (q @ [Member (jr_key r)]) ?v = Some x"
      using map_of_object_slot_Some [of "jr_key r" m] by (auto simp: json_at_append json_at_upd 1)
    moreover have "stack_ok ?v (q # s)" by (rule stack_ok_upd_top [OF ok]) simp
    moreover have "CreateAndLinkValue r = Some (q @ [Member (jr_key r)], r0\<lparr>jr_root_value := ?v\<rparr>)"
      by (cases "map_of m (jr_key r)") (simp_all add: CreateAndLinkValue_def Cons 1 r0_def add_error_def Let_def)
    ultimately show thesis using assms Cons r0 at_new
      by (intro that [of "q @ [Member (jr_key r)]" "r0\<lparr>jr_root_value := ?v\<rparr>"]) (auto simp: reader_inv_def)
  next
    case 2
    let ?v = "json_upd q (\<lambda>_. ARRAY (xs @ [JSON_NULL])) (jr_root_value r)"
    have "\<exists>x. json_at (q @ [Element (length xs)]) ?v = Some x" by (simp add: json_at_append json_at_upd 2)
    moreover have "stack_ok ?v (q # s)" by (rule stack_ok_upd_top [OF ok]) simp
    moreover have "CreateAndLinkValue r = Some (q @ [Element (length xs)], r\<lparr>jr_root_value := ?v\<rparr>)"
      by (simp add: CreateAndLinkValue_def Cons 2)
    ultimately show thesis using assms Cons at_new
      by (intro that [of "q @ [Element (length xs)]" "r\<lparr>jr_root_value := ?v\<rparr>"]) (auto simp: reader_inv_def)
  qed
qed

lemma assign_inv:
  assumes "reader_inv r1" "case jr_stack r1 of [] \<Rightarrow> p = [] | q # _ \<Rightarrow> \<exists>e. p = q @ [e]"
  shows "reader_inv (assign_value p w r1)"
proof (cases "jr_stack r1")
  case (Cons q s)
  then obtain e where "p = q @ [e]" using assms(2) by auto
  then show ?thesis using assms(1) Cons stack_ok_upd_below [of "jr_root_value r1" q s "[e]"]
    by (simp add: assign_value_def reader_inv_def)
qed (use assms(1) in \<open>simp add: assign_value_def reader_inv_def\<close>)

lemma ok_set:
  assumes "reader_inv r"
  shows "ok_out (SetString r)" "ok_out (SetNumber r)" "ok_out (SetTrue r)" "ok_out (SetFalse r)" "ok_out (SetNull r)"
proof -
  obtain p r1 where p: "CreateAndLinkValue r = Some (p, r1)" "reader_inv r1" "jr_stack r1 = jr_stack r"
    "case jr_stack r of [] \<Rightarrow> p = [] | q # _ \<Rightarrow> \<exists>e. p = q @ [e]" by (rule link_inv [OF assms])
  have "reader_inv (assign_value p w r1)" for w by (rule assign_inv [OF p(2)]) (use p(3,4) in simp)
  then show "ok_out (SetString r)" "ok_out (SetNumber r)" "ok_out (SetTrue r)" "ok_out (SetFalse r)" "ok_out (SetNull r)"
    using p(2) by (simp_all add: SetString_def SetNumber_def SetTrue_def SetFalse_def SetNull_def p(1))
qed

lemma ok_StartContainer:
  assumes "reader_inv r" "json_type w \<in> {T_OBJECT, T_ARRAY}"
  shows "ok_out (StartContainer w r)"
proof (cases "length (jr_stack r) = GRPC_JSON_MAX_DEPTH")
  case False
  obtain p r1 where p: "CreateAndLinkValue r = Some (p, r1)" "reader_inv r1" "jr_stack r1 = jr_stack r"
    "\<forall>w. container_at (json_upd p (\<lambda>_. w) (jr_root_value r1)) p \<longleftrightarrow> json_type w \<in> {T_OBJECT, T_ARRAY}"
    "case jr_stack r of [] \<Rightarrow> p = [] | q # _ \<Rightarrow> \<exists>e. p = q @ [e]" by (rule link_inv [OF assms(1)])
  have "reader_inv (assign_value p w r1)" by (rule assign_inv [OF p(2)]) (use p(3,5) in simp)
  then have a: "reader_inv (assign_value p w r1)" "jr_stack (assign_value p w r1) = jr_stack r"
    using p(3) by (simp_all add: assign_value_def)
  have top: "container_at (jr_root_value (assign_value p w r1)) p" using p(4) assms(2) by (simp add: assign_value_def)
  have "stack_ok (jr_root_value (assign_value p w r1)) (p # jr_stack r)"
    using a top p(5) by (cases "jr_stack r") (simp_all add: reader_inv_def)
  then have "reader_inv ((assign_value p w r1)\<lparr>jr_stack := p # jr_stack r\<rparr>)"
    using a False by (simp add: reader_inv_def)
  then show ?thesis using False a(2) by (simp add: StartContainer_def p(1) Let_def)
qed (simp add: StartContainer_def)

lemma ok_EndContainer: "reader_inv r \<Longrightarrow> jr_stack r \<noteq> [] \<Longrightarrow> ok_out (EndContainer r)"
  by (cases "jr_stack r") (auto simp: EndContainer_def reader_inv_def dest: stack_okD)

section \<open>Every step keeps the invariant\<close>

lemma ok_end_or_next: "reader_inv r \<Longrightarrow> ok_out (end_or_next c r)"
  by (auto simp: end_or_next_def intro!: ok_proceed ok_EndContainer)

lemma ok_default:
  assumes "reader_inv r" "c \<notin> {0x2c, 0x7d, 0x5d}"
  shows "ok_out (step_default c r)"
proof -
  have "reader_inv (r\<lparr>jr_container_just_begun := False\<rparr>)" using assms(1) by simp
  note ok = this ok_set ok_StringAddChar ok_StringAddUtf32 ok_StartContainer
  show ?thesis using assms(2)
    by (cases "jr_state r")
      (auto simp: assms(1) step_default_def value_literal_def letter_def key_string_def value_string_def SetKey_def value_begin_def
        string_escape_def escape_digit_def escape_end_def value_number_def value_number_with_decimal_def
        value_number_zero_def value_number_dot_def value_number_e_def value_number_epm_def Let_def
        intro!: ok ok_proceed split: option.splits)
qed

lemma ok_step:
  assumes "reader_inv r"
  shows "ok_out (json_step c r)"
proof -
  note ok = assms ok_set ok_StringAddChar
  have "ok_out (step_eof r)" by (auto simp: step_eof_def assms intro!: ok ok_proceed)
  moreover have "ok_out (step_whitespace c r)"
    by (auto simp: step_whitespace_def Let_def assms intro!: ok ok_proceed)
  moreover have "ok_out (step_delimiter c r)"
    by (auto simp: step_delimiter_def Let_def assms intro!: ok ok_proceed ok_end_or_next)
  moreover have "ok_out (step_backslash r)"
    by (cases "jr_state r") (auto simp: step_backslash_def assms intro!: ok ok_proceed)
  moreover have "ok_out (step_default c r)" if "c \<notin> {0x2c, 0x7d, 0x5d}" using ok_default assms that by blast
  ultimately show ?thesis unfolding json_step_def by (simp split: if_splits)
qed

lemma ok_step_eof: "reader_inv r \<Longrightarrow> \<exists>r'. step_eof r = Done r' \<or> step_eof r = Parse_error r'"
proof -
  assume inv: "reader_inv r"
  have "ok_out (step_eof r)" using ok_step [OF inv, of GRPC_JSON_READ_CHAR_EOF] by (simp add: json_step_def)
  moreover have "step_eof r \<noteq> Continue r'" for r'
    unfolding step_eof_def by (rule notI, cases "jr_state r \<in> number_end_states"; cases "SetNumber r")
      (auto simp: goto_def split: if_splits)
  ultimately show ?thesis by (cases "step_eof r") auto
qed

lemma Run_ok: "reader_inv r \<Longrightarrow> \<exists>r'. Run input r = Done r' \<or> Run input r = Parse_error r'"
proof (induction input r rule: Run.induct)
  case (1 input r)
  obtain c rest r1 where rc: "ReadChar input r = (c, rest, r1)" by (cases "ReadChar input r")
  then have inv: "reader_inv r1" using 1(2) by (cases input) (auto simp: Let_def split: if_splits)
  show ?case
  proof (cases "c = GRPC_JSON_READ_CHAR_EOF")
    case True
    then have "Run input r = step_eof r1" by (subst Run.simps) (simp add: rc)
    then show ?thesis using ok_step_eof [OF inv] by simp
  next
    case False
    then have run: "Run input r = proceed (json_step c r1) (Run rest)" by (subst Run.simps) (simp add: rc)
    show ?thesis
    proof (cases "json_step c r1")
      case (Continue r2)
      then have "reader_inv r2" using ok_step [OF inv, of c] by simp
      then show ?thesis using 1(1) [OF rc [symmetric] refl refl False] run Continue by simp
    qed (use ok_step [OF inv, of c] run in auto)
  qed
qed

text \<open>
  C12: On every input the parser comes to an end with success or with a parse error: no assertion fails,
  \<open>abort()\<close> is not reached, the code marked unreachable is not reached, and a result is returned.
\<close>

theorem json_parser_total:
  "(\<exists>r. Run input json_reader_init = Done r \<or> Run input json_reader_init = Parse_error r) \<and> Parse input \<noteq> None"
proof -
  have "reader_inv json_reader_init" by (simp add: reader_inv_def json_reader_init_def GRPC_JSON_MAX_DEPTH_def)
  from Run_ok [OF this, of input] show ?thesis by (auto simp: Parse_def Let_def)
qed

end
