(* ===== verification/Grpc_Json_Numbers.thy ===== *)
theory Grpc_Json_Numbers
  imports Grpc_Json_Complete
begin

text \<open>
  The numbers the JSON parser of gRPC (\<open>core/lib/json/json_reader.cc\<close>) accepts: the texts on which its
  states for numbers end well, in closed form, and what \<open>Parse\<close> does on every input that begins
  like a number.
\<close>

section \<open>The language of the states for numbers\<close>

definition accepts :: "json_state \<Rightarrow> octets \<Rightarrow> bool" where
  "accepts st s \<longleftrightarrow> (case num_run st s of None \<Rightarrow> False | Some st' \<Rightarrow> st' \<in> number_end_states)"

lemma accepts_Nil: "accepts st [] \<longleftrightarrow> st \<in> number_end_states"
  by (simp add: accepts_def)

lemma accepts_Cons:
  "accepts st (c # s) \<longleftrightarrow> (case num_next st c of None \<Rightarrow> False | Some st' \<Rightarrow> accepts st' s)"
  by (simp add: accepts_def split: option.split)

text \<open>
  The numbers of the parser. Unlike in JSON a minus sign needs no digits and may be followed by
  leading zeros, an exponent may have a sign or a single digit without anything more, and no exponent
  may follow a lone zero.
\<close>

definition reader_int :: "octets \<Rightarrow> bool" where
  "reader_int s \<longleftrightarrow> s = [0x30] \<or>
     s \<noteq> [] \<and> (hd s = 0x2d \<or> is_digit (hd s) \<and> hd s \<noteq> 0x30) \<and> list_all is_digit (tl s)"

definition reader_exp :: "octets \<Rightarrow> bool" where
  "reader_exp s \<longleftrightarrow> s = [] \<or>
     (\<exists>x y ds. s = x # y # ds \<and> x \<in> {0x65, 0x45} \<and> (is_digit y \<or> y \<in> {0x2b, 0x2d}) \<and> list_all is_digit ds)"

definition reader_tail :: "octets \<Rightarrow> bool" where
  "reader_tail s \<longleftrightarrow> reader_exp s \<or> (\<exists>ds e. s = 0x2e # ds @ e \<and> digits ds \<and> reader_exp e)"

definition reader_number :: "octets \<Rightarrow> bool" where
  "reader_number s \<longleftrightarrow> (\<exists>i t. s = i @ t \<and> reader_int i \<and> reader_tail t \<and> (i = [0x30] \<and> reader_exp t \<longrightarrow> t = []))"

lemma not_digits: "\<not> is_digit 0x2e" "\<not> is_digit 0x65" "\<not> is_digit 0x45" "\<not> is_digit 0x2d" "\<not> is_digit 0x2b"
  by (simp_all add: is_digit_def)

lemma ex_split_Cons:
  "(\<exists>xs ys. c # s = xs @ ys \<and> P xs ys) \<longleftrightarrow> P [] (c # s) \<or> (\<exists>xs ys. s = xs @ ys \<and> P (c # xs) ys)"
proof
  assume "\<exists>xs ys. c # s = xs @ ys \<and> P xs ys"
  then obtain xs ys where "c # s = xs @ ys" "P xs ys" by blast
  then show "P [] (c # s) \<or> (\<exists>xs ys. s = xs @ ys \<and> P (c # xs) ys)" by (cases xs) auto
next
  assume "P [] (c # s) \<or> (\<exists>xs ys. s = xs @ ys \<and> P (c # xs) ys)"
  then show "\<exists>xs ys. c # s = xs @ ys \<and> P xs ys" by (metis append_Cons append_Nil)
qed

lemma accepts_epm: "accepts VALUE_NUMBER_EPM s \<longleftrightarrow> list_all is_digit s"
  by (induction s) (auto simp: accepts_Nil accepts_Cons num_next_def number_end_states_def)

lemma accepts_e:
  "accepts VALUE_NUMBER_E s \<longleftrightarrow> (\<exists>y ds. s = y # ds \<and> (is_digit y \<or> y \<in> {0x2b, 0x2d}) \<and> list_all is_digit ds)"
  by (cases s) (auto simp: accepts_Nil accepts_Cons num_next_def number_end_states_def accepts_epm)

lemma reader_exp_Cons: "reader_exp (c # s) \<longleftrightarrow> c \<in> {0x65, 0x45} \<and> accepts VALUE_NUMBER_E s"
  by (auto simp: reader_exp_def accepts_e)

lemma accepts_decimal:
  "accepts VALUE_NUMBER_WITH_DECIMAL s \<longleftrightarrow> (\<exists>ds e. s = ds @ e \<and> list_all is_digit ds \<and> reader_exp e)"
proof (induction s)
  case Nil
  then show ?case by (simp add: accepts_Nil number_end_states_def reader_exp_def)
next
  case (Cons c s)
  show ?case unfolding ex_split_Cons
    using Cons not_digits by (auto simp: accepts_Cons num_next_def reader_exp_Cons)
qed

lemma accepts_dot:
  "accepts VALUE_NUMBER_DOT s \<longleftrightarrow> (\<exists>ds e. s = ds @ e \<and> digits ds \<and> reader_exp e)"
proof (cases s)
  case Nil
  then show ?thesis by (simp add: accepts_Nil number_end_states_def digits_def)
next
  case (Cons c s')
  show ?thesis unfolding Cons ex_split_Cons
    by (simp add: accepts_Cons num_next_def accepts_decimal digits_def)
qed

lemma reader_tail_Cons: "reader_tail (c # s) \<longleftrightarrow> reader_exp (c # s) \<or> c = 0x2e \<and> accepts VALUE_NUMBER_DOT s"
  by (auto simp: reader_tail_def accepts_dot)

lemma accepts_number:
  "accepts VALUE_NUMBER s \<longleftrightarrow> (\<exists>ds t. s = ds @ t \<and> list_all is_digit ds \<and> reader_tail t)"
proof (induction s)
  case Nil
  then show ?case by (simp add: accepts_Nil number_end_states_def reader_exp_def reader_tail_def)
next
  case (Cons c s)
  show ?case unfolding ex_split_Cons
    using Cons not_digits by (auto simp: accepts_Cons num_next_def reader_exp_Cons reader_tail_Cons)
qed

lemma accepts_zero:
  "accepts VALUE_NUMBER_ZERO t \<longleftrightarrow> reader_tail t \<and> (reader_exp t \<longrightarrow> t = [])"
proof (cases t)
  case Nil
  then show ?thesis by (simp add: accepts_Nil number_end_states_def reader_exp_def reader_tail_def)
next
  case (Cons c u)
  then show ?thesis by (auto simp: accepts_Cons num_next_def reader_tail_Cons reader_exp_Cons)
qed

lemma accepts_begin: "accepts VALUE_BEGIN s \<longleftrightarrow> reader_number s"
proof (cases s)
  case Nil
  then show ?thesis by (simp add: accepts_Nil number_end_states_def reader_number_def reader_int_def)
next
  case (Cons c t)
  have int: "reader_int (c # ds) \<longleftrightarrow> c = 0x30 \<and> ds = [] \<or> (c = 0x2d \<or> is_digit c \<and> c \<noteq> 0x30) \<and> list_all is_digit ds" for ds
    by (auto simp: reader_int_def)
  have "reader_number (c # t) \<longleftrightarrow> (\<exists>ds u. t = ds @ u \<and> reader_int (c # ds) \<and> reader_tail u \<and>
     (c = 0x30 \<and> ds = [] \<and> reader_exp u \<longrightarrow> u = []))"
    unfolding reader_number_def ex_split_Cons by (simp add: reader_int_def)
  also have "\<dots> \<longleftrightarrow> (if c = 0x30 then accepts VALUE_NUMBER_ZERO t
      else (is_digit c \<or> c = 0x2d) \<and> accepts VALUE_NUMBER t)"
    unfolding int accepts_zero accepts_number by auto
  also have "\<dots> \<longleftrightarrow> accepts VALUE_BEGIN (c # t)"
    by (simp add: accepts_Cons num_next_def)
  finally show ?thesis using Cons by simp
qed

section \<open>The parser on an input that begins like a number\<close>

text \<open>What may follow a value: blanks, then the end of the input or an octet 0.\<close>

definition text_ends :: "octets \<Rightarrow> bool" where
  "text_ends s \<longleftrightarrow> (\<exists>w z. s = w @ z \<and> blank w \<and> (z = [] \<or> hd z = 0))"

lemma text_ends_Cons: "text_ends (c # s) \<longleftrightarrow> c = 0 \<or> c \<in> {0x20, 9, 10, 13} \<and> text_ends s"
  unfolding text_ends_def ex_split_Cons by (auto simp: blank_def)

lemma text_ends_Nil: "text_ends []"
  by (auto simp: text_ends_def blank_def)

text \<open>The number that is read from a state for numbers, after the octets \<open>n\<close>.\<close>

fun read_on :: "json_state \<Rightarrow> octets \<Rightarrow> octets \<Rightarrow> octets option" where
  "read_on st n [] = (if st \<in> number_end_states then Some n else None)"
| "read_on st n (c # s) =
     (case num_next st c of
        Some st' \<Rightarrow> read_on st' (n @ [c]) s
      | None \<Rightarrow> if st \<in> number_end_states \<and> text_ends (c # s) then Some n else None)"

lemma num_next_not_end: "num_next st c = Some st' \<Longrightarrow> c \<notin> {0, 0x20, 9, 10, 13}"
  using num_next_char(2) [of st c st'] by (auto simp: num_next_def is_digit_def split: json_state.splits if_splits)

lemma read_on_iff:
  "read_on st n s = Some m \<longleftrightarrow> (\<exists>p t. s = p @ t \<and> m = n @ p \<and> accepts st p \<and> text_ends t)"
proof (induction s arbitrary: st n)
  case Nil
  then show ?case by (auto simp: accepts_Nil text_ends_Nil)
next
  case (Cons c s)
  have "(\<exists>p t. c # s = p @ t \<and> m = n @ p \<and> accepts st p \<and> text_ends t) \<longleftrightarrow>
     m = n \<and> st \<in> number_end_states \<and> text_ends (c # s) \<or>
     (\<exists>p t. s = p @ t \<and> m = n @ c # p \<and> accepts st (c # p) \<and> text_ends t)"
    unfolding ex_split_Cons by (simp add: accepts_Nil)
  moreover have "\<not> text_ends (c # s)" if "num_next st c = Some st'" for st'
    using num_next_not_end [OF that] by (auto simp: text_ends_Cons)
  ultimately show ?case by (cases "num_next st c") (auto simp: accepts_Cons Cons.IH)
qed

definition number_states :: "json_state set" where
  "number_states = number_end_states \<union> {VALUE_NUMBER_DOT, VALUE_NUMBER_E}"

lemma num_next_states: "num_next st c = Some st' \<Longrightarrow> st' \<in> number_states"
  by (auto simp: num_next_def number_states_def number_end_states_def split: json_state.splits if_splits)

text \<open>An octet that does not continue the number.\<close>

lemma add_char_fails: "\<exists>r'. StringAddChar c r = Continue r' \<or> StringAddChar c r = Parse_error r'"
  if "jr_utf8_bytes_remaining r = 0"
  using that by (auto simp: StringAddChar_def split: option.split)

lemma number_step_fails:
  fixes c :: u8
  assumes "at st JSON_NULL [] n r" "st \<in> number_states" "num_next st c = None" "c \<notin> {0x20, 9, 10, 13}"
  shows "\<exists>r'. json_step (ucast c) r = Parse_error r'"
proof -
  let ?c = "ucast c :: u32"
  have at: "jr_state r = st" "jr_stack r = []" "jr_utf8_bytes_remaining r = 0"
    using assms(1) by (simp_all add: at_def)
  have eof: "?c \<noteq> GRPC_JSON_READ_CHAR_EOF" "?c \<notin> {0x20, 9, 10, 13}"
    using assms(4) by (auto simp: byte_not_eof byte_numeral)
  consider "?c \<in> {0x2c, 0x7d, 0x5d}" | "?c = 0x5c" | "?c \<notin> {0x2c, 0x7d, 0x5d, 0x5c}" by blast
  then show ?thesis
  proof cases
    case 1
    then show ?thesis using eof at assms(2)
      by (auto simp: json_step_def step_delimiter_def number_states_def number_end_states_def Let_def)
  next
    case 2
    then show ?thesis using eof at assms(2)
      by (auto simp: json_step_def step_backslash_def number_states_def number_end_states_def)
  next
    case 3
    have add: "\<exists>r'. proceed (StringAddChar ?c q) Parse_error = Parse_error r'"
      if "jr_utf8_bytes_remaining q = 0" for q
      using add_char_fails [OF that, of ?c] by auto
    note defs = step_default_def num_next_def value_number_def value_number_with_decimal_def value_number_zero_def
      value_number_dot_def value_number_e_def value_number_epm_def number_digit_byte byte_numeral
    have "json_step ?c r = step_default ?c r" using 3 eof by (simp add: json_step_def)
    moreover have "\<exists>r'. step_default ?c r = Parse_error r'"
      using assms(2) at(1,3) assms(3) unfolding number_states_def number_end_states_def
      by (cases st) (simp_all add: defs add split: if_split_asm)
    ultimately show ?thesis by simp
  qed
qed

lemma number_step_blank:
  fixes c :: u8
  assumes "at st JSON_NULL [] n r" "st \<in> number_states" "c \<in> {0x20, 9, 10, 13}"
  shows "if st \<in> number_end_states then \<exists>r'. json_step (ucast c) r = Continue r' \<and> at VALUE_END (NUMBER n) [] [] r'
    else \<exists>r'. json_step (ucast c) r = Parse_error r'"
proof (cases "st \<in> number_end_states")
  case True
  obtain r' where "SetNumber r = Continue r'" "at st (NUMBER n) [] [] r'"
    using set_number [OF assms(1)] by (auto simp: has_place_def placed_def)
  then show ?thesis using True assms(1) unfolding step_blank [OF assms(3)]
    by (auto simp: step_whitespace_def at_def number_end_states_def goto_def)
next
  case False
  then show ?thesis using assms(1,2) unfolding step_blank [OF assms(3)]
    by (auto simp: step_whitespace_def at_def number_states_def number_end_states_def)
qed

lemma Run_Nil: "Run [] r = step_eof r"
  by (subst Run.simps) simp

lemma Run_Cons:
  "Run (c # s) r = (let r1 = r\<lparr>jr_index := jr_index r + 1\<rparr> in
     if c = 0 then step_eof r1 else proceed (json_step (ucast c) r1) (Run s))"
proof (cases "c = 0")
  case False
  have "(ucast c :: u32) \<noteq> GRPC_JSON_READ_CHAR_EOF" by (simp add: byte_not_eof)
  then show ?thesis using False by (subst Run.simps) (simp add: Let_def)
qed (subst Run.simps, simp add: Let_def)

definition stops_with :: "json_out \<Rightarrow> octets option \<Rightarrow> bool" where
  "stops_with out m \<longleftrightarrow>
     (case m of None \<Rightarrow> \<exists>r. out = Parse_error r
      | Some n \<Rightarrow> \<exists>r. out = Done r \<and> jr_root_value r = NUMBER n \<and> jr_errors r = [] \<and> \<not> jr_truncated_errors r)"

lemma number_eof:
  assumes "at st JSON_NULL [] n r" "st \<in> number_states"
  shows "stops_with (step_eof r) (if st \<in> number_end_states then Some n else None)"
proof (cases "st \<in> number_end_states")
  case True
  then have "has_read (NUMBER n) JSON_NULL [] (jr_key r) r"
    using assms(1) by (auto simp: has_read_def has_place_def)
  then show ?thesis using step_eof_read True by (fastforce simp: stops_with_def)
next
  case False
  then show ?thesis using assms
    by (auto simp: stops_with_def step_eof_def at_def IsComplete_def number_states_def number_end_states_def)
qed

lemma value_end_Run:
  "at VALUE_END (NUMBER n) [] [] r \<Longrightarrow> stops_with (Run s r) (if text_ends s then Some n else None)"
proof (induction s arbitrary: r)
  case Nil
  have "has_read (NUMBER n) JSON_NULL [] (jr_key r) r" using Nil by (auto simp: has_read_def placed_def)
  then show ?case using step_eof_read by (fastforce simp: stops_with_def Run_Nil text_ends_Nil)
next
  case (Cons c s)
  let ?r = "r\<lparr>jr_index := jr_index r + 1\<rparr>" and ?c = "ucast c :: u32"
  have at: "at VALUE_END (NUMBER n) [] [] ?r" using Cons.prems by simp
  consider "c = 0" | "c \<noteq> 0" "c \<in> {0x20, 9, 10, 13}" | "c \<noteq> 0" "c \<notin> {0x20, 9, 10, 13}" by blast
  then show ?case
  proof cases
    case 1
    have "has_read (NUMBER n) JSON_NULL [] (jr_key ?r) ?r" using at by (auto simp: has_read_def placed_def)
    then show ?thesis using step_eof_read 1 by (fastforce simp: stops_with_def Run_Cons text_ends_Cons Let_def)
  next
    case 2
    have "json_step ?c ?r = Continue ?r" unfolding step_blank [OF 2(2)] using at by (simp add: step_whitespace_def at_def)
    then show ?thesis using Cons.IH [OF at] 2 by (simp add: Run_Cons text_ends_Cons Let_def)
  next
    case 3
    have "\<exists>r'. json_step ?c ?r = Parse_error r'"
      using at 3 by (auto simp: json_step_def byte_not_eof byte_numeral step_delimiter_def end_or_next_def at_def back_type_def
          step_backslash_def step_default_def number_end_states_def Let_def)
    then show ?thesis using 3 by (auto simp: Run_Cons text_ends_Cons stops_with_def)
  qed
qed

lemma number_Run:
  "at st JSON_NULL [] n r \<Longrightarrow> st \<in> number_states \<Longrightarrow> stops_with (Run s r) (read_on st n s)"
proof (induction s arbitrary: st n r)
  case Nil
  then show ?case using number_eof by (simp add: Run_Nil)
next
  case (Cons c s)
  let ?r = "r\<lparr>jr_index := jr_index r + 1\<rparr>"
  have at: "at st JSON_NULL [] n ?r" using Cons.prems by simp
  show ?case
  proof (cases "num_next st c")
    case (Some st')
    have "json_step (ucast c) ?r = Continue (?r\<lparr>jr_container_just_begun := False, jr_string := jr_string ?r @ [c], jr_state := st'\<rparr>)"
      by (rule step_number) (use Some at in \<open>simp_all add: at_def\<close>)
    moreover have "at st' JSON_NULL [] (n @ [c]) (?r\<lparr>jr_container_just_begun := False, jr_string := jr_string ?r @ [c], jr_state := st'\<rparr>)"
      using at by (simp add: at_def)
    ultimately show ?thesis
      using Cons.IH [OF _ num_next_states [OF Some]] num_next_not_end [OF Some] Some by (auto simp: Run_Cons Let_def)
  next
    case None
    consider "c = 0" | "c \<noteq> 0" "c \<in> {0x20, 9, 10, 13}" | "c \<noteq> 0" "c \<notin> {0x20, 9, 10, 13}" by blast
    then show ?thesis
    proof cases
      case 1
      then show ?thesis using number_eof [OF at Cons.prems(2)] None by (simp add: Run_Cons text_ends_Cons Let_def)
    next
      case 2
      show ?thesis
      proof (cases "st \<in> number_end_states")
        case True
        then obtain r' where "json_step (ucast c) ?r = Continue r'" "at VALUE_END (NUMBER n) [] [] r'"
          using number_step_blank [OF at Cons.prems(2) 2(2)] by auto
        then show ?thesis using value_end_Run 2 None True by (simp add: Run_Cons text_ends_Cons Let_def)
      next
        case False
        then show ?thesis using number_step_blank [OF at Cons.prems(2) 2(2)] 2(1) None
          by (auto simp: Run_Cons Let_def stops_with_def)
      qed
    next
      case 3
      then show ?thesis using number_step_fails [OF at Cons.prems(2) None 3(2)] None
        by (auto simp: Run_Cons Let_def stops_with_def text_ends_Cons)
    qed
  qed
qed

lemma number_Parse:
  assumes "is_digit c \<or> c = 0x2d"
  shows "Parse (c # s) = Some (Inr j) \<longleftrightarrow> (\<exists>n t. c # s = n @ t \<and> reader_number n \<and> text_ends t \<and> j = NUMBER n)"
proof -
  let ?r = "json_reader_init\<lparr>jr_index := jr_index json_reader_init + 1\<rparr>"
  obtain st where st: "num_next VALUE_BEGIN c = Some st"
    using assms by (cases "c = 0x30") (auto simp: num_next_def)
  let ?q = "?r\<lparr>jr_container_just_begun := False, jr_string := jr_string ?r @ [c], jr_state := st\<rparr>"
  have "json_step (ucast c) ?r = Continue ?q"
    by (rule step_number) (use st in \<open>simp_all add: json_reader_init_def\<close>)
  then have run: "Run (c # s) json_reader_init = Run s ?q"
    using num_next_not_end [OF st] by (simp add: Run_Cons Let_def)
  have "at st JSON_NULL [] [c] ?q" by (simp add: at_def json_reader_init_def)
  then have out: "stops_with (Run s ?q) (read_on st [c] s)" by (rule number_Run [OF _ num_next_states [OF st]])
  have "Parse (c # s) = Some (Inr j) \<longleftrightarrow> (\<exists>n. read_on st [c] s = Some n \<and> j = NUMBER n)"
    using out unfolding stops_with_def Parse_def run by (auto simp: Let_def split: option.split_asm)
  also have "\<dots> \<longleftrightarrow> (\<exists>n. read_on VALUE_BEGIN [] (c # s) = Some n \<and> j = NUMBER n)" using st by simp
  also have "\<dots> \<longleftrightarrow> (\<exists>n t. c # s = n @ t \<and> reader_number n \<and> text_ends t \<and> j = NUMBER n)"
    unfolding read_on_iff accepts_begin by auto
  finally show ?thesis .
qed

lemma json_number_reader: "json_number s \<Longrightarrow> \<not> zero_exponent s \<Longrightarrow> reader_number s"
  using num_run_number by (fastforce simp: accepts_begin [symmetric] accepts_def)

section \<open>Properties\<close>

text \<open>
  C34: An input that begins with a digit or a minus sign is accepted exactly when it is a number of
  the parser, blanks, and then the end of the input or an octet 0 (with anything after it), and the
  value is that number, unchanged. So the parser takes every JSON number except those with
  an exponent right after a leading zero, and beyond JSON the lone minus sign, zeros after a minus
  sign, and exponents that are a sign only.
\<close>

theorem json_numbers_exact:
  assumes "is_digit c \<or> c = 0x2d"
  shows "Parse (c # s) = Some (Inr j) \<longleftrightarrow> (\<exists>n t. c # s = n @ t \<and> reader_number n \<and> text_ends t \<and> j = NUMBER n)"
  by (rule number_Parse [OF assms])

theorem json_numbers_exact_witness:
  "Parse [0x31, 0x65, 0x2b, 0x20] = Some (Inr (NUMBER [0x31, 0x65, 0x2b])) \<and>
   (\<forall>j. Parse [0x30, 0x65, 0x31] \<noteq> Some (Inr j))"
proof
  have d: "is_digit 0x31" "is_digit 0x30" by (simp_all add: is_digit_def)
  have "reader_number [0x31, 0x65, 0x2b]"
    unfolding reader_number_def
    by (rule exI [of _ "[0x31]"], rule exI [of _ "[0x65, 0x2b]"])
      (simp add: reader_int_def reader_tail_def reader_exp_def d)
  then show "Parse [0x31, 0x65, 0x2b, 0x20] = Some (Inr (NUMBER [0x31, 0x65, 0x2b]))"
    unfolding json_numbers_exact [OF disjI1 [OF d(1)]]
    by (intro exI [of _ "[0x31, 0x65, 0x2b]"] exI [of _ "[0x20]"]) (simp add: text_ends_Cons text_ends_Nil)
  have "read_on VALUE_BEGIN [] [0x30, 0x65, 0x31] = None"
    by (simp add: num_next_def text_ends_Cons)
  then have "\<nexists>n t. [0x30, 0x65, 0x31] = n @ t \<and> reader_number n \<and> text_ends t"
    using read_on_iff [of VALUE_BEGIN "[]" "[0x30, 0x65, 0x31]"] by (auto simp: accepts_begin)
  then show "\<forall>j. Parse [0x30, 0x65, 0x31] \<noteq> Some (Inr j)"
    unfolding json_numbers_exact [OF disjI1 [OF d(2)]] by blast
qed

end
