(* ===== verification/Grpc_Avl.thy ===== *)
theory Grpc_Avl
  imports Machine_Base
begin

text \<open>
  The persistent balanced tree of gRPC (\<open>core/lib/avl/avl.h\<close>): the map template \<open>AVL<K, V>\<close>
  and the set template \<open>AVL<K, void>\<close>, which repeats its code without the values.

  A \<open>NodePtr\<close> is a shared pointer to an immutable node, so it is a tree. \<open>Null\<close> is
  \<open>nullptr\<close>; reading a field through it gives \<open>None\<close>. Heights are stored in the nodes, as in the
  code, and \<open>long\<close> is \<open>int\<close>: a tree of height \<open>h\<close> has at least \<open>2 ^ ((h - 1) div 2)\<close> nodes.
\<close>

section \<open>The map template\<close>

datatype ('k, 'v) avl = Null | AvlNode 'k 'v "('k, 'v) avl" "('k, 'v) avl" int

record ('k, 'v) avl_node =
  kv_first :: 'k
  kv_second :: 'v
  left :: "('k, 'v) avl"
  right :: "('k, 'v) avl"

text \<open>\<open>*node\<close>\<close>

fun deref :: "('k, 'v) avl \<Rightarrow> ('k, 'v) avl_node option" where
  "deref Null = None"
| "deref (AvlNode k v l r h) = Some \<lparr>kv_first = k, kv_second = v, left = l, right = r\<rparr>"

fun Height :: "('k, 'v) avl \<Rightarrow> int" where
  "Height Null = 0"
| "Height (AvlNode _ _ _ _ h) = h"

definition MakeNode :: "'k \<Rightarrow> 'v \<Rightarrow> ('k, 'v) avl \<Rightarrow> ('k, 'v) avl \<Rightarrow> ('k, 'v) avl" where
  "MakeNode key val l r = AvlNode key val l r (1 + max (Height l) (Height r))"

fun Get :: "('k::linorder, 'v) avl \<Rightarrow> 'k \<Rightarrow> ('k, 'v) avl" where
  "Get Null key = Null"
| "Get (AvlNode k v l r h) key =
     (if k > key then Get l key
      else if k < key then Get r key
      else AvlNode k v l r h)"

fun GetBelow :: "('k::linorder, 'v) avl \<Rightarrow> 'k \<Rightarrow> ('k, 'v) avl" where
  "GetBelow Null key = Null"
| "GetBelow (AvlNode k v l r h) key =
     (if k > key then GetBelow l key
      else if k < key
      then (case GetBelow r key of Null \<Rightarrow> AvlNode k v l r h | n \<Rightarrow> n)
      else AvlNode k v l r h)"

definition RotateLeft :: "'k \<Rightarrow> 'v \<Rightarrow> ('k, 'v) avl \<Rightarrow> ('k, 'v) avl \<Rightarrow> ('k, 'v) avl option" where
  "RotateLeft key val l r =
     do { n \<leftarrow> deref r;
          Some (MakeNode (kv_first n) (kv_second n) (MakeNode key val l (left n)) (right n)) }"

definition RotateRight :: "'k \<Rightarrow> 'v \<Rightarrow> ('k, 'v) avl \<Rightarrow> ('k, 'v) avl \<Rightarrow> ('k, 'v) avl option" where
  "RotateRight key val l r =
     do { n \<leftarrow> deref l;
          Some (MakeNode (kv_first n) (kv_second n) (left n) (MakeNode key val (right n) r)) }"

definition RotateLeftRight :: "'k \<Rightarrow> 'v \<Rightarrow> ('k, 'v) avl \<Rightarrow> ('k, 'v) avl \<Rightarrow> ('k, 'v) avl option" where
  "RotateLeftRight key val l r =
     do { n \<leftarrow> deref l;
          m \<leftarrow> deref (right n);
          Some (MakeNode (kv_first m) (kv_second m)
                  (MakeNode (kv_first n) (kv_second n) (left n) (left m))
                  (MakeNode key val (right m) r)) }"

definition RotateRightLeft :: "'k \<Rightarrow> 'v \<Rightarrow> ('k, 'v) avl \<Rightarrow> ('k, 'v) avl \<Rightarrow> ('k, 'v) avl option" where
  "RotateRightLeft key val l r =
     do { n \<leftarrow> deref r;
          m \<leftarrow> deref (left n);
          Some (MakeNode (kv_first m) (kv_second m)
                  (MakeNode key val l (left m))
                  (MakeNode (kv_first n) (kv_second n) (right m) (right n))) }"

definition Rebalance :: "'k \<Rightarrow> 'v \<Rightarrow> ('k, 'v) avl \<Rightarrow> ('k, 'v) avl \<Rightarrow> ('k, 'v) avl option" where
  "Rebalance key val l r =
     (if Height l - Height r = 2
      then do { n \<leftarrow> deref l;
                if Height (left n) - Height (right n) = - 1 then RotateLeftRight key val l r
                else RotateRight key val l r }
      else if Height l - Height r = - 2
      then do { n \<leftarrow> deref r;
                if Height (left n) - Height (right n) = 1 then RotateRightLeft key val l r
                else RotateLeft key val l r }
      else Some (MakeNode key val l r))"

fun AddKey :: "('k::linorder, 'v) avl \<Rightarrow> 'k \<Rightarrow> 'v \<Rightarrow> ('k, 'v) avl option" where
  "AddKey Null key val = Some (MakeNode key val Null Null)"
| "AddKey (AvlNode k v l r h) key val =
     (if k < key then do { r' \<leftarrow> AddKey r key val; Rebalance k v l r' }
      else if key < k then do { l' \<leftarrow> AddKey l key val; Rebalance k v l' r }
      else Some (MakeNode key val l r))"

text \<open>The two walks, for a node that is not null.\<close>

fun InOrderHead :: "('k, 'v) avl \<Rightarrow> ('k, 'v) avl option" where
  "InOrderHead Null = None"
| "InOrderHead (AvlNode k v l r h) = (if l \<noteq> Null then InOrderHead l else Some (AvlNode k v l r h))"

fun InOrderTail :: "('k, 'v) avl \<Rightarrow> ('k, 'v) avl option" where
  "InOrderTail Null = None"
| "InOrderTail (AvlNode k v l r h) = (if r \<noteq> Null then InOrderTail r else Some (AvlNode k v l r h))"

fun RemoveKey :: "('k::linorder, 'v) avl \<Rightarrow> 'k \<Rightarrow> ('k, 'v) avl option" where
  "RemoveKey Null key = Some Null"
| "RemoveKey (AvlNode k v l r h) key =
     (if key < k then do { l' \<leftarrow> RemoveKey l key; Rebalance k v l' r }
      else if k < key then do { r' \<leftarrow> RemoveKey r key; Rebalance k v l r' }
      else if l = Null then Some r
      else if r = Null then Some l
      else if Height l < Height r
      then do { p \<leftarrow> InOrderHead r;
                n \<leftarrow> deref p;
                r' \<leftarrow> RemoveKey r (kv_first n);
                Rebalance (kv_first n) (kv_second n) l r' }
      else do { p \<leftarrow> InOrderTail l;
                n \<leftarrow> deref p;
                l' \<leftarrow> RemoveKey l (kv_first n);
                Rebalance (kv_first n) (kv_second n) l' r })"

fun ForEachImpl :: "('k, 'v) avl \<Rightarrow> ('k \<Rightarrow> 'v \<Rightarrow> 's \<Rightarrow> 's) \<Rightarrow> 's \<Rightarrow> 's" where
  "ForEachImpl Null f s = s"
| "ForEachImpl (AvlNode k v l r h) f s = ForEachImpl r f (f k v (ForEachImpl l f s))"

definition Add :: "('k::linorder, 'v) avl \<Rightarrow> 'k \<Rightarrow> 'v \<Rightarrow> ('k, 'v) avl option" where
  "Add root key val = AddKey root key val"

definition Remove :: "('k::linorder, 'v) avl \<Rightarrow> 'k \<Rightarrow> ('k, 'v) avl option" where
  "Remove root key = RemoveKey root key"

definition Lookup :: "('k::linorder, 'v) avl \<Rightarrow> 'k \<Rightarrow> 'v option" where
  "Lookup root key = map_option kv_second (deref (Get root key))"

definition LookupBelow :: "('k::linorder, 'v) avl \<Rightarrow> 'k \<Rightarrow> ('k \<times> 'v) option" where
  "LookupBelow root key = map_option (\<lambda>n. (kv_first n, kv_second n)) (deref (GetBelow root key))"

definition Empty :: "('k, 'v) avl \<Rightarrow> bool" where
  "Empty root \<longleftrightarrow> (case root of Null \<Rightarrow> True | _ \<Rightarrow> False)"

definition ForEach :: "('k, 'v) avl \<Rightarrow> ('k \<Rightarrow> 'v \<Rightarrow> 's \<Rightarrow> 's) \<Rightarrow> 's \<Rightarrow> 's" where
  "ForEach root f s = ForEachImpl root f s"

section \<open>Correctness of the map template\<close>

fun entries :: "('k, 'v) avl \<Rightarrow> ('k \<times> 'v) list" where
  "entries Null = []"
| "entries (AvlNode k v l r h) = entries l @ (k, v) # entries r"

text \<open>The stored heights are right and the heights of siblings differ by at most one.\<close>

fun balanced :: "('k, 'v) avl \<Rightarrow> bool" where
  "balanced Null = True"
| "balanced (AvlNode k v l r h) =
     (balanced l \<and> balanced r \<and> \<bar>Height l - Height r\<bar> \<le> 1 \<and> h = 1 + max (Height l) (Height r))"

abbreviation sorted_keys :: "('k::linorder \<times> 'v) list \<Rightarrow> bool" where
  "sorted_keys \<equiv> sorted_wrt (\<lambda>x y. fst x < fst y)"

definition avl_ok :: "('k::linorder, 'v) avl \<Rightarrow> bool" where
  "avl_ok t \<longleftrightarrow> balanced t \<and> sorted_keys (entries t)"

definition avl_map :: "('k::linorder, 'v) avl \<Rightarrow> 'k \<rightharpoonup> 'v" where
  "avl_map t = map_of (entries t)"

lemma Height_nonneg: "balanced t \<Longrightarrow> 0 \<le> Height t"
  by (induction t) auto

lemma Height_zero: "balanced t \<Longrightarrow> Height t = 0 \<longleftrightarrow> t = Null"
  by (cases t) (auto dest: Height_nonneg)

lemma Height_MakeNode [simp]: "Height (MakeNode k v l r) = 1 + max (Height l) (Height r)"
  by (simp add: MakeNode_def)

lemma entries_MakeNode [simp]: "entries (MakeNode k v l r) = entries l @ (k, v) # entries r"
  by (simp add: MakeNode_def)

lemma balanced_MakeNode [simp]:
  "balanced (MakeNode k v l r) \<longleftrightarrow> balanced l \<and> balanced r \<and> \<bar>Height l - Height r\<bar> \<le> 1"
  by (auto simp: MakeNode_def)

text \<open>Rebalancing two balanced trees whose heights differ by at most two.\<close>

definition rebuilt :: "'k \<Rightarrow> 'v \<Rightarrow> ('k, 'v) avl \<Rightarrow> ('k, 'v) avl \<Rightarrow> ('k, 'v) avl \<Rightarrow> bool" where
  "rebuilt k v l r t \<longleftrightarrow>
     balanced t \<and> entries t = entries l @ (k, v) # entries r \<and>
     Height t \<le> 1 + max (Height l) (Height r) \<and> max (Height l) (Height r) \<le> Height t \<and>
     (\<bar>Height l - Height r\<bar> \<le> 1 \<longrightarrow> Height t = 1 + max (Height l) (Height r))"

lemma Rebalance_left_heavy:
  assumes l: "balanced l" and r: "balanced r" and h: "Height l = Height r + 2"
  shows "\<exists>t. Rebalance k v l r = Some t \<and> rebuilt k v l r t"
proof -
  from h Height_nonneg [OF r] obtain a b ll lr hl where n: "l = AvlNode a b ll lr hl" by (cases l) auto
  show ?thesis
  proof (cases "Height ll - Height lr = - 1")
    case False
    then show ?thesis using l r h
      by (auto simp: n Rebalance_def RotateRight_def rebuilt_def)
  next
    case True
    moreover from this have "0 < Height lr" using l Height_nonneg [of ll] by (simp add: n)
    then obtain c d lrl lrr hlr where "lr = AvlNode c d lrl lrr hlr" by (cases lr) auto
    ultimately show ?thesis using l r h
      by (auto simp: n Rebalance_def RotateLeftRight_def rebuilt_def)
  qed
qed

lemma Rebalance_right_heavy:
  assumes l: "balanced l" and r: "balanced r" and h: "Height r = Height l + 2"
  shows "\<exists>t. Rebalance k v l r = Some t \<and> rebuilt k v l r t"
proof -
  from h Height_nonneg [OF l] obtain a b rl rr hr where n: "r = AvlNode a b rl rr hr" by (cases r) auto
  show ?thesis
  proof (cases "Height rl - Height rr = 1")
    case False
    then show ?thesis using l r h
      by (auto simp: n Rebalance_def RotateLeft_def rebuilt_def)
  next
    case True
    moreover from this have "0 < Height rl" using r Height_nonneg [of rr] by (simp add: n)
    then obtain c d rll rlr hrl where "rl = AvlNode c d rll rlr hrl" by (cases rl) auto
    ultimately show ?thesis using l r h
      by (auto simp: n Rebalance_def RotateRightLeft_def rebuilt_def)
  qed
qed

lemma Rebalance_correct:
  assumes "balanced l" "balanced r" "\<bar>Height l - Height r\<bar> \<le> 2"
  shows "\<exists>t. Rebalance k v l r = Some t \<and> rebuilt k v l r t"
proof -
  consider "Height l = Height r + 2" | "Height r = Height l + 2" | "\<bar>Height l - Height r\<bar> \<le> 1"
    using assms(3) by linarith
  then show ?thesis
  proof cases
    case 1 then show ?thesis using assms by (intro Rebalance_left_heavy)
  next
    case 2 then show ?thesis using assms by (intro Rebalance_right_heavy)
  next
    case 3 then show ?thesis using assms by (auto simp: Rebalance_def rebuilt_def)
  qed
qed

text \<open>Insertion and deletion on sorted lists.\<close>

definition put :: "'k::linorder \<Rightarrow> 'v \<Rightarrow> ('k \<times> 'v) list \<Rightarrow> ('k \<times> 'v) list" where
  "put key val xs = filter (\<lambda>x. fst x < key) xs @ (key, val) # filter (\<lambda>x. key < fst x) xs"

definition cut :: "'k \<Rightarrow> ('k \<times> 'v) list \<Rightarrow> ('k \<times> 'v) list" where
  "cut key xs = filter (\<lambda>x. fst x \<noteq> key) xs"

lemma sorted_around:
  "sorted_keys (xs @ (k, v) # ys) \<longleftrightarrow>
     sorted_keys xs \<and> sorted_keys ys \<and> (\<forall>x \<in> set xs. fst x < k) \<and> (\<forall>y \<in> set ys. k < fst y)"
  by (auto simp: sorted_wrt_append) (metis fst_conv less_trans)

lemma filter_below:
  assumes "\<forall>x \<in> set xs. fst x < (k :: 'k::linorder)" "k \<le> key"
  shows "filter (\<lambda>x. fst x < key) xs = xs" "filter (\<lambda>x. key < fst x) xs = []" "filter (\<lambda>x. fst x \<noteq> key) xs = xs"
  using assms by (force simp: filter_id_conv filter_empty_conv)+

lemma filter_above:
  assumes "\<forall>x \<in> set xs. (k :: 'k::linorder) < fst x" "key \<le> k"
  shows "filter (\<lambda>x. fst x < key) xs = []" "filter (\<lambda>x. key < fst x) xs = xs" "filter (\<lambda>x. fst x \<noteq> key) xs = xs"
  using assms by (force simp: filter_id_conv filter_empty_conv)+

lemma put_around:
  assumes "sorted_keys (xs @ (k, v) # ys)"
  shows "k < key \<Longrightarrow> put key val (xs @ (k, v) # ys) = xs @ (k, v) # put key val ys"
    and "key < k \<Longrightarrow> put key val (xs @ (k, v) # ys) = put key val xs @ (k, v) # ys"
    and "key = k \<Longrightarrow> put key val (xs @ (k, v) # ys) = xs @ (key, val) # ys"
  using assms by (auto simp: put_def sorted_around filter_below [where k = k] filter_above [where k = k])

lemma cut_around:
  assumes "sorted_keys (xs @ (k, v) # ys)"
  shows "k < key \<Longrightarrow> cut key (xs @ (k, v) # ys) = xs @ (k, v) # cut key ys"
    and "key < k \<Longrightarrow> cut key (xs @ (k, v) # ys) = cut key xs @ (k, v) # ys"
    and "key = k \<Longrightarrow> cut key (xs @ (k, v) # ys) = xs @ ys"
  using assms by (auto simp: cut_def sorted_around filter_below [where k = k] filter_above [where k = k])

lemma sorted_put: "sorted_keys xs \<Longrightarrow> sorted_keys (put key val xs)"
  by (auto simp: put_def sorted_around intro: sorted_wrt_filter)

lemma sorted_cut: "sorted_keys xs \<Longrightarrow> sorted_keys (cut key xs)"
  by (simp add: cut_def sorted_wrt_filter)

lemma map_of_filter_keys: "map_of (filter (\<lambda>x. P (fst x)) xs) k = (if P k then map_of xs k else None)"
  by (induction xs) auto

lemma map_of_put: "map_of (put key val xs) = (map_of xs)(key \<mapsto> val)"
  by (rule ext) (auto simp: put_def map_of_filter_keys [where P = "\<lambda>k. k < key"]
      map_of_filter_keys [where P = "\<lambda>k. key < k"] map_add_def not_less split: option.splits)

lemma map_of_cut: "map_of (cut key xs) = (map_of xs)(key := None)"
  by (rule ext) (auto simp: cut_def map_of_filter_keys [where P = "\<lambda>k. k \<noteq> key"])

lemma AddKey_correct:
  assumes "balanced t" "sorted_keys (entries t)"
  shows "\<exists>t'. AddKey t key val = Some t' \<and> balanced t' \<and> entries t' = put key val (entries t) \<and>
    Height t \<le> Height t' \<and> Height t' \<le> Height t + 1"
  using assms
proof (induction t key val rule: AddKey.induct)
  case (1 key val)
  show ?case by (simp add: put_def)
next
  case (2 k v l r h key val)
  have b: "balanced l" "balanced r" "\<bar>Height l - Height r\<bar> \<le> 1" "h = 1 + max (Height l) (Height r)"
    using "2.prems" by auto
  have s: "sorted_keys (entries l @ (k, v) # entries r)" using "2.prems" by simp
  then have sl: "sorted_keys (entries l)" "sorted_keys (entries r)" by (auto simp: sorted_around)
  consider "k < key" | "key < k" | "key = k" by (rule linorder_cases)
  then show ?case
  proof cases
    case 1
    obtain r' where r': "AddKey r key val = Some r'" "balanced r'" "entries r' = put key val (entries r)"
        "Height r \<le> Height r'" "Height r' \<le> Height r + 1"
      using "2.IH"(1) [OF 1 b(2) sl(2)] by blast
    obtain t where "Rebalance k v l r' = Some t" "rebuilt k v l r' t"
      using Rebalance_correct [of l r'] b r' by fastforce
    then show ?thesis using 1 r' b put_around(1) [OF s 1] by (auto simp: rebuilt_def)
  next
    case 2
    then have n: "\<not> k < key" by simp
    obtain l' where l': "AddKey l key val = Some l'" "balanced l'" "entries l' = put key val (entries l)"
        "Height l \<le> Height l'" "Height l' \<le> Height l + 1"
      using "2.IH"(2) [OF n 2 b(1) sl(1)] by blast
    obtain t where "Rebalance k v l' r = Some t" "rebuilt k v l' r t"
      using Rebalance_correct [of l' r] b l' by fastforce
    then show ?thesis using 2 n l' b put_around(2) [OF s 2] by (auto simp: rebuilt_def)
  next
    case 3
    then show ?thesis using b put_around(3) [OF s 3] by auto
  qed
qed

lemma InOrderHead_correct:
  "t \<noteq> Null \<Longrightarrow> \<exists>k v r h es. InOrderHead t = Some (AvlNode k v Null r h) \<and> entries t = (k, v) # es"
  by (induction t) auto

lemma InOrderTail_correct:
  "t \<noteq> Null \<Longrightarrow> \<exists>k v l h es. InOrderTail t = Some (AvlNode k v l Null h) \<and> entries t = es @ [(k, v)]"
  by (induction t) auto

text \<open>A node whose left or right subtree has been replaced by a lower one.\<close>

lemma Rebalance_lower:
  assumes b: "balanced l" "balanced r" "\<bar>Height l - Height r\<bar> \<le> 1"
    and b': "balanced l'" "balanced r'" "Height l' \<le> Height l" "Height l \<le> Height l' + 1"
      "Height r' \<le> Height r" "Height r \<le> Height r' + 1" and one: "l' = l \<or> r' = r"
  shows "\<exists>t. Rebalance k v l' r' = Some t \<and> balanced t \<and> entries t = entries l' @ (k, v) # entries r' \<and>
    Height t \<le> 1 + max (Height l) (Height r) \<and> max (Height l) (Height r) \<le> Height t"
proof -
  have d: "Height l \<le> Height r + 1" "Height r \<le> Height l + 1" using b(3) by linarith+
  from one have one': "Height l' = Height l \<or> Height r' = Height r" by blast
  with d b'(3-6) have "\<bar>Height l' - Height r'\<bar> \<le> 2" by presburger
  from Rebalance_correct [OF b'(1,2) this]
  obtain t where t: "Rebalance k v l' r' = Some t" "rebuilt k v l' r' t" by blast
  then have h: "Height t \<le> 1 + max (Height l') (Height r')" "Height l' \<le> Height t" "Height r' \<le> Height t"
    "\<bar>Height l' - Height r'\<bar> \<le> 1 \<longrightarrow> Height t = 1 + max (Height l') (Height r')"
    by (simp_all add: rebuilt_def)
  have "max (Height l') (Height r') \<le> max (Height l) (Height r)" using b'(3,5) by (rule max.mono)
  with h(1) have "Height t \<le> 1 + max (Height l) (Height r)" by (meson add_left_mono order_trans)
  moreover have "Height l \<le> Height t \<and> Height r \<le> Height t"
  proof (cases "\<bar>Height l' - Height r'\<bar> \<le> 1")
    case True
    then have "1 + Height l' \<le> Height t" "1 + Height r' \<le> Height t" using h(4) by simp_all
    then show ?thesis using b'(4,6) by linarith
  next
    case False
    then have "Height l' + 1 < Height r' \<or> Height r' + 1 < Height l'" by linarith
    with one' h(2,3) d b'(3-6) show ?thesis by (elim disjE) linarith+
  qed
  ultimately show ?thesis using t by (auto simp: rebuilt_def)
qed

lemma RemoveKey_correct:
  assumes "balanced t" "sorted_keys (entries t)"
  shows "\<exists>t'. RemoveKey t key = Some t' \<and> balanced t' \<and> entries t' = cut key (entries t) \<and>
    Height t' \<le> Height t \<and> Height t \<le> Height t' + 1"
  using assms
proof (induction t key rule: RemoveKey.induct)
  case (1 key)
  show ?case by (simp add: cut_def)
next
  case (2 k v l r h key)
  have b: "balanced l" "balanced r" "\<bar>Height l - Height r\<bar> \<le> 1" and h: "h = 1 + max (Height l) (Height r)"
    using "2.prems" by auto
  have s: "sorted_keys (entries l @ (k, v) # entries r)" using "2.prems" by simp
  then have sl: "sorted_keys (entries l)" "sorted_keys (entries r)" by (auto simp: sorted_around)
  consider "key < k" | "k < key" | "key = k" "l = Null \<or> r = Null"
    | "key = k" "l \<noteq> Null" "r \<noteq> Null" "Height l < Height r"
    | "key = k" "l \<noteq> Null" "r \<noteq> Null" "\<not> Height l < Height r" by fastforce
  then show ?case
  proof cases
    case 1
    with "2.IH"(1) b(1) sl(1) obtain l' where l': "RemoveKey l key = Some l'" "balanced l'"
        "entries l' = cut key (entries l)" "Height l' \<le> Height l" "Height l \<le> Height l' + 1" by blast
    with Rebalance_lower [OF b l'(2) b(2) l'(4,5), of k v] 1 h show ?thesis
      by (auto simp: cut_around(2) [OF s 1])
  next
    case 2
    then have n: "\<not> key < k" by simp
    with 2 "2.IH"(2) b(2) sl(2) obtain r' where r': "RemoveKey r key = Some r'" "balanced r'"
        "entries r' = cut key (entries r)" "Height r' \<le> Height r" "Height r \<le> Height r' + 1" by blast
    with Rebalance_lower [OF b b(1) r'(2) _ _ r'(4,5), of k v] 2 n h show ?thesis
      by (auto simp: cut_around(1) [OF s 2])
  next
    case 3
    have "cut key (entries (AvlNode k v l r h)) = entries l @ entries r" using cut_around(3) [OF s 3(1)] by simp
    moreover have "0 \<le> Height l" "0 \<le> Height r" using b Height_nonneg by auto
    ultimately show ?thesis using 3 b h by auto
  next
    case 4
    from InOrderHead_correct [OF 4(3)] obtain a c ra ha es where
      hd: "InOrderHead r = Some (AvlNode a c Null ra ha)" "entries r = (a, c) # es" by blast
    with "2.IH"(3) [OF _ _ 4(2,3,4) hd(1)] 4(1) b(2) sl(2) obtain r' where
      r': "RemoveKey r a = Some r'" "balanced r'" "entries r' = cut a (entries r)"
        "Height r' \<le> Height r" "Height r \<le> Height r' + 1" by auto
    have "cut a (entries r) = es" using sl(2) cut_around(3) [of "[]" a c es a] by (simp add: hd(2))
    then have split_r: "entries l @ entries r = entries l @ (a, c) # entries r'" using hd(2) r'(3) by simp
    with Rebalance_lower [OF b b(1) r'(2) _ _ r'(4,5), of a c] 4 hd(1) r' h show ?thesis
      by (auto simp: cut_around(3) [OF s refl])
  next
    case 5
    from InOrderTail_correct [OF 5(2)] obtain a c la ha es where
      tl: "InOrderTail l = Some (AvlNode a c la Null ha)" "entries l = es @ [(a, c)]" by blast
    with "2.IH"(4) [OF _ _ 5(2,3,4) tl(1)] 5(1) b(1) sl(1) obtain l' where
      l': "RemoveKey l a = Some l'" "balanced l'" "entries l' = cut a (entries l)"
        "Height l' \<le> Height l" "Height l \<le> Height l' + 1" by auto
    have "cut a (entries l) = es" using sl(1) cut_around(3) [of es a c "[]" a] by (simp add: tl(2))
    then have split_l: "entries l @ entries r = entries l' @ (a, c) # entries r" using tl(2) l'(3) by simp
    with Rebalance_lower [OF b l'(2) b(2) l'(4,5), of a c] 5 tl(1) l' h show ?thesis
      by (auto simp: cut_around(3) [OF s refl])
  qed
qed

text \<open>What the operations do with well-formed trees.\<close>

lemma avl_ok_Null: "avl_ok Null" "avl_map Null = Map.empty"
  by (simp_all add: avl_ok_def avl_map_def)

lemma Add_correct:
  assumes "avl_ok t"
  shows "\<exists>t'. Add t key val = Some t' \<and> avl_ok t' \<and> avl_map t' = (avl_map t)(key \<mapsto> val)"
  using AddKey_correct [of t key val] assms
  by (auto simp: avl_ok_def avl_map_def Add_def map_of_put sorted_put)

lemma Remove_correct:
  assumes "avl_ok t"
  shows "\<exists>t'. Remove t key = Some t' \<and> avl_ok t' \<and> avl_map t' = (avl_map t)(key := None)"
  using RemoveKey_correct [of t key] assms
  by (auto simp: avl_ok_def avl_map_def Remove_def map_of_cut sorted_cut)

lemma map_of_around:
  assumes "sorted_keys (xs @ (k, v) # ys)"
  shows "key < k \<Longrightarrow> map_of (xs @ (k, v) # ys) key = map_of xs key"
    and "k < key \<Longrightarrow> map_of (xs @ (k, v) # ys) key = map_of ys key"
    and "map_of (xs @ (k, v) # ys) k = Some v"
proof -
  have out: "map_of zs j = None" if "\<forall>z \<in> set zs. fst z \<noteq> j" for zs :: "('a \<times> 'b) list" and j
    using that by (auto simp: map_of_eq_None_iff)
  show "map_of (xs @ (k, v) # ys) key = map_of xs key" if "key < k"
  proof -
    have "map_of ys key = None" by (rule out) (use that assms in \<open>auto simp: sorted_around\<close>)
    then show ?thesis using that by (auto simp: map_add_def split: option.splits)
  qed
  show "map_of (xs @ (k, v) # ys) key = map_of ys key" if "k < key"
    using that assms out [of xs key] by (force simp: sorted_around map_add_def split: option.splits)
  show "map_of (xs @ (k, v) # ys) k = Some v"
    using assms out [of xs k] out [of ys k] by (force simp: sorted_around map_add_def)
qed

lemma Lookup_correct: "sorted_keys (entries t) \<Longrightarrow> Lookup t key = map_of (entries t) key"
proof (induction t key rule: Get.induct)
  case (1 key)
  show ?case by (simp add: Lookup_def)
next
  case (2 k v l r h key)
  then have s: "sorted_keys (entries l @ (k, v) # entries r)" by simp
  then have "sorted_keys (entries l)" "sorted_keys (entries r)" by (auto simp: sorted_around)
  then show ?case using 2 map_of_around [OF s] by (cases key k rule: linorder_cases) (auto simp: Lookup_def)
qed

lemma ForEachImpl_fold: "ForEachImpl t f s = fold (\<lambda>(k, v). f k v) (entries t) s"
  by (induction t arbitrary: s) auto

text \<open>The last entry whose key is at most \<open>key\<close>.\<close>

definition below :: "'k::linorder \<Rightarrow> ('k \<times> 'v) list \<Rightarrow> ('k \<times> 'v) option" where
  "below key xs = (let ys = filter (\<lambda>x. fst x \<le> key) xs in if ys = [] then None else Some (last ys))"

lemma below_around:
  assumes s: "sorted_keys (xs @ (k, v) # ys)"
  shows "key < k \<Longrightarrow> below key (xs @ (k, v) # ys) = below key xs"
    and "k \<le> key \<Longrightarrow> below key (xs @ (k, v) # ys) =
      (case below key ys of None \<Rightarrow> Some (k, v) | Some e \<Rightarrow> Some e)"
    and "below k ys = None"
proof -
  have above: "filter (\<lambda>x. fst x \<le> key) ys = []" if "key \<le> k" for key
    using s that by (force simp: sorted_around filter_empty_conv)
  show "below k ys = None" using above [of k] by (simp add: below_def)
  show "below key (xs @ (k, v) # ys) = below key xs" if "key < k"
  proof -
    have "\<not> k \<le> key" "filter (\<lambda>x. fst x \<le> key) ys = []" using above [of key] that by auto
    then show ?thesis by (simp add: below_def)
  qed
  show "below key (xs @ (k, v) # ys) = (case below key ys of None \<Rightarrow> Some (k, v) | Some e \<Rightarrow> Some e)"
    if "k \<le> key"
  proof -
    have "filter (\<lambda>x. fst x \<le> key) xs = xs" using s that by (force simp: sorted_around filter_id_conv)
    then show ?thesis using that by (simp add: below_def)
  qed
qed

lemma LookupBelow_correct: "sorted_keys (entries t) \<Longrightarrow> LookupBelow t key = below key (entries t)"
proof (induction t key rule: GetBelow.induct)
  case (1 key)
  show ?case by (simp add: LookupBelow_def below_def)
next
  case (2 k v l r h key)
  then have s: "sorted_keys (entries l @ (k, v) # entries r)" by simp
  then have "sorted_keys (entries l)" "sorted_keys (entries r)" by (auto simp: sorted_around)
  then show ?case using 2 below_around [OF s]
    by (cases key k rule: linorder_cases) (auto simp: LookupBelow_def split: avl.splits option.splits)
qed

lemma below_greatest:
  assumes "sorted_keys xs"
  shows "below key xs = Some (k, v) \<longleftrightarrow>
    map_of xs k = Some v \<and> k \<le> key \<and> (\<forall>k' \<in> dom (map_of xs). k' \<le> key \<longrightarrow> k' \<le> k)"
  using assms
proof (induction xs rule: rev_induct)
  case Nil
  show ?case by (simp add: below_def)
next
  case (snoc x xs)
  obtain a b where x: "x = (a, b)" by (cases x)
  have s: "sorted_keys (xs @ (a, b) # [])" using snoc.prems by (simp add: x)
  then have sx: "sorted_keys xs" "\<forall>y \<in> set xs. fst y < a" by (auto simp: sorted_around)
  then have lt: "k' < a" if "map_of xs k' = Some v'" for k' v' using that by (force dest: map_of_SomeD)
  have m: "map_of (xs @ [x]) j = (if j = a then Some b else map_of xs j)" for j
    using map_of_around [OF s] lt [of j] by (cases "map_of xs j") (auto simp: x map_add_def)
  show ?case
  proof (cases "a \<le> key")
    case True
    then have bl: "below key (xs @ [x]) = Some (a, b)" using below_around(2) [OF s] by (simp add: x below_def)
    have only: "k = a \<and> v = b" if r: "map_of (xs @ [x]) k = Some v"
      "\<forall>k' \<in> dom (map_of (xs @ [x])). k' \<le> key \<longrightarrow> k' \<le> k"
    proof -
      have "a \<in> dom (map_of (xs @ [x]))" by (simp add: x)
      with r(2) True have "a \<le> k" by blast
      then have "k = a" using r(1) lt [of k v] by (auto simp: m x split: if_splits)
      then show ?thesis using r(1) unfolding m by simp
    qed
    have top: "k' \<le> a" if "k' \<in> dom (map_of (xs @ [x]))" for k'
    proof (cases "k' = a")
      case False
      from that obtain v' where "map_of (xs @ [x]) k' = Some v'" by blast
      with False have "map_of xs k' = Some v'" unfolding m by simp
      then show ?thesis using lt by (simp add: less_imp_le)
    qed simp
    have at_a: "map_of (xs @ [x]) a = Some b" unfolding m by simp
    show ?thesis
    proof
      assume "below key (xs @ [x]) = Some (k, v)"
      then have "k = a" "v = b" using bl by simp_all
      then show "map_of (xs @ [x]) k = Some v \<and> k \<le> key \<and>
          (\<forall>k' \<in> dom (map_of (xs @ [x])). k' \<le> key \<longrightarrow> k' \<le> k)"
        using at_a top True by blast
    next
      assume "map_of (xs @ [x]) k = Some v \<and> k \<le> key \<and>
          (\<forall>k' \<in> dom (map_of (xs @ [x])). k' \<le> key \<longrightarrow> k' \<le> k)"
      then have "k = a \<and> v = b" using only by blast
      then show "below key (xs @ [x]) = Some (k, v)" using bl by simp
    qed
  next
    case False
    then have "below key (xs @ [x]) = below key xs" using below_around(1) [OF s] by (simp add: x)
    then show ?thesis using False snoc.IH sx(1) unfolding m dom_def by (auto split: if_splits)
  qed
qed

section \<open>Sequences of operations\<close>

datatype ('k, 'v) avl_op = Op_add 'k 'v | Op_remove 'k

fun do_op :: "('k::linorder, 'v) avl_op \<Rightarrow> ('k, 'v) avl \<Rightarrow> ('k, 'v) avl option" where
  "do_op (Op_add k v) t = Add t k v"
| "do_op (Op_remove k) t = Remove t k"

fun op_map :: "('k, 'v) avl_op \<Rightarrow> ('k \<rightharpoonup> 'v) \<Rightarrow> ('k \<rightharpoonup> 'v)" where
  "op_map (Op_add k v) m = m(k \<mapsto> v)"
| "op_map (Op_remove k) m = m(k := None)"

lemma do_ops_correct:
  assumes "avl_ok t"
  shows "\<exists>t'. foldM do_op ops t = Some t' \<and> avl_ok t' \<and> avl_map t' = fold op_map ops (avl_map t)"
  using assms
proof (induction ops arbitrary: t)
  case Nil
  then show ?case by simp
next
  case (Cons p ops)
  have "\<exists>t1. do_op p t = Some t1 \<and> avl_ok t1 \<and> avl_map t1 = op_map p (avl_map t)"
    using Add_correct [OF Cons.prems] Remove_correct [OF Cons.prems] by (cases p) auto
  then obtain t1 where t1: "do_op p t = Some t1" "avl_ok t1" "avl_map t1 = op_map p (avl_map t)" by blast
  with Cons.IH [OF t1(2)] show ?case by simp
qed

lemma height_bound: "balanced t \<Longrightarrow> (2::nat) ^ (nat (Height t) div 2) \<le> length (entries t) + 1"
proof (induction t)
  case Null
  show ?case by simp
next
  case (AvlNode k v l r h)
  define n where "n = nat (h - 2)"
  have hl: "0 \<le> Height l" "0 \<le> Height r" using AvlNode.prems Height_nonneg by auto
  show ?case
  proof (cases "h < 2")
    case True
    then have "nat h div 2 = 0" by simp
    then show ?thesis by simp
  next
    case False
    then have "nat h = n + 2" by (simp add: n_def)
    then have e: "nat (Height (AvlNode k v l r h)) div 2 = Suc (n div 2)" by simp
    have "h - 2 \<le> Height l" "h - 2 \<le> Height r" using AvlNode.prems by auto
    then have "n div 2 \<le> nat (Height l) div 2" "n div 2 \<le> nat (Height r) div 2"
      by (auto simp: n_def intro!: div_le_mono)
    then have "(2::nat) ^ (n div 2) \<le> 2 ^ (nat (Height l) div 2)" "(2::nat) ^ (n div 2) \<le> 2 ^ (nat (Height r) div 2)"
      by (auto intro: power_increasing)
    moreover have "(2::nat) ^ (nat (Height l) div 2) \<le> length (entries l) + 1"
      "(2::nat) ^ (nat (Height r) div 2) \<le> length (entries r) + 1" using AvlNode by simp_all
    ultimately have "2 * (2::nat) ^ (n div 2) \<le> length (entries l) + 1 + (length (entries r) + 1)" by linarith
    then show ?thesis unfolding e by simp
  qed
qed

lemma entries_distinct: "sorted_keys xs \<Longrightarrow> distinct (map fst xs)"
  by (induction xs) force+

lemma entries_count: "avl_ok t \<Longrightarrow> length (entries t) = card (dom (avl_map t))"
  using distinct_card [OF entries_distinct [of "entries t"]]
  by (simp add: avl_ok_def avl_map_def dom_map_of_conv_image_fst)

section \<open>The set template\<close>

datatype 'k avl_set = SNull | SetNode 'k "'k avl_set" "'k avl_set" int

record 'k set_node =
  set_key :: 'k
  set_left :: "'k avl_set"
  set_right :: "'k avl_set"

fun set_deref :: "'k avl_set \<Rightarrow> 'k set_node option" where
  "set_deref SNull = None"
| "set_deref (SetNode k l r h) = Some \<lparr>set_key = k, set_left = l, set_right = r\<rparr>"

fun set_Height :: "'k avl_set \<Rightarrow> int" where
  "set_Height SNull = 0"
| "set_Height (SetNode _ _ _ h) = h"

definition set_MakeNode :: "'k \<Rightarrow> 'k avl_set \<Rightarrow> 'k avl_set \<Rightarrow> 'k avl_set" where
  "set_MakeNode key l r = SetNode key l r (1 + max (set_Height l) (set_Height r))"

fun set_Get :: "'k::linorder avl_set \<Rightarrow> 'k \<Rightarrow> 'k avl_set" where
  "set_Get SNull key = SNull"
| "set_Get (SetNode k l r h) key =
     (if k > key then set_Get l key
      else if k < key then set_Get r key
      else SetNode k l r h)"

definition set_RotateLeft :: "'k \<Rightarrow> 'k avl_set \<Rightarrow> 'k avl_set \<Rightarrow> 'k avl_set option" where
  "set_RotateLeft key l r =
     do { n \<leftarrow> set_deref r;
          Some (set_MakeNode (set_key n) (set_MakeNode key l (set_left n)) (set_right n)) }"

definition set_RotateRight :: "'k \<Rightarrow> 'k avl_set \<Rightarrow> 'k avl_set \<Rightarrow> 'k avl_set option" where
  "set_RotateRight key l r =
     do { n \<leftarrow> set_deref l;
          Some (set_MakeNode (set_key n) (set_left n) (set_MakeNode key (set_right n) r)) }"

definition set_RotateLeftRight :: "'k \<Rightarrow> 'k avl_set \<Rightarrow> 'k avl_set \<Rightarrow> 'k avl_set option" where
  "set_RotateLeftRight key l r =
     do { n \<leftarrow> set_deref l;
          m \<leftarrow> set_deref (set_right n);
          Some (set_MakeNode (set_key m) (set_MakeNode (set_key n) (set_left n) (set_left m))
                  (set_MakeNode key (set_right m) r)) }"

definition set_RotateRightLeft :: "'k \<Rightarrow> 'k avl_set \<Rightarrow> 'k avl_set \<Rightarrow> 'k avl_set option" where
  "set_RotateRightLeft key l r =
     do { n \<leftarrow> set_deref r;
          m \<leftarrow> set_deref (set_left n);
          Some (set_MakeNode (set_key m) (set_MakeNode key l (set_left m))
                  (set_MakeNode (set_key n) (set_right m) (set_right n))) }"

definition set_Rebalance :: "'k \<Rightarrow> 'k avl_set \<Rightarrow> 'k avl_set \<Rightarrow> 'k avl_set option" where
  "set_Rebalance key l r =
     (if set_Height l - set_Height r = 2
      then do { n \<leftarrow> set_deref l;
                if set_Height (set_left n) - set_Height (set_right n) = - 1 then set_RotateLeftRight key l r
                else set_RotateRight key l r }
      else if set_Height l - set_Height r = - 2
      then do { n \<leftarrow> set_deref r;
                if set_Height (set_left n) - set_Height (set_right n) = 1 then set_RotateRightLeft key l r
                else set_RotateLeft key l r }
      else Some (set_MakeNode key l r))"

fun set_AddKey :: "'k::linorder avl_set \<Rightarrow> 'k \<Rightarrow> 'k avl_set option" where
  "set_AddKey SNull key = Some (set_MakeNode key SNull SNull)"
| "set_AddKey (SetNode k l r h) key =
     (if k < key then do { r' \<leftarrow> set_AddKey r key; set_Rebalance k l r' }
      else if key < k then do { l' \<leftarrow> set_AddKey l key; set_Rebalance k l' r }
      else Some (set_MakeNode key l r))"

fun set_InOrderHead :: "'k avl_set \<Rightarrow> 'k avl_set option" where
  "set_InOrderHead SNull = None"
| "set_InOrderHead (SetNode k l r h) = (if l \<noteq> SNull then set_InOrderHead l else Some (SetNode k l r h))"

fun set_InOrderTail :: "'k avl_set \<Rightarrow> 'k avl_set option" where
  "set_InOrderTail SNull = None"
| "set_InOrderTail (SetNode k l r h) = (if r \<noteq> SNull then set_InOrderTail r else Some (SetNode k l r h))"

fun set_RemoveKey :: "'k::linorder avl_set \<Rightarrow> 'k \<Rightarrow> 'k avl_set option" where
  "set_RemoveKey SNull key = Some SNull"
| "set_RemoveKey (SetNode k l r h) key =
     (if key < k then do { l' \<leftarrow> set_RemoveKey l key; set_Rebalance k l' r }
      else if k < key then do { r' \<leftarrow> set_RemoveKey r key; set_Rebalance k l r' }
      else if l = SNull then Some r
      else if r = SNull then Some l
      else if set_Height l < set_Height r
      then do { p \<leftarrow> set_InOrderHead r;
                n \<leftarrow> set_deref p;
                r' \<leftarrow> set_RemoveKey r (set_key n);
                set_Rebalance (set_key n) l r' }
      else do { p \<leftarrow> set_InOrderTail l;
                n \<leftarrow> set_deref p;
                l' \<leftarrow> set_RemoveKey l (set_key n);
                set_Rebalance (set_key n) l' r })"

fun set_ForEachImpl :: "'k avl_set \<Rightarrow> ('k \<Rightarrow> 's \<Rightarrow> 's) \<Rightarrow> 's \<Rightarrow> 's" where
  "set_ForEachImpl SNull f s = s"
| "set_ForEachImpl (SetNode k l r h) f s = set_ForEachImpl r f (f k (set_ForEachImpl l f s))"

definition set_Add :: "'k::linorder avl_set \<Rightarrow> 'k \<Rightarrow> 'k avl_set option" where
  "set_Add root key = set_AddKey root key"

definition set_Remove :: "'k::linorder avl_set \<Rightarrow> 'k \<Rightarrow> 'k avl_set option" where
  "set_Remove root key = set_RemoveKey root key"

definition set_Lookup :: "'k::linorder avl_set \<Rightarrow> 'k \<Rightarrow> bool" where
  "set_Lookup root key \<longleftrightarrow> set_Get root key \<noteq> SNull"

definition set_Empty :: "'k avl_set \<Rightarrow> bool" where
  "set_Empty root \<longleftrightarrow> (case root of SNull \<Rightarrow> True | _ \<Rightarrow> False)"

definition set_ForEach :: "'k avl_set \<Rightarrow> ('k \<Rightarrow> 's \<Rightarrow> 's) \<Rightarrow> 's \<Rightarrow> 's" where
  "set_ForEach root f s = set_ForEachImpl root f s"

text \<open>A map without its values.\<close>

fun erase :: "('k, 'v) avl \<Rightarrow> 'k avl_set" where
  "erase Null = SNull"
| "erase (AvlNode k v l r h) = SetNode k (erase l) (erase r) h"

lemma erase_SNull [simp]: "erase t = SNull \<longleftrightarrow> t = Null"
  by (cases t) auto

lemma erase_Height [simp]: "set_Height (erase t) = Height t"
  by (cases t) auto

lemma erase_deref:
  "set_deref (erase t) =
     map_option (\<lambda>n. \<lparr>set_key = kv_first n, set_left = erase (left n), set_right = erase (right n)\<rparr>) (deref t)"
  by (cases t) auto

lemma erase_MakeNode [simp]: "erase (MakeNode k v l r) = set_MakeNode k (erase l) (erase r)"
  by (simp add: MakeNode_def set_MakeNode_def)

lemma map_option_bind: "map_option f (m \<bind> g) = m \<bind> (\<lambda>x. map_option f (g x))"
  by (cases m) auto

lemma bind_map_option: "map_option f m \<bind> g = m \<bind> (\<lambda>x. g (f x))"
  by (cases m) auto

lemma erase_rotations:
  "map_option erase (RotateLeft k v l r) = set_RotateLeft k (erase l) (erase r)"
  "map_option erase (RotateRight k v l r) = set_RotateRight k (erase l) (erase r)"
  "map_option erase (RotateLeftRight k v l r) = set_RotateLeftRight k (erase l) (erase r)"
  "map_option erase (RotateRightLeft k v l r) = set_RotateRightLeft k (erase l) (erase r)"
  by (simp_all add: erase_deref map_option_bind bind_map_option
      set_RotateLeft_def RotateLeft_def set_RotateRight_def RotateRight_def
      set_RotateLeftRight_def RotateLeftRight_def set_RotateRightLeft_def RotateRightLeft_def)

lemma erase_Rebalance:
  "map_option erase (Rebalance k v l r) = set_Rebalance k (erase l) (erase r)"
proof -
  consider "Height l - Height r = 2" | "Height l - Height r = - 2"
    | "Height l - Height r \<noteq> 2" "Height l - Height r \<noteq> - 2" by blast
  then show ?thesis
  proof cases
    case 1
    then show ?thesis by (cases l) (auto simp: set_Rebalance_def Rebalance_def erase_rotations)
  next
    case 2
    then show ?thesis by (cases r) (auto simp: set_Rebalance_def Rebalance_def erase_rotations)
  qed (simp add: set_Rebalance_def Rebalance_def)
qed

lemma erase_AddKey: "set_AddKey (erase t) key = map_option erase (AddKey t key val)"
  by (induction t key val rule: AddKey.induct)
    (simp_all add: erase_Rebalance map_option_bind bind_map_option)

lemma erase_InOrderHead: "set_InOrderHead (erase t) = map_option erase (InOrderHead t)"
  by (induction t) auto

lemma erase_InOrderTail: "set_InOrderTail (erase t) = map_option erase (InOrderTail t)"
  by (induction t) auto

lemma erase_RemoveKey: "set_RemoveKey (erase t) key = map_option erase (RemoveKey t key)"
proof (induction t key rule: RemoveKey.induct)
  case (1 key)
  show ?case by simp
next
  case (2 k v l r h key)
  have head: "InOrderHead r \<bind> (\<lambda>p. deref p \<bind> (\<lambda>n. set_RemoveKey (erase r) (kv_first n) \<bind> set_Rebalance (kv_first n) (erase l))) =
      InOrderHead r \<bind> (\<lambda>p. deref p \<bind> (\<lambda>n. map_option erase (RemoveKey r (kv_first n)) \<bind> set_Rebalance (kv_first n) (erase l)))"
    if "\<not> key < k" "\<not> k < key" "l \<noteq> Null" "r \<noteq> Null" "Height l < Height r"
    using 2(3) [OF that] by (intro Option.bind_cong) auto
  have tail: "InOrderTail l \<bind> (\<lambda>p. deref p \<bind> (\<lambda>n. set_RemoveKey (erase l) (kv_first n) \<bind> (\<lambda>l'. set_Rebalance (kv_first n) l' (erase r)))) =
      InOrderTail l \<bind> (\<lambda>p. deref p \<bind> (\<lambda>n. map_option erase (RemoveKey l (kv_first n)) \<bind> (\<lambda>l'. set_Rebalance (kv_first n) l' (erase r))))"
    if "\<not> key < k" "\<not> k < key" "l \<noteq> Null" "r \<noteq> Null" "\<not> Height l < Height r"
    using 2(4) [OF that] by (intro Option.bind_cong) auto
  show ?case using 2(1,2) head tail
    by (simp add: erase_Rebalance erase_InOrderHead erase_InOrderTail erase_deref map_option_bind bind_map_option)
qed

lemma erase_Get: "set_Get (erase t) key = erase (Get t key)"
  by (induction t key rule: Get.induct) auto

lemma erase_ForEachImpl: "set_ForEachImpl (erase t) f s = ForEachImpl t (\<lambda>k v. f k) s"
  by (induction t arbitrary: s) auto

section \<open>Properties\<close>

text \<open>
  C7: A tree built by any sequence of additions and removals stands for the map those operations give:
  no null pointer is followed, every lookup answers as the map does, a traversal visits the entries
  of the map by increasing key, and the height is at most twice the logarithm of their number.
\<close>

theorem avl_refines_map:
  "\<exists>t. foldM do_op ops Null = Some t \<and>
     (let m = fold op_map ops Map.empty; es = ForEach t (\<lambda>k v es. es @ [(k, v)]) []
      in (\<forall>key. Lookup t key = m key) \<and> map_of es = m \<and> sorted_keys es \<and>
         2 ^ (nat (Height t) div 2) \<le> card (dom m) + 1)"
proof -
  obtain t where t: "foldM do_op ops Null = Some t" "avl_ok t" "avl_map t = fold op_map ops Map.empty"
    using do_ops_correct [OF avl_ok_Null(1), of ops] by (auto simp: avl_ok_Null)
  have "fold (\<lambda>(k, v) es. es @ [(k, v)]) xs ys = ys @ xs" for xs ys :: "('a \<times> 'b) list"
    by (induction xs arbitrary: ys) auto
  then have "ForEach t (\<lambda>k v es. es @ [(k, v)]) [] = entries t" by (simp add: ForEach_def ForEachImpl_fold)
  then show ?thesis using t height_bound [of t] entries_count [OF t(2)] Lookup_correct [of t]
    by (auto simp: avl_ok_def avl_map_def Let_def)
qed

text \<open>
  On a well-formed tree LookupBelow finds the entry with the greatest key that is at most the
  given one, and nothing when there is none.
\<close>

theorem avl_lookup_below:
  assumes "avl_ok t"
  shows "LookupBelow t key = Some (k, v) \<longleftrightarrow>
    avl_map t k = Some v \<and> k \<le> key \<and> (\<forall>k' \<in> dom (avl_map t). k' \<le> key \<longrightarrow> k' \<le> k)"
  using assms below_greatest [of "entries t" key k v] LookupBelow_correct [of t key]
  by (simp add: avl_ok_def avl_map_def)

definition three_keys :: "(nat, nat) avl" where
  "three_keys = AvlNode 4 40 (AvlNode 2 20 Null Null 1) (AvlNode 7 70 Null Null 1) 2"

theorem avl_lookup_below_witness: "LookupBelow three_keys 6 = Some (4, 40)"
proof -
  have "avl_ok three_keys" by (simp add: three_keys_def avl_ok_def)
  from avl_lookup_below [OF this, of 6 4 40] show ?thesis
    by (auto simp: three_keys_def avl_map_def dom_def split: if_splits)
qed

text \<open>
  The set template does with the keys what the map template does: every operation commutes with
  forgetting the values.
\<close>

theorem avl_set_template_agrees:
  "set_Add (erase t) key = map_option erase (Add t key val) \<and>
   set_Remove (erase t) key = map_option erase (Remove t key) \<and>
   set_Lookup (erase t) key = (Lookup t key \<noteq> None) \<and>
   set_Empty (erase t) = Empty t \<and>
   set_ForEach (erase t) f s = ForEach t (\<lambda>k v. f k) s"
proof -
  have "set_Lookup (erase t) key = (Lookup t key \<noteq> None)"
    by (cases "Get t key") (auto simp: set_Lookup_def Lookup_def erase_Get)
  moreover have "set_Empty (erase t) = Empty t" by (cases t) (auto simp: set_Empty_def Empty_def)
  ultimately show ?thesis
    by (simp add: set_Add_def Add_def set_Remove_def Remove_def set_ForEach_def ForEach_def
        erase_AddKey [where val = val] erase_RemoveKey erase_ForEachImpl)
qed

end
