(* ===== verification/Grpc_Time.thy ===== *)
theory Grpc_Time
  imports Grpc_Base
begin

text \<open>
  Time arithmetic of gRPC (\<open>core/lib/gpr/time.cc\<close>): comparison, saturating addition and
  subtraction of \<open>gpr_timespec\<close>, and conversions from and to counts of units.

  \<open>None\<close> stands for a signed overflow or a failed \<open>GPR_ASSERT\<close>. The clock \<open>gpr_now\<close> is an argument.
  The guards of the additions do not overflow for 64-bit fields because of the sign tests before
  them.
\<close>

section \<open>Data\<close>

datatype clock_type = GPR_CLOCK_MONOTONIC | GPR_CLOCK_REALTIME | GPR_CLOCK_PRECISE | GPR_TIMESPAN

record timespec =
  tv_sec :: int
  tv_nsec :: int
  clock_type :: clock_type

definition GPR_MS_PER_SEC :: int where "GPR_MS_PER_SEC = 1000"
definition GPR_US_PER_SEC :: int where "GPR_US_PER_SEC = 1000000"
definition GPR_NS_PER_SEC :: int where "GPR_NS_PER_SEC = 1000000000"
definition GPR_NS_PER_MS :: int where "GPR_NS_PER_MS = 1000000"

text \<open>The result of an operation on \<open>int32_t\<close>, and a cast to it.\<close>

definition i32 :: "int \<Rightarrow> int option" where
  "i32 x = (if - 0x80000000 \<le> x \<and> x \<le> 0x7fffffff then Some x else None)"

definition cast_i32 :: "int \<Rightarrow> int" where
  "cast_i32 x = signed_take_bit 31 x"

section \<open>Operations\<close>

text \<open>\<open>(x > y) - (x < y)\<close>\<close>

definition cmp_int :: "int \<Rightarrow> int \<Rightarrow> int" where
  "cmp_int x y = of_bool (x > y) - of_bool (x < y)"

definition gpr_time_cmp :: "timespec \<Rightarrow> timespec \<Rightarrow> int option" where
  "gpr_time_cmp a b =
     (let cmp = cmp_int (tv_sec a) (tv_sec b)
      in do { assert_c (clock_type a = clock_type b);
              Some (if cmp = 0 \<and> tv_sec a \<noteq> INT64_MAX \<and> tv_sec a \<noteq> INT64_MIN
                    then cmp_int (tv_nsec a) (tv_nsec b) else cmp) })"

definition gpr_time_min :: "timespec \<Rightarrow> timespec \<Rightarrow> timespec option" where
  "gpr_time_min a b = do { c \<leftarrow> gpr_time_cmp a b; Some (if c < 0 then a else b) }"

definition gpr_time_max :: "timespec \<Rightarrow> timespec \<Rightarrow> timespec option" where
  "gpr_time_max a b = do { c \<leftarrow> gpr_time_cmp a b; Some (if c > 0 then a else b) }"

definition gpr_time_0 :: "clock_type \<Rightarrow> timespec" where
  "gpr_time_0 ty = \<lparr>tv_sec = 0, tv_nsec = 0, clock_type = ty\<rparr>"

definition gpr_inf_future :: "clock_type \<Rightarrow> timespec" where
  "gpr_inf_future ty = \<lparr>tv_sec = INT64_MAX, tv_nsec = 0, clock_type = ty\<rparr>"

definition gpr_inf_past :: "clock_type \<Rightarrow> timespec" where
  "gpr_inf_past ty = \<lparr>tv_sec = INT64_MIN, tv_nsec = 0, clock_type = ty\<rparr>"

text \<open>The seconds of a negative time.\<close>

definition negative_seconds :: "int \<Rightarrow> int \<Rightarrow> int option" where
  "negative_seconds time_in_units units_per_sec =
     do { x \<leftarrow> i64 (time_in_units + units_per_sec);
          y \<leftarrow> i64 ((units_per_sec - 1) - x);
          z \<leftarrow> i64 (- y);
          i64 (z sdiv units_per_sec - 1) }"

definition to_seconds_from_sub_second_time :: "int \<Rightarrow> int \<Rightarrow> clock_type \<Rightarrow> timespec option" where
  "to_seconds_from_sub_second_time time_in_units units_per_sec ty =
     (if time_in_units = INT64_MAX then Some (gpr_inf_future ty)
      else if time_in_units = INT64_MIN then Some (gpr_inf_past ty)
      else do { sec \<leftarrow> (if time_in_units \<ge> 0 then Some (time_in_units sdiv units_per_sec)
                       else negative_seconds time_in_units units_per_sec);
                p \<leftarrow> i64 (sec * units_per_sec);
                d \<leftarrow> i64 (time_in_units - p);
                n \<leftarrow> i64 (d * GPR_NS_PER_SEC);
                Some \<lparr>tv_sec = sec, tv_nsec = cast_i32 (n sdiv units_per_sec), clock_type = ty\<rparr> })"

definition to_seconds_from_above_second_time :: "int \<Rightarrow> int \<Rightarrow> clock_type \<Rightarrow> timespec option" where
  "to_seconds_from_above_second_time time_in_units secs_per_unit ty =
     (if time_in_units \<ge> INT64_MAX sdiv secs_per_unit then Some (gpr_inf_future ty)
      else if time_in_units \<le> INT64_MIN sdiv secs_per_unit then Some (gpr_inf_past ty)
      else do { sec \<leftarrow> i64 (time_in_units * secs_per_unit);
                Some \<lparr>tv_sec = sec, tv_nsec = 0, clock_type = ty\<rparr> })"

definition gpr_time_from_nanos :: "int \<Rightarrow> clock_type \<Rightarrow> timespec option" where
  "gpr_time_from_nanos ns ty = to_seconds_from_sub_second_time ns GPR_NS_PER_SEC ty"

definition gpr_time_from_micros :: "int \<Rightarrow> clock_type \<Rightarrow> timespec option" where
  "gpr_time_from_micros us ty = to_seconds_from_sub_second_time us GPR_US_PER_SEC ty"

definition gpr_time_from_millis :: "int \<Rightarrow> clock_type \<Rightarrow> timespec option" where
  "gpr_time_from_millis ms ty = to_seconds_from_sub_second_time ms GPR_MS_PER_SEC ty"

definition gpr_time_from_seconds :: "int \<Rightarrow> clock_type \<Rightarrow> timespec option" where
  "gpr_time_from_seconds s ty = to_seconds_from_sub_second_time s 1 ty"

definition gpr_time_from_minutes :: "int \<Rightarrow> clock_type \<Rightarrow> timespec option" where
  "gpr_time_from_minutes m ty = to_seconds_from_above_second_time m 60 ty"

definition gpr_time_from_hours :: "int \<Rightarrow> clock_type \<Rightarrow> timespec option" where
  "gpr_time_from_hours h ty = to_seconds_from_above_second_time h 3600 ty"

definition gpr_time_add :: "timespec \<Rightarrow> timespec \<Rightarrow> timespec option" where
  "gpr_time_add a b =
     do { assert_c (clock_type b = GPR_TIMESPAN);
          assert_c (tv_nsec b \<ge> 0);
          n \<leftarrow> i32 (tv_nsec a + tv_nsec b);
          let (nsec, inc) = (if n \<ge> GPR_NS_PER_SEC then (n - GPR_NS_PER_SEC, 1) else (n, 0));
          if tv_sec a = INT64_MAX \<or> tv_sec a = INT64_MIN then Some a
          else if tv_sec b = INT64_MAX \<or> tv_sec b \<ge> 0 \<and> tv_sec a \<ge> INT64_MAX - tv_sec b
          then Some (gpr_inf_future (clock_type a))
          else if tv_sec b = INT64_MIN \<or> tv_sec b \<le> 0 \<and> tv_sec a \<le> INT64_MIN - tv_sec b
          then Some (gpr_inf_past (clock_type a))
          else do { sec \<leftarrow> i64 (tv_sec a + tv_sec b);
                    if inc \<noteq> 0 \<and> sec = INT64_MAX - 1 then Some (gpr_inf_future (clock_type a))
                    else do { sec' \<leftarrow> i64 (sec + inc);
                              Some \<lparr>tv_sec = sec', tv_nsec = nsec, clock_type = clock_type a\<rparr> } } }"

definition gpr_time_sub :: "timespec \<Rightarrow> timespec \<Rightarrow> timespec option" where
  "gpr_time_sub a b =
     do { ty \<leftarrow> (if clock_type b = GPR_TIMESPAN
                 then do { assert_c (tv_nsec b \<ge> 0); Some (clock_type a) }
                 else do { assert_c (clock_type a = clock_type b); Some GPR_TIMESPAN });
          n \<leftarrow> i32 (tv_nsec a - tv_nsec b);
          let (nsec, dec) = (if n < 0 then (n + GPR_NS_PER_SEC, 1) else (n, 0));
          if tv_sec a = INT64_MAX \<or> tv_sec a = INT64_MIN then Some a
          else if tv_sec b = INT64_MIN \<or> tv_sec b \<le> 0 \<and> tv_sec a \<ge> INT64_MAX + tv_sec b
          then Some (gpr_inf_future GPR_CLOCK_REALTIME)
          else if tv_sec b = INT64_MAX \<or> tv_sec b \<ge> 0 \<and> tv_sec a \<le> INT64_MIN + tv_sec b
          then Some (gpr_inf_past GPR_CLOCK_REALTIME)
          else do { sec \<leftarrow> i64 (tv_sec a - tv_sec b);
                    if dec \<noteq> 0 \<and> sec = INT64_MIN + 1 then Some (gpr_inf_past GPR_CLOCK_REALTIME)
                    else do { sec' \<leftarrow> i64 (sec - dec);
                              Some \<lparr>tv_sec = sec', tv_nsec = nsec, clock_type = ty\<rparr> } } }"

definition gpr_time_similar :: "timespec \<Rightarrow> timespec \<Rightarrow> timespec \<Rightarrow> bool option" where
  "gpr_time_similar a b threshold =
     do { assert_c (clock_type a = clock_type b);
          assert_c (clock_type threshold = GPR_TIMESPAN);
          cmp_ab \<leftarrow> gpr_time_cmp a b;
          if cmp_ab = 0 then Some True
          else do { d \<leftarrow> (if cmp_ab < 0 then gpr_time_sub b a else gpr_time_sub a b);
                    c \<leftarrow> gpr_time_cmp d threshold;
                    Some (c \<le> 0) } }"

definition gpr_time_to_millis :: "timespec \<Rightarrow> int" where
  "gpr_time_to_millis t =
     (if tv_sec t \<ge> 2147483
      then if tv_sec t = 2147483 \<and> tv_nsec t < 648 * GPR_NS_PER_MS
           then 2147483 * GPR_MS_PER_SEC + tv_nsec t sdiv GPR_NS_PER_MS
           else 2147483647
      else if tv_sec t \<le> - 2147483 then - 2147483647
      else cast_i32 (tv_sec t * GPR_MS_PER_SEC + tv_nsec t sdiv GPR_NS_PER_MS))"

definition gpr_convert_clock_type :: "(clock_type \<Rightarrow> timespec) \<Rightarrow> timespec \<Rightarrow> clock_type \<Rightarrow> timespec option" where
  "gpr_convert_clock_type gpr_now t ty =
     (if clock_type t = ty then Some t
      else if tv_sec t = INT64_MAX \<or> tv_sec t = INT64_MIN then Some (t\<lparr>clock_type := ty\<rparr>)
      else if ty = GPR_TIMESPAN then gpr_time_sub t (gpr_now (clock_type t))
      else if clock_type t = GPR_TIMESPAN then gpr_time_add (gpr_now ty) t
      else do { d \<leftarrow> gpr_time_sub t (gpr_now (clock_type t)); gpr_time_add (gpr_now ty) d })"

section \<open>Times as numbers of nanoseconds\<close>

definition valid_time :: "timespec \<Rightarrow> bool" where
  "valid_time t \<longleftrightarrow> INT64_MIN \<le> tv_sec t \<and> tv_sec t \<le> INT64_MAX \<and> 0 \<le> tv_nsec t \<and> tv_nsec t < 1000000000"

definition finite_time :: "timespec \<Rightarrow> bool" where
  "finite_time t \<longleftrightarrow> tv_sec t \<noteq> INT64_MAX \<and> tv_sec t \<noteq> INT64_MIN"

definition nanos :: "timespec \<Rightarrow> int" where
  "nanos t = tv_sec t * 1000000000 + tv_nsec t"

lemma nanos_less:
  assumes "0 \<le> n" "n < 1000000000" "0 \<le> n'" "n' < 1000000000"
  shows "s * 1000000000 + n < s' * 1000000000 + n' \<longleftrightarrow> s < s' \<or> s = s' \<and> n < (n' :: int)"
proof (cases s s' rule: linorder_cases)
  case less
  then have "s + 1 \<le> s'" by simp
  then show ?thesis using assms less by linarith
next
  case greater
  then have "s' + 1 \<le> s" by simp
  then show ?thesis using assms greater by linarith
qed simp

lemma nanos_unique:
  assumes "0 \<le> n" "n < 1000000000" "0 \<le> n'" "n' < 1000000000"
    and "s * 1000000000 + n = s' * 1000000000 + (n' :: int)"
  shows "s = s' \<and> n = n'"
  using assms nanos_less [of n n' s s'] nanos_less [of n' n s' s] by linarith

lemmas time_consts = INT64_MAX_def INT64_MIN_def GPR_NS_PER_SEC_def GPR_MS_PER_SEC_def GPR_NS_PER_MS_def

lemma i32_small: "- 0x80000000 \<le> x \<Longrightarrow> x \<le> 0x7fffffff \<Longrightarrow> i32 x = Some x"
  by (simp add: i32_def)

lemma cast_i32_small: "- 0x80000000 \<le> x \<Longrightarrow> x < 0x80000000 \<Longrightarrow> cast_i32 x = x"
  by (simp add: cast_i32_def signed_take_bit_int_eq_self)

lemma time_cmp_nanos:
  assumes "valid_time a" "valid_time b" "finite_time a" "clock_type a = clock_type b"
  shows "gpr_time_cmp a b = Some (sgn (nanos a - nanos b))"
proof -
  have "cmp_int (tv_sec a) (tv_sec b) = sgn (nanos a - nanos b)" if "tv_sec a \<noteq> tv_sec b"
    using that assms nanos_less [of "tv_nsec a" "tv_nsec b" "tv_sec a" "tv_sec b"]
    by (auto simp: cmp_int_def nanos_def valid_time_def sgn_if)
  moreover have "cmp_int (tv_nsec a) (tv_nsec b) = sgn (nanos a - nanos b)" if "tv_sec a = tv_sec b"
    using that by (auto simp: cmp_int_def nanos_def sgn_if)
  ultimately show ?thesis using assms by (auto simp: gpr_time_cmp_def finite_time_def cmp_int_def)
qed

section \<open>Saturating addition\<close>

definition sum_time :: "timespec \<Rightarrow> timespec \<Rightarrow> timespec \<Rightarrow> bool" where
  "sum_time a b s \<longleftrightarrow> valid_time s \<and> clock_type s = clock_type a \<and>
     (if tv_sec b = INT64_MAX \<or> INT64_MAX * 1000000000 \<le> nanos a + nanos b then s = gpr_inf_future (clock_type a)
      else if tv_sec b = INT64_MIN \<or> tv_sec a + tv_sec b \<le> INT64_MIN then s = gpr_inf_past (clock_type a)
      else finite_time s \<and> nanos s = nanos a + nanos b)"

lemma inf_valid: "valid_time (gpr_inf_future ty)" "valid_time (gpr_inf_past ty)"
  by (simp_all add: valid_time_def gpr_inf_future_def gpr_inf_past_def time_consts)

lemma time_add_correct:
  assumes a: "valid_time a" "finite_time a" and b: "valid_time b" "clock_type b = GPR_TIMESPAN"
  shows "\<exists>s. gpr_time_add a b = Some s \<and> sum_time a b s"
proof -
  define n where "n = tv_nsec a + tv_nsec b"
  have n: "0 \<le> n" "n < 2000000000" "i32 n = Some n"
    using a(1) b(1) by (auto simp: n_def valid_time_def i32_def)
  have e: "nanos a + nanos b = (tv_sec a + tv_sec b) * 1000000000 + n" by (simp add: nanos_def n_def)
  have an: "tv_sec a \<noteq> INT64_MAX" "tv_sec a \<noteq> INT64_MIN" using a(2) by (auto simp: finite_time_def)
  have nb: "0 \<le> tv_nsec b" using b(1) by (simp add: valid_time_def)
  note add = gpr_time_add_def b(2) nb n_def [symmetric] n(3) an
  consider (future) "tv_sec b = INT64_MAX \<or> tv_sec b \<ge> 0 \<and> tv_sec a \<ge> INT64_MAX - tv_sec b"
    | (past) "tv_sec b \<noteq> INT64_MAX" "\<not> (tv_sec b \<ge> 0 \<and> tv_sec a \<ge> INT64_MAX - tv_sec b)"
        "tv_sec b = INT64_MIN \<or> tv_sec b \<le> 0 \<and> tv_sec a \<le> INT64_MIN - tv_sec b"
    | (sum) "tv_sec b \<noteq> INT64_MAX" "tv_sec b \<noteq> INT64_MIN"
        "\<not> (tv_sec b \<ge> 0 \<and> tv_sec a \<ge> INT64_MAX - tv_sec b)" "\<not> (tv_sec b \<le> 0 \<and> tv_sec a \<le> INT64_MIN - tv_sec b)"
    by blast
  then show ?thesis
  proof cases
    case future
    then have "tv_sec b = INT64_MAX \<or> INT64_MAX * 1000000000 \<le> nanos a + nanos b"
      using n(1) unfolding e by (auto intro: order_trans [OF mult_right_mono])
    moreover from future have "gpr_time_add a b = Some (gpr_inf_future (clock_type a))"
      by (auto simp: add Let_def split: if_splits)
    ultimately show ?thesis using inf_valid by (auto simp: sum_time_def gpr_inf_future_def)
  next
    case past
    then have "tv_sec b = INT64_MIN \<or> tv_sec a + tv_sec b \<le> INT64_MIN" by auto
    moreover have "\<not> INT64_MAX * 1000000000 \<le> nanos a + nanos b"
      using past a(1) b(1) n(2) unfolding e by (auto simp: valid_time_def time_consts)
    moreover from past have "gpr_time_add a b = Some (gpr_inf_past (clock_type a))"
      by (auto simp: add Let_def split: if_splits)
    ultimately show ?thesis using inf_valid past(1) by (auto simp: sum_time_def gpr_inf_past_def)
  next
    case sum
    have r: "INT64_MIN < tv_sec a + tv_sec b" "tv_sec a + tv_sec b < INT64_MAX"
      using sum a(1) b(1) an by (auto simp: valid_time_def)
    then have i: "i64 (tv_sec a + tv_sec b) = Some (tv_sec a + tv_sec b)" by (intro i64_in) auto
    show ?thesis
    proof (cases "n \<ge> 1000000000")
      case False
      with r i sum have "gpr_time_add a b =
          Some \<lparr>tv_sec = tv_sec a + tv_sec b, tv_nsec = n, clock_type = clock_type a\<rparr>"
        by (auto simp: add Let_def GPR_NS_PER_SEC_def)
      then show ?thesis using False r n sum e
        by (auto simp: sum_time_def valid_time_def finite_time_def nanos_def)
    next
      case True
      then show ?thesis
      proof (cases "tv_sec a + tv_sec b = INT64_MAX - 1")
        case carry: True
        with True i sum have "gpr_time_add a b = Some (gpr_inf_future (clock_type a))"
          by (auto simp: add Let_def GPR_NS_PER_SEC_def)
        then show ?thesis using inf_valid carry True unfolding sum_time_def e
          by (auto simp: gpr_inf_future_def time_consts)
      next
        case False
        have i': "i64 (tv_sec a + tv_sec b + 1) = Some (tv_sec a + tv_sec b + 1)"
          using r by (intro i64_in) auto
        with True False i sum have "gpr_time_add a b =
            Some \<lparr>tv_sec = tv_sec a + tv_sec b + 1, tv_nsec = n - 1000000000, clock_type = clock_type a\<rparr>"
          by (auto simp: add Let_def GPR_NS_PER_SEC_def)
        then show ?thesis using False True r n sum e
          by (auto simp: sum_time_def valid_time_def finite_time_def nanos_def)
      qed
    qed
  qed
qed

section \<open>Subtraction\<close>

lemma time_sub_correct:
  assumes a: "valid_time a" "finite_time a" and b: "valid_time b" "finite_time b"
    and ty: "clock_type b = GPR_TIMESPAN \<or> clock_type a = clock_type b"
    and r: "INT64_MIN + 1 < tv_sec a - tv_sec b" "tv_sec a - tv_sec b < INT64_MAX"
  shows "\<exists>d. gpr_time_sub a b = Some d \<and> valid_time d \<and> finite_time d \<and> nanos d = nanos a - nanos b \<and>
    clock_type d = (if clock_type b = GPR_TIMESPAN then clock_type a else GPR_TIMESPAN)"
proof -
  define n where "n = tv_nsec a - tv_nsec b"
  have n: "- 1000000000 < n" "n < 1000000000" "i32 n = Some n"
    using a(1) b(1) by (auto simp: n_def valid_time_def i32_def)
  have fin: "tv_sec a \<noteq> INT64_MAX" "tv_sec a \<noteq> INT64_MIN" "tv_sec b \<noteq> INT64_MAX" "tv_sec b \<noteq> INT64_MIN"
    using a(2) b(2) by (auto simp: finite_time_def)
  have i: "i64 (tv_sec a - tv_sec b) = Some (tv_sec a - tv_sec b)"
    "i64 (tv_sec a - tv_sec b - 1) = Some (tv_sec a - tv_sec b - 1)"
    using r by (auto intro!: i64_in)
  have nb: "0 \<le> tv_nsec b" using b(1) by (simp add: valid_time_def)
  define ty' where "ty' = (if clock_type b = GPR_TIMESPAN then clock_type a else GPR_TIMESPAN)"
  have "gpr_time_sub a b = Some (if n < 0
      then \<lparr>tv_sec = tv_sec a - tv_sec b - 1, tv_nsec = n + 1000000000, clock_type = ty'\<rparr>
      else \<lparr>tv_sec = tv_sec a - tv_sec b, tv_nsec = n, clock_type = ty'\<rparr>)"
    using ty r by (auto simp: gpr_time_sub_def n_def [symmetric] n(3) fin i nb ty'_def GPR_NS_PER_SEC_def Let_def)
  then show ?thesis using n r
    by (auto simp: valid_time_def finite_time_def nanos_def ty'_def n_def)
qed

lemma nanos_inject:
  assumes "valid_time a" "valid_time b" "nanos a = nanos b" "clock_type a = clock_type b"
  shows "a = b"
  using assms nanos_unique [of "tv_nsec a" "tv_nsec b" "tv_sec a" "tv_sec b"]
  by (intro timespec.equality) (auto simp: valid_time_def nanos_def)

section \<open>Counts of units\<close>

lemma sdiv_succ:
  assumes "0 < u" "t < 0"
  shows "(t + 1) sdiv u - 1 = t div (u :: int)"
proof -
  have m: "0 \<le> t mod u" "t mod u < u" using assms(1) by simp_all
  have "- t - 1 = u * (- (t div u) - 1) + (u - 1 - t mod u)"
    using mult_div_mod_eq [of u t] by (simp add: algebra_simps)
  from int_div_pos_eq [OF this] m have "(- t - 1) div u = - (t div u) - 1" by simp
  moreover have "(t + 1) sdiv u = - ((- t - 1) div u)"
    using assms by (auto simp: signed_divide_int_def sgn_if add.commute minus_diff_commute)
  ultimately show ?thesis by simp
qed

lemma div_shrinks:
  assumes "0 < u"
  shows "\<bar>t div u\<bar> \<le> \<bar>t :: int\<bar>"
proof (cases "t < 0")
  case True
  then show ?thesis using zdiv_mono2_neg [of t 1 u] div_neg_pos_less0 [of t u] assms by simp
next
  case False
  then show ?thesis using zdiv_mono2 [of t 1 u] pos_imp_zdiv_nonneg_iff [of u t] assms by simp
qed

text \<open>
  The conversion is exact; the only signed overflow is that of the seconds times the units per
  second, when the quotient is rounded below \<open>INT64_MIN\<close>.
\<close>

lemma from_units_exact:
  assumes u: "0 < u" "u * k = 1000000000" and t: "INT64_MIN < t" "t < INT64_MAX"
  shows "to_seconds_from_sub_second_time t u ty =
    (if INT64_MIN \<le> t div u * u then Some \<lparr>tv_sec = t div u, tv_nsec = t mod u * k, clock_type = ty\<rparr> else None)"
proof -
  have k: "0 < k" using u by (metis zero_less_mult_pos zero_less_numeral)
  have u': "u \<le> 1000000000" using mult_left_mono [of 1 k u] k u by simp
  have m: "0 \<le> t mod u" "t mod u < u" using u(1) by simp_all
  have range: "INT64_MIN \<le> t div u" "t div u \<le> INT64_MAX"
    using div_shrinks [OF u(1), of t] t by (auto simp: time_consts abs_if split: if_splits)
  have neg: "negative_seconds t u = Some (t div u)" if "t < 0"
  proof -
    have "i64 (t + u) = Some (t + u)" "i64 (u - 1 - (t + u)) = Some (- t - 1)" "i64 (- (- t - 1)) = Some (t + 1)"
      using that t u u' by (auto simp: i64_def time_consts)
    moreover have "i64 (t div u) = Some (t div u)" using range by (intro i64_in) auto
    ultimately show ?thesis using sdiv_succ [OF u(1) that] by (simp add: negative_seconds_def)
  qed
  have sec: "(if t \<ge> 0 then Some (t sdiv u) else negative_seconds t u) = Some (t div u)"
    using neg u(1) by (simp add: sdiv_nonneg)
  have du: "t div u * u = t - t mod u" using div_mult_mod_eq [of t u] by linarith
  have p: "i64 (t div u * u) = (if INT64_MIN \<le> t div u * u then Some (t - t mod u) else None)"
    "i64 (t - (t - t mod u)) = Some (t mod u)"
    unfolding du using m t u' by (auto simp: i64_def time_consts)
  have "t mod u * 1000000000 \<le> 1000000000 * 1000000000" using m u' by simp
  then have n: "i64 (t mod u * GPR_NS_PER_SEC) = Some (t mod u * k * u)"
    using m u(2) by (auto simp: i64_def time_consts mult_ac)
  have lt: "t mod u * k < 1000000000" using mult_strict_right_mono [OF m(2) k] u(2) by simp
  have "cast_i32 ((t mod u * k * u) sdiv u) = t mod u * k"
  proof -
    have nn: "0 \<le> t mod u * k" "0 \<le> t mod u * k * u" using m k u(1) by simp_all
    then have "(t mod u * k * u) sdiv u = t mod u * k" using u(1) by (simp only: sdiv_nonneg) simp
    then show ?thesis using lt nn(1) by (simp only: cast_i32_small)
  qed
  then show ?thesis
    using sec p n t by (simp add: to_seconds_from_sub_second_time_def)
qed

lemma from_units:
  assumes u: "0 < u" "u * k = 1000000000" and t: "\<bar>t\<bar> \<le> INT64_MAX - 2000000000"
  shows "\<exists>r. to_seconds_from_sub_second_time t u ty = Some r \<and> valid_time r \<and> finite_time r \<and> clock_type r = ty \<and>
    tv_sec r = t div u \<and> tv_nsec r = t mod u * k"
proof -
  have k: "0 < k" using u by (metis zero_less_mult_pos zero_less_numeral)
  have u': "u \<le> 1000000000" using mult_left_mono [of 1 k u] k u by simp
  have m: "0 \<le> t mod u" "t mod u < u" using u(1) by simp_all
  have range: "INT64_MIN < t div u" "t div u < INT64_MAX"
    using div_shrinks [OF u(1), of t] t by (auto simp: time_consts abs_if split: if_splits)
  have "t div u * u = t - t mod u" using div_mult_mod_eq [of t u] by linarith
  then have "INT64_MIN \<le> t div u * u" "INT64_MIN < t" "t < INT64_MAX" using t m u' by (auto simp: time_consts)
  moreover have "t mod u * k < 1000000000" using mult_strict_right_mono [OF m(2) k] u(2) by simp
  ultimately show ?thesis
    using from_units_exact [OF u, of t ty] range m k by (auto simp: valid_time_def finite_time_def)
qed

section \<open>Comparison up to a threshold\<close>

lemma time_similar_infinite:
  assumes "clock_type a = clock_type b" "clock_type a \<noteq> GPR_TIMESPAN" "clock_type th = GPR_TIMESPAN"
    and "valid_time a" "valid_time b"
    and "tv_sec b < tv_sec a" "\<not> finite_time a \<or> \<not> finite_time b \<or> INT64_MAX \<le> tv_sec a - tv_sec b"
  shows "(do { d \<leftarrow> gpr_time_sub a b; gpr_time_cmp d th }) = None"
proof -
  define n where "n = tv_nsec a - tv_nsec b"
  have n: "i32 n = Some n" using assms(4,5) by (auto simp: n_def valid_time_def i32_def)
  have d: "gpr_time_sub a b = Some (if tv_sec a = INT64_MAX then a else gpr_inf_future GPR_CLOCK_REALTIME)"
    using assms n by (auto simp: gpr_time_sub_def n_def [symmetric] Let_def finite_time_def valid_time_def time_consts)
  show ?thesis using assms(2,3) by (auto simp: d gpr_time_cmp_def gpr_inf_future_def Let_def)
qed

lemma time_cmp_any:
  assumes "valid_time a" "valid_time b" "clock_type a = clock_type b"
  shows "gpr_time_cmp a b =
    Some (if tv_sec a = tv_sec b \<and> \<not> finite_time a then 0 else sgn (nanos a - nanos b))"
proof (cases "finite_time a")
  case True
  then show ?thesis using time_cmp_nanos [OF assms(1,2) _ assms(3)] by simp
next
  case False
  have "cmp_int (tv_sec a) (tv_sec b) = sgn (nanos a - nanos b)" if "tv_sec a \<noteq> tv_sec b"
    using that assms nanos_less [of "tv_nsec a" "tv_nsec b" "tv_sec a" "tv_sec b"]
    by (auto simp: cmp_int_def nanos_def valid_time_def sgn_if)
  then show ?thesis using False assms(3)
    by (auto simp: gpr_time_cmp_def finite_time_def Let_def cmp_int_def)
qed

text \<open>\<open>beyond a b\<close>: the difference of the times does not fit the seconds of a span.\<close>

definition beyond :: "timespec \<Rightarrow> timespec \<Rightarrow> bool" where
  "beyond a b \<longleftrightarrow> \<not> finite_time a \<or> \<not> finite_time b \<or> INT64_MAX \<le> \<bar>tv_sec a - tv_sec b\<bar>"

lemma time_similar_larger:
  assumes ty: "clock_type a = clock_type b" "clock_type a \<noteq> GPR_TIMESPAN" "clock_type th = GPR_TIMESPAN"
    and v: "valid_time a" "valid_time b" "valid_time th"
    and lt: "nanos b < nanos a" "\<not> (tv_sec a = tv_sec b \<and> \<not> finite_time a)"
  shows "(do { d \<leftarrow> gpr_time_sub a b; gpr_time_cmp d th }) =
    (if beyond a b then None else Some (sgn (nanos a - nanos b - nanos th)))"
proof -
  have sec: "tv_sec b < tv_sec a \<or> tv_sec b = tv_sec a \<and> tv_nsec b < tv_nsec a"
    using lt(1) v nanos_less [of "tv_nsec b" "tv_nsec a" "tv_sec b" "tv_sec a"] by (auto simp: nanos_def valid_time_def)
  show ?thesis
  proof (cases "beyond a b")
    case True
    then have "tv_sec b < tv_sec a" using sec lt(2) by (auto simp: beyond_def finite_time_def time_consts)
    moreover have "\<not> finite_time a \<or> \<not> finite_time b \<or> INT64_MAX \<le> tv_sec a - tv_sec b"
      using True \<open>tv_sec b < tv_sec a\<close> by (auto simp: beyond_def)
    ultimately show ?thesis using True time_similar_infinite [OF ty v(1,2)] by simp
  next
    case False
    then have f: "finite_time a" "finite_time b" "tv_sec a - tv_sec b < INT64_MAX" "INT64_MIN + 1 < tv_sec a - tv_sec b"
      using sec by (auto simp: beyond_def time_consts)
    obtain d where "gpr_time_sub a b = Some d" "valid_time d" "finite_time d" "nanos d = nanos a - nanos b"
      "clock_type d = GPR_TIMESPAN"
      using time_sub_correct [OF v(1) f(1) v(2) f(2) disjI2 [OF ty(1)] f(4,3)] ty(1,2) by auto
    then show ?thesis using False time_cmp_nanos [of d th] v(3) ty(3) by simp
  qed
qed

lemma time_similar_correct:
  assumes ty: "clock_type a = clock_type b" "clock_type a \<noteq> GPR_TIMESPAN" "clock_type th = GPR_TIMESPAN"
    and v: "valid_time a" "valid_time b" "valid_time th"
  shows "gpr_time_similar a b th =
    (if nanos a = nanos b \<or> tv_sec a = tv_sec b \<and> \<not> finite_time a then Some True
     else if beyond a b then None else Some (\<bar>nanos a - nanos b\<bar> \<le> nanos th))"
proof -
  note cmp = time_cmp_any [OF v(1,2) ty(1)]
  consider (same) "nanos a = nanos b \<or> tv_sec a = tv_sec b \<and> \<not> finite_time a"
    | (more) "nanos b < nanos a" "\<not> (tv_sec a = tv_sec b \<and> \<not> finite_time a)"
    | (less) "nanos a < nanos b" "\<not> (tv_sec a = tv_sec b \<and> \<not> finite_time a)" by linarith
  then show ?thesis
  proof cases
    case same
    then show ?thesis using ty cmp by (auto simp: gpr_time_similar_def)
  next
    case more
    have c: "gpr_time_cmp a b = Some 1" using cmp more by auto
    have "gpr_time_similar a b th = do { c \<leftarrow> do { d \<leftarrow> gpr_time_sub a b; gpr_time_cmp d th }; Some (c \<le> 0) }"
      using c ty by (simp add: gpr_time_similar_def)
    also have "\<dots> = (if beyond a b then None else Some (\<bar>nanos a - nanos b\<bar> \<le> nanos th))"
      unfolding time_similar_larger [OF ty v more] using more by (auto simp: sgn_if)
    finally show ?thesis using more by auto
  next
    case less
    have c: "gpr_time_cmp a b = Some (- 1)" using cmp less by auto
    have "gpr_time_similar a b th = do { c \<leftarrow> do { d \<leftarrow> gpr_time_sub b a; gpr_time_cmp d th }; Some (c \<le> 0) }"
      using c ty by (simp add: gpr_time_similar_def)
    also have "\<dots> = (if beyond b a then None else Some (\<bar>nanos a - nanos b\<bar> \<le> nanos th))"
    proof -
      have "\<not> (tv_sec b = tv_sec a \<and> \<not> finite_time b)" using less(2) by (auto simp: finite_time_def)
      then show ?thesis
        using less ty time_similar_larger [OF ty(1) [symmetric] _ ty(3) v(2,1,3) less(1)] by (auto simp: sgn_if)
    qed
    also have "beyond b a = beyond a b" by (auto simp: beyond_def abs_minus_commute)
    finally show ?thesis using less by auto
  qed
qed

section \<open>Conversion to milliseconds\<close>

lemma to_millis_exact:
  assumes "valid_time t" "- 2147483 < tv_sec t" "tv_sec t < 2147483 \<or> tv_sec t = 2147483 \<and> tv_nsec t < 648000000"
  shows "gpr_time_to_millis t = nanos t div 1000000"
proof -
  have n: "0 \<le> tv_nsec t" "tv_nsec t < 1000000000" using assms(1) by (auto simp: valid_time_def)
  then have q: "0 \<le> tv_nsec t div 1000000" "tv_nsec t div 1000000 < 1000" by auto
  have "nanos t = tv_nsec t + tv_sec t * 1000 * 1000000" by (simp add: nanos_def)
  then have e: "nanos t div 1000000 = tv_sec t * 1000 + tv_nsec t div 1000000" by (simp only: div_mult_self1)
  have "cast_i32 (tv_sec t * 1000 + tv_nsec t div 1000000) = tv_sec t * 1000 + tv_nsec t div 1000000"
    if "tv_sec t < 2147483" using q that assms(2) by (intro cast_i32_small) auto
  then show ?thesis using assms n
    by (auto simp: gpr_time_to_millis_def e GPR_MS_PER_SEC_def GPR_NS_PER_MS_def sdiv_nonneg)
qed

section \<open>Properties\<close>

text \<open>
  C17: Adding a span to a time is exact, or saturates: to the infinite future when the exact sum reaches
  the second INT64_MAX, to the infinite past when the seconds add up to INT64_MIN or less. The clock
  is that of the time, no signed addition overflows, and the result is normalised.
\<close>

theorem time_add_saturates:
  assumes "valid_time a" "finite_time a" and "valid_time b" "clock_type b = GPR_TIMESPAN"
  shows "\<exists>s. gpr_time_add a b = Some s \<and> valid_time s \<and> clock_type s = clock_type a \<and>
     (if tv_sec b = INT64_MAX \<or> INT64_MAX * 1000000000 \<le> nanos a + nanos b then s = gpr_inf_future (clock_type a)
      else if tv_sec b = INT64_MIN \<or> tv_sec a + tv_sec b \<le> INT64_MIN then s = gpr_inf_past (clock_type a)
      else finite_time s \<and> nanos s = nanos a + nanos b)"
  using time_add_correct [OF assms] by (simp only: sum_time_def)

theorem time_add_saturates_witness:
  "\<exists>s. gpr_time_add \<lparr>tv_sec = INT64_MAX - 2, tv_nsec = 600000000, clock_type = GPR_CLOCK_MONOTONIC\<rparr>
         \<lparr>tv_sec = 1, tv_nsec = 500000000, clock_type = GPR_TIMESPAN\<rparr> = Some s \<and>
     s = gpr_inf_future GPR_CLOCK_MONOTONIC"
  using time_add_saturates [of "\<lparr>tv_sec = INT64_MAX - 2, tv_nsec = 600000000, clock_type = GPR_CLOCK_MONOTONIC\<rparr>"
      "\<lparr>tv_sec = 1, tv_nsec = 500000000, clock_type = GPR_TIMESPAN\<rparr>"]
  by (auto simp: valid_time_def finite_time_def nanos_def INT64_MAX_def INT64_MIN_def)

text \<open>
  Subtracting a span undoes its addition when the sum has not saturated.
\<close>

theorem time_sub_undoes_add:
  assumes "valid_time a" "finite_time a" "tv_sec a < INT64_MAX - 1" "INT64_MIN + 1 < tv_sec a"
    and "valid_time b" "finite_time b" "clock_type b = GPR_TIMESPAN"
    and "gpr_time_add a b = Some s" "finite_time s"
  shows "gpr_time_sub s b = Some a"
proof -
  have s: "sum_time a b s" using time_add_correct [OF assms(1,2,5,7)] assms(8) by simp
  then have v: "valid_time s" "clock_type s = clock_type a" "nanos s = nanos a + nanos b"
    using assms(9) by (auto simp: sum_time_def finite_time_def gpr_inf_future_def gpr_inf_past_def split: if_splits)
  have n: "0 \<le> tv_nsec s" "tv_nsec s < 1000000000" "0 \<le> tv_nsec a" "tv_nsec a < 1000000000"
      "0 \<le> tv_nsec b" "tv_nsec b < 1000000000"
    using v(1) assms(1,5) by (auto simp: valid_time_def)
  then have "tv_sec a \<le> tv_sec s - tv_sec b" "tv_sec s - tv_sec b \<le> tv_sec a + 1"
    using v(3) unfolding nanos_def by linarith+
  then have "INT64_MIN + 1 < tv_sec s - tv_sec b" "tv_sec s - tv_sec b < INT64_MAX"
    using assms(3,4) by linarith+
  from time_sub_correct [OF v(1) assms(9,5,6) _ this] assms(7) obtain d where
    "gpr_time_sub s b = Some d" "valid_time d" "nanos d = nanos s - nanos b" "clock_type d = clock_type s" by auto
  with nanos_inject [of d a] v assms(1) show ?thesis by simp
qed

theorem time_sub_undoes_add_witness:
  "gpr_time_sub \<lparr>tv_sec = - 1, tv_nsec = 100000000, clock_type = GPR_CLOCK_REALTIME\<rparr>
     \<lparr>tv_sec = - 3, tv_nsec = 500000000, clock_type = GPR_TIMESPAN\<rparr> =
   Some \<lparr>tv_sec = 1, tv_nsec = 600000000, clock_type = GPR_CLOCK_REALTIME\<rparr>"
proof (rule time_sub_undoes_add)
  show "gpr_time_add \<lparr>tv_sec = 1, tv_nsec = 600000000, clock_type = GPR_CLOCK_REALTIME\<rparr>
      \<lparr>tv_sec = - 3, tv_nsec = 500000000, clock_type = GPR_TIMESPAN\<rparr> =
    Some \<lparr>tv_sec = - 1, tv_nsec = 100000000, clock_type = GPR_CLOCK_REALTIME\<rparr>"
    by code_simp
qed (simp_all add: valid_time_def finite_time_def INT64_MAX_def INT64_MIN_def)

text \<open>
  A number of milliseconds that fits the result of gpr_time_to_millis, less the last second of the
  negative numbers, survives the conversion to a time and back.
\<close>

theorem time_millis_round_trip:
  assumes "- 2147482000 \<le> ms" "ms \<le> 2147483647"
  shows "\<exists>t. gpr_time_from_millis ms ty = Some t \<and> valid_time t \<and> gpr_time_to_millis t = ms"
proof -
  have "\<bar>ms\<bar> \<le> INT64_MAX - 2000000000" using assms by (auto simp: INT64_MAX_def)
  from from_units [OF _ _ this, of 1000 1000000 ty] obtain t where
    t: "gpr_time_from_millis ms ty = Some t" "valid_time t" "tv_sec t = ms div 1000" "tv_nsec t = ms mod 1000 * 1000000"
    by (auto simp: gpr_time_from_millis_def GPR_MS_PER_SEC_def)
  have "nanos t = (ms div 1000 * 1000 + ms mod 1000) * 1000000"
    unfolding nanos_def t(3,4) by (simp only: distrib_right mult.assoc)
  then have "nanos t = ms * 1000000" by (simp only: div_mult_mod_eq)
  moreover have "- 2147483 < ms div 1000 \<and>
      (ms div 1000 < 2147483 \<or> ms div 1000 = 2147483 \<and> ms mod 1000 * 1000000 < 648000000)"
  proof -
    have "ms div 1000 * 1000 + ms mod 1000 = ms" "0 \<le> ms mod 1000" "ms mod 1000 < 1000" by simp_all
    then show ?thesis using assms by linarith
  qed
  ultimately show ?thesis using t to_millis_exact [of t] by auto
qed

theorem time_millis_round_trip_witness:
  "\<exists>t. gpr_time_from_millis (- 1500) GPR_TIMESPAN = Some t \<and> valid_time t \<and> gpr_time_to_millis t = - 1500"
  using time_millis_round_trip [of "- 1500" GPR_TIMESPAN] by simp

text \<open>
  C35: \<open>gpr_time_similar\<close> on two valid times of one clock decides exactly whether they are at most
  the threshold apart when their difference fits a span, and answers true for equal times and for
  two times that are infinite in the same direction. In every other case, one time infinite or the
  seconds of the times INT64_MAX or more apart, it fails the assertion of \<open>gpr_time_cmp\<close>, whatever the
  threshold: the saturated difference carries the type of a clock and not GPR_TIMESPAN.
\<close>

theorem time_similar_exact:
  assumes "clock_type a = clock_type b" "clock_type a \<noteq> GPR_TIMESPAN" "clock_type th = GPR_TIMESPAN"
    and "valid_time a" "valid_time b" "valid_time th"
  shows "gpr_time_similar a b th =
    (if nanos a = nanos b \<or> tv_sec a = tv_sec b \<and> \<not> finite_time a then Some True
     else if beyond a b then None else Some (\<bar>nanos a - nanos b\<bar> \<le> nanos th))"
  by (rule time_similar_correct [OF assms])

theorem time_similar_exact_witness:
  "gpr_time_similar (gpr_inf_future GPR_CLOCK_MONOTONIC) (gpr_time_0 GPR_CLOCK_MONOTONIC) (gpr_time_0 GPR_TIMESPAN) = None"
  by (subst time_similar_exact)
    (simp_all add: gpr_inf_future_def gpr_time_0_def valid_time_def finite_time_def beyond_def nanos_def time_consts)

text \<open>
  Counts of nanoseconds, microseconds, milliseconds and seconds other than the two ends of
  int64_t are converted to the normalised time they stand for, exactly; only when the seconds,
  rounded down, lie below INT64_MIN when expressed in the unit does a signed multiplication
  overflow. That is so for the last incomplete second above INT64_MIN.
\<close>

theorem time_from_units_exact:
  assumes "INT64_MIN < t" "t < INT64_MAX"
  shows "gpr_time_from_nanos t ty = (if INT64_MIN \<le> t div 1000000000 * 1000000000
       then Some \<lparr>tv_sec = t div 1000000000, tv_nsec = t mod 1000000000, clock_type = ty\<rparr> else None) \<and>
    gpr_time_from_micros t ty = (if INT64_MIN \<le> t div 1000000 * 1000000
       then Some \<lparr>tv_sec = t div 1000000, tv_nsec = t mod 1000000 * 1000, clock_type = ty\<rparr> else None) \<and>
    gpr_time_from_millis t ty = (if INT64_MIN \<le> t div 1000 * 1000
       then Some \<lparr>tv_sec = t div 1000, tv_nsec = t mod 1000 * 1000000, clock_type = ty\<rparr> else None) \<and>
    gpr_time_from_seconds t ty = Some \<lparr>tv_sec = t, tv_nsec = 0, clock_type = ty\<rparr>"
  unfolding gpr_time_from_nanos_def gpr_time_from_micros_def gpr_time_from_millis_def gpr_time_from_seconds_def
    GPR_NS_PER_SEC_def GPR_US_PER_SEC_def GPR_MS_PER_SEC_def
  using assms from_units_exact [of 1000000000 1 t ty] from_units_exact [of 1000000 1000 t ty]
    from_units_exact [of 1000 1000000 t ty] from_units_exact [of 1 1000000000 t ty] by simp

theorem time_from_units_exact_witness:
  "gpr_time_from_nanos (- 1500000001) GPR_TIMESPAN =
     Some \<lparr>tv_sec = - 2, tv_nsec = 499999999, clock_type = GPR_TIMESPAN\<rparr> \<and>
   gpr_time_from_nanos (INT64_MIN + 1) GPR_TIMESPAN = None"
  using time_from_units_exact [of "- 1500000001" GPR_TIMESPAN] time_from_units_exact [of "INT64_MIN + 1" GPR_TIMESPAN]
  by (simp add: time_consts)

end
