(* ===== verification/Grpc_Timeout.thy ===== *)
theory Grpc_Timeout
  imports Grpc_Base
begin

text \<open>
  The timeouts of the gRPC wire protocol (\<open>core/lib/transport/timeout_encoding.cc\<close>): rounding a
  number of milliseconds to a value and a unit, printing it for the \<open>grpc-timeout\<close> header, and
  parsing the header.

  \<open>grpc_millis\<close> is \<open>int64_t\<close>. \<open>None\<close> of a function on durations stands for a signed overflow or
  a failed debug assertion; \<open>None\<close> of \<open>ParseTimeout\<close> is \<open>absl::nullopt\<close>.
\<close>

section \<open>Rounding\<close>

datatype timeout_unit =
    KNanoseconds
  | KMilliseconds | KTenMilliseconds | KHundredMilliseconds
  | KSeconds | KTenSeconds | KHundredSeconds
  | KMinutes | KTenMinutes | KHundredMinutes
  | KHours

record timeout =
  to_value :: u16
  to_unit :: timeout_unit

definition Timeout :: "int \<Rightarrow> timeout_unit \<Rightarrow> timeout" where
  "Timeout v u = \<lparr>to_value = of_int v, to_unit = u\<rparr>"

definition DivideRoundingUp :: "int \<Rightarrow> int \<Rightarrow> int option" where
  "DivideRoundingUp dividend divisor =
     do { s \<leftarrow> i64 (dividend + divisor);
          n \<leftarrow> i64 (s - 1);
          i64 (n sdiv divisor) }"

definition kSecondsPerMinute :: int where "kSecondsPerMinute = 60"
definition kMinutesPerHour :: int where "kMinutesPerHour = 60"
definition kSecondsPerHour :: int where "kSecondsPerHour = kSecondsPerMinute * kMinutesPerHour"
definition kMaxHours :: int where "kMaxHours = 27000"

definition FromHours :: "int \<Rightarrow> timeout option" where
  "FromHours hours =
     do { assert_c (hours \<noteq> 0);
          Some (if hours < kMaxHours then Timeout hours KHours else Timeout kMaxHours KHours) }"

definition FromMinutes :: "int \<Rightarrow> timeout option" where
  "FromMinutes minutes =
     do { assert_c (minutes \<noteq> 0);
          let whole = do { h \<leftarrow> DivideRoundingUp minutes kMinutesPerHour; FromHours h };
          if minutes < 1000
          then if minutes smod kMinutesPerHour \<noteq> 0 then Some (Timeout minutes KMinutes) else whole
          else if minutes < 10000
          then do { v \<leftarrow> DivideRoundingUp minutes 10;
                    if (v * 10) smod kMinutesPerHour \<noteq> 0 then Some (Timeout v KTenMinutes) else whole }
          else if minutes < 100000
          then do { v \<leftarrow> DivideRoundingUp minutes 100;
                    if (v * 100) smod kMinutesPerHour \<noteq> 0 then Some (Timeout v KHundredMinutes) else whole }
          else whole }"

definition FromSeconds :: "int \<Rightarrow> timeout option" where
  "FromSeconds seconds =
     do { assert_c (seconds \<noteq> 0);
          let whole = do { m \<leftarrow> DivideRoundingUp seconds kSecondsPerMinute; FromMinutes m };
          if seconds < 1000
          then if seconds smod kSecondsPerMinute \<noteq> 0 then Some (Timeout seconds KSeconds) else whole
          else if seconds < 10000
          then do { v \<leftarrow> DivideRoundingUp seconds 10;
                    if (v * 10) smod kSecondsPerMinute \<noteq> 0 then Some (Timeout v KTenSeconds) else whole }
          else if seconds < 100000
          then do { v \<leftarrow> DivideRoundingUp seconds 100;
                    if (v * 100) smod kSecondsPerMinute \<noteq> 0 then Some (Timeout v KHundredSeconds) else whole }
          else whole }"

definition FromMillis :: "int \<Rightarrow> timeout option" where
  "FromMillis millis =
     (let whole = do { s \<leftarrow> DivideRoundingUp millis 1000; FromSeconds s }
      in if millis \<le> 0 then Some (Timeout 1 KNanoseconds)
         else if millis < 1000 then Some (Timeout millis KMilliseconds)
         else if millis < 10000
         then do { v \<leftarrow> DivideRoundingUp millis 10;
                   if v smod 100 \<noteq> 0 then Some (Timeout v KTenMilliseconds) else whole }
         else if millis < 100000
         then do { v \<leftarrow> DivideRoundingUp millis 100;
                   if v smod 10 \<noteq> 0 then Some (Timeout v KHundredMilliseconds) else whole }
         else whole)"

definition FromDuration :: "int \<Rightarrow> timeout option" where
  "FromDuration duration = FromMillis duration"

text \<open>The products fit: the value has 16 bits.\<close>

definition AsDuration :: "timeout \<Rightarrow> int" where
  "AsDuration t =
     (let v = uint (to_value t)
      in case to_unit t of
           KNanoseconds \<Rightarrow> 0
         | KMilliseconds \<Rightarrow> v
         | KTenMilliseconds \<Rightarrow> v * 10
         | KHundredMilliseconds \<Rightarrow> v * 100
         | KSeconds \<Rightarrow> v * 1000
         | KTenSeconds \<Rightarrow> v * 10000
         | KHundredSeconds \<Rightarrow> v * 100000
         | KMinutes \<Rightarrow> v * 1000 * kSecondsPerMinute
         | KTenMinutes \<Rightarrow> v * 10000 * kSecondsPerMinute
         | KHundredMinutes \<Rightarrow> v * 100000 * kSecondsPerMinute
         | KHours \<Rightarrow> v * 1000 * kSecondsPerHour)"

section \<open>Printing\<close>

text \<open>\<open>'0' + d\<close>\<close>

definition digit_char :: "nat \<Rightarrow> u8" where
  "digit_char d = 0x30 + of_nat d"

definition encode_digits :: "nat \<Rightarrow> octets" where
  "encode_digits n =
     (let five = (n \<ge> 10000); four = (n \<ge> 1000); three = (n \<ge> 100); two = (n \<ge> 10)
      in (if five then [digit_char (n div 10000)] else []) @
         (let n1 = (if five then n mod 10000 else n)
          in (if four then [digit_char (n1 div 1000)] else []) @
             (let n2 = (if four then n1 mod 1000 else n1)
              in (if three then [digit_char (n2 div 100)] else []) @
                 (let n3 = (if three then n2 mod 100 else n2)
                  in (if two then [digit_char (n3 div 10)] else []) @
                     (let n4 = (if two then n3 mod 10 else n3) in [digit_char n4])))))"

definition encode_unit :: "timeout_unit \<Rightarrow> octets" where
  "encode_unit u =
     (case u of
        KNanoseconds \<Rightarrow> [0x6e]
      | KHundredMilliseconds \<Rightarrow> [0x30, 0x30, 0x6d]
      | KTenMilliseconds \<Rightarrow> [0x30, 0x6d]
      | KMilliseconds \<Rightarrow> [0x6d]
      | KHundredSeconds \<Rightarrow> [0x30, 0x30, 0x53]
      | KTenSeconds \<Rightarrow> [0x30, 0x53]
      | KSeconds \<Rightarrow> [0x53]
      | KHundredMinutes \<Rightarrow> [0x30, 0x30, 0x4d]
      | KTenMinutes \<Rightarrow> [0x30, 0x4d]
      | KMinutes \<Rightarrow> [0x4d]
      | KHours \<Rightarrow> [0x48])"

text \<open>The text in the buffer of ten octets; \<open>None\<close>: it is longer.\<close>

definition Encode :: "timeout \<Rightarrow> octets option" where
  "Encode t =
     do { let text = encode_digits (unat (to_value t)) @ encode_unit (to_unit t);
          assert_c (length text \<le> 10);
          Some text }"

section \<open>Parsing\<close>

definition IsAllSpace :: "octets \<Rightarrow> bool" where
  "IsAllSpace p \<longleftrightarrow> dropWhile (\<lambda>c. c = 0x20) p = []"

text \<open>
  The loop over the digits: \<open>x\<close>, \<open>have_digit\<close> and the rest of the text. \<open>None\<close>: the function
  returns \<open>GRPC_MILLIS_INF_FUTURE\<close>.
\<close>

fun parse_digits :: "int \<Rightarrow> bool \<Rightarrow> octets \<Rightarrow> (int \<times> bool \<times> octets) option" where
  "parse_digits x have_digit [] = Some (x, have_digit, [])"
| "parse_digits x have_digit (c # p) =
     (if 0x30 \<le> c \<and> c \<le> 0x39
      then let digit = uint c - 0x30
           in if x \<ge> 100 * 1000 * 1000 \<and> (x \<noteq> 100 * 1000 * 1000 \<or> digit \<noteq> 0) then None
              else parse_digits (x * 10 + digit) True p
      else Some (x, have_digit, c # p))"

text \<open>\<open>x / d + (x % d != 0)\<close>\<close>

definition rounded_up :: "int \<Rightarrow> int \<Rightarrow> int" where
  "rounded_up x d = x sdiv d + (if x smod d \<noteq> 0 then 1 else 0)"

definition unit_millis :: "u8 \<Rightarrow> int \<Rightarrow> int option" where
  "unit_millis c x =
     (if c = 0x6e then Some (rounded_up x 1000000)
      else if c = 0x75 then Some (rounded_up x 1000)
      else if c = 0x6d then Some x
      else if c = 0x53 then Some (x * 1000)
      else if c = 0x4d then Some (x * 60 * 1000)
      else if c = 0x48 then Some (x * 60 * 60 * 1000)
      else None)"

definition ParseTimeout :: "octets \<Rightarrow> int option" where
  "ParseTimeout text =
     (case parse_digits 0 False (dropWhile (\<lambda>c. c = 0x20) text) of
        None \<Rightarrow> Some INT64_MAX
      | Some (x, have_digit, p) \<Rightarrow>
          if \<not> have_digit then None
          else (case dropWhile (\<lambda>c. c = 0x20) p of
                  [] \<Rightarrow> None
                | c # p' \<Rightarrow>
                    (case unit_millis c x of
                       None \<Rightarrow> None
                     | Some timeout \<Rightarrow> if \<not> IsAllSpace p' then None else Some timeout)))"

section \<open>Parsing of well-formed texts\<close>

definition is_dec :: "u8 \<Rightarrow> bool" where
  "is_dec c \<longleftrightarrow> 0x30 \<le> c \<and> c \<le> 0x39"

definition dec_from :: "int \<Rightarrow> octets \<Rightarrow> int" where
  "dec_from x ds = foldl (\<lambda>x c. x * 10 + (uint c - 0x30)) x ds"

lemma dec_from_simps [simp]:
  "dec_from x [] = x" "dec_from x (c # ds) = dec_from (x * 10 + (uint c - 0x30)) ds"
  by (simp_all add: dec_from_def)

lemma is_dec_range: "is_dec c \<Longrightarrow> 0 \<le> uint c - 0x30 \<and> uint c - 0x30 \<le> 9"
  by (simp add: is_dec_def word_le_def)

lemma dec_from_mono: "\<forall>c \<in> set ds. is_dec c \<Longrightarrow> 0 \<le> x \<Longrightarrow> x \<le> dec_from x ds"
proof (induction ds arbitrary: x)
  case (Cons c ds)
  then show ?case using is_dec_range [of c] Cons.IH [of "x * 10 + (uint c - 0x30)"] by fastforce
qed simp

lemma parse_digits_end: "r = [] \<or> \<not> is_dec (hd r) \<Longrightarrow> parse_digits x h r = Some (x, h, r)"
  by (cases r) (auto simp: is_dec_def)

lemma parse_digits_run:
  assumes "\<forall>c \<in> set ds. is_dec c" "0 \<le> x" "dec_from x ds \<le> 10 ^ 9" "r = [] \<or> \<not> is_dec (hd r)"
  shows "parse_digits x h (ds @ r) = Some (dec_from x ds, h \<or> ds \<noteq> [], r)"
  using assms(1-3)
proof (induction ds arbitrary: x h)
  case Nil
  then show ?case using parse_digits_end [OF assms(4)] by simp
next
  case (Cons c ds)
  then have c: "0x30 \<le> c" "c \<le> 0x39" and d: "0 \<le> uint c - 0x30" "uint c - 0x30 \<le> 9"
    using is_dec_range [of c] by (auto simp: is_dec_def)
  have "x * 10 + (uint c - 0x30) \<le> dec_from (x * 10 + (uint c - 0x30)) ds"
    using Cons.prems d by (intro dec_from_mono) auto
  then have "x * 10 + (uint c - 0x30) \<le> 10 ^ 9" using Cons.prems(3) by simp
  then have "\<not> (x \<ge> 100 * 1000 * 1000 \<and> (x \<noteq> 100 * 1000 * 1000 \<or> uint c - 0x30 \<noteq> 0))" using d by auto
  then show ?case using Cons.IH [of "x * 10 + (uint c - 0x30)" True] Cons.prems c d by (auto simp: Let_def)
qed

lemma parse_digits_large:
  assumes "\<forall>c \<in> set ds. is_dec c" "0 \<le> x" "x \<le> 10 ^ 9" "10 ^ 9 < dec_from x ds"
  shows "parse_digits x h (ds @ r) = None"
  using assms
proof (induction ds arbitrary: x h)
  case (Cons c ds)
  then have c: "0x30 \<le> c" "c \<le> 0x39" and d: "0 \<le> uint c - 0x30" "uint c - 0x30 \<le> 9"
    using is_dec_range [of c] by (auto simp: is_dec_def)
  show ?case
  proof (cases "x * 10 + (uint c - 0x30) \<le> 10 ^ 9")
    case True
    then show ?thesis using Cons.IH [of "x * 10 + (uint c - 0x30)" True] Cons.prems c d by (auto simp: Let_def)
  next
    case False
    then have "x \<ge> 100 * 1000 * 1000 \<and> (x \<noteq> 100 * 1000 * 1000 \<or> uint c - 0x30 \<noteq> 0)" using d by auto
    then show ?thesis using c by (auto simp: Let_def)
  qed
qed simp

definition spaces :: "octets \<Rightarrow> bool" where
  "spaces s \<longleftrightarrow> (\<forall>c \<in> set s. c = 0x20)"

lemma drop_spaces: "spaces s \<Longrightarrow> r = [] \<or> hd r \<noteq> 0x20 \<Longrightarrow> dropWhile (\<lambda>c. c = 0x20) (s @ r) = r"
  by (induction s) (auto simp: spaces_def dropWhile_eq_self_iff)

lemma IsAllSpace_iff: "IsAllSpace p \<longleftrightarrow> spaces p"
  by (simp add: IsAllSpace_def spaces_def dropWhile_eq_Nil_conv)

lemma unit_millis_char: "unit_millis u x = Some v \<Longrightarrow> \<not> is_dec u \<and> u \<noteq> 0x20"
  by (auto simp: unit_millis_def is_dec_def split: if_splits)

lemma parse_text:
  assumes s: "spaces a" "spaces b" "spaces c" and ds: "ds \<noteq> []" "\<forall>d \<in> set ds. is_dec d"
    and u: "unit_millis u (dec_from 0 ds) = Some v"
  shows "ParseTimeout (a @ ds @ b @ u # c) = Some (if dec_from 0 ds \<le> 10 ^ 9 then v else INT64_MAX)"
proof -
  have "is_dec (hd ds)" using ds by (cases ds) auto
  then have "hd (ds @ b @ u # c) \<noteq> 0x20" using ds(1) by (auto simp: is_dec_def)
  then have a: "dropWhile (\<lambda>c. c = 0x20) (a @ ds @ b @ u # c) = ds @ b @ u # c"
    using drop_spaces [OF s(1)] by blast
  have uc: "\<not> is_dec u" "u \<noteq> 0x20" using unit_millis_char [OF u] by auto
  have b: "dropWhile (\<lambda>c. c = 0x20) (b @ u # c) = u # c" using uc by (intro drop_spaces [OF s(2)]) simp
  show ?thesis
  proof (cases "dec_from 0 ds \<le> 10 ^ 9")
    case True
    have "\<not> is_dec (hd (b @ u # c))"
      using uc s(2) by (cases b) (auto simp: spaces_def is_dec_def)
    then have "parse_digits 0 False (ds @ b @ u # c) = Some (dec_from 0 ds, True, b @ u # c)"
      using parse_digits_run [OF ds(2) _ True] ds(1) by simp
    then show ?thesis using True u s(3) by (simp add: ParseTimeout_def a b IsAllSpace_iff)
  next
    case False
    then have "parse_digits 0 False (ds @ b @ u # c) = None"
      using parse_digits_large [OF ds(2)] by simp
    then show ?thesis using False by (simp add: ParseTimeout_def a)
  qed
qed

section \<open>Printed timeouts\<close>

lemma digit_char_dec: "d < 10 \<Longrightarrow> is_dec (digit_char d) \<and> uint (digit_char d) = int d + 0x30"
proof -
  assume "d < 10"
  then have "d \<in> {0, 1, 2, 3, 4, 5, 6, 7, 8, 9}" by auto
  then show ?thesis by (auto simp: digit_char_def is_dec_def)
qed

lemma dec_from_digit: "d < 10 \<Longrightarrow> dec_from x (digit_char d # ds) = dec_from (x * 10 + int d) ds"
  by (simp add: digit_char_dec)

lemma next_place:
  assumes "0 < b"
  shows "int (n div b) = int (n div (b * 10)) * 10 + int (n mod (b * 10) div b)"
proof -
  have "n mod (b * 10) div b = n div b mod 10" using assms by (simp add: mod_mult2_eq)
  then show ?thesis by (simp add: div_mult2_eq flip: of_nat_mult of_nat_add) (metis div_mult_mod_eq of_nat_add of_nat_mult of_nat_numeral)
qed

lemma decimal_places:
  "int n = int (n div 10) * 10 + int (n mod 10)"
  "int (n div 10) = int (n div 100) * 10 + int (n mod 100 div 10)"
  "int (n div 100) = int (n div 1000) * 10 + int (n mod 1000 div 100)"
  "int (n div 1000) = int (n div 10000) * 10 + int (n mod 10000 div 1000)"
  using next_place [of 1 n] next_place [of 10 n] next_place [of 100 n] next_place [of 1000 n] by simp_all

lemma mod_mod_places:
  "n mod 10000 mod 1000 = n mod (1000::nat)" "n mod 1000 mod 100 = n mod (100::nat)" "n mod 100 mod 10 = n mod (10::nat)"
  "n mod 1000 mod 10 = n mod (10::nat)" "n mod 10000 mod 100 = n mod (100::nat)" "n mod 10000 mod 10 = n mod (10::nat)"
  by (simp_all add: mod_mod_cancel)

lemma place_digits [simp]:
  "n mod 10 < (10::nat)" "n mod 100 div 10 < (10::nat)" "n mod 1000 div 100 < (10::nat)" "n mod 10000 div 1000 < (10::nat)"
  by (simp_all add: less_mult_imp_div_less)

lemma first_digits [simp]:
  "n < 100 \<Longrightarrow> n div 10 < (10::nat)" "n < 1000 \<Longrightarrow> n div 100 < (10::nat)"
  "n < 10000 \<Longrightarrow> n div 1000 < (10::nat)" "n < 100000 \<Longrightarrow> n div 10000 < (10::nat)"
  by (simp_all add: less_mult_imp_div_less)

lemma encode_digits_dec:
  assumes "n < 100000"
  shows "encode_digits n \<noteq> []" "\<forall>c \<in> set (encode_digits n). is_dec c" "dec_from 0 (encode_digits n) = int n"
    "length (encode_digits n) \<le> 5"
proof -
  show "encode_digits n \<noteq> []" by (simp add: encode_digits_def Let_def)
  show "\<forall>c \<in> set (encode_digits n). is_dec c"
    using assms by (auto simp: encode_digits_def Let_def intro!: digit_char_dec [THEN conjunct1])
  show "length (encode_digits n) \<le> 5" by (simp add: encode_digits_def Let_def)
  show "dec_from 0 (encode_digits n) = int n"
  proof -
    consider "n < 10" | "10 \<le> n" "n < 100" | "100 \<le> n" "n < 1000" | "1000 \<le> n" "n < 10000" | "10000 \<le> n"
      by linarith
    then show ?thesis
    proof cases
      case 1
      then show ?thesis by (simp add: encode_digits_def Let_def digit_char_dec)
    next
      case 2
      then have "dec_from 0 (encode_digits n) = int (n div 10) * 10 + int (n mod 10)"
        by (simp add: encode_digits_def Let_def digit_char_dec)
      then show ?thesis by (simp only: decimal_places [of n, symmetric])
    next
      case 3
      then have "dec_from 0 (encode_digits n) = (int (n div 100) * 10 + int (n mod 100 div 10)) * 10 + int (n mod 10)"
        by (simp add: encode_digits_def Let_def digit_char_dec mod_mod_places)
      then show ?thesis by (simp only: decimal_places [of n, symmetric])
    next
      case 4
      then have "dec_from 0 (encode_digits n) =
          ((int (n div 1000) * 10 + int (n mod 1000 div 100)) * 10 + int (n mod 100 div 10)) * 10 + int (n mod 10)"
        by (simp add: encode_digits_def Let_def digit_char_dec mod_mod_places)
      then show ?thesis by (simp only: decimal_places [of n, symmetric])
    next
      case 5
      then have "dec_from 0 (encode_digits n) =
          (((int (n div 10000) * 10 + int (n mod 10000 div 1000)) * 10 + int (n mod 1000 div 100)) * 10 +
            int (n mod 100 div 10)) * 10 + int (n mod 10)"
        using assms by (simp add: encode_digits_def Let_def digit_char_dec mod_mod_places)
      then show ?thesis by (simp only: decimal_places [of n, symmetric])
    qed
  qed
qed

lemma dec_from_append: "dec_from x (ds @ es) = dec_from (dec_from x ds) es"
  by (simp add: dec_from_def)

definition unit_ms :: "timeout_unit \<Rightarrow> int" where
  "unit_ms u = (case u of
     KNanoseconds \<Rightarrow> 0 | KMilliseconds \<Rightarrow> 1 | KTenMilliseconds \<Rightarrow> 10 | KHundredMilliseconds \<Rightarrow> 100
   | KSeconds \<Rightarrow> 1000 | KTenSeconds \<Rightarrow> 10000 | KHundredSeconds \<Rightarrow> 100000
   | KMinutes \<Rightarrow> 60000 | KTenMinutes \<Rightarrow> 600000 | KHundredMinutes \<Rightarrow> 6000000 | KHours \<Rightarrow> 3600000)"

lemma AsDuration_unit: "AsDuration t = uint (to_value t) * unit_ms (to_unit t)"
  by (simp add: AsDuration_def unit_ms_def kSecondsPerMinute_def kSecondsPerHour_def kMinutesPerHour_def
      split: timeout_unit.splits)

text \<open>The zeros and the letter of a unit.\<close>

definition unit_zeros :: "timeout_unit \<Rightarrow> nat" where
  "unit_zeros u = (case u of KHundredMilliseconds \<Rightarrow> 2 | KHundredSeconds \<Rightarrow> 2 | KHundredMinutes \<Rightarrow> 2
    | KTenMilliseconds \<Rightarrow> 1 | KTenSeconds \<Rightarrow> 1 | KTenMinutes \<Rightarrow> 1 | _ \<Rightarrow> 0)"

lemma encode_unit_zeros: "encode_unit u = replicate (unit_zeros u) 0x30 @ [last (encode_unit u)]"
  by (cases u) (simp_all add: encode_unit_def unit_zeros_def numeral_2_eq_2)

lemma dec_from_zeros: "dec_from n (replicate k 0x30) = n * 10 ^ k"
  by (induction k arbitrary: n) simp_all

lemma unit_millis_encode:
  "unit_millis (last (encode_unit u)) (n * 10 ^ unit_zeros u) =
     Some (if u = KNanoseconds then rounded_up n 1000000 else n * unit_ms u)"
  by (cases u) (simp_all add: encode_unit_def unit_zeros_def unit_millis_def unit_ms_def)

lemma encode_parse:
  "\<exists>text. Encode t = Some text \<and>
     ParseTimeout text = Some (if to_unit t = KNanoseconds then (if to_value t = 0 then 0 else 1) else AsDuration t)"
proof -
  define n where "n = unat (to_value t)"
  have n: "n < 65536" using unsigned_less [of "to_value t"] by (simp add: n_def)
  define zs :: octets where "zs = replicate (unit_zeros (to_unit t)) 0x30"
  define c where "c = last (encode_unit (to_unit t))"
  have z: "encode_unit (to_unit t) = zs @ [c]" "\<forall>z \<in> set zs. is_dec z" "length zs \<le> 2"
      "\<And>n. dec_from n zs = n * 10 ^ length zs"
      "\<And>n. unit_millis c (n * 10 ^ length zs) =
         Some (if to_unit t = KNanoseconds then rounded_up n 1000000 else n * unit_ms (to_unit t))"
    using encode_unit_zeros by (auto simp: zs_def c_def is_dec_def dec_from_zeros unit_millis_encode)
      (simp add: unit_zeros_def split: timeout_unit.splits)
  note e = encode_digits_dec [of n]
  have enc: "Encode t = Some (encode_digits n @ zs @ [c])"
    using e(4) n z(3) by (simp add: Encode_def z(1) n_def)
  have val: "dec_from 0 (encode_digits n @ zs) = int n * 10 ^ length zs"
    using e n by (simp add: dec_from_append z(4))
  have "(10::int) ^ length zs \<le> 10 ^ 2" using z(3) by (intro power_increasing) auto
  then have "int n * 10 ^ length zs \<le> 65536 * 10 ^ 2" using n by (intro mult_mono) auto
  then have "dec_from 0 (encode_digits n @ zs) \<le> 10 ^ 9" using val by simp
  then have "ParseTimeout (encode_digits n @ zs @ [c]) =
      Some (if to_unit t = KNanoseconds then rounded_up (int n) 1000000 else int n * unit_ms (to_unit t))"
    using parse_text [of "[]" "[]" "[]" "encode_digits n @ zs" c] e n z(2) z(5) [of "int n"]
    by (simp add: spaces_def val ball_Un)
  moreover have "rounded_up (int n) 1000000 = (if n = 0 then 0 else 1)"
    using n by (auto simp: rounded_up_def sdiv_nonneg smod_nonneg)
  moreover have "n = 0 \<longleftrightarrow> to_value t = 0" by (simp add: n_def unat_eq_zero)
  moreover have "int n * unit_ms (to_unit t) = AsDuration t" by (simp add: AsDuration_unit n_def)
  ultimately show ?thesis using enc by auto
qed

section \<open>The error of rounding\<close>

lemma AsDuration_Timeout: "0 \<le> v \<Longrightarrow> v < 65536 \<Longrightarrow> AsDuration (Timeout v u) = v * unit_ms u"
  by (simp add: AsDuration_unit Timeout_def unsigned_of_int take_bit_int_eq_self)

definition ceil_div :: "int \<Rightarrow> int \<Rightarrow> int" where
  "ceil_div a d = (a + d - 1) div d"

lemma DivideRoundingUp_ceil:
  "0 < a \<Longrightarrow> 0 < d \<Longrightarrow> a + d \<le> INT64_MAX \<Longrightarrow> DivideRoundingUp a d = Some (ceil_div a d)"
proof -
  assume a: "0 < a" "0 < d" "a + d \<le> INT64_MAX"
  have "(a + d - 1) div d \<le> a + d - 1" using a
    by (intro order_trans [OF zdiv_mono2 [of "a + d - 1" 1 d]]) auto
  moreover have "0 \<le> (a + d - 1) div d" using a by (simp add: pos_imp_zdiv_nonneg_iff)
  ultimately have "i64 ((a + d - 1) div d) = Some ((a + d - 1) div d)"
    using a by (intro i64_in) (auto simp: INT64_MIN_def)
  moreover have "i64 (a + d) = Some (a + d)" "i64 (a + d - 1) = Some (a + d - 1)"
    using a by (auto intro!: i64_in simp: INT64_MIN_def)
  ultimately show ?thesis using a by (simp add: DivideRoundingUp_def ceil_div_def sdiv_nonneg)
qed

lemma ceil_div_bounds: "0 < d \<Longrightarrow> a \<le> ceil_div a d * d \<and> ceil_div a d * d < a + d"
  using div_mult_mod_eq [of "a + d - 1" d] pos_mod_bound [of d "a + d - 1"] pos_mod_sign [of d "a + d - 1"]
  unfolding ceil_div_def by linarith

text \<open>A duration of \<open>n\<close> units of \<open>u\<close> milliseconds has been rounded up by at most \<open>slack\<close>.\<close>

definition max_duration :: int where "max_duration = 27000 * 3600000"

definition rounds :: "int \<Rightarrow> int \<Rightarrow> timeout option \<Rightarrow> bool" where
  "rounds ms slack out \<longleftrightarrow> (\<exists>t. out = Some t \<and>
     (if max_duration < ms then AsDuration t = max_duration
      else ms \<le> AsDuration t \<and> AsDuration t \<le> ms + slack))"

lemma rounds_hours: "0 < h \<Longrightarrow> rounds (h * 3600000) 0 (FromHours h)"
  by (auto simp: rounds_def FromHours_def kMaxHours_def max_duration_def AsDuration_Timeout unit_ms_def)

lemma ceil_div_least:
  assumes "0 < d" "d dvd x" "a \<le> x"
  shows "ceil_div a d * d \<le> x"
proof -
  from assms(2) obtain q where q: "x = d * q" by blast
  have "ceil_div a d * d < d * q + d" using ceil_div_bounds [OF assms(1), of a] assms(3) q by linarith
  then have "d * ceil_div a d < d * (q + 1)" by (simp add: algebra_simps)
  then have "ceil_div a d \<le> q" using assms(1) by (simp add: mult_less_cancel_left_pos)
  then show ?thesis using assms(1) q by (simp add: mult.commute mult_left_mono)
qed

lemma rounds_timeout:
  assumes "0 \<le> v" "v < 65536" "ms \<le> v * unit_ms u" "v * unit_ms u \<le> ms + s" "ms \<le> max_duration"
  shows "rounds ms s (Some (Timeout v u))"
  using assms by (simp add: rounds_def AsDuration_Timeout)

text \<open>Handing the duration of \<open>a\<close> units of \<open>k\<close> milliseconds on to the unit that is \<open>d\<close> times larger.\<close>

lemma rounds_whole:
  assumes r: "rounds (ceil_div a d * (d * k)) s out" and d: "0 < d" "0 < k" "d * k dvd max_duration"
    and e: "ceil_div a d * d \<le> a + e"
  shows "rounds (a * k) (e * k + s) out"
proof -
  have c: "a \<le> ceil_div a d * d" "ceil_div a d * d < a + d" using ceil_div_bounds [OF d(1)] by auto
  have low: "a * k \<le> ceil_div a d * (d * k)"
    using mult_right_mono [OF c(1), of k] d by (simp add: algebra_simps)
  have high: "ceil_div a d * (d * k) \<le> a * k + e * k"
    using mult_right_mono [OF e, of k] d by (simp add: algebra_simps)
  obtain q where q: "max_duration = d * k * q" using d(3) by blast
  have clamp: "max_duration < a * k" if "max_duration < ceil_div a d * (d * k)"
  proof -
    have "(d * k) * q < (d * k) * ceil_div a d" using that q by (simp add: mult.commute)
    then have "q < ceil_div a d" using d by (simp add: mult_less_cancel_left_pos)
    then have "q * d \<le> (ceil_div a d - 1) * d" using d by (intro mult_right_mono) auto
    then have "q * d < a" using c(2) by (simp add: algebra_simps)
    then have "q * d * k < a * k" using d by simp
    then show ?thesis using q by (simp add: mult_ac)
  qed
  show ?thesis using r low high clamp by (fastforce simp: rounds_def split: if_splits)
qed

definition minutes_slack :: "int \<Rightarrow> int" where
  "minutes_slack m = (if m < 1000 then 0 else if m < 10000 then 9 else if m < 100000 then 99 else 59)"

lemma rounds_minutes:
  assumes m: "0 < m" "m + 60 \<le> INT64_MAX"
  shows "rounds (m * 60000) (minutes_slack m * 60000) (FromMinutes m)"
proof -
  have c: "m \<le> ceil_div m 60 * 60" "ceil_div m 60 * 60 < m + 60" using ceil_div_bounds [of 60 m] by auto
  then have pos: "0 < ceil_div m 60" using m by linarith
  have D: "DivideRoundingUp m 60 = Some (ceil_div m 60)" using m by (intro DivideRoundingUp_ceil) auto
  have whole: "rounds (m * 60000) (s * 60000) (FromHours (ceil_div m 60))" if "ceil_div m 60 * 60 \<le> m + s" for s
    using rounds_whole [of m 60 60000 0 _ s] rounds_hours [OF pos] that by (simp add: max_duration_def)
  note defs = FromMinutes_def kMinutesPerHour_def D minutes_slack_def
  consider "m < 1000" | "1000 \<le> m" "m < 10000" | "10000 \<le> m" "m < 100000" | "100000 \<le> m" by linarith
  then show ?thesis
  proof cases
    case 1
    have "m mod 60 = 0 \<Longrightarrow> ceil_div m 60 * 60 \<le> m + 0" using ceil_div_least [of 60 m m] by auto
    then show ?thesis using 1 m whole [of 0]
      by (auto simp: defs smod_nonneg unit_ms_def max_duration_def intro!: rounds_timeout)
  next
    case 2
    have v: "m \<le> ceil_div m 10 * 10" "ceil_div m 10 * 10 < m + 10" using ceil_div_bounds [of 10 m] by auto
    have D': "DivideRoundingUp m 10 = Some (ceil_div m 10)"
      using m by (intro DivideRoundingUp_ceil) auto
    have "ceil_div m 10 * 10 mod 60 = 0 \<Longrightarrow> ceil_div m 60 * 60 \<le> m + 9"
      using ceil_div_least [of 60 "ceil_div m 10 * 10" m] v by auto
    then show ?thesis using 2 m v whole [of 9]
      by (auto simp: defs D' smod_nonneg unit_ms_def max_duration_def intro!: rounds_timeout)
  next
    case 3
    have v: "m \<le> ceil_div m 100 * 100" "ceil_div m 100 * 100 < m + 100" using ceil_div_bounds [of 100 m] by auto
    have D': "DivideRoundingUp m 100 = Some (ceil_div m 100)"
      using m 3 by (intro DivideRoundingUp_ceil) (auto simp: INT64_MAX_def)
    have "ceil_div m 100 * 100 mod 60 = 0 \<Longrightarrow> ceil_div m 60 * 60 \<le> m + 99"
      using ceil_div_least [of 60 "ceil_div m 100 * 100" m] v by auto
    then show ?thesis using 3 m v whole [of 99]
      by (auto simp: defs D' smod_nonneg unit_ms_def max_duration_def intro!: rounds_timeout)
  next
    case 4
    then show ?thesis using m whole [of 59] c by (simp add: defs)
  qed
qed

definition seconds_slack :: "int \<Rightarrow> int" where
  "seconds_slack s = (if s < 1000 then 0 else if s < 10000 then 9
     else (if s < 100000 then 99 else 59) + minutes_slack (ceil_div s 60) * 60)"

lemma rounds_seconds:
  assumes m: "0 < s" "s + 120 \<le> INT64_MAX"
  shows "rounds (s * 1000) (seconds_slack s * 1000) (FromSeconds s)"
proof -
  define c where "c = ceil_div s 60"
  have c: "s \<le> c * 60" "c * 60 < s + 60" using ceil_div_bounds [of 60 s] by (auto simp: c_def)
  then have pos: "0 < c" "c + 60 \<le> INT64_MAX" using m by linarith+
  have D: "DivideRoundingUp s 60 = Some c" using m unfolding c_def by (intro DivideRoundingUp_ceil) auto
  have whole: "rounds (s * 1000) ((e + minutes_slack c * 60) * 1000) (FromMinutes c)" if "c * 60 \<le> s + e" for e
  proof -
    have "rounds (ceil_div s 60 * (60 * 1000)) (minutes_slack c * 60000) (FromMinutes c)"
      using rounds_minutes [OF pos] by (simp add: c_def)
    from rounds_whole [OF this, of e] that have "rounds (s * 1000) (e * 1000 + minutes_slack c * 60000) (FromMinutes c)"
      by (simp add: max_duration_def c_def)
    then show ?thesis by (simp add: distrib_right mult.commute [of "minutes_slack c"])
  qed
  note defs = FromSeconds_def kSecondsPerMinute_def D seconds_slack_def c_def [symmetric]
  consider "s < 1000" | "1000 \<le> s" "s < 10000" | "10000 \<le> s" "s < 100000" | "100000 \<le> s" by linarith
  then show ?thesis
  proof cases
    case 1
    have "minutes_slack c = 0" using 1 c by (simp add: minutes_slack_def)
    moreover have "s mod 60 = 0 \<Longrightarrow> c * 60 \<le> s + 0" using ceil_div_least [of 60 s s] by (auto simp: c_def)
    ultimately show ?thesis using 1 m whole [of 0]
      by (auto simp: defs smod_nonneg unit_ms_def max_duration_def intro!: rounds_timeout)
  next
    case 2
    have v: "s \<le> ceil_div s 10 * 10" "ceil_div s 10 * 10 < s + 10" using ceil_div_bounds [of 10 s] by auto
    have D': "DivideRoundingUp s 10 = Some (ceil_div s 10)"
      using m by (intro DivideRoundingUp_ceil) auto
    have "minutes_slack c = 0" using 2 c by (simp add: minutes_slack_def)
    moreover have "ceil_div s 10 * 10 mod 60 = 0 \<Longrightarrow> c * 60 \<le> s + 9"
      using ceil_div_least [of 60 "ceil_div s 10 * 10" s] v by (auto simp: c_def)
    ultimately show ?thesis using 2 m v whole [of 9]
      by (auto simp: defs D' smod_nonneg unit_ms_def max_duration_def intro!: rounds_timeout)
  next
    case 3
    have v: "s \<le> ceil_div s 100 * 100" "ceil_div s 100 * 100 < s + 100" using ceil_div_bounds [of 100 s] by auto
    have D': "DivideRoundingUp s 100 = Some (ceil_div s 100)"
      using m 3 by (intro DivideRoundingUp_ceil) (auto simp: INT64_MAX_def)
    have pos: "0 \<le> minutes_slack c" by (simp add: minutes_slack_def)
    have "ceil_div s 100 * 100 mod 60 = 0 \<Longrightarrow> c * 60 \<le> s + 99"
      using ceil_div_least [of 60 "ceil_div s 100 * 100" s] v by (auto simp: c_def)
    then show ?thesis using 3 m v pos whole [of 99]
      by (auto simp: defs D' smod_nonneg unit_ms_def max_duration_def intro!: rounds_timeout)
  next
    case 4
    then show ?thesis using m whole [of 59] c by (simp add: defs)
  qed
qed

definition millis_slack :: "int \<Rightarrow> int" where
  "millis_slack ms = (if ms < 1000 then 0 else if ms < 10000 then 9 else if ms < 100000 then 99
     else 999 + seconds_slack (ceil_div ms 1000) * 1000)"

lemma rounds_millis:
  assumes m: "0 < ms" "ms + 1000 \<le> INT64_MAX"
  shows "rounds ms (millis_slack ms) (FromMillis ms)"
proof -
  define c where "c = ceil_div ms 1000"
  have c: "ms \<le> c * 1000" "c * 1000 < ms + 1000" using ceil_div_bounds [of 1000 ms] by (auto simp: c_def)
  then have pos: "0 < c" "c + 120 \<le> INT64_MAX" using m by (auto simp: INT64_MAX_def)
  have D: "DivideRoundingUp ms 1000 = Some c" using m unfolding c_def by (intro DivideRoundingUp_ceil) auto
  have whole: "rounds ms (e + seconds_slack c * 1000) (FromSeconds c)" if "c * 1000 \<le> ms + e" for e
    using rounds_whole [of ms 1000 1 _ _ e] rounds_seconds [OF pos] that
    by (simp add: max_duration_def c_def)
  note defs = FromMillis_def D millis_slack_def c_def [symmetric]
  consider "ms < 1000" | "1000 \<le> ms" "ms < 10000" | "10000 \<le> ms" "ms < 100000" | "100000 \<le> ms" by linarith
  then show ?thesis
  proof cases
    case 1
    then show ?thesis using m
      by (auto simp: defs unit_ms_def max_duration_def intro!: rounds_timeout)
  next
    case 2
    have v: "ms \<le> ceil_div ms 10 * 10" "ceil_div ms 10 * 10 < ms + 10" using ceil_div_bounds [of 10 ms] by auto
    have D': "DivideRoundingUp ms 10 = Some (ceil_div ms 10)"
      using m by (intro DivideRoundingUp_ceil) auto
    have "seconds_slack c = 0" using 2 c by (simp add: seconds_slack_def)
    moreover have "1000 dvd ceil_div ms 10 * 10" if "ceil_div ms 10 mod 100 = 0"
      using mult_dvd_mono [of 100 "ceil_div ms 10" 10 10] that by (simp add: mod_eq_0_iff_dvd)
    then have "ceil_div ms 10 mod 100 = 0 \<Longrightarrow> c * 1000 \<le> ms + 9"
      using ceil_div_least [of 1000 "ceil_div ms 10 * 10" ms] v by (auto simp: c_def)
    ultimately show ?thesis using 2 m v whole [of 9]
      by (auto simp: defs D' smod_nonneg unit_ms_def max_duration_def intro!: rounds_timeout)
  next
    case 3
    have v: "ms \<le> ceil_div ms 100 * 100" "ceil_div ms 100 * 100 < ms + 100" using ceil_div_bounds [of 100 ms] by auto
    have D': "DivideRoundingUp ms 100 = Some (ceil_div ms 100)"
      using m by (intro DivideRoundingUp_ceil) auto
    have "seconds_slack c = 0" using 3 c by (simp add: seconds_slack_def)
    moreover have "1000 dvd ceil_div ms 100 * 100" if "ceil_div ms 100 mod 10 = 0"
      using mult_dvd_mono [of 10 "ceil_div ms 100" 100 100] that by (simp add: mod_eq_0_iff_dvd)
    then have "ceil_div ms 100 mod 10 = 0 \<Longrightarrow> c * 1000 \<le> ms + 99"
      using ceil_div_least [of 1000 "ceil_div ms 100 * 100" ms] v by (auto simp: c_def)
    ultimately show ?thesis using 3 m v whole [of 99]
      by (auto simp: defs D' smod_nonneg unit_ms_def max_duration_def intro!: rounds_timeout)
  next
    case 4
    then show ?thesis using m whole [of 999] c by (simp add: defs)
  qed
qed

lemma millis_slack_small:
  assumes "0 < ms"
  shows "90 * millis_slack ms \<le> ms"
proof -
  have c: "ms \<le> ceil_div ms 1000 * 1000" "ceil_div ms 1000 * 1000 < ms + 1000"
    using ceil_div_bounds [of 1000 ms] by auto
  have d: "ceil_div ms 1000 \<le> ceil_div (ceil_div ms 1000) 60 * 60" "ceil_div (ceil_div ms 1000) 60 * 60 < ceil_div ms 1000 + 60"
    using ceil_div_bounds [of 60 "ceil_div ms 1000"] by auto
  show ?thesis using assms c d
    by (auto simp: millis_slack_def seconds_slack_def minutes_slack_def)
qed

section \<open>Properties\<close>

text \<open>
  C19: A timeout that is printed and parsed again gives the duration \<open>AsDuration\<close> counts for it, with
  one exception: a timeout in nanoseconds (\<open>1n\<close> is what a deadline in the past is printed as)
  counts as no time at all for \<open>AsDuration\<close>, but the parser rounds it up to one millisecond
  unless its number is 0.
\<close>

theorem timeout_round_trip:
  "\<exists>text. Encode t = Some text \<and>
     ParseTimeout text = Some (if to_unit t = KNanoseconds then (if to_value t = 0 then 0 else 1) else AsDuration t)"
  by (rule encode_parse)

text \<open>
  C18: A positive duration is rounded up, by at most one ninetieth of it, and durations of more than 27000
  hours become 27000 hours. The addition of the rounding does not overflow for durations that are at
  least a second away from the largest one.
\<close>

theorem timeout_rounds_up:
  assumes "0 < millis" "millis \<le> INT64_MAX - 1000"
  shows "\<exists>t. FromDuration millis = Some t \<and>
    (if 27000 * 3600000 < millis then AsDuration t = 27000 * 3600000
     else millis \<le> AsDuration t \<and> 90 * (AsDuration t - millis) \<le> millis)"
  using rounds_millis [of millis] millis_slack_small [of millis] assms
  by (auto simp: FromDuration_def rounds_def max_duration_def)

theorem timeout_rounds_up_witness:
  "\<exists>t. FromDuration 12345 = Some t \<and> 12345 \<le> AsDuration t \<and> 90 * (AsDuration t - 12345) \<le> 12345"
  using timeout_rounds_up [of 12345] by (simp add: INT64_MAX_def)

text \<open>
  For the duration that stands for no deadline, the largest 64-bit number, the rounding overflows.
\<close>

theorem timeout_infinite_overflows: "FromDuration INT64_MAX = None"
  by code_simp

text \<open>
  The parser accepts digits and a unit with spaces around both, and multiplies or, for nanoseconds
  and microseconds, divides with rounding up; a number above 10^9 means no deadline, whatever follows.
\<close>

theorem timeout_parses:
  assumes "spaces a" "spaces b" "spaces c" and "ds \<noteq> []" "\<forall>d \<in> set ds. is_dec d"
    and "unit_millis u (dec_from 0 ds) = Some v"
  shows "ParseTimeout (a @ ds @ b @ u # c) = Some (if dec_from 0 ds \<le> 10 ^ 9 then v else INT64_MAX)"
  using assms by (rule parse_text)

theorem timeout_parses_witness: "ParseTimeout [0x20, 0x31, 0x35, 0x20, 0x53] = Some 15000"
proof -
  have "spaces [0x20]" "spaces []" by (simp_all add: spaces_def)
  moreover have "\<forall>d \<in> set [0x31, 0x35]. is_dec d" by (simp add: is_dec_def)
  moreover have "unit_millis 0x53 (dec_from 0 [0x31, 0x35]) = Some 15000" by (simp add: unit_millis_def)
  ultimately show ?thesis
    using timeout_parses [of "[0x20]" "[0x20]" "[]" "[0x31, 0x35]" "0x53" 15000] by simp
qed

end
