(* ===== verification/Grpc_Percent.thy ===== *)
theory Grpc_Percent
  imports Grpc_Base
begin

text \<open>
  Percent encoding of header values (\<open>core/lib/slice/percent_encoding.cc\<close>): the two tables of
  characters that are not encoded, the encoder, which measures its output first, and the permissive
  decoder, which works in place.

  A slice is its octets, a pointer into a buffer the index. \<open>None\<close> stands for a write outside the buffer
  or a failed assertion.
\<close>

section \<open>Encoding\<close>

datatype PercentEncodingType = URL | Compatible

text \<open>The bits of \<open>g_url_table\<close>: letters, digits, and minus, underscore, dot and tilde.\<close>

definition UrlTable :: "u8 \<Rightarrow> bool" where
  "UrlTable c \<longleftrightarrow> 0x61 \<le> c \<and> c \<le> 0x7a \<or> 0x41 \<le> c \<and> c \<le> 0x5a \<or> 0x30 \<le> c \<and> c \<le> 0x39 \<or>
     c = 0x2d \<or> c = 0x5f \<or> c = 0x2e \<or> c = 0x7e"

text \<open>The bits of \<open>g_compatible_table\<close>: printable characters except the percent sign.\<close>

definition CompatibleTable :: "u8 \<Rightarrow> bool" where
  "CompatibleTable c \<longleftrightarrow> 32 \<le> c \<and> c \<le> 126 \<and> c \<noteq> 0x25"

fun LookupTableForPercentEncodingType :: "PercentEncodingType \<Rightarrow> u8 \<Rightarrow> bool" where
  "LookupTableForPercentEncodingType URL = UrlTable"
| "LookupTableForPercentEncodingType Compatible = CompatibleTable"

definition hex_table :: octets where
  "hex_table = [0x30, 0x31, 0x32, 0x33, 0x34, 0x35, 0x36, 0x37, 0x38, 0x39, 0x41, 0x42, 0x43, 0x44, 0x45, 0x46]"

text \<open>The first pass: the length of the output and whether an octet has to be encoded.\<close>

definition measure_output :: "(u8 \<Rightarrow> bool) \<Rightarrow> octets \<Rightarrow> nat \<times> bool" where
  "measure_output lut slice_in =
     fold (\<lambda>c (output_length, any_reserved_bytes).
             (output_length + (if lut c then 1 else 3), any_reserved_bytes \<or> \<not> lut c)) slice_in (0, False)"

text \<open>\<open>*q++ = v\<close>\<close>

definition put_octet :: "u8 \<Rightarrow> octets \<times> nat \<Rightarrow> (octets \<times> nat) option" where
  "put_octet v = (\<lambda>(out, q). do { out' \<leftarrow> store out q v; Some (out', q + 1) })"

definition encode_octet :: "(u8 \<Rightarrow> bool) \<Rightarrow> u8 \<Rightarrow> octets \<times> nat \<Rightarrow> (octets \<times> nat) option" where
  "encode_octet lut c oq =
     (if lut c then put_octet c oq
      else do { oq1 \<leftarrow> put_octet 0x25 oq;
                h \<leftarrow> fetch hex_table (unat (drop_bit 4 c));
                oq2 \<leftarrow> put_octet h oq1;
                l \<leftarrow> fetch hex_table (unat (c AND 15));
                put_octet l oq2 })"

text \<open>The new buffer is not initialised: \<open>junk\<close> gives its contents.\<close>

definition PercentEncodeSlice :: "(nat \<Rightarrow> u8) \<Rightarrow> octets \<Rightarrow> PercentEncodingType \<Rightarrow> octets option" where
  "PercentEncodeSlice junk slice_in ty =
     (let lut = LookupTableForPercentEncodingType ty;
          (output_length, any_reserved_bytes) = measure_output lut slice_in
      in if \<not> any_reserved_bytes then Some slice_in
         else do { (out, q) \<leftarrow> foldM (encode_octet lut) slice_in (map junk [0..<output_length], 0);
                   assert_c (q = length out);
                   Some out })"

section \<open>Decoding\<close>

definition hex_digit_octet :: "u8 \<Rightarrow> bool" where
  "hex_digit_octet c \<longleftrightarrow> 0x30 \<le> c \<and> c \<le> 0x39 \<or> 0x61 \<le> c \<and> c \<le> 0x66 \<or> 0x41 \<le> c \<and> c \<le> 0x46"

definition ValidHex :: "octets \<Rightarrow> nat \<Rightarrow> bool" where
  "ValidHex buf p = (if p \<ge> length buf then False else hex_digit_octet (buf ! p))"

text \<open>Outside the hexadecimal digits the code is unreachable.\<close>

definition DeHex :: "u8 \<Rightarrow> u8 option" where
  "DeHex c =
     (if 0x30 \<le> c \<and> c \<le> 0x39 then Some (c - 0x30)
      else if 0x41 \<le> c \<and> c \<le> 0x46 then Some (c - 0x41 + 10)
      else if 0x61 \<le> c \<and> c \<le> 0x66 then Some (c - 0x61 + 10)
      else None)"

text \<open>The loop: \<open>p\<close> reads and \<open>q\<close> writes the same buffer. \<open>p\<close> does not jump over the end.\<close>

function decode_loop :: "octets \<Rightarrow> nat \<Rightarrow> nat \<Rightarrow> (octets \<times> nat) option" where
  "decode_loop buf p q =
     (if p < length buf
      then if buf ! p = 0x25
           then if \<not> ValidHex buf (p + 1) \<or> \<not> ValidHex buf (p + 2)
                then do { buf' \<leftarrow> store buf q (buf ! p); decode_loop buf' (p + 1) (q + 1) }
                else do { h \<leftarrow> DeHex (buf ! (p + 1));
                          l \<leftarrow> DeHex (buf ! (p + 2));
                          buf' \<leftarrow> store buf q (push_bit 4 h OR l);
                          decode_loop buf' (p + 3) (q + 1) }
           else do { buf' \<leftarrow> store buf q (buf ! p); decode_loop buf' (p + 1) (q + 1) }
      else Some (buf, q))"
  by pat_completeness auto

termination
  by (relation "measure (\<lambda>(buf, p, q). length buf - p)") (auto simp: store_eq_Some)

definition PermissivePercentDecodeSlice :: "octets \<Rightarrow> octets option" where
  "PermissivePercentDecodeSlice slice_in =
     (if \<not> list_ex (\<lambda>c. c = 0x25) slice_in then Some slice_in
      else do { (out, q) \<leftarrow> decode_loop slice_in 0 0; Some (take q out) })"

section \<open>The texts\<close>

definition encoded :: "(u8 \<Rightarrow> bool) \<Rightarrow> u8 \<Rightarrow> octets" where
  "encoded lut c = (if lut c then [c] else [0x25, hex_table ! unat (drop_bit 4 c), hex_table ! unat (c AND 15)])"

definition hex_pair :: "u8 \<Rightarrow> u8 \<Rightarrow> u8" where
  "hex_pair a b = push_bit 4 (the (DeHex a)) OR the (DeHex b)"

fun percent_decode :: "octets \<Rightarrow> octets" where
  "percent_decode (c # a # b # r) =
     (if c = 0x25 \<and> hex_digit_octet a \<and> hex_digit_octet b then hex_pair a b # percent_decode r
      else c # percent_decode (a # b # r))"
| "percent_decode r = r"

lemma measure_output_gen:
  "fold (\<lambda>c (n, any). (n + (if lut c then 1 else 3), any \<or> \<not> lut c)) s (n, any) =
     (n + length (concat (map (encoded lut) s)), any \<or> \<not> list_all lut s)"
  by (induction s arbitrary: n any) (auto simp: encoded_def)

lemma measure_output_eq:
  "measure_output lut s = (length (concat (map (encoded lut) s)), \<not> list_all lut s)"
  by (simp add: measure_output_def measure_output_gen)

lemma nibbles: "unat (drop_bit 4 c) < 16" "unat (c AND 15) < 16" for c :: u8
proof -
  have "unat (drop_bit 4 c) = drop_bit 4 (unat c)" using unat_lt_exp [of c] by (simp add: unsigned_drop_bit_eq take_bit_nat_eq_self)
  then show "unat (drop_bit 4 c) < 16" using unat_lt_exp [of c] by (simp add: drop_bit_nat_def less_mult_imp_div_less)
  have "c AND 15 = take_bit 4 c" by (simp add: take_bit_eq_mask mask_eq_exp_minus_1)
  moreover have "unat (take_bit 4 c) = take_bit 4 (unat c)" by (simp add: unsigned_take_bit_eq)
  ultimately show "unat (c AND 15) < 16" by (simp add: take_bit_nat_def)
qed

lemma hex_table_digit:
  assumes "n < 16"
  shows "hex_digit_octet (hex_table ! n) \<and> DeHex (hex_table ! n) = Some (of_nat n)"
proof -
  have "list_all (\<lambda>n. hex_digit_octet (hex_table ! n) \<and> DeHex (hex_table ! n) = Some (of_nat n)) [0..<16]"
    by code_simp
  then show ?thesis using assms by (simp add: list_all_iff)
qed

lemma join_nibbles: "push_bit 4 (drop_bit 4 c) OR (c AND 15) = (c :: u8)"
proof -
  have "c AND 15 = take_bit 4 c" by (simp add: take_bit_eq_mask mask_eq_exp_minus_1)
  moreover have "push_bit 4 (drop_bit 4 c) OR take_bit 4 c = c" by (rule bit_word_eqI) (auto simp: bit_simps)
  ultimately show ?thesis by simp
qed

lemma decode_encoded:
  assumes "\<And>c. lut c \<Longrightarrow> c \<noteq> 0x25"
  shows "percent_decode (concat (map (encoded lut) s)) = s"
proof (induction s)
  case (Cons c s)
  have skip: "percent_decode (c # r) = c # percent_decode r" if "c \<noteq> 0x25" for c r
    using that by (cases r rule: percent_decode.cases) auto
  show ?case
  proof (cases "lut c")
    case True
    then show ?thesis using Cons skip assms by (simp add: encoded_def)
  next
    case False
    then show ?thesis using Cons hex_table_digit [OF nibbles(1), of c] hex_table_digit [OF nibbles(2), of c] join_nibbles [of c]
      by (simp add: encoded_def hex_pair_def)
  qed
qed simp

section \<open>The loops\<close>

text \<open>The encoder has written \<open>w\<close>.\<close>

definition holds :: "octets \<Rightarrow> octets \<Rightarrow> nat \<Rightarrow> bool" where
  "holds w out n \<longleftrightarrow> length out = n \<and> length w \<le> n \<and> take (length w) out = w"

lemma put_octet_holds:
  assumes "holds w out n" "length w < n"
  shows "\<exists>out'. put_octet v (out, length w) = Some (out', length (w @ [v])) \<and> holds (w @ [v]) out' n"
proof -
  have "store out (length w) v = Some (out[length w := v])" using assms by (simp add: holds_def)
  moreover have "holds (w @ [v]) (out[length w := v]) n"
    using assms by (auto simp: holds_def take_Suc_conv_app_nth)
  ultimately show ?thesis by (simp add: put_octet_def)
qed

lemma encode_octet_holds:
  assumes "holds w out n" "length w + length (encoded lut c) \<le> n"
  shows "\<exists>out'. encode_octet lut c (out, length w) = Some (out', length (w @ encoded lut c)) \<and>
    holds (w @ encoded lut c) out' n"
proof (cases "lut c")
  case True
  then show ?thesis using assms put_octet_holds [OF assms(1), of c] by (simp add: encode_octet_def encoded_def)
next
  case False
  then have l: "length w + 3 \<le> n" using assms(2) by (simp add: encoded_def)
  define h where "h = hex_table ! unat (drop_bit 4 c)"
  define d where "d = hex_table ! unat (c AND 15)"
  have f: "fetch hex_table (unat (drop_bit 4 c)) = Some h" "fetch hex_table (unat (c AND 15)) = Some d"
    using nibbles [of c] by (simp_all add: h_def d_def hex_table_def)
  obtain o1 where o1: "put_octet 0x25 (out, length w) = Some (o1, length (w @ [0x25]))" "holds (w @ [0x25]) o1 n"
    using put_octet_holds [OF assms(1), of "0x25"] l by auto
  obtain o2 where o2: "put_octet h (o1, length (w @ [0x25])) = Some (o2, length (w @ [0x25, h]))" "holds (w @ [0x25, h]) o2 n"
    using put_octet_holds [OF o1(2), of h] l by auto
  obtain o3 where o3: "put_octet d (o2, length (w @ [0x25, h])) = Some (o3, length (w @ [0x25, h, d]))" "holds (w @ [0x25, h, d]) o3 n"
    using put_octet_holds [OF o2(2), of d] l by auto
  show ?thesis using False o1(1) o2(1) o3 f by (simp add: encode_octet_def encoded_def h_def d_def)
qed

lemma encode_loop_holds:
  assumes "holds w out n" "n = length w + length (concat (map (encoded lut) s))"
  shows "foldM (encode_octet lut) s (out, length w) = Some (w @ concat (map (encoded lut) s), n)"
  using assms
proof (induction s arbitrary: w out)
  case Nil
  then have "out = w" by (auto simp: holds_def)
  then show ?case using Nil by simp
next
  case (Cons c s)
  then have "length w + length (encoded lut c) \<le> n" by simp
  from encode_octet_holds [OF Cons.prems(1) this] obtain out' where
    o: "encode_octet lut c (out, length w) = Some (out', length (w @ encoded lut c))" "holds (w @ encoded lut c) out' n"
    by blast
  then show ?case using Cons.IH [OF o(2)] Cons.prems(2) by simp
qed

lemma encode_slice: "PercentEncodeSlice junk s ty = Some (concat (map (encoded (LookupTableForPercentEncodingType ty)) s))"
proof -
  define lut where "lut = LookupTableForPercentEncodingType ty"
  have "concat (map (encoded lut) s) = s" if "list_all lut s"
    using that by (induction s) (auto simp: encoded_def)
  moreover have "foldM (encode_octet lut) s (map junk [0..<length (concat (map (encoded lut) s))], 0) =
      Some (concat (map (encoded lut) s), length (concat (map (encoded lut) s)))"
    using encode_loop_holds [of "[]"] by (simp add: holds_def)
  ultimately show ?thesis unfolding PercentEncodeSlice_def measure_output_eq lut_def [symmetric]
    by (simp add: Let_def)
qed

text \<open>The decoder has read \<open>p\<close> octets and written \<open>q\<close>.\<close>

lemma DeHex_digit: "hex_digit_octet c \<Longrightarrow> DeHex c = Some (the (DeHex c))"
  by (auto simp: hex_digit_octet_def DeHex_def)

lemma percent_decode_plain:
  assumes "\<not> (c = 0x25 \<and> (\<exists>a b r'. r = a # b # r' \<and> hex_digit_octet a \<and> hex_digit_octet b))"
  shows "percent_decode (c # r) = c # percent_decode r"
  using assms by (cases "c # r" rule: percent_decode.cases) auto

lemma drop_two:
  assumes "drop n xs = a # b # r"
  shows "Suc n < length xs \<and> xs ! n = a \<and> xs ! Suc n = b"
proof -
  have "length (drop n xs) = Suc (Suc (length r))" using assms by simp
  then have l: "Suc n < length xs" by simp
  then have "drop n xs ! 0 = xs ! n" "drop n xs ! 1 = xs ! Suc n" by simp_all
  then show ?thesis using l assms by simp
qed

lemma decode_loop_correct:
  assumes "q \<le> p" "p \<le> length buf"
  shows "\<exists>out. decode_loop buf p q = Some (out, q + length (percent_decode (drop p buf))) \<and>
    take (q + length (percent_decode (drop p buf))) out = take q buf @ percent_decode (drop p buf)"
  using assms
proof (induction buf p q rule: decode_loop.induct)
  case (1 buf p q)
  show ?case
  proof (cases "p < length buf")
    case False
    then show ?thesis using "1.prems" by simp
  next
    case p: True
    define v where "v \<longleftrightarrow> ValidHex buf (p + 1) \<and> ValidHex buf (p + 2)"
    have st: "store buf q x = Some (buf[q := x])" and tk: "take (q + 1) (buf[q := x]) = take q buf @ [x]"
      and dr: "p \<le> p' \<Longrightarrow> drop (p' + 1) (buf[q := x]) = drop (p' + 1) buf" for x p'
      using p "1.prems"(1) by (auto simp: take_Suc_conv_app_nth)
    have dp: "drop p buf = buf ! p # drop (p + 1) buf" using p by (simp add: Cons_nth_drop_Suc)
    show ?thesis
    proof (cases "buf ! p = 0x25 \<and> v")
      case True
      then have len: "p + 2 < length buf" and h: "hex_digit_octet (buf ! (p + 1))" "hex_digit_octet (buf ! (p + 2))"
        by (auto simp: v_def ValidHex_def split: if_splits)
      then have dp': "drop p buf = 0x25 # buf ! (p + 1) # buf ! (p + 2) # drop (p + 3) buf"
        using True dp by (simp add: Cons_nth_drop_Suc eval_nat_numeral)
      obtain a b where d: "DeHex (buf ! (p + 1)) = Some a" "DeHex (buf ! (p + 2)) = Some b"
        using h DeHex_digit by blast
      define x where "x = push_bit 4 a OR b"
      have x: "hex_pair (buf ! (p + 1)) (buf ! (p + 2)) = x" using d by (simp add: hex_pair_def x_def)
      have step: "decode_loop buf p q = decode_loop (buf[q := x]) (p + 3) (q + 1)"
        using p True d st by (subst decode_loop.simps) (auto simp: v_def x_def simp del: decode_loop.simps)
      have "drop (p + 3) (buf[q := x]) = drop (p + 3) buf" using dr [of "p + 2"] by (simp add: eval_nat_numeral)
      moreover have "percent_decode (drop p buf) = x # percent_decode (drop (p + 3) buf)"
        unfolding dp' using h x by simp
      ultimately show ?thesis
        using "1.IH"(2) [OF p _ _ d(1) d(2) st] True len "1.prems" unfolding step
        by (auto simp: v_def x_def [symmetric] tk [simplified] simp del: decode_loop.simps)
    next
      case False
      then have next_p: "percent_decode (drop p buf) = buf ! p # percent_decode (drop (p + 1) buf)"
        unfolding dp by (intro percent_decode_plain) (auto simp: v_def ValidHex_def dest!: drop_two)
      have step: "decode_loop buf p q = decode_loop (buf[q := buf ! p]) (p + 1) (q + 1)"
        using p False st by (subst decode_loop.simps) (auto simp: v_def simp del: decode_loop.simps)
      have "\<exists>out. decode_loop (buf[q := buf ! p]) (p + 1) (q + 1) =
            Some (out, q + 1 + length (percent_decode (drop (p + 1) (buf[q := buf ! p])))) \<and>
          take (q + 1 + length (percent_decode (drop (p + 1) (buf[q := buf ! p])))) out =
            take (q + 1) (buf[q := buf ! p]) @ percent_decode (drop (p + 1) (buf[q := buf ! p]))"
        using "1.IH"(1) [OF p _ _ st] "1.IH"(3) [OF p _ st] False p "1.prems" by (cases "buf ! p = 0x25") (auto simp: v_def)
      then show ?thesis unfolding step next_p dr [OF order_refl] tk by simp
    qed
  qed
qed


lemma decode_slice: "PermissivePercentDecodeSlice s = Some (percent_decode s)"
proof (cases "list_ex (\<lambda>c. c = 0x25) s")
  case True
  then show ?thesis using decode_loop_correct [of 0 0 s]
    by (auto simp: PermissivePercentDecodeSlice_def simp del: decode_loop.simps)
next
  case False
  then have "percent_decode s = s" by (induction s) (auto simp: percent_decode_plain)
  then show ?thesis using False by (simp add: PermissivePercentDecodeSlice_def)
qed

section \<open>Properties\<close>

text \<open>
  C24: For both tables, the encoder fills its output buffer exactly, the output has only characters of the
  table, percent signs and hexadecimal digits, and decoding it gives the input back.
\<close>

theorem percent_round_trip:
  "\<exists>out. PercentEncodeSlice junk s ty = Some out \<and>
     list_all (\<lambda>c. LookupTableForPercentEncodingType ty c \<or> c = 0x25) out \<and>
     PermissivePercentDecodeSlice out = Some s"
proof -
  define lut where "lut = LookupTableForPercentEncodingType ty"
  have no: "\<And>c. lut c \<Longrightarrow> c \<noteq> 0x25"
    unfolding lut_def by (cases ty) (auto simp: UrlTable_def CompatibleTable_def)
  have hex: "lut (hex_table ! n)" if "n < 16" for n
    using hex_table_digit [OF that] unfolding lut_def
    by (cases ty) (auto simp: UrlTable_def CompatibleTable_def hex_digit_octet_def word_le_nat_alt)
  have "c' \<in> set (encoded lut c) \<Longrightarrow> lut c' \<or> c' = 0x25" for c c'
    using hex nibbles [of c] by (auto simp: encoded_def split: if_splits)
  then show ?thesis using decode_encoded [of lut s] no
    by (auto simp: encode_slice decode_slice lut_def [symmetric] list_all_iff)
qed

text \<open>
  C25: The decoder, which overwrites its input while it reads it, returns the decoded text: a percent sign
  with two hexadecimal digits becomes an octet, everything else is kept.
\<close>

theorem percent_decode_in_place: "PermissivePercentDecodeSlice s = Some (percent_decode s)"
  by (rule decode_slice)

end
