(* ===== verification/Grpc_Base64.thy ===== *)
theory Grpc_Base64
  imports Grpc_Base
begin

text \<open>
  Base64 for binary metadata (\<open>chttp2/transport/bin_encoder.cc\<close> and \<open>bin_decoder.cc\<close>): the encoder,
  which writes no padding, and the decoder, which works on a context of two buffers and takes
  input with or without padding.

  The encoder's output is the list of the octets written; that it fills the allocated slice is
  the assertion of the code. In the decoder an input pointer is an index into the input and an output
  pointer an index into the output slice, whose initial contents \<open>junk\<close> is arbitrary. \<open>None\<close> stands for
  an access outside an array or a failed assertion. Logging is left out.
\<close>

section \<open>Encoding\<close>

definition alphabet :: octets where
  "alphabet =
    [0x41, 0x42, 0x43, 0x44, 0x45, 0x46, 0x47, 0x48, 0x49, 0x4a, 0x4b, 0x4c, 0x4d, 0x4e, 0x4f, 0x50,
     0x51, 0x52, 0x53, 0x54, 0x55, 0x56, 0x57, 0x58, 0x59, 0x5a, 0x61, 0x62, 0x63, 0x64, 0x65, 0x66,
     0x67, 0x68, 0x69, 0x6a, 0x6b, 0x6c, 0x6d, 0x6e, 0x6f, 0x70, 0x71, 0x72, 0x73, 0x74, 0x75, 0x76,
     0x77, 0x78, 0x79, 0x7a, 0x30, 0x31, 0x32, 0x33, 0x34, 0x35, 0x36, 0x37, 0x38, 0x39, 0x2b, 0x2f]"

definition enc_tail_xtra :: "nat list" where
  "enc_tail_xtra = [0, 2, 3]"

definition sym :: "u8 \<Rightarrow> u8" where
  "sym i = alphabet ! unat i"

fun encode_triplets :: "nat \<Rightarrow> octets \<Rightarrow> octets option" where
  "encode_triplets 0 ins = Some []"
| "encode_triplets (Suc n) (a # b # c # ins) =
     do { out \<leftarrow> encode_triplets n ins;
          Some (sym (drop_bit 2 a) #
                sym (push_bit 4 (a AND 0x3) OR drop_bit 4 b) #
                sym (push_bit 2 (b AND 0xf) OR drop_bit 6 c) #
                sym (c AND 0x3f) # out) }"
| "encode_triplets (Suc n) _ = None"

fun encode_tail :: "octets \<Rightarrow> octets option" where
  "encode_tail [] = Some []"
| "encode_tail [a] = Some [sym (drop_bit 2 a), sym (push_bit 4 (a AND 0x3))]"
| "encode_tail [a, b] =
     Some [sym (drop_bit 2 a), sym (push_bit 4 (a AND 0x3) OR drop_bit 4 b), sym (push_bit 2 (b AND 0xf))]"
| "encode_tail _ = None"

definition grpc_chttp2_base64_encode :: "octets \<Rightarrow> octets option" where
  "grpc_chttp2_base64_encode input =
     do { let input_triplets = length input div 3;
          let tail_case = length input mod 3;
          let output_length = input_triplets * 4 + enc_tail_xtra ! tail_case;
          out1 \<leftarrow> encode_triplets input_triplets input;
          out2 \<leftarrow> encode_tail (drop (3 * input_triplets) input);
          assert_c (length (out1 @ out2) = output_length);
          Some (out1 @ out2) }"

section \<open>Decoding\<close>

definition decode_table :: octets where
  "decode_table =
    [0x40, 0x40, 0x40, 0x40, 0x40, 0x40, 0x40, 0x40, 0x40, 0x40, 0x40, 0x40, 0x40, 0x40, 0x40, 0x40,
     0x40, 0x40, 0x40, 0x40, 0x40, 0x40, 0x40, 0x40, 0x40, 0x40, 0x40, 0x40, 0x40, 0x40, 0x40, 0x40,
     0x40, 0x40, 0x40, 0x40, 0x40, 0x40, 0x40, 0x40, 0x40, 0x40, 0x40, 62, 0x40, 0x40, 0x40, 63,
     52, 53, 54, 55, 56, 57, 58, 59, 60, 61, 0x40, 0x40, 0x40, 0x40, 0x40, 0x40,
     0x40, 0, 1, 2, 3, 4, 5, 6, 7, 8, 9, 10, 11, 12, 13, 14,
     15, 16, 17, 18, 19, 20, 21, 22, 23, 24, 25, 0x40, 0x40, 0x40, 0x40, 0x40,
     0x40, 26, 27, 28, 29, 30, 31, 32, 33, 34, 35, 36, 37, 38, 39, 40,
     41, 42, 43, 44, 45, 46, 47, 48, 49, 50, 51, 0x40, 0x40, 0x40, 0x40, 0x40,
     0x40, 0x40, 0x40, 0x40, 0x40, 0x40, 0x40, 0x40, 0x40, 0x40, 0x40, 0x40, 0x40, 0x40, 0x40, 0x40,
     0x40, 0x40, 0x40, 0x40, 0x40, 0x40, 0x40, 0x40, 0x40, 0x40, 0x40, 0x40, 0x40, 0x40, 0x40, 0x40,
     0x40, 0x40, 0x40, 0x40, 0x40, 0x40, 0x40, 0x40, 0x40, 0x40, 0x40, 0x40, 0x40, 0x40, 0x40, 0x40,
     0x40, 0x40, 0x40, 0x40, 0x40, 0x40, 0x40, 0x40, 0x40, 0x40, 0x40, 0x40, 0x40, 0x40, 0x40, 0x40,
     0x40, 0x40, 0x40, 0x40, 0x40, 0x40, 0x40, 0x40, 0x40, 0x40, 0x40, 0x40, 0x40, 0x40, 0x40, 0x40,
     0x40, 0x40, 0x40, 0x40, 0x40, 0x40, 0x40, 0x40, 0x40, 0x40, 0x40, 0x40, 0x40, 0x40, 0x40, 0x40,
     0x40, 0x40, 0x40, 0x40, 0x40, 0x40, 0x40, 0x40, 0x40, 0x40, 0x40, 0x40, 0x40, 0x40, 0x40, 0x40,
     0x40, 0x40, 0x40, 0x40, 0x40, 0x40, 0x40, 0x40, 0x40, 0x40, 0x40, 0x40, 0x40, 0x40, 0x40, 0x40]"

definition dec_tail_xtra :: "nat list" where
  "dec_tail_xtra = [0, 0, 1, 2]"

definition decode_sym :: "u8 \<Rightarrow> u8" where
  "decode_sym c = decode_table ! unat c"

record b64_ctx =
  input_cur :: nat
  input_end :: nat
  output_cur :: nat
  output_end :: nat
  contains_tail :: bool
  in_buf :: octets
  out_buf :: octets

text \<open>\<open>input_cur[i]\<close>\<close>

definition in_at :: "b64_ctx \<Rightarrow> nat \<Rightarrow> u8 option" where
  "in_at ctx i = fetch (in_buf ctx) (input_cur ctx + i)"

definition input_is_valid :: "b64_ctx \<Rightarrow> nat \<Rightarrow> bool option" where
  "input_is_valid ctx n =
     do { assert_c (input_cur ctx + n \<le> length (in_buf ctx));
          Some (list_all (\<lambda>c. decode_sym c AND 0xC0 = 0) (take n (drop (input_cur ctx) (in_buf ctx)))) }"

definition COMPOSE_OUTPUT_BYTE_0 :: "b64_ctx \<Rightarrow> u8 option" where
  "COMPOSE_OUTPUT_BYTE_0 ctx =
     do { a \<leftarrow> in_at ctx 0; b \<leftarrow> in_at ctx 1;
          Some (push_bit 2 (decode_sym a) OR drop_bit 4 (decode_sym b)) }"

definition COMPOSE_OUTPUT_BYTE_1 :: "b64_ctx \<Rightarrow> u8 option" where
  "COMPOSE_OUTPUT_BYTE_1 ctx =
     do { a \<leftarrow> in_at ctx 1; b \<leftarrow> in_at ctx 2;
          Some (push_bit 4 (decode_sym a) OR drop_bit 2 (decode_sym b)) }"

definition COMPOSE_OUTPUT_BYTE_2 :: "b64_ctx \<Rightarrow> u8 option" where
  "COMPOSE_OUTPUT_BYTE_2 ctx =
     do { a \<leftarrow> in_at ctx 2; b \<leftarrow> in_at ctx 3;
          Some (push_bit 6 (decode_sym a) OR decode_sym b) }"

text \<open>\<open>output_cur[i] = v\<close>\<close>

definition out_put :: "nat \<Rightarrow> u8 \<Rightarrow> b64_ctx \<Rightarrow> b64_ctx option" where
  "out_put i v ctx = do { out \<leftarrow> store (out_buf ctx) (output_cur ctx + i) v; Some (ctx\<lparr>out_buf := out\<rparr>) }"

definition advance :: "nat \<Rightarrow> nat \<Rightarrow> b64_ctx \<Rightarrow> b64_ctx" where
  "advance i o' ctx = ctx\<lparr>input_cur := input_cur ctx + i, output_cur := output_cur ctx + o'\<rparr>"

definition infer_unpadded :: "octets \<Rightarrow> nat" where
  "infer_unpadded s = length (dropWhile (\<lambda>c. c = 0x3d) (rev s))"

definition grpc_chttp2_base64_infer_length_after_decode :: "octets \<Rightarrow> nat" where
  "grpc_chttp2_base64_infer_length_after_decode s =
     (let len = infer_unpadded s
      in if length s - len > 2 then 0
         else let tuples = len div 4; tail_case = len mod 4
              in if tail_case = 1 then 0 else tuples * 3 + dec_tail_xtra ! tail_case)"

text \<open>A block of four characters.\<close>

definition decode_block :: "b64_ctx \<Rightarrow> b64_ctx option" where
  "decode_block ctx =
     do { a \<leftarrow> COMPOSE_OUTPUT_BYTE_0 ctx; ctx \<leftarrow> out_put 0 a ctx;
          b \<leftarrow> COMPOSE_OUTPUT_BYTE_1 ctx; ctx \<leftarrow> out_put 1 b ctx;
          c \<leftarrow> COMPOSE_OUTPUT_BYTE_2 ctx; ctx \<leftarrow> out_put 2 c ctx;
          Some (advance 4 3 ctx) }"

lemma decode_block_moves:
  "decode_block ctx = Some ctx' \<Longrightarrow> input_cur ctx' = input_cur ctx + 4 \<and> input_end ctx' = input_end ctx"
  by (auto simp: decode_block_def out_put_def advance_def split: bind_splits)

text \<open>The loop over the blocks; the flag is \<open>False\<close> when the function returns false.\<close>

function decode_blocks :: "b64_ctx \<Rightarrow> (bool \<times> b64_ctx) option" where
  "decode_blocks ctx =
     (if input_end ctx \<ge> input_cur ctx + 4 \<and> output_end ctx \<ge> output_cur ctx + 3
      then do { valid \<leftarrow> input_is_valid ctx 4;
                if \<not> valid then Some (False, ctx)
                else do { ctx' \<leftarrow> decode_block ctx; decode_blocks ctx' } }
      else Some (True, ctx))"
  by pat_completeness auto

termination
  by (relation "measure (\<lambda>ctx. input_end ctx - input_cur ctx)") (auto dest: decode_block_moves)

declare decode_blocks.simps [simp del]

definition decode_padded :: "b64_ctx \<Rightarrow> (bool \<times> b64_ctx) option" where
  "decode_padded ctx =
     do { d \<leftarrow> in_at ctx 3;
          if d = 0x3d
          then do { c \<leftarrow> in_at ctx 2;
                    if c = 0x3d \<and> output_end ctx \<ge> output_cur ctx + 1
                    then do { valid \<leftarrow> input_is_valid ctx 2;
                              if \<not> valid then Some (False, ctx)
                              else do { a \<leftarrow> COMPOSE_OUTPUT_BYTE_0 ctx; ctx \<leftarrow> out_put 0 a ctx;
                                        Some (True, advance 4 1 ctx) } }
                    else if output_end ctx \<ge> output_cur ctx + 2
                    then do { valid \<leftarrow> input_is_valid ctx 3;
                              if \<not> valid then Some (False, ctx)
                              else do { a \<leftarrow> COMPOSE_OUTPUT_BYTE_0 ctx; ctx \<leftarrow> out_put 0 a ctx;
                                        b \<leftarrow> COMPOSE_OUTPUT_BYTE_1 ctx; ctx \<leftarrow> out_put 1 b ctx;
                                        Some (True, advance 4 2 ctx) } }
                    else Some (True, ctx) }
          else Some (True, ctx) }"

definition decode_unpadded :: "nat \<Rightarrow> b64_ctx \<Rightarrow> (bool \<times> b64_ctx) option" where
  "decode_unpadded input_tail ctx =
     do { xtra \<leftarrow> fetch dec_tail_xtra input_tail;
          if output_end ctx \<ge> output_cur ctx + xtra
          then do { valid \<leftarrow> input_is_valid ctx input_tail;
                    if \<not> valid then Some (False, ctx)
                    else do { ctx1 \<leftarrow> (if input_tail = 3
                                       then do { b \<leftarrow> COMPOSE_OUTPUT_BYTE_1 ctx; out_put 1 b ctx }
                                       else Some ctx);
                              ctx2 \<leftarrow> (if input_tail = 3 \<or> input_tail = 2
                                       then do { a \<leftarrow> COMPOSE_OUTPUT_BYTE_0 ctx1; out_put 0 a ctx1 }
                                       else Some ctx1);
                              Some (True, advance input_tail xtra ctx2) } }
          else Some (True, ctx) }"

definition grpc_base64_decode_partial :: "b64_ctx \<Rightarrow> (bool \<times> b64_ctx) option" where
  "grpc_base64_decode_partial ctx =
     (if input_cur ctx > input_end ctx \<or> output_cur ctx > output_end ctx then Some (False, ctx)
      else do { (ok, ctx) \<leftarrow> decode_blocks ctx;
                if \<not> ok then Some (False, ctx)
                else let input_tail = input_end ctx - input_cur ctx
                     in if input_tail = 4 then decode_padded ctx
                        else if contains_tail ctx \<and> input_tail > 1 then decode_unpadded input_tail ctx
                        else Some (True, ctx) })"

definition start_ctx :: "(nat \<Rightarrow> u8) \<Rightarrow> octets \<Rightarrow> nat \<Rightarrow> bool \<Rightarrow> b64_ctx" where
  "start_ctx junk input output_length tail =
     \<lparr>input_cur = 0, input_end = length input, output_cur = 0, output_end = output_length,
      contains_tail = tail, in_buf = input, out_buf = map junk [0..<output_length]\<rparr>"

text \<open>The length of the output of padded input: a padding character at the end is not output.\<close>

definition padded_output_length :: "octets \<Rightarrow> nat" where
  "padded_output_length input =
     (let n = length input; output_length = n div 4 * 3
      in if n > 0 \<and> input ! (n - 1) = 0x3d
         then if input ! (n - 2) = 0x3d then output_length - 2 else output_length - 1
         else output_length)"

definition grpc_chttp2_base64_decode :: "(nat \<Rightarrow> u8) \<Rightarrow> octets \<Rightarrow> octets option" where
  "grpc_chttp2_base64_decode junk input =
     (if length input mod 4 \<noteq> 0 then Some []
      else do { (ok, ctx) \<leftarrow> grpc_base64_decode_partial (start_ctx junk input (padded_output_length input) False);
                if \<not> ok then Some []
                else do { assert_c (output_cur ctx = output_end ctx);
                          assert_c (input_cur ctx = input_end ctx);
                          Some (out_buf ctx) } })"

definition grpc_chttp2_base64_decode_with_length :: "(nat \<Rightarrow> u8) \<Rightarrow> octets \<Rightarrow> nat \<Rightarrow> octets option" where
  "grpc_chttp2_base64_decode_with_length junk input output_length =
     (if length input mod 4 = 1 then Some []
      else if output_length > length input div 4 * 3 + dec_tail_xtra ! (length input mod 4) then Some []
      else do { (ok, ctx) \<leftarrow> grpc_base64_decode_partial (start_ctx junk input output_length True);
                if \<not> ok then Some []
                else do { assert_c (output_cur ctx = output_end ctx);
                          assert_c (input_cur ctx \<le> input_end ctx);
                          Some (out_buf ctx) } })"

section \<open>Symbols\<close>

lemma alphabet_decodes:
  assumes "unat i < 64"
  shows "decode_sym (sym i) = i" "decode_sym (sym i) AND 0xC0 = 0" "sym i \<noteq> 0x3d"
proof -
  have "list_all (\<lambda>n. decode_table ! unat (alphabet ! n) = of_nat n \<and> (of_nat n :: u8) AND 0xC0 = 0 \<and> alphabet ! n \<noteq> 0x3d) [0..<64]"
    by code_simp
  then have "decode_table ! unat (alphabet ! unat i) = of_nat (unat i) \<and> (of_nat (unat i) :: u8) AND 0xC0 = 0 \<and>
      alphabet ! unat i \<noteq> 0x3d"
    using assms unfolding list_all_iff by (metis atLeastLessThan_iff atLeastLessThan_upt le0)
  then show "decode_sym (sym i) = i" "decode_sym (sym i) AND 0xC0 = 0" "sym i \<noteq> 0x3d"
    by (simp_all add: decode_sym_def sym_def)
qed

lemma pad_invalid: "decode_sym 0x3d AND 0xC0 \<noteq> 0"
  by code_simp

definition six1 :: "u8 \<Rightarrow> u8" where "six1 a = drop_bit 2 a"
definition six2 :: "u8 \<Rightarrow> u8 \<Rightarrow> u8" where "six2 a b = push_bit 4 (a AND 0x3) OR drop_bit 4 b"
definition six3 :: "u8 \<Rightarrow> u8 \<Rightarrow> u8" where "six3 b c = push_bit 2 (b AND 0xf) OR drop_bit 6 c"
definition six4 :: "u8 \<Rightarrow> u8" where "six4 c = c AND 0x3f"

lemma low_masks: "a AND 0x3 = take_bit 2 a" "a AND 0xf = take_bit 4 a" "a AND 0x3f = take_bit 6 a" for a :: u8
  by (simp_all add: take_bit_eq_mask mask_eq_exp_minus_1)

lemma below_64: "take_bit 6 v = v \<Longrightarrow> unat (v :: u8) < 64"
proof -
  assume "take_bit 6 v = v"
  then have "unat v = take_bit 6 (unat v)" by (metis unsigned_take_bit_eq)
  moreover have "take_bit 6 (unat v) < 2 ^ 6" by (rule take_bit_nat_less_exp)
  ultimately show ?thesis by simp
qed

lemma octet_eqI:
  fixes v w :: u8
  assumes "bit v 0 = bit w 0" "bit v 1 = bit w 1" "bit v 2 = bit w 2" "bit v 3 = bit w 3"
    "bit v 4 = bit w 4" "bit v 5 = bit w 5" "bit v 6 = bit w 6" "bit v 7 = bit w 7"
  shows "v = w"
proof (rule bit_word_eqI)
  fix n assume "n < LENGTH(8)"
  then have "n \<in> {0, 1, 2, 3, 4, 5, 6, 7}" by auto
  then show "bit v n = bit w n" using assms by auto
qed

lemma octet_bit_out: "8 \<le> n \<Longrightarrow> \<not> bit (a :: u8) n"
  by (auto dest: bit_imp_le_length)

lemma six_below: "unat (six1 a) < 64" "unat (six2 a b) < 64" "unat (six3 b c) < 64" "unat (six4 c) < 64"
  unfolding six1_def six2_def six3_def six4_def low_masks
  by (rule below_64; rule octet_eqI; simp add: bit_simps octet_bit_out)+

lemma six_join:
  "push_bit 2 (six1 a) OR drop_bit 4 (six2 a b) = a"
  "push_bit 4 (six2 a b) OR drop_bit 2 (six3 b c) = b"
  "push_bit 6 (six3 b c) OR six4 c = c"
  unfolding six1_def six2_def six3_def six4_def low_masks
  by (rule octet_eqI; simp add: bit_simps octet_bit_out)+

section \<open>Contexts\<close>

text \<open>
  \<open>b64_at r w room t ctx\<close>: \<open>r\<close> is left to read, \<open>w\<close> has been written, and there is room for
  \<open>room\<close> octets more.
\<close>

definition b64_at :: "octets \<Rightarrow> octets \<Rightarrow> nat \<Rightarrow> bool \<Rightarrow> b64_ctx \<Rightarrow> bool" where
  "b64_at r w room t ctx \<longleftrightarrow>
     input_end ctx = length (in_buf ctx) \<and> r = drop (input_cur ctx) (in_buf ctx) \<and> input_cur ctx \<le> input_end ctx \<and>
     output_end ctx = length (out_buf ctx) \<and> w = take (output_cur ctx) (out_buf ctx) \<and>
     output_end ctx = output_cur ctx + room \<and> contains_tail ctx = t"

lemma b64_at_in:
  assumes "b64_at r w room t ctx"
  shows "i < length r \<Longrightarrow> in_at ctx i = Some (r ! i)"
    and "n \<le> length r \<Longrightarrow> input_is_valid ctx n = Some (list_all (\<lambda>c. decode_sym c AND 0xC0 = 0) (take n r))"
    and "input_end ctx - input_cur ctx = length r" "input_end ctx \<ge> input_cur ctx + n \<longleftrightarrow> n \<le> length r"
    and "output_end ctx \<ge> output_cur ctx + n \<longleftrightarrow> n \<le> room"
  using assms by (auto simp: b64_at_def in_at_def input_is_valid_def assert_c_def)

lemma b64_at_put:
  assumes "b64_at r w room t ctx" "i < room"
  shows "out_put i v ctx = Some (ctx\<lparr>out_buf := (out_buf ctx)[output_cur ctx + i := v]\<rparr>)"
  using assms by (auto simp: b64_at_def out_put_def)

text \<open>The octets that four characters stand for.\<close>

definition oct0 :: "octets \<Rightarrow> u8" where "oct0 r = push_bit 2 (decode_sym (r ! 0)) OR drop_bit 4 (decode_sym (r ! 1))"
definition oct1 :: "octets \<Rightarrow> u8" where "oct1 r = push_bit 4 (decode_sym (r ! 1)) OR drop_bit 2 (decode_sym (r ! 2))"
definition oct2 :: "octets \<Rightarrow> u8" where "oct2 r = push_bit 6 (decode_sym (r ! 2)) OR decode_sym (r ! 3)"

lemma b64_at_compose:
  assumes "b64_at r w room t ctx"
  shows "1 < length r \<Longrightarrow> COMPOSE_OUTPUT_BYTE_0 ctx = Some (oct0 r)"
    and "2 < length r \<Longrightarrow> COMPOSE_OUTPUT_BYTE_1 ctx = Some (oct1 r)"
    and "3 < length r \<Longrightarrow> COMPOSE_OUTPUT_BYTE_2 ctx = Some (oct2 r)"
  using b64_at_in(1) [OF assms]
  by (simp_all add: COMPOSE_OUTPUT_BYTE_0_def COMPOSE_OUTPUT_BYTE_1_def COMPOSE_OUTPUT_BYTE_2_def oct0_def oct1_def oct2_def
      del: length_greater_0_conv)

text \<open>Writing into the room changes nothing that has been written.\<close>

lemma b64_at_write:
  "b64_at r w room t ctx \<Longrightarrow> b64_at r w room t (ctx\<lparr>out_buf := (out_buf ctx)[output_cur ctx + i := v]\<rparr>)"
  by (simp add: b64_at_def)

lemma take_writes:
  "n < length xs \<Longrightarrow> take (n + 1) (xs[n := a]) = take n xs @ [a]"
  "n + 1 < length xs \<Longrightarrow> take (n + 2) (xs[n := a, n + 1 := b]) = take n xs @ [a, b]"
  "n + 2 < length xs \<Longrightarrow> take (n + 3) (xs[n := a, n + 1 := b, n + 2 := c]) = take n xs @ [a, b, c]"
  by (simp_all add: take_Suc_conv_app_nth eval_nat_numeral)

lemma decode_block_at:
  assumes at: "b64_at r w (room + 3) t ctx" and r: "4 \<le> length r"
  shows "\<exists>ctx'. decode_block ctx = Some ctx' \<and> b64_at (drop 4 r) (w @ [oct0 r, oct1 r, oct2 r]) room t ctx'"
proof -
  let ?c = "output_cur ctx"
  define c1 where "c1 = ctx\<lparr>out_buf := (out_buf ctx)[?c + 0 := oct0 r]\<rparr>"
  have at1: "b64_at r w (room + 3) t c1" unfolding c1_def by (rule b64_at_write [OF at])
  define c2 where "c2 = c1\<lparr>out_buf := (out_buf c1)[output_cur c1 + 1 := oct1 r]\<rparr>"
  have at2: "b64_at r w (room + 3) t c2" unfolding c2_def by (rule b64_at_write [OF at1])
  define c3 where "c3 = c2\<lparr>out_buf := (out_buf c2)[output_cur c2 + 2 := oct2 r]\<rparr>"
  have d: "decode_block ctx = Some (advance 4 3 c3)"
    using b64_at_compose [OF at] b64_at_compose [OF at1] b64_at_compose [OF at2] r
      b64_at_put [OF at] b64_at_put [OF at1] b64_at_put [OF at2]
    by (simp add: decode_block_def c1_def [symmetric] c2_def [symmetric] c3_def [symmetric])
      (simp add: c1_def c2_def c3_def)
  have out: "out_buf c3 = (out_buf ctx)[?c := oct0 r, ?c + 1 := oct1 r, ?c + 2 := oct2 r]" "output_cur c3 = ?c"
    by (simp_all add: c1_def c2_def c3_def)
  have "b64_at (drop 4 r) (w @ [oct0 r, oct1 r, oct2 r]) room t (advance 4 3 c3)"
    using at r unfolding b64_at_def
    by (auto simp: advance_def out take_writes [simplified] add.commute c1_def c2_def c3_def)
  with d show ?thesis by blast
qed

section \<open>Encoded input\<close>

lemma encode_tail_cases:
  assumes "length ins < 3"
  obtains "ins = []" | a where "ins = [a]" | a b where "ins = [a, b]"
proof (cases ins)
  case Nil then show thesis by (rule that(1))
next
  case (Cons a t)
  show thesis
  proof (cases t)
    case Nil then show thesis using Cons that(2) by simp
  next
    case c: (Cons b u)
    then show thesis using Cons assms that(3) by (cases u) auto
  qed
qed

lemma encode_triplets_ok:
  assumes "3 * n \<le> length ins"
  shows "\<exists>e. encode_triplets n ins = Some e \<and> length e = 4 * n"
  using assms
proof (induction n ins rule: encode_triplets.induct)
  case (2 n a b c ins)
  then show ?case by auto
qed auto

lemma take_drop_triplet: "3 * Suc n \<le> length ins \<Longrightarrow> \<exists>a b c t. ins = a # b # c # t \<and> 3 * n \<le> length t"
  by (cases ins; cases "tl ins"; cases "tl (tl ins)") auto

lemma take_triplet: "take (3 + 3 * n) (a # b # c # xs) = a # b # c # take (3 * n) xs"
  by (simp add: eval_nat_numeral)

lemma encoded_octets:
  "oct0 (sym (six1 a) # sym (six2 a b) # r) = a"
  "oct1 (x # sym (six2 a b) # sym (six3 b c) # r) = b"
  "oct2 (x # y # sym (six3 b c) # sym (six4 c) # r) = c"
  by (simp_all add: oct0_def oct1_def oct2_def alphabet_decodes six_below six_join)

lemma six_tails: "push_bit 4 (a AND 0x3) = six2 a 0" "push_bit 2 (b AND 0xf) = six3 b 0"
  by (simp_all add: six2_def six3_def)

lemmas six_defs = six1_def [symmetric] six2_def [symmetric] six3_def [symmetric] six4_def [symmetric]

lemma sym_valid:
  "decode_sym (sym (six1 a)) AND 0xC0 = 0" "decode_sym (sym (six2 a b)) AND 0xC0 = 0"
  "decode_sym (sym (six3 b c)) AND 0xC0 = 0" "decode_sym (sym (six4 c)) AND 0xC0 = 0"
  by (rule alphabet_decodes(2), rule six_below)+

lemma encode_triplets_six:
  "encode_triplets (Suc n) (a # b # c # ins) =
     do { out \<leftarrow> encode_triplets n ins;
          Some (sym (six1 a) # sym (six2 a b) # sym (six3 b c) # sym (six4 c) # out) }"
  unfolding encode_triplets.simps six_defs ..

lemma decode_blocks_encoded:
  assumes "encode_triplets n ins = Some e" "3 * n \<le> length ins" "b64_at (e @ r) w (3 * n + room) t ctx"
    and "length r < 4 \<or> room < 3"
  shows "\<exists>ctx'. decode_blocks ctx = Some (True, ctx') \<and> b64_at r (w @ take (3 * n) ins) room t ctx'"
  using assms(1-3)
proof (induction n arbitrary: ins e w ctx)
  case 0
  then have "b64_at r w room t ctx" "\<not> (4 \<le> length r \<and> 3 \<le> room)" using assms(4) by auto
  then show ?case using b64_at_in(4,5) [of r w room t ctx] by (subst decode_blocks.simps) auto
next
  case (Suc n)
  from take_drop_triplet [OF Suc.prems(2)] obtain a b c ins' where ins: "ins = a # b # c # ins'" "3 * n \<le> length ins'"
    by blast
  with Suc.prems(1) obtain e' where e: "encode_triplets n ins' = Some e'"
      "e = sym (six1 a) # sym (six2 a b) # sym (six3 b c) # sym (six4 c) # e'"
    by (auto simp: encode_triplets_six simp del: encode_triplets.simps(2) split: bind_splits)
  have at: "b64_at (e @ r) w ((3 * n + room) + 3) t ctx" using Suc.prems(3) by (simp add: add.commute add.left_commute)
  have l: "4 \<le> length (e @ r)" using e by simp
  from decode_block_at [OF at l] obtain ctx1 where b: "decode_block ctx = Some ctx1"
      "b64_at (e' @ r) (w @ [a, b, c]) (3 * n + room) t ctx1"
    by (auto simp: e encoded_octets)
  have v: "input_is_valid ctx 4 = Some True"
    using b64_at_in(2) [OF at l] by (simp add: e sym_valid)
  from Suc.IH [OF e(1) ins(2) b(2)] obtain ctx' where
    "decode_blocks ctx1 = Some (True, ctx')" "b64_at r (w @ a # b # c # take (3 * n) ins') room t ctx'" by auto
  then show ?case using b(1) v b64_at_in(4,5) [OF at] l by (subst decode_blocks.simps) (simp add: ins take_triplet)
qed

text \<open>Writing \<open>vs\<close> and reading \<open>n\<close> characters.\<close>

lemma b64_at_advance:
  assumes at: "b64_at r w room t ctx" and "n \<le> length r" "length vs \<le> room"
    and out: "length out = length (out_buf ctx)" "take (output_cur ctx + length vs) out = w @ vs"
  shows "b64_at (drop n r) (w @ vs) (room - length vs) t (advance n (length vs) (ctx\<lparr>out_buf := out\<rparr>))"
  using assms by (auto simp: b64_at_def advance_def add.commute)

lemma b64_at_advance_1:
  assumes at: "b64_at r w room t ctx" and "n \<le> length r" "1 \<le> room"
  shows "b64_at (drop n r) (w @ [a]) (room - 1) t (advance n 1 (ctx\<lparr>out_buf := (out_buf ctx)[output_cur ctx := a]\<rparr>))"
  using b64_at_advance [OF at assms(2), of "[a]" "(out_buf ctx)[output_cur ctx := a]"]
    take_writes(1) [of "output_cur ctx" "out_buf ctx" a] assms by (auto simp: b64_at_def)

lemma b64_at_advance_2:
  assumes at: "b64_at r w room t ctx" and "n \<le> length r" "2 \<le> room"
  shows "b64_at (drop n r) (w @ [a, b]) (room - 2) t
    (advance n 2 (ctx\<lparr>out_buf := (out_buf ctx)[output_cur ctx := a, output_cur ctx + 1 := b]\<rparr>))"
  using b64_at_advance [OF at assms(2), of "[a, b]" "(out_buf ctx)[output_cur ctx := a, output_cur ctx + 1 := b]"]
    take_writes(2) [of "output_cur ctx" "out_buf ctx" a b] assms by (auto simp: b64_at_def numeral_2_eq_2)

definition all_valid :: "octets \<Rightarrow> bool" where
  "all_valid r \<longleftrightarrow> list_all (\<lambda>c. decode_sym c AND 0xC0 = 0) r"

text \<open>The characters after the full triplets, without padding.\<close>

lemma decode_unpadded_at:
  assumes at: "b64_at r w room True ctx" and r: "length r = 2 \<and> room = 1 \<or> length r = 3 \<and> room = 2" and v: "all_valid r"
  shows "\<exists>ctx'. decode_unpadded (length r) ctx = Some (True, ctx') \<and>
    b64_at [] (w @ take room [oct0 r, oct1 r]) 0 True ctx'"
proof -
  have valid: "input_is_valid ctx (length r) = Some True" using b64_at_in(2) [OF at, of "length r"] v by (simp add: all_valid_def)
  have room: "output_end ctx \<ge> output_cur ctx + room" using b64_at_in(5) [OF at] by simp
  have put: "\<And>v. out_put 0 v ctx = Some (ctx\<lparr>out_buf := (out_buf ctx)[output_cur ctx := v]\<rparr>)"
    using b64_at_put [OF at, of 0] r by auto
  from r show ?thesis
  proof
    assume r: "length r = 2 \<and> room = 1"
    then have "decode_unpadded (length r) ctx = Some (True, advance 2 1 (ctx\<lparr>out_buf := (out_buf ctx)[output_cur ctx := oct0 r]\<rparr>))"
      using valid room put b64_at_compose(1) [OF at] by (simp add: decode_unpadded_def dec_tail_xtra_def)
    then show ?thesis using b64_at_advance_1 [OF at, of 2 "oct0 r"] r by auto
  next
    assume r: "length r = 3 \<and> room = 2"
    define c1 where "c1 = ctx\<lparr>out_buf := (out_buf ctx)[output_cur ctx + 1 := oct1 r]\<rparr>"
    have at1: "b64_at r w room True c1" unfolding c1_def by (rule b64_at_write [OF at])
    have "out_put 1 (oct1 r) ctx = Some c1" "out_put 0 (oct0 r) c1 = Some (c1\<lparr>out_buf := (out_buf c1)[output_cur c1 := oct0 r]\<rparr>)"
      using b64_at_put [OF at, of 1] b64_at_put [OF at1, of 0] r by (auto simp: c1_def)
    then have "decode_unpadded (length r) ctx = Some (True, advance 3 2 (c1\<lparr>out_buf := (out_buf c1)[output_cur c1 := oct0 r]\<rparr>))"
      using valid room r b64_at_compose(2) [OF at] b64_at_compose(1) [OF at1]
      by (simp add: decode_unpadded_def dec_tail_xtra_def)
    moreover have "c1\<lparr>out_buf := (out_buf c1)[output_cur c1 := oct0 r]\<rparr> =
        ctx\<lparr>out_buf := (out_buf ctx)[output_cur ctx := oct0 r, output_cur ctx + 1 := oct1 r]\<rparr>"
      by (simp add: c1_def list_update_swap)
    ultimately show ?thesis using b64_at_advance_2 [OF at, of 3 "oct0 r" "oct1 r"] r by auto
  qed
qed

text \<open>The last block of padded input.\<close>

lemma decode_padded_at:
  assumes at: "b64_at r w room t ctx" and r: "length r = 4" "r ! 3 = 0x3d"
    and room: "r ! 2 = 0x3d \<and> room = 1 \<or> r ! 2 \<noteq> 0x3d \<and> room = 2"
  shows "\<exists>ctx'. decode_padded ctx = Some (all_valid (take (room + 1) r), ctx') \<and>
    (all_valid (take (room + 1) r) \<longrightarrow> b64_at [] (w @ take room [oct0 r, oct1 r]) 0 t ctx')"
proof -
  have i: "in_at ctx 3 = Some 0x3d" "in_at ctx 2 = Some (r ! 2)" using b64_at_in(1) [OF at] r by auto
  have valid: "input_is_valid ctx (room + 1) = Some (all_valid (take (room + 1) r))"
    using b64_at_in(2) [OF at, of "room + 1"] room r by (auto simp: all_valid_def)
  have le: "output_end ctx \<ge> output_cur ctx + n \<longleftrightarrow> n \<le> room" for n using b64_at_in(5) [OF at] .
  have put: "\<And>v. out_put 0 v ctx = Some (ctx\<lparr>out_buf := (out_buf ctx)[output_cur ctx := v]\<rparr>)"
    using b64_at_put [OF at, of 0] room by auto
  from room show ?thesis
  proof
    assume c: "r ! 2 = 0x3d \<and> room = 1"
    show ?thesis
    proof (cases "all_valid (take (room + 1) r)")
      case True
      then have "decode_padded ctx = Some (True, advance 4 1 (ctx\<lparr>out_buf := (out_buf ctx)[output_cur ctx := oct0 r]\<rparr>))"
        using c i valid le [of 1] put b64_at_compose(1) [OF at] r by (simp add: decode_padded_def numeral_2_eq_2)
      then show ?thesis using b64_at_advance_1 [OF at, of 4 "oct0 r"] c r True by auto
    next
      case False
      then show ?thesis using c i valid le [of 1] by (auto simp: decode_padded_def numeral_2_eq_2)
    qed
  next
    assume c: "r ! 2 \<noteq> 0x3d \<and> room = 2"
    then have valid: "input_is_valid ctx 3 = Some (all_valid (take (room + 1) r))" using valid by simp
    show ?thesis
    proof (cases "all_valid (take (room + 1) r)")
      case True
      define c1 where "c1 = ctx\<lparr>out_buf := (out_buf ctx)[output_cur ctx + 0 := oct0 r]\<rparr>"
      have at1: "b64_at r w room t c1" unfolding c1_def by (rule b64_at_write [OF at])
      have "out_put 1 (oct1 r) c1 = Some (c1\<lparr>out_buf := (out_buf c1)[output_cur c1 + 1 := oct1 r]\<rparr>)"
        using b64_at_put [OF at1, of 1] c by simp
      then have "decode_padded ctx = Some (True, advance 4 2 (c1\<lparr>out_buf := (out_buf c1)[output_cur c1 + 1 := oct1 r]\<rparr>))"
        using c i valid le [of 2] put b64_at_compose(1) [OF at] b64_at_compose(2) [OF at1] r True
        by (simp add: decode_padded_def c1_def)
      then show ?thesis using b64_at_advance_2 [OF at, of 4 "oct0 r" "oct1 r"] c r True by (auto simp: c1_def)
    next
      case False
      then show ?thesis using c i valid le [of 2] by (auto simp: decode_padded_def)
    qed
  qed
qed

section \<open>Round trip\<close>

lemma encode_triplets_plain:
  "encode_triplets n ins = Some e \<Longrightarrow> 3 * n \<le> length ins \<Longrightarrow> list_all (\<lambda>c. c \<noteq> 0x3d) e"
proof (induction n arbitrary: ins e)
  case (Suc n)
  from take_drop_triplet [OF Suc.prems(2)] obtain a b c t where "ins = a # b # c # t" "3 * n \<le> length t" by blast
  then show ?case using Suc
    by (auto simp: encode_triplets_six alphabet_decodes(3) six_below simp del: encode_triplets.simps(2) split: bind_splits)
qed auto

lemma encode_tail_six1: "encode_tail [a] = Some [sym (six1 a), sym (six2 a 0)]"
  unfolding encode_tail.simps six_tails six1_def [symmetric] ..

lemma encode_tail_six2: "encode_tail [a, b] = Some [sym (six1 a), sym (six2 a b), sym (six3 b 0)]"
  unfolding encode_tail.simps six1_def [symmetric] six2_def [symmetric] six_tails(2) ..

lemmas encode_tail_six = encode_tail.simps(1) encode_tail_six1 encode_tail_six2

text \<open>What \<open>encode_tail\<close> writes for the octets \<open>t\<close> after the triplets.\<close>

lemma encode_tail_ok:
  assumes "length t < 3"
  obtains e where "encode_tail t = Some e" "length e = enc_tail_xtra ! length t" "all_valid e"
    "list_all (\<lambda>c. c \<noteq> 0x3d) e" "\<And>p. take (length t) [oct0 (e @ p), oct1 (e @ p)] = t"
  using assms
proof (cases rule: encode_tail_cases)
  case 1 then show thesis using that [of "[]"] by (simp add: enc_tail_xtra_def all_valid_def)
next
  case (2 a)
  show thesis
    by (rule that [of "[sym (six1 a), sym (six2 a 0)]"])
      (simp_all add: 2 encode_tail_six enc_tail_xtra_def all_valid_def sym_valid alphabet_decodes(3) six_below encoded_octets del: encode_tail.simps)
next
  case (3 a b)
  show thesis
    by (rule that [of "[sym (six1 a), sym (six2 a b), sym (six3 b 0)]"])
      (simp_all add: 3 encode_tail_six enc_tail_xtra_def all_valid_def sym_valid alphabet_decodes(3) six_below encoded_octets del: encode_tail.simps)
qed

lemma encode_split:
  obtains n t e1 e2 where "length s = 3 * n + length t" "s = take (3 * n) s @ t" "length t < 3"
    "encode_triplets n s = Some e1" "length e1 = 4 * n" "encode_tail t = Some e2"
    "grpc_chttp2_base64_encode s = Some (e1 @ e2)" "list_all (\<lambda>c. c \<noteq> 0x3d) (e1 @ e2)"
proof -
  define n where "n = length s div 3"
  define t where "t = drop (3 * n) s"
  have l: "length s = 3 * n + length t" "length t < 3" "length s mod 3 = length t" "3 * n \<le> length s"
    using minus_mult_div_eq_mod [of "length s" 3] unfolding n_def t_def by simp_all
  obtain e1 where e1: "encode_triplets n s = Some e1" "length e1 = 4 * n" using encode_triplets_ok [OF l(4)] by blast
  obtain e2 where e2: "encode_tail t = Some e2" "length e2 = enc_tail_xtra ! length t" "list_all (\<lambda>c. c \<noteq> 0x3d) e2"
    using encode_tail_ok [OF l(2)] .
  have "grpc_chttp2_base64_encode s = Some (e1 @ e2)"
    using e1 e2 l(3) by (simp add: grpc_chttp2_base64_encode_def n_def [symmetric] t_def [symmetric] assert_c_def)
  moreover have "s = take (3 * n) s @ t" unfolding t_def by simp
  moreover have "list_all (\<lambda>c. c \<noteq> 0x3d) (e1 @ e2)" using encode_triplets_plain [OF e1(1) l(4)] e2(3) by simp
  ultimately show thesis using that [OF l(1) _ l(2) e1(1,2) e2(1)] by blast
qed

lemma b64_at_start: "b64_at input [] room t (start_ctx junk input room t)"
  by (simp add: b64_at_def start_ctx_def)

lemma b64_at_done:
  "b64_at r w 0 t ctx \<Longrightarrow> output_cur ctx = output_end ctx \<and> out_buf ctx = w \<and> input_cur ctx \<le> input_end ctx"
  "b64_at [] w 0 t ctx \<Longrightarrow> input_cur ctx = input_end ctx"
  by (auto simp: b64_at_def)

lemma decode_partial_blocks:
  assumes at: "b64_at r w room t ctx" and "decode_blocks ctx = Some (True, ctx')" "b64_at r' w' room' t ctx'"
  shows "grpc_base64_decode_partial ctx =
    (if length r' = 4 then decode_padded ctx' else if t \<and> length r' > 1 then decode_unpadded (length r') ctx' else Some (True, ctx'))"
proof -
  have "\<not> (input_cur ctx > input_end ctx \<or> output_cur ctx > output_end ctx)" using at by (auto simp: b64_at_def)
  then show ?thesis using assms(2) b64_at_in(3) [OF assms(3)] assms(3)
    by (simp add: grpc_base64_decode_partial_def b64_at_def Let_def)
qed

lemma infer_plain: "list_all (\<lambda>c. c \<noteq> 0x3d) e \<Longrightarrow> infer_unpadded e = length e"
proof -
  assume "list_all (\<lambda>c. c \<noteq> 0x3d) e"
  then have "dropWhile (\<lambda>c. c = 0x3d) (rev e) = rev e" by (cases "rev e") (auto simp: list_all_iff simp flip: set_rev [of e])
  then show ?thesis by (simp add: infer_unpadded_def)
qed

lemma three_cases: "length t < 3 \<Longrightarrow> length t = 0 \<or> length t = 1 \<or> length t = 2"
  by linarith

lemma decode_with_length_encoded:
  assumes "grpc_chttp2_base64_encode s = Some e"
  shows "grpc_chttp2_base64_decode_with_length junk e (length s) = Some s"
proof -
  obtain n t e1 e2 where s: "length s = 3 * n + length t" "s = take (3 * n) s @ t" "length t < 3"
    "encode_triplets n s = Some e1" "length e1 = 4 * n" "encode_tail t = Some e2"
    "grpc_chttp2_base64_encode s = Some (e1 @ e2)" "list_all (\<lambda>c. c \<noteq> 0x3d) (e1 @ e2)"
    using encode_split [of s] .
  then have e: "e = e1 @ e2" using assms by simp
  obtain e2' where e2': "encode_tail t = Some e2'" "length e2' = enc_tail_xtra ! length t" "all_valid e2'"
    "\<And>p. take (length t) [oct0 (e2' @ p), oct1 (e2' @ p)] = t" using encode_tail_ok [OF s(3)] by blast
  then have e2: "length e2 = enc_tail_xtra ! length t" "all_valid e2" "take (length t) [oct0 e2, oct1 e2] = t"
    using s(6) e2'(4) [of "[]"] by auto
  let ?c = "start_ctx junk e (length s) True"
  have at: "b64_at (e1 @ e2) [] (3 * n + length t) True ?c" using b64_at_start s(1) e by simp
  from decode_blocks_encoded [OF s(4) _ at] s(1,3) obtain c1 where
    c1: "decode_blocks ?c = Some (True, c1)" "b64_at e2 (take (3 * n) s) (length t) True c1" by auto
  have len: "\<not> length s > length e div 4 * 3 + dec_tail_xtra ! (length e mod 4)" "length e mod 4 \<noteq> 1" "length e2 \<noteq> 4"
    using three_cases [OF s(3)] s(1,5) e e2(1) by (auto simp: enc_tail_xtra_def dec_tail_xtra_def)
  have "\<exists>c2. grpc_base64_decode_partial ?c = Some (True, c2) \<and> b64_at [] s 0 True c2"
  proof (cases "t = []")
    case True
    then show ?thesis using decode_partial_blocks [OF at c1] c1(2) s(2) e2(1) by (simp add: enc_tail_xtra_def)
  next
    case False
    then have "length e2 = 2 \<and> length t = 1 \<or> length e2 = 3 \<and> length t = 2" "1 < length e2"
      using three_cases [OF s(3)] e2(1) by (auto simp: enc_tail_xtra_def)
    then show ?thesis using decode_partial_blocks [OF at c1] decode_unpadded_at [OF c1(2) _ e2(2)] e2(3) s(2) len(3) by auto
  qed
  then obtain c2 where c2: "grpc_base64_decode_partial ?c = Some (True, c2)" "b64_at [] s 0 True c2" by blast
  show ?thesis using len(1,2) c2(1) b64_at_done [OF c2(2)]
    by (simp add: grpc_chttp2_base64_decode_with_length_def assert_c_def)
qed

section \<open>Padded input\<close>

text \<open>A whole number of blocks, the last one with \<open>p\<close> padding characters.\<close>

lemma decode_blocks_padded:
  assumes "b64_at r w (3 * k - p) t ctx" "length r = 4 * k" "p \<le> 2" "k = 0 \<longrightarrow> p = 0"
  shows "\<exists>ok ctx'. decode_blocks ctx = Some (ok, ctx') \<and>
    (ok \<longrightarrow> (\<exists>w'. b64_at (if p = 0 then [] else drop (4 * (k - 1)) r) w' (if p = 0 then 0 else 3 - p) t ctx' \<and>
      length w' + (if p = 0 then 0 else 3 - p) = length w + (3 * k - p)))"
  using assms
proof (induction k arbitrary: r w ctx)
  case 0
  then show ?case using b64_at_in(4,5) [OF 0(1)] by (subst decode_blocks.simps) auto
next
  case (Suc k)
  note at = Suc.prems(1)
  have l: "4 \<le> length r" using Suc.prems(2) by simp
  show ?case
  proof (cases "k = 0 \<and> p > 0")
    case True
    then have "\<not> 3 \<le> 3 * Suc k - p" by auto
    then have "decode_blocks ctx = Some (True, ctx)" using b64_at_in(4,5) [OF at] by (subst decode_blocks.simps) simp
    then show ?thesis using at True by auto
  next
    case False
    then have room: "3 * Suc k - p = (3 * k - p) + 3" "3 \<le> 3 * Suc k - p" "k = 0 \<longrightarrow> p = 0" using Suc.prems(3) by auto
    show ?thesis
    proof (cases "list_all (\<lambda>c. decode_sym c AND 0xC0 = 0) (take 4 r)")
      case True
      from decode_block_at [OF at [unfolded room(1)] l] obtain c1 where
        c1: "decode_block ctx = Some c1" "b64_at (drop 4 r) (w @ [oct0 r, oct1 r, oct2 r]) (3 * k - p) t c1" by blast
      have e: "decode_blocks ctx = decode_blocks c1"
        using b64_at_in(2,4,5) [OF at] l room(2) True c1(1) by (subst decode_blocks.simps) (simp del: mult_Suc_right)
      have d: "drop (4 * (k - 1)) (drop 4 r) = drop (4 * k) r" if "p \<noteq> 0"
        using that room(3) by (cases k) (simp_all add: add.commute)
      have r4: "length (drop 4 r) = 4 * k" using Suc.prems(2) by simp
      have lw: "length (w @ [oct0 r, oct1 r, oct2 r]) + (3 * k - p) = length w + (3 * Suc k - p)" using room(1) by simp
      show ?thesis using Suc.IH [OF c1(2) r4 Suc.prems(3) room(3), unfolded lw] e d by (cases "p = 0") simp_all
    next
      case False
      then have "decode_blocks ctx = Some (False, ctx)"
        using b64_at_in(2,4,5) [OF at] l room(2) by (subst decode_blocks.simps) (simp del: mult_Suc_right)
      then show ?thesis by blast
    qed
  qed
qed

text \<open>The padding characters at the end of the input.\<close>

definition padding :: "octets \<Rightarrow> nat" where
  "padding input =
     (if input \<noteq> [] \<and> input ! (length input - 1) = 0x3d
      then if input ! (length input - 2) = 0x3d then 2 else 1 else 0)"

lemma padded_output_length_padding: "padded_output_length input = length input div 4 * 3 - padding input"
  by (simp add: padded_output_length_def padding_def Let_def)

lemma last_block:
  assumes "length input = 4 * k" "padding input > 0"
  defines "r \<equiv> drop (4 * (k - 1)) input"
  shows "0 < k" "length r = 4" "r ! 3 = 0x3d" "r ! 2 = 0x3d \<and> 3 - padding input = 1 \<or> r ! 2 \<noteq> 0x3d \<and> 3 - padding input = 2"
proof -
  have p: "input \<noteq> []" "input ! (4 * k - 1) = 0x3d" "padding input = (if input ! (4 * k - 2) = 0x3d then 2 else 1)"
    using assms(1,2) by (auto simp: padding_def split: if_splits)
  from p(1) assms(1) show k: "0 < k" by (cases k) auto
  then obtain j where j: "k = Suc j" by (cases k) auto
  show "length r = 4" using assms(1) j by (simp add: r_def)
  have "r ! 3 = input ! (4 * k - 1)" "r ! 2 = input ! (4 * k - 2)" using assms(1) j by (simp_all add: r_def add.commute)
  with p show "r ! 3 = 0x3d" "r ! 2 = 0x3d \<and> 3 - padding input = 1 \<or> r ! 2 \<noteq> 0x3d \<and> 3 - padding input = 2" by auto
qed

lemma padding_le: "padding input \<le> 2"
  by (simp add: padding_def)

lemma decode_partial_padded:
  fixes junk :: "nat \<Rightarrow> u8"
  assumes k: "length input = 4 * k"
  defines "c \<equiv> start_ctx junk input (padded_output_length input) False"
  shows "\<exists>ok c'. grpc_base64_decode_partial c = Some (ok, c') \<and> (ok \<longrightarrow> (\<exists>w. b64_at [] w 0 False c' \<and> length w = padded_output_length input))"
proof -
  have at: "b64_at input [] (3 * k - padding input) False c"
    using b64_at_start k by (simp add: c_def padded_output_length_padding mult.commute)
  have z: "k = 0 \<longrightarrow> padding input = 0" using k by (cases k) (simp_all add: padding_def)
  from decode_blocks_padded [OF at k padding_le z] obtain ok c1 where
    b: "decode_blocks c = Some (ok, c1)"
    and c1: "ok \<longrightarrow> (\<exists>w'. b64_at (if padding input = 0 then [] else drop (4 * (k - 1)) input) w'
        (if padding input = 0 then 0 else 3 - padding input) False c1 \<and>
        length w' + (if padding input = 0 then 0 else 3 - padding input) = padded_output_length input)"
    using k by (auto simp: padded_output_length_padding mult.commute)
  show ?thesis
  proof (cases ok)
    case False
    have "\<not> (input_cur c > input_end c \<or> output_cur c > output_end c)" using at by (auto simp: b64_at_def)
    then have "grpc_base64_decode_partial c = Some (False, c1)" using b False by (simp add: grpc_base64_decode_partial_def)
    then show ?thesis by blast
  next
    case True
    show ?thesis
    proof (cases "padding input = 0")
      case p: True
      then obtain w where "b64_at [] w 0 False c1" "length w = padded_output_length input" using c1 True by auto
      then show ?thesis using decode_partial_blocks [OF at, of c1] b True by auto
    next
      case p: False
      then have p': "0 < padding input" by simp
      note r = last_block [OF k p']
      from c1 True p obtain w where a: "b64_at (drop (4 * (k - 1)) input) w (3 - padding input) False c1"
        "length w + (3 - padding input) = padded_output_length input" by auto
      have "grpc_base64_decode_partial c = decode_padded c1"
        using decode_partial_blocks [OF at, of c1] b True a(1) r(2) by simp
      moreover have "length (w @ take (3 - padding input) [oct0 x, oct1 x]) = padded_output_length input" for x
        using a(2) r(4) by auto
      ultimately show ?thesis using decode_padded_at [OF a(1) r(2,3,4)] by metis
    qed
  qed
qed

section \<open>Results\<close>

lemma encoded_padding:
  assumes "list_all (\<lambda>c. c \<noteq> 0x3d) e" "length e mod 4 \<noteq> 1"
  shows "padding (e @ replicate ((4 - length e mod 4) mod 4) 0x3d) = (4 - length e mod 4) mod 4"
proof -
  have "length e mod 4 < 4" by simp
  then consider "length e mod 4 = 0" | "length e mod 4 = 2" | "length e mod 4 = 3" using assms(2) by linarith
  then show ?thesis
  proof cases
    case 1
    have "e = [] \<or> e ! (length e - 1) \<noteq> 0x3d" using assms(1) by (cases "e = []") (simp_all add: list_all_length)
    then show ?thesis using 1 by (auto simp: padding_def)
  next
    case 2
    then show ?thesis by (simp add: padding_def nth_append numeral_2_eq_2)
  next
    case 3
    then have "e \<noteq> []" by auto
    then have "e ! (length e - 1) \<noteq> 0x3d" using assms(1) by (simp add: list_all_length)
    then show ?thesis using 3 \<open>e \<noteq> []\<close> by (simp add: padding_def nth_append)
  qed
qed

lemma decode_padded_encoded:
  assumes "grpc_chttp2_base64_encode s = Some e"
  shows "grpc_chttp2_base64_decode junk (e @ replicate ((4 - length e mod 4) mod 4) 0x3d) = Some s"
proof -
  obtain n t e1 e2 where s: "length s = 3 * n + length t" "s = take (3 * n) s @ t" "length t < 3"
    "encode_triplets n s = Some e1" "length e1 = 4 * n" "encode_tail t = Some e2"
    "grpc_chttp2_base64_encode s = Some (e1 @ e2)" "list_all (\<lambda>c. c \<noteq> 0x3d) (e1 @ e2)"
    using encode_split [of s] .
  then have e: "e = e1 @ e2" using assms by simp
  obtain e2' where e2': "encode_tail t = Some e2'" "length e2' = enc_tail_xtra ! length t" "all_valid e2'"
    "\<And>p. take (length t) [oct0 (e2' @ p), oct1 (e2' @ p)] = t" using encode_tail_ok [OF s(3)] by blast
  then have e2: "length e2 = enc_tail_xtra ! length t" "all_valid e2" "\<And>p. take (length t) [oct0 (e2 @ p), oct1 (e2 @ p)] = t"
    using s(6) by auto
  define p where "p = (4 - length e mod 4) mod 4"
  have len: "length e mod 4 \<noteq> 1" "length e + p = 4 * (n + (if t = [] then 0 else 1))" "p = (3 - length t) mod 3"
    using three_cases [OF s(3)] s(5) e e2(1) by (auto simp: p_def enc_tail_xtra_def)
  let ?pads = "replicate p (0x3d :: u8)"
  have pl: "padded_output_length (e @ ?pads) = length s"
    using encoded_padding [OF s(8) [folded e] len(1), folded p_def] s(1) len(2,3) three_cases [OF s(3)]
    by (cases "t = []") (auto simp: padded_output_length_padding)
  let ?c = "start_ctx junk (e @ ?pads) (length s) False"
  have at: "b64_at (e1 @ (e2 @ ?pads)) [] (3 * n + length t) False ?c" using b64_at_start s(1) e by simp
  from decode_blocks_encoded [OF s(4) _ at] s(1,3) obtain c1 where
    c1: "decode_blocks ?c = Some (True, c1)" "b64_at (e2 @ ?pads) (take (3 * n) s) (length t) False c1" by auto
  have "\<exists>c2. grpc_base64_decode_partial ?c = Some (True, c2) \<and> b64_at [] s 0 False c2"
  proof (cases "t = []")
    case True
    then have "e2 @ ?pads = []" using e2(1) len(3) by (simp add: enc_tail_xtra_def)
    then show ?thesis using True decode_partial_blocks [OF at c1] c1(2) s(2) by simp
  next
    case False
    let ?r = "e2 @ ?pads"
    have r: "length ?r = 4" "?r ! 3 = 0x3d" "length e2 = length t + 1"
      using False three_cases [OF s(3)] e2(1) len(3) by (auto simp: enc_tail_xtra_def nth_append)
    have "list_all (\<lambda>c. c \<noteq> 0x3d) e2" using s(8) by simp
    then have "?r ! 2 = 0x3d \<and> length t = 1 \<or> ?r ! 2 \<noteq> 0x3d \<and> length t = 2"
      using False three_cases [OF s(3)] r(3) len(3) by (auto simp: nth_append list_all_length)
    from decode_padded_at [OF c1(2) r(1,2) this]
    show ?thesis using decode_partial_blocks [OF at c1] r(1,3) e2(2) e2(3) [of ?pads] s(2) by (auto simp: all_valid_def)
  qed
  then obtain c2 where c2: "grpc_base64_decode_partial ?c = Some (True, c2)" "b64_at [] s 0 False c2" by blast
  have "length (e @ ?pads) mod 4 = 0" using len(2) by simp
  then show ?thesis unfolding p_def [symmetric] using c2(1) pl b64_at_done(1) [OF c2(2)] b64_at_done(2) [OF c2(2)]
    by (simp add: grpc_chttp2_base64_decode_def assert_c_def del: length_append)
qed

text \<open>
  C20: base64_round_trip: every octet string is encoded; from the characters without padding
  the decoder that is given a length gives the octets back, with the length inferred from the
  characters, and with the padding added to a multiple of four the plain decoder does.
\<close>

theorem base64_round_trip:
  "\<exists>e. grpc_chttp2_base64_encode s = Some e \<and>
       grpc_chttp2_base64_infer_length_after_decode e = length s \<and>
       grpc_chttp2_base64_decode_with_length junk e (length s) = Some s \<and>
       grpc_chttp2_base64_decode junk (e @ replicate ((4 - length e mod 4) mod 4) 0x3d) = Some s"
proof -
  obtain n t e1 e2 where s: "length s = 3 * n + length t" "s = take (3 * n) s @ t" "length t < 3"
    "encode_triplets n s = Some e1" "length e1 = 4 * n" "encode_tail t = Some e2"
    "grpc_chttp2_base64_encode s = Some (e1 @ e2)" "list_all (\<lambda>c. c \<noteq> 0x3d) (e1 @ e2)"
    using encode_split [of s] .
  have "length e2 = enc_tail_xtra ! length t" using encode_tail_ok [OF s(3)] s(6) by (metis option.inject)
  then have "grpc_chttp2_base64_infer_length_after_decode (e1 @ e2) = length s"
    using three_cases [OF s(3)] s(1,5) infer_plain [OF s(8)]
    by (auto simp: grpc_chttp2_base64_infer_length_after_decode_def enc_tail_xtra_def dec_tail_xtra_def Let_def)
  then show ?thesis using s(7) decode_with_length_encoded [OF s(7)] decode_padded_encoded [OF s(7)] by blast
qed

text \<open>
  C37: base64_decode_total: the decoder of padded input never reads or writes out of bounds and
  passes its assertions, whatever the input: it fails with the empty slice or gives the number of
  octets that the length and the padding promise.
\<close>

theorem base64_decode_total:
  "\<exists>out. grpc_chttp2_base64_decode junk s = Some out \<and> (out = [] \<or> length out = padded_output_length s)"
proof (cases "length s mod 4 = 0")
  case False
  then show ?thesis by (simp add: grpc_chttp2_base64_decode_def)
next
  case True
  then obtain k where k: "length s = 4 * k" by auto
  from decode_partial_padded [OF this, of junk] obtain ok c where
    c: "grpc_base64_decode_partial (start_ctx junk s (padded_output_length s) False) = Some (ok, c)"
    and w: "ok \<longrightarrow> (\<exists>w. b64_at [] w 0 False c \<and> length w = padded_output_length s)" by blast
  show ?thesis
  proof (cases ok)
    case False
    then show ?thesis using True c by (simp add: grpc_chttp2_base64_decode_def)
  next
    case ok: True
    then obtain w where "b64_at [] w 0 False c" "length w = padded_output_length s" using w by blast
    with b64_at_done(1) [OF this(1)] b64_at_done(2) [OF this(1)]
    show ?thesis using True c ok by (auto simp: grpc_chttp2_base64_decode_def assert_c_def)
  qed
qed

text \<open>
  base64_decode_with_length_unsafe: the decoder that is given a length relies on it. A length
  smaller than the input stands for makes it index the table of tails out of bounds or fail its
  assertion, and the inferred length of five characters and one padding character is such a length.
\<close>

theorem base64_decode_with_length_unsafe:
  "grpc_chttp2_base64_infer_length_after_decode [0x41, 0x41, 0x41, 0x41, 0x41, 0x3d] = 0 \<and>
   grpc_chttp2_base64_decode_with_length (\<lambda>i. 0) [0x41, 0x41, 0x41, 0x41, 0x41, 0x3d] 0 = None \<and>
   grpc_chttp2_base64_decode_with_length (\<lambda>i. 0) [0x41, 0x41, 0x41, 0x41] 1 = None \<and>
   grpc_chttp2_base64_decode_with_length (\<lambda>i. 0) [0x41, 0x41, 0x41, 0x41] 3 = Some [0, 0, 0]"
  by code_simp

end
