(* ===== verification/Grpc_Huffman.thy ===== *)
theory Grpc_Huffman
  imports Grpc_Base64
begin

text \<open>
  The Huffman code of HPACK (\<open>chttp2/transport/huffsyms.cc\<close>) and the two encoders that use it
  (\<open>bin_encoder.cc\<close>): \<open>grpc_chttp2_huffman_compress\<close>, and the fused base64 and Huffman encoder with
  its own table of the codes of the base64 characters.

  Both collect bits in a 32-bit word \<open>temp\<close> whose low \<open>temp_length\<close> bits are pending, and write an octet
  as long as more than eight bits are pending. The output is the list of the octets written; the
  assertions compare its length with the allocated one.
\<close>

section \<open>Tables\<close>

definition grpc_chttp2_huffsyms :: "(u32 \<times> nat) list" where
  "grpc_chttp2_huffsyms =
    [(0x1ff8, 13), (0x7fffd8, 23), (0xfffffe2, 28), (0xfffffe3, 28), (0xfffffe4, 28), (0xfffffe5, 28),
     (0xfffffe6, 28), (0xfffffe7, 28), (0xfffffe8, 28), (0xffffea, 24), (0x3ffffffc, 30), (0xfffffe9, 28),
     (0xfffffea, 28), (0x3ffffffd, 30), (0xfffffeb, 28), (0xfffffec, 28), (0xfffffed, 28), (0xfffffee, 28),
     (0xfffffef, 28), (0xffffff0, 28), (0xffffff1, 28), (0xffffff2, 28), (0x3ffffffe, 30), (0xffffff3, 28),
     (0xffffff4, 28), (0xffffff5, 28), (0xffffff6, 28), (0xffffff7, 28), (0xffffff8, 28), (0xffffff9, 28),
     (0xffffffa, 28), (0xffffffb, 28), (0x14, 6), (0x3f8, 10), (0x3f9, 10), (0xffa, 12),
     (0x1ff9, 13), (0x15, 6), (0xf8, 8), (0x7fa, 11), (0x3fa, 10), (0x3fb, 10),
     (0xf9, 8), (0x7fb, 11), (0xfa, 8), (0x16, 6), (0x17, 6), (0x18, 6),
     (0x0, 5), (0x1, 5), (0x2, 5), (0x19, 6), (0x1a, 6), (0x1b, 6),
     (0x1c, 6), (0x1d, 6), (0x1e, 6), (0x1f, 6), (0x5c, 7), (0xfb, 8),
     (0x7ffc, 15), (0x20, 6), (0xffb, 12), (0x3fc, 10), (0x1ffa, 13), (0x21, 6),
     (0x5d, 7), (0x5e, 7), (0x5f, 7), (0x60, 7), (0x61, 7), (0x62, 7),
     (0x63, 7), (0x64, 7), (0x65, 7), (0x66, 7), (0x67, 7), (0x68, 7),
     (0x69, 7), (0x6a, 7), (0x6b, 7), (0x6c, 7), (0x6d, 7), (0x6e, 7),
     (0x6f, 7), (0x70, 7), (0x71, 7), (0x72, 7), (0xfc, 8), (0x73, 7),
     (0xfd, 8), (0x1ffb, 13), (0x7fff0, 19), (0x1ffc, 13), (0x3ffc, 14), (0x22, 6),
     (0x7ffd, 15), (0x3, 5), (0x23, 6), (0x4, 5), (0x24, 6), (0x5, 5),
     (0x25, 6), (0x26, 6), (0x27, 6), (0x6, 5), (0x74, 7), (0x75, 7),
     (0x28, 6), (0x29, 6), (0x2a, 6), (0x7, 5), (0x2b, 6), (0x76, 7),
     (0x2c, 6), (0x8, 5), (0x9, 5), (0x2d, 6), (0x77, 7), (0x78, 7),
     (0x79, 7), (0x7a, 7), (0x7b, 7), (0x7ffe, 15), (0x7fc, 11), (0x3ffd, 14),
     (0x1ffd, 13), (0xffffffc, 28), (0xfffe6, 20), (0x3fffd2, 22), (0xfffe7, 20), (0xfffe8, 20),
     (0x3fffd3, 22), (0x3fffd4, 22), (0x3fffd5, 22), (0x7fffd9, 23), (0x3fffd6, 22), (0x7fffda, 23),
     (0x7fffdb, 23), (0x7fffdc, 23), (0x7fffdd, 23), (0x7fffde, 23), (0xffffeb, 24), (0x7fffdf, 23),
     (0xffffec, 24), (0xffffed, 24), (0x3fffd7, 22), (0x7fffe0, 23), (0xffffee, 24), (0x7fffe1, 23),
     (0x7fffe2, 23), (0x7fffe3, 23), (0x7fffe4, 23), (0x1fffdc, 21), (0x3fffd8, 22), (0x7fffe5, 23),
     (0x3fffd9, 22), (0x7fffe6, 23), (0x7fffe7, 23), (0xffffef, 24), (0x3fffda, 22), (0x1fffdd, 21),
     (0xfffe9, 20), (0x3fffdb, 22), (0x3fffdc, 22), (0x7fffe8, 23), (0x7fffe9, 23), (0x1fffde, 21),
     (0x7fffea, 23), (0x3fffdd, 22), (0x3fffde, 22), (0xfffff0, 24), (0x1fffdf, 21), (0x3fffdf, 22),
     (0x7fffeb, 23), (0x7fffec, 23), (0x1fffe0, 21), (0x1fffe1, 21), (0x3fffe0, 22), (0x1fffe2, 21),
     (0x7fffed, 23), (0x3fffe1, 22), (0x7fffee, 23), (0x7fffef, 23), (0xfffea, 20), (0x3fffe2, 22),
     (0x3fffe3, 22), (0x3fffe4, 22), (0x7ffff0, 23), (0x3fffe5, 22), (0x3fffe6, 22), (0x7ffff1, 23),
     (0x3ffffe0, 26), (0x3ffffe1, 26), (0xfffeb, 20), (0x7fff1, 19), (0x3fffe7, 22), (0x7ffff2, 23),
     (0x3fffe8, 22), (0x1ffffec, 25), (0x3ffffe2, 26), (0x3ffffe3, 26), (0x3ffffe4, 26), (0x7ffffde, 27),
     (0x7ffffdf, 27), (0x3ffffe5, 26), (0xfffff1, 24), (0x1ffffed, 25), (0x7fff2, 19), (0x1fffe3, 21),
     (0x3ffffe6, 26), (0x7ffffe0, 27), (0x7ffffe1, 27), (0x3ffffe7, 26), (0x7ffffe2, 27), (0xfffff2, 24),
     (0x1fffe4, 21), (0x1fffe5, 21), (0x3ffffe8, 26), (0x3ffffe9, 26), (0xffffffd, 28), (0x7ffffe3, 27),
     (0x7ffffe4, 27), (0x7ffffe5, 27), (0xfffec, 20), (0xfffff3, 24), (0xfffed, 20), (0x1fffe6, 21),
     (0x3fffe9, 22), (0x1fffe7, 21), (0x1fffe8, 21), (0x7ffff3, 23), (0x3fffea, 22), (0x3fffeb, 22),
     (0x1ffffee, 25), (0x1ffffef, 25), (0xfffff4, 24), (0xfffff5, 24), (0x3ffffea, 26), (0x7ffff4, 23),
     (0x3ffffeb, 26), (0x7ffffe6, 27), (0x3ffffec, 26), (0x3ffffed, 26), (0x7ffffe7, 27), (0x7ffffe8, 27),
     (0x7ffffe9, 27), (0x7ffffea, 27), (0x7ffffeb, 27), (0xffffffe, 28), (0x7ffffec, 27), (0x7ffffed, 27),
     (0x7ffffee, 27), (0x7ffffef, 27), (0x7fffff0, 27), (0x3ffffee, 26), (0x3fffffff, 30)]"

definition huff_alphabet :: "(u16 \<times> nat) list" where
  "huff_alphabet =
    [(0x21, 6), (0x5d, 7), (0x5e, 7), (0x5f, 7), (0x60, 7), (0x61, 7),
     (0x62, 7), (0x63, 7), (0x64, 7), (0x65, 7), (0x66, 7), (0x67, 7),
     (0x68, 7), (0x69, 7), (0x6a, 7), (0x6b, 7), (0x6c, 7), (0x6d, 7),
     (0x6e, 7), (0x6f, 7), (0x70, 7), (0x71, 7), (0x72, 7), (0xfc, 8),
     (0x73, 7), (0xfd, 8), (0x3, 5), (0x23, 6), (0x4, 5), (0x24, 6),
     (0x5, 5), (0x25, 6), (0x26, 6), (0x27, 6), (0x6, 5), (0x74, 7),
     (0x75, 7), (0x28, 6), (0x29, 6), (0x2a, 6), (0x7, 5), (0x2b, 6),
     (0x76, 7), (0x2c, 6), (0x8, 5), (0x9, 5), (0x2d, 6), (0x77, 7),
     (0x78, 7), (0x79, 7), (0x7a, 7), (0x7b, 7), (0x0, 5), (0x1, 5),
     (0x2, 5), (0x19, 6), (0x1a, 6), (0x1b, 6), (0x1c, 6), (0x1d, 6),
     (0x1e, 6), (0x1f, 6), (0x7fb, 11), (0x18, 6)]"

section \<open>Encoders\<close>

text \<open>\<open>struct huff_out\<close>, also the local variables of \<open>grpc_chttp2_huffman_compress\<close>.\<close>

record huff_out =
  temp :: u32
  temp_length :: nat
  out :: octets

definition huff_out_init :: huff_out where
  "huff_out_init = \<lparr>temp = 0, temp_length = 0, out = []\<rparr>"

function enc_flush_some :: "huff_out \<Rightarrow> huff_out" where
  "enc_flush_some h =
     (if temp_length h > 8
      then let l = temp_length h - 8
           in enc_flush_some (h\<lparr>temp_length := l, out := out h @ [ucast (drop_bit l (temp h))]\<rparr>)
      else h)"
  by pat_completeness auto

termination
  by (relation "measure temp_length") auto

declare enc_flush_some.simps [simp del]

text \<open>The last, partial octet is filled with ones.\<close>

definition put_rest :: "huff_out \<Rightarrow> huff_out" where
  "put_rest h =
     (if temp_length h \<noteq> 0
      then h\<lparr>out := out h @ [ucast (push_bit (8 - temp_length h) (temp h)) OR ucast (drop_bit (temp_length h) (0xff :: u32))]\<rparr>
      else h)"

fun count_bits :: "octets \<Rightarrow> nat option" where
  "count_bits [] = Some 0"
| "count_bits (c # ins) =
     do { (bits, len) \<leftarrow> fetch grpc_chttp2_huffsyms (unat c); n \<leftarrow> count_bits ins; Some (len + n) }"

fun compress_loop :: "octets \<Rightarrow> huff_out \<Rightarrow> huff_out option" where
  "compress_loop [] h = Some h"
| "compress_loop (c # ins) h =
     do { (bits, len) \<leftarrow> fetch grpc_chttp2_huffsyms (unat c);
          compress_loop ins (enc_flush_some (h\<lparr>temp := push_bit len (temp h) OR bits, temp_length := temp_length h + len\<rparr>)) }"

definition grpc_chttp2_huffman_compress :: "octets \<Rightarrow> octets option" where
  "grpc_chttp2_huffman_compress input =
     do { nbits \<leftarrow> count_bits input;
          h \<leftarrow> compress_loop input huff_out_init;
          let h = put_rest h;
          assert_c (length (out h) = nbits div 8 + (if nbits mod 8 \<noteq> 0 then 1 else 0));
          Some (out h) }"

definition enc_add2 :: "huff_out \<Rightarrow> u8 \<Rightarrow> u8 \<Rightarrow> huff_out option" where
  "enc_add2 h a b =
     do { (abits, alen) \<leftarrow> fetch huff_alphabet (unat a);
          (bbits, blen) \<leftarrow> fetch huff_alphabet (unat b);
          Some (enc_flush_some
                 (h\<lparr>temp := push_bit (alen + blen) (temp h) OR push_bit blen (ucast abits) OR ucast bbits,
                    temp_length := temp_length h + (alen + blen)\<rparr>)) }"

definition enc_add1 :: "huff_out \<Rightarrow> u8 \<Rightarrow> huff_out option" where
  "enc_add1 h a =
     do { (bits, len) \<leftarrow> fetch huff_alphabet (unat a);
          Some (enc_flush_some (h\<lparr>temp := push_bit len (temp h) OR ucast bits, temp_length := temp_length h + len\<rparr>)) }"

fun fused_triplets :: "nat \<Rightarrow> octets \<Rightarrow> huff_out \<Rightarrow> huff_out option" where
  "fused_triplets 0 ins h = Some h"
| "fused_triplets (Suc n) (a # b # c # ins) h =
     do { h \<leftarrow> enc_add2 h (drop_bit 2 a) (push_bit 4 (a AND 0x3) OR drop_bit 4 b);
          h \<leftarrow> enc_add2 h (push_bit 2 (b AND 0xf) OR drop_bit 6 c) (c AND 0x3f);
          fused_triplets n ins h }"
| "fused_triplets (Suc n) _ h = None"

fun fused_tail :: "octets \<Rightarrow> huff_out \<Rightarrow> huff_out option" where
  "fused_tail [] h = Some h"
| "fused_tail [a] h = enc_add2 h (drop_bit 2 a) (push_bit 4 (a AND 0x3))"
| "fused_tail [a, b] h =
     do { h \<leftarrow> enc_add2 h (drop_bit 2 a) (push_bit 4 (a AND 0x3) OR drop_bit 4 b);
          enc_add1 h (push_bit 2 (b AND 0xf)) }"
| "fused_tail _ h = None"

definition grpc_chttp2_base64_encode_and_huffman_compress :: "octets \<Rightarrow> octets option" where
  "grpc_chttp2_base64_encode_and_huffman_compress input =
     do { let input_triplets = length input div 3;
          let tail_case = length input mod 3;
          let output_syms = input_triplets * 4 + enc_tail_xtra ! tail_case;
          let max_output_bits = 11 * output_syms;
          let max_output_length = max_output_bits div 8 + (if max_output_bits mod 8 \<noteq> 0 then 1 else 0);
          h \<leftarrow> fused_triplets input_triplets input huff_out_init;
          h \<leftarrow> fused_tail (drop (3 * input_triplets) input) h;
          let h = put_rest h;
          assert_c (length (out h) \<le> max_output_length);
          Some (out h) }"

section \<open>Bit strings\<close>

text \<open>The low \<open>n\<close> bits of a word, the highest first.\<close>

definition bits :: "nat \<Rightarrow> 'a::len word \<Rightarrow> bool list" where
  "bits n w = map (bit w) (rev [0..<n])"

lemma length_bits [simp]: "length (bits n w) = n"
  by (simp add: bits_def)

lemma bits_0 [simp]: "bits 0 w = []"
  by (simp add: bits_def)

lemma nth_bits: "i < n \<Longrightarrow> bits n w ! i = bit w (n - 1 - i)"
  by (simp add: bits_def rev_nth)

definition octet_bits :: "octets \<Rightarrow> bool list" where
  "octet_bits xs = concat (map (bits 8) xs)"

lemma octet_bits_simps [simp]:
  "octet_bits [] = []" "octet_bits (x # xs) = bits 8 x @ octet_bits xs" "octet_bits (xs @ ys) = octet_bits xs @ octet_bits ys"
  by (simp_all add: octet_bits_def)

lemma length_octet_bits [simp]: "length (octet_bits xs) = 8 * length xs"
  by (induction xs) auto

lemma bits_8_inj: "bits 8 v = bits 8 w \<Longrightarrow> v = (w :: u8)"
proof (rule bit_word_eqI)
  fix n assume e: "bits 8 v = bits 8 w" and "n < LENGTH(8)"
  then have "bits 8 v ! (7 - n) = bits 8 w ! (7 - n)" "7 - n < 8" by auto
  then show "bit v n = bit w n" using \<open>n < LENGTH(8)\<close> by (simp add: nth_bits)
qed

lemma octet_bits_inj: "octet_bits xs = octet_bits ys \<Longrightarrow> xs = ys"
proof (induction xs arbitrary: ys)
  case Nil
  then show ?case by (cases ys) (auto simp: bits_def)
next
  case (Cons x xs)
  have "length (octet_bits (x # xs)) = length (octet_bits ys)" using Cons.prems by simp
  then obtain y zs where "ys = y # zs" by (cases ys) auto
  then show ?case using Cons bits_8_inj by auto
qed

text \<open>Shifting in a code, taking the highest octet, and filling with ones.\<close>

lemma bits_shift_in:
  fixes t c :: u32
  assumes "l + n \<le> 32" "take_bit n c = c"
  shows "bits (l + n) (push_bit n t OR c) = bits l t @ bits n c"
proof (rule nth_equalityI)
  fix i assume i: "i < length (bits (l + n) (push_bit n t OR c))"
  have c: "\<not> bit c k" if "n \<le> k" for k
    using assms(2) that by (metis bit_take_bit_iff not_le)
  show "bits (l + n) (push_bit n t OR c) ! i = (bits l t @ bits n c) ! i"
    using i assms(1) by (auto simp: nth_bits nth_append bit_simps c add.commute)
qed simp

lemma bits_take_octet:
  fixes t :: u32
  assumes "8 \<le> n"
  shows "bits n t = bits 8 (ucast (drop_bit (n - 8) t) :: u8) @ bits (n - 8) t"
proof (rule nth_equalityI)
  fix i assume "i < length (bits n t)"
  then show "bits n t ! i = (bits 8 (ucast (drop_bit (n - 8) t) :: u8) @ bits (n - 8) t) ! i"
    using assms by (auto simp: nth_bits nth_append bit_simps intro: arg_cong [of _ _ "bit t"])
qed (use assms in simp)

lemma ones_bit: "bit (ucast (drop_bit n (0xff :: u32)) :: u8) i \<longleftrightarrow> n + i < 8"
proof -
  have m: "(0xff :: u32) = mask 8" by (simp add: mask_eq_exp_minus_1)
  have b: "bit (mask 8 :: u32) k \<longleftrightarrow> k < 8" for k
    by (auto simp only: bit_mask_iff possible_bit_word) auto
  show ?thesis unfolding m by (simp only: bit_unsigned_iff bit_drop_bit_eq b possible_bit_word o_def) auto
qed

lemma bits_fill:
  fixes t :: u32
  assumes "0 < n" "n \<le> 8"
  shows "bits 8 (ucast (push_bit (8 - n) t) OR ucast (drop_bit n (0xff :: u32)) :: u8) = bits n t @ replicate (8 - n) True"
proof (rule nth_equalityI)
  define v where "v = (ucast (drop_bit n (0xff :: u32)) :: u8)"
  have v: "bit v k \<longleftrightarrow> n + k < 8" for k unfolding v_def by (rule ones_bit)
  fix i assume "i < length (bits 8 (ucast (push_bit (8 - n) t) OR ucast (drop_bit n (0xff :: u32)) :: u8))"
  then show "bits 8 (ucast (push_bit (8 - n) t) OR ucast (drop_bit n (0xff :: u32)) :: u8) ! i = (bits n t @ replicate (8 - n) True) ! i"
    unfolding v_def [symmetric] using assms by (auto simp: nth_bits nth_append bit_or_iff v bit_simps)
qed (use assms in simp)

section \<open>The bits written\<close>

text \<open>\<open>holds_bits bs h\<close>: what has been written and the pending bits are \<open>bs\<close>.\<close>

definition holds_bits :: "bool list \<Rightarrow> huff_out \<Rightarrow> bool" where
  "holds_bits bs h \<longleftrightarrow> octet_bits (out h) @ bits (temp_length h) (temp h) = bs"

lemma enc_flush_some_length:
  "temp_length (enc_flush_some h) \<le> 8 \<and> (temp_length h \<noteq> 0 \<longrightarrow> temp_length (enc_flush_some h) \<noteq> 0) \<and>
   8 * length (out (enc_flush_some h)) + temp_length (enc_flush_some h) = 8 * length (out h) + temp_length h"
proof (induction h rule: enc_flush_some.induct)
  case (1 h)
  then show ?case by (subst (1 2 3 4) enc_flush_some.simps) (auto simp: Let_def)
qed

lemma enc_flush_some_holds: "holds_bits bs (enc_flush_some h) \<longleftrightarrow> holds_bits bs h"
proof (induction h rule: enc_flush_some.induct)
  case (1 h)
  show ?case
  proof (cases "temp_length h > 8")
    case True
    then show ?thesis using 1 [OF True refl] bits_take_octet [of "temp_length h" "temp h"]
      by (subst enc_flush_some.simps) (simp add: holds_bits_def Let_def)
  next
    case False
    then show ?thesis by (subst enc_flush_some.simps) simp
  qed
qed

definition pad_ones :: "bool list \<Rightarrow> bool list" where
  "pad_ones bs = bs @ replicate ((8 - length bs mod 8) mod 8) True"

lemma put_rest_bits:
  assumes "holds_bits bs h" "temp_length h \<le> 8" 
  shows "octet_bits (out (put_rest h)) = pad_ones bs"
proof -
  have "length bs = 8 * length (out h) + temp_length h" using assms(1) by (auto simp: holds_bits_def)
  then have m: "length bs mod 8 = temp_length h mod 8" by simp
  show ?thesis
  proof (cases "temp_length h = 0")
    case True
    then show ?thesis using assms(1) m by (simp add: put_rest_def holds_bits_def pad_ones_def)
  next
    case False
    then have "(8 - temp_length h mod 8) mod 8 = 8 - temp_length h" using assms(2) by (cases "temp_length h = 8") auto
    then show ?thesis using False assms m bits_fill [of "temp_length h" "temp h"]
      by (simp add: put_rest_def pad_ones_def holds_bits_def)
  qed
qed

section \<open>The code\<close>

definition code_length :: "u8 \<Rightarrow> nat" where
  "code_length c = snd (grpc_chttp2_huffsyms ! unat c)"

definition code :: "u8 \<Rightarrow> bool list" where
  "code c = bits (code_length c) (fst (grpc_chttp2_huffsyms ! unat c))"

definition code_bits :: "octets \<Rightarrow> bool list" where
  "code_bits s = concat (map code s)"

lemma code_bits_simps [simp]:
  "code_bits [] = []" "code_bits (c # s) = code c @ code_bits s" "code_bits (s @ t) = code_bits s @ code_bits t"
  by (simp_all add: code_bits_def)

lemma length_code [simp]: "length (code c) = code_length c"
  by (simp add: code_def)

lemma length_code_bits: "length (code_bits s) = (\<Sum>c\<leftarrow>s. code_length c)"
  by (induction s) auto

lemma length_huffsyms [simp]: "length grpc_chttp2_huffsyms = 257"
  by code_simp

lemma unat_octet: "unat (c :: u8) < 256"
  using unat_lt_exp [of c] by simp

lemma huffsyms_all:
  assumes "list_all P grpc_chttp2_huffsyms"
  shows "P (grpc_chttp2_huffsyms ! unat (c :: u8))"
  using assms unat_octet [of c] by (simp add: list_all_length)

lemma code_range: "5 \<le> code_length c" "code_length c \<le> 30"
    "take_bit (code_length c) (fst (grpc_chttp2_huffsyms ! unat c)) = fst (grpc_chttp2_huffsyms ! unat c)"
proof -
  have "list_all (\<lambda>(b, l). 5 \<le> l \<and> l \<le> 30 \<and> take_bit l b = b) grpc_chttp2_huffsyms"
    by code_simp
  from huffsyms_all [OF this, of c] show "5 \<le> code_length c" "code_length c \<le> 30"
    "take_bit (code_length c) (fst (grpc_chttp2_huffsyms ! unat c)) = fst (grpc_chttp2_huffsyms ! unat c)"
    by (auto simp: code_length_def split: prod.splits)
qed

lemma fetch_code: "fetch grpc_chttp2_huffsyms (unat (c :: u8)) = Some (fst (grpc_chttp2_huffsyms ! unat c), code_length c)"
  using unat_octet [of c] by (simp add: code_length_def)

lemma count_bits_code: "count_bits s = Some (length (code_bits s))"
  by (induction s) (simp_all add: fetch_code)

text \<open>One symbol: the lengths always add up, the bits when the word has room for them.\<close>

lemma compress_loop_length:
  assumes "temp_length h \<le> 8"
  shows "\<exists>h'. compress_loop s h = Some h' \<and> temp_length h' \<le> 8 \<and>
    8 * length (out h') + temp_length h' = 8 * length (out h) + temp_length h + length (code_bits s)"
  using assms
proof (induction s arbitrary: h)
  case (Cons c s)
  define h1 where "h1 = h\<lparr>temp := push_bit (code_length c) (temp h) OR fst (grpc_chttp2_huffsyms ! unat c),
    temp_length := temp_length h + code_length c\<rparr>"
  have "8 * length (out h1) + temp_length h1 = 8 * length (out h) + temp_length h + code_length c" by (simp add: h1_def)
  with Cons.IH [of "enc_flush_some h1"] enc_flush_some_length [of h1] show ?case
    by (simp add: fetch_code h1_def [symmetric]) auto
qed simp

lemma compress_loop_holds:
  assumes "holds_bits bs h" "temp_length h \<le> 8" "list_all (\<lambda>c. code_length c \<le> 24) s" "compress_loop s h = Some h'"
  shows "holds_bits (bs @ code_bits s) h'"
  using assms
proof (induction s arbitrary: h bs)
  case (Cons c s)
  define h1 where "h1 = h\<lparr>temp := push_bit (code_length c) (temp h) OR fst (grpc_chttp2_huffsyms ! unat c),
    temp_length := temp_length h + code_length c\<rparr>"
  have "temp_length h + code_length c \<le> 32" using Cons.prems(2,3) by simp
  then have "holds_bits (bs @ code c) h1"
    using Cons.prems(1) bits_shift_in [OF _ code_range(3)] by (simp add: h1_def holds_bits_def code_def)
  then have "holds_bits (bs @ code c) (enc_flush_some h1)" by (simp add: enc_flush_some_holds)
  from Cons.IH [OF this] enc_flush_some_length [of h1] Cons.prems(3,4) show ?case
    by (simp add: fetch_code h1_def)
qed simp

lemma holds_bits_init: "holds_bits [] huff_out_init" "temp_length huff_out_init = 0" "out huff_out_init = []"
  by (simp_all add: holds_bits_def huff_out_init_def)

lemma octets_needed:
  "8 * n + l = m \<Longrightarrow> l \<le> (8::nat) \<Longrightarrow> m div 8 + (if m mod 8 \<noteq> 0 then 1 else 0) = n + (if l \<noteq> 0 then 1 else 0)"
  by (cases "l = 8") auto

lemma huffman_compress_result:
  obtains h where "compress_loop s huff_out_init = Some h" "temp_length h \<le> 8"
    "grpc_chttp2_huffman_compress s = Some (out (put_rest h))"
proof -
  from compress_loop_length [of huff_out_init s] obtain h where
    h: "compress_loop s huff_out_init = Some h" "temp_length h \<le> 8" "8 * length (out h) + temp_length h = length (code_bits s)"
    by (auto simp: holds_bits_init)
  have "length (out (put_rest h)) = length (out h) + (if temp_length h \<noteq> 0 then 1 else 0)" by (simp add: put_rest_def)
  then have "grpc_chttp2_huffman_compress s = Some (out (put_rest h))"
    using h(1) octets_needed [OF h(3,2)]
    by (simp add: grpc_chttp2_huffman_compress_def count_bits_code assert_c_def Let_def)
  then show thesis using that h by blast
qed

lemma huffman_compress_code:
  assumes "list_all (\<lambda>c. code_length c \<le> 24) s"
  shows "\<exists>os. grpc_chttp2_huffman_compress s = Some os \<and> octet_bits os = pad_ones (code_bits s)"
proof -
  obtain h where h: "compress_loop s huff_out_init = Some h" "temp_length h \<le> 8"
    "grpc_chttp2_huffman_compress s = Some (out (put_rest h))" by (rule huffman_compress_result)
  from compress_loop_holds [OF holds_bits_init(1) _ assms h(1)] have "holds_bits (code_bits s) h" by (simp add: holds_bits_init)
  then show ?thesis using put_rest_bits [OF _ h(2)] h(3) by blast
qed

section \<open>The code is prefix free\<close>

text \<open>The number a bit string stands for.\<close>

definition val :: "bool list \<Rightarrow> nat" where
  "val bs = horner_sum of_bool 2 (rev bs)"

lemma val_append: "val (xs @ ys) = val ys + 2 ^ length ys * val xs"
  by (simp add: val_def horner_sum_append)

lemma val_less: "val bs < 2 ^ length bs"
proof -
  have "int (val bs) < 2 ^ length (rev bs)"
    using horner_sum_of_bool_2_less [of "rev bs"] by (simp add: val_def horner_sum_eq_sum)
  then show ?thesis by (metis length_rev of_nat_less_iff of_nat_numeral of_nat_power)
qed

lemma val_bits: "val (bits n w) = unat (take_bit n w)"
proof -
  have e: "map (bit w) [0..<n] = map (bit (unat w)) [0..<n]"
    by (auto simp: bit_unsigned_iff dest: bit_imp_le_length)
  show ?thesis unfolding val_def bits_def rev_map rev_rev_ident e horner_sum_bit_eq_take_bit
    by (simp add: unsigned_take_bit_eq)
qed

lemma val_code: "val (code c) = unat (fst (grpc_chttp2_huffsyms ! unat c))"
  by (simp add: code_def val_bits code_range(3))

text \<open>
  A code of length \<open>l\<close> and value \<open>v\<close> covers the interval of the 30-bit numbers that begin with it.
\<close>

definition interval :: "u32 \<times> nat \<Rightarrow> int \<times> int" where
  "interval e = (case e of (b, l) \<Rightarrow> (uint b * 2 ^ (30 - l), (uint b + 1) * 2 ^ (30 - l)))"

fun chained :: "(int \<times> int) list \<Rightarrow> bool" where
  "chained (x # y # xs) \<longleftrightarrow> fst x < snd x \<and> snd x \<le> fst y \<and> chained (y # xs)"
| "chained [x] \<longleftrightarrow> fst x < snd x"
| "chained [] \<longleftrightarrow> True"

lemma chained_before: "chained (x # xs) \<Longrightarrow> y \<in> set xs \<Longrightarrow> snd x \<le> fst y"
proof (induction xs arbitrary: x)
  case (Cons z xs)
  then show ?case by (cases xs) fastforce+
qed simp

lemma chained_Cons: "chained (x # xs) \<Longrightarrow> chained xs \<and> fst x < snd x"
  by (cases xs) auto

lemma chained_distinct: "chained xs \<Longrightarrow> distinct xs"
proof (induction xs)
  case (Cons x xs)
  then show ?case using chained_Cons [OF Cons.prems] chained_before [OF Cons.prems, of x] by auto
qed simp

lemma chained_disjoint:
  "chained xs \<Longrightarrow> x \<in> set xs \<Longrightarrow> y \<in> set xs \<Longrightarrow> x = y \<or> snd x \<le> fst y \<or> snd y \<le> fst x"
proof (induction xs)
  case (Cons z xs)
  have "chained xs" using chained_Cons [OF Cons.prems(1)] by simp
  then show ?case using Cons.IH Cons.prems(2,3) chained_before [OF Cons.prems(1)]
    by (metis set_ConsD)
qed simp

text \<open>The code words in the order of their intervals.\<close>

fun merge :: "(int \<times> 'a) list \<Rightarrow> (int \<times> 'a) list \<Rightarrow> (int \<times> 'a) list" where
  "merge (x # xs) (y # ys) = (if fst x \<le> fst y then x # merge xs (y # ys) else y # merge (x # xs) ys)"
| "merge [] ys = ys"
| "merge xs [] = xs"

fun merge_pairs :: "(int \<times> 'a) list list \<Rightarrow> (int \<times> 'a) list list" where
  "merge_pairs (xs # ys # xss) = merge xs ys # merge_pairs xss"
| "merge_pairs xss = xss"

lemma set_merge: "set (merge xs ys) = set xs \<union> set ys" "length (merge xs ys) = length xs + length ys"
  by (induction xs ys rule: merge.induct) auto

lemma concat_merge_pairs:
  "set (concat (merge_pairs xss)) = set (concat xss)" "length (concat (merge_pairs xss)) = length (concat xss)"
  by (induction xss rule: merge_pairs.induct) (auto simp: set_merge)

definition in_order :: "(int \<times> int) list" where
  "in_order = concat ((merge_pairs ^^ 9) (map (\<lambda>e. [interval e]) grpc_chttp2_huffsyms))"

lemma in_order_intervals: "set in_order = interval ` set grpc_chttp2_huffsyms" "length in_order = 257"
proof -
  have s: "set (concat ((merge_pairs ^^ n) xss)) = set (concat xss) \<and> length (concat ((merge_pairs ^^ n) xss)) = length (concat xss)"
    for n and xss :: "(int \<times> int) list list" by (induction n) (simp_all add: concat_merge_pairs del: set_concat)
  show "set in_order = interval ` set grpc_chttp2_huffsyms" "length in_order = 257"
    using s [of 9 "map (\<lambda>e. [interval e]) grpc_chttp2_huffsyms"] by (auto simp: in_order_def length_concat o_def sum_list_triv)
qed

lemma in_order_chained: "chained in_order"
  by code_simp

definition code_interval :: "u8 \<Rightarrow> int \<times> int" where
  "code_interval c = interval (grpc_chttp2_huffsyms ! unat c)"

lemma code_interval_val:
  "code_interval c = (int (val (code c)) * 2 ^ (30 - code_length c), (int (val (code c)) + 1) * 2 ^ (30 - code_length c))"
  by (simp add: code_interval_def interval_def val_code code_length_def split: prod.split)

lemma code_intervals_disjoint:
  assumes "c \<noteq> d"
  shows "snd (code_interval c) \<le> fst (code_interval d) \<or> snd (code_interval d) \<le> fst (code_interval c)"
proof -
  let ?t = grpc_chttp2_huffsyms
  have "card (set (map interval ?t)) = length (map interval ?t)"
    using distinct_card [OF chained_distinct [OF in_order_chained]] in_order_intervals by simp
  then have "distinct (map interval ?t)" by (rule card_distinct)
  then have "code_interval c \<noteq> code_interval d"
    using assms unat_octet [of c] unat_octet [of d] by (simp add: code_interval_def distinct_conv_nth [of "map interval ?t"])
  moreover have "code_interval c \<in> set in_order" "code_interval d \<in> set in_order"
    using unat_octet [of c] unat_octet [of d] by (auto simp: in_order_intervals code_interval_def)
  ultimately show ?thesis using chained_disjoint [OF in_order_chained] by blast
qed

lemma code_prefix_free:
  assumes "code d = code c @ r"
  shows "c = d"
proof (rule ccontr)
  assume n: "c \<noteq> d"
  define K where "K = (2::int) ^ (30 - code_length d)"
  define R where "R = (2::int) ^ length r"
  have l: "code_length d = code_length c + length r" using assms by (metis length_append length_code)
  have v: "int (val (code d)) = int (val r) + R * int (val (code c))" by (simp add: assms val_append R_def)
  have "int (val r) < int (2 ^ length r)" using val_less [of r] by (simp only: of_nat_less_iff)
  moreover have "int (2 ^ length r) = R" by (simp add: R_def)
  ultimately have vr: "int (val r) + 1 \<le> R" by linarith
  have "30 - code_length c = (30 - code_length d) + length r" using l code_range(2) [of d] by simp
  then have KR: "2 ^ (30 - code_length c) = K * R" by (simp add: K_def R_def power_add)
  have K: "0 < K" by (simp add: K_def)
  have "int (val r) * K + K \<le> R * K" using mult_right_mono [OF vr, of K] K by (simp add: algebra_simps)
  then have "int (val (code d)) * K < (int (val (code c)) + 1) * (K * R)" using K vr unfolding v by (simp add: algebra_simps)
  moreover have "int (val (code c)) * (K * R) < (int (val (code d)) + 1) * K"
    using K mult_nonneg_nonneg [of "int (val r)" K] unfolding v by (simp add: algebra_simps add_pos_nonneg)
  ultimately have "fst (code_interval d) < snd (code_interval c)" "fst (code_interval c) < snd (code_interval d)"
    by (simp_all add: code_interval_val KR K_def)
  then show False using code_intervals_disjoint [OF n] by simp
qed

lemma code_split:
  assumes "code c @ xs = code d @ ys"
  shows "c = d \<and> xs = ys"
proof -
  from assms obtain us where "code c = code d @ us \<or> code d = code c @ us" by (metis append_eq_append_conv2)
  then have "c = d" using code_prefix_free by blast
  then show ?thesis using assms by simp
qed

text \<open>No code of less than eight bits consists of ones.\<close>

lemma short_code: "code_length c < 8 \<Longrightarrow> \<not> list_all (\<lambda>b. b) (code c)"
proof
  assume l: "code_length c < 8" and "list_all (\<lambda>b. b) (code c)"
  then have "code c = replicate (code_length c) True" by (metis (full_types) length_code list_all_iff replicate_eqI)
  then have "val (code c) = val (replicate (code_length c) True)" by simp
  also have "val (replicate n True) = 2 ^ n - 1" for n
    by (induction n) (simp_all add: val_append [of "[True]", simplified] val_def horner_sum_append)
  finally have v: "unat (fst (grpc_chttp2_huffsyms ! unat c)) = 2 ^ code_length c - 1" by (simp add: val_code)
  have "int (unat (fst (grpc_chttp2_huffsyms ! unat c))) = 2 ^ code_length c - 1" unfolding v by (simp add: of_nat_diff)
  then have u: "uint (fst (grpc_chttp2_huffsyms ! unat c)) = 2 ^ code_length c - 1" by simp
  have "list_all (\<lambda>(b, l). l < 8 \<longrightarrow> uint b \<noteq> 2 ^ l - 1) grpc_chttp2_huffsyms" by code_simp
  from huffsyms_all [OF this, of c] l u show False
    by (simp add: code_length_def split_def)
qed

lemma code_bits_inj:
  assumes "code_bits s @ p = code_bits t @ q" "length p < 8" "length q < 8" "list_all (\<lambda>b. b) p" "list_all (\<lambda>b. b) q"
  shows "s = t"
  using assms(1)
proof (induction s arbitrary: t)
  case Nil
  have False if "p = code c @ r" for c r
  proof -
    have "list_all (\<lambda>b. b) (code c)" "code_length c < 8" using that assms(2,4) by (auto simp: list_all_iff)
    then show False using short_code by blast
  qed
  then show ?case using Nil by (cases t) auto
next
  case (Cons c s)
  have False if "code c @ r = q" for r
  proof -
    have "list_all (\<lambda>b. b) (code c)" "code_length c < 8" using that [symmetric] assms(3,5) by (auto simp: list_all_iff)
    then show False using short_code by blast
  qed
  then obtain d t' where t: "t = d # t'" using Cons.prems by (cases t) auto
  then have "code c @ (code_bits s @ p) = code d @ (code_bits t' @ q)" using Cons.prems by simp
  from code_split [OF this] Cons.IH [of t'] t show ?case by blast
qed

section \<open>The fused encoder\<close>

lemma alphabet_codes:
  assumes "unat i < 64"
  shows "fetch huff_alphabet (unat i) = Some (fst (huff_alphabet ! unat i), code_length (sym i))"
    "ucast (fst (huff_alphabet ! unat i)) = fst (grpc_chttp2_huffsyms ! unat (sym i))" "code_length (sym i) \<le> 11"
proof -
  have len: "length huff_alphabet = 64" by code_simp
  have "list_all2 (\<lambda>(b, l) c. case grpc_chttp2_huffsyms ! unat c of (b', l') \<Rightarrow> ucast b = b' \<and> l = l' \<and> l \<le> 11) huff_alphabet alphabet"
    by code_simp
  then have "case (huff_alphabet ! unat i, alphabet ! unat i) of ((b, l), c) \<Rightarrow>
      case grpc_chttp2_huffsyms ! unat c of (b', l') \<Rightarrow> ucast b = b' \<and> l = l' \<and> l \<le> 11"
    using assms len by (auto simp: list_all2_conv_all_nth)
  then show "fetch huff_alphabet (unat i) = Some (fst (huff_alphabet ! unat i), code_length (sym i))"
    "ucast (fst (huff_alphabet ! unat i)) = fst (grpc_chttp2_huffsyms ! unat (sym i))" "code_length (sym i) \<le> 11"
    using assms len by (simp_all add: code_length_def sym_def split_def prod_eq_iff)
qed

lemma enc_add1_holds:
  assumes "holds_bits bs h" "temp_length h \<le> 8" "unat a < 64"
  shows "\<exists>h'. enc_add1 h a = Some h' \<and> holds_bits (bs @ code (sym a)) h' \<and> temp_length h' \<le> 8"
proof -
  have "temp_length h + code_length (sym a) \<le> 32" using assms(2) alphabet_codes(3) [OF assms(3)] by simp
  then show ?thesis using assms(1) bits_shift_in [OF _ code_range(3)] enc_flush_some_length
    by (auto simp: enc_add1_def alphabet_codes [OF assms(3)] enc_flush_some_holds) (simp add: holds_bits_def code_def)
qed

lemma enc_add2_holds:
  assumes "holds_bits bs h" "temp_length h \<le> 8" "unat a < 64" "unat b < 64"
  shows "\<exists>h'. enc_add2 h a b = Some h' \<and> holds_bits (bs @ code (sym a) @ code (sym b)) h' \<and> temp_length h' \<le> 8"
proof -
  let ?la = "code_length (sym a)" and ?lb = "code_length (sym b)"
  let ?ca = "fst (grpc_chttp2_huffsyms ! unat (sym a))" and ?cb = "fst (grpc_chttp2_huffsyms ! unat (sym b))"
  have l: "temp_length h + ?la + ?lb \<le> 32" "temp_length h + ?la \<le> 32"
    using assms(2) alphabet_codes(3) [OF assms(3)] alphabet_codes(3) [OF assms(4)] by simp_all
  have p: "push_bit (?la + ?lb) (temp h) OR push_bit ?lb ?ca OR ?cb = push_bit ?lb (push_bit ?la (temp h) OR ?ca) OR ?cb"
    by (simp add: push_bit_or add.commute or.assoc)
  have "bits (temp_length h + ?la + ?lb) (push_bit (?la + ?lb) (temp h) OR push_bit ?lb ?ca OR ?cb) =
      bits (temp_length h) (temp h) @ code (sym a) @ code (sym b)"
    unfolding p bits_shift_in [OF l(1) code_range(3)] bits_shift_in [OF l(2) code_range(3)]
    by (simp add: code_def)
  then show ?thesis using assms(1) enc_flush_some_length
    by (auto simp: enc_add2_def alphabet_codes [OF assms(3)] alphabet_codes [OF assms(4)] enc_flush_some_holds)
      (simp add: holds_bits_def add.assoc [symmetric])
qed

lemma fused_triplets_holds:
  assumes "holds_bits bs h" "temp_length h \<le> 8" "3 * n \<le> length ins" "encode_triplets n ins = Some e"
  shows "\<exists>h'. fused_triplets n ins h = Some h' \<and> holds_bits (bs @ code_bits e) h' \<and> temp_length h' \<le> 8"
  using assms
proof (induction n arbitrary: ins bs h e)
  case (Suc n)
  from take_drop_triplet [OF Suc.prems(3)] obtain a b c ins' where ins: "ins = a # b # c # ins'" "3 * n \<le> length ins'"
    by blast
  with Suc.prems(4) obtain e' where e: "encode_triplets n ins' = Some e'"
      "e = sym (six1 a) # sym (six2 a b) # sym (six3 b c) # sym (six4 c) # e'"
    by (auto simp: encode_triplets_six simp del: encode_triplets.simps(2) split: bind_splits)
  obtain h1 where h1: "enc_add2 h (six1 a) (six2 a b) = Some h1" "holds_bits (bs @ code (sym (six1 a)) @ code (sym (six2 a b))) h1"
      "temp_length h1 \<le> 8"
    using enc_add2_holds [OF Suc.prems(1,2) six_below(1,2)] by blast
  obtain h2 where h2: "enc_add2 h1 (six3 b c) (six4 c) = Some h2"
      "holds_bits ((bs @ code (sym (six1 a)) @ code (sym (six2 a b))) @ code (sym (six3 b c)) @ code (sym (six4 c))) h2" "temp_length h2 \<le> 8"
    using enc_add2_holds [OF h1(2,3) six_below(3,4)] by blast
  have "fused_triplets (Suc n) ins h = fused_triplets n ins' h2"
    using h1(1) h2(1) unfolding ins(1) fused_triplets.simps six_defs by simp
  then show ?case using Suc.IH [OF h2(2,3) ins(2) e(1)] by (simp add: e(2))
qed auto

lemma fused_tail_six:
  "fused_tail [a] h = enc_add2 h (six1 a) (six2 a 0)"
  "fused_tail [a, b] h = do { h \<leftarrow> enc_add2 h (six1 a) (six2 a b); enc_add1 h (six3 b 0) }"
proof -
  show "fused_tail [a] h = enc_add2 h (six1 a) (six2 a 0)"
    unfolding fused_tail.simps six_tails six1_def [symmetric] ..
  show "fused_tail [a, b] h = do { h \<leftarrow> enc_add2 h (six1 a) (six2 a b); enc_add1 h (six3 b 0) }"
    unfolding fused_tail.simps six1_def [symmetric] six2_def [symmetric] six_tails(2) ..
qed

lemma fused_tail_holds:
  assumes "holds_bits bs h" "temp_length h \<le> 8" "length t < 3" "encode_tail t = Some e"
  shows "\<exists>h'. fused_tail t h = Some h' \<and> holds_bits (bs @ code_bits e) h' \<and> temp_length h' \<le> 8"
  using assms(3)
proof (cases rule: encode_tail_cases)
  case 1
  then show ?thesis using assms by simp
next
  case (2 a)
  then have "e = [sym (six1 a), sym (six2 a 0)]" using assms(4) by (simp add: encode_tail_six del: encode_tail.simps)
  then show ?thesis using enc_add2_holds [OF assms(1,2) six_below(1) [of a] six_below(2) [of a 0]]
    by (simp add: 2 fused_tail_six del: fused_tail.simps)
next
  case (3 a b)
  then have e: "e = [sym (six1 a), sym (six2 a b), sym (six3 b 0)]" using assms(4) by (simp add: encode_tail_six del: encode_tail.simps)
  obtain h1 where h1: "enc_add2 h (six1 a) (six2 a b) = Some h1" "holds_bits (bs @ code (sym (six1 a)) @ code (sym (six2 a b))) h1"
      "temp_length h1 \<le> 8"
    using enc_add2_holds [OF assms(1,2) six_below(1,2)] by blast
  then show ?thesis using enc_add1_holds [OF h1(2,3) six_below(3) [of b 0]]
    by (simp add: 3 e fused_tail_six del: fused_tail.simps)
qed

lemma fill_octets:
  "r < 8 \<Longrightarrow> (8 * q + r) + (8 - r) mod 8 = 8 * (q + (if r \<noteq> 0 then 1 else 0))" for q r :: nat
  by (cases "r = 0") simp_all

lemma length_pad_ones: "length (pad_ones bs) = 8 * (length bs div 8 + (if length bs mod 8 \<noteq> 0 then 1 else 0))"
proof -
  have "length bs mod 8 < 8" by simp
  from fill_octets [OF this, of "length bs div 8"] show ?thesis by (simp only: mult_div_mod_eq pad_ones_def length_append length_replicate)
qed

lemma octets_mono: "m \<le> n \<Longrightarrow> m div 8 + (if m mod 8 \<noteq> 0 then 1 else 0) \<le> n div (8::nat) + (if n mod 8 \<noteq> 0 then 1 else 0)"
proof -
  have c: "m div 8 + (if m mod 8 \<noteq> 0 then 1 else 0) = (m + 7) div 8" for m :: nat by presburger
  assume "m \<le> n"
  then show ?thesis unfolding c by (intro div_le_mono) simp
qed


lemma encode_triplets_symbols:
  "encode_triplets n ins = Some e \<Longrightarrow> 3 * n \<le> length ins \<Longrightarrow> list_all (\<lambda>c. code_length c \<le> 11) e"
proof (induction n arbitrary: ins e)
  case (Suc n)
  from take_drop_triplet [OF Suc.prems(2)] obtain a b c t where "ins = a # b # c # t" "3 * n \<le> length t" by blast
  then show ?case using Suc
    by (auto simp: encode_triplets_six alphabet_codes(3) six_below simp del: encode_triplets.simps(2) split: bind_splits)
qed auto

lemma encode_tail_symbols:
  assumes "encode_tail t = Some e" "length t < 3"
  shows "list_all (\<lambda>c. code_length c \<le> 11) e"
  using assms(2)
proof (cases rule: encode_tail_cases)
  case 2 then show ?thesis using assms(1)
    by (auto simp: encode_tail_six alphabet_codes(3) six_below simp del: encode_tail.simps)
next
  case 3 then show ?thesis using assms(1)
    by (auto simp: encode_tail_six alphabet_codes(3) six_below simp del: encode_tail.simps)
qed (use assms in simp)

lemma code_bits_at_most:
  assumes "list_all (\<lambda>c. code_length c \<le> k) s"
  shows "length (code_bits s) \<le> k * length s"
  using assms by (induction s) auto

section \<open>Results\<close>

text \<open>
  huffman_bits: every input is compressed without a failed assertion, and unless a symbol with
  a code of more than 24 bits occurs the output is the sequence of the codes, filled up with ones.
\<close>

theorem huffman_bits:
  "\<exists>os. grpc_chttp2_huffman_compress s = Some os \<and>
        (list_all (\<lambda>c. code_length c \<le> 24) s \<longrightarrow> octet_bits os = pad_ones (code_bits s))"
proof -
  obtain os where "grpc_chttp2_huffman_compress s = Some os" using huffman_compress_result [of s] by blast
  then show ?thesis using huffman_compress_code [of s] by auto
qed

theorem huffman_bits_witness:
  "\<exists>os. grpc_chttp2_huffman_compress [0x77, 0x77, 0x77] = Some os \<and> octet_bits os = pad_ones (code_bits [0x77, 0x77, 0x77])"
proof -
  have "list_all (\<lambda>c. code_length c \<le> 24) [0x77, 0x77, 0x77]" by code_simp
  then show ?thesis using huffman_bits [of "[0x77, 0x77, 0x77]"] by blast
qed

text \<open>
  huffman_injective: the compression loses nothing: the code is prefix free and the filling
  cannot be taken for a symbol.
\<close>

theorem huffman_injective:
  assumes "list_all (\<lambda>c. code_length c \<le> 24) s" "list_all (\<lambda>c. code_length c \<le> 24) t"
    and "grpc_chttp2_huffman_compress s = grpc_chttp2_huffman_compress t"
  shows "s = t"
proof -
  have "pad_ones (code_bits s) = pad_ones (code_bits t)"
    using huffman_compress_code [OF assms(1)] huffman_compress_code [OF assms(2)] assms(3) by auto
  then show ?thesis unfolding pad_ones_def
    by (rule code_bits_inj) (simp_all add: list_all_iff)
qed

theorem huffman_injective_witness:
  "grpc_chttp2_huffman_compress [0x30] \<noteq> grpc_chttp2_huffman_compress [0x30, 0x31]"
proof
  assume e: "grpc_chttp2_huffman_compress [0x30] = grpc_chttp2_huffman_compress [0x30, 0x31]"
  have "list_all (\<lambda>c. code_length c \<le> 24) [0x30]" "list_all (\<lambda>c. code_length c \<le> 24) [0x30, 0x31]" by code_simp+
  from huffman_injective [OF this e] show False by simp
qed







lemma fused_compress:
  "grpc_chttp2_base64_encode_and_huffman_compress s =
     do { e \<leftarrow> grpc_chttp2_base64_encode s; grpc_chttp2_huffman_compress e }"
proof -
  obtain n t e1 e2 where s: "length s = 3 * n + length t" "s = take (3 * n) s @ t" "length t < 3"
    "encode_triplets n s = Some e1" "length e1 = 4 * n" "encode_tail t = Some e2"
    "grpc_chttp2_base64_encode s = Some (e1 @ e2)" "list_all (\<lambda>c. c \<noteq> 0x3d) (e1 @ e2)"
    using encode_split [of s] .
  have n: "3 * n \<le> length s" "length s div 3 = n" "length s mod 3 = length t" "drop (3 * n) s = t" 
    using s(1,3) arg_cong [OF s(2), of "drop (3 * n)"] by simp_all
  obtain h1 where h1: "fused_triplets n s huff_out_init = Some h1" "holds_bits (code_bits e1) h1" "temp_length h1 \<le> 8"
    using fused_triplets_holds [OF holds_bits_init(1) _ n(1) s(4)] by (auto simp: holds_bits_init)
  obtain h2 where h2: "fused_tail t h1 = Some h2" "holds_bits (code_bits (e1 @ e2)) h2" "temp_length h2 \<le> 8"
    using fused_tail_holds [OF h1(2,3) s(3,6)] by auto
  have bits: "octet_bits (out (put_rest h2)) = pad_ones (code_bits (e1 @ e2))" by (rule put_rest_bits [OF h2(2,3)])
  have c: "list_all (\<lambda>c. code_length c \<le> 11) (e1 @ e2)"
    using encode_triplets_symbols [OF s(4) n(1)] encode_tail_symbols [OF s(6,3)] by simp
  then have "list_all (\<lambda>c. code_length c \<le> 24) (e1 @ e2)" by (rule list.pred_mono_strong) simp
  then have z: "grpc_chttp2_huffman_compress (e1 @ e2) = Some (out (put_rest h2))"
    using huffman_compress_code bits octet_bits_inj by metis
  have "8 * length (out (put_rest h2)) = length (pad_ones (code_bits (e1 @ e2)))" using bits by (metis length_octet_bits)
  then have "length (out (put_rest h2)) = (let m = length (code_bits (e1 @ e2)) in m div 8 + (if m mod 8 \<noteq> 0 then 1 else 0))"
    by (simp add: length_pad_ones Let_def)
  moreover have "length e2 = enc_tail_xtra ! length t" using encode_tail_ok [OF s(3)] s(6) by (metis option.inject)
  then have "length (code_bits (e1 @ e2)) \<le> 11 * (n * 4 + enc_tail_xtra ! length t)"
    using code_bits_at_most [OF c] s(5) by simp
  from octets_mono [OF this] have
    "length (out (put_rest h2)) \<le> (let m = 11 * (n * 4 + enc_tail_xtra ! length t) in m div 8 + (if m mod 8 \<noteq> 0 then 1 else 0))"
    using calculation by (simp add: Let_def)
  then have "grpc_chttp2_base64_encode_and_huffman_compress s = Some (out (put_rest h2))"
    using h1(1) h2(1) by (simp add: grpc_chttp2_base64_encode_and_huffman_compress_def n Let_def assert_c_def)
  then show ?thesis using s(7) z by simp
qed

text \<open>
  C21: huffman_fused: the fused encoder gives what the Huffman encoder gives for the base64 text.
\<close>

theorem huffman_fused:
  "grpc_chttp2_base64_encode_and_huffman_compress s =
     do { e \<leftarrow> grpc_chttp2_base64_encode s; grpc_chttp2_huffman_compress e }"
  by (rule fused_compress)

end
