(* ===== verification/Grpc_Hpack_Input.thy ===== *)
theory Grpc_Hpack_Input
  imports Grpc_Base
begin

text \<open>
  The integers of HPACK, written by \<open>varint.cc\<close> and \<open>varint.h\<close>, and the input of the HPACK parser
  (\<open>HPackParser::Input\<close> in \<open>hpack_parser.cc\<close>), which reads them.

  The input is a buffer with positions in it instead of pointers; an error handle is a constructor
  with the values of its message. \<open>absl::optional\<close> results are options, in a pair with the new input; a
  write outside the target is \<open>None\<close>.
\<close>

section \<open>Writing\<close>

definition MaxInVarintPrefix :: "nat \<Rightarrow> u32" where
  "MaxInVarintPrefix prefix_bits = push_bit (8 - prefix_bits) 1 - 1"

definition VarintLength :: "u32 \<Rightarrow> nat" where
  "VarintLength tail_value =
     (if tail_value < push_bit 7 1 then 2
      else if tail_value < push_bit 14 1 then 3
      else if tail_value < push_bit 21 1 then 4
      else if tail_value < push_bit 28 1 then 5
      else 6)"

text \<open>The \<open>case\<close> with the label \<open>k\<close> falls through to the ones below it.\<close>

definition write_septet :: "nat \<Rightarrow> nat \<Rightarrow> u32 \<Rightarrow> octets \<Rightarrow> octets option" where
  "write_septet tail_length k tail_value target =
     (if k \<le> tail_length \<and> tail_length \<le> 5
      then store target (k - 1) (ucast (drop_bit (7 * (k - 1)) tail_value) OR 0x80)
      else Some target)"

definition VarintWriteTail :: "u32 \<Rightarrow> octets \<Rightarrow> nat \<Rightarrow> octets option" where
  "VarintWriteTail tail_value target tail_length =
     do { target \<leftarrow> write_septet tail_length 5 tail_value target;
          target \<leftarrow> write_septet tail_length 4 tail_value target;
          target \<leftarrow> write_septet tail_length 3 tail_value target;
          target \<leftarrow> write_septet tail_length 2 tail_value target;
          target \<leftarrow> write_septet tail_length 1 tail_value target;
          assert_c (tail_length > 0);
          c \<leftarrow> fetch target (tail_length - 1);
          store target (tail_length - 1) (c AND 0x7f) }"

definition varint_writer_length :: "nat \<Rightarrow> u32 \<Rightarrow> nat" where
  "varint_writer_length kPrefixBits value =
     (if value < MaxInVarintPrefix kPrefixBits then 1 else VarintLength (value - MaxInVarintPrefix kPrefixBits))"

definition VarintWriter_Write :: "nat \<Rightarrow> u32 \<Rightarrow> u8 \<Rightarrow> octets \<Rightarrow> octets option" where
  "VarintWriter_Write kPrefixBits value prefix target =
     (let len = varint_writer_length kPrefixBits value
      in if len = 1 then store target 0 (prefix OR ucast value)
         else do { target \<leftarrow> store target 0 (prefix OR ucast (MaxInVarintPrefix kPrefixBits));
                   tail \<leftarrow> VarintWriteTail (value - MaxInVarintPrefix kPrefixBits) (drop 1 target) (len - 1);
                   Some (take 1 target @ tail) })"

section \<open>The input\<close>

datatype hpack_error =
    Varint_overflow u32 u8
  | Illegal_base64
  | Illegal_op_code
  | Too_many_size_changes
  | Table_size_too_large u32
  | Table_size_not_reflected
  | Invalid_index u32 u32
  | Size_limit_exceeded
  | Incomplete_header

record hpack_input =
  in_bytes :: octets
  in_begin :: nat
  in_frontier :: nat
  in_error :: "hpack_error option"
  in_eof :: bool

definition Input :: "octets \<Rightarrow> hpack_input" where
  "Input bytes = \<lparr>in_bytes = bytes, in_begin = 0, in_frontier = 0, in_error = None, in_eof = False\<rparr>"

definition end_of_stream :: "hpack_input \<Rightarrow> bool" where
  "end_of_stream i \<longleftrightarrow> in_begin i = length (in_bytes i)"

definition remaining :: "hpack_input \<Rightarrow> nat" where
  "remaining i = length (in_bytes i) - in_begin i"

definition Advance :: "nat \<Rightarrow> hpack_input \<Rightarrow> hpack_input" where
  "Advance n i = i\<lparr>in_begin := in_begin i + n\<rparr>"

definition peek :: "hpack_input \<Rightarrow> u8 option" where
  "peek i = (if end_of_stream i then None else Some (in_bytes i ! in_begin i))"

definition UnexpectedEOF :: "hpack_input \<Rightarrow> hpack_input" where
  "UnexpectedEOF i = (if in_error i \<noteq> None then i else i\<lparr>in_eof := True\<rparr>)"

definition MaybeSetError :: "hpack_error \<Rightarrow> hpack_input \<Rightarrow> hpack_input" where
  "MaybeSetError e i =
     (if in_error i \<noteq> None \<or> in_eof i then i else i\<lparr>in_error := Some e, in_begin := length (in_bytes i)\<rparr>)"

definition Next :: "hpack_input \<Rightarrow> u8 option \<times> hpack_input" where
  "Next i = (if end_of_stream i then (None, UnexpectedEOF i) else (Some (in_bytes i ! in_begin i), Advance 1 i))"

definition UpdateFrontier :: "hpack_input \<Rightarrow> hpack_input" where
  "UpdateFrontier i = i\<lparr>in_frontier := in_begin i\<rparr>"

section \<open>Reading\<close>

definition ParseVarintOutOfRange :: "u32 \<Rightarrow> u8 \<Rightarrow> hpack_input \<Rightarrow> u32 option \<times> hpack_input" where
  "ParseVarintOutOfRange value last_byte i = (None, MaybeSetError (Varint_overflow value last_byte) i)"

text \<open>The loop over the bytes \<open>0x80\<close>; out of the input it cannot run.\<close>

function skip_continuation :: "hpack_input \<Rightarrow> u8 option \<times> hpack_input" where
  "skip_continuation i =
     (if in_begin i > length (in_bytes i) then (None, i)
      else case Next i of (None, i') \<Rightarrow> (None, i')
           | (Some c, i') \<Rightarrow> if c = 0x80 then skip_continuation i' else (Some c, i'))"
  by pat_completeness auto

termination
  by (relation "measure (\<lambda>i. length (in_bytes i) - in_begin i)")
    (auto simp: Next_def Advance_def end_of_stream_def split: if_splits)

declare skip_continuation.simps [simp del]

definition varint_fifth :: "u32 \<Rightarrow> hpack_input \<Rightarrow> u32 option \<times> hpack_input" where
  "varint_fifth value i =
     (case Next i of (None, i) \<Rightarrow> (None, i)
      | (Some cur, i) \<Rightarrow>
          let c = ucast cur AND 0x7f in
          if c > 0xf then ParseVarintOutOfRange value cur i
          else let add = push_bit 28 c in
               if add > 0xffffffff - value then ParseVarintOutOfRange value cur i
               else let value = value + add in
                    if cur AND 0x80 = 0 then (Some value, i)
                    else case skip_continuation i of (None, i) \<Rightarrow> (None, i)
                         | (Some cur, i) \<Rightarrow> if cur = 0 then (Some value, i) else ParseVarintOutOfRange value cur i)"

text \<open>The bytes before the fifth, which cannot overflow.\<close>

definition varint_byte :: "nat \<Rightarrow> (u32 \<Rightarrow> hpack_input \<Rightarrow> u32 option \<times> hpack_input) \<Rightarrow>
    u32 \<Rightarrow> hpack_input \<Rightarrow> u32 option \<times> hpack_input" where
  "varint_byte shift go_on value i =
     (case Next i of (None, i) \<Rightarrow> (None, i)
      | (Some cur, i) \<Rightarrow>
          let value = value + push_bit shift (ucast cur AND 0x7f) in
          if cur AND 0x80 = 0 then (Some value, i) else go_on value i)"

definition ParseVarint :: "u32 \<Rightarrow> hpack_input \<Rightarrow> u32 option \<times> hpack_input" where
  "ParseVarint = varint_byte 0 (varint_byte 7 (varint_byte 14 (varint_byte 21 varint_fifth)))"

record string_prefix =
  pfx_length :: u32
  pfx_huff :: bool

definition ParseStringPrefix :: "hpack_input \<Rightarrow> string_prefix option \<times> hpack_input" where
  "ParseStringPrefix i =
     (case Next i of (None, i) \<Rightarrow> (None, i)
      | (Some cur, i) \<Rightarrow>
          let huff = (cur AND 0x80 \<noteq> 0); strlen = ucast cur AND 0x7f in
          if strlen = 0x7f
          then (case ParseVarint 0x7f i of (None, i) \<Rightarrow> (None, i)
                | (Some v, i) \<Rightarrow> (Some \<lparr>pfx_length = v, pfx_huff = huff\<rparr>, i))
          else (Some \<lparr>pfx_length = strlen, pfx_huff = huff\<rparr>, i))"

section \<open>Reading is exact\<close>

text \<open>What is left of the input, an input without an error so far, and a failed one.\<close>

definition rest_of :: "hpack_input \<Rightarrow> octets" where
  "rest_of i = drop (in_begin i) (in_bytes i)"

definition fresh :: "hpack_input \<Rightarrow> bool" where
  "fresh i \<longleftrightarrow> in_error i = None \<and> \<not> in_eof i \<and> in_begin i \<le> length (in_bytes i)"

lemma Next_Cons:
  assumes "rest_of i = c # r"
  shows "Next i = (Some c, Advance 1 i)" "rest_of (Advance 1 i) = r"
proof -
  have l: "in_begin i < length (in_bytes i)" using assms by (simp add: rest_of_def) (metis drop_all linorder_not_less list.distinct(1))
  then have "in_bytes i ! in_begin i # drop (Suc (in_begin i)) (in_bytes i) = c # r"
    using assms by (simp add: rest_of_def Cons_nth_drop_Suc)
  then show "Next i = (Some c, Advance 1 i)" "rest_of (Advance 1 i) = r"
    using l by (auto simp: Next_def end_of_stream_def Advance_def rest_of_def)
qed

lemma Next_Nil: "fresh i \<Longrightarrow> rest_of i = [] \<Longrightarrow> Next i = (None, i\<lparr>in_eof := True\<rparr>)"
  by (auto simp: Next_def end_of_stream_def rest_of_def fresh_def UnexpectedEOF_def)

lemma fresh_Advance: "fresh i \<Longrightarrow> rest_of i = c # r \<Longrightarrow> fresh (Advance 1 i)"
  by (auto simp: fresh_def rest_of_def Advance_def) (metis drop_all linorder_not_less list.distinct(1) Suc_leI)

lemma Advance_add [simp]: "Advance m (Advance n i) = Advance (m + n) i"
  by (simp add: Advance_def add.commute add.left_commute)

text \<open>The number that septets stand for, the lowest first, and whether the last one ends it.\<close>

fun septets_nat :: "octets \<Rightarrow> nat" where
  "septets_nat [] = 0"
| "septets_nat (c # cs) = unat (c AND 0x7f) + 128 * septets_nat cs"

fun terminated :: "octets \<Rightarrow> bool" where
  "terminated [] \<longleftrightarrow> False"
| "terminated [c] \<longleftrightarrow> c AND 0x80 = 0"
| "terminated (c # cs) \<longleftrightarrow> c AND 0x80 \<noteq> 0 \<and> terminated cs"

lemma terminated_Cons: "terminated (c # cs) \<longleftrightarrow> (if cs = [] then c AND 0x80 = 0 else c AND 0x80 \<noteq> 0 \<and> terminated cs)"
  by (cases cs) auto

text \<open>
  The result of reading \<open>n\<close> bytes that stand for \<open>tot\<close>: the number when it has 32 bits, else an error.
\<close>

definition varint_result :: "nat \<Rightarrow> nat \<Rightarrow> hpack_input \<Rightarrow> u32 option \<times> hpack_input \<Rightarrow> bool" where
  "varint_result tot n i r \<longleftrightarrow>
     (if tot < 2 ^ 32 then r = (Some (of_nat tot), Advance n i)
      else fst r = None \<and> (\<exists>v c. in_error (snd r) = Some (Varint_overflow v c)))"

definition reads :: "nat \<Rightarrow> (u32 \<Rightarrow> hpack_input \<Rightarrow> u32 option \<times> hpack_input) \<Rightarrow> bool" where
  "reads shift f \<longleftrightarrow> (\<forall>n0 i cs r. unat n0 < 2 ^ shift + 127 \<longrightarrow> fresh i \<longrightarrow> rest_of i = cs @ r \<longrightarrow> terminated cs \<longrightarrow>
     varint_result (unat n0 + 2 ^ shift * septets_nat cs) (length cs) i (f n0 i))"

lemma septet_mask: "c AND 0x7f = take_bit 7 c" for c :: "'a::len word"
  by (simp add: take_bit_eq_mask mask_eq_exp_minus_1)

lemma septet_bounds: "unat (c AND 0x7f :: u8) < 128"
proof -
  have "unat (c AND 0x7f) = take_bit 7 (unat c)" by (simp add: septet_mask unsigned_take_bit_eq)
  then show ?thesis using take_bit_nat_less_exp [of 7 "unat c"] by simp
qed

lemma ucast_septet: "unat (ucast c AND 0x7f :: u32) = unat (c AND 0x7f :: u8)"
proof -
  have "unat (ucast c :: u32) = unat c" using unat_lt_exp [of c] by (simp add: unsigned_ucast_eq take_bit_nat_eq_self)
  then show ?thesis by (simp add: septet_mask unsigned_take_bit_eq)
qed

lemma unat_push_bit_below:
  fixes m :: "'a::len word"
  assumes "2 ^ k * unat m < 2 ^ LENGTH('a)"
  shows "unat (push_bit k m) = 2 ^ k * unat m"
proof -
  have "push_bit k m = of_nat (2 ^ k * unat m)" by (simp add: push_bit_eq_mult mult.commute)
  then show ?thesis using unat_of_nat_id [OF assms] by simp
qed

lemma reads_byte:
  assumes f: "reads (shift + 7) f" and shift: "shift \<le> 21"
  shows "reads shift (varint_byte shift f)"
  unfolding reads_def
proof (intro allI impI)
  fix n0 :: u32 and i cs r
  assume v: "unat n0 < 2 ^ shift + 127" and i: "fresh i" "rest_of i = cs @ r" and t: "terminated cs"
  then obtain c ds where cs: "cs = c # ds" by (cases cs) auto
  let ?c = "unat (c AND 0x7f)"
  let ?v = "n0 + push_bit shift (ucast c AND 0x7f)"
  have n: "Next i = (Some c, Advance 1 i)" "rest_of (Advance 1 i) = ds @ r" "fresh (Advance 1 i)"
    using Next_Cons [of i c "ds @ r"] fresh_Advance [OF i(1), of c "ds @ r"] i(2) cs by auto
  have "(2::nat) ^ shift \<le> 2 ^ 21" using shift by (intro power_increasing) simp_all
  then have s21: "(2::nat) ^ shift \<le> 2097152" by simp
  have c: "2 ^ shift * ?c \<le> 2 ^ shift * 127" using septet_bounds [of c] by (intro mult_left_mono) simp_all
  have "2 ^ shift * ?c < 4294967296" using c s21 by linarith
  then have p: "unat (push_bit shift (ucast c AND 0x7f :: u32)) = 2 ^ shift * ?c"
    using unat_push_bit_below [of shift "ucast c AND 0x7f :: u32"] by (simp only: ucast_septet) simp
  have "unat n0 + 2 ^ shift * ?c < 4294967296" using v c s21 by linarith
  then have u: "unat ?v = unat n0 + 2 ^ shift * ?c"
    using p unat_add_below [of n0 "push_bit shift (ucast c AND 0x7f)"] by simp
  have pow7: "(2::nat) ^ (shift + 7) = 2 ^ shift * 128" by (simp add: power_add)
  have vb: "unat ?v < 2 ^ (shift + 7) + 127" using v c pow7 unfolding u by linarith
  show "varint_result (unat n0 + 2 ^ shift * septets_nat cs) (length cs) i (varint_byte shift f n0 i)"
  proof (cases "ds = []")
    case True
    have "unat ?v < 2 ^ 32" by (rule order.strict_trans2 [OF unat_lt_exp]) simp
    then show ?thesis using t n(1) u by (simp add: cs True varint_byte_def varint_result_def Let_def flip: u)
  next
    case False
    then have "varint_byte shift f n0 i = f ?v (Advance 1 i)" "terminated ds"
      using t n(1) by (auto simp: cs terminated_Cons varint_byte_def Let_def)
    moreover have "varint_result (unat ?v + 2 ^ (shift + 7) * septets_nat ds) (length ds) (Advance 1 i) (f ?v (Advance 1 i))"
      using f vb n(2,3) \<open>terminated ds\<close> unfolding reads_def by blast
    ultimately show ?thesis using u by (simp add: cs varint_result_def power_add algebra_simps)
  qed
qed

lemma octet_halves: "c AND 0x7f = 0 \<Longrightarrow> c = 0 \<or> c = 0x80" for c :: u8
proof -
  assume "c AND 0x7f = 0"
  then have "unat (c AND 0x7f) = 0" by simp
  moreover have "unat (c AND 0x7f) = take_bit 7 (unat c)" by (simp only: septet_mask unsigned_take_bit_eq)
  moreover have "take_bit 7 (unat c) = unat c mod 128" by (simp add: take_bit_eq_mod)
  moreover have "unat c < 256" using unat_lt_exp [of c] by simp
  ultimately have "unat c mod 128 = 0" "unat c < 256" by simp_all
  then obtain k where k: "unat c = 128 * k" by (auto elim: dvdE)
  with \<open>unat c < 256\<close> have "k = 0 \<or> k = 1" by auto
  then show "c = 0 \<or> c = 0x80" using k unat_eq_imp [of c 128] by (auto simp: unat_eq_0)
qed

lemma skip_continuation_terminated:
  assumes "fresh i" "rest_of i = ds @ r" "terminated ds"
  shows "\<exists>c i'. skip_continuation i = (Some c, i') \<and> fresh i' \<and>
    (if septets_nat ds = 0 then c = 0 \<and> i' = Advance (length ds) i else c \<noteq> 0)"
  using assms
proof (induction ds arbitrary: i)
  case (Cons c ds)
  have n: "Next i = (Some c, Advance 1 i)" "rest_of (Advance 1 i) = ds @ r" "fresh (Advance 1 i)" "\<not> in_begin i > length (in_bytes i)"
    using Next_Cons [of i c "ds @ r"] fresh_Advance [OF Cons.prems(1), of c "ds @ r"] Cons.prems(1,2) by (auto simp: fresh_def)
  have s: "skip_continuation i = (if c = 0x80 then skip_continuation (Advance 1 i) else (Some c, Advance 1 i))"
    using n by (subst skip_continuation.simps) simp
  show ?case
  proof (cases "ds = []")
    case True
    then have c: "c AND 0x80 = 0" using Cons.prems(3) by simp
    then have "c \<noteq> 0x80" by auto
    moreover have "c = 0 \<longleftrightarrow> unat (c AND 0x7f) = 0" using octet_halves [of c] c by (auto simp: unat_eq_0)
    ultimately show ?thesis using s n(3) True by auto
  next
    case False
    then have t: "c AND 0x80 \<noteq> 0" "terminated ds" using Cons.prems(3) by (auto simp: terminated_Cons)
    show ?thesis
    proof (cases "c = 0x80")
      case True
      from Cons.IH [OF n(3,2) t(2)] obtain b i' where "skip_continuation (Advance 1 i) = (Some b, i')" "fresh i'"
        "if septets_nat ds = 0 then b = 0 \<and> i' = Advance (length ds) (Advance 1 i) else b \<noteq> 0" by blast
      then show ?thesis using s True by (auto split: if_splits)
    next
      case c: False
      then have "c \<noteq> 0" "unat (c AND 0x7f) \<noteq> 0" using t(1) octet_halves [of c] by (auto simp: unat_eq_0)
      then show ?thesis using s n(3) c by auto
    qed
  qed
qed simp

lemma out_of_range: "fresh i \<Longrightarrow> 2 ^ 32 \<le> tot \<Longrightarrow> varint_result tot n j (ParseVarintOutOfRange v c i)"
  by (auto simp: varint_result_def ParseVarintOutOfRange_def MaybeSetError_def fresh_def)

lemma reads_fifth: "reads 28 varint_fifth"
  unfolding reads_def
proof (intro allI impI)
  fix n0 :: u32 and i cs r
  assume v: "unat n0 < 2 ^ 28 + 127" and i: "fresh i" "rest_of i = cs @ r" and t: "terminated cs"
  then obtain c ds where cs: "cs = c # ds" by (cases cs) auto
  let ?c = "unat (c AND 0x7f)" and ?w = "ucast c AND 0x7f :: u32"
  let ?tot = "unat n0 + 2 ^ 28 * septets_nat cs"
  have n: "Next i = (Some c, Advance 1 i)" "rest_of (Advance 1 i) = ds @ r" "fresh (Advance 1 i)"
    using Next_Cons [of i c "ds @ r"] fresh_Advance [OF i(1), of c "ds @ r"] i(2) cs by auto
  have tot: "?tot = unat n0 + 2 ^ 28 * ?c + 2 ^ 35 * septets_nat ds" by (simp add: cs)
  show "varint_result ?tot (length cs) i (varint_fifth n0 i)"
  proof (cases "?w > 0xf")
    case True
    then have "?c > 15" by (simp only: word_less_nat_alt ucast_septet) simp
    then show ?thesis using out_of_range [OF n(3), of ?tot] tot True n(1) by (simp add: varint_fifth_def Let_def)
  next
    case False
    then have c: "?c \<le> 15" by (simp only: word_less_nat_alt ucast_septet) simp
    then have add: "unat (push_bit 28 ?w) = 2 ^ 28 * ?c"
      using unat_push_bit_below [of 28 ?w] unfolding ucast_septet by simp
    have "unat (0xffffffff - n0) = 0xffffffff - unat n0" using v by (simp add: unat_sub word_le_nat_alt)
    then have over: "push_bit 28 ?w > 0xffffffff - n0 \<longleftrightarrow> unat n0 + 2 ^ 28 * ?c \<ge> 2 ^ 32"
      unfolding word_less_nat_alt add using v by auto
    show ?thesis
    proof (cases "push_bit 28 ?w > 0xffffffff - n0")
      case True
      then show ?thesis using out_of_range [OF n(3), of ?tot] tot over False n(1) by (simp add: varint_fifth_def Let_def)
    next
      case le: False
      then have u: "unat (n0 + push_bit 28 ?w) = unat n0 + 2 ^ 28 * ?c" "unat n0 + 2 ^ 28 * ?c < 2 ^ 32"
        using over unat_add_below [of n0 "push_bit 28 ?w"] add by simp_all
      note e = unat_eq_imp [OF u(1)]
      show ?thesis
      proof (cases "ds = []")
        case True
        then have "varint_fifth n0 i = (Some (n0 + push_bit 28 ?w), Advance 1 i)"
          using False le n(1) t by (simp add: varint_fifth_def Let_def cs)
        then show ?thesis using u(2) True unfolding varint_result_def tot e by (simp add: cs)
      next
        case ds: False
        then have d: "terminated ds" "c AND 0x80 \<noteq> 0" using t by (auto simp: cs terminated_Cons)
        from skip_continuation_terminated [OF n(3,2) d(1)] obtain b i' where
          b: "skip_continuation (Advance 1 i) = (Some b, i')" "fresh i'"
            "if septets_nat ds = 0 then b = 0 \<and> i' = Advance (length ds) (Advance 1 i) else b \<noteq> 0" by blast
        have f: "varint_fifth n0 i = (if b = 0 then (Some (n0 + push_bit 28 ?w), i') else ParseVarintOutOfRange (n0 + push_bit 28 ?w) b i')"
          using False le n(1) d(2) b(1) by (simp add: varint_fifth_def Let_def)
        show ?thesis
        proof (cases "septets_nat ds = 0")
          case True
          then show ?thesis using f b(3) u(2) unfolding varint_result_def tot e by (simp add: cs)
        next
          case nz: False
          then have "2 ^ 32 \<le> ?tot" unfolding tot by simp
          then show ?thesis using f b(3) nz out_of_range [OF b(2)] by simp
        qed
      qed
    qed
  qed
qed

lemma reads_ParseVarint: "reads 0 ParseVarint"
  unfolding ParseVarint_def
  using reads_byte [of 0] reads_byte [of 7] reads_byte [of 14] reads_byte [of 21] reads_fifth by simp

section \<open>Writing is inverse\<close>

definition septet :: "u32 \<Rightarrow> nat \<Rightarrow> u8" where
  "septet v j = ucast (drop_bit (7 * j) v)"

lemma unat_septet: "unat (septet v j AND 0x7f) = unat v div 128 ^ j mod 128"
proof -
  have "unat (septet v j AND 0x7f) = take_bit 7 (take_bit 8 (drop_bit (7 * j) (unat v)))"
    by (simp add: septet_def septet_mask unsigned_take_bit_eq unsigned_ucast_eq unsigned_drop_bit_eq take_bit_nat_eq_self unat_lt_exp [where 'a = 32, simplified])
  also have "\<dots> = unat v div 128 ^ j mod 128"
    by (simp add: take_bit_eq_mod drop_bit_eq_div power_mult mod_mod_cancel)
  finally show ?thesis .
qed

lemma septets_of_number:
  assumes "\<And>k. k < length cs \<Longrightarrow> unat (cs ! k AND 0x7f) = V div 128 ^ (j + k) mod 128" "V < 128 ^ (j + length cs)"
  shows "septets_nat cs = V div 128 ^ j"
  using assms
proof (induction cs arbitrary: j)
  case (Cons c cs)
  have c: "unat (c AND 0x7f) = V div 128 ^ j mod 128" using Cons.prems(1) [of 0] by simp
  have "septets_nat cs = V div 128 ^ Suc j"
  proof (rule Cons.IH)
    show "unat (cs ! k AND 0x7f) = V div 128 ^ (Suc j + k) mod 128" if "k < length cs" for k
      using Cons.prems(1) [of "Suc k"] that by simp
  qed (use Cons.prems(2) in simp)
  also have "\<dots> = V div 128 ^ j div 128" by (simp only: power_Suc2 div_mult2_eq)
  finally show ?case using c mod_mult_div_eq [of "V div 128 ^ j" 128] by simp
qed simp

lemma marked_septet: "(s OR 0x80) AND 0x7f = s AND 0x7f" "(s OR 0x80) AND 0x80 \<noteq> 0" "(s AND 0x7f) AND 0x7f = s AND 0x7f"
    "(s AND 0x7f) AND 0x80 = 0" for s :: u8
proof -
  have o: "(s OR 0x80) AND 0x7f = (s AND 0x7f) OR (0x80 AND 0x7f)" by (simp only: bit.conj_disj_distrib2)
  then show "(s OR 0x80) AND 0x7f = s AND 0x7f" by simp
  have "(s OR 0x80) AND 0x80 = 0x80" by (rule bit_word_eqI) (auto simp only: bit_and_iff bit_or_iff)
  then show "(s OR 0x80) AND 0x80 \<noteq> 0" by simp
  show "(s AND 0x7f) AND 0x7f = s AND 0x7f" by (simp add: and.assoc)
  show "(s AND 0x7f) AND 0x80 = 0" by (simp add: and.assoc)
qed

lemma terminated_marked:
  "list_all (\<lambda>c. c AND 0x80 \<noteq> 0) cs \<Longrightarrow> c AND 0x80 = 0 \<Longrightarrow> terminated (cs @ [c])"
  by (induction cs) (auto simp: terminated_Cons)

text \<open>What \<open>VarintWriteTail\<close> leaves in a target of the right length.\<close>

definition tail_octets :: "u32 \<Rightarrow> nat \<Rightarrow> octets" where
  "tail_octets v n = map (\<lambda>j. septet v j OR 0x80) [0..<n - 1] @ [septet v (n - 1) AND 0x7f]"

lemma tail_octets_number:
  assumes "0 < n" "unat v < 128 ^ n"
  shows "terminated (tail_octets v n)" "septets_nat (tail_octets v n) = unat v" "length (tail_octets v n) = n"
proof -
  show "length (tail_octets v n) = n" using assms(1) by (simp add: tail_octets_def)
  show "terminated (tail_octets v n)" unfolding tail_octets_def
    by (rule terminated_marked) (auto simp: list_all_iff marked_septet)
  have "unat (tail_octets v n ! k AND 0x7f) = unat v div 128 ^ (0 + k) mod 128" if "k < n" for k
  proof (cases "k = n - 1")
    case True
    then show ?thesis by (simp add: tail_octets_def nth_append marked_septet unat_septet)
  next
    case False
    then have "k < n - 1" using that by simp
    then show ?thesis by (simp add: tail_octets_def nth_append marked_septet unat_septet)
  qed
  then show "septets_nat (tail_octets v n) = unat v"
    using septets_of_number [of "tail_octets v n" "unat v" 0] assms by (simp add: tail_octets_def)
qed

lemma list_of_length:
  "length xs = 1 \<Longrightarrow> \<exists>a. xs = [a]" "length xs = 2 \<Longrightarrow> \<exists>a b. xs = [a, b]" "length xs = 3 \<Longrightarrow> \<exists>a b c. xs = [a, b, c]"
  "length xs = 4 \<Longrightarrow> \<exists>a b c d. xs = [a, b, c, d]" "length xs = 5 \<Longrightarrow> \<exists>a b c d e. xs = [a, b, c, d, e]"
  by (auto simp: eval_nat_numeral length_Suc_conv)

lemma upt_small: "[0..<2] = [0, 1]" "[0..<3] = [0, 1, 2]" "[0..<4] = [0, 1, 2, 3]"
  by code_simp+

lemma VarintWriteTail_octets:
  assumes "1 \<le> n" "n \<le> 5" "length target = n"
  shows "VarintWriteTail v target n = Some (tail_octets v n)"
proof -
  have s: "\<And>j. ucast (drop_bit (7 * j) v) = septet v j" by (simp add: septet_def)
  have s0: "ucast v = septet v 0" by (simp add: septet_def)
  from assms consider "n = 1" | "n = 2" | "n = 3" | "n = 4" | "n = 5" by linarith
  then show ?thesis
  proof cases
    case 1
    with assms(3) list_of_length(1) obtain a where "target = [a]" by blast
    with 1 show ?thesis by (simp add: VarintWriteTail_def write_septet_def tail_octets_def s s0 marked_septet)
  next
    case 2
    with assms(3) list_of_length(2) obtain a b where "target = [a, b]" by blast
    with 2 show ?thesis using s [of 1] by (simp add: VarintWriteTail_def write_septet_def tail_octets_def s0 marked_septet)
  next
    case 3
    with assms(3) list_of_length(3) obtain a b c where "target = [a, b, c]" by blast
    with 3 show ?thesis using s [of 1] s [of 2]
      by (simp add: VarintWriteTail_def write_septet_def tail_octets_def s0 marked_septet upt_small)
  next
    case 4
    with assms(3) list_of_length(4) obtain a b c d where "target = [a, b, c, d]" by blast
    with 4 show ?thesis using s [of 1] s [of 2] s [of 3]
      by (simp add: VarintWriteTail_def write_septet_def tail_octets_def s0 marked_septet upt_small)
  next
    case 5
    with assms(3) list_of_length(5) obtain a b c d e where "target = [a, b, c, d, e]" by blast
    with 5 show ?thesis using s [of 1] s [of 2] s [of 3] s [of 4]
      by (simp add: VarintWriteTail_def write_septet_def tail_octets_def s0 marked_septet upt_small)
  qed
qed

lemma VarintLength_fits: "2 \<le> VarintLength v" "VarintLength v \<le> 6" "unat v < 128 ^ (VarintLength v - 1)"
  using unat_lt_exp [of v] by (auto simp: VarintLength_def word_less_nat_alt word_le_nat_alt)

lemma MaxInVarintPrefix_bounds:
  assumes "1 \<le> p" "p \<le> 8"
  shows "unat (MaxInVarintPrefix p) \<le> 127"
proof -
  from assms consider "p = 1" | "p = 2" | "p = 3" | "p = 4" | "p = 5" | "p = 6" | "p = 7" | "p = 8" by linarith
  then show ?thesis by cases (simp_all add: MaxInVarintPrefix_def)
qed

lemma ParseVarint_reads:
  assumes "fresh i" "rest_of i = cs @ r" "terminated cs" "unat prefix \<le> 127"
  shows "varint_result (unat prefix + septets_nat cs) (length cs) i (ParseVarint prefix i)"
  using reads_ParseVarint assms unfolding reads_def by fastforce

lemma Input_fresh: "fresh (Input cs)" "rest_of (Input cs) = cs"
  by (simp_all add: fresh_def Input_def rest_of_def)

text \<open>
  varint_exact: reading a terminated sequence of septets on top of a prefix gives exactly
  the number it stands for and stops behind it, or an overflow error when the number has more than 32
  bits, however long the sequence is.
\<close>

theorem varint_exact:
  assumes "terminated cs" "unat prefix \<le> 127"
  shows "varint_result (unat prefix + septets_nat cs) (length cs) (Input (cs @ r)) (ParseVarint prefix (Input (cs @ r)))"
  using ParseVarint_reads [OF Input_fresh assms] .

theorem varint_exact_witness:
  "varint_result 300 3 (Input [0xad, 0x81, 0, 7]) (ParseVarint 127 (Input [0xad, 0x81, 0, 7])) \<and>
   varint_result (127 + 15 * 2 ^ 28 + 2 ^ 28) 5 (Input [0x80, 0x80, 0x80, 0x80, 0x10]) (ParseVarint 127 (Input [0x80, 0x80, 0x80, 0x80, 0x10]))"
  using varint_exact [of "[0xad, 0x81, 0]" 127 "[7]"] varint_exact [of "[0x80, 0x80, 0x80, 0x80, 0x10]" 127 "[]"]
  by (simp add: numeral_3_eq_3 [symmetric])

lemma varint_written:
  assumes "1 \<le> p" "p \<le> 8" "length target = varint_writer_length p v"
  shows "\<exists>b tail. VarintWriter_Write p v prefix target = Some (b # tail) \<and>
    (if v < MaxInVarintPrefix p then tail = [] \<and> b = prefix OR ucast v
     else b = prefix OR ucast (MaxInVarintPrefix p) \<and>
       ParseVarint (MaxInVarintPrefix p) (Input (tail @ r)) = (Some v, Advance (length tail) (Input (tail @ r))))"
proof (cases "v < MaxInVarintPrefix p")
  case True
  then show ?thesis using assms(3) list_of_length(1) [of target]
    by (auto simp: VarintWriter_Write_def varint_writer_length_def)
next
  case False
  let ?M = "MaxInVarintPrefix p"
  let ?n = "VarintLength (v - ?M) - 1" and ?d = "v - ?M"
  have len: "varint_writer_length p v = Suc ?n" "1 \<le> ?n" "?n \<le> 5"
    using False VarintLength_fits [of ?d] by (auto simp: varint_writer_length_def)
  then obtain a rest where t: "target = a # rest" "length rest = ?n" using assms(3) by (cases target) auto
  have w: "VarintWriter_Write p v prefix target = Some ((prefix OR ucast ?M) # tail_octets ?d ?n)"
  proof -
    have "varint_writer_length p v \<noteq> 1" "varint_writer_length p v - 1 = ?n" using len(1,2) by linarith+
    then show ?thesis using VarintWriteTail_octets [OF len(2,3) t(2), of ?d] by (simp add: VarintWriter_Write_def t(1) Let_def)
  qed
  have n: "terminated (tail_octets ?d ?n)" "septets_nat (tail_octets ?d ?n) = unat ?d" "length (tail_octets ?d ?n) = ?n"
    using tail_octets_number [of ?n ?d] len(2) VarintLength_fits(3) [of ?d] by simp_all
  have "?M \<le> v" using False by simp
  then have "unat ?d = unat v - unat ?M" "unat ?M \<le> unat v" by (simp_all add: unat_sub word_le_nat_alt)
  then have "unat ?M + unat ?d = unat v" by linarith
  moreover have "varint_result (unat ?M + unat ?d) ?n (Input (tail_octets ?d ?n @ r)) (ParseVarint ?M (Input (tail_octets ?d ?n @ r)))"
    using ParseVarint_reads [OF Input_fresh n(1) MaxInVarintPrefix_bounds [OF assms(1,2)], of r] n(2,3) by simp
  ultimately have "ParseVarint ?M (Input (tail_octets ?d ?n @ r)) = (Some v, Advance ?n (Input (tail_octets ?d ?n @ r)))"
    using unat_lt_exp [of v] by (simp add: varint_result_def)
  then show ?thesis using w False n(3) by auto
qed

text \<open>
  varint_round_trip: what the writer writes, behind any prefix of 1 to 8 bits, the parser
  reads back: a small number is in the first octet, and the octets after a full prefix are parsed to
  the number.
\<close>

theorem varint_round_trip:
  assumes "1 \<le> p" "p \<le> 8" "length target = varint_writer_length p v"
  shows "\<exists>b tail. VarintWriter_Write p v prefix target = Some (b # tail) \<and>
    (if v < MaxInVarintPrefix p then tail = [] \<and> b = prefix OR ucast v
     else b = prefix OR ucast (MaxInVarintPrefix p) \<and>
       ParseVarint (MaxInVarintPrefix p) (Input (tail @ r)) = (Some v, Advance (length tail) (Input (tail @ r))))"
  using assms by (rule varint_written)

theorem varint_round_trip_witness:
  "\<exists>b tail. VarintWriter_Write 3 1337 0x20 [0, 0, 0] = Some (b # tail) \<and>
    b = 0x20 OR ucast (MaxInVarintPrefix 3) \<and>
    ParseVarint (MaxInVarintPrefix 3) (Input (tail @ [9])) = (Some 1337, Advance (length tail) (Input (tail @ [9])))"
proof -
  have "varint_writer_length 3 1337 = 3" "\<not> (1337 :: u32) < MaxInVarintPrefix 3" by code_simp+
  then show ?thesis using varint_round_trip [of 3 "[0, 0, 0]" 1337 "0x20" "[9]"] by simp
qed

end
