(* ===== verification/Grpc_Hpack_Decode.thy ===== *)
theory Grpc_Hpack_Decode
  imports Grpc_Hpack_Strings
begin

text \<open>
  The strings of \<open>hpack_parser.cc\<close> against their writers: the state machine of the Huffman decoder,
  read off its four tables, against the table of the codes, and base64 and binary values against the encoders.

  The machine is checked once and for all by evaluation of \<open>states_fit\<close>: every entry of the tables completes at
  most one code and leaves the bits that the next state stands for. The tables are put into tries for that.
\<close>

section \<open>Look-up in constant tables\<close>

text \<open>A table as a tree that is read along the digits of the position, which counts from one.\<close>

datatype 'a trie = Tip | Fork "'a trie" 'a "'a trie"

fun firsts :: "'a list \<Rightarrow> 'a list" where
  "firsts (x # y # zs) = x # firsts zs"
| "firsts xs = xs"

fun seconds :: "'a list \<Rightarrow> 'a list" where
  "seconds (x # y # zs) = y # seconds zs"
| "seconds xs = []"

lemma length_firsts [simp]: "length (firsts xs) = (length xs + 1) div 2"
  by (induction xs rule: firsts.induct) auto

lemma length_seconds [simp]: "length (seconds xs) = length xs div 2"
  by (induction xs rule: seconds.induct) auto

lemma nth_firsts: "2 * i < length xs \<Longrightarrow> firsts xs ! i = xs ! (2 * i)"
proof (induction xs arbitrary: i rule: firsts.induct)
  case (1 x y zs)
  then show ?case by (cases i) auto
qed auto

lemma nth_seconds: "2 * i + 1 < length xs \<Longrightarrow> seconds xs ! i = xs ! (2 * i + 1)"
proof (induction xs arbitrary: i rule: seconds.induct)
  case (1 x y zs)
  then show ?case by (cases i) auto
qed auto

function trie_of :: "'a list \<Rightarrow> 'a trie" where
  "trie_of [] = Tip"
| "trie_of (x # xs) = Fork (trie_of (firsts xs)) x (trie_of (seconds xs))"
  by pat_completeness auto

termination
  by (relation "measure length") auto

fun trie_find :: "'a trie \<Rightarrow> num \<Rightarrow> 'a" where
  "trie_find (Fork l x r) num.One = x"
| "trie_find (Fork l x r) (num.Bit0 n) = trie_find l n"
| "trie_find (Fork l x r) (num.Bit1 n) = trie_find r n"
| "trie_find Tip n = undefined"

lemma trie_find: "nat_of_num n \<le> length xs \<Longrightarrow> trie_find (trie_of xs) n = xs ! (nat_of_num n - 1)"
proof (induction n arbitrary: xs)
  case One
  then show ?case by (cases xs) auto
next
  case (Bit0 n)
  have n: "0 < nat_of_num n" by (rule nat_of_num_pos)
  from Bit0.prems obtain x ys where xs: "xs = x # ys" using n by (cases xs) auto
  have "trie_find (trie_of (firsts ys)) n = firsts ys ! (nat_of_num n - 1)" using Bit0.prems by (intro Bit0.IH) (simp add: xs)
  also have "\<dots> = ys ! (2 * (nat_of_num n - 1))" using Bit0.prems n by (intro nth_firsts) (simp add: xs)
  finally show ?case using n by (simp add: xs nth_Cons' mult_2 [symmetric] diff_mult_distrib2)
next
  case (Bit1 n)
  have n: "0 < nat_of_num n" by (rule nat_of_num_pos)
  from Bit1.prems obtain x ys where xs: "xs = x # ys" using n by (cases xs) auto
  have "trie_find (trie_of (seconds ys)) n = seconds ys ! (nat_of_num n - 1)" using Bit1.prems by (intro Bit1.IH) (simp add: xs)
  also have "\<dots> = ys ! (2 * (nat_of_num n - 1) + 1)" using Bit1.prems n by (intro nth_seconds) (simp add: xs)
  finally show ?case using n by (cases "nat_of_num n") (simp_all add: xs mult_2)
qed

definition position :: "int \<Rightarrow> num" where
  "position i = num_of_nat (nat i)"

lemma position_code [code]: "position (Int.Pos n) = n" "position 0 = num.One" "position (Int.Neg n) = num.One"
  by (simp_all add: position_def num_of_nat.simps(1))

lemma trie_position:
  assumes "0 \<le> i" "nat i < length xs"
  shows "trie_find (trie_of xs) (position (i + 1)) = xs ! nat i"
proof -
  have "nat_of_num (position (i + 1)) = Suc (nat i)"
    using assms(1) unfolding position_def by (subst num_of_nat_inverse) (simp_all add: nat_add_distrib)
  then show ?thesis using trie_find [of "position (i + 1)" xs] assms(2) by simp
qed

section \<open>What the states stand for\<close>

text \<open>
  The machine keeps the bits it has read since the last symbol: for every state, they are given as a number,
  their count and the power of two that bounds the number.
\<close>

definition state_bits :: "(int \<times> int \<times> int) list" where
  "state_bits =
    [(0, 0, 1), (0, 4, 16), (0, 3, 8), (0, 2, 4), (0, 1, 2), (10, 5, 32), (1, 3, 8), (1, 2, 4),
     (1, 1, 2), (16, 5, 32), (2, 3, 8), (2, 2, 4), (46, 6, 64), (3, 3, 8), (4, 3, 8), (5, 3, 8),
     (6, 3, 8), (7, 3, 8), (124, 7, 128), (125, 7, 128), (126, 7, 128), (127, 7, 128),
     (2045, 11, 2048), (2046, 11, 2048), (3, 2, 4), (48, 6, 64), (49, 6, 64), (50, 6, 64),
     (51, 6, 64), (52, 6, 64), (53, 6, 64), (54, 6, 64), (55, 6, 64), (56, 6, 64), (57, 6, 64),
     (58, 6, 64), (59, 6, 64), (60, 6, 64), (61, 6, 64), (62, 6, 64), (63, 6, 64), (1021, 10, 1024),
     (1022, 10, 1024), (1023, 10, 1024), (16382, 14, 16384), (16383, 14, 16384),
     (262136, 18, 262144), (262137, 18, 262144), (262138, 18, 262144), (262139, 18, 262144),
     (262140, 18, 262144), (262141, 18, 262144), (262142, 18, 262144), (4194284, 22, 4194304),
     (4194285, 22, 4194304), (4194286, 22, 4194304), (4194287, 22, 4194304), (262143, 18, 262144),
     (4194288, 22, 4194304), (4194289, 22, 4194304), (4194290, 22, 4194304), (4194291, 22, 4194304),
     (4194292, 22, 4194304), (4194293, 22, 4194304), (4194294, 22, 4194304), (4194295, 22, 4194304),
     (4194296, 22, 4194304), (4194297, 22, 4194304), (4194298, 22, 4194304), (4194299, 22, 4194304),
     (4194300, 22, 4194304), (4194301, 22, 4194304), (4194302, 22, 4194304),
     (67108847, 26, 67108864), (4194303, 22, 4194304), (67108848, 26, 67108864),
     (67108849, 26, 67108864), (67108850, 26, 67108864), (67108851, 26, 67108864),
     (67108852, 26, 67108864), (67108853, 26, 67108864), (67108854, 26, 67108864),
     (67108855, 26, 67108864), (67108856, 26, 67108864), (67108857, 26, 67108864),
     (67108858, 26, 67108864), (67108859, 26, 67108864), (67108860, 26, 67108864),
     (67108861, 26, 67108864), (67108862, 26, 67108864), (67108863, 26, 67108864), (2047, 11, 2048),
     (32767, 15, 32768), (524275, 19, 524288), (524276, 19, 524288), (524277, 19, 524288),
     (524278, 19, 524288), (524279, 19, 524288), (524280, 19, 524288), (524281, 19, 524288),
     (524282, 19, 524288), (524283, 19, 524288), (524284, 19, 524288), (524285, 19, 524288),
     (524286, 19, 524288), (524287, 19, 524288), (8388597, 23, 8388608), (8388598, 23, 8388608),
     (8388599, 23, 8388608), (8388600, 23, 8388608), (8388601, 23, 8388608), (8388602, 23, 8388608),
     (8388603, 23, 8388608), (8388604, 23, 8388608), (8388605, 23, 8388608), (8388606, 23, 8388608),
     (8388607, 23, 8388608), (134217713, 27, 134217728), (134217714, 27, 134217728),
     (134217715, 27, 134217728), (134217716, 27, 134217728), (134217717, 27, 134217728),
     (134217718, 27, 134217728), (134217719, 27, 134217728), (134217720, 27, 134217728),
     (134217721, 27, 134217728), (134217722, 27, 134217728), (134217723, 27, 134217728),
     (134217724, 27, 134217728), (134217725, 27, 134217728), (134217726, 27, 134217728),
     (134217727, 27, 134217728), (47, 6, 64), (17, 5, 32), (18, 5, 32), (19, 5, 32), (20, 5, 32),
     (21, 5, 32), (22, 5, 32), (23, 5, 32), (24, 5, 32), (25, 5, 32), (26, 5, 32), (27, 5, 32),
     (28, 5, 32), (29, 5, 32), (30, 5, 32), (31, 5, 32), (508, 9, 512), (509, 9, 512),
     (510, 9, 512), (511, 9, 512), (8190, 13, 8192), (8191, 13, 8192), (131068, 17, 131072),
     (131069, 17, 131072), (131070, 17, 131072), (2097129, 21, 2097152), (2097130, 21, 2097152),
     (2097131, 21, 2097152), (2097132, 21, 2097152), (2097133, 21, 2097152), (2097134, 21, 2097152),
     (2097135, 21, 2097152), (131071, 17, 131072), (2097136, 21, 2097152), (2097137, 21, 2097152),
     (2097138, 21, 2097152), (2097139, 21, 2097152), (2097140, 21, 2097152), (2097141, 21, 2097152),
     (2097142, 21, 2097152), (2097143, 21, 2097152), (2097144, 21, 2097152), (2097145, 21, 2097152),
     (2097146, 21, 2097152), (2097147, 21, 2097152), (2097148, 21, 2097152), (2097149, 21, 2097152),
     (2097150, 21, 2097152), (2097151, 21, 2097152), (33554416, 25, 33554432),
     (33554417, 25, 33554432), (33554418, 25, 33554432), (33554419, 25, 33554432),
     (33554420, 25, 33554432), (33554421, 25, 33554432), (33554422, 25, 33554432),
     (33554423, 25, 33554432), (33554424, 25, 33554432), (33554425, 25, 33554432),
     (33554426, 25, 33554432), (33554427, 25, 33554432), (33554428, 25, 33554432),
     (33554429, 25, 33554432), (33554430, 25, 33554432), (33554431, 25, 33554432),
     (536870910, 29, 536870912), (536870911, 29, 536870912), (11, 5, 32), (12, 5, 32), (13, 5, 32),
     (14, 5, 32), (15, 5, 32), (1, 4, 16), (2, 4, 16), (3, 4, 16), (4, 4, 16), (5, 4, 16),
     (6, 4, 16), (7, 4, 16), (8, 4, 16), (9, 4, 16), (10, 4, 16), (11, 4, 16), (12, 4, 16),
     (13, 4, 16), (14, 4, 16), (15, 4, 16), (254, 8, 256), (255, 8, 256), (4092, 12, 4096),
     (4093, 12, 4096), (4094, 12, 4096), (4095, 12, 4096), (65534, 16, 65536),
     (1048558, 20, 1048576), (1048559, 20, 1048576), (65535, 16, 65536), (1048560, 20, 1048576),
     (1048561, 20, 1048576), (1048562, 20, 1048576), (1048563, 20, 1048576), (1048564, 20, 1048576),
     (1048565, 20, 1048576), (1048566, 20, 1048576), (1048567, 20, 1048576), (1048568, 20, 1048576),
     (1048569, 20, 1048576), (1048570, 20, 1048576), (1048571, 20, 1048576), (1048572, 20, 1048576),
     (1048573, 20, 1048576), (1048574, 20, 1048576), (1048575, 20, 1048576),
     (16777206, 24, 16777216), (16777207, 24, 16777216), (16777208, 24, 16777216),
     (16777209, 24, 16777216), (16777210, 24, 16777216), (16777211, 24, 16777216),
     (16777212, 24, 16777216), (16777213, 24, 16777216), (16777214, 24, 16777216),
     (16777215, 24, 16777216), (268435455, 28, 268435456)]"

text \<open>For every state a symbol whose code goes on after these bits.\<close>

definition state_symbol :: "int list" where
  "state_symbol =
    [0, 48, 48, 48, 32, 32, 99, 32, 0, 61, 32, 58, 58, 47, 61, 58, 69, 0, 38, 44, 88, 0, 35, 0, 0,
     69, 71, 73, 75, 77, 79, 81, 83, 85, 87, 106, 113, 119, 121, 38, 0, 39, 35, 0, 60, 1, 92, 128,
     131, 153, 176, 129, 1, 1, 137, 139, 141, 2, 147, 150, 152, 157, 165, 168, 175, 182, 188, 197,
     9, 144, 171, 199, 192, 203, 2, 211, 214, 222, 241, 245, 247, 250, 252, 2, 4, 8, 15, 19, 24, 28,
     10, 1, 1, 128, 131, 184, 224, 153, 176, 216, 129, 154, 178, 1, 147, 2, 9, 144, 148, 171, 215,
     236, 199, 192, 203, 211, 2, 2, 4, 6, 8, 12, 15, 17, 19, 21, 24, 26, 28, 30, 127, 10, 67, 95,
     100, 103, 108, 110, 114, 58, 69, 73, 77, 81, 85, 106, 119, 0, 33, 40, 39, 0, 94, 1, 92, 131,
     129, 129, 133, 136, 154, 160, 164, 170, 1, 178, 185, 187, 190, 198, 232, 1, 139, 147, 152, 165,
     175, 188, 9, 171, 2, 192, 200, 202, 210, 218, 238, 242, 203, 211, 222, 245, 250, 2, 8, 19, 10,
     10, 22, 45, 47, 52, 54, 56, 50, 99, 105, 115, 32, 47, 54, 61, 100, 108, 58, 69, 77, 85, 0, 33,
     0, 0, 64, 93, 1, 92, 153, 167, 1, 176, 179, 216, 227, 129, 133, 154, 164, 178, 187, 198, 1,
     147, 165, 9, 2, 199, 234, 192, 202, 218, 203, 211, 245, 2, 10, 10]"

text \<open>The table of the codes, behind the empty code for the entries that output nothing.\<close>

definition symbols :: "(int \<times> int) list" where
  "symbols =
    [(0, 0), (8184, 13), (8388568, 23), (268435426, 28), (268435427, 28), (268435428, 28),
     (268435429, 28), (268435430, 28), (268435431, 28), (268435432, 28), (16777194, 24),
     (1073741820, 30), (268435433, 28), (268435434, 28), (1073741821, 30), (268435435, 28),
     (268435436, 28), (268435437, 28), (268435438, 28), (268435439, 28), (268435440, 28),
     (268435441, 28), (268435442, 28), (1073741822, 30), (268435443, 28), (268435444, 28),
     (268435445, 28), (268435446, 28), (268435447, 28), (268435448, 28), (268435449, 28),
     (268435450, 28), (268435451, 28), (20, 6), (1016, 10), (1017, 10), (4090, 12), (8185, 13),
     (21, 6), (248, 8), (2042, 11), (1018, 10), (1019, 10), (249, 8), (2043, 11), (250, 8), (22, 6),
     (23, 6), (24, 6), (0, 5), (1, 5), (2, 5), (25, 6), (26, 6), (27, 6), (28, 6), (29, 6), (30, 6),
     (31, 6), (92, 7), (251, 8), (32764, 15), (32, 6), (4091, 12), (1020, 10), (8186, 13), (33, 6),
     (93, 7), (94, 7), (95, 7), (96, 7), (97, 7), (98, 7), (99, 7), (100, 7), (101, 7), (102, 7),
     (103, 7), (104, 7), (105, 7), (106, 7), (107, 7), (108, 7), (109, 7), (110, 7), (111, 7),
     (112, 7), (113, 7), (114, 7), (252, 8), (115, 7), (253, 8), (8187, 13), (524272, 19),
     (8188, 13), (16380, 14), (34, 6), (32765, 15), (3, 5), (35, 6), (4, 5), (36, 6), (5, 5),
     (37, 6), (38, 6), (39, 6), (6, 5), (116, 7), (117, 7), (40, 6), (41, 6), (42, 6), (7, 5),
     (43, 6), (118, 7), (44, 6), (8, 5), (9, 5), (45, 6), (119, 7), (120, 7), (121, 7), (122, 7),
     (123, 7), (32766, 15), (2044, 11), (16381, 14), (8189, 13), (268435452, 28), (1048550, 20),
     (4194258, 22), (1048551, 20), (1048552, 20), (4194259, 22), (4194260, 22), (4194261, 22),
     (8388569, 23), (4194262, 22), (8388570, 23), (8388571, 23), (8388572, 23), (8388573, 23),
     (8388574, 23), (16777195, 24), (8388575, 23), (16777196, 24), (16777197, 24), (4194263, 22),
     (8388576, 23), (16777198, 24), (8388577, 23), (8388578, 23), (8388579, 23), (8388580, 23),
     (2097116, 21), (4194264, 22), (8388581, 23), (4194265, 22), (8388582, 23), (8388583, 23),
     (16777199, 24), (4194266, 22), (2097117, 21), (1048553, 20), (4194267, 22), (4194268, 22),
     (8388584, 23), (8388585, 23), (2097118, 21), (8388586, 23), (4194269, 22), (4194270, 22),
     (16777200, 24), (2097119, 21), (4194271, 22), (8388587, 23), (8388588, 23), (2097120, 21),
     (2097121, 21), (4194272, 22), (2097122, 21), (8388589, 23), (4194273, 22), (8388590, 23),
     (8388591, 23), (1048554, 20), (4194274, 22), (4194275, 22), (4194276, 22), (8388592, 23),
     (4194277, 22), (4194278, 22), (8388593, 23), (67108832, 26), (67108833, 26), (1048555, 20),
     (524273, 19), (4194279, 22), (8388594, 23), (4194280, 22), (33554412, 25), (67108834, 26),
     (67108835, 26), (67108836, 26), (134217694, 27), (134217695, 27), (67108837, 26),
     (16777201, 24), (33554413, 25), (524274, 19), (2097123, 21), (67108838, 26), (134217696, 27),
     (134217697, 27), (67108839, 26), (134217698, 27), (16777202, 24), (2097124, 21), (2097125, 21),
     (67108840, 26), (67108841, 26), (268435453, 28), (134217699, 27), (134217700, 27),
     (134217701, 27), (1048556, 20), (16777203, 24), (1048557, 20), (2097126, 21), (4194281, 22),
     (2097127, 21), (2097128, 21), (8388595, 23), (4194282, 22), (4194283, 22), (33554414, 25),
     (33554415, 25), (16777204, 24), (16777205, 24), (67108842, 26), (8388596, 23), (67108843, 26),
     (134217702, 27), (67108844, 26), (67108845, 26), (134217703, 27), (134217704, 27),
     (134217705, 27), (134217706, 27), (134217707, 27), (268435454, 28), (134217708, 27),
     (134217709, 27), (134217710, 27), (134217711, 27), (134217712, 27), (67108846, 26),
     (1073741823, 30)]"

text \<open>
  From the bits \<open>(v, l)\<close> the half octet \<open>n\<close> completes exactly the code \<open>(b, k)\<close> and leaves \<open>(v', l')\<close>.
\<close>

fun step_fits :: "int \<times> int \<times> int \<Rightarrow> int \<Rightarrow> int \<times> int \<Rightarrow> int \<times> int \<times> int \<Rightarrow> bool" where
  "step_fits (v, l, p) n (b, k) (v', l', p') \<longleftrightarrow> l + 4 = k + l' \<and> v * 16 + n = b * p' + v'"

definition in_range :: "int \<Rightarrow> int \<Rightarrow> int \<Rightarrow> bool" where
  "in_range a b x \<longleftrightarrow> a \<le> x \<and> x < b"

text \<open>Conjunction without a congruence rule: the arguments are not visited again.\<close>

fun both :: "bool \<Rightarrow> bool \<Rightarrow> bool" where
  "both True x = x"
| "both False x = False"

lemma both [simp]: "both x y \<longleftrightarrow> x \<and> y"
  by (cases x) auto

fun row_fits :: "(int \<times> int \<times> int) trie \<Rightarrow> (int \<times> int) trie \<Rightarrow> int \<times> int \<times> int \<Rightarrow> int \<Rightarrow> int list \<Rightarrow> int list \<Rightarrow> bool" where
  "row_fits states syms p n (e # es) (x # xs) =
     both (both (in_range 0 256 x) (in_range (- 1) 257 e))
       (both (step_fits p n (trie_find syms (position (e + 2))) (trie_find states (position (x + 1))))
         (row_fits states syms p (n + 1) es xs))"
| "row_fits states syms p n [] [] = (n = 16)"
| "row_fits states syms p n _ _ = False"

text \<open>The rows of sixteen entries of a table.\<close>

fun row_list :: "'a list \<Rightarrow> 'a list list" where
  "row_list (x0 # x1 # x2 # x3 # x4 # x5 # x6 # x7 # x8 # x9 # x10 # x11 # x12 # x13 # x14 # x15 # xs) =
     [x0, x1, x2, x3, x4, x5, x6, x7, x8, x9, x10, x11, x12, x13, x14, x15] # row_list xs"
| "row_list _ = []"

fun states_fit :: "(int \<times> int \<times> int) trie \<Rightarrow> (int \<times> int) trie \<Rightarrow> int list trie \<Rightarrow> int list trie \<Rightarrow>
    (int \<times> int \<times> int) list \<Rightarrow> int list \<Rightarrow> int list \<Rightarrow> bool" where
  "states_fit states syms erows nrows (p # ps) (e # es) (n # ns) =
     both (both (in_range 0 249 e) (in_range 0 48 n))
       (both (row_fits states syms p 0 (trie_find erows (position (e + 1))) (trie_find nrows (position (n + 1))))
         (states_fit states syms erows nrows ps es ns))"
| "states_fit states syms erows nrows [] [] [] \<longleftrightarrow> True"
| "states_fit states syms erows nrows _ _ _ \<longleftrightarrow> False"

lemma symbols_huffsyms: "symbols = (0, 0) # map (\<lambda>(b, l). (uint b, int l)) grpc_chttp2_huffsyms"
  by code_simp

text \<open>The bits of a state are those of a code without its end.\<close>

fun prefix_fits :: "int \<times> int \<times> int \<Rightarrow> int \<times> int \<Rightarrow> bool" where
  "prefix_fits (v, l, p) (b, k) \<longleftrightarrow> 0 \<le> v \<and> v < p \<and> 0 \<le> l \<and> p = 2 ^ nat l \<and> l < k \<and> b div 2 ^ nat (k - l) = v"

fun states_proper :: "(int \<times> int) trie \<Rightarrow> (int \<times> int \<times> int) list \<Rightarrow> int list \<Rightarrow> bool" where
  "states_proper syms (p # ps) (c # cs) =
     both (both (in_range 0 256 c) (prefix_fits p (trie_find syms (position (c + 2))))) (states_proper syms ps cs)"
| "states_proper syms [] [] = True"
| "states_proper syms _ _ = False"

lemma tables_fit:
  "states_fit (trie_of state_bits) (trie_of symbols) (trie_of (row_list emit_sub_tbl)) (trie_of (row_list next_sub_tbl)) state_bits emit_tbl next_tbl"
  by code_simp

lemma states_are_proper: "states_proper (trie_of symbols) state_bits state_symbol"
  by code_simp

lemma table_lengths [simp]: "length state_bits = 256" "length emit_tbl = 256" "length next_tbl = 256" "length symbols = 258"
    "length state_symbol = 256" "length emit_sub_tbl = 3984" "length next_sub_tbl = 768"
  by code_simp+

lemma octets_not_ones: "list_all (\<lambda>(b, l). uint b \<noteq> 2 ^ l - 1) (take 256 grpc_chttp2_huffsyms)"
  by code_simp

section \<open>The meaning of the tables\<close>

lemma row_list_nth: "16 * (i + 1) \<le> length xs \<Longrightarrow> i < length (row_list xs) \<and> row_list xs ! i = take 16 (drop (16 * i) xs)"
proof (induction xs arbitrary: i rule: row_list.induct)
  case (1 x0 x1 x2 x3 x4 x5 x6 x7 x8 x9 x10 x11 x12 x13 x14 x15 xs)
  show ?case
  proof (cases i)
    case 0
    then show ?thesis by simp
  next
    case (Suc k)
    have d: "drop (16 * Suc k) ys = drop (16 * k) (drop 16 ys)" for ys :: "'a list" by (simp add: add.commute)
    have "drop (16 * i) (x0 # x1 # x2 # x3 # x4 # x5 # x6 # x7 # x8 # x9 # x10 # x11 # x12 # x13 # x14 # x15 # xs) = drop (16 * k) xs"
      unfolding Suc d by simp
    moreover have "k < length (row_list xs) \<and> row_list xs ! k = take 16 (drop (16 * k) xs)" using 1 Suc by simp
    ultimately show ?thesis by (simp add: Suc)
  qed
qed simp_all

lemma row_fits_nth:
  "row_fits states syms p n es xs \<Longrightarrow> length es = length xs \<and> n + int (length es) = 16 \<and>
     (\<forall>i < length es. 0 \<le> xs ! i \<and> xs ! i < 256 \<and> - 1 \<le> es ! i \<and> es ! i \<le> 256 \<and>
        step_fits p (n + int i) (trie_find syms (position (es ! i + 2))) (trie_find states (position (xs ! i + 1))))"
proof (induction states syms p n es xs rule: row_fits.induct)
  case (1 states syms p n e es x xs)
  have "P i" if "P 0" "\<And>j. j < length es \<Longrightarrow> P (Suc j)" "i < length (e # es)" for P i
    using that by (cases i) auto
  then show ?case using 1 by (auto simp: in_range_def algebra_simps less_Suc_eq_0_disj)
qed simp_all

lemma states_fit_nth:
  "states_fit states syms erows nrows ps es ns \<Longrightarrow> length ps = length es \<and> length ps = length ns \<and>
     (\<forall>i < length ps. 0 \<le> es ! i \<and> es ! i < 249 \<and> 0 \<le> ns ! i \<and> ns ! i < 48 \<and>
        row_fits states syms (ps ! i) 0 (trie_find erows (position (es ! i + 1))) (trie_find nrows (position (ns ! i + 1))))"
proof (induction states syms erows nrows ps es ns rule: states_fit.induct)
  case (1 states syms erows nrows p ps e es n ns)
  then show ?case by (auto simp: in_range_def nth_Cons')
qed simp_all

lemma states_proper_nth:
  "states_proper syms ps cs \<Longrightarrow> length ps = length cs \<and>
     (\<forall>i < length ps. 0 \<le> cs ! i \<and> cs ! i < 256 \<and> prefix_fits (ps ! i) (trie_find syms (position (cs ! i + 2))))"
proof (induction syms ps cs rule: states_proper.induct)
  case (1 syms p ps c cs)
  then show ?case by (auto simp: in_range_def nth_Cons')
qed simp_all

text \<open>The low \<open>n\<close> bits of a number, the highest first.\<close>

primrec nbits :: "nat \<Rightarrow> int \<Rightarrow> bool list" where
  "nbits 0 v = []"
| "nbits (Suc n) v = nbits n (v div 2) @ [odd v]"

lemma length_nbits [simp]: "length (nbits n v) = n"
  by (induction n arbitrary: v) auto

lemma nbits_append: "0 \<le> y \<Longrightarrow> y < 2 ^ n \<Longrightarrow> nbits (m + n) (x * 2 ^ n + y) = nbits m x @ nbits n y"
proof (induction n arbitrary: y)
  case 0
  then have "y = 0" by simp
  then show ?case by simp
next
  case (Suc n)
  have "(x * 2 ^ Suc n + y) div 2 = x * 2 ^ n + y div 2" "odd (x * 2 ^ Suc n + y) = odd y" by simp_all
  then show ?case using Suc by simp
qed

lemma nbits_word: "nbits n (uint w) = bits n w"
proof -
  have "nbits n v = map (bit v) (rev [0..<n])" for v :: int
  proof (induction n arbitrary: v)
    case (Suc n)
    have "rev [0..<Suc n] = map Suc (rev [0..<n]) @ [0]" by (simp only: upt_conv_Cons zero_less_Suc map_Suc_upt [symmetric] rev.simps rev_map)
    then show ?case by (simp add: Suc bit_Suc bit_0 del: upt_Suc)
  qed simp
  then show ?thesis by (auto simp: bits_def bit_uint_iff dest: bit_imp_le_length)
qed

definition pending :: "int \<Rightarrow> bool list" where
  "pending s = (case state_bits ! nat s of (v, l, p) \<Rightarrow> nbits (nat l) v)"

definition symbol_bits :: "int \<Rightarrow> bool list" where
  "symbol_bits e = (case symbols ! nat (e + 1) of (b, k) \<Rightarrow> nbits (nat k) b)"

lemma symbols_at:
  assumes "0 \<le> e" "e \<le> 256"
  shows "symbols ! nat (e + 1) = (case grpc_chttp2_huffsyms ! nat e of (b, l) \<Rightarrow> (uint b, int l))"
proof -
  have "nat (e + 1) = Suc (nat e)" using assms by simp
  then show ?thesis using assms by (simp add: symbols_huffsyms)
qed

lemma symbol_bits:
  "symbol_bits (- 1) = []"
  "0 \<le> e \<Longrightarrow> e < 256 \<Longrightarrow> symbol_bits e = code (of_int e)"
  "symbol_bits 256 = replicate 30 True"
proof -
  show "symbol_bits (- 1) = []" by (simp add: symbol_bits_def symbols_def)
  show "symbol_bits e = code (of_int e)" if "0 \<le> e" "e < 256"
    using that symbols_at [of e]
    by (simp add: symbol_bits_def code_def code_length_def nbits_word take_bit_int_eq_self unsigned_of_int split: prod.split)
  show "symbol_bits 256 = replicate 30 True" by code_simp
qed

lemma symbol_length_nonneg: "- 1 \<le> e \<Longrightarrow> e \<le> 256 \<Longrightarrow> symbols ! nat (e + 1) = (b, k) \<Longrightarrow> 0 \<le> k"
  using symbols_at [of e] by (cases "e = - 1") (auto simp: symbols_def split: prod.splits)

lemma state_bits_at:
  assumes "0 \<le> s" "s < 256"
  obtains v l where "state_bits ! nat s = (v, l, 2 ^ nat l)" "0 \<le> v" "v < 2 ^ nat l" "0 \<le> l"
    and "\<exists>c. \<exists>r. r \<noteq> [] \<and> code c = pending s @ r"
proof -
  obtain v l p where e: "state_bits ! nat s = (v, l, p)" by (cases "state_bits ! nat s")
  define c where "c = state_symbol ! nat s"
  have c: "0 \<le> c" "c < 256" "prefix_fits (v, l, p) (trie_find (trie_of symbols) (position (c + 2)))"
    using states_proper_nth [OF states_are_proper] assms e unfolding c_def by (auto dest: spec [of _ "nat s"])
  moreover have "trie_find (trie_of symbols) (position (c + 2)) = symbols ! nat (c + 1)"
    using trie_position [of "c + 1" symbols] c(1,2) by (simp add: algebra_simps)
  ultimately have fits: "prefix_fits (v, l, p) (symbols ! nat (c + 1))" by simp
  obtain b k where bk: "symbols ! nat (c + 1) = (b, k)" by (cases "symbols ! nat (c + 1)")
  have w: "0 \<le> v" "v < 2 ^ nat l" "0 \<le> l" "p = 2 ^ nat l" "l < k" "b div 2 ^ nat (k - l) = v" using fits bk by auto
  have "b = v * 2 ^ nat (k - l) + b mod 2 ^ nat (k - l)" using w(6) by (metis div_mult_mod_eq)
  moreover have "nat k = nat l + nat (k - l)" using w by simp
  ultimately have "nbits (nat k) b = nbits (nat l) v @ nbits (nat (k - l)) (b mod 2 ^ nat (k - l))"
    using nbits_append [of "b mod 2 ^ nat (k - l)" "nat (k - l)" "nat l" v] by simp
  then have "code (of_int c) = pending s @ nbits (nat (k - l)) (b mod 2 ^ nat (k - l))"
    using symbol_bits(2) [OF c(1,2)] bk e by (simp add: symbol_bits_def pending_def)
  moreover have "nbits (nat (k - l)) (b mod 2 ^ nat (k - l)) \<noteq> []" using w(5) by (metis length_nbits list.size(3) zero_less_nat_eq less_irrefl diff_gt_0_iff_gt)
  ultimately show thesis using that e w by blast
qed

lemma nibble_step:
  assumes s: "0 \<le> s" "s < 256" and n: "unat nibble < 16"
  obtains e s' where "- 1 \<le> e" "e \<le> 256" "0 \<le> s'" "s' < 256"
    "huff_nibble nibble (s, o1) = Some (s', o1 @ (if 0 \<le> e \<and> e < 256 then [of_int e] else []))"
    "pending s @ bits 4 nibble = symbol_bits e @ pending s'"
proof -
  let ?i = "unat nibble"
  let ?e = "emit_tbl ! nat s" and ?n = "next_tbl ! nat s"
  let ?syms = "trie_of symbols" and ?states = "trie_of state_bits"
  have s': "nat s < 256" using s by simp
  have fit: "0 \<le> ?e" "?e < 249" "0 \<le> ?n" "?n < 48"
    "row_fits ?states ?syms (state_bits ! nat s) 0
       (trie_find (trie_of (row_list emit_sub_tbl)) (position (?e + 1))) (trie_find (trie_of (row_list next_sub_tbl)) (position (?n + 1)))"
    using states_fit_nth [OF tables_fit] s' by auto
  have e: "nat ?e < length (row_list emit_sub_tbl)" "row_list emit_sub_tbl ! nat ?e = take 16 (drop (16 * nat ?e) emit_sub_tbl)"
    using row_list_nth [of "nat ?e" emit_sub_tbl] fit by auto
  have n: "nat ?n < length (row_list next_sub_tbl)" "row_list next_sub_tbl ! nat ?n = take 16 (drop (16 * nat ?n) next_sub_tbl)"
    using row_list_nth [of "nat ?n" next_sub_tbl] fit by auto
  define emit where "emit = emit_sub_tbl ! (16 * nat ?e + ?i)"
  define nxt where "nxt = next_sub_tbl ! (16 * nat ?n + ?i)"
  have row: "row_fits ?states ?syms (state_bits ! nat s) 0
       (take 16 (drop (16 * nat ?e) emit_sub_tbl)) (take 16 (drop (16 * nat ?n) next_sub_tbl))"
    using fit(5) unfolding trie_position [OF fit(1) e(1)] trie_position [OF fit(3) n(1)] e(2) n(2) .
  have r: "0 \<le> nxt" "nxt < 256" "- 1 \<le> emit" "emit \<le> 256"
    "step_fits (state_bits ! nat s) (int ?i) (trie_find ?syms (position (emit + 2))) (trie_find ?states (position (nxt + 1)))"
    using row_fits_nth [OF row] assms(3) fit(1-4) unfolding emit_def nxt_def by auto
  have syms: "trie_find ?syms (position (emit + 2)) = symbols ! nat (emit + 1)"
    using trie_position [of "emit + 1" symbols] r(3,4) by (simp add: algebra_simps)
  have states: "trie_find ?states (position (nxt + 1)) = state_bits ! nat nxt"
    using trie_position [of nxt state_bits] r(1,2) by simp
  obtain b k where bk: "symbols ! nat (emit + 1) = (b, k)" by (cases "symbols ! nat (emit + 1)")
  have k: "0 \<le> k" using symbol_length_nonneg [OF r(3,4) bk] .
  obtain v l where p: "state_bits ! nat s = (v, l, 2 ^ nat l)" "0 \<le> v" "0 \<le> l" using state_bits_at [OF s] by blast
  obtain v' l' where p': "state_bits ! nat nxt = (v', l', 2 ^ nat l')" "0 \<le> v'" "v' < 2 ^ nat l'" "0 \<le> l'"
    using state_bits_at [OF r(1,2)] by blast
  have eq: "l + 4 = k + l'" "v * 16 + int ?i = b * 2 ^ nat l' + v'"
    using r(5) unfolding syms states bk p(1) p'(1) step_fits.simps by auto
  have "int (unat nibble) < 16" using assms(3) by linarith
  then have "uint nibble < 16" by simp
  then have "pending s @ bits 4 nibble = nbits (nat l + 4) (v * 2 ^ 4 + uint nibble)"
    using nbits_append [of "uint nibble" 4 "nat l" v] p(1) by (simp add: pending_def nbits_word)
  also have "\<dots> = nbits (nat k + nat l') (b * 2 ^ nat l' + v')" proof -
    have "nat l + 4 = nat k + nat l'" using eq(1) p(3) p'(4) k by linarith
    then show ?thesis using eq(2) by simp
  qed
  also have "\<dots> = symbol_bits emit @ pending nxt"
    unfolding nbits_append [OF p'(2,3)] by (simp add: symbol_bits_def pending_def bk p'(1))
  finally have bits: "pending s @ bits 4 nibble = symbol_bits emit @ pending nxt" .
  have "nat (16 * ?e + uint nibble) = 16 * nat ?e + ?i" "nat (16 * ?n + uint nibble) = 16 * nat ?n + ?i"
    using fit(1,3) by (simp_all add: nat_add_distrib nat_mult_distrib)
  moreover have idx: "16 * nat ?e + ?i < 3984" "16 * nat ?n + ?i < 768" using fit(1-4) assms(3) by linarith+
  ultimately have "huff_nibble nibble (s, o1) = Some (nxt, o1 @ (if 0 \<le> emit \<and> emit < 256 then [of_int emit] else []))"
    using s s' r idx by (simp add: huff_nibble_def emit_def [symmetric] nxt_def [symmetric])
  then show thesis using that [of emit nxt] r bits by blast
qed

section \<open>The run of the machine\<close>

text \<open>The octets among the completed symbols: neither \<open>-1\<close> for none nor the end of the string is one.\<close>

definition emitted :: "int list \<Rightarrow> octets" where
  "emitted es = map of_int (filter (\<lambda>e. 0 \<le> e \<and> e < 256) es)"

text \<open>
  A machine reads symbols of a code off its input: every state stands for the bits that are still
  open, and a step turns its own bits into the codes it completes and the bits of the next state.
\<close>

locale code_reader =
  fixes delta :: "'n \<Rightarrow> int \<times> octets \<Rightarrow> (int \<times> octets) option"
    and input_bits :: "'n \<Rightarrow> bool list"
    and valid :: "int \<Rightarrow> bool"
  assumes delta: "valid s \<Longrightarrow> \<exists>s' es. delta n (s, o1) = Some (s', o1 @ emitted es) \<and> valid s' \<and> set es \<subseteq> {- 1..256} \<and>
      pending s @ input_bits n = concat (map symbol_bits es) @ pending s'"
begin

lemma run:
  "valid s \<Longrightarrow> \<exists>s' es. foldM delta ns (s, o1) = Some (s', o1 @ emitted es) \<and> valid s' \<and> set es \<subseteq> {- 1..256} \<and>
     pending s @ concat (map input_bits ns) = concat (map symbol_bits es) @ pending s'"
proof (induction ns arbitrary: s o1)
  case Nil
  then show ?case by (intro exI [of _ s] exI [of _ "[]"]) (simp add: emitted_def)
next
  case (Cons n ns)
  obtain s1 es where 1: "delta n (s, o1) = Some (s1, o1 @ emitted es)" "valid s1" "set es \<subseteq> {- 1..256}"
    "pending s @ input_bits n = concat (map symbol_bits es) @ pending s1" using delta [OF Cons.prems] by blast
  obtain s2 fs where 2: "foldM delta ns (s1, o1 @ emitted es) = Some (s2, (o1 @ emitted es) @ emitted fs)" "valid s2" "set fs \<subseteq> {- 1..256}"
    "pending s1 @ concat (map input_bits ns) = concat (map symbol_bits fs) @ pending s2" using Cons.IH [OF 1(2)] by blast
  have "pending s @ concat (map input_bits (n # ns)) = concat (map symbol_bits (es @ fs)) @ pending s2"
    using 1(4) 2(4) by simp (metis append.assoc)
  moreover have "foldM delta (n # ns) (s, o1) = Some (s2, o1 @ emitted (es @ fs))" using 1(1) 2(1) by (simp add: emitted_def)
  moreover have "set (es @ fs) \<subseteq> {- 1..256}" using 1(3) 2(3) by simp
  ultimately show ?case using 2(2) by blast
qed

end

definition is_state :: "int \<Rightarrow> bool" where
  "is_state s \<longleftrightarrow> 0 \<le> s \<and> s < 256"

definition nibble_of :: "u8 \<Rightarrow> u8" where
  "nibble_of n = n AND 0xf"

interpretation nibbles: code_reader "\<lambda>n. huff_nibble (nibble_of n)" "\<lambda>n. bits 4 (nibble_of n)" is_state
proof
  fix s n o1
  assume "is_state s"
  moreover have "nibble_of n \<le> 0xf" unfolding nibble_of_def by (rule word_and_le1)
  then have "unat (nibble_of n) < 16" by (simp add: word_le_nat_alt)
  ultimately obtain e s' where e: "- 1 \<le> e" "e \<le> 256" "0 \<le> s'" "s' < 256"
    "huff_nibble (nibble_of n) (s, o1) = Some (s', o1 @ (if 0 \<le> e \<and> e < 256 then [of_int e] else []))"
    "pending s @ bits 4 (nibble_of n) = symbol_bits e @ pending s'" using nibble_step unfolding is_state_def by metis
  then show "\<exists>s' es. huff_nibble (nibble_of n) (s, o1) = Some (s', o1 @ emitted es) \<and> is_state s' \<and> set es \<subseteq> {- 1..256} \<and>
      pending s @ bits 4 (nibble_of n) = concat (map symbol_bits es) @ pending s'"
    by (intro exI [of _ s'] exI [of _ "[e]"]) (auto simp: emitted_def is_state_def)
qed

lemma octet_nibbles:
  "huff_octet p st = foldM (\<lambda>n. huff_nibble (nibble_of n)) [drop_bit 4 p, p] st"
  "bits 8 p = bits 4 (nibble_of (drop_bit 4 p)) @ bits 4 (nibble_of p)"
proof -
  have m: "nibble_of n = take_bit 4 n" for n by (simp add: nibble_of_def take_bit_eq_mask mask_eq_exp_minus_1)
  have d: "nibble_of (drop_bit 4 p) = drop_bit 4 p" by (rule octet_eqI) (auto simp: m bit_simps octet_bit_out)
  show "huff_octet p st = foldM (\<lambda>n. huff_nibble (nibble_of n)) [drop_bit 4 p, p] st"
    by (cases "huff_nibble (drop_bit 4 p) st") (simp_all add: huff_octet_def d, simp add: nibble_of_def)
  show "bits 8 p = bits 4 (nibble_of (drop_bit 4 p)) @ bits 4 (nibble_of p)"
    by (simp add: bits_def m bit_simps upt_conv_Cons numeral_eq_Suc)
qed

interpretation octet: code_reader huff_octet "bits 8" is_state
proof
  fix s p o1
  assume "is_state s"
  from nibbles.run [OF this, of "[drop_bit 4 p, p]" o1]
  show "\<exists>s' es. huff_octet p (s, o1) = Some (s', o1 @ emitted es) \<and> is_state s' \<and> set es \<subseteq> {- 1..256} \<and>
      pending s @ bits 8 p = concat (map symbol_bits es) @ pending s'"
    unfolding octet_nibbles(1) octet_nibbles(2) [of p] by simp
qed

lemma code_not_ones: "\<not> list_all (\<lambda>b. b) (code c)"
proof
  assume "list_all (\<lambda>b. b) (code c)"
  then have "code c = replicate (code_length c) True" by (metis (full_types) length_code list_all_iff replicate_eqI)
  then have "val (code c) = val (replicate (code_length c) True)" by simp
  also have "val (replicate n True) = 2 ^ n - 1" for n
    by (induction n) (simp_all add: val_append [of "[True]", simplified] val_def horner_sum_append)
  finally have v: "unat (fst (grpc_chttp2_huffsyms ! unat c)) = 2 ^ code_length c - 1" by (simp add: val_code)
  have "int (unat (fst (grpc_chttp2_huffsyms ! unat c))) = 2 ^ code_length c - 1" unfolding v by (simp add: of_nat_diff)
  then have u: "uint (fst (grpc_chttp2_huffsyms ! unat c)) = 2 ^ code_length c - 1" by simp
  show False using octets_not_ones unat_octet [of c] u
    by (auto simp: list_all_length code_length_def split_def dest: spec [of _ "unat c"])
qed

lemma code_in_ones:
  assumes "code c @ xs = replicate n True @ ys" "code_length c \<le> n"
  shows False
proof -
  have "code c = take (code_length c) (replicate n True @ ys)" using assms(1) by (metis append_eq_conv_conj length_code)
  then have "list_all (\<lambda>b. b) (code c)" using assms(2) by (simp add: list_all_iff)
  then show False using code_not_ones by blast
qed

text \<open>Codes, up to a part of a further code, that are followed by less than eight ones are decoded in one way only.\<close>

lemma symbols_unique:
  assumes "set es \<subseteq> {- 1..256}" "is_state s"
    and "concat (map symbol_bits es) @ pending s = code_bits t @ replicate n True" "n < 8"
  shows "emitted es = t"
  using assms(1,3)
proof (induction es arbitrary: t)
  case Nil
  from assms(2) obtain w r where w: "r \<noteq> []" "code w = pending s @ r" unfolding is_state_def by (metis state_bits_at)
  have False if "t = c # t'" for c t'
  proof -
    have "code w = code c @ (code_bits t' @ replicate n True @ r)" using Nil.prems w(2) that by simp
    from this code_prefix_free [OF this] w(1) show False by simp
  qed
  then show ?case by (cases t) (auto simp: emitted_def)
next
  case (Cons e es)
  consider "e = - 1" | "0 \<le> e" "e < 256" | "e = 256" using Cons.prems(1) by force
  then show ?case
  proof cases
    case 1
    then show ?thesis using Cons.IH [of t] Cons.prems by (simp add: symbol_bits(1) emitted_def)
  next
    case 2
    then have bits: "code (of_int e) @ (concat (map symbol_bits es) @ pending s) = code_bits t @ replicate n True"
      using Cons.prems(2) by (simp add: symbol_bits(2))
    show ?thesis
    proof (cases t)
      case Nil
      have "code_length (of_int e) \<le> n" using arg_cong [OF bits, of length] Nil by simp
      then show ?thesis using code_in_ones [of _ _ n "[]"] bits Nil by auto
    next
      case (Cons c t')
      then have "of_int e = c \<and> concat (map symbol_bits es) @ pending s = code_bits t' @ replicate n True"
        using code_split [of "of_int e" _ c] bits by simp
      then show ?thesis using Cons.IH [of t'] Cons.prems(1) 2 Cons by (simp add: emitted_def)
    qed
  next
    case 3
    then have bits: "replicate 30 True @ (concat (map symbol_bits es) @ pending s) = code_bits t @ replicate n True"
      using Cons.prems(2) by (simp add: symbol_bits(3))
    show ?thesis
    proof (cases t)
      case Nil
      then show ?thesis using arg_cong [OF bits, of length] assms(4) by simp
    next
      case (Cons c t')
      then show ?thesis using code_in_ones [of c _ 30] bits code_range(2) [of c] by (metis append.assoc code_bits_simps(2))
    qed
  qed
qed

lemma machine_run:
  obtains s es where "foldM huff_octet ps (0, []) = Some (s, emitted es)" "is_state s" "set es \<subseteq> {- 1..256}"
    "octet_bits ps = concat (map symbol_bits es) @ pending s"
proof -
  have "pending 0 = []" by (simp add: pending_def state_bits_def)
  then show thesis using octet.run [of 0 ps "[]"] that by (auto simp: is_state_def octet_bits_def)
qed

lemma machine_decodes:
  assumes "octet_bits ps = pad_ones (code_bits t)"
  shows "\<exists>s. foldM huff_octet ps (0, []) = Some (s, t)"
proof -
  obtain s es where run: "foldM huff_octet ps (0, []) = Some (s, emitted es)" "is_state s" "set es \<subseteq> {- 1..256}"
    "octet_bits ps = concat (map symbol_bits es) @ pending s" by (rule machine_run)
  have "emitted es = t"
  proof (rule symbols_unique [OF run(3,2)])
    show "concat (map symbol_bits es) @ pending s = code_bits t @ replicate ((8 - length (code_bits t) mod 8) mod 8) True"
      using run(4) assms by (simp add: pad_ones_def)
  qed (rule mod_less_divisor, simp)
  then show ?thesis using run(1) by blast
qed

lemma ParseHuff_total: "\<exists>r i'. ParseHuff len i = Some (r, i')"
  by (rule machine_run [of "take len (drop (in_begin i) (in_bytes i))"]) (auto simp: ParseHuff_def)

lemma ParseHuff_decodes:
  assumes "octet_bits ps = pad_ones (code_bits t)" "take (length ps) (drop (in_begin i) (in_bytes i)) = ps" 
    "length ps \<le> remaining i"
  shows "ParseHuff (length ps) i = Some (Some t, Advance (length ps) i)"
  using machine_decodes [OF assms(1)] assms(2,3) by (auto simp: ParseHuff_def)

section \<open>Base64\<close>

lemma sextet_sym: "unat i < 64 \<Longrightarrow> sextet (sym i) = Some (ucast i)"
proof -
  assume i: "unat i < 64"
  have "list_all2 (\<lambda>c n. Base64InverseTable ! unat c = of_nat n) alphabet [0..<64]" by code_simp
  then have "Base64InverseTable ! unat (sym i) = of_nat (unat i)"
    using i by (auto simp: list_all2_conv_all_nth sym_def dest: spec [of _ "unat i"])
  moreover have "unat (ucast i :: u32) = unat i"
    using i by (simp add: unsigned_ucast_eq take_bit_nat_eq_self)
  then have "\<not> (63 :: u32) < ucast i" using i by (simp add: word_less_nat_alt)
  ultimately show ?thesis by (simp add: sextet_def Let_def)
qed

lemma octet_of_u32: "bit (ucast (x :: u32) :: u8) n \<longleftrightarrow> n < 8 \<and> bit x n"
  by (simp add: bit_simps)

lemma join_sextets:
  fixes a b c :: u8
  defines "buffer \<equiv> push_bit 18 (ucast (six1 a)) OR push_bit 12 (ucast (six2 a b)) OR push_bit 6 (ucast (six3 b c)) OR ucast (six4 c) :: u32"
  shows "ucast (drop_bit 16 buffer) = a" "ucast (drop_bit 8 buffer) = b" "ucast buffer = c"
  unfolding buffer_def six1_def six2_def six3_def six4_def low_masks
  by (rule octet_eqI; simp add: bit_simps octet_bit_out)+

lemma join_one:
  fixes a :: u8
  defines "buffer \<equiv> push_bit 18 (ucast (six1 a)) OR push_bit 12 (ucast (six2 a 0)) :: u32"
  shows "buffer AND 0xffff = 0" "ucast (drop_bit 16 buffer) = a"
proof -
  show "ucast (drop_bit 16 buffer) = a"
    unfolding buffer_def six1_def six2_def low_masks by (rule octet_eqI; simp add: bit_simps octet_bit_out)
  have "buffer AND 0xffff = take_bit 16 buffer" by (simp add: take_bit_eq_mask mask_eq_exp_minus_1)
  then show "buffer AND 0xffff = 0"
    unfolding buffer_def six1_def six2_def low_masks by (simp only:) (rule bit_word_eqI, auto simp: bit_simps)
qed

lemma join_two:
  fixes a b :: u8
  defines "buffer \<equiv> push_bit 18 (ucast (six1 a)) OR push_bit 12 (ucast (six2 a b)) OR push_bit 6 (ucast (six3 b 0)) :: u32"
  shows "buffer AND 0xff = 0" "ucast (drop_bit 16 buffer) = a" "ucast (drop_bit 8 buffer) = b"
proof -
  show "ucast (drop_bit 16 buffer) = a" "ucast (drop_bit 8 buffer) = b"
    unfolding buffer_def six1_def six2_def six3_def low_masks by (rule octet_eqI; simp add: bit_simps octet_bit_out)+
  have "buffer AND 0xff = take_bit 8 buffer" by (simp add: take_bit_eq_mask mask_eq_exp_minus_1)
  then show "buffer AND 0xff = 0"
    unfolding buffer_def six1_def six2_def six3_def low_masks by (simp only:) (rule bit_word_eqI, auto simp: bit_simps)
qed

lemma unbase64_triplets:
  assumes "encode_triplets n ins = Some e" "3 * n \<le> length ins" "unbase64_octets r = Some w"
  shows "unbase64_octets (e @ r) = Some (take (3 * n) ins @ w)"
  using assms(1,2)
proof (induction n arbitrary: ins e)
  case 0
  then show ?case using assms(3) by simp
next
  case (Suc n)
  from take_drop_triplet [OF Suc.prems(2)] obtain a b c t where ins: "ins = a # b # c # t" "3 * n \<le> length t" by blast
  with Suc.prems(1) obtain e' where e: "encode_triplets n t = Some e'"
      "e = sym (six1 a) # sym (six2 a b) # sym (six3 b c) # sym (six4 c) # e'"
    by (auto simp: encode_triplets_six simp del: encode_triplets.simps(2) split: bind_splits)
  show ?case using Suc.IH [OF e(1) ins(2)]
    by (simp add: e(2) ins(1) sextet_sym six_below join_sextets take_triplet Let_def del: drop_bit_or)
qed

lemma unbase64_tail:
  assumes "length t < 3" "encode_tail t = Some e"
  shows "unbase64_octets e = Some t"
  using assms(1)
proof (cases rule: encode_tail_cases)
  case 1
  then show ?thesis using assms by simp
next
  case (2 a)
  then show ?thesis using assms(2) join_one [of a]
    by (auto simp: encode_tail_six sextet_sym six_below Let_def simp del: encode_tail.simps drop_bit_or)
next
  case (3 a b)
  then show ?thesis using assms(2) join_two [of a b]
    by (auto simp: encode_tail_six sextet_sym six_below Let_def simp del: encode_tail.simps drop_bit_or)
qed

lemma dropWhile_pad: "list_all (\<lambda>c. c \<noteq> x) e \<Longrightarrow> rev (dropWhile (\<lambda>c. c = x) (rev (e @ replicate n x))) = e"
proof -
  assume e: "list_all (\<lambda>c. c \<noteq> x) e"
  have "dropWhile (\<lambda>c. c = x) (replicate n x @ ys) = dropWhile (\<lambda>c. c = x) ys" for ys by (induction n) auto
  moreover have "dropWhile (\<lambda>c. c = x) (rev e) = rev e" using e by (cases e rule: rev_cases) auto
  ultimately show ?thesis by simp
qed

lemma Unbase64Loop_encoded:
  assumes "grpc_chttp2_base64_encode s = Some e"
  shows "Unbase64Loop (e @ replicate n 0x3d) = Some s"
proof -
  obtain m t e1 e2 where s: "length s = 3 * m + length t" "s = take (3 * m) s @ t" "length t < 3"
    "encode_triplets m s = Some e1" "length e1 = 4 * m" "encode_tail t = Some e2"
    "grpc_chttp2_base64_encode s = Some (e1 @ e2)" "list_all (\<lambda>c. c \<noteq> 0x3d) (e1 @ e2)"
    using encode_split [of s] .
  have "3 * m \<le> length s" using s(1) by simp
  with unbase64_triplets [OF s(4) _ unbase64_tail [OF s(3,6)]] have "unbase64_octets (e1 @ e2) = Some s" using s(2) by simp
  then show ?thesis using s(7,8) assms dropWhile_pad [of "0x3d" e n] by (simp add: Unbase64Loop_def)
qed

lemma decoded_length: "ParseHuff len i = Some (Some t, i') \<Longrightarrow> 5 * length t \<le> 8 * len"
proof -
  assume t: "ParseHuff len i = Some (Some t, i')"
  let ?ps = "take len (drop (in_begin i) (in_bytes i))"
  obtain s es where run: "foldM huff_octet ?ps (0, []) = Some (s, emitted es)" "set es \<subseteq> {- 1..256}"
    "octet_bits ?ps = concat (map symbol_bits es) @ pending s" by (rule machine_run)
  have "5 * length (emitted es) \<le> length (concat (map symbol_bits es))" using run(2)
  proof (induction es)
    case (Cons e es)
    consider "e = - 1" | "0 \<le> e" "e < 256" | "e = 256" using Cons.prems by force
    then show ?case using Cons code_range(1) [of "of_int e"] by cases (simp_all add: emitted_def symbol_bits)
  qed (simp add: emitted_def)
  also have "\<dots> \<le> length (octet_bits ?ps)" by (simp add: run(3))
  also have "\<dots> \<le> 8 * len" by simp
  finally show ?thesis using run(1) t by (simp add: ParseHuff_def split: if_splits)
qed

section \<open>Results\<close>

text \<open>
  C39: huffman_round_trip: the state machine of the parser gives back what the Huffman encoder has
  compressed, from any place of the input, unless a symbol with a code of more than 24 bits occurs.
\<close>

theorem huffman_round_trip:
  assumes "list_all (\<lambda>c. code_length c \<le> 24) s" "grpc_chttp2_huffman_compress s = Some os"
    and "in_bytes i = before @ os @ after" "in_begin i = length before"
  shows "ParseHuff (length os) i = Some (Some s, Advance (length os) i)"
proof (rule ParseHuff_decodes)
  show "octet_bits os = pad_ones (code_bits s)" using huffman_compress_code [OF assms(1)] assms(2) by auto
qed (simp_all add: assms remaining_def)

theorem huffman_round_trip_witness:
  "ParseHuff 3 (Input [0xf1, 0xe3, 0xc7]) = Some (Some [0x77, 0x77, 0x77], Advance 3 (Input [0xf1, 0xe3, 0xc7]))"
proof -
  have "list_all (\<lambda>c. code_length c \<le> 24) [0x77, 0x77, 0x77]" by code_simp
  moreover have "grpc_chttp2_huffman_compress [0x77, 0x77, 0x77] = Some [0xf1, 0xe3, 0xc7]" by code_simp
  ultimately show ?thesis
    using huffman_round_trip [of "[0x77, 0x77, 0x77]" "[0xf1, 0xe3, 0xc7]" "Input [0xf1, 0xe3, 0xc7]" "[]" "[]"]
    by (simp add: Input_def numeral_eq_Suc)
qed

text \<open>
  huffman_decode_total: whatever the octets, the machine stays inside its tables and passes its
  assertion, and a decoded string is at most 8/5 as long as its octets.
\<close>

theorem huffman_decode_total:
  "case ParseHuff len i of None \<Rightarrow> False
   | Some (None, i') \<Rightarrow> remaining i < len \<and> i' = UnexpectedEOF i
   | Some (Some t, i') \<Rightarrow> 5 * length t \<le> 8 * len \<and> i' = Advance len i"
proof -
  obtain r i' where r: "ParseHuff len i = Some (r, i')" using ParseHuff_total by blast
  then have "case r of None \<Rightarrow> remaining i < len \<and> i' = UnexpectedEOF i | Some t \<Rightarrow> i' = Advance len i"
    by (auto simp: ParseHuff_def split: if_splits bind_splits)
  then show ?thesis using r decoded_length by (auto split: option.splits)
qed

end
