(* ===== verification/Grpc_Hpack_Table.thy ===== *)
theory Grpc_Hpack_Table
  imports Grpc_Base
begin

text \<open>
  The dynamic tables of HPACK: what the encoder knows of the table of its peer
  (\<open>hpack_encoder_table.cc\<close>), and the table of the parser (\<open>hpack_parser_table.cc\<close>), with the
  constants of \<open>hpack_constants.h\<close>.

  A header field in the table (\<open>ParsedMetadata\<close>) is a record of its key, its value and its size for the
  purposes of the table; a moved-from or default-constructed one is \<open>None\<close>, and using one is an error of
  the model. Sizes of vectors and slices (\<open>size_t\<close>) are \<open>nat\<close>. Tracing is left out.
\<close>

section \<open>Constants\<close>

definition kEntryOverhead :: u32 where "kEntryOverhead = 32"
definition kInitialTableSize :: u32 where "kInitialTableSize = 4096"
definition kLastStaticEntry :: u32 where "kLastStaticEntry = 61"

definition EntriesForBytes :: "u32 \<Rightarrow> u32" where
  "EntriesForBytes bytes = (bytes + kEntryOverhead - 1) div kEntryOverhead"

definition kInitialTableEntries :: u32 where
  "kInitialTableEntries = EntriesForBytes kInitialTableSize"

section \<open>The encoder's view\<close>

record enc_table =
  tail_remote_index :: u32
  max_table_size :: u32
  table_elems :: u32
  table_size :: u32
  elem_size :: "u16 list"

definition HPackEncoderTable :: enc_table where
  "HPackEncoderTable =
     \<lparr>tail_remote_index = 0, max_table_size = kInitialTableSize, table_elems = 0, table_size = 0,
      elem_size = replicate (unat kInitialTableEntries) 0\<rparr>"

definition MaxEntrySize :: nat where "MaxEntrySize = 65535"

definition enc_EvictOne :: "enc_table \<Rightarrow> enc_table option" where
  "enc_EvictOne t =
     do { let tail = tail_remote_index t + 1;
          assert_c (tail > 0);
          assert_c (table_elems t > 0);
          removing_size \<leftarrow> fetch (elem_size t) (unat tail mod length (elem_size t));
          assert_c (table_size t \<ge> ucast removing_size);
          Some (t\<lparr>tail_remote_index := tail, table_size := table_size t - ucast removing_size,
                  table_elems := table_elems t - 1\<rparr>) }"

lemma unat_pred: "(0::u32) < v \<Longrightarrow> unat (v - 1) = unat v - 1"
  by (simp add: unat_minus_one word_greater_zero_iff)

lemma pred_less: "(0::u32) < v \<Longrightarrow> v - 1 < v"
  using unat_pred [of v] by (simp add: word_less_nat_alt)

lemma enc_EvictOne_fewer: "enc_EvictOne t = Some t' \<Longrightarrow> unat (table_elems t') < unat (table_elems t)"
  by (auto simp: enc_EvictOne_def Let_def pred_less word_less_nat_alt [symmetric] split: bind_splits)

text \<open>The loops \<open>while (c) EvictOne()\<close>.\<close>

function enc_evict_while :: "(enc_table \<Rightarrow> bool) \<Rightarrow> enc_table \<Rightarrow> enc_table option" where
  "enc_evict_while c t = (if c t then do { t' \<leftarrow> enc_EvictOne t; enc_evict_while c t' } else Some t)"
  by pat_completeness auto

termination
  by (relation "measure (\<lambda>(c, t). unat (table_elems t))") (auto dest: enc_EvictOne_fewer)

declare enc_evict_while.simps [simp del]

definition enc_Rebuild :: "u32 \<Rightarrow> enc_table \<Rightarrow> enc_table option" where
  "enc_Rebuild capacity t =
     do { assert_c (table_elems t \<le> capacity);
          sizes \<leftarrow> foldM (\<lambda>i sizes.
              do { let ofs = tail_remote_index t + of_nat i + 1;
                   s \<leftarrow> fetch (elem_size t) (unat ofs mod length (elem_size t));
                   store sizes (unat (ofs mod capacity)) s })
            [0..<unat (table_elems t)] (replicate (unat capacity) 0);
          Some (t\<lparr>elem_size := sizes\<rparr>) }"

definition AllocateIndex :: "nat \<Rightarrow> enc_table \<Rightarrow> (u32 \<times> enc_table) option" where
  "AllocateIndex element_size t =
     do { let new_index = tail_remote_index t + table_elems t + 1;
          assert_c (element_size \<le> MaxEntrySize);
          if element_size > unat (max_table_size t)
          then do { t \<leftarrow> enc_evict_while (\<lambda>t. table_size t > 0) t; Some (0, t) }
          else do { t \<leftarrow> enc_evict_while (\<lambda>t. unat (table_size t) + element_size > unat (max_table_size t)) t;
                    assert_c (unat (table_elems t) < length (elem_size t));
                    sizes \<leftarrow> store (elem_size t) (unat new_index mod length (elem_size t)) (of_nat element_size);
                    Some (new_index, t\<lparr>elem_size := sizes, table_size := table_size t + of_nat element_size,
                                       table_elems := table_elems t + 1\<rparr>) } }"

definition SetMaxSize :: "u32 \<Rightarrow> enc_table \<Rightarrow> (bool \<times> enc_table) option" where
  "SetMaxSize new_size t =
     (if new_size = max_table_size t then Some (False, t)
      else do { t \<leftarrow> enc_evict_while (\<lambda>t. table_size t > 0 \<and> table_size t > new_size) t;
                let t = t\<lparr>max_table_size := new_size\<rparr>;
                let max_table_elems = EntriesForBytes new_size;
                t \<leftarrow> (if unat max_table_elems > length (elem_size t)
                     then enc_Rebuild (of_nat (max (unat max_table_elems) (2 * length (elem_size t)))) t
                     else Some t);
                Some (True, t) })"

definition DynamicIndex :: "enc_table \<Rightarrow> u32 \<Rightarrow> u32" where
  "DynamicIndex t index = 1 + kLastStaticEntry + tail_remote_index t + table_elems t - index"

definition ConvertableToDynamicIndex :: "enc_table \<Rightarrow> u32 \<Rightarrow> bool" where
  "ConvertableToDynamicIndex t index \<longleftrightarrow> index > tail_remote_index t"

section \<open>The table of the parser\<close>

record memento =
  md_key :: octets
  md_value :: octets
  transport_size :: u32

record hpack_table =
  first_entry :: u32
  num_entries :: u32
  mem_used :: u32
  max_bytes :: u32
  current_table_bytes :: u32
  max_entries :: u32
  entries :: "memento option list"

definition HPackTable :: hpack_table where
  "HPackTable =
     \<lparr>first_entry = 0, num_entries = 0, mem_used = 0, max_bytes = kInitialTableSize,
      current_table_bytes = kInitialTableSize, max_entries = kInitialTableEntries,
      entries = replicate (unat kInitialTableEntries) None\<rparr>"

definition kStaticTable :: "(string \<times> string) list" where
  "kStaticTable =
    [('':authority'', ''''), ('':method'', ''GET''), ('':method'', ''POST''), ('':path'', ''/''),
     ('':path'', ''/index.html''), ('':scheme'', ''http''), ('':scheme'', ''https''),
     ('':status'', ''200''), ('':status'', ''204''), ('':status'', ''206''), ('':status'', ''304''),
     ('':status'', ''400''), ('':status'', ''404''), ('':status'', ''500''), (''accept-charset'', ''''),
     (''accept-encoding'', ''gzip, deflate''), (''accept-language'', ''''), (''accept-ranges'', ''''),
     (''accept'', ''''), (''access-control-allow-origin'', ''''), (''age'', ''''), (''allow'', ''''),
     (''authorization'', ''''), (''cache-control'', ''''), (''content-disposition'', ''''),
     (''content-encoding'', ''''), (''content-language'', ''''), (''content-length'', ''''),
     (''content-location'', ''''), (''content-range'', ''''), (''content-type'', ''''),
     (''cookie'', ''''), (''date'', ''''), (''etag'', ''''), (''expect'', ''''), (''expires'', ''''),
     (''from'', ''''), (''host'', ''''), (''if-match'', ''''), (''if-modified-since'', ''''),
     (''if-none-match'', ''''), (''if-range'', ''''), (''if-unmodified-since'', ''''),
     (''last-modified'', ''''), (''link'', ''''), (''location'', ''''), (''max-forwards'', ''''),
     (''proxy-authenticate'', ''''), (''proxy-authorization'', ''''), (''range'', ''''),
     (''referer'', ''''), (''refresh'', ''''), (''retry-after'', ''''), (''server'', ''''),
     (''set-cookie'', ''''), (''strict-transport-security'', ''''), (''transfer-encoding'', ''''),
     (''user-agent'', ''''), (''vary'', ''''), (''via'', ''''), (''www-authenticate'', '''')]"

definition octets_of :: "string \<Rightarrow> octets" where
  "octets_of s = map of_char s"

definition MakeMemento :: "string \<times> string \<Rightarrow> memento" where
  "MakeMemento sm =
     \<lparr>md_key = octets_of (fst sm), md_value = octets_of (snd sm),
      transport_size = of_nat (length (fst sm)) + of_nat (length (snd sm)) + kEntryOverhead\<rparr>"

definition static_metadata :: "memento list" where
  "static_metadata = map MakeMemento kStaticTable"

definition dec_EvictOne :: "hpack_table \<Rightarrow> hpack_table option" where
  "dec_EvictOne t =
     do { slot \<leftarrow> fetch (entries t) (unat (first_entry t));
          md \<leftarrow> slot;
          assert_c (transport_size md \<le> mem_used t);
          Some (t\<lparr>entries := (entries t)[unat (first_entry t) := None], mem_used := mem_used t - transport_size md,
                  first_entry := of_nat (unat (first_entry t + 1) mod length (entries t)),
                  num_entries := num_entries t - 1\<rparr>) }"

partial_function (option) dec_evict_while :: "(hpack_table \<Rightarrow> bool) \<Rightarrow> hpack_table \<Rightarrow> hpack_table option" where
  [code]: "dec_evict_while c t = (if c t then do { t' \<leftarrow> dec_EvictOne t; dec_evict_while c t' } else Some t)"

definition dec_Rebuild :: "u32 \<Rightarrow> hpack_table \<Rightarrow> hpack_table option" where
  "dec_Rebuild new_cap t =
     do { es \<leftarrow> foldM (\<lambda>i es.
              do { e \<leftarrow> fetch (entries t) ((unat (first_entry t) + i) mod length (entries t));
                   store es i e })
            [0..<unat (num_entries t)] (replicate (unat new_cap) None);
          Some (t\<lparr>first_entry := 0, entries := es\<rparr>) }"

definition SetMaxBytes :: "u32 \<Rightarrow> hpack_table \<Rightarrow> hpack_table option" where
  "SetMaxBytes bytes t =
     (if max_bytes t = bytes then Some t
      else do { t \<leftarrow> dec_evict_while (\<lambda>t. mem_used t > bytes) t;
                Some (t\<lparr>max_bytes := bytes\<rparr>) })"

definition resize_entries :: "hpack_table \<Rightarrow> hpack_table option" where
  "resize_entries t =
     (if unat (max_entries t) > length (entries t) then dec_Rebuild (max_entries t) t
      else if unat (max_entries t) < length (entries t) div 3
      then let new_cap = max (max_entries t) kInitialTableEntries
           in if unat new_cap \<noteq> length (entries t) then dec_Rebuild new_cap t else Some t
      else Some t)"

text \<open>\<open>False\<close> stands for the error the functions return.\<close>

definition SetCurrentTableSize :: "u32 \<Rightarrow> hpack_table \<Rightarrow> (bool \<times> hpack_table) option" where
  "SetCurrentTableSize bytes t =
     (if current_table_bytes t = bytes then Some (True, t)
      else if bytes > max_bytes t then Some (False, t)
      else do { t \<leftarrow> dec_evict_while (\<lambda>t. mem_used t > bytes) t;
                let t = t\<lparr>current_table_bytes := bytes, max_entries := EntriesForBytes bytes\<rparr>;
                t \<leftarrow> resize_entries t;
                Some (True, t) })"

definition Add_to_table :: "memento \<Rightarrow> hpack_table \<Rightarrow> (bool \<times> hpack_table) option" where
  "Add_to_table md t =
     (if current_table_bytes t > max_bytes t then Some (False, t)
      else if transport_size md > current_table_bytes t
      then do { t \<leftarrow> dec_evict_while (\<lambda>t. num_entries t \<noteq> 0) t; Some (True, t) }
      else do { t \<leftarrow> dec_evict_while
                  (\<lambda>t. (ucast (transport_size md) :: u64) > ucast (current_table_bytes t) - ucast (mem_used t)) t;
                es \<leftarrow> store (entries t) (unat (first_entry t + num_entries t) mod length (entries t)) (Some md);
                Some (True, t\<lparr>mem_used := mem_used t + transport_size md, entries := es,
                              num_entries := num_entries t + 1\<rparr>) })"

text \<open>The result is \<open>None\<close> for the null pointer.\<close>

definition LookupDynamic :: "u32 \<Rightarrow> hpack_table \<Rightarrow> memento option option" where
  "LookupDynamic index t =
     do { let tbl_index = index - (kLastStaticEntry + 1);
          if tbl_index < num_entries t
          then do { let offset = unat (num_entries t - 1 - tbl_index + first_entry t) mod length (entries t);
                    slot \<leftarrow> fetch (entries t) offset;
                    md \<leftarrow> slot;
                    Some (Some md) }
          else Some None }"

definition Lookup_hpack :: "u32 \<Rightarrow> hpack_table \<Rightarrow> memento option option" where
  "Lookup_hpack index t =
     (if index \<le> kLastStaticEntry
      then do { md \<leftarrow> fetch static_metadata (unat (index - 1)); Some (Some md) }
      else LookupDynamic index t)"

section \<open>Eviction as a specification\<close>

text \<open>
  A table is the list of its entries, the oldest first. Eviction keeps the newest entries: the
  longest suffix of at most \<open>n\<close> bytes.
\<close>

definition total :: "('m \<Rightarrow> nat) \<Rightarrow> 'm list \<Rightarrow> nat" where
  "total sz ms = (\<Sum>m\<leftarrow>ms. sz m)"

lemma total_simps [simp]:
  "total sz [] = 0" "total sz (m # ms) = sz m + total sz ms" "total sz (xs @ ys) = total sz xs + total sz ys"
  by (simp_all add: total_def)

fun newest :: "('m \<Rightarrow> nat) \<Rightarrow> nat \<Rightarrow> 'm list \<Rightarrow> 'm list" where
  "newest sz n [] = []"
| "newest sz n (m # ms) = (if total sz (m # ms) > n then newest sz n ms else m # ms)"

lemma total_newest: "total sz (newest sz n ms) \<le> n"
  by (induction ms) auto

lemma newest_all: "total sz ms \<le> n \<Longrightarrow> newest sz n ms = ms"
  by (cases ms) auto

lemma newest_suffix: "\<exists>xs. ms = xs @ newest sz n ms"
proof (induction ms)
  case (Cons m ms)
  then obtain xs where "ms = xs @ newest sz n ms" by blast
  then have "m # ms = (m # xs) @ newest sz n ms" by simp
  then show ?case by (metis append_Nil newest.simps(2))
qed simp

lemma set_newest: "set (newest sz n ms) \<subseteq> set ms"
  using newest_suffix [of ms sz n] by (metis Un_iff set_append subsetI)

lemma length_newest: "length (newest sz n ms) \<le> length ms"
  by (induction ms) auto

lemma newest_map: "newest (\<lambda>s. s) n (map sz ms) = map sz (newest sz n ms)"
proof (induction ms)
  case (Cons m ms)
  have "total (\<lambda>s. s) (map sz ms) = total sz ms" by (simp add: total_def o_def)
  then show ?case using Cons by simp
qed simp

lemma newest_0: "(\<And>m. m \<in> set ms \<Longrightarrow> 0 < sz m) \<Longrightarrow> newest sz 0 ms = []"
  by (induction ms) auto

lemma total_at_least: "(\<And>m. m \<in> set ms \<Longrightarrow> k \<le> sz m) \<Longrightarrow> k * length ms \<le> total sz ms"
  by (induction ms) (fastforce)+

text \<open>
  What both tables promise: evicting one entry removes the oldest one, and the loops repeat that
  while their condition holds. \<open>table_at c ms t\<close> says that the table \<open>t\<close> holds the entries \<open>ms\<close>; \<open>c\<close> is the
  part of the state that eviction leaves alone.
\<close>

locale evicting_table =
  fixes table_at :: "'c \<Rightarrow> 'm list \<Rightarrow> 't \<Rightarrow> bool"
    and sz :: "'m \<Rightarrow> nat"
    and evict :: "'t \<Rightarrow> 't option"
    and evict_while :: "('t \<Rightarrow> bool) \<Rightarrow> 't \<Rightarrow> 't option"
  assumes evict_oldest: "table_at c (m # ms) t \<Longrightarrow> \<exists>t'. evict t = Some t' \<and> table_at c ms t'"
    and evict_while_step: "evict_while p t = (if p t then do { t' \<leftarrow> evict t; evict_while p t' } else Some t)"
    and entry_size: "table_at c ms t \<Longrightarrow> m \<in> set ms \<Longrightarrow> 0 < sz m"
begin

lemma evict_to:
  assumes "table_at c ms t" "\<And>ms t. table_at c ms t \<Longrightarrow> p t \<longleftrightarrow> total sz ms > n"
  shows "\<exists>t'. evict_while p t = Some t' \<and> table_at c (newest sz n ms) t'"
  using assms(1)
proof (induction ms arbitrary: t)
  case Nil
  then have "\<not> p t" using assms(2) by fastforce
  then show ?case using Nil evict_while_step [of p t] by simp
next
  case (Cons m ms)
  show ?case
  proof (cases "p t")
    case True
    obtain t1 where t1: "evict t = Some t1" "table_at c ms t1" using evict_oldest [OF Cons.prems] by blast
    then show ?thesis using Cons.IH [OF t1(2)] True assms(2) [OF Cons.prems] evict_while_step [of p t] by simp
  next
    case False
    then show ?thesis using Cons.prems assms(2) [OF Cons.prems] evict_while_step [of p t] by simp
  qed
qed

lemma evict_all:
  assumes "table_at c ms t" "\<And>ms t. table_at c ms t \<Longrightarrow> p t \<longleftrightarrow> ms \<noteq> []"
  shows "\<exists>t'. evict_while p t = Some t' \<and> table_at c [] t'"
proof -
  have "p t \<longleftrightarrow> total sz ms > 0" if "table_at c ms t" for ms t
    using assms(2) [OF that] entry_size [OF that] by (cases ms) auto
  from evict_to [OF assms(1) this] newest_0 [of ms sz] entry_size [OF assms(1)] show ?thesis by simp
qed

end

section \<open>Rings\<close>

lemma ring_distinct:
  fixes a i j k :: nat
  assumes "(a + i) mod k = (a + j) mod k" "i < k" "j < k"
  shows "i = j"
proof -
  have le: "i = j" if "(a + j) mod k = (a + i) mod k" "i \<le> j" "j < k" for i j
  proof -
    have "k dvd (a + j) - (a + i)" using that mod_eq_dvd_iff_nat [of "a + i" "a + j" k] by simp
    then show ?thesis using that(2,3) by (cases "j - i = 0") (auto dest: dvd_imp_le)
  qed
  show ?thesis using le [of j i] le [of i j] assms by (cases "i \<le> j") auto
qed

text \<open>The loops that copy a ring.\<close>

lemma foldM_stores:
  assumes "\<And>i. i < n \<Longrightarrow> f i = Some (v i)" "\<And>i. i < n \<Longrightarrow> g i < length xs" "inj_on g {..<n}"
  shows "\<exists>ys. foldM (\<lambda>i xs. do { x \<leftarrow> f i; store xs (g i) x }) [0..<n] xs = Some ys \<and>
    length ys = length xs \<and> (\<forall>i < n. ys ! g i = v i)"
  using assms
proof (induction n)
  case (Suc n)
  then obtain ys where ys: "foldM (\<lambda>i xs. do { x \<leftarrow> f i; store xs (g i) x }) [0..<n] xs = Some ys"
      "length ys = length xs" "\<forall>i < n. ys ! g i = v i"
    by (auto simp: lessThan_Suc inj_on_insert)
  have "g n \<noteq> g i" if "i < n" for i using inj_onD [OF Suc.prems(3), of n i] that by auto
  then show ?case using ys Suc.prems(1,2) by (fastforce simp: foldM_append less_Suc_eq nth_list_update)
qed simp

section \<open>The encoder's table\<close>

text \<open>
  \<open>enc_at (M, K, N) ss t\<close>: the sizes \<open>ss\<close> are in the ring of \<open>K\<close> places, the newest entry has the index
  \<open>N\<close>, and \<open>M\<close> is the maximum size.
\<close>

definition enc_at :: "nat \<times> nat \<times> nat \<Rightarrow> nat list \<Rightarrow> enc_table \<Rightarrow> bool" where
  "enc_at c ss t \<longleftrightarrow> (case c of (M, K, N) \<Rightarrow>
     unat (max_table_size t) = M \<and> length (elem_size t) = K \<and> unat (tail_remote_index t) + length ss = N \<and> N < 2 ^ 32 \<and>
     unat (table_elems t) = length ss \<and> unat (table_size t) = total (\<lambda>s. s) ss \<and> length ss \<le> K \<and> 0 < K \<and>
     (\<forall>s \<in> set ss. 32 \<le> s \<and> s \<le> 65535) \<and>
     (\<forall>i < length ss. elem_size t ! ((unat (tail_remote_index t) + 1 + i) mod K) = of_nat (ss ! i)))"

lemma unat_small: "s \<le> 65535 \<Longrightarrow> unat (ucast (of_nat s :: u16) :: u32) = s"
  by (simp add: unsigned_ucast_eq unsigned_of_nat take_bit_nat_eq_self)

lemma enc_at_evict:
  assumes at: "enc_at (M, K, N) (s # ss) t"
  shows "\<exists>t'. enc_EvictOne t = Some t' \<and> enc_at (M, K, N) ss t'"
proof -
  let ?tail = "tail_remote_index t + 1"
  have tail: "unat ?tail = unat (tail_remote_index t) + 1"
    using at unat_add_below [of "tail_remote_index t" 1] by (simp add: enc_at_def)
  have s: "elem_size t ! (unat ?tail mod K) = of_nat s" "32 \<le> s" "s \<le> 65535"
    using at unfolding tail by (auto simp: enc_at_def dest: spec [of _ 0])
  have pos: "table_elems t > 0" "?tail > 0" "ucast (of_nat s :: u16) \<le> table_size t"
    using at tail s unat_small [OF s(3)] by (auto simp: enc_at_def word_less_nat_alt word_le_nat_alt)
  define t' where "t' = t\<lparr>tail_remote_index := ?tail, table_size := table_size t - ucast (of_nat s :: u16), table_elems := table_elems t - 1\<rparr>"
  have e: "enc_EvictOne t = Some t'"
    using at pos s by (simp add: enc_EvictOne_def enc_at_def t'_def Let_def)
  have "unat (table_size t - ucast (of_nat s :: u16)) = total (\<lambda>s. s) ss"
    using at pos(3) unat_small [OF s(3)] by (simp add: enc_at_def unat_sub)
  moreover have "unat (table_elems t - 1) = length ss" using at unat_pred [OF pos(1)] by (simp add: enc_at_def)
  moreover have "elem_size t ! ((unat ?tail + 1 + i) mod K) = of_nat (ss ! i)" if "i < length ss" for i
    using at that unfolding tail by (auto simp: enc_at_def dest: spec [of _ "Suc i"])
  ultimately have "enc_at (M, K, N) ss t'"
    using at by (auto simp: enc_at_def t'_def tail)
  with e show ?thesis by blast
qed

interpretation enc: evicting_table enc_at "\<lambda>s. s" enc_EvictOne enc_evict_while
proof
  fix c s ss t assume "enc_at c (s # ss) t"
  then show "\<exists>t'. enc_EvictOne t = Some t' \<and> enc_at c ss t'" using enc_at_evict by (cases c) blast
next
  show "enc_evict_while p t = (if p t then do { t' \<leftarrow> enc_EvictOne t; enc_evict_while p t' } else Some t)" for p t
    by (rule enc_evict_while.simps)
next
  show "enc_at c ms t \<Longrightarrow> m \<in> set ms \<Longrightarrow> 0 < m" for c ms t m by (cases c) (fastforce simp: enc_at_def)
qed

text \<open>An entry of \<open>s\<close> bytes is added when it has a place.\<close>

lemma enc_at_append:
  assumes at: "enc_at (M, K, N) ss t" and s: "32 \<le> s" "s \<le> 65535" and K: "length ss < K" and N: "N + 1 < 2 ^ 32"
    and M: "total (\<lambda>s. s) ss + s \<le> M" and ni: "ni = tail_remote_index t + table_elems t + 1"
  shows "unat ni = N + 1"
    and "store (elem_size t) (unat ni mod K) (of_nat s) = Some ((elem_size t)[unat ni mod K := of_nat s])"
    and "enc_at (M, K, N + 1) (ss @ [s])
      (t\<lparr>elem_size := (elem_size t)[unat ni mod K := of_nat s], table_size := table_size t + of_nat s, table_elems := table_elems t + 1\<rparr>)"
proof -
  have "unat (tail_remote_index t + table_elems t) = N"
    using at unat_add_below [of "tail_remote_index t" "table_elems t"] by (simp add: enc_at_def)
  then show ni': "unat ni = N + 1" using N ni unat_add_below [of "tail_remote_index t + table_elems t" 1] by simp
  show "store (elem_size t) (unat ni mod K) (of_nat s) = Some ((elem_size t)[unat ni mod K := of_nat s])"
    using at by (simp add: enc_at_def)
  have M32: "M < 2 ^ 32" using at unat_lt_exp [of "max_table_size t"] by (auto simp: enc_at_def)
  have us: "unat (of_nat s :: u32) = s" using s(2) by (intro unat_of_nat_id) simp
  have sz: "unat (table_size t + of_nat s) = total (\<lambda>s. s) ss + s"
    using at M M32 us by (subst unat_add_below) (simp_all add: enc_at_def)
  have "unat (table_elems t) + unat (1 :: u32) < 2 ^ 32" using at N by (auto simp: enc_at_def)
  then have el: "unat (table_elems t + 1) = length ss + 1" using at unat_add_below [of "table_elems t" 1] by (simp add: enc_at_def)
  let ?a = "unat (tail_remote_index t) + 1"
  have pos: "?a + length ss = N + 1" using at by (simp add: enc_at_def)
  have "(N + 1) mod K \<noteq> (?a + i) mod K" if "i < length ss" for i
    using ring_distinct [of ?a i K "length ss"] that K unfolding pos [symmetric] by fastforce
  then have "(elem_size t)[unat ni mod K := of_nat s] ! ((?a + i) mod K) = of_nat ((ss @ [s]) ! i)" if "i < length ss + 1" for i
    using at that pos by (cases "i = length ss") (auto simp: enc_at_def ni' nth_append)
  then show "enc_at (M, K, N + 1) (ss @ [s])
      (t\<lparr>elem_size := (elem_size t)[unat ni mod K := of_nat s], table_size := table_size t + of_nat s, table_elems := table_elems t + 1\<rparr>)"
    using at s K N sz el by (auto simp: enc_at_def)
qed

lemma unat_EntriesForBytes: "unat n + 31 < 2 ^ 32 \<Longrightarrow> unat (EntriesForBytes n) = (unat n + 31) div 32"
proof -
  assume n: "unat n + 31 < 2 ^ 32"
  have "n + kEntryOverhead - 1 = n + 31" by (simp add: kEntryOverhead_def)
  moreover have "unat (n + 31) = unat n + 31" using unat_add_below [of n "31"] n by simp
  ultimately show ?thesis by (simp only: EntriesForBytes_def unat_div_distrib) (simp add: kEntryOverhead_def)
qed

lemma ring_inj: "n \<le> (k::nat) \<Longrightarrow> inj_on (\<lambda>i. (a + i) mod k) {..<n}"
  by (rule inj_onI) (rule ring_distinct [of a _ k], auto)

lemma enc_at_rebuild:
  assumes at: "enc_at (M, K, N) ss t" and K': "K \<le> K'" "K' < 2 ^ 32"
  shows "\<exists>t'. enc_Rebuild (of_nat K') t = Some t' \<and> enc_at (M, K', N) ss t'"
proof -
  let ?a = "unat (tail_remote_index t) + 1"
  define n where "n = length ss"
  define f where "f i = fetch (elem_size t) (unat (tail_remote_index t + of_nat i + 1) mod length (elem_size t))" for i
  define g where "g i = unat ((tail_remote_index t + of_nat i + 1) mod of_nat K')" for i
  have uK: "unat (of_nat K' :: u32) = K'" using K'(2) unat_of_nat_id [where 'a = 32, of K'] by simp
  have ofs: "unat (tail_remote_index t + of_nat i + 1) = ?a + i" if "i < n" for i
  proof -
    have l: "?a + i < 2 ^ 32" "i < 2 ^ 32" using at that by (auto simp: enc_at_def n_def)
    then have i: "unat (of_nat i :: u32) = i" using unat_of_nat_id [where 'a = 32, of i] by simp
    then have "unat (tail_remote_index t + of_nat i) = unat (tail_remote_index t) + i"
      using l(1) unat_add_below [of "tail_remote_index t" "of_nat i"] by simp
    then show ?thesis using l(1) unat_add_below [of "tail_remote_index t + of_nat i" 1] by simp
  qed
  have f: "f i = Some (of_nat (ss ! i))" and g: "g i = (?a + i) mod K'" if "i < n" for i
    using at that ofs [OF that] uK K' by (simp_all add: f_def g_def enc_at_def n_def unat_mod_distrib)
  have "inj_on g {..<n}"
    using ring_inj [of n K' ?a] at K'(1) g by (auto simp: n_def enc_at_def inj_on_def)
  moreover have "g i < length (replicate (unat (of_nat K' :: u32)) (0 :: u16))" if "i < n" for i
    using g [OF that] uK at K'(1) by (simp add: enc_at_def)
  ultimately obtain ys where ys: "foldM (\<lambda>i xs. do { x \<leftarrow> f i; store xs (g i) x }) [0..<n] (replicate (unat (of_nat K' :: u32)) 0) = Some ys"
      "length ys = K'" "\<forall>i < n. ys ! g i = of_nat (ss ! i)"
    using foldM_stores [of n f "\<lambda>i. of_nat (ss ! i)" g "replicate (unat (of_nat K' :: u32)) (0 :: u16)"] f uK by auto
  have "table_elems t \<le> of_nat K'" using at K' uK by (simp add: enc_at_def word_le_nat_alt)
  then have "enc_Rebuild (of_nat K') t = Some (t\<lparr>elem_size := ys\<rparr>)"
    using ys(1) at unfolding f_def g_def by (simp add: enc_Rebuild_def enc_at_def n_def Let_def)
  moreover have "enc_at (M, K', N) ss (t\<lparr>elem_size := ys\<rparr>)" using at K'(1) ys(2,3) g by (auto simp: enc_at_def n_def)
  ultimately show ?thesis by blast
qed

text \<open>
  \<open>enc_ok M ss N t\<close>: besides, the ring has a place for as many entries as the maximum size admits.
\<close>

definition enc_ok :: "nat \<Rightarrow> nat list \<Rightarrow> nat \<Rightarrow> enc_table \<Rightarrow> bool" where
  "enc_ok M ss N t \<longleftrightarrow>
     (\<exists>K. enc_at (M, K, N) ss t \<and> (M + 31) div 32 \<le> K \<and> K \<le> 2 ^ 28) \<and> M + 31 < 2 ^ 32 \<and> total (\<lambda>s. s) ss \<le> M"

lemma enc_at_newest: "enc_at (M, K, N) ss t \<Longrightarrow> tail_remote_index t + table_elems t = of_nat N"
proof -
  assume at: "enc_at (M, K, N) ss t"
  then have "unat (tail_remote_index t + table_elems t) = N"
    using unat_add_below [of "tail_remote_index t" "table_elems t"] by (simp add: enc_at_def)
  then show ?thesis by (rule unat_eq_imp)
qed

lemma AllocateIndex_ok:
  assumes ok: "enc_ok M ss N t" and s: "32 \<le> s" "s \<le> 65535" and N: "N + 1 < 2 ^ 32"
  shows "\<exists>i t'. AllocateIndex s t = Some (i, t') \<and>
    (if s > M then i = 0 \<and> enc_ok M [] N t'
     else unat i = N + 1 \<and> enc_ok M (newest (\<lambda>s. s) (M - s) ss @ [s]) (N + 1) t')"
proof -
  from ok obtain K where at: "enc_at (M, K, N) ss t" and K: "(M + 31) div 32 \<le> K" "K \<le> 2 ^ 28"
    and M: "M + 31 < 2 ^ 32" by (auto simp: enc_ok_def)
  have M': "max_table_size t = of_nat M" "unat (max_table_size t) = M" using at by (auto simp: enc_at_def)
  have a: "assert_c (s \<le> MaxEntrySize) = Some ()" using s(2) by (simp add: MaxEntrySize_def)
  show ?thesis
  proof (cases "s > M")
    case True
    have "table_size t > 0 \<longleftrightarrow> total (\<lambda>s. s) ss > 0" if "enc_at (M, K, N) ss t" for ss t
      using that by (simp add: enc_at_def word_less_nat_alt)
    from enc.evict_to [where p = "\<lambda>t. table_size t > 0", OF at this] newest_0 [of ss "\<lambda>s. s"] enc.entry_size [OF at] obtain t' where
      "enc_evict_while (\<lambda>t. table_size t > 0) t = Some t'" "enc_at (M, K, N) [] t'" by auto
    then show ?thesis using True a M'(2) K M by (auto simp: AllocateIndex_def enc_ok_def)
  next
    case False
    let ?ss = "newest (\<lambda>s. s) (M - s) ss"
    have "unat (table_size t) + s > unat (max_table_size t) \<longleftrightarrow> total (\<lambda>s. s) ss > M - s" if "enc_at (M, K, N) ss t" for ss t
      using that False by (auto simp: enc_at_def)
    from enc.evict_to [where p = "\<lambda>t. unat (table_size t) + s > unat (max_table_size t)", OF at this] obtain t1 where
      t1: "enc_evict_while (\<lambda>t. unat (table_size t) + s > unat (max_table_size t)) t = Some t1" "enc_at (M, K, N) ?ss t1" by auto
    have tot: "total (\<lambda>s. s) ?ss + s \<le> M" using total_newest [of "\<lambda>s. s" "M - s" ss] False by simp
    have "32 * length ?ss \<le> total (\<lambda>s. s) ?ss" using t1(2) by (intro total_at_least) (auto simp: enc_at_def)
    then have "32 * (length ?ss + 1) \<le> M" using tot s(1) by simp
    then have l: "length ?ss < K" using K(1) by simp
    define ni where "ni = tail_remote_index t + table_elems t + 1"
    have "tail_remote_index t1 + table_elems t1 = tail_remote_index t + table_elems t"
      using enc_at_newest [OF at] enc_at_newest [OF t1(2)] by simp
    then have ni: "ni = tail_remote_index t1 + table_elems t1 + 1" by (simp add: ni_def)
    have "unat (table_elems t1) < length (elem_size t1)" "length (elem_size t1) = K" using t1(2) l by (auto simp: enc_at_def)
    then show ?thesis
      using False a M'(2) t1(1) enc_at_append [OF t1(2) s l N tot ni] K M tot
      by (auto simp: AllocateIndex_def enc_ok_def Let_def ni_def [symmetric])
  qed
qed

lemma SetMaxSize_ok:
  assumes ok: "enc_ok M ss N t" and n: "unat n + 31 < 2 ^ 32"
  shows "\<exists>b t'. SetMaxSize n t = Some (b, t') \<and> enc_ok (unat n) (newest (\<lambda>s. s) (unat n) ss) N t'"
proof (cases "n = max_table_size t")
  case True
  then have "unat n = M" using ok by (auto simp: enc_ok_def enc_at_def)
  then show ?thesis using ok True newest_all [of "\<lambda>s. s" ss "unat n"] by (auto simp: SetMaxSize_def enc_ok_def)
next
  case False
  let ?ss = "newest (\<lambda>s. s) (unat n) ss"
  from ok obtain K where at: "enc_at (M, K, N) ss t" and K: "K \<le> 2 ^ 28" by (auto simp: enc_ok_def)
  have "table_size t > 0 \<and> table_size t > n \<longleftrightarrow> total (\<lambda>s. s) ss > unat n" if "enc_at (M, K, N) ss t" for ss t
    using that by (auto simp: enc_at_def word_less_nat_alt)
  from enc.evict_to [where p = "\<lambda>t. table_size t > 0 \<and> table_size t > n", OF at this] obtain t1 where
    t1: "enc_evict_while (\<lambda>t. table_size t > 0 \<and> table_size t > n) t = Some t1" "enc_at (M, K, N) ?ss t1" by auto
  define t2 where "t2 = t1\<lparr>max_table_size := n\<rparr>"
  have t2: "enc_at (unat n, K, N) ?ss t2" using t1(2) by (simp add: enc_at_def t2_def)
  have tot: "total (\<lambda>s. s) ?ss \<le> unat n" by (rule total_newest)
  note e = unat_EntriesForBytes [OF n]
  have lt: "length (elem_size t1) = length (elem_size t2)" by (simp add: t2_def)
  show ?thesis
  proof (cases "unat (EntriesForBytes n) > length (elem_size t2)")
    case True
    let ?K = "max (unat (EntriesForBytes n)) (2 * length (elem_size t2))"
    have lK: "length (elem_size t2) = K" using t2 by (simp add: enc_at_def)
    have "(unat n + 31) div 32 \<le> 2 ^ 27" using n by simp
    then have "?K \<le> 2 ^ 28" "K \<le> ?K" "?K < 2 ^ 32" using True e lK by auto
    with enc_at_rebuild [OF t2, of ?K] obtain t3 where "enc_Rebuild (of_nat ?K) t2 = Some t3" "enc_at (unat n, ?K, N) ?ss t3" by blast
    then show ?thesis using False True t1(1) tot n e lt \<open>?K \<le> 2 ^ 28\<close>
      by (auto simp: SetMaxSize_def enc_ok_def t2_def [symmetric] Let_def intro!: exI [of _ ?K])
  next
    case f: False
    then show ?thesis using False t1(1) t2 tot n e K lt
      by (auto simp: SetMaxSize_def enc_ok_def t2_def [symmetric] Let_def enc_at_def intro!: exI [of _ K])
  qed
qed

section \<open>The parser's table\<close>

abbreviation msize :: "memento \<Rightarrow> nat" where
  "msize md \<equiv> unat (transport_size md)"

text \<open>
  \<open>dec_at (B, C, X, K) ms t\<close>: the entries \<open>ms\<close> are in the ring of \<open>K\<close> places; \<open>B\<close> and \<open>C\<close> are the
  maximum and the current size.
\<close>

definition dec_at :: "u32 \<times> u32 \<times> u32 \<times> nat \<Rightarrow> memento list \<Rightarrow> hpack_table \<Rightarrow> bool" where
  "dec_at c ms t \<longleftrightarrow> (case c of (B, C, X, K) \<Rightarrow>
     max_bytes t = B \<and> current_table_bytes t = C \<and> max_entries t = X \<and> length (entries t) = K \<and>
     unat (num_entries t) = length ms \<and> unat (mem_used t) = total msize ms \<and>
     unat (first_entry t) < K \<and> length ms \<le> K \<and> K \<le> 2 ^ 28 \<and>
     total msize ms \<le> unat C \<and> (\<forall>m \<in> set ms. 32 \<le> msize m) \<and>
     (\<forall>i < length ms. entries t ! ((unat (first_entry t) + i) mod K) = Some (ms ! i)))"

lemma dec_at_evict:
  assumes at: "dec_at (B, C, X, K) (m # ms) t"
  shows "\<exists>t'. dec_EvictOne t = Some t' \<and> dec_at (B, C, X, K) ms t'"
proof -
  let ?f = "unat (first_entry t)"
  have f: "?f < K" "entries t ! ?f = Some m" using at by (auto simp: dec_at_def dest: spec [of _ 0])
  have K: "length (entries t) = K" "K \<le> 2 ^ 28" using at by (simp_all add: dec_at_def)
  define f' where "f' = (of_nat (unat (first_entry t + 1) mod K) :: u32)"
  have "unat (first_entry t + 1) = ?f + 1" using f K unat_add_below [of "first_entry t" 1] by simp
  then have f': "unat f' = (?f + 1) mod K"
    using f K unat_of_nat_id [where 'a = 32, of "(?f + 1) mod K"] order.strict_trans [of "(?f + 1) mod K" K] by (simp add: f'_def)
  define t' where "t' = t\<lparr>entries := (entries t)[?f := None], mem_used := mem_used t - transport_size m,
    first_entry := f', num_entries := num_entries t - 1\<rparr>"
  have le: "transport_size m \<le> mem_used t" using at by (auto simp: dec_at_def word_le_nat_alt)
  have "num_entries t > 0" using at by (auto simp: dec_at_def word_less_nat_alt)
  then have n: "unat (num_entries t - 1) = length ms" using at unat_pred by (simp add: dec_at_def)
  have "unat (mem_used t - transport_size m) = total msize ms" using at le by (simp add: dec_at_def unat_sub)
  moreover have "(entries t)[?f := None] ! ((unat f' + i) mod K) = Some (ms ! i)" if i: "i < length ms" for i
  proof -
    have e: "(unat f' + i) mod K = (?f + (i + 1)) mod K" by (simp add: f' mod_add_left_eq)
    have "length ms < K" using at by (auto simp: dec_at_def)
    then have "(?f + (i + 1)) mod K \<noteq> ?f" using ring_distinct [of ?f "i + 1" K 0] i f(1) by auto
    moreover have "entries t ! ((?f + (i + 1)) mod K) = Some (ms ! i)"
      using at i by (auto simp: dec_at_def dest: spec [of _ "Suc i"])
    ultimately show ?thesis unfolding e by simp
  qed
  ultimately have "dec_at (B, C, X, K) ms t'" using at n f(1) f' by (auto simp: dec_at_def t'_def)
  moreover have "dec_EvictOne t = Some t'" using f K(1) le by (simp add: dec_EvictOne_def t'_def f'_def)
  ultimately show ?thesis by blast
qed

interpretation dec: evicting_table dec_at msize dec_EvictOne dec_evict_while
proof
  fix c m ms t assume "dec_at c (m # ms) t"
  then show "\<exists>t'. dec_EvictOne t = Some t' \<and> dec_at c ms t'" using dec_at_evict by (cases c) blast
next
  show "dec_evict_while p t = (if p t then do { t' \<leftarrow> dec_EvictOne t; dec_evict_while p t' } else Some t)" for p t
    by (rule dec_evict_while.simps)
next
  show "dec_at c ms t \<Longrightarrow> m \<in> set ms \<Longrightarrow> 0 < msize m" for c ms t m by (cases c) (fastforce simp: dec_at_def)
qed

lemma dec_at_append:
  assumes at: "dec_at (B, C, X, K) ms t" and m: "32 \<le> msize m" and K: "length ms < K" and M: "total msize ms + msize m \<le> unat C"
  defines "p \<equiv> unat (first_entry t + num_entries t) mod K"
  shows "store (entries t) p (Some m) = Some ((entries t)[p := Some m])"
    and "dec_at (B, C, X, K) (ms @ [m])
      (t\<lparr>mem_used := mem_used t + transport_size m, entries := (entries t)[p := Some m], num_entries := num_entries t + 1\<rparr>)"
proof -
  have K28: "K \<le> 2 ^ 28" "unat (first_entry t) < K" "unat (num_entries t) = length ms" using at by (auto simp: dec_at_def)
  then have p: "p = (unat (first_entry t) + length ms) mod K"
    using K unat_add_below [of "first_entry t" "num_entries t"] by (simp add: p_def)
  show "store (entries t) p (Some m) = Some ((entries t)[p := Some m])" using at K by (simp add: p dec_at_def)
  have n: "unat (num_entries t + 1) = length ms + 1" using K28 K unat_add_below [of "num_entries t" 1] by simp
  have u: "unat (mem_used t + transport_size m) = total msize ms + msize m"
    using at M unat_add_below [of "mem_used t" "transport_size m"] unat_lt_exp [of C] by (simp add: dec_at_def)
  have "p \<noteq> (unat (first_entry t) + i) mod K" if "i < length ms" for i
    using ring_distinct [of "unat (first_entry t)" i K "length ms"] that K unfolding p by fastforce
  then have "(entries t)[p := Some m] ! ((unat (first_entry t) + i) mod K) = Some ((ms @ [m]) ! i)" if "i < length ms + 1" for i
    using at that p K by (cases "i = length ms") (auto simp: dec_at_def nth_append)
  then show "dec_at (B, C, X, K) (ms @ [m])
      (t\<lparr>mem_used := mem_used t + transport_size m, entries := (entries t)[p := Some m], num_entries := num_entries t + 1\<rparr>)"
    using at m M K n u by (auto simp: dec_at_def)
qed

lemma dec_at_rebuild:
  assumes at: "dec_at (B, C, X, K) ms t" and K': "length ms \<le> unat K'" "unat K' \<le> 2 ^ 28" "0 < unat K'"
  shows "\<exists>t'. dec_Rebuild K' t = Some t' \<and> dec_at (B, C, X, unat K') ms t'"
proof -
  define n where "n = length ms"
  define f where "f i = fetch (entries t) ((unat (first_entry t) + i) mod length (entries t))" for i
  have f: "f i = Some (Some (ms ! i))" if "i < n" for i
  proof -
    have "0 < K" using at by (auto simp: dec_at_def)
    then show ?thesis using at that by (simp add: f_def dec_at_def n_def)
  qed
  obtain ys where ys: "foldM (\<lambda>i xs. do { x \<leftarrow> f i; store xs i x }) [0..<n] (replicate (unat K') None) = Some ys"
      "length ys = unat K'" "\<forall>i < n. ys ! i = Some (ms ! i)"
    using foldM_stores [of n f "\<lambda>i. Some (ms ! i)" "\<lambda>i. i" "replicate (unat K') None"] f K'(1) by (auto simp: n_def)
  have "unat (num_entries t) = n" using at by (simp add: dec_at_def n_def)
  then have "dec_Rebuild K' t = Some (t\<lparr>first_entry := 0, entries := ys\<rparr>)"
    using ys(1) unfolding f_def by (simp add: dec_Rebuild_def)
  moreover have "dec_at (B, C, X, unat K') ms (t\<lparr>first_entry := 0, entries := ys\<rparr>)"
    using at K' ys(2,3) by (auto simp: dec_at_def n_def)
  ultimately show ?thesis by blast
qed

text \<open>The specification of the parser's table: its entries, the agreed size and its limit.\<close>

record hpack_spec =
  sp_max :: u32
  sp_size :: u32
  sp_entries :: "memento list"

definition spec_Add :: "memento \<Rightarrow> hpack_spec \<Rightarrow> bool \<times> hpack_spec" where
  "spec_Add md S =
     (if sp_size S > sp_max S then (False, S)
      else if msize md > unat (sp_size S) then (True, S\<lparr>sp_entries := []\<rparr>)
      else (True, S\<lparr>sp_entries := newest msize (unat (sp_size S) - msize md) (sp_entries S) @ [md]\<rparr>))"

definition spec_SetMaxBytes :: "u32 \<Rightarrow> hpack_spec \<Rightarrow> hpack_spec" where
  "spec_SetMaxBytes n S = S\<lparr>sp_max := n, sp_entries := newest msize (if n = sp_max S then unat (sp_size S) else unat n) (sp_entries S)\<rparr>"

definition spec_SetCurrentTableSize :: "u32 \<Rightarrow> hpack_spec \<Rightarrow> bool \<times> hpack_spec" where
  "spec_SetCurrentTableSize n S =
     (if n \<noteq> sp_size S \<and> n > sp_max S then (False, S)
      else (True, S\<lparr>sp_size := n, sp_entries := newest msize (unat n) (sp_entries S)\<rparr>))"

definition spec_Lookup :: "u32 \<Rightarrow> hpack_spec \<Rightarrow> memento option" where
  "spec_Lookup i S =
     (if unat i \<le> 61 then Some (static_metadata ! (unat i - 1))
      else if unat i - 62 < length (sp_entries S) then Some (rev (sp_entries S) ! (unat i - 62)) else None)"

definition dec_ok :: "hpack_spec \<Rightarrow> hpack_table \<Rightarrow> bool" where
  "dec_ok S t \<longleftrightarrow>
     (\<exists>X K. dec_at (sp_max S, sp_size S, X, K) (sp_entries S) t \<and> (unat (sp_size S) + 31) div 32 \<le> K) \<and>
     unat (sp_size S) + 31 < 2 ^ 32"

lemma dec_at_fits:
  assumes "dec_at (B, C, X, K) ms t" "total msize ms + msize md \<le> unat C" "32 \<le> msize md" "(unat C + 31) div 32 \<le> K"
  shows "length ms < K"
proof -
  have "32 * length ms \<le> total msize ms" using assms(1) by (intro total_at_least) (auto simp: dec_at_def)
  then have "32 * (length ms + 1) \<le> unat C" using assms(2,3) by simp
  then show ?thesis using assms(4) by simp
qed

lemma unat_u64: "unat (ucast (v :: u32) :: u64) = unat v"
  using unat_lt_exp [of v] by (simp add: unsigned_ucast_eq take_bit_nat_eq_self)

lemma Add_ok:
  assumes ok: "dec_ok S t" and m: "32 \<le> msize md"
  shows "\<exists>t'. Add_to_table md t = Some (fst (spec_Add md S), t') \<and> dec_ok (snd (spec_Add md S)) t'"
proof -
  let ?C = "sp_size S"
  from ok obtain X K where at: "dec_at (sp_max S, ?C, X, K) (sp_entries S) t" and K: "(unat ?C + 31) div 32 \<le> K"
    and C: "unat ?C + 31 < 2 ^ 32" by (auto simp: dec_ok_def)
  have t: "max_bytes t = sp_max S" "current_table_bytes t = ?C" using at by (auto simp: dec_at_def)
  consider "?C > sp_max S" | "\<not> ?C > sp_max S" "msize md > unat ?C" | "\<not> ?C > sp_max S" "\<not> msize md > unat ?C" by blast
  then show ?thesis
  proof cases
    case 1
    then show ?thesis using ok t by (simp add: Add_to_table_def spec_Add_def)
  next
    case 2
    have "num_entries t \<noteq> 0 \<longleftrightarrow> ms \<noteq> []" if "dec_at (sp_max S, ?C, X, K) ms t" for ms t
      using that by (auto simp: dec_at_def unat_eq_0 [symmetric])
    from dec.evict_all [where p = "\<lambda>t. num_entries t \<noteq> 0", OF at this] obtain t' where
      "dec_evict_while (\<lambda>t. num_entries t \<noteq> 0) t = Some t'" "dec_at (sp_max S, ?C, X, K) [] t'" by blast
    then show ?thesis using 2 t K C by (auto simp: Add_to_table_def spec_Add_def dec_ok_def word_less_nat_alt)
  next
    case 3
    let ?p = "\<lambda>t. (ucast (transport_size md) :: u64) > ucast (current_table_bytes t) - ucast (mem_used t)"
    let ?ms = "newest msize (unat ?C - msize md) (sp_entries S)"
    have "?p t \<longleftrightarrow> total msize ms > unat ?C - msize md" if "dec_at (sp_max S, ?C, X, K) ms t" for ms t
    proof -
      have le: "unat (mem_used t) \<le> unat ?C" "unat (mem_used t) = total msize ms" "current_table_bytes t = ?C"
        using that by (auto simp: dec_at_def)
      then have "unat ((ucast ?C :: u64) - ucast (mem_used t)) = unat ?C - total msize ms"
        by (simp add: unat_sub word_le_nat_alt unat_u64)
      then show ?thesis using le 3(2) by (auto simp: word_less_nat_alt unat_u64)
    qed
    from dec.evict_to [where p = ?p, OF at this] obtain t1 where
      t1: "dec_evict_while ?p t = Some t1" "dec_at (sp_max S, ?C, X, K) ?ms t1" by blast
    have tot: "total msize ?ms + msize md \<le> unat ?C" using total_newest [of msize "unat ?C - msize md"] 3(2)
      by (metis Nat.le_diff_conv2 linorder_not_less)
    have l: "length (entries t1) = K" using t1(2) by (simp add: dec_at_def)
    show ?thesis
      using 3 t t1(1) K C l dec_at_append [OF t1(2) m dec_at_fits [OF t1(2) tot m K] tot]
      by (auto simp: Add_to_table_def spec_Add_def dec_ok_def word_less_nat_alt)
  qed
qed

lemma mem_used_loop:
  assumes at: "dec_at c ms t"
  shows "\<exists>t'. dec_evict_while (\<lambda>t. mem_used t > n) t = Some t' \<and> dec_at c (newest msize (unat n) ms) t'"
proof -
  have "mem_used t > n \<longleftrightarrow> total msize ms > unat n" if "dec_at c ms t" for ms t
    using that by (cases c) (simp add: dec_at_def word_less_nat_alt)
  from dec.evict_to [where p = "\<lambda>t. mem_used t > n", OF at this] show ?thesis .
qed

lemma SetMaxBytes_ok:
  assumes ok: "dec_ok S t"
  shows "\<exists>t'. SetMaxBytes n t = Some t' \<and> dec_ok (spec_SetMaxBytes n S) t'"
proof -
  from ok obtain X K where at: "dec_at (sp_max S, sp_size S, X, K) (sp_entries S) t" and K: "(unat (sp_size S) + 31) div 32 \<le> K"
    by (auto simp: dec_ok_def)
  show ?thesis
  proof (cases "n = sp_max S")
    case True
    have "total msize (sp_entries S) \<le> unat (sp_size S)" using at by (simp add: dec_at_def)
    then show ?thesis using ok at True newest_all [of msize "sp_entries S"]
      by (simp add: SetMaxBytes_def spec_SetMaxBytes_def dec_ok_def dec_at_def)
  next
    case False
    have m: "max_bytes t = sp_max S" using at by (simp add: dec_at_def)
    obtain t1 where t1: "dec_evict_while (\<lambda>t. mem_used t > n) t = Some t1"
        "dec_at (sp_max S, sp_size S, X, K) (newest msize (unat n) (sp_entries S)) t1"
      using mem_used_loop [OF at] by blast
    then have "dec_at (n, sp_size S, X, K) (newest msize (unat n) (sp_entries S)) (t1\<lparr>max_bytes := n\<rparr>)" by (simp add: dec_at_def)
    then show ?thesis using ok False m K t1(1) by (auto simp: SetMaxBytes_def spec_SetMaxBytes_def dec_ok_def)
  qed
qed

lemma resize_entries_ok:
  assumes at: "dec_at (B, C, X, K) ms t" and X: "length ms \<le> unat X" "unat X \<le> 2 ^ 27"
  shows "\<exists>t' K'. resize_entries t = Some t' \<and> dec_at (B, C, X, K') ms t' \<and> unat X \<le> K'"
proof -
  have K: "length (entries t) = K" "max_entries t = X" using at by (auto simp: dec_at_def)
  have r: "\<exists>t'. dec_Rebuild k t = Some t' \<and> dec_at (B, C, X, unat k) ms t'"
    if "unat X \<le> unat k" "unat k \<le> 2 ^ 28" "0 < unat k" for k
    using dec_at_rebuild [OF at] that X by simp
  have i: "unat kInitialTableEntries = 128" by code_simp
  let ?k = "max X kInitialTableEntries"
  have mx: "unat ?k = max (unat X) 128" by (simp add: max_def word_le_nat_alt i)
  have k0: "0 < unat ?k" unfolding mx by (simp add: less_max_iff_disj)
  consider "unat X > K" | "unat X < K div 3" | "\<not> unat X > K" "\<not> unat X < K div 3" by blast
  then show ?thesis
  proof cases
    case 1
    then show ?thesis using r [of X] X K by (auto simp: resize_entries_def)
  next
    case 2
    obtain t' where t': "dec_Rebuild ?k t = Some t'" "dec_at (B, C, X, unat ?k) ms t'"
      using r [OF _ _ k0] mx X by auto
    have n: "\<not> unat X > K" "unat X \<le> K" "unat X \<le> unat ?k" using 2 mx by simp_all
    show ?thesis
    proof (cases "unat ?k = K")
      case True
      then have "resize_entries t = Some t" using 2 n(1) K by (simp add: resize_entries_def Let_def)
      then show ?thesis using at n(2) by blast
    next
      case False
      then have "resize_entries t = Some t'" using 2 n(1) K t'(1) by (simp add: resize_entries_def Let_def)
      then show ?thesis using t'(2) n(3) by blast
    qed
  qed (use K at in \<open>auto simp: resize_entries_def\<close>)
qed

lemma SetCurrentTableSize_ok:
  assumes ok: "dec_ok S t" and n: "unat n + 31 < 2 ^ 32"
  shows "\<exists>t'. SetCurrentTableSize n t = Some (fst (spec_SetCurrentTableSize n S), t') \<and>
    dec_ok (snd (spec_SetCurrentTableSize n S)) t'"
proof -
  from ok obtain X K where at: "dec_at (sp_max S, sp_size S, X, K) (sp_entries S) t" by (auto simp: dec_ok_def)
  have m: "max_bytes t = sp_max S" "current_table_bytes t = sp_size S" "total msize (sp_entries S) \<le> unat (sp_size S)"
    using at by (simp_all add: dec_at_def)
  consider "n = sp_size S" | "n \<noteq> sp_size S" "n > sp_max S" | "n \<noteq> sp_size S" "\<not> n > sp_max S" by blast
  then show ?thesis
  proof cases
    case 1
    then show ?thesis using ok m newest_all [of msize "sp_entries S" "unat n"] by (simp add: SetCurrentTableSize_def spec_SetCurrentTableSize_def)
  next
    case 2
    then show ?thesis using ok m by (simp add: SetCurrentTableSize_def spec_SetCurrentTableSize_def)
  next
    case 3
    let ?ms = "newest msize (unat n) (sp_entries S)" and ?E = "EntriesForBytes n"
    obtain t1 where t1: "dec_evict_while (\<lambda>t. mem_used t > n) t = Some t1" "dec_at (sp_max S, sp_size S, X, K) ?ms t1"
      using mem_used_loop [OF at] by blast
    define t2 where "t2 = t1\<lparr>current_table_bytes := n, max_entries := ?E\<rparr>"
    have t2: "dec_at (sp_max S, n, ?E, K) ?ms t2" using t1(2) total_newest [of msize "unat n"] by (simp add: dec_at_def t2_def)
    have "32 * length ?ms \<le> total msize ?ms" using t2 by (intro total_at_least) (auto simp: dec_at_def)
    then have "32 * length ?ms \<le> unat n" using total_newest [of msize "unat n" "sp_entries S"] by linarith
    then have len: "length ?ms \<le> unat ?E" "unat ?E \<le> 2 ^ 27" using unat_EntriesForBytes [OF n] n by simp_all
    obtain t3 K' where t3: "resize_entries t2 = Some t3" "dec_at (sp_max S, n, ?E, K') ?ms t3" "unat ?E \<le> K'"
      using resize_entries_ok [OF t2 len] by blast
    have "SetCurrentTableSize n t = Some (True, t3)"
      unfolding SetCurrentTableSize_def using 3 m t1(1) t3(1) by (simp add: t2_def [symmetric] Let_def)
    then show ?thesis using 3 t3(2,3) n unat_EntriesForBytes [OF n]
      by (auto simp: spec_SetCurrentTableSize_def dec_ok_def)
  qed
qed

lemma Lookup_ok:
  assumes ok: "dec_ok S t" and i: "0 < i"
  shows "Lookup_hpack i t = Some (spec_Lookup i S)"
proof -
  from ok obtain X K where at: "dec_at (sp_max S, sp_size S, X, K) (sp_entries S) t" by (auto simp: dec_ok_def)
  have ui: "unat (i - 1) = unat i - 1" by (rule unat_pred [OF i])
  have st: "length static_metadata = 61" by (simp add: static_metadata_def kStaticTable_def)
  show ?thesis
  proof (cases "unat i \<le> 61")
    case True
    then show ?thesis using ui st i
      by (simp add: Lookup_hpack_def spec_Lookup_def kLastStaticEntry_def word_le_nat_alt word_less_nat_alt)
  next
    case False
    let ?ms = "sp_entries S"
    define tj where "tj = i - (kLastStaticEntry + 1)"
    have j: "unat tj = unat i - 62" using False by (simp add: tj_def kLastStaticEntry_def unat_sub word_le_nat_alt)
    have t: "unat (num_entries t) = length ?ms" "unat (first_entry t) < K" "K \<le> 2 ^ 28" "length ?ms \<le> K" "length (entries t) = K"
      using at by (auto simp: dec_at_def)
    have d: "Lookup_hpack i t = LookupDynamic i t"
      using False by (simp add: Lookup_hpack_def kLastStaticEntry_def word_le_nat_alt)
    show ?thesis
    proof (cases "unat i - 62 < length ?ms")
      case lt: True
      have n: "unat (num_entries t - 1) = length ?ms - 1" using lt t(1) by (intro trans [OF unat_pred]) (auto simp: word_less_nat_alt)
      define q where "q = length ?ms - 1 - (unat i - 62)"
      have q: "q < length ?ms" "rev ?ms ! (unat i - 62) = ?ms ! q" using lt by (auto simp: q_def rev_nth)
      have e: "entries t ! ((unat (first_entry t) + q) mod K) = Some (?ms ! q)" using at q(1) by (simp add: dec_at_def)
      have "unat (num_entries t - 1 - tj) = q" using n lt j by (simp add: unat_sub word_le_nat_alt q_def)
      then have o: "unat (num_entries t - 1 - tj + first_entry t) = unat (first_entry t) + q"
        using t q(1) unat_add_below [of "num_entries t - 1 - tj" "first_entry t"] by simp
      then show ?thesis using d e q lt t j False
        by (simp add: LookupDynamic_def spec_Lookup_def Let_def word_less_nat_alt tj_def [symmetric])
    next
      case ge: False
      then show ?thesis using d t j False by (simp add: LookupDynamic_def spec_Lookup_def Let_def word_less_nat_alt tj_def [symmetric])
    qed
  qed
qed

section \<open>Sequences of operations\<close>

datatype table_op = Add_op memento | MaxBytes_op u32 | Size_op u32

fun apply_op :: "table_op \<Rightarrow> hpack_table \<Rightarrow> (bool \<times> hpack_table) option" where
  "apply_op (Add_op md) t = Add_to_table md t"
| "apply_op (MaxBytes_op n) t = do { t \<leftarrow> SetMaxBytes n t; Some (True, t) }"
| "apply_op (Size_op n) t = SetCurrentTableSize n t"

fun spec_op :: "table_op \<Rightarrow> hpack_spec \<Rightarrow> bool \<times> hpack_spec" where
  "spec_op (Add_op md) S = spec_Add md S"
| "spec_op (MaxBytes_op n) S = (True, spec_SetMaxBytes n S)"
| "spec_op (Size_op n) S = spec_SetCurrentTableSize n S"

fun op_fits :: "table_op \<Rightarrow> bool" where
  "op_fits (Add_op md) \<longleftrightarrow> 32 \<le> msize md"
| "op_fits (MaxBytes_op n) \<longleftrightarrow> True"
| "op_fits (Size_op n) \<longleftrightarrow> unat n + 31 < 2 ^ 32"

fun run_ops :: "table_op list \<Rightarrow> hpack_table \<Rightarrow> (bool list \<times> hpack_table) option" where
  "run_ops [] t = Some ([], t)"
| "run_ops (x # xs) t = do { (r, t) \<leftarrow> apply_op x t; (rs, t) \<leftarrow> run_ops xs t; Some (r # rs, t) }"

fun spec_ops :: "table_op list \<Rightarrow> hpack_spec \<Rightarrow> bool list \<times> hpack_spec" where
  "spec_ops [] S = ([], S)"
| "spec_ops (x # xs) S = (let (r, S) = spec_op x S; (rs, S) = spec_ops xs S in (r # rs, S))"

definition spec_init :: hpack_spec where
  "spec_init = \<lparr>sp_max = 4096, sp_size = 4096, sp_entries = []\<rparr>"

lemma apply_op_ok:
  "dec_ok S t \<Longrightarrow> op_fits x \<Longrightarrow> \<exists>t'. apply_op x t = Some (fst (spec_op x S), t') \<and> dec_ok (snd (spec_op x S)) t'"
proof (cases x)
  case (MaxBytes_op n)
  assume "dec_ok S t"
  from SetMaxBytes_ok [OF this, of n] show ?thesis by (auto simp: MaxBytes_op)
qed (auto dest: Add_ok SetCurrentTableSize_ok)

lemma run_ops_ok:
  "dec_ok S t \<Longrightarrow> list_all op_fits xs \<Longrightarrow>
   \<exists>t'. run_ops xs t = Some (fst (spec_ops xs S), t') \<and> dec_ok (snd (spec_ops xs S)) t'"
proof (induction xs arbitrary: S t)
  case (Cons x xs)
  obtain t1 where t1: "apply_op x t = Some (fst (spec_op x S), t1)" "dec_ok (snd (spec_op x S)) t1"
    using apply_op_ok [OF Cons.prems(1), of x] Cons.prems(2) by auto
  from Cons.IH [OF this(2)] Cons.prems(2) t1(1) show ?case by (auto simp: split_def Let_def)
qed simp

lemma HPackTable_ok: "dec_ok spec_init HPackTable"
proof -
  have i: "unat kInitialTableEntries = 128" by code_simp
  then have "dec_at (4096, 4096, kInitialTableEntries, 128) [] HPackTable"
    by (simp add: dec_at_def HPackTable_def kInitialTableSize_def)
  then have "dec_at (4096, 4096, kInitialTableEntries, 128) [] HPackTable \<and> (unat (4096 :: u32) + 31) div 32 \<le> 128" by simp
  then show ?thesis unfolding dec_ok_def spec_init_def by auto
qed

text \<open>
  hpack_table_refines: whatever entries of at least 32 bytes are added to a fresh table
  and whatever sizes are set, the ring never loses track: every operation gives the result of the
  specification, which keeps the newest entries that fit, and every index looks up what it should.
\<close>

theorem hpack_table_refines:
  assumes "list_all op_fits ops"
  shows "\<exists>t. run_ops ops HPackTable = Some (fst (spec_ops ops spec_init), t) \<and>
    (\<forall>i. 0 < i \<longrightarrow> Lookup_hpack i t = Some (spec_Lookup i (snd (spec_ops ops spec_init))))"
  using run_ops_ok [OF HPackTable_ok assms] Lookup_ok by blast

theorem hpack_table_refines_witness:
  "\<exists>t. run_ops [Size_op 100, Add_op \<lparr>md_key = [97], md_value = [], transport_size = 60\<rparr>,
                 Add_op \<lparr>md_key = [98], md_value = [99], transport_size = 70\<rparr>, Size_op 5000] HPackTable =
          Some ([True, True, True, False], t) \<and>
        Lookup_hpack 62 t = Some (Some \<lparr>md_key = [98], md_value = [99], transport_size = 70\<rparr>) \<and>
        Lookup_hpack 63 t = Some None"
proof -
  let ?ops = "[Size_op 100, Add_op \<lparr>md_key = [97], md_value = [], transport_size = 60\<rparr>,
    Add_op \<lparr>md_key = [98], md_value = [99], transport_size = 70\<rparr>, Size_op 5000]"
  have f: "list_all op_fits ?ops" by simp
  have "fst (spec_ops ?ops spec_init) = [True, True, True, False]"
    "spec_Lookup 62 (snd (spec_ops ?ops spec_init)) = Some \<lparr>md_key = [98], md_value = [99], transport_size = 70\<rparr>"
    "spec_Lookup 63 (snd (spec_ops ?ops spec_init)) = None" by code_simp+
  with hpack_table_refines [OF f] show ?thesis by fastforce
qed

section \<open>Both tables in step\<close>

text \<open>
  The encoder adds every field it sends to its table, and the parser every field it receives; the
  log records the index the encoder got for the field.
\<close>

fun step_both :: "table_op \<Rightarrow> enc_table \<times> hpack_table \<times> (u32 \<times> memento) list \<Rightarrow>
    (enc_table \<times> hpack_table \<times> (u32 \<times> memento) list) option" where
  "step_both (Add_op md) (e, d, log) =
     do { (i, e) \<leftarrow> AllocateIndex (unat (transport_size md)) e;
          (ok, d) \<leftarrow> Add_to_table md d;
          assert_c ok;
          Some (e, d, (i, md) # log) }"
| "step_both (Size_op n) (e, d, log) =
     do { (b, e) \<leftarrow> SetMaxSize n e;
          (ok, d) \<leftarrow> SetCurrentTableSize n d;
          assert_c ok;
          Some (e, d, log) }"
| "step_both (MaxBytes_op n) _ = None"

fun sendable :: "table_op \<Rightarrow> bool" where
  "sendable (Add_op md) \<longleftrightarrow> 32 \<le> msize md \<and> msize md \<le> 65535"
| "sendable (Size_op n) \<longleftrightarrow> unat n \<le> 4096"
| "sendable (MaxBytes_op n) \<longleftrightarrow> False"

definition found :: "enc_table \<Rightarrow> hpack_table \<Rightarrow> u32 \<times> memento \<Rightarrow> bool" where
  "found e d x \<longleftrightarrow> (case x of (i, md) \<Rightarrow>
     ConvertableToDynamicIndex e i \<longrightarrow> Lookup_hpack (DynamicIndex e i) d = Some (Some md))"

text \<open>The log entry \<open>(i, md)\<close> is right about the entries \<open>ms\<close>, the newest of which has the index \<open>N\<close>.\<close>

definition logged :: "nat \<Rightarrow> memento list \<Rightarrow> u32 \<times> memento \<Rightarrow> bool" where
  "logged N ms x \<longleftrightarrow> (case x of (i, md) \<Rightarrow>
     unat i \<le> N \<and> length ms \<le> N \<and> (N - length ms < unat i \<longrightarrow> rev ms ! (N - unat i) = md))"

definition in_step :: "hpack_spec \<Rightarrow> nat \<Rightarrow> enc_table \<times> hpack_table \<times> (u32 \<times> memento) list \<Rightarrow> bool" where
  "in_step S N x \<longleftrightarrow> (case x of (e, d, log) \<Rightarrow>
     sp_max S = 4096 \<and> unat (sp_size S) \<le> 4096 \<and> length (sp_entries S) \<le> N \<and>
     enc_ok (unat (sp_size S)) (map msize (sp_entries S)) N e \<and> dec_ok S d \<and> list_all (logged N (sp_entries S)) log)"

lemma logged_suffix: "logged N ms x \<Longrightarrow> \<exists>xs. ms = xs @ ms' \<Longrightarrow> logged N ms' x"
  by (auto simp: logged_def nth_append)

lemma logged_add:
  "logged N ms (i, md) \<Longrightarrow> logged (Suc N) (ms @ [m]) (i, md)"
  by (auto simp: logged_def nth_Cons' Suc_diff_le)

lemma step_both_ok:
  assumes st: "in_step S N x" and op: "sendable y" and N: "N + 1 < 2 ^ 32"
  shows "\<exists>S' N' x'. step_both y x = Some x' \<and> in_step S' N' x' \<and> N' \<le> N + 1"
proof -
  obtain e d log where x: "x = (e, d, log)" by (cases x)
  let ?ms = "sp_entries S"
  have s: "sp_max S = 4096" "unat (sp_size S) \<le> 4096" "length ?ms \<le> N"
    "enc_ok (unat (sp_size S)) (map msize ?ms) N e" "dec_ok S d" "list_all (logged N ?ms) log"
    using st by (auto simp: in_step_def x)
  have le: "sp_size S \<le> sp_max S" using s(1,2) by (simp add: word_le_nat_alt)
  show ?thesis
  proof (cases y)
    case (Add_op md)
    then have m: "32 \<le> msize md" "msize md \<le> 65535" using op by auto
    from AllocateIndex_ok [OF s(4) m N] obtain i e' where
      e': "AllocateIndex (msize md) e = Some (i, e')"
        "if msize md > unat (sp_size S) then i = 0 \<and> enc_ok (unat (sp_size S)) [] N e'
         else unat i = N + 1 \<and> enc_ok (unat (sp_size S)) (newest (\<lambda>s. s) (unat (sp_size S) - msize md) (map msize ?ms) @ [msize md]) (N + 1) e'"
      by blast
    from Add_ok [OF s(5) m(1)] obtain d' where
      d': "Add_to_table md d = Some (fst (spec_Add md S), d')" "dec_ok (snd (spec_Add md S)) d'" by blast
    have ok: "fst (spec_Add md S)" using le by (simp add: spec_Add_def)
    then have st: "step_both y x = Some (e', d', (i, md) # log)" using e'(1) d'(1) by (simp add: Add_op x)
    show ?thesis
    proof (cases "msize md > unat (sp_size S)")
      case True
      have sp: "snd (spec_Add md S) = S\<lparr>sp_entries := []\<rparr>" using True le by (simp add: spec_Add_def)
      have "list_all (logged N []) ((i, md) # log)"
        using s(6) e'(2) True by (auto simp: list_all_iff logged_def)
      then have "in_step (S\<lparr>sp_entries := []\<rparr>) N (e', d', (i, md) # log)"
        using s e'(2) d'(2) True sp by (simp add: in_step_def)
      then show ?thesis using st by (metis le_add1)
    next
      case False
      let ?new = "newest msize (unat (sp_size S) - msize md) ?ms"
      have sp: "snd (spec_Add md S) = S\<lparr>sp_entries := ?new @ [md]\<rparr>" using False le by (simp add: spec_Add_def)
      have suf: "\<exists>xs. ?ms = xs @ ?new" by (rule newest_suffix)
      have l: "length ?new \<le> N" by (rule order_trans [OF length_newest s(3)])
      have "list_all (logged (Suc N) (?new @ [md])) log"
        using s(6) logged_add logged_suffix [OF _ suf] by (auto simp: list_all_iff)
      moreover have "logged (Suc N) (?new @ [md]) (i, md)" using e'(2) False l by (simp add: logged_def)
      ultimately have "in_step (S\<lparr>sp_entries := ?new @ [md]\<rparr>) (N + 1) (e', d', (i, md) # log)"
        using s e'(2) d'(2) False sp l by (simp add: in_step_def newest_map)
      then show ?thesis using st by blast
    qed
  next
    case (Size_op n)
    then have n: "unat n \<le> 4096" using op by simp
    then have n': "unat n + 31 < 2 ^ 32" by simp
    let ?new = "newest msize (unat n) ?ms"
    from SetMaxSize_ok [OF s(4) n'] obtain b e' where
      e': "SetMaxSize n e = Some (b, e')" "enc_ok (unat n) (map msize ?new) N e'" by (auto simp: newest_map)
    have sp: "spec_SetCurrentTableSize n S = (True, S\<lparr>sp_size := n, sp_entries := ?new\<rparr>)"
      using n s(1) by (auto simp: spec_SetCurrentTableSize_def word_less_nat_alt)
    from SetCurrentTableSize_ok [OF s(5) n'] sp obtain d' where
      d': "SetCurrentTableSize n d = Some (True, d')" "dec_ok (S\<lparr>sp_size := n, sp_entries := ?new\<rparr>) d'" by auto
    have suf: "\<exists>xs. ?ms = xs @ ?new" by (rule newest_suffix)
    have l: "length ?new \<le> N" by (rule order_trans [OF length_newest s(3)])
    have "list_all (logged N ?new) log" using s(6) logged_suffix [OF _ suf] by (auto simp: list_all_iff)
    then have "in_step (S\<lparr>sp_size := n, sp_entries := ?new\<rparr>) N (e', d', log)"
      using s n e'(2) d'(2) l by (simp add: in_step_def)
    moreover have "step_both y x = Some (e', d', log)" using e'(1) d'(1) by (simp add: Size_op x)
    ultimately show ?thesis by (metis le_add1)
  qed (use op in simp)
qed


fun run_both :: "table_op list \<Rightarrow> enc_table \<times> hpack_table \<times> (u32 \<times> memento) list \<Rightarrow>
    (enc_table \<times> hpack_table \<times> (u32 \<times> memento) list) option" where
  "run_both [] x = Some x"
| "run_both (y # ys) x = do { x \<leftarrow> step_both y x; run_both ys x }"

lemma run_both_ok:
  "in_step S N x \<Longrightarrow> list_all sendable ys \<Longrightarrow> N + length ys < 2 ^ 32 \<Longrightarrow>
   \<exists>S' N' x'. run_both ys x = Some x' \<and> in_step S' N' x'"
proof (induction ys arbitrary: S N x)
  case (Cons y ys)
  have "N + 1 < 2 ^ 32" using Cons.prems(3) by simp
  with step_both_ok [OF Cons.prems(1), of y] Cons.prems(2) obtain S1 N1 x1 where
    s: "step_both y x = Some x1" "in_step S1 N1 x1" "N1 \<le> N + 1" by auto
  have "N1 + length ys < 2 ^ 32" using s(3) Cons.prems(3) by simp
  with Cons.IH [OF s(2)] Cons.prems(2) s(1) show ?case by auto
qed auto

lemma in_step_lookup:
  assumes "in_step S N (e, d, log)" "(i, md) \<in> set log" and c: "ConvertableToDynamicIndex e i"
  shows "Lookup_hpack (DynamicIndex e i) d = Some (Some md) \<and> 62 \<le> unat (DynamicIndex e i)"
proof -
  let ?ms = "sp_entries S"
  have lg: "unat i \<le> N" "length ?ms \<le> N" "N - length ?ms < unat i \<longrightarrow> rev ?ms ! (N - unat i) = md"
    using assms by (auto simp: in_step_def list_all_iff logged_def)
  from assms(1) obtain K where at: "enc_at (unat (sp_size S), K, N) (map msize ?ms) e" and ok: "dec_ok S d"
    by (auto simp: in_step_def enc_ok_def)
  have N: "tail_remote_index e + table_elems e = of_nat N" "N < 2 ^ 32" "unat (tail_remote_index e) = N - length ?ms"
    using enc_at_newest [OF at] at by (auto simp: enc_at_def)
  have i: "N - length ?ms < unat i" using c by (simp add: ConvertableToDynamicIndex_def word_less_nat_alt N(3))
  define k where "k = N - unat i"
  have k: "k < length ?ms" "of_nat N = i + of_nat k" "k < 2 ^ 32" "unat i + k = N" using i lg(1,2) N(2) by (auto simp: k_def)
  have "length ?ms \<le> 2 ^ 28" using ok by (auto simp: dec_ok_def dec_at_def)
  with k(1) have k28: "k < 2 ^ 28" by simp
  have "DynamicIndex e i = 62 + of_nat k" using k(2) N(1) by (simp add: DynamicIndex_def kLastStaticEntry_def algebra_simps)
  then have di: "unat (DynamicIndex e i) = 62 + k"
    using unat_of_nat_id [where 'a = 32, of "62 + k"] k28 by simp
  then have pos: "0 < DynamicIndex e i" by (simp add: word_less_nat_alt)
  have "spec_Lookup (DynamicIndex e i) S = Some md" using di k(1) lg(3) i by (simp add: spec_Lookup_def k_def)
  then show ?thesis using Lookup_ok [OF ok pos] di by simp
qed

lemma in_step_found: "in_step S N (e, d, log) \<Longrightarrow> x \<in> set log \<Longrightarrow> found e d x"
  using in_step_lookup unfolding found_def by (cases x) auto

lemma in_step_init: "in_step spec_init 0 (HPackEncoderTable, HPackTable, [])"
proof -
  have i: "unat kInitialTableEntries = 128" by code_simp
  have "enc_at (4096, 128, 0) [] HPackEncoderTable"
    by (simp add: enc_at_def HPackEncoderTable_def kInitialTableSize_def i)
  then have "enc_ok 4096 [] 0 HPackEncoderTable" by (auto simp: enc_ok_def intro!: exI [of _ 128])
  then show ?thesis using HPackTable_ok by (simp add: in_step_def spec_init_def)
qed

text \<open>
  C4: hpack_tables_in_step: the encoder and the parser stay in step. However many fields are
  sent, of at most 65535 bytes, and however the table is resized within the 4096 bytes both start with,
  no assertion fails on either side, and whenever the encoder still holds an index for a field, the
  parser finds that field under the dynamic index that the encoder sends for it.
\<close>

theorem hpack_tables_in_step:
  assumes "list_all sendable ops" "length ops < 2 ^ 32"
  shows "\<exists>e d log. run_both ops (HPackEncoderTable, HPackTable, []) = Some (e, d, log) \<and> list_all (found e d) log"
proof -
  from run_both_ok [OF in_step_init assms(1)] assms(2) obtain S N e d log where
    "run_both ops (HPackEncoderTable, HPackTable, []) = Some (e, d, log)" "in_step S N (e, d, log)" by auto
  then show ?thesis using in_step_found by (auto simp: list_all_iff)
qed

theorem hpack_tables_in_step_witness:
  "\<exists>e d log. run_both [Add_op \<lparr>md_key = [97], md_value = [], transport_size = 60\<rparr>, Size_op 100,
      Add_op \<lparr>md_key = [98], md_value = [99], transport_size = 70\<rparr>] (HPackEncoderTable, HPackTable, []) = Some (e, d, log) \<and>
    list_all (found e d) log"
  by (rule hpack_tables_in_step) simp_all

text \<open>
  hpack_entries_overflow: the number of entries for a size is computed in 32 bits: for the
  largest sizes it overflows to 0, and the tables do not grow.
\<close>

theorem hpack_entries_overflow:
  "EntriesForBytes 0xffffffff = 0 \<and>
   (\<forall>b t. SetMaxSize 0xffffffff HPackEncoderTable = Some (b, t) \<longrightarrow> length (elem_size t) = 128)"
proof -
  have e: "EntriesForBytes 0xffffffff = 0" by code_simp
  have "length (elem_size t) = 128" if "SetMaxSize 0xffffffff HPackEncoderTable = Some (b, t)" for b t
  proof -
    have "SetMaxSize 0xffffffff HPackEncoderTable = Some (True, HPackEncoderTable\<lparr>max_table_size := 0xffffffff\<rparr>)"
      unfolding SetMaxSize_def e by (subst enc_evict_while.simps) (simp add: HPackEncoderTable_def kInitialTableSize_def)
    moreover have "unat kInitialTableEntries = 128" by code_simp
    ultimately show ?thesis using that by (auto simp: HPackEncoderTable_def)
  qed
  with e show ?thesis by blast
qed

end
