(* ===== verification/Grpc_Hpack_Parser.thy ===== *)
theory Grpc_Hpack_Parser imports Grpc_Hpack_Decode Grpc_Hpack_Table begin

text \<open>
  \<open>hpack_parser.cc\<close> and \<open>hpack_parser.h\<close>: the state of an HPACK parser, \<open>Parser::Parse\<close> with every
  instruction, the loop over a block and the buffering of an instruction that is cut by the end of
  the input. The lemmas show that each reader of the code is incremental: it always has an outcome,
  and more octets at the end change it only when it had run out of them. An instruction splits into
  what is read and the action it asks for.
\<close>

section \<open>The state\<close>

datatype boundary_kind = Boundary_None | EndOfHeaders | EndOfStream

datatype priority_kind = Priority_None | Priority_Included

record hpack_parser =
  metadata_buffer :: "memento list option"
  unparsed_bytes :: octets
  hp_boundary :: boundary_kind
  hp_priority :: priority_kind
  dynamic_table_updates_allowed :: u8
  frame_length :: u32
  metadata_size_limit :: u32
  hp_table :: hpack_table

text \<open>A new parser; the members without an initial value are arguments.\<close>

definition HPackParser :: "boundary_kind \<Rightarrow> priority_kind \<Rightarrow> u8 \<Rightarrow> u32 \<Rightarrow> u32 \<Rightarrow> hpack_parser" where
  "HPackParser b q d n l =
     \<lparr>metadata_buffer = None, unparsed_bytes = [], hp_boundary = b, hp_priority = q,
      dynamic_table_updates_allowed = d, frame_length = n, metadata_size_limit = l, hp_table = HPackTable\<rparr>"

section \<open>Header fields\<close>

definition bin_suffix :: octets where "bin_suffix = octets_of ''-bin''"

definition ends_with_bin :: "octets \<Rightarrow> bool" where
  "ends_with_bin s \<longleftrightarrow> length bin_suffix \<le> length s \<and> drop (length s - length bin_suffix) s = bin_suffix"

definition TransportSize :: "u32 \<Rightarrow> u32 \<Rightarrow> u32" where
  "TransportSize key_size value_size = key_size + value_size + 32"

definition metadata_Parse :: "octets \<Rightarrow> octets \<Rightarrow> nat \<Rightarrow> memento" where
  "metadata_Parse key content tsize = \<lparr>md_key = key, md_value = content, transport_size = of_nat tsize\<rparr>"

definition WithNewValue :: "octets \<Rightarrow> memento \<Rightarrow> memento" where
  "WithNewValue content md =
     md\<lparr>md_value := content, transport_size := TransportSize (of_nat (length (md_key md))) (of_nat (length content))\<rparr>"

definition is_binary_header :: "memento \<Rightarrow> bool" where
  "is_binary_header md \<longleftrightarrow> ends_with_bin (md_key md)"

section \<open>Parsing one field\<close>

definition ParseValueString :: "bool \<Rightarrow> hpack_input \<Rightarrow> (octets option \<times> hpack_input) option" where
  "ParseValueString is_binary i = (if is_binary then String_ParseBinary i else String_Parse i)"

definition ParseLiteralKey :: "hpack_input \<Rightarrow> (memento option \<times> hpack_input) option" where
  "ParseLiteralKey i =
     do { (key, i) \<leftarrow> String_Parse i;
          case key of None \<Rightarrow> Some (None, i)
          | Some key \<Rightarrow>
              do { (content, i) \<leftarrow> ParseValueString (ends_with_bin key) i;
                   case content of None \<Rightarrow> Some (None, i)
                   | Some content \<Rightarrow>
                       let tsize = length key + length content + unat kEntryOverhead
                       in Some (Some (metadata_Parse key content tsize), i) } }"

definition InvalidHPackIndexError :: "u32 \<Rightarrow> hpack_table \<Rightarrow> hpack_input \<Rightarrow> hpack_input" where
  "InvalidHPackIndexError index t i = MaybeSetError (Invalid_index index (num_entries t)) i"

definition ParseIdxKey :: "hpack_table \<Rightarrow> u32 \<Rightarrow> hpack_input \<Rightarrow> (memento option \<times> hpack_input) option" where
  "ParseIdxKey t index i =
     do { elem \<leftarrow> Lookup_hpack index t;
          case elem of None \<Rightarrow> Some (None, InvalidHPackIndexError index t i)
          | Some elem \<Rightarrow>
              do { (content, i) \<leftarrow> ParseValueString (is_binary_header elem) i;
                   case content of None \<Rightarrow> Some (None, i)
                   | Some content \<Rightarrow> Some (Some (WithNewValue content elem), i) } }"

definition ParseVarIdxKey :: "hpack_table \<Rightarrow> u32 \<Rightarrow> hpack_input \<Rightarrow> (memento option \<times> hpack_input) option" where
  "ParseVarIdxKey t ofs i =
     (case ParseVarint ofs i of (None, i) \<Rightarrow> Some (None, i)
      | (Some index, i) \<Rightarrow> ParseIdxKey t index i)"

section \<open>What a field does\<close>

text \<open>The result is the \<open>bool\<close> of the code, with the input and the parser.\<close>

definition HandleMetadataSizeLimitExceeded :: "hpack_input \<Rightarrow> hpack_parser \<Rightarrow> bool \<times> hpack_input \<times> hpack_parser" where
  "HandleMetadataSizeLimitExceeded i p =
     (False, MaybeSetError Size_limit_exceeded i,
      if metadata_buffer p \<noteq> None then p\<lparr>metadata_buffer := Some []\<rparr> else p)"

definition EmitHeader :: "memento \<Rightarrow> hpack_input \<Rightarrow> hpack_parser \<Rightarrow> bool \<times> hpack_input \<times> hpack_parser" where
  "EmitHeader md i p =
     (case metadata_buffer p of None \<Rightarrow> (True, i, p)
      | Some batch \<Rightarrow>
          let p = p\<lparr>frame_length := frame_length p + transport_size md\<rparr>
          in if frame_length p > metadata_size_limit p then HandleMetadataSizeLimitExceeded i p
             else (True, i, p\<lparr>metadata_buffer := Some (batch @ [md])\<rparr>))"

definition FinishHeaderAndAddToTable ::
  "memento option \<Rightarrow> hpack_input \<Rightarrow> hpack_parser \<Rightarrow> (bool \<times> hpack_input \<times> hpack_parser) option" where
  "FinishHeaderAndAddToTable md i p =
     (case md of None \<Rightarrow> Some (False, i, p)
      | Some md \<Rightarrow>
          do { let (r, i, p) = EmitHeader md i p;
               (ok, t) \<leftarrow> Add_to_table md (hp_table p);
               let p = p\<lparr>hp_table := t\<rparr>;
               Some (if \<not> ok then (False, MaybeSetError Table_size_not_reflected i, p) else (r, i, p)) })"

definition FinishHeaderOmitFromTable ::
  "memento option \<Rightarrow> hpack_input \<Rightarrow> hpack_parser \<Rightarrow> bool \<times> hpack_input \<times> hpack_parser" where
  "FinishHeaderOmitFromTable md i p = (case md of None \<Rightarrow> (False, i, p) | Some md \<Rightarrow> EmitHeader md i p)"

definition FinishIndexed :: "u32 option \<Rightarrow> hpack_input \<Rightarrow> hpack_parser \<Rightarrow> (bool \<times> hpack_input \<times> hpack_parser) option" where
  "FinishIndexed index i p =
     do { let p = p\<lparr>dynamic_table_updates_allowed := 0\<rparr>;
          case index of None \<Rightarrow> Some (False, i, p)
          | Some index \<Rightarrow>
              do { elem \<leftarrow> Lookup_hpack index (hp_table p);
                   case elem of None \<Rightarrow> Some (False, InvalidHPackIndexError index (hp_table p) i, p)
                   | Some elem \<Rightarrow> Some (FinishHeaderOmitFromTable (Some elem) i p) } }"

definition FinishMaxTableSize :: "u32 option \<Rightarrow> hpack_input \<Rightarrow> hpack_parser \<Rightarrow> (bool \<times> hpack_input \<times> hpack_parser) option" where
  "FinishMaxTableSize new_size i p =
     (case new_size of None \<Rightarrow> Some (False, i, p)
      | Some new_size \<Rightarrow>
          if dynamic_table_updates_allowed p = 0 then Some (False, MaybeSetError Too_many_size_changes i, p)
          else do { let p = p\<lparr>dynamic_table_updates_allowed := dynamic_table_updates_allowed p - 1\<rparr>;
                    (ok, t) \<leftarrow> SetCurrentTableSize new_size (hp_table p);
                    let p = p\<lparr>hp_table := t\<rparr>;
                    Some (if \<not> ok then (False, MaybeSetError (Table_size_too_large new_size) i, p) else (True, i, p)) })"

section \<open>The instructions\<close>

definition Parser_Parse :: "hpack_input \<Rightarrow> hpack_parser \<Rightarrow> (bool \<times> hpack_input \<times> hpack_parser) option" where
  "Parser_Parse i p =
     (case Next i of (None, i) \<Rightarrow> None
      | (Some cur, i) \<Rightarrow>
          let op = drop_bit 4 cur; t = hp_table p in
          if op \<le> 1
          then do { (md, i) \<leftarrow> (if cur AND 0xf = 0 then ParseLiteralKey i
                               else if cur AND 0xf = 0xf then ParseVarIdxKey t 0xf i
                               else ParseIdxKey t (ucast (cur AND 0xf)) i);
                    Some (FinishHeaderOmitFromTable md i p) }
          else if op = 2 \<or> op = 3
          then if cur = 0x3f
               then case ParseVarint 0x1f i of (new_size, i) \<Rightarrow> FinishMaxTableSize new_size i p
               else FinishMaxTableSize (Some (ucast (cur AND 0x1f))) i p
          else if op \<le> 7
          then do { (md, i) \<leftarrow> (if cur = 0x40 then ParseLiteralKey i
                               else if cur = 0x7f then ParseVarIdxKey t 0x3f i
                               else ParseIdxKey t (ucast (cur AND 0x3f)) i);
                    FinishHeaderAndAddToTable md i p }
          else if cur = 0x80 then Some (False, MaybeSetError Illegal_op_code i, p)
          else if cur = 0xff then case ParseVarint 0x7f i of (index, i) \<Rightarrow> FinishIndexed index i p
          else FinishIndexed (Some (ucast (cur AND 0x7f))) i p)"

section \<open>The interface\<close>

definition BeginFrame :: "memento list option \<Rightarrow> u32 \<Rightarrow> boundary_kind \<Rightarrow> priority_kind \<Rightarrow> hpack_parser \<Rightarrow> hpack_parser" where
  "BeginFrame buffer size_limit b q p =
     p\<lparr>metadata_buffer := buffer, hp_boundary := b, hp_priority := q, dynamic_table_updates_allowed := 2,
       frame_length := 0, metadata_size_limit := size_limit\<rparr>"

definition is_boundary :: "hpack_parser \<Rightarrow> bool" where
  "is_boundary p \<longleftrightarrow> hp_boundary p \<noteq> Boundary_None"

definition is_eof :: "hpack_parser \<Rightarrow> bool" where
  "is_eof p \<longleftrightarrow> hp_boundary p = EndOfStream"

definition StopBufferingFrame :: "hpack_parser \<Rightarrow> hpack_parser" where
  "StopBufferingFrame p = p\<lparr>metadata_buffer := None\<rparr>"

definition FinishFrame :: "hpack_parser \<Rightarrow> hpack_parser" where
  "FinishFrame p = p\<lparr>metadata_buffer := None\<rparr>"

partial_function (option) parse_loop :: "hpack_input \<Rightarrow> hpack_parser \<Rightarrow> (bool \<times> hpack_input \<times> hpack_parser) option" where
  [code]: "parse_loop i p =
     (if end_of_stream i then Some (True, i, p)
      else do { (ok, i, p) \<leftarrow> Parser_Parse i p;
                if ok then parse_loop (UpdateFrontier i) p else Some (False, i, p) })"

definition ParseInputInner :: "hpack_input \<Rightarrow> hpack_parser \<Rightarrow> (bool \<times> hpack_input \<times> hpack_parser) option" where
  "ParseInputInner i p =
     (case hp_priority p of
        Priority_None \<Rightarrow> parse_loop i p
      | Priority_Included \<Rightarrow>
          if remaining i < 5 then Some (False, UnexpectedEOF i, p)
          else parse_loop (UpdateFrontier (Advance 5 i)) (p\<lparr>hp_priority := Priority_None\<rparr>))"

text \<open>The result is the error, if there is one.\<close>

definition ParseInput :: "hpack_input \<Rightarrow> bool \<Rightarrow> hpack_parser \<Rightarrow> (hpack_error option \<times> hpack_parser) option" where
  "ParseInput i is_last p =
     do { (ok, i, p) \<leftarrow> ParseInputInner i p;
          Some (if ok then (None, p)
                else if in_eof i
                then if is_last \<and> is_boundary p then (Some Incomplete_header, p)
                     else (None, p\<lparr>unparsed_bytes := drop (in_frontier i) (in_bytes i)\<rparr>)
                else (in_error i, p)) }"

definition HPackParser_Parse :: "octets \<Rightarrow> bool \<Rightarrow> hpack_parser \<Rightarrow> (hpack_error option \<times> hpack_parser) option" where
  "HPackParser_Parse slc is_last p =
     (if unparsed_bytes p \<noteq> [] then ParseInput (Input (unparsed_bytes p @ slc)) is_last (p\<lparr>unparsed_bytes := []\<rparr>)
      else ParseInput (Input slc) is_last p)"

section \<open>Reading a longer input\<close>

text \<open>What a reader leaves alone, and the outcomes it has: the end of the input, an error, or a value.\<close>

definition keeps :: "hpack_input \<Rightarrow> hpack_input \<Rightarrow> bool" where
  "keeps i i' \<longleftrightarrow> in_bytes i' = in_bytes i \<and> in_frontier i' = in_frontier i \<and> in_begin i \<le> in_begin i' \<and> in_begin i' \<le> length (in_bytes i)"

definition read_outcome :: "'a option \<Rightarrow> hpack_input \<Rightarrow> bool" where
  "read_outcome r i \<longleftrightarrow>
     (if in_eof i then in_error i = None \<and> r = None
      else if in_error i \<noteq> None then r = None else fresh i \<and> r \<noteq> None)"

text \<open>
  A reader is incremental when it always has an outcome and when more input at the end changes
  nothing, unless it has reached the end of the input.
\<close>

definition incremental :: "(hpack_input \<Rightarrow> ('a option \<times> hpack_input) option) \<Rightarrow> bool" where
  "incremental f \<longleftrightarrow>
     (\<forall>i. fresh i \<longrightarrow> (\<exists>r i'. f i = Some (r, i') \<and> read_outcome r i' \<and> keeps i i')) \<and>
     (\<forall>i j y r i'. fresh i \<longrightarrow> fresh j \<longrightarrow> rest_of j = rest_of i @ y \<longrightarrow> f i = Some (r, i') \<longrightarrow> \<not> in_eof i' \<longrightarrow>
        (\<exists>j'. f j = Some (r, j') \<and> in_error j' = in_error i' \<and> \<not> in_eof j' \<and>
           (in_error i' = None \<longrightarrow> rest_of j' = rest_of i' @ y)))"

lemma incrementalI:
  assumes "\<And>i. fresh i \<Longrightarrow> \<exists>r i'. f i = Some (r, i') \<and> read_outcome r i' \<and> keeps i i'"
    and "\<And>i j y r i'. fresh i \<Longrightarrow> fresh j \<Longrightarrow> rest_of j = rest_of i @ y \<Longrightarrow> f i = Some (r, i') \<Longrightarrow> \<not> in_eof i' \<Longrightarrow>
        \<exists>j'. f j = Some (r, j') \<and> in_error j' = in_error i' \<and> \<not> in_eof j' \<and> (in_error i' = None \<longrightarrow> rest_of j' = rest_of i' @ y)"
  shows "incremental f"
  unfolding incremental_def using assms by auto

lemma incremental_outcome:
  assumes "incremental f" "fresh i"
  obtains r i' where "f i = Some (r, i')" "read_outcome r i'" "keeps i i'"
  using assms unfolding incremental_def by blast

lemma incremental_more:
  assumes "incremental f" "fresh i" "fresh j" "rest_of j = rest_of i @ y" "f i = Some (r, i')" "\<not> in_eof i'"
  obtains j' where "f j = Some (r, j')" "in_error j' = in_error i'" "\<not> in_eof j'" "in_error i' = None \<Longrightarrow> rest_of j' = rest_of i' @ y"
proof -
  note more = conjunct2 [OF assms(1) [unfolded incremental_def], rule_format, OF assms(2-6)]
  then obtain j' where "f j = Some (r, j') \<and> in_error j' = in_error i' \<and> \<not> in_eof j' \<and> (in_error i' = None \<longrightarrow> rest_of j' = rest_of i' @ y)" ..
  then show thesis using that [of j'] by simp
qed

lemma incremental_fresh: "incremental f \<Longrightarrow> fresh i \<Longrightarrow> f i = Some (r, i') \<Longrightarrow> \<not> in_eof i' \<Longrightarrow> in_error i' = None \<Longrightarrow> fresh i' \<and> r \<noteq> None"
proof -
  assume f: "incremental f" "fresh i" and i': "f i = Some (r, i')" "\<not> in_eof i'" "in_error i' = None"
  then have "read_outcome r i'" using incremental_outcome [OF f] by auto
  then show ?thesis using i' by (simp add: read_outcome_def)
qed

definition and_then :: "(hpack_input \<Rightarrow> ('a option \<times> hpack_input) option) \<Rightarrow> ('a \<Rightarrow> hpack_input \<Rightarrow> ('b option \<times> hpack_input) option) \<Rightarrow>
    hpack_input \<Rightarrow> ('b option \<times> hpack_input) option" where
  "and_then f g i = do { (r, i) \<leftarrow> f i; case r of None \<Rightarrow> Some (None, i) | Some x \<Rightarrow> g x i }"

lemma keeps_trans: "keeps i j \<Longrightarrow> keeps j k \<Longrightarrow> keeps i k"
  by (auto simp: keeps_def)

lemma keeps_refl: "fresh i \<Longrightarrow> keeps i i"
  by (simp add: keeps_def fresh_def)

named_theorems incremental_intros

lemma incremental_and_then [incremental_intros]:
  assumes f: "incremental f" and g: "\<And>x. incremental (g x)"
  shows "incremental (and_then f g)"
proof (rule incrementalI)
  fix i assume "fresh i"
  obtain r i' where 1: "f i = Some (r, i')" "read_outcome r i'" "keeps i i'" using incremental_outcome [OF f \<open>fresh i\<close>] by blast
  show "\<exists>r i'. and_then f g i = Some (r, i') \<and> read_outcome r i' \<and> keeps i i'"
  proof (cases r)
    case None
    then show ?thesis using 1 by (auto simp: and_then_def read_outcome_def split: if_splits)
  next
    case (Some x)
    then have "fresh i'" using 1(2) by (auto simp: read_outcome_def split: if_splits)
    then obtain s i'' where "g x i' = Some (s, i'')" "read_outcome s i''" "keeps i' i''" using incremental_outcome [OF g] by blast
    then show ?thesis using 1 Some keeps_trans by (auto simp: and_then_def)
  qed
next
  fix i j y r i'
  assume ij: "fresh i" "fresh j" "rest_of j = rest_of i @ y" and r: "and_then f g i = Some (r, i')" "\<not> in_eof i'"
  obtain s i1 where 1: "f i = Some (s, i1)" "read_outcome s i1" "keeps i i1" using incremental_outcome [OF f ij(1)] by blast
  have eof: "\<not> in_eof i1"
  proof
    assume "in_eof i1"
    then have "s = None" using 1(2) by (simp add: read_outcome_def)
    then show False using r 1(1) \<open>in_eof i1\<close> by (simp add: and_then_def)
  qed
  obtain j1 where j1: "f j = Some (s, j1)" "in_error j1 = in_error i1" "\<not> in_eof j1" "in_error i1 = None \<Longrightarrow> rest_of j1 = rest_of i1 @ y"
    using incremental_more [OF f ij 1(1) eof] by blast
  show "\<exists>j'. and_then f g j = Some (r, j') \<and> in_error j' = in_error i' \<and> \<not> in_eof j' \<and> (in_error i' = None \<longrightarrow> rest_of j' = rest_of i' @ y)"
  proof (cases s)
    case None
    then show ?thesis using 1 j1 r by (auto simp: and_then_def)
  next
    case (Some x)
    then have i1: "fresh i1" "in_error i1 = None" using 1(2) eof by (auto simp: read_outcome_def split: if_splits)
    have "fresh j1" using incremental_fresh [OF f ij(2) j1(1,3)] j1(2) i1(2) by simp
    moreover have "g x i1 = Some (r, i')" using r(1) 1(1) Some by (simp add: and_then_def)
    ultimately obtain j' where "g x j1 = Some (r, j')" "in_error j' = in_error i'" "\<not> in_eof j'" "in_error i' = None \<Longrightarrow> rest_of j' = rest_of i' @ y"
      using incremental_more [OF g i1(1) _ j1(4) [OF i1(2)]] r(2) by metis
    then show ?thesis using j1(1) Some by (auto simp: and_then_def)
  qed
qed

lemma incremental_return [incremental_intros]: "incremental (\<lambda>i. Some (Some x, i))"
  by (rule incrementalI) (auto simp: read_outcome_def fresh_def keeps_refl)

lemma incremental_fail [incremental_intros]: "incremental (\<lambda>i. Some (None, MaybeSetError e i))"
  by (rule incrementalI) (auto simp: read_outcome_def fresh_def keeps_def MaybeSetError_def)

lemma incremental_if [incremental_intros]:
  "incremental f \<Longrightarrow> incremental g \<Longrightarrow> incremental (if b then f else g)"
  by simp

lemma rest_Nil: "fresh i \<Longrightarrow> rest_of i = [] \<longleftrightarrow> end_of_stream i"
  by (auto simp: fresh_def rest_of_def end_of_stream_def)

lemma incremental_Next [incremental_intros]: "incremental (\<lambda>i. Some (Next i))"
proof (rule incrementalI)
  fix i assume i: "fresh i"
  show "\<exists>r i'. Some (Next i) = Some (r, i') \<and> read_outcome r i' \<and> keeps i i'"
  proof (cases "rest_of i")
    case Nil
    then show ?thesis using Next_Nil [OF i] i by (auto simp: read_outcome_def fresh_def keeps_def)
  next
    case (Cons c r)
    have "keeps i (Advance 1 i)" using fresh_Advance [OF i Cons] by (simp add: keeps_def Advance_def fresh_def)
    then show ?thesis using Next_Cons [OF Cons] fresh_Advance [OF i Cons] by (auto simp: read_outcome_def fresh_def)
  qed
next
  fix i j y r i'
  assume ij: "fresh i" "fresh j" "rest_of j = rest_of i @ y" and r: "Some (Next i) = Some (r, i')" "\<not> in_eof i'"
  have "rest_of i \<noteq> []" using r Next_Nil [OF ij(1)] by auto
  then obtain c cs where c: "rest_of i = c # cs" by (cases "rest_of i") auto
  then have "rest_of j = c # (cs @ y)" using ij(3) by simp
  then show "\<exists>j'. Some (Next j) = Some (r, j') \<and> in_error j' = in_error i' \<and> \<not> in_eof j' \<and> (in_error i' = None \<longrightarrow> rest_of j' = rest_of i' @ y)"
    using Next_Cons [OF c] Next_Cons [of j c "cs @ y"] r(1) ij(1,2) by (auto simp: Advance_def fresh_def)
qed

section \<open>The readers are incremental\<close>

text \<open>Blocks of a known length.\<close>

lemma incremental_block:
  assumes "\<And>i. fresh i \<Longrightarrow> f i = (if remaining i < n then Some (None, UnexpectedEOF i)
       else Some (Some (g (take n (rest_of i))), Advance n i))"
  shows "incremental f"
proof (rule incrementalI)
  fix i assume "fresh i"
  then show "\<exists>r i'. f i = Some (r, i') \<and> read_outcome r i' \<and> keeps i i'"
    by (auto simp: assms read_outcome_def keeps_def fresh_def remaining_def UnexpectedEOF_def Advance_def)
next
  fix i j y r i'
  assume ij: "fresh i" "fresh j" "rest_of j = rest_of i @ y" and r: "f i = Some (r, i')" "\<not> in_eof i'"
  have l: "remaining k = length (rest_of k)" for k by (simp add: remaining_def rest_of_def)
  have n: "n \<le> remaining i" using r ij(1) by (auto simp: assms fresh_def UnexpectedEOF_def split: if_splits)
  then have "\<not> remaining j < n" using ij(3) by (simp add: l)
  moreover have "take n (rest_of j) = take n (rest_of i)" using n ij(3) by (simp add: l)
  moreover have "rest_of (Advance n k) = drop n (rest_of k)" for k by (simp add: rest_of_def Advance_def add.commute)
  ultimately show "\<exists>j'. f j = Some (r, j') \<and> in_error j' = in_error i' \<and> \<not> in_eof j' \<and> (in_error i' = None \<longrightarrow> rest_of j' = rest_of i' @ y)"
    using r(1) n ij by (auto simp: assms l fresh_def Advance_def)
qed

lemma incremental_ParseUncompressed [incremental_intros]: "incremental (\<lambda>i. Some (ParseUncompressed n i))"
  by (rule incremental_block [where g = "\<lambda>os. os" and n = n]) (simp add: ParseUncompressed_def rest_of_def)

lemma incremental_ParseHuff [incremental_intros]: "incremental (ParseHuff n)"
proof (rule incremental_block)
  fix i :: hpack_input
  show "ParseHuff n i = (if remaining i < n then Some (None, UnexpectedEOF i)
       else Some (Some (snd (the (foldM huff_octet (take n (rest_of i)) (0, [])))), Advance n i))"
    by (rule machine_run [of "take n (rest_of i)"]) (auto simp: ParseHuff_def rest_of_def)
qed

lemma skip_continuation_Cons:
  assumes "fresh i" "rest_of i = c # cs"
  shows "skip_continuation i = (if c = 0x80 then skip_continuation (Advance 1 i) else (Some c, Advance 1 i))"
  using Next_Cons [OF assms(2)] assms(1) by (subst skip_continuation.simps) (simp add: fresh_def)

lemma keeps_Advance: "fresh i \<Longrightarrow> rest_of i = c # cs \<Longrightarrow> keeps i (Advance 1 i)"
  using fresh_Advance [of i c cs] by (auto simp: keeps_def Advance_def fresh_def)

lemma incremental_skip [incremental_intros]: "incremental (\<lambda>i. Some (skip_continuation i))"
proof (rule incrementalI)
  fix i assume "fresh i"
  then show "\<exists>r i'. Some (skip_continuation i) = Some (r, i') \<and> read_outcome r i' \<and> keeps i i'"
  proof (induction "rest_of i" arbitrary: i)
    case Nil
    then have "skip_continuation i = (None, i\<lparr>in_eof := True\<rparr>)"
      using Next_Nil [of i] by (subst skip_continuation.simps) (simp add: fresh_def)
    then show ?case using Nil by (simp add: read_outcome_def fresh_def keeps_def)
  next
    case (Cons c cs)
    note n = Next_Cons [OF Cons.hyps(2) [symmetric]] fresh_Advance [OF Cons.prems Cons.hyps(2) [symmetric]]
      keeps_Advance [OF Cons.prems Cons.hyps(2) [symmetric]]
    show ?case
    proof (cases "c = 0x80")
      case True
      then show ?thesis using Cons.hyps(1) [of "Advance 1 i"] n keeps_trans skip_continuation_Cons [OF Cons.prems Cons.hyps(2) [symmetric]]
        by auto
    next
      case False
      then show ?thesis using n skip_continuation_Cons [OF Cons.prems Cons.hyps(2) [symmetric]] by (auto simp: read_outcome_def fresh_def)
    qed
  qed
next
  fix i j y r i'
  assume "fresh i" "fresh j" "rest_of j = rest_of i @ y" "Some (skip_continuation i) = Some (r, i')" "\<not> in_eof i'"
  then show "\<exists>j'. Some (skip_continuation j) = Some (r, j') \<and> in_error j' = in_error i' \<and> \<not> in_eof j' \<and> (in_error i' = None \<longrightarrow> rest_of j' = rest_of i' @ y)"
  proof (induction "rest_of i" arbitrary: i j)
    case Nil
    then have "skip_continuation i = (None, i\<lparr>in_eof := True\<rparr>)"
      using Next_Nil [of i] by (subst skip_continuation.simps) (simp add: fresh_def)
    then show ?case using Nil by auto
  next
    case (Cons c cs)
    have i: "rest_of i = c # cs" "rest_of j = c # (cs @ y)" using Cons.hyps(2) Cons.prems(3) by simp_all
    note n = Next_Cons(2) [OF i(1)] Next_Cons(2) [OF i(2)] fresh_Advance [OF Cons.prems(1) i(1)] fresh_Advance [OF Cons.prems(2) i(2)]
      skip_continuation_Cons [OF Cons.prems(1) i(1)] skip_continuation_Cons [OF Cons.prems(2) i(2)]
    show ?case
    proof (cases "c = 0x80")
      case True
      then show ?thesis using Cons.hyps(1) [of "Advance 1 i" "Advance 1 j"] n Cons.prems(4,5) by simp
    next
      case False
      then show ?thesis using n Cons.prems(4) by (auto simp: fresh_def)
    qed
  qed
qed

lemma incremental_fifth [incremental_intros]: "incremental (\<lambda>i. Some (varint_fifth v i))"
proof -
  have "(\<lambda>i. Some (varint_fifth v i)) =
      and_then (\<lambda>i. Some (Next i)) (\<lambda>cur. let c = ucast cur AND 0x7f; add = push_bit 28 c; w = v + add in
        if c > 0xf then (\<lambda>i. Some (None, MaybeSetError (Varint_overflow v cur) i))
        else if add > 0xffffffff - v then (\<lambda>i. Some (None, MaybeSetError (Varint_overflow v cur) i))
        else if cur AND 0x80 = 0 then (\<lambda>i. Some (Some w, i))
        else and_then (\<lambda>i. Some (skip_continuation i)) (\<lambda>cur. if cur = 0 then (\<lambda>i. Some (Some w, i))
          else (\<lambda>i. Some (None, MaybeSetError (Varint_overflow w cur) i))))"
    by (auto simp: fun_eq_iff varint_fifth_def ParseVarintOutOfRange_def and_then_def Let_def split: prod.split option.split)
  then show ?thesis by (simp only: Let_def) (intro incremental_intros)
qed

lemma incremental_varint_byte [incremental_intros]:
  assumes "\<And>v. incremental (\<lambda>i. Some (f v i))"
  shows "incremental (\<lambda>i. Some (varint_byte shift f v i))"
proof -
  have "(\<lambda>i. Some (varint_byte shift f v i)) =
      and_then (\<lambda>i. Some (Next i)) (\<lambda>cur. if cur AND 0x80 = 0
        then (\<lambda>i. Some (Some (v + push_bit shift (ucast cur AND 0x7f)), i))
        else (\<lambda>i. Some (f (v + push_bit shift (ucast cur AND 0x7f)) i)))"
    by (auto simp: fun_eq_iff varint_byte_def and_then_def Let_def split: prod.split option.split)
  then show ?thesis by (simp only:) (intro incremental_intros assms)
qed

lemma incremental_ParseVarint [incremental_intros]: "incremental (\<lambda>i. Some (ParseVarint v i))"
  unfolding ParseVarint_def by (intro incremental_intros)

lemma incremental_ParseStringPrefix [incremental_intros]: "incremental (\<lambda>i. Some (ParseStringPrefix i))"
proof -
  have "(\<lambda>i. Some (ParseStringPrefix i)) =
      and_then (\<lambda>i. Some (Next i)) (\<lambda>cur. let huff = (cur AND 0x80 \<noteq> 0); strlen = ucast cur AND 0x7f in
        if strlen = 0x7f
        then and_then (\<lambda>i. Some (ParseVarint 0x7f i)) (\<lambda>v i. Some (Some \<lparr>pfx_length = v, pfx_huff = huff\<rparr>, i))
        else (\<lambda>i. Some (Some \<lparr>pfx_length = strlen, pfx_huff = huff\<rparr>, i)))"
    by (auto simp: fun_eq_iff ParseStringPrefix_def and_then_def Let_def split: prod.split option.split)
  then show ?thesis by (simp only: Let_def) (intro incremental_intros)
qed

lemma incremental_Unbase64 [incremental_intros]: "incremental (\<lambda>i. Some (Unbase64 i s))"
  by (cases "Unbase64Loop s") (simp_all add: Unbase64_def incremental_intros)

lemma incremental_String_Parse [incremental_intros]: "incremental String_Parse"
proof -
  have eq: "String_Parse = and_then (\<lambda>i. Some (ParseStringPrefix i)) (\<lambda>pfx. if pfx_huff pfx then ParseHuff (unat (pfx_length pfx))
      else (\<lambda>i. Some (ParseUncompressed (unat (pfx_length pfx)) i)))"
    by (auto simp: fun_eq_iff String_Parse_def and_then_def split: prod.split option.split)
  show ?thesis unfolding eq by (intro incremental_intros)
qed

lemma incremental_peek:
  assumes nil: "\<And>i. fresh i \<Longrightarrow> rest_of i = [] \<Longrightarrow> f i = Some (None, UnexpectedEOF i)"
    and cons: "\<And>i c cs. fresh i \<Longrightarrow> rest_of i = c # cs \<Longrightarrow> f i = g c i" and g: "\<And>c. incremental (g c)"
  shows "incremental f"
proof (rule incrementalI)
  fix i assume i: "fresh i"
  show "\<exists>r i'. f i = Some (r, i') \<and> read_outcome r i' \<and> keeps i i'"
  proof (cases "rest_of i")
    case Nil
    then show ?thesis using nil [OF i] i by (auto simp: read_outcome_def keeps_def fresh_def UnexpectedEOF_def)
  next
    case (Cons c cs)
    then show ?thesis using cons [OF i] incremental_outcome [OF g i] by metis
  qed
next
  fix i j y r i'
  assume ij: "fresh i" "fresh j" "rest_of j = rest_of i @ y" and r: "f i = Some (r, i')" "\<not> in_eof i'"
  have "rest_of i \<noteq> []" using nil [OF ij(1)] r ij(1) by (auto simp: UnexpectedEOF_def fresh_def)
  then obtain c cs where c: "rest_of i = c # cs" by (cases "rest_of i") auto
  then have "f i = g c i" "f j = g c j" using cons ij by simp_all
  then show "\<exists>j'. f j = Some (r, j') \<and> in_error j' = in_error i' \<and> \<not> in_eof j' \<and> (in_error i' = None \<longrightarrow> rest_of j' = rest_of i' @ y)"
    using incremental_more [OF g ij _ r(2), of c] r(1) by metis
qed

lemma incremental_true_binary:
  assumes "incremental h"
    and h: "\<And>i. fresh i \<Longrightarrow> rest_of i = [] \<Longrightarrow> 0 < n \<Longrightarrow> h i = Some (None, UnexpectedEOF i)"
  shows "incremental (\<lambda>i. if 0 < (n :: u32) \<and> peek i = Some 0 then Some (ParseUncompressed (unat (n - 1)) (Advance 1 i)) else h i)"
proof (cases "0 < n")
  case False
  then show ?thesis using assms by simp
next
  case n: True
  show ?thesis
  proof (rule incremental_peek)
    fix i assume "fresh i" "rest_of i = []"
    then show "(if 0 < n \<and> peek i = Some 0 then Some (ParseUncompressed (unat (n - 1)) (Advance 1 i)) else h i) = Some (None, UnexpectedEOF i)"
      using h [OF _ _ n] by (simp add: peek_def rest_Nil)
  next
    fix i c cs assume i: "fresh i" "rest_of i = c # cs"
    then have "peek i = Some c" using Next_Cons(1) [OF i(2)] by (auto simp: peek_def Next_def split: if_splits)
    then show "(if 0 < n \<and> peek i = Some 0 then Some (ParseUncompressed (unat (n - 1)) (Advance 1 i)) else h i) =
        (if c = 0 then and_then (\<lambda>i. Some (Next i)) (\<lambda>_ i. Some (ParseUncompressed (unat (n - 1)) i)) else h) i"
      using n Next_Cons(1) [OF i(2)] by (simp add: and_then_def)
  next
    show "incremental (if c = 0 then and_then (\<lambda>i. Some (Next i)) (\<lambda>_ i. Some (ParseUncompressed (unat (n - 1)) i)) else h)" for c :: u8
      by (intro incremental_intros assms)
  qed
qed

lemma incremental_String_ParseBinary [incremental_intros]: "incremental String_ParseBinary"
proof -
  let ?plain = "\<lambda>n. and_then (\<lambda>i. Some (ParseUncompressed (unat n) i)) (\<lambda>s i. Some (Unbase64 i s))"
  let ?huff = "\<lambda>n. and_then (ParseHuff (unat n)) (\<lambda>os. case fold binary_out os (kUnsure, []) of (st, d) \<Rightarrow>
     (if st = kUnsure then (\<lambda>i. Some (Some [], i)) else if st = kBinary then (\<lambda>i. Some (Some d, i)) else (\<lambda>i. Some (Unbase64 i d))))"
  have eq: "String_ParseBinary = and_then (\<lambda>i. Some (ParseStringPrefix i)) (\<lambda>pfx. if \<not> pfx_huff pfx
     then (\<lambda>i. if 0 < pfx_length pfx \<and> peek i = Some 0 then Some (ParseUncompressed (unat (pfx_length pfx - 1)) (Advance 1 i))
              else ?plain (pfx_length pfx) i)
     else ?huff (pfx_length pfx))"
    by (auto simp: fun_eq_iff String_ParseBinary_def and_then_def split: prod.split option.split binary_state.split bind_splits)
  have plain: "incremental (?plain n)" for n :: u32 by (intro incremental_intros)
  have huff: "incremental (?huff n)" for n :: u32
    by (intro incremental_intros) (auto split: prod.split intro!: incremental_intros)
  have "?plain n i = Some (None, UnexpectedEOF i)" if "rest_of i = []" "0 < n" for i and n :: u32
    using that by (simp add: and_then_def ParseUncompressed_def remaining_def rest_of_def word_less_nat_alt)
  then show ?thesis unfolding eq by (intro incremental_intros incremental_true_binary plain huff) 
qed

lemma incremental_ParseValueString [incremental_intros]: "incremental (ParseValueString b)"
  unfolding ParseValueString_def by (cases b) (simp_all add: incremental_intros)

section \<open>Lengths\<close>

lemma unbase64_length: "unbase64_octets s = Some t \<Longrightarrow> length t \<le> length s"
proof (induction s arbitrary: t rule: unbase64_octets.induct)
  case (1 a b c d cur)
  then show ?case by (auto simp: Let_def split: bind_splits) fastforce
qed (auto simp: Let_def split: bind_splits if_splits)

lemma Unbase64_length: "Unbase64 i s = (Some t, i') \<Longrightarrow> length t \<le> length s"
proof -
  assume "Unbase64 i s = (Some t, i')"
  then have "length t \<le> length (rev (dropWhile (\<lambda>c. c = 0x3d) (rev s)))"
    by (intro unbase64_length) (simp add: Unbase64_def Unbase64Loop_def split: option.splits)
  also have "\<dots> \<le> length s" using length_dropWhile_le [of _ "rev s"] by simp
  finally show ?thesis .
qed

lemma ParseHuff_length: "ParseHuff n i = Some (Some s, i') \<Longrightarrow> length s \<le> 2 * length (in_bytes i)"
proof -
  assume s: "ParseHuff n i = Some (Some s, i')"
  then have "n \<le> length (in_bytes i)" by (simp add: ParseHuff_def remaining_def split: if_splits)
  then show ?thesis using decoded_length [OF s] by simp
qed

lemma ParseUncompressed_length: "ParseUncompressed n i = (Some s, i') \<Longrightarrow> length s \<le> length (in_bytes i)"
  by (auto simp: ParseUncompressed_def split: if_splits)

lemma prefix_bytes:
  assumes "fresh i" "ParseStringPrefix i = (r, i')"
  shows "in_bytes i' = in_bytes i"
  using incremental_outcome [OF incremental_ParseStringPrefix assms(1)] assms(2) by (auto simp: keeps_def)

lemma String_Parse_length:
  assumes "fresh i" "String_Parse i = Some (Some s, i')"
  shows "length s \<le> 2 * length (in_bytes i)"
  using assms prefix_bytes [OF assms(1)] ParseHuff_length ParseUncompressed_length
  by (fastforce simp: String_Parse_def split: prod.splits option.splits if_splits)

lemma binary_out_length: "fold binary_out os (st, d) = (st', d') \<Longrightarrow> length d' \<le> length d + length os"
proof (induction os arbitrary: st d)
  case (Cons c os)
  obtain st1 d1 where "binary_out c (st, d) = (st1, d1)" by (cases "binary_out c (st, d)")
  moreover from this have "length d1 \<le> length d + 1" by (cases st) (auto split: if_splits)
  ultimately show ?case using Cons.IH [of st1 d1] Cons.prems by fastforce
qed simp

lemma String_ParseBinary_length:
  assumes "fresh i" "String_ParseBinary i = Some (Some s, i')"
  shows "length s \<le> 2 * length (in_bytes i)"
proof -
  obtain pfx i1 where 1: "ParseStringPrefix i = (Some pfx, i1)"
    using assms(2) by (auto simp: String_ParseBinary_def split: prod.splits option.splits)
  then have b: "in_bytes i1 = in_bytes i" by (rule prefix_bytes [OF assms(1)])
  show ?thesis
  proof (cases "pfx_huff pfx")
    case True
    then obtain os i2 where os: "ParseHuff (unat (pfx_length pfx)) i1 = Some (Some os, i2)"
      using assms(2) 1 by (auto simp: String_ParseBinary_def split: option.splits bind_splits)
    obtain st d where d: "fold binary_out os (kUnsure, []) = (st, d)" by (cases "fold binary_out os (kUnsure, [])")
    have "length d \<le> 2 * length (in_bytes i)" using binary_out_length [OF d] ParseHuff_length [OF os] b by simp
    then show ?thesis using assms(2) 1 True os d Unbase64_length [of i2 d s i']
      by (cases st) (auto simp: String_ParseBinary_def)
  next
    case False
    have a: "in_bytes (Advance 1 i1) = in_bytes i" by (simp add: Advance_def b)
    show ?thesis
    proof (cases "0 < pfx_length pfx \<and> peek i1 = Some 0")
      case True
      then show ?thesis using assms(2) 1 False a ParseUncompressed_length [of _ "Advance 1 i1" s i']
        by (fastforce simp: String_ParseBinary_def)
    next
      case nt: False
      then obtain s64 i2 where "ParseUncompressed (unat (pfx_length pfx)) i1 = (Some s64, i2)" "Unbase64 i2 s64 = (Some s, i')"
        using assms(2) 1 False by (auto simp: String_ParseBinary_def split: prod.splits option.splits)
      then show ?thesis using ParseUncompressed_length Unbase64_length b by fastforce
    qed
  qed
qed

lemma ParseValueString_length: "fresh i \<Longrightarrow> ParseValueString b i = Some (Some s, i') \<Longrightarrow> length s \<le> 2 * length (in_bytes i)"
  using String_Parse_length String_ParseBinary_length by (auto simp: ParseValueString_def split: if_splits)

text \<open>A varint is at least the number it is read on top of.\<close>

definition no_less :: "nat \<Rightarrow> (u32 \<Rightarrow> hpack_input \<Rightarrow> u32 option \<times> hpack_input) \<Rightarrow> bool" where
  "no_less shift f \<longleftrightarrow> (\<forall>v i w i'. unat v < 2 ^ shift + 127 \<longrightarrow> f v i = (Some w, i') \<longrightarrow> unat v \<le> unat w)"

lemma no_less_fifth: "no_less 28 varint_fifth"
  unfolding no_less_def
proof (intro allI impI)
  fix v :: u32 and i w i'
  assume w: "varint_fifth v i = (Some w, i')"
  obtain c j where c: "Next i = (Some c, j)" using w by (auto simp: varint_fifth_def split: prod.splits option.splits)
  let ?add = "push_bit 28 (ucast c AND 0x7f) :: u32"
  have "w = v + ?add" "\<not> ?add > 0xffffffff - v"
    using w c by (auto simp: varint_fifth_def ParseVarintOutOfRange_def Let_def split: prod.splits option.splits if_splits)
  moreover have "unat (0xffffffff - v) = 0xffffffff - unat v" using unat_lt_exp [of v] by (simp add: unat_sub word_le_nat_alt)
  ultimately have "unat ?add \<le> 0xffffffff - unat v" by (simp add: word_less_nat_alt)
  then have "unat (v + ?add) = unat v + unat ?add" using unat_lt_exp [of v] by (intro unat_add_below) simp
  then show "unat v \<le> unat w" using \<open>w = v + ?add\<close> by simp
qed

lemma no_less_byte:
  assumes f: "no_less (shift + 7) f" and shift: "shift \<le> 21"
  shows "no_less shift (varint_byte shift f)"
  unfolding no_less_def
proof (intro allI impI)
  fix v :: u32 and i w i'
  assume v: "unat v < 2 ^ shift + 127" and w: "varint_byte shift f v i = (Some w, i')"
  obtain c j where c: "Next i = (Some c, j)" using w by (auto simp: varint_byte_def split: prod.splits option.splits)
  let ?c = "unat (c AND 0x7f)" and ?add = "push_bit shift (ucast c AND 0x7f) :: u32"
  have "(2::nat) ^ shift \<le> 2 ^ 21" using shift by (intro power_increasing) simp_all
  then have s21: "(2::nat) ^ shift \<le> 2097152" by simp
  have m: "2 ^ shift * ?c \<le> 2 ^ shift * 127" using septet_bounds [of c] by (intro mult_left_mono) simp_all
  have "2 ^ shift * ?c < 4294967296" using m s21 by linarith
  then have p: "unat ?add = 2 ^ shift * ?c"
    using unat_push_bit_below [of shift "ucast c AND 0x7f :: u32"] by (simp only: ucast_septet) simp
  have "unat v + 2 ^ shift * ?c < 4294967296" using v m s21 by linarith
  then have u: "unat (v + ?add) = unat v + 2 ^ shift * ?c" using p unat_add_below [of v ?add] by simp
  have "(2::nat) ^ (shift + 7) = 2 ^ shift * 128" by (simp add: power_add)
  then have vb: "unat (v + ?add) < 2 ^ (shift + 7) + 127" using v m unfolding u by linarith
  have "w = v + ?add \<or> f (v + ?add) j = (Some w, i')" using w c by (auto simp: varint_byte_def Let_def split: if_splits)
  then show "unat v \<le> unat w" using f vb u unfolding no_less_def by fastforce
qed

lemma ParseVarint_no_less:
  assumes "unat v \<le> 127" "ParseVarint v i = (Some w, i')"
  shows "unat v \<le> unat w"
proof -
  have "no_less 0 ParseVarint" unfolding ParseVarint_def
    using no_less_byte [of 0] no_less_byte [of 7] no_less_byte [of 14] no_less_byte [of 21] no_less_fifth by simp
  from this [unfolded no_less_def, rule_format, of v i w i'] show ?thesis using assms by simp
qed

section \<open>Instructions as actions\<close>

text \<open>What an instruction asks for, once it has been read.\<close>

datatype hp_action = Omit_field memento | Add_field memento | Use_index u32 | Resize u32

definition read_op :: "hpack_table \<Rightarrow> u8 \<Rightarrow> hpack_input \<Rightarrow> (hp_action option \<times> hpack_input) option" where
  "read_op t cur = (let op = drop_bit 4 cur in
     if op \<le> 1
     then and_then (if cur AND 0xf = 0 then ParseLiteralKey else if cur AND 0xf = 0xf then ParseVarIdxKey t 0xf
            else ParseIdxKey t (ucast (cur AND 0xf))) (\<lambda>md i. Some (Some (Omit_field md), i))
     else if op = 2 \<or> op = 3
     then if cur = 0x3f then and_then (\<lambda>i. Some (ParseVarint 0x1f i)) (\<lambda>n i. Some (Some (Resize n), i))
          else (\<lambda>i. Some (Some (Resize (ucast (cur AND 0x1f))), i))
     else if op \<le> 7
     then and_then (if cur = 0x40 then ParseLiteralKey else if cur = 0x7f then ParseVarIdxKey t 0x3f
            else ParseIdxKey t (ucast (cur AND 0x3f))) (\<lambda>md i. Some (Some (Add_field md), i))
     else if cur = 0x80 then (\<lambda>i. Some (None, MaybeSetError Illegal_op_code i))
     else if cur = 0xff then and_then (\<lambda>i. Some (ParseVarint 0x7f i)) (\<lambda>n i. Some (Some (Use_index n), i))
     else (\<lambda>i. Some (Some (Use_index (ucast (cur AND 0x7f))), i)))"

definition read_action :: "hpack_table \<Rightarrow> hpack_input \<Rightarrow> (hp_action option \<times> hpack_input) option" where
  "read_action t = and_then (\<lambda>i. Some (Next i)) (read_op t)"

fun do_action :: "hp_action \<Rightarrow> hpack_input \<Rightarrow> hpack_parser \<Rightarrow> (bool \<times> hpack_input \<times> hpack_parser) option" where
  "do_action (Omit_field md) i p = Some (FinishHeaderOmitFromTable (Some md) i p)"
| "do_action (Add_field md) i p = FinishHeaderAndAddToTable (Some md) i p"
| "do_action (Use_index n) i p = FinishIndexed (Some n) i p"
| "do_action (Resize n) i p = FinishMaxTableSize (Some n) i p"

text \<open>The one effect of an instruction that has not been read to its end.\<close>

definition half_read :: "u8 \<Rightarrow> hpack_parser \<Rightarrow> hpack_parser" where
  "half_read c p = (if c = 0xff then p\<lparr>dynamic_table_updates_allowed := 0\<rparr> else p)"

lemma op_codes: "(0x3f :: u8) AND 0xf \<noteq> 0" "drop_bit 4 (0x3f :: u8) = 3" "drop_bit 4 (0x40 :: u8) = 4" "drop_bit 4 (0x7f :: u8) = 7"
    "drop_bit 4 (0x80 :: u8) = 8" "drop_bit 4 (0xff :: u8) = 15"
  by code_simp+

lemma Parser_Parse_action:
  assumes "rest_of i = c # cs"
  shows "Parser_Parse i p = do { (a, i') \<leftarrow> read_action (hp_table p) i;
     case a of None \<Rightarrow> Some (False, i', half_read c p) | Some a \<Rightarrow> do_action a i' p }"
proof -
  note n = Next_Cons(1) [OF assms]
  let ?op = "drop_bit 4 c"
  consider "?op \<le> 1" | "\<not> ?op \<le> 1" "?op = 2 \<or> ?op = 3" | "\<not> ?op \<le> 1" "\<not> (?op = 2 \<or> ?op = 3)" "?op \<le> 7"
    | "\<not> ?op \<le> 1" "\<not> (?op = 2 \<or> ?op = 3)" "\<not> ?op \<le> 7" by blast
  then show ?thesis
  proof cases
    case 1
    then have "c \<noteq> 0xff" using op_codes by (auto simp: word_le_nat_alt)
    with 1 show ?thesis using n by (auto simp: Parser_Parse_def read_action_def read_op_def and_then_def Let_def half_read_def
      FinishHeaderOmitFromTable_def split: option.split bind_split)
  next
    case 2
    then have "c \<noteq> 0xff" using op_codes by (auto simp: word_le_nat_alt)
    with 2 show ?thesis using n by (auto simp: Parser_Parse_def read_action_def read_op_def and_then_def Let_def half_read_def
      FinishMaxTableSize_def split: option.split prod.split)
  next
    case 3
    then have "c \<noteq> 0xff" using op_codes by (auto simp: word_le_nat_alt)
    with 3 show ?thesis using n by (auto simp: Parser_Parse_def read_action_def read_op_def and_then_def Let_def half_read_def
      FinishHeaderAndAddToTable_def split: option.split bind_split)
  next
    case 4
    then show ?thesis using n op_codes by (auto simp: Parser_Parse_def read_action_def read_op_def and_then_def Let_def half_read_def
      FinishIndexed_def split: option.split prod.split)
  qed
qed

section \<open>The invariant of the parser\<close>

definition exact_size :: "memento \<Rightarrow> bool" where
  "exact_size md \<longleftrightarrow> msize md = length (md_key md) + length (md_value md) + 32"

definition spec_ok :: "hpack_spec \<Rightarrow> bool" where
  "spec_ok S \<longleftrightarrow> unat (sp_max S) \<le> 2 ^ 31 \<and> unat (sp_size S) \<le> 2 ^ 31 \<and> (\<forall>m \<in> set (sp_entries S). exact_size m \<and> msize m \<le> 2 ^ 31)"

definition parser_ok :: "hpack_parser \<Rightarrow> bool" where
  "parser_ok p \<longleftrightarrow> (\<exists>S. dec_ok S (hp_table p) \<and> spec_ok S)"

lemma static_exact: "list_all (\<lambda>m. exact_size m \<and> msize m \<le> 100) static_metadata"
  by code_simp

lemma spec_Lookup_exact:
  assumes "spec_ok S" "0 < n" "spec_Lookup n S = Some m"
  shows "exact_size m \<and> msize m \<le> 2 ^ 31"
proof (cases "unat n \<le> 61")
  case True
  have "length static_metadata = 61" by (simp add: static_metadata_def kStaticTable_def)
  moreover have "0 < unat n" using assms(2) by (simp add: word_less_nat_alt)
  ultimately have "m = static_metadata ! (unat n - 1)" "unat n - 1 < length static_metadata"
    using True assms(3) by (auto simp: spec_Lookup_def)
  then have "exact_size m \<and> msize m \<le> 100" using static_exact unfolding list_all_length by blast
  then show ?thesis by simp
next
  case False
  then have "m = rev (sp_entries S) ! (unat n - 62)" "unat n - 62 < length (rev (sp_entries S))"
    using assms(3) by (auto simp: spec_Lookup_def split: if_splits)
  then have "m \<in> set (rev (sp_entries S))" using nth_mem by blast
  then show ?thesis using assms(1) by (simp add: spec_ok_def)
qed

fun action_ok :: "hp_action \<Rightarrow> bool" where
  "action_ok (Omit_field md) \<longleftrightarrow> exact_size md"
| "action_ok (Add_field md) \<longleftrightarrow> exact_size md"
| "action_ok (Use_index n) \<longleftrightarrow> 0 < n"
| "action_ok (Resize n) \<longleftrightarrow> True"

lemma incremental_ParseLiteralKey [incremental_intros]: "incremental ParseLiteralKey"
proof -
  have eq: "ParseLiteralKey = and_then String_Parse (\<lambda>key. and_then (ParseValueString (ends_with_bin key))
      (\<lambda>content i. Some (Some (metadata_Parse key content (length key + length content + unat kEntryOverhead)), i)))"
    by (auto simp: fun_eq_iff ParseLiteralKey_def and_then_def Let_def split: option.split bind_split)
  show ?thesis unfolding eq by (intro incremental_intros)
qed

lemma incremental_ParseIdxKey:
  assumes "dec_ok S t" "0 < n"
  shows "incremental (ParseIdxKey t n)"
proof (cases "spec_Lookup n S")
  case None
  then have eq: "ParseIdxKey t n = (\<lambda>i. Some (None, MaybeSetError (Invalid_index n (num_entries t)) i))"
    using Lookup_ok [OF assms] by (simp add: fun_eq_iff ParseIdxKey_def InvalidHPackIndexError_def)
  show ?thesis unfolding eq by (intro incremental_intros)
next
  case (Some elem)
  then have eq: "ParseIdxKey t n = and_then (ParseValueString (is_binary_header elem)) (\<lambda>content i. Some (Some (WithNewValue content elem), i))"
    using Lookup_ok [OF assms] by (auto simp: fun_eq_iff ParseIdxKey_def and_then_def split: option.split bind_split)
  show ?thesis unfolding eq by (intro incremental_intros)
qed

lemma incremental_cong:
  assumes g: "incremental g" and f: "\<And>i. fresh i \<Longrightarrow> f i = g i"
  shows "incremental f"
proof (rule incrementalI)
  fix i assume "fresh i"
  then show "\<exists>r i'. f i = Some (r, i') \<and> read_outcome r i' \<and> keeps i i'" using f incremental_outcome [OF g, of i] by metis
next
  fix i j y r i'
  assume ij: "fresh i" "fresh j" "rest_of j = rest_of i @ y" and r: "f i = Some (r, i')" "\<not> in_eof i'"
  then have "g i = Some (r, i')" "f j = g j" using f by simp_all
  then show "\<exists>j'. f j = Some (r, j') \<and> in_error j' = in_error i' \<and> \<not> in_eof j' \<and> (in_error i' = None \<longrightarrow> rest_of j' = rest_of i' @ y)"
    using incremental_more [OF g ij _ r(2), of r] by metis
qed

text \<open>A reader whose continuation may rely on what has been read.\<close>

lemma incremental_and_then_if:
  assumes "incremental f" "\<And>x. P x \<Longrightarrow> incremental (g x)" "\<And>i x i'. fresh i \<Longrightarrow> f i = Some (Some x, i') \<Longrightarrow> P x"
  shows "incremental (and_then f g)"
proof -
  let ?g = "\<lambda>x. if P x then g x else (\<lambda>i. Some (None, MaybeSetError Illegal_op_code i))"
  have "incremental (and_then f ?g)" using assms(1,2) by (intro incremental_and_then) (auto intro: incremental_fail)
  moreover have "and_then f g i = and_then f ?g i" if "fresh i" for i
    using assms(3) [OF that] by (auto simp: and_then_def split: bind_split option.split)
  ultimately show ?thesis using incremental_cong by blast
qed

lemma incremental_ParseVarIdxKey:
  assumes "dec_ok S t" "0 < ofs" "unat ofs \<le> 127"
  shows "incremental (ParseVarIdxKey t ofs)"
proof -
  have eq: "ParseVarIdxKey t ofs = and_then (\<lambda>i. Some (ParseVarint ofs i)) (ParseIdxKey t)"
    by (auto simp: fun_eq_iff ParseVarIdxKey_def and_then_def split: prod.split option.split)
  have "incremental (and_then (\<lambda>i. Some (ParseVarint ofs i)) (ParseIdxKey t))"
  proof (rule incremental_and_then_if [where P = "\<lambda>n. 0 < n"])
    fix i n i' assume "Some (ParseVarint ofs i) = Some (Some n, i')"
    then have "unat ofs \<le> unat n" using ParseVarint_no_less [OF assms(3)] by auto
    then show "0 < n" using assms(2) by (simp add: word_less_nat_alt)
  qed (intro incremental_intros incremental_ParseIdxKey [OF assms(1)], assumption?)+
  then show ?thesis by (simp add: eq)
qed

lemma low_bits_pos: "(c AND m :: u8) \<noteq> 0 \<Longrightarrow> 0 < (ucast (c AND m) :: u32)"
proof -
  assume "c AND m \<noteq> 0"
  moreover have "unat (ucast (c AND m) :: u32) = unat (c AND m)"
    using unat_lt_exp [of "c AND m"] by (simp add: unsigned_ucast_eq take_bit_nat_eq_self)
  ultimately show ?thesis by (simp add: word_less_nat_alt) (metis neq0_conv unat_eq_0)
qed

text \<open>The low bits that are read as an index are not zero.\<close>

lemma low_six: "c AND 0x3f = 0 \<Longrightarrow> c \<in> {0, 0x40, 0x80, 0xc0}" for c :: u8
proof -
  assume c: "c AND 0x3f = 0"
  have "unat (c AND 0x3f) = take_bit 6 (unat c)" by (simp add: low_masks unsigned_take_bit_eq)
  then have "unat c mod 64 = 0" using c by (simp add: take_bit_eq_mod)
  then obtain k where k: "unat c = 64 * k" by (auto elim: dvdE)
  moreover have "unat c < 256" using unat_lt_exp [of c] by simp
  ultimately have "k = 0 \<or> k = 1 \<or> k = 2 \<or> k = 3" by auto
  then show ?thesis using k unat_eq_imp [of c 64] unat_eq_imp [of c 128] unat_eq_imp [of c 192] by (auto simp: unat_eq_0)
qed

lemma op_index:
  fixes c :: u8
  shows "\<not> drop_bit 4 c \<le> 1 \<Longrightarrow> \<not> (drop_bit 4 c = 2 \<or> drop_bit 4 c = 3) \<Longrightarrow> drop_bit 4 c \<le> 7 \<Longrightarrow> c \<noteq> 0x40 \<Longrightarrow> c AND 0x3f \<noteq> 0"
    and "\<not> drop_bit 4 c \<le> 7 \<Longrightarrow> c \<noteq> 0x80 \<Longrightarrow> c AND 0x7f \<noteq> 0"
proof -
  have d: "drop_bit 4 (0xc0 :: u8) = 12" by code_simp
  show "\<not> drop_bit 4 c \<le> 1 \<Longrightarrow> \<not> (drop_bit 4 c = 2 \<or> drop_bit 4 c = 3) \<Longrightarrow> drop_bit 4 c \<le> 7 \<Longrightarrow> c \<noteq> 0x40 \<Longrightarrow> c AND 0x3f \<noteq> 0"
    using low_six [of c] op_codes d by (auto simp: word_le_nat_alt)
  show "\<not> drop_bit 4 c \<le> 7 \<Longrightarrow> c \<noteq> 0x80 \<Longrightarrow> c AND 0x7f \<noteq> 0" using octet_halves [of c] by auto
qed

lemma incremental_read_op:
  assumes "dec_ok S t"
  shows "incremental (read_op t cur)"
proof -
  have v: "(0 :: u32) < 0xf" "unat (0xf :: u32) \<le> 127" "(0 :: u32) < 0x3f" "unat (0x3f :: u32) \<le> 127" by simp_all
  note idx = incremental_ParseVarIdxKey [OF assms v(1,2)] incremental_ParseVarIdxKey [OF assms v(3,4)]
    incremental_ParseIdxKey [OF assms low_bits_pos]
  show ?thesis unfolding read_op_def Let_def using op_index(1) [of cur] by (auto intro!: incremental_intros idx)
qed

lemma incremental_read_action: "dec_ok S t \<Longrightarrow> incremental (read_action t)"
  unfolding read_action_def by (intro incremental_and_then incremental_Next incremental_read_op)

end
