(* ===== verification/Grpc_Compression.thy ===== *)
theory Grpc_Compression
  imports Grpc_Base
begin

text \<open>
  The compression algorithms of messages and sets of them (\<open>compression_internal.cc\<close>), with the one unit of
  their \<open>BitSet\<close> (\<open>bitset.h\<close>). Names are strings, the null pointer for an unknown name is \<open>None\<close>, as is
  \<open>absl::nullopt\<close> when parsing; finding the default in channel arguments is left out.
\<close>

section \<open>Compression algorithms\<close>

text \<open>\<open>grpc_compression_algorithm\<close> is a number; a set of them is the unit of its \<open>BitSet\<close>.\<close>

definition GRPC_COMPRESS_NONE :: nat where "GRPC_COMPRESS_NONE = 0"
definition GRPC_COMPRESS_DEFLATE :: nat where "GRPC_COMPRESS_DEFLATE = 1"
definition GRPC_COMPRESS_GZIP :: nat where "GRPC_COMPRESS_GZIP = 2"
definition GRPC_COMPRESS_ALGORITHMS_COUNT :: nat where "GRPC_COMPRESS_ALGORITHMS_COUNT = 3"

datatype compression_level = LEVEL_NONE | LEVEL_LOW | LEVEL_MED | LEVEL_HIGH

type_synonym algorithm_set = u8

definition CompressionAlgorithmAsString :: "nat \<Rightarrow> string option" where
  "CompressionAlgorithmAsString algorithm =
     (if algorithm = GRPC_COMPRESS_NONE then Some ''identity''
      else if algorithm = GRPC_COMPRESS_DEFLATE then Some ''deflate''
      else if algorithm = GRPC_COMPRESS_GZIP then Some ''gzip''
      else None)"

definition ParseCompressionAlgorithm :: "string \<Rightarrow> nat option" where
  "ParseCompressionAlgorithm algorithm =
     (if algorithm = ''identity'' then Some GRPC_COMPRESS_NONE
      else if algorithm = ''deflate'' then Some GRPC_COMPRESS_DEFLATE
      else if algorithm = ''gzip'' then Some GRPC_COMPRESS_GZIP
      else None)"

definition mask_for :: "nat \<Rightarrow> algorithm_set" where
  "mask_for b = push_bit (b mod 8) 1"

definition bitset_set :: "nat \<Rightarrow> algorithm_set \<Rightarrow> algorithm_set" where
  "bitset_set i s = s OR mask_for i"

definition bitset_is_set :: "nat \<Rightarrow> algorithm_set \<Rightarrow> bool" where
  "bitset_is_set i s \<longleftrightarrow> s AND mask_for i \<noteq> 0"

definition CompressionAlgorithmSet :: algorithm_set where "CompressionAlgorithmSet = 0"

definition IsSet :: "nat \<Rightarrow> algorithm_set \<Rightarrow> bool" where
  "IsSet algorithm s = (if algorithm < GRPC_COMPRESS_ALGORITHMS_COUNT then bitset_is_set algorithm s else False)"

definition SetAlgorithm :: "nat \<Rightarrow> algorithm_set \<Rightarrow> algorithm_set" where
  "SetAlgorithm algorithm s = (if algorithm < GRPC_COMPRESS_ALGORITHMS_COUNT then bitset_set algorithm s else s)"

definition FromUint32 :: "u32 \<Rightarrow> algorithm_set" where
  "FromUint32 v = fold (\<lambda>i s. if v AND push_bit i 1 \<noteq> 0 then bitset_set i s else s) [0..<GRPC_COMPRESS_ALGORITHMS_COUNT] CompressionAlgorithmSet"

definition ToLegacyBitmask :: "algorithm_set \<Rightarrow> u32" where
  "ToLegacyBitmask s = fold (\<lambda>i x. if bitset_is_set i s then x OR push_bit i 1 else x) [0..<GRPC_COMPRESS_ALGORITHMS_COUNT] 0"

definition CompressionAlgorithmForLevel :: "compression_level \<Rightarrow> algorithm_set \<Rightarrow> nat option" where
  "CompressionAlgorithmForLevel level s =
     (if level = LEVEL_NONE then Some GRPC_COMPRESS_NONE
      else let algos = [a \<leftarrow> [GRPC_COMPRESS_GZIP, GRPC_COMPRESS_DEFLATE]. bitset_is_set a s] in
           if algos = [] then Some GRPC_COMPRESS_NONE
           else case level of
                  LEVEL_NONE \<Rightarrow> None
                | LEVEL_LOW \<Rightarrow> fetch algos 0
                | LEVEL_MED \<Rightarrow> fetch algos (length algos div 2)
                | LEVEL_HIGH \<Rightarrow> fetch algos (length algos - 1))"

text \<open>\<open>absl::StrJoin\<close>, \<open>absl::StrSplit\<close> at a character and \<open>absl::StripAsciiWhitespace\<close>.\<close>

fun StrJoin :: "string list \<Rightarrow> string \<Rightarrow> string" where
  "StrJoin [] sep = ''''"
| "StrJoin [s] sep = s"
| "StrJoin (s # ss) sep = s @ sep @ StrJoin ss sep"

fun StrSplit :: "string \<Rightarrow> char \<Rightarrow> string list" where
  "StrSplit [] c = [[]]"
| "StrSplit (x # xs) c = (if x = c then [] # StrSplit xs c else case StrSplit xs c of [] \<Rightarrow> [[x]] | s # ss \<Rightarrow> (x # s) # ss)"

definition ascii_space :: "char \<Rightarrow> bool" where
  "ascii_space c \<longleftrightarrow> c \<in> {CHR '' '', CHR 0x09, CHR 0x0a, CHR 0x0b, CHR 0x0c, CHR 0x0d}"

definition StripAsciiWhitespace :: "string \<Rightarrow> string" where
  "StripAsciiWhitespace s = rev (dropWhile ascii_space (rev (dropWhile ascii_space s)))"

definition ToString :: "algorithm_set \<Rightarrow> string option" where
  "ToString s =
     do { segments \<leftarrow> foldM (\<lambda>i ss. if bitset_is_set i s then do { x \<leftarrow> CompressionAlgorithmAsString i; Some (ss @ [x]) } else Some ss)
            [0..<GRPC_COMPRESS_ALGORITHMS_COUNT] [];
          Some (StrJoin segments '', '') }"

definition FromString :: "string \<Rightarrow> algorithm_set" where
  "FromString str =
     fold (\<lambda>algorithm s. case ParseCompressionAlgorithm (StripAsciiWhitespace algorithm) of None \<Rightarrow> s | Some a \<Rightarrow> SetAlgorithm a s)
       (StrSplit str (CHR '','')) (SetAlgorithm GRPC_COMPRESS_NONE CompressionAlgorithmSet)"

lemma all_sets: "(\<And>s. s \<in> {0, 1, 2, 3, 4, 5, 6, 7} \<Longrightarrow> P s) \<Longrightarrow> s < 8 \<Longrightarrow> P (s :: u8)"
proof -
  assume P: "\<And>s. s \<in> {0, 1, 2, 3, 4, 5, 6, 7} \<Longrightarrow> P s" and s: "s < 8"
  have "unat s < 8" using s by (simp add: word_less_nat_alt)
  then have "unat s \<in> {0, 1, 2, 3, 4, 5, 6, 7}" by auto
  then have "s \<in> {0, 1, 2, 3, 4, 5, 6, 7}" by (auto dest: unat_eq_imp)
  then show ?thesis by (rule P)
qed

section \<open>Results\<close>

text \<open>
  compression_round_trip: parsing the printed form of any set of compression
  algorithms gives the set back, with the identity added; the bit mask gives the set back as it is;
  and the algorithm for a level is in the set, or is the identity.
\<close>

theorem compression_round_trip:
  assumes "s < 8"
  shows "(\<exists>str. ToString s = Some str \<and> FromString str = SetAlgorithm GRPC_COMPRESS_NONE s) \<and>
    FromUint32 (ToLegacyBitmask s) = s \<and>
    (\<exists>a. CompressionAlgorithmForLevel level s = Some a \<and> (IsSet a s \<or> a = GRPC_COMPRESS_NONE))"
proof -
  have "\<forall>s \<in> {0, 1, 2, 3, 4, 5, 6, 7}. (case ToString s of None \<Rightarrow> False | Some str \<Rightarrow> FromString str = SetAlgorithm GRPC_COMPRESS_NONE s) \<and>
      FromUint32 (ToLegacyBitmask s) = s \<and>
      list_all (\<lambda>level. case CompressionAlgorithmForLevel level s of None \<Rightarrow> False | Some a \<Rightarrow> IsSet a s \<or> a = GRPC_COMPRESS_NONE)
        [LEVEL_NONE, LEVEL_LOW, LEVEL_MED, LEVEL_HIGH]"
    by code_simp
  moreover have "level \<in> set [LEVEL_NONE, LEVEL_LOW, LEVEL_MED, LEVEL_HIGH]" by (cases level) auto
  ultimately have all: "\<forall>s \<in> {0, 1, 2, 3, 4, 5, 6, 7}. (case ToString s of None \<Rightarrow> False | Some str \<Rightarrow> FromString str = SetAlgorithm GRPC_COMPRESS_NONE s) \<and>
      FromUint32 (ToLegacyBitmask s) = s \<and>
      (case CompressionAlgorithmForLevel level s of None \<Rightarrow> False | Some a \<Rightarrow> IsSet a s \<or> a = GRPC_COMPRESS_NONE)"
    unfolding list_all_iff by blast
  show ?thesis by (rule all_sets [OF _ assms]) (use all in \<open>fastforce split: option.splits\<close>)
qed

theorem compression_round_trip_witness:
  "(\<exists>str. ToString 6 = Some str \<and> FromString str = 7) \<and> FromUint32 (ToLegacyBitmask 6) = 6 \<and>
   (\<exists>a. CompressionAlgorithmForLevel LEVEL_MED 6 = Some a \<and> (IsSet a 6 \<or> a = 0))"
proof -
  have "SetAlgorithm GRPC_COMPRESS_NONE 6 = 7" by code_simp
  then show ?thesis using compression_round_trip [of 6 LEVEL_MED] by (simp add: GRPC_COMPRESS_NONE_def)
qed

end
