(* ===== verification/Grpc_Hpack_Encoder.thy ===== *)
theory Grpc_Hpack_Encoder
  imports Grpc_Hpack_Parser Grpc_Timeout Grpc_Compression
begin

text \<open>
  The HPACK encoder (\<open>hpack_encoder.cc\<close>, \<open>hpack_encoder.h\<close>): the framer, which cuts the octets of a header
  block into HEADERS and CONTINUATION frames, the instructions, and the compressor, which keeps the index
  of what it has sent before. The output is the concatenation of the slices of the buffer.
\<close>

section \<open>Frames\<close>

definition kDataFrameHeaderSize :: nat where "kDataFrameHeaderSize = 9"
definition GRPC_CHTTP2_FRAME_HEADER :: u8 where "GRPC_CHTTP2_FRAME_HEADER = 1"
definition GRPC_CHTTP2_FRAME_CONTINUATION :: u8 where "GRPC_CHTTP2_FRAME_CONTINUATION = 9"
definition GRPC_CHTTP2_DATA_FLAG_END_STREAM :: u8 where "GRPC_CHTTP2_DATA_FLAG_END_STREAM = 1"
definition GRPC_CHTTP2_DATA_FLAG_END_HEADERS :: u8 where "GRPC_CHTTP2_DATA_FLAG_END_HEADERS = 4"

definition FillHeader :: "u8 \<Rightarrow> u32 \<Rightarrow> nat \<Rightarrow> u8 \<Rightarrow> octets option" where
  "FillHeader typ sid len flags =
     do { assert_c (len < 16777316);
          Some [of_nat (len div 2 ^ 16), of_nat (len div 2 ^ 8), of_nat len, typ, flags,
                ucast (drop_bit 24 sid), ucast (drop_bit 16 sid), ucast (drop_bit 8 sid), ucast sid] }"

record encode_options =
  stream_id :: u32
  is_end_of_stream :: bool
  use_true_binary_metadata :: bool
  max_frame_size :: nat

text \<open>
  The members of \<open>Framer\<close> that change: the octets of the slice buffer, the position of the header of the
  current frame in them, their number when its payload began, and the statistics.
\<close>

record framer =
  fr_output :: octets
  header_idx :: nat
  output_length_at_start_of_frame :: nat
  is_first_frame :: bool
  framing_bytes :: nat
  header_bytes :: nat

definition CurrentFrameSize :: "encode_options \<Rightarrow> framer \<Rightarrow> nat option" where
  "CurrentFrameSize opt f =
     do { let frame_size = length (fr_output f) - output_length_at_start_of_frame f;
          assert_c (frame_size \<le> max_frame_size opt);
          Some frame_size }"

definition Framer_FinishFrame :: "encode_options \<Rightarrow> bool \<Rightarrow> framer \<Rightarrow> framer option" where
  "Framer_FinishFrame opt is_header_boundary f =
     do { let typ = (if is_first_frame f then GRPC_CHTTP2_FRAME_HEADER else GRPC_CHTTP2_FRAME_CONTINUATION);
          let flags = (if is_first_frame f \<and> is_end_of_stream opt then GRPC_CHTTP2_DATA_FLAG_END_STREAM else 0);
          let flags = (if is_header_boundary then flags OR GRPC_CHTTP2_DATA_FLAG_END_HEADERS else flags);
          size \<leftarrow> CurrentFrameSize opt f;
          header \<leftarrow> FillHeader typ (stream_id opt) size flags;
          Some (f\<lparr>fr_output := take (header_idx f) (fr_output f) @ header @ drop (header_idx f + kDataFrameHeaderSize) (fr_output f),
                  framing_bytes := framing_bytes f + kDataFrameHeaderSize, is_first_frame := False\<rparr>) }"

text \<open>The nine reserved octets are not initialised; here they are 0.\<close>

definition Framer_BeginFrame :: "framer \<Rightarrow> framer" where
  "Framer_BeginFrame f =
     f\<lparr>fr_output := fr_output f @ replicate kDataFrameHeaderSize 0, header_idx := length (fr_output f),
       output_length_at_start_of_frame := length (fr_output f) + kDataFrameHeaderSize\<rparr>"

definition EnsureSpace :: "encode_options \<Rightarrow> nat \<Rightarrow> framer \<Rightarrow> framer option" where
  "EnsureSpace opt need_bytes f =
     do { size \<leftarrow> CurrentFrameSize opt f;
          if size + need_bytes \<le> max_frame_size opt then Some f
          else do { f \<leftarrow> Framer_FinishFrame opt False f; Some (Framer_BeginFrame f) } }"

text \<open>With a maximum of 0 the loop of \<open>Add\<close> does not end.\<close>

partial_function (option) Framer_Add :: "encode_options \<Rightarrow> octets \<Rightarrow> framer \<Rightarrow> framer option" where
  [code]: "Framer_Add opt slc f =
     (if slc = [] then Some f
      else do { size \<leftarrow> CurrentFrameSize opt f;
                let left = max_frame_size opt - size;
                if length slc \<le> left
                then Some (f\<lparr>header_bytes := header_bytes f + length slc, fr_output := fr_output f @ slc\<rparr>)
                else do { let f = f\<lparr>header_bytes := header_bytes f + left, fr_output := fr_output f @ take left slc\<rparr>;
                          f \<leftarrow> Framer_FinishFrame opt False f;
                          Framer_Add opt (drop left slc) (Framer_BeginFrame f) } })"

text \<open>\<open>AddTiny\<close> returns the place of its octets; here it is given what the caller writes there at once.\<close>

definition AddTiny :: "encode_options \<Rightarrow> octets \<Rightarrow> framer \<Rightarrow> framer option" where
  "AddTiny opt written f =
     do { f \<leftarrow> EnsureSpace opt (length written) f;
          Some (f\<lparr>header_bytes := header_bytes f + length written, fr_output := fr_output f @ written\<rparr>) }"

section \<open>Strings\<close>

text \<open>The octets that \<open>VarintWriter<b>(v).Write(prefix, ...)\<close> leaves in its target.\<close>

definition varint_octets :: "nat \<Rightarrow> u32 \<Rightarrow> u8 \<Rightarrow> octets option" where
  "varint_octets b v prefix = VarintWriter_Write b v prefix (replicate (varint_writer_length b v) 0)"

record wire_value =
  wv_data :: octets
  huffman_prefix :: u8
  insert_null_before_wire_value :: bool
  wv_length :: nat

definition WireValue :: "u8 \<Rightarrow> bool \<Rightarrow> octets \<Rightarrow> wire_value" where
  "WireValue huff null slc =
     \<lparr>wv_data = slc, huffman_prefix = huff, insert_null_before_wire_value = null,
      wv_length = length slc + (if null then 1 else 0)\<rparr>"

definition GetWireValue :: "octets \<Rightarrow> bool \<Rightarrow> bool \<Rightarrow> wire_value option" where
  "GetWireValue v true_binary_enabled is_bin_hdr =
     (if is_bin_hdr
      then if true_binary_enabled then Some (WireValue 0x00 True v)
           else do { e \<leftarrow> grpc_chttp2_base64_encode_and_huffman_compress v; Some (WireValue 0x80 False e) }
      else Some (WireValue 0x00 False v))"

definition BinaryStringValue_WritePrefix :: "wire_value \<Rightarrow> octets option" where
  "BinaryStringValue_WritePrefix wv =
     do { len_val \<leftarrow> varint_octets 1 (of_nat (wv_length wv)) (huffman_prefix wv);
          Some (if insert_null_before_wire_value wv then len_val @ [0] else len_val) }"

definition NonBinaryStringValue_WritePrefix :: "octets \<Rightarrow> octets option" where
  "NonBinaryStringValue_WritePrefix v = varint_octets 1 (of_nat (length v)) 0x00"

definition StringKey_WritePrefix :: "u8 \<Rightarrow> octets \<Rightarrow> octets option" where
  "StringKey_WritePrefix typ key = do { len_key \<leftarrow> varint_octets 1 (of_nat (length key)) 0x00; Some (typ # len_key) }"

section \<open>Instructions\<close>

definition EmitIndexed :: "encode_options \<Rightarrow> u32 \<Rightarrow> framer \<Rightarrow> framer option" where
  "EmitIndexed opt elem_index f = do { w \<leftarrow> varint_octets 1 elem_index 0x80; AddTiny opt w f }"

text \<open>The common parts of the functions below: a key, and each kind of value.\<close>

definition emit_key :: "encode_options \<Rightarrow> u8 \<Rightarrow> octets \<Rightarrow> framer \<Rightarrow> framer option" where
  "emit_key opt typ key f = do { w \<leftarrow> StringKey_WritePrefix typ key; f \<leftarrow> AddTiny opt w f; Framer_Add opt key f }"

definition emit_value :: "encode_options \<Rightarrow> octets \<Rightarrow> framer \<Rightarrow> framer option" where
  "emit_value opt v f = do { w \<leftarrow> NonBinaryStringValue_WritePrefix v; f \<leftarrow> AddTiny opt w f; Framer_Add opt v f }"

definition emit_binary_value :: "encode_options \<Rightarrow> octets \<Rightarrow> framer \<Rightarrow> framer option" where
  "emit_binary_value opt v f =
     do { wv \<leftarrow> GetWireValue v (use_true_binary_metadata opt) True;
          w \<leftarrow> BinaryStringValue_WritePrefix wv; f \<leftarrow> AddTiny opt w f; Framer_Add opt (wv_data wv) f }"

definition EmitLitHdrWithNonBinaryStringKeyIncIdx :: "encode_options \<Rightarrow> octets \<Rightarrow> octets \<Rightarrow> framer \<Rightarrow> framer option" where
  "EmitLitHdrWithNonBinaryStringKeyIncIdx opt key v f = do { f \<leftarrow> emit_key opt 0x40 key f; emit_value opt v f }"

definition EmitLitHdrWithBinaryStringKeyNotIdx :: "encode_options \<Rightarrow> octets \<Rightarrow> octets \<Rightarrow> framer \<Rightarrow> framer option" where
  "EmitLitHdrWithBinaryStringKeyNotIdx opt key v f = do { f \<leftarrow> emit_key opt 0x00 key f; emit_binary_value opt v f }"

definition EmitLitHdrWithBinaryStringKeyIncIdx :: "encode_options \<Rightarrow> octets \<Rightarrow> octets \<Rightarrow> framer \<Rightarrow> framer option" where
  "EmitLitHdrWithBinaryStringKeyIncIdx opt key v f = do { f \<leftarrow> emit_key opt 0x40 key f; emit_binary_value opt v f }"

definition EmitLitHdrWithIndexedBinaryStringKeyNotIdx :: "encode_options \<Rightarrow> u32 \<Rightarrow> octets \<Rightarrow> framer \<Rightarrow> framer option" where
  "EmitLitHdrWithIndexedBinaryStringKeyNotIdx opt key_index v f =
     do { wv \<leftarrow> GetWireValue v (use_true_binary_metadata opt) True;
          key \<leftarrow> varint_octets 4 key_index 0x00;
          w \<leftarrow> BinaryStringValue_WritePrefix wv;
          f \<leftarrow> AddTiny opt (key @ w) f;
          Framer_Add opt (wv_data wv) f }"

definition EmitLitHdrWithNonBinaryStringKeyNotIdx :: "encode_options \<Rightarrow> octets \<Rightarrow> octets \<Rightarrow> framer \<Rightarrow> framer option" where
  "EmitLitHdrWithNonBinaryStringKeyNotIdx opt key v f = do { f \<leftarrow> emit_key opt 0x00 key f; emit_value opt v f }"

definition AdvertiseTableSizeChange :: "encode_options \<Rightarrow> u32 \<Rightarrow> framer \<Rightarrow> framer option" where
  "AdvertiseTableSizeChange opt max_size f = do { w \<leftarrow> varint_octets 3 max_size 0x20; AddTiny opt w f }"

section \<open>The compressor\<close>

type_synonym slice_index = "(octets \<times> u32) list"

record hpack_compressor =
  max_usable_size :: u32
  advertise_table_size_change :: bool
  hc_table :: enc_table
  te_index :: u32
  content_type_index :: u32
  user_agent_index :: u32
  cached_grpc_status :: "u32 list"
  cached_grpc_encoding :: "u32 list"
  grpc_accept_encoding_index :: u32
  grpc_accept_encoding :: algorithm_set
  grpc_tags_bin_index :: u32
  grpc_trace_bin_index :: u32
  hc_user_agent :: octets
  path_index :: slice_index
  authority_index :: slice_index
  previous_timeouts :: "(timeout \<times> u32) list"

definition kNumCachedGrpcStatusValues :: nat where "kNumCachedGrpcStatusValues = 16"

definition HPackCompressor :: hpack_compressor where
  "HPackCompressor =
     \<lparr>max_usable_size = kInitialTableSize, advertise_table_size_change = False, hc_table = HPackEncoderTable,
      te_index = 0, content_type_index = 0, user_agent_index = 0,
      cached_grpc_status = replicate kNumCachedGrpcStatusValues 0,
      cached_grpc_encoding = replicate GRPC_COMPRESS_ALGORITHMS_COUNT 0,
      grpc_accept_encoding_index = 0, grpc_accept_encoding = CompressionAlgorithmSet,
      grpc_tags_bin_index = 0, grpc_trace_bin_index = 0, hc_user_agent = [],
      path_index = [], authority_index = [], previous_timeouts = []\<rparr>"

definition SetMaxTableSize :: "u32 \<Rightarrow> hpack_compressor \<Rightarrow> hpack_compressor option" where
  "SetMaxTableSize n c =
     do { (changed, t) \<leftarrow> SetMaxSize (min (max_usable_size c) n) (hc_table c);
          let c = c\<lparr>hc_table := t\<rparr>;
          Some (if changed then c\<lparr>advertise_table_size_change := True\<rparr> else c) }"

definition SetMaxUsableSize :: "u32 \<Rightarrow> hpack_compressor \<Rightarrow> hpack_compressor option" where
  "SetMaxUsableSize n c =
     (let c = c\<lparr>max_usable_size := n\<rparr> in SetMaxTableSize (min (max_table_size (hc_table c)) n) c)"

text \<open>A new framer on the given output, which holds the octets of what was sent before.\<close>

definition Framer :: "encode_options \<Rightarrow> hpack_compressor \<Rightarrow> octets \<Rightarrow> (hpack_compressor \<times> framer) option" where
  "Framer opt c output =
     do { let f = Framer_BeginFrame \<lparr>fr_output = output, header_idx = 0, output_length_at_start_of_frame = 0,
            is_first_frame = True, framing_bytes = 0, header_bytes = 0\<rparr>;
          let change = advertise_table_size_change c;
          let c = c\<lparr>advertise_table_size_change := False\<rparr>;
          f \<leftarrow> (if change then AdvertiseTableSizeChange opt (max_table_size (hc_table c)) f else Some f);
          Some (c, f) }"

section \<open>Values of a field\<close>

definition find_value :: "octets \<Rightarrow> slice_index \<Rightarrow> nat option" where
  "find_value v values = find (\<lambda>k. fst (values ! k) = v) [0..<length values]"

definition swap_entries :: "nat \<Rightarrow> nat \<Rightarrow> 'a list \<Rightarrow> 'a list" where
  "swap_entries j k xs = xs[j := xs ! k, k := xs ! j]"

text \<open>The loop of \<open>pop_back()\<close>.\<close>

definition drop_expired :: "enc_table \<Rightarrow> ('a \<times> u32) list \<Rightarrow> ('a \<times> u32) list" where
  "drop_expired t values = rev (dropWhile (\<lambda>(v, i). \<not> ConvertableToDynamicIndex t i) (rev values))"

definition EmitTo :: "encode_options \<Rightarrow> octets \<Rightarrow> octets \<Rightarrow> slice_index \<Rightarrow> enc_table \<times> framer \<Rightarrow>
    (slice_index \<times> enc_table \<times> framer) option" where
  "EmitTo opt key v values = (\<lambda>(t, f).
     let transport_length = of_nat (length key + length v + unat kEntryOverhead) :: u32 in
     if unat transport_length > MaxEntrySize
     then do { f \<leftarrow> EmitLitHdrWithNonBinaryStringKeyNotIdx opt key v f; Some (values, t, f) }
     else case find_value v values of
       Some k \<Rightarrow>
         do { let index = snd (values ! k);
              (values, t, f) \<leftarrow>
                (if ConvertableToDynamicIndex t index
                 then do { f \<leftarrow> EmitIndexed opt (DynamicIndex t index) f; Some (values, t, f) }
                 else do { (index, t) \<leftarrow> AllocateIndex (unat transport_length) t;
                           f \<leftarrow> EmitLitHdrWithNonBinaryStringKeyIncIdx opt key v f;
                           Some (values[k := (v, index)], t, f) });
              let values = (if k \<noteq> 0 then swap_entries (k - 1) k values else values);
              Some (drop_expired t values, t, f) }
     | None \<Rightarrow>
         do { (index, t) \<leftarrow> AllocateIndex (unat transport_length) t;
              f \<leftarrow> EmitLitHdrWithNonBinaryStringKeyIncIdx opt key v f;
              Some (values @ [(v, index)], t, f) })"

section \<open>Header fields\<close>

text \<open>
  The environment: what \<open>Slice::is_equivalent\<close> says of two slices, which depends on where their octets are;
  whether the ratio of two timeouts, a floating-point number, is above -3 and at most 0; and the time.
\<close>

record encode_env =
  is_equivalent :: "octets \<Rightarrow> octets \<Rightarrow> bool"
  ratio_in_range :: "timeout \<Rightarrow> timeout \<Rightarrow> bool"
  env_now :: int

type_synonym encoder = "hpack_compressor \<times> framer"

definition on_framer :: "(framer \<Rightarrow> framer option) \<Rightarrow> encoder \<Rightarrow> encoder option" where
  "on_framer emit = (\<lambda>(c, f). do { f \<leftarrow> emit f; Some (c, f) })"

definition Encode_slices :: "encode_options \<Rightarrow> octets \<Rightarrow> octets \<Rightarrow> encoder \<Rightarrow> encoder option" where
  "Encode_slices opt key v =
     (if ends_with_bin key then on_framer (EmitLitHdrWithBinaryStringKeyNotIdx opt key v)
      else on_framer (EmitLitHdrWithNonBinaryStringKeyNotIdx opt key v))"

definition Encode_path :: "encode_options \<Rightarrow> octets \<Rightarrow> encoder \<Rightarrow> encoder option" where
  "Encode_path opt v = (\<lambda>(c, f).
     do { (values, t, f) \<leftarrow> EmitTo opt (octets_of '':path'') v (path_index c) (hc_table c, f);
          Some (c\<lparr>path_index := values, hc_table := t\<rparr>, f) })"

definition Encode_authority :: "encode_options \<Rightarrow> octets \<Rightarrow> encoder \<Rightarrow> encoder option" where
  "Encode_authority opt v = (\<lambda>(c, f).
     do { (values, t, f) \<leftarrow> EmitTo opt (octets_of '':authority'') v (authority_index c) (hc_table c, f);
          Some (c\<lparr>authority_index := values, hc_table := t\<rparr>, f) })"

text \<open>The new index comes first in the results of the two functions that are given the place of one.\<close>

definition EncodeAlwaysIndexed :: "encode_options \<Rightarrow> u32 \<Rightarrow> octets \<Rightarrow> octets \<Rightarrow> u32 \<Rightarrow> enc_table \<times> framer \<Rightarrow>
    (u32 \<times> enc_table \<times> framer) option" where
  "EncodeAlwaysIndexed opt index key v transport_length = (\<lambda>(t, f).
     if ConvertableToDynamicIndex t index
     then do { f \<leftarrow> EmitIndexed opt (DynamicIndex t index) f; Some (index, t, f) }
     else do { (index, t) \<leftarrow> AllocateIndex (unat transport_length) t;
               f \<leftarrow> EmitLitHdrWithNonBinaryStringKeyIncIdx opt key v f;
               Some (index, t, f) })"

definition EncodeIndexedKeyWithBinaryValue :: "encode_options \<Rightarrow> u32 \<Rightarrow> octets \<Rightarrow> octets \<Rightarrow> enc_table \<times> framer \<Rightarrow>
    (u32 \<times> enc_table \<times> framer) option" where
  "EncodeIndexedKeyWithBinaryValue opt index key v = (\<lambda>(t, f).
     if ConvertableToDynamicIndex t index
     then do { f \<leftarrow> EmitLitHdrWithIndexedBinaryStringKeyNotIdx opt (DynamicIndex t index) v f; Some (index, t, f) }
     else do { (index, t) \<leftarrow> AllocateIndex (length key + length v + unat kEntryOverhead) t;
               f \<leftarrow> EmitLitHdrWithBinaryStringKeyIncIdx opt key v f;
               Some (index, t, f) })"

datatype te_value = Te_trailers | Te_invalid
datatype content_type_value = Content_application_grpc | Content_empty | Content_invalid
datatype scheme_value = Scheme_http | Scheme_https | Scheme_invalid
datatype method_value = Method_post | Method_put | Method_get | Method_invalid

definition Encode_te :: "encode_options \<Rightarrow> te_value \<Rightarrow> encoder \<Rightarrow> encoder option" where
  "Encode_te opt v = (\<lambda>(c, f).
     do { assert_c (v = Te_trailers);
          (index, t, f) \<leftarrow> EncodeAlwaysIndexed opt (te_index c) (octets_of ''te'') (octets_of ''trailers'')
            (2 + 8 + kEntryOverhead) (hc_table c, f);
          Some (c\<lparr>te_index := index, hc_table := t\<rparr>, f) })"

definition Encode_content_type :: "encode_options \<Rightarrow> content_type_value \<Rightarrow> encoder \<Rightarrow> encoder option" where
  "Encode_content_type opt v = (\<lambda>(c, f).
     if v \<noteq> Content_application_grpc then Some (c, f)
     else do { (index, t, f) \<leftarrow> EncodeAlwaysIndexed opt (content_type_index c) (octets_of ''content-type'')
                 (octets_of ''application/grpc'') (12 + 16 + kEntryOverhead) (hc_table c, f);
               Some (c\<lparr>content_type_index := index, hc_table := t\<rparr>, f) })"

definition Encode_scheme :: "encode_options \<Rightarrow> scheme_value \<Rightarrow> encoder \<Rightarrow> encoder option" where
  "Encode_scheme opt v =
     (case v of Scheme_http \<Rightarrow> on_framer (EmitIndexed opt 6)
      | Scheme_https \<Rightarrow> on_framer (EmitIndexed opt 7)
      | Scheme_invalid \<Rightarrow> (\<lambda>_. None))"

definition Encode_trace_bin :: "encode_options \<Rightarrow> octets \<Rightarrow> encoder \<Rightarrow> encoder option" where
  "Encode_trace_bin opt v = (\<lambda>(c, f).
     do { (index, t, f) \<leftarrow> EncodeIndexedKeyWithBinaryValue opt (grpc_trace_bin_index c) (octets_of ''grpc-trace-bin'') v (hc_table c, f);
          Some (c\<lparr>grpc_trace_bin_index := index, hc_table := t\<rparr>, f) })"

definition Encode_tags_bin :: "encode_options \<Rightarrow> octets \<Rightarrow> encoder \<Rightarrow> encoder option" where
  "Encode_tags_bin opt v = (\<lambda>(c, f).
     do { (index, t, f) \<leftarrow> EncodeIndexedKeyWithBinaryValue opt (grpc_tags_bin_index c) (octets_of ''grpc-tags-bin'') v (hc_table c, f);
          Some (c\<lparr>grpc_tags_bin_index := index, hc_table := t\<rparr>, f) })"

text \<open>\<open>Slice::FromInt64\<close> by way of \<open>gpr_ltoa\<close>, for a number that is not negative.\<close>

fun ltoa_loop :: "nat \<Rightarrow> octets" where
  "ltoa_loop n = (if n = 0 then [] else ltoa_loop (n div 10) @ [digit_char (n mod 10)])"

declare ltoa_loop.simps [simp del]

definition gpr_ltoa :: "nat \<Rightarrow> octets" where
  "gpr_ltoa v = (if v = 0 then [0x30] else ltoa_loop v)"

definition Encode_status :: "encode_options \<Rightarrow> u32 \<Rightarrow> encoder \<Rightarrow> encoder option" where
  "Encode_status opt status =
     (if status = 200 then on_framer (EmitIndexed opt 8)
      else let index = (if status = 204 then 9 else if status = 206 then 10 else if status = 304 then 11
                        else if status = 400 then 12 else if status = 404 then 13 else if status = 500 then 14 else 0)
           in if index \<noteq> 0 then on_framer (EmitIndexed opt index)
              else on_framer (EmitLitHdrWithNonBinaryStringKeyIncIdx opt (octets_of '':status'') (gpr_ltoa (unat status))))"

definition Encode_method :: "encode_options \<Rightarrow> method_value \<Rightarrow> encoder \<Rightarrow> encoder option" where
  "Encode_method opt v =
     (case v of Method_get \<Rightarrow> on_framer (EmitIndexed opt 2)
      | Method_post \<Rightarrow> on_framer (EmitIndexed opt 3)
      | Method_put \<Rightarrow> on_framer (EmitLitHdrWithNonBinaryStringKeyNotIdx opt (octets_of '':method'') (octets_of ''PUT''))
      | Method_invalid \<Rightarrow> (\<lambda>_. None))"

definition Encode_timeout :: "encode_options \<Rightarrow> encode_env \<Rightarrow> int \<Rightarrow> encoder \<Rightarrow> encoder option" where
  "Encode_timeout opt env deadline = (\<lambda>(c, f).
     do { d \<leftarrow> i64 (deadline - env_now env);
          timeout \<leftarrow> FromDuration d;
          let prev = previous_timeouts c;
          case find (\<lambda>k. ratio_in_range env timeout (fst (prev ! k)) \<and> ConvertableToDynamicIndex (hc_table c) (snd (prev ! k)))
                 [0..<length prev] of
            Some k \<Rightarrow>
              do { f \<leftarrow> EmitIndexed opt (DynamicIndex (hc_table c) (snd (prev ! k))) f;
                   Some (c\<lparr>previous_timeouts := swap_entries k 0 prev\<rparr>, f) }
          | None \<Rightarrow>
              do { let prev = drop_expired (hc_table c) prev;
                   encoded \<leftarrow> Encode timeout;
                   let key = octets_of ''grpc-timeout'';
                   (index, t) \<leftarrow> AllocateIndex (length key + length encoded + unat kEntryOverhead) (hc_table c);
                   f \<leftarrow> EmitLitHdrWithNonBinaryStringKeyIncIdx opt key encoded f;
                   Some (c\<lparr>previous_timeouts := prev @ [(timeout, index)], hc_table := t\<rparr>, f) } })"

definition Encode_user_agent :: "encode_options \<Rightarrow> encode_env \<Rightarrow> octets \<Rightarrow> encoder \<Rightarrow> encoder option" where
  "Encode_user_agent opt env slc = (\<lambda>(c, f).
     let key = octets_of ''user-agent'' in
     if length slc > MaxEntrySize
     then do { f \<leftarrow> EmitLitHdrWithNonBinaryStringKeyNotIdx opt key slc f; Some (c, f) }
     else do { let c = (if is_equivalent env slc (hc_user_agent c) then c else c\<lparr>hc_user_agent := slc, user_agent_index := 0\<rparr>);
               (index, t, f) \<leftarrow> EncodeAlwaysIndexed opt (user_agent_index c) key slc
                 (of_nat (10 + length slc) + kEntryOverhead) (hc_table c, f);
               Some (c\<lparr>user_agent_index := index, hc_table := t\<rparr>, f) })"

text \<open>The common end of the functions for \<open>grpc-status\<close> and \<open>grpc-encoding\<close>.\<close>

definition Encode_grpc_status :: "encode_options \<Rightarrow> u32 \<Rightarrow> encoder \<Rightarrow> encoder option" where
  "Encode_grpc_status opt status = (\<lambda>(c, f).
     let k = unat status; key = octets_of ''grpc-status''; v = gpr_ltoa k in
     if k < kNumCachedGrpcStatusValues
     then do { index \<leftarrow> fetch (cached_grpc_status c) k;
               if ConvertableToDynamicIndex (hc_table c) index
               then on_framer (EmitIndexed opt (DynamicIndex (hc_table c) index)) (c, f)
               else do { (index, t) \<leftarrow> AllocateIndex (unat (of_nat (length key + length v + unat kEntryOverhead) :: u32)) (hc_table c);
                         cached \<leftarrow> store (cached_grpc_status c) k index;
                         on_framer (EmitLitHdrWithNonBinaryStringKeyIncIdx opt key v) (c\<lparr>cached_grpc_status := cached, hc_table := t\<rparr>, f) } }
     else on_framer (EmitLitHdrWithNonBinaryStringKeyNotIdx opt key v) (c, f))"

definition CompressionAlgorithmBasedMetadata_Encode :: "nat \<Rightarrow> octets option" where
  "CompressionAlgorithmBasedMetadata_Encode x =
     do { assert_c (x \<noteq> GRPC_COMPRESS_ALGORITHMS_COUNT); s \<leftarrow> CompressionAlgorithmAsString x; Some (octets_of s) }"

definition Encode_grpc_encoding :: "encode_options \<Rightarrow> nat \<Rightarrow> encoder \<Rightarrow> encoder option" where
  "Encode_grpc_encoding opt v = (\<lambda>(c, f).
     let key = octets_of ''grpc-encoding'';
         literal = (\<lambda>c index_it. do { encoded \<leftarrow> CompressionAlgorithmBasedMetadata_Encode v;
           if index_it
           then do { (index, t) \<leftarrow> AllocateIndex (unat (of_nat (length key + length encoded + unat kEntryOverhead) :: u32)) (hc_table c);
                     cached \<leftarrow> store (cached_grpc_encoding c) v index;
                     on_framer (EmitLitHdrWithNonBinaryStringKeyIncIdx opt key encoded) (c\<lparr>cached_grpc_encoding := cached, hc_table := t\<rparr>, f) }
           else on_framer (EmitLitHdrWithNonBinaryStringKeyNotIdx opt key encoded) (c, f) })
     in if v < GRPC_COMPRESS_ALGORITHMS_COUNT
        then do { index \<leftarrow> fetch (cached_grpc_encoding c) v;
                  if ConvertableToDynamicIndex (hc_table c) index
                  then on_framer (EmitIndexed opt (DynamicIndex (hc_table c) index)) (c, f)
                  else literal c True }
        else literal c False)"

definition Encode_grpc_accept_encoding :: "encode_options \<Rightarrow> algorithm_set \<Rightarrow> encoder \<Rightarrow> encoder option" where
  "Encode_grpc_accept_encoding opt v = (\<lambda>(c, f).
     if grpc_accept_encoding_index c \<noteq> 0 \<and> v = grpc_accept_encoding c \<and>
        ConvertableToDynamicIndex (hc_table c) (grpc_accept_encoding_index c)
     then on_framer (EmitIndexed opt (DynamicIndex (hc_table c) (grpc_accept_encoding_index c))) (c, f)
     else do { let key = octets_of ''grpc-accept-encoding'';
               s \<leftarrow> ToString v;
               let encoded = octets_of s;
               (index, t) \<leftarrow> AllocateIndex (unat (of_nat (length key + length encoded + unat kEntryOverhead) :: u32)) (hc_table c);
               on_framer (EmitLitHdrWithNonBinaryStringKeyIncIdx opt key encoded)
                 (c\<lparr>grpc_accept_encoding_index := index, grpc_accept_encoding := v, hc_table := t\<rparr>, f) })"

definition Encode_grpc_message :: "encode_options \<Rightarrow> octets \<Rightarrow> encoder \<Rightarrow> encoder option" where
  "Encode_grpc_message opt slc =
     (if slc = [] then Some else on_framer (EmitLitHdrWithNonBinaryStringKeyNotIdx opt (octets_of ''grpc-message'') slc))"

section \<open>A block of header fields\<close>

text \<open>The overloads of \<open>Encode\<close>; the template for the other fields of a batch is \<open>Field\<close> with the key of the field.\<close>

datatype header =
    Field octets octets
  | Http_path octets
  | Http_authority octets
  | Http_status u32
  | Grpc_timeout int
  | Te te_value
  | Content_type content_type_value
  | Http_scheme scheme_value
  | Http_method method_value
  | User_agent octets
  | Grpc_status u32
  | Grpc_encoding nat
  | Grpc_accept_encoding algorithm_set
  | Grpc_tags_bin octets
  | Grpc_trace_bin octets
  | Grpc_message octets

fun Encode_header :: "encode_options \<Rightarrow> encode_env \<Rightarrow> header \<Rightarrow> encoder \<Rightarrow> encoder option" where
  "Encode_header opt env (Field k v) = Encode_slices opt k v"
| "Encode_header opt env (Http_path v) = Encode_path opt v"
| "Encode_header opt env (Http_authority v) = Encode_authority opt v"
| "Encode_header opt env (Http_status v) = Encode_status opt v"
| "Encode_header opt env (Grpc_timeout v) = Encode_timeout opt env v"
| "Encode_header opt env (Te v) = Encode_te opt v"
| "Encode_header opt env (Content_type v) = Encode_content_type opt v"
| "Encode_header opt env (Http_scheme v) = Encode_scheme opt v"
| "Encode_header opt env (Http_method v) = Encode_method opt v"
| "Encode_header opt env (User_agent v) = Encode_user_agent opt env v"
| "Encode_header opt env (Grpc_status v) = Encode_grpc_status opt v"
| "Encode_header opt env (Grpc_encoding v) = Encode_grpc_encoding opt v"
| "Encode_header opt env (Grpc_accept_encoding v) = Encode_grpc_accept_encoding opt v"
| "Encode_header opt env (Grpc_tags_bin v) = Encode_tags_bin opt v"
| "Encode_header opt env (Grpc_trace_bin v) = Encode_trace_bin opt v"
| "Encode_header opt env (Grpc_message v) = Encode_grpc_message opt v"

definition EncodeHeaders :: "encode_options \<Rightarrow> encode_env \<Rightarrow> header list \<Rightarrow> hpack_compressor \<Rightarrow> octets \<Rightarrow> (hpack_compressor \<times> octets) option" where
  "EncodeHeaders opt env headers c output =
     do { s \<leftarrow> Framer opt c output;
          (c, f) \<leftarrow> foldM (Encode_header opt env) headers s;
          f \<leftarrow> Framer_FinishFrame opt True f;
          Some (c, fr_output f) }"

end
