(* ===== verification/Grpc_Hpack_Framing.thy ===== *)
theory Grpc_Hpack_Framing
  imports Grpc_Hpack_Encoder
begin

text \<open>
  The framer of the HPACK encoder cuts what it is given into frames: \<open>fr_ok\<close> describes its output while a
  frame is open, \<open>adds\<close> says that a function adds some octets to the payload of the block, wherever the
  frames are cut.
\<close>

section \<open>Frames\<close>

text \<open>The octets of a frame, and of the frames of a block; only the last one ends the block.\<close>

definition frame_header :: "encode_options \<Rightarrow> bool \<Rightarrow> bool \<Rightarrow> nat \<Rightarrow> octets" where
  "frame_header opt first boundary n =
     [of_nat (n div 2 ^ 16), of_nat (n div 2 ^ 8), of_nat n, if first then 1 else 9,
      (if first \<and> is_end_of_stream opt then 1 else 0) OR (if boundary then 4 else 0),
      ucast (drop_bit 24 (stream_id opt)), ucast (drop_bit 16 (stream_id opt)), ucast (drop_bit 8 (stream_id opt)), ucast (stream_id opt)]"

fun closed_frames :: "encode_options \<Rightarrow> bool \<Rightarrow> octets list \<Rightarrow> octets" where
  "closed_frames opt first [] = []"
| "closed_frames opt first (p # ps) = frame_header opt first False (length p) @ p @ closed_frames opt False ps"

definition block_frames :: "encode_options \<Rightarrow> octets list \<Rightarrow> octets" where
  "block_frames opt ps = closed_frames opt True (butlast ps) @ frame_header opt (length ps = 1) True (length (last ps)) @ last ps"

definition good_options :: "encode_options \<Rightarrow> bool" where
  "good_options opt \<longleftrightarrow> 16 \<le> max_frame_size opt \<and> max_frame_size opt < 2 ^ 24"

lemma closed_frames_snoc:
  "closed_frames opt first (ps @ [p]) = closed_frames opt first ps @ frame_header opt (first \<and> ps = []) False (length p) @ p"
  by (induction ps arbitrary: first) auto

text \<open>The framer has closed the frames \<open>ps\<close> and holds \<open>cur\<close> in the open one.\<close>

definition fr_ok :: "encode_options \<Rightarrow> octets \<Rightarrow> octets list \<Rightarrow> octets \<Rightarrow> framer \<Rightarrow> bool" where
  "fr_ok opt pre ps cur f \<longleftrightarrow>
     fr_output f = pre @ closed_frames opt True ps @ replicate 9 0 @ cur \<and>
     header_idx f = length (pre @ closed_frames opt True ps) \<and> output_length_at_start_of_frame f = header_idx f + 9 \<and>
     is_first_frame f = (ps = []) \<and> header_bytes f = length (concat ps @ cur) \<and> framing_bytes f = 9 * length ps \<and>
     (\<forall>p \<in> set (ps @ [cur]). length p \<le> max_frame_size opt)"

lemma fr_ok_size: "fr_ok opt pre ps cur f \<Longrightarrow> CurrentFrameSize opt f = Some (length cur) \<and> length cur \<le> max_frame_size opt"
  by (simp add: fr_ok_def CurrentFrameSize_def assert_c_def)

lemma fr_ok_finish:
  assumes f: "fr_ok opt pre ps cur f" and o: "good_options opt"
  shows "\<exists>f'. Framer_FinishFrame opt b f = Some f' \<and>
    fr_output f' = pre @ closed_frames opt True ps @ frame_header opt (ps = []) b (length cur) @ cur \<and>
    is_first_frame f' = False \<and> header_bytes f' = header_bytes f \<and> framing_bytes f' = framing_bytes f + 9"
proof -
  have s: "CurrentFrameSize opt f = Some (length cur)" "length cur < 16777316"
    using fr_ok_size [OF f] o by (auto simp: good_options_def)
  have i: "header_idx f = length (pre @ closed_frames opt True ps)" "is_first_frame f = (ps = [])"
    "fr_output f = (pre @ closed_frames opt True ps) @ replicate 9 0 @ cur"
    using f by (simp_all add: fr_ok_def)
  have d: "drop (header_idx f + 9) (fr_output f) = cur" "take (header_idx f) (fr_output f) = pre @ closed_frames opt True ps"
    unfolding i(1,3) by simp_all
  show ?thesis
    using s(2) by (simp add: Framer_FinishFrame_def s(1) i(2) d kDataFrameHeaderSize_def FillHeader_def assert_c_def frame_header_def
        GRPC_CHTTP2_FRAME_HEADER_def GRPC_CHTTP2_FRAME_CONTINUATION_def GRPC_CHTTP2_DATA_FLAG_END_STREAM_def GRPC_CHTTP2_DATA_FLAG_END_HEADERS_def)
qed

lemma fr_ok_next:
  assumes f: "fr_ok opt pre ps cur f" and o: "good_options opt"
  shows "\<exists>f'. Framer_FinishFrame opt False f = Some f' \<and> fr_ok opt pre (ps @ [cur]) [] (Framer_BeginFrame f')"
proof -
  obtain f' where f': "Framer_FinishFrame opt False f = Some f'"
    "fr_output f' = pre @ closed_frames opt True ps @ frame_header opt (ps = []) False (length cur) @ cur"
    "is_first_frame f' = False" "header_bytes f' = header_bytes f" "framing_bytes f' = framing_bytes f + 9"
    using fr_ok_finish [OF f o] by blast
  have "fr_ok opt pre (ps @ [cur]) [] (Framer_BeginFrame f')"
    using f f'(2-5) by (auto simp: fr_ok_def Framer_BeginFrame_def closed_frames_snoc kDataFrameHeaderSize_def)
  then show ?thesis using f'(1) by blast
qed

lemma fr_ok_append:
  assumes "fr_ok opt pre ps cur f" "length (cur @ w) \<le> max_frame_size opt"
  shows "fr_ok opt pre ps (cur @ w) (f\<lparr>header_bytes := header_bytes f + length w, fr_output := fr_output f @ w\<rparr>)"
  using assms by (auto simp: fr_ok_def)

text \<open>A function that adds the octets \<open>w\<close> to the payload of the block.\<close>

definition adds :: "encode_options \<Rightarrow> octets \<Rightarrow> (framer \<Rightarrow> framer option) \<Rightarrow> bool" where
  "adds opt w F \<longleftrightarrow> (\<forall>pre ps cur f. fr_ok opt pre ps cur f \<longrightarrow>
     (\<exists>f' ps' cur'. F f = Some f' \<and> fr_ok opt pre ps' cur' f' \<and> concat ps' @ cur' = concat ps @ cur @ w))"

lemma addsE:
  assumes "adds opt w F" "fr_ok opt pre ps cur f"
  obtains f' ps' cur' where "F f = Some f'" "fr_ok opt pre ps' cur' f'" "concat ps' @ cur' = concat ps @ cur @ w"
  using assms unfolding adds_def by blast

lemma addsI:
  "(\<And>pre ps cur f. fr_ok opt pre ps cur f \<Longrightarrow>
     \<exists>f' ps' cur'. F f = Some f' \<and> fr_ok opt pre ps' cur' f' \<and> concat ps' @ cur' = concat ps @ cur @ w) \<Longrightarrow> adds opt w F"
  unfolding adds_def by blast

lemma added:
  "F f = Some f' \<Longrightarrow> fr_ok opt pre ps' cur' f' \<Longrightarrow> concat ps' @ cur' = x \<Longrightarrow>
   \<exists>f' ps' cur'. F f = Some f' \<and> fr_ok opt pre ps' cur' f' \<and> concat ps' @ cur' = x"
  by blast

lemma adds_then:
  assumes "adds opt w F" "adds opt v G"
  shows "adds opt (w @ v) (\<lambda>f. do { f \<leftarrow> F f; G f })"
proof (rule addsI)
  fix pre ps cur f assume "fr_ok opt pre ps cur f"
  from addsE [OF assms(1) this] obtain f1 ps1 cur1 where 1: "F f = Some f1" "fr_ok opt pre ps1 cur1 f1" "concat ps1 @ cur1 = concat ps @ cur @ w" .
  from addsE [OF assms(2) this(2)] obtain f2 ps2 cur2 where 2: "G f1 = Some f2" "fr_ok opt pre ps2 cur2 f2" "concat ps2 @ cur2 = concat ps1 @ cur1 @ v" .
  have "concat ps2 @ cur2 = concat ps @ cur @ w @ v" using 1(3) 2(3) by (metis append_assoc)
  then show "\<exists>f' ps' cur'. (do { f \<leftarrow> F f; G f }) = Some f' \<and> fr_ok opt pre ps' cur' f' \<and> concat ps' @ cur' = concat ps @ cur @ w @ v"
    using 1(1) 2(1,2) by auto
qed

lemma adds_tiny:
  assumes o: "good_options opt" and w: "length w \<le> 16"
  shows "adds opt w (AddTiny opt w)"
proof (rule addsI)
  fix pre ps cur f assume f: "fr_ok opt pre ps cur f"
  show "\<exists>f' ps' cur'. AddTiny opt w f = Some f' \<and> fr_ok opt pre ps' cur' f' \<and> concat ps' @ cur' = concat ps @ cur @ w"
  proof (cases "length cur + length w \<le> max_frame_size opt")
    case True
    then have "AddTiny opt w f = Some (f\<lparr>header_bytes := header_bytes f + length w, fr_output := fr_output f @ w\<rparr>)"
      using fr_ok_size [OF f] by (simp add: AddTiny_def EnsureSpace_def)
    moreover have "fr_ok opt pre ps (cur @ w) (f\<lparr>header_bytes := header_bytes f + length w, fr_output := fr_output f @ w\<rparr>)"
      using fr_ok_append [OF f] True by simp
    ultimately show ?thesis by (rule added) simp
  next
    case False
    obtain f1 where f1: "Framer_FinishFrame opt False f = Some f1" "fr_ok opt pre (ps @ [cur]) [] (Framer_BeginFrame f1)"
      using fr_ok_next [OF f o] by blast
    let ?f = "Framer_BeginFrame f1"
    have "AddTiny opt w f = Some (?f\<lparr>header_bytes := header_bytes ?f + length w, fr_output := fr_output ?f @ w\<rparr>)"
      using False fr_ok_size [OF f] f1(1) by (simp add: AddTiny_def EnsureSpace_def)
    moreover have "fr_ok opt pre (ps @ [cur]) ([] @ w) (?f\<lparr>header_bytes := header_bytes ?f + length w, fr_output := fr_output ?f @ w\<rparr>)"
      using fr_ok_append [OF f1(2), of w] w o by (simp add: good_options_def)
    ultimately show ?thesis by (rule added) simp
  qed
qed

lemma adds_slice_space:
  assumes o: "good_options opt"
  shows "fr_ok opt pre ps cur f \<Longrightarrow> length cur < max_frame_size opt \<Longrightarrow>
    \<exists>f' ps' cur'. Framer_Add opt w f = Some f' \<and> fr_ok opt pre ps' cur' f' \<and> concat ps' @ cur' = concat ps @ cur @ w"
proof (induction w arbitrary: ps cur f rule: length_induct)
  case (1 w)
  note size = fr_ok_size [OF 1(2)]
  let ?n = "max_frame_size opt - length cur"
  consider "w = []" | "w \<noteq> []" "length w \<le> ?n" | "w \<noteq> []" "\<not> length w \<le> ?n" by blast
  then show ?case
  proof cases
    case 1
    then show ?thesis using \<open>fr_ok opt pre ps cur f\<close> by (subst Framer_Add.simps) auto
  next
    case 2
    have "fr_ok opt pre ps (cur @ w) (f\<lparr>header_bytes := header_bytes f + length w, fr_output := fr_output f @ w\<rparr>)"
      using fr_ok_append [OF 1(2), of w] 2(2) size by (simp add: le_diff_conv2 add.commute)
    moreover have "Framer_Add opt w f = Some (f\<lparr>header_bytes := header_bytes f + length w, fr_output := fr_output f @ w\<rparr>)"
      using 2 size by (subst Framer_Add.simps) (simp add: Let_def)
    ultimately show ?thesis by (intro added) simp_all
  next
    case 3
    let ?f = "f\<lparr>header_bytes := header_bytes f + ?n, fr_output := fr_output f @ take ?n w\<rparr>"
    have "fr_ok opt pre ps (cur @ take ?n w) ?f" using fr_ok_append [OF 1(2), of "take ?n w"] 3(2) size by simp
    from fr_ok_next [OF this o] obtain f1 where f1: "Framer_FinishFrame opt False ?f = Some f1"
      "fr_ok opt pre (ps @ [cur @ take ?n w]) [] (Framer_BeginFrame f1)" by blast
    have "length (drop ?n w) < length w" using 1(3) 3 by simp
    moreover have "length ([] :: octets) < max_frame_size opt" using o by (simp add: good_options_def)
    ultimately obtain f' ps' cur' where "Framer_Add opt (drop ?n w) (Framer_BeginFrame f1) = Some f'" "fr_ok opt pre ps' cur' f'"
      "concat ps' @ cur' = concat (ps @ [cur @ take ?n w]) @ [] @ drop ?n w" using 1(1) f1(2) by blast
    then show ?thesis using 3 size f1(1) by (subst Framer_Add.simps) (auto simp: Let_def)
  qed
qed

lemma adds_slice:
  assumes o: "good_options opt"
  shows "adds opt w (Framer_Add opt w)"
proof (rule addsI)
  fix pre ps cur f assume f: "fr_ok opt pre ps cur f"
  note size = fr_ok_size [OF f]
  show "\<exists>f' ps' cur'. Framer_Add opt w f = Some f' \<and> fr_ok opt pre ps' cur' f' \<and> concat ps' @ cur' = concat ps @ cur @ w"
  proof (cases "length cur < max_frame_size opt \<or> w = []")
    case True
    then show ?thesis
    proof
      assume "w = []"
      then show ?thesis using f by (subst Framer_Add.simps) auto
    qed (rule adds_slice_space [OF o f])
  next
    case False
    then have full: "max_frame_size opt - length cur = 0" "w \<noteq> []" by simp_all
    obtain f1 where f1: "Framer_FinishFrame opt False f = Some f1" "fr_ok opt pre (ps @ [cur]) [] (Framer_BeginFrame f1)"
      using fr_ok_next [OF f o] by blast
    have "length ([] :: octets) < max_frame_size opt" using o by (simp add: good_options_def)
    from adds_slice_space [OF o f1(2) this, of w] have "\<exists>f' ps' cur'. Framer_Add opt w (Framer_BeginFrame f1) = Some f' \<and>
      fr_ok opt pre ps' cur' f' \<and> concat ps' @ cur' = concat ps @ cur @ w" by simp
    then show ?thesis using full f1(1) size by (subst Framer_Add.simps) (simp add: Let_def)
  qed
qed

end
