(* ===== verification/Grpc_Hpack_Chunks.thy ===== *)
theory Grpc_Hpack_Chunks imports Grpc_Hpack_Parser begin

text \<open>
  The HPACK parser over whole header blocks: it never leaves what the code defines, and splitting
  the octets of a block into chunks changes nothing. \<open>goes\<close> says where a run over some octets ends,
  for every input that begins with them; \<open>goes_instruction\<close> finds it for one instruction, \<open>goes_on\<close>
  puts two runs together.
\<close>

section \<open>The sizes of what is read\<close>

lemma read_keeps:
  assumes "incremental f" "fresh i" "f i = Some (Some x, i')"
  shows "fresh i' \<and> in_bytes i' = in_bytes i"
proof (rule incremental_outcome [OF assms(1,2)])
  fix r j assume "f i = Some (r, j)" "read_outcome r j" "keeps i j"
  then show ?thesis using assms(3) by (simp add: read_outcome_def keeps_def split: if_splits)
qed

lemma unat_sum: "m < 2 ^ 32 \<Longrightarrow> unat (of_nat m :: u32) = m"
  by (rule unat_of_nat_id) simp

lemma WithNewValue_exact:
  assumes "exact_size md" "msize md \<le> 2 ^ 31" "length content \<le> 2 ^ 30"
  shows "exact_size (WithNewValue content md)"
proof -
  let ?n = "length (md_key md) + length content + 32"
  have k: "length (md_key md) + 32 \<le> 2 ^ 31" using assms(1,2) by (simp add: exact_size_def)
  have "(of_nat (length (md_key md)) + of_nat (length content) + 32 :: u32) = of_nat ?n" by simp
  moreover have "unat (of_nat ?n :: u32) = ?n" using k assms(3) by (intro unat_sum) simp
  ultimately show ?thesis unfolding exact_size_def WithNewValue_def TransportSize_def by (simp only: memento.simps) simp
qed

lemma ParseIdxKey_exact:
  assumes ok: "dec_ok S t" "spec_ok S" and n: "0 < n" and i: "fresh i" "length (in_bytes i) \<le> 2 ^ 29"
    and md: "ParseIdxKey t n i = Some (Some md, i')"
  shows "exact_size md"
proof -
  from md obtain elem content where e: "Lookup_hpack n t = Some (Some elem)"
      "ParseValueString (is_binary_header elem) i = Some (Some content, i')" "md = WithNewValue content elem"
    by (auto simp: ParseIdxKey_def split: bind_splits option.splits)
  then have "exact_size elem \<and> msize elem \<le> 2 ^ 31" using spec_Lookup_exact [OF ok(2) n] Lookup_ok [OF ok(1) n] by simp
  moreover have "length content \<le> 2 ^ 30" using ParseValueString_length [OF i(1) e(2)] i(2) by simp
  ultimately show ?thesis using e(3) WithNewValue_exact by blast
qed

lemma ParseVarIdxKey_exact:
  assumes ok: "dec_ok S t" "spec_ok S" and n: "0 < ofs" "unat ofs \<le> 127" and i: "fresh i" "length (in_bytes i) \<le> 2 ^ 29"
    and md: "ParseVarIdxKey t ofs i = Some (Some md, i')"
  shows "exact_size md"
proof -
  from md obtain n i1 where e: "ParseVarint ofs i = (Some n, i1)" "ParseIdxKey t n i1 = Some (Some md, i')"
    by (auto simp: ParseVarIdxKey_def split: prod.splits option.splits)
  have "0 < n" using ParseVarint_no_less [OF n(2) e(1)] n(1) by (simp add: word_less_nat_alt)
  moreover have "fresh i1 \<and> in_bytes i1 = in_bytes i" using read_keeps [OF incremental_ParseVarint i(1)] e(1) by simp
  ultimately show ?thesis using ParseIdxKey_exact [OF ok, of n i1] i(2) e(2) by simp
qed

lemma ParseLiteralKey_exact:
  assumes i: "fresh i" "length (in_bytes i) \<le> 2 ^ 29" and md: "ParseLiteralKey i = Some (Some md, i')"
  shows "exact_size md"
proof -
  from md obtain key i1 content where e: "String_Parse i = Some (Some key, i1)"
      "ParseValueString (ends_with_bin key) i1 = Some (Some content, i')"
      "md = metadata_Parse key content (length key + length content + unat kEntryOverhead)"
    by (auto simp: ParseLiteralKey_def Let_def split: bind_splits option.splits)
  have i1: "fresh i1 \<and> in_bytes i1 = in_bytes i" using read_keeps [OF incremental_String_Parse i(1) e(1)] .
  have "length key \<le> 2 ^ 30" "length content \<le> 2 ^ 30"
    using String_Parse_length [OF i(1) e(1)] ParseValueString_length [OF _ e(2)] i1 i(2) by simp_all
  then have "unat (of_nat (length key + length content + 32) :: u32) = length key + length content + 32"
    by (intro unat_sum) simp
  then show ?thesis using e(3) by (simp add: exact_size_def metadata_Parse_def kEntryOverhead_def)
qed

lemma read_action_ok:
  assumes ok: "dec_ok S t" "spec_ok S" and i: "fresh i" "length (in_bytes i) \<le> 2 ^ 29"
    and a: "read_action t i = Some (Some a, i')"
  shows "action_ok a"
proof -
  obtain c i1 where n: "Next i = (Some c, i1)"
    using a by (cases "Next i", cases "fst (Next i)") (simp_all add: read_action_def read_op_def and_then_def)
  have "fresh i1 \<and> in_bytes i1 = in_bytes i" using read_keeps [OF incremental_Next i(1)] n by simp
  then have i1: "fresh i1" "length (in_bytes i1) \<le> 2 ^ 29" using i(2) by auto
  have v: "(0 :: u32) < 0xf" "unat (0xf :: u32) \<le> 127" "(0 :: u32) < 0x3f" "unat (0x3f :: u32) \<le> 127" by simp_all
  note rules = ParseLiteralKey_exact [OF i1] ParseIdxKey_exact [OF ok low_bits_pos i1]
    ParseVarIdxKey_exact [OF ok v(1,2) i1] ParseVarIdxKey_exact [OF ok v(3,4) i1]
  have idx: "0 < w" if "ParseVarint 0x7f i1 = (Some w, i2)" for w i2
    using ParseVarint_no_less [OF _ that] by (simp add: word_less_nat_alt)
  let ?op = "drop_bit 4 c"
  note r = a [unfolded read_action_def read_op_def and_then_def n Let_def]
  consider "?op \<le> 1" | "\<not> ?op \<le> 1" "?op = 2 \<or> ?op = 3" | "\<not> ?op \<le> 1" "\<not> (?op = 2 \<or> ?op = 3)" "?op \<le> 7"
    | "\<not> ?op \<le> 1" "\<not> (?op = 2 \<or> ?op = 3)" "\<not> ?op \<le> 7" by blast
  then show ?thesis
  proof cases
    case 1
    then show ?thesis using r rules by (auto split: bind_splits option.splits if_splits)
  next
    case 2
    then show ?thesis using r by (auto split: bind_splits option.splits if_splits prod.splits)
  next
    case 3
    then show ?thesis using r rules op_index(1) [of c] by (auto split: bind_splits option.splits if_splits)
  next
    case 4
    then show ?thesis using r idx op_index(2) [of c] low_bits_pos by (auto split: bind_splits option.splits if_splits prod.splits)
  qed
qed

section \<open>What an action does\<close>

text \<open>The same for every input, except that an error is set in it.\<close>

definition like :: "hpack_parser \<Rightarrow> hpack_parser \<Rightarrow> bool" where
  "like p q \<longleftrightarrow> unparsed_bytes q = unparsed_bytes p \<and> hp_priority q = hp_priority p"

definition does :: "(hpack_input \<Rightarrow> (bool \<times> hpack_input \<times> hpack_parser) option) \<Rightarrow> hpack_parser \<Rightarrow> bool" where
  "does f p \<longleftrightarrow> (\<exists>e q. parser_ok q \<and> like p q \<and>
     ((\<forall>i. fresh i \<longrightarrow> f i = Some (True, i, q)) \<or> (\<forall>i. fresh i \<longrightarrow> f i = Some (False, MaybeSetError e i, q))))"

lemma like_refl [simp]: "like p p"
  by (simp add: like_def)

lemma does_True: "parser_ok q \<Longrightarrow> like p q \<Longrightarrow> (\<And>i. fresh i \<Longrightarrow> f i = Some (True, i, q)) \<Longrightarrow> does f p"
  unfolding does_def by blast

lemma does_False: "parser_ok q \<Longrightarrow> like p q \<Longrightarrow> (\<And>i. fresh i \<Longrightarrow> f i = Some (False, MaybeSetError e i, q)) \<Longrightarrow> does f p"
  unfolding does_def by blast

lemma EmitHeader_cases:
  obtains q where "\<And>i. EmitHeader md i p = (True, i, q)" "hp_table q = hp_table p" "like p q"
  | q e where "\<And>i. EmitHeader md i p = (False, MaybeSetError e i, q)" "hp_table q = hp_table p" "like p q"
proof (cases "metadata_buffer p")
  case None
  then show ?thesis using that(1) [of p] by (simp add: EmitHeader_def)
next
  case (Some batch)
  let ?p = "p\<lparr>frame_length := frame_length p + transport_size md\<rparr>"
  show ?thesis
  proof (cases "frame_length ?p > metadata_size_limit ?p")
    case True
    then show ?thesis using Some that(2) [of Size_limit_exceeded "?p\<lparr>metadata_buffer := Some []\<rparr>"]
      by (simp add: EmitHeader_def HandleMetadataSizeLimitExceeded_def like_def)
  next
    case False
    then show ?thesis using Some that(1) [of "?p\<lparr>metadata_buffer := Some (batch @ [md])\<rparr>"] by (simp add: EmitHeader_def like_def)
  qed
qed

lemma does_EmitHeader:
  assumes "parser_ok p"
  shows "does (\<lambda>i. Some (EmitHeader md i p)) p"
proof (cases rule: EmitHeader_cases [where md = md and p = p])
  case (1 q)
  then show ?thesis using assms by (intro does_True [of q]) (simp_all add: parser_ok_def)
next
  case (2 q e)
  then show ?thesis using assms by (intro does_False [of q _ _ e]) (simp_all add: parser_ok_def)
qed

lemma MaybeSetError_twice: "fresh i \<Longrightarrow> MaybeSetError e' (MaybeSetError e i) = MaybeSetError e i"
  by (simp add: MaybeSetError_def fresh_def)

lemma spec_Add_ok:
  assumes S: "spec_ok S" and m: "exact_size md"
  shows "spec_ok (snd (spec_Add md S))"
proof -
  have le: "unat (sp_size S) \<le> 2 ^ 31" using S by (simp add: spec_ok_def)
  have "exact_size m \<and> msize m \<le> 2 ^ 31"
    if "m \<in> set (newest msize n (sp_entries S))" for m n
    using that S set_newest [of msize n] unfolding spec_ok_def by blast
  then show ?thesis using S m le by (auto simp: spec_Add_def spec_ok_def)
qed

lemma parser_ok_table: "dec_ok S t \<Longrightarrow> spec_ok S \<Longrightarrow> parser_ok (p\<lparr>hp_table := t\<rparr>)"
  by (auto simp: parser_ok_def)

lemma does_add:
  assumes p: "parser_ok p" and m: "exact_size md"
  shows "does (\<lambda>i. FinishHeaderAndAddToTable (Some md) i p) p"
proof -
  obtain S where S: "dec_ok S (hp_table p)" "spec_ok S" using p by (auto simp: parser_ok_def)
  have "32 \<le> msize md" using m by (simp add: exact_size_def)
  from Add_ok [OF S(1) this] obtain ok t where t: "Add_to_table md (hp_table p) = Some (ok, t)" "dec_ok (snd (spec_Add md S)) t"
    by blast
  have q: "parser_ok (q\<lparr>hp_table := t\<rparr>)" for q using parser_ok_table [OF t(2) spec_Add_ok [OF S(2) m]] .
  show ?thesis
  proof (cases rule: EmitHeader_cases [where md = md and p = p])
    case (1 r)
    have e: "FinishHeaderAndAddToTable (Some md) i p =
        Some (if \<not> ok then (False, MaybeSetError Table_size_not_reflected i, r\<lparr>hp_table := t\<rparr>) else (True, i, r\<lparr>hp_table := t\<rparr>))" for i
      using 1 t(1) by (simp add: FinishHeaderAndAddToTable_def)
    have l: "like p (r\<lparr>hp_table := t\<rparr>)" using 1(3) by (simp add: like_def)
    show ?thesis
    proof (cases ok)
      case True
      then show ?thesis using e by (intro does_True [OF q l]) simp
    next
      case False
      then show ?thesis using e by (intro does_False [OF q l, where e = Table_size_not_reflected]) simp
    qed
  next
    case (2 r e)
    have "FinishHeaderAndAddToTable (Some md) i p = Some (False, MaybeSetError e i, r\<lparr>hp_table := t\<rparr>)" if "fresh i" for i
      using 2 t(1) MaybeSetError_twice [OF that] by (cases ok) (simp_all add: FinishHeaderAndAddToTable_def)
    then show ?thesis using q [of r] 2(3) by (intro does_False [of "r\<lparr>hp_table := t\<rparr>" _ _ e]) (auto simp: like_def)
  qed
qed

lemma does_like: "does f q \<Longrightarrow> like p q \<Longrightarrow> does f p"
  unfolding does_def like_def by force

lemma does_index:
  assumes p: "parser_ok p" and n: "0 < n"
  shows "does (\<lambda>i. FinishIndexed (Some n) i p) p"
proof -
  let ?q = "p\<lparr>dynamic_table_updates_allowed := 0\<rparr>"
  obtain S where S: "dec_ok S (hp_table p)" "spec_ok S" using p by (auto simp: parser_ok_def)
  have q: "parser_ok ?q" "like p ?q" using p by (simp_all add: parser_ok_def like_def)
  show ?thesis
  proof (cases "spec_Lookup n S")
    case None
    then show ?thesis using Lookup_ok [OF S(1) n] q
      by (intro does_False [of ?q _ _ "Invalid_index n (num_entries (hp_table p))"]) (simp_all add: FinishIndexed_def Let_def InvalidHPackIndexError_def)
  next
    case (Some md)
    then have "FinishIndexed (Some n) i p = Some (EmitHeader md i ?q)" for i
      using Lookup_ok [OF S(1) n] by (simp add: FinishIndexed_def Let_def FinishHeaderOmitFromTable_def)
    then show ?thesis using does_like [OF does_EmitHeader [OF q(1)] q(2)] by simp
  qed
qed

lemma does_resize:
  assumes p: "parser_ok p"
  shows "does (\<lambda>i. FinishMaxTableSize (Some n) i p) p"
proof (cases "dynamic_table_updates_allowed p = 0")
  case True
  then show ?thesis using p by (intro does_False [of p _ _ Too_many_size_changes]) (simp_all add: FinishMaxTableSize_def)
next
  case False
  let ?q = "\<lambda>t. p\<lparr>dynamic_table_updates_allowed := dynamic_table_updates_allowed p - 1, hp_table := t\<rparr>"
  obtain S where S: "dec_ok S (hp_table p)" "spec_ok S" using p by (auto simp: parser_ok_def)
  have m: "max_bytes (hp_table p) = sp_max S" "current_table_bytes (hp_table p) = sp_size S"
    using S(1) by (auto simp: dec_ok_def dec_at_def)
  show ?thesis
  proof (cases "n \<noteq> sp_size S \<and> sp_max S < n")
    case True
    then have "SetCurrentTableSize n (hp_table p) = Some (False, hp_table p)" by (auto simp: SetCurrentTableSize_def m)
    then show ?thesis using False p
      by (intro does_False [of "?q (hp_table p)" _ _ "Table_size_too_large n"]) (simp_all add: FinishMaxTableSize_def Let_def parser_ok_def like_def)
  next
    case n: False
    then have le: "unat n \<le> 2 ^ 31" using S(2) by (auto simp: spec_ok_def word_less_nat_alt)
    then have s: "fst (spec_SetCurrentTableSize n S)" "unat n + 31 < 2 ^ 32" using n by (simp_all add: spec_SetCurrentTableSize_def)
    from SetCurrentTableSize_ok [OF S(1) s(2)] s(1) obtain t where t: "SetCurrentTableSize n (hp_table p) = Some (True, t)"
        "dec_ok (snd (spec_SetCurrentTableSize n S)) t" by auto
    have "spec_ok (snd (spec_SetCurrentTableSize n S))"
      using S(2) n le set_newest [of msize "unat n" "sp_entries S"] by (auto simp: spec_SetCurrentTableSize_def spec_ok_def)
    then have "parser_ok (?q t)" using t(2) by (auto simp: parser_ok_def)
    then show ?thesis using False t(1) by (intro does_True [of "?q t"]) (simp_all add: FinishMaxTableSize_def Let_def like_def)
  qed
qed

lemma does_action: "parser_ok p \<Longrightarrow> action_ok a \<Longrightarrow> does (\<lambda>i. do_action a i p) p"
  using does_EmitHeader does_add does_index does_resize by (cases a) (simp_all add: FinishHeaderOmitFromTable_def)

section \<open>Where a block ends\<close>

text \<open>
  How a run over some octets goes on when more follow: through \<open>n\<close> of them with the parser \<open>q\<close>, into an
  error, or to an instruction after the first \<open>n\<close> octets that the end cuts.
\<close>

datatype block_end = Through nat hpack_parser | Failed hpack_error hpack_parser | Cut nat hpack_parser

definition aligned :: "octets \<Rightarrow> hpack_input \<Rightarrow> bool" where
  "aligned xs i \<longleftrightarrow> fresh i \<and> in_frontier i = in_begin i \<and> rest_of i = xs"

definition past :: "nat \<Rightarrow> hpack_input \<Rightarrow> hpack_input" where
  "past n i = UpdateFrontier (Advance n i)"

fun goes :: "octets \<Rightarrow> hpack_parser \<Rightarrow> block_end \<Rightarrow> bool" where
  "goes xs p (Through n q) \<longleftrightarrow> n \<le> length xs \<and>
     (\<forall>i y. aligned (xs @ y) i \<longrightarrow> ParseInputInner i p = ParseInputInner (past n i) q)"
| "goes xs p (Failed e q) \<longleftrightarrow>
     (\<forall>i y. aligned (xs @ y) i \<longrightarrow> (\<exists>i'. ParseInputInner i p = Some (False, i', q) \<and> in_error i' = Some e \<and> \<not> in_eof i'))"
| "goes xs p (Cut n q) \<longleftrightarrow> n \<le> length xs \<and>
     (\<forall>i y. aligned (xs @ y) i \<longrightarrow> ParseInputInner i p = ParseInputInner (past n i) q) \<and>
     (\<forall>i. aligned xs i \<longrightarrow> (\<exists>i'. ParseInputInner i p = Some (False, i', q) \<and> in_eof i' \<and> drop (in_frontier i') (in_bytes i') = drop n xs))"

fun end_parser :: "block_end \<Rightarrow> hpack_parser" where
  "end_parser (Through n q) = q"
| "end_parser (Failed e q) = q"
| "end_parser (Cut n q) = q"

fun end_after :: "nat \<Rightarrow> block_end \<Rightarrow> block_end" where
  "end_after m (Through n q) = Through (m + n) q"
| "end_after m (Failed e q) = Failed e q"
| "end_after m (Cut n q) = Cut (m + n) q"

lemma aligned_Input: "aligned xs (Input xs)"
  by (simp add: aligned_def Input_def fresh_def rest_of_def)

lemma aligned_past: "aligned xs i \<Longrightarrow> n \<le> length xs \<Longrightarrow> aligned (drop n xs) (past n i)"
  by (auto simp: aligned_def past_def fresh_def rest_of_def UpdateFrontier_def Advance_def add.commute)

lemma past_past: "past n (past m i) = past (m + n) i"
  by (simp add: past_def UpdateFrontier_def Advance_def add.assoc)

lemma past_0: "aligned xs i \<Longrightarrow> past 0 i = i"
  by (simp add: past_def UpdateFrontier_def Advance_def aligned_def)

lemma goes_on:
  assumes 1: "goes xs p (Through n q)" and 2: "goes (drop n xs) q b"
  shows "goes xs p (end_after n b)"
proof -
  have n: "n \<le> length xs" and p: "\<And>i y. aligned (xs @ y) i \<Longrightarrow> ParseInputInner i p = ParseInputInner (past n i) q"
    using 1 by auto
  have a: "aligned (drop n xs @ y) (past n i)" if "aligned (xs @ y) i" for i y
    using aligned_past [OF that, of n] n by simp
  show ?thesis
  proof (cases b)
    case (Through m r)
    have "ParseInputInner (past n i) q = ParseInputInner (past (n + m) i) r" if "aligned (xs @ y) i" for i y
      using 2 Through a [OF that] by (simp add: past_past [symmetric]) blast
    then show ?thesis using Through 2 p n by simp arith
  next
    case (Failed e r)
    have "\<exists>i'. ParseInputInner (past n i) q = Some (False, i', r) \<and> in_error i' = Some e \<and> \<not> in_eof i'" if "aligned (xs @ y) i" for i y
      using 2 Failed a [OF that] by simp blast
    then show ?thesis using Failed p by simp
  next
    case (Cut m r)
    have m: "ParseInputInner (past n i) q = ParseInputInner (past (n + m) i) r" if "aligned (xs @ y) i" for i y
      using 2 Cut a [OF that] by (simp add: past_past [symmetric]) blast
    have "aligned (drop n xs) (past n i) \<and> ParseInputInner i p = ParseInputInner (past n i) q" if "aligned xs i" for i
      using a [of "[]" i] p [of "[]" i] that by simp
    then show ?thesis using Cut 2 p m n by (simp add: add.commute) arith
  qed
qed

lemma read_past:
  assumes f: "incremental f" and i: "fresh i" "f i = Some (Some x, i')"
  shows "\<exists>n. i' = Advance n i \<and> n \<le> length (rest_of i)"
proof (rule incremental_outcome [OF f i(1)])
  fix r j assume "f i = Some (r, j)" "read_outcome r j" "keeps i j"
  then have "read_outcome (Some x) i'" and k: "keeps i i'" using i(2) by simp_all
  then have "fresh i'" by (auto simp: read_outcome_def split: if_splits)
  then have "i' = Advance (in_begin i' - in_begin i) i"
    using k i(1) by (cases i; cases i') (auto simp: keeps_def fresh_def Advance_def)
  moreover have "in_begin i' - in_begin i \<le> length (rest_of i)" using k by (auto simp: keeps_def rest_of_def)
  ultimately show ?thesis by blast
qed

text \<open>Where the input stands does not matter.\<close>

lemma read_again:
  assumes f: "incremental f" and i: "fresh i" "fresh j" "rest_of j = rest_of i @ y" and r: "f i = Some (Some x, Advance n i)" "n \<le> length (rest_of i)"
  shows "f j = Some (Some x, Advance n j)"
proof -
  have e: "\<not> in_eof (Advance n i)" "in_error (Advance n i) = None" using i(1) by (simp_all add: Advance_def fresh_def)
  obtain j' where j': "f j = Some (Some x, j')" "rest_of j' = rest_of (Advance n i) @ y"
    using incremental_more [OF f i r(1) e(1)] e(2) by metis
  obtain m where m: "j' = Advance m j" "m \<le> length (rest_of j)" using read_past [OF f i(2) j'(1)] by blast
  have "rest_of (Advance k l) = drop k (rest_of l)" for k l by (simp add: rest_of_def Advance_def add.commute)
  then have "drop m (rest_of j) = drop n (rest_of i) @ y" using j'(2) m(1) by simp
  from arg_cong [OF this, of length] have "m = n" using m(2) r(2) i(3) by simp
  then show ?thesis using j'(1) m(1) by simp
qed

lemma read_eof_again:
  assumes f: "incremental f" and i: "fresh i" "fresh j" "rest_of j = rest_of i" and r: "f i = Some (r, i')" "in_eof i'"
  shows "\<exists>j'. f j = Some (None, j') \<and> in_eof j' \<and> keeps j j'"
proof (rule incremental_outcome [OF f i(2)])
  fix s j' assume s: "f j = Some (s, j')" "read_outcome s j'" "keeps j j'"
  have "in_eof j'"
  proof (rule ccontr)
    assume "\<not> in_eof j'"
    from incremental_more [OF f i(2,1) _ s(1) this, of "[]"] i(3) r show False by auto
  qed
  then show ?thesis using s by (simp add: read_outcome_def)
qed

section \<open>One instruction\<close>

lemma loop_Cons:
  assumes "aligned (c # xs) i" "hp_priority p = Priority_None"
  shows "ParseInputInner i p = do { (a, i) \<leftarrow> read_action (hp_table p) i;
     case a of None \<Rightarrow> Some (False, i, half_read c p)
     | Some a \<Rightarrow> do { (ok, i, q) \<leftarrow> do_action a i p; if ok then parse_loop (UpdateFrontier i) q else Some (False, i, q) } }"
proof -
  have r: "rest_of i = c # xs" "fresh i" using assms(1) by (simp_all add: aligned_def)
  then have "\<not> end_of_stream i" using rest_Nil [OF r(2)] by simp
  then have "ParseInputInner i p = do { (ok, i, p) \<leftarrow> Parser_Parse i p; if ok then parse_loop (UpdateFrontier i) p else Some (False, i, p) }"
    using assms(2) by (simp add: ParseInputInner_def) (subst parse_loop.simps, simp)
  then show ?thesis using Parser_Parse_action [OF r(1)]
    by (simp add: bind_assoc split_def) (auto split: bind_splits option.split prod.split)
qed

text \<open>An instruction that was cut can be read again.\<close>

lemma read_index:
  assumes "rest_of i = 0xff # xs" "read_action t i = Some (Some a, i')"
  shows "\<exists>n. a = Use_index n"
proof -
  have "read_action t i = and_then (\<lambda>i. Some (ParseVarint 0x7f i)) (\<lambda>n i. Some (Some (Use_index n), i)) (Advance 1 i)"
    using Next_Cons(1) [OF assms(1)] op_codes by (simp add: read_action_def read_op_def and_then_def word_le_nat_alt)
  then show ?thesis using assms(2) by (auto simp: and_then_def split: prod.splits option.splits)
qed

lemma half_read_simps [simp]:
  "half_read c (half_read c p) = half_read c p" "hp_table (half_read c p) = hp_table p"
  "hp_priority (half_read c p) = hp_priority p" "unparsed_bytes (half_read c p) = unparsed_bytes p" "parser_ok (half_read c p) = parser_ok p"
  by (simp_all add: half_read_def parser_ok_def)

lemma half_again:
  assumes i: "aligned (c # xs) i" and p: "hp_priority p = Priority_None"
  shows "ParseInputInner i (half_read c p) = ParseInputInner i p"
proof -
  have "do_action a i' (half_read c p) = do_action a i' p" if "read_action (hp_table p) i = Some (Some a, i')" for a i'
  proof (cases "c = 0xff")
    case True
    then have "rest_of i = 0xff # xs" using i by (simp add: aligned_def)
    from read_index [OF this that] show ?thesis by (auto simp: half_read_def FinishIndexed_def Let_def)
  qed (simp add: half_read_def)
  then show ?thesis using loop_Cons [OF i p] loop_Cons [OF i, of "half_read c p"] p
    by (simp cong: option.case_cong) (auto split: bind_splits option.split)
qed

lemma read_action_past:
  assumes S: "dec_ok S t" and i: "rest_of i = c # cs" "fresh i" "read_action t i = Some (Some a, Advance n i)" "n \<le> length (c # cs)"
  shows "0 < n"
proof -
  have "read_op t c (Advance 1 i) = Some (Some a, Advance n i)"
    using i(3) Next_Cons(1) [OF i(1)] by (simp add: read_action_def and_then_def)
  from read_past [OF incremental_read_op [OF S] fresh_Advance [OF i(2,1)] this] show ?thesis
    by (cases i) (auto simp: Advance_def)
qed

lemma goes_instruction:
  assumes p: "parser_ok p" "hp_priority p = Priority_None" and l: "length (c # cs) \<le> 2 ^ 29"
  shows "\<exists>b. goes (c # cs) p b \<and> parser_ok (end_parser b) \<and> like p (end_parser b) \<and> (\<forall>n q. b = Through n q \<longrightarrow> 0 < n)"
proof -
  let ?t = "hp_table p" and ?i = "Input (c # cs)"
  obtain S where S: "dec_ok S ?t" "spec_ok S" using p by (auto simp: parser_ok_def)
  note f = incremental_read_action [OF S(1)]
  have i: "fresh ?i" "rest_of ?i = c # cs" using aligned_Input [of "c # cs"] by (simp_all add: aligned_def)
  have j: "fresh j" "rest_of j = rest_of ?i @ y" "aligned (c # (cs @ y)) j" if "aligned ((c # cs) @ y) j" for j y
    using that i by (simp_all add: aligned_def)
  have h: "parser_ok (half_read c p) \<and> like p (half_read c p)" using p by (simp add: like_def)
  obtain r i' where r: "read_action ?t ?i = Some (r, i')" "read_outcome r i'" "keeps ?i i'" using incremental_outcome [OF f i(1)] .
  consider "in_eof i'" | e where "\<not> in_eof i'" "in_error i' = Some e" "r = None" | a where "r = Some a"
    using r(2) by (auto simp: read_outcome_def split: if_splits)
  then show ?thesis
  proof cases
    case 1
    have "\<exists>j'. ParseInputInner j p = Some (False, j', half_read c p) \<and> in_eof j' \<and> drop (in_frontier j') (in_bytes j') = c # cs"
      if "aligned (c # cs) j" for j
    proof -
      have e: "fresh j" "rest_of j = rest_of ?i" "drop (in_frontier j) (in_bytes j) = c # cs" using that i by (simp_all add: aligned_def rest_of_def)
      from read_eof_again [OF f i(1) e(1,2) r(1) 1] show ?thesis using loop_Cons [OF that p(2)] e(3) by (auto simp: keeps_def)
    qed
    moreover have "ParseInputInner j p = ParseInputInner (past 0 j) (half_read c p)" if "aligned ((c # cs) @ y) j" for j y
      using half_again [OF j(3) [OF that] p(2)] past_0 [OF that] by simp
    ultimately have "goes (c # cs) p (Cut 0 (half_read c p))" by simp
    then show ?thesis using h by fastforce
  next
    case (2 e)
    have "\<exists>j'. ParseInputInner j p = Some (False, j', half_read c p) \<and> in_error j' = Some e \<and> \<not> in_eof j'" if "aligned ((c # cs) @ y) j" for j y
    proof -
      note jj = j(1,2) [OF that]
      obtain j' where "read_action ?t j = Some (None, j')" "in_error j' = Some e" "\<not> in_eof j'"
        using incremental_more [OF f i(1) jj r(1) 2(1)] 2(2,3) by metis
      then show ?thesis using loop_Cons [OF j(3) [OF that] p(2)] by simp
    qed
    then have "goes (c # cs) p (Failed e (half_read c p))" by simp
    then show ?thesis using h by fastforce
  next
    case (3 a)
    obtain n where n: "i' = Advance n ?i" "n \<le> length (rest_of ?i)" using read_past [OF f i(1)] r(1) 3 by blast
    have ri: "read_action ?t ?i = Some (Some a, Advance n ?i)" using r(1) n(1) 3 by simp
    have n0: "0 < n" using read_action_past [OF S(1) i(2,1) ri] n(2) i(2) by simp
    have "action_ok a" using read_action_ok [OF S i(1) _ ri] l by (simp add: Input_def)
    then obtain e q where q: "parser_ok q" "like p q" and
      d: "(\<forall>i. fresh i \<longrightarrow> do_action a i p = Some (True, i, q)) \<or> (\<forall>i. fresh i \<longrightarrow> do_action a i p = Some (False, MaybeSetError e i, q))"
      using does_action [OF p(1)] unfolding does_def by blast
    have ra: "read_action ?t j = Some (Some a, Advance n j) \<and> fresh (Advance n j)" if "aligned ((c # cs) @ y) j" for j y
    proof -
      have "length (rest_of j) = length (in_bytes j) - in_begin j" by (simp add: rest_of_def)
      then have "in_begin j + n \<le> length (in_bytes j)" using n(2) j(1,2) [OF that] n0 by (simp add: fresh_def)
      then show ?thesis using read_again [OF f i(1) j(1,2) [OF that] ri n(2)] j(1) [OF that] by (simp add: fresh_def Advance_def)
    qed
    from d show ?thesis
    proof
      assume d: "\<forall>i. fresh i \<longrightarrow> do_action a i p = Some (True, i, q)"
      have "ParseInputInner j p = ParseInputInner (past n j) q" if "aligned ((c # cs) @ y) j" for j y
        using loop_Cons [OF j(3) [OF that] p(2)] ra [OF that] d p(2) q(2) by (simp add: past_def ParseInputInner_def like_def)
      then have "goes (c # cs) p (Through n q)" using n(2) i(2) by simp
      then show ?thesis using q n0 by fastforce
    next
      assume d: "\<forall>i. fresh i \<longrightarrow> do_action a i p = Some (False, MaybeSetError e i, q)"
      have "\<exists>j'. ParseInputInner j p = Some (False, j', q) \<and> in_error j' = Some e \<and> \<not> in_eof j'" if "aligned ((c # cs) @ y) j" for j y
        using loop_Cons [OF j(3) [OF that] p(2)] ra [OF that] d by (simp add: MaybeSetError_def fresh_def)
      then have "goes (c # cs) p (Failed e q)" by simp
      then show ?thesis using q by fastforce
    qed
  qed
qed

section \<open>A whole block\<close>

lemma goes_priority:
  assumes "hp_priority p = Priority_Included"
  shows "goes xs p (if length xs < 5 then Cut 0 p else Through 5 (p\<lparr>hp_priority := Priority_None\<rparr>))"
proof (cases "length xs < 5")
  case True
  have "\<exists>i'. ParseInputInner i p = Some (False, i', p) \<and> in_eof i' \<and> drop (in_frontier i') (in_bytes i') = xs" if "aligned xs i" for i
  proof -
    have "length (rest_of i) = remaining i" by (simp add: rest_of_def remaining_def)
    then have "remaining i < 5" using that True by (simp add: aligned_def)
    then show ?thesis using that assms by (simp add: ParseInputInner_def UnexpectedEOF_def aligned_def fresh_def rest_of_def)
  qed
  then show ?thesis using True past_0 by auto
next
  case False
  have "ParseInputInner i p = ParseInputInner (past 5 i) (p\<lparr>hp_priority := Priority_None\<rparr>)" if "aligned (xs @ y) i" for i y
  proof -
    have "length (rest_of i) = remaining i" by (simp add: rest_of_def remaining_def)
    then have "\<not> remaining i < 5" using that False by (simp add: aligned_def)
    then show ?thesis using assms by (simp add: ParseInputInner_def past_def)
  qed
  then show ?thesis using False by simp
qed

definition ends :: "octets \<Rightarrow> hpack_parser \<Rightarrow> block_end \<Rightarrow> bool" where
  "ends xs p b \<longleftrightarrow> goes xs p b \<and> parser_ok (end_parser b) \<and> unparsed_bytes (end_parser b) = unparsed_bytes p \<and>
     (\<forall>n q. b = Through n q \<longrightarrow> n = length xs \<and> hp_priority q = Priority_None)"

lemma ends_on:
  assumes "goes xs p (Through n q)" "unparsed_bytes q = unparsed_bytes p" "ends (drop n xs) q b"
  shows "ends xs p (end_after n b)"
proof -
  have g: "goes xs p (end_after n b)" using goes_on [OF assms(1)] assms(3) by (simp add: ends_def)
  have "n \<le> length xs" using assms(1) by simp
  then show ?thesis using assms(2,3) g by (cases b) (simp_all add: ends_def)
qed

lemma block_ends: "length xs \<le> 2 ^ 29 \<Longrightarrow> parser_ok p \<Longrightarrow> hp_priority p = Priority_None \<Longrightarrow> \<exists>b. ends xs p b"
proof (induction xs arbitrary: p rule: length_induct)
  case (1 xs)
  show ?case
  proof (cases xs)
    case Nil
    then have "goes xs p (Through 0 p)" using past_0 by auto
    then have "ends xs p (Through 0 p)" using 1(3,4) Nil by (simp add: ends_def)
    then show ?thesis by blast
  next
    case (Cons c cs)
    obtain b where b: "goes xs p b" "parser_ok (end_parser b)" "like p (end_parser b)" "\<forall>n q. b = Through n q \<longrightarrow> 0 < n"
      using goes_instruction [OF 1(3,4), of c cs] 1(2) Cons by blast
    show ?thesis
    proof (cases "\<exists>n q. b = Through n q")
      case False
      then have "ends xs p b" using b by (simp add: ends_def like_def)
      then show ?thesis by blast
    next
      case True
      then obtain n q where Through: "b = Through n q" by blast
      have "length (drop n xs) < length xs" "length (drop n xs) \<le> 2 ^ 29" using b(4) Through Cons 1(2) by simp_all
      moreover have q: "parser_ok q" "hp_priority q = Priority_None" "unparsed_bytes q = unparsed_bytes p"
        using b(2,3) Through 1(4) by (simp_all add: like_def)
      ultimately obtain b' where "ends (drop n xs) q b'" using 1(1) by blast
      then show ?thesis using ends_on [of xs p n q b'] b(1) Through q(3) by auto
    qed
  qed
qed

lemma input_ends:
  assumes "length xs \<le> 2 ^ 29" "parser_ok p"
  shows "\<exists>b. ends xs p b"
proof (cases "hp_priority p")
  case Priority_None
  then show ?thesis by (rule block_ends [OF assms])
next
  case Priority_Included
  note g = goes_priority [OF this, of xs]
  let ?q = "p\<lparr>hp_priority := Priority_None\<rparr>"
  show ?thesis
  proof (cases "length xs < 5")
    case True
    then have "ends xs p (Cut 0 p)" using g assms(2) by (simp add: ends_def)
    then show ?thesis by blast
  next
    case False
    have "parser_ok ?q" using assms(2) by (simp add: parser_ok_def)
    then obtain b where "ends (drop 5 xs) ?q b" using block_ends [of "drop 5 xs" ?q] assms(1) by fastforce
    then show ?thesis using False g ends_on [of xs p 5 ?q b] by auto
  qed
qed

text \<open>What \<open>ParseInput\<close> makes of it.\<close>

fun input_result :: "bool \<Rightarrow> octets \<Rightarrow> block_end \<Rightarrow> hpack_error option \<times> hpack_parser" where
  "input_result fin xs (Through n q) = (None, q)"
| "input_result fin xs (Failed e q) = (Some e, q)"
| "input_result fin xs (Cut n q) =
     (if fin \<and> is_boundary q then (Some Incomplete_header, q) else (None, q\<lparr>unparsed_bytes := drop n xs\<rparr>))"

lemma ParseInput_ends:
  assumes "ends xs p b" "aligned xs i"
  shows "ParseInput i fin p = Some (input_result fin xs b)"
proof -
  have a: "aligned (xs @ []) i" using assms(2) by simp
  have g: "goes xs p b" using assms(1) by (simp add: ends_def)
  show ?thesis
  proof (cases b)
    case (Through n q)
    have n: "n = length xs" "hp_priority q = Priority_None" using assms(1) Through by (simp_all add: ends_def)
    have past: "aligned [] (past n i)" using aligned_past [OF assms(2), of n] n(1) by simp
    then have "end_of_stream (past n i)" using rest_Nil [of "past n i"] by (simp add: aligned_def)
    then have "ParseInputInner (past n i) q = Some (True, past n i, q)"
      using n(2) by (simp add: ParseInputInner_def) (subst parse_loop.simps, simp)
    moreover have "ParseInputInner i p = ParseInputInner (past n i) q" using g a Through by (simp only: goes.simps)
    ultimately show ?thesis using Through by (simp add: ParseInput_def)
  next
    case (Failed e q)
    then obtain i' where "ParseInputInner i p = Some (False, i', q)" "in_error i' = Some e" "\<not> in_eof i'"
      using g a by (simp only: goes.simps) blast
    then show ?thesis using Failed by (simp add: ParseInput_def)
  next
    case (Cut n q)
    then obtain i' where "ParseInputInner i p = Some (False, i', q)" "in_eof i'" "drop (in_frontier i') (in_bytes i') = drop n xs"
      using g assms(2) by (simp only: goes.simps) blast
    then show ?thesis using Cut by (simp add: ParseInput_def)
  qed
qed

text \<open>With more input, the run goes on where the first part ends.\<close>

lemma ParseInput_more:
  assumes "ends xs p b" "aligned (xs @ y) i"
  shows "case b of Through n q \<Rightarrow> ParseInput i fin p = ParseInput (past n i) fin q \<and> aligned y (past n i)
    | Cut n q \<Rightarrow> ParseInput i fin p = ParseInput (past n i) fin q \<and> aligned (drop n xs @ y) (past n i)
    | Failed e q \<Rightarrow> ParseInput i fin p = Some (Some e, q)"
proof -
  have g: "goes xs p b" using assms(1) by (simp add: ends_def)
  show ?thesis
  proof (cases b)
    case (Through n q)
    then have n: "n = length xs" "ParseInputInner i p = ParseInputInner (past n i) q"
      using assms g by (auto simp: ends_def)
    then show ?thesis using aligned_past [OF assms(2), of n] Through by (simp add: ParseInput_def)
  next
    case (Failed e q)
    then obtain i' where "ParseInputInner i p = Some (False, i', q)" "in_error i' = Some e" "\<not> in_eof i'"
      using g assms(2) by (simp only: goes.simps) blast
    then show ?thesis using Failed by (simp add: ParseInput_def)
  next
    case (Cut n q)
    then have n: "n \<le> length xs" "ParseInputInner i p = ParseInputInner (past n i) q" using assms g by auto
    then show ?thesis using aligned_past [OF assms(2), of n] Cut by (simp add: ParseInput_def)
  qed
qed

lemma Parse_unparsed: "HPackParser_Parse s fin p = ParseInput (Input (unparsed_bytes p @ s)) fin (p\<lparr>unparsed_bytes := []\<rparr>)"
proof (cases "unparsed_bytes p = []")
  case True
  then have p: "p\<lparr>unparsed_bytes := []\<rparr> = p" by simp
  show ?thesis unfolding p HPackParser_Parse_def by (simp add: True)
qed (simp add: HPackParser_Parse_def)

lemma Parse_fresh: "unparsed_bytes q = [] \<Longrightarrow> ParseInput (Input s) fin q = HPackParser_Parse s fin q"
  by (simp add: HPackParser_Parse_def)

lemma ParseInput_aligned:
  assumes "length xs \<le> 2 ^ 29" "parser_ok p" "aligned xs i"
  shows "ParseInput i fin p = ParseInput (Input xs) fin p"
proof -
  obtain b where "ends xs p b" using input_ends [OF assms(1,2)] by blast
  then show ?thesis using ParseInput_ends [OF _ assms(3)] ParseInput_ends [OF _ aligned_Input] by simp
qed

section \<open>One call and the next\<close>

lemma Parse_total:
  assumes "parser_ok p" "length (unparsed_bytes p @ s) \<le> 2 ^ 29"
  shows "\<exists>e q. HPackParser_Parse s fin p = Some (e, q) \<and> parser_ok q \<and> length (unparsed_bytes q) \<le> length (unparsed_bytes p @ s)"
proof -
  let ?p = "p\<lparr>unparsed_bytes := []\<rparr>" and ?xs = "unparsed_bytes p @ s"
  have "parser_ok ?p" using assms(1) by (simp add: parser_ok_def)
  then obtain b where b: "ends ?xs ?p b" using input_ends assms(2) by blast
  have "parser_ok (end_parser b)" "unparsed_bytes (end_parser b) = []" using b by (simp_all add: ends_def)
  then show ?thesis using ParseInput_ends [OF b aligned_Input, of fin]
    by (cases b) (auto simp: Parse_unparsed parser_ok_def)
qed

lemma Parse_append:
  assumes "parser_ok p" "length (unparsed_bytes p @ a @ s) \<le> 2 ^ 29"
  shows "HPackParser_Parse (a @ s) fin p =
    do { (e, q) \<leftarrow> HPackParser_Parse a False p; if e \<noteq> None then Some (e, q) else HPackParser_Parse s fin q }"
proof -
  let ?p = "p\<lparr>unparsed_bytes := []\<rparr>" and ?xs = "unparsed_bytes p @ a"
  have "parser_ok ?p" using assms(1) by (simp add: parser_ok_def)
  then obtain b where b: "ends ?xs ?p b" using input_ends [of ?xs] assms(2) by force
  have q: "parser_ok (end_parser b)" "unparsed_bytes (end_parser b) = []" using b by (simp_all add: ends_def)
  have whole: "HPackParser_Parse (a @ s) fin p = ParseInput (Input (?xs @ s)) fin ?p" by (simp add: Parse_unparsed)
  note more = ParseInput_more [OF b aligned_Input, where fin = fin and y = s]
  have first: "HPackParser_Parse a False p = Some (input_result False ?xs b)"
    using ParseInput_ends [OF b aligned_Input] by (simp add: Parse_unparsed)
  show ?thesis
  proof (cases b)
    case (Through n q)
    then show ?thesis using whole more first ParseInput_aligned [of s q] q assms(2) Parse_fresh [of q] by simp
  next
    case (Failed e q)
    then show ?thesis using whole more first by simp
  next
    case (Cut n r)
    have "length (drop n ?xs @ s) \<le> 2 ^ 29" using assms(2) by simp
    then have "HPackParser_Parse (a @ s) fin p = ParseInput (Input (drop n ?xs @ s)) fin r"
      using whole more Cut ParseInput_aligned [of "drop n ?xs @ s" r] q(1) by simp
    moreover have "HPackParser_Parse s fin (r\<lparr>unparsed_bytes := drop n ?xs\<rparr>) = ParseInput (Input (drop n ?xs @ s)) fin r"
    proof -
      have "r\<lparr>unparsed_bytes := []\<rparr> = r" using q(2) Cut by simp
      then show ?thesis by (simp add: Parse_unparsed)
    qed
    ultimately show ?thesis using first Cut by simp
  qed
qed

section \<open>Results\<close>

text \<open>
  C8: hpack_parser_total: whatever octets arrive, at most 2^29 of them with those kept from before,
  and however the last instruction is cut, the parser gives an error or goes on: every table lookup,
  eviction and string is defined, the loops end, and the state stays well formed, so that the next call is safe too.
\<close>

theorem hpack_parser_total:
  assumes "parser_ok p" "length (unparsed_bytes p @ s) \<le> 2 ^ 29"
  shows "\<exists>e q. HPackParser_Parse s fin p = Some (e, q) \<and> parser_ok q \<and> length (unparsed_bytes q) \<le> length (unparsed_bytes p @ s)"
  using assms by (rule Parse_total)

lemma new_parser_ok: "parser_ok (HPackParser b q d n l)"
  using HPackTable_ok by (auto simp: parser_ok_def HPackParser_def spec_ok_def spec_init_def)

theorem hpack_parser_total_witness:
  "\<exists>e q. HPackParser_Parse [0x40, 1, 97, 1, 98, 0xbe, 0x3f] True (HPackParser EndOfHeaders Priority_None 2 0 0) = Some (e, q) \<and>
     parser_ok q \<and> length (unparsed_bytes q) \<le> 7"
proof -
  let ?p = "HPackParser EndOfHeaders Priority_None 2 0 0"
  let ?s = "[0x40, 1, 97, 1, 98, 0xbe, 0x3f]"
  have l: "length (unparsed_bytes ?p @ ?s) = 7" by (simp add: HPackParser_def)
  show ?thesis using hpack_parser_total [OF new_parser_ok, of EndOfHeaders Priority_None 2 0 0 ?s True] unfolding l by simp
qed

text \<open>
  C5: hpack_parse_chunks: where the octets of a header block are split does not matter. Parsing
  the first part, which keeps the octets of an instruction that is cut, and then the second part gives the result and the
  state of parsing both at once; an error in the first part is the error of the whole.
\<close>

theorem hpack_parse_chunks:
  assumes "parser_ok p" "length (unparsed_bytes p @ a @ s) \<le> 2 ^ 29"
  shows "HPackParser_Parse (a @ s) fin p =
    do { (e, q) \<leftarrow> HPackParser_Parse a False p; if e \<noteq> None then Some (e, q) else HPackParser_Parse s fin q }"
  using assms by (rule Parse_append)

theorem hpack_parse_chunks_witness:
  "HPackParser_Parse ([0x40, 1, 97] @ [1, 98, 0xbe]) True (HPackParser EndOfHeaders Priority_None 2 0 0) =
    do { (e, q) \<leftarrow> HPackParser_Parse [0x40, 1, 97] False (HPackParser EndOfHeaders Priority_None 2 0 0);
         if e \<noteq> None then Some (e, q) else HPackParser_Parse [1, 98, 0xbe] True q }"
  by (rule hpack_parse_chunks [OF new_parser_ok]) (simp add: HPackParser_def)

end
