(* ===== verification/Grpc_Hpack_Wire.thy ===== *)
theory Grpc_Hpack_Wire
  imports Grpc_Hpack_Framing Grpc_Hpack_Chunks
begin

text \<open>
  The HPACK parser reads back the numbers, strings and instructions that the encoder writes: \<open>takes\<close> says that
  a reader takes some octets and gives a value whatever follows, \<open>emits\<close> that the parser reads what a function of
  the framer adds as an action, and \<open>sends\<close> that it brings the parser from one state to another.
\<close>

section \<open>Reading what has been written\<close>

text \<open>Whatever follows, the reader \<open>f\<close> takes the octets \<open>w\<close> and gives \<open>x\<close>.\<close>

definition takes :: "(hpack_input \<Rightarrow> ('a option \<times> hpack_input) option) \<Rightarrow> octets \<Rightarrow> 'a \<Rightarrow> bool" where
  "takes f w x \<longleftrightarrow> (\<forall>i y. fresh i \<longrightarrow> rest_of i = w @ y \<longrightarrow> f i = Some (Some x, Advance (length w) i))"

lemma takesI: "(\<And>i y. fresh i \<Longrightarrow> rest_of i = w @ y \<Longrightarrow> f i = Some (Some x, Advance (length w) i)) \<Longrightarrow> takes f w x"
  by (auto simp: takes_def)

lemma takesD: "takes f w x \<Longrightarrow> fresh i \<Longrightarrow> rest_of i = w @ y \<Longrightarrow> f i = Some (Some x, Advance (length w) i)"
  by (auto simp: takes_def)

lemma past_prefix: "fresh i \<Longrightarrow> rest_of i = w @ y \<Longrightarrow> fresh (Advance (length w) i) \<and> rest_of (Advance (length w) i) = y"
proof -
  assume i: "fresh i" "rest_of i = w @ y"
  have "length (rest_of i) = length (in_bytes i) - in_begin i" by (simp add: rest_of_def)
  then have "length w \<le> length (in_bytes i) - in_begin i" using i(2) by simp
  moreover have "drop (length w) (rest_of i) = y" using i(2) by simp
  ultimately show ?thesis using i(1) by (auto simp: fresh_def Advance_def rest_of_def add.commute)
qed

lemma takes_input:
  assumes "incremental f" "f (Input w) = Some (Some x, Advance (length w) (Input w))"
  shows "takes f w x"
proof (rule takesI)
  fix i y assume "fresh i" "rest_of i = w @ y"
  then show "f i = Some (Some x, Advance (length w) i)"
    using read_again [OF assms(1) Input_fresh(1) _ _ assms(2)] Input_fresh(2) by simp
qed

lemma takes_then:
  assumes "takes f w x" "takes (g x) v z"
  shows "takes (and_then f g) (w @ v) z"
proof (rule takesI)
  fix i y assume i: "fresh i" "rest_of i = (w @ v) @ y"
  have "rest_of i = w @ (v @ y)" using i(2) by simp
  from takesD [OF assms(1) i(1) this] takesD [OF assms(2)] past_prefix [OF i(1) this]
  show "and_then f g i = Some (Some z, Advance (length (w @ v)) i)" by (simp add: and_then_def add.commute)
qed

lemma takes_return: "takes (\<lambda>i. Some (Some x, i)) [] x"
  by (simp add: takes_def Advance_def)

lemma takes_finish: "takes f w x \<Longrightarrow> takes (and_then f (\<lambda>x i. Some (Some (h x), i))) w (h x)"
  using takes_then [where g = "\<lambda>x i. Some (Some (h x), i)" and v = "[]"] takes_return by fastforce

lemma takes_Next: "takes (\<lambda>i. Some (Next i)) [c] c"
  using Next_Cons(1) by (simp add: takes_def)

lemma takes_ParseUncompressed: "takes (\<lambda>i. Some (ParseUncompressed (length v) i)) v v"
proof (rule takesI)
  fix i y assume i: "fresh i" "rest_of i = v @ y"
  have "length (rest_of i) = remaining i" by (simp add: rest_of_def remaining_def)
  then have "\<not> remaining i < length v" using i(2) by simp
  moreover have "take (length v) (rest_of i) = v" using i(2) by simp
  ultimately show "Some (ParseUncompressed (length v) i) = Some (Some v, Advance (length v) i)"
    by (simp add: ParseUncompressed_def rest_of_def)
qed

section \<open>Numbers\<close>

lemma varint_written_length: "VarintWriter_Write p v prefix target = Some w \<Longrightarrow> length w = length target"
  by (auto simp: VarintWriter_Write_def VarintWriteTail_def write_septet_def Let_def store_eq_Some split: bind_splits if_splits)

text \<open>A number in the low bits of an octet.\<close>

lemma or_plus:
  fixes h c :: u8
  assumes "take_bit m h = 0" "unat c < 2 ^ m" "unat h + 2 ^ m \<le> 256"
  shows "unat (h OR c) = unat h + unat c"
proof -
  have c: "take_bit m c = c" using assms(2) by (rule take_bit_below)
  have "h AND take_bit m c = take_bit m h AND c" by (rule bit_word_eqI) (auto simp: bit_simps)
  then have "h AND c = 0" using c assms(1) by simp
  then have "h OR c = h + c" by (simp add: disjunctive_add_eq_or)
  moreover have "unat (h + c) = unat h + unat c" using assms(2,3) by (intro unat_add_below) simp
  ultimately show ?thesis by simp
qed

lemma varint_octets_cases:
  assumes "1 \<le> p" "p \<le> 8"
  obtains b where "varint_octets p v prefix = Some [b]" "v < MaxInVarintPrefix p" "b = prefix OR ucast v"
  | b r where "varint_octets p v prefix = Some (b # r)" "length r \<le> 5" "\<not> v < MaxInVarintPrefix p"
      "b = prefix OR ucast (MaxInVarintPrefix p)" "takes (\<lambda>i. Some (ParseVarint (MaxInVarintPrefix p) i)) r v"
proof -
  let ?M = "MaxInVarintPrefix p" and ?t = "replicate (varint_writer_length p v) (0 :: u8)"
  have l: "length ?t = varint_writer_length p v" by simp
  obtain b r where w: "varint_octets p v prefix = Some (b # r)"
    "if v < ?M then r = [] \<and> b = prefix OR ucast v
     else b = prefix OR ucast ?M \<and> ParseVarint ?M (Input (r @ [])) = (Some v, Advance (length r) (Input (r @ [])))"
    using varint_written [OF assms l, of prefix "[]"] unfolding varint_octets_def by blast
  show thesis
  proof (cases "v < ?M")
    case True
    then show ?thesis using that(1) w by simp
  next
    case False
    have "length (b # r) = varint_writer_length p v" using w(1) varint_written_length unfolding varint_octets_def by fastforce
    moreover have "varint_writer_length p v \<le> 6" using VarintLength_fits(2) by (auto simp: varint_writer_length_def)
    ultimately have "length r \<le> 5" by simp
    moreover have "takes (\<lambda>i. Some (ParseVarint ?M i)) r v"
      using w(2) False by (intro takes_input incremental_ParseVarint) simp
    ultimately show ?thesis using that(2) w False by simp
  qed
qed

lemma varint_prefixes: "MaxInVarintPrefix 1 = 127" "MaxInVarintPrefix (Suc 0) = 127" "MaxInVarintPrefix 3 = 31" "MaxInVarintPrefix 4 = 15"
  by code_simp+

lemma ucast_small: "unat (v :: u32) < 256 \<Longrightarrow> unat (ucast v :: u8) = unat v"
  by (simp add: unsigned_ucast_eq take_bit_nat_eq_self)

text \<open>What an octet is, by its number.\<close>

lemma octet_parts:
  fixes c :: u8
  shows "unat (drop_bit 4 c) = unat c div 16" "unat (c AND 0x7f) = unat c mod 128" "unat (c AND 0x1f) = unat c mod 32"
    "unat (c AND 0xf) = unat c mod 16" "c AND 0x80 = 0 \<longleftrightarrow> unat c < 128"
proof -
  show "unat (drop_bit 4 c) = unat c div 16" by (simp only: unat_drop_bit_eq) (simp add: drop_bit_eq_div)
  have "c AND 0x1f = take_bit 5 c" by (simp add: take_bit_eq_mask mask_eq_exp_minus_1)
  then show "unat (c AND 0x1f) = unat c mod 32" by (simp only: unsigned_take_bit_eq) (simp add: take_bit_eq_mod)
  show "unat (c AND 0x7f) = unat c mod 128" by (simp only: septet_mask unsigned_take_bit_eq) (simp add: take_bit_eq_mod)
  show "unat (c AND 0xf) = unat c mod 16" by (simp only: low_masks unsigned_take_bit_eq) (simp add: take_bit_eq_mod)
  have "c AND 0x80 = 0 \<longleftrightarrow> \<not> bit c 7" by (simp add: bit_iff_and_push_bit_not_eq_0)
  also have "\<dots> \<longleftrightarrow> \<not> bit (unat c) 7" by (simp add: bit_unsigned_iff)
  also have "\<dots> \<longleftrightarrow> even (unat c div 128)" by (simp only: bit_iff_odd) simp
  also have "\<dots> \<longleftrightarrow> unat c < 128"
  proof (cases "unat c < 128")
    case False
    then have "unat c div 128 = 1" using unat_lt_exp [of c] by (intro div_nat_eqI) simp_all
    then show ?thesis using False by simp
  qed simp
  finally show "c AND 0x80 = 0 \<longleftrightarrow> unat c < 128" .
qed

section \<open>Strings\<close>

lemma Next_first: "fresh i \<Longrightarrow> rest_of i = c # cs \<Longrightarrow> Next i = (Some c, Advance 1 i) \<and> fresh (Advance 1 i) \<and> rest_of (Advance 1 i) = cs"
  using Next_Cons fresh_Advance by metis

lemma takes_prefix:
  assumes w: "varint_octets 1 n (if huff then 0x80 else 0) = Some w"
  shows "takes (\<lambda>i. Some (ParseStringPrefix i)) w \<lparr>pfx_length = n, pfx_huff = huff\<rparr>"
proof (rule takesI)
  let ?h = "if huff then 0x80 else 0 :: u8"
  fix i y assume i: "fresh i" "rest_of i = w @ y"
  have hb: "take_bit 7 ?h = 0" "unat ?h + 2 ^ 7 \<le> 256" by simp_all
  have p: "1 \<le> (1 :: nat)" "1 \<le> (8 :: nat)" by simp_all
  show "Some (ParseStringPrefix i) = Some (Some \<lparr>pfx_length = n, pfx_huff = huff\<rparr>, Advance (length w) i)"
  proof (cases rule: varint_octets_cases [OF p, of n ?h])
    case (1 b)
    have n: "unat n < 127" using 1(2) by (simp add: varint_prefixes word_less_nat_alt)
    have b: "unat b = unat ?h + unat n" using or_plus [OF hb(1) _ hb(2), of "ucast n"] n 1(3) ucast_small [of n] by simp
    have "b AND 0x80 = 0 \<longleftrightarrow> \<not> huff" using octet_parts(5) [of b] b n by (cases huff) auto
    moreover have "unat (ucast b AND 0x7f :: u32) = unat n" using ucast_septet [of b] octet_parts(2) [of b] b n by (cases huff) auto
    then have "(ucast b AND 0x7f :: u32) = n" by simp
    moreover have "n \<noteq> 0x7f" using n by auto
    ultimately show ?thesis using Next_first [OF i(1), of b] i(2) 1(1) w by (auto simp: ParseStringPrefix_def Let_def)
  next
    case (2 b r)
    have "unat b = unat ?h + 127" using or_plus [OF hb(1) _ hb(2), of 127] 2(4) by (simp add: varint_prefixes)
    moreover have "unat (ucast b AND 0x7f :: u32) = unat b mod 128" using ucast_septet [of b] octet_parts(2) [of b] by simp
    ultimately have "b AND 0x80 = 0 \<longleftrightarrow> \<not> huff" "unat (ucast b AND 0x7f :: u32) = 127"
      using octet_parts(5) [of b] by (cases huff; simp)+
    moreover from this have "(ucast b AND 0x7f :: u32) = 0x7f" by (metis unat_eq_imp of_nat_numeral)
    ultimately show ?thesis using Next_first [OF i(1), of b] i(2) 2(1) w takesD [OF 2(5) [unfolded varint_prefixes], of "Advance 1 i" y]
      by (auto simp: ParseStringPrefix_def Let_def)
  qed
qed

lemma takes_String_Parse:
  assumes l: "length v < 2 ^ 32" and w: "varint_octets 1 (of_nat (length v)) 0 = Some w"
  shows "takes String_Parse (w @ v) v"
proof (rule takesI)
  fix i y assume i: "fresh i" "rest_of i = (w @ v) @ y"
  have n: "unat (of_nat (length v) :: u32) = length v" using l by (intro unat_of_nat_id) simp
  have r: "rest_of i = w @ (v @ y)" using i(2) by simp
  show "String_Parse i = Some (Some v, Advance (length (w @ v)) i)"
    using takesD [OF takes_prefix [where huff = False, unfolded if_True if_False, OF w] i(1) r] past_prefix [OF i(1) r] takesD [OF takes_ParseUncompressed, of "Advance (length w) i" v y] n
    by (simp add: String_Parse_def add.commute)
qed

text \<open>Binary values: as they are behind a zero, or as base64 and compressed.\<close>

lemma takes_true_binary:
  assumes l: "length v + 1 < 2 ^ 32" and w: "varint_octets 1 (of_nat (length v + 1)) 0 = Some w"
  shows "takes String_ParseBinary (w @ 0 # v) v"
proof (rule takesI)
  fix i y assume i: "fresh i" "rest_of i = (w @ 0 # v) @ y"
  let ?n = "of_nat (length v + 1) :: u32" and ?i = "Advance (length w) i"
  have n: "unat ?n = length v + 1" using l by (intro unat_of_nat_id) simp
  have pos: "0 < ?n" using n by (simp add: word_less_nat_alt)
  have n1: "unat (?n - 1) = length v" using unat_pred [OF pos] n by simp
  have r: "rest_of i = w @ (0 # v @ y)" using i(2) by simp
  have f: "fresh ?i" "rest_of ?i = 0 # v @ y" using past_prefix [OF i(1) r] by simp_all
  note nx = Next_first [OF f]
  have "peek ?i = Some 0" using Next_Cons(1) [OF f(2)] by (auto simp: peek_def Next_def split: if_splits)
  moreover have "ParseUncompressed (length v) (Advance 1 ?i) = (Some v, Advance (length v) (Advance 1 ?i))"
    using takesD [OF takes_ParseUncompressed, of "Advance 1 ?i" v y] nx by simp
  ultimately show "String_ParseBinary i = Some (Some v, Advance (length (w @ 0 # v)) i)"
    using takesD [OF takes_prefix [where huff = False, unfolded if_True if_False, OF w] i(1) r] n1 pos by (simp add: String_ParseBinary_def add.commute add.left_commute)
qed

lemma base64_wire:
  obtains e os where "grpc_chttp2_base64_encode v = Some e" "grpc_chttp2_base64_encode_and_huffman_compress v = Some os"
    "octet_bits os = pad_ones (code_bits e)" "list_all (\<lambda>c. c \<noteq> 0) e" "length os \<le> 2 * length v + 5"
proof -
  obtain n t e1 e2 where s: "length v = 3 * n + length t" "v = take (3 * n) v @ t" "length t < 3"
    "encode_triplets n v = Some e1" "length e1 = 4 * n" "encode_tail t = Some e2"
    "grpc_chttp2_base64_encode v = Some (e1 @ e2)" "list_all (\<lambda>c. c \<noteq> 0x3d) (e1 @ e2)"
    using encode_split [of v] .
  let ?e = "e1 @ e2"
  have c: "list_all (\<lambda>c. code_length c \<le> 11) ?e"
    using encode_triplets_symbols [OF s(4)] encode_tail_symbols [OF s(6,3)] s(1) by simp
  then have "list_all (\<lambda>c. code_length c \<le> 24) ?e" by (rule list.pred_mono_strong) simp
  then obtain os where os: "grpc_chttp2_huffman_compress ?e = Some os" "octet_bits os = pad_ones (code_bits ?e)"
    using huffman_compress_code by blast
  have "code_length 0 = 13" by code_simp
  then have "c \<noteq> 0" if "code_length c \<le> 11" for c using that by auto
  with c have nz: "list_all (\<lambda>c. c \<noteq> 0) ?e" by (auto elim!: list.pred_mono_strong simp del: list_all_append)
  have "length e2 \<le> 3" using s(3,6) by (cases t rule: encode_tail.cases) auto
  then have l: "length (code_bits ?e) \<le> 11 * (4 * n + 3)" using code_bits_at_most [OF c] s(5) by simp
  have "8 * length os = length (pad_ones (code_bits ?e))" using os(2) by (metis length_octet_bits)
  also have "\<dots> \<le> length (code_bits ?e) + 7" by (simp add: pad_ones_def)
  also have "\<dots> \<le> 44 * n + 40" using l by simp
  also have "\<dots> \<le> 8 * (2 * length v + 5)" using s(1) by simp
  finally have "length os \<le> 2 * length v + 5" by (simp only: mult_le_cancel1)
  then show thesis using that s(7) os nz by (simp add: fused_compress)
qed

lemma fold_binary_out: "list_all (\<lambda>c. c \<noteq> 0) e \<Longrightarrow> fold binary_out e (kUnsure, []) = (if e = [] then kUnsure else kBase64, e)"
proof (cases e)
  case (Cons c cs)
  have "fold binary_out cs (kBase64, d) = (kBase64, d @ cs)" for d by (induction cs arbitrary: d) auto
  moreover assume "list_all (\<lambda>c. c \<noteq> 0) e"
  ultimately show ?thesis using Cons by simp
qed simp

lemma takes_base64:
  assumes e: "grpc_chttp2_base64_encode v = Some e" "octet_bits os = pad_ones (code_bits e)" "list_all (\<lambda>c. c \<noteq> 0) e"
    and l: "length os < 2 ^ 32" and w: "varint_octets 1 (of_nat (length os)) 0x80 = Some w"
  shows "takes String_ParseBinary (w @ os) v"
proof (rule takesI)
  fix i y assume i: "fresh i" "rest_of i = (w @ os) @ y"
  let ?i = "Advance (length w) i"
  have n: "unat (of_nat (length os) :: u32) = length os" using l by (intro unat_of_nat_id) simp
  have r: "rest_of i = w @ (os @ y)" using i(2) by simp
  have f: "fresh ?i" "rest_of ?i = os @ y" using past_prefix [OF i(1) r] by simp_all
  have rem: "length os \<le> remaining ?i"
  proof -
    have "remaining ?i = length (rest_of ?i)" by (simp add: rest_of_def remaining_def)
    then show ?thesis using f(2) by simp
  qed
  have tk: "take (length os) (drop (in_begin ?i) (in_bytes ?i)) = os" using f(2) by (simp add: rest_of_def)
  have h: "ParseHuff (length os) ?i = Some (Some e, Advance (length os) ?i)" by (rule ParseHuff_decodes [OF e(2) tk rem])
  have u: "Unbase64Loop e = Some v" using Unbase64Loop_encoded [OF e(1), of 0] by simp
  moreover have "e = [] \<Longrightarrow> v = []" using u by (simp add: Unbase64Loop_def)
  ultimately show "String_ParseBinary i = Some (Some v, Advance (length (w @ os)) i)"
    using takesD [OF takes_prefix [where huff = True, unfolded if_True if_False, OF w] i(1) r] h n fold_binary_out [OF e(3)]
    by (simp add: String_ParseBinary_def Unbase64_def add.commute)
qed

section \<open>Instructions\<close>

definition field :: "octets \<Rightarrow> octets \<Rightarrow> memento" where
  "field key v = metadata_Parse key v (length key + length v + unat kEntryOverhead)"

definition short :: "octets \<Rightarrow> bool" where
  "short v \<longleftrightarrow> length v < 2 ^ 28"

lemma short_lengths: "short v \<Longrightarrow> length v < 2 ^ 32 \<and> length v + 1 < 2 ^ 32 \<and> 2 * length v + 5 < 2 ^ 32"
  by (simp add: short_def)

lemma varint_octets_some:
  assumes "1 \<le> p" "p \<le> 8"
  obtains w where "varint_octets p v prefix = Some w" "length w \<le> 6"
  by (cases rule: varint_octets_cases [OF assms, of v prefix]) (auto intro: that)

lemma emits_value:
  assumes "good_options opt" "short v"
  shows "\<exists>u. adds opt u (emit_value opt v) \<and> takes String_Parse u v"
proof -
  obtain w where w: "varint_octets 1 (of_nat (length v)) 0 = Some w" "length w \<le> 6" by (rule varint_octets_some [of 1]) simp_all
  have "adds opt (w @ v) (emit_value opt v)"
    using adds_then [OF adds_tiny [OF assms(1), of w] adds_slice [OF assms(1), of v]] w
    unfolding emit_value_def NonBinaryStringValue_WritePrefix_def by (simp del: One_nat_def)
  moreover have "takes String_Parse (w @ v) v" using takes_String_Parse w(1) short_lengths [OF assms(2)] by blast
  ultimately show ?thesis by blast
qed

lemma emits_key:
  assumes "good_options opt" "short key"
  shows "\<exists>u. adds opt (c # u) (emit_key opt c key) \<and> takes String_Parse u key"
proof -
  obtain w where w: "varint_octets 1 (of_nat (length key)) 0 = Some w" "length w \<le> 6" by (rule varint_octets_some [of 1]) simp_all
  have "adds opt ((c # w) @ key) (emit_key opt c key)"
    using adds_then [OF adds_tiny [OF assms(1), of "c # w"] adds_slice [OF assms(1), of key]] w
    unfolding emit_key_def StringKey_WritePrefix_def by (simp del: One_nat_def)
  moreover have "takes String_Parse (w @ key) key" using takes_String_Parse w(1) short_lengths [OF assms(2)] by blast
  ultimately show ?thesis by auto
qed

text \<open>The octets of a binary value: its prefix and its data.\<close>

lemma binary_wire:
  assumes "short v"
  obtains wv w where "GetWireValue v b True = Some wv" "BinaryStringValue_WritePrefix wv = Some w" "length w \<le> 7"
    "takes String_ParseBinary (w @ wv_data wv) v"
proof (cases b)
  case True
  obtain w where w: "varint_octets 1 (of_nat (length v + 1)) 0 = Some w" "length w \<le> 6" by (rule varint_octets_some [of 1]) simp_all
  have "takes String_ParseBinary (w @ 0 # v) v" using takes_true_binary w(1) short_lengths [OF assms] by blast
  then show thesis using that [of "WireValue 0 True v" "w @ [0]"] True w
    by (simp add: GetWireValue_def BinaryStringValue_WritePrefix_def WireValue_def del: One_nat_def)
next
  case False
  obtain e os where e: "grpc_chttp2_base64_encode v = Some e" "grpc_chttp2_base64_encode_and_huffman_compress v = Some os"
    "octet_bits os = pad_ones (code_bits e)" "list_all (\<lambda>c. c \<noteq> 0) e" "length os \<le> 2 * length v + 5" by (rule base64_wire)
  obtain w where w: "varint_octets 1 (of_nat (length os)) 0x80 = Some w" "length w \<le> 6" by (rule varint_octets_some [of 1]) simp_all
  have "length os < 2 ^ 32" using e(5) short_lengths [OF assms] by linarith
  then have "takes String_ParseBinary (w @ os) v" using takes_base64 [OF e(1,3,4) _ w(1)] by blast
  then show thesis using that [of "WireValue 0x80 False os" w] False w e(2)
    by (simp add: GetWireValue_def BinaryStringValue_WritePrefix_def WireValue_def del: One_nat_def)
qed

lemma emits_binary_value:
  assumes "good_options opt" "short v"
  shows "\<exists>u. adds opt u (emit_binary_value opt v) \<and> takes String_ParseBinary u v"
proof -
  obtain wv w where w: "GetWireValue v (use_true_binary_metadata opt) True = Some wv" "BinaryStringValue_WritePrefix wv = Some w"
    "length w \<le> 7" "takes String_ParseBinary (w @ wv_data wv) v" using binary_wire [OF assms(2)] .
  have "adds opt (w @ wv_data wv) (emit_binary_value opt v)"
    using adds_then [OF adds_tiny [OF assms(1), of w] adds_slice [OF assms(1), of "wv_data wv"]] w(1-3)
    unfolding emit_binary_value_def by simp
  then show ?thesis using w(4) by blast
qed

lemma value_reader: "ParseValueString False = String_Parse" "ParseValueString True = String_ParseBinary"
  by (simp_all add: fun_eq_iff ParseValueString_def)

text \<open>\<open>emits opt t F a\<close>: the parser reads what \<open>F\<close> adds as the action \<open>a\<close>.\<close>

definition emits :: "encode_options \<Rightarrow> hpack_table \<Rightarrow> (framer \<Rightarrow> framer option) \<Rightarrow> hp_action \<Rightarrow> bool" where
  "emits opt t F a \<longleftrightarrow> (\<exists>u. adds opt u F \<and> takes (read_action t) u a)"

lemma takes_action: "takes (read_op t c) u a \<Longrightarrow> takes (read_action t) (c # u) a"
  unfolding read_action_def using takes_then [OF takes_Next] by fastforce

lemma takes_literal:
  assumes "takes String_Parse u key" "takes (ParseValueString (ends_with_bin key)) u' v"
  shows "takes ParseLiteralKey (u @ u') (field key v)"
proof -
  let ?g = "\<lambda>key. and_then (ParseValueString (ends_with_bin key)) (\<lambda>content i. Some (Some (field key content), i))"
  have "ParseLiteralKey = and_then String_Parse ?g"
    by (auto simp: fun_eq_iff ParseLiteralKey_def and_then_def field_def split: option.split bind_split)
  moreover have "takes (?g key) u' (field key v)" by (rule takes_finish [OF assms(2)])
  ultimately show ?thesis using takes_then [OF assms(1), where g = ?g] by simp
qed

lemma read_literal_op: "read_op t 0x40 = and_then ParseLiteralKey (\<lambda>md i. Some (Some (Add_field md), i))"
    "read_op t 0 = and_then ParseLiteralKey (\<lambda>md i. Some (Some (Omit_field md), i))"
  using op_codes by (simp_all add: read_op_def word_le_nat_alt)

lemma emits_literal:
  assumes "good_options opt" "short key" "\<exists>u. adds opt u F \<and> takes (ParseValueString (ends_with_bin key)) u v"
  shows "emits opt t (\<lambda>f. do { f \<leftarrow> emit_key opt 0x40 key f; F f }) (Add_field (field key v))"
    and "emits opt t (\<lambda>f. do { f \<leftarrow> emit_key opt 0 key f; F f }) (Omit_field (field key v))"
proof -
  obtain u where u: "adds opt u F" "takes (ParseValueString (ends_with_bin key)) u v" using assms(3) by blast
  have "\<exists>x. adds opt (c # x) (\<lambda>f. do { f \<leftarrow> emit_key opt c key f; F f }) \<and> takes ParseLiteralKey x (field key v)" for c
  proof -
    obtain k where k: "adds opt (c # k) (emit_key opt c key)" "takes String_Parse k key" using emits_key [OF assms(1,2)] by blast
    show ?thesis using adds_then [OF k(1) u(1)] takes_literal [OF k(2) u(2)] by auto
  qed
  note this [of "0x40"] this [of 0]
  then show "emits opt t (\<lambda>f. do { f \<leftarrow> emit_key opt 0x40 key f; F f }) (Add_field (field key v))"
    "emits opt t (\<lambda>f. do { f \<leftarrow> emit_key opt 0 key f; F f }) (Omit_field (field key v))"
    unfolding emits_def using takes_action takes_finish read_literal_op by metis+
qed

lemma emits_fields:
  assumes "good_options opt" "short key" "short v"
  shows "\<not> ends_with_bin key \<Longrightarrow> emits opt t (EmitLitHdrWithNonBinaryStringKeyIncIdx opt key v) (Add_field (field key v))"
    and "\<not> ends_with_bin key \<Longrightarrow> emits opt t (EmitLitHdrWithNonBinaryStringKeyNotIdx opt key v) (Omit_field (field key v))"
    and "ends_with_bin key \<Longrightarrow> emits opt t (EmitLitHdrWithBinaryStringKeyIncIdx opt key v) (Add_field (field key v))"
    and "ends_with_bin key \<Longrightarrow> emits opt t (EmitLitHdrWithBinaryStringKeyNotIdx opt key v) (Omit_field (field key v))"
proof -
  have v: "\<exists>u. adds opt u (emit_value opt v) \<and> takes (ParseValueString (ends_with_bin key)) u v" if "\<not> ends_with_bin key"
    using that emits_value [OF assms(1,3)] by (simp add: value_reader)
  have b: "\<exists>u. adds opt u (emit_binary_value opt v) \<and> takes (ParseValueString (ends_with_bin key)) u v" if "ends_with_bin key"
    using that emits_binary_value [OF assms(1,3)] by (simp add: value_reader)
  show "\<not> ends_with_bin key \<Longrightarrow> emits opt t (EmitLitHdrWithNonBinaryStringKeyIncIdx opt key v) (Add_field (field key v))"
    and "\<not> ends_with_bin key \<Longrightarrow> emits opt t (EmitLitHdrWithNonBinaryStringKeyNotIdx opt key v) (Omit_field (field key v))"
    and "ends_with_bin key \<Longrightarrow> emits opt t (EmitLitHdrWithBinaryStringKeyIncIdx opt key v) (Add_field (field key v))"
    and "ends_with_bin key \<Longrightarrow> emits opt t (EmitLitHdrWithBinaryStringKeyNotIdx opt key v) (Omit_field (field key v))"
    unfolding EmitLitHdrWithNonBinaryStringKeyIncIdx_def EmitLitHdrWithNonBinaryStringKeyNotIdx_def
      EmitLitHdrWithBinaryStringKeyIncIdx_def EmitLitHdrWithBinaryStringKeyNotIdx_def
    by (rule emits_literal [OF assms(1,2)], erule v b)+
qed

lemma unat_by_number: "unat (c :: u8) = k \<Longrightarrow> c = of_nat k"
  by auto

lemma not_low_op:
  fixes c :: u8
  assumes "128 \<le> unat c"
  shows "\<not> drop_bit 4 c \<le> 1 \<and> drop_bit 4 c \<noteq> 2 \<and> drop_bit 4 c \<noteq> 3 \<and> \<not> drop_bit 4 c \<le> 7"
proof -
  have "8 \<le> unat (drop_bit 4 c)" using assms div_le_mono [of 128 "unat c" 16] by (simp only: octet_parts(1))
  then show ?thesis by (auto simp: word_le_nat_alt)
qed

lemma emits_indexed:
  assumes "good_options opt" "0 < n"
  shows "emits opt t (EmitIndexed opt n) (Use_index n)"
proof -
  have p: "1 \<le> (1 :: nat)" "1 \<le> (8 :: nat)" by simp_all
  have h: "take_bit 7 (0x80 :: u8) = 0" "unat (0x80 :: u8) + 2 ^ 7 \<le> 256" by simp_all
  obtain w where w: "varint_octets 1 n 0x80 = Some w" "length w \<le> 6" "takes (read_action t) w (Use_index n)"
  proof (cases rule: varint_octets_cases [OF p, of n "0x80"])
    case (1 b)
    have n: "unat n < 127" using 1(2) by (simp add: varint_prefixes word_less_nat_alt)
    have b: "unat b = 128 + unat n" using or_plus [OF h(1) _ h(2), of "ucast n"] n 1(3) ucast_small [of n] by simp
    have c: "b \<noteq> 0x80" "b \<noteq> 0xff" using b n assms(2) by (auto simp: word_less_nat_alt)
    have "unat (ucast (b AND 0x7f) :: u32) = unat (b AND 0x7f)"
      using unat_lt_exp [of "b AND 0x7f"] by (simp add: unsigned_ucast_eq take_bit_nat_eq_self)
    also have "\<dots> = unat n" using octet_parts(2) [of b] b n by simp
    finally have "read_op t b = (\<lambda>i. Some (Some (Use_index n), i))"
      using not_low_op [of b] b c by (simp add: read_op_def Let_def)
    then show ?thesis using that [of "[b]"] 1(1) takes_action [of t b "[]" "Use_index n"] takes_return [of "Use_index n"] by simp
  next
    case (2 b r)
    have "unat b = unat (0x80 :: u8) + unat (127 :: u8)" using or_plus [OF h(1) _ h(2), of 127] 2(4) by (simp add: varint_prefixes)
    then have "b = 0xff" by (auto dest: unat_by_number)
    then have "read_op t b = and_then (\<lambda>i. Some (ParseVarint 0x7f i)) (\<lambda>n i. Some (Some (Use_index n), i))"
      using not_low_op [of b] by (simp add: read_op_def Let_def)
    then show ?thesis using that [of "b # r"] 2(1,2) takes_action [of t b r "Use_index n"] takes_finish [OF 2(5) [unfolded varint_prefixes], of Use_index] by simp
  qed
  then show ?thesis using adds_tiny [OF assms(1), of w] unfolding emits_def EmitIndexed_def by (auto simp del: One_nat_def)
qed

lemma emits_resize:
  assumes "good_options opt"
  shows "emits opt t (AdvertiseTableSizeChange opt n) (Resize n)"
proof -
  have p: "1 \<le> (3 :: nat)" "3 \<le> (8 :: nat)" by simp_all
  have h: "take_bit 5 (0x20 :: u8) = 0" "unat (0x20 :: u8) + 2 ^ 5 \<le> 256" by simp_all
  obtain w where w: "varint_octets 3 n 0x20 = Some w" "length w \<le> 6" "takes (read_action t) w (Resize n)"
  proof (cases rule: varint_octets_cases [OF p, of n "0x20"])
    case (1 b)
    have n: "unat n < 31" using 1(2) by (simp add: varint_prefixes word_less_nat_alt)
    have b: "unat b = 32 + unat n" using or_plus [OF h(1) _ h(2), of "ucast n"] n 1(3) ucast_small [of n] by simp
    then have "unat (drop_bit 4 b) = (32 + unat n) div 16" by (simp only: octet_parts(1))
    then have "unat (drop_bit 4 b) = 2 \<or> unat (drop_bit 4 b) = 3" using n by auto
    then have op: "drop_bit 4 b = 2 \<or> drop_bit 4 b = 3" by (auto dest: unat_by_number)
    have c: "b \<noteq> 0x3f" using b n by auto
    have "unat (ucast (b AND 0x1f) :: u32) = unat (b AND 0x1f)"
      using unat_lt_exp [of "b AND 0x1f"] by (simp add: unsigned_ucast_eq take_bit_nat_eq_self)
    also have "\<dots> = unat n" using octet_parts(3) [of b] b n by simp
    finally have "read_op t b = (\<lambda>i. Some (Some (Resize n), i))"
      using op c by (auto simp: read_op_def Let_def word_le_nat_alt)
    then show ?thesis using that [of "[b]"] 1(1) takes_action [of t b "[]" "Resize n"] takes_return [of "Resize n"] by simp
  next
    case (2 b r)
    have "unat b = unat (0x20 :: u8) + unat (31 :: u8)" using or_plus [OF h(1) _ h(2), of 31] 2(4) by (simp add: varint_prefixes)
    then have b: "b = 0x3f" by (auto dest: unat_by_number)
    then have "read_op t b = and_then (\<lambda>i. Some (ParseVarint 0x1f i)) (\<lambda>n i. Some (Some (Resize n), i))"
      using op_codes by (simp add: read_op_def Let_def word_le_nat_alt)
    then show ?thesis using that [of "b # r"] 2(1,2) takes_action [of t b r "Resize n"] takes_finish [OF 2(5) [unfolded varint_prefixes], of Resize] by simp
  qed
  then show ?thesis using adds_tiny [OF assms(1), of w] unfolding emits_def AdvertiseTableSizeChange_def by auto
qed

lemma emits_indexed_key:
  assumes "good_options opt" "short v" "15 \<le> unat n" "Lookup_hpack n t = Some (Some elem)" "is_binary_header elem"
  shows "emits opt t (EmitLitHdrWithIndexedBinaryStringKeyNotIdx opt n v) (Omit_field (WithNewValue v elem))"
proof -
  have p: "1 \<le> (4 :: nat)" "4 \<le> (8 :: nat)" by simp_all
  obtain wv w where w: "GetWireValue v (use_true_binary_metadata opt) True = Some wv" "BinaryStringValue_WritePrefix wv = Some w"
    "length w \<le> 7" "takes String_ParseBinary (w @ wv_data wv) v" using binary_wire [OF assms(2)] .
  obtain b r where k: "varint_octets 4 n 0 = Some (b # r)" "length r \<le> 5" "b = 0x0f" "takes (\<lambda>i. Some (ParseVarint 0xf i)) r n"
  proof (cases rule: varint_octets_cases [OF p, of n "0x00"])
    case (1 b)
    then show ?thesis using assms(3) by (simp add: varint_prefixes word_less_nat_alt)
  next
    case (2 b r)
    then show ?thesis using that [of b r] by (simp add: varint_prefixes)
  qed
  have idx: "takes (ParseIdxKey t n) (w @ wv_data wv) (WithNewValue v elem)"
  proof -
    have "ParseIdxKey t n = and_then (ParseValueString True) (\<lambda>content i. Some (Some (WithNewValue content elem), i))"
      using assms(4,5) by (auto simp: fun_eq_iff ParseIdxKey_def and_then_def split: option.split bind_split)
    then show ?thesis using takes_finish [of String_ParseBinary] w(4) by (simp add: value_reader)
  qed
  have eq: "ParseVarIdxKey t 0xf = and_then (\<lambda>i. Some (ParseVarint 0xf i)) (ParseIdxKey t)"
    by (auto simp: fun_eq_iff ParseVarIdxKey_def and_then_def split: prod.split option.split)
  have "takes (ParseVarIdxKey t 0xf) (r @ w @ wv_data wv) (WithNewValue v elem)"
    unfolding eq by (rule takes_then [OF k(4), where g = "ParseIdxKey t", OF idx])
  moreover have "drop_bit 4 (0x0f :: u8) = 0" by code_simp
  then have "read_op t b = and_then (ParseVarIdxKey t 0xf) (\<lambda>md i. Some (Some (Omit_field md), i))"
    unfolding k(3) by (simp add: read_op_def Let_def)
  ultimately have "takes (read_action t) (b # r @ w @ wv_data wv) (Omit_field (WithNewValue v elem))"
    using takes_action takes_finish by metis
  moreover have "adds opt ((b # r @ w) @ wv_data wv) (EmitLitHdrWithIndexedBinaryStringKeyNotIdx opt n v)"
    using adds_then [OF adds_tiny [OF assms(1), of "b # r @ w"] adds_slice [OF assms(1), of "wv_data wv"]] w(1-3) k(1,2)
    unfolding EmitLitHdrWithIndexedBinaryStringKeyNotIdx_def by simp
  ultimately show ?thesis unfolding emits_def by auto
qed
section \<open>What the parser does with it\<close>

text \<open>Room for fields of \<open>n\<close> bytes in the buffer of the parser, and what receiving the fields \<open>mds\<close> changes.\<close>

definition room :: "nat \<Rightarrow> hpack_parser \<Rightarrow> bool" where
  "room n p \<longleftrightarrow> metadata_buffer p \<noteq> None \<and> unat (frame_length p) + n \<le> unat (metadata_size_limit p) \<and> hp_priority p = Priority_None"

definition received :: "memento list \<Rightarrow> hpack_parser \<Rightarrow> hpack_parser \<Rightarrow> bool" where
  "received mds p q \<longleftrightarrow> metadata_buffer q = map_option (\<lambda>b. b @ mds) (metadata_buffer p) \<and>
     unat (frame_length q) = unat (frame_length p) + total msize mds \<and>
     metadata_size_limit q = metadata_size_limit p \<and> hp_priority q = hp_priority p \<and> hp_boundary q = hp_boundary p \<and> unparsed_bytes q = unparsed_bytes p"

lemma received_Nil: "received [] p p"
  by (cases "metadata_buffer p") (simp_all add: received_def)

lemma received_append: "received xs p q \<Longrightarrow> received ys q r \<Longrightarrow> received (xs @ ys) p r"
  by (cases "metadata_buffer p") (simp_all add: received_def)

lemma room_received: "room n p \<Longrightarrow> received mds p q \<Longrightarrow> total msize mds \<le> n \<Longrightarrow> room (n - total msize mds) q"
  by (auto simp: room_def received_def)

definition deliver :: "memento \<Rightarrow> hpack_parser \<Rightarrow> hpack_parser" where
  "deliver md p = p\<lparr>metadata_buffer := map_option (\<lambda>b. b @ [md]) (metadata_buffer p), frame_length := frame_length p + transport_size md\<rparr>"

lemma EmitHeader_deliver:
  assumes "room n p" "msize md \<le> n"
  shows "EmitHeader md i p = (True, i, deliver md p) \<and> received [md] p (deliver md p)"
proof -
  obtain b where b: "metadata_buffer p = Some b" using assms(1) by (auto simp: room_def)
  have le: "unat (frame_length p) + msize md \<le> unat (metadata_size_limit p)" using assms by (simp add: room_def)
  then have s: "unat (frame_length p + transport_size md) = unat (frame_length p) + msize md"
    using unat_lt_exp [of "metadata_size_limit p"] by (intro unat_add_below) simp
  then have "\<not> frame_length p + transport_size md > metadata_size_limit p" using le by (simp add: word_less_nat_alt)
  then show ?thesis using b s by (simp add: EmitHeader_def deliver_def received_def)
qed

lemma deliver_simps [simp]:
  "hp_table (deliver md p) = hp_table p" "hp_priority (deliver md p) = hp_priority p" "metadata_buffer (deliver md p) = None \<longleftrightarrow> metadata_buffer p = None"
  by (simp_all add: deliver_def)

text \<open>The actions, when all goes well.\<close>

definition without_updates :: "hpack_parser \<Rightarrow> hpack_parser" where
  "without_updates p = p\<lparr>dynamic_table_updates_allowed := 0\<rparr>"

lemma without_updates_simps [simp]:
  "hp_table (without_updates p) = hp_table p" "hp_priority (without_updates p) = hp_priority p"
  "room n (without_updates p) = room n p" "received mds (without_updates p) q = received mds p q"
  by (simp_all add: without_updates_def room_def received_def)

lemma do_use:
  assumes "Lookup_hpack n (hp_table p) = Some (Some md)" "room k p" "msize md \<le> k"
  shows "do_action (Use_index n) i p = Some (True, i, deliver md (without_updates p)) \<and> received [md] p (deliver md (without_updates p))"
proof -
  have "room k (without_updates p)" using assms(2) by simp
  from EmitHeader_deliver [OF this assms(3)] show ?thesis using assms(1)
    by (simp add: FinishIndexed_def Let_def FinishHeaderOmitFromTable_def without_updates_def [symmetric])
qed

lemma do_omit:
  assumes "room k p" "msize md \<le> k"
  shows "do_action (Omit_field md) i p = Some (True, i, deliver md p) \<and> received [md] p (deliver md p)"
  using EmitHeader_deliver [OF assms] by (simp add: FinishHeaderOmitFromTable_def)

lemma do_add:
  assumes "Add_to_table md (hp_table p) = Some (True, t)" "room k p" "msize md \<le> k"
  shows "do_action (Add_field md) i p = Some (True, i, (deliver md p)\<lparr>hp_table := t\<rparr>) \<and> received [md] p ((deliver md p)\<lparr>hp_table := t\<rparr>)"
  using EmitHeader_deliver [OF assms(2,3)] assms(1) by (simp add: FinishHeaderAndAddToTable_def received_def)

lemma do_resize:
  assumes "SetCurrentTableSize n (hp_table p) = Some (True, t)" "dynamic_table_updates_allowed p \<noteq> 0"
  shows "\<exists>q. (\<forall>i. do_action (Resize n) i p = Some (True, i, q)) \<and> received [] p q \<and> hp_table q = t"
  using assms by (cases "metadata_buffer p") (simp_all add: FinishMaxTableSize_def Let_def received_def)

text \<open>\<open>sends opt F p q\<close>: what \<open>F\<close> adds takes the parser from \<open>p\<close> to \<open>q\<close>.\<close>

definition sends :: "encode_options \<Rightarrow> (framer \<Rightarrow> framer option) \<Rightarrow> hpack_parser \<Rightarrow> hpack_parser \<Rightarrow> bool" where
  "sends opt F p q \<longleftrightarrow> (\<exists>u. adds opt u F \<and> goes u p (Through (length u) q))"

lemma goes_longer: "goes u p (Through n q) \<Longrightarrow> goes (u @ v) p (Through n q)"
  by auto

lemma sends_then:
  assumes "sends opt F p q" "sends opt G q r"
  shows "sends opt (\<lambda>f. do { f \<leftarrow> F f; G f }) p r"
proof -
  obtain u v where uv: "adds opt u F" "goes u p (Through (length u) q)" "adds opt v G" "goes v q (Through (length v) r)"
    using assms unfolding sends_def by blast
  have "goes (u @ v) p (end_after (length u) (Through (length v) r))"
    by (rule goes_on [OF goes_longer [OF uv(2)]]) (simp add: uv(4) del: goes.simps)
  then have "goes (u @ v) p (Through (length (u @ v)) r)" by (simp only: end_after.simps length_append)
  then show ?thesis using adds_then [OF uv(1,3)] unfolding sends_def by blast
qed

lemma sends_none: "sends opt Some p p"
proof -
  have "adds opt [] Some" by (rule addsI) auto
  moreover have "goes [] p (Through (length ([] :: octets)) p)" using past_0 by auto
  ultimately show ?thesis unfolding sends_def by blast
qed

lemma sends_action:
  assumes e: "emits opt (hp_table p) F a" and p: "hp_priority p = Priority_None" "hp_priority q = Priority_None"
    and a: "\<And>i. do_action a i p = Some (True, i, q)"
  shows "sends opt F p q"
proof -
  obtain u where u: "adds opt u F" "takes (read_action (hp_table p)) u a" using e unfolding emits_def by blast
  have "u \<noteq> []"
  proof
    assume "u = []"
    then have "read_action (hp_table p) (Input []) = Some (Some a, Input [])"
      using takesD [OF u(2) Input_fresh(1) [of "[]"], of "[]"] Input_fresh(2) [of "[]"] by (simp add: Advance_def)
    then show False by (simp add: read_action_def and_then_def Next_def end_of_stream_def Input_def)
  qed
  then obtain c cs where c: "u = c # cs" by (cases u) auto
  have "ParseInputInner i p = ParseInputInner (past (length u) i) q" if i: "aligned (u @ y) i" for i y
  proof -
    have "read_action (hp_table p) i = Some (Some a, Advance (length u) i)"
      using takesD [OF u(2)] i by (simp add: aligned_def)
    then show ?thesis using loop_Cons [of c "cs @ y" i p] i c p a by (simp add: past_def ParseInputInner_def)
  qed
  then have "goes u p (Through (length u) q)" by simp
  then show ?thesis using u(1) unfolding sends_def by blast
qed

end
