(* ===== verification/Grpc_Hpack_Link.thy ===== *)
theory Grpc_Hpack_Link
  imports Grpc_Hpack_Wire
begin

text \<open>
  What keeps the HPACK compressor and the parser of the peer together: \<open>coupled\<close> says that their tables are in step,
  \<open>cached_ok\<close> that every index the compressor has kept is one of the field it is kept for, \<open>stands_for\<close> which field a
  header is sent as, and \<open>sent\<close> that a function of the compressor is understood by the parser.
\<close>

section \<open>The encoder and the parser in step\<close>

text \<open>The log says which field has which index; an index that is kept is in it, with a field that \<open>P\<close> describes.\<close>

type_synonym index_log = "(u32 \<times> memento) list"

definition kept :: "index_log \<Rightarrow> u32 \<Rightarrow> (memento \<Rightarrow> bool) \<Rightarrow> bool" where
  "kept log i P \<longleftrightarrow> i = 0 \<or> (\<exists>md. (i, md) \<in> set log \<and> P md)"

lemma kept_0 [simp]: "kept log 0 P"
  by (simp add: kept_def)

lemma kept_more: "kept log i P \<Longrightarrow> kept (x # log) i P"
  by (auto simp: kept_def)

lemma kept_new: "P md \<Longrightarrow> kept ((i, md) # log) i P"
  by (auto simp: kept_def)

text \<open>With a bound on the number of fields that have got an index.\<close>

definition coupled :: "nat \<Rightarrow> index_log \<Rightarrow> enc_table \<Rightarrow> hpack_parser \<Rightarrow> bool" where
  "coupled N log e p \<longleftrightarrow> (\<exists>S k. k \<le> N \<and> in_step S k (e, hp_table p, log))"

lemma coupled_mono: "coupled N log e p \<Longrightarrow> N \<le> M \<Longrightarrow> coupled M log e p"
  unfolding coupled_def by (meson order_trans)

lemma coupled_table: "hp_table q = hp_table p \<Longrightarrow> coupled N log e q = coupled N log e p"
  by (simp add: coupled_def)

lemma field_size: "short key \<Longrightarrow> short v \<Longrightarrow> msize (field key v) = length key + length v + 32"
proof -
  assume "short key" "short v"
  then have "length key + length v + 32 < 2 ^ 32" by (simp add: short_def)
  from unat_sum [OF this] show ?thesis by (simp add: field_def metadata_Parse_def kEntryOverhead_def)
qed

lemma kept_index:
  assumes l: "coupled N log e p" and i: "kept log i P" "ConvertableToDynamicIndex e i"
  obtains md where "P md" "Lookup_hpack (DynamicIndex e i) (hp_table p) = Some (Some md)" "62 \<le> unat (DynamicIndex e i)"
proof -
  have "i \<noteq> 0" using i(2) by (auto simp: ConvertableToDynamicIndex_def)
  then obtain md where "(i, md) \<in> set log" "P md" using i(1) by (auto simp: kept_def)
  moreover obtain S k where "in_step S k (e, hp_table p, log)" using l by (auto simp: coupled_def)
  ultimately show thesis using that in_step_lookup i(2) by blast
qed

lemma priority_none: "room n p \<Longrightarrow> hp_priority p = Priority_None"
  by (simp add: room_def)

text \<open>A field that is still in the table, a new field with an index, and one without.\<close>

lemma sends_hit:
  assumes o: "good_options opt" and l: "coupled N log e p" and r: "room n p"
    and i: "kept log i P" "ConvertableToDynamicIndex e i" and P: "\<And>md. P md \<Longrightarrow> msize md \<le> n"
  shows "\<exists>q md. sends opt (EmitIndexed opt (DynamicIndex e i)) p q \<and> P md \<and> coupled N log e q \<and> received [md] p q"
proof -
  obtain md where md: "P md" "Lookup_hpack (DynamicIndex e i) (hp_table p) = Some (Some md)" "62 \<le> unat (DynamicIndex e i)"
    by (rule kept_index [OF l i])
  let ?q = "deliver md (without_updates p)"
  have d: "do_action (Use_index (DynamicIndex e i)) j p = Some (True, j, ?q) \<and> received [md] p ?q" for j
    using do_use [OF md(2) r] P md(1) by blast
  have "0 < DynamicIndex e i" using md(3) by (simp add: word_less_nat_alt)
  then have "sends opt (EmitIndexed opt (DynamicIndex e i)) p ?q"
    using priority_none [OF r] by (intro sends_action [OF emits_indexed [OF o] _ _ conjunct1 [OF d]]) simp_all
  moreover have "coupled N log e ?q" using l coupled_table [of ?q p] by simp
  ultimately show ?thesis using md(1) conjunct2 [OF d] by blast
qed

lemma sends_static:
  assumes o: "good_options opt" and l: "coupled N log e p" and r: "room n p"
    and i: "0 < i" "i \<le> 61" "static_metadata ! (unat i - 1) = md" and m: "msize md \<le> n"
  shows "\<exists>q. sends opt (EmitIndexed opt i) p q \<and> coupled N log e q \<and> received [md] p q"
proof -
  let ?q = "deliver md (without_updates p)"
  have "length static_metadata = 61" by (simp add: static_metadata_def kStaticTable_def)
  then have "Lookup_hpack i (hp_table p) = Some (Some md)"
    using i unat_pred [OF i(1)] by (auto simp: Lookup_hpack_def kLastStaticEntry_def word_le_nat_alt word_less_nat_alt)
  from do_use [OF this r m] have d: "do_action (Use_index i) j p = Some (True, j, ?q) \<and> received [md] p ?q" for j .
  have "sends opt (EmitIndexed opt i) p ?q"
    using priority_none [OF r] by (intro sends_action [OF emits_indexed [OF o i(1)] _ _ conjunct1 [OF d]]) simp_all
  moreover have "coupled N log e ?q" using l coupled_table [of ?q p] by simp
  ultimately show ?thesis using conjunct2 [OF d] by blast
qed

lemma sends_omit:
  assumes e: "\<And>t. emits opt t F (Omit_field md)" and l: "coupled N log e p" and r: "room n p" "msize md \<le> n"
  shows "\<exists>q. sends opt F p q \<and> coupled N log e q \<and> received [md] p q"
proof -
  have d: "do_action (Omit_field md) j p = Some (True, j, deliver md p) \<and> received [md] p (deliver md p)" for j by (rule do_omit [OF r])
  then have "sends opt F p (deliver md p)" using priority_none [OF r(1)] by (intro sends_action [OF e _ _ conjunct1 [OF d]]) simp_all
  moreover have "coupled N log e (deliver md p)" using l coupled_table [of "deliver md p" p] by simp
  ultimately show ?thesis using conjunct2 [OF d] by blast
qed

lemma sends_add:
  assumes e: "\<And>t. emits opt t F (Add_field md)" and l: "coupled N log e p" and N: "N + 1 < 2 ^ 32"
    and m: "32 \<le> msize md" "msize md \<le> 65535" and r: "room n p" "msize md \<le> n"
  shows "\<exists>i e' q. AllocateIndex (msize md) e = Some (i, e') \<and> sends opt F p q \<and> coupled (N + 1) ((i, md) # log) e' q \<and> received [md] p q"
proof -
  obtain S k where S: "k \<le> N" "in_step S k (e, hp_table p, log)" using l by (auto simp: coupled_def)
  have "sendable (Add_op md)" "k + 1 < 2 ^ 32" using m N S(1) by simp_all
  from step_both_ok [OF S(2) this] obtain S' k' x where
    x: "step_both (Add_op md) (e, hp_table p, log) = Some x" "in_step S' k' x" "k' \<le> k + 1" by blast
  then obtain i e' t where a: "AllocateIndex (msize md) e = Some (i, e')" "Add_to_table md (hp_table p) = Some (True, t)"
    "x = (e', t, (i, md) # log)" by (auto simp: assert_c_def split: bind_splits if_splits)
  let ?q = "(deliver md p)\<lparr>hp_table := t\<rparr>"
  have d: "do_action (Add_field md) j p = Some (True, j, ?q) \<and> received [md] p ?q" for j by (rule do_add [OF a(2) r])
  then have "sends opt F p ?q" using priority_none [OF r(1)] by (intro sends_action [OF e _ _ conjunct1 [OF d]]) simp_all
  moreover have "coupled (N + 1) ((i, md) # log) e' ?q" using x(2,3) S(1) unfolding a(3) coupled_def
    by (intro exI [of _ S'] exI [of _ k']) simp
  ultimately show ?thesis using a(1) d by blast
qed

text \<open>A binary value behind a key that is still in the table.\<close>

lemma field_value: "short key \<Longrightarrow> short v \<Longrightarrow> WithNewValue v (field key v') = field key v"
  by (simp add: WithNewValue_def field_def metadata_Parse_def TransportSize_def kEntryOverhead_def)

lemma sends_key_hit:
  assumes o: "good_options opt" and l: "coupled N log e p" and r: "room n p"
    and i: "kept log i (\<lambda>md. \<exists>v. md = field key v)" "ConvertableToDynamicIndex e i"
    and k: "ends_with_bin key" "short key" "short v" "msize (field key v) \<le> n"
  shows "\<exists>q. sends opt (EmitLitHdrWithIndexedBinaryStringKeyNotIdx opt (DynamicIndex e i) v) p q \<and> coupled N log e q \<and> received [field key v] p q"
proof -
  obtain md where md: "\<exists>v. md = field key v" "Lookup_hpack (DynamicIndex e i) (hp_table p) = Some (Some md)" "62 \<le> unat (DynamicIndex e i)"
    by (rule kept_index [OF l i])
  then obtain v' where v': "md = field key v'" by blast
  have b: "is_binary_header md" using v' k(1) by (simp add: is_binary_header_def field_def metadata_Parse_def)
  let ?q = "deliver (field key v) p"
  have "emits opt (hp_table p) (EmitLitHdrWithIndexedBinaryStringKeyNotIdx opt (DynamicIndex e i) v) (Omit_field (field key v))"
    using emits_indexed_key [OF o k(3) _ md(2) b] md(3) field_value [OF k(2,3)] v' by simp
  note e = this
  have d: "do_action (Omit_field (field key v)) j p = Some (True, j, ?q) \<and> received [field key v] p ?q" for j
    by (rule do_omit [OF r k(4)])
  have "sends opt (EmitLitHdrWithIndexedBinaryStringKeyNotIdx opt (DynamicIndex e i) v) p ?q"
    using priority_none [OF r] by (intro sends_action [OF e _ _ conjunct1 [OF d]]) simp_all
  moreover have "coupled N log e ?q" using l coupled_table [of ?q p] by simp
  ultimately show ?thesis using conjunct2 [OF d] by blast
qed

section \<open>What a header field means\<close>

fun field_of :: "header \<Rightarrow> memento option" where
  "field_of (Field k v) = Some (field k v)"
| "field_of (Http_path v) = Some (field (octets_of '':path'') v)"
| "field_of (Http_authority v) = Some (field (octets_of '':authority'') v)"
| "field_of (Http_status s) = Some (field (octets_of '':status'') (gpr_ltoa (unat s)))"
| "field_of (Grpc_timeout d) = None"
| "field_of (Te v) = Some (field (octets_of ''te'') (octets_of ''trailers''))"
| "field_of (Content_type v) =
     (if v = Content_application_grpc then Some (field (octets_of ''content-type'') (octets_of ''application/grpc'')) else None)"
| "field_of (Http_scheme v) = Some (field (octets_of '':scheme'') (octets_of (if v = Scheme_http then ''http'' else ''https'')))"
| "field_of (Http_method v) =
     Some (field (octets_of '':method'') (octets_of (if v = Method_get then ''GET'' else if v = Method_post then ''POST'' else ''PUT'')))"
| "field_of (User_agent v) = Some (field (octets_of ''user-agent'') v)"
| "field_of (Grpc_status s) = Some (field (octets_of ''grpc-status'') (gpr_ltoa (unat s)))"
| "field_of (Grpc_encoding a) = map_option (\<lambda>s. field (octets_of ''grpc-encoding'') (octets_of s)) (CompressionAlgorithmAsString a)"
| "field_of (Grpc_accept_encoding a) = map_option (\<lambda>s. field (octets_of ''grpc-accept-encoding'') (octets_of s)) (ToString a)"
| "field_of (Grpc_tags_bin v) = Some (field (octets_of ''grpc-tags-bin'') v)"
| "field_of (Grpc_trace_bin v) = Some (field (octets_of ''grpc-trace-bin'') v)"
| "field_of (Grpc_message v) = (if v = [] then None else Some (field (octets_of ''grpc-message'') v))"

text \<open>For a timeout, one that has been sent before may stand, when it is in range.\<close>

definition timeout_fields :: "encode_env \<Rightarrow> int \<Rightarrow> memento list \<Rightarrow> bool" where
  "timeout_fields env d mds \<longleftrightarrow> (\<exists>t t' e. FromDuration (d - env_now env) = Some t \<and> (t' = t \<or> ratio_in_range env t t') \<and>
     Encode t' = Some e \<and> mds = [field (octets_of ''grpc-timeout'') e])"

definition stands_for :: "encode_env \<Rightarrow> header \<Rightarrow> memento list \<Rightarrow> bool" where
  "stands_for env h mds \<longleftrightarrow> (case h of Grpc_timeout d \<Rightarrow> timeout_fields env d mds
     | _ \<Rightarrow> mds = (case field_of h of None \<Rightarrow> [] | Some md \<Rightarrow> [md]))"

definition cost :: "header \<Rightarrow> nat" where
  "cost h = (case h of Grpc_timeout d \<Rightarrow> 54 | _ \<Rightarrow> case field_of h of None \<Rightarrow> 0 | Some md \<Rightarrow> msize md)"

text \<open>
  The fields that the encoder can send: it fails an assertion for some, and for a status without an entry in the
  static table it loses track of the table of the parser.
\<close>

fun good_header :: "encode_env \<Rightarrow> header \<Rightarrow> bool" where
  "good_header env (Field k v) \<longleftrightarrow> short k \<and> short v"
| "good_header env (Http_path v) \<longleftrightarrow> short v"
| "good_header env (Http_authority v) \<longleftrightarrow> short v"
| "good_header env (Http_status s) \<longleftrightarrow> s \<in> {200, 204, 206, 304, 400, 404, 500}"
| "good_header env (Grpc_timeout d) \<longleftrightarrow> i64 (d - env_now env) \<noteq> None \<and> FromDuration (d - env_now env) \<noteq> None"
| "good_header env (Te v) \<longleftrightarrow> v = Te_trailers"
| "good_header env (Content_type v) \<longleftrightarrow> True"
| "good_header env (Http_scheme v) \<longleftrightarrow> v \<noteq> Scheme_invalid"
| "good_header env (Http_method v) \<longleftrightarrow> v \<noteq> Method_invalid"
| "good_header env (User_agent v) \<longleftrightarrow> short v \<and> (length v + 42 \<le> MaxEntrySize \<or> MaxEntrySize < length v)"
| "good_header env (Grpc_status s) \<longleftrightarrow> True"
| "good_header env (Grpc_encoding a) \<longleftrightarrow> a < GRPC_COMPRESS_ALGORITHMS_COUNT"
| "good_header env (Grpc_accept_encoding a) \<longleftrightarrow> True"
| "good_header env (Grpc_tags_bin v) \<longleftrightarrow> length v + 45 \<le> MaxEntrySize"
| "good_header env (Grpc_trace_bin v) \<longleftrightarrow> length v + 46 \<le> MaxEntrySize"
| "good_header env (Grpc_message v) \<longleftrightarrow> short v"

definition good_env :: "encode_env \<Rightarrow> bool" where
  "good_env env \<longleftrightarrow> (\<forall>a b. is_equivalent env a b \<longrightarrow> a = b)"

text \<open>Every index the compressor has kept is one of the field it is kept for.\<close>

definition index_ok :: "index_log \<Rightarrow> octets \<Rightarrow> slice_index \<Rightarrow> bool" where
  "index_ok log key values \<longleftrightarrow> (\<forall>(v, i) \<in> set values. kept log i ((=) (field key v)))"

definition timeouts_ok :: "index_log \<Rightarrow> (timeout \<times> u32) list \<Rightarrow> bool" where
  "timeouts_ok log ts \<longleftrightarrow> (\<forall>(t, i) \<in> set ts. kept log i (\<lambda>md. \<exists>e. Encode t = Some e \<and> md = field (octets_of ''grpc-timeout'') e))"

definition cached_ok :: "index_log \<Rightarrow> hpack_compressor \<Rightarrow> bool" where
  "cached_ok log c \<longleftrightarrow>
     kept log (te_index c) ((=) (field (octets_of ''te'') (octets_of ''trailers''))) \<and>
     kept log (content_type_index c) ((=) (field (octets_of ''content-type'') (octets_of ''application/grpc''))) \<and>
     kept log (user_agent_index c) ((=) (field (octets_of ''user-agent'') (hc_user_agent c))) \<and>
     length (cached_grpc_status c) = kNumCachedGrpcStatusValues \<and>
     (\<forall>k < kNumCachedGrpcStatusValues. kept log (cached_grpc_status c ! k) ((=) (field (octets_of ''grpc-status'') (gpr_ltoa k)))) \<and>
     length (cached_grpc_encoding c) = GRPC_COMPRESS_ALGORITHMS_COUNT \<and>
     (\<forall>k < GRPC_COMPRESS_ALGORITHMS_COUNT. kept log (cached_grpc_encoding c ! k)
        (\<lambda>md. \<exists>s. CompressionAlgorithmAsString k = Some s \<and> md = field (octets_of ''grpc-encoding'') (octets_of s))) \<and>
     kept log (grpc_accept_encoding_index c)
       (\<lambda>md. \<exists>s. ToString (grpc_accept_encoding c) = Some s \<and> md = field (octets_of ''grpc-accept-encoding'') (octets_of s)) \<and>
     kept log (grpc_tags_bin_index c) (\<lambda>md. \<exists>v. md = field (octets_of ''grpc-tags-bin'') v) \<and>
     kept log (grpc_trace_bin_index c) (\<lambda>md. \<exists>v. md = field (octets_of ''grpc-trace-bin'') v) \<and>
     index_ok log (octets_of '':path'') (path_index c) \<and> index_ok log (octets_of '':authority'') (authority_index c) \<and>
     timeouts_ok log (previous_timeouts c)"

lemma kept_mono: "set log \<subseteq> set log' \<Longrightarrow> kept log i P \<Longrightarrow> kept log' i P"
  by (auto simp: kept_def)

lemma index_ok_mono: "set log \<subseteq> set log' \<Longrightarrow> index_ok log key vs \<Longrightarrow> index_ok log' key vs"
  unfolding index_ok_def using kept_mono by fastforce

lemma timeouts_ok_mono: "set log \<subseteq> set log' \<Longrightarrow> timeouts_ok log ts \<Longrightarrow> timeouts_ok log' ts"
  unfolding timeouts_ok_def using kept_mono by fastforce

lemma cached_ok_mono: "set log \<subseteq> set log' \<Longrightarrow> cached_ok log c \<Longrightarrow> cached_ok log' c"
  unfolding cached_ok_def using kept_mono [of log log'] index_ok_mono [of log log'] timeouts_ok_mono [of log log'] by simp

lemma cached_ok_table [simp]:
  "cached_ok log (c\<lparr>hc_table := t\<rparr>) = cached_ok log c" "cached_ok log (c\<lparr>advertise_table_size_change := b\<rparr>) = cached_ok log c"
  by (simp_all add: cached_ok_def)

lemma new_cached_ok: "cached_ok [] HPackCompressor"
  by (simp add: cached_ok_def HPackCompressor_def kNumCachedGrpcStatusValues_def index_ok_def timeouts_ok_def)

section \<open>Fields with an index\<close>

text \<open>
  A function on the encoder's table: it adds to the payload in a way that does not depend on the framer, and what it
  returns is described by \<open>Q\<close>, with the new log.
\<close>

definition table_step :: "encode_options \<Rightarrow> nat \<Rightarrow> index_log \<Rightarrow> hpack_parser \<Rightarrow> enc_table \<Rightarrow> (memento \<Rightarrow> bool) \<Rightarrow>
    (enc_table \<times> framer \<Rightarrow> ('a \<times> enc_table \<times> framer) option) \<Rightarrow> (index_log \<Rightarrow> 'a \<Rightarrow> bool) \<Rightarrow> bool" where
  "table_step opt N log p e P H Q \<longleftrightarrow> (\<exists>x e' F q log' md. (\<forall>f. H (e, f) = do { f \<leftarrow> F f; Some (x, e', f) }) \<and> sends opt F p q \<and>
     coupled (N + 1) log' e' q \<and> received [md] p q \<and> P md \<and> set log \<subseteq> set log' \<and> Q log' x)"

lemma table_stepI:
  assumes "\<And>f. H (e, f) = do { f \<leftarrow> F f; Some (x, e', f) }" "sends opt F p q" "coupled (N + 1) log' e' q" "received [md] p q" "P md"
    "set log \<subseteq> set log'" "Q log' x"
  shows "table_step opt N log p e P H Q"
  unfolding table_step_def using assms by blast

definition can_add :: "octets \<Rightarrow> octets \<Rightarrow> bool" where
  "can_add key v \<longleftrightarrow> short key \<and> short v \<and> length key + length v + 32 \<le> MaxEntrySize"

lemma sends_new:
  assumes o: "good_options opt" and l: "coupled N log e p" "N + 1 < 2 ^ 32" and k: "can_add key v"
    and r: "room n p" "msize (field key v) \<le> n"
  shows "\<exists>i e' q. AllocateIndex (length key + length v + 32) e = Some (i, e') \<and>
     sends opt (if ends_with_bin key then EmitLitHdrWithBinaryStringKeyIncIdx opt key v else EmitLitHdrWithNonBinaryStringKeyIncIdx opt key v) p q \<and>
     coupled (N + 1) ((i, field key v) # log) e' q \<and> received [field key v] p q"
proof -
  have s: "short key" "short v" "length key + length v + 32 \<le> MaxEntrySize" using k by (simp_all add: can_add_def)
  note m = field_size [OF s(1,2)]
  have e: "emits opt t (if ends_with_bin key then EmitLitHdrWithBinaryStringKeyIncIdx opt key v else EmitLitHdrWithNonBinaryStringKeyIncIdx opt key v)
      (Add_field (field key v))" for t
    using emits_fields(1,3) [OF o s(1,2)] by simp
  have "32 \<le> msize (field key v)" "msize (field key v) \<le> 65535" using m s(3) by (simp_all add: MaxEntrySize_def)
  from sends_add [OF e l this r] show ?thesis by (simp only: m)
qed

lemma overhead: "unat kEntryOverhead = 32"
  by (simp add: kEntryOverhead_def)

lemma always_indexed:
  assumes o: "good_options opt" and l: "coupled N log e p" "N + 1 < 2 ^ 32" and r: "room n p" "msize (field key v) \<le> n"
    and i: "kept log index ((=) (field key v))"
    and k: "can_add key v" "\<not> ends_with_bin key" "unat tlen = length key + length v + 32"
  shows "table_step opt N log p e ((=) (field key v)) (EncodeAlwaysIndexed opt index key v tlen) (\<lambda>log' index. kept log' index ((=) (field key v)))"
proof (cases "ConvertableToDynamicIndex e index")
  case True
  obtain q where q: "sends opt (EmitIndexed opt (DynamicIndex e index)) p q" "coupled N log e q" "received [field key v] p q"
    using sends_hit [OF o l(1) r(1) i True] r(2) by auto
  show ?thesis
    using coupled_mono [OF q(2), of "N + 1"] i True
    by (intro table_stepI [OF _ q(1) _ q(3)]) (auto simp: EncodeAlwaysIndexed_def)
next
  case False
  obtain j e' q where q: "AllocateIndex (length key + length v + 32) e = Some (j, e')"
     "sends opt (EmitLitHdrWithNonBinaryStringKeyIncIdx opt key v) p q"
     "coupled (N + 1) ((j, field key v) # log) e' q" "received [field key v] p q"
    using sends_new [OF o l k(1) r] k(2) by auto
  show ?thesis using False q(1) k(3) kept_new [of "(=) (field key v)" "field key v" j log]
    by (intro table_stepI [OF _ q(2,3,4)]) (auto simp: EncodeAlwaysIndexed_def)
qed

lemma indexed_key:
  assumes o: "good_options opt" and l: "coupled N log e p" "N + 1 < 2 ^ 32" and r: "room n p" "msize (field key v) \<le> n"
    and i: "kept log index (\<lambda>md. \<exists>v. md = field key v)" and k: "can_add key v" "ends_with_bin key"
  shows "table_step opt N log p e ((=) (field key v)) (EncodeIndexedKeyWithBinaryValue opt index key v)
    (\<lambda>log' index. kept log' index (\<lambda>md. \<exists>v. md = field key v))"
proof (cases "ConvertableToDynamicIndex e index")
  case True
  have s: "short key" "short v" using k(1) by (simp_all add: can_add_def)
  obtain q where q: "sends opt (EmitLitHdrWithIndexedBinaryStringKeyNotIdx opt (DynamicIndex e index) v) p q" "coupled N log e q" "received [field key v] p q"
    using sends_key_hit [OF o l(1) r(1) i True k(2) s r(2)] by blast
  show ?thesis
    using coupled_mono [OF q(2), of "N + 1"] i True
    by (intro table_stepI [OF _ q(1) _ q(3)]) (auto simp: EncodeIndexedKeyWithBinaryValue_def)
next
  case False
  obtain j e' q where q: "AllocateIndex (length key + length v + 32) e = Some (j, e')"
     "sends opt (EmitLitHdrWithBinaryStringKeyIncIdx opt key v) p q"
     "coupled (N + 1) ((j, field key v) # log) e' q" "received [field key v] p q"
    using sends_new [OF o l k(1) r] k(2) by auto
  show ?thesis using False q(1) kept_new [of "\<lambda>md. \<exists>v. md = field key v" "field key v" j log]
    by (intro table_stepI [OF _ q(2,3,4)]) (auto simp: EncodeIndexedKeyWithBinaryValue_def overhead)
qed

lemma set_swap_entries: "j < length xs \<Longrightarrow> k < length xs \<Longrightarrow> set (swap_entries j k xs) \<subseteq> set xs"
  unfolding swap_entries_def by (intro set_update_subsetI) simp_all

lemma set_drop_expired: "set (drop_expired t xs) \<subseteq> set xs"
  unfolding drop_expired_def using set_dropWhileD by fastforce

lemma index_ok_subset: "index_ok log key vs \<Longrightarrow> set ws \<subseteq> set vs \<Longrightarrow> index_ok log key ws"
  by (auto simp: index_ok_def)

lemma index_ok_update: "index_ok log key vs \<Longrightarrow> kept log i ((=) (field key v)) \<Longrightarrow> index_ok log key (vs[k := (v, i)])"
  using set_update_subset_insert [of vs k "(v, i)"] by (fastforce simp: index_ok_def)

lemma emit_to:
  assumes o: "good_options opt" and l: "coupled N log e p" "N + 1 < 2 ^ 32" and r: "room n p" "msize (field key v) \<le> n"
    and i: "index_ok log key values" and k: "short key" "short v" "\<not> ends_with_bin key"
  shows "table_step opt N log p e ((=) (field key v)) (EmitTo opt key v values) (\<lambda>log' values. index_ok log' key values)"
proof -
  have "length key + length v + 32 < 2 ^ 32" using k(1,2) by (simp add: short_def)
  then have "unat (of_nat (length key + length v + unat kEntryOverhead) :: u32) = length key + length v + 32"
    unfolding overhead by (rule unat_sum)
  then have tlen: "unat (of_nat (length key) + of_nat (length v) + kEntryOverhead :: u32) = length key + length v + 32" by simp
  consider "MaxEntrySize < length key + length v + 32" | "length key + length v + 32 \<le> MaxEntrySize" "find_value v values = None"
    | j where "length key + length v + 32 \<le> MaxEntrySize" "find_value v values = Some j" by fastforce
  then show ?thesis
  proof cases
    case 1
    obtain q where q: "sends opt (EmitLitHdrWithNonBinaryStringKeyNotIdx opt key v) p q" "coupled N log e q" "received [field key v] p q"
      using sends_omit [OF emits_fields(2) [OF o k] l(1) r] by blast
    show ?thesis using 1 i coupled_mono [OF q(2), of "N + 1"] by (intro table_stepI [OF _ q(1) _ q(3)]) (auto simp: EmitTo_def tlen Let_def)
  next
    case 2
    then have "can_add key v" using k by (simp add: can_add_def)
    then obtain j e' q where q: "AllocateIndex (length key + length v + 32) e = Some (j, e')"
       "sends opt (EmitLitHdrWithNonBinaryStringKeyIncIdx opt key v) p q"
       "coupled (N + 1) ((j, field key v) # log) e' q" "received [field key v] p q"
      using sends_new [OF o l _ r] k(3) by auto
    have "index_ok ((j, field key v) # log) key (values @ [(v, j)])"
      using index_ok_mono [OF _ i, of "(j, field key v) # log"] kept_new [of "(=) (field key v)" "field key v" j log] by (auto simp: index_ok_def)
    then show ?thesis using 2 q(1) by (intro table_stepI [OF _ q(2,3,4)]) (auto simp: EmitTo_def tlen Let_def)
  next
    case (3 j)
    have j: "j < length values" "fst (values ! j) = v" using 3(2) by (auto simp: find_value_def find_Some_iff)
    let ?w = "\<lambda>vs t. drop_expired t (if j \<noteq> 0 then swap_entries (j - 1) j vs else vs)"
    have w: "index_ok log' key (?w vs t)" if "index_ok log' key vs" "length vs = length values" for log' vs t
      using that set_drop_expired set_swap_entries [of "j - 1" vs j] j(1) by (intro index_ok_subset [OF that(1)]) (simp, fastforce)
    have kj: "kept log (snd (values ! j)) ((=) (field key v))"
      using i nth_mem [OF j(1)] j(2) by (auto simp: index_ok_def case_prod_beta)
    show ?thesis
    proof (cases "ConvertableToDynamicIndex e (snd (values ! j))")
      case True
      obtain q where q: "sends opt (EmitIndexed opt (DynamicIndex e (snd (values ! j)))) p q" "coupled N log e q" "received [field key v] p q"
        using sends_hit [OF o l(1) r(1) kj True] r(2) by auto
      show ?thesis using 3 True w [OF i] coupled_mono [OF q(2), of "N + 1"]
        by (intro table_stepI [OF _ q(1) _ q(3), where x = "?w values e"]) (auto simp: EmitTo_def tlen Let_def)
    next
      case False
      have "can_add key v" using k 3(1) by (simp add: can_add_def)
      then obtain h e' q where q: "AllocateIndex (length key + length v + 32) e = Some (h, e')"
         "sends opt (EmitLitHdrWithNonBinaryStringKeyIncIdx opt key v) p q"
         "coupled (N + 1) ((h, field key v) # log) e' q" "received [field key v] p q"
        using sends_new [OF o l _ r] k(3) by auto
      have "index_ok ((h, field key v) # log) key (values[j := (v, h)])"
        using index_ok_mono [OF _ i, of "(h, field key v) # log"] kept_new [of "(=) (field key v)" "field key v" h log]
        by (intro index_ok_update) auto
      from w [OF this] show ?thesis using 3 False q(1)
        by (intro table_stepI [OF _ q(2,3,4), where x = "?w (values[j := (v, h)]) e'"]) (auto simp: EmitTo_def tlen Let_def)
    qed
  qed
qed

section \<open>Every header field is understood\<close>

definition sent :: "encode_options \<Rightarrow> nat \<Rightarrow> hpack_parser \<Rightarrow> hpack_compressor \<Rightarrow> (encoder \<Rightarrow> encoder option) \<Rightarrow> (memento list \<Rightarrow> bool) \<Rightarrow> nat \<Rightarrow> bool" where
  "sent opt N p c H P n \<longleftrightarrow> (\<exists>c' F q log' mds. (\<forall>f. H (c, f) = do { f \<leftarrow> F f; Some (c', f) }) \<and> sends opt F p q \<and>
     coupled (N + 1) log' (hc_table c') q \<and> cached_ok log' c' \<and> received mds p q \<and> P mds \<and> total msize mds \<le> n \<and>
     advertise_table_size_change c' = advertise_table_size_change c)"

lemma sentI:
  assumes "\<And>f. H (c, f) = do { f \<leftarrow> F f; Some (c', f) }" "sends opt F p q" "coupled (N + 1) log' (hc_table c') q" "cached_ok log' c'"
    "received mds p q" "P mds" "total msize mds \<le> n" "advertise_table_size_change c' = advertise_table_size_change c"
  shows "sent opt N p c H P n"
  unfolding sent_def using assms by blast

lemma sent_framer:
  assumes q: "\<exists>q. sends opt F p q \<and> coupled N log (hc_table c) q \<and> received [md] p q" and c: "cached_ok log c"
    and H: "\<And>f. H (c, f) = on_framer F (c, f)" and P: "P [md]" "msize md \<le> n"
  shows "sent opt N p c H P n"
proof -
  obtain q where q: "sends opt F p q" "coupled N log (hc_table c) q" "received [md] p q" using q by blast
  show ?thesis using H coupled_mono [OF q(2), of "N + 1"] c P by (intro sentI [OF _ q(1) _ _ q(3)]) (auto simp: on_framer_def)
qed

lemma sent_nothing: "coupled N log (hc_table c) p \<Longrightarrow> cached_ok log c \<Longrightarrow> P [] \<Longrightarrow> (\<And>f. H (c, f) = Some (c, f)) \<Longrightarrow> sent opt N p c H P n"
  using coupled_mono [of N log "hc_table c" p "N + 1"] by (intro sentI [OF _ sends_none _ _ received_Nil]) auto

lemma sent_table:
  assumes s: "table_step opt N log p (hc_table c) ((=) md) H Q" and c: "cached_ok log c"
    and H: "\<And>f. H' (c, f) = do { (x, t, f) \<leftarrow> H (hc_table c, f); Some (upd x t, f) }"
    and u: "\<And>x t log'. cached_ok log' c \<Longrightarrow> Q log' x \<Longrightarrow> cached_ok log' (upd x t) \<and> hc_table (upd x t) = t \<and>
        advertise_table_size_change (upd x t) = advertise_table_size_change c"
    and P: "P [md]" "msize md \<le> n"
  shows "sent opt N p c H' P n"
proof -
  obtain x e' F q log' where t: "\<forall>f. H (hc_table c, f) = do { f \<leftarrow> F f; Some (x, e', f) }" "sends opt F p q"
     "coupled (N + 1) log' e' q" "received [md] p q" "set log \<subseteq> set log'" "Q log' x"
    using s unfolding table_step_def by blast
  note u' = u [OF cached_ok_mono [OF t(5) c] t(6), of e']
  show ?thesis using t(1,3) H u' P by (intro sentI [OF _ t(2) _ _ t(4), where c' = "upd x e'"]) (auto simp: bind_assoc)
qed

lemma length_octets_of [simp]: "length (octets_of s) = length s"
  by (simp add: octets_of_def)

lemma plain_keys: "list_all (\<lambda>s. \<not> ends_with_bin (octets_of s)) ['':path'', '':authority'', '':status'', '':method'', ''te'', ''content-type'',
    ''grpc-timeout'', ''user-agent'', ''grpc-status'', ''grpc-encoding'', ''grpc-accept-encoding'', ''grpc-message'']"
  and bin_keys: "ends_with_bin (octets_of ''grpc-tags-bin'')" "ends_with_bin (octets_of ''grpc-trace-bin'')"
  by code_simp+

lemma short_lit: "length s < 2 ^ 28 \<Longrightarrow> short (octets_of s)"
  by (simp add: short_def)

lemma can_addI: "short key \<Longrightarrow> length key + length v + 32 \<le> MaxEntrySize \<Longrightarrow> can_add key v"
  by (simp add: can_add_def short_def MaxEntrySize_def)

lemma msize_known: "length s < 2 ^ 28 \<Longrightarrow> length v < 2 ^ 28 \<Longrightarrow> msize (field (octets_of s) v) = length s + length v + 32"
  using field_size [of "octets_of s" v] by (simp add: short_def)

lemma ltoa_length: "n < 10 ^ k \<Longrightarrow> length (ltoa_loop n) \<le> k"
proof (induction k arbitrary: n)
  case 0
  then show ?case by (subst ltoa_loop.simps) simp
next
  case (Suc k)
  then have "n div 10 < 10 ^ k" by (simp add: less_mult_imp_div_less mult.commute)
  from Suc.IH [OF this] show ?case by (subst ltoa_loop.simps) simp
qed

lemma gpr_ltoa_length: "length (gpr_ltoa (unat (v :: u32))) \<le> 10"
  using ltoa_length [of "unat v" 10] unat_lt_exp [of v] by (simp add: gpr_ltoa_def)

lemma MakeMemento_field: "MakeMemento (k, v) = field (octets_of k) (octets_of v)"
  by (simp add: MakeMemento_def field_def metadata_Parse_def)

lemma ltoa_statuses: "gpr_ltoa 200 = octets_of ''200''" "gpr_ltoa 204 = octets_of ''204''" "gpr_ltoa 206 = octets_of ''206''"
    "gpr_ltoa 304 = octets_of ''304''" "gpr_ltoa 400 = octets_of ''400''" "gpr_ltoa 404 = octets_of ''404''" "gpr_ltoa 500 = octets_of ''500''"
  by code_simp+

lemma static_field: "i < 61 \<Longrightarrow> static_metadata ! i = field (octets_of (fst (kStaticTable ! i))) (octets_of (snd (kStaticTable ! i)))"
proof -
  assume "i < 61"
  moreover have "length kStaticTable = 61" by (simp add: kStaticTable_def)
  ultimately show ?thesis by (simp add: static_metadata_def MakeMemento_field [symmetric])
qed

lemma static_keys: "map ((!) kStaticTable) [1, 2, 5, 6] = [('':method'', ''GET''), ('':method'', ''POST''), ('':scheme'', ''http''), ('':scheme'', ''https'')]"
    "map ((!) kStaticTable) [7, 8, 9, 10, 11, 12, 13] =
      [('':status'', ''200''), ('':status'', ''204''), ('':status'', ''206''), ('':status'', ''304''), ('':status'', ''400''), ('':status'', ''404''), ('':status'', ''500'')]"
  by code_simp+

lemma sent_static:
  assumes o: "good_options opt" and l: "coupled N log (hc_table c) p" and r: "room n p"
    and i: "0 < i" "i \<le> 61" "static_metadata ! (unat i - 1) = md" and m: "msize md \<le> n"
    and c: "cached_ok log c" and H: "\<And>f. H (c, f) = on_framer (EmitIndexed opt i) (c, f)" and P: "P [md]"
  shows "sent opt N p c H P n"
  by (rule sent_framer [OF sends_static [OF o l r i m] c H]) (use P m in simp_all)

lemma sent_omit:
  assumes o: "good_options opt" and l: "coupled N log (hc_table c) p" and r: "room n p" "msize (field key v) \<le> n"
    and c: "cached_ok log c" and k: "short key" "short v" and P: "P [field key v]"
    and H: "\<And>f. H (c, f) = on_framer (if ends_with_bin key then EmitLitHdrWithBinaryStringKeyNotIdx opt key v
      else EmitLitHdrWithNonBinaryStringKeyNotIdx opt key v) (c, f)"
  shows "sent opt N p c H P n"
proof (rule sent_framer [OF _ c H])
  have "emits opt t (if ends_with_bin key then EmitLitHdrWithBinaryStringKeyNotIdx opt key v else EmitLitHdrWithNonBinaryStringKeyNotIdx opt key v)
      (Omit_field (field key v))" for t
    using emits_fields(2,4) [OF o k] by simp
  from sends_omit [OF this l r] show "\<exists>q. sends opt (if ends_with_bin key then EmitLitHdrWithBinaryStringKeyNotIdx opt key v
      else EmitLitHdrWithNonBinaryStringKeyNotIdx opt key v) p q \<and> coupled N log (hc_table c) q \<and> received [field key v] p q" .
qed (use r P in simp_all)

lemmas sent_defs = stands_for_def cost_def

text \<open>A step of the proof for each overload: what is given, for a header that stands for the field \<open>md\<close>.\<close>

definition ready :: "encode_options \<Rightarrow> nat \<Rightarrow> index_log \<Rightarrow> hpack_parser \<Rightarrow> hpack_compressor \<Rightarrow> nat \<Rightarrow> bool" where
  "ready opt N log p c n \<longleftrightarrow> good_options opt \<and> coupled N log (hc_table c) p \<and> N + 1 < 2 ^ 32 \<and> cached_ok log c \<and> room n p"

lemma readyD:
  assumes "ready opt N log p c n"
  shows "good_options opt" "coupled N log (hc_table c) p" "N + 1 < 2 ^ 32" "cached_ok log c" "room n p"
  using assms by (simp_all add: ready_def)

lemma sent_always_indexed:
  assumes r: "ready opt N log p c n" and m: "msize (field key v) \<le> n" and P: "P [field key v]"
    and i: "kept log index ((=) (field key v))" and k: "can_add key v" "\<not> ends_with_bin key" "unat tlen = length key + length v + 32"
    and H: "\<And>f. H (c, f) = do { (x, t, f) \<leftarrow> EncodeAlwaysIndexed opt index key v tlen (hc_table c, f); Some (upd x t, f) }"
    and u: "\<And>x t log'. cached_ok log' c \<Longrightarrow> kept log' x ((=) (field key v)) \<Longrightarrow> cached_ok log' (upd x t) \<and> hc_table (upd x t) = t \<and>
        advertise_table_size_change (upd x t) = advertise_table_size_change c"
  shows "sent opt N p c H P n"
  by (rule sent_table [where upd = upd and H' = H and P = P, OF always_indexed [OF readyD(1-3,5) [OF r] m i k] readyD(4) [OF r] H u P m])

lemma sent_indexed_key:
  assumes r: "ready opt N log p c n" and m: "msize (field key v) \<le> n" and P: "P [field key v]"
    and i: "kept log index (\<lambda>md. \<exists>v. md = field key v)" and k: "can_add key v" "ends_with_bin key"
    and H: "\<And>f. H (c, f) = do { (x, t, f) \<leftarrow> EncodeIndexedKeyWithBinaryValue opt index key v (hc_table c, f); Some (upd x t, f) }"
    and u: "\<And>x t log'. cached_ok log' c \<Longrightarrow> kept log' x (\<lambda>md. \<exists>v. md = field key v) \<Longrightarrow> cached_ok log' (upd x t) \<and> hc_table (upd x t) = t \<and>
        advertise_table_size_change (upd x t) = advertise_table_size_change c"
  shows "sent opt N p c H P n"
  by (rule sent_table [where upd = upd and H' = H and P = P, OF indexed_key [OF readyD(1-3,5) [OF r] m i k] readyD(4) [OF r] H u P m])

lemma sent_emit_to:
  assumes r: "ready opt N log p c n" and m: "msize (field key v) \<le> n" and P: "P [field key v]"
    and i: "index_ok log key vs" and k: "short key" "short v" "\<not> ends_with_bin key"
    and H: "\<And>f. H (c, f) = do { (x, t, f) \<leftarrow> EmitTo opt key v vs (hc_table c, f); Some (upd x t, f) }"
    and u: "\<And>x t log'. cached_ok log' c \<Longrightarrow> index_ok log' key x \<Longrightarrow> cached_ok log' (upd x t) \<and> hc_table (upd x t) = t \<and>
        advertise_table_size_change (upd x t) = advertise_table_size_change c"
  shows "sent opt N p c H P n"
  by (rule sent_table [where upd = upd and H' = H and P = P, OF emit_to [OF readyD(1-3,5) [OF r] m i k] readyD(4) [OF r] H u P m])

text \<open>An index that is kept for a field, or a new one: the part the remaining functions share.\<close>

lemma sent_kept:
  assumes r: "ready opt N log p c n" and P: "\<And>md. Q md \<Longrightarrow> P [md] \<and> msize md \<le> n"
    and i: "kept log index Q" and e: "Q (field key v)" and k: "can_add key v" "\<not> ends_with_bin key"
    and hit: "\<And>f. ConvertableToDynamicIndex (hc_table c) index \<Longrightarrow>
        H (c, f) = on_framer (EmitIndexed opt (DynamicIndex (hc_table c) index)) (c, f)"
    and miss: "\<And>j t f. \<not> ConvertableToDynamicIndex (hc_table c) index \<Longrightarrow> AllocateIndex (length key + length v + 32) (hc_table c) = Some (j, t) \<Longrightarrow>
        H (c, f) = on_framer (EmitLitHdrWithNonBinaryStringKeyIncIdx opt key v) (upd j t, f)"
    and u: "\<And>x t log'. cached_ok log' c \<Longrightarrow> kept log' x Q \<Longrightarrow> cached_ok log' (upd x t) \<and> hc_table (upd x t) = t \<and>
        advertise_table_size_change (upd x t) = advertise_table_size_change c"
  shows "sent opt N p c H P n"
proof (cases "ConvertableToDynamicIndex (hc_table c) index")
  case True
  obtain q md where q: "sends opt (EmitIndexed opt (DynamicIndex (hc_table c) index)) p q" "Q md" "coupled N log (hc_table c) q" "received [md] p q"
    using sends_hit [OF readyD(1,2,5) [OF r] i True] P by blast
  show ?thesis
    by (rule sent_framer [where md = md and F = "EmitIndexed opt (DynamicIndex (hc_table c) index)" and log = log])
      (use q P readyD(4) [OF r] hit [OF True] in auto)
next
  case False
  obtain j t q where q: "AllocateIndex (length key + length v + 32) (hc_table c) = Some (j, t)"
     "sends opt (EmitLitHdrWithNonBinaryStringKeyIncIdx opt key v) p q"
     "coupled (N + 1) ((j, field key v) # log) t q" "received [field key v] p q"
    using sends_new [OF readyD(1-3) [OF r] k(1) readyD(5) [OF r]] P [OF e] k(2) by auto
  have u': "cached_ok ((j, field key v) # log) (upd j t) \<and> hc_table (upd j t) = t \<and>
        advertise_table_size_change (upd j t) = advertise_table_size_change c"
    using u [of "(j, field key v) # log" j t] cached_ok_mono [OF set_subset_Cons readyD(4) [OF r]] kept_new [where P = Q, OF e] by blast
  show ?thesis
    using miss [OF False q(1)] u' q(3) P [OF e] by (intro sentI [OF _ q(2) _ _ q(4), where c' = "upd j t"]) (auto simp: on_framer_def)
qed

end
