(* ===== verification/Grpc_Hpack_Fields.thy ===== *)
theory Grpc_Hpack_Fields
  imports Grpc_Hpack_Link
begin

text \<open>
  Each overload of \<open>Encode\<close> in turn: what it adds to the block is read back as the field that the header stands for.
\<close>


lemma cached_okD:
  assumes "cached_ok log c"
  shows "kept log (te_index c) ((=) (field (octets_of ''te'') (octets_of ''trailers'')))"
    "kept log (content_type_index c) ((=) (field (octets_of ''content-type'') (octets_of ''application/grpc'')))"
    "kept log (user_agent_index c) ((=) (field (octets_of ''user-agent'') (hc_user_agent c)))"
    "length (cached_grpc_status c) = kNumCachedGrpcStatusValues"
    "k < kNumCachedGrpcStatusValues \<Longrightarrow> kept log (cached_grpc_status c ! k) ((=) (field (octets_of ''grpc-status'') (gpr_ltoa k)))"
    "length (cached_grpc_encoding c) = GRPC_COMPRESS_ALGORITHMS_COUNT"
    "k < GRPC_COMPRESS_ALGORITHMS_COUNT \<Longrightarrow> kept log (cached_grpc_encoding c ! k)
        (\<lambda>md. \<exists>s. CompressionAlgorithmAsString k = Some s \<and> md = field (octets_of ''grpc-encoding'') (octets_of s))"
    "kept log (grpc_accept_encoding_index c)
       (\<lambda>md. \<exists>s. ToString (grpc_accept_encoding c) = Some s \<and> md = field (octets_of ''grpc-accept-encoding'') (octets_of s))"
    "kept log (grpc_tags_bin_index c) (\<lambda>md. \<exists>v. md = field (octets_of ''grpc-tags-bin'') v)"
    "kept log (grpc_trace_bin_index c) (\<lambda>md. \<exists>v. md = field (octets_of ''grpc-trace-bin'') v)"
    "index_ok log (octets_of '':path'') (path_index c)" "index_ok log (octets_of '':authority'') (authority_index c)"
    "timeouts_ok log (previous_timeouts c)"
  using assms by (simp_all add: cached_ok_def)

abbreviation header_sent :: "encode_options \<Rightarrow> encode_env \<Rightarrow> nat \<Rightarrow> hpack_parser \<Rightarrow> hpack_compressor \<Rightarrow> header \<Rightarrow> bool" where
  "header_sent opt env N p c h \<equiv> sent opt N p c (Encode_header opt env h) (stands_for env h) (cost h)"

lemma sent_path:
  assumes r: "ready opt N log p c (cost (Http_path v))" and g: "good_header env (Http_path v)"
  shows "header_sent opt env N p c (Http_path v)"
  by (rule sent_emit_to [OF r, where upd = "\<lambda>x t. c\<lparr>path_index := x, hc_table := t\<rparr>" and vs = "path_index c" and v = v and key = "octets_of '':path''"])
    (use g plain_keys cached_okD(11) [OF readyD(4) [OF r]] short_lit in \<open>auto simp: sent_defs Encode_path_def cached_ok_def\<close>)

lemma sent_authority:
  assumes r: "ready opt N log p c (cost (Http_authority v))" and g: "good_header env (Http_authority v)"
  shows "header_sent opt env N p c (Http_authority v)"
  by (rule sent_emit_to [OF r, where upd = "\<lambda>x t. c\<lparr>authority_index := x, hc_table := t\<rparr>" and vs = "authority_index c" and v = v and key = "octets_of '':authority''"])
    (use g plain_keys cached_okD(12) [OF readyD(4) [OF r]] short_lit in \<open>auto simp: sent_defs Encode_authority_def cached_ok_def\<close>)

lemma sent_te:
  assumes r: "ready opt N log p c (cost (Te v))" and g: "good_header env (Te v)"
  shows "header_sent opt env N p c (Te v)"
  by (rule sent_always_indexed [OF r, where upd = "\<lambda>x t. c\<lparr>te_index := x, hc_table := t\<rparr>" and index = "te_index c" and
        v = "octets_of ''trailers''" and key = "octets_of ''te''" and tlen = "2 + 8 + kEntryOverhead"])
    (use g plain_keys cached_okD(1) [OF readyD(4) [OF r]] short_lit in
      \<open>auto simp: sent_defs Encode_te_def cached_ok_def kEntryOverhead_def MaxEntrySize_def intro!: can_addI\<close>)

lemma sent_content_type:
  assumes r: "ready opt N log p c (cost (Content_type v))"
  shows "header_sent opt env N p c (Content_type v)"
proof (cases "v = Content_application_grpc")
  case True
  show ?thesis
  by (rule sent_always_indexed [OF r, where upd = "\<lambda>x t. c\<lparr>content_type_index := x, hc_table := t\<rparr>" and index = "content_type_index c" and
        v = "octets_of ''application/grpc''" and key = "octets_of ''content-type''" and tlen = "12 + 16 + kEntryOverhead"])
    (use True plain_keys cached_okD(2) [OF readyD(4) [OF r]] short_lit in
      \<open>auto simp: sent_defs Encode_content_type_def cached_ok_def kEntryOverhead_def MaxEntrySize_def intro!: can_addI\<close>)
next
  case False
  then show ?thesis using readyD(2,4) [OF r] by (intro sent_nothing) (auto simp: sent_defs Encode_content_type_def)
qed

lemma sent_tags_bin:
  assumes r: "ready opt N log p c (cost (Grpc_tags_bin v))" and g: "good_header env (Grpc_tags_bin v)"
  shows "header_sent opt env N p c (Grpc_tags_bin v)"
  by (rule sent_indexed_key [OF r, where upd = "\<lambda>x t. c\<lparr>grpc_tags_bin_index := x, hc_table := t\<rparr>" and index = "grpc_tags_bin_index c" and
        v = v and key = "octets_of ''grpc-tags-bin''"])
    (use g bin_keys cached_okD(9) [OF readyD(4) [OF r]] short_lit in
      \<open>auto simp: sent_defs Encode_tags_bin_def cached_ok_def intro!: can_addI\<close>)

lemma sent_trace_bin:
  assumes r: "ready opt N log p c (cost (Grpc_trace_bin v))" and g: "good_header env (Grpc_trace_bin v)"
  shows "header_sent opt env N p c (Grpc_trace_bin v)"
  by (rule sent_indexed_key [OF r, where upd = "\<lambda>x t. c\<lparr>grpc_trace_bin_index := x, hc_table := t\<rparr>" and index = "grpc_trace_bin_index c" and
        v = v and key = "octets_of ''grpc-trace-bin''"])
    (use g bin_keys cached_okD(10) [OF readyD(4) [OF r]] short_lit in
      \<open>auto simp: sent_defs Encode_trace_bin_def cached_ok_def intro!: can_addI\<close>)

lemma sent_field:
  assumes r: "ready opt N log p c (cost (Field k v))" and g: "good_header env (Field k v)"
  shows "header_sent opt env N p c (Field k v)"
  by (rule sent_omit [OF readyD(1,2,5) [OF r], where v = v and key = k])
    (use g readyD(4) [OF r] in \<open>auto simp: sent_defs Encode_slices_def\<close>)

lemma sent_message:
  assumes r: "ready opt N log p c (cost (Grpc_message v))" and g: "good_header env (Grpc_message v)"
  shows "header_sent opt env N p c (Grpc_message v)"
proof (cases "v = []")
  case True
  then show ?thesis using readyD(2,4) [OF r] by (intro sent_nothing) (auto simp: sent_defs Encode_grpc_message_def)
next
  case False
  show ?thesis
    by (rule sent_omit [OF readyD(1,2,5) [OF r], where v = v and key = "octets_of ''grpc-message''"])
      (use False g plain_keys readyD(4) [OF r] short_lit in \<open>auto simp: sent_defs Encode_grpc_message_def\<close>)
qed

lemma static_at:
  fixes i :: u32
  shows "0 < i \<Longrightarrow> i \<le> 61 \<Longrightarrow> kStaticTable ! (unat i - 1) = (k, v) \<Longrightarrow> static_metadata ! (unat i - 1) = field (octets_of k) (octets_of v)"
proof -
  assume "0 < i" "i \<le> 61" and e: "kStaticTable ! (unat i - 1) = (k, v)"
  then have "unat i - 1 < 61" by (auto simp: word_le_nat_alt word_less_nat_alt)
  from static_field [OF this] e show ?thesis by simp
qed

lemma sent_known:
  assumes r: "ready opt N log p c n" and i: "0 < i" "i \<le> 61" "kStaticTable ! (unat i - 1) = (k, v)"
    and m: "length k + length v + 32 \<le> n" "length k < 2 ^ 28" "length v < 2 ^ 28"
    and H: "\<And>f. H (c, f) = on_framer (EmitIndexed opt i) (c, f)" and P: "P [field (octets_of k) (octets_of v)]"
  shows "sent opt N p c H P n"
proof -
  have "msize (field (octets_of k) (octets_of v)) \<le> n" using m msize_known [of k "octets_of v"] by simp
  then show ?thesis by (rule sent_static [where H = H and P = P, OF readyD(1,2,5) [OF r] i(1,2) static_at [OF i] _ readyD(4) [OF r] H P])
qed

lemma sent_status:
  assumes r: "ready opt N log p c (cost (Http_status s))" and g: "good_header env (Http_status s)"
  shows "header_sent opt env N p c (Http_status s)"
proof -
  have known: "header_sent opt env N p c (Http_status s)"
    if "0 < i" "i \<le> 61" "Encode_status opt s = on_framer (EmitIndexed opt i)" "kStaticTable ! (unat i - 1) = ('':status'', v)" "gpr_ltoa (unat s) = octets_of v" "length v = 3" for i v
    by (rule sent_known [OF r that(1,2,4)]) (use that msize_known [of "'':status''" "octets_of v"] in \<open>simp_all add: sent_defs\<close>)
  note k = static_keys(2) [simplified]
  consider "s = 200" | "s = 204" | "s = 206" | "s = 304" | "s = 400" | "s = 404" | "s = 500" using g by auto
  then show ?thesis
  proof cases
    case 1 then show ?thesis using k ltoa_statuses by (intro known [of 8 "''200''"]) (simp_all add: Encode_status_def)
  next
    case 2 then show ?thesis using k ltoa_statuses by (intro known [of 9 "''204''"]) (simp_all add: Encode_status_def)
  next
    case 3 then show ?thesis using k ltoa_statuses by (intro known [of 10 "''206''"]) (simp_all add: Encode_status_def)
  next
    case 4 then show ?thesis using k ltoa_statuses by (intro known [of 11 "''304''"]) (simp_all add: Encode_status_def)
  next
    case 5 then show ?thesis using k ltoa_statuses by (intro known [of 12 "''400''"]) (simp_all add: Encode_status_def)
  next
    case 6 then show ?thesis using k ltoa_statuses by (intro known [of 13 "''404''"]) (simp_all add: Encode_status_def)
  next
    case 7 then show ?thesis using k ltoa_statuses by (intro known [of 14 "''500''"]) (simp_all add: Encode_status_def)
  qed
qed

lemma sent_scheme:
  assumes r: "ready opt N log p c (cost (Http_scheme v))" and g: "good_header env (Http_scheme v)"
  shows "header_sent opt env N p c (Http_scheme v)"
proof -
  note k = static_keys(1) [simplified]
  consider "v = Scheme_http" | "v = Scheme_https" using g by (cases v) auto
  then show ?thesis
  proof cases
    case 1
    show ?thesis by (rule sent_known [OF r, where i = 6]) (use 1 k in \<open>simp_all add: sent_defs Encode_scheme_def msize_known\<close>)
  next
    case 2
    show ?thesis by (rule sent_known [OF r, where i = 7]) (use 2 k in \<open>simp_all add: sent_defs Encode_scheme_def msize_known\<close>)
  qed
qed

lemma sent_method:
  assumes r: "ready opt N log p c (cost (Http_method v))" and g: "good_header env (Http_method v)"
  shows "header_sent opt env N p c (Http_method v)"
proof -
  note k = static_keys(1) [simplified]
  consider "v = Method_get" | "v = Method_post" | "v = Method_put" using g by (cases v) auto
  then show ?thesis
  proof cases
    case 1
    show ?thesis by (rule sent_known [OF r, where i = 2]) (use 1 k in \<open>simp_all add: sent_defs Encode_method_def msize_known\<close>)
  next
    case 2
    show ?thesis by (rule sent_known [OF r, where i = 3]) (use 2 k in \<open>simp_all add: sent_defs Encode_method_def msize_known\<close>)
  next
    case 3
    show ?thesis
      by (rule sent_omit [OF readyD(1,2,5) [OF r], where v = "octets_of ''PUT''" and key = "octets_of '':method''"])
        (use 3 plain_keys readyD(4) [OF r] short_lit in \<open>auto simp: sent_defs Encode_method_def\<close>)
  qed
qed

lemma sent_via:
  assumes "sent opt N p d H P n" "\<And>f. H' (c, f) = H (d, f)" "advertise_table_size_change d = advertise_table_size_change c"
  shows "sent opt N p c H' P n"
  using assms unfolding sent_def by simp

text \<open>A new value of \<open>user-agent\<close> takes the place of the one that is cached.\<close>

lemma sent_user_agent:
  assumes e: "good_env env" and r: "ready opt N log p c (cost (User_agent v))" and g: "good_header env (User_agent v)"
  shows "header_sent opt env N p c (User_agent v)"
proof (cases "MaxEntrySize < length v")
  case True
  show ?thesis
    by (rule sent_omit [OF readyD(1,2,5) [OF r], where v = v and key = "octets_of ''user-agent''"])
      (use True g plain_keys readyD(4) [OF r] short_lit in \<open>auto simp: sent_defs Encode_user_agent_def on_framer_def\<close>)
next
  case False
  define d where "d = (if is_equivalent env v (hc_user_agent c) then c else c\<lparr>hc_user_agent := v, user_agent_index := 0\<rparr>)"
  have d: "cached_ok log d" "hc_table d = hc_table c" "advertise_table_size_change d = advertise_table_size_change c" "hc_user_agent d = v"
    using e readyD(4) [OF r] by (auto simp: d_def cached_ok_def good_env_def)
  have g': "short v" "length v + 42 \<le> MaxEntrySize" using g False by auto
  then have len: "unat (of_nat (length v + 42) :: u32) = length v + 42" by (intro unat_sum) (simp add: MaxEntrySize_def)
  have r': "ready opt N log p d (cost (User_agent v))" using r d unfolding ready_def by simp
  let ?H = "\<lambda>(c, f). do { (index, t, f) \<leftarrow> EncodeAlwaysIndexed opt (user_agent_index d) (octets_of ''user-agent'') v
      (of_nat (10 + length v) + kEntryOverhead) (hc_table c, f); Some (d\<lparr>user_agent_index := index, hc_table := t\<rparr>, f) }"
  have "sent opt N p d ?H (stands_for env (User_agent v)) (cost (User_agent v))"
    by (rule sent_always_indexed [OF r', where upd = "\<lambda>x t. d\<lparr>user_agent_index := x, hc_table := t\<rparr>" and index = "user_agent_index d" and
        v = v and key = "octets_of ''user-agent''" and tlen = "of_nat (10 + length v) + kEntryOverhead"])
      (use g' d plain_keys cached_okD(3) [OF d(1)] short_lit len in \<open>simp_all add: sent_defs cached_ok_def can_addI kEntryOverhead_def add.commute\<close>)
  then show ?thesis
    by (rule sent_via) (use False d in \<open>auto simp: Encode_user_agent_def Let_def d_def\<close>)
qed

section \<open>Fields with an entry of their own\<close>

lemma unat_entry: "length v < 2 ^ 28 \<Longrightarrow> length k < 2 ^ 28 \<Longrightarrow> unat (of_nat (length (octets_of k) + length v + unat kEntryOverhead) :: u32) = length (octets_of k) + length v + 32"
  unfolding overhead by (intro unat_sum) simp

lemma sent_grpc_status:
  assumes r: "ready opt N log p c (cost (Grpc_status s))"
  shows "header_sent opt env N p c (Grpc_status s)"
proof (cases "unat s < kNumCachedGrpcStatusValues")
  case True
  note l = gpr_ltoa_length [of s]
  have len: "length (cached_grpc_status c) = kNumCachedGrpcStatusValues" by (rule cached_okD(4) [OF readyD(4) [OF r]])
  have f: "fetch (cached_grpc_status c) (unat s) = Some (cached_grpc_status c ! unat s)"
    "store (cached_grpc_status c) (unat s) x = Some ((cached_grpc_status c)[unat s := x])" for x using True len by (simp_all add: fetch_def store_def)
  have u: "unat (of_nat (length (octets_of ''grpc-status'') + length (gpr_ltoa (unat s)) + unat kEntryOverhead) :: u32) =
      length (octets_of ''grpc-status'') + length (gpr_ltoa (unat s)) + 32" using l by (intro unat_entry) simp_all
  show ?thesis
  proof (rule sent_kept [OF r, where Q = "(=) (field (octets_of ''grpc-status'') (gpr_ltoa (unat s)))" and
        upd = "\<lambda>x t. c\<lparr>cached_grpc_status := (cached_grpc_status c)[unat s := x], hc_table := t\<rparr>" and
        index = "cached_grpc_status c ! unat s" and key = "octets_of ''grpc-status''" and v = "gpr_ltoa (unat s)"])
    show "can_add (octets_of ''grpc-status'') (gpr_ltoa (unat s))" using l by (intro can_addI short_lit) (simp_all add: MaxEntrySize_def)
  qed (use True f u plain_keys cached_okD(5) [OF readyD(4) [OF r] True] in
      \<open>auto simp: sent_defs Encode_grpc_status_def Let_def cached_ok_def nth_list_update\<close>)
next
  case False
  have "short (gpr_ltoa (unat s))" using gpr_ltoa_length [of s] by (simp add: short_def)
  then show ?thesis
    by (intro sent_omit [OF readyD(1,2,5) [OF r], where v = "gpr_ltoa (unat s)" and key = "octets_of ''grpc-status''"])
      (use False plain_keys readyD(4) [OF r] short_lit in \<open>auto simp: sent_defs Encode_grpc_status_def Let_def\<close>)
qed

lemmas algorithm_defs = GRPC_COMPRESS_NONE_def GRPC_COMPRESS_DEFLATE_def GRPC_COMPRESS_GZIP_def GRPC_COMPRESS_ALGORITHMS_COUNT_def CompressionAlgorithmAsString_def

lemma algorithm_name:
  assumes "k < GRPC_COMPRESS_ALGORITHMS_COUNT"
  obtains s where "CompressionAlgorithmAsString k = Some s" "length s \<le> 8"
proof -
  have "k = 0 \<or> k = 1 \<or> k = 2" using assms by (auto simp: algorithm_defs)
  then have "\<exists>s. CompressionAlgorithmAsString k = Some s \<and> length s \<le> 8" by (auto simp: algorithm_defs)
  then show thesis using that by blast
qed

lemma ToString_name:
  obtains x where "ToString s = Some x" "length x \<le> 40"
proof -
  have "[0..<GRPC_COMPRESS_ALGORITHMS_COUNT] = [0, 1, 2]" by code_simp
  then have "\<exists>x. ToString s = Some x \<and> length x \<le> 40" by (simp add: ToString_def algorithm_defs)
  then show thesis using that by blast
qed

lemma sent_grpc_encoding:
  assumes r: "ready opt N log p c (cost (Grpc_encoding v))" and g: "good_header env (Grpc_encoding v)"
  shows "header_sent opt env N p c (Grpc_encoding v)"
proof -
  have v: "v < GRPC_COMPRESS_ALGORITHMS_COUNT" using g by simp
  obtain s where s: "CompressionAlgorithmAsString v = Some s" "length s \<le> 8" by (rule algorithm_name [OF v])
  have len: "length (cached_grpc_encoding c) = GRPC_COMPRESS_ALGORITHMS_COUNT" by (rule cached_okD(6) [OF readyD(4) [OF r]])
  have f: "fetch (cached_grpc_encoding c) v = Some (cached_grpc_encoding c ! v)"
    "store (cached_grpc_encoding c) v x = Some ((cached_grpc_encoding c)[v := x])" for x using v len by (simp_all add: fetch_def store_def)
  have e: "CompressionAlgorithmBasedMetadata_Encode v = Some (octets_of s)" using v s by (simp add: CompressionAlgorithmBasedMetadata_Encode_def assert_c_def)
  have u: "unat (of_nat (length (octets_of ''grpc-encoding'') + length (octets_of s) + unat kEntryOverhead) :: u32) =
      length (octets_of ''grpc-encoding'') + length (octets_of s) + 32" using s by (intro unat_entry) simp_all
  show ?thesis
  proof (rule sent_kept [OF r, where Q = "\<lambda>md. \<exists>s. CompressionAlgorithmAsString v = Some s \<and> md = field (octets_of ''grpc-encoding'') (octets_of s)" and
        upd = "\<lambda>x t. c\<lparr>cached_grpc_encoding := (cached_grpc_encoding c)[v := x], hc_table := t\<rparr>" and
        index = "cached_grpc_encoding c ! v" and key = "octets_of ''grpc-encoding''" and v = "octets_of s"])
    show "can_add (octets_of ''grpc-encoding'') (octets_of s)" using s by (intro can_addI short_lit) (simp_all add: MaxEntrySize_def)
  qed (use v f u e s plain_keys cached_okD(7) [OF readyD(4) [OF r] v] in
      \<open>auto simp: sent_defs Encode_grpc_encoding_def Let_def cached_ok_def nth_list_update\<close>)
qed

lemma sent_accept_encoding:
  assumes r: "ready opt N log p c (cost (Grpc_accept_encoding v))"
  shows "header_sent opt env N p c (Grpc_accept_encoding v)"
proof -
  obtain s where s: "ToString v = Some s" "length s \<le> 40" by (rule ToString_name)
  have u: "unat (of_nat (length (octets_of ''grpc-accept-encoding'') + length (octets_of s) + unat kEntryOverhead) :: u32) =
      length (octets_of ''grpc-accept-encoding'') + length (octets_of s) + 32" using s by (intro unat_entry) simp_all
  define i where "i = (if v = grpc_accept_encoding c then grpc_accept_encoding_index c else 0)"
  let ?Q = "\<lambda>md. \<exists>s. ToString v = Some s \<and> md = field (octets_of ''grpc-accept-encoding'') (octets_of s)"
  have "kept log i ?Q" using cached_okD(8) [OF readyD(4) [OF r]] by (simp add: i_def)
  moreover have i: "ConvertableToDynamicIndex t i \<longleftrightarrow> grpc_accept_encoding_index c \<noteq> 0 \<and> v = grpc_accept_encoding c \<and>
      ConvertableToDynamicIndex t (grpc_accept_encoding_index c)" for t by (auto simp: i_def ConvertableToDynamicIndex_def)
  ultimately show ?thesis
  proof (intro sent_kept [OF r, where Q = ?Q and
        upd = "\<lambda>x t. c\<lparr>grpc_accept_encoding_index := x, grpc_accept_encoding := v, hc_table := t\<rparr>" and
        index = i and key = "octets_of ''grpc-accept-encoding''" and v = "octets_of s"])
    show "can_add (octets_of ''grpc-accept-encoding'') (octets_of s)" using s by (intro can_addI short_lit) (simp_all add: MaxEntrySize_def)
    show "Encode_header opt env (Grpc_accept_encoding v) (c, f) = on_framer (EmitIndexed opt (DynamicIndex (hc_table c) i)) (c, f)"
      if "ConvertableToDynamicIndex (hc_table c) i" for f using that i by (auto simp: Encode_grpc_accept_encoding_def i_def)
    show "Encode_header opt env (Grpc_accept_encoding v) (c, f) =
        on_framer (EmitLitHdrWithNonBinaryStringKeyIncIdx opt (octets_of ''grpc-accept-encoding'') (octets_of s))
          (c\<lparr>grpc_accept_encoding_index := j, grpc_accept_encoding := v, hc_table := t\<rparr>, f)"
      if "\<not> ConvertableToDynamicIndex (hc_table c) i"
        "AllocateIndex (length (octets_of ''grpc-accept-encoding'') + length (octets_of s) + 32) (hc_table c) = Some (j, t)" for j t f
      using that u s by (auto simp: Encode_grpc_accept_encoding_def i Let_def add.assoc)
  qed (use s plain_keys in \<open>auto simp: sent_defs cached_ok_def\<close>)
qed

lemma timeouts_ok_subset: "timeouts_ok log ts \<Longrightarrow> set us \<subseteq> set ts \<Longrightarrow> timeouts_ok log us"
  by (auto simp: timeouts_ok_def)

lemma Encode_text:
  obtains e where "Encode t = Some e" "length e \<le> 10"
proof -
  obtain e where e: "Encode t = Some e" using encode_parse by blast
  then have "length e \<le> 10" by (auto simp: Encode_def assert_c_def split: bind_splits if_splits)
  with e show thesis by (rule that)
qed

lemma sent_timeout:
  assumes r: "ready opt N log p c (cost (Grpc_timeout d))" and g: "good_header env (Grpc_timeout d)"
  shows "header_sent opt env N p c (Grpc_timeout d)"
proof -
  obtain t where t: "FromDuration (d - env_now env) = Some t" and d: "i64 (d - env_now env) = Some (d - env_now env)"
    using g by (auto simp: i64_def split: if_splits)
  let ?prev = "previous_timeouts c" and ?Q = "\<lambda>t md. \<exists>e. Encode t = Some e \<and> md = field (octets_of ''grpc-timeout'') e"
  let ?fits = "\<lambda>k. ratio_in_range env t (fst (?prev ! k)) \<and> ConvertableToDynamicIndex (hc_table c) (snd (?prev ! k))"
  have m: "msize md \<le> 54" if "?Q t md" for t md
    using that Encode_text [of t] msize_known [of "''grpc-timeout''"] by fastforce
  note prev = cached_okD(13) [OF readyD(4) [OF r]]
  show ?thesis
  proof (cases "find ?fits [0..<length ?prev]")
    case (Some k)
    then have k: "k < length ?prev" "?fits k" by (auto simp: find_Some_iff)
    then have i: "kept log (snd (?prev ! k)) (?Q (fst (?prev ! k)))" using prev nth_mem [OF k(1)] by (auto simp: timeouts_ok_def case_prod_beta)
    obtain q md where q: "sends opt (EmitIndexed opt (DynamicIndex (hc_table c) (snd (?prev ! k)))) p q" "?Q (fst (?prev ! k)) md"
      "coupled N log (hc_table c) q" "received [md] p q"
      using sends_hit [OF readyD(1,2,5) [OF r] i conjunct2 [OF k(2)]] m by (auto simp: cost_def)
    have "timeouts_ok log (swap_entries k 0 ?prev)" using k(1) by (intro timeouts_ok_subset [OF prev] set_swap_entries) auto
    then show ?thesis
      using q(2) k t d Some readyD(4) [OF r] coupled_mono [OF q(3), of "N + 1"] m [OF q(2)]
      by (intro sentI [OF _ q(1) _ _ q(4), where c' = "c\<lparr>previous_timeouts := swap_entries k 0 ?prev\<rparr>" and log' = log])
        (auto simp: Encode_timeout_def Let_def stands_for_def timeout_fields_def cost_def cached_ok_def)
  next
    case None
    obtain e where e: "Encode t = Some e" "length e \<le> 10" by (rule Encode_text)
    have a: "can_add (octets_of ''grpc-timeout'') e" using e by (intro can_addI short_lit) (simp_all add: MaxEntrySize_def)
    have me: "msize (field (octets_of ''grpc-timeout'') e) \<le> cost (Grpc_timeout d)" using m e by (auto simp: cost_def)
    obtain i t' q where q: "AllocateIndex (length (octets_of ''grpc-timeout'') + length e + 32) (hc_table c) = Some (i, t')"
       "sends opt (EmitLitHdrWithNonBinaryStringKeyIncIdx opt (octets_of ''grpc-timeout'') e) p q"
       "coupled (N + 1) ((i, field (octets_of ''grpc-timeout'') e) # log) t' q" "received [field (octets_of ''grpc-timeout'') e] p q"
      using sends_new [OF readyD(1-3) [OF r] a readyD(5) [OF r] me] plain_keys by auto
    let ?prev' = "drop_expired (hc_table c) ?prev @ [(t, i)]"
    have "timeouts_ok ((i, field (octets_of ''grpc-timeout'') e) # log) ?prev'"
      using timeouts_ok_mono [OF set_subset_Cons timeouts_ok_subset [OF prev set_drop_expired]] e(1) by (auto simp: timeouts_ok_def intro: kept_new)
    then have "cached_ok ((i, field (octets_of ''grpc-timeout'') e) # log) (c\<lparr>previous_timeouts := ?prev', hc_table := t'\<rparr>)"
      using cached_ok_mono [OF set_subset_Cons readyD(4) [OF r]] by (simp add: cached_ok_def)
    then show ?thesis
      using q t d None e me
      by (intro sentI [OF _ q(2) _ _ q(4), where c' = "c\<lparr>previous_timeouts := ?prev', hc_table := t'\<rparr>"])
        (auto simp: Encode_timeout_def Let_def stands_for_def timeout_fields_def on_framer_def overhead)
  qed
qed

end
