(* ===== verification/Grpc_Hpack_Round.thy ===== *)
theory Grpc_Hpack_Round
  imports Grpc_Hpack_Fields
begin

text \<open>
  The round trip of header blocks: the frames that the compressor puts out, and what the parser of the peer makes of
  their payloads. \<open>paired\<close> is the relation between the two from one block to the next.
\<close>

section \<open>A block\<close>

lemma sent_header:
  assumes "good_env env" "ready opt N log p c (cost h)" "good_header env h"
  shows "header_sent opt env N p c h"
  using assms
  by (cases h) (simp_all only: sent_path sent_authority sent_te sent_content_type sent_tags_bin sent_trace_bin sent_field sent_message
      sent_status sent_scheme sent_method sent_user_agent sent_grpc_status sent_grpc_encoding sent_accept_encoding sent_timeout)

definition costs :: "header list \<Rightarrow> nat" where
  "costs hs = sum_list (map cost hs)"

lemma sent_headers:
  assumes o: "good_options opt" and e: "good_env env"
  shows "list_all (good_header env) hs \<Longrightarrow> coupled N log (hc_table c) p \<Longrightarrow> N + length hs < 2 ^ 32 \<Longrightarrow> cached_ok log c \<Longrightarrow> room (costs hs) p \<Longrightarrow>
    \<exists>c' F q log' mdss. (\<forall>f. foldM (Encode_header opt env) hs (c, f) = do { f \<leftarrow> F f; Some (c', f) }) \<and> sends opt F p q \<and>
      coupled (N + length hs) log' (hc_table c') q \<and> cached_ok log' c' \<and> received (concat mdss) p q \<and> list_all2 (stands_for env) hs mdss \<and>
      advertise_table_size_change c' = advertise_table_size_change c"
proof (induction hs arbitrary: N log c p)
  case Nil
  then show ?case
    by (intro exI [of _ c] exI [of _ Some] exI [of _ p] exI [of _ log] exI [of _ "[]"]) (simp add: sends_none received_Nil)
next
  case (Cons h hs)
  have "room (cost h) p" using Cons.prems(5) by (simp add: room_def costs_def)
  then have "ready opt N log p c (cost h)" using o Cons.prems by (simp add: ready_def)
  from sent_header [OF e this] Cons.prems(1) have "header_sent opt env N p c h" by simp
  then obtain c1 F q log1 mds where 1: "\<And>f. Encode_header opt env h (c, f) = do { f \<leftarrow> F f; Some (c1, f) }" "sends opt F p q"
    "coupled (N + 1) log1 (hc_table c1) q" "cached_ok log1 c1" "received mds p q" "stands_for env h mds" "total msize mds \<le> cost h"
    "advertise_table_size_change c1 = advertise_table_size_change c" unfolding sent_def by blast
  have "room (costs (h # hs) - total msize mds) q" using 1(7) by (intro room_received [OF Cons.prems(5) 1(5)]) (simp add: costs_def)
  then have "room (costs hs) q" using 1(7) by (auto simp: room_def costs_def)
  with Cons.IH [OF _ 1(3) _ 1(4)] Cons.prems(1,3) obtain c2 G r log2 mdss where
    2: "\<And>f. foldM (Encode_header opt env) hs (c1, f) = do { f \<leftarrow> G f; Some (c2, f) }" "sends opt G q r"
    "coupled (N + 1 + length hs) log2 (hc_table c2) r" "cached_ok log2 c2" "received (concat mdss) q r" "list_all2 (stands_for env) hs mdss"
    "advertise_table_size_change c2 = advertise_table_size_change c1" by auto
  have "foldM (Encode_header opt env) (h # hs) (c, f) = do { f \<leftarrow> (do { f \<leftarrow> F f; G f }); Some (c2, f) }" for f
    by (simp add: 1(1) 2(1) bind_assoc)
  then show ?case
    using sends_then [OF 1(2) 2(2)] received_append [OF 1(5) 2(5)] 1(6,8) 2(3,4,6,7)
    by (intro exI [of _ c2] exI [of _ "\<lambda>f. do { f \<leftarrow> F f; G f }"] exI [of _ r] exI [of _ log2] exI [of _ "mds # mdss"]) simp
qed

text \<open>
  The compressor and the parser of the peer between two blocks: their tables are in step, or the compressor has been
  told of another size, which it will advertise in the next block.
\<close>

definition paired :: "nat \<Rightarrow> hpack_compressor \<Rightarrow> hpack_parser \<Rightarrow> bool" where
  "paired N c p \<longleftrightarrow> parser_ok p \<and> unparsed_bytes p = [] \<and> (\<exists>log e. cached_ok log c \<and> coupled N log e p \<and>
     (if advertise_table_size_change c then \<exists>n b. unat n \<le> 4096 \<and> SetMaxSize n e = Some (b, hc_table c) else hc_table c = e))"

lemma new_paired: "paired 0 HPackCompressor (HPackParser b r d n l)"
proof -
  have "coupled 0 [] HPackEncoderTable (HPackParser b r d n l)"
    unfolding coupled_def HPackParser_def using in_step_init by auto
  moreover have "cached_ok [] HPackCompressor" by (rule new_cached_ok)
  moreover have "unparsed_bytes (HPackParser b r d n l) = []" by (simp add: HPackParser_def)
  ultimately show ?thesis unfolding paired_def using new_parser_ok by (auto simp: HPackCompressor_def)
qed

lemma resized:
  assumes l: "coupled N log e p" and n: "unat n \<le> 4096" "SetMaxSize n e = Some (b, t)" and N: "N + 1 < 2 ^ 32"
  shows "max_table_size t = n \<and> (\<exists>d. SetCurrentTableSize n (hp_table p) = Some (True, d) \<and> (\<forall>q. hp_table q = d \<longrightarrow> coupled (N + 1) log t q))"
proof -
  obtain S k where S: "k \<le> N" "in_step S k (e, hp_table p, log)" using l by (auto simp: coupled_def)
  have "sendable (Size_op n)" "k + 1 < 2 ^ 32" using n N S(1) by simp_all
  from step_both_ok [OF S(2) this] obtain S' k' x where
    x: "step_both (Size_op n) (e, hp_table p, log) = Some x" "in_step S' k' x" "k' \<le> k + 1" by blast
  then obtain d where d: "SetCurrentTableSize n (hp_table p) = Some (True, d)" "x = (t, d, log)" using n(2)
    by (auto simp: assert_c_def split: bind_splits if_splits)
  have "unat n + 31 < 2 ^ 32" using n(1) by simp
  moreover have "enc_ok (unat (sp_size S)) (map msize (sp_entries S)) k e" using S(2) by (simp add: in_step_def)
  ultimately obtain b' t' where "SetMaxSize n e = Some (b', t')" "enc_ok (unat n) (newest (\<lambda>s. s) (unat n) (map msize (sp_entries S))) k t'"
    using SetMaxSize_ok by blast
  then have "max_table_size t = n" using n(2) by (auto simp: enc_ok_def enc_at_def)
  moreover have "coupled (N + 1) log t q" if "hp_table q = d" for q
    using x(2,3) S(1) d(2) that unfolding coupled_def by (intro exI [of _ S'] exI [of _ k']) simp
  ultimately show ?thesis using d(1) by blast
qed

text \<open>The block with the size it begins with.\<close>

definition advertise :: "encode_options \<Rightarrow> hpack_compressor \<Rightarrow> framer \<Rightarrow> framer option" where
  "advertise opt c = (if advertise_table_size_change c then AdvertiseTableSizeChange opt (max_table_size (hc_table c)) else Some)"

lemma sent_size:
  assumes o: "good_options opt" and l: "paired N c p" and N: "N + 1 < 2 ^ 32"
    and p: "hp_priority p = Priority_None" "dynamic_table_updates_allowed p \<noteq> 0"
  obtains log q where "sends opt (advertise opt c) p q" "coupled (N + 1) log (hc_table c) q" "cached_ok log c" "received [] p q"
proof -
  obtain log e where e: "cached_ok log c" "coupled N log e p"
     "if advertise_table_size_change c then \<exists>n b. unat n \<le> 4096 \<and> SetMaxSize n e = Some (b, hc_table c) else hc_table c = e"
    using l unfolding paired_def by blast
  show thesis
  proof (cases "advertise_table_size_change c")
    case False
    then show thesis using that [of p log] e coupled_mono [OF e(2), of "N + 1"] sends_none received_Nil by (simp add: advertise_def)
  next
    case True
    then obtain n b where n: "unat n \<le> 4096" "SetMaxSize n e = Some (b, hc_table c)" using e(3) by auto
    obtain d where d: "max_table_size (hc_table c) = n" "SetCurrentTableSize n (hp_table p) = Some (True, d)"
      "\<And>q. hp_table q = d \<Longrightarrow> coupled (N + 1) log (hc_table c) q" using resized [OF e(2) n N] by blast
    from do_resize [OF d(2) p(2)] obtain q where q: "\<And>i. do_action (Resize n) i p = Some (True, i, q)" "received [] p q" "hp_table q = d" by blast
    have "hp_priority q = Priority_None" using q(2) p(1) by (simp add: received_def)
    then have "sends opt (AdvertiseTableSizeChange opt n) p q" by (rule sends_action [OF emits_resize [OF o] p(1) _ q(1)])
    then show thesis using that [of q log] True d(1,3) q e(1) by (simp add: advertise_def)
  qed
qed

lemma EncodeHeaders_advertise:
  "EncodeHeaders opt env hs c pre =
     do { let f = Framer_BeginFrame \<lparr>fr_output = pre, header_idx = 0, output_length_at_start_of_frame = 0,
            is_first_frame = True, framing_bytes = 0, header_bytes = 0\<rparr>;
          f \<leftarrow> advertise opt c f;
          (c, f) \<leftarrow> foldM (Encode_header opt env) hs (c\<lparr>advertise_table_size_change := False\<rparr>, f);
          f \<leftarrow> Framer_FinishFrame opt True f;
          Some (c, fr_output f) }"
  by (simp add: EncodeHeaders_def Framer_def advertise_def Let_def)

lemma block_sent:
  assumes o: "good_options opt" and e: "good_env env" "list_all (good_header env) hs"
    and l: "paired N c p" and N: "N + length hs + 1 < 2 ^ 32"
    and r: "room (costs hs) p" "dynamic_table_updates_allowed p \<noteq> 0"
  shows "\<exists>c' F q log mdss. (\<forall>pre. EncodeHeaders opt env hs c pre =
       do { f \<leftarrow> F (Framer_BeginFrame \<lparr>fr_output = pre, header_idx = 0, output_length_at_start_of_frame = 0,
              is_first_frame = True, framing_bytes = 0, header_bytes = 0\<rparr>);
            f \<leftarrow> Framer_FinishFrame opt True f; Some (c', fr_output f) }) \<and>
     sends opt F p q \<and> coupled (N + length hs + 1) log (hc_table c') q \<and> cached_ok log c' \<and>
     received (concat mdss) p q \<and> list_all2 (stands_for env) hs mdss \<and> \<not> advertise_table_size_change c'"
proof -
  obtain log p1 where 1: "sends opt (advertise opt c) p p1" "coupled (N + 1) log (hc_table c) p1" "cached_ok log c" "received [] p p1"
    by (rule sent_size [OF o l _ priority_none [OF r(1)] r(2)]) (use N in simp_all)
  let ?c = "c\<lparr>advertise_table_size_change := False\<rparr>"
  have "room (costs hs) p1" using room_received [OF r(1) 1(4)] by simp
  with sent_headers [OF o e, where c = ?c and N = "N + 1" and log = log and p = p1] 1(2,3) N obtain c' G q log' mdss where
    2: "\<And>f. foldM (Encode_header opt env) hs (?c, f) = do { f \<leftarrow> G f; Some (c', f) }" "sends opt G p1 q"
      "coupled (N + 1 + length hs) log' (hc_table c') q" "cached_ok log' c'" "received (concat mdss) p1 q" "list_all2 (stands_for env) hs mdss"
      "\<not> advertise_table_size_change c'" by auto
  show ?thesis
    using sends_then [OF 1(1) 2(2)] received_append [OF 1(4) 2(5)] 2(3,4,6,7)
    by (intro exI [of _ c'] exI [of _ "\<lambda>f. do { f \<leftarrow> advertise opt c f; G f }"] exI [of _ q] exI [of _ log'] exI [of _ mdss])
      (simp add: EncodeHeaders_advertise 2(1) bind_assoc Let_def)
qed

text \<open>The frames that come out.\<close>

lemma framed:
  assumes o: "good_options opt" and F: "adds opt u F"
  shows "\<exists>ps f f'. F (Framer_BeginFrame \<lparr>fr_output = pre, header_idx = 0, output_length_at_start_of_frame = 0,
       is_first_frame = True, framing_bytes = 0, header_bytes = 0\<rparr>) = Some f \<and> Framer_FinishFrame opt True f = Some f' \<and>
     fr_output f' = pre @ block_frames opt ps \<and> concat ps = u \<and> ps \<noteq> [] \<and> list_all (\<lambda>x. length x \<le> max_frame_size opt) ps"
proof -
  have "fr_ok opt pre [] [] (Framer_BeginFrame \<lparr>fr_output = pre, header_idx = 0, output_length_at_start_of_frame = 0,
       is_first_frame = True, framing_bytes = 0, header_bytes = 0\<rparr>)"
    by (simp add: fr_ok_def Framer_BeginFrame_def kDataFrameHeaderSize_def)
  from addsE [OF F this] obtain f ps cur where f: "F (Framer_BeginFrame \<lparr>fr_output = pre, header_idx = 0, output_length_at_start_of_frame = 0,
       is_first_frame = True, framing_bytes = 0, header_bytes = 0\<rparr>) = Some f" "fr_ok opt pre ps cur f" "concat ps @ cur = u" by auto
  from fr_ok_finish [OF f(2) o, of True] obtain f' where
    "Framer_FinishFrame opt True f = Some f'" "fr_output f' = pre @ closed_frames opt True ps @ frame_header opt (ps = []) True (length cur) @ cur" by blast
  then show ?thesis using f
    by (intro exI [of _ "ps @ [cur]"] exI [of _ f] exI [of _ f']) (auto simp: block_frames_def fr_ok_def list_all_iff)
qed

text \<open>One payload after another; the last one ends the block.\<close>

fun parse_payloads :: "octets list \<Rightarrow> hpack_parser \<Rightarrow> (hpack_error option \<times> hpack_parser) option" where
  "parse_payloads [] p = Some (None, p)"
| "parse_payloads (x # xs) p =
     do { (e, p) \<leftarrow> HPackParser_Parse x (xs = []) p; if e \<noteq> None then Some (e, p) else parse_payloads xs p }"

lemma parse_payloads_concat:
  "xs \<noteq> [] \<Longrightarrow> parser_ok p \<Longrightarrow> length (unparsed_bytes p @ concat xs) \<le> 2 ^ 29 \<Longrightarrow>
   parse_payloads xs p = HPackParser_Parse (concat xs) True p"
proof (induction xs arbitrary: p)
  case (Cons x xs)
  show ?case
  proof (cases "xs = []")
    case True
    obtain e q where "HPackParser_Parse x True p = Some (e, q)" using Parse_total [OF Cons.prems(2), of x True] Cons.prems(3) True by auto
    then show ?thesis using True by simp
  next
    case False
    obtain e q where q: "HPackParser_Parse x False p = Some (e, q)" "parser_ok q" "length (unparsed_bytes q) \<le> length (unparsed_bytes p @ x)"
      using Parse_total [OF Cons.prems(2), of x False] Cons.prems(3) by auto
    then have "parse_payloads xs q = HPackParser_Parse (concat xs) True q" using Cons.IH [OF False q(2)] Cons.prems(3) by simp
    then show ?thesis using Parse_append [OF Cons.prems(2), of x "concat xs" True] Cons.prems(3) q(1) False by auto
  qed
qed simp

lemma parse_sent:
  assumes g: "goes u p (Through (length u) q)" and q: "hp_priority q = Priority_None" and p: "unparsed_bytes p = []"
  shows "HPackParser_Parse u fin p = Some (None, q)"
proof -
  have a: "aligned (u @ []) (Input u)" using aligned_Input [of u] by simp
  have past: "aligned [] (past (length u) (Input u))" using aligned_past [OF aligned_Input [of u], of "length u"] by simp
  then have "end_of_stream (past (length u) (Input u))" using rest_Nil [of "past (length u) (Input u)"] by (simp add: aligned_def)
  then have "ParseInputInner (past (length u) (Input u)) q = Some (True, past (length u) (Input u), q)"
    using q by (simp add: ParseInputInner_def) (subst parse_loop.simps, simp)
  moreover have "ParseInputInner (Input u) p = ParseInputInner (past (length u) (Input u)) q" using g a by (simp only: goes.simps)
  ultimately have "ParseInput (Input u) fin p = Some (None, q)" by (simp add: ParseInput_def)
  then show ?thesis using Parse_fresh [OF p] by metis
qed

text \<open>The payloads of a sequence of frames, by the three octets of the length that each header begins with.\<close>

function payloads :: "octets \<Rightarrow> octets list" where
  "payloads s =
     (if length s < 9 then []
      else let n = (unat (s ! 0) * 256 + unat (s ! 1)) * 256 + unat (s ! 2)
           in take n (drop 9 s) # payloads (drop (9 + n) s))"
  by auto
termination by (relation "measure length") auto

declare payloads.simps [simp del]

lemma payloads_frame:
  assumes "length x < 2 ^ 24"
  shows "payloads (frame_header opt first b (length x) @ x @ s) = x # payloads s"
proof -
  let ?n = "length x"
  have "?n div 2 ^ 16 < 256" using assms by (simp add: less_mult_imp_div_less)
  then have "unat (of_nat (?n div 2 ^ 16) :: u8) = ?n div 2 ^ 8 div 2 ^ 8"
    by (simp add: unsigned_of_nat take_bit_nat_eq_self div_mult2_eq [symmetric])
  moreover have "unat (of_nat (?n div 2 ^ 8) :: u8) = ?n div 2 ^ 8 mod 2 ^ 8" "unat (of_nat ?n :: u8) = ?n mod 2 ^ 8"
    by (simp_all add: unsigned_of_nat take_bit_eq_mod)
  ultimately have n: "(unat (of_nat (?n div 2 ^ 16) :: u8) * 256 + unat (of_nat (?n div 2 ^ 8) :: u8)) * 256 + unat (of_nat ?n :: u8) = ?n"
    using div_mult_mod_eq [of "?n div 2 ^ 8" "2 ^ 8"] div_mult_mod_eq [of ?n "2 ^ 8"] by simp
  let ?f = "frame_header opt first b ?n"
  have l: "length ?f = 9" by (simp add: frame_header_def)
  have i: "(?f @ x @ s) ! 0 = of_nat (?n div 2 ^ 16)" "(?f @ x @ s) ! 1 = of_nat (?n div 2 ^ 8)" "(?f @ x @ s) ! 2 = of_nat ?n"
    by (simp_all add: frame_header_def)
  have d: "\<not> length (?f @ x @ s) < 9" "take ?n (drop 9 (?f @ x @ s)) = x" "drop (9 + ?n) (?f @ x @ s) = s" using l by simp_all
  show ?thesis by (subst payloads.simps) (simp only: d(1) if_False i n Let_def d(2,3))
qed

lemma payloads_closed: "list_all (\<lambda>x. length x < 2 ^ 24) ps \<Longrightarrow> payloads (closed_frames opt first ps @ s) = ps @ payloads s"
  by (induction ps arbitrary: first) (simp_all add: payloads_frame)

lemma payloads_block:
  assumes "ps \<noteq> []" "list_all (\<lambda>x. length x < 2 ^ 24) ps"
  shows "payloads (block_frames opt ps) = ps"
proof -
  have "list_all (\<lambda>x. length x < 2 ^ 24) (butlast ps)" "length (last ps) < 2 ^ 24"
    using assms by (auto simp: list_all_iff dest: in_set_butlastD)
  moreover have "payloads [] = []" by (subst payloads.simps) simp
  ultimately show ?thesis
    using payloads_closed [of "butlast ps"] payloads_frame [of "last ps" opt _ _ "[]"] assms(1) by (simp add: block_frames_def)
qed

lemma block_length: "length (concat ps) \<le> length (block_frames opt ps) \<or> ps = []"
proof -
  have c: "length (concat ps) \<le> length (closed_frames opt first ps)" for first ps by (induction ps arbitrary: first) (simp_all add: frame_header_def le_SucI trans_le_add2)
  have "length (concat ps) = length (concat (butlast ps)) + length (last ps)" if "ps \<noteq> []"
    using that by (cases ps rule: rev_cases) simp_all
  then show ?thesis using c [of "butlast ps" True] by (auto simp: block_frames_def)
qed

section \<open>Results\<close>

lemma paired_buffer: "paired N c (BeginFrame s limit b q p) = paired N c p"
  unfolding paired_def by (simp add: BeginFrame_def parser_ok_def coupled_def)

lemma frames_sent:
  assumes o: "good_options opt" and e: "good_env env" "list_all (good_header env) hs"
    and l: "paired N c p" and N: "N + length hs + 1 < 2 ^ 32" and r: "costs hs \<le> unat limit"
  shows "\<exists>c' ps q log mdss. EncodeHeaders opt env hs c pre = Some (c', pre @ block_frames opt ps) \<and> ps \<noteq> [] \<and>
     list_all (\<lambda>x. length x \<le> max_frame_size opt) ps \<and>
     HPackParser_Parse (concat ps) True (BeginFrame (Some []) limit b Priority_None p) = Some (None, q) \<and> metadata_buffer q = Some (concat mdss) \<and>
     list_all2 (stands_for env) hs mdss \<and> coupled (N + length hs + 1) log (hc_table c') q \<and> cached_ok log c' \<and>
     unparsed_bytes q = [] \<and> \<not> advertise_table_size_change c'"
proof -
  let ?p = "BeginFrame (Some []) limit b Priority_None p"
  have p: "paired N c ?p" "room (costs hs) ?p" "dynamic_table_updates_allowed ?p \<noteq> 0" "unparsed_bytes ?p = []"
    using l r by (simp_all add: paired_buffer) (simp_all add: BeginFrame_def room_def paired_def)
  obtain c' F q log mdss where s: "\<And>pre. EncodeHeaders opt env hs c pre =
       do { f \<leftarrow> F (Framer_BeginFrame \<lparr>fr_output = pre, header_idx = 0, output_length_at_start_of_frame = 0,
              is_first_frame = True, framing_bytes = 0, header_bytes = 0\<rparr>);
            f \<leftarrow> Framer_FinishFrame opt True f; Some (c', fr_output f) }"
     "sends opt F ?p q" "coupled (N + length hs + 1) log (hc_table c') q" "cached_ok log c'"
     "received (concat mdss) ?p q" "list_all2 (stands_for env) hs mdss" "\<not> advertise_table_size_change c'"
    using block_sent [OF o e p(1) N p(2,3)] by blast
  obtain u where u: "adds opt u F" "goes u ?p (Through (length u) q)" using s(2) unfolding sends_def by blast
  have q: "metadata_buffer q = Some (concat mdss)" "hp_priority q = Priority_None" "unparsed_bytes q = []"
    using s(5) p(4) by (simp_all add: received_def BeginFrame_def)
  show ?thesis using framed [OF o u(1), of pre] parse_sent [OF u(2) q(2) p(4), of True] s(1,3,4,6,7) q(1,3) by fastforce
qed

lemma EncodeHeaders_result: "(\<exists>ps. EncodeHeaders opt env hs c pre = Some (c'', pre @ block_frames opt ps) \<and> P ps) \<Longrightarrow>
    EncodeHeaders opt env hs c pre = Some (c', octs) \<Longrightarrow> \<exists>ps. c'' = c' \<and> octs = pre @ block_frames opt ps \<and> P ps"
  by auto

text \<open>
  C3: hpack_frames: the compressor never gets stuck on fields it can send: it puts after what is in the output the frames
  of one header block, a HEADERS frame and then CONTINUATION frames, none with a payload above the maximum, the end of the stream in the
  first header if it is asked for and the end of the headers in the last one only.
\<close>

theorem hpack_frames:
  assumes "good_options opt" "good_env env" "list_all (good_header env) hs"
    "paired N c p" "N + length hs + 1 < 2 ^ 32" "costs hs < 2 ^ 32"
  shows "\<exists>c' ps. EncodeHeaders opt env hs c pre = Some (c', pre @ block_frames opt ps) \<and> ps \<noteq> [] \<and>
     list_all (\<lambda>x. length x \<le> max_frame_size opt) ps"
proof -
  have "costs hs \<le> unat (0xFFFFFFFF :: u32)" using assms(6) by simp
  from frames_sent [OF assms(1-5) this] show ?thesis by blast
qed

text \<open>
  C1: hpack_round_trip: what is sent is what is received. The parser of the peer, given the payloads of the frames of a
  block one after another, finds no error and delivers for every header the field that stands for it, in order; the dynamic tables,
  the indices the compressor has kept and a change of the size in between stay understood, so that the next block is read back as well.
\<close>

theorem hpack_round_trip:
  assumes "good_options opt" "good_env env" "list_all (good_header env) hs" "paired N c p" "N + length hs + 1 < 2 ^ 32"
    "EncodeHeaders opt env hs c [] = Some (c', octs)" "length octs \<le> 2 ^ 29" "costs hs \<le> unat limit"
  shows "\<exists>q mdss. parse_payloads (payloads octs) (BeginFrame (Some []) limit b Priority_None p) = Some (None, q) \<and>
     metadata_buffer q = Some (concat mdss) \<and> list_all2 (stands_for env) hs mdss \<and> paired (N + length hs + 1) c' q"
proof -
  let ?p = "BeginFrame (Some []) limit b Priority_None p"
  obtain ps q log mdss where ps: "octs = block_frames opt ps" "ps \<noteq> []" "list_all (\<lambda>x. length x \<le> max_frame_size opt) ps"
    and q: "HPackParser_Parse (concat ps) True ?p = Some (None, q)" "metadata_buffer q = Some (concat mdss)" "list_all2 (stands_for env) hs mdss"
      "coupled (N + length hs + 1) log (hc_table c') q" "cached_ok log c'" "unparsed_bytes q = []" "\<not> advertise_table_size_change c'"
    using frames_sent [OF assms(1-5,8), of "[]" b] assms(6) by auto
  have p: "parser_ok ?p" "unparsed_bytes ?p = []" using assms(4) by (simp_all add: paired_def BeginFrame_def parser_ok_def)
  have "length (concat ps) \<le> 2 ^ 29" using block_length [of ps opt] ps(1,2) assms(7) by auto
  then have l: "length (unparsed_bytes ?p @ concat ps) \<le> 2 ^ 29" using p(2) by simp
  have "list_all (\<lambda>x. length x < 2 ^ 24) ps" using ps(3) assms(1) by (auto simp: list_all_iff good_options_def)
  then have "payloads octs = ps" using payloads_block ps(1,2) by simp
  then have "parse_payloads (payloads octs) ?p = Some (None, q)" using parse_payloads_concat [OF ps(2) p(1) l] q(1) by simp
  moreover have "parser_ok q" using Parse_total [OF p(1) l, of True] q(1) by simp
  ultimately show ?thesis using q unfolding paired_def by auto
qed

text \<open>
  C40: hpack_resize_paired: a new maximum that the peer announces between two blocks, at most the 4096 bytes it starts with,
  resizes the table of the compressor, and the block that follows will tell the parser: the two are still paired.
\<close>

theorem hpack_resize_paired:
  assumes "paired N c p" "\<not> advertise_table_size_change c" "unat (min (max_usable_size c) n) \<le> 4096"
  shows "\<exists>c'. SetMaxTableSize n c = Some c' \<and> paired N c' p \<and> max_table_size (hc_table c') = min (max_usable_size c) n"
proof -
  let ?n = "min (max_usable_size c) n"
  obtain log where l: "cached_ok log c" "coupled N log (hc_table c) p" "parser_ok p" "unparsed_bytes p = []"
    using assms(1,2) by (auto simp: paired_def)
  obtain S k where S: "k \<le> N" "in_step S k (hc_table c, hp_table p, log)" using l(2) by (auto simp: coupled_def)
  have e: "enc_ok (unat (sp_size S)) (map msize (sp_entries S)) k (hc_table c)" using S(2) by (simp add: in_step_def)
  have n: "unat ?n + 31 < 2 ^ 32" using assms(3) by simp
  from SetMaxSize_ok [OF e n] obtain b t where t: "SetMaxSize ?n (hc_table c) = Some (b, t)"
    "enc_ok (unat ?n) (newest (\<lambda>s. s) (unat ?n) (map msize (sp_entries S))) k t" by blast
  then have "max_table_size t = ?n" by (auto simp: enc_ok_def enc_at_def)
  moreover have "\<not> b \<Longrightarrow> t = hc_table c" using t(1) by (auto simp: SetMaxSize_def Let_def split: if_splits bind_splits)
  ultimately show ?thesis using t(1) l assms(2,3) unfolding paired_def
    by (cases b) (auto simp: SetMaxTableSize_def Let_def)
qed

text \<open>
  C9: hpack_status_desyncs: a status without an entry of its own in the static table makes the two lose each other. It is sent as a literal
  that the parser adds to its table, but the compressor does not count it: the newest of its own entries still has for it the dynamic index 62,
  under which the parser now finds the status.
\<close>

theorem hpack_status_desyncs:
  assumes "good_options opt" "paired N c p" "\<not> advertise_table_size_change c" "49 \<le> unat (max_table_size (hc_table c))" "49 \<le> unat limit"
    "s \<notin> {200, 204, 206, 304, 400, 404, 500}"
  shows "\<exists>octs q. EncodeHeaders opt env [Http_status s] c [] = Some (c, octs) \<and>
     HPackParser_Parse (concat (payloads octs)) True (BeginFrame (Some []) limit b Priority_None p) = Some (None, q) \<and>
     DynamicIndex (hc_table c) (tail_remote_index (hc_table c) + table_elems (hc_table c)) = 62 \<and>
     Lookup_hpack 62 (hp_table q) = Some (field_of (Http_status s))"
proof -
  let ?p = "BeginFrame (Some []) limit b Priority_None p" and ?v = "gpr_ltoa (unat s)" and ?F = "EmitLitHdrWithNonBinaryStringKeyIncIdx opt (octets_of '':status'') (gpr_ltoa (unat s))"
  define md where "md = field (octets_of '':status'') ?v"
  have v: "short ?v" using gpr_ltoa_length [of s] by (simp add: short_def)
  have m: "32 \<le> msize md" "msize md \<le> 49" using gpr_ltoa_length [of s] msize_known [of "'':status''" ?v] by (simp_all add: md_def)
  obtain log S k where S: "in_step S k (hc_table c, hp_table p, log)" using assms(2,3) by (auto simp: paired_def coupled_def)
  then have sp: "dec_ok S (hp_table p)" "sp_max S = 4096" "unat (sp_size S) \<le> 4096" "unat (max_table_size (hc_table c)) = unat (sp_size S)"
    by (auto simp: in_step_def enc_ok_def enc_at_def)
  let ?S = "S\<lparr>sp_entries := newest msize (unat (sp_size S) - msize md) (sp_entries S) @ [md]\<rparr>"
  have "\<not> sp_size S > sp_max S" "\<not> msize md > unat (sp_size S)" using m(2) assms(4) sp(2-4) by (simp_all add: word_less_nat_alt)
  then have add: "spec_Add md S = (True, ?S)" by (simp add: spec_Add_def)
  from Add_ok [OF sp(1) m(1)] obtain d where d: "Add_to_table md (hp_table p) = Some (True, d)" "dec_ok ?S d" unfolding add by auto
  have look: "spec_Lookup 62 ?S = Some md" by (simp add: spec_Lookup_def)
  have p: "room 49 ?p" "hp_table ?p = hp_table p" "unparsed_bytes ?p = []" using assms(2,5) by (simp_all add: paired_def BeginFrame_def room_def)
  let ?q = "(deliver md ?p)\<lparr>hp_table := d\<rparr>"
  have a: "do_action (Add_field md) j ?p = Some (True, j, ?q) \<and> received [md] ?p ?q" for j using do_add [OF _ p(1) m(2)] d(1) p(2) by simp
  have "emits opt t ?F (Add_field md)" for t using emits_fields(1) [OF assms(1) short_lit v] plain_keys by (simp add: md_def)
  then have s: "sends opt ?F ?p ?q" using priority_none [OF p(1)] by (intro sends_action [OF _ _ _ conjunct1 [OF a]]) simp_all
  then obtain u where u: "adds opt u ?F" "goes u ?p (Through (length u) ?q)" unfolding sends_def by blast
  have E: "Encode_header opt env (Http_status s) = on_framer ?F" using assms(6) by (auto simp: Encode_status_def Let_def)
  have "c\<lparr>advertise_table_size_change := False\<rparr> = c" using assms(3) by simp
  then obtain ps where ps: "EncodeHeaders opt env [Http_status s] c [] = Some (c, block_frames opt ps)" "concat ps = u" "ps \<noteq> []"
      "list_all (\<lambda>x. length x \<le> max_frame_size opt) ps"
    using framed [OF assms(1) u(1), of "[]"] assms(3) E unfolding EncodeHeaders_advertise advertise_def by (auto simp: on_framer_def Let_def)
  have "list_all (\<lambda>x. length x < 2 ^ 24) ps" using ps(4) assms(1) by (auto simp: list_all_iff good_options_def)
  then have "concat (payloads (block_frames opt ps)) = u" using payloads_block ps(2,3) by simp
  moreover have "HPackParser_Parse u True ?p = Some (None, ?q)" using priority_none [OF p(1)] by (intro parse_sent [OF u(2) _ p(3)]) simp
  moreover have "Lookup_hpack 62 d = Some (Some md)" using Lookup_ok [OF d(2)] look by simp
  moreover have "DynamicIndex (hc_table c) (tail_remote_index (hc_table c) + table_elems (hc_table c)) = 62"
    by (simp add: DynamicIndex_def kLastStaticEntry_def)
  ultimately show ?thesis using ps(1) by (intro exI [of _ "block_frames opt ps"] exI [of _ ?q]) (simp add: md_def)
qed

abbreviation small_frames :: encode_options where
  "small_frames \<equiv> \<lparr>stream_id = 1, is_end_of_stream = True, use_true_binary_metadata = False, max_frame_size = 16\<rparr>"

abbreviation plain_env :: encode_env where
  "plain_env \<equiv> \<lparr>is_equivalent = (=), ratio_in_range = (\<lambda>_ _. False), env_now = 0\<rparr>"

lemma small_good: "good_options small_frames" "good_env plain_env"
  by (simp_all add: good_options_def good_env_def)

theorem hpack_status_desyncs_witness:
  "\<exists>octs q. EncodeHeaders small_frames plain_env [Http_status 201] HPackCompressor [] = Some (HPackCompressor, octs) \<and>
     HPackParser_Parse (concat (payloads octs)) True
       (BeginFrame (Some []) 49 EndOfHeaders Priority_None (HPackParser EndOfHeaders Priority_None 2 0 0)) = Some (None, q) \<and>
     DynamicIndex (hc_table HPackCompressor) (tail_remote_index (hc_table HPackCompressor) + table_elems (hc_table HPackCompressor)) = 62 \<and>
     Lookup_hpack 62 (hp_table q) = Some (field_of (Http_status 201))"
  by (rule hpack_status_desyncs [OF small_good(1) new_paired])
    (simp_all add: HPackCompressor_def HPackEncoderTable_def kInitialTableSize_def)

theorem hpack_resize_paired_witness:
  "\<exists>c'. SetMaxTableSize 100 HPackCompressor = Some c' \<and> paired 0 c' (HPackParser EndOfHeaders Priority_None 2 0 0) \<and>
     max_table_size (hc_table c') = 100"
  using hpack_resize_paired [OF new_paired, of 100 EndOfHeaders Priority_None 2 0 0]
  by (simp add: HPackCompressor_def kInitialTableSize_def)

theorem hpack_frames_witness:
  "\<exists>c' ps. EncodeHeaders small_frames plain_env [Http_path [0x2f, 0x61], Http_method Method_post, Grpc_timeout 1000] HPackCompressor [] =
     Some (c', block_frames small_frames ps) \<and> ps \<noteq> [] \<and> list_all (\<lambda>x. length x \<le> 16) ps"
proof -
  have "FromDuration 1000 \<noteq> None" by code_simp
  moreover have "i64 1000 \<noteq> None" by (simp add: i64_def INT64_MIN_def INT64_MAX_def)
  ultimately have h: "list_all (good_header plain_env) [Http_path [0x2f, 0x61], Http_method Method_post, Grpc_timeout 1000]"
    by (simp add: short_def)
  have "costs [Http_path [0x2f, 0x61], Http_method Method_post, Grpc_timeout 1000] < 2 ^ 32"
    by (simp add: costs_def cost_def msize_known)
  from hpack_frames [OF small_good h new_paired _ this, of "[]"] show ?thesis by simp
qed

lemma first_index: "\<exists>t. AllocateIndex 39 HPackEncoderTable = Some (1, t)"
proof -
  have "enc_ok 4096 [] 0 HPackEncoderTable" using in_step_init by (simp add: in_step_def spec_init_def)
  from AllocateIndex_ok [OF this, of 39] obtain i t where i: "AllocateIndex 39 HPackEncoderTable = Some (i, t)" "unat i = 1" by auto
  then have "i = 1" by (simp add: word_unat_eq_iff)
  then show ?thesis using i by blast
qed

lemma post_block:
  "\<exists>c'. EncodeHeaders small_frames plain_env [Http_path [0x2f, 0x61], Http_method Method_post] HPackCompressor [] =
     Some (c', [0, 0, 11, 1, 5, 0, 0, 0, 1, 0x40, 5, 0x3a, 0x70, 0x61, 0x74, 0x68, 2, 0x2f, 0x61, 0x83])"
proof -
  let ?f = "\<lparr>fr_output = [0, 0, 0, 0, 0, 0, 0, 0, 0], header_idx = 0, output_length_at_start_of_frame = 9, is_first_frame = True, framing_bytes = 0, header_bytes = 0\<rparr>"
  let ?g = "?f\<lparr>fr_output := fr_output ?f @ [0x40, 5, 0x3a, 0x70, 0x61, 0x74, 0x68, 2, 0x2f, 0x61], header_bytes := 10\<rparr>"
  let ?h = "?g\<lparr>fr_output := fr_output ?g @ [0x83], header_bytes := 11\<rparr>"
  have 1: "EmitLitHdrWithNonBinaryStringKeyIncIdx small_frames (octets_of '':path'') [0x2f, 0x61] ?f = Some ?g"
    and 2: "EmitIndexed small_frames 3 ?g = Some ?h" by code_simp+
  obtain t where t: "AllocateIndex 39 HPackEncoderTable = Some (1, t)" using first_index by blast
  have 4: "\<exists>f. Framer_FinishFrame small_frames True ?h = Some f \<and>
      fr_output f = [0, 0, 11, 1, 5, 0, 0, 0, 1, 0x40, 5, 0x3a, 0x70, 0x61, 0x74, 0x68, 2, 0x2f, 0x61, 0x83]"
    by (simp add: Framer_FinishFrame_def CurrentFrameSize_def FillHeader_def assert_c_def kDataFrameHeaderSize_def
        GRPC_CHTTP2_FRAME_HEADER_def GRPC_CHTTP2_DATA_FLAG_END_STREAM_def GRPC_CHTTP2_DATA_FLAG_END_HEADERS_def)
  have 5: "Encode_path small_frames [0x2f, 0x61] (HPackCompressor, ?f) = Some (HPackCompressor\<lparr>path_index := [([0x2f, 0x61], 1)], hc_table := t\<rparr>, ?g)"
    unfolding Encode_path_def EmitTo_def using 1 t by (simp add: HPackCompressor_def find_value_def kEntryOverhead_def MaxEntrySize_def Let_def)
  have 6: "Framer small_frames HPackCompressor [] = Some (HPackCompressor, ?f)"
    by (simp add: Framer_def Framer_BeginFrame_def kDataFrameHeaderSize_def HPackCompressor_def Let_def numeral_eq_Suc)
  show ?thesis using 2 4 5 6 by (auto simp: EncodeHeaders_def Encode_method_def on_framer_def)
qed

theorem hpack_round_trip_witness:
  "\<exists>c' q. EncodeHeaders small_frames plain_env [Http_path [0x2f, 0x61], Http_method Method_post] HPackCompressor [] =
       Some (c', [0, 0, 11, 1, 5, 0, 0, 0, 1, 0x40, 5, 0x3a, 0x70, 0x61, 0x74, 0x68, 2, 0x2f, 0x61, 0x83]) \<and>
     parse_payloads (payloads [0, 0, 11, 1, 5, 0, 0, 0, 1, 0x40, 5, 0x3a, 0x70, 0x61, 0x74, 0x68, 2, 0x2f, 0x61, 0x83])
       (BeginFrame (Some []) 100 EndOfStream Priority_None (HPackParser EndOfHeaders Priority_None 2 0 0)) = Some (None, q) \<and>
     metadata_buffer q = Some [field (octets_of '':path'') (octets_of ''/a''), field (octets_of '':method'') (octets_of ''POST'')] \<and> paired 3 c' q"
proof -
  let ?hs = "[Http_path [0x2f, 0x61], Http_method Method_post]"
  obtain c' where c': "EncodeHeaders small_frames plain_env ?hs HPackCompressor [] =
     Some (c', [0, 0, 11, 1, 5, 0, 0, 0, 1, 0x40, 5, 0x3a, 0x70, 0x61, 0x74, 0x68, 2, 0x2f, 0x61, 0x83])" using post_block by blast
  have h: "list_all (good_header plain_env) ?hs" by (simp add: short_def)
  have k: "costs ?hs \<le> unat (100 :: u32)" by (simp add: costs_def cost_def msize_known)
  have a: "octets_of ''/a'' = [0x2f, 0x61]" by code_simp
  from hpack_round_trip [OF small_good h new_paired _ c' _ k, where b = EndOfStream] show ?thesis
    using c' by (auto simp: list_all2_Cons1 stands_for_def a numeral_3_eq_3)
qed

end
