(* ===== verification/Spec2Isabelle.thy ===== *)
theory Spec2Isabelle
  imports Upb_Strtable Upb_Inttable Uv_Core Uv_Inet Uv_Threadpool Uv_Io
    Grpc_Json_Writer Grpc_Json_Safe Grpc_Json_Numbers Grpc_Avl Grpc_Time Grpc_Timeout Grpc_Percent Grpc_Huffman Grpc_Hpack_Round
begin

text \<open>
  A development for the native libraries that the iOS application of this repository is built with: the C and C++
  code under \<open>src/lib/ios/Pods\<close>. The application itself is written in Dart and calls Firebase, whose client talks
  to its server through gRPC. The development follows what carries the logic of that path: the tables of the protocol buffers
  library (\<open>gRPC-Core/third_party/upb\<close>), the event loop (\<open>Libuv-gRPC\<close>) and the codecs of gRPC itself (\<open>gRPC-Core/src/core\<close>),
  of which HPACK, the header compression of HTTP/2, is the largest: a compressor on one side and a parser on the other, each with a
  table that has to follow the table of its peer.

  \<^bold>\<open>How a definition corresponds to the code.\<close> A definition has the name of the function, type or macro it models, with
  a prefix or suffix where HOL has the name already or the code overloads it (\<open>Encode_path\<close> for \<open>Encode(HttpPathMetadata, ...)\<close>). Structures
  are records, enumerations are datatypes, integers of the code are words of their width, \<open>size_t\<close> and positions are \<open>nat\<close>
  where the code cannot exceed the memory, and signed 64-bit arithmetic is \<open>int\<close> with the overflow checked (\<open>i64\<close>).
  State is passed and returned. \<open>None\<close> is an execution that the code does not define or does not survive: a null or out of range access, a
  signed overflow, a failed assertion (debug assertions included), an \<open>abort()\<close>, a loop without end. A theorem that gives \<open>Some\<close>
  says that none of these happens. Errors that the code reports are values: a constructor of an error type, an error code or
  a boolean. Loops are recursive functions with a proof of termination; where the code can loop forever the function is a
  \<open>partial_function (option)\<close> and the theorems prove that it returns. No fuel is used.

  \<^bold>\<open>Foundations.\<close> \<open>Machine_Base\<close>: words, array accesses, assertions, \<open>foldM\<close>, linked paths. \<open>Grpc_Base\<close>:
  octets and 64-bit integers of the C++ code.

  \<^bold>\<open>upb.\<close> \<open>Upb_Table\<close> models the open hash table of \<open>table.c\<close> (chained scatter with Brent's variation) for any key; its
  locale \<open>tab_hash\<close> states what a hash function and a comparison have to satisfy and proves lookup, insertion and removal.
  \<open>Upb_Inttable\<close> and \<open>Upb_Strtable\<close> interpret it for the two tables of the code: the integer table with its array part, its growth and its
  compaction, and the string table with Wyhash and copied keys. The main results: the integer table refines a map
  (\<open>inttable_refines_map\<close>), and what goes wrong after a compaction (\<open>inttable_remove_after_compact\<close>) or a failed allocation.

  \<^bold>\<open>libuv.\<close> \<open>Uv_Heap\<close> is the pointer heap of \<open>heap-inl.h\<close> with every write in its order; the locale \<open>heap_order\<close> holds
  its proofs, and \<open>Uv_Timer\<close> interprets it for \<open>timer_less_than\<close>. \<open>Uv_Queue\<close> shows that the macros of \<open>queue.h\<close> implement
  lists (locale \<open>queue_ops\<close>), as which the other theories keep queues. \<open>Uv_Handle\<close> has the flags and reference counts of \<open>uv-common.h\<close>
  and the state of a loop, \<open>Uv_Timer\<close> \<open>timer.c\<close>, \<open>Uv_Watcher\<close> \<open>loop-watcher.c\<close>, \<open>Uv_Core\<close> the closing of handles and
  \<open>uv_run\<close>, \<open>Uv_Io\<close> the I/O watchers of \<open>core.c\<close>, \<open>Uv_Inet\<close> the addresses of \<open>inet.c\<close>. What a callback does is an argument of
  the definitions, any partial function on the state. The theorems about whole runs take callbacks that make any list of calls: starting and
  stopping timers (\<open>timer_cbs\<close>, for \<open>uv__run_timers\<close>) or watchers (\<open>watcher_cbs\<close>, for \<open>uv__run_idle\<close> and its siblings); they say
  exactly which handles are called and in which order. A timer callback that starts a timer with a timeout of 0 is excluded: the code
  runs that timer again in the same call. The lemmas about closing handles take callbacks that leave the loop alone (\<open>quiet\<close>).
  \<open>Uv_Threadpool\<close> is \<open>threadpool.c\<close> as a
  relation on states, one step for each critical section, so that its invariants hold for every interleaving: no wake-up is lost
  (\<open>pool_never_stalls\<close>), every request is in one place and reported once (\<open>pool_requests_conserved\<close>).

  \<^bold>\<open>gRPC: values.\<close> \<open>Grpc_Avl\<close> is the persistent tree of \<open>avl.h\<close>, refined to a finite map. \<open>Grpc_Time\<close> and \<open>Grpc_Timeout\<close> are
  the saturating arithmetic of \<open>time.cc\<close>, with the exact result of its comparison (\<open>time_similar_exact\<close>) and of its conversions, and the rounding, printing and parsing of timeouts (\<open>timeout_encoding.cc\<close>);
  \<open>Grpc_Percent\<close>, \<open>Grpc_Base64\<close> and \<open>Grpc_Huffman\<close> the encodings of header values, each with its round trip;
  \<open>Grpc_Compression\<close> the names and sets of compression algorithms. \<open>Grpc_Json_Reader\<close> and \<open>Grpc_Json_Writer\<close> are the state machine that
  parses JSON in place and the writer; \<open>Grpc_Json_Grammar\<close> is the language as an inductive relation, from which \<open>Grpc_Json_Strings\<close> and
  \<open>Grpc_Json_Complete\<close> derive that every document is read with its value, \<open>Grpc_Json_Safe\<close> that every input is handled,
  \<open>Grpc_Json_Numbers\<close> which numbers are accepted, in closed form (more than JSON has, \<open>json_numbers_exact\<close>), and the writer
  that what it prints is read back (\<open>json_round_trip\<close>).

  \<^bold>\<open>gRPC: HPACK.\<close> \<open>Grpc_Hpack_Table\<close> has the table of the compressor (sizes and indices only) and the ring buffer of the parser; the
  locale \<open>evicting_table\<close> holds what both do when they evict, and is interpreted for each. \<open>hpack_tables_in_step\<close> says that an index the
  compressor still holds finds its field in the table of the parser. \<open>Grpc_Hpack_Input\<close>, \<open>Grpc_Hpack_Strings\<close> and \<open>Grpc_Hpack_Decode\<close> are the
  numbers and strings (the four Huffman tables are in the model as they are in the code; the locale \<open>code_reader\<close> proves the decoder
  against the table of the codes). \<open>Grpc_Hpack_Parser\<close> is \<open>hpack_parser.cc\<close> with all its instructions; \<open>Grpc_Hpack_Chunks\<close> shows that it survives
  every input (\<open>hpack_parser_total\<close>) and that it does not matter where the input is cut (\<open>hpack_parse_chunks\<close>).
  \<open>Grpc_Hpack_Encoder\<close> is \<open>hpack_encoder.cc\<close>: frames, instructions and the caches of the compressor. Four theories lead to its round trip:
  \<open>Grpc_Hpack_Framing\<close> (what is added to a block, however the frames are cut), \<open>Grpc_Hpack_Wire\<close> (each instruction is read as
  it is written), \<open>Grpc_Hpack_Link\<close> and \<open>Grpc_Hpack_Fields\<close> (caches and tables stay together, for each kind of header), and
  \<open>Grpc_Hpack_Round\<close> (whole blocks, one after another, with changes of the table size between them). The relation \<open>paired\<close> is the invariant of a
  connection; \<open>hpack_round_trip\<close> preserves it, \<open>hpack_resize_paired\<close> too, and \<open>hpack_status_desyncs\<close> shows the header that breaks it.

  \<^bold>\<open>Bounds.\<close> Tables of the parser hold entries of at least 32 bytes, as its size formula guarantees; inputs of the parser are
  at most \<open>2 ^ 29\<close> octets at a time, so that no 32-bit length wraps; a connection allocates fewer than \<open>2 ^ 32\<close> indices, after which the
  code wraps its counters; the peers start with tables of 4096 bytes and resize within them; frames hold 16 to \<open>2 ^ 24 - 1\<close> octets.
  JSON nests at most 255 containers, the limit of the code. Times of libuv are unsigned 64-bit milliseconds and saturate where the code
  saturates.

  \<^bold>\<open>Parameters.\<close> Code that is not in the repository is an argument: the allocator (\<open>ok\<close>), the clock, callbacks of the
  application, what \<open>Slice::is_equivalent\<close> says of two slices, the floating-point ratio of two timeouts.

  \<^bold>\<open>Not modelled.\<close> System calls and what only wraps them (\<open>fs.c\<close>, \<open>stream.c\<close>, \<open>kqueue.c\<close>, threads, processes); the channels, filters and transports of
  gRPC above the codecs, which are closures scheduled on an execution context with reference counts and virtual calls; floating-point
  functions; generated code (the accessors of the protocol buffers); assembly and cryptography
  (BoringSSL); headers of binary frameworks without their sources (Firestore); the Dart user interface. Logging, tracing and statistics are left out of the
  functions that are modelled.
\<close>

end
